(* ===== verification/Prelude.thy ===== *)
theory Prelude
  imports Main "HOL-Library.Word" "HOL-Library.Monad_Syntax"
begin

text \<open>
  Shared base of the development: names for the machine types of \<open>rtdef.h\<close>, the collections the
  component proofs feed to the simplifier, and generic facts about lists, options and words.

  \<^bold>\<open>Faults.\<close> A kernel function whose C body may fail a check is modelled by a function into
  \<open>option\<close>: the value \<open>None\<close> stands for an \<open>RT_ASSERT\<close> that does not hold (the handler of
  \<open>kservice.c\<close> then loops for ever) and for undefined behaviour (an array index out of range, a
  pointer that is not what the code takes it for). Error codes of the API are ordinary results.
\<close>

unbundle bit_operations_syntax

subsection \<open>Machine types of rtdef.h on the 32-bit target\<close>

type_synonym u8 = "8 word"
type_synonym u16 = "16 word"
type_synonym u32 = "32 word"

type_synonym rt_err_t = int

abbreviation (input) RT_EOK :: rt_err_t where "RT_EOK \<equiv> 0"
abbreviation (input) RT_ERROR :: rt_err_t where "RT_ERROR \<equiv> 1"
abbreviation (input) RT_ETIMEOUT :: rt_err_t where "RT_ETIMEOUT \<equiv> 2"
abbreviation (input) RT_EFULL :: rt_err_t where "RT_EFULL \<equiv> 3"
abbreviation (input) RT_EEMPTY :: rt_err_t where "RT_EEMPTY \<equiv> 4"
abbreviation (input) RT_ENOMEM :: rt_err_t where "RT_ENOMEM \<equiv> 5"
abbreviation (input) RT_ENOSYS :: rt_err_t where "RT_ENOSYS \<equiv> 6"
abbreviation (input) RT_EBUSY :: rt_err_t where "RT_EBUSY \<equiv> 7"
abbreviation (input) RT_EIO :: rt_err_t where "RT_EIO \<equiv> 8"
abbreviation (input) RT_EINTR :: rt_err_t where "RT_EINTR \<equiv> 9"
abbreviation (input) RT_EINVAL :: rt_err_t where "RT_EINVAL \<equiv> 10"

text \<open>\<open>RT_ASSERT(EX)\<close>: continue if the condition holds, fault otherwise.\<close>

definition RT_ASSERT :: "bool \<Rightarrow> unit option" where
  "RT_ASSERT b = (if b then Some () else None)"

lemma RT_ASSERT_simps [simp]:
  "RT_ASSERT True = Some ()" "RT_ASSERT False = None"
  by (simp_all add: RT_ASSERT_def)

lemma RT_ASSERT_eq_Some [simp]: "RT_ASSERT b = Some u \<longleftrightarrow> b"
  by (simp add: RT_ASSERT_def)

text \<open>\<open>RT_ALIGN\<close> and \<open>RT_ALIGN_DOWN\<close> on 32-bit sizes, with the wrap-around of the addition.\<close>

definition RT_ALIGN :: "u32 \<Rightarrow> u32 \<Rightarrow> u32" where
  "RT_ALIGN sz align = (sz + align - 1) AND NOT (align - 1)"

definition RT_ALIGN_DOWN :: "u32 \<Rightarrow> u32 \<Rightarrow> u32" where
  "RT_ALIGN_DOWN sz align = sz AND NOT (align - 1)"

abbreviation (input) RT_ALIGN_SIZE :: u32 where "RT_ALIGN_SIZE \<equiv> 4"

text \<open>Clearing the low bits of a word rounds it down.\<close>

lemma unat_and_not_mask: "unat (x AND NOT (mask n) :: 'a::len word) = unat x - unat x mod 2 ^ n"
proof -
  have "(x AND mask n) + (x AND NOT (mask n)) = (x AND mask n) OR (x AND NOT (mask n))"
    by (rule disjunctive_add) (auto simp: bit_simps)
  also have "\<dots> = x" by (rule bit_word_eqI) (auto simp: bit_simps)
  finally have "x AND NOT (mask n) = x - (x AND mask n)" by (metis add_diff_cancel_left')
  moreover have "unat (x AND mask n) = unat x mod 2 ^ n"
    by (simp add: take_bit_eq_mask[symmetric] unsigned_take_bit_eq take_bit_eq_mod[where 'a = nat])
  moreover have "x AND mask n \<le> x" by (simp add: word_and_le2)
  ultimately show ?thesis by (simp add: unat_sub)
qed

lemma mask_numerals: "(3 :: u32) = mask 2" "(7 :: u32) = mask 3"
  by (simp_all add: mask_eq_exp_minus_1)

lemma align_down_4: "unat (RT_ALIGN_DOWN x 4) = unat x - unat x mod 4"
  using unat_and_not_mask[of x 2] by (simp add: RT_ALIGN_DOWN_def mask_numerals)

lemma align_down_8: "unat (RT_ALIGN_DOWN x 8) = unat x - unat x mod 8"
  using unat_and_not_mask[of x 3] by (simp add: RT_ALIGN_DOWN_def mask_numerals)

text \<open>Rounding a size up: the next multiple of 4, unless the addition wraps.\<close>

lemma align_up_4:
  assumes "unat sz \<le> 2 ^ 32 - 4"
  shows "unat (RT_ALIGN sz 4) = (unat sz + 3) div 4 * 4" "4 dvd unat (RT_ALIGN sz 4)"
    "unat sz \<le> unat (RT_ALIGN sz 4)"
proof -
  have "unat (sz + 3) = unat sz + 3" using assms by (simp add: unat_word_ariths)
  moreover have "RT_ALIGN sz 4 = (sz + 3) AND NOT (mask 2)" by (simp add: RT_ALIGN_def mask_numerals add.commute)
  ultimately show e: "unat (RT_ALIGN sz 4) = (unat sz + 3) div 4 * 4"
    using unat_and_not_mask[of "sz + 3" 2] minus_mod_eq_div_mult[of "unat sz + 3" 4] by simp
  show "4 dvd unat (RT_ALIGN sz 4)" "unat sz \<le> unat (RT_ALIGN sz 4)" unfolding e by simp_all
qed

end
