(* ===== verification/List_Store.thy ===== *)
theory List_Store
  imports Prelude
begin

text \<open>
  The list level of the intrusive lists of \<open>include/rtservice.h\<close>: a store of lists identified by
  their heads. A node is in at most one list, and the store records which one, because the C node
  carries its own \<open>next\<close> and \<open>prev\<close> pointers. Linking a node that is already linked would corrupt
  both lists in C; here it is \<open>None\<close>.

  The locale \<open>list_store\<close> is the interface the kernel components use: what each operation does to
  the members of every list. Theory \<open>Rt_List\<close> shows that the pointer code implements it.
\<close>

record ('q, 'n) lstore =
  ls_q :: "'q \<Rightarrow> 'n list"
  ls_in :: "'n \<Rightarrow> 'q option"

definition ls_empty :: "('q, 'n) lstore" where
  "ls_empty = \<lparr>ls_q = (\<lambda>_. []), ls_in = (\<lambda>_. None)\<rparr>"

definition ls_inv :: "('q, 'n) lstore \<Rightarrow> bool" where
  "ls_inv L \<longleftrightarrow> (\<forall>q. distinct (ls_q L q)) \<and> (\<forall>q n. n \<in> set (ls_q L q) \<longleftrightarrow> ls_in L n = Some q)"

definition ls_linked :: "('q, 'n) lstore \<Rightarrow> 'n \<Rightarrow> bool" where
  "ls_linked L n \<longleftrightarrow> ls_in L n \<noteq> None"

definition ls_remove :: "'n \<Rightarrow> ('q, 'n) lstore \<Rightarrow> ('q, 'n) lstore" where
  "ls_remove n L =
     (case ls_in L n of
        None \<Rightarrow> L
      | Some q \<Rightarrow> L\<lparr>ls_q := (ls_q L)(q := remove1 n (ls_q L q)), ls_in := (ls_in L)(n := None)\<rparr>)"

definition ls_push_back :: "'q \<Rightarrow> 'n \<Rightarrow> ('q, 'n) lstore \<Rightarrow> ('q, 'n) lstore option" where
  "ls_push_back q n L =
     (if ls_in L n = None
      then Some (L\<lparr>ls_q := (ls_q L)(q := ls_q L q @ [n]), ls_in := (ls_in L)(n := Some q)\<rparr>)
      else None)"

definition ls_push_front :: "'q \<Rightarrow> 'n \<Rightarrow> ('q, 'n) lstore \<Rightarrow> ('q, 'n) lstore option" where
  "ls_push_front q n L =
     (if ls_in L n = None
      then Some (L\<lparr>ls_q := (ls_q L)(q := n # ls_q L q), ls_in := (ls_in L)(n := Some q)\<rparr>)
      else None)"

text \<open>\<open>insert_upto i n xs\<close> puts \<open>n\<close> behind the first \<open>i\<close> elements.\<close>

definition insert_upto :: "nat \<Rightarrow> 'n \<Rightarrow> 'n list \<Rightarrow> 'n list" where
  "insert_upto i n xs = take i xs @ n # drop i xs"

definition ls_insert_at :: "'q \<Rightarrow> nat \<Rightarrow> 'n \<Rightarrow> ('q, 'n) lstore \<Rightarrow> ('q, 'n) lstore option" where
  "ls_insert_at q i n L =
     (if ls_in L n = None
      then Some (L\<lparr>ls_q := (ls_q L)(q := insert_upto i n (ls_q L q)), ls_in := (ls_in L)(n := Some q)\<rparr>)
      else None)"

text \<open>
  \<open>rt_list_init\<close> of a head or of a node: re-initialising one that is in use would leave dangling
  pointers in its neighbours.
\<close>

definition ls_init_head :: "'q \<Rightarrow> ('q, 'n) lstore \<Rightarrow> ('q, 'n) lstore option" where
  "ls_init_head q L = (if ls_q L q = [] then Some L else None)"

definition ls_init_node :: "'n \<Rightarrow> ('q, 'n) lstore \<Rightarrow> ('q, 'n) lstore option" where
  "ls_init_node n L = (if ls_in L n = None then Some L else None)"

lemma ls_empty_simps [simp]: "ls_q ls_empty q = []" "ls_in ls_empty n = None"
  by (simp_all add: ls_empty_def)

lemma ls_inv_empty [simp]: "ls_inv ls_empty"
  by (simp add: ls_inv_def)

lemma set_insert_upto [simp]: "set (insert_upto i n xs) = insert n (set xs)"
proof -
  have "set (take i xs) \<union> set (drop i xs) = set xs"
    by (metis append_take_drop_id set_append)
  then show ?thesis by (auto simp: insert_upto_def)
qed

lemma distinct_insert_upto [simp]:
  "distinct (insert_upto i n xs) \<longleftrightarrow> n \<notin> set xs \<and> distinct xs"
proof -
  have d: "distinct xs \<longleftrightarrow> distinct (take i xs @ drop i xs)"
    and s: "set xs = set (take i xs) \<union> set (drop i xs)"
    by (simp, metis append_take_drop_id set_append)
  show ?thesis
    unfolding d s insert_upto_def distinct_append by auto
qed

lemma insert_upto_length: "insert_upto (length xs) n xs = xs @ [n]"
  by (simp add: insert_upto_def)

lemma insert_upto_0 [simp]: "insert_upto 0 n xs = n # xs"
  by (simp add: insert_upto_def)

subsection \<open>The interface\<close>

locale list_store =
  fixes members :: "'s \<Rightarrow> 'q \<Rightarrow> 'n list"
    and linked :: "'s \<Rightarrow> 'n \<Rightarrow> bool"
    and remove :: "'n \<Rightarrow> 's \<Rightarrow> 's"
    and insert_at :: "'q \<Rightarrow> nat \<Rightarrow> 'n \<Rightarrow> 's \<Rightarrow> 's option"
    and inv :: "'s \<Rightarrow> bool"
  assumes distinct_members: "inv s \<Longrightarrow> distinct (members s q)"
    and one_list: "inv s \<Longrightarrow> n \<in> set (members s q) \<Longrightarrow> n \<in> set (members s q') \<Longrightarrow> q = q'"
    and linked_iff: "inv s \<Longrightarrow> linked s n \<longleftrightarrow> (\<exists>q. n \<in> set (members s q))"
    and inv_remove: "inv s \<Longrightarrow> inv (remove n s)"
    and members_remove: "inv s \<Longrightarrow> members (remove n s) q = remove1 n (members s q)"
    and insert_linked: "linked s n \<Longrightarrow> insert_at q i n s = None"
    and insert_unlinked: "inv s \<Longrightarrow> \<not> linked s n \<Longrightarrow>
      \<exists>s'. insert_at q i n s = Some s' \<and> inv s' \<and>
        (\<forall>q'. members s' q' = (if q' = q then insert_upto i n (members s q) else members s q'))"
begin

lemma not_linked_remove: "inv s \<Longrightarrow> \<not> linked (remove n s) n"
  using distinct_members[of s] by (auto simp: linked_iff inv_remove members_remove)

lemma linked_remove_other: "inv s \<Longrightarrow> m \<noteq> n \<Longrightarrow> linked (remove n s) m \<longleftrightarrow> linked s m"
  by (auto simp: linked_iff inv_remove members_remove)

lemma remove_unlinked: "inv s \<Longrightarrow> \<not> linked s n \<Longrightarrow> members (remove n s) q = members s q"
  by (simp add: members_remove linked_iff remove1_idem)

text \<open>A node moved to another list is in that list only.\<close>

lemma move_members:
  assumes "inv s" "insert_at q i n (remove n s) = Some s'"
  shows "n \<in> set (members s' q') \<longleftrightarrow> q' = q"
proof -
  have nl: "\<not> linked (remove n s) n" by (rule not_linked_remove) fact
  obtain t where t: "insert_at q i n (remove n s) = Some t" "inv t"
    and m: "\<And>q'. members t q' =
      (if q' = q then insert_upto i n (members (remove n s) q) else members (remove n s) q')"
    using insert_unlinked[OF inv_remove[OF assms(1)] nl, of q i] by auto
  then have "s' = t" using assms(2) by simp
  moreover have "n \<notin> set (members (remove n s) q')"
    using nl by (auto simp: linked_iff inv_remove assms(1))
  ultimately show ?thesis by (auto simp: m)
qed

lemma insert_never_fails_after_remove:
  "inv s \<Longrightarrow> \<exists>s'. insert_at q i n (remove n s) = Some s' \<and> inv s'"
  using insert_unlinked[OF inv_remove not_linked_remove] by blast

end

lemma ls_in_iff: "ls_inv L \<Longrightarrow> n \<in> set (ls_q L q) \<longleftrightarrow> ls_in L n = Some q"
  by (auto simp: ls_inv_def)

lemma ls_inv_distinct: "ls_inv L \<Longrightarrow> distinct (ls_q L q)"
  by (auto simp: ls_inv_def)

lemma ls_q_remove: "ls_inv L \<Longrightarrow> ls_q (ls_remove n L) q = remove1 n (ls_q L q)"
  by (auto simp: ls_remove_def ls_inv_def remove1_idem split: option.splits)

lemma ls_in_remove [simp]: "ls_in (ls_remove n L) m = (if m = n then None else ls_in L m)"
  by (auto simp: ls_remove_def split: option.splits)

lemma ls_inv_remove [simp]: "ls_inv L \<Longrightarrow> ls_inv (ls_remove n L)"
  by (auto simp: ls_inv_def ls_remove_def split: option.splits)

lemma ls_remove_unlinked [simp]: "ls_in L n = None \<Longrightarrow> ls_remove n L = L"
  by (simp add: ls_remove_def)

lemma ls_remove_twice [simp]: "ls_remove n (ls_remove n L) = ls_remove n L"
  by simp

lemma ls_insert_at_Some:
  "ls_insert_at q i n L = Some L' \<longleftrightarrow>
     ls_in L n = None \<and>
     L' = L\<lparr>ls_q := (ls_q L)(q := insert_upto i n (ls_q L q)), ls_in := (ls_in L)(n := Some q)\<rparr>"
  by (auto simp: ls_insert_at_def)

lemma ls_inv_insert_at: "ls_inv L \<Longrightarrow> ls_insert_at q i n L = Some L' \<Longrightarrow> ls_inv L'"
  by (auto simp: ls_insert_at_Some ls_inv_def)

interpretation ls: list_store ls_q ls_linked ls_remove ls_insert_at ls_inv
proof unfold_locales
  fix L :: "('a, 'b) lstore" and n q i
  assume inv: "ls_inv L" and nl: "\<not> ls_linked L n"
  then obtain L' where L': "ls_insert_at q i n L = Some L'"
    by (auto simp: ls_linked_def ls_insert_at_def)
  then show "\<exists>L'. ls_insert_at q i n L = Some L' \<and> ls_inv L' \<and>
      (\<forall>q'. ls_q L' q' = (if q' = q then insert_upto i n (ls_q L q) else ls_q L q'))"
    using ls_inv_insert_at[OF inv L'] by (auto simp: ls_insert_at_Some)
qed (auto simp: ls_inv_distinct ls_in_iff ls_linked_def ls_q_remove ls_insert_at_def)

lemma ls_push_back_insert_at: "ls_push_back q n L = ls_insert_at q (length (ls_q L q)) n L"
  by (simp add: ls_push_back_def ls_insert_at_def insert_upto_length)

lemma ls_push_front_insert_at: "ls_push_front q n L = ls_insert_at q 0 n L"
  by (simp add: ls_push_front_def ls_insert_at_def)

lemma ls_push_back_Some:
  "ls_push_back q n L = Some L' \<longleftrightarrow>
     ls_in L n = None \<and>
     L' = L\<lparr>ls_q := (ls_q L)(q := ls_q L q @ [n]), ls_in := (ls_in L)(n := Some q)\<rparr>"
  by (auto simp: ls_push_back_def)

lemma ls_push_front_Some:
  "ls_push_front q n L = Some L' \<longleftrightarrow>
     ls_in L n = None \<and>
     L' = L\<lparr>ls_q := (ls_q L)(q := n # ls_q L q), ls_in := (ls_in L)(n := Some q)\<rparr>"
  by (auto simp: ls_push_front_def)

lemma ls_inv_push_back: "ls_inv L \<Longrightarrow> ls_push_back q n L = Some L' \<Longrightarrow> ls_inv L'"
  by (simp add: ls_push_back_insert_at ls_inv_insert_at)

lemma ls_inv_push_front: "ls_inv L \<Longrightarrow> ls_push_front q n L = Some L' \<Longrightarrow> ls_inv L'"
  by (simp add: ls_push_front_insert_at ls_inv_insert_at)

lemma ls_init_head_Some [simp]: "ls_init_head q L = Some L' \<longleftrightarrow> ls_q L q = [] \<and> L' = L"
  by (auto simp: ls_init_head_def)

lemma ls_init_node_Some [simp]: "ls_init_node n L = Some L' \<longleftrightarrow> ls_in L n = None \<and> L' = L"
  by (auto simp: ls_init_node_def)

end
