(* ===== verification/Rt_List.thy ===== *)
theory Rt_List
  imports List_Store
begin

text \<open>
  The intrusive doubly linked lists of \<open>include/rtservice.h\<close>, on two levels.

  \<^item> The pointer level: an \<open>rt_heap\<close> gives every list node its \<open>next\<close> and \<open>prev\<close> pointer, and
    \<open>rt_list_insert_after\<close>, \<open>rt_list_insert_before\<close>, \<open>rt_list_remove\<close>, \<open>rt_list_isempty\<close> and
    \<open>rt_list_len\<close> perform the C assignments in their order.
  \<^item> The list level: an \<open>lstore\<close> gives every list head the list of its member nodes and every
    node the head of the list it is in, if any. The kernel components work on this level.

  The relation \<open>represents\<close> ties the two levels together, and the simulation lemmas show that each
  pointer operation does on the heap what its list operation does on the store. A list operation
  is \<open>None\<close> where the C code would corrupt a list: linking a node that is still linked.
\<close>

subsection \<open>The pointer level\<close>

record 'a rt_heap =
  nxt :: "'a \<Rightarrow> 'a"
  prv :: "'a \<Rightarrow> 'a"

definition set_next :: "'a \<Rightarrow> 'a \<Rightarrow> 'a rt_heap \<Rightarrow> 'a rt_heap" where
  "set_next p v h = h\<lparr>nxt := (nxt h)(p := v)\<rparr>"

definition set_prev :: "'a \<Rightarrow> 'a \<Rightarrow> 'a rt_heap \<Rightarrow> 'a rt_heap" where
  "set_prev p v h = h\<lparr>prv := (prv h)(p := v)\<rparr>"

definition rt_list_init :: "'a \<Rightarrow> 'a rt_heap \<Rightarrow> 'a rt_heap" where
  "rt_list_init l h = set_prev l l (set_next l l h)"

definition rt_list_insert_after :: "'a \<Rightarrow> 'a \<Rightarrow> 'a rt_heap \<Rightarrow> 'a rt_heap" where
  "rt_list_insert_after l n h =
     (let h = set_prev (nxt h l) n h;
          h = set_next n (nxt h l) h;
          h = set_next l n h
      in set_prev n l h)"

definition rt_list_insert_before :: "'a \<Rightarrow> 'a \<Rightarrow> 'a rt_heap \<Rightarrow> 'a rt_heap" where
  "rt_list_insert_before l n h =
     (let h = set_next (prv h l) n h;
          h = set_prev n (prv h l) h;
          h = set_prev l n h
      in set_next n l h)"

definition rt_list_remove :: "'a \<Rightarrow> 'a rt_heap \<Rightarrow> 'a rt_heap" where
  "rt_list_remove n h =
     (let h = set_prev (nxt h n) (prv h n) h;
          h = set_next (prv h n) (nxt h n) h
      in set_next n n (set_prev n n h))"

definition rt_list_isempty :: "'a \<Rightarrow> 'a rt_heap \<Rightarrow> bool" where
  "rt_list_isempty l h \<longleftrightarrow> nxt h l = l"

text \<open>The loop of \<open>rt_list_len\<close> ends only on a closed ring, so its result is optional.\<close>

partial_function (option) rt_list_len_loop :: "'a \<Rightarrow> 'a rt_heap \<Rightarrow> 'a \<Rightarrow> nat \<Rightarrow> nat option" where
  "rt_list_len_loop l h p n =
     (if nxt h p \<noteq> l then rt_list_len_loop l h (nxt h p) (n + 1) else Some n)"

definition rt_list_len :: "'a \<Rightarrow> 'a rt_heap \<Rightarrow> nat option" where
  "rt_list_len l h = rt_list_len_loop l h l 0"

text \<open>A doubly linked segment: from \<open>a\<close> over the nodes \<open>xs\<close> to \<open>b\<close>.\<close>

fun seg :: "'a rt_heap \<Rightarrow> 'a \<Rightarrow> 'a list \<Rightarrow> 'a \<Rightarrow> bool" where
  "seg h a [] b \<longleftrightarrow> nxt h a = b \<and> prv h b = a"
| "seg h a (x # xs) b \<longleftrightarrow> nxt h a = x \<and> prv h x = a \<and> seg h x xs b"

lemma seg_append [simp]:
  "seg h a (xs @ y # ys) b \<longleftrightarrow> seg h a xs y \<and> seg h y ys b"
  by (induction xs arbitrary: a) auto

lemma seg_cong:
  assumes "seg h a xs b"
    and "\<And>p. p = a \<or> p \<in> set xs \<Longrightarrow> nxt h' p = nxt h p"
    and "\<And>p. p = b \<or> p \<in> set xs \<Longrightarrow> prv h' p = prv h p"
  shows "seg h' a xs b"
  using assms
proof (induction xs arbitrary: a)
  case (Cons x xs)
  have "seg h' x xs b"
    by (rule Cons.IH) (use Cons.prems in auto)
  then show ?case using Cons.prems by auto
qed auto

lemma seg_prv_last: "seg h a xs b \<Longrightarrow> prv h b = last (a # xs)"
  by (induction xs arbitrary: a) auto

lemma seg_nxt_hd: "seg h a xs b \<Longrightarrow> nxt h a = hd (xs @ [b])"
  by (cases xs) auto

text \<open>Splicing a fresh node between two neighbours, and taking one out.\<close>

definition splice :: "'a \<Rightarrow> 'a \<Rightarrow> 'a \<Rightarrow> 'a rt_heap \<Rightarrow> 'a rt_heap" where
  "splice p n y h = h\<lparr>nxt := (nxt h)(p := n, n := y), prv := (prv h)(y := n, n := p)\<rparr>"

lemma insert_before_splice:
  assumes "l \<noteq> n" "prv h l = p" "p \<noteq> n"
  shows "rt_list_insert_before l n h = splice p n l h"
  by (rule rt_heap.equality)
    (use assms in \<open>auto simp: rt_list_insert_before_def splice_def set_next_def set_prev_def\<close>)

lemma insert_after_splice:
  assumes "l \<noteq> n" "nxt h l = y" "y \<noteq> n"
  shows "rt_list_insert_after l n h = splice l n y h"
  by (rule rt_heap.equality)
    (use assms in \<open>auto simp: rt_list_insert_after_def splice_def set_next_def set_prev_def\<close>)

lemma seg_splice:
  assumes "seg h a (us @ vs) b" "n \<notin> {a, b} \<union> set us \<union> set vs"
    and "distinct (us @ vs)" "a \<notin> set us \<union> set vs" "b \<notin> set us \<union> set vs"
    and p: "p = last (a # us)" and y: "y = hd (vs @ [b])"
  shows "seg (splice p n y h) a (us @ n # vs) b"
proof -
  have yb: "y = b \<or> y \<in> set vs" using y by (cases vs) auto
  have pa: "p = a \<or> p \<in> set us" using p by (cases us) auto
  have left: "seg h a us y" and right: "vs \<noteq> [] \<Longrightarrow> seg h y (tl vs) b"
    using assms(1) y by (cases vs; simp)+
  have 1: "seg (splice p n y h) a us n"
  proof (cases us rule: rev_cases)
    case Nil
    then show ?thesis using p assms(2) yb pa by (auto simp: splice_def)
  next
    case (snoc us' u)
    then have pu: "p = u" using p by simp
    have "seg h a us' u" using left snoc by simp
    then have "seg (splice p n y h) a us' u"
      by (rule seg_cong) (use pu assms(2-5) snoc yb in \<open>auto simp: splice_def\<close>)
    then show ?thesis using snoc pu assms(2) by (auto simp: splice_def)
  qed
  have 2: "seg (splice p n y h) n vs b"
  proof (cases vs)
    case Nil
    then show ?thesis using y assms(2) pa by (auto simp: splice_def)
  next
    case (Cons v vs')
    then have yv: "y = v" using y by simp
    have "seg h v vs' b" using right Cons yv by simp
    then have "seg (splice p n y h) v vs' b"
      by (rule seg_cong) (use yv assms(2-5) Cons pa in \<open>auto simp: splice_def\<close>)
    then show ?thesis using Cons yv assms(2) by (auto simp: splice_def)
  qed
  show ?thesis using 1 2 by simp
qed

lemma seg_remove:
  assumes "seg h a (us @ n # vs) b" "n \<notin> {a, b} \<union> set us \<union> set vs"
    and "distinct (us @ vs)" "a \<notin> set us \<union> set vs" "b \<notin> set us \<union> set vs"
  shows "seg (rt_list_remove n h) a (us @ vs) b"
    and "nxt (rt_list_remove n h) n = n" "prv (rt_list_remove n h) n = n"
proof -
  define p where "p = last (a # us)"
  define y where "y = hd (vs @ [b])"
  have left: "seg h a us n" and right: "seg h n vs b" using assms(1) by auto
  have pn: "prv h n = p" and ny: "nxt h n = y"
    using seg_prv_last[OF left] seg_nxt_hd[OF right] p_def y_def by auto
  have yb: "y = b \<or> y \<in> set vs" using y_def by (cases vs) auto
  have pa: "p = a \<or> p \<in> set us" using p_def by (cases us) auto
  have ne: "p \<noteq> n" "y \<noteq> n" using yb pa assms(2) by auto
  let ?h = "rt_list_remove n h"
  have h': "?h = h\<lparr>nxt := (nxt h)(p := y, n := n), prv := (prv h)(y := p, n := n)\<rparr>"
    by (rule rt_heap.equality)
      (use pn ny ne in \<open>auto simp: rt_list_remove_def set_next_def set_prev_def\<close>)
  show "nxt ?h n = n" "prv ?h n = n" by (simp_all add: h')
  have 1: "seg ?h a us y"
  proof (cases us rule: rev_cases)
    case Nil
    then show ?thesis using p_def ne h' pn left by auto
  next
    case (snoc us' u)
    then have pu: "p = u" using p_def by simp
    have "seg h a us' u" using left snoc by simp
    then have "seg ?h a us' u"
      by (rule seg_cong) (use pu assms(2-5) snoc yb in \<open>auto simp: h'\<close>)
    then show ?thesis using snoc pu ne by (auto simp: h')
  qed
  show "seg ?h a (us @ vs) b"
  proof (cases vs)
    case Nil
    then show ?thesis using 1 y_def by simp
  next
    case (Cons v vs')
    then have yv: "y = v" using y_def by simp
    have "seg h v vs' b" using right Cons by simp
    then have "seg ?h v vs' b"
      by (rule seg_cong) (use yv assms(2-5) Cons pa in \<open>auto simp: h'\<close>)
    then show ?thesis using Cons yv 1 by simp
  qed
qed

subsection \<open>The pointer heap implements the list store\<close>

datatype ('q, 'n) lnode = Head 'q | Node 'n

definition represents :: "('q, 'n) lnode rt_heap \<Rightarrow> ('q, 'n) lstore \<Rightarrow> bool" where
  "represents h L \<longleftrightarrow>
     ls_inv L \<and>
     (\<forall>q. seg h (Head q) (map Node (ls_q L q)) (Head q)) \<and>
     (\<forall>n. ls_in L n = None \<longrightarrow> nxt h (Node n) = Node n \<and> prv h (Node n) = Node n)"

lemma represents_inv: "represents h L \<Longrightarrow> ls_inv L"
  by (simp add: represents_def)

lemma represents_seg:
  "represents h L \<Longrightarrow> ls_q L q = us @ vs \<Longrightarrow>
   seg h (Head q) (map Node us @ map Node vs) (Head q)"
  by (metis map_append represents_def)

text \<open>The neighbours of a splice point, and the nodes of one list as seen from another.\<close>

lemma last_in_ring: "last (Head q # map Node us) \<in> insert (Head q) (Node ` set us)"
  by (cases us rule: rev_cases) auto

lemma hd_in_ring: "hd (map Node vs @ [Head q]) \<in> insert (Head q) (Node ` set vs)"
  by (cases vs) auto

lemma represents_splice:
  assumes r: "represents h L" and u: "ls_in L n = None"
    and q: "ls_q L q = us @ vs" and i: "i = length us"
    and p: "p = last (Head q # map Node us)" and y: "y = hd (map Node vs @ [Head q])"
    and L': "ls_insert_at q i n L = Some L'"
  shows "represents (splice p (Node n) y h) L'"
proof -
  let ?h = "splice p (Node n) y h"
  have inv: "ls_inv L" by (rule represents_inv[OF r])
  have fresh: "n \<notin> set (ls_q L q')" for q' using u by (simp add: ls_in_iff[OF inv])
  have d: "distinct (us @ vs)" using ls_inv_distinct[OF inv, of q] q by simp
  have pin: "p \<in> insert (Head q) (Node ` set us)" unfolding p by (rule last_in_ring)
  have yin: "y \<in> insert (Head q) (Node ` set vs)" unfolding y by (rule hd_in_ring)
  have ring: "seg ?h (Head q) (map Node us @ Node n # map Node vs) (Head q)"
    by (rule seg_splice[OF represents_seg[OF r q] _ _ _ _ p y])
      (use d fresh[of q] q in \<open>auto simp: distinct_map inj_on_def\<close>)
  have other: "seg ?h (Head q') (map Node (ls_q L q')) (Head q')" if "q' \<noteq> q" for q'
  proof (rule seg_cong)
    show "seg h (Head q') (map Node (ls_q L q')) (Head q')"
      using r by (simp add: represents_def)
    have "x \<in> set (ls_q L q') \<Longrightarrow> x \<notin> set us \<union> set vs" for x
      using ls.one_list[OF inv, of x q' q] that q by auto
    then show "\<And>x. x = Head q' \<or> x \<in> set (map Node (ls_q L q')) \<Longrightarrow> nxt ?h x = nxt h x"
      and "\<And>x. x = Head q' \<or> x \<in> set (map Node (ls_q L q')) \<Longrightarrow> prv ?h x = prv h x"
      using pin yin that fresh[of q'] by (auto simp: splice_def)
  qed
  have self: "nxt ?h (Node m) = Node m \<and> prv ?h (Node m) = Node m" if "ls_in L' m = None" for m
  proof -
    have m: "m \<noteq> n" "ls_in L m = None" using that L' by (auto simp: ls_insert_at_Some split: if_splits)
    then have "m \<notin> set us \<union> set vs" using ls_in_iff[OF inv, of m q] q by simp
    then show ?thesis using m r pin yin by (auto simp: splice_def represents_def)
  qed
  have "ls_q L' q' = (if q' = q then us @ n # vs else ls_q L q')" for q'
    using L' q i by (simp add: ls_insert_at_Some insert_upto_def)
  then have "seg ?h (Head q') (map Node (ls_q L' q')) (Head q')" for q'
    using ring other[of q'] by (cases "q' = q") auto
  then show ?thesis
    using self ls_inv_insert_at[OF inv L'] by (simp add: represents_def)
qed

lemma ring_prv: "represents h L \<Longrightarrow> ls_q L q = us @ m # vs \<Longrightarrow> prv h (Node m) = last (Head q # map Node us)"
  using represents_seg[of h L q us "m # vs"] seg_prv_last by force

lemma ring_nxt: "represents h L \<Longrightarrow> ls_q L q = us @ m # vs \<Longrightarrow> nxt h (Node m) = hd (map Node vs @ [Head q])"
  using represents_seg[of h L q us "m # vs"] seg_nxt_hd by force

lemma ring_head_prv: "represents h L \<Longrightarrow> prv h (Head q) = last (Head q # map Node (ls_q L q))"
  using seg_prv_last by (fastforce simp: represents_def)

lemma ring_head_nxt: "represents h L \<Longrightarrow> nxt h (Head q) = hd (map Node (ls_q L q) @ [Head q])"
  using seg_nxt_hd by (fastforce simp: represents_def)

text \<open>Neither neighbour of the splice point is the unlinked node.\<close>

lemma splice_fresh:
  assumes "represents h L" "ls_in L n = None" "ls_q L q = us @ vs"
  shows "last (Head q # map Node us) \<noteq> Node n" "hd (map Node vs @ [Head q]) \<noteq> Node n"
proof -
  have "n \<notin> set us \<union> set vs"
    using assms ls_in_iff[OF represents_inv[OF assms(1)], of n q] by simp
  then show "last (Head q # map Node us) \<noteq> Node n" "hd (map Node vs @ [Head q]) \<noteq> Node n"
    using last_in_ring[of q us] hd_in_ring[of vs q] by auto
qed

lemma insert_before_head_refines:
  assumes r: "represents h L" and L': "ls_push_back q n L = Some L'"
  shows "represents (rt_list_insert_before (Head q) (Node n) h) L'"
proof -
  have u: "ls_in L n = None" using L' by (simp add: ls_push_back_Some)
  let ?p = "last (Head q # map Node (ls_q L q))"
  have "rt_list_insert_before (Head q) (Node n) h = splice ?p (Node n) (Head q) h"
    by (rule insert_before_splice)
      (use ring_head_prv[OF r] splice_fresh[OF r u, of q "ls_q L q" "[]"] in auto)
  moreover have "represents (splice ?p (Node n) (Head q) h) L'"
    by (rule represents_splice[OF r u, where us = "ls_q L q" and vs = "[]" and q = q])
      (use L' in \<open>simp_all add: ls_push_back_insert_at\<close>)
  ultimately show ?thesis by simp
qed

lemma insert_after_head_refines:
  assumes r: "represents h L" and L': "ls_push_front q n L = Some L'"
  shows "represents (rt_list_insert_after (Head q) (Node n) h) L'"
proof -
  have u: "ls_in L n = None" using L' by (simp add: ls_push_front_Some)
  let ?y = "hd (map Node (ls_q L q) @ [Head q])"
  have "rt_list_insert_after (Head q) (Node n) h = splice (Head q) (Node n) ?y h"
    by (rule insert_after_splice)
      (use ring_head_nxt[OF r] splice_fresh[OF r u, of q "[]" "ls_q L q"] in auto)
  moreover have "represents (splice (Head q) (Node n) ?y h) L'"
    by (rule represents_splice[OF r u, where us = "[]" and vs = "ls_q L q" and q = q])
      (use L' in \<open>simp_all add: ls_push_front_insert_at\<close>)
  ultimately show ?thesis by simp
qed

lemma insert_before_node_refines:
  assumes r: "represents h L" and L': "ls_insert_at q i n L = Some L'"
    and i: "i < length (ls_q L q)" "m = ls_q L q ! i"
  shows "represents (rt_list_insert_before (Node m) (Node n) h) L'"
proof -
  let ?us = "take i (ls_q L q)" and ?vs = "drop (Suc i) (ls_q L q)"
  have q: "ls_q L q = ?us @ m # ?vs" using i by (simp add: id_take_nth_drop)
  have u: "ls_in L n = None" using L' by (simp add: ls_insert_at_Some)
  let ?p = "last (Head q # map Node ?us)"
  have "rt_list_insert_before (Node m) (Node n) h = splice ?p (Node n) (Node m) h"
    by (rule insert_before_splice)
      (use ring_prv[OF r q] splice_fresh[OF r u, of q ?us "m # ?vs"] q in auto)
  moreover have "represents (splice ?p (Node n) (Node m) h) L'"
    by (rule represents_splice[OF r u q _ _ _ L']) (use i in auto)
  ultimately show ?thesis by simp
qed

lemma insert_after_node_refines:
  assumes r: "represents h L" and L': "ls_insert_at q (Suc i) n L = Some L'"
    and i: "i < length (ls_q L q)" "m = ls_q L q ! i"
  shows "represents (rt_list_insert_after (Node m) (Node n) h) L'"
proof -
  let ?us = "take i (ls_q L q)" and ?vs = "drop (Suc i) (ls_q L q)"
  have q: "ls_q L q = ?us @ m # ?vs" using i by (simp add: id_take_nth_drop)
  then have q': "ls_q L q = (?us @ [m]) @ ?vs" by simp
  have u: "ls_in L n = None" using L' by (simp add: ls_insert_at_Some)
  let ?y = "hd (map Node ?vs @ [Head q])"
  have "rt_list_insert_after (Node m) (Node n) h = splice (Node m) (Node n) ?y h"
    by (rule insert_after_splice)
      (use ring_nxt[OF r q] splice_fresh[OF r u q'] in auto)
  moreover have "represents (splice (Node m) (Node n) ?y h) L'"
    by (rule represents_splice[OF r u q' _ _ _ L']) (use i in auto)
  ultimately show ?thesis by simp
qed

lemma remove_refines:
  assumes r: "represents h L"
  shows "represents (rt_list_remove (Node n) h) (ls_remove n L)"
proof (cases "ls_in L n")
  case None
  then have "nxt h (Node n) = Node n" "prv h (Node n) = Node n"
    using r by (auto simp: represents_def)
  then have "rt_list_remove (Node n) h = h"
    by (intro rt_heap.equality) (auto simp: rt_list_remove_def set_next_def set_prev_def)
  then show ?thesis using r None by simp
next
  case (Some q)
  let ?h = "rt_list_remove (Node n) h"
  have inv: "ls_inv L" by (rule represents_inv[OF r])
  have "n \<in> set (ls_q L q)" using Some by (simp add: ls_in_iff[OF inv])
  then obtain us vs where q: "ls_q L q = us @ n # vs" by (meson split_list)
  have d: "distinct (us @ n # vs)" using ls_inv_distinct[OF inv, of q] q by simp
  have rest: "seg ?h (Head q) (map Node us @ map Node vs) (Head q)"
    and self: "nxt ?h (Node n) = Node n" "prv ?h (Node n) = Node n"
    using seg_remove[of h "Head q" "map Node us" "Node n" "map Node vs" "Head q"]
      represents_seg[OF r q] d by (auto simp: distinct_map inj_on_def)
  have pin: "prv h (Node n) \<in> insert (Head q) (Node ` set us)"
    and yin: "nxt h (Node n) \<in> insert (Head q) (Node ` set vs)"
    using ring_prv[OF r q] ring_nxt[OF r q] last_in_ring[of q us] hd_in_ring[of vs q] by auto
  have h': "?h = h\<lparr>nxt := (nxt h)(prv h (Node n) := nxt h (Node n), Node n := Node n),
                 prv := (prv h)(nxt h (Node n) := prv h (Node n), Node n := Node n)\<rparr>"
    by (rule rt_heap.equality) (use pin yin d in \<open>auto simp: rt_list_remove_def set_next_def set_prev_def\<close>)
  have other: "seg ?h (Head q') (map Node (ls_q L q')) (Head q')" if "q' \<noteq> q" for q'
  proof (rule seg_cong)
    show "seg h (Head q') (map Node (ls_q L q')) (Head q')"
      using r by (simp add: represents_def)
    have "x \<in> set (ls_q L q') \<Longrightarrow> x \<notin> set us \<union> {n} \<union> set vs" for x
      using ls.one_list[OF inv, of x q' q] that q by auto
    then show "\<And>x. x = Head q' \<or> x \<in> set (map Node (ls_q L q')) \<Longrightarrow> nxt ?h x = nxt h x"
      and "\<And>x. x = Head q' \<or> x \<in> set (map Node (ls_q L q')) \<Longrightarrow> prv ?h x = prv h x"
      using pin yin that unfolding h' by auto
  qed
  have "nxt ?h (Node m) = Node m \<and> prv ?h (Node m) = Node m" if "m \<noteq> n" "ls_in L m = None" for m
  proof -
    have "m \<notin> set us \<union> set vs" using ls_in_iff[OF inv, of m q] q that by simp
    then show ?thesis using that r pin yin unfolding h' by (auto simp: represents_def)
  qed
  moreover have "ls_q (ls_remove n L) q' = (if q' = q then us @ vs else ls_q L q')" for q'
    using Some q d by (auto simp: ls_remove_def remove1_append)
  ultimately show ?thesis
    using rest other self inv by (simp add: represents_def)
qed

lemma isempty_refines: "represents h L \<Longrightarrow> rt_list_isempty (Head q) h \<longleftrightarrow> ls_q L q = []"
  by (cases "ls_q L q") (auto simp: rt_list_isempty_def ring_head_nxt)

lemma len_loop_seg:
  "seg h a xs b \<Longrightarrow> b \<notin> set xs \<Longrightarrow> rt_list_len_loop b h a n = Some (n + length xs)"
  by (induction xs arbitrary: a n) (auto simp: rt_list_len_loop.simps)

lemma len_refines: "represents h L \<Longrightarrow> rt_list_len (Head q) h = Some (length (ls_q L q))"
  unfolding rt_list_len_def
  using len_loop_seg[of h "Head q" "map Node (ls_q L q)" "Head q" 0]
  by (auto simp: represents_def)

text \<open>All heads and nodes initialised by \<open>rt_list_init\<close>: every list is empty.\<close>

lemma init_refines:
  assumes "\<And>x. nxt h x = x \<and> prv h x = x"
  shows "represents h ls_empty"
  using assms by (simp add: represents_def)

lemma rt_list_init_self: "nxt (rt_list_init l h) l = l \<and> prv (rt_list_init l h) l = l"
  by (simp add: rt_list_init_def set_next_def set_prev_def)

end
