(* ===== verification/Fifo.thy ===== *)
theory Fifo
  imports Prelude
begin

text \<open>
  The contract of a bounded first-in first-out buffer, as the ring buffer of the drivers
  component, the mailbox and the message queue of the kernel offer it: what one \<open>put\<close> and one
  \<open>get\<close> do to the contents. The lemmas about sequences of operations are proved once, from the
  contract, and reused for every interpretation.
\<close>

text \<open>A sequence of \<open>put\<close>s, and \<open>n\<close> \<open>get\<close>s with the values they return.\<close>

fun put_all :: "('a \<Rightarrow> 's \<Rightarrow> 's option) \<Rightarrow> 'a list \<Rightarrow> 's \<Rightarrow> 's option" where
  "put_all put [] s = Some s"
| "put_all put (x # xs) s = do { s \<leftarrow> put x s; put_all put xs s }"

fun get_many :: "('s \<Rightarrow> ('a \<times> 's) option) \<Rightarrow> nat \<Rightarrow> 's \<Rightarrow> ('a list \<times> 's) option" where
  "get_many get 0 s = Some ([], s)"
| "get_many get (Suc n) s =
     do { (x, s) \<leftarrow> get s; (xs, s) \<leftarrow> get_many get n s; Some (x # xs, s) }"

locale bounded_fifo =
  fixes inv :: "'s \<Rightarrow> bool"
    and contents :: "'s \<Rightarrow> 'a list"
    and cap :: "'s \<Rightarrow> nat"
    and fits :: "'s \<Rightarrow> 'a \<Rightarrow> bool" \<comment> \<open>the elements a buffer takes\<close>
    and put :: "'a \<Rightarrow> 's \<Rightarrow> 's option"
    and get :: "'s \<Rightarrow> ('a \<times> 's) option"
  assumes bound: "inv s \<Longrightarrow> length (contents s) \<le> cap s"
    and put_ok: "inv s \<Longrightarrow> fits s x \<Longrightarrow> length (contents s) < cap s \<Longrightarrow>
      \<exists>s'. put x s = Some s' \<and> inv s' \<and> contents s' = contents s @ [x] \<and> cap s' = cap s \<and> fits s' = fits s"
    and put_full: "inv s \<Longrightarrow> length (contents s) = cap s \<Longrightarrow> put x s = None"
    and get_ok: "inv s \<Longrightarrow> contents s = x # xs \<Longrightarrow>
      \<exists>s'. get s = Some (x, s') \<and> inv s' \<and> contents s' = xs \<and> cap s' = cap s"
    and get_empty: "inv s \<Longrightarrow> contents s = [] \<Longrightarrow> get s = None"
begin

lemma put_all_ok:
  "inv s \<Longrightarrow> \<forall>x \<in> set xs. fits s x \<Longrightarrow> length (contents s) + length xs \<le> cap s \<Longrightarrow>
    \<exists>s'. put_all put xs s = Some s' \<and> inv s' \<and> contents s' = contents s @ xs \<and> cap s' = cap s"
proof (induction xs arbitrary: s)
  case (Cons x xs)
  obtain s1 where s1: "put x s = Some s1" "inv s1" "contents s1 = contents s @ [x]" "cap s1 = cap s"
    "fits s1 = fits s"
    using put_ok[of s x] Cons.prems by auto
  then show ?case using Cons.IH[of s1] Cons.prems by auto
qed simp

lemma get_many_ok:
  "inv s \<Longrightarrow> n \<le> length (contents s) \<Longrightarrow>
    \<exists>s'. get_many get n s = Some (take n (contents s), s') \<and> inv s' \<and>
      contents s' = drop n (contents s) \<and> cap s' = cap s"
proof (induction n arbitrary: s)
  case (Suc n)
  then obtain x xs where c: "contents s = x # xs" by (cases "contents s") auto
  obtain s1 where s1: "get s = Some (x, s1)" "inv s1" "contents s1 = xs" "cap s1 = cap s"
    using get_ok[OF Suc.prems(1) c] by blast
  then show ?case using Suc.IH[of s1] Suc.prems c by auto
qed simp

text \<open>What goes in comes out, in order, behind what was already there.\<close>

lemma put_get_order:
  assumes "inv s" "\<forall>x \<in> set xs. fits s x" "length (contents s) + length xs \<le> cap s"
  shows "\<exists>s1 s2. put_all put xs s = Some s1 \<and>
    get_many get (length (contents s) + length xs) s1 = Some (contents s @ xs, s2) \<and>
    inv s2 \<and> contents s2 = []"
proof -
  obtain s1 where "put_all put xs s = Some s1" "inv s1" "contents s1 = contents s @ xs"
    using put_all_ok[OF assms] by blast
  then show ?thesis using get_many_ok[of s1 "length (contents s) + length xs"] by auto
qed

lemma put_iff: "inv s \<Longrightarrow> fits s x \<Longrightarrow> (\<exists>s'. put x s = Some s') \<longleftrightarrow> length (contents s) < cap s"
  using put_ok[of s x] put_full[of s x] bound[of s] by (cases "length (contents s) < cap s") auto

lemma get_iff: "inv s \<Longrightarrow> (\<exists>x s'. get s = Some (x, s')) \<longleftrightarrow> contents s \<noteq> []"
  using get_empty[of s] get_ok[of s] by (cases "contents s") auto

end

end
