(* ===== verification/Ringbuffer.thy ===== *)
theory Ringbuffer
  imports Fifo
begin

text \<open>
  The byte ring buffer of \<open>components/drivers/src/ringbuffer.c\<close>.

  The pool is the byte list \<open>buffer_ptr\<close>; an access outside it is \<open>None\<close>. The mirrors are 1-bit
  fields (\<open>bool\<close>), the indices 15-bit fields, kept as numbers with the truncation written out. The
  abstract value of a buffer is the list of bytes it holds (\<open>rb_data\<close>): the lemmas show that the
  operations are those of a bounded FIFO, and where the forced block write is not.
\<close>

subsection \<open>State and operations\<close>

record rt_ringbuffer =
  buffer_ptr :: "u8 list"
  read_mirror :: bool
  read_index :: nat
  write_mirror :: bool
  write_index :: nat
  buffer_size :: nat

datatype rt_ringbuffer_state = RT_RINGBUFFER_EMPTY | RT_RINGBUFFER_FULL | RT_RINGBUFFER_HALFFULL

abbreviation (input) idx15 :: "nat \<Rightarrow> nat" where "idx15 n \<equiv> n mod 2 ^ 15"

text \<open>\<open>memcpy\<close> out of and into a byte object, and a difference used as a byte count.\<close>

definition mem_read :: "u8 list \<Rightarrow> nat \<Rightarrow> nat \<Rightarrow> u8 list option" where
  "mem_read xs off n = (if off + n \<le> length xs then Some (take n (drop off xs)) else None)"

definition mem_write :: "u8 list \<Rightarrow> nat \<Rightarrow> u8 list \<Rightarrow> u8 list option" where
  "mem_write xs off ys =
     (if off + length ys \<le> length xs
      then Some (take off xs @ ys @ drop (off + length ys) xs) else None)"

definition count_diff :: "nat \<Rightarrow> nat \<Rightarrow> nat option" where
  "count_diff a b = (if b \<le> a then Some (a - b) else None)"

definition rt_ringbuffer_status :: "rt_ringbuffer \<Rightarrow> rt_ringbuffer_state" where
  "rt_ringbuffer_status rb =
     (if read_index rb = write_index rb
      then if read_mirror rb = write_mirror rb then RT_RINGBUFFER_EMPTY else RT_RINGBUFFER_FULL
      else RT_RINGBUFFER_HALFFULL)"

text \<open>\<open>rt_ringbuffer_init\<close> on a control block whose pool pointer becomes \<open>pool\<close>.\<close>

definition rt_ringbuffer_init :: "u8 list \<Rightarrow> int \<Rightarrow> rt_ringbuffer option" where
  "rt_ringbuffer_init pool sz =
     do { RT_ASSERT (sz > 0);
          Some \<lparr>buffer_ptr = pool, read_mirror = False, read_index = 0,
                write_mirror = False, write_index = 0, buffer_size = nat sz div 4 * 4\<rparr> }"

definition rt_ringbuffer_reset :: "rt_ringbuffer \<Rightarrow> rt_ringbuffer" where
  "rt_ringbuffer_reset rb =
     rb\<lparr>read_mirror := False, read_index := 0, write_mirror := False, write_index := 0\<rparr>"

definition rt_ringbuffer_data_len :: "rt_ringbuffer \<Rightarrow> nat" where
  "rt_ringbuffer_data_len rb =
     (case rt_ringbuffer_status rb of
        RT_RINGBUFFER_EMPTY \<Rightarrow> 0
      | RT_RINGBUFFER_FULL \<Rightarrow> buffer_size rb
      | RT_RINGBUFFER_HALFFULL \<Rightarrow>
          if write_index rb > read_index rb then write_index rb - read_index rb
          else buffer_size rb - (read_index rb - write_index rb))"

definition rt_ringbuffer_space_len :: "rt_ringbuffer \<Rightarrow> nat" where
  "rt_ringbuffer_space_len rb = buffer_size rb - rt_ringbuffer_data_len rb"

definition rt_ringbuffer_put :: "rt_ringbuffer \<Rightarrow> u8 list \<Rightarrow> nat \<Rightarrow> (nat \<times> rt_ringbuffer) option" where
  "rt_ringbuffer_put rb ptr len =
     (let sz = rt_ringbuffer_space_len rb
      in if sz = 0 then Some (0, rb)
         else let len = (if sz < len then sz else len) in
           if buffer_size rb > len + write_index rb
           then do { bs \<leftarrow> mem_read ptr 0 len;
                     p \<leftarrow> mem_write (buffer_ptr rb) (write_index rb) bs;
                     Some (len, rb\<lparr>buffer_ptr := p, write_index := idx15 (write_index rb + len)\<rparr>) }
           else do { tail \<leftarrow> count_diff (buffer_size rb) (write_index rb);
                     bs \<leftarrow> mem_read ptr 0 tail;
                     p \<leftarrow> mem_write (buffer_ptr rb) (write_index rb) bs;
                     rest \<leftarrow> count_diff len tail;
                     bs \<leftarrow> mem_read ptr tail rest;
                     p \<leftarrow> mem_write p 0 bs;
                     Some (len, rb\<lparr>buffer_ptr := p, write_mirror := \<not> write_mirror rb,
                                   write_index := idx15 rest\<rparr>) })"

definition rt_ringbuffer_put_force ::
  "rt_ringbuffer \<Rightarrow> u8 list \<Rightarrow> nat \<Rightarrow> (nat \<times> rt_ringbuffer) option" where
  "rt_ringbuffer_put_force rb ptr len =
     (let space_length = rt_ringbuffer_space_len rb;
          (ptr, len) = (if len > buffer_size rb
                        then (drop (len - buffer_size rb) ptr, buffer_size rb) else (ptr, len))
      in if buffer_size rb > len + write_index rb
         then do { bs \<leftarrow> mem_read ptr 0 len;
                   p \<leftarrow> mem_write (buffer_ptr rb) (write_index rb) bs;
                   let rb = rb\<lparr>buffer_ptr := p, write_index := idx15 (write_index rb + len)\<rparr>;
                   Some (len, if len > space_length then rb\<lparr>read_index := write_index rb\<rparr> else rb) }
         else do { tail \<leftarrow> count_diff (buffer_size rb) (write_index rb);
                   bs \<leftarrow> mem_read ptr 0 tail;
                   p \<leftarrow> mem_write (buffer_ptr rb) (write_index rb) bs;
                   rest \<leftarrow> count_diff len tail;
                   bs \<leftarrow> mem_read ptr tail rest;
                   p \<leftarrow> mem_write p 0 bs;
                   let rb = rb\<lparr>buffer_ptr := p, write_mirror := \<not> write_mirror rb,
                               write_index := idx15 rest\<rparr>;
                   Some (len, if len > space_length
                              then rb\<lparr>read_mirror := \<not> read_mirror rb, read_index := write_index rb\<rparr>
                              else rb) })"

text \<open>\<open>rt_ringbuffer_get\<close> returns the count and the bytes stored through \<open>ptr\<close>.\<close>

definition rt_ringbuffer_get ::
  "rt_ringbuffer \<Rightarrow> nat \<Rightarrow> (nat \<times> u8 list \<times> rt_ringbuffer) option" where
  "rt_ringbuffer_get rb len =
     (let sz = rt_ringbuffer_data_len rb
      in if sz = 0 then Some (0, [], rb)
         else let len = (if sz < len then sz else len) in
           if buffer_size rb > len + read_index rb
           then do { bs \<leftarrow> mem_read (buffer_ptr rb) (read_index rb) len;
                     Some (len, bs, rb\<lparr>read_index := idx15 (read_index rb + len)\<rparr>) }
           else do { tail \<leftarrow> count_diff (buffer_size rb) (read_index rb);
                     bs \<leftarrow> mem_read (buffer_ptr rb) (read_index rb) tail;
                     rest \<leftarrow> count_diff len tail;
                     cs \<leftarrow> mem_read (buffer_ptr rb) 0 rest;
                     Some (len, bs @ cs, rb\<lparr>read_mirror := \<not> read_mirror rb,
                                            read_index := idx15 rest\<rparr>) })"

definition rt_ringbuffer_putchar :: "rt_ringbuffer \<Rightarrow> u8 \<Rightarrow> (nat \<times> rt_ringbuffer) option" where
  "rt_ringbuffer_putchar rb ch =
     (if rt_ringbuffer_space_len rb = 0 then Some (0, rb)
      else do { p \<leftarrow> mem_write (buffer_ptr rb) (write_index rb) [ch];
                let rb = rb\<lparr>buffer_ptr := p\<rparr>;
                Some (1, if write_index rb + 1 = buffer_size rb
                         then rb\<lparr>write_mirror := \<not> write_mirror rb, write_index := 0\<rparr>
                         else rb\<lparr>write_index := idx15 (write_index rb + 1)\<rparr>) })"

definition rt_ringbuffer_putchar_force ::
  "rt_ringbuffer \<Rightarrow> u8 \<Rightarrow> (nat \<times> rt_ringbuffer) option" where
  "rt_ringbuffer_putchar_force rb ch =
     (let old_state = rt_ringbuffer_status rb
      in do { p \<leftarrow> mem_write (buffer_ptr rb) (write_index rb) [ch];
              let rb = rb\<lparr>buffer_ptr := p\<rparr>;
              Some (1, if write_index rb + 1 = buffer_size rb
                       then let rb = rb\<lparr>write_mirror := \<not> write_mirror rb, write_index := 0\<rparr>
                            in if old_state = RT_RINGBUFFER_FULL
                               then rb\<lparr>read_mirror := \<not> read_mirror rb, read_index := write_index rb\<rparr>
                               else rb
                       else let rb = rb\<lparr>write_index := idx15 (write_index rb + 1)\<rparr>
                            in if old_state = RT_RINGBUFFER_FULL
                               then rb\<lparr>read_index := write_index rb\<rparr> else rb) })"

definition rt_ringbuffer_getchar :: "rt_ringbuffer \<Rightarrow> (nat \<times> u8 option \<times> rt_ringbuffer) option" where
  "rt_ringbuffer_getchar rb =
     (if rt_ringbuffer_data_len rb = 0 then Some (0, None, rb)
      else do { bs \<leftarrow> mem_read (buffer_ptr rb) (read_index rb) 1;
                Some (1, Some (hd bs),
                      if read_index rb + 1 = buffer_size rb
                      then rb\<lparr>read_mirror := \<not> read_mirror rb, read_index := 0\<rparr>
                      else rb\<lparr>read_index := idx15 (read_index rb + 1)\<rparr>) })"

text \<open>
  \<open>rt_ringbuffer_create\<close>: the results of the two \<open>rt_malloc\<close> calls are arguments, the first one as
  whether the control block is allocated. The code returns \<open>rb\<close> on every path, also after it has
  freed it: that result is \<open>RbFreed\<close>.
\<close>

datatype rb_result = RbNull | RbFreed | RbOk rt_ringbuffer

definition rt_ringbuffer_create :: "bool \<Rightarrow> u8 list option \<Rightarrow> u16 \<Rightarrow> rb_result option" where
  "rt_ringbuffer_create rb_ok pool sz =
     do { RT_ASSERT (sz > 0);
          let sz = sz AND NOT 3;
          if \<not> rb_ok then Some RbNull
          else case pool of
                 None \<Rightarrow> Some RbFreed
               | Some p \<Rightarrow> map_option RbOk (rt_ringbuffer_init p (sint sz)) }"

subsection \<open>Invariant and abstract value\<close>

definition rb_inv :: "rt_ringbuffer \<Rightarrow> bool" where
  "rb_inv rb \<longleftrightarrow>
     0 < buffer_size rb \<and> buffer_size rb < 2 ^ 15 \<and> buffer_size rb \<le> length (buffer_ptr rb) \<and>
     read_index rb < buffer_size rb \<and> write_index rb < buffer_size rb \<and>
     (if read_mirror rb = write_mirror rb then read_index rb \<le> write_index rb
      else write_index rb \<le> read_index rb)"

text \<open>Position \<open>i\<close> steps behind the read index, and the number of bytes held.\<close>

definition wrap :: "nat \<Rightarrow> nat \<Rightarrow> nat" where
  "wrap sz i = (if i < sz then i else i - sz)"

definition rb_len :: "rt_ringbuffer \<Rightarrow> nat" where
  "rb_len rb =
     (if read_mirror rb = write_mirror rb then write_index rb - read_index rb
      else buffer_size rb - read_index rb + write_index rb)"

definition rb_data :: "rt_ringbuffer \<Rightarrow> u8 list" where
  "rb_data rb = map (\<lambda>i. buffer_ptr rb ! wrap (buffer_size rb) (read_index rb + i)) [0..<rb_len rb]"

lemma rb_data_length [simp]: "length (rb_data rb) = rb_len rb"
  by (simp add: rb_data_def)

lemma rb_data_nth [simp]:
  "i < rb_len rb \<Longrightarrow>
    rb_data rb ! i = buffer_ptr rb ! wrap (buffer_size rb) (read_index rb + i)"
  by (simp add: rb_data_def)

lemma rb_data_Nil_iff [simp]: "rb_data rb = [] \<longleftrightarrow> rb_len rb = 0"
  by (simp add: rb_data_def)

text \<open>The invariant in terms of the read index and the length.\<close>

lemma rb_inv_iff:
  "rb_inv rb \<longleftrightarrow>
     0 < buffer_size rb \<and> buffer_size rb < 2 ^ 15 \<and> buffer_size rb \<le> length (buffer_ptr rb) \<and>
     read_index rb < buffer_size rb \<and> rb_len rb \<le> buffer_size rb \<and>
     write_index rb = wrap (buffer_size rb) (read_index rb + rb_len rb) \<and>
     (read_mirror rb = write_mirror rb \<longleftrightarrow> read_index rb + rb_len rb < buffer_size rb)"
  by (auto simp: rb_inv_def rb_len_def wrap_def split: if_splits)

lemma data_len_correct: "rb_inv rb \<Longrightarrow> rt_ringbuffer_data_len rb = rb_len rb"
  by (cases "read_mirror rb = write_mirror rb")
    (auto simp: rt_ringbuffer_data_len_def rt_ringbuffer_status_def rb_len_def rb_inv_def)

lemma rb_len_bound: "rb_inv rb \<Longrightarrow> rb_len rb \<le> buffer_size rb"
  by (simp add: rb_inv_iff)

lemma space_len_correct:
  "rb_inv rb \<Longrightarrow> rt_ringbuffer_space_len rb = buffer_size rb - rb_len rb"
  by (simp add: rt_ringbuffer_space_len_def data_len_correct)

lemma status_correct:
  "rb_inv rb \<Longrightarrow> rt_ringbuffer_status rb =
    (if rb_len rb = 0 then RT_RINGBUFFER_EMPTY
     else if rb_len rb = buffer_size rb then RT_RINGBUFFER_FULL
     else RT_RINGBUFFER_HALFFULL)"
  by (auto simp: rt_ringbuffer_status_def rb_inv_iff wrap_def split: if_splits)

subsection \<open>Writing and reading a block\<close>

text \<open>How many bytes after the write index a cell is, going round.\<close>

definition ahead :: "nat \<Rightarrow> nat \<Rightarrow> nat \<Rightarrow> nat" where
  "ahead sz w i = (if w \<le> i then i - w else sz + i - w)"

definition rb_written :: "rt_ringbuffer \<Rightarrow> u8 list \<Rightarrow> nat \<Rightarrow> u8 list \<Rightarrow> bool" where
  "rb_written rb ptr k p \<longleftrightarrow> length p = length (buffer_ptr rb) \<and>
     (\<forall>i < buffer_size rb. p ! i =
        (if ahead (buffer_size rb) (write_index rb) i < k
         then ptr ! ahead (buffer_size rb) (write_index rb) i else buffer_ptr rb ! i))"

lemma write_straight:
  assumes "rb_inv rb" "k \<le> length ptr" "write_index rb + k < buffer_size rb"
  shows "\<exists>b p. mem_read ptr 0 k = Some b \<and> mem_write (buffer_ptr rb) (write_index rb) b = Some p
    \<and> rb_written rb ptr k p"
  using assms
  by (auto simp: mem_read_def mem_write_def rb_written_def rb_inv_def ahead_def nth_append min_def)

lemma write_wrapped:
  assumes rb: "rb_inv rb" and k: "k \<le> length ptr" "k \<le> buffer_size rb"
    and w: "\<not> write_index rb + k < buffer_size rb"
  defines "tail \<equiv> buffer_size rb - write_index rb"
  shows "\<exists>b1 p1 b2 p. mem_read ptr 0 tail = Some b1 \<and>
    mem_write (buffer_ptr rb) (write_index rb) b1 = Some p1 \<and>
    mem_read ptr tail (k - tail) = Some b2 \<and> mem_write p1 0 b2 = Some p \<and> rb_written rb ptr k p"
proof -
  have t: "tail \<le> k" "tail \<le> length ptr" "write_index rb + tail = buffer_size rb"
    "buffer_size rb \<le> length (buffer_ptr rb)" "write_index rb < buffer_size rb"
    using rb k w by (auto simp: tail_def rb_inv_def)
  define b1 where "b1 = take tail ptr"
  define b2 where "b2 = take (k - tail) (drop tail ptr)"
  define p1 where "p1 = take (write_index rb) (buffer_ptr rb) @ b1
    @ drop (buffer_size rb) (buffer_ptr rb)"
  define p where "p = b2 @ drop (k - tail) p1"
  have l: "length b1 = tail" "length b2 = k - tail" "length p1 = length (buffer_ptr rb)"
    using t k by (auto simp: b1_def b2_def p1_def)
  have p1: "p1 ! i = (if write_index rb \<le> i then ptr ! (i - write_index rb) else buffer_ptr rb ! i)"
    if "i < buffer_size rb" for i
    using t that k by (auto simp: p1_def b1_def nth_append min_def)
  have "p ! i = (if i < k - tail then ptr ! (tail + i) else p1 ! i)" if "i < buffer_size rb" for i
    using t that k l by (auto simp: p_def b2_def nth_append)
  then have "rb_written rb ptr k p"
    using t k l p1 by (auto simp: rb_written_def ahead_def p_def tail_def)
  moreover have "mem_read ptr 0 tail = Some b1" "mem_read ptr tail (k - tail) = Some b2"
    "mem_write (buffer_ptr rb) (write_index rb) b1 = Some p1" "mem_write p1 0 b2 = Some p"
    using t k l by (auto simp: mem_read_def mem_write_def b1_def b2_def p1_def p_def)
  ultimately show ?thesis by blast
qed

text \<open>The new state after \<open>k\<close> bytes are written behind the write index.\<close>

definition rb_advance :: "rt_ringbuffer \<Rightarrow> nat \<Rightarrow> u8 list \<Rightarrow> rt_ringbuffer" where
  "rb_advance rb k p =
     (if write_index rb + k < buffer_size rb
      then rb\<lparr>buffer_ptr := p, write_index := write_index rb + k\<rparr>
      else rb\<lparr>buffer_ptr := p, write_mirror := \<not> write_mirror rb,
              write_index := write_index rb + k - buffer_size rb\<rparr>)"

lemma advance_len:
  assumes "rb_inv rb" "rb_len rb + k \<le> buffer_size rb" "length p = length (buffer_ptr rb)"
  shows "rb_inv (rb_advance rb k p) \<and> rb_len (rb_advance rb k p) = rb_len rb + k"
proof (cases "write_index rb + k < buffer_size rb")
  case True
  then show ?thesis using assms
    by (cases "read_mirror rb = write_mirror rb")
      (auto simp: rb_inv_def rb_advance_def rb_len_def)
next
  case False
  then have "read_mirror rb = write_mirror rb"
    using assms by (auto simp: rb_inv_def rb_len_def split: if_splits)
  then show ?thesis using assms False
    by (auto simp: rb_inv_def rb_advance_def rb_len_def)
qed

lemma advance_data:
  assumes "rb_inv rb" "rb_len rb + k \<le> buffer_size rb" "rb_written rb ptr k p" "k \<le> length ptr"
  shows "rb_data (rb_advance rb k p) = rb_data rb @ take k ptr"
proof -
  let ?rb = "rb_advance rb k p"
  have len: "rb_len ?rb = rb_len rb + k" and [simp]: "read_index ?rb = read_index rb"
    "buffer_size ?rb = buffer_size rb" "buffer_ptr ?rb = p"
    using advance_len[OF assms(1,2)] assms(3) by (auto simp: rb_written_def rb_advance_def)
  have old: "p ! wrap (buffer_size rb) (read_index rb + i)
      = buffer_ptr rb ! wrap (buffer_size rb) (read_index rb + i)" if "i < rb_len rb" for i
  proof -
    have "wrap (buffer_size rb) (read_index rb + i) < buffer_size rb"
      "\<not> ahead (buffer_size rb) (write_index rb) (wrap (buffer_size rb) (read_index rb + i)) < k"
      using assms(1,2) that by (auto simp: rb_inv_iff wrap_def ahead_def)
    then show ?thesis using assms(3) by (auto simp: rb_written_def)
  qed
  have new: "p ! wrap (buffer_size rb) (read_index rb + (rb_len rb + j)) = ptr ! j" if "j < k" for j
  proof -
    have "wrap (buffer_size rb) (read_index rb + (rb_len rb + j)) < buffer_size rb"
      "ahead (buffer_size rb) (write_index rb)
        (wrap (buffer_size rb) (read_index rb + (rb_len rb + j))) = j"
      using assms(1,2) that by (auto simp: rb_inv_iff wrap_def ahead_def)
    then show ?thesis using assms(3) that by (auto simp: rb_written_def)
  qed
  show ?thesis
  proof (rule nth_equalityI)
    show "length (rb_data ?rb) = length (rb_data rb @ take k ptr)" using len assms(4) by simp
    fix i assume "i < length (rb_data ?rb)"
    then show "rb_data ?rb ! i = (rb_data rb @ take k ptr) ! i"
      using len old[of i] new[of "i - rb_len rb"] assms(4) by (auto simp: nth_append)
  qed
qed

lemma put_exact:
  assumes rb: "rb_inv rb" and n: "n \<le> length ptr"
  defines "k \<equiv> min n (buffer_size rb - rb_len rb)"
  shows "\<exists>rb'. rt_ringbuffer_put rb ptr n = Some (k, rb') \<and> rb_inv rb' \<and>
    buffer_size rb' = buffer_size rb \<and> rb_data rb' = rb_data rb @ take k ptr"
proof -
  have b: "rb_len rb + k \<le> buffer_size rb" "k \<le> length ptr" "buffer_size rb < 32768"
    using rb_len_bound[OF rb] n rb by (auto simp: k_def rb_inv_def)
  have sz: "buffer_size (rb_advance rb k p) = buffer_size rb" for p by (simp add: rb_advance_def)
  have fin: "rb_inv (rb_advance rb k p)" "rb_data (rb_advance rb k p) = rb_data rb @ take k ptr"
    if "rb_written rb ptr k p" for p
    using advance_len[OF rb b(1)] advance_data[OF rb b(1) that b(2)] that
    by (auto simp: rb_written_def)
  show ?thesis
  proof (cases "buffer_size rb - rb_len rb = 0")
    case True then show ?thesis
      using rb by (simp add: rt_ringbuffer_put_def space_len_correct k_def)
  next
    case False
    then have k: "(if buffer_size rb - rb_len rb < n then buffer_size rb - rb_len rb else n) = k"
      by (auto simp: k_def)
    show ?thesis
    proof (cases "write_index rb + k < buffer_size rb")
      case True
      then obtain bs p where p: "mem_read ptr 0 k = Some bs"
        "mem_write (buffer_ptr rb) (write_index rb) bs = Some p" "rb_written rb ptr k p"
        using write_straight[OF rb b(2)] by blast
      then have "rt_ringbuffer_put rb ptr n = Some (k, rb_advance rb k p)"
        using True False k b(3) rb
        by (simp add: rt_ringbuffer_put_def space_len_correct Let_def rb_advance_def add.commute)
      then show ?thesis using fin[OF p(3)] sz by blast
    next
      case F: False
      have "k \<le> buffer_size rb" "write_index rb < buffer_size rb" using b rb by (auto simp: rb_inv_def)
      moreover obtain b1 p1 b2 p where p: "mem_read ptr 0 (buffer_size rb - write_index rb) = Some b1"
        "mem_write (buffer_ptr rb) (write_index rb) b1 = Some p1"
        "mem_read ptr (buffer_size rb - write_index rb) (k - (buffer_size rb - write_index rb)) = Some b2"
        "mem_write p1 0 b2 = Some p" "rb_written rb ptr k p"
        using write_wrapped[OF rb b(2) _ F] calculation by blast
      ultimately have "rt_ringbuffer_put rb ptr n = Some (k, rb_advance rb k p)"
        using F False k b(3) rb
        by (simp add: rt_ringbuffer_put_def space_len_correct Let_def rb_advance_def add.commute
            count_diff_def)
      then show ?thesis using fin[OF p(5)] sz by blast
    qed
  qed
qed

lemma get_exact:
  fixes n :: nat
  assumes rb: "rb_inv rb"
  defines "k \<equiv> min n (rb_len rb)"
  shows "\<exists>rb'. rt_ringbuffer_get rb n = Some (k, take k (rb_data rb), rb') \<and> rb_inv rb' \<and>
    buffer_size rb' = buffer_size rb \<and> rb_data rb' = drop k (rb_data rb)"
proof (cases "rb_len rb = 0")
  case True then show ?thesis
    using rb by (auto simp: rt_ringbuffer_get_def data_len_correct k_def)
next
  case False
  define rb' where "rb' = (if read_index rb + k < buffer_size rb
      then rb\<lparr>read_index := read_index rb + k\<rparr>
      else rb\<lparr>read_mirror := \<not> read_mirror rb, read_index := read_index rb + k - buffer_size rb\<rparr>)"
  have k: "(if rb_len rb < n then rb_len rb else n) = k" "k \<le> rb_len rb" by (auto simp: k_def)
  have b: "rb_len rb \<le> buffer_size rb" "buffer_size rb < 32768" "read_index rb < buffer_size rb"
    "buffer_size rb \<le> length (buffer_ptr rb)"
    using rb by (auto simp: rb_inv_iff)
  have len: "rb_inv rb'" "rb_len rb' = rb_len rb - k"
    using rb k(2) unfolding rb'_def
    by (cases "read_mirror rb = write_mirror rb"; auto simp: rb_inv_def rb_len_def)+
  moreover have "rb_data rb' = drop k (rb_data rb)"
  proof (rule nth_equalityI)
    show "length (rb_data rb') = length (drop k (rb_data rb))" using len by simp
    fix i assume i: "i < length (rb_data rb')"
    have "wrap (buffer_size rb) (read_index rb' + i) = wrap (buffer_size rb) (read_index rb + (k + i))"
      using b k(2) i len by (auto simp: wrap_def rb'_def)
    then show "rb_data rb' ! i = drop k (rb_data rb) ! i"
      using i len k(2) b by (auto simp: rb'_def)
  qed
  moreover have "rt_ringbuffer_get rb n = Some (k, take k (rb_data rb), rb')"
  proof (cases "read_index rb + k < buffer_size rb")
    case True
    have "take k (drop (read_index rb) (buffer_ptr rb)) = take k (rb_data rb)"
      using True b k(2) by (auto intro!: nth_equalityI simp: wrap_def)
    then show ?thesis using True False rb k(1) b
      by (simp add: rt_ringbuffer_get_def data_len_correct Let_def mem_read_def rb'_def add.commute)
  next
    case F: False
    define t where "t = buffer_size rb - read_index rb"
    have t: "t \<le> k" "k - t \<le> length (buffer_ptr rb)" "read_index rb + t = buffer_size rb"
      using F b k by (auto simp: t_def)
    have "wrap (buffer_size rb) (read_index rb + i) = (if i < t then read_index rb + i else i - t)" for i
      using t(3) b(3) by (auto simp: wrap_def)
    then have "take t (drop (read_index rb) (buffer_ptr rb)) @ take (k - t) (buffer_ptr rb)
        = take k (rb_data rb)"
      using t b k(2) F by (auto intro!: nth_equalityI simp: nth_append)
    moreover have "read_index rb + k - buffer_size rb = k - t" using t by simp
    ultimately show ?thesis using F False rb k b t(1,2)
      by (simp add: rt_ringbuffer_get_def data_len_correct Let_def mem_read_def rb'_def add.commute
          count_diff_def flip: t_def)
  qed
  moreover have "buffer_size rb' = buffer_size rb" by (simp add: rb'_def)
  ultimately show ?thesis by blast
qed

subsection \<open>The character operations\<close>

lemma write_char:
  assumes "rb_inv rb"
  shows "\<exists>p. mem_write (buffer_ptr rb) (write_index rb) [ch] = Some p \<and> rb_written rb [ch] 1 p"
  using assms by (auto simp: mem_write_def rb_written_def rb_inv_def ahead_def nth_append min_def)

lemma putchar_exact:
  assumes rb: "rb_inv rb"
  shows "\<exists>rb'. rt_ringbuffer_putchar rb ch = Some (if rb_len rb = buffer_size rb then 0 else 1, rb') \<and>
    rb_inv rb' \<and> buffer_size rb' = buffer_size rb \<and>
    rb_data rb' = (if rb_len rb = buffer_size rb then rb_data rb else rb_data rb @ [ch])"
proof (cases "rb_len rb = buffer_size rb")
  case True then show ?thesis using rb by (simp add: rt_ringbuffer_putchar_def space_len_correct)
next
  case False
  then have b: "rb_len rb + 1 \<le> buffer_size rb" using rb_len_bound[OF rb] by simp
  obtain p where p: "mem_write (buffer_ptr rb) (write_index rb) [ch] = Some p" "rb_written rb [ch] 1 p"
    using write_char[OF rb] by blast
  have "rt_ringbuffer_putchar rb ch = Some (1, rb_advance rb 1 p)"
    using rb b p(1)
    by (auto simp: rt_ringbuffer_putchar_def space_len_correct rb_advance_def rb_inv_def)
  then show ?thesis
    using False advance_len[OF rb b] advance_data[OF rb b p(2)] p(2)
    by (auto simp: rb_written_def) (simp_all add: rb_advance_def)
qed

lemma getchar_exact:
  assumes rb: "rb_inv rb"
  shows "case rb_data rb of
      [] \<Rightarrow> rt_ringbuffer_getchar rb = Some (0, None, rb)
    | c # cs \<Rightarrow> \<exists>rb'. rt_ringbuffer_getchar rb = Some (1, Some c, rb') \<and> rb_inv rb' \<and>
        buffer_size rb' = buffer_size rb \<and> rb_data rb' = cs"
proof (cases "rb_data rb")
  case Nil
  then have "rb_len rb = 0" by (metis length_0_conv rb_data_length)
  then show ?thesis unfolding Nil using rb by (simp add: rt_ringbuffer_getchar_def data_len_correct)
next
  case (Cons c cs)
  then have l: "0 < rb_len rb" by (metis length_greater_0_conv list.distinct(1) rb_data_length)
  obtain rb' where rb': "rt_ringbuffer_get rb 1 = Some (1, [c], rb')" "rb_inv rb'"
    "buffer_size rb' = buffer_size rb" "rb_data rb' = cs"
    using get_exact[OF rb, of 1] l Cons by (auto simp: min_def)
  have "rt_ringbuffer_getchar rb = Some (1, Some c, rb')"
  proof -
    have b: "read_index rb < buffer_size rb" "buffer_size rb \<le> length (buffer_ptr rb)"
      "buffer_size rb < 32768" using rb by (auto simp: rb_inv_def)
    then have "take 1 (drop (read_index rb) (buffer_ptr rb)) = [buffer_ptr rb ! read_index rb]"
      by (simp add: take_Suc_conv_app_nth Cons_nth_drop_Suc[symmetric])
    moreover have "buffer_ptr rb ! read_index rb = c"
      using Cons l b rb_data_nth[of 0 rb] by (simp add: wrap_def)
    ultimately show ?thesis
      using rb'(1) rb b l
      by (auto simp: rt_ringbuffer_get_def rt_ringbuffer_getchar_def data_len_correct mem_read_def
          count_diff_def split: if_splits)
  qed
  then show ?thesis using rb' Cons by auto
qed

subsection \<open>The forced writes\<close>

text \<open>
  The bytes that stay when \<open>k\<close> bytes overwrite the oldest ones of a buffer: the last
  \<open>buffer_size\<close> bytes of the old data followed by the new.
\<close>

lemma wrap_wrap: "w < s \<Longrightarrow> k + i < s \<Longrightarrow> wrap s (wrap s (w + k) + i) = wrap s (w + (k + i))"
  by (auto simp: wrap_def)

lemma wrap_twice:
  "r < s \<Longrightarrow> l \<le> s \<Longrightarrow> m < s \<Longrightarrow> s \<le> l + m \<Longrightarrow> wrap s (wrap s (r + l) + m) = wrap s (r + (l + m - s))"
  by (auto simp: wrap_def)

lemma ahead_wrap: "w < s \<Longrightarrow> m < s \<Longrightarrow> ahead s w (wrap s (w + m)) = m \<and> wrap s (w + m) < s"
  by (auto simp: wrap_def ahead_def)

lemma wrap_back: "w < s \<Longrightarrow> k \<le> s \<Longrightarrow> j < k \<Longrightarrow> wrap s (wrap s (w + k) + (s - k + j)) = wrap s (w + j)"
  by (auto simp: wrap_def)

lemma overwrite_data:
  assumes rb: "rb_inv rb" and k: "k \<le> length ptr" "k \<le> buffer_size rb"
    and over: "buffer_size rb < rb_len rb + k" and w: "rb_written rb ptr k p"
    and rb': "buffer_ptr rb' = p" "buffer_size rb' = buffer_size rb"
      "read_index rb' = wrap (buffer_size rb) (write_index rb + k)"
      "write_index rb' = read_index rb'" "read_mirror rb' \<noteq> write_mirror rb'"
  shows "rb_inv rb' \<and> rb_len rb' = buffer_size rb \<and>
    rb_data rb' = drop (rb_len rb + k - buffer_size rb) (rb_data rb) @ take k ptr"
proof -
  let ?s = "buffer_size rb"
  have b: "read_index rb < ?s" "rb_len rb \<le> ?s" "write_index rb < ?s" "?s < 32768"
    "write_index rb = wrap ?s (read_index rb + rb_len rb)" "?s \<le> length (buffer_ptr rb)"
    using rb by (auto simp: rb_inv_iff wrap_def)
  have inv: "rb_inv rb'" using rb' b k w by (auto simp: rb_inv_def rb_written_def wrap_def)
  have len: "rb_len rb' = ?s" using rb' b k by (auto simp: rb_len_def wrap_def)
  have old: "p ! wrap ?s (read_index rb' + i)
      = buffer_ptr rb ! wrap ?s (read_index rb + (i + (rb_len rb + k - ?s)))" if i: "i < ?s - k" for i
  proof -
    have m: "k + i < ?s" "?s \<le> rb_len rb + (k + i)"
      "rb_len rb + (k + i) - ?s = i + (rb_len rb + k - ?s)"
      using i over by auto
    have 1: "wrap ?s (read_index rb' + i) = wrap ?s (write_index rb + (k + i))"
      using wrap_wrap[OF b(3) m(1)] rb'(3) by simp
    have 2: "wrap ?s (write_index rb + (k + i))
        = wrap ?s (read_index rb + (i + (rb_len rb + k - ?s)))"
      unfolding b(5) wrap_twice[OF b(1,2) m(1,2)] m(3) ..
    have "p ! wrap ?s (write_index rb + (k + i)) = buffer_ptr rb ! wrap ?s (write_index rb + (k + i))"
      using w ahead_wrap[OF b(3) m(1)] by (simp add: rb_written_def)
    then show ?thesis unfolding 1 unfolding 2 .
  qed
  have new: "p ! wrap ?s (read_index rb' + (?s - k + j)) = ptr ! j" if j: "j < k" for j
  proof -
    have "wrap ?s (read_index rb' + (?s - k + j)) < ?s"
      "ahead ?s (write_index rb) (wrap ?s (read_index rb' + (?s - k + j))) = j"
      using wrap_back[of "write_index rb" ?s k j] ahead_wrap[of "write_index rb" ?s j] b(3) k(2) rb'(3) j
      by auto
    then show ?thesis using w j by (simp add: rb_written_def)
  qed
  have "rb_data rb' = drop (rb_len rb + k - ?s) (rb_data rb) @ take k ptr"
  proof (rule nth_equalityI)
    show l: "length (rb_data rb') = length (drop (rb_len rb + k - ?s) (rb_data rb) @ take k ptr)"
      using len over k b(2) by simp
    fix i assume i: "i < length (rb_data rb')"
    show "rb_data rb' ! i = (drop (rb_len rb + k - ?s) (rb_data rb) @ take k ptr) ! i"
    proof (cases "i < ?s - k")
      case True
      then show ?thesis using old[OF True] i len over b(2) rb'(1,2) k
        by (simp add: nth_append add.commute[of i])
    next
      case False
      then have "?s - k + (i - (?s - k)) = i" by simp
      then show ?thesis using new[of "i - (?s - k)"] False i len over b(2) rb'(1,2) k
        by (simp add: nth_append)
    qed
  qed
  then show ?thesis using inv len by blast
qed

text \<open>
  The state after the forced write of \<open>k \<le> buffer_size\<close> bytes: the write index moves as for a
  plain write, and when the bytes do not fit the read index follows it; the read mirror is flipped
  exactly when the write mirror is.
\<close>

definition rb_forced :: "rt_ringbuffer \<Rightarrow> nat \<Rightarrow> u8 list \<Rightarrow> rt_ringbuffer" where
  "rb_forced rb k p =
     (let rb' = rb_advance rb k p
      in if rb_len rb + k \<le> buffer_size rb then rb'
         else if write_index rb + k < buffer_size rb then rb'\<lparr>read_index := write_index rb'\<rparr>
         else rb'\<lparr>read_mirror := \<not> read_mirror rb, read_index := write_index rb'\<rparr>)"

lemma put_force_state:
  assumes rb: "rb_inv rb" and n: "n \<le> length ptr"
  defines "k \<equiv> min n (buffer_size rb)"
  shows "\<exists>p. rb_written rb (drop (n - k) ptr) k p \<and>
    rt_ringbuffer_put_force rb ptr n = Some (k, rb_forced rb k p)"
proof -
  let ?ptr = "drop (n - k) ptr"
  have b: "k \<le> length ?ptr" "k \<le> buffer_size rb" "buffer_size rb < 32768"
    "write_index rb < buffer_size rb" "rb_len rb \<le> buffer_size rb"
    using rb n by (auto simp: k_def rb_inv_iff wrap_def)
  have sel: "(if n > buffer_size rb then (drop (n - buffer_size rb) ptr, buffer_size rb) else (ptr, n))
      = (?ptr, k)" by (auto simp: k_def)
  have sp: "buffer_size rb - rb_len rb < k \<longleftrightarrow> \<not> rb_len rb + k \<le> buffer_size rb" using b by auto
  show ?thesis
  proof (cases "write_index rb + k < buffer_size rb")
    case True
    then obtain bs p where p: "mem_read ?ptr 0 k = Some bs"
      "mem_write (buffer_ptr rb) (write_index rb) bs = Some p" "rb_written rb ?ptr k p"
      using write_straight[OF rb b(1)] by blast
    then have "rt_ringbuffer_put_force rb ptr n = Some (k, rb_forced rb k p)"
      using True rb b
      by (auto simp: rt_ringbuffer_put_force_def space_len_correct Let_def rb_advance_def
          rb_forced_def add.commute sel sp)
    then show ?thesis using p(3) by blast
  next
    case F: False
    obtain b1 p1 b2 p where p: "mem_read ?ptr 0 (buffer_size rb - write_index rb) = Some b1"
      "mem_write (buffer_ptr rb) (write_index rb) b1 = Some p1"
      "mem_read ?ptr (buffer_size rb - write_index rb) (k - (buffer_size rb - write_index rb)) = Some b2"
      "mem_write p1 0 b2 = Some p" "rb_written rb ?ptr k p"
      using write_wrapped[OF rb b(1,2) F] by blast
    then have "rt_ringbuffer_put_force rb ptr n = Some (k, rb_forced rb k p)"
      using F rb b
      by (auto simp: rt_ringbuffer_put_force_def space_len_correct Let_def rb_advance_def
          rb_forced_def add.commute sel sp count_diff_def)
    then show ?thesis using p(5) by blast
  qed
qed

text \<open>While the data lies in one mirror, a forced write that overwrites empties the buffer.\<close>

lemma forced_same_mirror:
  assumes rb: "rb_inv rb" and m: "read_mirror rb = write_mirror rb"
    and k: "k \<le> buffer_size rb" "buffer_size rb < rb_len rb + k"
    and p: "length p = length (buffer_ptr rb)"
  shows "rb_inv (rb_forced rb k p) \<and> rb_data (rb_forced rb k p) = []"
proof -
  have "\<not> write_index rb + k < buffer_size rb" using rb m k by (auto simp: rb_len_def)
  then have "read_mirror (rb_forced rb k p) = write_mirror (rb_forced rb k p)"
    "read_index (rb_forced rb k p) = write_index (rb_forced rb k p)"
    "write_index (rb_forced rb k p) < buffer_size rb"
    "buffer_size (rb_forced rb k p) = buffer_size rb" "buffer_ptr (rb_forced rb k p) = p"
    using rb m k by (auto simp: rb_forced_def Let_def rb_advance_def rb_inv_def)
  then show ?thesis using rb p by (auto simp: rb_inv_def rb_len_def)
qed

lemma forced_two_mirrors:
  assumes rb: "rb_inv rb" and m: "read_mirror rb \<noteq> write_mirror rb"
    and k: "k \<le> length ptr" "k \<le> buffer_size rb" "buffer_size rb < rb_len rb + k"
    and p: "rb_written rb ptr k p"
  shows "rb_inv (rb_forced rb k p) \<and>
    rb_data (rb_forced rb k p) = drop (rb_len rb + k - buffer_size rb) (rb_data rb) @ take k ptr"
proof -
  have "write_index rb < buffer_size rb" using rb by (simp add: rb_inv_def)
  then have "buffer_ptr (rb_forced rb k p) = p" "buffer_size (rb_forced rb k p) = buffer_size rb"
    "read_index (rb_forced rb k p) = wrap (buffer_size rb) (write_index rb + k)"
    "write_index (rb_forced rb k p) = read_index (rb_forced rb k p)"
    "read_mirror (rb_forced rb k p) \<noteq> write_mirror (rb_forced rb k p)"
    using m k by (auto simp: rb_forced_def Let_def rb_advance_def wrap_def)
  then show ?thesis using overwrite_data[OF rb k p, of "rb_forced rb k p"] by blast
qed

lemma putchar_force_exact:
  assumes rb: "rb_inv rb"
  shows "\<exists>rb'. rt_ringbuffer_putchar_force rb ch = Some (1, rb') \<and> rb_inv rb' \<and>
    buffer_size rb' = buffer_size rb \<and>
    rb_data rb' = (if rb_len rb = buffer_size rb then tl (rb_data rb) else rb_data rb) @ [ch]"
proof -
  obtain p where p: "mem_write (buffer_ptr rb) (write_index rb) [ch] = Some p" "rb_written rb [ch] 1 p"
    using write_char[OF rb] by blast
  have b: "write_index rb < buffer_size rb" "rb_len rb \<le> buffer_size rb" "buffer_size rb < 32768"
    "0 < buffer_size rb"
    using rb by (auto simp: rb_inv_def rb_len_bound[OF rb])
  show ?thesis
  proof (cases "rb_len rb = buffer_size rb")
    case True
    then have m: "read_mirror rb \<noteq> write_mirror rb" using rb by (auto simp: rb_inv_iff)
    have "rt_ringbuffer_putchar_force rb ch = Some (1, rb_forced rb 1 p)"
      using True rb b p(1)
      by (auto simp: rt_ringbuffer_putchar_force_def status_correct rb_forced_def rb_advance_def
          Let_def)
    moreover have "rb_inv (rb_forced rb 1 p) \<and> rb_data (rb_forced rb 1 p) =
        drop 1 (rb_data rb) @ [ch]"
      using forced_two_mirrors[OF rb m _ _ _ p(2)] True b by simp
    moreover have "buffer_size (rb_forced rb 1 p) = buffer_size rb"
      by (simp add: rb_forced_def rb_advance_def Let_def)
    ultimately show ?thesis using True by (simp add: drop_Suc)
  next
    case False
    then have l: "rb_len rb + 1 \<le> buffer_size rb" using b by simp
    have "rt_ringbuffer_putchar_force rb ch = Some (1, rb_advance rb 1 p)"
      using False rb b p(1)
      by (auto simp: rt_ringbuffer_putchar_force_def status_correct rb_advance_def Let_def)
    then show ?thesis
      using False advance_len[OF rb l] advance_data[OF rb l p(2)] p(2)
      by (auto simp: rb_written_def) (simp_all add: rb_advance_def)
  qed
qed

subsection \<open>Initialisation, and the FIFO contract\<close>

lemma init_exact:
  assumes "4 \<le> sz" "sz < 2 ^ 15" "nat sz div 4 * 4 \<le> length pool"
  shows "\<exists>rb. rt_ringbuffer_init pool sz = Some rb \<and> rb_inv rb \<and> rb_data rb = [] \<and>
    buffer_size rb = nat sz div 4 * 4"
proof -
  have "0 < nat sz div 4 * 4" "nat sz div 4 * 4 < 32768" using assms(1,2) by auto
  then show ?thesis using assms
    by (auto simp: rt_ringbuffer_init_def rb_inv_def rb_len_def)
qed

lemma reset_exact: "rb_inv rb \<Longrightarrow> rb_inv (rt_ringbuffer_reset rb) \<and> rb_data (rt_ringbuffer_reset rb) = []"
  by (simp add: rb_inv_def rt_ringbuffer_reset_def rb_len_def)

text \<open>The character operations as a bounded FIFO: \<open>None\<close> when they return 0.\<close>

definition rb_put1 :: "u8 \<Rightarrow> rt_ringbuffer \<Rightarrow> rt_ringbuffer option" where
  "rb_put1 ch rb = do { (n, rb) \<leftarrow> rt_ringbuffer_putchar rb ch; if n = 1 then Some rb else None }"

definition rb_get1 :: "rt_ringbuffer \<Rightarrow> (u8 \<times> rt_ringbuffer) option" where
  "rb_get1 rb =
     do { (n, c, rb) \<leftarrow> rt_ringbuffer_getchar rb; c \<leftarrow> c; if n = 1 then Some (c, rb) else None }"

interpretation rbf: bounded_fifo rb_inv rb_data buffer_size "\<lambda>_ _. True" rb_put1 rb_get1
proof unfold_locales
  fix rb assume rb: "rb_inv rb"
  show "length (rb_data rb) \<le> buffer_size rb" using rb_len_bound[OF rb] by simp
  show "length (rb_data rb) = buffer_size rb \<Longrightarrow> rb_put1 x rb = None" for x
    using putchar_exact[OF rb, of x] by (auto simp: rb_put1_def)
  show "rb_data rb = [] \<Longrightarrow> rb_get1 rb = None"
    using getchar_exact[OF rb] unfolding rb_get1_def by (auto simp del: rb_data_Nil_iff)
  show "length (rb_data rb) < buffer_size rb \<Longrightarrow> \<exists>rb'. rb_put1 x rb = Some rb' \<and> rb_inv rb' \<and>
      rb_data rb' = rb_data rb @ [x] \<and> buffer_size rb' = buffer_size rb \<and>
      (\<lambda>_ :: u8. True) = (\<lambda>_. True)" for x
    using putchar_exact[OF rb, of x] by (auto simp: rb_put1_def)
  show "rb_data rb = x # xs \<Longrightarrow> \<exists>rb'. rb_get1 rb = Some (x, rb') \<and> rb_inv rb' \<and>
      rb_data rb' = xs \<and> buffer_size rb' = buffer_size rb" for x xs
    using getchar_exact[OF rb] by (auto simp: rb_get1_def)
qed

subsection \<open>Properties\<close>

definition rb_example :: rt_ringbuffer where
  "rb_example = \<lparr>buffer_ptr = [1, 2, 3, 4], read_mirror = False, read_index = 1,
     write_mirror = False, write_index = 3, buffer_size = 4\<rparr>"

lemma rb_example_inv: "rb_inv rb_example" "rb_data rb_example = [2, 3]" "buffer_size rb_example = 4"
  "rb_len rb_example = 2" "read_mirror rb_example = write_mirror rb_example"
  by (simp_all add: rb_example_def rb_inv_def rb_data_def rb_len_def wrap_def upt_rec)

text \<open>A block write appends as many bytes as fit behind the bytes held, changes nothing else of
  the contents, and returns their number.\<close>

theorem ringbuffer_put_appends:
  assumes "rb_inv rb" "n \<le> length ptr" "k = min n (buffer_size rb - length (rb_data rb))"
  shows "\<exists>rb'. rt_ringbuffer_put rb ptr n = Some (k, rb') \<and> rb_inv rb' \<and>
    buffer_size rb' = buffer_size rb \<and> rb_data rb' = rb_data rb @ take k ptr"
  using put_exact[OF assms(1,2)] assms(3) by simp

theorem ringbuffer_put_appends_witness:
  "\<exists>rb'. rt_ringbuffer_put rb_example [7, 8, 9] 3 = Some (2, rb') \<and> rb_inv rb' \<and>
    buffer_size rb' = 4 \<and> rb_data rb' = [2, 3, 7, 8]"
proof -
  have "2 = min 3 (buffer_size rb_example - length (rb_data rb_example))" "3 \<le> length [7, 8, 9 :: u8]"
    by (simp_all add: rb_example_inv(2,3) del: rb_data_length)
  from ringbuffer_put_appends[OF rb_example_inv(1) this(2,1)]
  show ?thesis unfolding rb_example_inv(2,3) by simp
qed

text \<open>A block read hands out the oldest bytes in order, at most as many as are held, and leaves
  the rest; together with the write this makes the buffer a FIFO of bytes.\<close>

theorem ringbuffer_get_takes:
  assumes "rb_inv rb" "k = min n (length (rb_data rb))"
  shows "\<exists>rb'. rt_ringbuffer_get rb n = Some (k, take k (rb_data rb), rb') \<and> rb_inv rb' \<and>
    buffer_size rb' = buffer_size rb \<and> rb_data rb' = drop k (rb_data rb)"
  using get_exact[OF assms(1), of n] assms(2) by simp

theorem ringbuffer_get_takes_witness:
  "\<exists>rb'. rt_ringbuffer_get rb_example 1 = Some (1, [2], rb') \<and> rb_inv rb' \<and>
    buffer_size rb' = 4 \<and> rb_data rb' = [3]"
  using ringbuffer_get_takes[OF rb_example_inv(1), of 1 1]
  by (simp add: rb_example_inv)

text \<open>Characters put one by one come out of \<open>rt_ringbuffer_getchar\<close> in the same order, behind the
  ones already held.\<close>

theorem ringbuffer_char_order:
  assumes "rb_inv rb" "length (rb_data rb) + length cs \<le> buffer_size rb"
  shows "\<exists>rb1 rb2. put_all rb_put1 cs rb = Some rb1 \<and>
    get_many rb_get1 (length (rb_data rb) + length cs) rb1 = Some (rb_data rb @ cs, rb2) \<and>
    rb_inv rb2 \<and> rb_data rb2 = []"
  using rbf.put_get_order[OF assms(1) _ assms(2)] by simp

theorem ringbuffer_char_order_witness:
  "\<exists>rb1 rb2. put_all rb_put1 [7, 8] rb_example = Some rb1 \<and>
    get_many rb_get1 4 rb1 = Some ([2, 3, 7, 8], rb2) \<and> rb_inv rb2 \<and> rb_data rb2 = []"
  using ringbuffer_char_order[OF rb_example_inv(1), of "[7, 8]"]
  by (simp add: rb_example_inv numeral_eq_Suc del: get_many.simps put_all.simps)

text \<open>What the forced block write does. When the bytes fit it appends them. When they do not and
  the old data goes round the end of the pool (the mirrors differ), the last \<open>buffer_size\<close> bytes remain,
  as its comment says. When they do not and the mirrors are equal, the buffer is empty afterwards: both
  mirrors are flipped, and equal indices with equal mirrors mean empty. Everything written is lost.\<close>

theorem ringbuffer_put_force_cases:
  assumes "rb_inv rb" "n \<le> length ptr" "k = min n (buffer_size rb)" "new = take k (drop (n - k) ptr)"
  shows "\<exists>rb'. rt_ringbuffer_put_force rb ptr n = Some (k, rb') \<and> rb_inv rb' \<and>
    rb_data rb' =
      (if length (rb_data rb) + k \<le> buffer_size rb then rb_data rb @ new
       else if read_mirror rb = write_mirror rb then []
       else drop (length (rb_data rb) + k - buffer_size rb) (rb_data rb) @ new)"
proof -
  obtain p where p: "rb_written rb (drop (n - k) ptr) k p"
    and r: "rt_ringbuffer_put_force rb ptr n = Some (k, rb_forced rb k p)"
    using put_force_state[OF assms(1,2)] assms(3) by auto
  have k: "k \<le> length (drop (n - k) ptr)" "k \<le> buffer_size rb" using assms(2,3) by auto
  have lp: "length p = length (buffer_ptr rb)" using p by (simp add: rb_written_def)
  consider "rb_len rb + k \<le> buffer_size rb" | "buffer_size rb < rb_len rb + k" by linarith
  then have "rb_inv (rb_forced rb k p) \<and> rb_data (rb_forced rb k p) =
      (if length (rb_data rb) + k \<le> buffer_size rb then rb_data rb @ new
       else if read_mirror rb = write_mirror rb then []
       else drop (length (rb_data rb) + k - buffer_size rb) (rb_data rb) @ new)"
  proof cases
    case 1
    then show ?thesis using advance_len[OF assms(1) 1 lp] advance_data[OF assms(1) 1 p k(1)] assms(4)
      by (simp add: rb_forced_def)
  next
    case 2
    then show ?thesis
      using forced_same_mirror[OF assms(1) _ k(2) 2 lp] forced_two_mirrors[OF assms(1) _ k 2 p] assms(4)
      by (auto simp del: rb_data_Nil_iff)
  qed
  then show ?thesis using r by blast
qed

theorem ringbuffer_put_force_cases_witness:
  "\<exists>rb'. rt_ringbuffer_put_force rb_example [7, 8, 9] 3 = Some (3, rb') \<and> rb_data rb' = []"
  using ringbuffer_put_force_cases[OF rb_example_inv(1), of 3 "[7, 8, 9]" 3 "[7, 8, 9]"]
  by (auto simp: rb_example_inv)

text \<open>The forced character write always succeeds, drops exactly the oldest byte when the buffer is
  full, and nothing otherwise.\<close>

theorem ringbuffer_putchar_force_overwrites:
  assumes "rb_inv rb"
  shows "\<exists>rb'. rt_ringbuffer_putchar_force rb ch = Some (1, rb') \<and> rb_inv rb' \<and>
    rb_data rb' = (if length (rb_data rb) = buffer_size rb then tl (rb_data rb) else rb_data rb) @ [ch]"
  using putchar_force_exact[OF assms, of ch] by auto

theorem ringbuffer_putchar_force_overwrites_witness:
  "\<exists>rb'. rt_ringbuffer_putchar_force rb_example 9 = Some (1, rb') \<and> rb_data rb' = [2, 3, 9]"
  using ringbuffer_putchar_force_overwrites[OF rb_example_inv(1), of 9]
  by (auto simp: rb_example_inv)

end
