(* ===== verification/Kservice.thy ===== *)
theory Kservice
  imports Prelude
begin

text \<open>
  The freestanding services of \<open>src/kservice.c\<close>: the table-driven \<open>__rt_ffs\<close> the scheduler uses to
  find the highest ready priority, the word-at-a-time memory routines, and the string routines the
  object names go through.

  Memory is a function from addresses to bytes; a buffer is assumed not to wrap around the end of
  the address space. The string routines work on the bytes from a pointer to the end of the object
  it points into, and are \<open>None\<close> when the C code would read past that end.
\<close>

subsection \<open>Find first set\<close>

definition lowest_bit_bitmap :: "nat list" where
  "lowest_bit_bitmap =
     [0, 0, 1, 0, 2, 0, 1, 0, 3, 0, 1, 0, 2, 0, 1, 0,
      4, 0, 1, 0, 2, 0, 1, 0, 3, 0, 1, 0, 2, 0, 1, 0,
      5, 0, 1, 0, 2, 0, 1, 0, 3, 0, 1, 0, 2, 0, 1, 0,
      4, 0, 1, 0, 2, 0, 1, 0, 3, 0, 1, 0, 2, 0, 1, 0,
      6, 0, 1, 0, 2, 0, 1, 0, 3, 0, 1, 0, 2, 0, 1, 0,
      4, 0, 1, 0, 2, 0, 1, 0, 3, 0, 1, 0, 2, 0, 1, 0,
      5, 0, 1, 0, 2, 0, 1, 0, 3, 0, 1, 0, 2, 0, 1, 0,
      4, 0, 1, 0, 2, 0, 1, 0, 3, 0, 1, 0, 2, 0, 1, 0,
      7, 0, 1, 0, 2, 0, 1, 0, 3, 0, 1, 0, 2, 0, 1, 0,
      4, 0, 1, 0, 2, 0, 1, 0, 3, 0, 1, 0, 2, 0, 1, 0,
      5, 0, 1, 0, 2, 0, 1, 0, 3, 0, 1, 0, 2, 0, 1, 0,
      4, 0, 1, 0, 2, 0, 1, 0, 3, 0, 1, 0, 2, 0, 1, 0,
      6, 0, 1, 0, 2, 0, 1, 0, 3, 0, 1, 0, 2, 0, 1, 0,
      4, 0, 1, 0, 2, 0, 1, 0, 3, 0, 1, 0, 2, 0, 1, 0,
      5, 0, 1, 0, 2, 0, 1, 0, 3, 0, 1, 0, 2, 0, 1, 0,
      4, 0, 1, 0, 2, 0, 1, 0, 3, 0, 1, 0, 2, 0, 1, 0]"

definition rt_ffs :: "u32 \<Rightarrow> nat" where
  "rt_ffs v =
     (if v = 0 then 0
      else if v AND 0xff \<noteq> 0 then lowest_bit_bitmap ! unat (v AND 0xff) + 1
      else if v AND 0xff00 \<noteq> 0 then lowest_bit_bitmap ! unat (drop_bit 8 (v AND 0xff00)) + 9
      else if v AND 0xff0000 \<noteq> 0 then lowest_bit_bitmap ! unat (drop_bit 16 (v AND 0xff0000)) + 17
      else lowest_bit_bitmap ! unat (drop_bit 24 (v AND 0xff000000)) + 25)"

text \<open>What the table must hold: the index of the lowest set bit of every non-zero byte.\<close>

fun lowbit :: "nat \<Rightarrow> nat" where
  "lowbit n = (if n = 0 \<or> odd n then 0 else Suc (lowbit (n div 2)))"

declare lowbit.simps [simp del]

lemma lowbit_numeral [simp]:
  "lowbit 0 = 0" "lowbit (Suc 0) = 0" "lowbit 1 = 0"
  "lowbit (numeral (Num.Bit1 k)) = 0"
  "lowbit (numeral (Num.Bit0 k)) = Suc (lowbit (numeral k))"
  by (subst lowbit.simps, simp)+

lemma lowbit_correct:
  "0 < n \<Longrightarrow> bit n (lowbit n) \<and> (\<forall>j < lowbit n. \<not> bit n j) \<and> 2 ^ lowbit n \<le> n"
proof (induction n rule: lowbit.induct)
  case (1 n)
  show ?case
  proof (cases "odd n")
    case True
    then have "lowbit n = 0" by (subst lowbit.simps) simp
    then show ?thesis using True 1(2) by (simp add: bit_0)
  next
    case False
    then have m: "lowbit n = Suc (lowbit (n div 2))" and "0 < n div 2"
      using 1(2) by (subst lowbit.simps, simp, presburger)
    then have IH: "bit (n div 2) (lowbit (n div 2))" "\<And>j. j < lowbit (n div 2) \<Longrightarrow> \<not> bit (n div 2) j"
      "2 ^ lowbit (n div 2) \<le> n div 2"
      using 1(1)[OF _ \<open>0 < n div 2\<close>] False 1(2) by auto
    have "\<not> bit n j" if "j < lowbit n" for j
      using that IH(2)[of "j - 1"] False m by (cases j) (auto simp: bit_0 bit_Suc)
    then show ?thesis using IH(1,3) m by (auto simp: bit_Suc)
  qed
qed

lemma lowest_bit_table: "lowest_bit_bitmap = map lowbit [0..<256]"
proof -
  have *: "[0..<256] = 0 # 1 # [2..<256]" by (simp add: upt_rec)
  show ?thesis unfolding * lowest_bit_bitmap_def by simp
qed

lemma lowest_bit_bitmap_nth: "i < 256 \<Longrightarrow> lowest_bit_bitmap ! i = lowbit i"
  by (simp add: lowest_bit_table)

lemma lowbit_byte: "0 < i \<Longrightarrow> i < 256 \<Longrightarrow> lowbit i < 8"
  using lowbit_correct[of i] power_less_imp_less_exp[of "2::nat" "lowbit i" 8] by auto

lemma byte_masks:
  "bit (0xff :: u32) j \<longleftrightarrow> j < 8"
  "bit (0xff00 :: u32) j \<longleftrightarrow> 8 \<le> j \<and> j < 16"
  "bit (0xff0000 :: u32) j \<longleftrightarrow> 16 \<le> j \<and> j < 24"
  "bit (0xff000000 :: u32) j \<longleftrightarrow> 24 \<le> j \<and> j < 32"
proof -
  have *: "(0xff :: u32) = mask 8" "(0xff00 :: u32) = push_bit 8 (mask 8)"
    "(0xff0000 :: u32) = push_bit 16 (mask 8)" "(0xff000000 :: u32) = push_bit 24 (mask 8)"
    by (simp_all add: mask_eq_exp_minus_1 push_bit_eq_mult)
  show "bit (0xff :: u32) j \<longleftrightarrow> j < 8" "bit (0xff00 :: u32) j \<longleftrightarrow> 8 \<le> j \<and> j < 16"
    "bit (0xff0000 :: u32) j \<longleftrightarrow> 16 \<le> j \<and> j < 24"
    "bit (0xff000000 :: u32) j \<longleftrightarrow> 24 \<le> j \<and> j < 32"
    by (auto simp: * bit_push_bit_iff bit_mask_iff)
qed

lemma byte_mask0: "bit (0xff :: u32) j \<longleftrightarrow> 0 \<le> j \<and> j < 0 + 8" by (simp only: byte_masks) simp
lemma byte_mask8: "bit (0xff00 :: u32) j \<longleftrightarrow> 8 \<le> j \<and> j < 8 + 8" by (simp only: byte_masks) simp
lemma byte_mask16: "bit (0xff0000 :: u32) j \<longleftrightarrow> 16 \<le> j \<and> j < 16 + 8" by (simp only: byte_masks) simp
lemma byte_mask24: "bit (0xff000000 :: u32) j \<longleftrightarrow> 24 \<le> j \<and> j < 24 + 8" by (simp only: byte_masks) simp

text \<open>The byte at bit offset \<open>k\<close> of a word, and its lowest bit when the bytes below it are 0.\<close>

lemma ffs_byte:
  fixes v m :: u32
  assumes m: "\<And>j. bit m j \<longleftrightarrow> k \<le> j \<and> j < k + 8"
    and nz: "v AND m \<noteq> 0" and low: "\<And>j. j < k \<Longrightarrow> \<not> bit v j"
  shows "bit v (lowest_bit_bitmap ! unat (drop_bit k (v AND m)) + k)"
    "\<And>j. j < lowest_bit_bitmap ! unat (drop_bit k (v AND m)) + k \<Longrightarrow> \<not> bit v j"
proof -
  define x where "x = unat (drop_bit k (v AND m))"
  have bx: "bit x j \<longleftrightarrow> j < 8 \<and> bit v (j + k)" for j
    by (auto simp: x_def bit_unsigned_iff bit_drop_bit_eq bit_and_iff m ac_simps
        dest: bit_imp_le_length)
  have "x \<noteq> 0"
  proof
    assume "x = 0"
    have "\<not> bit (v AND m) j" for j
      using bx[of "j - k"] \<open>x = 0\<close> by (auto simp: bit_and_iff m)
    then show False using nz by (metis bit_eq_iff bit_0_eq bot_apply bot_bool_def)
  qed
  have "x < 2 ^ 8"
  proof -
    have "take_bit 8 x = x" by (rule bit_eqI) (auto simp: bit_take_bit_iff bx)
    then show ?thesis by (metis take_bit_nat_less_exp)
  qed
  then have l: "lowest_bit_bitmap ! x = lowbit x" by (simp add: lowest_bit_bitmap_nth)
  have *: "bit x (lowbit x)" "\<And>j. j < lowbit x \<Longrightarrow> \<not> bit x j"
    using lowbit_correct[of x] \<open>x \<noteq> 0\<close> by auto
  show "bit v (lowest_bit_bitmap ! unat (drop_bit k (v AND m)) + k)"
    using *(1) unfolding x_def[symmetric] l by (simp add: bx)
  fix j assume j: "j < lowest_bit_bitmap ! unat (drop_bit k (v AND m)) + k"
  have "lowbit x < 8" using lowbit_byte \<open>x \<noteq> 0\<close> \<open>x < 2 ^ 8\<close> by simp
  then show "\<not> bit v j"
    using low[of j] *(2)[of "j - k"] j unfolding x_def[symmetric] l
    by (cases "j < k") (auto simp: bx not_less)
qed

lemma rt_ffs_zero [simp]: "rt_ffs 0 = 0"
  by (simp add: rt_ffs_def)

lemma no_bits_and: "(v :: u32) AND m = 0 \<Longrightarrow> bit m j \<Longrightarrow> \<not> bit v j"
  by (metis bit_and_iff bit_0_eq bot_apply bot_bool_def)

lemma rt_ffs_nonzero:
  assumes "v \<noteq> 0"
  shows "0 < rt_ffs v \<and> bit v (rt_ffs v - 1) \<and> (\<forall>j < rt_ffs v - 1. \<not> bit v j)"
proof -
  consider (a) "v AND 0xff \<noteq> 0" | (b) "v AND 0xff = 0" "v AND 0xff00 \<noteq> 0"
    | (c) "v AND 0xff = 0" "v AND 0xff00 = 0" "v AND 0xff0000 \<noteq> 0"
    | (d) "v AND 0xff = 0" "v AND 0xff00 = 0" "v AND 0xff0000 = 0" by blast
  then show ?thesis
  proof cases
    case a then show ?thesis
      using ffs_byte[OF byte_mask0, of v] assms by (auto simp: rt_ffs_def)
  next
    case b then have "\<not> bit v j" if "j < 8" for j
      using no_bits_and[of v "0xff" j] that byte_mask0[of j] by auto
    then show ?thesis using ffs_byte[OF byte_mask8, of v] b assms by (auto simp: rt_ffs_def ac_simps)
  next
    case c then have "\<not> bit v j" if "j < 16" for j
      using no_bits_and[of v "0xff" j] no_bits_and[of v "0xff00" j] that
        byte_mask0[of j] byte_mask8[of j] by auto
    then show ?thesis
      using ffs_byte[OF byte_mask16, of v] c assms by (auto simp: rt_ffs_def ac_simps)
  next
    case d then have low: "\<not> bit v j" if "j < 24" for j
      using no_bits_and[of v "0xff" j] no_bits_and[of v "0xff00" j] no_bits_and[of v "0xff0000" j]
        that byte_mask0[of j] byte_mask8[of j] byte_mask16[of j] by auto
    have "v AND 0xff000000 \<noteq> 0"
    proof
      assume "v AND 0xff000000 = 0"
      then have "\<not> bit v j" for j
        using low[of j] no_bits_and[of v "0xff000000" j] bit_imp_le_length[of v j]
        byte_mask24[of j] by (cases "j < 24"; cases "j < 32") auto
      then show False using assms by (metis bit_eq_iff bit_0_eq bot_apply bot_bool_def)
    qed
    then show ?thesis
      using ffs_byte[OF byte_mask24, of v] low d assms by (auto simp: rt_ffs_def ac_simps)
  qed
qed

lemma rt_ffs_unique:
  assumes "bit v p" "\<And>j. j < p \<Longrightarrow> \<not> bit v j"
  shows "rt_ffs v = Suc p"
proof -
  have "v \<noteq> 0" using assms(1) by auto
  then have *: "0 < rt_ffs v" "bit v (rt_ffs v - 1)" "\<And>j. j < rt_ffs v - 1 \<Longrightarrow> \<not> bit v j"
    using rt_ffs_nonzero by blast+
  then have "rt_ffs v - 1 = p" using assms by (meson linorder_neqE_nat)
  then show ?thesis using *(1) by simp
qed

lemma rt_ffs_le: "rt_ffs v \<le> 32"
  using rt_ffs_nonzero[of v] bit_imp_le_length[of v "rt_ffs v - 1"] by (cases "v = 0") auto

subsection \<open>Memory routines\<close>

type_synonym mem = "nat \<Rightarrow> u8"

text \<open>A 32-bit load and store of the little-endian target.\<close>

definition load32 :: "mem \<Rightarrow> nat \<Rightarrow> u32" where
  "load32 m a = ucast (m a) OR push_bit 8 (ucast (m (a + 1)))
     OR push_bit 16 (ucast (m (a + 2))) OR push_bit 24 (ucast (m (a + 3)))"

definition store32 :: "nat \<Rightarrow> u32 \<Rightarrow> mem \<Rightarrow> mem" where
  "store32 a w m = m(a := ucast w, a + 1 := ucast (drop_bit 8 w),
     a + 2 := ucast (drop_bit 16 w), a + 3 := ucast (drop_bit 24 w))"

text \<open>
  \<open>rt_memset\<close>: the loop that stores four words at a time, the loop that stores one word at a
  time, and the byte loop. Each takes and returns the memory, the running pointer and \<open>count\<close>.
\<close>

fun memset_blocks :: "u32 \<Rightarrow> mem \<times> nat \<times> nat \<Rightarrow> mem \<times> nat \<times> nat" where
  "memset_blocks buffer (m, a, count) =
     (if count \<ge> 16
      then memset_blocks buffer
             (store32 (a + 12) buffer (store32 (a + 8) buffer (store32 (a + 4) buffer
               (store32 a buffer m))), a + 16, count - 16)
      else (m, a, count))"

fun memset_words :: "u32 \<Rightarrow> mem \<times> nat \<times> nat \<Rightarrow> mem \<times> nat \<times> nat" where
  "memset_words buffer (m, a, count) =
     (if count \<ge> 4 then memset_words buffer (store32 a buffer m, a + 4, count - 4)
      else (m, a, count))"

fun memset_bytes :: "u8 \<Rightarrow> mem \<Rightarrow> nat \<Rightarrow> nat \<Rightarrow> mem" where
  "memset_bytes d m a 0 = m"
| "memset_bytes d m a (Suc count) = memset_bytes d (m(a := d)) (a + 1) count"

declare memset_blocks.simps [simp del] memset_words.simps [simp del]

definition rt_memset :: "nat \<Rightarrow> u32 \<Rightarrow> nat \<Rightarrow> mem \<Rightarrow> mem" where
  "rt_memset s c count m =
     (let d = c AND 0xff
      in if \<not> count < 4 \<and> s mod 4 = 0
         then let buffer = push_bit 8 d OR d;
                  buffer = buffer OR push_bit 16 buffer;
                  (m, a, count) = memset_words buffer (memset_blocks buffer (m, s, count))
              in memset_bytes (ucast d) m a count
         else memset_bytes (ucast d) m s count)"

fun memcpy_blocks :: "mem \<times> nat \<times> nat \<times> nat \<Rightarrow> mem \<times> nat \<times> nat \<times> nat" where
  "memcpy_blocks (m, d, s, len) =
     (if len \<ge> 16
      then let m = store32 d (load32 m s) m;
               m = store32 (d + 4) (load32 m (s + 4)) m;
               m = store32 (d + 8) (load32 m (s + 8)) m;
               m = store32 (d + 12) (load32 m (s + 12)) m
           in memcpy_blocks (m, d + 16, s + 16, len - 16)
      else (m, d, s, len))"

fun memcpy_words :: "mem \<times> nat \<times> nat \<times> nat \<Rightarrow> mem \<times> nat \<times> nat \<times> nat" where
  "memcpy_words (m, d, s, len) =
     (if len \<ge> 4 then memcpy_words (store32 d (load32 m s) m, d + 4, s + 4, len - 4)
      else (m, d, s, len))"

fun memcpy_bytes :: "mem \<Rightarrow> nat \<Rightarrow> nat \<Rightarrow> nat \<Rightarrow> mem" where
  "memcpy_bytes m d s 0 = m"
| "memcpy_bytes m d s (Suc len) = memcpy_bytes (m(d := m s)) (d + 1) (s + 1) len"

declare memcpy_blocks.simps [simp del] memcpy_words.simps [simp del]

definition rt_memcpy :: "nat \<Rightarrow> nat \<Rightarrow> nat \<Rightarrow> mem \<Rightarrow> mem" where
  "rt_memcpy dst src count m =
     (if \<not> count < 16 \<and> src mod 4 = 0 \<and> dst mod 4 = 0
      then let (m, d, s, len) = memcpy_words (memcpy_blocks (m, dst, src, count))
           in memcpy_bytes m d s len
      else memcpy_bytes m dst src count)"

text \<open>\<open>rt_memmove\<close> copies downwards from the end when the destination starts inside the source.\<close>

fun memmove_down :: "mem \<Rightarrow> nat \<Rightarrow> nat \<Rightarrow> nat \<Rightarrow> mem" where
  "memmove_down m tmp s 0 = m"
| "memmove_down m tmp s (Suc n) = memmove_down (m(tmp - 1 := m (s - 1))) (tmp - 1) (s - 1) n"

definition rt_memmove :: "nat \<Rightarrow> nat \<Rightarrow> nat \<Rightarrow> mem \<Rightarrow> mem" where
  "rt_memmove dest src n m =
     (if src < dest \<and> dest < src + n then memmove_down m (dest + n) (src + n) n
      else memcpy_bytes m dest src n)"

text \<open>What the copying routines are for: the bytes of a region, and a region replaced by bytes.\<close>

definition region :: "mem \<Rightarrow> nat \<Rightarrow> nat \<Rightarrow> u8 list" where
  "region m a n = map (\<lambda>i. m (a + i)) [0..<n]"

definition fill :: "nat \<Rightarrow> u8 list \<Rightarrow> mem \<Rightarrow> mem" where
  "fill a bs m = (\<lambda>p. if a \<le> p \<and> p < a + length bs then bs ! (p - a) else m p)"

lemma region_length [simp]: "length (region m a n) = n"
  by (simp add: region_def)

lemma region_nth [simp]: "i < n \<Longrightarrow> region m a n ! i = m (a + i)"
  by (simp add: region_def)

lemma fill_Nil [simp]: "fill a [] m = m"
  by (rule ext) (auto simp: fill_def)

lemma fill_append: "fill (a + length bs) cs (fill a bs m) = fill a (bs @ cs) m"
  by (auto simp: fill_def fun_eq_iff nth_append)

lemma fill_single: "fill a [b] m = m(a := b)"
  by (auto simp: fill_def fun_eq_iff)

lemma store32_fill:
  "store32 a w m =
     fill a [ucast w, ucast (drop_bit 8 w), ucast (drop_bit 16 w), ucast (drop_bit 24 w)] m"
  by (auto simp: store32_def fill_def fun_eq_iff nth_Cons split: nat.splits)

lemma byte_no_high_bits [simp]:
  "\<not> bit (x :: u8) (8 + n)" "\<not> bit (x :: u8) (16 + n)" "\<not> bit (x :: u8) (24 + n)"
  using bit_imp_le_length[of x "8 + n"] bit_imp_le_length[of x "16 + n"]
    bit_imp_le_length[of x "24 + n"] by auto

lemma load32_bytes:
  "(ucast (load32 m a) :: u8) = m a"
  "(ucast (drop_bit 8 (load32 m a)) :: u8) = m (a + 1)"
  "(ucast (drop_bit 16 (load32 m a)) :: u8) = m (a + 2)"
  "(ucast (drop_bit 24 (load32 m a)) :: u8) = m (a + 3)"
  by (auto intro!: bit_word_eqI simp: load32_def bit_simps)

lemma store_load: "store32 d (load32 m s) m = fill d (region m s 4) m"
proof -
  have "[0..<4] = [0, 1, 2, 3 :: nat]" by (simp add: upt_rec)
  then show ?thesis by (simp add: store32_fill load32_bytes region_def)
qed

lemma memset_bytes_fill: "memset_bytes d m a n = fill a (replicate n d) m"
proof (induction d m a n rule: memset_bytes.induct)
  case (2 d m a n)
  have "fill (a + length [d]) (replicate n d) (fill a [d] m) = fill a ([d] @ replicate n d) m"
    by (rule fill_append)
  then show ?case using 2 by (simp add: fill_single fun_upd_def)
qed simp

lemma replicate_fill_append:
  "k \<le> n \<Longrightarrow> fill (a + k) (replicate (n - k) d) (fill a (replicate k d) m) = fill a (replicate n d) m"
  using fill_append[of a "replicate k d" "replicate (n - k) d" m]
  by (simp flip: replicate_add)

text \<open>The word the byte is spread over stores four copies of it.\<close>

lemma byte_and_mask: "(x :: u32) AND 0xff = ucast (ucast x :: u8)"
  by (rule bit_word_eqI) (simp only: bit_and_iff byte_masks(1), auto simp: bit_simps)

lemma store32_spread:
  fixes b :: u8
  defines "buf \<equiv> push_bit 8 (ucast b) OR ucast b :: u32"
  shows "store32 a (buf OR push_bit 16 buf) m = fill a (replicate 4 b) m"
proof -
  have "(ucast (buf OR push_bit 16 buf) :: u8) = b"
    "(ucast (drop_bit 8 (buf OR push_bit 16 buf)) :: u8) = b"
    "(ucast (drop_bit 16 (buf OR push_bit 16 buf)) :: u8) = b"
    "(ucast (drop_bit 24 (buf OR push_bit 16 buf)) :: u8) = b"
    by (auto intro!: bit_word_eqI simp: buf_def bit_simps)
  then show ?thesis by (simp add: store32_fill numeral_eq_Suc)
qed

lemma memset_words_fill:
  assumes st: "\<And>a m. store32 a buffer m = fill a (replicate 4 b) m"
  shows "memset_words buffer (m, a, n) =
    (fill a (replicate (n div 4 * 4) b) m, a + n div 4 * 4, n mod 4)"
proof (induction n arbitrary: m a rule: less_induct)
  case (less n)
  show ?case
  proof (cases "n \<ge> 4")
    case True
    then have d: "n div 4 * 4 = 4 + (n - 4) div 4 * 4" and "n mod 4 = (n - 4) mod 4"
      by (auto simp: le_div_geq le_mod_geq)
    then show ?thesis
      using True less[of "n - 4" "fill a (replicate 4 b) m" "a + 4"]
        replicate_fill_append[of 4 "n div 4 * 4" a b m]
      by (subst memset_words.simps) (simp add: st)
  next
    case False then show ?thesis by (subst memset_words.simps) simp
  qed
qed

lemma memset_blocks_fill:
  assumes st: "\<And>a m. store32 a buffer m = fill a (replicate 4 b) m"
  shows "memset_blocks buffer (m, a, n) =
    (fill a (replicate (n div 16 * 16) b) m, a + n div 16 * 16, n mod 16)"
proof (induction n arbitrary: m a rule: less_induct)
  case (less n)
  have one: "store32 (a + 12) buffer (store32 (a + 8) buffer (store32 (a + 4) buffer
      (store32 a buffer m))) = fill a (replicate 16 b) m" for a m
    using replicate_fill_append[of 4 8 a b m] replicate_fill_append[of 8 12 a b m]
      replicate_fill_append[of 12 16 a b m] by (simp add: st)
  show ?case
  proof (cases "n \<ge> 16")
    case True
    then have d: "n div 16 * 16 = 16 + (n - 16) div 16 * 16" and "n mod 16 = (n - 16) mod 16"
      by (auto simp: le_div_geq le_mod_geq)
    then show ?thesis
      using True less[of "n - 16" "fill a (replicate 16 b) m" "a + 16"]
        replicate_fill_append[of 16 "n div 16 * 16" a b m]
      by (subst memset_blocks.simps) (simp add: one)
  next
    case False then show ?thesis by (subst memset_blocks.simps) simp
  qed
qed

lemma ucast_ucast_byte: "(ucast (ucast (b :: u8) :: u32) :: u8) = b"
  by (auto intro!: bit_word_eqI simp: bit_simps)

lemma rt_memset_fill: "rt_memset s c count m = fill s (replicate count (ucast c)) m"
proof (cases "\<not> count < 4 \<and> s mod 4 = 0")
  case True
  have a: "fill (s + k) (replicate l b) (fill s (replicate k b) m) = fill s (replicate (k + l) b) m"
    for k l and b :: u8
    using replicate_fill_append[of k "k + l" s b m] by simp
  have k: "count div 16 * 16 + (count mod 16 div 4 * 4 + count mod 16 mod 4) = count" by simp
  show ?thesis
    using True
    by (simp only: rt_memset_def Let_def byte_and_mask
        memset_blocks_fill[OF store32_spread] memset_words_fill[OF store32_spread] case_prod_conv
        memset_bytes_fill simp_thms if_True add.assoc a k)
      (simp only: a[where k = "count div 16 * 16 + count mod 16 div 4 * 4"] k add.assoc ucast_ucast_byte)
next
  case False then show ?thesis
    by (auto simp: rt_memset_def byte_and_mask memset_bytes_fill ucast_ucast_byte)
qed

text \<open>Copying forwards is a move of the region unless the destination starts inside the source.\<close>

definition forward_ok :: "nat \<Rightarrow> nat \<Rightarrow> nat \<Rightarrow> bool" where
  "forward_ok d s n \<longleftrightarrow> \<not> (s < d \<and> d < s + n)"

lemma copy_compose:
  assumes "k \<le> n" "forward_ok d s n"
  shows "fill (d + k) (region (fill d (region m s k) m) (s + k) (n - k)) (fill d (region m s k) m) =
    fill d (region m s n) m"
  using assms by (auto simp: fill_def fun_eq_iff forward_ok_def)

lemma forward_ok_tail: "forward_ok d s n \<Longrightarrow> k \<le> n \<Longrightarrow> forward_ok (d + k) (s + k) (n - k)"
  by (auto simp: forward_ok_def)

lemma region_one: "region m s 1 = [m s]"
  by (simp add: region_def)

lemma memcpy_bytes_move: "forward_ok d s n \<Longrightarrow> memcpy_bytes m d s n = fill d (region m s n) m"
proof (induction m d s n rule: memcpy_bytes.induct)
  case (1 m d s) then show ?case by (simp add: region_def)
next
  case (2 m d s n)
  then show ?case
    using copy_compose[of 1 "Suc n" d s m] forward_ok_tail[of d s "Suc n" 1]
    by (simp add: region_one fill_single region_one[unfolded One_nat_def] fun_upd_def)
qed

lemma memcpy_words_move:
  "forward_ok d s n \<Longrightarrow> memcpy_words (m, d, s, n) =
    (fill d (region m s (n div 4 * 4)) m, d + n div 4 * 4, s + n div 4 * 4, n mod 4)"
proof (induction n arbitrary: m d s rule: less_induct)
  case (less n)
  show ?case
  proof (cases "n \<ge> 4")
    case True
    then have q: "n div 4 * 4 = 4 + (n - 4) div 4 * 4" and "n mod 4 = (n - 4) mod 4"
      by (auto simp: le_div_geq le_mod_geq)
    moreover have "forward_ok d s (n div 4 * 4)" using less.prems
      by (auto simp: forward_ok_def dest: order.strict_trans2[OF _ div_times_less_eq_dividend])
    ultimately show ?thesis
      using True less.IH[of "n - 4" "d + 4" "s + 4" "fill d (region m s 4) m"]
        forward_ok_tail[OF less.prems, of 4] copy_compose[of 4 "n div 4 * 4" d s m]
      by (subst memcpy_words.simps) (simp add: store_load)
  next
    case False then show ?thesis by (subst memcpy_words.simps) (simp add: region_def)
  qed
qed

lemma memcpy_blocks_move:
  "forward_ok d s n \<Longrightarrow> memcpy_blocks (m, d, s, n) =
    (fill d (region m s (n div 16 * 16)) m, d + n div 16 * 16, s + n div 16 * 16, n mod 16)"
proof (induction n arbitrary: m d s rule: less_induct)
  case (less n)
  show ?case
  proof (cases "n \<ge> 16")
    case True
    then have q: "n div 16 * 16 = 16 + (n - 16) div 16 * 16" and "n mod 16 = (n - 16) mod 16"
      by (auto simp: le_div_geq le_mod_geq)
    moreover have f: "forward_ok d s k" if "k \<le> n" for k
      using less.prems that by (auto simp: forward_ok_def)
    moreover have "fill (d + k) (region (fill d (region m s k) m) (s + k) 4) (fill d (region m s k) m)
        = fill d (region m s (k + 4)) m" if "k + 4 \<le> 16" for k
      using copy_compose[of k "k + 4" d s m] f[of "k + 4"] that True by simp
    from this[of 4] this[of 8] this[of 12]
    have "(let m = store32 d (load32 m s) m; m = store32 (d + 4) (load32 m (s + 4)) m;
               m = store32 (d + 8) (load32 m (s + 8)) m
           in store32 (d + 12) (load32 m (s + 12)) m) = fill d (region m s 16) m"
      by (simp add: store_load)
    ultimately show ?thesis
      using True less.IH[of "n - 16" "d + 16" "s + 16" "fill d (region m s 16) m"]
        forward_ok_tail[OF less.prems, of 16] copy_compose[of 16 "n div 16 * 16" d s m]
        f[of "n div 16 * 16"]
      by (subst memcpy_blocks.simps) (simp add: Let_def)
  next
    case False then show ?thesis by (subst memcpy_blocks.simps) (simp add: region_def)
  qed
qed

lemma rt_memcpy_move:
  assumes "forward_ok d s n"
  shows "rt_memcpy d s n m = fill d (region m s n) m"
proof (cases "\<not> n < 16 \<and> s mod 4 = 0 \<and> d mod 4 = 0")
  case True
  define a where "a = n div 16 * 16"
  define b where "b = n mod 16 div 4 * 4"
  have n: "n mod 16 = n - a" "a \<le> n" "b \<le> n - a" "n mod 16 mod 4 = n - (a + b)" "a + b \<le> n"
  proof -
    have "n mod 16 = n - a" "n = a + n mod 16" by (simp_all add: a_def minus_div_mult_eq_mod)
    moreover have "n mod 16 = b + n mod 16 mod 4" by (simp add: b_def)
    ultimately show "n mod 16 = n - a" "a \<le> n" "b \<le> n - a" "n mod 16 mod 4 = n - (a + b)"
      "a + b \<le> n" by linarith+
  qed
  have b2: "4 * ((n - a) div 4) = b" using n(1) by (simp add: b_def)
  have f: "forward_ok d s k" if "k \<le> n" for k using assms that by (auto simp: forward_ok_def)
  have "memcpy_blocks (m, d, s, n) = (fill d (region m s a) m, d + a, s + a, n mod 16)"
    using memcpy_blocks_move[OF assms] by (simp add: a_def)
  moreover have "memcpy_words (fill d (region m s a) m, d + a, s + a, n mod 16) =
      (fill d (region m s (a + b)) m, d + (a + b), s + (a + b), n mod 16 mod 4)"
    using memcpy_words_move[of "d + a" "s + a" "n mod 16" "fill d (region m s a) m"]
      copy_compose[of a "a + b" d s m] f[of "a + b"] forward_ok_tail[OF assms, of a] n
    by (simp add: ac_simps b2)
  moreover have "memcpy_bytes (fill d (region m s (a + b)) m) (d + (a + b)) (s + (a + b))
      (n mod 16 mod 4) = fill d (region m s n) m"
    using memcpy_bytes_move[OF forward_ok_tail[OF assms n(5)]] copy_compose[of "a + b" n d s m]
      assms n by simp
  ultimately show ?thesis using True by (simp add: rt_memcpy_def)
next
  case False
  then show ?thesis using memcpy_bytes_move[OF assms] by (auto simp: rt_memcpy_def)
qed

lemma memmove_down_move:
  "s < d \<Longrightarrow> memmove_down m (d + n) (s + n) n = fill d (region m s n) m"
proof (induction n arbitrary: m)
  case 0 then show ?case by (simp add: region_def)
next
  case (Suc n)
  then show ?case by (auto simp: fill_def fun_eq_iff less_Suc_eq_le not_less_eq_eq)
qed

lemma rt_memmove_move: "rt_memmove d s n m = fill d (region m s n) m"
  using memmove_down_move[of s d m n] memcpy_bytes_move[of d s n m]
  by (auto simp: rt_memmove_def forward_ok_def)

subsection \<open>Comparison and string routines\<close>

fun rt_memcmp :: "u8 list \<Rightarrow> u8 list \<Rightarrow> nat \<Rightarrow> int option" where
  "rt_memcmp su1 su2 0 = Some 0"
| "rt_memcmp (c # su1) (d # su2) (Suc count) =
     (let res = uint c - uint d in if res \<noteq> 0 then Some res else rt_memcmp su1 su2 count)"
| "rt_memcmp su1 su2 (Suc count) = None"

fun rt_strlen :: "u8 list \<Rightarrow> nat option" where
  "rt_strlen [] = None"
| "rt_strlen (c # s) = (if c \<noteq> 0 then map_option Suc (rt_strlen s) else Some 0)"

text \<open>The loop condition of \<open>rt_strnlen\<close> reads the character before it compares the count.\<close>

fun rt_strnlen :: "u8 list \<Rightarrow> nat \<Rightarrow> nat option" where
  "rt_strnlen [] maxlen = None"
| "rt_strnlen (c # s) maxlen =
     (if c \<noteq> 0 \<and> 0 < maxlen then map_option Suc (rt_strnlen s (maxlen - 1)) else Some 0)"

fun rt_strcmp :: "u8 list \<Rightarrow> u8 list \<Rightarrow> int option" where
  "rt_strcmp (c # cs) (d # ct) =
     (if c \<noteq> 0 \<and> c = d then rt_strcmp cs ct else Some (uint c - uint d))"
| "rt_strcmp cs ct = None"

text \<open>The difference goes through a \<open>signed char\<close>.\<close>

fun rt_strncmp :: "u8 list \<Rightarrow> u8 list \<Rightarrow> nat \<Rightarrow> int option" where
  "rt_strncmp cs ct 0 = Some 0"
| "rt_strncmp (c # cs) (d # ct) (Suc count) =
     (let res = sint (c - d)
      in if res \<noteq> 0 \<or> c = 0 then Some res else rt_strncmp cs ct count)"
| "rt_strncmp cs ct (Suc count) = None"

text \<open>The \<open>n\<close> bytes \<open>rt_strncpy\<close> writes to the destination.\<close>

fun rt_strncpy :: "u8 list \<Rightarrow> nat \<Rightarrow> u8 list option" where
  "rt_strncpy src 0 = Some []"
| "rt_strncpy [] (Suc n) = None"
| "rt_strncpy (c # src) (Suc n) =
     (if c = 0 then Some (0 # replicate n 0) else map_option ((#) c) (rt_strncpy src n))"

definition to_lower :: "u8 \<Rightarrow> int" where
  "to_lower c = (if 65 \<le> uint c \<and> uint c \<le> 90 then uint c + 32 else uint c)"

fun rt_strcasecmp :: "u8 list \<Rightarrow> u8 list \<Rightarrow> u32 option" where
  "rt_strcasecmp (c # a) (d # b) =
     (let ca = to_lower c; cb = to_lower d
      in if ca = cb \<and> ca \<noteq> 0 then rt_strcasecmp a b else Some (word_of_int (ca - cb)))"
| "rt_strcasecmp a b = None"

text \<open>The position of the first occurrence, or \<open>None\<close> for \<open>RT_NULL\<close>, inside the fault option.\<close>

function strstr_loop :: "nat \<Rightarrow> nat \<Rightarrow> u8 list \<Rightarrow> u8 list \<Rightarrow> nat \<Rightarrow> nat option option" where
  "strstr_loop l1 l2 s1 s2 pos =
     (if l2 \<le> l1 \<and> 0 < l2
      then do { r \<leftarrow> rt_memcmp s1 s2 l2;
                if r = 0 then Some (Some pos) else strstr_loop (l1 - 1) l2 (tl s1) s2 (pos + 1) }
      else Some None)"
  by pat_completeness auto
termination by (relation "measure (\<lambda>(l1, _). l1)") auto

declare strstr_loop.simps [simp del]

definition rt_strstr :: "u8 list \<Rightarrow> u8 list \<Rightarrow> nat option option" where
  "rt_strstr s1 s2 =
     do { l2 \<leftarrow> rt_strlen s2;
          if l2 = 0 then Some (Some 0)
          else do { l1 \<leftarrow> rt_strlen s1; strstr_loop l1 l2 s1 s2 0 } }"

text \<open>\<open>cstr s bs\<close>: the pointer \<open>s\<close> points to the string \<open>bs\<close>.\<close>

definition cstr :: "u8 list \<Rightarrow> u8 list \<Rightarrow> bool" where
  "cstr s bs \<longleftrightarrow> 0 \<notin> set bs \<and> (\<exists>r. s = bs @ 0 # r)"

lemma cstr_cases [consumes 1]:
  assumes "cstr s bs"
  obtains (empty) r where "bs = []" "s = 0 # r"
    | (char) c cs s' where "bs = c # cs" "s = c # s'" "c \<noteq> 0" "cstr s' cs"
  using assms by (cases bs) (auto simp: cstr_def)

lemma rt_strlen_cstr: "cstr s bs \<Longrightarrow> rt_strlen s = Some (length bs)"
proof (induction bs arbitrary: s)
  case (Cons b bs) from Cons.prems Cons.IH show ?case by (cases rule: cstr_cases) auto
qed (auto simp: cstr_def)

lemma rt_memcmp_take:
  "n \<le> length a \<Longrightarrow> n \<le> length b \<Longrightarrow>
    \<exists>r. rt_memcmp a b n = Some r \<and> (r = 0 \<longleftrightarrow> take n a = take n b)"
  by (induction a b n rule: rt_memcmp.induct) (auto simp: Let_def word_uint_eq_iff)

lemma rt_strcmp_eq_0:
  "cstr s a \<Longrightarrow> cstr t b \<Longrightarrow> \<exists>r. rt_strcmp s t = Some r \<and> (r = 0 \<longleftrightarrow> a = b)"
proof (induction s t arbitrary: a b rule: rt_strcmp.induct)
  case (1 c s d t)
  from 1(2,3) show ?case
    by (cases rule: cstr_cases[case_product cstr_cases]) (auto simp: 1(1) word_uint_eq_iff)
qed (auto simp: cstr_def)

lemma rt_strncmp_eq_0:
  "cstr s a \<Longrightarrow> cstr t b \<Longrightarrow>
    \<exists>r. rt_strncmp s t n = Some r \<and> (r = 0 \<longleftrightarrow> take n a = take n b)"
proof (induction s t n arbitrary: a b rule: rt_strncmp.induct)
  case (2 c s d t n)
  have zz: "sint (x :: u8) = 0 \<longleftrightarrow> x = 0" for x by (rule signed_eq_0_iff)
  have z: "sint (c - d) = 0 \<longleftrightarrow> c = d" by (simp only: zz right_minus_eq)
  from 2(2,3) show ?case
    by (cases rule: cstr_cases[case_product cstr_cases]) (auto simp: 2(1) z zz Let_def)
qed (auto simp: cstr_def)

text \<open>The copy is truncated or padded with zeros to exactly \<open>n\<close> bytes.\<close>

lemma rt_strncpy_cstr:
  "cstr s a \<Longrightarrow> rt_strncpy s n = Some (take n a @ replicate (n - length a) 0)"
proof (induction s n arbitrary: a rule: rt_strncpy.induct)
  case (3 c s n)
  from 3(2) show ?case by (cases rule: cstr_cases) (auto simp: 3(1))
qed (auto simp: cstr_def)

lemma strstr_loop_correct:
  assumes "cstr s a" "cstr t b" "b \<noteq> []"
  shows "\<exists>r. strstr_loop (length a) (length b) s t pos = Some r \<and>
    (case r of None \<Rightarrow> \<forall>i. length b \<le> length a - i \<longrightarrow> take (length b) (drop i a) \<noteq> b
      | Some p \<Rightarrow> \<exists>i. p = pos + i \<and> take (length b) (drop i a) = b \<and>
          (\<forall>j < i. take (length b) (drop j a) \<noteq> b))"
  using assms(1)
proof (induction a arbitrary: s pos)
  case Nil then show ?case using assms(3) by (subst strstr_loop.simps) auto
next
  case (Cons c a)
  obtain s' where s: "s = c # s'" "cstr s' a" using Cons.prems by (cases rule: cstr_cases) auto
  show ?case
  proof (cases "length b \<le> length (c # a)")
    case True
    have "take (length b) s = take (length b) (c # a)"
      using Cons.prems True by (auto simp: cstr_def simp del: append_Cons)
    moreover have "length b \<le> length s" "length b \<le> length t" "take (length b) t = b"
      using Cons.prems assms(2) True by (auto simp: cstr_def)
    ultimately obtain r where r: "rt_memcmp s t (length b) = Some r" "r = 0 \<longleftrightarrow> take (length b) (c # a) = b"
      using rt_memcmp_take[of "length b" s t] by metis
    show ?thesis
    proof (cases "r = 0")
      case True
      then have "strstr_loop (length (c # a)) (length b) s t pos = Some (Some pos)"
        using r \<open>length b \<le> length (c # a)\<close> assms(3) by (subst strstr_loop.simps) simp
      then show ?thesis using True r(2) by (auto intro!: exI[of _ 0])
    next
      case False
      then have "strstr_loop (length (c # a)) (length b) s t pos =
          strstr_loop (length a) (length b) s' t (pos + 1)"
        using r True assms(3) s by (subst strstr_loop.simps) simp
      moreover obtain q where q: "strstr_loop (length a) (length b) s' t (pos + 1) = Some q"
        "case q of None \<Rightarrow> \<forall>i. length b \<le> length a - i \<longrightarrow> take (length b) (drop i a) \<noteq> b
          | Some p \<Rightarrow> \<exists>i. p = pos + 1 + i \<and> take (length b) (drop i a) = b \<and>
              (\<forall>j < i. take (length b) (drop j a) \<noteq> b)"
        using Cons.IH[OF s(2), of "pos + 1"] by blast
      moreover have "take (length b) (drop i (c # a)) \<noteq> b"
        if "i = 0 \<or> take (length b) (drop (i - 1) a) \<noteq> b" for i
        using that r(2) False by (cases i) auto
      ultimately show ?thesis
      proof (cases q)
        case None
        have "take (length b) (drop i (c # a)) \<noteq> b" if "length b \<le> length (c # a) - i" for i
          using q(2) None r(2) False that by (cases i) auto
        then show ?thesis using \<open>strstr_loop (length (c # a)) _ s t pos = _\<close> q(1) None by auto
      next
        case (Some p)
        then obtain i where i: "p = pos + 1 + i" "take (length b) (drop i a) = b"
          "\<And>j. j < i \<Longrightarrow> take (length b) (drop j a) \<noteq> b" using q(2) by auto
        have "take (length b) (drop j (c # a)) \<noteq> b" if "j < Suc i" for j
          using i(3)[of "j - 1"] r(2) False that by (cases j) auto
        then show ?thesis
          using \<open>strstr_loop (length (c # a)) _ s t pos = _\<close> q(1) Some i
          by (auto intro!: exI[of _ "Suc i"])
      qed
    qed
  next
    case False
    then show ?thesis by (subst strstr_loop.simps) auto
  qed
qed

lemma rt_strstr_correct:
  assumes "cstr s a" "cstr t b"
  shows "\<exists>r. rt_strstr s t = Some r \<and>
    (case r of None \<Rightarrow> \<forall>i \<le> length a. take (length b) (drop i a) \<noteq> b
      | Some i \<Rightarrow> take (length b) (drop i a) = b \<and> (\<forall>j < i. take (length b) (drop j a) \<noteq> b))"
proof (cases "b = []")
  case True then show ?thesis using assms by (simp add: rt_strstr_def rt_strlen_cstr)
next
  case False
  obtain r where r: "strstr_loop (length a) (length b) s t 0 = Some r"
    "case r of None \<Rightarrow> \<forall>i. length b \<le> length a - i \<longrightarrow> take (length b) (drop i a) \<noteq> b
      | Some p \<Rightarrow> \<exists>i. p = 0 + i \<and> take (length b) (drop i a) = b \<and>
          (\<forall>j < i. take (length b) (drop j a) \<noteq> b)"
    using strstr_loop_correct[OF assms False, of 0] by blast
  have "length b \<le> length a - i" if "take (length b) (drop i a) = b" for i
    using arg_cong[OF that, of length] by simp
  then show ?thesis
    using r False assms by (auto simp: rt_strstr_def rt_strlen_cstr split: option.splits)
qed

end
