(* ===== verification/Kernel_State.thy ===== *)
theory Kernel_State
  imports List_Store Kservice
begin

text \<open>
  The state of the kernel: the control blocks of \<open>include/rtdef.h\<close> and the static variables of
  \<open>src/scheduler.c\<close>, \<open>src/timer.c\<close>, \<open>src/clock.c\<close>, \<open>src/irq.c\<close>, \<open>src/kservice.c\<close> and
  \<open>src/object.c\<close>, for the configuration of \<open>rtconfig.h\<close> (one core, 32 priorities, timer skip list of
  one level, no software timers, no modules; all hooks are left at their initial \<open>RT_NULL\<close>).

  A control block is named by a number of its kind. The list nodes embedded in the control blocks
  are the nodes of three list stores: \<open>tlist\<close> nodes of threads, \<open>row[0]\<close> nodes of timers and \<open>list\<close>
  nodes of objects.
\<close>

subsection \<open>Names of control blocks and lists\<close>

datatype tmid = ThreadTimer nat | UserTimer nat

datatype oid = OThread nat | OTimer tmid | OSem nat | OMutex nat | OEvent nat | OMb nat | OMq nat | OMp nat | ODev nat

text \<open>The heads a \<open>tlist\<close> node may be linked to.\<close>

datatype qid =
    Ready nat            \<comment> \<open>\<open>rt_thread_priority_table[p]\<close>\<close>
  | Defunct              \<comment> \<open>\<open>rt_thread_defunct\<close>\<close>
  | SemQ nat | MutexQ nat | EventQ nat
  | MbQ nat | MbSendQ nat \<comment> \<open>receivers and \<open>suspend_sender_thread\<close>\<close>
  | MqQ nat | MpQ nat
  | CompQ nat | DqPushQ nat | DqPopQ nat \<comment> \<open>completions and data queues of the drivers\<close>

text \<open>Timeout functions: the kernel's \<open>rt_thread_timeout\<close> with its thread, or one of the user's.\<close>

datatype tm_fn = Fn_thread_timeout nat | Fn_user nat

subsection \<open>Control blocks\<close>

record rt_object =
  ob_name :: "u8 list"
  ob_type :: u8
  ob_flag :: u8

record rt_timer =
  tm_timeout_func :: tm_fn
  tm_init_tick :: u32
  tm_timeout_tick :: u32

record rt_thread =
  th_entry :: u32
  th_parameter :: u32
  th_stack_addr :: u32
  th_stack_size :: u32
  th_stack_guard :: u8    \<comment> \<open>the byte at \<open>stack_addr\<close>\<close>
  th_sp :: u32
  th_error :: rt_err_t
  th_stat :: u8
  th_current_priority :: u8
  th_init_priority :: u8
  th_number_mask :: u32
  th_event_set :: u32
  th_event_info :: u8
  th_init_tick :: u32
  th_remaining_tick :: u32
  th_cleanup :: "nat option"

record rt_semaphore =
  sem_value :: u16

record rt_mutex =
  mx_value :: u16
  mx_original_priority :: u8
  mx_hold :: u8
  mx_owner :: "nat option"

record rt_event =
  ev_set :: u32

record rt_mailbox =
  mb_msg_pool :: "u32 list"
  mb_size :: u16
  mb_entry :: u16
  mb_in_offset :: u16
  mb_out_offset :: u16

text \<open>A message of a queue: its \<open>next\<close> pointer (a message index) and the bytes behind it.\<close>

record mq_message =
  msg_next :: "nat option"
  msg_bytes :: "u8 list"

record rt_messagequeue =
  mq_msgs :: "nat \<Rightarrow> mq_message"
  mq_msg_size :: u16
  mq_max_msgs :: u16
  mq_entry :: u16
  mq_head :: "nat option"
  mq_tail :: "nat option"
  mq_free :: "nat option"

text \<open>The pointer in front of a pool block: the next free block, or the pool it was taken from.\<close>

datatype mp_header = NextFree "nat option" | OwnedBy nat

record rt_mempool =
  mp_blocks :: "nat \<Rightarrow> mp_header"
  mp_block_list :: "nat option"
  mp_block_size :: u32
  mp_total_count :: u32
  mp_free_count :: u32
  mp_suspend_count :: u32

record kernel =
  objs :: "oid \<Rightarrow> rt_object"
  olist :: "(nat, oid) lstore"
  thr :: "nat \<Rightarrow> rt_thread"
  tlist :: "(qid, nat) lstore"
  tmr :: "tmid \<Rightarrow> rt_timer"
  tmlist :: "(unit, tmid) lstore"
  rt_tick :: u32
  rt_current_thread :: "nat option"
  rt_current_priority :: u8
  rt_ready_group :: u32
  rt_scheduler_lock_nest :: u16
  rt_interrupt_nest :: u8
  rt_errno :: rt_err_t
  sems :: "nat \<Rightarrow> rt_semaphore"
  mutexes :: "nat \<Rightarrow> rt_mutex"
  events :: "nat \<Rightarrow> rt_event"
  mbs :: "nat \<Rightarrow> rt_mailbox"
  mqs :: "nat \<Rightarrow> rt_messagequeue"
  mps :: "nat \<Rightarrow> rt_mempool"

text \<open>Assignments through a pointer to a control block.\<close>

definition upd_thr :: "nat \<Rightarrow> (rt_thread \<Rightarrow> rt_thread) \<Rightarrow> kernel \<Rightarrow> kernel" where
  [simp]: "upd_thr t f k = k\<lparr>thr := (thr k)(t := f (thr k t))\<rparr>"

definition upd_tmr :: "tmid \<Rightarrow> (rt_timer \<Rightarrow> rt_timer) \<Rightarrow> kernel \<Rightarrow> kernel" where
  [simp]: "upd_tmr t f k = k\<lparr>tmr := (tmr k)(t := f (tmr k t))\<rparr>"

definition upd_obj :: "oid \<Rightarrow> (rt_object \<Rightarrow> rt_object) \<Rightarrow> kernel \<Rightarrow> kernel" where
  [simp]: "upd_obj x f k = k\<lparr>objs := (objs k)(x := f (objs k x))\<rparr>"

subsection \<open>Constants of rtdef.h\<close>

abbreviation (input) RT_Object_Class_Thread :: nat where "RT_Object_Class_Thread \<equiv> 1"
abbreviation (input) RT_Object_Class_Semaphore :: nat where "RT_Object_Class_Semaphore \<equiv> 2"
abbreviation (input) RT_Object_Class_Mutex :: nat where "RT_Object_Class_Mutex \<equiv> 3"
abbreviation (input) RT_Object_Class_Event :: nat where "RT_Object_Class_Event \<equiv> 4"
abbreviation (input) RT_Object_Class_MailBox :: nat where "RT_Object_Class_MailBox \<equiv> 5"
abbreviation (input) RT_Object_Class_MessageQueue :: nat where "RT_Object_Class_MessageQueue \<equiv> 6"
abbreviation (input) RT_Object_Class_MemPool :: nat where "RT_Object_Class_MemPool \<equiv> 8"
abbreviation (input) RT_Object_Class_Timer :: nat where "RT_Object_Class_Timer \<equiv> 10"
abbreviation (input) RT_Object_Class_Unknown :: nat where "RT_Object_Class_Unknown \<equiv> 12"
abbreviation (input) RT_Object_Class_Static :: u8 where "RT_Object_Class_Static \<equiv> 0x80"

abbreviation (input) RT_NAME_MAX :: nat where "RT_NAME_MAX \<equiv> 16"
abbreviation (input) RT_THREAD_PRIORITY_MAX :: nat where "RT_THREAD_PRIORITY_MAX \<equiv> 32"

abbreviation (input) RT_THREAD_INIT :: u8 where "RT_THREAD_INIT \<equiv> 0"
abbreviation (input) RT_THREAD_READY :: u8 where "RT_THREAD_READY \<equiv> 1"
abbreviation (input) RT_THREAD_SUSPEND :: u8 where "RT_THREAD_SUSPEND \<equiv> 2"
abbreviation (input) RT_THREAD_CLOSE :: u8 where "RT_THREAD_CLOSE \<equiv> 4"
abbreviation (input) RT_THREAD_STAT_MASK :: u8 where "RT_THREAD_STAT_MASK \<equiv> 0x0f"

abbreviation (input) RT_TIMER_FLAG_ACTIVATED :: u8 where "RT_TIMER_FLAG_ACTIVATED \<equiv> 1"
abbreviation (input) RT_TIMER_FLAG_PERIODIC :: u8 where "RT_TIMER_FLAG_PERIODIC \<equiv> 2"

abbreviation (input) RT_TICK_MAX :: u32 where "RT_TICK_MAX \<equiv> 0xffffffff"
abbreviation (input) RT_TICK_MAX_2 :: u32 where "RT_TICK_MAX_2 \<equiv> 0x7fffffff" \<comment> \<open>\<open>RT_TICK_MAX / 2\<close>\<close>

abbreviation (input) RT_IPC_FLAG_FIFO :: u8 where "RT_IPC_FLAG_FIFO \<equiv> 0"
abbreviation (input) RT_IPC_FLAG_PRIO :: u8 where "RT_IPC_FLAG_PRIO \<equiv> 1"

abbreviation (input) RT_WAITING_FOREVER :: int where "RT_WAITING_FOREVER \<equiv> -1"

subsection \<open>The state field of a thread\<close>

definition stat_of :: "rt_thread \<Rightarrow> u8" where
  "stat_of th = th_stat th AND RT_THREAD_STAT_MASK"

text \<open>\<open>stat = s | (stat & ~RT_THREAD_STAT_MASK)\<close>.\<close>

definition set_stat :: "u8 \<Rightarrow> rt_thread \<Rightarrow> rt_thread" where
  "set_stat s th = th\<lparr>th_stat := s OR (th_stat th AND NOT RT_THREAD_STAT_MASK)\<rparr>"

lemma mask_0f: "(0x0f :: u8) = mask 4"
  by (simp add: mask_eq_exp_minus_1)

lemma stat_set_stat [simp]: "s AND 0x0f = s \<Longrightarrow> stat_of (set_stat s th) = s"
  unfolding stat_of_def set_stat_def rt_thread.simps mask_0f
  by (auto simp: bit_eq_iff bit_simps)

lemma set_stat_fields [simp]:
  "th_entry (set_stat s th) = th_entry th" "th_parameter (set_stat s th) = th_parameter th"
  "th_stack_addr (set_stat s th) = th_stack_addr th" "th_stack_size (set_stat s th) = th_stack_size th"
  "th_stack_guard (set_stat s th) = th_stack_guard th" "th_sp (set_stat s th) = th_sp th"
  "th_error (set_stat s th) = th_error th"
  "th_current_priority (set_stat s th) = th_current_priority th"
  "th_init_priority (set_stat s th) = th_init_priority th"
  "th_number_mask (set_stat s th) = th_number_mask th"
  "th_event_set (set_stat s th) = th_event_set th" "th_event_info (set_stat s th) = th_event_info th"
  "th_init_tick (set_stat s th) = th_init_tick th"
  "th_remaining_tick (set_stat s th) = th_remaining_tick th" "th_cleanup (set_stat s th) = th_cleanup th"
  by (simp_all add: set_stat_def)

lemma stat_of_update [simp]:
  "stat_of (th\<lparr>th_error := e\<rparr>) = stat_of th" "stat_of (th\<lparr>th_current_priority := p\<rparr>) = stat_of th"
  "stat_of (th\<lparr>th_number_mask := m\<rparr>) = stat_of th" "stat_of (th\<lparr>th_remaining_tick := n\<rparr>) = stat_of th"
  "stat_of (th\<lparr>th_event_set := s\<rparr>) = stat_of th" "stat_of (th\<lparr>th_event_info := i\<rparr>) = stat_of th"
  "stat_of (th\<lparr>th_stat := x\<rparr>) = x AND 0x0f"
  by (simp_all add: stat_of_def)

subsection \<open>The variables of irq.c, clock.c and the error number\<close>

definition rt_interrupt_enter :: "kernel \<Rightarrow> kernel" where
  "rt_interrupt_enter k = k\<lparr>rt_interrupt_nest := rt_interrupt_nest k + 1\<rparr>"

definition rt_interrupt_leave :: "kernel \<Rightarrow> kernel" where
  "rt_interrupt_leave k = k\<lparr>rt_interrupt_nest := rt_interrupt_nest k - 1\<rparr>"

definition rt_interrupt_get_nest :: "kernel \<Rightarrow> u8" where
  "rt_interrupt_get_nest k = rt_interrupt_nest k"

definition rt_tick_get :: "kernel \<Rightarrow> u32" where
  "rt_tick_get k = rt_tick k"

definition rt_tick_set :: "u32 \<Rightarrow> kernel \<Rightarrow> kernel" where
  "rt_tick_set n k = k\<lparr>rt_tick := n\<rparr>"

definition rt_thread_self :: "kernel \<Rightarrow> nat option" where
  "rt_thread_self k = rt_current_thread k"

definition rt_get_errno :: "kernel \<Rightarrow> rt_err_t" where
  "rt_get_errno k =
     (if rt_interrupt_get_nest k \<noteq> 0 then rt_errno k
      else case rt_thread_self k of None \<Rightarrow> rt_errno k | Some tid \<Rightarrow> th_error (thr k tid))"

definition rt_set_errno :: "rt_err_t \<Rightarrow> kernel \<Rightarrow> kernel" where
  "rt_set_errno e k =
     (if rt_interrupt_get_nest k \<noteq> 0 then k\<lparr>rt_errno := e\<rparr>
      else case rt_thread_self k of None \<Rightarrow> k\<lparr>rt_errno := e\<rparr>
             | Some tid \<Rightarrow> upd_thr tid (\<lambda>th. th\<lparr>th_error := e\<rparr>) k)"

text \<open>The context checks of \<open>rtdebug.h\<close>.\<close>

definition RT_DEBUG_NOT_IN_INTERRUPT :: "kernel \<Rightarrow> unit option" where
  "RT_DEBUG_NOT_IN_INTERRUPT k = RT_ASSERT (rt_interrupt_get_nest k = 0)"

definition RT_DEBUG_IN_THREAD_CONTEXT :: "kernel \<Rightarrow> unit option" where
  "RT_DEBUG_IN_THREAD_CONTEXT k =
     do { RT_ASSERT (rt_thread_self k \<noteq> None); RT_DEBUG_NOT_IN_INTERRUPT k }"

lemma debug_not_in_interrupt [simp]:
  "RT_DEBUG_NOT_IN_INTERRUPT k = Some u \<longleftrightarrow> rt_interrupt_nest k = 0"
  by (simp add: RT_DEBUG_NOT_IN_INTERRUPT_def rt_interrupt_get_nest_def)

lemma debug_in_thread_context [simp]:
  "RT_DEBUG_IN_THREAD_CONTEXT k = Some u \<longleftrightarrow> rt_current_thread k \<noteq> None \<and> rt_interrupt_nest k = 0"
  by (auto simp: RT_DEBUG_IN_THREAD_CONTEXT_def rt_thread_self_def RT_ASSERT_def)

lemma interrupt_enter_leave: "rt_interrupt_leave (rt_interrupt_enter k) = k"
  by (simp add: rt_interrupt_leave_def rt_interrupt_enter_def)

lemma errno_set_get: "rt_get_errno (rt_set_errno e k) = e"
  by (auto simp: rt_get_errno_def rt_set_errno_def rt_interrupt_get_nest_def rt_thread_self_def
      split: option.splits)

end
