(* ===== verification/Objects.thy ===== *)
theory Objects
  imports Kernel_State
begin

text \<open>
  The kernel objects of \<open>src/object.c\<close>: an object has a name, a type byte (its class, with the bit
  \<open>RT_Object_Class_Static\<close> for static objects) and a place in the list of its class.
\<close>

text \<open>The classes that have an entry in \<open>rt_object_container\<close>.\<close>

definition rt_object_get_information :: "nat \<Rightarrow> nat option" where
  "rt_object_get_information cls = (if cls \<in> set [1, 2, 3, 4, 5, 6, 7, 8, 9, 10] then Some cls else None)"

definition rt_object_get_type :: "oid \<Rightarrow> kernel \<Rightarrow> u8" where
  "rt_object_get_type x k = ob_type (objs k x) AND NOT RT_Object_Class_Static"

definition rt_object_is_systemobject :: "oid \<Rightarrow> kernel \<Rightarrow> bool" where
  "rt_object_is_systemobject x k \<longleftrightarrow> ob_type (objs k x) AND RT_Object_Class_Static \<noteq> 0"

text \<open>The name argument is the memory from the pointer to the end of its object.\<close>

definition rt_object_init :: "oid \<Rightarrow> nat \<Rightarrow> u8 list \<Rightarrow> kernel \<Rightarrow> kernel option" where
  "rt_object_init x cls name k =
     do { information \<leftarrow> rt_object_get_information cls;
          let k = upd_obj x (\<lambda>ob. ob\<lparr>ob_type := of_nat cls OR RT_Object_Class_Static\<rparr>) k;
          nm \<leftarrow> rt_strncpy name RT_NAME_MAX;
          let k = upd_obj x (\<lambda>ob. ob\<lparr>ob_name := nm\<rparr>) k;
          ol \<leftarrow> ls_push_front information x (olist k);
          Some (k\<lparr>olist := ol\<rparr>) }"

definition rt_object_detach :: "oid \<Rightarrow> kernel \<Rightarrow> kernel" where
  "rt_object_detach x k =
     (let k = upd_obj x (\<lambda>ob. ob\<lparr>ob_type := 0\<rparr>) k
      in k\<lparr>olist := ls_remove x (olist k)\<rparr>)"

text \<open>
  The \<open>rt_memset\<close> of a freshly allocated object clears its whole control block. A block pointer that
  is null afterwards is \<open>None\<close>; the function field of a cleared timer is set by \<open>_rt_timer_init\<close>.
\<close>

definition zero_thread :: rt_thread where
  "zero_thread = \<lparr>th_entry = 0, th_parameter = 0, th_stack_addr = 0, th_stack_size = 0,
     th_stack_guard = 0, th_sp = 0, th_error = 0, th_stat = 0, th_current_priority = 0,
     th_init_priority = 0, th_number_mask = 0, th_event_set = 0, th_event_info = 0,
     th_init_tick = 0, th_remaining_tick = 0, th_cleanup = None\<rparr>"

definition zero_object :: rt_object where
  "zero_object = \<lparr>ob_name = replicate 16 0, ob_type = 0, ob_flag = 0\<rparr>"

definition clear_block :: "oid \<Rightarrow> kernel \<Rightarrow> kernel" where
  "clear_block x k =
     (case x of
        OThread t \<Rightarrow> k\<lparr>thr := (thr k)(t := zero_thread),
                       objs := (objs k)(x := zero_object, OTimer (ThreadTimer t) := zero_object)\<rparr>
      | OTimer tm \<Rightarrow> k\<lparr>tmr := (tmr k)(tm := (tmr k tm)\<lparr>tm_init_tick := 0, tm_timeout_tick := 0\<rparr>),
                       objs := (objs k)(x := zero_object)\<rparr>
      | OSem i \<Rightarrow> k\<lparr>sems := (sems k)(i := \<lparr>sem_value = 0\<rparr>), objs := (objs k)(x := zero_object)\<rparr>
      | OMutex i \<Rightarrow> k\<lparr>mutexes := (mutexes k)(i := \<lparr>mx_value = 0, mx_original_priority = 0, mx_hold = 0,
                       mx_owner = None\<rparr>), objs := (objs k)(x := zero_object)\<rparr>
      | OEvent i \<Rightarrow> k\<lparr>events := (events k)(i := \<lparr>ev_set = 0\<rparr>), objs := (objs k)(x := zero_object)\<rparr>
      | OMb i \<Rightarrow> k\<lparr>mbs := (mbs k)(i := \<lparr>mb_msg_pool = [], mb_size = 0, mb_entry = 0, mb_in_offset = 0,
                       mb_out_offset = 0\<rparr>), objs := (objs k)(x := zero_object)\<rparr>
      | OMq i \<Rightarrow> k\<lparr>mqs := (mqs k)(i := (mqs k i)\<lparr>mq_msg_size := 0, mq_max_msgs := 0, mq_entry := 0,
                       mq_head := None, mq_tail := None, mq_free := None\<rparr>),
                       objs := (objs k)(x := zero_object)\<rparr>
      | OMp i \<Rightarrow> k\<lparr>mps := (mps k)(i := (mps k i)\<lparr>mp_block_list := None, mp_block_size := 0,
                       mp_total_count := 0, mp_free_count := 0, mp_suspend_count := 0\<rparr>),
                       objs := (objs k)(x := zero_object)\<rparr>
      | ODev i \<Rightarrow> k\<lparr>objs := (objs k)(x := zero_object)\<rparr>)"

text \<open>\<open>rt_object_allocate\<close>: the block \<open>rt_malloc\<close> returns is the argument \<open>mem\<close>.\<close>

definition rt_object_allocate ::
  "oid option \<Rightarrow> nat \<Rightarrow> u8 list \<Rightarrow> kernel \<Rightarrow> (oid option \<times> kernel) option" where
  "rt_object_allocate mem cls name k =
     do { RT_DEBUG_NOT_IN_INTERRUPT k;
          information \<leftarrow> rt_object_get_information cls;
          case mem of
            None \<Rightarrow> Some (None, k)
          | Some x \<Rightarrow>
              do { let k = clear_block x k;
                   let k = upd_obj x (\<lambda>ob. ob\<lparr>ob_type := of_nat cls\<rparr>) k;
                   let k = upd_obj x (\<lambda>ob. ob\<lparr>ob_flag := 0\<rparr>) k;
                   nm \<leftarrow> rt_strncpy name RT_NAME_MAX;
                   let k = upd_obj x (\<lambda>ob. ob\<lparr>ob_name := nm\<rparr>) k;
                   ol \<leftarrow> ls_push_front information x (olist k);
                   Some (Some x, k\<lparr>olist := ol\<rparr>) } }"

definition rt_object_delete :: "oid \<Rightarrow> kernel \<Rightarrow> kernel option" where
  "rt_object_delete x k =
     do { RT_ASSERT (\<not> rt_object_is_systemobject x k);
          let k = upd_obj x (\<lambda>ob. ob\<lparr>ob_type := 0\<rparr>) k;
          Some (k\<lparr>olist := ls_remove x (olist k)\<rparr>) }"

subsection \<open>Types of objects\<close>

text \<open>The object lists hold live objects of the class of the list, and every other object is dead.\<close>

definition obj_ok :: "nat option \<Rightarrow> rt_object \<Rightarrow> bool" where
  "obj_ok cl ob \<longleftrightarrow>
     (case cl of
        None \<Rightarrow> ob_type ob = 0
      | Some c \<Rightarrow> ob_type ob AND NOT 0x80 = of_nat c \<and> 0 < c \<and> c < 11 \<and> length (ob_name ob) = 16)"

definition obj_inv :: "kernel \<Rightarrow> bool" where
  "obj_inv k \<longleftrightarrow> ls_inv (olist k) \<and> (\<forall>x. obj_ok (ls_in (olist k) x) (objs k x))"

lemma obj_ok_None [simp]: "obj_ok None (ob\<lparr>ob_type := 0\<rparr>)"
  by (simp add: obj_ok_def)

lemma obj_ok_flag [simp]: "obj_ok c (ob\<lparr>ob_flag := f\<rparr>) \<longleftrightarrow> obj_ok c ob"
  by (simp add: obj_ok_def split: option.splits)

lemma obj_inv_detach: "obj_inv k \<Longrightarrow> obj_inv (rt_object_detach x k)"
  by (auto simp: obj_inv_def rt_object_detach_def)

lemma strncpy_length: "rt_strncpy s n = Some r \<Longrightarrow> length r = n"
  by (induction s n arbitrary: r rule: rt_strncpy.induct) (auto split: if_splits)

lemma class_cases: "c < 11 \<Longrightarrow> c \<in> {0, 1, 2, 3, 4, 5, 6, 7, 8, 9, 10 :: nat}"
  unfolding insert_iff empty_iff by presburger

lemma class_range: "rt_object_get_information c = Some i \<longleftrightarrow> i = c \<and> 0 < c \<and> c < 11"
proof -
  have "c \<in> set [1, 2, 3, 4, 5, 6, 7, 8, 9, 10] \<longleftrightarrow> 0 < c \<and> c < 11" using class_cases[of c] by auto
  then show ?thesis by (auto simp: rt_object_get_information_def simp del: set_simps)
qed

lemma class_type:
  assumes "c < 11"
  shows "(of_nat c OR 0x80 :: u8) AND NOT 0x80 = of_nat c" "(of_nat c :: u8) AND NOT 0x80 = of_nat c"
    "(of_nat c OR 0x80 :: u8) AND 0x80 \<noteq> 0" "(of_nat c :: u8) AND 0x80 = 0"
  using class_cases[OF assms] by auto

lemma object_init_Some:
  "rt_object_init x c name k = Some k' \<longleftrightarrow>
     0 < c \<and> c < 11 \<and> ls_in (olist k) x = None \<and>
     (\<exists>nm. rt_strncpy name 16 = Some nm \<and>
       k' = k\<lparr>objs := (objs k)(x := (objs k x)\<lparr>ob_type := of_nat c OR 0x80, ob_name := nm\<rparr>),
         olist := (olist k)\<lparr>ls_q := (ls_q (olist k))(c := x # ls_q (olist k) c),
           ls_in := (ls_in (olist k))(x := Some c)\<rparr>\<rparr>)"
  by (auto simp: rt_object_init_def class_range ls_push_front_Some bind_eq_Some_conv)

lemma object_delete_Some:
  "rt_object_delete x k = Some k' \<longleftrightarrow> \<not> rt_object_is_systemobject x k \<and> k' = rt_object_detach x k"
  by (auto simp: rt_object_delete_def rt_object_detach_def bind_eq_Some_conv)

lemma obj_inv_init:
  assumes "obj_inv k" "rt_object_init x c name k = Some k'"
  shows "obj_inv k'"
proof -
  from assms(2) obtain nm where c: "0 < c" "c < 11" "ls_in (olist k) x = None"
    and nm: "rt_strncpy name 16 = Some nm"
    and k': "k' = k\<lparr>objs := (objs k)(x := (objs k x)\<lparr>ob_type := of_nat c OR 0x80, ob_name := nm\<rparr>),
         olist := (olist k)\<lparr>ls_q := (ls_q (olist k))(c := x # ls_q (olist k) c),
           ls_in := (ls_in (olist k))(x := Some c)\<rparr>\<rparr>"
    by (auto simp: object_init_Some)
  have "ls_inv (olist k')"
    using assms(1) c ls_inv_push_front[of "olist k" c x] by (auto simp: obj_inv_def k' ls_push_front_def)
  moreover have "obj_ok (Some c) (objs k' x)"
    using c strncpy_length[OF nm] class_type(1)[OF c(2)] by (simp add: obj_ok_def k')
  ultimately show ?thesis using assms(1) by (auto simp: obj_inv_def k')
qed

text \<open>An object that goes through \<open>rt_object_init\<close> has the class it was given, and is static.\<close>

lemma object_init_type:
  assumes "rt_object_init x c name k = Some k'"
  shows "rt_object_get_type x k' = of_nat c" "rt_object_is_systemobject x k'"
    "y \<noteq> x \<Longrightarrow> objs k' y = objs k y"
  using assms class_type[of c]
  by (auto simp: object_init_Some rt_object_get_type_def rt_object_is_systemobject_def)

lemma object_allocate_type:
  assumes "rt_object_allocate (Some x) c name k = Some (Some y, k')"
  shows "y = x" "rt_object_get_type x k' = of_nat c" "\<not> rt_object_is_systemobject x k'"
  using assms class_type[of c]
  by (auto simp: rt_object_allocate_def rt_object_get_type_def rt_object_is_systemobject_def
      bind_eq_Some_conv class_range Let_def)

end
