(* ===== verification/Timer.thy ===== *)
theory Timer
  imports Objects
begin

text \<open>
  The timer list of \<open>src/timer.c\<close> (skip list of one level) and its operations, without
  \<open>rt_timer_check\<close>, which calls into the scheduler and is in theory \<open>Clock\<close>.

  Timeouts are 32-bit ticks that wrap around. The main fact of the theory: as long as all timeouts
  lie within half the tick range of some base tick, the wrapped comparisons of \<open>rt_timer_start\<close> keep
  the list sorted by remaining time, with timers of equal timeout in the order they were started.
\<close>

subsection \<open>Operations\<close>

text \<open>\<open>rt_timer_list\<close>, the list behind its only head.\<close>

definition tm_list :: "kernel \<Rightarrow> tmid list" where
  "tm_list k = ls_q (tmlist k) ()"

text \<open>\<open>_rt_timer_init\<close>; the \<open>parameter\<close> is part of the timeout function value.\<close>

definition rt_timer_init_block :: "tmid \<Rightarrow> tm_fn \<Rightarrow> u32 \<Rightarrow> u8 \<Rightarrow> kernel \<Rightarrow> kernel option" where
  "rt_timer_init_block tm timeout time flag k =
     do { let k = upd_obj (OTimer tm) (\<lambda>ob. ob\<lparr>ob_flag := flag\<rparr>) k;
          let k = upd_obj (OTimer tm) (\<lambda>ob. ob\<lparr>ob_flag := ob_flag ob AND NOT RT_TIMER_FLAG_ACTIVATED\<rparr>) k;
          let k = upd_tmr tm (\<lambda>t. t\<lparr>tm_timeout_func := timeout, tm_timeout_tick := 0, tm_init_tick := time\<rparr>) k;
          tl \<leftarrow> ls_init_node tm (tmlist k);
          Some (k\<lparr>tmlist := tl\<rparr>) }"

definition rt_timer_init :: "tmid \<Rightarrow> u8 list \<Rightarrow> tm_fn \<Rightarrow> u32 \<Rightarrow> u8 \<Rightarrow> kernel \<Rightarrow> kernel option" where
  "rt_timer_init tm name timeout time flag k =
     do { k \<leftarrow> rt_object_init (OTimer tm) RT_Object_Class_Timer name k;
          rt_timer_init_block tm timeout time flag k }"

definition rt_timer_remove :: "tmid \<Rightarrow> kernel \<Rightarrow> kernel" where
  "rt_timer_remove tm k = k\<lparr>tmlist := ls_remove tm (tmlist k)\<rparr>"

definition rt_timer_list_next_timeout :: "kernel \<Rightarrow> u32" where
  "rt_timer_list_next_timeout k =
     (case tm_list k of [] \<Rightarrow> RT_TICK_MAX | tm # _ \<Rightarrow> tm_timeout_tick (tmr k tm))"

definition rt_timer_detach :: "tmid \<Rightarrow> kernel \<Rightarrow> (rt_err_t \<times> kernel) option" where
  "rt_timer_detach tm k =
     do { RT_ASSERT (rt_object_get_type (OTimer tm) k = of_nat RT_Object_Class_Timer);
          RT_ASSERT (rt_object_is_systemobject (OTimer tm) k);
          let k = rt_timer_remove tm k;
          Some (RT_EOK, rt_object_detach (OTimer tm) k) }"

definition rt_timer_create ::
  "tmid option \<Rightarrow> u8 list \<Rightarrow> tm_fn \<Rightarrow> u32 \<Rightarrow> u8 \<Rightarrow> kernel \<Rightarrow> (tmid option \<times> kernel) option" where
  "rt_timer_create mem name timeout time flag k =
     do { (x, k) \<leftarrow> rt_object_allocate (map_option OTimer mem) RT_Object_Class_Timer name k;
          case x of
            Some (OTimer tm) \<Rightarrow> do { k \<leftarrow> rt_timer_init_block tm timeout time flag k; Some (Some tm, k) }
          | _ \<Rightarrow> Some (None, k) }"

definition rt_timer_delete :: "tmid \<Rightarrow> kernel \<Rightarrow> (rt_err_t \<times> kernel) option" where
  "rt_timer_delete tm k =
     do { RT_ASSERT (rt_object_get_type (OTimer tm) k = of_nat RT_Object_Class_Timer);
          RT_ASSERT (\<not> rt_object_is_systemobject (OTimer tm) k);
          let k = rt_timer_remove tm k;
          k \<leftarrow> rt_object_delete (OTimer tm) k;
          Some (RT_EOK, k) }"

text \<open>
  The search loop of \<open>rt_timer_start\<close>: the number of timers the new one is put behind. It goes past a
  timer \<open>t\<close> unless \<open>t\<close> is later than the new timeout.
\<close>

fun timer_insert_pos :: "(tmid \<Rightarrow> u32) \<Rightarrow> u32 \<Rightarrow> tmid list \<Rightarrow> nat" where
  "timer_insert_pos tick new [] = 0"
| "timer_insert_pos tick new (t # ts) =
     (if tick t - new = 0 then Suc (timer_insert_pos tick new ts)
      else if tick t - new < RT_TICK_MAX_2 then 0
      else Suc (timer_insert_pos tick new ts))"

definition rt_timer_start :: "tmid \<Rightarrow> kernel \<Rightarrow> (rt_err_t \<times> kernel) option" where
  "rt_timer_start tm k =
     do { RT_ASSERT (rt_object_get_type (OTimer tm) k = of_nat RT_Object_Class_Timer);
          let k = rt_timer_remove tm k;
          let k = upd_obj (OTimer tm) (\<lambda>ob. ob\<lparr>ob_flag := ob_flag ob AND NOT RT_TIMER_FLAG_ACTIVATED\<rparr>) k;
          RT_ASSERT (tm_init_tick (tmr k tm) < RT_TICK_MAX_2);
          let k = upd_tmr tm (\<lambda>t. t\<lparr>tm_timeout_tick := rt_tick_get k + tm_init_tick t\<rparr>) k;
          let pos = timer_insert_pos (\<lambda>t. tm_timeout_tick (tmr k t)) (tm_timeout_tick (tmr k tm)) (tm_list k);
          tl \<leftarrow> ls_insert_at () pos tm (tmlist k);
          let k = k\<lparr>tmlist := tl\<rparr>;
          let k = upd_obj (OTimer tm) (\<lambda>ob. ob\<lparr>ob_flag := ob_flag ob OR RT_TIMER_FLAG_ACTIVATED\<rparr>) k;
          Some (RT_EOK, k) }"

definition rt_timer_stop :: "tmid \<Rightarrow> kernel \<Rightarrow> (rt_err_t \<times> kernel) option" where
  "rt_timer_stop tm k =
     do { RT_ASSERT (rt_object_get_type (OTimer tm) k = of_nat RT_Object_Class_Timer);
          if ob_flag (objs k (OTimer tm)) AND RT_TIMER_FLAG_ACTIVATED = 0 then Some (- RT_ERROR, k)
          else do { let k = rt_timer_remove tm k;
                    let k = upd_obj (OTimer tm)
                      (\<lambda>ob. ob\<lparr>ob_flag := ob_flag ob AND NOT RT_TIMER_FLAG_ACTIVATED\<rparr>) k;
                    Some (RT_EOK, k) } }"

text \<open>The commands of \<open>rt_timer_control\<close> with their argument; \<open>GET_TIME\<close> stores through \<open>arg\<close>.\<close>

datatype tm_cmd = RT_TIMER_CTRL_SET_TIME u32 | RT_TIMER_CTRL_GET_TIME
  | RT_TIMER_CTRL_SET_ONESHOT | RT_TIMER_CTRL_SET_PERIODIC | TM_CMD_OTHER int

definition rt_timer_control :: "tmid \<Rightarrow> tm_cmd \<Rightarrow> kernel \<Rightarrow> (rt_err_t \<times> u32 option \<times> kernel) option" where
  "rt_timer_control tm cmd k =
     do { RT_ASSERT (rt_object_get_type (OTimer tm) k = of_nat RT_Object_Class_Timer);
          case cmd of
            RT_TIMER_CTRL_GET_TIME \<Rightarrow> Some (RT_EOK, Some (tm_init_tick (tmr k tm)), k)
          | RT_TIMER_CTRL_SET_TIME n \<Rightarrow> Some (RT_EOK, None, upd_tmr tm (\<lambda>t. t\<lparr>tm_init_tick := n\<rparr>) k)
          | RT_TIMER_CTRL_SET_ONESHOT \<Rightarrow>
              Some (RT_EOK, None, upd_obj (OTimer tm)
                (\<lambda>ob. ob\<lparr>ob_flag := ob_flag ob AND NOT RT_TIMER_FLAG_PERIODIC\<rparr>) k)
          | RT_TIMER_CTRL_SET_PERIODIC \<Rightarrow>
              Some (RT_EOK, None, upd_obj (OTimer tm)
                (\<lambda>ob. ob\<lparr>ob_flag := ob_flag ob OR RT_TIMER_FLAG_PERIODIC\<rparr>) k)
          | TM_CMD_OTHER _ \<Rightarrow> Some (RT_EOK, None, k) }"

definition rt_timer_next_timeout_tick :: "kernel \<Rightarrow> u32" where
  "rt_timer_next_timeout_tick k = rt_timer_list_next_timeout k"

definition rt_system_timer_init :: "kernel \<Rightarrow> kernel option" where
  "rt_system_timer_init k = do { tl \<leftarrow> ls_init_head () (tmlist k); Some (k\<lparr>tmlist := tl\<rparr>) }"

subsection \<open>Order of the timer list\<close>

text \<open>How long before a timeout, seen from the tick \<open>b\<close>.\<close>

definition tm_left :: "kernel \<Rightarrow> u32 \<Rightarrow> tmid \<Rightarrow> nat" where
  "tm_left k b t = unat (tm_timeout_tick (tmr k t) - b)"

definition timers_sorted :: "u32 \<Rightarrow> kernel \<Rightarrow> bool" where
  "timers_sorted b k \<longleftrightarrow>
     sorted (map (tm_left k b) (tm_list k)) \<and> (\<forall>t \<in> set (tm_list k). tm_left k b t < 0x7fffffff)"

text \<open>The wrapped comparison agrees with the order of the remaining times.\<close>

lemma tick_before:
  fixes x y b :: u32
  assumes "unat (x - b) < 0x7fffffff" "unat (y - b) < 0x7fffffff"
  shows "x - y \<noteq> 0 \<and> x - y < 0x7fffffff \<longleftrightarrow> unat (y - b) < unat (x - b)"
proof -
  define d e where "d = x - b" and "e = y - b"
  have xy: "x - y = d - e" by (simp add: d_def e_def)
  show ?thesis
  proof (cases "e \<le> d")
    case True
    then have "unat (d - e) = unat d - unat e" by (simp add: unat_sub)
    moreover have "unat e \<le> unat d" using True by (simp add: word_le_nat_alt)
    ultimately show ?thesis
      using assms unfolding xy unat_gt_0[symmetric] word_less_nat_alt
      by (auto simp: d_def[symmetric] e_def[symmetric])
  next
    case False
    then have "unat (d - e) = 2 ^ 32 + unat d - unat e"
      by (simp add: unat_sub_if_size word_size word_le_nat_alt)
    moreover have "unat d < unat e" using False by (simp add: word_le_nat_alt)
    ultimately show ?thesis
      using assms unfolding xy word_less_nat_alt
      by (auto simp: d_def[symmetric] e_def[symmetric])
  qed
qed

lemma insert_pos_takeWhile:
  assumes "unat (new - b) < 0x7fffffff" "\<forall>t \<in> set ts. unat (tick t - b) < 0x7fffffff"
  shows "timer_insert_pos tick new ts =
    length (takeWhile (\<lambda>t. unat (tick t - b) \<le> unat (new - b)) ts)"
  using assms(2)
proof (induction ts)
  case (Cons t ts)
  then show ?case using tick_before[OF _ assms(1), of "tick t"] by (auto simp: not_le)
qed simp

lemma insert_takeWhile:
  "insert_upto (length (takeWhile P xs)) x xs = takeWhile P xs @ x # dropWhile P xs"
  by (simp add: insert_upto_def takeWhile_eq_take[symmetric] dropWhile_eq_drop[symmetric])

lemma sorted_insert_after:
  fixes f :: "'a \<Rightarrow> nat"
  assumes "sorted (map f xs)"
  shows "sorted (map f (takeWhile (\<lambda>t. f t \<le> n) xs) @ n # map f (dropWhile (\<lambda>t. f t \<le> n) xs))"
proof -
  let ?a = "takeWhile (\<lambda>t. f t \<le> n) xs" and ?b = "dropWhile (\<lambda>t. f t \<le> n) xs"
  have s: "sorted (map f ?a @ map f ?b)" using assms by (metis map_append takeWhile_dropWhile_id)
  have "n \<le> f y" if "y \<in> set ?b" for y
  proof -
    have ne: "?b \<noteq> []"
    proof
      assume "?b = []" with that show False by (simp only: list.set empty_iff)
    qed
    have "\<not> f (hd ?b) \<le> n" by (rule hd_dropWhile[OF ne])
    moreover have "f (hd ?b) \<le> f y"
    proof -
      have "sorted (map f (hd ?b # tl ?b))" using s unfolding list.collapse[OF ne] by (simp add: sorted_append)
      moreover have "y \<in> set (hd ?b # tl ?b)" using that unfolding list.collapse[OF ne] .
      ultimately show ?thesis by auto
    qed
    ultimately show ?thesis by simp
  qed
  then show ?thesis using s by (auto simp: sorted_append dest: set_takeWhileD)
qed

subsection \<open>What the operations do\<close>

definition timer_obj :: "tmid \<Rightarrow> kernel \<Rightarrow> bool" where
  "timer_obj tm k \<longleftrightarrow> rt_object_get_type (OTimer tm) k = 10"

text \<open>The three parts of the state \<open>rt_timer_start\<close> changes.\<close>

lemma timer_start_Some:
  assumes inv: "ls_inv (tmlist k)" and ty: "timer_obj tm k"
    and it: "tm_init_tick (tmr k tm) < 0x7fffffff"
  defines "new \<equiv> rt_tick k + tm_init_tick (tmr k tm)"
  defines "f \<equiv> \<lambda>t. tm_timeout_tick (((tmr k)(tm := (tmr k tm)\<lparr>tm_timeout_tick := new\<rparr>)) t)"
  defines "ts \<equiv> remove1 tm (tm_list k)"
  shows "\<exists>k'. rt_timer_start tm k = Some (0, k') \<and>
    k' = k\<lparr>objs := (objs k)(OTimer tm := (objs k (OTimer tm))
             \<lparr>ob_flag := ob_flag (objs k (OTimer tm)) AND NOT 1 OR 1\<rparr>),
           tmr := (tmr k)(tm := (tmr k tm)\<lparr>tm_timeout_tick := new\<rparr>),
           tmlist := tmlist k'\<rparr> \<and>
    ls_inv (tmlist k') \<and> ls_in (tmlist k') = (ls_in (tmlist k))(tm := Some ()) \<and>
    tm_list k' = insert_upto (timer_insert_pos f new ts) tm ts"
proof -
  let ?L = "ls_remove tm (tmlist k)"
  have L: "ls_inv ?L" "ls_in ?L tm = None" "ls_q ?L () = ts"
    using inv by (auto simp: ls_q_remove ts_def tm_list_def)
  obtain L' where L': "ls_insert_at () (timer_insert_pos f new ts) tm ?L = Some L'"
    using L(2) by (auto simp: ls_insert_at_def)
  have in': "ls_in L' = (ls_in (tmlist k))(tm := Some ())"
    using L' by (auto simp: ls_insert_at_Some fun_eq_iff)
  have q': "ls_q L' () = insert_upto (timer_insert_pos f new ts) tm ts"
    using L' L(3) by (auto simp: ls_insert_at_Some)
  have "rt_timer_start tm k = Some (0,
      k\<lparr>objs := (objs k)(OTimer tm := (objs k (OTimer tm))
             \<lparr>ob_flag := ob_flag (objs k (OTimer tm)) AND NOT 1 OR 1\<rparr>),
        tmr := (tmr k)(tm := (tmr k tm)\<lparr>tm_timeout_tick := new\<rparr>), tmlist := L'\<rparr>)"
    using ty it L' L(3)
    by (simp add: rt_timer_start_def timer_obj_def rt_timer_remove_def rt_tick_get_def Let_def
        tm_list_def new_def f_def fun_upd_def cong: if_cong)
  then show ?thesis using ls_inv_insert_at[OF L(1) L'] in' q' by (auto simp: tm_list_def)
qed

lemma timer_start_sorted:
  assumes inv: "ls_inv (tmlist k)" and ty: "timer_obj tm k"
    and it: "tm_init_tick (tmr k tm) < 0x7fffffff"
    and srt: "timers_sorted b k"
    and new: "unat (rt_tick k + tm_init_tick (tmr k tm) - b) < 0x7fffffff"
  defines "left \<equiv> unat (rt_tick k + tm_init_tick (tmr k tm) - b)"
  shows "\<exists>k'. rt_timer_start tm k = Some (0, k') \<and> timers_sorted b k' \<and>
    tm_left k' b tm = left \<and>
    tm_list k' = takeWhile (\<lambda>t. tm_left k b t \<le> left) (remove1 tm (tm_list k)) @ tm #
      dropWhile (\<lambda>t. tm_left k b t \<le> left) (remove1 tm (tm_list k))"
proof -
  let ?new = "rt_tick k + tm_init_tick (tmr k tm)" and ?ts = "remove1 tm (tm_list k)"
  let ?f = "\<lambda>t. tm_timeout_tick (((tmr k)(tm := (tmr k tm)\<lparr>tm_timeout_tick := ?new\<rparr>)) t)"
  obtain k' where k': "rt_timer_start tm k = Some (0, k')"
    and tmr': "tmr k' = (tmr k)(tm := (tmr k tm)\<lparr>tm_timeout_tick := ?new\<rparr>)"
    and l': "tm_list k' = insert_upto (timer_insert_pos ?f ?new ?ts) tm ?ts"
  proof -
    obtain k' where k': "rt_timer_start tm k = Some (0, k')"
      "k' = k\<lparr>objs := (objs k)(OTimer tm := (objs k (OTimer tm))
             \<lparr>ob_flag := ob_flag (objs k (OTimer tm)) AND NOT 1 OR 1\<rparr>),
           tmr := (tmr k)(tm := (tmr k tm)\<lparr>tm_timeout_tick := ?new\<rparr>), tmlist := tmlist k'\<rparr>"
      "tm_list k' = insert_upto (timer_insert_pos ?f ?new ?ts) tm ?ts"
      using timer_start_Some[OF inv ty it] by blast
    from arg_cong[OF k'(2), of tmr] have "tmr k' = (tmr k)(tm := (tmr k tm)\<lparr>tm_timeout_tick := ?new\<rparr>)"
      by simp
    with k' show thesis using that by blast
  qed
  have d: "distinct (tm_list k)" using inv by (simp add: tm_list_def ls_inv_distinct)
  then have nin: "tm \<notin> set ?ts" by simp
  have f: "?f t = tm_timeout_tick (tmr k t)" if "t \<in> set ?ts" for t using that nin by auto
  have b: "\<forall>t \<in> set ?ts. unat (?f t - b) < 0x7fffffff"
    using srt f by (auto simp: timers_sorted_def tm_left_def dest: notin_set_remove1)
  have "takeWhile (\<lambda>t. unat (?f t - b) \<le> left) ?ts = takeWhile (\<lambda>t. tm_left k b t \<le> left) ?ts"
    by (rule takeWhile_cong) (auto simp: f[simplified] tm_left_def)
  then have l: "tm_list k' = takeWhile (\<lambda>t. tm_left k b t \<le> left) ?ts @ tm #
      dropWhile (\<lambda>t. tm_left k b t \<le> left) ?ts"
    using insert_pos_takeWhile[of ?new b ?ts ?f] b new
    unfolding l' left_def[symmetric] by (simp add: insert_takeWhile)
  have lt: "tm_left k' b tm = left" by (simp add: tm_left_def tmr' left_def)
  have lo: "tm_left k' b t = tm_left k b t" if "t \<in> set ?ts" for t
    using that nin by (auto simp: tm_left_def tmr')
  have srt': "sorted (map (tm_left k b) ?ts)"
    using srt by (simp add: timers_sorted_def sorted_map_remove1)
  have e: "map (tm_left k' b) (tm_list k') =
      map (tm_left k b) (takeWhile (\<lambda>t. tm_left k b t \<le> left) ?ts) @ left #
      map (tm_left k b) (dropWhile (\<lambda>t. tm_left k b t \<le> left) ?ts)"
    using lo by (auto simp: l lt dest: set_takeWhileD set_dropWhileD)
  have "timers_sorted b k'"
    unfolding timers_sorted_def e
  proof
    show "sorted (map (tm_left k b) (takeWhile (\<lambda>t. tm_left k b t \<le> left) ?ts) @ left #
        map (tm_left k b) (dropWhile (\<lambda>t. tm_left k b t \<le> left) ?ts))"
      using sorted_insert_after[OF srt', of left] .
    show "\<forall>t \<in> set (tm_list k'). tm_left k' b t < 0x7fffffff"
    proof
      fix t assume "t \<in> set (tm_list k')"
      then have "t = tm \<or> t \<in> set ?ts" by (auto simp: l dest: set_takeWhileD set_dropWhileD)
      then show "tm_left k' b t < 0x7fffffff"
        using lt lo[of t] new b f[of t] by (auto simp: left_def tm_left_def simp del: fun_upd_apply)
    qed
  qed
  then show ?thesis using k' lt l by blast
qed

end
