(* ===== verification/Scheduler.thy ===== *)
theory Scheduler
  imports Timer
begin

text \<open>
  The single-core scheduler of \<open>src/scheduler.c\<close>: one FIFO of ready threads for every priority, a
  bitmap of the priorities that have ready threads, the running thread (which is in no ready queue)
  and the scheduler lock.

  The context switch itself (\<open>rt_hw_context_switch\<close>) has no effect on this state: a call of
  \<open>rt_schedule\<close> ends for the caller when its thread is the current one again.
\<close>

subsection \<open>Operations\<close>

text \<open>\<open>rt_thread_priority_table[p]\<close>: an index of 32 or more is out of the array.\<close>

definition priority_table :: "u8 \<Rightarrow> qid option" where
  "priority_table p = (if unat p < RT_THREAD_PRIORITY_MAX then Some (Ready (unat p)) else None)"

text \<open>\<open>1L << priority\<close>.\<close>

definition prio_mask :: "nat \<Rightarrow> u32" where
  "prio_mask p = push_bit p 1"

definition rt_scheduler_stack_check :: "rt_thread \<Rightarrow> unit option" where
  "rt_scheduler_stack_check th =
     RT_ASSERT (\<not> (th_stack_guard th \<noteq> 35 \<or> th_sp th \<le> th_stack_addr th \<or>
                   th_sp th > th_stack_addr th + th_stack_size th))"

definition get_highest_priority_thread :: "kernel \<Rightarrow> (nat \<times> nat) option" where
  "get_highest_priority_thread k =
     do { let number = rt_ffs (rt_ready_group k);
          RT_ASSERT (number \<noteq> 0);
          let highest_ready_priority = number - 1;
          case ls_q (tlist k) (Ready highest_ready_priority) of
            [] \<Rightarrow> None
          | t # _ \<Rightarrow> Some (t, highest_ready_priority) }"

definition rt_system_scheduler_init :: "kernel \<Rightarrow> kernel option" where
  "rt_system_scheduler_init k =
     do { let k = k\<lparr>rt_scheduler_lock_nest := 0\<rparr>;
          RT_ASSERT (\<forall>p \<in> set [0..<RT_THREAD_PRIORITY_MAX]. ls_q (tlist k) (Ready p) = []);
          let k = k\<lparr>rt_ready_group := 0\<rparr>;
          tl \<leftarrow> ls_init_head Defunct (tlist k);
          Some (k\<lparr>tlist := tl\<rparr>) }"

definition rt_schedule_insert_thread :: "nat \<Rightarrow> kernel \<Rightarrow> kernel option" where
  "rt_schedule_insert_thread t k =
     do { let k = upd_thr t (set_stat RT_THREAD_READY) k;
          if Some t = rt_current_thread k then Some k
          else do { q \<leftarrow> priority_table (th_current_priority (thr k t));
                    tl \<leftarrow> ls_push_back q t (tlist k);
                    Some (k\<lparr>tlist := tl, rt_ready_group := rt_ready_group k OR th_number_mask (thr k t)\<rparr>) } }"

definition rt_schedule_remove_thread :: "nat \<Rightarrow> kernel \<Rightarrow> kernel option" where
  "rt_schedule_remove_thread t k =
     do { let k = k\<lparr>tlist := ls_remove t (tlist k)\<rparr>;
          q \<leftarrow> priority_table (th_current_priority (thr k t));
          Some (if ls_q (tlist k) q = []
                then k\<lparr>rt_ready_group := rt_ready_group k AND NOT (th_number_mask (thr k t))\<rparr> else k) }"

definition rt_system_scheduler_start :: "kernel \<Rightarrow> kernel option" where
  "rt_system_scheduler_start k =
     do { (to_thread, _) \<leftarrow> get_highest_priority_thread k;
          let k = k\<lparr>rt_current_thread := Some to_thread\<rparr>;
          rt_schedule_remove_thread to_thread k }"

text \<open>\<open>rt_current_thread\<close> is dereferenced: it must not be \<open>RT_NULL\<close>.\<close>

definition rt_schedule :: "kernel \<Rightarrow> kernel option" where
  "rt_schedule k =
     (if rt_scheduler_lock_nest k = 0 \<and> rt_ready_group k \<noteq> 0 then
        do { (to_thread, highest_ready_priority) \<leftarrow> get_highest_priority_thread k;
             cur \<leftarrow> rt_current_thread k;
             let (to_thread, need_insert_from_thread) =
               (if stat_of (thr k cur) = RT_THREAD_READY
                then if unat (th_current_priority (thr k cur)) < highest_ready_priority
                     then (cur, False) else (to_thread, True)
                else (to_thread, False));
             if to_thread \<noteq> cur
             then do { let k = k\<lparr>rt_current_priority := of_nat highest_ready_priority,
                                 rt_current_thread := Some to_thread\<rparr>;
                       k \<leftarrow> (if need_insert_from_thread then rt_schedule_insert_thread cur k else Some k);
                       k \<leftarrow> rt_schedule_remove_thread to_thread k;
                       rt_scheduler_stack_check (thr k to_thread);
                       Some k }
             else rt_schedule_remove_thread cur k }
      else Some k)"

definition rt_enter_critical :: "kernel \<Rightarrow> kernel" where
  "rt_enter_critical k = k\<lparr>rt_scheduler_lock_nest := rt_scheduler_lock_nest k + 1\<rparr>"

definition rt_exit_critical :: "kernel \<Rightarrow> kernel option" where
  "rt_exit_critical k =
     (let k = k\<lparr>rt_scheduler_lock_nest := rt_scheduler_lock_nest k - 1\<rparr>
      in if sint (rt_scheduler_lock_nest k) \<le> 0
         then rt_schedule (k\<lparr>rt_scheduler_lock_nest := 0\<rparr>)
         else Some k)"

definition rt_critical_level :: "kernel \<Rightarrow> u16" where
  "rt_critical_level k = rt_scheduler_lock_nest k"

subsection \<open>The kernel invariant\<close>

definition alive :: "kernel \<Rightarrow> nat \<Rightarrow> bool" where
  "alive k t \<longleftrightarrow> rt_object_get_type (OThread t) k = 1"

fun wait_link :: "qid option \<Rightarrow> bool" where
  "wait_link None = False"
| "wait_link (Some (Ready p)) = False"
| "wait_link (Some Defunct) = False"
| "wait_link (Some q) = True"

definition stack_ok :: "rt_thread \<Rightarrow> bool" where
  "stack_ok th \<longleftrightarrow> th_stack_guard th = 35 \<and> th_stack_addr th < th_sp th \<and>
     th_sp th \<le> th_stack_addr th + th_stack_size th"

text \<open>
  The condition on one thread: whether its object is \<open>live\<close>, whether it is the running thread
  \<open>cur\<close>, the list \<open>lnk\<close> it is linked to, its control block, whether its timer is linked, and the
  timer with its object.
\<close>

definition th_inv ::
  "bool \<Rightarrow> bool \<Rightarrow> qid option \<Rightarrow> rt_thread \<Rightarrow> bool \<Rightarrow> tm_fn \<Rightarrow> rt_object \<Rightarrow> nat \<Rightarrow> bool" where
  "th_inv live cur lnk th tml fn tob t \<longleftrightarrow>
     (live \<and> stat_of th = RT_THREAD_READY \<longrightarrow> cur \<or> lnk \<noteq> None) \<and>
     (\<forall>p. lnk = Some (Ready p) \<longrightarrow>
        live \<and> stat_of th = RT_THREAD_READY \<and> unat (th_current_priority th) = p \<and> \<not> cur) \<and>
     (lnk = Some Defunct \<longrightarrow> stat_of th = RT_THREAD_CLOSE) \<and>
     (wait_link lnk \<longrightarrow> live \<and> stat_of th = RT_THREAD_SUSPEND) \<and>
     (live \<longrightarrow> unat (th_current_priority th) < 32 \<and> unat (th_init_priority th) < 32 \<and> stack_ok th) \<and>
     (live \<and> stat_of th \<noteq> RT_THREAD_INIT \<and> stat_of th \<noteq> RT_THREAD_CLOSE \<longrightarrow>
        th_number_mask th = prio_mask (unat (th_current_priority th))) \<and>
     (live \<and> stat_of th \<noteq> RT_THREAD_CLOSE \<longrightarrow>
        ob_type tob = 0x8A \<and> fn = Fn_thread_timeout t \<and> ob_flag tob AND 2 = 0) \<and>
     (tml \<longrightarrow> live \<and> stat_of th = RT_THREAD_SUSPEND \<and> ob_flag tob AND 1 \<noteq> 0) \<and>
     (cur \<longrightarrow> stat_of th \<noteq> RT_THREAD_INIT \<and> (live \<or> stat_of th = RT_THREAD_CLOSE))"

definition thread_inv :: "kernel \<Rightarrow> nat \<Rightarrow> bool" where
  "thread_inv k t \<longleftrightarrow>
     th_inv (alive k t) (rt_current_thread k = Some t) (ls_in (tlist k) t) (thr k t)
       (ls_in (tmlist k) (ThreadTimer t) \<noteq> None) (tm_timeout_func (tmr k (ThreadTimer t)))
       (objs k (OTimer (ThreadTimer t))) t"

definition group_ok :: "u32 \<Rightarrow> (qid, nat) lstore \<Rightarrow> bool" where
  "group_ok g L \<longleftrightarrow> (\<forall>p. bit g p \<longleftrightarrow> ls_q L (Ready p) \<noteq> [])"

definition kinv :: "kernel \<Rightarrow> bool" where
  "kinv k \<longleftrightarrow> obj_inv k \<and> ls_inv (tlist k) \<and> ls_inv (tmlist k) \<and>
     group_ok (rt_ready_group k) (tlist k) \<and> (\<forall>t. thread_inv k t)"

lemma kinvD:
  assumes "kinv k"
  shows "obj_inv k" "ls_inv (tlist k)" "ls_inv (tmlist k)" "group_ok (rt_ready_group k) (tlist k)"
    "thread_inv k t"
  using assms by (auto simp: kinv_def)

text \<open>Facts about one thread under the invariant.\<close>

lemma kinv_ready:
  assumes "kinv k" "t \<in> set (ls_q (tlist k) (Ready p))"
  shows "alive k t" "stat_of (thr k t) = 1" "unat (th_current_priority (thr k t)) = p" "p < 32"
    "rt_current_thread k \<noteq> Some t" "th_number_mask (thr k t) = prio_mask p" "stack_ok (thr k t)"
  using kinvD(2)[OF assms(1)] kinvD(5)[OF assms(1), of t] assms(2)
  by (auto simp: thread_inv_def th_inv_def ls_in_iff)

lemma kinv_alive:
  assumes "kinv k" "alive k t"
  shows "unat (th_current_priority (thr k t)) < 32" "unat (th_init_priority (thr k t)) < 32"
    "stack_ok (thr k t)"
    "stat_of (thr k t) \<noteq> 0 \<Longrightarrow> stat_of (thr k t) \<noteq> 4 \<Longrightarrow>
      th_number_mask (thr k t) = prio_mask (unat (th_current_priority (thr k t)))"
  using kinvD(5)[OF assms(1), of t] assms(2) by (auto simp: thread_inv_def th_inv_def)

lemma kinv_timer:
  assumes "kinv k" "alive k t" "stat_of (thr k t) \<noteq> 4"
  shows "timer_obj (ThreadTimer t) k" "rt_object_is_systemobject (OTimer (ThreadTimer t)) k"
    "tm_timeout_func (tmr k (ThreadTimer t)) = Fn_thread_timeout t"
    "ob_flag (objs k (OTimer (ThreadTimer t))) AND 2 = 0"
  using kinvD(5)[OF assms(1), of t] assms(2,3)
  by (auto simp: thread_inv_def th_inv_def timer_obj_def rt_object_get_type_def
      rt_object_is_systemobject_def)

lemma kinv_current:
  assumes "kinv k" "rt_current_thread k = Some c"
  shows "stat_of (thr k c) \<noteq> 0" "alive k c \<or> stat_of (thr k c) = 4"
    "ls_in (tlist k) c \<noteq> Some (Ready p)"
  using kinvD(5)[OF assms(1), of c] assms(2) by (auto simp: thread_inv_def th_inv_def)

lemma kinv_stack_check:
  "stack_ok th \<Longrightarrow> rt_scheduler_stack_check th = Some ()"
  by (auto simp: rt_scheduler_stack_check_def stack_ok_def)

text \<open>A ready thread that is not running is in the queue of its priority.\<close>

lemma kinv_ready_iff:
  assumes "kinv k" "alive k t" "rt_current_thread k \<noteq> Some t"
  shows "stat_of (thr k t) = 1 \<longleftrightarrow>
    ls_in (tlist k) t = Some (Ready (unat (th_current_priority (thr k t))))"
proof
  assume s: "stat_of (thr k t) = 1"
  have *: "ls_in (tlist k) t \<noteq> None" "ls_in (tlist k) t \<noteq> Some Defunct" "\<not> wait_link (ls_in (tlist k) t)"
    "\<And>p. ls_in (tlist k) t = Some (Ready p) \<Longrightarrow> unat (th_current_priority (thr k t)) = p"
    using kinvD(5)[OF assms(1), of t] assms(2,3) s by (auto simp: thread_inv_def th_inv_def)
  then obtain q where "ls_in (tlist k) t = Some q" by auto
  then show "ls_in (tlist k) t = Some (Ready (unat (th_current_priority (thr k t))))"
    using * by (cases q) auto
next
  assume "ls_in (tlist k) t = Some (Ready (unat (th_current_priority (thr k t))))"
  then show "stat_of (thr k t) = 1"
    using kinvD(5)[OF assms(1), of t] by (auto simp: thread_inv_def th_inv_def)
qed

subsection \<open>The priority bitmap\<close>

lemma set_stat_same: "stat_of th = s \<Longrightarrow> set_stat s th = th"
proof -
  assume s: "stat_of th = s"
  have "s OR (th_stat th AND NOT 0x0f) = th_stat th"
    unfolding s[symmetric] stat_of_def mask_0f by (auto intro!: bit_word_eqI simp: bit_simps)
  then show ?thesis by (simp add: set_stat_def)
qed

lemma bit_prio_mask: "p < 32 \<Longrightarrow> bit (prio_mask p) q \<longleftrightarrow> q = p"
  by (auto simp: prio_mask_def bit_exp_iff)

lemma bit_or_single:
  "p < 32 \<Longrightarrow> bit ((g :: u32) OR prio_mask p) q \<longleftrightarrow> bit g q \<or> q = p"
  by (auto simp: prio_mask_def bit_or_iff bit_exp_iff)

lemma bit_and_not_single:
  "bit ((g :: u32) AND NOT (prio_mask p)) q \<longleftrightarrow> bit g q \<and> q \<noteq> p"
  using bit_imp_le_length[of g q]
  by (auto simp: prio_mask_def bit_and_iff bit_not_iff bit_exp_iff)

lemma group_ok_push:
  assumes "group_ok g L" "ls_push_back (Ready p) t L = Some L'" "p < 32"
  shows "group_ok (g OR prio_mask p) L'"
  using assms by (auto simp: group_ok_def ls_push_back_Some bit_or_single)

lemma group_ok_other:
  assumes "group_ok g L" "\<And>p. ls_q L' (Ready p) = ls_q L (Ready p)"
  shows "group_ok g L'"
  using assms by (simp add: group_ok_def)

lemma group_ok_remove:
  assumes g: "group_ok g L" and L: "ls_inv L" and r: "\<And>q. ls_in L t = Some (Ready q) \<Longrightarrow> q = p"
  shows "group_ok (if ls_q (ls_remove t L) (Ready p) = [] then g AND NOT (prio_mask p) else g)
    (ls_remove t L)"
  unfolding group_ok_def
proof
  fix q
  have same: "ls_q (ls_remove t L) (Ready q) = ls_q L (Ready q)" if "q \<noteq> p"
    using r that ls_in_iff[OF L, of t "Ready q"] by (auto simp: ls_q_remove[OF L] remove1_idem)
  have "ls_q L (Ready p) \<noteq> []" if "ls_q (ls_remove t L) (Ready p) \<noteq> []"
    using that by (auto simp: ls_q_remove[OF L])
  then show "bit (if ls_q (ls_remove t L) (Ready p) = [] then g AND NOT (prio_mask p) else g) q =
      (ls_q (ls_remove t L) (Ready q) \<noteq> [])"
    using g same by (cases "q = p") (auto simp: group_ok_def bit_and_not_single)
qed

lemma group_ok_nonzero: "group_ok g L \<Longrightarrow> g \<noteq> 0 \<longleftrightarrow> (\<exists>p. ls_q L (Ready p) \<noteq> [])"
  by (metis bit_eq_iff bit_0_eq bot_apply bot_bool_def group_ok_def)

lemma priority_table_ok [simp]: "unat p < 32 \<Longrightarrow> priority_table p = Some (Ready (unat p))"
  by (simp add: priority_table_def)

text \<open>\<open>__rt_ffs\<close> on the bitmap finds the head of the first non-empty queue.\<close>

lemma highest_Some:
  assumes "group_ok (rt_ready_group k) (tlist k)" "rt_ready_group k \<noteq> 0"
  shows "\<exists>t ts p. get_highest_priority_thread k = Some (t, p) \<and> p < 32 \<and>
    ls_q (tlist k) (Ready p) = t # ts \<and> (\<forall>q < p. ls_q (tlist k) (Ready q) = [])"
proof -
  define p where "p = rt_ffs (rt_ready_group k) - 1"
  have p: "rt_ffs (rt_ready_group k) \<noteq> 0" "bit (rt_ready_group k) p"
    "\<And>q. q < p \<Longrightarrow> \<not> bit (rt_ready_group k) q"
    using rt_ffs_nonzero[OF assms(2)] by (auto simp: p_def)
  then have "ls_q (tlist k) (Ready p) \<noteq> []" "\<And>q. q < p \<Longrightarrow> ls_q (tlist k) (Ready q) = []"
    using assms(1) by (auto simp: group_ok_def)
  moreover have "p < 32" using bit_imp_le_length[OF p(2)] by simp
  moreover have "rt_ffs (rt_ready_group k) - Suc 0 = p" by (simp add: p_def)
  ultimately show ?thesis
    using p(1) by (auto simp: get_highest_priority_thread_def neq_Nil_conv Let_def)
qed

subsection \<open>Inserting and removing\<close>

lemma insert_thread_current:
  "rt_current_thread k = Some t \<Longrightarrow>
    rt_schedule_insert_thread t k = Some (upd_thr t (set_stat 1) k)"
  by (simp add: rt_schedule_insert_thread_def)

lemma insert_thread_ready:
  assumes "rt_current_thread k \<noteq> Some t" "ls_in (tlist k) t = None"
    "unat (th_current_priority (thr k t)) < 32"
  defines "p \<equiv> unat (th_current_priority (thr k t))"
  shows "\<exists>L. ls_push_back (Ready p) t (tlist k) = Some L \<and>
    rt_schedule_insert_thread t k = Some ((upd_thr t (set_stat 1) k)\<lparr>tlist := L,
      rt_ready_group := rt_ready_group k OR th_number_mask (thr k t)\<rparr>)"
  using assms by (auto simp: rt_schedule_insert_thread_def ls_push_back_def)

lemma remove_thread_Some:
  assumes "unat (th_current_priority (thr k t)) < 32"
  shows "rt_schedule_remove_thread t k = Some (k\<lparr>tlist := ls_remove t (tlist k),
    rt_ready_group := if ls_q (ls_remove t (tlist k)) (Ready (unat (th_current_priority (thr k t)))) = []
      then rt_ready_group k AND NOT (th_number_mask (thr k t)) else rt_ready_group k\<rparr>)"
  using assms by (simp add: rt_schedule_remove_thread_def Let_def)

text \<open>The condition on a thread does not depend on the rest of the state.\<close>

lemma thread_inv_same:
  assumes "thread_inv k x" "ls_in (tlist k') x = ls_in (tlist k) x" "thr k' x = thr k x"
    "(rt_current_thread k' = Some x) = (rt_current_thread k = Some x)"
    "objs k' (OThread x) = objs k (OThread x)"
    "ls_in (tmlist k') (ThreadTimer x) = ls_in (tmlist k) (ThreadTimer x)"
    "tm_timeout_func (tmr k' (ThreadTimer x)) = tm_timeout_func (tmr k (ThreadTimer x))"
    "objs k' (OTimer (ThreadTimer x)) = objs k (OTimer (ThreadTimer x))"
  shows "thread_inv k' x"
  using assms by (simp add: thread_inv_def alive_def rt_object_get_type_def)

subsection \<open>One schedule\<close>

text \<open>
  The two outcomes of \<open>rt_schedule\<close> with the scheduler unlocked: the state is unchanged and the
  running thread stays, or the head \<open>t\<close> of the first non-empty queue runs, and the thread that ran
  goes to the back of its queue if it is still ready.
\<close>

definition switch_to :: "nat \<Rightarrow> nat \<Rightarrow> nat \<Rightarrow> kernel \<Rightarrow> kernel \<Rightarrow> bool" where
  "switch_to c t p k k' \<longleftrightarrow>
     (\<exists>L g. k' = k\<lparr>tlist := L, rt_ready_group := g, rt_current_thread := Some t,
              rt_current_priority := of_nat p\<rparr> \<and>
       (\<forall>q. ls_q L q = remove1 t (ls_q (tlist k) q @
          (if stat_of (thr k c) = 1 \<and> q = Ready (unat (th_current_priority (thr k c))) then [c] else []))))"

lemma schedule_keep:
  assumes k: "kinv k" "rt_current_thread k = Some c" and s: "stat_of (thr k c) = 1"
    and p: "\<forall>q \<le> unat (th_current_priority (thr k c)). ls_q (tlist k) (Ready q) = []"
  shows "rt_schedule k = Some k"
proof (cases "rt_scheduler_lock_nest k = 0 \<and> rt_ready_group k \<noteq> 0")
  case True
  obtain t ts h where h: "get_highest_priority_thread k = Some (t, h)" "ls_q (tlist k) (Ready h) = t # ts"
    using highest_Some[OF kinvD(4)[OF k(1)]] True by blast
  have lt: "unat (th_current_priority (thr k c)) < h"
    using p h(2) by (metis linorder_not_le list.discI)
  have al: "alive k c" using kinv_current(2)[OF k] s by auto
  have ul: "ls_in (tlist k) c = None"
  proof (cases "ls_in (tlist k) c")
    case (Some q)
    then show ?thesis using kinvD(5)[OF k(1), of c] s k(2)
      by (cases q) (auto simp: thread_inv_def th_inv_def)
  qed
  have "\<not> bit (rt_ready_group k) (unat (th_current_priority (thr k c)))"
    using p kinvD(4)[OF k(1)] by (auto simp: group_ok_def)
  then have g: "rt_ready_group k AND NOT (th_number_mask (thr k c)) = rt_ready_group k"
    using kinv_alive(4)[OF k(1) al] s
    by (auto intro!: bit_word_eqI simp: bit_and_not_single)
  have "rt_schedule_remove_thread c k = Some k"
    using remove_thread_Some[OF kinv_alive(1)[OF k(1) al]] ul p g by simp
  then show ?thesis using True h lt s k(2) by (simp add: rt_schedule_def)
next
  case False
  then show ?thesis by (auto simp: rt_schedule_def)
qed

lemma current_unlinked:
  assumes "kinv k" "rt_current_thread k = Some c" "stat_of (thr k c) = 1"
  shows "ls_in (tlist k) c = None" "alive k c"
proof -
  show "alive k c" using kinv_current(2)[OF assms(1,2)] assms(3) by auto
  show "ls_in (tlist k) c = None"
  proof (cases "ls_in (tlist k) c")
    case (Some q)
    then show ?thesis using kinvD(5)[OF assms(1), of c] assms(2,3)
      by (cases q) (auto simp: thread_inv_def th_inv_def)
  qed
qed

text \<open>
  The state after a switch from \<open>c\<close> to \<open>t\<close> is well formed, whatever the list store and bitmap are
  as long as they fit: \<open>t\<close> is unlinked and \<open>c\<close> is queued if it is still ready.
\<close>

lemma kinv_switch:
  assumes k: "kinv k" "rt_current_thread k = Some c"
    and t: "t \<in> set (ls_q (tlist k) (Ready p))"
    and L: "ls_inv L" "group_ok g L" "ls_in L t = None"
      "ls_in L c = (if stat_of (thr k c) = 1 then Some (Ready (unat (th_current_priority (thr k c))))
        else ls_in (tlist k) c)"
      "\<And>x. x \<noteq> t \<Longrightarrow> x \<noteq> c \<Longrightarrow> ls_in L x = ls_in (tlist k) x"
  shows "kinv (k\<lparr>tlist := L, rt_ready_group := g, rt_current_thread := Some t,
    rt_current_priority := h\<rparr>)" (is "kinv ?k")
proof -
  note r = kinv_ready[OF k(1) t]
  have tc: "t \<noteq> c" using r(5) k(2) by auto
  have "thread_inv ?k x" for x
  proof -
    consider "x = t" | "x = c" "x \<noteq> t" | "x \<noteq> t" "x \<noteq> c" by blast
    then show ?thesis
    proof cases
      case 1
      show ?thesis using kinvD(5)[OF k(1), of t] L(3) r(1,2) 1
        by (auto simp: thread_inv_def th_inv_def alive_def rt_object_get_type_def)
    next
      case 2
      show ?thesis using kinvD(5)[OF k(1), of c] L(4) tc 2 k(2) current_unlinked(2)[OF k]
        by (auto simp: thread_inv_def th_inv_def alive_def rt_object_get_type_def split: if_splits)
    next
      case 3
      show ?thesis
        by (rule thread_inv_same[OF kinvD(5)[OF k(1)]]) (use 3 L(5) k(2) in auto)
    qed
  qed
  then show ?thesis using kinvD[OF k(1)] L(1,2) by (auto simp: kinv_def obj_inv_def)
qed

lemma schedule_switch:
  assumes k: "kinv k" "rt_current_thread k = Some c" and lock: "rt_scheduler_lock_nest k = 0"
    and h: "ls_q (tlist k) (Ready p) = t # ts" "\<forall>q < p. ls_q (tlist k) (Ready q) = []"
    and s: "\<not> (stat_of (thr k c) = 1 \<and> unat (th_current_priority (thr k c)) < p)"
  shows "\<exists>k'. rt_schedule k = Some k' \<and> kinv k' \<and> switch_to c t p k k'"
proof -
  have t: "t \<in> set (ls_q (tlist k) (Ready p))" using h(1) by simp
  note r = kinv_ready[OF k(1) t] and inv = kinvD(2)[OF k(1)] and g = kinvD(4)[OF k(1)]
  have tc: "t \<noteq> c" using r(5) k(2) by auto
  have g0: "rt_ready_group k \<noteq> 0" using group_ok_nonzero[OF g] h(1) by auto
  have hi: "get_highest_priority_thread k = Some (t, p)"
  proof -
    obtain t' ts' p' where *: "get_highest_priority_thread k = Some (t', p')"
      "ls_q (tlist k) (Ready p') = t' # ts'" "\<forall>q < p'. ls_q (tlist k) (Ready q) = []"
      using highest_Some[OF g g0] by blast
    have "p' = p" using * h by (metis linorder_neqE_nat list.discI)
    then show ?thesis using * h by simp
  qed
  let ?k1 = "k\<lparr>rt_current_priority := of_nat p, rt_current_thread := Some t\<rparr>"
  show ?thesis
  proof (cases "stat_of (thr k c) = 1")
    case True
    let ?pc = "unat (th_current_priority (thr k c))"
    note u = current_unlinked[OF k True]
    note pa = kinv_alive[OF k(1) u(2)]
    obtain L where L: "ls_push_back (Ready ?pc) c (tlist k) = Some L"
      and ins: "rt_schedule_insert_thread c ?k1 = Some (?k1\<lparr>tlist := L,
        rt_ready_group := rt_ready_group k OR prio_mask ?pc\<rparr>)"
      using insert_thread_ready[of ?k1 c] u pa True tc
      by (auto simp: set_stat_same[OF True])
    let ?g = "rt_ready_group k OR prio_mask ?pc"
    have inL: "ls_in L = (ls_in (tlist k))(c := Some (Ready ?pc))"
      and qL: "ls_q L = (ls_q (tlist k))(Ready ?pc := ls_q (tlist k) (Ready ?pc) @ [c])"
      using L by (auto simp: ls_push_back_Some)
    have Li: "ls_inv L" by (rule ls_inv_push_back[OF inv L])
    have Lg: "group_ok ?g L" by (rule group_ok_push[OF g L pa(1)])
    let ?L = "ls_remove t L"
    let ?g' = "if ls_q ?L (Ready p) = [] then ?g AND NOT (prio_mask p) else ?g"
    have "ls_in (tlist k) t = Some (Ready p)" using t ls_in_iff[OF inv] by auto
    then have gg: "group_ok ?g' ?L" using group_ok_remove[OF Lg Li, of t p] inL tc by auto
    let ?k' = "k\<lparr>tlist := ?L, rt_ready_group := ?g', rt_current_thread := Some t,
      rt_current_priority := of_nat p\<rparr>"
    have "rt_schedule k = Some ?k'"
      using lock g0 hi k(2) s True tc ins r(3,4,6,7) kinv_stack_check[OF r(7)]
      by (simp add: rt_schedule_def remove_thread_Some Let_def)
    moreover have "kinv ?k'"
      by (rule kinv_switch[OF k t _ gg]) (use Li inL tc True in auto)
    moreover have "switch_to c t p k ?k'"
      unfolding switch_to_def
      by (rule exI[of _ ?L], rule exI[of _ ?g'])
        (use True tc in \<open>auto simp: ls_q_remove[OF Li] qL remove1_append remove1_idem\<close>)
    ultimately show ?thesis by blast
  next
    case False
    let ?L = "ls_remove t (tlist k)"
    let ?g' = "if ls_q ?L (Ready p) = [] then rt_ready_group k AND NOT (prio_mask p) else rt_ready_group k"
    have "ls_in (tlist k) t = Some (Ready p)" using t ls_in_iff[OF inv] by auto
    then have gg: "group_ok ?g' ?L" using group_ok_remove[OF g inv, of t p] by auto
    let ?k' = "k\<lparr>tlist := ?L, rt_ready_group := ?g', rt_current_thread := Some t,
      rt_current_priority := of_nat p\<rparr>"
    have "rt_schedule k = Some ?k'"
      using lock g0 hi k(2) False tc r(3,4,6,7) kinv_stack_check[OF r(7)]
      by (simp add: rt_schedule_def remove_thread_Some Let_def)
    moreover have "kinv ?k'"
      by (rule kinv_switch[OF k t _ gg]) (use inv tc False in auto)
    moreover have "switch_to c t p k ?k'"
      unfolding switch_to_def
      by (rule exI[of _ ?L], rule exI[of _ ?g']) (use False in \<open>auto simp: ls_q_remove[OF inv]\<close>)
    ultimately show ?thesis by blast
  qed
qed

text \<open>What every call of \<open>rt_schedule\<close> keeps.\<close>

definition sched_frame :: "kernel \<Rightarrow> kernel \<Rightarrow> bool" where
  "sched_frame k k' \<longleftrightarrow>
     (\<exists>L g c h. k' = k\<lparr>tlist := L, rt_ready_group := g, rt_current_thread := c,
              rt_current_priority := h\<rparr> \<and>
       (c = None \<longleftrightarrow> rt_current_thread k = None) \<and>
       (\<forall>q. (\<forall>p. q \<noteq> Ready p) \<longrightarrow> ls_q L q = ls_q (tlist k) q))"

lemma sched_frame_refl: "sched_frame k k"
  unfolding sched_frame_def
  by (rule exI[of _ "tlist k"], rule exI[of _ "rt_ready_group k"],
      rule exI[of _ "rt_current_thread k"], rule exI[of _ "rt_current_priority k"]) simp

lemma sched_frameD:
  assumes "sched_frame k k'"
  shows "objs k' = objs k" "olist k' = olist k" "thr k' = thr k" "tmr k' = tmr k"
    "tmlist k' = tmlist k" "rt_tick k' = rt_tick k" "rt_interrupt_nest k' = rt_interrupt_nest k"
    "rt_scheduler_lock_nest k' = rt_scheduler_lock_nest k" "rt_errno k' = rt_errno k"
    "sems k' = sems k" "mutexes k' = mutexes k" "events k' = events k" "mbs k' = mbs k"
    "mqs k' = mqs k" "mps k' = mps k" "(\<And>p. q \<noteq> Ready p) \<Longrightarrow> ls_q (tlist k') q = ls_q (tlist k) q"
    "rt_current_thread k' = None \<longleftrightarrow> rt_current_thread k = None"
  using assms by (auto simp: sched_frame_def)

lemma switch_frame:
  assumes "switch_to c t p k k'" "kinv k" "t \<in> set (ls_q (tlist k) (Ready p))"
    "rt_current_thread k \<noteq> None"
  shows "sched_frame k k'"
proof -
  obtain L g where k': "k' = k\<lparr>tlist := L, rt_ready_group := g, rt_current_thread := Some t,
      rt_current_priority := of_nat p\<rparr>"
    and q: "\<And>q. ls_q L q = remove1 t (ls_q (tlist k) q @
      (if stat_of (thr k c) = 1 \<and> q = Ready (unat (th_current_priority (thr k c))) then [c] else []))"
    using assms(1) by (auto simp: switch_to_def)
  have "t \<notin> set (ls_q (tlist k) q)" if "\<And>p. q \<noteq> Ready p" for q
    using assms(3) that[of p] ls_in_iff[OF kinvD(2)[OF assms(2)]] by auto
  then have "ls_q L q = ls_q (tlist k) q" if "\<And>p. q \<noteq> Ready p" for q
    using q that by (simp add: remove1_idem)
  then show ?thesis
    unfolding sched_frame_def
    by (intro exI[of _ L] exI[of _ g] exI[of _ "Some t"] exI[of _ "of_nat p"]) (use assms(4) k' in auto)
qed

text \<open>\<open>rt_schedule\<close> never faults on a well-formed state, and keeps it well formed.\<close>

lemma schedule_ok:
  assumes k: "kinv k" "rt_current_thread k = Some c"
  shows "\<exists>k'. rt_schedule k = Some k' \<and> kinv k' \<and> sched_frame k k'"
proof (cases "rt_scheduler_lock_nest k = 0 \<and> rt_ready_group k \<noteq> 0")
  case True
  obtain t ts p where h: "ls_q (tlist k) (Ready p) = t # ts" "\<forall>q < p. ls_q (tlist k) (Ready q) = []"
    using highest_Some[OF kinvD(4)[OF k(1)]] True by blast
  show ?thesis
  proof (cases "stat_of (thr k c) = 1 \<and> unat (th_current_priority (thr k c)) < p")
    case True
    then show ?thesis using schedule_keep[OF k] h(2) k(1) sched_frame_refl
      by (metis (no_types, lifting) le_trans linorder_not_le)
  next
    case False
    obtain k' where k': "rt_schedule k = Some k'" "kinv k'" "switch_to c t p k k'"
      using schedule_switch[OF k _ h False] True by blast
    then show ?thesis using switch_frame[OF k'(3) k(1)] h(1) k(2) by auto
  qed
next
  case False
  then show ?thesis using k(1) sched_frame_refl by (auto simp: rt_schedule_def)
qed

subsection \<open>Updates the invariant does not depend on\<close>

lemma thread_inv_irrelevant [simp]:
  "thread_inv (k\<lparr>rt_tick := a\<rparr>) t = thread_inv k t"
  "thread_inv (k\<lparr>rt_scheduler_lock_nest := b\<rparr>) t = thread_inv k t"
  "thread_inv (k\<lparr>rt_interrupt_nest := c\<rparr>) t = thread_inv k t"
  "thread_inv (k\<lparr>rt_errno := d\<rparr>) t = thread_inv k t"
  "thread_inv (k\<lparr>sems := e\<rparr>) t = thread_inv k t"
  "thread_inv (k\<lparr>mutexes := f\<rparr>) t = thread_inv k t"
  "thread_inv (k\<lparr>events := g\<rparr>) t = thread_inv k t"
  "thread_inv (k\<lparr>mbs := h\<rparr>) t = thread_inv k t"
  "thread_inv (k\<lparr>mqs := i\<rparr>) t = thread_inv k t"
  "thread_inv (k\<lparr>mps := j\<rparr>) t = thread_inv k t"
  by (simp_all add: thread_inv_def alive_def rt_object_get_type_def)

lemma kinv_irrelevant [simp]:
  "kinv (k\<lparr>rt_tick := a\<rparr>) = kinv k"
  "kinv (k\<lparr>rt_scheduler_lock_nest := b\<rparr>) = kinv k"
  "kinv (k\<lparr>rt_interrupt_nest := c\<rparr>) = kinv k"
  "kinv (k\<lparr>rt_errno := d\<rparr>) = kinv k"
  "kinv (k\<lparr>sems := e\<rparr>) = kinv k"
  "kinv (k\<lparr>mutexes := f\<rparr>) = kinv k"
  "kinv (k\<lparr>events := g\<rparr>) = kinv k"
  "kinv (k\<lparr>mbs := h\<rparr>) = kinv k"
  "kinv (k\<lparr>mqs := i\<rparr>) = kinv k"
  "kinv (k\<lparr>mps := j\<rparr>) = kinv k"
  by (simp_all add: kinv_def obj_inv_def)

subsection \<open>The scheduler lock\<close>

lemma enter_critical_kinv [simp]: "kinv (rt_enter_critical k) = kinv k"
  by (simp add: rt_enter_critical_def)

text \<open>Leaving the outermost critical section schedules; leaving an inner one does not.\<close>

lemma exit_critical_ok:
  assumes "kinv k" "rt_current_thread k = Some c"
  shows "\<exists>k'. rt_exit_critical k = Some k' \<and> kinv k' \<and>
    (if sint (rt_scheduler_lock_nest k - 1) \<le> 0
     then rt_schedule (k\<lparr>rt_scheduler_lock_nest := 0\<rparr>) = Some k' \<and>
       sched_frame (k\<lparr>rt_scheduler_lock_nest := 0\<rparr>) k'
     else k' = k\<lparr>rt_scheduler_lock_nest := rt_scheduler_lock_nest k - 1\<rparr>)"
  using schedule_ok[of "k\<lparr>rt_scheduler_lock_nest := 0\<rparr>" c] assms
  by (cases "sint (rt_scheduler_lock_nest k - 1) \<le> 0") (auto simp: rt_exit_critical_def)

lemma schedule_locked: "rt_scheduler_lock_nest k \<noteq> 0 \<Longrightarrow> rt_schedule k = Some k"
  by (simp add: rt_schedule_def)

text \<open>Every thread that is ready, the running one included.\<close>

definition ready_thread :: "kernel \<Rightarrow> nat \<Rightarrow> bool" where
  "ready_thread k t \<longleftrightarrow> alive k t \<and> stat_of (thr k t) = RT_THREAD_READY"

abbreviation prio_of :: "kernel \<Rightarrow> nat \<Rightarrow> nat" where
  "prio_of k t \<equiv> unat (th_current_priority (thr k t))"

lemma ready_thread_cases:
  assumes "kinv k" "ready_thread k t"
  obtains "rt_current_thread k = Some t" | "t \<in> set (ls_q (tlist k) (Ready (prio_of k t)))"
  using assms kinv_ready_iff[OF assms(1), of t] ls_in_iff[OF kinvD(2)[OF assms(1)]]
  by (cases "rt_current_thread k = Some t") (auto simp: ready_thread_def)

subsection \<open>Properties\<close>

text \<open>A system of two threads: 0 runs at priority 10, 1 is ready at priority 10.\<close>

definition ex_thread :: "u8 \<Rightarrow> u8 \<Rightarrow> rt_thread" where
  "ex_thread st p = \<lparr>th_entry = 0, th_parameter = 0, th_stack_addr = 100, th_stack_size = 100,
     th_stack_guard = 35, th_sp = 132, th_error = 0, th_stat = st, th_current_priority = p,
     th_init_priority = p, th_number_mask = prio_mask (unat p), th_event_set = 0, th_event_info = 0,
     th_init_tick = 10, th_remaining_tick = 10, th_cleanup = None\<rparr>"

definition ex_obj :: "u8 \<Rightarrow> rt_object" where
  "ex_obj ty = \<lparr>ob_name = replicate 16 0, ob_type = ty, ob_flag = 0\<rparr>"

definition ex_objs :: "oid \<Rightarrow> rt_object" where
  "ex_objs x = (case x of OThread t \<Rightarrow> ex_obj (if t < 2 then 0x81 else 0)
     | OTimer (ThreadTimer t) \<Rightarrow> ex_obj (if t < 2 then 0x8A else 0) | _ \<Rightarrow> ex_obj 0)"

definition ex_olist :: "(nat, oid) lstore" where
  "ex_olist = \<lparr>ls_q = (\<lambda>_. [])(1 := [OThread 1, OThread 0],
     10 := [OTimer (ThreadTimer 1), OTimer (ThreadTimer 0)]),
     ls_in = (\<lambda>_. None)(OThread 0 := Some 1, OThread 1 := Some 1,
       OTimer (ThreadTimer 0) := Some 10, OTimer (ThreadTimer 1) := Some 10)\<rparr>"

definition ex_kernel :: kernel where
  "ex_kernel = \<lparr>objs = ex_objs, olist = ex_olist,
     thr = (\<lambda>t. if t < 2 then ex_thread 1 10 else ex_thread 0 0),
     tlist = \<lparr>ls_q = (\<lambda>_. [])(Ready 10 := [1]), ls_in = (\<lambda>_. None)(1 := Some (Ready 10))\<rparr>,
     tmr = (\<lambda>x. \<lparr>tm_timeout_func = (case x of ThreadTimer t \<Rightarrow> Fn_thread_timeout t | UserTimer n \<Rightarrow> Fn_user n),
       tm_init_tick = 0, tm_timeout_tick = 0\<rparr>), tmlist = ls_empty, rt_tick = 0,
     rt_current_thread = Some 0, rt_current_priority = 10, rt_ready_group = prio_mask 10,
     rt_scheduler_lock_nest = 0, rt_interrupt_nest = 0, rt_errno = 0,
     sems = (\<lambda>_. \<lparr>sem_value = 0\<rparr>),
     mutexes = (\<lambda>_. \<lparr>mx_value = 1, mx_original_priority = 0xff, mx_hold = 0, mx_owner = None\<rparr>),
     events = (\<lambda>_. \<lparr>ev_set = 0\<rparr>),
     mbs = (\<lambda>_. \<lparr>mb_msg_pool = [], mb_size = 0, mb_entry = 0, mb_in_offset = 0, mb_out_offset = 0\<rparr>),
     mqs = (\<lambda>_. \<lparr>mq_msgs = (\<lambda>_. \<lparr>msg_next = None, msg_bytes = []\<rparr>), mq_msg_size = 0, mq_max_msgs = 0,
       mq_entry = 0, mq_head = None, mq_tail = None, mq_free = None\<rparr>),
     mps = (\<lambda>_. \<lparr>mp_blocks = (\<lambda>_. NextFree None), mp_block_list = None, mp_block_size = 0,
       mp_total_count = 0, mp_free_count = 0, mp_suspend_count = 0\<rparr>)\<rparr>"

lemma ex_kernel_inv: "kinv ex_kernel"
proof -
  have "obj_inv ex_kernel"
    by (auto simp: obj_inv_def ex_kernel_def ex_olist_def ls_inv_def obj_ok_def ex_objs_def ex_obj_def
        split: oid.splits tmid.splits)
  moreover have "ls_inv (tlist ex_kernel)" "ls_inv (tmlist ex_kernel)"
    by (auto simp: ex_kernel_def ls_inv_def)
  moreover have "group_ok (rt_ready_group ex_kernel) (tlist ex_kernel)"
    by (auto simp: group_ok_def ex_kernel_def bit_prio_mask)
  moreover have "thread_inv ex_kernel t" for t
    by (cases "t = 0"; cases "t = 1")
      (auto simp: thread_inv_def th_inv_def alive_def rt_object_get_type_def ex_kernel_def
        ex_objs_def ex_obj_def ex_thread_def stat_of_def stack_ok_def)
  ultimately show ?thesis by (simp add: kinv_def)
qed

lemma ex_kernel_facts:
  "rt_current_thread ex_kernel = Some 0" "rt_scheduler_lock_nest ex_kernel = 0"
  "stat_of (thr ex_kernel 0) = 1" "stat_of (thr ex_kernel 1) = 1" "alive ex_kernel 0" "alive ex_kernel 1"
  "th_current_priority (thr ex_kernel 0) = 10" "th_current_priority (thr ex_kernel 1) = 10"
  "ls_q (tlist ex_kernel) (Ready 10) = [1]" "q \<noteq> Ready 10 \<Longrightarrow> ls_q (tlist ex_kernel) q = []"
  "rt_interrupt_nest ex_kernel = 0" "ready_thread ex_kernel 0"
  by (simp_all add: ex_kernel_def ex_thread_def stat_of_def alive_def rt_object_get_type_def
      ex_objs_def ex_obj_def ready_thread_def)

text \<open>C2. \<open>rt_schedule\<close> never faults on a well-formed kernel: the bitmap lookup finds a queue that is
  not empty, the stack check passes, and the result is well formed. Only the ready queues, the bitmap
  and the running thread change; no thread changes its state.\<close>

theorem schedule_keeps_invariant:
  assumes "kinv k" "rt_current_thread k = Some c"
  shows "\<exists>k'. rt_schedule k = Some k' \<and> kinv k' \<and> sched_frame k k'"
  by (rule schedule_ok[OF assms])

theorem schedule_keeps_invariant_witness:
  "\<exists>k'. rt_schedule ex_kernel = Some k' \<and> kinv k' \<and> sched_frame ex_kernel k'"
  by (rule schedule_keeps_invariant[OF ex_kernel_inv ex_kernel_facts(1)])

text \<open>C1. With the scheduler unlocked and some thread ready, the thread that runs after
  \<open>rt_schedule\<close> is ready and no ready thread has a higher priority (a lower number).\<close>

theorem schedule_highest_priority:
  assumes k: "kinv k" "rt_current_thread k = Some c" "rt_scheduler_lock_nest k = 0"
    and r: "ready_thread k r"
  shows "\<exists>k' n. rt_schedule k = Some k' \<and> rt_current_thread k' = Some n \<and> ready_thread k' n \<and>
    (\<forall>t. ready_thread k' t \<longrightarrow> prio_of k' n \<le> prio_of k' t)"
proof (cases "rt_ready_group k = 0")
  case True
  then have e: "ls_q (tlist k) (Ready p) = []" for p
    using group_ok_nonzero[OF kinvD(4)[OF k(1)]] by auto
  have only: "rt_current_thread k = Some t" if "ready_thread k t" for t
    using that ready_thread_cases[OF k(1)] e by (metis empty_iff list.set(1))
  then have "t = c" if "ready_thread k t" for t using that k(2) by force
  then show ?thesis using True k(2) r by (auto simp: rt_schedule_def)
next
  case False
  obtain t ts p where h: "ls_q (tlist k) (Ready p) = t # ts" "\<forall>q < p. ls_q (tlist k) (Ready q) = []"
    using highest_Some[OF kinvD(4)[OF k(1)] False] by blast
  have rt: "ready_thread k t" "prio_of k t = p"
    using kinv_ready[OF k(1), of t p] h(1) by (auto simp: ready_thread_def)
  have low: "p \<le> prio_of k x" if "ready_thread k x" "x \<noteq> c" for x
    using ready_thread_cases[OF k(1) that(1)] that(2) k(2) h(2)
    by (metis empty_iff linorder_not_le list.set(1) option.inject)
  show ?thesis
  proof (cases "stat_of (thr k c) = 1 \<and> prio_of k c < p")
    case True
    then have "rt_schedule k = Some k"
      using schedule_keep[OF k(1,2)] h(2) by auto
    moreover have "ready_thread k c" using True kinv_current(2)[OF k(1,2)] by (auto simp: ready_thread_def)
    ultimately show ?thesis using k(2) low True by (metis le_eq_less_or_eq order_le_less_trans)
  next
    case F: False
    obtain k' where k': "rt_schedule k = Some k'" "switch_to c t p k k'"
      using schedule_switch[OF k h F] by blast
    have cur: "rt_current_thread k' = Some t" using k'(2) by (auto simp: switch_to_def)
    have same: "thr k' = thr k" "objs k' = objs k"
      using k'(2) by (auto simp: switch_to_def)
    then have rd: "ready_thread k' x = ready_thread k x" for x
      by (simp add: ready_thread_def alive_def rt_object_get_type_def)
    have "p \<le> prio_of k c" if "ready_thread k c" using F that by (auto simp: ready_thread_def)
    then show ?thesis using k'(1) cur same rd rt low by metis
  qed
qed

theorem schedule_highest_priority_witness:
  "\<exists>k' n. rt_schedule ex_kernel = Some k' \<and> rt_current_thread k' = Some n \<and> ready_thread k' n \<and>
    (\<forall>t. ready_thread k' t \<longrightarrow> prio_of k' n \<le> prio_of k' t)"
  by (rule schedule_highest_priority[OF ex_kernel_inv ex_kernel_facts(1,2,12)])

text \<open>Round robin: when the running thread is ready and the first thread of its own priority
  queue is the next candidate, that thread runs and the old one goes to the end of the queue; the
  order of the others is kept.\<close>

theorem schedule_round_robin:
  assumes k: "kinv k" "rt_current_thread k = Some c" and lock: "rt_scheduler_lock_nest k = 0"
    and c: "stat_of (thr k c) = RT_THREAD_READY"
    and q: "ls_q (tlist k) (Ready (prio_of k c)) = t # ts"
    and h: "\<forall>q < prio_of k c. ls_q (tlist k) (Ready q) = []"
  shows "\<exists>k'. rt_schedule k = Some k' \<and> rt_current_thread k' = Some t \<and>
    ls_q (tlist k') (Ready (prio_of k c)) = ts @ [c] \<and>
    (\<forall>q. q \<noteq> Ready (prio_of k c) \<longrightarrow> ls_q (tlist k') q = ls_q (tlist k) q)"
proof -
  obtain k' where k': "rt_schedule k = Some k'" "switch_to c t (prio_of k c) k k'"
    using schedule_switch[OF k lock q h] by auto
  have "t \<notin> set (ls_q (tlist k) r)" if "r \<noteq> Ready (prio_of k c)" for r
    using ls_in_iff[OF kinvD(2)[OF k(1)]] q that by (metis list.set_intros(1) option.inject)
  then show ?thesis using k' q c by (auto simp: switch_to_def remove1_idem)
qed

theorem schedule_round_robin_witness:
  "\<exists>k'. rt_schedule ex_kernel = Some k' \<and> rt_current_thread k' = Some 1 \<and>
    ls_q (tlist k') (Ready 10) = [0]"
  using schedule_round_robin[OF ex_kernel_inv ex_kernel_facts(1,2,3), of 1 "[]"] ex_kernel_facts
  by auto

end
