(* ===== verification/Kernel_Inv.thy ===== *)
theory Kernel_Inv
  imports Scheduler
begin

text \<open>
  How the steps the kernel functions are made of act on the invariant: linking a suspended thread to
  a wait queue and unlinking it, making a thread ready, changing fields the invariant does not
  mention, and the operations on the timer of a thread. The threads of the theories above are
  reasoned about with these lemmas only.
\<close>

subsection \<open>Fields of a thread\<close>

text \<open>The fields the invariant of a thread reads.\<close>

definition same_sched :: "rt_thread \<Rightarrow> rt_thread \<Rightarrow> bool" where
  "same_sched a b \<longleftrightarrow> stat_of a = stat_of b \<and> th_current_priority a = th_current_priority b \<and>
     th_init_priority a = th_init_priority b \<and> th_number_mask a = th_number_mask b \<and>
     th_stack_addr a = th_stack_addr b \<and> th_stack_size a = th_stack_size b \<and>
     th_stack_guard a = th_stack_guard b \<and> th_sp a = th_sp b"

lemma same_sched_simps [simp]:
  "same_sched (th\<lparr>th_error := e\<rparr>) th" "same_sched (th\<lparr>th_remaining_tick := n\<rparr>) th"
  "same_sched (th\<lparr>th_event_set := s\<rparr>) th" "same_sched (th\<lparr>th_event_info := i\<rparr>) th"
  "same_sched (th\<lparr>th_cleanup := c\<rparr>) th" "same_sched th th"
  "same_sched (th\<lparr>th_event_set := s, th_event_info := i\<rparr>) th"
  by (simp_all add: same_sched_def stat_of_def)

lemma th_inv_same: "same_sched a b \<Longrightarrow> th_inv l c q a m f ob t = th_inv l c q b m f ob t"
  by (simp add: same_sched_def th_inv_def stack_ok_def)

lemma kinv_thr_same:
  assumes "kinv k" "same_sched th (thr k t)"
  shows "kinv (k\<lparr>thr := (thr k)(t := th)\<rparr>)"
proof -
  have "thread_inv (k\<lparr>thr := (thr k)(t := th)\<rparr>) x" for x
    using kinvD(5)[OF assms(1), of x] th_inv_same[OF assms(2)]
    by (auto simp: thread_inv_def alive_def rt_object_get_type_def)
  then show ?thesis using kinvD[OF assms(1)] by (auto simp: kinv_def obj_inv_def)
qed

text \<open>A change to one thread alone: only its own condition has to be checked again.\<close>

lemma kinv_one_thread:
  assumes "kinv k" "ls_inv L" "ls_inv M" "group_ok g L"
    and other: "\<And>x. x \<noteq> t \<Longrightarrow> ls_in L x = ls_in (tlist k) x"
      "\<And>x. x \<noteq> t \<Longrightarrow> ls_in M (ThreadTimer x) = ls_in (tmlist k) (ThreadTimer x)"
      "\<And>x. x \<noteq> ThreadTimer t \<Longrightarrow> tm_timeout_func (tm x) = tm_timeout_func (tmr k x)"
    and ob: "obj_inv (k\<lparr>objs := obs, olist := OL\<rparr>)"
      "\<And>x. x \<noteq> t \<Longrightarrow> obs (OThread x) = objs k (OThread x)"
      "\<And>x. x \<noteq> t \<Longrightarrow> obs (OTimer (ThreadTimer x)) = objs k (OTimer (ThreadTimer x))"
    and t: "th_inv (ob_type (obs (OThread t)) AND NOT 0x80 = 1) (rt_current_thread k = Some t) (ls_in L t) th
      (ls_in M (ThreadTimer t) \<noteq> None) (tm_timeout_func (tm (ThreadTimer t)))
      (obs (OTimer (ThreadTimer t))) t"
  shows "kinv (k\<lparr>objs := obs, olist := OL, thr := (thr k)(t := th), tlist := L, tmr := tm, tmlist := M,
    rt_ready_group := g\<rparr>)" (is "kinv ?k")
proof -
  have "thread_inv ?k x" for x
  proof (cases "x = t")
    case True
    then show ?thesis using t by (simp add: thread_inv_def alive_def rt_object_get_type_def)
  next
    case False
    then show ?thesis
      by (intro thread_inv_same[OF kinvD(5)[OF assms(1)]]) (use other ob(2,3) in auto)
  qed
  then show ?thesis using assms(2-4) ob(1) by (simp add: kinv_def obj_inv_def)
qed

subsection \<open>Wait queues\<close>

lemma wait_link_not_ready: "wait_link (Some q) \<Longrightarrow> q \<noteq> Ready p" "wait_link (Some q) \<Longrightarrow> q \<noteq> Defunct"
  by auto

lemma kinv_unlink:
  assumes k: "kinv k" and s: "stat_of (thr k t) = 2"
  shows "kinv (k\<lparr>tlist := ls_remove t (tlist k)\<rparr>)"
proof -
  have "ls_in (tlist k) t \<noteq> Some (Ready p)" for p
    using kinvD(5)[OF k, of t] s by (auto simp: thread_inv_def th_inv_def)
  then have "t \<notin> set (ls_q (tlist k) (Ready p))" for p
    using ls_in_iff[OF kinvD(2)[OF k]] by auto
  then have g: "group_ok (rt_ready_group k) (ls_remove t (tlist k))"
    by (intro group_ok_other[OF kinvD(4)[OF k]])
      (simp add: ls_q_remove[OF kinvD(2)[OF k]] remove1_idem)
  have "thread_inv (k\<lparr>tlist := ls_remove t (tlist k)\<rparr>) x" for x
    using kinvD(5)[OF k, of x] s
    by (auto simp: thread_inv_def th_inv_def alive_def rt_object_get_type_def)
  then show ?thesis using kinvD[OF k] g by (auto simp: kinv_def obj_inv_def)
qed

lemma kinv_wait:
  assumes k: "kinv k" and t: "alive k t" "stat_of (thr k t) = 2"
    and L: "ls_insert_at q i t (tlist k) = Some L" and q: "wait_link (Some q)"
  shows "kinv (k\<lparr>tlist := L\<rparr>)"
proof -
  have in': "ls_in L = (ls_in (tlist k))(t := Some q)" using L by (auto simp: ls_insert_at_Some)
  have g: "group_ok (rt_ready_group k) L"
    by (rule group_ok_other[OF kinvD(4)[OF k]])
      (use L wait_link_not_ready(1)[OF q] in \<open>auto simp: ls_insert_at_Some\<close>)
  have "thread_inv (k\<lparr>tlist := L\<rparr>) x" for x
    using kinvD(5)[OF k, of x] t q wait_link_not_ready[OF q]
    by (auto simp: thread_inv_def th_inv_def alive_def rt_object_get_type_def in')
  then show ?thesis using kinvD[OF k] g ls_inv_insert_at[OF _ L] by (auto simp: kinv_def obj_inv_def)
qed

subsection \<open>Suspending and making ready\<close>

text \<open>Suspending the running thread: it is in no list, and its timer is not linked.\<close>

lemma kinv_suspend_current:
  assumes k: "kinv k" "rt_current_thread k = Some c" and s: "stat_of (thr k c) = 1"
  shows "kinv (upd_thr c (set_stat 2) k)"
proof -
  note u = current_unlinked[OF k s]
  have "thread_inv (upd_thr c (set_stat 2) k) x" for x
    using kinvD(5)[OF k(1), of x] u s
    by (auto simp: thread_inv_def th_inv_def alive_def rt_object_get_type_def stack_ok_def)
  then show ?thesis using kinvD[OF k(1)] by (auto simp: kinv_def obj_inv_def)
qed

lemma kinv_insert_thread:
  assumes k: "kinv k" and t: "alive k t" "stat_of (thr k t) = 2" "ls_in (tlist k) t = None"
    "ls_in (tmlist k) (ThreadTimer t) = None"
  shows "\<exists>L g. rt_schedule_insert_thread t k =
      Some ((upd_thr t (set_stat 1) k)\<lparr>tlist := L, rt_ready_group := g\<rparr>) \<and>
    kinv ((upd_thr t (set_stat 1) k)\<lparr>tlist := L, rt_ready_group := g\<rparr>) \<and>
    (\<forall>q. ls_q L q = ls_q (tlist k) q @
       (if rt_current_thread k \<noteq> Some t \<and> q = Ready (prio_of k t) then [t] else []))"
proof (cases "rt_current_thread k = Some t")
  case True
  have "thread_inv (upd_thr t (set_stat 1) k) x" for x
    using kinvD(5)[OF k, of x] t True
    by (auto simp: thread_inv_def th_inv_def alive_def rt_object_get_type_def stack_ok_def)
  then have "kinv ((upd_thr t (set_stat 1) k)\<lparr>tlist := tlist k, rt_ready_group := rt_ready_group k\<rparr>)"
    using kinvD[OF k] by (auto simp: kinv_def obj_inv_def)
  then show ?thesis using insert_thread_current[OF True] True
    by (intro exI[of _ "tlist k"] exI[of _ "rt_ready_group k"]) auto
next
  case False
  let ?p = "prio_of k t"
  note a = kinv_alive[OF k t(1)]
  have m: "th_number_mask (thr k t) = prio_mask ?p" using a(4) t(2) by simp
  obtain L where L: "ls_push_back (Ready ?p) t (tlist k) = Some L"
    and i: "rt_schedule_insert_thread t k = Some ((upd_thr t (set_stat 1) k)\<lparr>tlist := L,
      rt_ready_group := rt_ready_group k OR prio_mask ?p\<rparr>)"
    using insert_thread_ready[OF False t(3) a(1)] m by auto
  let ?k = "(upd_thr t (set_stat 1) k)\<lparr>tlist := L, rt_ready_group := rt_ready_group k OR prio_mask ?p\<rparr>"
  have in': "ls_in L = (ls_in (tlist k))(t := Some (Ready ?p))" using L by (auto simp: ls_push_back_Some)
  have g: "group_ok (rt_ready_group k OR prio_mask ?p) L"
    by (rule group_ok_push[OF kinvD(4)[OF k] L a(1)])
  have "thread_inv ?k x" for x
    using kinvD(5)[OF k, of x] t False
    by (auto simp: thread_inv_def th_inv_def alive_def rt_object_get_type_def stack_ok_def in')
  then have "kinv ?k"
    using kinvD[OF k] g ls_inv_push_back[OF kinvD(2)[OF k] L] by (auto simp: kinv_def obj_inv_def)
  moreover have "ls_q L q = ls_q (tlist k) q @ (if rt_current_thread k \<noteq> Some t \<and> q = Ready ?p then [t] else [])"
    for q using L False by (auto simp: ls_push_back_Some)
  ultimately show ?thesis using i by blast
qed

subsection \<open>What the thread and timer steps leave alone\<close>

definition ipc_frame :: "kernel \<Rightarrow> kernel \<Rightarrow> bool" where
  "ipc_frame k k' \<longleftrightarrow> sems k' = sems k \<and> mutexes k' = mutexes k \<and> events k' = events k \<and>
     mbs k' = mbs k \<and> mqs k' = mqs k \<and> mps k' = mps k \<and> rt_tick k' = rt_tick k \<and>
     rt_interrupt_nest k' = rt_interrupt_nest k \<and>
     rt_scheduler_lock_nest k' = rt_scheduler_lock_nest k \<and> rt_errno k' = rt_errno k \<and>
     olist k' = olist k \<and> (\<forall>x. (\<forall>t. x \<noteq> OTimer (ThreadTimer t)) \<longrightarrow> objs k' x = objs k x)"

lemma ipc_frame_refl [simp]: "ipc_frame k k"
  by (simp add: ipc_frame_def)

lemma ipc_frame_trans: "ipc_frame a b \<Longrightarrow> ipc_frame b c \<Longrightarrow> ipc_frame a c"
  by (simp add: ipc_frame_def)

lemma ipc_frameD:
  assumes "ipc_frame k k'"
  shows "sems k' = sems k" "mutexes k' = mutexes k" "events k' = events k" "mbs k' = mbs k"
    "mqs k' = mqs k" "mps k' = mps k" "rt_tick k' = rt_tick k"
    "rt_interrupt_nest k' = rt_interrupt_nest k"
    "rt_scheduler_lock_nest k' = rt_scheduler_lock_nest k" "rt_errno k' = rt_errno k"
    "(\<And>t. x \<noteq> OTimer (ThreadTimer t)) \<Longrightarrow> objs k' x = objs k x"
  using assms by (auto simp: ipc_frame_def)

lemma ipc_frame_alive: "ipc_frame k k' \<Longrightarrow> alive k' t \<longleftrightarrow> alive k t"
  by (simp add: ipc_frame_def alive_def rt_object_get_type_def)

lemma sched_ipc_frame: "sched_frame k k' \<Longrightarrow> ipc_frame k k'"
  by (auto simp: sched_frame_def ipc_frame_def)

subsection \<open>The timer of a thread\<close>

lemma flag_bits:
  fixes f :: u8
  shows "(f AND - 2) AND 2 = f AND 2" "(f AND - 2 OR 1) AND 2 = f AND 2" "(f OR 1) AND 2 = f AND 2"
    "(f AND - 2 OR 1) AND 1 = 1" "(f OR 1) AND 1 = 1" "(f AND - 2) AND 1 = 0"
proof -
  have n: "- 2 = NOT (1 :: u8)" by simp
  show "(f AND - 2) AND 2 = f AND 2" "(f AND - 2 OR 1) AND 2 = f AND 2" "(f OR 1) AND 2 = f AND 2"
    "(f AND - 2 OR 1) AND 1 = 1" "(f OR 1) AND 1 = 1" "(f AND - 2) AND 1 = 0"
    unfolding n by (auto simp: bit_eq_iff bit_simps)
qed

lemma kinv_timer_linked:
  assumes "kinv k" "ls_in (tmlist k) (ThreadTimer t) \<noteq> None"
  shows "alive k t" "stat_of (thr k t) = 2" "ob_flag (objs k (OTimer (ThreadTimer t))) AND 1 \<noteq> 0"
  using kinvD(5)[OF assms(1), of t] assms(2) unfolding thread_inv_def th_inv_def by blast+

lemma timer_obj_inv:
  "obj_inv k \<Longrightarrow> obj_inv (k\<lparr>objs := (objs k)(x := (objs k x)\<lparr>ob_flag := f\<rparr>)\<rparr>)"
  by (simp add: obj_inv_def)

lemma timer_stop_ok:
  assumes k: "kinv k" and t: "alive k t" "stat_of (thr k t) \<noteq> 4"
  shows "\<exists>r obs M. rt_timer_stop (ThreadTimer t) k = Some (r, k\<lparr>objs := obs, tmlist := M\<rparr>) \<and>
    kinv (k\<lparr>objs := obs, tmlist := M\<rparr>) \<and> M = ls_remove (ThreadTimer t) (tmlist k) \<and>
    (\<forall>x. x \<noteq> OTimer (ThreadTimer t) \<longrightarrow> obs x = objs k x)"
proof (cases "ob_flag (objs k (OTimer (ThreadTimer t))) AND 1 = 0")
  case True
  then have "ls_in (tmlist k) (ThreadTimer t) = None"
    using kinv_timer_linked(3)[OF k] by blast
  then have "ls_remove (ThreadTimer t) (tmlist k) = tmlist k" by simp
  then show ?thesis using True kinv_timer(1)[OF k t] k
    by (intro exI[of _ "-1"] exI[of _ "objs k"] exI[of _ "tmlist k"])
      (auto simp: rt_timer_stop_def timer_obj_def)
next
  case False
  let ?o = "(objs k)(OTimer (ThreadTimer t) := (objs k (OTimer (ThreadTimer t)))
    \<lparr>ob_flag := ob_flag (objs k (OTimer (ThreadTimer t))) AND NOT 1\<rparr>)"
  let ?M = "ls_remove (ThreadTimer t) (tmlist k)"
  have "kinv (k\<lparr>objs := ?o, olist := olist k, thr := (thr k)(t := thr k t), tlist := tlist k, tmr := tmr k,
      tmlist := ?M, rt_ready_group := rt_ready_group k\<rparr>)"
    using kinvD(5)[OF k, of t] t
    by (intro kinv_one_thread[OF k kinvD(2)[OF k] ls_inv_remove[OF kinvD(3)[OF k]] kinvD(4)[OF k]])
      (auto simp: thread_inv_def th_inv_def alive_def rt_object_get_type_def flag_bits
        kinvD(1)[OF k] obj_inv_def[of "k"] intro: timer_obj_inv)
  then show ?thesis using False kinv_timer(1)[OF k t]
    by (intro exI[of _ "0"] exI[of _ "?o"] exI[of _ "?M"])
      (auto simp: rt_timer_stop_def timer_obj_def rt_timer_remove_def)
qed

text \<open>
  Setting the time of a thread timer and starting it, as every function that blocks with a timeout
  does: \<open>rt_timer_control(.., RT_TIMER_CTRL_SET_TIME, &tick); rt_timer_start(..);\<close>
\<close>

definition arm_timer :: "nat \<Rightarrow> u32 \<Rightarrow> kernel \<Rightarrow> kernel option" where
  "arm_timer t n k =
     do { (_, _, k) \<leftarrow> rt_timer_control (ThreadTimer t) (RT_TIMER_CTRL_SET_TIME n) k;
          (_, k) \<leftarrow> rt_timer_start (ThreadTimer t) k;
          Some k }"

lemma arm_timer_ok:
  assumes k: "kinv k" and t: "alive k t" "stat_of (thr k t) = 2" and n: "n < 0x7fffffff"
  shows "\<exists>k'. arm_timer t n k = Some k' \<and> kinv k' \<and> ipc_frame k k' \<and> thr k' = thr k \<and>
    tlist k' = tlist k \<and> rt_current_thread k' = rt_current_thread k \<and>
    rt_ready_group k' = rt_ready_group k \<and>
    ls_in (tmlist k') (ThreadTimer t) = Some () \<and>
    tm_timeout_tick (tmr k' (ThreadTimer t)) = rt_tick k + n"
proof -
  let ?tm = "ThreadTimer t"
  let ?k1 = "upd_tmr ?tm (\<lambda>x. x\<lparr>tm_init_tick := n\<rparr>) k"
  have ty: "timer_obj ?tm k" using kinv_timer(1)[OF k t(1)] t(2) by simp
  have c: "rt_timer_control ?tm (RT_TIMER_CTRL_SET_TIME n) k = Some (0, None, ?k1)"
    using ty by (simp add: rt_timer_control_def timer_obj_def)
  have ty1: "timer_obj ?tm ?k1" using ty by (simp add: timer_obj_def rt_object_get_type_def)
  let ?obs = "(objs k)(OTimer ?tm := (objs k (OTimer ?tm))
    \<lparr>ob_flag := ob_flag (objs k (OTimer ?tm)) AND NOT 1 OR 1\<rparr>)"
  let ?tmr = "(tmr ?k1)(?tm := (tmr ?k1 ?tm)\<lparr>tm_timeout_tick := rt_tick k + n\<rparr>)"
  obtain k' where s: "rt_timer_start ?tm ?k1 = Some (0, k')"
    "k' = ?k1\<lparr>objs := ?obs, tmr := ?tmr, tmlist := tmlist k'\<rparr>"
    "ls_inv (tmlist k')" "ls_in (tmlist k') = (ls_in (tmlist k))(?tm := Some ())"
    using timer_start_Some[OF _ ty1] kinvD(3)[OF k] n by auto
  have e: "k' = k\<lparr>objs := ?obs, olist := olist k, thr := (thr k)(t := thr k t), tlist := tlist k,
      tmr := ?tmr, tmlist := tmlist k', rt_ready_group := rt_ready_group k\<rparr>"
    by (subst s(2)) simp
  have "kinv k'"
    using kinvD(5)[OF k, of t] t
    by (subst e, intro kinv_one_thread[OF k kinvD(2)[OF k] s(3) kinvD(4)[OF k]])
      (auto simp: thread_inv_def th_inv_def alive_def rt_object_get_type_def flag_bits s(4)
        kinvD(1)[OF k] intro: timer_obj_inv)
  moreover have "objs k' = ?obs" "tmr k' = ?tmr" by (subst e, simp)+
  moreover have "ipc_frame k k'" by (subst e) (simp add: ipc_frame_def)
  moreover have "thr k' = thr k" "tlist k' = tlist k" "rt_current_thread k' = rt_current_thread k"
    "rt_ready_group k' = rt_ready_group k"
    by (subst e, simp)+
  ultimately show ?thesis using c s(1,4) by (auto simp: arm_timer_def)
qed

end
