(* ===== verification/Thread.thy ===== *)
theory Thread
  imports Kernel_Inv
begin

text \<open>
  Threads: \<open>src/thread.c\<close>, with the initial stack frame of \<open>libcpu/arm/cortex-m7/cpuport.c\<close> and
  \<open>rt_tick_from_millisecond\<close> of \<open>src/clock.c\<close>.

  A function that blocks its caller is modelled up to and including its call of \<open>rt_schedule\<close>; what
  it does when the thread runs again is a second definition.
\<close>

subsection \<open>The initial stack\<close>

text \<open>
  \<open>rt_hw_stack_init\<close> with the FPU in use: the frame of 17 words below the aligned top, lowest address
  first (\<open>flag\<close>, r4-r11, r0-r3, r12, lr, pc, psr).
\<close>

definition rt_hw_stack_init :: "u32 \<Rightarrow> u32 \<Rightarrow> u32 \<Rightarrow> u32 \<Rightarrow> u32 \<times> u32 list" where
  "rt_hw_stack_init tentry parameter stack_addr texit =
     (let stk = stack_addr + 4;
          stk = RT_ALIGN_DOWN stk 8;
          stk = stk - 68
      in (stk, [0] @ replicate 8 0xdeadbeef @ [parameter, 0, 0, 0, 0, texit, tentry, 0x01000000]))"

text \<open>\<open>1000 * ms + 999\<close> is computed in \<open>int\<close>; a signed overflow is undefined.\<close>

definition rt_tick_from_millisecond :: "int \<Rightarrow> int option" where
  "rt_tick_from_millisecond ms =
     (if ms < 0 then Some RT_WAITING_FOREVER
      else if 1000 * ms + 999 < 2 ^ 31 then Some ((1000 * ms + 999) div 1000) else None)"

subsection \<open>Suspending, resuming, timing out\<close>

definition rt_thread_suspend :: "nat \<Rightarrow> kernel \<Rightarrow> (rt_err_t \<times> kernel) option" where
  "rt_thread_suspend t k =
     do { RT_ASSERT (rt_object_get_type (OThread t) k = of_nat RT_Object_Class_Thread);
          if stat_of (thr k t) \<noteq> RT_THREAD_READY then Some (- RT_ERROR, k)
          else do { RT_ASSERT (rt_thread_self k = Some t);
                    let k = upd_thr t (set_stat RT_THREAD_SUSPEND) k;
                    k \<leftarrow> rt_schedule_remove_thread t k;
                    (_, k) \<leftarrow> rt_timer_stop (ThreadTimer t) k;
                    Some (RT_EOK, k) } }"

definition rt_thread_resume :: "nat \<Rightarrow> kernel \<Rightarrow> (rt_err_t \<times> kernel) option" where
  "rt_thread_resume t k =
     do { RT_ASSERT (rt_object_get_type (OThread t) k = of_nat RT_Object_Class_Thread);
          if stat_of (thr k t) \<noteq> RT_THREAD_SUSPEND then Some (- RT_ERROR, k)
          else do { let k = k\<lparr>tlist := ls_remove t (tlist k)\<rparr>;
                    (_, k) \<leftarrow> rt_timer_stop (ThreadTimer t) k;
                    k \<leftarrow> rt_schedule_insert_thread t k;
                    Some (RT_EOK, k) } }"

definition rt_thread_timeout :: "nat \<Rightarrow> kernel \<Rightarrow> kernel option" where
  "rt_thread_timeout t k =
     do { RT_ASSERT (stat_of (thr k t) = RT_THREAD_SUSPEND);
          RT_ASSERT (rt_object_get_type (OThread t) k = of_nat RT_Object_Class_Thread);
          let k = upd_thr t (\<lambda>th. th\<lparr>th_error := - RT_ETIMEOUT\<rparr>) k;
          let k = k\<lparr>tlist := ls_remove t (tlist k)\<rparr>;
          k \<leftarrow> rt_schedule_insert_thread t k;
          rt_schedule k }"

subsection \<open>Creation\<close>

definition rt_thread_init_block ::
  "nat \<Rightarrow> u8 list \<Rightarrow> u32 \<Rightarrow> u32 \<Rightarrow> u32 \<Rightarrow> u32 \<Rightarrow> u32 \<Rightarrow> u8 \<Rightarrow> u32 \<Rightarrow> kernel \<Rightarrow> (rt_err_t \<times> kernel) option" where
  "rt_thread_init_block t name entry texit parameter stack_start stack_size priority tick k =
     do { tq \<leftarrow> ls_init_node t (tlist k);
          let k = k\<lparr>tlist := tq\<rparr>;
          let k = upd_thr t (\<lambda>th. th\<lparr>th_entry := entry, th_parameter := parameter,
            th_stack_addr := stack_start, th_stack_size := stack_size,
            th_stack_guard := if stack_size = 0 then th_stack_guard th else 35,
            th_sp := fst (rt_hw_stack_init entry parameter (stack_start + stack_size - 4) texit)\<rparr>) k;
          RT_ASSERT (unat priority < RT_THREAD_PRIORITY_MAX);
          let k = upd_thr t (\<lambda>th. th\<lparr>th_init_priority := priority, th_current_priority := priority,
            th_number_mask := 0, th_init_tick := tick, th_remaining_tick := tick,
            th_error := RT_EOK, th_stat := RT_THREAD_INIT, th_cleanup := None\<rparr>) k;
          k \<leftarrow> rt_timer_init (ThreadTimer t) (ob_name (objs k (OThread t))) (Fn_thread_timeout t) 0 0 k;
          Some (RT_EOK, k) }"

definition rt_thread_init ::
  "nat \<Rightarrow> u8 list \<Rightarrow> u32 \<Rightarrow> u32 \<Rightarrow> u32 \<Rightarrow> u32 \<Rightarrow> u32 \<Rightarrow> u8 \<Rightarrow> u32 \<Rightarrow> kernel \<Rightarrow> (rt_err_t \<times> kernel) option" where
  "rt_thread_init t name entry texit parameter stack_start stack_size priority tick k =
     do { RT_ASSERT (stack_start \<noteq> 0);
          k \<leftarrow> rt_object_init (OThread t) RT_Object_Class_Thread name k;
          rt_thread_init_block t name entry texit parameter stack_start stack_size priority tick k }"

text \<open>The blocks the two \<open>rt_malloc\<close> calls return are the arguments \<open>mem\<close> and \<open>stk\<close>.\<close>

definition rt_thread_create ::
  "nat option \<Rightarrow> u32 option \<Rightarrow> u8 list \<Rightarrow> u32 \<Rightarrow> u32 \<Rightarrow> u32 \<Rightarrow> u32 \<Rightarrow> u8 \<Rightarrow> u32 \<Rightarrow> kernel \<Rightarrow>
     (nat option \<times> kernel) option" where
  "rt_thread_create mem stk name entry texit parameter stack_size priority tick k =
     do { (x, k) \<leftarrow> rt_object_allocate (map_option OThread mem) RT_Object_Class_Thread name k;
          case x of
            Some (OThread t) \<Rightarrow>
              (case stk of
                 None \<Rightarrow> do { k \<leftarrow> rt_object_delete (OThread t) k; Some (None, k) }
               | Some stack_start \<Rightarrow>
                   do { (_, k) \<leftarrow> rt_thread_init_block t name entry texit parameter stack_start
                          stack_size priority tick k;
                        Some (Some t, k) })
          | _ \<Rightarrow> Some (None, k) }"

definition rt_thread_startup :: "nat \<Rightarrow> kernel \<Rightarrow> (rt_err_t \<times> kernel) option" where
  "rt_thread_startup t k =
     do { RT_ASSERT (stat_of (thr k t) = RT_THREAD_INIT);
          RT_ASSERT (rt_object_get_type (OThread t) k = of_nat RT_Object_Class_Thread);
          let k = upd_thr t (\<lambda>th. th\<lparr>th_current_priority := th_init_priority th\<rparr>) k;
          let k = upd_thr t (\<lambda>th. th\<lparr>th_number_mask := prio_mask (unat (th_current_priority th))\<rparr>) k;
          let k = upd_thr t (\<lambda>th. th\<lparr>th_stat := RT_THREAD_SUSPEND\<rparr>) k;
          (_, k) \<leftarrow> rt_thread_resume t k;
          k \<leftarrow> (if rt_thread_self k \<noteq> None then rt_schedule k else Some k);
          Some (RT_EOK, k) }"

subsection \<open>The end of a thread\<close>

definition rt_thread_exit :: "kernel \<Rightarrow> kernel option" where
  "rt_thread_exit k =
     do { thread \<leftarrow> rt_thread_self k;
          k \<leftarrow> rt_schedule_remove_thread thread k;
          let k = upd_thr thread (\<lambda>th. th\<lparr>th_stat := RT_THREAD_CLOSE\<rparr>) k;
          (_, k) \<leftarrow> rt_timer_detach (ThreadTimer thread) k;
          k \<leftarrow> (if rt_object_is_systemobject (OThread thread) k \<and> th_cleanup (thr k thread) = None
               then Some (rt_object_detach (OThread thread) k)
               else do { tq \<leftarrow> ls_push_front Defunct thread (tlist k); Some (k\<lparr>tlist := tq\<rparr>) });
          rt_schedule k }"

definition rt_thread_detach :: "nat \<Rightarrow> kernel \<Rightarrow> (rt_err_t \<times> kernel) option" where
  "rt_thread_detach t k =
     do { RT_ASSERT (rt_object_get_type (OThread t) k = of_nat RT_Object_Class_Thread);
          RT_ASSERT (rt_object_is_systemobject (OThread t) k);
          k \<leftarrow> (if stat_of (thr k t) \<noteq> RT_THREAD_INIT then rt_schedule_remove_thread t k else Some k);
          (_, k) \<leftarrow> rt_timer_detach (ThreadTimer t) k;
          let k = upd_thr t (\<lambda>th. th\<lparr>th_stat := RT_THREAD_CLOSE\<rparr>) k;
          let k = rt_object_detach (OThread t) k;
          if th_cleanup (thr k t) \<noteq> None
          then do { tq \<leftarrow> ls_push_front Defunct t (tlist k); Some (RT_EOK, k\<lparr>tlist := tq\<rparr>) }
          else Some (RT_EOK, k) }"

definition rt_thread_delete :: "nat \<Rightarrow> kernel \<Rightarrow> (rt_err_t \<times> kernel) option" where
  "rt_thread_delete t k =
     do { RT_ASSERT (rt_object_get_type (OThread t) k = of_nat RT_Object_Class_Thread);
          RT_ASSERT (\<not> rt_object_is_systemobject (OThread t) k);
          k \<leftarrow> (if stat_of (thr k t) \<noteq> RT_THREAD_INIT then rt_schedule_remove_thread t k else Some k);
          (_, k) \<leftarrow> rt_timer_detach (ThreadTimer t) k;
          let k = upd_thr t (\<lambda>th. th\<lparr>th_stat := RT_THREAD_CLOSE\<rparr>) k;
          tq \<leftarrow> ls_push_front Defunct t (tlist k);
          Some (RT_EOK, k\<lparr>tlist := tq\<rparr>) }"

subsection \<open>Giving up the processor\<close>

definition rt_thread_yield :: "kernel \<Rightarrow> (rt_err_t \<times> kernel) option" where
  "rt_thread_yield k = do { k \<leftarrow> rt_schedule k; Some (RT_EOK, k) }"

definition rt_thread_sleep :: "u32 \<Rightarrow> kernel \<Rightarrow> kernel option" where
  "rt_thread_sleep tick k =
     do { thread \<leftarrow> rt_thread_self k;
          RT_ASSERT (rt_object_get_type (OThread thread) k = of_nat RT_Object_Class_Thread);
          (_, k) \<leftarrow> rt_thread_suspend thread k;
          k \<leftarrow> arm_timer thread tick k;
          rt_schedule k }"

definition rt_thread_sleep_end :: "nat \<Rightarrow> kernel \<Rightarrow> rt_err_t \<times> kernel" where
  "rt_thread_sleep_end thread k =
     (RT_EOK, if th_error (thr k thread) = - RT_ETIMEOUT
              then upd_thr thread (\<lambda>th. th\<lparr>th_error := RT_EOK\<rparr>) k else k)"

definition rt_thread_delay :: "u32 \<Rightarrow> kernel \<Rightarrow> kernel option" where
  "rt_thread_delay tick k = rt_thread_sleep tick k"

definition rt_thread_mdelay :: "int \<Rightarrow> kernel \<Rightarrow> kernel option" where
  "rt_thread_mdelay ms k =
     do { tick \<leftarrow> rt_tick_from_millisecond ms; rt_thread_sleep (word_of_int tick) k }"

subsection \<open>Control and search\<close>

datatype th_cmd = RT_THREAD_CTRL_STARTUP | RT_THREAD_CTRL_CLOSE | RT_THREAD_CTRL_CHANGE_PRIORITY u8
  | TH_CMD_OTHER int

text \<open>A shift by 32 or more is undefined.\<close>

definition shift_mask :: "u8 \<Rightarrow> u32 option" where
  "shift_mask p = (if unat p < 32 then Some (prio_mask (unat p)) else None)"

definition rt_thread_control :: "nat \<Rightarrow> th_cmd \<Rightarrow> kernel \<Rightarrow> (rt_err_t \<times> kernel) option" where
  "rt_thread_control t cmd k =
     do { RT_ASSERT (rt_object_get_type (OThread t) k = of_nat RT_Object_Class_Thread);
          case cmd of
            RT_THREAD_CTRL_CHANGE_PRIORITY prio \<Rightarrow>
              if stat_of (thr k t) = RT_THREAD_READY
              then do { k \<leftarrow> rt_schedule_remove_thread t k;
                        m \<leftarrow> shift_mask prio;
                        let k = upd_thr t (\<lambda>th. th\<lparr>th_current_priority := prio, th_number_mask := m\<rparr>) k;
                        k \<leftarrow> rt_schedule_insert_thread t k;
                        Some (RT_EOK, k) }
              else do { m \<leftarrow> shift_mask prio;
                        Some (RT_EOK, upd_thr t (\<lambda>th. th\<lparr>th_current_priority := prio, th_number_mask := m\<rparr>) k) }
          | RT_THREAD_CTRL_STARTUP \<Rightarrow> rt_thread_startup t k
          | RT_THREAD_CTRL_CLOSE \<Rightarrow> rt_thread_delete t k
          | TH_CMD_OTHER _ \<Rightarrow> Some (RT_EOK, k) }"

text \<open>The loop over an object list of \<open>rt_object_find\<close> and \<open>rt_thread_find\<close>.\<close>

fun find_by_name :: "(oid \<Rightarrow> u8 list) \<Rightarrow> u8 list \<Rightarrow> oid list \<Rightarrow> oid option option" where
  "find_by_name nm name [] = Some None"
| "find_by_name nm name (x # xs) =
     do { r \<leftarrow> rt_strncmp (nm x) name RT_NAME_MAX;
          if r = 0 then Some (Some x) else find_by_name nm name xs }"

definition rt_object_find :: "u8 list option \<Rightarrow> nat \<Rightarrow> kernel \<Rightarrow> (oid option \<times> kernel) option" where
  "rt_object_find name cls k =
     (case name of
        None \<Rightarrow> Some (None, k)
      | Some name \<Rightarrow>
          if cls > RT_Object_Class_Unknown then Some (None, k)
          else do { RT_DEBUG_NOT_IN_INTERRUPT k;
                    let k = rt_enter_critical k;
                    information \<leftarrow> rt_object_get_information cls;
                    r \<leftarrow> find_by_name (\<lambda>x. ob_name (objs k x)) name (ls_q (olist k) information);
                    k \<leftarrow> rt_exit_critical k;
                    Some (r, k) })"

definition rt_thread_find :: "u8 list \<Rightarrow> kernel \<Rightarrow> (oid option \<times> kernel) option" where
  "rt_thread_find name k =
     do { let k = (if rt_thread_self k \<noteq> None then rt_enter_critical k else k);
          information \<leftarrow> rt_object_get_information RT_Object_Class_Thread;
          r \<leftarrow> find_by_name (\<lambda>x. ob_name (objs k x)) name (ls_q (olist k) information);
          k \<leftarrow> (if rt_thread_self k \<noteq> None then rt_exit_critical k else Some k);
          Some (r, k) }"

subsection \<open>Effects on a well-formed kernel\<close>

lemma suspend_ok:
  assumes k: "kinv k" "rt_current_thread k = Some c" and s: "stat_of (thr k c) = 1"
  shows "\<exists>k'. rt_thread_suspend c k = Some (0, k') \<and> kinv k' \<and> ipc_frame k k' \<and>
    thr k' = (thr k)(c := set_stat 2 (thr k c)) \<and> tlist k' = tlist k \<and>
    rt_ready_group k' = rt_ready_group k \<and> rt_current_thread k' = Some c \<and>
    alive k' c \<and> stat_of (thr k' c) = 2 \<and> ls_in (tlist k') c = None \<and>
    tmr k' = tmr k \<and> ls_in (tmlist k') (ThreadTimer c) = None"
proof -
  note u = current_unlinked[OF k s]
  let ?k1 = "upd_thr c (set_stat 2) k"
  have k1: "kinv ?k1" by (rule kinv_suspend_current[OF k s])
  have p: "unat (th_current_priority (thr ?k1 c)) < 32" using kinv_alive(1)[OF k(1) u(2)] by simp
  have m: "th_number_mask (thr k c) = prio_mask (prio_of k c)" using kinv_alive(4)[OF k(1) u(2)] s by simp
  have "\<not> bit (rt_ready_group k) (prio_of k c)" if "ls_q (tlist k) (Ready (prio_of k c)) = []"
    using that kinvD(4)[OF k(1)] by (auto simp: group_ok_def)
  then have "rt_ready_group k AND NOT (prio_mask (prio_of k c)) = rt_ready_group k"
    if "ls_q (tlist k) (Ready (prio_of k c)) = []"
    using that by (auto intro!: bit_word_eqI simp: bit_and_not_single)
  then have r: "rt_schedule_remove_thread c ?k1 = Some ?k1"
    using remove_thread_Some[OF p] u(1) m by auto
  have a1: "alive ?k1 c" using u(2) by (simp add: alive_def rt_object_get_type_def)
  obtain rr obs M where st: "rt_timer_stop (ThreadTimer c) ?k1 = Some (rr, ?k1\<lparr>objs := obs, tmlist := M\<rparr>)"
    "kinv (?k1\<lparr>objs := obs, tmlist := M\<rparr>)" "\<forall>x. x \<noteq> OTimer (ThreadTimer c) \<longrightarrow> obs x = objs k x"
    "M = ls_remove (ThreadTimer c) (tmlist k)"
    using timer_stop_ok[OF k1 a1] by auto
  let ?k2 = "?k1\<lparr>objs := obs, tmlist := M\<rparr>"
  have "rt_thread_suspend c k = Some (0, ?k2)"
    using u(2) s k(2) r st(1) by (simp add: rt_thread_suspend_def alive_def rt_thread_self_def Let_def)
  moreover have "ipc_frame k ?k2" using st(3) by (simp add: ipc_frame_def)
  moreover have "alive ?k2 c" using u(2) st(3) by (simp add: alive_def rt_object_get_type_def)
  ultimately show ?thesis using st(2,4) u(1) k(2) by (intro exI[of _ ?k2]) auto
qed

lemma resume_ok:
  assumes k: "kinv k" and t: "alive k t" "stat_of (thr k t) = 2"
  shows "\<exists>k'. rt_thread_resume t k = Some (0, k') \<and> kinv k' \<and> ipc_frame k k' \<and>
    thr k' = (thr k)(t := set_stat 1 (thr k t)) \<and> rt_current_thread k' = rt_current_thread k \<and>
    (\<forall>q. ls_q (tlist k') q = remove1 t (ls_q (tlist k) q) @
       (if rt_current_thread k \<noteq> Some t \<and> q = Ready (prio_of k t) then [t] else []))"
proof -
  let ?k1 = "k\<lparr>tlist := ls_remove t (tlist k)\<rparr>"
  have k1: "kinv ?k1" by (rule kinv_unlink[OF k t(2)])
  have a1: "alive ?k1 t" using t(1) by (simp add: alive_def rt_object_get_type_def)
  obtain rr obs M where st: "rt_timer_stop (ThreadTimer t) ?k1 = Some (rr, ?k1\<lparr>objs := obs, tmlist := M\<rparr>)"
    "kinv (?k1\<lparr>objs := obs, tmlist := M\<rparr>)" "M = ls_remove (ThreadTimer t) (tmlist k)"
    "\<forall>x. x \<noteq> OTimer (ThreadTimer t) \<longrightarrow> obs x = objs k x"
    using timer_stop_ok[OF k1 a1] t(2) by auto
  let ?k2 = "?k1\<lparr>objs := obs, tmlist := M\<rparr>"
  have a2: "alive ?k2 t" using t(1) st(4) by (simp add: alive_def rt_object_get_type_def)
  obtain L g where i: "rt_schedule_insert_thread t ?k2 =
      Some ((upd_thr t (set_stat 1) ?k2)\<lparr>tlist := L, rt_ready_group := g\<rparr>)"
    "kinv ((upd_thr t (set_stat 1) ?k2)\<lparr>tlist := L, rt_ready_group := g\<rparr>)"
    "\<forall>q. ls_q L q = ls_q (ls_remove t (tlist k)) q @
       (if rt_current_thread k \<noteq> Some t \<and> q = Ready (prio_of k t) then [t] else [])"
    using kinv_insert_thread[OF st(2) a2] t(2) st(3) by auto
  let ?k3 = "(upd_thr t (set_stat 1) ?k2)\<lparr>tlist := L, rt_ready_group := g\<rparr>"
  have "rt_thread_resume t k = Some (0, ?k3)"
    using t st(1) i(1) by (simp add: rt_thread_resume_def alive_def)
  moreover have "ipc_frame k ?k3" using st(4) by (simp add: ipc_frame_def)
  ultimately show ?thesis using i(2,3) by (intro exI[of _ ?k3]) (auto simp: ls_q_remove[OF kinvD(2)[OF k]])
qed

lemma timeout_ok:
  assumes k: "kinv k" "rt_current_thread k = Some c" and t: "alive k t" "stat_of (thr k t) = 2"
    and tm: "ls_in (tmlist k) (ThreadTimer t) = None"
  shows "\<exists>k1 k'. rt_thread_timeout t k = Some k' \<and> rt_schedule k1 = Some k' \<and> kinv k1 \<and> kinv k' \<and>
    ipc_frame k k1 \<and> sched_frame k1 k' \<and> rt_current_thread k1 = Some c \<and>
    thr k1 = (thr k)(t := set_stat 1 ((thr k t)\<lparr>th_error := - 2\<rparr>)) \<and>
    tmr k1 = tmr k \<and> tmlist k1 = tmlist k \<and> objs k1 = objs k \<and>
    (\<forall>q. ls_q (tlist k1) q = remove1 t (ls_q (tlist k) q) @
       (if c \<noteq> t \<and> q = Ready (prio_of k t) then [t] else []))"
proof -
  let ?k1 = "upd_thr t (\<lambda>th. th\<lparr>th_error := - 2\<rparr>) k"
  have k1: "kinv ?k1" using kinv_thr_same[OF k(1)] by simp
  let ?k2 = "?k1\<lparr>tlist := ls_remove t (tlist k)\<rparr>"
  have k2: "kinv ?k2" using kinv_unlink[OF k1, of t] t(2) by simp
  have a2: "alive ?k2 t" using t(1) by (simp add: alive_def rt_object_get_type_def)
  obtain L g where i: "rt_schedule_insert_thread t ?k2 =
      Some ((upd_thr t (set_stat 1) ?k2)\<lparr>tlist := L, rt_ready_group := g\<rparr>)"
    "kinv ((upd_thr t (set_stat 1) ?k2)\<lparr>tlist := L, rt_ready_group := g\<rparr>)"
    "\<forall>q. ls_q L q = ls_q (ls_remove t (tlist k)) q @
       (if rt_current_thread k \<noteq> Some t \<and> q = Ready (prio_of k t) then [t] else [])"
    using kinv_insert_thread[OF k2 a2] t(2) tm by auto
  let ?k3 = "(upd_thr t (set_stat 1) ?k2)\<lparr>tlist := L, rt_ready_group := g\<rparr>"
  obtain k' where s: "rt_schedule ?k3 = Some k'" "kinv k'" "sched_frame ?k3 k'"
    using schedule_ok[OF i(2), of c] k(2) by auto
  have "rt_thread_timeout t k = Some k'"
    using t i(1) s(1) by (simp add: rt_thread_timeout_def alive_def)
  moreover have "ipc_frame k ?k3" by (simp add: ipc_frame_def)
  ultimately show ?thesis using i(2,3) s k(2)
    by (intro exI[of _ ?k3] exI[of _ k']) (auto simp: ls_q_remove[OF kinvD(2)[OF k(1)]])
qed

lemma sleep_ok:
  assumes k: "kinv k" "rt_current_thread k = Some c" and s: "stat_of (thr k c) = 1"
    and n: "n < 0x7fffffff"
  shows "\<exists>k1 k'. rt_thread_sleep n k = Some k' \<and> rt_schedule k1 = Some k' \<and> kinv k1 \<and> kinv k' \<and>
    ipc_frame k k1 \<and> sched_frame k1 k' \<and> rt_current_thread k1 = Some c \<and>
    thr k1 = (thr k)(c := set_stat 2 (thr k c)) \<and> tlist k1 = tlist k \<and>
    ls_in (tmlist k1) (ThreadTimer c) = Some () \<and>
    tm_timeout_tick (tmr k1 (ThreadTimer c)) = rt_tick k + n"
proof -
  obtain k0 where k0: "rt_thread_suspend c k = Some (0, k0)" "kinv k0" "ipc_frame k k0"
    "thr k0 = (thr k)(c := set_stat 2 (thr k c))" "tlist k0 = tlist k"
    "rt_current_thread k0 = Some c" "alive k0 c" "stat_of (thr k0 c) = 2"
    using suspend_ok[OF k s] by blast
  obtain k1 where k1: "arm_timer c n k0 = Some k1" "kinv k1" "ipc_frame k0 k1" "thr k1 = thr k0"
    "tlist k1 = tlist k0" "rt_current_thread k1 = rt_current_thread k0"
    "ls_in (tmlist k1) (ThreadTimer c) = Some ()" "tm_timeout_tick (tmr k1 (ThreadTimer c)) = rt_tick k0 + n"
    using arm_timer_ok[OF k0(2,7,8) n] by blast
  obtain k' where s': "rt_schedule k1 = Some k'" "kinv k'" "sched_frame k1 k'"
    using schedule_ok[OF k1(2), of c] k1(6) k0(6) by auto
  have al: "alive k c" using current_unlinked(2)[OF k s] .
  have "rt_thread_sleep n k = Some k'"
    using k(2) al k0(1) k1(1) s'(1) by (simp add: rt_thread_sleep_def rt_thread_self_def alive_def)
  moreover have "rt_tick k0 = rt_tick k" using k0(3) by (simp add: ipc_frame_def)
  ultimately show ?thesis
    using s' k1 k0 ipc_frame_trans[OF k0(3) k1(3)] by (intro exI[of _ k1] exI[of _ k']) simp
qed

text \<open>The control block after a change of priority.\<close>

definition with_prio :: "u8 \<Rightarrow> rt_thread \<Rightarrow> rt_thread" where
  "with_prio p th = th\<lparr>th_current_priority := p, th_number_mask := prio_mask (unat p)\<rparr>"

lemma with_prio_simps [simp]:
  "stat_of (with_prio p th) = stat_of th" "th_current_priority (with_prio p th) = p"
  "th_number_mask (with_prio p th) = prio_mask (unat p)"
  "th_init_priority (with_prio p th) = th_init_priority th"
  "stack_ok (with_prio p th) = stack_ok th" "th_error (with_prio p th) = th_error th"
  by (simp_all add: with_prio_def stat_of_def stack_ok_def)

lemma th_inv_prio:
  assumes "th_inv l c q th m f ob t" "unat p < 32"
    "\<And>r. q' = Some (Ready r) \<Longrightarrow> (\<exists>r'. q = Some (Ready r')) \<and> r = unat p"
    "(\<forall>r. q' \<noteq> Some (Ready r)) \<Longrightarrow> q' = q"
  shows "th_inv l c q' (with_prio p th) m f ob t"
proof (cases "\<exists>r. q' = Some (Ready r)")
  case True
  then obtain r r' where r: "q' = Some (Ready r)" "r = unat p" "q = Some (Ready r')"
    using assms(3) by blast
  then show ?thesis using assms(1,2) by (simp add: th_inv_def) auto
next
  case False
  then have "q' = q" using assms(4) by blast
  then show ?thesis using assms(1,2) False by (simp add: th_inv_def)
qed

lemma change_priority_ok:
  assumes k: "kinv k" and t: "alive k t" and p: "unat p < 32"
  shows "\<exists>k'. rt_thread_control t (RT_THREAD_CTRL_CHANGE_PRIORITY p) k = Some (0, k') \<and> kinv k' \<and>
    ipc_frame k k' \<and> thr k' = (thr k)(t := with_prio p (thr k t)) \<and> tmr k' = tmr k \<and>
    tmlist k' = tmlist k \<and> objs k' = objs k \<and> rt_current_thread k' = rt_current_thread k \<and>
    (\<forall>q. (\<forall>r. q \<noteq> Ready r) \<longrightarrow> ls_q (tlist k') q = ls_q (tlist k) q) \<and>
    (stat_of (thr k t) = 1 \<and> rt_current_thread k \<noteq> Some t \<longrightarrow>
      (\<forall>q. ls_q (tlist k') q = remove1 t (ls_q (tlist k) q) @ (if q = Ready (unat p) then [t] else [])))"
proof -
  have ty: "rt_object_get_type (OThread t) k = 1" using t by (simp add: alive_def)
  have m: "shift_mask p = Some (prio_mask (unat p))" using p by (simp add: shift_mask_def)
  let ?th = "with_prio p (thr k t)"
  have base: "kinv (k\<lparr>objs := objs k, olist := olist k, thr := (thr k)(t := ?th), tlist := L, tmr := tmr k,
      tmlist := tmlist k, rt_ready_group := g\<rparr>)"
    if "ls_inv L" "group_ok g L" "\<And>x. x \<noteq> t \<Longrightarrow> ls_in L x = ls_in (tlist k) x"
      "\<And>r. ls_in L t = Some (Ready r) \<Longrightarrow> (\<exists>r'. ls_in (tlist k) t = Some (Ready r')) \<and> r = unat p"
      "(\<forall>r. ls_in L t \<noteq> Some (Ready r)) \<Longrightarrow> ls_in L t = ls_in (tlist k) t" for L g
  proof -
    have "th_inv (alive k t) (rt_current_thread k = Some t) (ls_in L t) ?th
        (ls_in (tmlist k) (ThreadTimer t) \<noteq> None) (tm_timeout_func (tmr k (ThreadTimer t)))
        (objs k (OTimer (ThreadTimer t))) t"
      by (rule th_inv_prio[OF kinvD(5)[OF k, of t, unfolded thread_inv_def] p]) (use that in blast)+
    then show ?thesis
      by (intro kinv_one_thread[OF k that(1) kinvD(3)[OF k] that(2)])
        (use that(3) kinvD(1)[OF k] in \<open>simp_all add: alive_def rt_object_get_type_def\<close>)
  qed
  show ?thesis
  proof (cases "stat_of (thr k t) = 1 \<and> rt_current_thread k \<noteq> Some t")
    case True
    let ?q = "prio_of k t"
    have lin: "ls_in (tlist k) t = Some (Ready ?q)" using kinv_ready_iff[OF k t] True by blast
    note a = kinv_alive[OF k t]
    have mk: "th_number_mask (thr k t) = prio_mask ?q" using a(4) True by simp
    let ?L1 = "ls_remove t (tlist k)"
    let ?g1 = "if ls_q ?L1 (Ready ?q) = [] then rt_ready_group k AND NOT (prio_mask ?q) else rt_ready_group k"
    have g1: "group_ok ?g1 ?L1"
      by (rule group_ok_remove[OF kinvD(4)[OF k] kinvD(2)[OF k]]) (use lin in auto)
    have i1: "ls_inv ?L1" using kinvD(2)[OF k] by simp
    obtain L where L: "ls_push_back (Ready (unat p)) t ?L1 = Some L" by (auto simp: ls_push_back_def)
    let ?g = "?g1 OR prio_mask (unat p)"
    have g: "group_ok ?g L" by (rule group_ok_push[OF g1 L p])
    let ?k' = "k\<lparr>objs := objs k, olist := olist k, thr := (thr k)(t := ?th), tlist := L, tmr := tmr k,
      tmlist := tmlist k, rt_ready_group := ?g\<rparr>"
    have "rt_thread_control t (RT_THREAD_CTRL_CHANGE_PRIORITY p) k = Some (0, ?k')"
      using True ty m mk L p set_stat_same[of ?th 1]
      by (auto simp: rt_thread_control_def remove_thread_Some[OF a(1)] rt_schedule_insert_thread_def
          with_prio_def Let_def)
    moreover have "kinv ?k'"
      by (rule base[OF ls_inv_push_back[OF i1 L] g]) (use L lin in \<open>auto simp: ls_push_back_Some\<close>)
    moreover have q: "ls_q L q = remove1 t (ls_q (tlist k) q) @ (if q = Ready (unat p) then [t] else [])" for q
      using L by (auto simp: ls_push_back_Some ls_q_remove[OF kinvD(2)[OF k]])
    moreover have "ls_q L q = ls_q (tlist k) q" if "\<forall>r. q \<noteq> Ready r" for q
      using q[of q] that lin ls_in_iff[OF kinvD(2)[OF k], of t q] by (auto simp: remove1_idem)
    ultimately show ?thesis by (intro exI[of _ ?k']) (auto simp: ipc_frame_def)
  next
    case False
    let ?k' = "k\<lparr>objs := objs k, olist := olist k, thr := (thr k)(t := ?th), tlist := tlist k, tmr := tmr k,
      tmlist := tmlist k, rt_ready_group := rt_ready_group k\<rparr>"
    have nr: "ls_in (tlist k) t \<noteq> Some (Ready r)" for r
      using False kinvD(5)[OF k, of t] by (auto simp: thread_inv_def th_inv_def)
    have "rt_thread_control t (RT_THREAD_CTRL_CHANGE_PRIORITY p) k = Some (0, ?k')"
    proof (cases "stat_of (thr k t) = 1")
      case s: True
      then have c: "rt_current_thread k = Some t" using False by simp
      note u = current_unlinked[OF k c s]
      note a = kinv_alive[OF k t]
      have mk: "th_number_mask (thr k t) = prio_mask (prio_of k t)" using a(4) s by simp
      have "\<not> bit (rt_ready_group k) (prio_of k t)" if "ls_q (tlist k) (Ready (prio_of k t)) = []"
        using that kinvD(4)[OF k] by (auto simp: group_ok_def)
      then have "rt_ready_group k AND NOT (prio_mask (prio_of k t)) = rt_ready_group k"
        if "ls_q (tlist k) (Ready (prio_of k t)) = []"
        using that by (auto intro!: bit_word_eqI simp: bit_and_not_single)
      then have "rt_schedule_remove_thread t k = Some k"
        using remove_thread_Some[OF a(1)] u(1) mk by auto
      then show ?thesis using s ty m c set_stat_same[of ?th 1]
        by (auto simp: rt_thread_control_def rt_schedule_insert_thread_def with_prio_def Let_def)
    next
      case s: False
      then show ?thesis using ty m by (simp add: rt_thread_control_def with_prio_def)
    qed
    moreover have "kinv ?k'"
      by (rule base[OF kinvD(2)[OF k] kinvD(4)[OF k]]) (use nr in auto)
    ultimately show ?thesis using False by (intro exI[of _ ?k']) (auto simp: ipc_frame_def)
  qed
qed

lemma remove_any_ok:
  assumes k: "kinv k" and t: "alive k t" "stat_of (thr k t) \<noteq> 0" "stat_of (thr k t) \<noteq> 4"
  shows "\<exists>g. rt_schedule_remove_thread t k =
      Some (k\<lparr>tlist := ls_remove t (tlist k), rt_ready_group := g\<rparr>) \<and>
    group_ok g (ls_remove t (tlist k))"
proof -
  note a = kinv_alive[OF k t(1)]
  have "q = prio_of k t" if "ls_in (tlist k) t = Some (Ready q)" for q
    using that kinvD(5)[OF k, of t] by (auto simp: thread_inv_def th_inv_def)
  from group_ok_remove[OF kinvD(4)[OF k] kinvD(2)[OF k], of t, OF this]
  show ?thesis unfolding remove_thread_Some[OF a(1)] a(4)[OF t(2,3)] by (intro exI conjI) (rule refl)
qed

lemma init_unlinked:
  assumes "kinv k" "alive k t" "stat_of (thr k t) = 0"
  shows "ls_in (tlist k) t = None" "rt_current_thread k \<noteq> Some t"
    "ls_in (tmlist k) (ThreadTimer t) = None"
proof -
  note i = kinvD(5)[OF assms(1), of t, unfolded thread_inv_def th_inv_def]
  show "rt_current_thread k \<noteq> Some t" using i assms(3) by auto
  show "ls_in (tmlist k) (ThreadTimer t) = None"
    using kinv_timer_linked(2)[OF assms(1), of t] assms(3) by (cases "ls_in (tmlist k) (ThreadTimer t)") simp_all
  show "ls_in (tlist k) t = None"
  proof (cases "ls_in (tlist k) t")
    case (Some q)
    then show ?thesis using i assms(3) by (cases q) auto
  qed
qed

lemma startup_ok:
  assumes k: "kinv k" and t: "alive k t" "stat_of (thr k t) = 0"
  shows "\<exists>k1 k'. rt_thread_startup t k = Some (0, k') \<and> kinv k1 \<and> kinv k' \<and> ipc_frame k k1 \<and>
    stat_of (thr k1 t) = 1 \<and> prio_of k1 t = unat (th_init_priority (thr k t)) \<and>
    (\<forall>x. x \<noteq> t \<longrightarrow> thr k1 x = thr k x) \<and> rt_current_thread k1 = rt_current_thread k \<and>
    t \<in> set (ls_q (tlist k1) (Ready (prio_of k1 t))) \<and>
    (if rt_current_thread k = None then k' = k1 else rt_schedule k1 = Some k' \<and> sched_frame k1 k')"
proof -
  note u = init_unlinked[OF k t]
  let ?p = "th_init_priority (thr k t)"
  let ?th = "(thr k t)\<lparr>th_current_priority := ?p, th_number_mask := prio_mask (unat ?p), th_stat := 2\<rparr>"
  let ?k0 = "k\<lparr>thr := (thr k)(t := ?th)\<rparr>"
  have s2: "stat_of ?th = 2" by (simp add: stat_of_def)
  have st: "stack_ok ?th = stack_ok (thr k t)" by (simp add: stack_ok_def)
  have "thread_inv ?k0 x" for x
    using kinvD(5)[OF k, of x] t u s2 st
    by (auto simp: thread_inv_def th_inv_def alive_def rt_object_get_type_def simp del: stat_of_update)
  then have k0: "kinv ?k0" using kinvD[OF k] by (auto simp: kinv_def obj_inv_def)
  have a0: "alive ?k0 t" "stat_of (thr ?k0 t) = 2" using t(1) s2
    by (simp_all add: alive_def rt_object_get_type_def)
  obtain k1 where k1: "rt_thread_resume t ?k0 = Some (0, k1)" "kinv k1" "ipc_frame ?k0 k1"
    "thr k1 = (thr ?k0)(t := set_stat 1 (thr ?k0 t))" "rt_current_thread k1 = rt_current_thread ?k0"
    "\<forall>q. ls_q (tlist k1) q = remove1 t (ls_q (tlist ?k0) q) @
       (if rt_current_thread ?k0 \<noteq> Some t \<and> q = Ready (prio_of ?k0 t) then [t] else [])"
    using resume_ok[OF k0 a0] by blast
  have fr: "ipc_frame k k1" using k1(3) by (simp add: ipc_frame_def)
  have start: "rt_thread_startup t k = (if rt_current_thread k \<noteq> None
      then do { k \<leftarrow> rt_schedule k1; Some (0, k) } else Some (0, k1))"
    using t k1(1,5) by (simp add: rt_thread_startup_def alive_def rt_thread_self_def Let_def)
  have th1: "stat_of (thr k1 t) = 1" "prio_of k1 t = unat ?p" "\<forall>x. x \<noteq> t \<longrightarrow> thr k1 x = thr k x"
    "rt_current_thread k1 = rt_current_thread k"
    "t \<in> set (ls_q (tlist k1) (Ready (prio_of k1 t)))"
    using k1(4,5,6) u(2) by auto
  show ?thesis
  proof (cases "rt_current_thread k")
    case None
    then show ?thesis using start k1(2) fr th1 by (intro exI[of _ k1] exI[of _ k1]) auto
  next
    case (Some c)
    obtain k' where "rt_schedule k1 = Some k'" "kinv k'" "sched_frame k1 k'"
      using schedule_ok[OF k1(2), of c] k1(5) Some by auto
    then show ?thesis using start k1(2) fr th1 Some by (intro exI[of _ k1] exI[of _ k']) auto
  qed
qed

text \<open>The state of a thread that has ended, before its object and list node are dealt with.\<close>

lemma close_inv:
  assumes k: "kinv k" and t: "alive k t" and L: "ls_inv L" "group_ok g L"
    "\<And>x. x \<noteq> t \<Longrightarrow> ls_in L x = ls_in (tlist k) x" "ls_in L t = None \<or> ls_in L t = Some Defunct"
    and o1: "obj_inv (k\<lparr>objs := obs, olist := OL\<rparr>)"
    and o2: "\<And>x. x \<noteq> OThread t \<Longrightarrow> x \<noteq> OTimer (ThreadTimer t) \<Longrightarrow> obs x = objs k x"
    and o3: "obs (OThread t) = objs k (OThread t) \<or> ob_type (obs (OThread t)) = 0"
  shows "kinv (k\<lparr>objs := obs, olist := OL, thr := (thr k)(t := (thr k t)\<lparr>th_stat := 4\<rparr>), tlist := L,
    tmr := tmr k, tmlist := ls_remove (ThreadTimer t) (tmlist k), rt_ready_group := g\<rparr>)"
proof (rule kinv_one_thread[OF k L(1) ls_inv_remove[OF kinvD(3)[OF k]] L(2,3) _ _ o1])
  have s: "stat_of ((thr k t)\<lparr>th_stat := 4\<rparr>) = 4" by (simp add: stat_of_def)
  have st: "stack_ok ((thr k t)\<lparr>th_stat := 4\<rparr>)" "prio_of k t < 32" "unat (th_init_priority (thr k t)) < 32"
    using kinv_alive[OF k t] by (simp_all add: stack_ok_def)
  show "th_inv (ob_type (obs (OThread t)) AND NOT 0x80 = 1) (rt_current_thread k = Some t) (ls_in L t)
      ((thr k t)\<lparr>th_stat := 4\<rparr>) (ls_in (ls_remove (ThreadTimer t) (tmlist k)) (ThreadTimer t) \<noteq> None)
      (tm_timeout_func (tmr k (ThreadTimer t))) (obs (OTimer (ThreadTimer t))) t"
    unfolding th_inv_def s using L(4) o3 t st kinv_current(1)[OF k, of t]
    by (auto simp: alive_def rt_object_get_type_def s simp del: stat_of_update)
qed (use o2 in auto)

text \<open>The objects after the timer of a thread, and then the thread itself, is detached.\<close>

definition objs_closed :: "nat \<Rightarrow> bool \<Rightarrow> kernel \<Rightarrow> oid \<Rightarrow> rt_object" where
  "objs_closed t both k =
     (let o1 = (objs k)(OTimer (ThreadTimer t) := (objs k (OTimer (ThreadTimer t)))\<lparr>ob_type := 0\<rparr>)
      in if both then o1(OThread t := (o1 (OThread t))\<lparr>ob_type := 0\<rparr>) else o1)"

definition olist_closed :: "nat \<Rightarrow> bool \<Rightarrow> kernel \<Rightarrow> (nat, oid) lstore" where
  "olist_closed t both k =
     (let l1 = ls_remove (OTimer (ThreadTimer t)) (olist k)
      in if both then ls_remove (OThread t) l1 else l1)"

lemma objs_closed_inv:
  assumes "obj_inv k"
  shows "obj_inv (k\<lparr>objs := objs_closed t both k, olist := olist_closed t both k\<rparr>)"
proof -
  have "obj_inv (rt_object_detach (OTimer (ThreadTimer t)) k)"
    "obj_inv (rt_object_detach (OThread t) (rt_object_detach (OTimer (ThreadTimer t)) k))"
    using obj_inv_detach assms by blast+
  then show ?thesis
    by (simp add: obj_inv_def rt_object_detach_def objs_closed_def olist_closed_def Let_def)
qed

lemma objs_closed_simps:
  "x \<noteq> OThread t \<Longrightarrow> x \<noteq> OTimer (ThreadTimer t) \<Longrightarrow> objs_closed t both k x = objs k x"
  "objs_closed t False k (OThread t) = objs k (OThread t)"
  "ob_type (objs_closed t True k (OThread t)) = 0"
  by (auto simp: objs_closed_def Let_def)

text \<open>The state in which a thread has been closed: \<open>both\<close> if its object is detached, \<open>L\<close> its lists.\<close>

definition closed_state :: "nat \<Rightarrow> bool \<Rightarrow> (qid, nat) lstore \<Rightarrow> u32 \<Rightarrow> kernel \<Rightarrow> kernel" where
  "closed_state t both L g k = k\<lparr>objs := objs_closed t both k, olist := olist_closed t both k,
     thr := (thr k)(t := (thr k t)\<lparr>th_stat := 4\<rparr>), tlist := L, tmr := tmr k,
     tmlist := ls_remove (ThreadTimer t) (tmlist k), rt_ready_group := g\<rparr>"

lemma closed_state_inv:
  assumes k: "kinv k" "alive k t" and g: "group_ok g (ls_remove t (tlist k))"
    and L: "L = ls_remove t (tlist k) \<or> ls_push_front Defunct t (ls_remove t (tlist k)) = Some L"
  shows "kinv (closed_state t both L g k)"
  unfolding closed_state_def
proof (rule close_inv[OF k])
  show "ls_inv L"
    using L ls_inv_push_front[of "ls_remove t (tlist k)"] kinvD(2)[OF k(1)] by auto
  show "group_ok g L"
    using g L by (auto intro!: group_ok_other[OF g] simp: ls_push_front_Some)
  show "ls_in L x = ls_in (tlist k) x" if "x \<noteq> t" for x
    using L that by (auto simp: ls_push_front_Some)
  show "ls_in L t = None \<or> ls_in L t = Some Defunct"
    using L by (auto simp: ls_push_front_Some)
  show "obj_inv (k\<lparr>objs := objs_closed t both k, olist := olist_closed t both k\<rparr>)"
    by (rule objs_closed_inv[OF kinvD(1)[OF k(1)]])
  show "objs_closed t both k x = objs k x" if "x \<noteq> OThread t" "x \<noteq> OTimer (ThreadTimer t)" for x
    using that by (simp add: objs_closed_simps)
  show "objs_closed t both k (OThread t) = objs k (OThread t) \<or> ob_type (objs_closed t both k (OThread t)) = 0"
    by (cases both) (simp_all add: objs_closed_simps)
qed

lemma closing_fields [simp]:
  "tlist (rt_object_detach x k) = tlist k" "thr (rt_object_detach x k) = thr k"
  "tlist (rt_timer_remove tm k) = tlist k" "thr (rt_timer_remove tm k) = thr k"
  "objs (rt_timer_remove tm k) = objs k"
  by (simp_all add: rt_object_detach_def rt_timer_remove_def Let_def)

text \<open>The steps of the three functions that close a thread, up to the defunct list.\<close>

definition closing :: "nat \<Rightarrow> (qid, nat) lstore \<Rightarrow> u32 \<Rightarrow> kernel \<Rightarrow> kernel" where
  "closing t M g k = upd_thr t (\<lambda>th. th\<lparr>th_stat := 4\<rparr>)
     (rt_object_detach (OTimer (ThreadTimer t)) (rt_timer_remove (ThreadTimer t)
       (k\<lparr>tlist := M, rt_ready_group := g\<rparr>)))"

lemma closing_closed:
  "(closing t M g k)\<lparr>tlist := L\<rparr> = closed_state t False L g k"
  "(rt_object_detach (OThread t) (closing t M g k))\<lparr>tlist := L\<rparr> = closed_state t True L g k"
  "rt_object_detach (OThread t) (closing t M g k) = closed_state t True M g k"
  "(closed_state t b M g k)\<lparr>tlist := L\<rparr> = closed_state t b L g k"
  by (simp_all add: closing_def closed_state_def objs_closed_def olist_closed_def Let_def
      rt_object_detach_def rt_timer_remove_def)

lemma closing_simps [simp]:
  "tlist (closing t M g k) = M" "th_cleanup (thr (closing t M g k) t) = th_cleanup (thr k t)"
  "rt_object_is_systemobject (OThread t) (closing t M g k) = rt_object_is_systemobject (OThread t) k"
  by (simp_all add: closing_def rt_object_is_systemobject_def rt_object_detach_def Let_def)

lemma closing_step:
  assumes "timer_obj (ThreadTimer t) k" "rt_object_is_systemobject (OTimer (ThreadTimer t)) k"
  shows "rt_timer_detach (ThreadTimer t) (k\<lparr>tlist := M, rt_ready_group := g\<rparr>) =
      Some (0, rt_object_detach (OTimer (ThreadTimer t)) (rt_timer_remove (ThreadTimer t)
        (k\<lparr>tlist := M, rt_ready_group := g\<rparr>)))"
    "rt_timer_detach (ThreadTimer t)
        (upd_thr t (\<lambda>th. th\<lparr>th_stat := 4\<rparr>) (k\<lparr>tlist := M, rt_ready_group := g\<rparr>)) =
      Some (0, closing t M g k)"
  using assms
  by (simp_all add: rt_timer_detach_def closing_def timer_obj_def rt_object_get_type_def
      rt_object_is_systemobject_def rt_object_detach_def rt_timer_remove_def Let_def)

lemmas close_simps = of_nat_1 RT_ASSERT_simps simp_thms bind.bind_lunit prod.case if_True

lemma push_defunct:
  "\<exists>L. ls_push_front Defunct (t :: nat) (ls_remove t M) = Some L"
  by (simp add: ls_push_front_def)

text \<open>Removing a thread from its queue, whatever its state; an initial thread is in none.\<close>

lemma remove_unless_init:
  assumes "kinv k" "alive k t" "stat_of (thr k t) \<noteq> 4"
  shows "\<exists>g. (if stat_of (thr k t) \<noteq> 0 then rt_schedule_remove_thread t k else Some k) =
      Some (k\<lparr>tlist := ls_remove t (tlist k), rt_ready_group := g\<rparr>) \<and> group_ok g (ls_remove t (tlist k))"
proof (cases "stat_of (thr k t) = 0")
  case True
  then show ?thesis using init_unlinked(1)[OF assms(1,2)] kinvD(4)[OF assms(1)]
    by (intro exI[of _ "rt_ready_group k"]) simp
next
  case False
  then show ?thesis using remove_any_ok[OF assms(1,2) False assms(3)] by simp
qed

lemma thread_delete_ok:
  assumes k: "kinv k" "alive k t" "stat_of (thr k t) \<noteq> 4"
    and d: "\<not> rt_object_is_systemobject (OThread t) k"
  shows "\<exists>L g. rt_thread_delete t k = Some (0, closed_state t False L g k) \<and>
    kinv (closed_state t False L g k) \<and> ls_q L Defunct = t # remove1 t (ls_q (tlist k) Defunct)"
proof -
  note ty = kinv_timer[OF k]
  obtain g where g: "(if stat_of (thr k t) \<noteq> 0 then rt_schedule_remove_thread t k else Some k) =
      Some (k\<lparr>tlist := ls_remove t (tlist k), rt_ready_group := g\<rparr>)" "group_ok g (ls_remove t (tlist k))"
    using remove_unless_init[OF k] by (elim exE conjE)
  obtain L where L: "ls_push_front Defunct t (ls_remove t (tlist k)) = Some L" using push_defunct[of t "tlist k"] by (elim exE)
  have "rt_thread_delete t k = Some (0, closed_state t False L g k)"
    unfolding rt_thread_delete_def Let_def g(1)
    using k(2) d L
    by (simp only: alive_def closing_step[OF kinv_timer(1,2)[OF k]] close_simps closing_def[symmetric])
      (simp only: closing_simps bind.bind_lunit closing_closed)
  moreover have "ls_q L Defunct = t # remove1 t (ls_q (tlist k) Defunct)"
    using L by (auto simp: ls_push_front_Some ls_q_remove[OF kinvD(2)[OF k(1)]])
  ultimately show ?thesis using closed_state_inv[OF k(1,2) g(2)] L by blast
qed

lemma thread_detach_ok:
  assumes k: "kinv k" "alive k t" "stat_of (thr k t) \<noteq> 4"
    and d: "rt_object_is_systemobject (OThread t) k"
  shows "\<exists>L g. rt_thread_detach t k = Some (0, closed_state t True L g k) \<and>
    kinv (closed_state t True L g k) \<and>
    ls_q L Defunct = (if th_cleanup (thr k t) = None then [] else [t]) @ remove1 t (ls_q (tlist k) Defunct)"
proof -
  note ty = kinv_timer[OF k]
  obtain g where g: "(if stat_of (thr k t) \<noteq> 0 then rt_schedule_remove_thread t k else Some k) =
      Some (k\<lparr>tlist := ls_remove t (tlist k), rt_ready_group := g\<rparr>)" "group_ok g (ls_remove t (tlist k))"
    using remove_unless_init[OF k] by (elim exE conjE)
  obtain L1 where L1: "ls_push_front Defunct t (ls_remove t (tlist k)) = Some L1"
    using push_defunct[of t "tlist k"] by (elim exE)
  define L where "L = (if th_cleanup (thr k t) = None then ls_remove t (tlist k) else L1)"
  have "rt_thread_detach t k = Some (0, closed_state t True L g k)"
    unfolding rt_thread_detach_def Let_def g(1)
    using k(2) d L1
    by (cases "th_cleanup (thr k t) = None")
      (simp_all only: alive_def closing_step[OF kinv_timer(1,2)[OF k]] close_simps closing_def[symmetric]
        closing_simps closing_fields closing_closed L_def if_False)
  moreover have "ls_q L Defunct = (if th_cleanup (thr k t) = None then [] else [t]) @
      remove1 t (ls_q (tlist k) Defunct)"
    using L1 by (auto simp: ls_push_front_Some ls_q_remove[OF kinvD(2)[OF k(1)]] L_def)
  moreover have "L = ls_remove t (tlist k) \<or> ls_push_front Defunct t (ls_remove t (tlist k)) = Some L"
    using L1 by (auto simp: L_def)
  ultimately show ?thesis using closed_state_inv[OF k(1,2) g(2)] by blast
qed

text \<open>\<open>rt_thread_exit\<close> is called on the stack of the running thread and does not return.\<close>

lemma exit_ok:
  assumes k: "kinv k" "rt_current_thread k = Some c" and s: "stat_of (thr k c) = 1"
  defines "both \<equiv> rt_object_is_systemobject (OThread c) k \<and> th_cleanup (thr k c) = None"
  shows "\<exists>L g k'. rt_thread_exit k = Some k' \<and> kinv k' \<and> kinv (closed_state c both L g k) \<and>
    rt_schedule (closed_state c both L g k) = Some k' \<and> sched_frame (closed_state c both L g k) k' \<and>
    ls_q L Defunct = (if both then [] else [c]) @ ls_q (tlist k) Defunct"
proof -
  note u = current_unlinked[OF k s]
  have s4: "stat_of (thr k c) \<noteq> 4" using s by simp
  note ty = kinv_timer[OF k(1) u(2) s4]
  obtain g where g: "rt_schedule_remove_thread c k =
      Some (k\<lparr>tlist := ls_remove c (tlist k), rt_ready_group := g\<rparr>)" "group_ok g (ls_remove c (tlist k))"
    using remove_any_ok[OF k(1) u(2)] s by auto
  obtain L1 where L1: "ls_push_front Defunct c (ls_remove c (tlist k)) = Some L1"
    using push_defunct[of c "tlist k"] by (elim exE)
  define L where "L = (if both then ls_remove c (tlist k) else L1)"
  let ?k1 = "closed_state c both L g k"
  have "kinv ?k1"
    by (rule closed_state_inv[OF k(1) u(2) g(2)]) (use L1 in \<open>auto simp: L_def\<close>)
  moreover have "rt_current_thread ?k1 = Some c" using k(2) by (simp add: closed_state_def)
  ultimately obtain k' where k': "rt_schedule ?k1 = Some k'" "kinv k'" "sched_frame ?k1 k'"
    using schedule_ok by blast
  have "rt_thread_exit k = rt_schedule ?k1"
    unfolding rt_thread_exit_def Let_def
    using k(2) L1
    by (cases both)
      (simp_all only: rt_thread_self_def g(1) closing_step(2)[OF kinv_timer(1,2)[OF k(1) u(2) s4]]
        close_simps closing_simps closing_closed L_def both_def if_False)
  moreover have "ls_q L Defunct = (if both then [] else [c]) @ ls_q (tlist k) Defunct"
    using L1 u(1) by (auto simp: ls_push_front_Some L_def)
  ultimately show ?thesis using k' \<open>kinv ?k1\<close> by (intro exI[of _ L] exI[of _ g] exI[of _ k']) simp
qed

subsection \<open>A new thread\<close>

lemma strncpy_full: "n \<le> length s \<Longrightarrow> \<exists>r. rt_strncpy s n = Some r"
  by (induction s n rule: rt_strncpy.induct) auto

text \<open>A stack of 76 bytes or more has room for the initial frame, wherever it is.\<close>

lemma stack_init_fits:
  assumes "76 \<le> unat sz" "unat st + unat sz < 2 ^ 32"
  shows "st < fst (rt_hw_stack_init e p (st + sz - 4) x)" "fst (rt_hw_stack_init e p (st + sz - 4) x) \<le> st + sz"
proof -
  let ?t = "unat st + unat sz"
  have t: "unat (st + sz) = ?t" using assms(2) by (simp add: unat_word_ariths)
  let ?a = "RT_ALIGN_DOWN (st + sz) 8"
  have a: "unat ?a = ?t - ?t mod 8" using align_down_8[of "st + sz"] t by simp
  have m: "?t mod 8 < 8" "?t mod 8 \<le> ?t" by simp_all
  have s: "unat (?a - 68) = unat ?a - 68"
    using a m assms(1) by (subst unat_sub) (simp_all add: word_le_nat_alt)
  have e: "fst (rt_hw_stack_init e p (st + sz - 4) x) = ?a - 68"
    by (simp add: rt_hw_stack_init_def)
  show "st < fst (rt_hw_stack_init e p (st + sz - 4) x)"
    unfolding e word_less_nat_alt s a using m assms(1) by linarith
  show "fst (rt_hw_stack_init e p (st + sz - 4) x) \<le> st + sz"
    unfolding e word_le_nat_alt s a t by linarith
qed

lemma object_init_ok:
  assumes "obj_inv k" "ls_in (olist k) x = None" "0 < c" "c < 11" "rt_strncpy name 16 = Some nm"
  shows "\<exists>OL. rt_object_init x c name k = Some (k\<lparr>objs := (objs k)(x := (objs k x)
      \<lparr>ob_type := of_nat c OR 0x80, ob_name := nm\<rparr>), olist := OL\<rparr>) \<and>
    obj_inv (k\<lparr>objs := (objs k)(x := (objs k x)\<lparr>ob_type := of_nat c OR 0x80, ob_name := nm\<rparr>), olist := OL\<rparr>) \<and>
    ls_in OL = (ls_in (olist k))(x := Some c)"
proof -
  let ?OL = "(olist k)\<lparr>ls_q := (ls_q (olist k))(c := x # ls_q (olist k) c),
    ls_in := (ls_in (olist k))(x := Some c)\<rparr>"
  have *: "rt_object_init x c name k = Some (k\<lparr>objs := (objs k)(x := (objs k x)
      \<lparr>ob_type := of_nat c OR 0x80, ob_name := nm\<rparr>), olist := ?OL\<rparr>)"
    using assms by (simp add: object_init_Some)
  show ?thesis
    by (rule exI[of _ ?OL], intro conjI, rule *, rule obj_inv_init[OF assms(1) *], simp)
qed

lemma thread_init_ok:
  assumes k: "kinv k"
    and new: "ls_in (olist k) (OThread t) = None" "ls_in (olist k) (OTimer (ThreadTimer t)) = None"
      "ls_in (tlist k) t = None" "rt_current_thread k \<noteq> Some t"
    and nm: "rt_strncpy name 16 = Some nm" and p: "unat prio < 32"
    and st: "start \<noteq> 0" "76 \<le> unat sz" "unat start + unat sz < 2 ^ 32"
  shows "\<exists>k'. rt_thread_init t name e x par start sz prio tick k = Some (0, k') \<and> kinv k' \<and>
    alive k' t \<and> stat_of (thr k' t) = 0 \<and> th_init_priority (thr k' t) = prio \<and>
    th_entry (thr k' t) = e \<and> th_remaining_tick (thr k' t) = tick \<and>
    rt_object_is_systemobject (OThread t) k' \<and>
    rt_current_thread k' = rt_current_thread k \<and> tlist k' = tlist k \<and> (\<forall>u. u \<noteq> t \<longrightarrow> thr k' u = thr k u)"
proof -
  note ob = kinvD(1)[OF k]
  let ?tm = "ThreadTimer t"
  let ?o1 = "(objs k)(OThread t := (objs k (OThread t))\<lparr>ob_type := of_nat 1 OR 0x80, ob_name := nm\<rparr>)"
  obtain OL1 where k1: "rt_object_init (OThread t) 1 name k = Some (k\<lparr>objs := ?o1, olist := OL1\<rparr>)"
    "obj_inv (k\<lparr>objs := ?o1, olist := OL1\<rparr>)" "ls_in OL1 = (ls_in (olist k))(OThread t := Some 1)"
    using object_init_ok[OF ob new(1) _ _ nm, of 1] by auto
  let ?sp = "fst (rt_hw_stack_init e par (start + sz - 4) x)"
  let ?th = "(thr k t)\<lparr>th_entry := e, th_parameter := par, th_stack_addr := start, th_stack_size := sz,
    th_stack_guard := 35, th_sp := ?sp, th_init_priority := prio, th_current_priority := prio,
    th_number_mask := 0, th_init_tick := tick, th_remaining_tick := tick, th_error := 0, th_stat := 0,
    th_cleanup := None\<rparr>"
  let ?k2 = "k\<lparr>objs := ?o1, olist := OL1, tlist := tlist k, thr := (thr k)(t := ?th)\<rparr>"
  have sz0: "sz \<noteq> 0" using st(2) by auto
  obtain r where r: "rt_strncpy nm 16 = Some r"
    using strncpy_full[of 16 nm] strncpy_length[OF nm] by auto
  let ?o3 = "?o1(OTimer ?tm := (?o1 (OTimer ?tm))\<lparr>ob_type := of_nat 10 OR 0x80, ob_name := r\<rparr>)"
  have ob2: "obj_inv ?k2" using k1(2) by (simp add: obj_inv_def)
  obtain OL3 where k3: "rt_object_init (OTimer ?tm) 10 nm ?k2 = Some (?k2\<lparr>objs := ?o3, olist := OL3\<rparr>)"
    "obj_inv (?k2\<lparr>objs := ?o3, olist := OL3\<rparr>)"
    using object_init_ok[OF ob2, of "OTimer ?tm" 10 nm r] r new(2) k1(3) by auto
  have tmr_unl: "ls_in (tmlist k) ?tm = None"
  proof (rule ccontr)
    assume "ls_in (tmlist k) ?tm \<noteq> None"
    then have "alive k t" using kinv_timer_linked(1)[OF k] by blast
    then show False using ob new(1) by (auto simp: obj_inv_def obj_ok_def alive_def rt_object_get_type_def
        dest: spec[of _ "OThread t"])
  qed
  define o4 where "o4 = ?o3(OTimer ?tm := (?o3 (OTimer ?tm))\<lparr>ob_flag := 0\<rparr>)"
  define tm4 where "tm4 = (tmr k)(?tm := (tmr k ?tm)\<lparr>tm_timeout_func := Fn_thread_timeout t,
    tm_timeout_tick := 0, tm_init_tick := 0\<rparr>)"
  define k4 where "k4 = k\<lparr>objs := o4, olist := OL3, thr := (thr k)(t := ?th), tlist := tlist k,
    tmr := tm4, tmlist := tmlist k, rt_ready_group := rt_ready_group k\<rparr>"
  have tmi: "rt_timer_init ?tm nm (Fn_thread_timeout t) 0 0 ?k2 = Some k4"
    using k3(1) tmr_unl
    by (simp add: rt_timer_init_def rt_timer_init_block_def ls_init_node_def Let_def k4_def o4_def tm4_def)
  have run: "rt_thread_init t name e x par start sz prio tick k = Some (0, k4)"
    using st(1) k1(1) new(3) p sz0 tmi
    by (simp add: rt_thread_init_def rt_thread_init_block_def ls_init_node_def Let_def)
  have s0: "stat_of ?th = 0" by (simp add: stat_of_def)
  have sk: "stack_ok ?th" using stack_init_fits[OF st(2,3)] by (simp add: stack_ok_def)
  have ty: "ob_type (o4 (OThread t)) = 0x81" "ob_type (o4 (OTimer ?tm)) = 0x8A"
    "ob_flag (o4 (OTimer ?tm)) = 0" by (simp_all add: o4_def)
  have "kinv k4"
    unfolding k4_def
  proof (rule kinv_one_thread[OF k kinvD(2)[OF k] kinvD(3)[OF k] kinvD(4)[OF k]])
    show "obj_inv (k\<lparr>objs := o4, olist := OL3\<rparr>)"
    proof -
      have "obj_inv (k\<lparr>objs := ?o3, olist := OL3\<rparr>)" using k3(2) by (simp add: obj_inv_def)
      from timer_obj_inv[OF this, of "OTimer ?tm" 0] show ?thesis by (simp add: obj_inv_def o4_def)
    qed
    show "th_inv (ob_type (o4 (OThread t)) AND NOT 0x80 = 1) (rt_current_thread k = Some t)
        (ls_in (tlist k) t) ?th (ls_in (tmlist k) ?tm \<noteq> None)
        (tm_timeout_func (tm4 ?tm)) (o4 (OTimer ?tm)) t"
      unfolding th_inv_def s0 using sk p new(3,4) tmr_unl ty by (simp add: tm4_def s0 del: stat_of_update)
  qed (auto simp: o4_def tm4_def)
  moreover have "alive k4 t" "rt_object_is_systemobject (OThread t) k4"
    using ty by (simp_all add: alive_def rt_object_get_type_def rt_object_is_systemobject_def k4_def)
  ultimately show ?thesis using run s0 by (intro exI[of _ k4]) (simp add: k4_def)
qed

subsection \<open>Properties\<close>

text \<open>The example system with thread 1 waiting in the queue \<open>q\<close>, or new and not started.\<close>

definition ex_wait :: "qid \<Rightarrow> kernel" where
  "ex_wait q = ex_kernel\<lparr>thr := (thr ex_kernel)(1 := ex_thread 2 10),
     tlist := \<lparr>ls_q = (\<lambda>_. [])(q := [1]), ls_in = (\<lambda>_. None)(1 := Some q)\<rparr>, rt_ready_group := 0\<rparr>"

definition ex_new :: kernel where
  "ex_new = ex_kernel\<lparr>thr := (thr ex_kernel)(1 := ex_thread 0 5), tlist := ls_empty, rt_ready_group := 0\<rparr>"

lemma ex_variant_inv:
  assumes "ls_inv L" "group_ok 0 L" "ls_in L 0 = None" "\<And>t. 2 \<le> t \<Longrightarrow> ls_in L t = None"
    "st = 2 \<and> (\<exists>q. ls_in L 1 = Some q \<and> wait_link (Some q)) \<or> st = 0 \<and> ls_in L 1 = None"
    "unat p < 32"
  shows "kinv (ex_kernel\<lparr>thr := (thr ex_kernel)(1 := ex_thread st p), tlist := L, rt_ready_group := 0\<rparr>)"
    (is "kinv ?k")
proof -
  have "thread_inv ?k t" for t
  proof (cases "t < 2")
    case True
    then consider "t = 0" | "t = 1" by linarith
    then show ?thesis
      using assms(3,5,6)
      by cases (auto simp: thread_inv_def th_inv_def alive_def rt_object_get_type_def ex_kernel_def
        ex_objs_def ex_obj_def ex_thread_def stat_of_def stack_ok_def)
  next
    case False
    then show ?thesis using assms(4)[of t]
      by (simp add: thread_inv_def th_inv_def alive_def rt_object_get_type_def ex_kernel_def
        ex_objs_def ex_obj_def ex_thread_def stat_of_def)
  qed
  then show ?thesis using kinvD[OF ex_kernel_inv] assms(1,2) by (simp add: kinv_def obj_inv_def)
qed

lemma ex_wait_inv: "wait_link (Some q) \<Longrightarrow> kinv (ex_wait q)"
  unfolding ex_wait_def
  by (rule ex_variant_inv) (auto simp: ls_inv_def group_ok_def)

lemma ex_new_inv: "kinv ex_new"
  unfolding ex_new_def by (rule ex_variant_inv) (auto simp: group_ok_def)

lemma ex_wait_facts:
  "rt_current_thread (ex_wait q) = Some 0" "rt_scheduler_lock_nest (ex_wait q) = 0"
  "stat_of (thr (ex_wait q) 0) = 1" "stat_of (thr (ex_wait q) 1) = 2" "alive (ex_wait q) 0"
  "alive (ex_wait q) 1" "th_current_priority (thr (ex_wait q) 0) = 10"
  "th_current_priority (thr (ex_wait q) 1) = 10"
  "ls_q (tlist (ex_wait q)) q = [1]" "r \<noteq> q \<Longrightarrow> ls_q (tlist (ex_wait q)) r = []"
  "rt_interrupt_nest (ex_wait q) = 0" "tmlist (ex_wait q) = ls_empty" "rt_tick (ex_wait q) = 0"
  by (simp_all add: ex_wait_def ex_kernel_def ex_thread_def stat_of_def alive_def
      rt_object_get_type_def ex_objs_def ex_obj_def)

text \<open>Resuming a suspended thread takes it out of the queue it waits in, stops its timer and
  appends it to the ready queue of its priority; the kernel stays well formed and every other queue
  and thread is as before.\<close>

theorem thread_resume_ready:
  assumes "kinv k" "alive k t" "stat_of (thr k t) = RT_THREAD_SUSPEND"
  shows "\<exists>k'. rt_thread_resume t k = Some (RT_EOK, k') \<and> kinv k' \<and> ready_thread k' t \<and>
    (\<forall>x. x \<noteq> t \<longrightarrow> thr k' x = thr k x) \<and>
    (\<forall>q. ls_q (tlist k') q = remove1 t (ls_q (tlist k) q) @
       (if rt_current_thread k \<noteq> Some t \<and> q = Ready (prio_of k t) then [t] else []))"
proof -
  obtain k' where "rt_thread_resume t k = Some (0, k')" "kinv k'" "ipc_frame k k'"
    "thr k' = (thr k)(t := set_stat 1 (thr k t))"
    "\<forall>q. ls_q (tlist k') q = remove1 t (ls_q (tlist k) q) @
       (if rt_current_thread k \<noteq> Some t \<and> q = Ready (prio_of k t) then [t] else [])"
    using resume_ok[OF assms] by blast
  then show ?thesis using ipc_frame_alive[of k k' t] assms(2) by (auto simp: ready_thread_def)
qed

theorem thread_resume_ready_witness:
  "\<exists>k'. rt_thread_resume 1 (ex_wait (SemQ 0)) = Some (0, k') \<and> kinv k' \<and> ready_thread k' 1 \<and>
    ls_q (tlist k') (SemQ 0) = [] \<and> ls_q (tlist k') (Ready 10) = [1]"
  using thread_resume_ready[OF ex_wait_inv[of "SemQ 0"] ex_wait_facts(6,4)]
  by (auto simp: ex_wait_facts simp del: One_nat_def)

text \<open>When the timer of a waiting thread expires, \<open>rt_thread_timeout\<close> takes the thread out of its
  wait queue, makes it ready with the error \<open>-RT_ETIMEOUT\<close>, and schedules.\<close>

theorem thread_timeout_wakes:
  assumes "kinv k" "rt_current_thread k = Some c" "alive k t" "stat_of (thr k t) = RT_THREAD_SUSPEND"
    "ls_in (tmlist k) (ThreadTimer t) = None"
  shows "\<exists>k'. rt_thread_timeout t k = Some k' \<and> kinv k' \<and> ready_thread k' t \<and>
    th_error (thr k' t) = - RT_ETIMEOUT \<and> (\<forall>x. x \<noteq> t \<longrightarrow> thr k' x = thr k x) \<and>
    (\<forall>q. (\<forall>p. q \<noteq> Ready p) \<longrightarrow> ls_q (tlist k') q = remove1 t (ls_q (tlist k) q))"
proof -
  obtain k1 k' where *: "rt_thread_timeout t k = Some k'" "kinv k'" "ipc_frame k k1" "sched_frame k1 k'"
    "thr k1 = (thr k)(t := set_stat 1 ((thr k t)\<lparr>th_error := - 2\<rparr>))"
    "\<forall>q. ls_q (tlist k1) q = remove1 t (ls_q (tlist k) q) @
       (if c \<noteq> t \<and> q = Ready (prio_of k t) then [t] else [])"
    using timeout_ok[OF assms] by blast
  have al: "alive k' t"
    using ipc_frame_alive[OF ipc_frame_trans[OF *(3) sched_ipc_frame[OF *(4)]]] assms(3) by simp
  show ?thesis
    using * al sched_frameD(3)[OF *(4)] sched_frameD(16)[OF *(4)]
    by (intro exI[of _ k']) (auto simp: ready_thread_def)
qed

theorem thread_timeout_wakes_witness:
  "\<exists>k'. rt_thread_timeout 1 (ex_wait (MqQ 3)) = Some k' \<and> ready_thread k' 1 \<and>
    th_error (thr k' 1) = - 2 \<and> ls_q (tlist k') (MqQ 3) = []"
  using thread_timeout_wakes[OF ex_wait_inv[of "MqQ 3"] ex_wait_facts(1,6,4)]
  by (auto simp: ex_wait_facts simp del: One_nat_def)

text \<open>\<open>rt_thread_sleep\<close> suspends the caller and arms its timer for the given number of ticks from
  now, then schedules; no check fails as long as the time is below half the tick range.\<close>

theorem thread_sleep_arms:
  assumes "kinv k" "rt_current_thread k = Some c" "stat_of (thr k c) = RT_THREAD_READY"
    "tick < RT_TICK_MAX_2"
  shows "\<exists>k'. rt_thread_sleep tick k = Some k' \<and> kinv k' \<and> stat_of (thr k' c) = RT_THREAD_SUSPEND \<and>
    ls_in (tmlist k') (ThreadTimer c) = Some () \<and>
    tm_timeout_tick (tmr k' (ThreadTimer c)) = rt_tick k + tick"
proof -
  obtain k1 k' where *: "rt_thread_sleep tick k = Some k'" "kinv k'" "sched_frame k1 k'"
    "thr k1 = (thr k)(c := set_stat 2 (thr k c))" "ls_in (tmlist k1) (ThreadTimer c) = Some ()"
    "tm_timeout_tick (tmr k1 (ThreadTimer c)) = rt_tick k + tick"
    using sleep_ok[OF assms] by blast
  then show ?thesis using sched_frameD(3,4,5)[OF *(3)] by auto
qed

theorem thread_sleep_arms_witness:
  "\<exists>k'. rt_thread_sleep 5 ex_kernel = Some k' \<and> stat_of (thr k' 0) = 2 \<and>
    tm_timeout_tick (tmr k' (ThreadTimer 0)) = rt_tick ex_kernel + 5"
  using thread_sleep_arms[OF ex_kernel_inv ex_kernel_facts(1,3), of 5] by auto

text \<open>Changing the priority of any started or new thread keeps the ready queues and the bitmap
  consistent; a thread that is ready and not running moves to the end of the queue of its new priority.\<close>

theorem thread_change_priority:
  assumes "kinv k" "alive k t" "unat p < RT_THREAD_PRIORITY_MAX"
  shows "\<exists>k'. rt_thread_control t (RT_THREAD_CTRL_CHANGE_PRIORITY p) k = Some (RT_EOK, k') \<and> kinv k' \<and>
    th_current_priority (thr k' t) = p \<and> stat_of (thr k' t) = stat_of (thr k t) \<and>
    (stat_of (thr k t) = RT_THREAD_READY \<and> rt_current_thread k \<noteq> Some t \<longrightarrow>
      (\<forall>q. ls_q (tlist k') q = remove1 t (ls_q (tlist k) q) @ (if q = Ready (unat p) then [t] else [])))"
proof -
  obtain k' where "rt_thread_control t (RT_THREAD_CTRL_CHANGE_PRIORITY p) k = Some (0, k')" "kinv k'"
    "thr k' = (thr k)(t := with_prio p (thr k t))"
    "stat_of (thr k t) = 1 \<and> rt_current_thread k \<noteq> Some t \<longrightarrow>
      (\<forall>q. ls_q (tlist k') q = remove1 t (ls_q (tlist k) q) @ (if q = Ready (unat p) then [t] else []))"
    using change_priority_ok[OF assms] by blast
  then show ?thesis by (intro exI[of _ k']) simp
qed

theorem thread_change_priority_witness:
  "\<exists>k'. rt_thread_control 1 (RT_THREAD_CTRL_CHANGE_PRIORITY 3) ex_kernel = Some (0, k') \<and> kinv k' \<and>
    ls_q (tlist k') (Ready 10) = [] \<and> ls_q (tlist k') (Ready 3) = [1]"
  using thread_change_priority[OF ex_kernel_inv ex_kernel_facts(6), of 3]
  by (auto simp: ex_kernel_facts simp del: One_nat_def)

text \<open>A thread set up by \<open>rt_thread_init\<close> with a priority below 32 and a stack of at least 76 bytes
  that does not wrap is a live object in its initial state, runs from its entry function, and is in no
  queue; the kernel stays well formed.\<close>

theorem thread_init_initial:
  assumes "kinv k" "ls_in (olist k) (OThread t) = None" "ls_in (olist k) (OTimer (ThreadTimer t)) = None"
    "ls_in (tlist k) t = None" "rt_current_thread k \<noteq> Some t" "rt_strncpy name RT_NAME_MAX = Some nm"
    "unat prio < RT_THREAD_PRIORITY_MAX" "start \<noteq> 0" "76 \<le> unat sz" "unat start + unat sz < 2 ^ 32"
  shows "\<exists>k'. rt_thread_init t name e x par start sz prio tick k = Some (RT_EOK, k') \<and> kinv k' \<and>
    alive k' t \<and> stat_of (thr k' t) = RT_THREAD_INIT \<and> th_init_priority (thr k' t) = prio \<and>
    th_entry (thr k' t) = e \<and> th_remaining_tick (thr k' t) = tick \<and> ls_in (tlist k') t = None"
proof -
  obtain k' where "rt_thread_init t name e x par start sz prio tick k = Some (0, k')" "kinv k'"
    "alive k' t" "stat_of (thr k' t) = 0" "th_init_priority (thr k' t) = prio"
    "th_entry (thr k' t) = e" "th_remaining_tick (thr k' t) = tick" "tlist k' = tlist k"
    using thread_init_ok[OF assms, of e x par tick] by blast
  then show ?thesis using assms(4) by auto
qed

theorem thread_init_initial_witness:
  "\<exists>k'. rt_thread_init 5 [97, 0] 0x8000 0x9000 7 0x20000 1024 12 20 ex_kernel = Some (0, k') \<and> kinv k' \<and>
    alive k' 5 \<and> th_init_priority (thr k' 5) = 12"
proof -
  have nm: "rt_strncpy [97, 0] 16 = Some ([97] @ replicate 15 0)" by (simp add: numeral_eq_Suc)
  have "ls_in (olist ex_kernel) (OThread 5) = None"
    "ls_in (olist ex_kernel) (OTimer (ThreadTimer 5)) = None"
    "ls_in (tlist ex_kernel) 5 = None" "rt_current_thread ex_kernel \<noteq> Some 5"
    by (simp_all add: ex_kernel_def ex_olist_def)
  from thread_init_initial[OF ex_kernel_inv this nm, of 12 "0x20000" 1024 "0x8000" "0x9000" 7 20]
  show ?thesis by auto
qed

text \<open>Starting a new thread makes it ready at its initial priority, at the end of that queue; once
  the scheduler runs, the call schedules.\<close>

theorem thread_startup_ready:
  assumes "kinv k" "alive k t" "stat_of (thr k t) = RT_THREAD_INIT"
  shows "\<exists>k1 k'. rt_thread_startup t k = Some (RT_EOK, k') \<and> kinv k' \<and>
    t \<in> set (ls_q (tlist k1) (Ready (unat (th_init_priority (thr k t))))) \<and>
    stat_of (thr k1 t) = RT_THREAD_READY \<and>
    (if rt_current_thread k = None then k' = k1 else rt_schedule k1 = Some k')"
proof -
  obtain k1 k' where "rt_thread_startup t k = Some (0, k')" "kinv k'" "stat_of (thr k1 t) = 1"
    "prio_of k1 t = unat (th_init_priority (thr k t))" "t \<in> set (ls_q (tlist k1) (Ready (prio_of k1 t)))"
    "if rt_current_thread k = None then k' = k1 else rt_schedule k1 = Some k' \<and> sched_frame k1 k'"
    using startup_ok[OF assms] by blast
  then show ?thesis by (intro exI[of _ k1] exI[of _ k']) (auto split: if_splits)
qed

theorem thread_startup_ready_witness:
  "\<exists>k1 k'. rt_thread_startup 1 ex_new = Some (0, k') \<and> kinv k' \<and> 1 \<in> set (ls_q (tlist k1) (Ready 5)) \<and>
    stat_of (thr k1 1) = 1 \<and> rt_schedule k1 = Some k'"
proof -
  have "alive ex_new 1" "stat_of (thr ex_new 1) = 0" "unat (th_init_priority (thr ex_new 1)) = 5"
    "rt_current_thread ex_new = Some 0"
    by (simp_all add: ex_new_def ex_kernel_def ex_thread_def stat_of_def alive_def
      rt_object_get_type_def ex_objs_def ex_obj_def)
  then show ?thesis using thread_startup_ready[OF ex_new_inv, of 1] by simp
qed

text \<open>A running thread that exits is closed, is in no ready queue, never runs again as long as it is
  closed, and goes to the list of defunct threads unless it is a static object without a cleanup
  function, whose object is detached at once.\<close>

theorem thread_exit_closes:
  assumes "kinv k" "rt_current_thread k = Some c" "stat_of (thr k c) = RT_THREAD_READY"
  shows "\<exists>k'. rt_thread_exit k = Some k' \<and> kinv k' \<and> stat_of (thr k' c) = RT_THREAD_CLOSE \<and>
    (\<forall>p. c \<notin> set (ls_q (tlist k') (Ready p))) \<and>
    ls_q (tlist k') Defunct =
      (if rt_object_is_systemobject (OThread c) k \<and> th_cleanup (thr k c) = None then [] else [c]) @
      ls_q (tlist k) Defunct"
proof -
  let ?b = "rt_object_is_systemobject (OThread c) k \<and> th_cleanup (thr k c) = None"
  obtain L g k' where *: "rt_thread_exit k = Some k'" "kinv k'" "sched_frame (closed_state c ?b L g k) k'"
    "ls_q L Defunct = (if ?b then [] else [c]) @ ls_q (tlist k) Defunct"
    using exit_ok[OF assms] by blast
  have s: "stat_of (thr k' c) = 4"
    using sched_frameD(3)[OF *(3)] by (simp add: closed_state_def)
  have "c \<notin> set (ls_q (tlist k') (Ready p))" for p
    using kinv_ready(2)[OF *(2)] s by force
  moreover have "ls_q (tlist k') Defunct = ls_q L Defunct"
    using sched_frameD(16)[OF *(3), of Defunct] by (simp add: closed_state_def)
  ultimately show ?thesis using *(1,2,4) s by (intro exI[of _ k']) simp
qed

theorem thread_exit_closes_witness:
  "\<exists>k'. rt_thread_exit ex_kernel = Some k' \<and> kinv k' \<and> stat_of (thr k' 0) = 4"
  using thread_exit_closes[OF ex_kernel_inv ex_kernel_facts(1,3)] by blast

text \<open>The initial frame of a thread starts at an 8-aligned address minus its 68 bytes, holds the
  argument in r0, the entry function in pc and the exit function in lr, and lies inside the stack.\<close>

theorem stack_frame_layout:
  assumes "76 \<le> unat sz" "unat start + unat sz < 2 ^ 32"
    "rt_hw_stack_init entry par (start + sz - 4) texit = (sp, frame)"
  shows "start < sp \<and> unat sp + 68 \<le> unat start + unat sz \<and> (unat sp + 68) mod 8 = 0 \<and>
    length frame = 17 \<and> frame ! 9 = par \<and> frame ! 14 = texit \<and> frame ! 15 = entry \<and>
    frame ! 16 = 0x01000000"
proof -
  let ?t = "unat start + unat sz"
  have sp: "sp = RT_ALIGN_DOWN (start + sz) 8 - 68" and f: "frame = [0] @ replicate 8 0xdeadbeef @
      [par, 0, 0, 0, 0, texit, entry, 0x01000000]"
    using assms(3) by (auto simp: rt_hw_stack_init_def)
  have a: "unat (RT_ALIGN_DOWN (start + sz) 8) = ?t - ?t mod 8"
    using align_down_8[of "start + sz"] assms(2) by (simp add: unat_word_ariths)
  have m: "?t mod 8 < 8" "?t mod 8 \<le> ?t" by simp_all
  have s: "unat sp = ?t - ?t mod 8 - 68"
    unfolding sp using a m assms(1) by (subst unat_sub) (simp_all add: word_le_nat_alt)
  have "?t - ?t mod 8 - 68 + 68 = ?t - ?t mod 8" using m assms(1) by linarith
  moreover have "(?t - ?t mod 8) mod 8 = 0" by (simp add: minus_mod_eq_mult_div)
  ultimately have "(unat sp + 68) mod 8 = 0" "unat sp + 68 \<le> ?t" using s by simp_all
  moreover have "start < sp"
    unfolding word_less_nat_alt s using m assms(1) by linarith
  moreover have "length frame = 17" "frame ! 9 = par" "frame ! 14 = texit" "frame ! 15 = entry"
    "frame ! 16 = 0x01000000"
    by (simp_all add: f nth_append)
  ultimately show ?thesis by blast
qed

theorem stack_frame_layout_witness:
  "(0x20000 :: u32) < fst (rt_hw_stack_init 0x8000 7 (0x20000 + 1024 - 4) 0x9000)"
  using stack_frame_layout[of 1024 "0x20000" "0x8000" 7 "0x9000"
      "fst (rt_hw_stack_init 0x8000 7 (0x20000 + 1024 - 4) 0x9000)"
      "snd (rt_hw_stack_init 0x8000 7 (0x20000 + 1024 - 4) 0x9000)"]
  by simp

end
