(* ===== verification/Ipc_Base.thy ===== *)
theory Ipc_Base
  imports Thread
begin

text \<open>
  What the inter-process communication objects of \<open>src/ipc.c\<close> share: suspending the caller on the
  wait queue of an object, in order of arrival or by priority, and waking the first or all of the
  threads that wait.

  A call that may block is modelled in two parts. The first runs up to and including the call of
  \<open>rt_schedule\<close> and tells whether the function returned or the caller waits; the second, with the
  suffix \<open>_end\<close>, is what the function does when its thread runs again.
\<close>

datatype 'a call = Return 'a | Blocked

subsection \<open>Wait queues\<close>

text \<open>The search loop of \<open>rt_ipc_list_suspend\<close>: before the first thread of lower priority.\<close>

fun wait_pos :: "(nat \<Rightarrow> u8) \<Rightarrow> u8 \<Rightarrow> nat list \<Rightarrow> nat" where
  "wait_pos prio p [] = 0"
| "wait_pos prio p (s # ss) = (if p < prio s then 0 else Suc (wait_pos prio p ss))"

definition rt_ipc_object_init :: "qid \<Rightarrow> kernel \<Rightarrow> kernel option" where
  "rt_ipc_object_init q k = do { tq \<leftarrow> ls_init_head q (tlist k); Some (k\<lparr>tlist := tq\<rparr>) }"

definition rt_ipc_list_suspend :: "qid \<Rightarrow> nat \<Rightarrow> u8 \<Rightarrow> kernel \<Rightarrow> kernel option" where
  "rt_ipc_list_suspend q t flag k =
     do { (_, k) \<leftarrow> rt_thread_suspend t k;
          if flag = RT_IPC_FLAG_FIFO
          then do { tq \<leftarrow> ls_push_back q t (tlist k); Some (k\<lparr>tlist := tq\<rparr>) }
          else if flag = RT_IPC_FLAG_PRIO
          then do { let pos = wait_pos (\<lambda>s. th_current_priority (thr k s)) (th_current_priority (thr k t))
                      (ls_q (tlist k) q);
                    tq \<leftarrow> ls_insert_at q pos t (tlist k);
                    Some (k\<lparr>tlist := tq\<rparr>) }
          else Some k }"

text \<open>\<open>list->next\<close> of an empty list is the head itself, which is no thread.\<close>

definition rt_ipc_list_resume :: "qid \<Rightarrow> kernel \<Rightarrow> kernel option" where
  "rt_ipc_list_resume q k =
     (case ls_q (tlist k) q of
        [] \<Rightarrow> None
      | thread # _ \<Rightarrow> do { (_, k) \<leftarrow> rt_thread_resume thread k; Some k })"

partial_function (option) rt_ipc_list_resume_all :: "qid \<Rightarrow> kernel \<Rightarrow> kernel option" where
  "rt_ipc_list_resume_all q k =
     (case ls_q (tlist k) q of
        [] \<Rightarrow> Some k
      | thread # _ \<Rightarrow>
          do { let k = upd_thr thread (\<lambda>th. th\<lparr>th_error := - RT_ERROR\<rparr>) k;
               (_, k) \<leftarrow> rt_thread_resume thread k;
               rt_ipc_list_resume_all q k })"

text \<open>
  The common part of every blocking call: suspend on the queue, and with a positive time set and start
  the timer of the thread. A negative time (\<open>RT_WAITING_FOREVER\<close>) starts no timer.
\<close>

definition wait_on :: "qid \<Rightarrow> u8 \<Rightarrow> nat \<Rightarrow> int \<Rightarrow> kernel \<Rightarrow> kernel option" where
  "wait_on q flag t time k =
     do { k \<leftarrow> rt_ipc_list_suspend q t flag k;
          if time > 0 then arm_timer t (word_of_int time) k else Some k }"

text \<open>
  The time that is left when a sender or receiver that was woken has to wait again:
  \<open>tick_delta = rt_tick_get() - tick_delta; timeout -= tick_delta; if (timeout < 0) timeout = 0;\<close>
\<close>

definition time_left :: "int \<Rightarrow> u32 \<Rightarrow> u32 \<Rightarrow> int" where
  "time_left timeout start now =
     (if timeout > 0
      then let t = sint (word_of_int timeout - (now - start) :: u32) in if t < 0 then 0 else t
      else timeout)"

lemma time_left_exact:
  assumes "0 < timeout" "timeout < 2 ^ 31" "unat (now - start) \<le> 2 ^ 31"
  shows "time_left timeout start now = max 0 (timeout - int (unat (now - start)))"
proof -
  define d where "d = int (unat (now - start))"
  have d: "0 \<le> d" "d \<le> 2 ^ 31" using of_nat_mono[OF assms(3), where 'a = int] by (simp_all add: d_def)
  have e: "now - start = word_of_int d" by (simp add: d_def)
  have "sint (word_of_int (timeout - d) :: u32) = timeout - d"
    unfolding sint_sbintrunc' using assms(1,2) d by (intro signed_take_bit_int_eq_self) simp_all
  then have s: "sint (word_of_int timeout - word_of_int d :: u32) = timeout - d" by (simp only: wi_hom_sub)
  have "time_left timeout start now = max 0 (timeout - d)"
    unfolding time_left_def e s using assms(1) by (simp add: Let_def max_def)
  then show ?thesis by (simp only: d_def)
qed

subsection \<open>Where a thread is put\<close>

lemma wait_pos_takeWhile:
  "wait_pos prio p ss = length (takeWhile (\<lambda>s. prio s \<le> p) ss)"
  by (induction ss) auto

text \<open>The queue after a thread has been put into it.\<close>

definition enqueued :: "u8 \<Rightarrow> (nat \<Rightarrow> u8) \<Rightarrow> nat \<Rightarrow> nat list \<Rightarrow> nat list" where
  "enqueued flag prio t ts =
     (if flag = 0 then ts @ [t]
      else takeWhile (\<lambda>s. prio s \<le> prio t) ts @ t # dropWhile (\<lambda>s. prio s \<le> prio t) ts)"

lemma enqueued_insert:
  "flag = 0 \<or> flag = 1 \<Longrightarrow>
    enqueued flag prio t ts =
      insert_upto (if flag = 0 then length ts else wait_pos prio (prio t) ts) t ts"
  by (auto simp: enqueued_def insert_upto_length wait_pos_takeWhile insert_takeWhile)

lemma set_takeWhile_dropWhile: "set (takeWhile P xs) \<union> set (dropWhile P xs) = set xs"
  by (metis set_append takeWhile_dropWhile_id)

lemma set_enqueued [simp]: "set (enqueued flag prio t ts) = insert t (set ts)"
  using set_takeWhile_dropWhile[of "\<lambda>s. prio s \<le> prio t" ts] by (auto simp: enqueued_def)

lemma enqueued_sorted:
  assumes "sorted (map (\<lambda>s. unat (prio s)) ts)"
  shows "sorted (map (\<lambda>s. unat (prio s)) (enqueued 1 prio t ts))"
  using sorted_insert_after[OF assms, of "unat (prio t)"]
  by (simp add: enqueued_def word_le_nat_alt)

subsection \<open>Waiting\<close>

lemma kinv_waiter:
  assumes "kinv k" "t \<in> set (ls_q (tlist k) q)" "wait_link (Some q)"
  shows "alive k t" "stat_of (thr k t) = 2" "ls_in (tlist k) t = Some q"
proof -
  show "ls_in (tlist k) t = Some q" using assms(2) ls_in_iff[OF kinvD(2)[OF assms(1)]] by simp
  then show "alive k t" "stat_of (thr k t) = 2"
    using kinvD(5)[OF assms(1), of t] assms(3) by (auto simp: thread_inv_def th_inv_def)
qed

lemma list_suspend_ok:
  assumes k: "kinv k" "rt_current_thread k = Some c" and s: "stat_of (thr k c) = 1"
    and q: "wait_link (Some q)" and f: "flag = 0 \<or> flag = 1"
  shows "\<exists>k'. rt_ipc_list_suspend q c flag k = Some k' \<and> kinv k' \<and> ipc_frame k k' \<and>
    thr k' = (thr k)(c := set_stat 2 (thr k c)) \<and> rt_current_thread k' = Some c \<and>
    rt_ready_group k' = rt_ready_group k \<and> tmr k' = tmr k \<and>
    ls_in (tmlist k') (ThreadTimer c) = None \<and>
    ls_q (tlist k') = (ls_q (tlist k))(q := enqueued flag (\<lambda>t. th_current_priority (thr k t)) c
      (ls_q (tlist k) q))"
proof -
  obtain k0 where k0: "rt_thread_suspend c k = Some (0, k0)" "kinv k0" "ipc_frame k k0"
    "thr k0 = (thr k)(c := set_stat 2 (thr k c))" "tlist k0 = tlist k"
    "rt_ready_group k0 = rt_ready_group k" "rt_current_thread k0 = Some c" "alive k0 c"
    "stat_of (thr k0 c) = 2" "ls_in (tlist k0) c = None" "tmr k0 = tmr k"
    "ls_in (tmlist k0) (ThreadTimer c) = None"
    using suspend_ok[OF k s] by blast
  have p: "(\<lambda>t. th_current_priority (thr k0 t)) = (\<lambda>t. th_current_priority (thr k t))"
    by (auto simp: k0(4))
  have pc: "th_current_priority (thr k0 c) = th_current_priority (thr k c)" by (simp add: k0(4))
  let ?i = "if flag = 0 then length (ls_q (tlist k0) q)
    else wait_pos (\<lambda>t. th_current_priority (thr k0 t)) (th_current_priority (thr k0 c)) (ls_q (tlist k0) q)"
  obtain L where L: "ls_insert_at q ?i c (tlist k0) = Some L" using k0(10) by (auto simp: ls_insert_at_def)
  have "rt_ipc_list_suspend q c flag k = Some (k0\<lparr>tlist := L\<rparr>)"
    using k0(1) L f by (auto simp: rt_ipc_list_suspend_def ls_push_back_insert_at)
  moreover have "kinv (k0\<lparr>tlist := L\<rparr>)" by (rule kinv_wait[OF k0(2,8,9) L q])
  moreover have "ipc_frame k (k0\<lparr>tlist := L\<rparr>)" using k0(3) by (simp add: ipc_frame_def)
  moreover have "ls_q L = (ls_q (tlist k))(q := enqueued flag (\<lambda>t. th_current_priority (thr k t)) c
      (ls_q (tlist k) q))"
    using L enqueued_insert[OF f, of "\<lambda>t. th_current_priority (thr k t)" c "ls_q (tlist k) q"]
    by (auto simp: ls_insert_at_Some k0(5) p pc)
  ultimately show ?thesis using k0(4,6,7,11,12) by (intro exI[of _ "k0\<lparr>tlist := L\<rparr>"]) simp
qed

lemma wait_on_ok:
  assumes k: "kinv k" "rt_current_thread k = Some c" and s: "stat_of (thr k c) = 1"
    and q: "wait_link (Some q)" and f: "flag = 0 \<or> flag = 1" and n: "time < 0x7fffffff"
  shows "\<exists>k'. wait_on q flag c time k = Some k' \<and> kinv k' \<and> ipc_frame k k' \<and>
    thr k' = (thr k)(c := set_stat 2 (thr k c)) \<and> rt_current_thread k' = Some c \<and>
    rt_ready_group k' = rt_ready_group k \<and>
    ls_in (tmlist k') (ThreadTimer c) = (if time > 0 then Some () else None) \<and>
    (time > 0 \<longrightarrow> tm_timeout_tick (tmr k' (ThreadTimer c)) = rt_tick k + word_of_int time) \<and>
    ls_q (tlist k') = (ls_q (tlist k))(q := enqueued flag (\<lambda>t. th_current_priority (thr k t)) c
      (ls_q (tlist k) q))"
proof -
  obtain k0 where k0: "rt_ipc_list_suspend q c flag k = Some k0" "kinv k0" "ipc_frame k k0"
    "thr k0 = (thr k)(c := set_stat 2 (thr k c))" "rt_current_thread k0 = Some c"
    "rt_ready_group k0 = rt_ready_group k" "ls_in (tmlist k0) (ThreadTimer c) = None"
    "ls_q (tlist k0) = (ls_q (tlist k))(q := enqueued flag (\<lambda>t. th_current_priority (thr k t)) c
      (ls_q (tlist k) q))"
    using list_suspend_ok[OF k s q f] by blast
  show ?thesis
  proof (cases "time > 0")
    case False
    then show ?thesis using k0 by (intro exI[of _ k0]) (simp add: wait_on_def)
  next
    case True
    have "uint (word_of_int time :: u32) = time" using True n by (simp add: uint_word_of_int_eq take_bit_int_eq_self)
    then have n': "word_of_int time < (0x7fffffff :: u32)" using n by (simp add: word_less_def)
    have a: "alive k0 c" using ipc_frame_alive[OF k0(3)] current_unlinked(2)[OF k s] by simp
    have s0: "stat_of (thr k0 c) = 2" using k0(4) by simp
    obtain k' where k': "arm_timer c (word_of_int time) k0 = Some k'" "kinv k'" "ipc_frame k0 k'"
      "thr k' = thr k0" "tlist k' = tlist k0" "rt_current_thread k' = rt_current_thread k0"
      "rt_ready_group k' = rt_ready_group k0" "ls_in (tmlist k') (ThreadTimer c) = Some ()"
      "tm_timeout_tick (tmr k' (ThreadTimer c)) = rt_tick k0 + word_of_int time"
      using arm_timer_ok[OF k0(2) a s0 n'] by blast
    then show ?thesis using k0 True ipc_frame_trans[OF k0(3) k'(3)] ipc_frameD(7)[OF k0(3)]
      by (intro exI[of _ k']) (simp add: wait_on_def)
  qed
qed

subsection \<open>Waking\<close>

lemma list_resume_ok:
  assumes k: "kinv k" and q: "ls_q (tlist k) q = t # ts" "wait_link (Some q)"
  shows "\<exists>k'. rt_ipc_list_resume q k = Some k' \<and> kinv k' \<and> ipc_frame k k' \<and>
    thr k' = (thr k)(t := set_stat 1 (thr k t)) \<and> rt_current_thread k' = rt_current_thread k \<and>
    ready_thread k' t \<and> ls_q (tlist k') q = ts \<and>
    (\<forall>r. r \<noteq> q \<and> wait_link (Some r) \<longrightarrow> ls_q (tlist k') r = ls_q (tlist k) r)"
proof -
  have t: "t \<in> set (ls_q (tlist k) q)" using q(1) by simp
  note w = kinv_waiter[OF k t q(2)]
  obtain k' where k': "rt_thread_resume t k = Some (0, k')" "kinv k'" "ipc_frame k k'"
    "thr k' = (thr k)(t := set_stat 1 (thr k t))" "rt_current_thread k' = rt_current_thread k"
    and qs: "\<And>q. ls_q (tlist k') q = remove1 t (ls_q (tlist k) q) @
       (if rt_current_thread k \<noteq> Some t \<and> q = Ready (prio_of k t) then [t] else [])"
    using resume_ok[OF k w(1,2)] by blast
  have "t \<notin> set (ls_q (tlist k) r)" if "r \<noteq> q" for r
    using that w(3) ls_in_iff[OF kinvD(2)[OF k]] by simp
  then have "ls_q (tlist k') r = ls_q (tlist k) r" if "r \<noteq> q" "wait_link (Some r)" for r
    using that wait_link_not_ready(1)[OF that(2)] by (simp add: qs remove1_idem)
  moreover have "ls_q (tlist k') q = ts"
    using qs[of q] q wait_link_not_ready(1)[OF q(2)] by simp
  moreover have "ready_thread k' t"
    using ipc_frame_alive[OF k'(3)] w(1) k'(4) by (simp add: ready_thread_def)
  ultimately show ?thesis using k' q(1) by (intro exI[of _ k']) (simp add: rt_ipc_list_resume_def)
qed

text \<open>Waking all ends, and leaves no thread in the queue.\<close>

lemma resume_all_ok:
  assumes "kinv k" "wait_link (Some q)"
  shows "\<exists>k'. rt_ipc_list_resume_all q k = Some k' \<and> kinv k' \<and> ipc_frame k k' \<and>
    rt_current_thread k' = rt_current_thread k \<and> ls_q (tlist k') q = [] \<and>
    (\<forall>t \<in> set (ls_q (tlist k) q). ready_thread k' t \<and> th_error (thr k' t) = - 1) \<and>
    (\<forall>t. t \<notin> set (ls_q (tlist k) q) \<longrightarrow> thr k' t = thr k t) \<and>
    (\<forall>r. r \<noteq> q \<and> wait_link (Some r) \<longrightarrow> ls_q (tlist k') r = ls_q (tlist k) r)"
  using assms(1)
proof (induction "ls_q (tlist k) q" arbitrary: k)
  case Nil
  then show ?case by (subst rt_ipc_list_resume_all.simps) (simp add: Nil.hyps[symmetric])
next
  case (Cons t ts)
  let ?k0 = "upd_thr t (\<lambda>th. th\<lparr>th_error := - 1\<rparr>) k"
  have k0: "kinv ?k0" using kinv_thr_same[OF Cons.prems] by simp
  have "ls_q (tlist ?k0) q = t # ts" using Cons.hyps(2) by simp
  from list_resume_ok[OF k0 this assms(2)] obtain k1
    where k1: "rt_ipc_list_resume q ?k0 = Some k1" "kinv k1" "ipc_frame ?k0 k1"
    "thr k1 = (thr ?k0)(t := set_stat 1 (thr ?k0 t))" "rt_current_thread k1 = rt_current_thread ?k0"
    "ready_thread k1 t" "ls_q (tlist k1) q = ts"
    "\<forall>r. r \<noteq> q \<and> wait_link (Some r) \<longrightarrow> ls_q (tlist k1) r = ls_q (tlist ?k0) r"
    by blast
  have tts: "t \<notin> set ts" using ls_inv_distinct[OF kinvD(2)[OF Cons.prems], of q]
    unfolding Cons.hyps(2)[symmetric] by simp
  obtain k' where k': "rt_ipc_list_resume_all q k1 = Some k'" "kinv k'" "ipc_frame k1 k'"
    "rt_current_thread k' = rt_current_thread k1" "ls_q (tlist k') q = []"
    "\<forall>x \<in> set ts. ready_thread k' x \<and> th_error (thr k' x) = - 1"
    "\<forall>x. x \<notin> set ts \<longrightarrow> thr k' x = thr k1 x"
    "\<forall>r. r \<noteq> q \<and> wait_link (Some r) \<longrightarrow> ls_q (tlist k') r = ls_q (tlist k1) r"
    using Cons.hyps(1)[OF k1(7)[symmetric] k1(2)] k1(7) by auto
  have h: "ls_q (tlist k) q = t # ts" by (rule Cons.hyps(2)[symmetric])
  obtain r where "rt_thread_resume t ?k0 = Some (r, k1)"
    using k1(1) by (auto simp: rt_ipc_list_resume_def h split: bind_splits)
  then have "rt_ipc_list_resume_all q k = rt_ipc_list_resume_all q k1"
    by (subst rt_ipc_list_resume_all.simps) (simp add: h)
  moreover have "ipc_frame k k'" using ipc_frame_trans[OF k1(3) k'(3)] by (simp add: ipc_frame_def)
  moreover have "ready_thread k' t \<and> th_error (thr k' t) = - 1"
    using k'(7) tts k1(4,6) ipc_frame_alive[OF k'(3)] by (simp add: ready_thread_def)
  moreover have "thr k' x = thr k x" if "x \<notin> set (t # ts)" for x
    using that k'(7) k1(4) by simp
  moreover have "ls_q (tlist k') r = ls_q (tlist k) r" if "r \<noteq> q" "wait_link (Some r)" for r
    using that k'(8) k1(8) by simp
  moreover have "rt_current_thread k' = rt_current_thread k" using k'(4) k1(5) by simp
  ultimately show ?case
    unfolding Cons.hyps(2)[symmetric] using k'(1,2,5,6) by (intro exI[of _ k']) auto
qed

subsection \<open>Callers\<close>

text \<open>A thread that runs its own code: it is the current one, is ready, and no interrupt is served.\<close>

definition caller :: "nat \<Rightarrow> kernel \<Rightarrow> bool" where
  "caller c k \<longleftrightarrow> rt_current_thread k = Some c \<and> stat_of (thr k c) = RT_THREAD_READY \<and>
     rt_interrupt_nest k = 0"

text \<open>Waking the first thread of a queue, if there is one, and scheduling.\<close>

definition ipc_wake :: "qid \<Rightarrow> kernel \<Rightarrow> kernel option" where
  "ipc_wake q k =
     (if ls_q (tlist k) q \<noteq> [] then do { k \<leftarrow> rt_ipc_list_resume q k; rt_schedule k } else Some k)"

lemma ipc_wake_ok:
  assumes k: "kinv k" "rt_current_thread k = Some c" and q: "wait_link (Some q)"
  shows "\<exists>k'. ipc_wake q k = Some k' \<and> kinv k' \<and> ipc_frame k k' \<and>
    ls_q (tlist k') q = tl (ls_q (tlist k) q) \<and>
    (\<forall>r. wait_link (Some r) \<and> r \<noteq> q \<longrightarrow> ls_q (tlist k') r = ls_q (tlist k) r) \<and>
    (\<forall>t ts. ls_q (tlist k) q = t # ts \<longrightarrow> ready_thread k' t) \<and>
    (\<forall>t. th_error (thr k' t) = th_error (thr k t))"
proof (cases "ls_q (tlist k) q")
  case Nil
  then show ?thesis using k(1) by (intro exI[of _ k]) (simp add: ipc_wake_def)
next
  case (Cons t ts)
  obtain k1 where k1: "rt_ipc_list_resume q k = Some k1" "kinv k1" "ipc_frame k k1"
    "thr k1 = (thr k)(t := set_stat 1 (thr k t))" "rt_current_thread k1 = rt_current_thread k"
    "ready_thread k1 t" "ls_q (tlist k1) q = ts"
    "\<forall>r. r \<noteq> q \<and> wait_link (Some r) \<longrightarrow> ls_q (tlist k1) r = ls_q (tlist k) r"
    using list_resume_ok[OF k(1) Cons q] by blast
  obtain k' where k': "rt_schedule k1 = Some k'" "kinv k'" "sched_frame k1 k'"
    using schedule_ok[OF k1(2), of c] k1(5) k(2) by auto
  have w: "ls_q (tlist k') r = ls_q (tlist k1) r" if "wait_link (Some r)" for r
    using sched_frameD(16)[OF k'(3), of r] wait_link_not_ready(1)[OF that] by blast
  have "ready_thread k' t"
    using k1(6) sched_frameD(3)[OF k'(3)] ipc_frame_alive[OF sched_ipc_frame[OF k'(3)]]
    by (simp add: ready_thread_def)
  then show ?thesis
    using Cons k1 k' w[OF q] w ipc_frame_trans[OF k1(3) sched_ipc_frame[OF k'(3)]] sched_frameD(3)[OF k'(3)]
    by (intro exI[of _ k']) (simp add: ipc_wake_def)
qed

lemma ipc_wake_current:
  assumes k: "kinv k" "rt_current_thread k = Some c" and w: "ipc_wake q k = Some k'" "wait_link (Some q)"
  shows "rt_current_thread k' \<noteq> None"
proof (cases "ls_q (tlist k) q")
  case Nil
  then show ?thesis using w k by (simp add: ipc_wake_def)
next
  case (Cons t ts)
  obtain k1 where k1: "rt_ipc_list_resume q k = Some k1" "kinv k1" "rt_current_thread k1 = rt_current_thread k"
    using list_resume_ok[OF k(1) Cons w(2)] by blast
  obtain k2 where "rt_schedule k1 = Some k2" "sched_frame k1 k2" using schedule_ok[OF k1(2), of c] k1(3) k(2) by auto
  then show ?thesis using w(1) Cons k1(1,3) k(2) sched_frameD(17)[of k1 k2] by (simp add: ipc_wake_def)
qed

lemma ipc_block_ok:
  assumes k: "kinv k" "caller c k" and q: "wait_link (Some q)" and f: "flag = 0 \<or> flag = 1"
    and t: "timeout < 0x7fffffff"
  shows "\<exists>k0 k'. wait_on q flag c timeout (upd_thr c (\<lambda>th. th\<lparr>th_error := 0\<rparr>) k) = Some k0 \<and>
    rt_schedule k0 = Some k' \<and> kinv k' \<and> ipc_frame k k' \<and> rt_current_thread k' \<noteq> None \<and>
    stat_of (thr k' c) = 2 \<and> th_error (thr k' c) = 0 \<and> (\<forall>x. x \<noteq> c \<longrightarrow> thr k' x = thr k x) \<and>
    set (ls_q (tlist k') q) = insert c (set (ls_q (tlist k) q)) \<and>
    (ls_in (tmlist k') (ThreadTimer c) \<noteq> None \<longleftrightarrow> timeout > 0)"
proof -
  let ?k = "upd_thr c (\<lambda>th. th\<lparr>th_error := 0\<rparr>) k"
  have k0: "kinv ?k" using kinv_thr_same[OF k(1)] by simp
  have c: "rt_current_thread ?k = Some c" "stat_of (thr ?k c) = 1" using k(2) by (auto simp: caller_def)
  obtain k1 where k1: "wait_on q flag c timeout ?k = Some k1" "kinv k1" "ipc_frame ?k k1"
    "thr k1 = (thr ?k)(c := set_stat 2 (thr ?k c))" "rt_current_thread k1 = Some c"
    "ls_in (tmlist k1) (ThreadTimer c) = (if timeout > 0 then Some () else None)"
    "ls_q (tlist k1) = (ls_q (tlist ?k))(q := enqueued flag (\<lambda>t. th_current_priority (thr ?k t)) c
      (ls_q (tlist ?k) q))"
    using wait_on_ok[OF k0 c q f t] by blast
  obtain k' where k': "rt_schedule k1 = Some k'" "kinv k'" "sched_frame k1 k'"
    using schedule_ok[OF k1(2,5)] by blast
  have "ls_q (tlist k') q = ls_q (tlist k1) q"
    using sched_frameD(16)[OF k'(3), of q] wait_link_not_ready(1)[OF q] by blast
  moreover have "ipc_frame k k'"
    using ipc_frame_trans[OF k1(3) sched_ipc_frame[OF k'(3)]] by (simp add: ipc_frame_def)
  ultimately show ?thesis
    using k1 k' sched_frameD(3,5,17)[OF k'(3)] by (intro exI[of _ k1] exI[of _ k']) simp
qed

text \<open>\<open>rt_thread_resume\<close> and \<open>rt_schedule\<close>, on a thread that may be suspended or not.\<close>

lemma resume_any_ok:
  assumes k: "kinv k" "rt_current_thread k \<noteq> None" and t: "alive k t"
  shows "\<exists>e k1 k'. rt_thread_resume t k = Some (e, k1) \<and> rt_schedule k1 = Some k' \<and> kinv k' \<and>
    rt_current_thread k' \<noteq> None \<and> ipc_frame k k' \<and> (stat_of (thr k t) = 2 \<longrightarrow> ready_thread k' t) \<and>
    (stat_of (thr k t) \<noteq> 2 \<longrightarrow> thr k' = thr k)"
proof -
  obtain c where c: "rt_current_thread k = Some c" using k(2) by blast
  obtain e k1 where k1: "rt_thread_resume t k = Some (e, k1)" "kinv k1" "ipc_frame k k1"
    "rt_current_thread k1 = Some c" "thr k1 = (if stat_of (thr k t) = 2 then (thr k)(t := set_stat 1 (thr k t)) else thr k)"
  proof (cases "stat_of (thr k t) = 2")
    case True
    then show ?thesis using resume_ok[OF k(1) t] that c by auto
  next
    case False
    then show ?thesis using that[of "- 1" k] t k(1) c by (simp add: rt_thread_resume_def alive_def)
  qed
  obtain k' where k': "rt_schedule k1 = Some k'" "kinv k'" "sched_frame k1 k'" using schedule_ok[OF k1(2,4)] by blast
  have f: "ipc_frame k k'" by (rule ipc_frame_trans[OF k1(3) sched_ipc_frame[OF k'(3)]])
  have "thr k' = thr k1" "rt_current_thread k' \<noteq> None" using sched_frameD(3,17)[OF k'(3)] k1(4) by simp_all
  then show ?thesis using k1 k'(1,2) f ipc_frame_alive[OF f, of t] t
    by (intro exI[of _ e] exI[of _ k1] exI[of _ k']) (auto simp: ready_thread_def)
qed

subsection \<open>Waiting on a queue of a driver\<close>

text \<open>
  The blocking calls of \<open>components/drivers/src\<close> suspend the thread, link it behind the others, and start its
  timer for a positive time.
\<close>

definition suspend_on :: "qid \<Rightarrow> nat \<Rightarrow> int \<Rightarrow> kernel \<Rightarrow> kernel option" where
  "suspend_on q thread timeout k =
     do { (_, k) \<leftarrow> rt_thread_suspend thread k;
          tq \<leftarrow> ls_push_back q thread (tlist k);
          let k = k\<lparr>tlist := tq\<rparr>;
          if timeout > 0 then arm_timer thread (word_of_int timeout) k else Some k }"

lemma suspend_on_fifo: "suspend_on q t timeout = wait_on q 0 t timeout"
  by (rule ext) (auto simp: suspend_on_def wait_on_def rt_ipc_list_suspend_def Let_def split: Option.bind_splits)

lemma driver_block_ok:
  assumes k: "kinv k" "caller c k" and q: "wait_link (Some q)" and t: "timeout < 0x7fffffff"
  shows "\<exists>k0 k'. suspend_on q c timeout (upd_thr c (\<lambda>th. th\<lparr>th_error := 0\<rparr>) k) = Some k0 \<and>
    rt_schedule k0 = Some k' \<and> kinv k' \<and> ipc_frame k k' \<and> rt_current_thread k' \<noteq> None \<and>
    stat_of (thr k' c) = 2 \<and> th_error (thr k' c) = 0 \<and>
    set (ls_q (tlist k') q) = insert c (set (ls_q (tlist k) q)) \<and>
    (ls_in (tmlist k') (ThreadTimer c) \<noteq> None \<longleftrightarrow> timeout > 0)"
  using ipc_block_ok[OF k q _ t, of 0] by (auto simp: suspend_on_fifo)

subsection \<open>Objects that are not threads\<close>

definition ipc_oid :: "oid \<Rightarrow> bool" where
  "ipc_oid x \<longleftrightarrow> (\<forall>t. x \<noteq> OThread t) \<and> (\<forall>m. x \<noteq> OTimer m)"

lemma ipc_oid_simps [simp]:
  "ipc_oid (OSem n)" "ipc_oid (OMutex n)" "ipc_oid (OEvent n)" "ipc_oid (OMb n)" "ipc_oid (OMq n)"
  "ipc_oid (OMp n)" "ipc_oid (ODev n)"
  by (simp_all add: ipc_oid_def)

lemma ipc_oid_neq:
  "ipc_oid x \<Longrightarrow> x \<noteq> OThread t" "ipc_oid x \<Longrightarrow> OThread t \<noteq> x"
  "ipc_oid x \<Longrightarrow> x \<noteq> OTimer m" "ipc_oid x \<Longrightarrow> OTimer m \<noteq> x"
  by (auto simp: ipc_oid_def)

lemma ipc_frame_objs: "ipc_frame k k' \<Longrightarrow> ipc_oid x \<Longrightarrow> objs k' x = objs k x"
  using ipc_frameD(11)[of k k' x] by (auto simp: ipc_oid_def)

lemma kinv_objs:
  assumes k: "kinv k" and x: "ipc_oid x" "\<And>y. y \<noteq> x \<Longrightarrow> obs y = objs k y"
    and o: "obj_inv (k\<lparr>objs := obs, olist := OL\<rparr>)"
  shows "kinv (k\<lparr>objs := obs, olist := OL\<rparr>)"
proof -
  have "thread_inv (k\<lparr>objs := obs, olist := OL\<rparr>) t" for t
    by (rule thread_inv_same[OF kinvD(5)[OF k]]) (use x ipc_oid_neq[OF x(1)] in auto)
  then show ?thesis using kinvD[OF k] o by (auto simp: kinv_def)
qed

lemma kinv_object_detach:
  assumes "kinv k" "ipc_oid x"
  shows "kinv (rt_object_detach x k)"
proof -
  have e: "rt_object_detach x k = k\<lparr>objs := (objs k)(x := (objs k x)\<lparr>ob_type := 0\<rparr>),
      olist := ls_remove x (olist k)\<rparr>"
    by (simp add: rt_object_detach_def)
  show ?thesis
    unfolding e using obj_inv_detach[OF kinvD(1)[OF assms(1)], of x]
    by (intro kinv_objs[OF assms]) (simp_all add: e)
qed

lemma kinv_object_init:
  assumes "kinv k" "ipc_oid x" "rt_object_init x c name k = Some k'"
  shows "kinv k'" "ipc_oid y \<Longrightarrow> y \<noteq> x \<Longrightarrow> objs k' y = objs k y" "tlist k' = tlist k" "thr k' = thr k"
    "rt_object_get_type x k' = of_nat c" "rt_object_is_systemobject x k'"
    "rt_current_thread k' = rt_current_thread k"
proof -
  obtain nm OL where e: "k' = k\<lparr>objs := (objs k)(x := (objs k x)\<lparr>ob_type := of_nat c OR 0x80,
      ob_name := nm\<rparr>), olist := OL\<rparr>"
    using assms(3) by (auto simp: object_init_Some)
  show "kinv k'"
    unfolding e by (rule kinv_objs[OF assms(1,2)])
      (use obj_inv_init[OF kinvD(1)[OF assms(1)] assms(3)] in \<open>simp_all add: e\<close>)
  show "rt_object_get_type x k' = of_nat c" "rt_object_is_systemobject x k'"
    using object_init_type[OF assms(3)] by auto
qed (use assms(3) in \<open>auto simp: object_init_Some\<close>)

text \<open>The flag of such an object is a field of its own.\<close>

lemma kinv_object_flag:
  "kinv k \<Longrightarrow> ipc_oid x \<Longrightarrow> kinv (k\<lparr>objs := (objs k)(x := (objs k x)\<lparr>ob_flag := f\<rparr>)\<rparr>)"
  using kinv_objs[of k x "(objs k)(x := (objs k x)\<lparr>ob_flag := f\<rparr>)" "olist k"]
    timer_obj_inv[OF kinvD(1), of k x f] by simp

subsection \<open>The life cycle of an object with one wait queue\<close>

text \<open>
  Semaphores, mutexes and events are detached and deleted in the same way: all waiting threads are
  woken with an error, then the object is taken out of its class.
\<close>

locale ipc_object =
  fixes queue :: "nat \<Rightarrow> qid" and oid :: "nat \<Rightarrow> oid" and cls :: u8
    and detach :: "nat \<Rightarrow> kernel \<Rightarrow> (rt_err_t \<times> kernel) option"
    and delete :: "nat \<Rightarrow> kernel \<Rightarrow> (rt_err_t \<times> kernel) option"
  assumes queue: "wait_link (Some (queue n))" and oid: "ipc_oid (oid n)"
    and detach_steps: "rt_object_get_type (oid n) k = cls \<Longrightarrow> rt_object_is_systemobject (oid n) k \<Longrightarrow>
      detach n k = do { k \<leftarrow> rt_ipc_list_resume_all (queue n) k; Some (0, rt_object_detach (oid n) k) }"
    and delete_steps: "rt_object_get_type (oid n) k = cls \<Longrightarrow> \<not> rt_object_is_systemobject (oid n) k \<Longrightarrow>
      rt_interrupt_nest k = 0 \<Longrightarrow>
      delete n k = do { k \<leftarrow> rt_ipc_list_resume_all (queue n) k; k \<leftarrow> rt_object_delete (oid n) k; Some (0, k) }"
begin

lemma woken_and_dead:
  assumes k: "kinv k"
  shows "\<exists>k1 k'. rt_ipc_list_resume_all (queue n) k = Some k1 \<and> k' = rt_object_detach (oid n) k1 \<and>
    rt_object_is_systemobject (oid n) k1 = rt_object_is_systemobject (oid n) k \<and>
    kinv k' \<and> rt_object_get_type (oid n) k' = 0 \<and> ls_q (tlist k') (queue n) = [] \<and>
    (\<forall>t \<in> set (ls_q (tlist k) (queue n)). ready_thread k' t \<and> th_error (thr k' t) = - 1) \<and>
    (\<forall>t. t \<notin> set (ls_q (tlist k) (queue n)) \<longrightarrow> thr k' t = thr k t)"
proof -
  obtain k1 where k1: "rt_ipc_list_resume_all (queue n) k = Some k1" "kinv k1" "ipc_frame k k1"
    "ls_q (tlist k1) (queue n) = []"
    "\<forall>t \<in> set (ls_q (tlist k) (queue n)). ready_thread k1 t \<and> th_error (thr k1 t) = - 1"
    "\<forall>t. t \<notin> set (ls_q (tlist k) (queue n)) \<longrightarrow> thr k1 t = thr k t"
    using resume_all_ok[OF k queue, of n] by blast
  let ?k' = "rt_object_detach (oid n) k1"
  have o: "objs k1 (oid n) = objs k (oid n)"
    using ipc_frameD(11)[OF k1(3)] oid[of n] by (auto simp: ipc_oid_def)
  have f: "tlist ?k' = tlist k1" "thr ?k' = thr k1" "\<And>t. ready_thread ?k' t = ready_thread k1 t"
    using ipc_oid_neq[OF oid[of n]]
    by (auto simp: rt_object_detach_def ready_thread_def alive_def rt_object_get_type_def)
  moreover have "rt_object_get_type (oid n) ?k' = 0"
    by (simp add: rt_object_detach_def rt_object_get_type_def)
  moreover have "kinv ?k'" by (rule kinv_object_detach[OF k1(2) oid])
  moreover have "rt_object_is_systemobject (oid n) k1 = rt_object_is_systemobject (oid n) k"
    by (simp add: rt_object_is_systemobject_def o)
  ultimately show ?thesis using k1 by (intro exI[of _ k1] exI[of _ ?k']) auto
qed

lemma detach_ok:
  assumes k: "kinv k" and ty: "rt_object_get_type (oid n) k = cls" "rt_object_is_systemobject (oid n) k"
  shows "\<exists>k'. detach n k = Some (0, k') \<and> kinv k' \<and> rt_object_get_type (oid n) k' = 0 \<and>
    ls_q (tlist k') (queue n) = [] \<and>
    (\<forall>t \<in> set (ls_q (tlist k) (queue n)). ready_thread k' t \<and> th_error (thr k' t) = - 1) \<and>
    (\<forall>t. t \<notin> set (ls_q (tlist k) (queue n)) \<longrightarrow> thr k' t = thr k t)"
  using woken_and_dead[OF k, of n] ty by (auto simp: detach_steps)

lemma delete_ok:
  assumes k: "kinv k" and ty: "rt_object_get_type (oid n) k = cls" "\<not> rt_object_is_systemobject (oid n) k"
    and i: "rt_interrupt_nest k = 0"
  shows "\<exists>k'. delete n k = Some (0, k') \<and> kinv k' \<and> rt_object_get_type (oid n) k' = 0 \<and>
    ls_q (tlist k') (queue n) = [] \<and>
    (\<forall>t \<in> set (ls_q (tlist k) (queue n)). ready_thread k' t \<and> th_error (thr k' t) = - 1) \<and>
    (\<forall>t. t \<notin> set (ls_q (tlist k) (queue n)) \<longrightarrow> thr k' t = thr k t)"
proof -
  obtain k1 where k1: "rt_ipc_list_resume_all (queue n) k = Some k1"
    "\<not> rt_object_is_systemobject (oid n) k1"
    and rest: "kinv (rt_object_detach (oid n) k1) \<and> rt_object_get_type (oid n) (rt_object_detach (oid n) k1) = 0 \<and>
    ls_q (tlist (rt_object_detach (oid n) k1)) (queue n) = [] \<and>
    (\<forall>t \<in> set (ls_q (tlist k) (queue n)). ready_thread (rt_object_detach (oid n) k1) t \<and>
      th_error (thr (rt_object_detach (oid n) k1) t) = - 1) \<and>
    (\<forall>t. t \<notin> set (ls_q (tlist k) (queue n)) \<longrightarrow> thr (rt_object_detach (oid n) k1) t = thr k t)"
    using woken_and_dead[OF k, of n] ty(2) by blast
  have "rt_object_delete (oid n) k1 = Some (rt_object_detach (oid n) k1)"
    using k1(2) by (simp add: object_delete_Some)
  then have "delete n k = Some (0, rt_object_detach (oid n) k1)" using ty i k1(1) by (simp add: delete_steps)
  then show ?thesis using rest by blast
qed

end

text \<open>A well-formed kernel with one more static object.\<close>

definition ex_ipc :: "oid \<Rightarrow> nat \<Rightarrow> u8 \<Rightarrow> kernel \<Rightarrow> kernel" where
  "ex_ipc x c flag k =
     k\<lparr>objs := (objs k)(x := \<lparr>ob_name = replicate 16 0, ob_type = of_nat c OR 0x80, ob_flag = flag\<rparr>),
       olist := (olist k)\<lparr>ls_q := (ls_q (olist k))(c := x # ls_q (olist k) c),
         ls_in := (ls_in (olist k))(x := Some c)\<rparr>\<rparr>"

lemma ex_ipc_inv:
  assumes "kinv k" "ipc_oid x" "ls_in (olist k) x = None" "0 < c" "c < 11"
  shows "kinv (ex_ipc x c flag k)"
proof -
  have "ls_inv (olist (ex_ipc x c flag k))"
    using ls_inv_push_front[of "olist k" c x] kinvD(1)[OF assms(1)] assms(3)
    by (simp add: ex_ipc_def obj_inv_def ls_push_front_def)
  then have "obj_inv (ex_ipc x c flag k)"
    using kinvD(1)[OF assms(1)] class_type(1)[OF assms(5)] assms(4,5)
    by (auto simp: obj_inv_def ex_ipc_def obj_ok_def)
  then show ?thesis using kinv_objs[OF assms(1,2)] by (simp add: ex_ipc_def)
qed

end
