(* ===== verification/Semaphore.thy ===== *)
theory Semaphore
  imports Ipc_Base
begin

text \<open>
  Semaphores (\<open>rt_sem_*\<close> of \<open>src/ipc.c\<close>): a counter and the queue of threads that wait for it. A
  released token goes to the first waiting thread directly; the counter grows only when nobody waits.
\<close>

subsection \<open>Operations\<close>

definition rt_sem_init :: "nat \<Rightarrow> u8 list \<Rightarrow> u32 \<Rightarrow> u8 \<Rightarrow> kernel \<Rightarrow> (rt_err_t \<times> kernel) option" where
  "rt_sem_init n name value flag k =
     do { k \<leftarrow> rt_object_init (OSem n) RT_Object_Class_Semaphore name k;
          k \<leftarrow> rt_ipc_object_init (SemQ n) k;
          let k = k\<lparr>sems := (sems k)(n := \<lparr>sem_value = ucast value\<rparr>)\<rparr>;
          let k = upd_obj (OSem n) (\<lambda>ob. ob\<lparr>ob_flag := flag\<rparr>) k;
          Some (RT_EOK, k) }"

definition rt_sem_detach :: "nat \<Rightarrow> kernel \<Rightarrow> (rt_err_t \<times> kernel) option" where
  "rt_sem_detach n k =
     do { RT_ASSERT (rt_object_get_type (OSem n) k = of_nat RT_Object_Class_Semaphore);
          RT_ASSERT (rt_object_is_systemobject (OSem n) k);
          k \<leftarrow> rt_ipc_list_resume_all (SemQ n) k;
          Some (RT_EOK, rt_object_detach (OSem n) k) }"

definition rt_sem_create ::
  "nat option \<Rightarrow> u8 list \<Rightarrow> u32 \<Rightarrow> u8 \<Rightarrow> kernel \<Rightarrow> (nat option \<times> kernel) option" where
  "rt_sem_create mem name value flag k =
     do { RT_DEBUG_NOT_IN_INTERRUPT k;
          (x, k) \<leftarrow> rt_object_allocate (map_option OSem mem) RT_Object_Class_Semaphore name k;
          case x of
            Some (OSem n) \<Rightarrow>
              do { k \<leftarrow> rt_ipc_object_init (SemQ n) k;
                   let k = k\<lparr>sems := (sems k)(n := \<lparr>sem_value = ucast value\<rparr>)\<rparr>;
                   let k = upd_obj (OSem n) (\<lambda>ob. ob\<lparr>ob_flag := flag\<rparr>) k;
                   Some (Some n, k) }
          | _ \<Rightarrow> Some (None, k) }"

definition rt_sem_delete :: "nat \<Rightarrow> kernel \<Rightarrow> (rt_err_t \<times> kernel) option" where
  "rt_sem_delete n k =
     do { RT_DEBUG_NOT_IN_INTERRUPT k;
          RT_ASSERT (rt_object_get_type (OSem n) k = of_nat RT_Object_Class_Semaphore);
          RT_ASSERT (\<not> rt_object_is_systemobject (OSem n) k);
          k \<leftarrow> rt_ipc_list_resume_all (SemQ n) k;
          k \<leftarrow> rt_object_delete (OSem n) k;
          Some (RT_EOK, k) }"

definition rt_sem_take :: "nat \<Rightarrow> int \<Rightarrow> kernel \<Rightarrow> (rt_err_t call \<times> kernel) option" where
  "rt_sem_take n time k =
     do { RT_ASSERT (rt_object_get_type (OSem n) k = of_nat RT_Object_Class_Semaphore);
          if sem_value (sems k n) > 0
          then Some (Return RT_EOK, k\<lparr>sems := (sems k)(n := \<lparr>sem_value = sem_value (sems k n) - 1\<rparr>)\<rparr>)
          else if time = 0 then Some (Return (- RT_ETIMEOUT), k)
          else do { RT_DEBUG_IN_THREAD_CONTEXT k;
                    thread \<leftarrow> rt_thread_self k;
                    let k = upd_thr thread (\<lambda>th. th\<lparr>th_error := RT_EOK\<rparr>) k;
                    k \<leftarrow> wait_on (SemQ n) (ob_flag (objs k (OSem n))) thread time k;
                    k \<leftarrow> rt_schedule k;
                    Some (Blocked, k) } }"

definition rt_sem_take_end :: "nat \<Rightarrow> kernel \<Rightarrow> rt_err_t" where
  "rt_sem_take_end thread k =
     (if th_error (thr k thread) \<noteq> RT_EOK then th_error (thr k thread) else RT_EOK)"

definition rt_sem_trytake :: "nat \<Rightarrow> kernel \<Rightarrow> (rt_err_t call \<times> kernel) option" where
  "rt_sem_trytake n k = rt_sem_take n 0 k"

definition rt_sem_release :: "nat \<Rightarrow> kernel \<Rightarrow> (rt_err_t \<times> kernel) option" where
  "rt_sem_release n k =
     do { RT_ASSERT (rt_object_get_type (OSem n) k = of_nat RT_Object_Class_Semaphore);
          if ls_q (tlist k) (SemQ n) \<noteq> []
          then do { k \<leftarrow> rt_ipc_list_resume (SemQ n) k; k \<leftarrow> rt_schedule k; Some (RT_EOK, k) }
          else Some (RT_EOK, k\<lparr>sems := (sems k)(n := \<lparr>sem_value = sem_value (sems k n) + 1\<rparr>)\<rparr>) }"

text \<open>The command \<open>RT_IPC_CMD_RESET\<close> is 1.\<close>

definition rt_sem_control :: "nat \<Rightarrow> int \<Rightarrow> u32 \<Rightarrow> kernel \<Rightarrow> (rt_err_t \<times> kernel) option" where
  "rt_sem_control n cmd arg k =
     do { RT_ASSERT (rt_object_get_type (OSem n) k = of_nat RT_Object_Class_Semaphore);
          if cmd = 1
          then do { k \<leftarrow> rt_ipc_list_resume_all (SemQ n) k;
                    let k = k\<lparr>sems := (sems k)(n := \<lparr>sem_value = ucast arg\<rparr>)\<rparr>;
                    k \<leftarrow> rt_schedule k;
                    Some (RT_EOK, k) }
          else Some (- RT_ERROR, k) }"

interpretation sem: ipc_object SemQ OSem 2 rt_sem_detach rt_sem_delete
  by unfold_locales (simp_all add: rt_sem_detach_def rt_sem_delete_def RT_DEBUG_NOT_IN_INTERRUPT_def
      rt_interrupt_get_nest_def)

subsection \<open>The abstract semaphore\<close>

text \<open>A counting semaphore: the tokens that are free and the threads that wait, in order.\<close>

type_synonym csem = "u16 \<times> nat list"

definition sem_abs :: "nat \<Rightarrow> kernel \<Rightarrow> csem" where
  "sem_abs n k = (sem_value (sems k n), ls_q (tlist k) (SemQ n))"

text \<open>Nobody waits while there are tokens.\<close>

definition csem_inv :: "csem \<Rightarrow> bool" where
  "csem_inv s \<longleftrightarrow> fst s = 0 \<or> snd s = []"

definition csem_release :: "csem \<Rightarrow> csem" where
  "csem_release s = (if snd s = [] then (fst s + 1, []) else (fst s, tl (snd s)))"

text \<open>The object is a semaphore with a valid flag.\<close>

definition sem_ok :: "nat \<Rightarrow> kernel \<Rightarrow> bool" where
  "sem_ok n k \<longleftrightarrow> rt_object_get_type (OSem n) k = 2 \<and>
     (ob_flag (objs k (OSem n)) = 0 \<or> ob_flag (objs k (OSem n)) = 1)"

lemma sem_ok_frame: "ipc_frame k k' \<Longrightarrow> sem_ok n k' = sem_ok n k"
  by (simp add: sem_ok_def rt_object_get_type_def ipc_frame_objs)

lemma sem_abs_sched: "sched_frame k k' \<Longrightarrow> sem_abs n k' = sem_abs n k"
  by (simp add: sem_abs_def sched_frameD)

lemma sem_block_ok:
  assumes k: "kinv k" "caller c k" "sem_ok n k" and v: "sem_value (sems k n) = 0"
    and t: "time \<noteq> 0" "time < 0x7fffffff"
  shows "\<exists>k'. rt_sem_take n time k = Some (Blocked, k') \<and> kinv k' \<and> sem_ok n k' \<and>
    stat_of (thr k' c) = 2 \<and> th_error (thr k' c) = 0 \<and> (\<forall>x. x \<noteq> c \<longrightarrow> thr k' x = thr k x) \<and>
    sem_abs n k' = (0, enqueued (ob_flag (objs k (OSem n))) (\<lambda>t. th_current_priority (thr k t)) c
      (ls_q (tlist k) (SemQ n))) \<and>
    ls_in (tmlist k') (ThreadTimer c) = (if time > 0 then Some () else None) \<and>
    (time > 0 \<longrightarrow> tm_timeout_tick (tmr k' (ThreadTimer c)) = rt_tick k + word_of_int time) \<and>
    rt_current_thread k' \<noteq> None"
proof -
  let ?k0 = "upd_thr c (\<lambda>th. th\<lparr>th_error := 0\<rparr>) k"
  have k0: "kinv ?k0" using kinv_thr_same[OF k(1)] by simp
  have c: "rt_current_thread ?k0 = Some c" "stat_of (thr ?k0 c) = 1" using k(2) by (auto simp: caller_def)
  have p: "(\<lambda>t. th_current_priority (thr ?k0 t)) = (\<lambda>t. th_current_priority (thr k t))" by auto
  have f: "ob_flag (objs k (OSem n)) = 0 \<or> ob_flag (objs k (OSem n)) = 1" using k(3) by (simp add: sem_ok_def)
  have w: "wait_link (Some (SemQ n))" by simp
  from wait_on_ok[OF k0 c w f t(2)] obtain k1 where k1:
    "wait_on (SemQ n) (ob_flag (objs k (OSem n))) c time ?k0 = Some k1" "kinv k1" "ipc_frame ?k0 k1"
    "thr k1 = (thr ?k0)(c := set_stat 2 (thr ?k0 c))" "rt_current_thread k1 = Some c"
    "ls_in (tmlist k1) (ThreadTimer c) = (if time > 0 then Some () else None)"
    "time > 0 \<longrightarrow> tm_timeout_tick (tmr k1 (ThreadTimer c)) = rt_tick ?k0 + word_of_int time"
    "ls_q (tlist k1) = (ls_q (tlist ?k0))(SemQ n := enqueued (ob_flag (objs k (OSem n)))
      (\<lambda>t. th_current_priority (thr ?k0 t)) c (ls_q (tlist ?k0) (SemQ n)))"
    by blast
  obtain k' where k': "rt_schedule k1 = Some k'" "kinv k'" "sched_frame k1 k'"
    using schedule_ok[OF k1(2,5)] by blast
  have "rt_sem_take n time k = Some (Blocked, k')"
    using k(2,3) v t(1) k1(1) k'(1)
    by (simp add: rt_sem_take_def sem_ok_def caller_def rt_thread_self_def RT_DEBUG_IN_THREAD_CONTEXT_def
        RT_DEBUG_NOT_IN_INTERRUPT_def rt_interrupt_get_nest_def)
  moreover have "sem_ok n k'"
    using k(3) sem_ok_frame[OF ipc_frame_trans[OF k1(3) sched_ipc_frame[OF k'(3)]]]
    by (simp add: sem_ok_def rt_object_get_type_def)
  moreover have "sem_abs n k' = (0, enqueued (ob_flag (objs k (OSem n)))
      (\<lambda>t. th_current_priority (thr k t)) c (ls_q (tlist k) (SemQ n)))"
    using sem_abs_sched[OF k'(3)] k1(8) ipc_frameD(1)[OF k1(3)] v p by (simp add: sem_abs_def)
  ultimately show ?thesis
    using k'(2) sched_frameD(3-5,17)[OF k'(3)] k1(4-7) by (intro exI[of _ k']) simp
qed

lemma sem_release_ok:
  assumes k: "kinv k" "rt_current_thread k = Some c" "sem_ok n k"
  shows "\<exists>k'. rt_sem_release n k = Some (0, k') \<and> kinv k' \<and> sem_ok n k' \<and>
    sem_abs n k' = csem_release (sem_abs n k) \<and> rt_current_thread k' \<noteq> None \<and>
    (\<forall>x. alive k' x = alive k x) \<and>
    (case ls_q (tlist k) (SemQ n) of
       [] \<Rightarrow> thr k' = thr k \<and> tlist k' = tlist k
     | t # _ \<Rightarrow> ready_thread k' t \<and> thr k' = (thr k)(t := set_stat 1 (thr k t)))"
proof (cases "ls_q (tlist k) (SemQ n)")
  case Nil
  then show ?thesis using k
    by (auto simp: rt_sem_release_def sem_ok_def sem_abs_def csem_release_def rt_object_get_type_def alive_def)
next
  case (Cons t ts)
  have w: "wait_link (Some (SemQ n))" by simp
  obtain k1 where k1: "rt_ipc_list_resume (SemQ n) k = Some k1" "kinv k1" "ipc_frame k k1"
    "thr k1 = (thr k)(t := set_stat 1 (thr k t))" "rt_current_thread k1 = rt_current_thread k"
    "ready_thread k1 t" "ls_q (tlist k1) (SemQ n) = ts"
    using list_resume_ok[OF k(1) Cons w] by blast
  obtain k' where k': "rt_schedule k1 = Some k'" "kinv k'" "sched_frame k1 k'"
    using schedule_ok[OF k1(2), of c] k1(5) k(2) by auto
  have fr: "ipc_frame k k'" by (rule ipc_frame_trans[OF k1(3) sched_ipc_frame[OF k'(3)]])
  have "rt_sem_release n k = Some (0, k')"
    using k(3) Cons k1(1) k'(1) by (simp add: rt_sem_release_def sem_ok_def)
  moreover have "sem_abs n k' = csem_release (sem_abs n k)"
    using sem_abs_sched[OF k'(3)] k1(7) ipc_frameD(1)[OF k1(3)] Cons
    by (simp add: sem_abs_def csem_release_def)
  moreover have "thr k' = thr k1" "ready_thread k' t"
    using sched_frameD(3)[OF k'(3)] k1(6) ipc_frame_alive[OF sched_ipc_frame[OF k'(3)]]
    by (auto simp: ready_thread_def)
  ultimately show ?thesis using k'(2) k(2,3) sem_ok_frame[OF fr] ipc_frame_alive[OF fr] k1(4,5) Cons sched_frameD(17)[OF k'(3)] by (intro exI[of _ k']) simp
qed

lemma sem_release_lock:
  assumes k: "kinv k" "rt_current_thread k = Some c" and r: "rt_sem_release n k = Some (e, k')"
  shows "rt_scheduler_lock_nest k' = rt_scheduler_lock_nest k \<and> rt_interrupt_nest k' = rt_interrupt_nest k"
proof (cases "ls_q (tlist k) (SemQ n)")
  case Nil
  then show ?thesis using r by (auto simp: rt_sem_release_def bind_eq_Some_conv)
next
  case (Cons t ts)
  have w: "wait_link (Some (SemQ n))" by simp
  obtain k1 where k1: "rt_ipc_list_resume (SemQ n) k = Some k1" "kinv k1" "ipc_frame k k1"
    "rt_current_thread k1 = rt_current_thread k" using list_resume_ok[OF k(1) Cons w] by blast
  obtain k2 where "rt_schedule k1 = Some k2" "sched_frame k1 k2" using schedule_ok[OF k1(2), of c] k1(4) k(2) by auto
  then show ?thesis using r Cons k1(1) ipc_frameD[OF k1(3)] ipc_frameD[OF sched_ipc_frame, of k1 k2]
    by (auto simp: rt_sem_release_def bind_eq_Some_conv)
qed

lemma sem_timeout_ok:
  assumes k: "kinv k" "rt_current_thread k \<noteq> None" "sem_ok n k"
    and t: "alive k t" "stat_of (thr k t) = 2" "ls_in (tmlist k) (ThreadTimer t) = None"
  shows "\<exists>k'. rt_thread_timeout t k = Some k' \<and> kinv k' \<and> sem_ok n k' \<and> rt_current_thread k' \<noteq> None \<and>
    sem_abs n k' = (sem_value (sems k n), remove1 t (ls_q (tlist k) (SemQ n)))"
proof -
  obtain c where c: "rt_current_thread k = Some c" using k(2) by auto
  obtain k1 k' where *: "rt_thread_timeout t k = Some k'" "kinv k'" "ipc_frame k k1" "sched_frame k1 k'"
    "rt_current_thread k1 = Some c"
    "\<forall>q. ls_q (tlist k1) q = remove1 t (ls_q (tlist k) q) @
       (if c \<noteq> t \<and> q = Ready (prio_of k t) then [t] else [])"
    using timeout_ok[OF k(1) c t] by blast
  show ?thesis
    using *(1,2,5,6) k(3) sem_ok_frame[OF ipc_frame_trans[OF *(3) sched_ipc_frame[OF *(4)]]]
      sched_frameD(17)[OF *(4)] sem_abs_sched[OF *(4)] ipc_frameD(1)[OF *(3)]
    by (intro exI[of _ k']) (simp add: sem_abs_def)
qed

subsection \<open>Runs\<close>

text \<open>
  Any sequence of calls on one semaphore, with the number \<open>g\<close> of tokens given out (takes that return
  \<open>RT_EOK\<close> at once and waiting threads woken by a release) and the number \<open>r\<close> of releases. Timeouts of
  any threads may come in between, and steps of the rest of the system that leave this semaphore
  alone.
\<close>

inductive sem_run :: "nat \<Rightarrow> kernel \<Rightarrow> nat \<Rightarrow> nat \<Rightarrow> kernel \<Rightarrow> bool" for n k0 where
  start: "sem_run n k0 0 0 k0"
| got: "sem_run n k0 g r k \<Longrightarrow> caller c k \<Longrightarrow> time < 0x7fffffff \<Longrightarrow>
    rt_sem_take n time k = Some (Return 0, k') \<Longrightarrow> sem_run n k0 (Suc g) r k'"
| not_got: "sem_run n k0 g r k \<Longrightarrow> caller c k \<Longrightarrow> time < 0x7fffffff \<Longrightarrow>
    rt_sem_take n time k = Some (a, k') \<Longrightarrow> a \<noteq> Return 0 \<Longrightarrow> sem_run n k0 g r k'"
| release: "sem_run n k0 g r k \<Longrightarrow> rt_sem_release n k = Some (e, k') \<Longrightarrow>
    sem_run n k0 (if ls_q (tlist k) (SemQ n) = [] then g else Suc g) (Suc r) k'"
| timeout: "sem_run n k0 g r k \<Longrightarrow> alive k t \<Longrightarrow> stat_of (thr k t) = 2 \<Longrightarrow>
    ls_in (tmlist k) (ThreadTimer t) = None \<Longrightarrow> rt_thread_timeout t k = Some k' \<Longrightarrow> sem_run n k0 g r k'"
| other: "sem_run n k0 g r k \<Longrightarrow> kinv k' \<Longrightarrow> sem_abs n k' = sem_abs n k \<Longrightarrow> sem_ok n k' \<Longrightarrow>
    rt_current_thread k' \<noteq> None \<Longrightarrow> sem_run n k0 g r k'"

definition sem_inv :: "nat \<Rightarrow> kernel \<Rightarrow> bool" where
  "sem_inv n k \<longleftrightarrow> kinv k \<and> sem_ok n k \<and> rt_current_thread k \<noteq> None \<and> csem_inv (sem_abs n k)"

lemma take_available:
  "sem_ok n k \<Longrightarrow> sem_value (sems k n) \<noteq> 0 \<Longrightarrow> rt_sem_take n time k =
    Some (Return 0, k\<lparr>sems := (sems k)(n := \<lparr>sem_value = sem_value (sems k n) - 1\<rparr>)\<rparr>)"
  by (simp add: rt_sem_take_def sem_ok_def word_gt_0)

lemma take_refused:
  "sem_ok n k \<Longrightarrow> sem_value (sems k n) = 0 \<Longrightarrow> rt_sem_take n 0 k = Some (Return (- 2), k)"
  by (simp add: rt_sem_take_def sem_ok_def)

lemma sem_inv_value:
  assumes "sem_inv n k" "v = 0 \<or> ls_q (tlist k) (SemQ n) = []"
  shows "sem_inv n (k\<lparr>sems := (sems k)(n := \<lparr>sem_value = v\<rparr>)\<rparr>)"
  using assms by (auto simp: sem_inv_def sem_ok_def rt_object_get_type_def sem_abs_def csem_inv_def)

lemma sem_take_step:
  assumes i: "sem_inv n k" and c: "caller c k" "time < 0x7fffffff"
    and t: "rt_sem_take n time k = Some (a, k')"
  shows "sem_inv n k' \<and> sem_value (sems k' n) + (if a = Return 0 then 1 else 0) = sem_value (sems k n)"
proof (cases "sem_value (sems k n) = 0")
  case False
  then have "ls_q (tlist k) (SemQ n) = []" using i by (simp add: sem_inv_def csem_inv_def sem_abs_def)
  then show ?thesis using t take_available[OF _ False] i sem_inv_value[OF i, of "sem_value (sems k n) - 1"]
    by (auto simp: sem_inv_def)
next
  case True
  show ?thesis
  proof (cases "time = 0")
    case z: True
    then show ?thesis using take_refused[OF _ True] t i by (auto simp: sem_inv_def)
  next
    case False
    then show ?thesis using sem_block_ok[OF _ c(1) _ True False c(2)] i t
      by (auto simp: sem_inv_def csem_inv_def sem_abs_def True)
  qed
qed

lemma csem_inv_release: "csem_inv s \<Longrightarrow> csem_inv (csem_release s)"
  by (auto simp: csem_inv_def csem_release_def)

lemma sem_release_step:
  assumes i: "sem_inv n k" and t: "rt_sem_release n k = Some (e, k')"
  shows "sem_inv n k' \<and>
    sem_value (sems k' n) + (if ls_q (tlist k) (SemQ n) = [] then 0 else 1) = sem_value (sems k n) + 1"
proof -
  obtain c where c: "rt_current_thread k = Some c" using i by (auto simp: sem_inv_def)
  have a: "kinv k'" "sem_ok n k'" "sem_abs n k' = csem_release (sem_abs n k)" "rt_current_thread k' \<noteq> None"
    using sem_release_ok[OF _ c, of n] i t by (auto simp: sem_inv_def)
  then have "sem_value (sems k' n) + (if ls_q (tlist k) (SemQ n) = [] then 0 else 1) = sem_value (sems k n) + 1"
    by (auto simp: sem_abs_def csem_release_def)
  moreover have "csem_inv (sem_abs n k')"
    unfolding a(3) by (rule csem_inv_release) (use i in \<open>simp add: sem_inv_def\<close>)
  ultimately show ?thesis using a(1,2,4) by (simp add: sem_inv_def)
qed

lemma sem_timeout_step:
  assumes i: "sem_inv n k" and t: "alive k t" "stat_of (thr k t) = 2" "ls_in (tmlist k) (ThreadTimer t) = None"
    "rt_thread_timeout t k = Some k'"
  shows "sem_inv n k' \<and> sem_value (sems k' n) = sem_value (sems k n)"
proof -
  have "kinv k'" "sem_ok n k'" "rt_current_thread k' \<noteq> None"
    "sem_abs n k' = (sem_value (sems k n), remove1 t (ls_q (tlist k) (SemQ n)))"
    using sem_timeout_ok[OF _ _ _ t(1-3), of n] i t(4) by (auto simp: sem_inv_def)
  then show ?thesis using i by (auto simp: sem_inv_def csem_inv_def sem_abs_def)
qed

lemma sem_run_inv:
  assumes "sem_run n k0 g r k" "sem_inv n k0"
  shows "sem_inv n k \<and> sem_value (sems k n) + of_nat g = sem_value (sems k0 n) + of_nat r"
  using assms(1)
proof induction
  case start
  then show ?case using assms(2) by simp
next
  case (got g r k c time k')
  then have "sem_inv n k'" "sem_value (sems k n) = sem_value (sems k' n) + 1"
    using sem_take_step[of n k c time "Return 0" k'] by auto
  then show ?case using got by (simp add: algebra_simps)
next
  case (not_got g r k c time a k')
  then show ?case using sem_take_step[of n k c time a k'] by (auto simp: algebra_simps)
next
  case (release g r k e k')
  then show ?case using sem_release_step[of n k e k'] by (auto simp: algebra_simps split: if_splits)
next
  case (timeout g r k t k')
  then show ?case using sem_timeout_step[of n k t k'] by auto
next
  case (other g r k k')
  then have "sem_value (sems k' n) = sem_value (sems k n)" by (simp add: sem_abs_def)
  then show ?case using other by (simp add: sem_inv_def)
qed

subsection \<open>Properties\<close>

text \<open>Semaphore 0, empty; and the same with thread 1 waiting for it.\<close>

definition ex_sem :: kernel where
  "ex_sem = ex_ipc (OSem 0) 2 0 ex_kernel"

definition ex_sem_wait :: kernel where
  "ex_sem_wait = ex_ipc (OSem 0) 2 1 (ex_wait (SemQ 0))"

lemma ex_sem_facts:
  "kinv ex_sem" "caller 0 ex_sem" "sem_ok 0 ex_sem" "sem_value (sems ex_sem 0) = 0"
  "ls_q (tlist ex_sem) (SemQ 0) = []" "rt_current_thread ex_sem = Some 0" "sem_inv 0 ex_sem"
  "rt_tick ex_sem = 0"
proof -
  show k: "kinv ex_sem" unfolding ex_sem_def
    by (rule ex_ipc_inv[OF ex_kernel_inv]) (simp_all add: ex_kernel_def ex_olist_def)
  show "caller 0 ex_sem" "sem_ok 0 ex_sem" "sem_value (sems ex_sem 0) = 0"
    "ls_q (tlist ex_sem) (SemQ 0) = []" "rt_current_thread ex_sem = Some 0" "rt_tick ex_sem = 0"
    by (simp_all add: ex_sem_def ex_ipc_def caller_def ex_kernel_facts sem_ok_def rt_object_get_type_def
        ex_kernel_def[of] ex_thread_def stat_of_def)
  then show "sem_inv 0 ex_sem" using k by (simp add: sem_inv_def csem_inv_def sem_abs_def)
qed

lemma ex_sem_wait_facts:
  "kinv ex_sem_wait" "sem_ok 0 ex_sem_wait" "rt_current_thread ex_sem_wait = Some 0"
  "ls_q (tlist ex_sem_wait) (SemQ 0) = [1]" "sem_value (sems ex_sem_wait 0) = 0"
  "rt_object_get_type (OSem 0) ex_sem_wait = 2" "rt_object_is_systemobject (OSem 0) ex_sem_wait"
  "sem_inv 0 ex_sem_wait"
proof -
  show k: "kinv ex_sem_wait" unfolding ex_sem_wait_def
    by (rule ex_ipc_inv[OF ex_wait_inv]) (simp_all add: ex_wait_def ex_kernel_def ex_olist_def)
  show "sem_ok 0 ex_sem_wait" "rt_current_thread ex_sem_wait = Some 0"
    "ls_q (tlist ex_sem_wait) (SemQ 0) = [1]" "sem_value (sems ex_sem_wait 0) = 0"
    "rt_object_get_type (OSem 0) ex_sem_wait = 2" "rt_object_is_systemobject (OSem 0) ex_sem_wait"
    by (simp_all add: ex_sem_wait_def ex_ipc_def ex_wait_def sem_ok_def rt_object_get_type_def
        rt_object_is_systemobject_def ex_kernel_def)
  then show "sem_inv 0 ex_sem_wait" using k by (simp add: sem_inv_def csem_inv_def sem_abs_def)
qed

text \<open>C4. A semaphore never loses or invents a token: after any run of takes, releases, timeouts and
  steps of the rest of the system, the value plus the number of tokens given out is the first value
  plus the number of releases (in the 16 bits of the counter), no thread waits while the value is
  positive, and the kernel is well formed.\<close>

theorem semaphore_tokens:
  assumes "sem_run n k0 g r k" "sem_inv n k0"
  shows "kinv k \<and> (sem_value (sems k n) = 0 \<or> ls_q (tlist k) (SemQ n) = []) \<and>
    sem_value (sems k n) + of_nat g = sem_value (sems k0 n) + of_nat r"
  using sem_run_inv[OF assms] by (simp add: sem_inv_def csem_inv_def sem_abs_def)

theorem semaphore_tokens_witness:
  "\<exists>k. sem_run 0 ex_sem 1 1 k \<and> sem_value (sems k 0) = 0"
proof -
  let ?k1 = "ex_sem\<lparr>sems := (sems ex_sem)(0 := \<lparr>sem_value = 1\<rparr>)\<rparr>"
  have "rt_sem_release 0 ex_sem = Some (0, ?k1)"
    using ex_sem_facts by (simp add: rt_sem_release_def sem_ok_def)
  from sem_run.release[OF sem_run.start this]
  have r: "sem_run 0 ex_sem 0 1 ?k1" by (simp add: ex_sem_facts)
  have c: "caller 0 ?k1" using ex_sem_facts(2) by (simp add: caller_def)
  have "sem_ok 0 ?k1" using ex_sem_facts(3) by (simp add: sem_ok_def rt_object_get_type_def)
  from take_available[OF this] have "rt_sem_take 0 0 ?k1 =
    Some (Return 0, ?k1\<lparr>sems := (sems ?k1)(0 := \<lparr>sem_value = sem_value (sems ?k1 0) - 1\<rparr>)\<rparr>)"
    by simp
  from sem_run.got[OF r c _ this] obtain k where k: "sem_run 0 ex_sem 1 1 k" by auto
  then show ?thesis using semaphore_tokens[OF k ex_sem_facts(7)] ex_sem_facts(4) by auto
qed

text \<open>Taking an empty semaphore with a time that is not 0 blocks the caller: it is suspended with
  its error cleared, is put into the wait queue in order of arrival or behind all threads of the same
  or a higher priority, and its timer runs exactly when the time is positive.\<close>

theorem sem_take_blocks:
  assumes "kinv k" "caller c k" "sem_ok n k" "sem_value (sems k n) = 0" "time \<noteq> 0" "time < 0x7fffffff"
  shows "\<exists>k'. rt_sem_take n time k = Some (Blocked, k') \<and> kinv k' \<and>
    stat_of (thr k' c) = RT_THREAD_SUSPEND \<and> th_error (thr k' c) = RT_EOK \<and>
    (\<forall>x. x \<noteq> c \<longrightarrow> thr k' x = thr k x) \<and> sem_value (sems k' n) = 0 \<and>
    ls_q (tlist k') (SemQ n) =
      (let ws = ls_q (tlist k) (SemQ n); before = (\<lambda>s. th_current_priority (thr k s) \<le> th_current_priority (thr k c))
       in if ob_flag (objs k (OSem n)) = RT_IPC_FLAG_FIFO then ws @ [c]
          else takeWhile before ws @ c # dropWhile before ws) \<and>
    (ls_in (tmlist k') (ThreadTimer c) \<noteq> None \<longleftrightarrow> time > 0)"
proof -
  obtain k' where "rt_sem_take n time k = Some (Blocked, k')" "kinv k'" "stat_of (thr k' c) = 2"
    "th_error (thr k' c) = 0" "\<forall>x. x \<noteq> c \<longrightarrow> thr k' x = thr k x"
    "sem_abs n k' = (0, enqueued (ob_flag (objs k (OSem n))) (\<lambda>t. th_current_priority (thr k t)) c
      (ls_q (tlist k) (SemQ n)))"
    "ls_in (tmlist k') (ThreadTimer c) = (if time > 0 then Some () else None)"
    using sem_block_ok[OF assms] by blast
  then show ?thesis by (intro exI[of _ k']) (simp add: sem_abs_def enqueued_def Let_def)
qed

theorem sem_take_blocks_witness:
  "\<exists>k'. rt_sem_take 0 5 ex_sem = Some (Blocked, k') \<and> stat_of (thr k' 0) = 2 \<and>
    ls_q (tlist k') (SemQ 0) = [0]"
  using sem_take_blocks[OF ex_sem_facts(1-4), of 5] by (auto simp: ex_sem_facts Let_def)

text \<open>\<open>rt_sem_release\<close> implements the release of the abstract counting semaphore: with no thread
  waiting the value grows by one, otherwise the value stays and the first waiting thread, and only it,
  leaves the queue and becomes ready; its take then returns \<open>RT_EOK\<close> if its error is still clear.\<close>

theorem sem_release_hands_over:
  assumes "kinv k" "rt_current_thread k = Some c" "sem_ok n k"
  shows "\<exists>k'. rt_sem_release n k = Some (RT_EOK, k') \<and> kinv k' \<and>
    sem_abs n k' = csem_release (sem_abs n k) \<and>
    (\<forall>t ts. ls_q (tlist k) (SemQ n) = t # ts \<longrightarrow> ready_thread k' t \<and>
      (th_error (thr k t) = RT_EOK \<longrightarrow> rt_sem_take_end t k' = RT_EOK) \<and>
      (\<forall>x. x \<noteq> t \<longrightarrow> thr k' x = thr k x))"
proof -
  obtain k' where "rt_sem_release n k = Some (0, k')" "kinv k'" "sem_abs n k' = csem_release (sem_abs n k)"
    "case ls_q (tlist k) (SemQ n) of [] \<Rightarrow> thr k' = thr k \<and> tlist k' = tlist k
     | t # _ \<Rightarrow> ready_thread k' t \<and> thr k' = (thr k)(t := set_stat 1 (thr k t))"
    using sem_release_ok[OF assms] by blast
  then show ?thesis by (intro exI[of _ k']) (auto simp: rt_sem_take_end_def)
qed

theorem sem_release_hands_over_witness:
  "\<exists>k'. rt_sem_release 0 ex_sem_wait = Some (0, k') \<and> sem_abs 0 k' = (0, []) \<and> ready_thread k' 1"
  using sem_release_hands_over[OF ex_sem_wait_facts(1,3,2)]
  by (auto simp: ex_sem_wait_facts sem_abs_def csem_release_def simp del: One_nat_def)

text \<open>Detaching a static semaphore wakes every waiting thread with the error \<open>-RT_ERROR\<close>, leaves
  the queue empty and the object dead, and touches no other thread.\<close>

theorem sem_detach_wakes_all:
  assumes "kinv k" "rt_object_get_type (OSem n) k = of_nat RT_Object_Class_Semaphore"
    "rt_object_is_systemobject (OSem n) k"
  shows "\<exists>k'. rt_sem_detach n k = Some (RT_EOK, k') \<and> kinv k' \<and> rt_object_get_type (OSem n) k' = 0 \<and>
    ls_q (tlist k') (SemQ n) = [] \<and>
    (\<forall>t \<in> set (ls_q (tlist k) (SemQ n)). ready_thread k' t \<and> rt_sem_take_end t k' = - RT_ERROR) \<and>
    (\<forall>t. t \<notin> set (ls_q (tlist k) (SemQ n)) \<longrightarrow> thr k' t = thr k t)"
proof -
  obtain k' where "rt_sem_detach n k = Some (0, k')" "kinv k'" "rt_object_get_type (OSem n) k' = 0"
    "ls_q (tlist k') (SemQ n) = []"
    "\<forall>t \<in> set (ls_q (tlist k) (SemQ n)). ready_thread k' t \<and> th_error (thr k' t) = - 1"
    "\<forall>t. t \<notin> set (ls_q (tlist k) (SemQ n)) \<longrightarrow> thr k' t = thr k t"
    using sem.detach_ok[of k n] assms by auto
  then show ?thesis by (intro exI[of _ k']) (simp add: rt_sem_take_end_def)
qed

theorem sem_detach_wakes_all_witness:
  "\<exists>k'. rt_sem_detach 0 ex_sem_wait = Some (0, k') \<and> ready_thread k' 1 \<and> rt_sem_take_end 1 k' = - 1"
  using sem_detach_wakes_all[OF ex_sem_wait_facts(1), of 0] ex_sem_wait_facts(4,6,7)
  by (auto simp del: One_nat_def)

end
