(* ===== verification/Mutex.thy ===== *)
theory Mutex
  imports Ipc_Base
begin

text \<open>
  Mutexes (\<open>rt_mutex_*\<close> of \<open>src/ipc.c\<close>): ownership, recursion, and priority inheritance from a
  waiting thread to the owner.
\<close>

subsection \<open>Operations\<close>

definition mutex_reset :: rt_mutex where
  "mutex_reset = \<lparr>mx_value = 1, mx_original_priority = 0xFF, mx_hold = 0, mx_owner = None\<rparr>"

definition upd_mutex :: "nat \<Rightarrow> (rt_mutex \<Rightarrow> rt_mutex) \<Rightarrow> kernel \<Rightarrow> kernel" where
  [simp]: "upd_mutex n f k = k\<lparr>mutexes := (mutexes k)(n := f (mutexes k n))\<rparr>"

definition rt_mutex_init :: "nat \<Rightarrow> u8 list \<Rightarrow> u8 \<Rightarrow> kernel \<Rightarrow> (rt_err_t \<times> kernel) option" where
  "rt_mutex_init n name flag k =
     do { k \<leftarrow> rt_object_init (OMutex n) RT_Object_Class_Mutex name k;
          k \<leftarrow> rt_ipc_object_init (MutexQ n) k;
          let k = upd_mutex n (\<lambda>_. mutex_reset) k;
          let k = upd_obj (OMutex n) (\<lambda>ob. ob\<lparr>ob_flag := flag\<rparr>) k;
          Some (RT_EOK, k) }"

definition rt_mutex_detach :: "nat \<Rightarrow> kernel \<Rightarrow> (rt_err_t \<times> kernel) option" where
  "rt_mutex_detach n k =
     do { RT_ASSERT (rt_object_get_type (OMutex n) k = of_nat RT_Object_Class_Mutex);
          RT_ASSERT (rt_object_is_systemobject (OMutex n) k);
          k \<leftarrow> rt_ipc_list_resume_all (MutexQ n) k;
          Some (RT_EOK, rt_object_detach (OMutex n) k) }"

definition rt_mutex_create :: "nat option \<Rightarrow> u8 list \<Rightarrow> u8 \<Rightarrow> kernel \<Rightarrow> (nat option \<times> kernel) option" where
  "rt_mutex_create mem name flag k =
     do { RT_DEBUG_NOT_IN_INTERRUPT k;
          (x, k) \<leftarrow> rt_object_allocate (map_option OMutex mem) RT_Object_Class_Mutex name k;
          case x of
            Some (OMutex n) \<Rightarrow>
              do { k \<leftarrow> rt_ipc_object_init (MutexQ n) k;
                   let k = upd_mutex n (\<lambda>_. mutex_reset) k;
                   let k = upd_obj (OMutex n) (\<lambda>ob. ob\<lparr>ob_flag := flag\<rparr>) k;
                   Some (Some n, k) }
          | _ \<Rightarrow> Some (None, k) }"

definition rt_mutex_delete :: "nat \<Rightarrow> kernel \<Rightarrow> (rt_err_t \<times> kernel) option" where
  "rt_mutex_delete n k =
     do { RT_DEBUG_NOT_IN_INTERRUPT k;
          RT_ASSERT (rt_object_get_type (OMutex n) k = of_nat RT_Object_Class_Mutex);
          RT_ASSERT (\<not> rt_object_is_systemobject (OMutex n) k);
          k \<leftarrow> rt_ipc_list_resume_all (MutexQ n) k;
          k \<leftarrow> rt_object_delete (OMutex n) k;
          Some (RT_EOK, k) }"

text \<open>The two places where a mutex changes the priority of its owner.\<close>

definition mutex_inherit :: "nat \<Rightarrow> nat \<Rightarrow> kernel \<Rightarrow> kernel option" where
  "mutex_inherit owner thread k =
     (let prio = th_current_priority (thr k thread) in
      if prio < th_current_priority (thr k owner)
      then do { (_, k) \<leftarrow> rt_thread_control owner (RT_THREAD_CTRL_CHANGE_PRIORITY prio) k; Some k }
      else Some k)"

definition mutex_restore :: "nat \<Rightarrow> u8 \<Rightarrow> kernel \<Rightarrow> kernel option" where
  "mutex_restore owner original k =
     (if original \<noteq> th_current_priority (thr k owner)
      then do { (_, k) \<leftarrow> rt_thread_control owner (RT_THREAD_CTRL_CHANGE_PRIORITY original) k; Some k }
      else Some k)"

text \<open>
  The code behind the label \<open>__again\<close> of \<open>rt_mutex_take\<close>. The owner of a taken mutex is dereferenced:
  it must not be \<open>RT_NULL\<close>.
\<close>

definition mutex_take_again :: "nat \<Rightarrow> nat \<Rightarrow> int \<Rightarrow> kernel \<Rightarrow> (rt_err_t call \<times> kernel) option" where
  "mutex_take_again n thread time k =
     (if mx_value (mutexes k n) > 0
      then Some (Return RT_EOK, upd_mutex n (\<lambda>m. m\<lparr>mx_value := mx_value m - 1, mx_owner := Some thread,
             mx_original_priority := th_current_priority (thr k thread), mx_hold := mx_hold m + 1\<rparr>) k)
      else if time = 0
      then Some (Return (- RT_ETIMEOUT), upd_thr thread (\<lambda>th. th\<lparr>th_error := - RT_ETIMEOUT\<rparr>) k)
      else do { owner \<leftarrow> mx_owner (mutexes k n);
                k \<leftarrow> mutex_inherit owner thread k;
                k \<leftarrow> wait_on (MutexQ n) (ob_flag (objs k (OMutex n))) thread time k;
                k \<leftarrow> rt_schedule k;
                Some (Blocked, k) })"

definition rt_mutex_take :: "nat \<Rightarrow> int \<Rightarrow> kernel \<Rightarrow> (rt_err_t call \<times> kernel) option" where
  "rt_mutex_take n time k =
     do { RT_DEBUG_IN_THREAD_CONTEXT k;
          RT_ASSERT (rt_object_get_type (OMutex n) k = of_nat RT_Object_Class_Mutex);
          thread \<leftarrow> rt_thread_self k;
          let k = upd_thr thread (\<lambda>th. th\<lparr>th_error := RT_EOK\<rparr>) k;
          if mx_owner (mutexes k n) = Some thread
          then Some (Return RT_EOK, upd_mutex n (\<lambda>m. m\<lparr>mx_hold := mx_hold m + 1\<rparr>) k)
          else mutex_take_again n thread time k }"

definition rt_mutex_take_end :: "nat \<Rightarrow> nat \<Rightarrow> int \<Rightarrow> kernel \<Rightarrow> (rt_err_t call \<times> kernel) option" where
  "rt_mutex_take_end n thread time k =
     (if th_error (thr k thread) \<noteq> RT_EOK
      then if th_error (thr k thread) = - RT_EINTR then mutex_take_again n thread time k
           else Some (Return (th_error (thr k thread)), k)
      else Some (Return RT_EOK, k))"

definition rt_mutex_release :: "nat \<Rightarrow> kernel \<Rightarrow> (rt_err_t \<times> kernel) option" where
  "rt_mutex_release n k =
     do { RT_ASSERT (rt_object_get_type (OMutex n) k = of_nat RT_Object_Class_Mutex);
          RT_DEBUG_IN_THREAD_CONTEXT k;
          thread \<leftarrow> rt_thread_self k;
          if Some thread \<noteq> mx_owner (mutexes k n)
          then Some (- RT_ERROR, upd_thr thread (\<lambda>th. th\<lparr>th_error := - RT_ERROR\<rparr>) k)
          else do { let k = upd_mutex n (\<lambda>m. m\<lparr>mx_hold := mx_hold m - 1\<rparr>) k;
                    if mx_hold (mutexes k n) = 0
                    then do { k \<leftarrow> mutex_restore thread (mx_original_priority (mutexes k n)) k;
                              case ls_q (tlist k) (MutexQ n) of
                                t # _ \<Rightarrow>
                                  do { let k = upd_mutex n (\<lambda>m. m\<lparr>mx_owner := Some t,
                                         mx_original_priority := th_current_priority (thr k t),
                                         mx_hold := mx_hold m + 1\<rparr>) k;
                                       k \<leftarrow> rt_ipc_list_resume (MutexQ n) k;
                                       k \<leftarrow> rt_schedule k;
                                       Some (RT_EOK, k) }
                              | [] \<Rightarrow> Some (RT_EOK, upd_mutex n (\<lambda>m. m\<lparr>mx_value := mx_value m + 1,
                                         mx_owner := None, mx_original_priority := 0xff\<rparr>) k) }
                    else Some (RT_EOK, k) } }"

definition rt_mutex_control :: "nat \<Rightarrow> int \<Rightarrow> u32 \<Rightarrow> kernel \<Rightarrow> (rt_err_t \<times> kernel) option" where
  "rt_mutex_control n cmd arg k =
     do { RT_ASSERT (rt_object_get_type (OMutex n) k = of_nat RT_Object_Class_Mutex);
          Some (- RT_ERROR, k) }"

interpretation mutex: ipc_object MutexQ OMutex 3 rt_mutex_detach rt_mutex_delete
  by unfold_locales (simp_all add: rt_mutex_detach_def rt_mutex_delete_def RT_DEBUG_NOT_IN_INTERRUPT_def
      rt_interrupt_get_nest_def)

subsection \<open>The invariant of a mutex\<close>

definition mutex_ok :: "nat \<Rightarrow> kernel \<Rightarrow> bool" where
  "mutex_ok n k \<longleftrightarrow> rt_object_get_type (OMutex n) k = 3 \<and>
     (ob_flag (objs k (OMutex n)) = 0 \<or> ob_flag (objs k (OMutex n)) = 1)"

definition mutex_free :: "nat \<Rightarrow> kernel \<Rightarrow> bool" where
  "mutex_free n k \<longleftrightarrow> mutexes k n = mutex_reset \<and> ls_q (tlist k) (MutexQ n) = []"

definition mutex_held :: "nat \<Rightarrow> nat \<Rightarrow> kernel \<Rightarrow> bool" where
  "mutex_held n c k \<longleftrightarrow> mx_value (mutexes k n) = 0 \<and> mx_owner (mutexes k n) = Some c \<and>
     mx_hold (mutexes k n) \<noteq> 0 \<and> unat (mx_original_priority (mutexes k n)) < 32 \<and> alive k c \<and>
     c \<notin> set (ls_q (tlist k) (MutexQ n))"

definition mutex_inv :: "nat \<Rightarrow> kernel \<Rightarrow> bool" where
  "mutex_inv n k \<longleftrightarrow> kinv k \<and> mutex_ok n k \<and> rt_current_thread k \<noteq> None \<and>
     (mutex_free n k \<or> (\<exists>c. mutex_held n c k))"

lemma mutex_ok_frame: "ipc_frame k k' \<Longrightarrow> mutex_ok n k' = mutex_ok n k"
  by (simp add: mutex_ok_def rt_object_get_type_def ipc_frame_objs)

lemma mutex_invE:
  assumes "mutex_inv n k"
  obtains "mutex_free n k" | o' where "mutex_held n o' k"
  using assms by (auto simp: mutex_inv_def)

text \<open>Steps that keep the mutex and can only take threads out of its queue.\<close>

lemma mutex_inv_mono:
  assumes "mutex_inv n k" "kinv k'" "ipc_frame k k'" "rt_current_thread k' \<noteq> None"
    "set (ls_q (tlist k') (MutexQ n)) \<subseteq> set (ls_q (tlist k) (MutexQ n))"
  shows "mutex_inv n k'"
  using assms mutex_ok_frame[OF assms(3), of n] ipc_frameD(2)[OF assms(3)] ipc_frame_alive[OF assms(3)]
  by (fastforce simp: mutex_inv_def mutex_free_def mutex_held_def)

subsection \<open>Taking\<close>

lemma take_context:
  assumes "caller c k" "mutex_ok n k"
  shows "rt_mutex_take n time k = (let k = upd_thr c (\<lambda>th. th\<lparr>th_error := 0\<rparr>) k in
    if mx_owner (mutexes k n) = Some c
    then Some (Return 0, upd_mutex n (\<lambda>m. m\<lparr>mx_hold := mx_hold m + 1\<rparr>) k)
    else mutex_take_again n c time k)"
  using assms by (simp add: rt_mutex_take_def caller_def mutex_ok_def rt_thread_self_def
      RT_DEBUG_IN_THREAD_CONTEXT_def RT_DEBUG_NOT_IN_INTERRUPT_def rt_interrupt_get_nest_def Let_def)

text \<open>Raising the owner to the priority of a thread that is about to wait.\<close>

lemma inherit_ok:
  assumes k: "kinv k" and o: "alive k ow" "ow \<noteq> c" and c: "alive k c"
  defines "p \<equiv> th_current_priority (thr k c)"
  shows "\<exists>k1. mutex_inherit ow c k = Some k1 \<and> kinv k1 \<and> ipc_frame k k1 \<and> rt_current_thread k1 = rt_current_thread k \<and>
    thr k1 = (thr k)(ow := if p < th_current_priority (thr k ow) then with_prio p (thr k ow) else thr k ow) \<and>
    (\<forall>q. (\<forall>r. q \<noteq> Ready r) \<longrightarrow> ls_q (tlist k1) q = ls_q (tlist k) q)"
proof (cases "p < th_current_priority (thr k ow)")
  case True
  have "unat p < 32" unfolding p_def by (rule kinv_alive(1)[OF k c])
  from change_priority_ok[OF k o(1) this] obtain k1
    where "rt_thread_control ow (RT_THREAD_CTRL_CHANGE_PRIORITY p) k = Some (0, k1)" "kinv k1"
    "ipc_frame k k1" "thr k1 = (thr k)(ow := with_prio p (thr k ow))"
    "rt_current_thread k1 = rt_current_thread k"
    "\<forall>q. (\<forall>r. q \<noteq> Ready r) \<longrightarrow> ls_q (tlist k1) q = ls_q (tlist k) q"
    by blast
  then show ?thesis using True by (intro exI[of _ k1]) (simp add: mutex_inherit_def p_def)
next
  case False
  then show ?thesis using k by (intro exI[of _ k]) (simp add: mutex_inherit_def p_def)
qed

lemma mutex_block_ok:
  assumes k: "kinv k" "caller c k" "mutex_ok n k" and h: "mutex_held n ow k" "ow \<noteq> c"
    and t: "time \<noteq> 0" "time < 0x7fffffff"
  shows "\<exists>k'. mutex_take_again n c time k = Some (Blocked, k') \<and> mutex_inv n k' \<and> mutex_held n ow k' \<and>
    mutexes k' = mutexes k \<and> stat_of (thr k' c) = 2 \<and> th_error (thr k' c) = th_error (thr k c) \<and>
    th_current_priority (thr k' ow) =
      min (th_current_priority (thr k c)) (th_current_priority (thr k ow)) \<and>
    (\<forall>x. x \<noteq> c \<and> x \<noteq> ow \<longrightarrow> thr k' x = thr k x) \<and>
    set (ls_q (tlist k') (MutexQ n)) = insert c (set (ls_q (tlist k) (MutexQ n)))"
proof -
  have c: "rt_current_thread k = Some c" "stat_of (thr k c) = 1" using k(2) by (auto simp: caller_def)
  have al: "alive k c" by (rule current_unlinked(2)[OF k(1) c])
  have ow: "alive k ow" using h(1) by (simp add: mutex_held_def)
  let ?p = "th_current_priority (thr k c)"
  obtain k1 where k1: "mutex_inherit ow c k = Some k1" "kinv k1" "ipc_frame k k1" "rt_current_thread k1 = rt_current_thread k"
    "thr k1 = (thr k)(ow := if ?p < th_current_priority (thr k ow) then with_prio ?p (thr k ow) else thr k ow)"
    "\<forall>q. (\<forall>r. q \<noteq> Ready r) \<longrightarrow> ls_q (tlist k1) q = ls_q (tlist k) q"
    using inherit_ok[OF k(1) ow h(2) al] by blast
  have c1: "rt_current_thread k1 = Some c" "stat_of (thr k1 c) = 1" using c k1(4,5) h(2) by auto
  have ok1: "mutex_ok n k1" using k(3) mutex_ok_frame[OF k1(3)] by simp
  then have f: "ob_flag (objs k1 (OMutex n)) = 0 \<or> ob_flag (objs k1 (OMutex n)) = 1"
    by (simp add: mutex_ok_def)
  have w: "wait_link (Some (MutexQ n))" by simp
  obtain k2 where k2: "wait_on (MutexQ n) (ob_flag (objs k1 (OMutex n))) c time k1 = Some k2" "kinv k2"
    "ipc_frame k1 k2" "thr k2 = (thr k1)(c := set_stat 2 (thr k1 c))" "rt_current_thread k2 = Some c"
    "ls_q (tlist k2) = (ls_q (tlist k1))(MutexQ n := enqueued (ob_flag (objs k1 (OMutex n)))
      (\<lambda>t. th_current_priority (thr k1 t)) c (ls_q (tlist k1) (MutexQ n)))"
    using wait_on_ok[OF k1(2) c1 w f t(2)] by blast
  obtain k' where k': "rt_schedule k2 = Some k'" "kinv k'" "sched_frame k2 k'"
    using schedule_ok[OF k2(2,5)] by blast
  have fr: "ipc_frame k k'"
    by (rule ipc_frame_trans[OF k1(3) ipc_frame_trans[OF k2(3) sched_ipc_frame[OF k'(3)]]])
  have v: "mx_value (mutexes k n) = 0" "mx_owner (mutexes k n) = Some ow"
    using h(1) by (simp_all add: mutex_held_def)
  have run: "mutex_take_again n c time k = Some (Blocked, k')"
    using v t(1) k1(1) k2(1) k'(1) by (simp add: mutex_take_again_def Let_def)
  have q: "set (ls_q (tlist k') (MutexQ n)) = insert c (set (ls_q (tlist k) (MutexQ n)))"
    using sched_frameD(16)[OF k'(3), of "MutexQ n"] k2(6) k1(6) by simp
  have th: "thr k' = (thr k1)(c := set_stat 2 (thr k1 c))" using sched_frameD(3)[OF k'(3)] k2(4) by simp
  have held: "mutex_held n ow k'"
    using h q ipc_frame_alive[OF fr] ipc_frameD(2)[OF fr] by (simp add: mutex_held_def)
  have "rt_current_thread k' \<noteq> None" using sched_frameD(17)[OF k'(3)] k2(5) by simp
  then have "mutex_inv n k'"
    using k'(2) k(3) mutex_ok_frame[OF fr] held by (auto simp: mutex_inv_def)
  then show ?thesis
    using run held q th k1(5) h(2) ipc_frameD(2)[OF fr]
    by (intro exI[of _ k']) (auto simp: min_def not_le)
qed

text \<open>The outcomes of a take.\<close>

lemma kinv_mutexes [simp]: "kinv (upd_mutex n f k) = kinv k"
  by simp

lemma mutex_take_ok:
  assumes i: "mutex_inv n k" and c: "caller c k" and t: "time < 0x7fffffff"
    and h: "mx_owner (mutexes k n) = Some c \<longrightarrow> mx_hold (mutexes k n) \<noteq> 255"
  shows "\<exists>a k'. rt_mutex_take n time k = Some (a, k') \<and> mutex_inv n k' \<and>
    (if mutex_free n k then a = Return 0 \<and> mutex_held n c k' \<and> mx_hold (mutexes k' n) = 1 \<and>
       mx_original_priority (mutexes k' n) = th_current_priority (thr k c)
     else if mx_owner (mutexes k n) = Some c then a = Return 0 \<and> mutex_held n c k' \<and>
       mx_hold (mutexes k' n) = mx_hold (mutexes k n) + 1
     else (if time = 0 then a = Return (- 2) else a = Blocked) \<and> mutexes k' = mutexes k)"
proof -
  let ?k0 = "upd_thr c (\<lambda>th. th\<lparr>th_error := 0\<rparr>) k"
  have ok: "mutex_ok n k" and kk: "kinv k" using i by (simp_all add: mutex_inv_def)
  have cur: "rt_current_thread k = Some c" "stat_of (thr k c) = 1" using c by (auto simp: caller_def)
  note u = current_unlinked[OF kk cur]
  have k0: "kinv ?k0" using kinv_thr_same[OF kk] by simp
  have fr0: "ipc_frame k ?k0" by (simp add: ipc_frame_def)
  have i0: "mutex_inv n ?k0"
    by (rule mutex_inv_mono[OF i k0 fr0]) (use cur in auto)
  have cq: "c \<notin> set (ls_q (tlist k) q)" for q using u(1) ls_in_iff[OF kinvD(2)[OF kk]] by simp
  show ?thesis
  proof (cases rule: mutex_invE[OF i])
    case 1
    let ?k' = "upd_mutex n (\<lambda>m. m\<lparr>mx_value := mx_value m - 1, mx_owner := Some c,
      mx_original_priority := th_current_priority (thr k c), mx_hold := mx_hold m + 1\<rparr>) ?k0"
    have "rt_mutex_take n time k = Some (Return 0, ?k')"
      using 1 by (simp add: take_context[OF c ok] mutex_free_def mutex_reset_def mutex_take_again_def)
    moreover have held: "mutex_held n c ?k'" "mx_hold (mutexes ?k' n) = 1"
      "mx_original_priority (mutexes ?k' n) = th_current_priority (thr k c)"
      using 1 cq[of "MutexQ n"] u(2) kinv_alive(1)[OF kk u(2)]
      by (auto simp: mutex_held_def mutex_free_def mutex_reset_def alive_def rt_object_get_type_def)
    moreover have "mutex_inv n ?k'"
      using k0 held(1) ok cur by (auto simp: mutex_inv_def mutex_ok_def rt_object_get_type_def)
    ultimately show ?thesis using 1 by (intro exI[of _ "Return 0"] exI[of _ ?k']) metis
  next
    case (2 ow)
    then have nf: "\<not> mutex_free n k" and v: "mx_value (mutexes k n) = 0" "mx_owner (mutexes k n) = Some ow"
      by (auto simp: mutex_held_def mutex_free_def mutex_reset_def)
    show ?thesis
    proof (cases "ow = c")
      case True
      let ?k' = "upd_mutex n (\<lambda>m. m\<lparr>mx_hold := mx_hold m + 1\<rparr>) ?k0"
      have "rt_mutex_take n time k = Some (Return 0, ?k')"
        using v True by (simp add: take_context[OF c ok])
      moreover have "mx_hold (mutexes k n) + 1 \<noteq> 0" using h v True by (auto simp: add_eq_0_iff2)
      then have "mutex_held n c ?k'" using 2 True by (simp add: mutex_held_def alive_def rt_object_get_type_def)
      moreover from this have "mutex_inv n ?k'"
        using k0 ok cur by (auto simp: mutex_inv_def mutex_ok_def rt_object_get_type_def)
      ultimately show ?thesis using nf v True
        by (intro exI[of _ "Return 0"] exI[of _ ?k']) simp
    next
      case False
      have h0: "mutex_held n ow ?k0" using 2 by (simp add: mutex_held_def alive_def rt_object_get_type_def)
      have run: "rt_mutex_take n time k = mutex_take_again n c time ?k0"
        using v False by (simp add: take_context[OF c ok])
      show ?thesis
      proof (cases "time = 0")
        case True
        let ?k' = "upd_thr c (\<lambda>th. th\<lparr>th_error := - 2\<rparr>) ?k0"
        have "mutex_take_again n c time ?k0 = Some (Return (- 2), ?k')"
          using v True by (simp add: mutex_take_again_def)
        moreover have "mutex_inv n ?k'"
          by (rule mutex_inv_mono[OF i]) (use kinv_thr_same[OF kk, of _ c] cur in \<open>auto simp: ipc_frame_def\<close>)
        ultimately show ?thesis using run nf v False True
          by (intro exI[of _ "Return (- 2)"] exI[of _ ?k']) simp
      next
        case tn: False
        have c0: "caller c ?k0" and ok0: "mutex_ok n ?k0"
          using c ok by (auto simp: caller_def mutex_ok_def rt_object_get_type_def)
        obtain k' where "mutex_take_again n c time ?k0 = Some (Blocked, k')" "mutex_inv n k'"
          "mutexes k' = mutexes ?k0"
          using mutex_block_ok[OF k0 c0 ok0 h0 False tn t] by blast
        then show ?thesis using run nf v False tn
          by (intro exI[of _ Blocked] exI[of _ k']) simp
      qed
    qed
  qed
qed

subsection \<open>Releasing\<close>

lemma release_context:
  assumes "caller c k" "mutex_ok n k" "mx_owner (mutexes k n) = Some c"
  shows "rt_mutex_release n k =
    (let k = upd_mutex n (\<lambda>m. m\<lparr>mx_hold := mx_hold m - 1\<rparr>) k in
     if mx_hold (mutexes k n) = 0
     then do { k \<leftarrow> mutex_restore c (mx_original_priority (mutexes k n)) k;
               case ls_q (tlist k) (MutexQ n) of
                 t # _ \<Rightarrow> do { let k = upd_mutex n (\<lambda>m. m\<lparr>mx_owner := Some t,
                     mx_original_priority := th_current_priority (thr k t), mx_hold := mx_hold m + 1\<rparr>) k;
                   k \<leftarrow> rt_ipc_list_resume (MutexQ n) k; k \<leftarrow> rt_schedule k; Some (0, k) }
               | [] \<Rightarrow> Some (0, upd_mutex n (\<lambda>m. m\<lparr>mx_value := mx_value m + 1,
                   mx_owner := None, mx_original_priority := 0xff\<rparr>) k) }
     else Some (0, k))"
  using assms by (simp add: rt_mutex_release_def caller_def mutex_ok_def rt_thread_self_def
      RT_DEBUG_IN_THREAD_CONTEXT_def RT_DEBUG_NOT_IN_INTERRUPT_def rt_interrupt_get_nest_def Let_def
      cong: if_cong)

lemma restore_ok:
  assumes k: "kinv k" and c: "alive k c" and p: "unat p < 32"
  shows "\<exists>k1. mutex_restore c p k = Some k1 \<and> kinv k1 \<and> ipc_frame k k1 \<and> rt_current_thread k1 = rt_current_thread k \<and>
    th_current_priority (thr k1 c) = p \<and> (\<forall>x. x \<noteq> c \<longrightarrow> thr k1 x = thr k x) \<and>
    ls_q (tlist k1) (MutexQ n) = ls_q (tlist k) (MutexQ n)"
proof (cases "p = th_current_priority (thr k c)")
  case True
  then show ?thesis using k by (intro exI[of _ k]) (simp add: mutex_restore_def)
next
  case False
  obtain k1 where "rt_thread_control c (RT_THREAD_CTRL_CHANGE_PRIORITY p) k = Some (0, k1)" "kinv k1"
    "ipc_frame k k1" "thr k1 = (thr k)(c := with_prio p (thr k c))"
    "rt_current_thread k1 = rt_current_thread k"
    "\<forall>q. (\<forall>r. q \<noteq> Ready r) \<longrightarrow> ls_q (tlist k1) q = ls_q (tlist k) q"
    using change_priority_ok[OF k c p] by blast
  then show ?thesis using False by (intro exI[of _ k1]) (simp add: mutex_restore_def)
qed

lemma mutex_release_last_ok:
  assumes i: "mutex_inv n k" and c: "caller c k" and h: "mutex_held n c k" "mx_hold (mutexes k n) = 1"
  shows "\<exists>k'. rt_mutex_release n k = Some (0, k') \<and> mutex_inv n k' \<and>
    th_current_priority (thr k' c) = mx_original_priority (mutexes k n) \<and>
    (case ls_q (tlist k) (MutexQ n) of
       [] \<Rightarrow> mutex_free n k'
     | t # ts \<Rightarrow> mutex_held n t k' \<and> mx_hold (mutexes k' n) = 1 \<and> ready_thread k' t \<and>
         th_error (thr k' t) = th_error (thr k t) \<and>
         mx_original_priority (mutexes k' n) = th_current_priority (thr k t) \<and>
         ls_q (tlist k') (MutexQ n) = ts)"
proof -
  have ok: "mutex_ok n k" and kk: "kinv k" using i by (simp_all add: mutex_inv_def)
  have cur: "rt_current_thread k = Some c" using c by (simp add: caller_def)
  have ow: "mx_owner (mutexes k n) = Some c" "alive k c" "mx_value (mutexes k n) = 0"
    and op: "unat (mx_original_priority (mutexes k n)) < 32"
    and cq: "c \<notin> set (ls_q (tlist k) (MutexQ n))"
    using h(1) by (auto simp: mutex_held_def)
  let ?k0 = "upd_mutex n (\<lambda>m. m\<lparr>mx_hold := mx_hold m - 1\<rparr>) k"
  let ?p = "mx_original_priority (mutexes k n)"
  have k0: "kinv ?k0" "alive ?k0 c" "mutex_ok n ?k0"
    using kk ow(2) ok by (simp_all add: alive_def rt_object_get_type_def mutex_ok_def)
  obtain k1 where k1: "mutex_restore c ?p ?k0 = Some k1" "kinv k1" "ipc_frame ?k0 k1" "rt_current_thread k1 = rt_current_thread ?k0"
    "th_current_priority (thr k1 c) = ?p" "\<forall>x. x \<noteq> c \<longrightarrow> thr k1 x = thr ?k0 x"
    "ls_q (tlist k1) (MutexQ n) = ls_q (tlist ?k0) (MutexQ n)"
    using restore_ok[OF k0(1,2) op] by blast
  have m1: "mutexes k1 = mutexes ?k0" using ipc_frameD(2)[OF k1(3)] .
  have ok1: "mutex_ok n k1" using mutex_ok_frame[OF k1(3)] k0(3) by simp
  show ?thesis
  proof (cases "ls_q (tlist k) (MutexQ n)")
    case Nil
    let ?k' = "upd_mutex n (\<lambda>m. m\<lparr>mx_value := mx_value m + 1, mx_owner := None,
      mx_original_priority := 0xff\<rparr>) k1"
    have "rt_mutex_release n k = Some (0, ?k')"
      unfolding release_context[OF c ok ow(1)] using h(2) k1(1,7) Nil by (simp add: Let_def)
    moreover have f: "mutex_free n ?k'"
      using h(2) Nil k1(7) ow m1 by (simp add: mutex_free_def mutex_reset_def)
    moreover have "mutex_inv n ?k'"
      using f k1(2,4) ok1 cur by (simp add: mutex_inv_def mutex_ok_def rt_object_get_type_def)
    ultimately show ?thesis using Nil k1(5) by (intro exI[of _ ?k']) simp
  next
    case (Cons t ts)
    have tc: "t \<noteq> c" and tts: "t \<notin> set ts"
      using cq Cons ls_inv_distinct[OF kinvD(2)[OF kk], of "MutexQ n"] by auto
    let ?k2 = "upd_mutex n (\<lambda>m. m\<lparr>mx_owner := Some t,
      mx_original_priority := th_current_priority (thr k1 t), mx_hold := mx_hold m + 1\<rparr>) k1"
    have k2: "kinv ?k2" "ls_q (tlist ?k2) (MutexQ n) = t # ts" using k1(2,7) Cons by simp_all
    have w: "wait_link (Some (MutexQ n))" by simp
    obtain k3 where k3: "rt_ipc_list_resume (MutexQ n) ?k2 = Some k3" "kinv k3" "ipc_frame ?k2 k3"
      "thr k3 = (thr ?k2)(t := set_stat 1 (thr ?k2 t))" "rt_current_thread k3 = rt_current_thread ?k2"
      "ready_thread k3 t" "ls_q (tlist k3) (MutexQ n) = ts"
      using list_resume_ok[OF k2 w] by blast
    obtain k' where k': "rt_schedule k3 = Some k'" "kinv k'" "sched_frame k3 k'"
      using schedule_ok[OF k3(2), of c] k3(5) k1(4) cur by auto
    have fr: "ipc_frame ?k2 k'" by (rule ipc_frame_trans[OF k3(3) sched_ipc_frame[OF k'(3)]])
    have th: "thr k' = thr k3" using sched_frameD(3)[OF k'(3)] .
    have q: "ls_q (tlist k') (MutexQ n) = ts"
      using sched_frameD(16)[OF k'(3), of "MutexQ n"] k3(7) by simp
    have run: "rt_mutex_release n k = Some (0, k')"
      unfolding release_context[OF c ok ow(1)] using h(2) k1(1,7) Cons k3(1) k'(1) by (simp add: Let_def)
    have rt: "ready_thread k' t"
      using k3(6) th ipc_frame_alive[OF sched_ipc_frame[OF k'(3)]] by (simp add: ready_thread_def)
    have m: "mutexes k' = mutexes ?k2" using ipc_frameD(2)[OF fr] .
    have pt: "unat (th_current_priority (thr k t)) < 32"
      using kinv_alive(1)[OF kk kinv_waiter(1)[OF kk _ w, of t]] Cons by simp
    have tt: "thr k1 t = thr k t" using k1(6) tc by simp
    have held: "mutex_held n t k'"
      using m m1 ow(3) h(2) q tts rt pt tt by (simp add: mutex_held_def ready_thread_def)
    have "mutex_ok n k'" using ok1 mutex_ok_frame[OF fr] by (simp add: mutex_ok_def rt_object_get_type_def)
    then have "mutex_inv n k'"
      using held k'(2) sched_frameD(17)[OF k'(3)] k3(5) k1(4) cur by (auto simp: mutex_inv_def)
    then show ?thesis using run held rt q Cons th k3(4) k1(5) tc tt m m1 h(2)
      by (intro exI[of _ k']) simp
  qed
qed

lemma mutex_release_nested:
  assumes "mutex_inv n k" "caller c k" "mutex_held n c k" "mx_hold (mutexes k n) \<noteq> 1"
  shows "\<exists>k'. rt_mutex_release n k = Some (0, k') \<and> mutex_inv n k' \<and> mutex_held n c k' \<and>
    mx_hold (mutexes k' n) = mx_hold (mutexes k n) - 1 \<and> thr k' = thr k"
proof -
  let ?k' = "upd_mutex n (\<lambda>m. m\<lparr>mx_hold := mx_hold m - 1\<rparr>) k"
  have ok: "mutex_ok n k" "mx_owner (mutexes k n) = Some c"
    using assms(1,3) by (simp_all add: mutex_inv_def mutex_held_def)
  have "rt_mutex_release n k = Some (0, ?k')"
    unfolding release_context[OF assms(2) ok] using assms(4) by (simp add: Let_def)
  moreover have h: "mutex_held n c ?k'"
    using assms(3,4) by (simp add: mutex_held_def alive_def rt_object_get_type_def)
  moreover have "mutex_inv n ?k'"
    using assms(1) h by (auto simp: mutex_inv_def mutex_ok_def rt_object_get_type_def)
  ultimately show ?thesis by (intro exI[of _ ?k']) simp
qed

lemma mutex_release_refused:
  assumes "mutex_inv n k" "caller c k" "\<not> mutex_held n c k"
  shows "\<exists>k'. rt_mutex_release n k = Some (- 1, k') \<and> mutex_inv n k' \<and> mutexes k' = mutexes k \<and>
    th_error (thr k' c) = - 1"
proof -
  let ?k' = "upd_thr c (\<lambda>th. th\<lparr>th_error := - 1\<rparr>) k"
  have ok: "mutex_ok n k" and kk: "kinv k" using assms(1) by (simp_all add: mutex_inv_def)
  have "mx_owner (mutexes k n) \<noteq> Some c"
    using assms(1,3) by (auto simp: mutex_inv_def mutex_free_def mutex_reset_def mutex_held_def)
  then have "rt_mutex_release n k = Some (- 1, ?k')"
    using assms(2) ok by (simp add: rt_mutex_release_def caller_def mutex_ok_def rt_thread_self_def
      RT_DEBUG_IN_THREAD_CONTEXT_def RT_DEBUG_NOT_IN_INTERRUPT_def rt_interrupt_get_nest_def)
  moreover have "mutex_inv n ?k'"
    by (rule mutex_inv_mono[OF assms(1)])
      (use kinv_thr_same[OF kk] assms(2) in \<open>auto simp: ipc_frame_def caller_def\<close>)
  ultimately show ?thesis by (intro exI[of _ ?k']) simp
qed

subsection \<open>Runs\<close>

text \<open>
  Any sequence of calls on one mutex with the count of holds every thread may believe in: takes that
  returned \<open>RT_EOK\<close>, plus the hand-over to the first waiting thread, minus successful releases.
\<close>

definition give :: "nat \<Rightarrow> (nat \<Rightarrow> nat) \<Rightarrow> nat list \<Rightarrow> nat \<Rightarrow> nat" where
  "give c held ws = (let held = held(c := held c - 1) in
     if held c = 0 then case ws of [] \<Rightarrow> held | t # _ \<Rightarrow> held(t := held t + 1) else held)"

inductive mutex_run :: "nat \<Rightarrow> kernel \<Rightarrow> (nat \<Rightarrow> nat) \<Rightarrow> kernel \<Rightarrow> bool" for n k0 where
  start: "mutex_run n k0 (\<lambda>_. 0) k0"
| got: "mutex_run n k0 held k \<Longrightarrow> caller c k \<Longrightarrow> time < 0x7fffffff \<Longrightarrow> held c \<noteq> 255 \<Longrightarrow>
    rt_mutex_take n time k = Some (Return 0, k') \<Longrightarrow> mutex_run n k0 (held(c := held c + 1)) k'"
| not_got: "mutex_run n k0 held k \<Longrightarrow> caller c k \<Longrightarrow> time < 0x7fffffff \<Longrightarrow> held c \<noteq> 255 \<Longrightarrow>
    rt_mutex_take n time k = Some (a, k') \<Longrightarrow> a \<noteq> Return 0 \<Longrightarrow> mutex_run n k0 held k'"
| released: "mutex_run n k0 held k \<Longrightarrow> caller c k \<Longrightarrow> rt_mutex_release n k = Some (0, k') \<Longrightarrow>
    mutex_run n k0 (give c held (ls_q (tlist k) (MutexQ n))) k'"
| refused: "mutex_run n k0 held k \<Longrightarrow> caller c k \<Longrightarrow> rt_mutex_release n k = Some (e, k') \<Longrightarrow> e \<noteq> 0 \<Longrightarrow>
    mutex_run n k0 held k'"
| timeout: "mutex_run n k0 held k \<Longrightarrow> alive k t \<Longrightarrow> stat_of (thr k t) = 2 \<Longrightarrow>
    ls_in (tmlist k) (ThreadTimer t) = None \<Longrightarrow> rt_thread_timeout t k = Some k' \<Longrightarrow>
    mutex_run n k0 held k'"
| other: "mutex_run n k0 held k \<Longrightarrow> mutex_inv n k' \<Longrightarrow> mutexes k' n = mutexes k n \<Longrightarrow>
    ls_q (tlist k') (MutexQ n) = ls_q (tlist k) (MutexQ n) \<Longrightarrow> mutex_run n k0 held k'"

text \<open>What the ghost count has to do with the control block.\<close>

definition holds_ok :: "nat \<Rightarrow> (nat \<Rightarrow> nat) \<Rightarrow> kernel \<Rightarrow> bool" where
  "holds_ok n held k \<longleftrightarrow> held =
     (case mx_owner (mutexes k n) of None \<Rightarrow> \<lambda>_. 0 | Some c \<Rightarrow> (\<lambda>_. 0)(c := unat (mx_hold (mutexes k n))))"

lemma holds_ok_free: "mutex_free n k \<Longrightarrow> holds_ok n held k \<longleftrightarrow> held = (\<lambda>_. 0)"
  by (simp add: holds_ok_def mutex_free_def mutex_reset_def)

lemma holds_ok_held:
  "mutex_held n c k \<Longrightarrow> holds_ok n held k \<longleftrightarrow> held = (\<lambda>_. 0)(c := unat (mx_hold (mutexes k n)))"
  by (simp add: holds_ok_def mutex_held_def)

lemma holds_ok_cong: "mutexes k' n = mutexes k n \<Longrightarrow> holds_ok n held k' = holds_ok n held k"
  by (simp add: holds_ok_def split: option.split)

lemma mutex_timeout_step:
  assumes i: "mutex_inv n k" and t: "alive k t" "stat_of (thr k t) = 2" "ls_in (tmlist k) (ThreadTimer t) = None"
    "rt_thread_timeout t k = Some k'"
  shows "mutex_inv n k' \<and> mutexes k' = mutexes k"
proof -
  obtain c where c: "rt_current_thread k = Some c" and kk: "kinv k" using i by (auto simp: mutex_inv_def)
  obtain k1 k2 where *: "rt_thread_timeout t k = Some k2" "kinv k2" "ipc_frame k k1" "sched_frame k1 k2"
    "rt_current_thread k1 = Some c"
    "\<forall>q. ls_q (tlist k1) q = remove1 t (ls_q (tlist k) q) @
       (if c \<noteq> t \<and> q = Ready (prio_of k t) then [t] else [])"
    using timeout_ok[OF kk c t(1-3)] by blast
  then have k2: "k2 = k'" using t(4) by simp
  have fr: "ipc_frame k k'" using ipc_frame_trans[OF *(3) sched_ipc_frame[OF *(4)]] k2 by simp
  have "set (ls_q (tlist k') (MutexQ n)) \<subseteq> set (ls_q (tlist k) (MutexQ n))"
    using sched_frameD(16)[OF *(4), of "MutexQ n"] *(6) k2 set_remove1_subset[of t "ls_q (tlist k) (MutexQ n)"] by simp
  then show ?thesis
    using mutex_inv_mono[OF i _ fr] *(2,5) k2 sched_frameD(17)[OF *(4)] ipc_frameD(2)[OF fr] by auto
qed

lemma mutex_run_got:
  assumes i: "mutex_inv n k" "holds_ok n held k" and c: "caller c k" "time < 0x7fffffff" "held c \<noteq> 255"
    and t: "rt_mutex_take n time k = Some (a, k')"
  shows "mutex_inv n k' \<and> holds_ok n (if a = Return 0 then held(c := held c + 1) else held) k'"
proof (cases "mutex_free n k")
  case True
  then have "mx_owner (mutexes k n) \<noteq> Some c" by (simp add: mutex_free_def mutex_reset_def)
  then have "mutex_inv n k'" "a = Return 0" "mutex_held n c k'" "mx_hold (mutexes k' n) = 1"
    using mutex_take_ok[OF i(1) c(1,2)] t True by auto
  then show ?thesis using i(2) True by (simp add: holds_ok_held holds_ok_free)
next
  case nf: False
  show ?thesis
  proof (cases "mx_owner (mutexes k n) = Some c")
    case True
    then have hk: "mutex_held n c k" using i(1) nf by (auto simp: mutex_inv_def mutex_held_def)
    have h: "mx_hold (mutexes k n) \<noteq> 255"
    proof
      assume "mx_hold (mutexes k n) = 255"
      then show False using holds_ok_held[OF hk] i(2) c(3) by simp
    qed
    then have *: "mutex_inv n k'" "a = Return 0" "mutex_held n c k'"
      "mx_hold (mutexes k' n) = mx_hold (mutexes k n) + 1"
      using mutex_take_ok[OF i(1) c(1,2)] t True nf by auto
    have "mx_hold (mutexes k n) + 1 \<noteq> 0" using h by (auto simp: add_eq_0_iff2)
    then have "unat (mx_hold (mutexes k n) + 1) = unat (mx_hold (mutexes k n)) + 1"
      using unatSuc[of "mx_hold (mutexes k n)"] by (simp add: add.commute)
    then show ?thesis using * i(2) holds_ok_held[OF hk] by (simp add: holds_ok_held)
  next
    case False
    then have "mutex_inv n k'" "mutexes k' = mutexes k" "a \<noteq> Return 0"
      using mutex_take_ok[OF i(1) c(1,2)] t nf by (auto split: if_splits)
    then show ?thesis using i(2) holds_ok_cong[of k' n k held] by simp
  qed
qed

lemma mutex_run_released:
  assumes i: "mutex_inv n k" "holds_ok n held k" and c: "caller c k"
    and t: "rt_mutex_release n k = Some (0, k')"
  shows "mutex_inv n k' \<and> holds_ok n (give c held (ls_q (tlist k) (MutexQ n))) k'"
proof (cases "mutex_held n c k")
  case False
  then show ?thesis using mutex_release_refused[OF i(1) c False] t by auto
next
  case h: True
  have held: "held = (\<lambda>_. 0)(c := unat (mx_hold (mutexes k n)))" using i(2) holds_ok_held[OF h] by simp
  show ?thesis
  proof (cases "mx_hold (mutexes k n) = 1")
    case True
    show ?thesis
    proof (cases "ls_q (tlist k) (MutexQ n)")
      case Nil
      then have "mutex_inv n k'" "mutex_free n k'" using mutex_release_last_ok[OF i(1) c h True] t by auto
      then show ?thesis using held True Nil by (simp add: holds_ok_free give_def fun_eq_iff)
    next
      case (Cons w ws)
      then have "mutex_inv n k'" "mutex_held n w k'" "mx_hold (mutexes k' n) = 1"
        using mutex_release_last_ok[OF i(1) c h True] t by auto
      then show ?thesis using held True Cons by (auto simp: holds_ok_held give_def fun_eq_iff)
    qed
  next
    case False
    then have "mutex_inv n k'" "mutex_held n c k'" "mx_hold (mutexes k' n) = mx_hold (mutexes k n) - 1"
      using mutex_release_nested[OF i(1) c h False] t by auto
    moreover have "mx_hold (mutexes k n) \<noteq> 0" using h by (simp add: mutex_held_def)
    then have "unat (mx_hold (mutexes k n) - 1) = unat (mx_hold (mutexes k n)) - 1"
      by (simp add: unat_minus_one)
    moreover have "unat (mx_hold (mutexes k n)) \<noteq> 1"
      using False by (simp add: word_unat_eq_iff)
    moreover have "unat (mx_hold (mutexes k n)) \<noteq> 0"
      using \<open>mx_hold (mutexes k n) \<noteq> 0\<close> by (simp add: unat_eq_0)
    ultimately show ?thesis using held by (auto simp: holds_ok_held give_def fun_eq_iff Let_def)
  qed
qed

lemma mutex_run_inv:
  assumes "mutex_run n k0 held k" "mutex_inv n k0" "mutex_free n k0"
  shows "mutex_inv n k \<and> holds_ok n held k"
  using assms(1)
proof induction
  case start
  then show ?case using assms(2,3) by (simp add: holds_ok_free)
next
  case (got held k c time k')
  then show ?case using mutex_run_got[of n k held c time "Return 0" k'] by (simp add: fun_upd_def)
next
  case (not_got held k c time a k')
  then show ?case using mutex_run_got[of n k held c time a k'] by simp
next
  case (released held k c k')
  then show ?case using mutex_run_released[of n k held c k'] by simp
next
  case (refused held k c e k')
  then have nh: "\<not> mutex_held n c k"
    using mutex_release_last_ok[of n k c] mutex_release_nested[of n k c] by auto
  then show ?case using mutex_release_refused[of n k c] refused holds_ok_cong[of k' n k held] by auto
next
  case (timeout held k t k')
  then show ?case using mutex_timeout_step[of n k t k'] holds_ok_cong[of k' n k held] by simp
next
  case (other held k k')
  then show ?case using holds_ok_cong[of k' n k held] by simp
qed

subsection \<open>Properties\<close>

definition ex_mutex :: kernel where
  "ex_mutex = ex_ipc (OMutex 0) 3 1 ex_kernel"

lemma ex_mutex_facts:
  "mutex_inv 0 ex_mutex" "mutex_free 0 ex_mutex" "caller 0 ex_mutex" "kinv ex_mutex"
  "th_current_priority (thr ex_mutex 1) = 10" "alive ex_mutex 1" "alive ex_mutex 0" "mutex_ok 0 ex_mutex"
proof -
  show k: "kinv ex_mutex" unfolding ex_mutex_def
    by (rule ex_ipc_inv[OF ex_kernel_inv]) (simp_all add: ex_kernel_def ex_olist_def)
  show f: "mutex_free 0 ex_mutex"
    by (simp add: mutex_free_def ex_mutex_def ex_ipc_def ex_kernel_def mutex_reset_def)
  show m: "mutex_ok 0 ex_mutex"
    by (simp add: ex_mutex_def ex_ipc_def mutex_ok_def rt_object_get_type_def)
  show "caller 0 ex_mutex" "th_current_priority (thr ex_mutex 1) = 10"
    by (simp_all add: ex_mutex_def ex_ipc_def caller_def ex_kernel_def ex_thread_def stat_of_def)
  show "alive ex_mutex 1" "alive ex_mutex 0"
    by (simp_all add: ex_mutex_def ex_ipc_def alive_def rt_object_get_type_def ex_kernel_def ex_objs_def ex_obj_def)
  show "mutex_inv 0 ex_mutex"
    using k f m by (simp add: mutex_inv_def ex_mutex_def ex_ipc_def ex_kernel_def)
qed



text \<open>The outcomes of \<open>rt_mutex_take\<close>: a free mutex becomes the caller's; the owner takes it once more; any
  other caller gets \<open>-RT_ETIMEOUT\<close> when it does not want to wait and blocks otherwise, and the mutex
  does not change.\<close>

theorem mutex_take_outcomes:
  assumes "mutex_inv n k" "caller c k" "time < 0x7fffffff"
    "mx_owner (mutexes k n) = Some c \<longrightarrow> mx_hold (mutexes k n) \<noteq> 255"
  shows "\<exists>a k'. rt_mutex_take n time k = Some (a, k') \<and> mutex_inv n k' \<and>
    (if mutex_free n k then a = Return RT_EOK \<and> mutex_held n c k' \<and> mx_hold (mutexes k' n) = 1 \<and>
       mx_original_priority (mutexes k' n) = th_current_priority (thr k c)
     else if mx_owner (mutexes k n) = Some c then a = Return RT_EOK \<and> mutex_held n c k' \<and>
       mx_hold (mutexes k' n) = mx_hold (mutexes k n) + 1
     else (if time = 0 then a = Return (- RT_ETIMEOUT) else a = Blocked) \<and> mutexes k' = mutexes k)"
  by (rule mutex_take_ok[OF assms])

theorem mutex_take_outcomes_witness:
  "\<exists>a k'. rt_mutex_take 0 7 ex_mutex = Some (a, k') \<and> a = Return 0 \<and> mutex_held 0 0 k'"
  using mutex_take_outcomes[OF ex_mutex_facts(1,3), of 7] ex_mutex_facts(2)
  by (auto simp: mutex_free_def mutex_reset_def)

text \<open>Thread 1 holds mutex 0; the caller 0 runs at priority 3.\<close>

definition ex_mutex_held :: kernel where
  "ex_mutex_held = (upd_mutex 0 (\<lambda>_. \<lparr>mx_value = 0, mx_original_priority = 10, mx_hold = 1,
     mx_owner = Some 1\<rparr>) ex_mutex)\<lparr>thr := (thr ex_mutex)(0 := with_prio 3 (thr ex_mutex 0))\<rparr>"

lemma ex_mutex_held_facts:
  "kinv ex_mutex_held" "caller 0 ex_mutex_held" "mutex_ok 0 ex_mutex_held" "mutex_held 0 1 ex_mutex_held"
  "th_current_priority (thr ex_mutex_held 0) = 3" "th_current_priority (thr ex_mutex_held 1) = 10"
proof -
  have "thread_inv ex_mutex_held t" for t
  proof (cases "t = 0")
    case True
    have "ls_in (tlist ex_mutex) 0 = None" by (simp add: ex_mutex_def ex_ipc_def ex_kernel_def)
    then show ?thesis
      using True th_inv_prio[OF kinvD(5)[OF ex_mutex_facts(4), of 0, unfolded thread_inv_def], of 3 None]
      by (simp add: thread_inv_def ex_mutex_held_def alive_def rt_object_get_type_def)
  next
    case False
    then show ?thesis
      by (intro thread_inv_same[OF kinvD(5)[OF ex_mutex_facts(4)]]) (simp_all add: ex_mutex_held_def)
  qed
  then show "kinv ex_mutex_held"
    using kinvD[OF ex_mutex_facts(4)] by (auto simp: kinv_def obj_inv_def ex_mutex_held_def)
  show "caller 0 ex_mutex_held" "mutex_ok 0 ex_mutex_held"
    using ex_mutex_facts(3,8)
    by (auto simp: caller_def mutex_ok_def ex_mutex_held_def rt_object_get_type_def)
  show "mutex_held 0 1 ex_mutex_held"
    using ex_mutex_facts(2,6)
    by (auto simp: mutex_held_def mutex_free_def ex_mutex_held_def alive_def rt_object_get_type_def)
  show "th_current_priority (thr ex_mutex_held 0) = 3" "th_current_priority (thr ex_mutex_held 1) = 10"
    using ex_mutex_facts(5) by (simp_all add: ex_mutex_held_def)
qed



text \<open>The last release gives the owner its original priority back, and hands the mutex to the first
  waiting thread, which becomes ready and owner with one hold; with nobody waiting the mutex is free.\<close>

theorem mutex_release_hands_over:
  assumes "mutex_inv n k" "caller c k" "mutex_held n c k" "mx_hold (mutexes k n) = 1"
  shows "\<exists>k'. rt_mutex_release n k = Some (RT_EOK, k') \<and> mutex_inv n k' \<and>
    th_current_priority (thr k' c) = mx_original_priority (mutexes k n) \<and>
    (case ls_q (tlist k) (MutexQ n) of
       [] \<Rightarrow> mutex_free n k'
     | t # ts \<Rightarrow> mutex_held n t k' \<and> mx_hold (mutexes k' n) = 1 \<and> ready_thread k' t \<and>
         th_error (thr k' t) = th_error (thr k t) \<and>
         mx_original_priority (mutexes k' n) = th_current_priority (thr k t) \<and>
         ls_q (tlist k') (MutexQ n) = ts)"
  by (rule mutex_release_last_ok[OF assms])

text \<open>Thread 0 holds mutex 0, raised from priority 12 to 10, and thread 1 waits for it.\<close>

definition ex_mutex_wait :: kernel where
  "ex_mutex_wait = upd_mutex 0 (\<lambda>_. \<lparr>mx_value = 0, mx_original_priority = 12, mx_hold = 1,
     mx_owner = Some 0\<rparr>) (ex_ipc (OMutex 0) 3 1 (ex_wait (MutexQ 0)))"

lemma ex_mutex_wait_facts:
  "mutex_inv 0 ex_mutex_wait" "caller 0 ex_mutex_wait" "mutex_held 0 0 ex_mutex_wait"
  "mx_hold (mutexes ex_mutex_wait 0) = 1" "ls_q (tlist ex_mutex_wait) (MutexQ 0) = [1]"
  "mx_original_priority (mutexes ex_mutex_wait 0) = 12"
proof -
  have k: "kinv ex_mutex_wait" unfolding ex_mutex_wait_def kinv_mutexes
    by (rule ex_ipc_inv[OF ex_wait_inv]) (simp_all add: ex_wait_def ex_kernel_def ex_olist_def)
  show "caller 0 ex_mutex_wait" "mx_hold (mutexes ex_mutex_wait 0) = 1"
    "ls_q (tlist ex_mutex_wait) (MutexQ 0) = [1]" "mx_original_priority (mutexes ex_mutex_wait 0) = 12"
    by (simp_all add: ex_mutex_wait_def ex_ipc_def caller_def ex_wait_facts)
  have m: "mutex_ok 0 ex_mutex_wait"
    by (simp add: ex_mutex_wait_def ex_ipc_def mutex_ok_def rt_object_get_type_def)
  have c: "rt_current_thread ex_mutex_wait \<noteq> None" by (simp add: ex_mutex_wait_def ex_ipc_def ex_wait_facts)
  show h: "mutex_held 0 0 ex_mutex_wait"
    using ex_wait_facts(5)[of "MutexQ 0"]
    by (simp add: mutex_held_def ex_mutex_wait_def ex_ipc_def ex_wait_facts alive_def rt_object_get_type_def)
  show "mutex_inv 0 ex_mutex_wait"
    using k m c h by (auto simp: mutex_inv_def)
qed

theorem mutex_release_hands_over_witness:
  "\<exists>k'. rt_mutex_release 0 ex_mutex_wait = Some (0, k') \<and> mutex_held 0 1 k' \<and>
    th_current_priority (thr k' 0) = 12"
  using mutex_release_hands_over[OF ex_mutex_wait_facts(1-4)]
  by (auto simp: ex_mutex_wait_facts(5,6) simp del: One_nat_def)

text \<open>Only the owner can release a mutex: any other caller gets \<open>-RT_ERROR\<close> and the mutex is unchanged.\<close>

theorem mutex_release_owner_only:
  assumes "mutex_inv n k" "caller c k" "\<not> mutex_held n c k"
  shows "\<exists>k'. rt_mutex_release n k = Some (- RT_ERROR, k') \<and> mutex_inv n k' \<and> mutexes k' = mutexes k \<and>
    th_error (thr k' c) = - RT_ERROR"
  by (rule mutex_release_refused[OF assms])

theorem mutex_release_owner_only_witness:
  "\<exists>k'. rt_mutex_release 0 ex_mutex = Some (- 1, k') \<and> mutexes k' = mutexes ex_mutex"
  using mutex_release_owner_only[OF ex_mutex_facts(1,3)] ex_mutex_facts(2)
  by (auto simp: mutex_held_def mutex_free_def mutex_reset_def)

text \<open>A thread whose wait was interrupted by a signal tries again with its error still set. When the
  mutex is then handed to it, it sees the old error, tries once more, finds the mutex taken (by
  itself) and suspends on it: it waits for a mutex it owns.\<close>

theorem mutex_retry_waits_for_itself:
  assumes "kinv k" "caller c k" "mutex_ok n k" "mutex_held n c k" "th_error (thr k c) = - RT_EINTR"
    "time \<noteq> 0" "time < 0x7fffffff"
  shows "\<exists>k'. rt_mutex_take_end n c time k = Some (Blocked, k') \<and> mx_owner (mutexes k' n) = Some c \<and>
    stat_of (thr k' c) = RT_THREAD_SUSPEND \<and> c \<in> set (ls_q (tlist k') (MutexQ n))"
proof -
  have c: "rt_current_thread k = Some c" "stat_of (thr k c) = 1" using assms(2) by (auto simp: caller_def)
  have f: "ob_flag (objs k (OMutex n)) = 0 \<or> ob_flag (objs k (OMutex n)) = 1"
    using assms(3) by (simp add: mutex_ok_def)
  have w: "wait_link (Some (MutexQ n))" by simp
  obtain k1 where k1: "wait_on (MutexQ n) (ob_flag (objs k (OMutex n))) c time k = Some k1" "kinv k1"
    "ipc_frame k k1" "thr k1 = (thr k)(c := set_stat 2 (thr k c))" "rt_current_thread k1 = Some c"
    "ls_q (tlist k1) = (ls_q (tlist k))(MutexQ n := enqueued (ob_flag (objs k (OMutex n)))
      (\<lambda>t. th_current_priority (thr k t)) c (ls_q (tlist k) (MutexQ n)))"
    using wait_on_ok[OF assms(1) c w f assms(7)] by blast
  obtain k' where k': "rt_schedule k1 = Some k'" "sched_frame k1 k'"
    using schedule_ok[OF k1(2,5)] by blast
  have v: "mx_value (mutexes k n) = 0" "mx_owner (mutexes k n) = Some c"
    using assms(4) by (simp_all add: mutex_held_def)
  have "rt_mutex_take_end n c time k = Some (Blocked, k')"
    using v assms(5,6) k1(1) k'(1)
    by (simp add: rt_mutex_take_end_def mutex_take_again_def mutex_inherit_def)
  then show ?thesis
    using sched_frameD(3,11)[OF k'(2)] sched_frameD(16)[OF k'(2), of "MutexQ n"] k1(4,6)
      ipc_frameD(2)[OF k1(3)] v(2) by (intro exI[of _ k']) simp
qed

theorem mutex_retry_waits_for_itself_witness:
  "\<exists>k k'. mutex_held 0 0 k \<and> rt_mutex_take_end 0 0 (-1) k = Some (Blocked, k') \<and>
    stat_of (thr k' 0) = 2 \<and> 0 \<in> set (ls_q (tlist k') (MutexQ 0))"
proof -
  let ?k = "upd_thr 0 (\<lambda>th. th\<lparr>th_error := - 9\<rparr>) ex_mutex_wait"
  have k: "kinv ?k" "caller 0 ?k" "mutex_ok 0 ?k" "mutex_held 0 0 ?k" "th_error (thr ?k 0) = - 9"
    using kinv_thr_same[of ex_mutex_wait] ex_mutex_wait_facts(1-3)
    by (auto simp: mutex_inv_def caller_def mutex_ok_def mutex_held_def alive_def rt_object_get_type_def)
  from mutex_retry_waits_for_itself[OF k, of "- 1"] k(4) show ?thesis by auto
qed

end
