(* ===== verification/Event.thy ===== *)
theory Event
  imports Ipc_Base
begin

text \<open>
  Events (\<open>rt_event_*\<close> of \<open>src/ipc.c\<close>): a set of 32 bits; a thread waits for all or for one of the
  bits it names. \<open>rt_event_send\<close> serves the waiting threads in queue order, and a thread that asked for
  it takes the bits it received out of the set before the next one is looked at.
\<close>

subsection \<open>Operations\<close>

definition upd_event :: "nat \<Rightarrow> (u32 \<Rightarrow> u32) \<Rightarrow> kernel \<Rightarrow> kernel" where
  [simp]: "upd_event n f k = k\<lparr>events := (events k)(n := \<lparr>ev_set = f (ev_set (events k n))\<rparr>)\<rparr>"

abbreviation (input) RT_EVENT_FLAG_AND :: u8 where "RT_EVENT_FLAG_AND \<equiv> 1"
abbreviation (input) RT_EVENT_FLAG_OR :: u8 where "RT_EVENT_FLAG_OR \<equiv> 2"
abbreviation (input) RT_EVENT_FLAG_CLEAR :: u8 where "RT_EVENT_FLAG_CLEAR \<equiv> 4"

definition rt_event_init :: "nat \<Rightarrow> u8 list \<Rightarrow> u8 \<Rightarrow> kernel \<Rightarrow> (rt_err_t \<times> kernel) option" where
  "rt_event_init n name flag k =
     do { k \<leftarrow> rt_object_init (OEvent n) RT_Object_Class_Event name k;
          let k = upd_obj (OEvent n) (\<lambda>ob. ob\<lparr>ob_flag := flag\<rparr>) k;
          k \<leftarrow> rt_ipc_object_init (EventQ n) k;
          Some (RT_EOK, upd_event n (\<lambda>_. 0) k) }"

definition rt_event_detach :: "nat \<Rightarrow> kernel \<Rightarrow> (rt_err_t \<times> kernel) option" where
  "rt_event_detach n k =
     do { RT_ASSERT (rt_object_get_type (OEvent n) k = of_nat RT_Object_Class_Event);
          RT_ASSERT (rt_object_is_systemobject (OEvent n) k);
          k \<leftarrow> rt_ipc_list_resume_all (EventQ n) k;
          Some (RT_EOK, rt_object_detach (OEvent n) k) }"

definition rt_event_create :: "nat option \<Rightarrow> u8 list \<Rightarrow> u8 \<Rightarrow> kernel \<Rightarrow> (nat option \<times> kernel) option" where
  "rt_event_create mem name flag k =
     do { RT_DEBUG_NOT_IN_INTERRUPT k;
          (x, k) \<leftarrow> rt_object_allocate (map_option OEvent mem) RT_Object_Class_Event name k;
          case x of
            Some (OEvent n) \<Rightarrow>
              do { let k = upd_obj (OEvent n) (\<lambda>ob. ob\<lparr>ob_flag := flag\<rparr>) k;
                   k \<leftarrow> rt_ipc_object_init (EventQ n) k;
                   Some (Some n, upd_event n (\<lambda>_. 0) k) }
          | _ \<Rightarrow> Some (None, k) }"

definition rt_event_delete :: "nat \<Rightarrow> kernel \<Rightarrow> (rt_err_t \<times> kernel) option" where
  "rt_event_delete n k =
     do { RT_ASSERT (rt_object_get_type (OEvent n) k = of_nat RT_Object_Class_Event);
          RT_ASSERT (\<not> rt_object_is_systemobject (OEvent n) k);
          RT_DEBUG_NOT_IN_INTERRUPT k;
          k \<leftarrow> rt_ipc_list_resume_all (EventQ n) k;
          k \<leftarrow> rt_object_delete (OEvent n) k;
          Some (RT_EOK, k) }"

text \<open>
  The loop of \<open>rt_event_send\<close> over the nodes that wait. The next node is read before a thread is
  resumed, and only the node of that thread is unlinked, so the nodes visited are those of the queue at
  the start.
\<close>

fun event_send_loop :: "nat \<Rightarrow> nat list \<Rightarrow> bool \<Rightarrow> kernel \<Rightarrow> (bool \<times> kernel) option" where
  "event_send_loop n [] need_schedule k = Some (need_schedule, k)"
| "event_send_loop n (thread # ts) need_schedule k =
     (let info = th_event_info (thr k thread); want = th_event_set (thr k thread); ev = ev_set (events k n);
          (ok, k) = (if info AND RT_EVENT_FLAG_AND \<noteq> 0 then (want AND ev = want, k)
                     else if info AND RT_EVENT_FLAG_OR \<noteq> 0 then
                       (if want AND ev \<noteq> 0
                        then (True, upd_thr thread (\<lambda>th. th\<lparr>th_event_set := want AND ev\<rparr>) k)
                        else (False, k))
                     else (False, k))
      in if ok
         then do { let k = (if info AND RT_EVENT_FLAG_CLEAR \<noteq> 0
                            then upd_event n (\<lambda>s. s AND NOT (th_event_set (thr k thread))) k else k);
                   (_, k) \<leftarrow> rt_thread_resume thread k;
                   event_send_loop n ts True k }
         else event_send_loop n ts need_schedule k)"

definition rt_event_send :: "nat \<Rightarrow> u32 \<Rightarrow> kernel \<Rightarrow> (rt_err_t \<times> kernel) option" where
  "rt_event_send n bits k =
     do { RT_ASSERT (rt_object_get_type (OEvent n) k = of_nat RT_Object_Class_Event);
          if bits = 0 then Some (- RT_ERROR, k)
          else do { let k = upd_event n (\<lambda>s. s OR bits) k;
                    (need_schedule, k) \<leftarrow> event_send_loop n (ls_q (tlist k) (EventQ n)) False k;
                    k \<leftarrow> (if need_schedule then rt_schedule k else Some k);
                    Some (RT_EOK, k) } }"

text \<open>The check of the set in \<open>rt_event_recv\<close>: neither of the two flags is an assertion failure.\<close>

definition event_check :: "u8 \<Rightarrow> u32 \<Rightarrow> u32 \<Rightarrow> bool option" where
  "event_check option bits ev =
     (if option AND RT_EVENT_FLAG_AND \<noteq> 0 then Some (ev AND bits = bits)
      else if option AND RT_EVENT_FLAG_OR \<noteq> 0 then Some (ev AND bits \<noteq> 0)
      else None)"

text \<open>The received bits are what is stored through \<open>recved\<close> when it is given.\<close>

definition rt_event_recv ::
  "nat \<Rightarrow> u32 \<Rightarrow> u8 \<Rightarrow> int \<Rightarrow> kernel \<Rightarrow> ((rt_err_t \<times> u32 option) call \<times> kernel) option" where
  "rt_event_recv n bits option timeout k =
     do { RT_DEBUG_IN_THREAD_CONTEXT k;
          RT_ASSERT (rt_object_get_type (OEvent n) k = of_nat RT_Object_Class_Event);
          if bits = 0 then Some (Return (- RT_ERROR, None), k)
          else do { thread \<leftarrow> rt_thread_self k;
                    let k = upd_thr thread (\<lambda>th. th\<lparr>th_error := RT_EOK\<rparr>) k;
                    let ev = ev_set (events k n);
                    ok \<leftarrow> event_check option bits ev;
                    if ok
                    then Some (Return (th_error (thr k thread), Some (ev AND bits)),
                           if option AND RT_EVENT_FLAG_CLEAR \<noteq> 0 then upd_event n (\<lambda>s. s AND NOT bits) k else k)
                    else if timeout = 0
                    then Some (Return (- RT_ETIMEOUT, None), upd_thr thread (\<lambda>th. th\<lparr>th_error := - RT_ETIMEOUT\<rparr>) k)
                    else do { let k = upd_thr thread (\<lambda>th. th\<lparr>th_event_set := bits, th_event_info := option\<rparr>) k;
                              k \<leftarrow> wait_on (EventQ n) (ob_flag (objs k (OEvent n))) thread timeout k;
                              k \<leftarrow> rt_schedule k;
                              Some (Blocked, k) } } }"

definition rt_event_recv_end :: "nat \<Rightarrow> kernel \<Rightarrow> rt_err_t \<times> u32 option" where
  "rt_event_recv_end thread k =
     (if th_error (thr k thread) \<noteq> RT_EOK then (th_error (thr k thread), None)
      else (th_error (thr k thread), Some (th_event_set (thr k thread))))"

definition rt_event_control :: "nat \<Rightarrow> int \<Rightarrow> kernel \<Rightarrow> (rt_err_t \<times> kernel) option" where
  "rt_event_control n cmd k =
     do { RT_ASSERT (rt_object_get_type (OEvent n) k = of_nat RT_Object_Class_Event);
          if cmd = 1
          then do { k \<leftarrow> rt_ipc_list_resume_all (EventQ n) k;
                    let k = upd_event n (\<lambda>_. 0) k;
                    k \<leftarrow> rt_schedule k;
                    Some (RT_EOK, k) }
          else Some (- RT_ERROR, k) }"

interpretation event: ipc_object EventQ OEvent 4 rt_event_detach rt_event_delete
  by unfold_locales (simp_all add: rt_event_detach_def rt_event_delete_def RT_DEBUG_NOT_IN_INTERRUPT_def
      rt_interrupt_get_nest_def)

subsection \<open>Serving the waiting threads, abstractly\<close>

text \<open>Whether a request with options \<open>info\<close> for the bits \<open>want\<close> is met by the set \<open>ev\<close>, and what it gets.\<close>

definition event_hit :: "u8 \<Rightarrow> u32 \<Rightarrow> u32 \<Rightarrow> bool" where
  "event_hit info want ev \<longleftrightarrow>
     (if info AND 1 \<noteq> 0 then want AND ev = want else info AND 2 \<noteq> 0 \<and> want AND ev \<noteq> 0)"

definition event_got :: "u8 \<Rightarrow> u32 \<Rightarrow> u32 \<Rightarrow> u32" where
  "event_got info want ev = (if info AND 1 \<noteq> 0 then want else want AND ev)"

definition event_left :: "u8 \<Rightarrow> u32 \<Rightarrow> u32 \<Rightarrow> u32" where
  "event_left info want ev = (if info AND 4 \<noteq> 0 then ev AND NOT (event_got info want ev) else ev)"

text \<open>The threads served, with the bits they get, and the set that remains.\<close>

fun event_serve :: "(nat \<Rightarrow> u8) \<Rightarrow> (nat \<Rightarrow> u32) \<Rightarrow> u32 \<Rightarrow> nat list \<Rightarrow> (nat \<times> u32) list \<times> u32" where
  "event_serve info want ev [] = ([], ev)"
| "event_serve info want ev (t # ts) =
     (if event_hit (info t) (want t) ev
      then let (r, e) = event_serve info want (event_left (info t) (want t) ev) ts
           in ((t, event_got (info t) (want t) ev) # r, e)
      else event_serve info want ev ts)"

lemma event_hit_mono:
  assumes "e AND NOT ev = 0" "event_hit info want e"
  shows "event_hit info want ev"
proof -
  have b: "bit ev i" if "bit e i" for i
  proof (rule ccontr)
    assume "\<not> bit ev i"
    then have "bit (e AND NOT ev) i" using that bit_imp_le_length[OF that] by (simp add: bit_simps)
    then show False using assms(1) by simp
  qed
  show ?thesis
    using assms(2) b by (auto simp: event_hit_def bit_eq_iff bit_simps split: if_splits)
qed

lemma event_left_less: "event_left info want ev AND NOT ev = 0"
  by (auto simp: event_left_def bit_eq_iff bit_simps)

lemma event_serve_less: "snd (event_serve info want ev ts) AND NOT ev = 0"
proof (induction ts arbitrary: ev)
  case Nil
  then show ?case by (auto simp: bit_eq_iff bit_simps)
next
  case (Cons t ts)
  have tr: "a AND NOT c = 0" if "a AND NOT b = 0" "b AND NOT c = (0 :: u32)" for a b c
    using that by (auto simp: bit_eq_iff bit_simps)
  show ?case
  proof (cases "event_hit (info t) (want t) ev")
    case True
    then show ?thesis
      using tr[OF Cons.IH event_left_less[of "info t" "want t" ev]] by (auto split: prod.split)
  next
    case False
    then show ?thesis using Cons.IH by simp
  qed
qed

text \<open>Whoever is not served is not met by the set that remains.\<close>

lemma event_serve_rest:
  "t \<in> set ts \<Longrightarrow> t \<notin> fst ` set (fst (event_serve info want ev ts)) \<Longrightarrow>
    \<not> event_hit (info t) (want t) (snd (event_serve info want ev ts))"
proof (induction ts arbitrary: ev)
  case (Cons x xs)
  show ?case
  proof (cases "event_hit (info x) (want x) ev")
    case True
    then show ?thesis
      using Cons.IH[of "event_left (info x) (want x) ev"] Cons.prems by (auto split: prod.splits)
  next
    case False
    have "\<not> event_hit (info x) (want x) (snd (event_serve info want ev xs))"
      using False event_hit_mono[OF event_serve_less] by blast
    then show ?thesis using Cons False by auto
  qed
qed simp

lemma event_serve_set: "fst ` set (fst (event_serve info want ev ts)) \<subseteq> set ts"
  by (induction ts arbitrary: ev) (auto split: prod.splits if_splits, (metis fst_conv image_eqI subsetD)+)

lemma event_serve_cong:
  "(\<And>t. t \<in> set ts \<Longrightarrow> info t = info' t \<and> want t = want' t) \<Longrightarrow>
    event_serve info want ev ts = event_serve info' want' ev ts"
  by (induction ts arbitrary: ev) auto

subsection \<open>The loop of \<open>rt_event_send\<close>\<close>

lemma event_eta: "\<lparr>ev_set = ev_set e\<rparr> = e"
  by (cases e) simp

text \<open>The state in which a served thread is resumed.\<close>

definition event_served :: "nat \<Rightarrow> nat \<Rightarrow> kernel \<Rightarrow> kernel" where
  "event_served n t k =
     (let info = th_event_info (thr k t); want = th_event_set (thr k t); ev = ev_set (events k n)
      in upd_event n (\<lambda>_. event_left info want ev) (upd_thr t (\<lambda>th. th\<lparr>th_event_set := event_got info want ev\<rparr>) k))"

lemma event_send_loop_hit:
  assumes "event_hit (th_event_info (thr k t)) (th_event_set (thr k t)) (ev_set (events k n))"
  shows "event_send_loop n (t # ts) need k =
    do { (_, k) \<leftarrow> rt_thread_resume t (event_served n t k); event_send_loop n ts True k }"
proof -
  have r: "(thr k)(t := (thr k t)\<lparr>th_event_set := th_event_set (thr k t)\<rparr>) = thr k" by (simp add: fun_eq_iff)
  have e: "(events k)(n := \<lparr>ev_set = ev_set (events k n)\<rparr>) = events k" by (simp add: event_eta)
  show ?thesis
  proof (cases "th_event_info (thr k t) AND 1 = 0")
    case True
    then show ?thesis using assms
      by (simp add: event_served_def event_hit_def event_got_def event_left_def event_eta Let_def)
  next
    case False
    then show ?thesis using assms r e
      by (simp add: event_served_def event_hit_def event_got_def event_left_def Let_def)
  qed
qed

lemma event_send_loop_miss:
  assumes "\<not> event_hit (th_event_info (thr k t)) (th_event_set (thr k t)) (ev_set (events k n))"
  shows "event_send_loop n (t # ts) need k = event_send_loop n ts need k"
  using assms by (auto simp: event_hit_def Let_def)

abbreviation serve_waiting :: "nat \<Rightarrow> kernel \<Rightarrow> nat list \<Rightarrow> (nat \<times> u32) list \<times> u32" where
  "serve_waiting n k ts \<equiv> event_serve (\<lambda>t. th_event_info (thr k t)) (\<lambda>t. th_event_set (thr k t))
     (ev_set (events k n)) ts"

text \<open>What the loop leaves: \<open>r\<close> are the threads served and \<open>e\<close> the set that remains.\<close>

definition event_done :: "nat \<Rightarrow> (nat \<times> u32) list \<times> u32 \<Rightarrow> kernel \<Rightarrow> kernel \<Rightarrow> bool" where
  "event_done n R k k' \<longleftrightarrow>
     ipc_frame (k\<lparr>events := events k'\<rparr>) k' \<and> events k' = (events k)(n := \<lparr>ev_set = snd R\<rparr>) \<and>
     ls_q (tlist k') (EventQ n) = filter (\<lambda>t. t \<notin> fst ` set (fst R)) (ls_q (tlist k) (EventQ n)) \<and>
     (\<forall>t g. (t, g) \<in> set (fst R) \<longrightarrow> ready_thread k' t \<and> th_event_set (thr k' t) = g \<and>
        th_error (thr k' t) = th_error (thr k t)) \<and>
     (\<forall>t. t \<notin> fst ` set (fst R) \<longrightarrow> thr k' t = thr k t)"

lemma event_resume_ok:
  assumes k: "kinv k" and t: "t \<in> set (ls_q (tlist k) (EventQ n))"
  shows "\<exists>k'. rt_thread_resume t (event_served n t k) = Some (0, k') \<and> kinv k' \<and>
    ipc_frame (k\<lparr>events := events k'\<rparr>) k' \<and> rt_current_thread k' = rt_current_thread k \<and>
    events k' = (events k)(n := \<lparr>ev_set =
      event_left (th_event_info (thr k t)) (th_event_set (thr k t)) (ev_set (events k n))\<rparr>) \<and>
    ls_q (tlist k') (EventQ n) = remove1 t (ls_q (tlist k) (EventQ n)) \<and> ready_thread k' t \<and>
    th_event_set (thr k' t) = event_got (th_event_info (thr k t)) (th_event_set (thr k t)) (ev_set (events k n)) \<and>
    th_error (thr k' t) = th_error (thr k t) \<and> (\<forall>x. x \<noteq> t \<longrightarrow> thr k' x = thr k x)"
proof -
  let ?s = "event_served n t k"
  have s: "kinv ?s" using kinv_thr_same[OF k] by (simp add: event_served_def Let_def)
  have w: "alive k t" "stat_of (thr k t) = 2" using kinv_waiter[OF k t] by simp_all
  have a: "alive ?s t" "stat_of (thr ?s t) = 2"
    using w by (simp_all add: event_served_def Let_def alive_def rt_object_get_type_def)
  obtain k' where k': "rt_thread_resume t ?s = Some (0, k')" "kinv k'" "ipc_frame ?s k'"
    "thr k' = (thr ?s)(t := set_stat 1 (thr ?s t))" "rt_current_thread k' = rt_current_thread ?s"
    "\<forall>q. ls_q (tlist k') q = remove1 t (ls_q (tlist ?s) q) @
       (if rt_current_thread ?s \<noteq> Some t \<and> q = Ready (prio_of ?s t) then [t] else [])"
    using resume_ok[OF s a] by blast
  have "ready_thread k' t" using ipc_frame_alive[OF k'(3)] a(1) k'(4) by (simp add: ready_thread_def)
  moreover have "ipc_frame (k\<lparr>events := events k'\<rparr>) k'" "events k' = events ?s"
    using k'(3) by (auto simp: ipc_frame_def event_served_def Let_def)
  ultimately show ?thesis
    using k'(1,2,4,5,6) by (intro exI[of _ k']) (simp add: event_served_def Let_def)
qed

lemma event_send_loop_ok:
  assumes "kinv k" "distinct ws" "set ws \<subseteq> set (ls_q (tlist k) (EventQ n))"
  shows "\<exists>k'. event_send_loop n ws need k = Some (need \<or> fst (serve_waiting n k ws) \<noteq> [], k') \<and> kinv k' \<and>
    rt_current_thread k' = rt_current_thread k \<and> event_done n (serve_waiting n k ws) k k'"
  using assms
proof (induction ws arbitrary: k need)
  case Nil
  then show ?case by (auto simp: event_done_def event_eta)
next
  case (Cons t ts)
  let ?info = "th_event_info (thr k t)" and ?want = "th_event_set (thr k t)" and ?ev = "ev_set (events k n)"
  show ?case
  proof (cases "event_hit ?info ?want ?ev")
    case False
    then show ?thesis using Cons.IH[of k need] Cons.prems event_send_loop_miss[OF False] by simp
  next
    case True
    have t: "t \<in> set (ls_q (tlist k) (EventQ n))" using Cons.prems(3) by simp
    obtain k1 where k1: "rt_thread_resume t (event_served n t k) = Some (0, k1)" "kinv k1"
      "ipc_frame (k\<lparr>events := events k1\<rparr>) k1" "rt_current_thread k1 = rt_current_thread k"
      "events k1 = (events k)(n := \<lparr>ev_set = event_left ?info ?want ?ev\<rparr>)"
      "ls_q (tlist k1) (EventQ n) = remove1 t (ls_q (tlist k) (EventQ n))" "ready_thread k1 t"
      "th_event_set (thr k1 t) = event_got ?info ?want ?ev" "th_error (thr k1 t) = th_error (thr k t)"
      "\<forall>x. x \<noteq> t \<longrightarrow> thr k1 x = thr k x"
      using event_resume_ok[OF Cons.prems(1) t] by blast
    have d: "distinct (ls_q (tlist k) (EventQ n))" by (rule ls_inv_distinct[OF kinvD(2)[OF Cons.prems(1)]])
    have tts: "t \<notin> set ts" using Cons.prems(2) by simp
    have q1: "ls_q (tlist k1) (EventQ n) = filter (\<lambda>x. x \<noteq> t) (ls_q (tlist k) (EventQ n))"
      using k1(6) d by (simp add: distinct_remove1_removeAll removeAll_filter_not_eq neq_commute)
    have sub: "set ts \<subseteq> set (ls_q (tlist k1) (EventQ n))" using Cons.prems(3) tts q1 by auto
    have sv: "serve_waiting n k1 ts = event_serve (\<lambda>t. th_event_info (thr k t)) (\<lambda>t. th_event_set (thr k t))
        (event_left ?info ?want ?ev) ts"
      using k1(5,10) tts by (simp, intro event_serve_cong) auto
    define R where "R = serve_waiting n k1 ts"
    obtain k' where k': "event_send_loop n ts True k1 = Some (True, k')" "kinv k'"
      "rt_current_thread k' = rt_current_thread k1" "event_done n R k1 k'"
      using Cons.IH[OF k1(2) _ sub, of True] Cons.prems(2) unfolding R_def by auto
    have R: "serve_waiting n k (t # ts) = ((t, event_got ?info ?want ?ev) # fst R, snd R)"
      using True by (simp add: R_def sv split: prod.split)
    have nt: "t \<notin> fst ` set (fst R)" using event_serve_set tts unfolding R_def by fast
    have "ipc_frame (k\<lparr>events := events k'\<rparr>) k'"
      using k1(3) k'(4) by (simp add: event_done_def ipc_frame_def)
    moreover have "events k' = (events k)(n := \<lparr>ev_set = snd R\<rparr>)"
      using k1(5) k'(4) by (simp add: event_done_def)
    moreover have "ls_q (tlist k') (EventQ n) =
        filter (\<lambda>x. x \<notin> insert t (fst ` set (fst R))) (ls_q (tlist k) (EventQ n))"
      using k'(4) q1 by (auto simp: event_done_def intro!: filter_cong)
    moreover have "thr k' t = thr k1 t" using k'(4) nt by (simp add: event_done_def)
    moreover have "ready_thread k' t"
      using k1(7) k'(4) nt by (simp add: event_done_def ready_thread_def ipc_frame_def alive_def
        rt_object_get_type_def)
    moreover have "ready_thread k' x \<and> th_event_set (thr k' x) = g \<and> th_error (thr k' x) = th_error (thr k x)"
      if "(x, g) \<in> set (fst R)" for x g
    proof -
      have "x \<noteq> t" using that nt by force
      then show ?thesis using that k'(4) k1(10) by (simp add: event_done_def)
    qed
    moreover have "thr k' x = thr k x" if "x \<noteq> t" "x \<notin> fst ` set (fst R)" for x
      using that k'(4) k1(10) by (simp add: event_done_def)
    ultimately have "event_done n (serve_waiting n k (t # ts)) k k'"
      unfolding R using k1(8,9) by (simp add: event_done_def)
    then show ?thesis
      using event_send_loop_hit[OF True] k1(1,4) k'(1-3) R by (intro exI[of _ k']) simp
  qed
qed

subsection \<open>Sending and receiving\<close>

definition event_ok :: "nat \<Rightarrow> kernel \<Rightarrow> bool" where
  "event_ok n k \<longleftrightarrow> rt_object_get_type (OEvent n) k = 4 \<and>
     (ob_flag (objs k (OEvent n)) = 0 \<or> ob_flag (objs k (OEvent n)) = 1)"

text \<open>No thread waits for what is already there.\<close>

definition event_quiet :: "nat \<Rightarrow> kernel \<Rightarrow> bool" where
  "event_quiet n k \<longleftrightarrow> (\<forall>t \<in> set (ls_q (tlist k) (EventQ n)).
     \<not> event_hit (th_event_info (thr k t)) (th_event_set (thr k t)) (ev_set (events k n)))"

lemma event_send_ok:
  assumes k: "kinv k" "rt_current_thread k = Some c" "event_ok n k" and b: "bits \<noteq> 0"
  defines "R \<equiv> event_serve (\<lambda>t. th_event_info (thr k t)) (\<lambda>t. th_event_set (thr k t))
    (ev_set (events k n) OR bits) (ls_q (tlist k) (EventQ n))"
  shows "\<exists>k'. rt_event_send n bits k = Some (0, k') \<and> kinv k' \<and> ev_set (events k' n) = snd R \<and>
    ls_q (tlist k') (EventQ n) = filter (\<lambda>t. t \<notin> fst ` set (fst R)) (ls_q (tlist k) (EventQ n)) \<and>
    (\<forall>t g. (t, g) \<in> set (fst R) \<longrightarrow> ready_thread k' t \<and> th_event_set (thr k' t) = g \<and>
       th_error (thr k' t) = th_error (thr k t)) \<and>
    (\<forall>t. t \<notin> fst ` set (fst R) \<longrightarrow> thr k' t = thr k t) \<and> event_quiet n k'"
proof -
  let ?k0 = "upd_event n (\<lambda>s. s OR bits) k"
  let ?ws = "ls_q (tlist k) (EventQ n)"
  have k0: "kinv ?k0" using k(1) by simp
  have d: "distinct ?ws" by (rule ls_inv_distinct[OF kinvD(2)[OF k(1)]])
  have R: "serve_waiting n ?k0 ?ws = R" by (simp add: R_def)
  obtain k1 where k1: "event_send_loop n ?ws False ?k0 = Some (fst R \<noteq> [], k1)" "kinv k1"
    "rt_current_thread k1 = Some c" "event_done n R ?k0 k1"
    using event_send_loop_ok[OF k0 d, of n False] k(2) unfolding R by auto
  obtain k' where k': "(if fst R \<noteq> [] then rt_schedule k1 else Some k1) = Some k'" "kinv k'" "sched_frame k1 k'"
    using schedule_ok[OF k1(2,3)] k1(2) sched_frame_refl[of k1] by (cases "fst R = []") auto
  have run: "rt_event_send n bits k = Some (0, k')"
    using k(3) b k1(1) k'(1) by (simp add: rt_event_send_def event_ok_def Let_def)
  have th: "thr k' = thr k1" "events k' = events k1" "ls_q (tlist k') (EventQ n) = ls_q (tlist k1) (EventQ n)"
    using sched_frameD(3,12)[OF k'(3)] sched_frameD(16)[OF k'(3), of "EventQ n"] by simp_all
  have rd: "ready_thread k' t = ready_thread k1 t" for t
    using th(1) sched_frameD(1)[OF k'(3)] by (simp add: ready_thread_def alive_def rt_object_get_type_def)
  have q: "event_quiet n k'"
    unfolding event_quiet_def
  proof
    fix t assume "t \<in> set (ls_q (tlist k') (EventQ n))"
    then have t: "t \<in> set ?ws" "t \<notin> fst ` set (fst R)" using k1(4) th(3) by (auto simp: event_done_def)
    then have "thr k' t = thr k t" using k1(4) th(1) by (simp add: event_done_def)
    moreover have "ev_set (events k' n) = snd R" using k1(4) th(2) by (simp add: event_done_def)
    ultimately show "\<not> event_hit (th_event_info (thr k' t)) (th_event_set (thr k' t)) (ev_set (events k' n))"
      using event_serve_rest[OF t(1)] t(2) unfolding R_def by simp
  qed
  show ?thesis
    using run k'(2) q k1(4) th rd by (intro exI[of _ k']) (simp add: event_done_def)
qed

definition event_recv_hit_state :: "nat \<Rightarrow> u32 \<Rightarrow> u8 \<Rightarrow> nat \<Rightarrow> kernel \<Rightarrow> kernel" where
  "event_recv_hit_state n bits info c k =
     upd_event n (\<lambda>s. event_left info bits s) (upd_thr c (\<lambda>th. th\<lparr>th_error := 0\<rparr>) k)"

lemma event_check_hit:
  "info AND 1 \<noteq> 0 \<or> info AND 2 \<noteq> 0 \<Longrightarrow> event_check info bits ev = Some (event_hit info bits ev)"
  by (auto simp: event_check_def event_hit_def and.commute)

lemma event_recv_hit:
  assumes "caller c k" "event_ok n k" "bits \<noteq> 0" "event_hit info bits (ev_set (events k n))"
  shows "rt_event_recv n bits info timeout k =
    Some (Return (0, Some (event_got info bits (ev_set (events k n)))), event_recv_hit_state n bits info c k)"
proof -
  let ?ev = "ev_set (events k n)"
  have g: "?ev AND bits = event_got info bits ?ev"
    using assms(4) by (auto simp: event_hit_def event_got_def and.commute split: if_splits)
  have l: "event_left info bits ?ev = (if info AND 4 \<noteq> 0 then ?ev AND NOT bits else ?ev)"
    by (auto simp: event_left_def event_got_def bit_eq_iff bit_simps)
  have h: "event_check info bits ?ev = Some True"
    using assms(4) event_check_hit[of info bits ?ev] by (auto simp: event_hit_def split: if_splits)
  show ?thesis
    using assms(1-3) h g l
    by (cases "info AND 4 = 0")
      (simp_all add: rt_event_recv_def event_ok_def event_recv_hit_state_def caller_def rt_thread_self_def
        RT_DEBUG_IN_THREAD_CONTEXT_def RT_DEBUG_NOT_IN_INTERRUPT_def rt_interrupt_get_nest_def event_eta Let_def)
qed

lemma event_recv_miss:
  assumes "caller c k" "event_ok n k" "bits \<noteq> 0" "\<not> event_hit info bits (ev_set (events k n))"
    "info AND 1 \<noteq> 0 \<or> info AND 2 \<noteq> 0"
  shows "rt_event_recv n bits info timeout k =
    (if timeout = 0 then Some (Return (- 2, None), upd_thr c (\<lambda>th. th\<lparr>th_error := - 2\<rparr>) k)
     else do { let k = upd_thr c (\<lambda>th. th\<lparr>th_error := 0, th_event_set := bits, th_event_info := info\<rparr>) k;
               k \<leftarrow> wait_on (EventQ n) (ob_flag (objs k (OEvent n))) c timeout k;
               k \<leftarrow> rt_schedule k;
               Some (Blocked, k) })"
  using assms(1-4) event_check_hit[OF assms(5), of bits "ev_set (events k n)"]
  by (simp add: rt_event_recv_def event_ok_def Let_def caller_def rt_thread_self_def
      RT_DEBUG_IN_THREAD_CONTEXT_def RT_DEBUG_NOT_IN_INTERRUPT_def rt_interrupt_get_nest_def)

lemma event_quiet_less:
  assumes "event_quiet n k" "ls_q (tlist k') (EventQ n) = ls_q (tlist k) (EventQ n)"
    "\<And>t. th_event_info (thr k' t) = th_event_info (thr k t) \<and> th_event_set (thr k' t) = th_event_set (thr k t)"
    "ev_set (events k' n) AND NOT (ev_set (events k n)) = 0"
  shows "event_quiet n k'"
  using assms event_hit_mono[OF assms(4)] by (auto simp: event_quiet_def)

lemma event_recv_ok:
  assumes k: "kinv k" "caller c k" "event_ok n k" "event_quiet n k" and b: "bits \<noteq> 0"
    and o: "info AND 1 \<noteq> 0 \<or> info AND 2 \<noteq> 0" and t: "timeout < 0x7fffffff"
  shows "\<exists>a k'. rt_event_recv n bits info timeout k = Some (a, k') \<and> kinv k' \<and> event_quiet n k' \<and>
    (if event_hit info bits (ev_set (events k n))
     then a = Return (0, Some (event_got info bits (ev_set (events k n)))) \<and>
       ev_set (events k' n) = event_left info bits (ev_set (events k n))
     else ev_set (events k' n) = ev_set (events k n) \<and>
       (if timeout = 0 then a = Return (- 2, None)
        else a = Blocked \<and> stat_of (thr k' c) = 2 \<and> c \<in> set (ls_q (tlist k') (EventQ n)) \<and>
          th_event_set (thr k' c) = bits \<and> th_event_info (thr k' c) = info \<and> th_error (thr k' c) = 0))"
proof (cases "event_hit info bits (ev_set (events k n))")
  case True
  let ?k' = "event_recv_hit_state n bits info c k"
  have "kinv ?k'" using kinv_thr_same[OF k(1)] by (simp add: event_recv_hit_state_def)
  moreover have "event_quiet n ?k'"
    by (rule event_quiet_less[OF k(4)]) (simp_all add: event_recv_hit_state_def event_left_less)
  ultimately show ?thesis using event_recv_hit[OF k(2,3) b True] True
    by (intro exI[of _ "Return (0, Some (event_got info bits (ev_set (events k n))))"] exI[of _ ?k'])
      (simp add: event_recv_hit_state_def)
next
  case F: False
  show ?thesis
  proof (cases "timeout = 0")
    case True
    let ?k' = "upd_thr c (\<lambda>th. th\<lparr>th_error := - 2\<rparr>) k"
    have "kinv ?k'" using kinv_thr_same[OF k(1)] by simp
    moreover have "event_quiet n ?k'" by (rule event_quiet_less[OF k(4)]) simp_all
    ultimately show ?thesis using event_recv_miss[OF k(2,3) b F o, of timeout] True F
      by (intro exI[of _ "Return (- 2, None)"] exI[of _ ?k']) simp
  next
    case False
    let ?k0 = "upd_thr c (\<lambda>th. th\<lparr>th_error := 0, th_event_set := bits, th_event_info := info\<rparr>) k"
    have "same_sched ((thr k c)\<lparr>th_error := 0, th_event_set := bits, th_event_info := info\<rparr>) (thr k c)"
      by (simp add: same_sched_def stat_of_def)
    then have k0: "kinv ?k0" using kinv_thr_same[OF k(1)] by simp
    have s0: "rt_current_thread ?k0 = Some c" "stat_of (thr ?k0 c) = 1"
      using k(2) by (auto simp: caller_def stat_of_def)
    have f: "ob_flag (objs ?k0 (OEvent n)) = 0 \<or> ob_flag (objs ?k0 (OEvent n)) = 1"
      using k(3) by (simp add: event_ok_def)
    have w: "wait_link (Some (EventQ n))" by simp
    obtain k1 where k1: "wait_on (EventQ n) (ob_flag (objs ?k0 (OEvent n))) c timeout ?k0 = Some k1" "kinv k1"
      "ipc_frame ?k0 k1" "thr k1 = (thr ?k0)(c := set_stat 2 (thr ?k0 c))" "rt_current_thread k1 = Some c"
      "ls_q (tlist k1) = (ls_q (tlist ?k0))(EventQ n := enqueued (ob_flag (objs ?k0 (OEvent n)))
        (\<lambda>t. th_current_priority (thr ?k0 t)) c (ls_q (tlist ?k0) (EventQ n)))"
      using wait_on_ok[OF k0 s0 w f t] by blast
    obtain k' where k': "rt_schedule k1 = Some k'" "kinv k'" "sched_frame k1 k'"
      using schedule_ok[OF k1(2,5)] by blast
    have run: "rt_event_recv n bits info timeout k = Some (Blocked, k')"
      using event_recv_miss[OF k(2,3) b F o, of timeout] False k1(1) k'(1) by (simp add: Let_def)
    have th: "thr k' = (thr ?k0)(c := set_stat 2 (thr ?k0 c))" using sched_frameD(3)[OF k'(3)] k1(4) by simp
    have q: "set (ls_q (tlist k') (EventQ n)) = insert c (set (ls_q (tlist k) (EventQ n)))"
      using sched_frameD(16)[OF k'(3), of "EventQ n"] k1(6) by simp
    have ev: "events k' = events k" using sched_frameD(12)[OF k'(3)] ipc_frameD(3)[OF k1(3)] by simp
    have "event_quiet n k'"
      unfolding event_quiet_def q using k(4) F ev th by (auto simp: event_quiet_def)
    then show ?thesis using run k'(2) q ev th F False
      by (intro exI[of _ Blocked] exI[of _ k']) simp
  qed
qed

subsection \<open>Properties\<close>

text \<open>Event 0, whose set is 5; thread 1 waits for all of the bits 3 and clears what it gets.\<close>

definition ex_event :: kernel where
  "ex_event = upd_event 0 (\<lambda>_. 5) (upd_thr 1 (\<lambda>th. th\<lparr>th_event_set := 3, th_event_info := 5\<rparr>)
     (ex_ipc (OEvent 0) 4 0 (ex_wait (EventQ 0))))"

lemma ex_event_facts:
  "kinv ex_event" "event_ok 0 ex_event" "rt_current_thread ex_event = Some 0" "caller 0 ex_event"
  "ls_q (tlist ex_event) (EventQ 0) = [1]" "ev_set (events ex_event 0) = 5"
  "th_event_info (thr ex_event 1) = 5" "th_event_set (thr ex_event 1) = 3" "event_quiet 0 ex_event"
  "th_error (thr ex_event 1) = 0"
proof -
  let ?k = "ex_ipc (OEvent 0) 4 0 (ex_wait (EventQ 0))"
  have "kinv ?k"
    by (rule ex_ipc_inv[OF ex_wait_inv]) (simp_all add: ex_wait_def ex_kernel_def ex_olist_def)
  then show "kinv ex_event" using kinv_thr_same[of ?k] by (simp add: ex_event_def)
  show "event_ok 0 ex_event"
    by (simp add: ex_event_def event_ok_def ex_ipc_def rt_object_get_type_def)
  show "rt_current_thread ex_event = Some 0" "caller 0 ex_event" "ls_q (tlist ex_event) (EventQ 0) = [1]"
    "ev_set (events ex_event 0) = 5" "th_event_info (thr ex_event 1) = 5" "th_event_set (thr ex_event 1) = 3"
    by (simp_all add: ex_event_def ex_ipc_def caller_def ex_wait_facts)
  then show "event_quiet 0 ex_event" by (simp add: event_quiet_def event_hit_def)
  show "th_error (thr ex_event 1) = 0"
    by (simp add: ex_event_def ex_ipc_def ex_wait_def ex_kernel_def ex_thread_def)
qed

text \<open>\<open>rt_event_send\<close> serves the waiting threads as the abstract pass over the queue says: in queue
  order, each against the set that the threads before it left, all of the bits for an AND request and
  the common bits for an OR request. The threads served leave the queue and are ready, their receive
  returns the bits they got, and every other thread is untouched.\<close>

theorem event_send_serves:
  assumes "kinv k" "rt_current_thread k = Some c" "event_ok n k" "bits \<noteq> 0"
  shows "\<exists>k' served left. event_serve (\<lambda>t. th_event_info (thr k t)) (\<lambda>t. th_event_set (thr k t))
      (ev_set (events k n) OR bits) (ls_q (tlist k) (EventQ n)) = (served, left) \<and>
    rt_event_send n bits k = Some (RT_EOK, k') \<and> kinv k' \<and> ev_set (events k' n) = left \<and>
    ls_q (tlist k') (EventQ n) = filter (\<lambda>t. t \<notin> fst ` set served) (ls_q (tlist k) (EventQ n)) \<and>
    (\<forall>t g. (t, g) \<in> set served \<longrightarrow> ready_thread k' t \<and>
       (th_error (thr k t) = RT_EOK \<longrightarrow> rt_event_recv_end t k' = (RT_EOK, Some g))) \<and>
    (\<forall>t. t \<notin> fst ` set served \<longrightarrow> thr k' t = thr k t)"
proof -
  let ?R = "event_serve (\<lambda>t. th_event_info (thr k t)) (\<lambda>t. th_event_set (thr k t))
      (ev_set (events k n) OR bits) (ls_q (tlist k) (EventQ n))"
  obtain k' where "rt_event_send n bits k = Some (0, k')" "kinv k'" "ev_set (events k' n) = snd ?R"
    "ls_q (tlist k') (EventQ n) = filter (\<lambda>t. t \<notin> fst ` set (fst ?R)) (ls_q (tlist k) (EventQ n))"
    "\<forall>t g. (t, g) \<in> set (fst ?R) \<longrightarrow> ready_thread k' t \<and> th_event_set (thr k' t) = g \<and>
       th_error (thr k' t) = th_error (thr k t)"
    "\<forall>t. t \<notin> fst ` set (fst ?R) \<longrightarrow> thr k' t = thr k t"
    using event_send_ok[OF assms] by blast
  then show ?thesis
    by (intro exI[of _ k'] exI[of _ "fst ?R"] exI[of _ "snd ?R"]) (simp add: rt_event_recv_end_def)
qed

theorem event_send_serves_witness:
  "\<exists>k'. rt_event_send 0 2 ex_event = Some (0, k') \<and> ready_thread k' 1 \<and>
    rt_event_recv_end 1 k' = (0, Some 3) \<and> ev_set (events k' 0) = 4 \<and> ls_q (tlist k') (EventQ 0) = []"
  using event_send_serves[OF ex_event_facts(1,3,2), of 2]
  by (auto simp: ex_event_facts(5-8,10) event_hit_def event_got_def event_left_def simp del: One_nat_def)

text \<open>C5. No missed wake-up: after any send, and after any receive if it held before, no thread waits on
  the event for bits that are already in its set.\<close>

theorem event_no_missed_wakeup:
  assumes "kinv k" "caller c k" "event_ok n k" "bits \<noteq> 0"
    "info AND RT_EVENT_FLAG_AND \<noteq> 0 \<or> info AND RT_EVENT_FLAG_OR \<noteq> 0" "timeout < 0x7fffffff"
  shows "(\<exists>k'. rt_event_send n bits k = Some (RT_EOK, k') \<and> kinv k' \<and> event_quiet n k') \<and>
    (event_quiet n k \<longrightarrow> (\<exists>a k'. rt_event_recv n bits info timeout k = Some (a, k') \<and> kinv k' \<and> event_quiet n k'))"
proof -
  have c: "rt_current_thread k = Some c" using assms(2) by (simp add: caller_def)
  show ?thesis
    using event_send_ok[OF assms(1) c assms(3,4)] event_recv_ok[OF assms(1-3) _ assms(4-6)] by blast
qed

theorem event_no_missed_wakeup_witness:
  "(\<exists>k'. rt_event_send 0 2 ex_event = Some (0, k') \<and> event_quiet 0 k') \<and>
    (\<exists>a k'. rt_event_recv 0 2 2 (-1) ex_event = Some (a, k') \<and> event_quiet 0 k')"
  using event_no_missed_wakeup[OF ex_event_facts(1,4,2), of 2 2 "-1"] ex_event_facts(9) by auto

text \<open>The outcomes of \<open>rt_event_recv\<close>: a request that the set meets returns the same bits and leaves the same
  set as a request served by a later send; otherwise the set stays, and the call returns
  \<open>-RT_ETIMEOUT\<close> or blocks with the request recorded in the thread.\<close>

theorem event_recv_outcomes:
  assumes "kinv k" "caller c k" "event_ok n k" "event_quiet n k" "bits \<noteq> 0"
    "info AND RT_EVENT_FLAG_AND \<noteq> 0 \<or> info AND RT_EVENT_FLAG_OR \<noteq> 0" "timeout < 0x7fffffff"
  shows "\<exists>a k'. rt_event_recv n bits info timeout k = Some (a, k') \<and> kinv k' \<and>
    (if event_hit info bits (ev_set (events k n))
     then a = Return (RT_EOK, Some (event_got info bits (ev_set (events k n)))) \<and>
       ev_set (events k' n) = event_left info bits (ev_set (events k n))
     else ev_set (events k' n) = ev_set (events k n) \<and>
       (if timeout = 0 then a = Return (- RT_ETIMEOUT, None)
        else a = Blocked \<and> stat_of (thr k' c) = RT_THREAD_SUSPEND \<and> c \<in> set (ls_q (tlist k') (EventQ n)) \<and>
          th_event_set (thr k' c) = bits \<and> th_event_info (thr k' c) = info \<and> th_error (thr k' c) = RT_EOK))"
  using event_recv_ok[OF assms] by blast

theorem event_recv_outcomes_witness:
  "\<exists>k'. rt_event_recv 0 7 6 0 ex_event = Some (Return (0, Some 5), k') \<and> ev_set (events k' 0) = 0"
  using event_recv_outcomes[OF ex_event_facts(1,4,2,9), of 7 6 0]
  by (auto simp: ex_event_facts(6) event_hit_def event_got_def event_left_def)

end
