(* ===== verification/Mailbox.thy ===== *)
theory Mailbox
  imports Ipc_Base Fifo
begin

text \<open>
  Mailboxes (\<open>rt_mb_*\<close> of \<open>src/ipc.c\<close>): a ring of 32-bit mails with a queue of threads that wait for
  mail and one of threads that wait for room.

  The ring is an interpretation of the bounded buffer of theory \<open>Fifo\<close>. A sender or receiver that has
  waited starts the \<open>while\<close> loop of its function again, with the time that is left.
\<close>

subsection \<open>The ring\<close>

definition upd_mb :: "nat \<Rightarrow> (rt_mailbox \<Rightarrow> rt_mailbox) \<Rightarrow> kernel \<Rightarrow> kernel" where
  [simp]: "upd_mb n f k = k\<lparr>mbs := (mbs k)(n := f (mbs k n))\<rparr>"

text \<open>Advancing an offset: \<open>++ offset; if (offset >= size) offset = 0\<close>.\<close>

definition mb_next :: "u16 \<Rightarrow> u16 \<Rightarrow> u16" where
  "mb_next sz off = (let off = off + 1 in if off \<ge> sz then 0 else off)"

text \<open>Writing and reading at an offset outside the pool is undefined.\<close>

definition mb_store :: "u32 \<Rightarrow> rt_mailbox \<Rightarrow> rt_mailbox option" where
  "mb_store value mb =
     (if unat (mb_in_offset mb) < length (mb_msg_pool mb)
      then Some (mb\<lparr>mb_msg_pool := (mb_msg_pool mb)[unat (mb_in_offset mb) := value],
                    mb_in_offset := mb_next (mb_size mb) (mb_in_offset mb),
                    mb_entry := mb_entry mb + 1\<rparr>)
      else None)"

definition mb_fetch :: "rt_mailbox \<Rightarrow> (u32 \<times> rt_mailbox) option" where
  "mb_fetch mb =
     (if unat (mb_out_offset mb) < length (mb_msg_pool mb)
      then Some (mb_msg_pool mb ! unat (mb_out_offset mb),
                 mb\<lparr>mb_out_offset := mb_next (mb_size mb) (mb_out_offset mb), mb_entry := mb_entry mb - 1\<rparr>)
      else None)"

definition mb_inv :: "rt_mailbox \<Rightarrow> bool" where
  "mb_inv mb \<longleftrightarrow> length (mb_msg_pool mb) = unat (mb_size mb) \<and>
     unat (mb_entry mb) \<le> unat (mb_size mb) \<and> unat (mb_out_offset mb) < unat (mb_size mb) \<and>
     unat (mb_in_offset mb) = (unat (mb_out_offset mb) + unat (mb_entry mb)) mod unat (mb_size mb)"

text \<open>The mails in the box, oldest first.\<close>

definition mb_mails :: "rt_mailbox \<Rightarrow> u32 list" where
  "mb_mails mb = map (\<lambda>i. mb_msg_pool mb ! ((unat (mb_out_offset mb) + i) mod unat (mb_size mb)))
     [0..<unat (mb_entry mb)]"

lemma mb_mails_length [simp]: "length (mb_mails mb) = unat (mb_entry mb)"
  by (simp add: mb_mails_def)

lemma mb_next_mod:
  assumes "unat off < unat sz"
  shows "unat (mb_next sz off) = (unat off + 1) mod unat sz"
proof -
  have "unat sz < 2 ^ 16" using unsigned_less[of sz, where 'a = nat] by simp
  then have s: "unat (off + 1) = unat off + 1" using assms by (simp add: unat_word_ariths)
  show ?thesis
  proof (cases "unat off + 1 = unat sz")
    case True
    then show ?thesis using s by (simp add: mb_next_def Let_def word_le_nat_alt)
  next
    case False
    then show ?thesis using s assms by (simp add: mb_next_def Let_def word_le_nat_alt)
  qed
qed

lemma mod_add_differ:
  fixes a i e s :: nat
  assumes "i < e" "e < s"
  shows "(a + i) mod s \<noteq> (a + e) mod s"
proof
  assume "(a + i) mod s = (a + e) mod s"
  then have "s dvd (a + e) - (a + i)"
    using assms mod_eq_dvd_iff_nat[of "a + i" "a + e" s] by simp
  then show False using assms by (auto dest: dvd_imp_le)
qed

lemma mb_store_ok:
  assumes i: "mb_inv mb" and e: "unat (mb_entry mb) < unat (mb_size mb)"
  shows "\<exists>mb'. mb_store v mb = Some mb' \<and> mb_inv mb' \<and> mb_mails mb' = mb_mails mb @ [v] \<and>
    mb_size mb' = mb_size mb"
proof -
  let ?s = "unat (mb_size mb)" and ?o = "unat (mb_out_offset mb)" and ?e = "unat (mb_entry mb)"
  let ?in = "unat (mb_in_offset mb)"
  have len: "length (mb_msg_pool mb) = ?s" and inp: "?in = (?o + ?e) mod ?s" and o: "?o < ?s"
    using i by (auto simp: mb_inv_def)
  have "?in < ?s" using inp o by simp
  let ?mb = "mb\<lparr>mb_msg_pool := (mb_msg_pool mb)[?in := v],
    mb_in_offset := mb_next (mb_size mb) (mb_in_offset mb), mb_entry := mb_entry mb + 1\<rparr>"
  have "?s < 2 ^ 16" using unsigned_less[of "mb_size mb", where 'a = nat] by simp
  then have e1: "unat (mb_entry mb + 1) = ?e + 1" using e by (simp add: unat_word_ariths)
  have "mb_store v mb = Some ?mb" using \<open>?in < ?s\<close> len by (simp add: mb_store_def)
  moreover have "mb_inv ?mb"
    using i e e1 mb_next_mod[OF \<open>?in < ?s\<close>] inp by (simp add: mb_inv_def mod_Suc_eq)
  moreover have "mb_mails ?mb = mb_mails mb @ [v]"
  proof -
    have "(mb_msg_pool mb)[?in := v] ! ((?o + j) mod ?s) = mb_msg_pool mb ! ((?o + j) mod ?s)" if "j < ?e" for j
      using mod_add_differ[OF that e, of ?o] inp by simp
    moreover have "(mb_msg_pool mb)[?in := v] ! ((?o + ?e) mod ?s) = v"
      using \<open>?in < ?s\<close> inp len by simp
    ultimately show ?thesis by (simp add: mb_mails_def e1)
  qed
  ultimately show ?thesis by (intro exI[of _ ?mb]) simp
qed

lemma mb_fetch_ok:
  assumes i: "mb_inv mb" and e: "mb_entry mb \<noteq> 0"
  shows "\<exists>v vs mb'. mb_mails mb = v # vs \<and> mb_fetch mb = Some (v, mb') \<and> mb_inv mb' \<and> mb_mails mb' = vs \<and>
    mb_size mb' = mb_size mb"
proof -
  let ?s = "unat (mb_size mb)" and ?o = "unat (mb_out_offset mb)" and ?e = "unat (mb_entry mb)"
  let ?mb = "mb\<lparr>mb_out_offset := mb_next (mb_size mb) (mb_out_offset mb), mb_entry := mb_entry mb - 1\<rparr>"
  let ?at = "\<lambda>j. mb_msg_pool mb ! ((?o + j) mod ?s)"
  have len: "length (mb_msg_pool mb) = ?s" and inp: "unat (mb_in_offset mb) = (?o + ?e) mod ?s"
    and o: "?o < ?s" and le: "?e \<le> ?s"
    using i by (auto simp: mb_inv_def)
  have e0: "0 < ?e" using e by (simp add: unat_gt_0)
  have e1: "unat (mb_entry mb - 1) = ?e - 1" using e by (simp add: unat_minus_one)
  have n: "unat (mb_next (mb_size mb) (mb_out_offset mb)) = (?o + 1) mod ?s" by (rule mb_next_mod[OF o])
  have a: "((?o + 1) mod ?s + (?e - 1)) mod ?s = (?o + ?e) mod ?s"
    using e0 mod_add_left_eq[of "?o + 1" ?s "?e - 1"] by simp
  have "?e - 1 \<le> ?s" "(?o + 1) mod ?s < ?s" using le o by simp_all
  moreover have "mb_inv (mb\<lparr>mb_out_offset := out, mb_entry := en\<rparr>) \<longleftrightarrow> length (mb_msg_pool mb) = ?s \<and>
      unat en \<le> ?s \<and> unat out < ?s \<and> unat (mb_in_offset mb) = (unat out + unat en) mod ?s" for out en
    by (simp add: mb_inv_def)
  ultimately have "mb_inv ?mb" using len a inp by (simp only: n e1)
  moreover have "[0..<?e] = 0 # map Suc [0..<?e - 1]"
    using e0 upt_conv_Cons[OF e0] map_Suc_upt[of 0 "?e - 1"] by simp
  then have "mb_mails mb = ?at 0 # map (\<lambda>j. ?at (Suc j)) [0..<?e - 1]" by (simp add: mb_mails_def)
  moreover have "mb_mails ?mb = map (\<lambda>j. ?at (Suc j)) [0..<?e - 1]"
    using n e1 by (simp add: mb_mails_def mod_add_left_eq)
  moreover have "mb_fetch mb = Some (?at 0, ?mb)" using o len by (simp add: mb_fetch_def)
  ultimately show ?thesis by auto
qed

text \<open>One send or receive that does not wait.\<close>

definition mb_put1 :: "u32 \<Rightarrow> rt_mailbox \<Rightarrow> rt_mailbox option" where
  "mb_put1 v mb = (if mb_entry mb = mb_size mb then None else mb_store v mb)"

definition mb_get1 :: "rt_mailbox \<Rightarrow> (u32 \<times> rt_mailbox) option" where
  "mb_get1 mb = (if mb_entry mb = 0 then None else mb_fetch mb)"

interpretation mbf: bounded_fifo mb_inv mb_mails "\<lambda>mb. unat (mb_size mb)" "\<lambda>_ _. True" mb_put1 mb_get1
proof unfold_locales
  fix mb assume i: "mb_inv mb"
  show "length (mb_mails mb) \<le> unat (mb_size mb)" using i by (simp add: mb_inv_def)
  show "length (mb_mails mb) = unat (mb_size mb) \<Longrightarrow> mb_put1 x mb = None" for x
    by (simp add: mb_put1_def word_unat_eq_iff)
  show "mb_mails mb = [] \<Longrightarrow> mb_get1 mb = None"
    by (simp add: mb_get1_def mb_mails_def unat_eq_0)
  show "length (mb_mails mb) < unat (mb_size mb) \<Longrightarrow> \<exists>mb'. mb_put1 x mb = Some mb' \<and> mb_inv mb' \<and>
      mb_mails mb' = mb_mails mb @ [x] \<and> unat (mb_size mb') = unat (mb_size mb) \<and>
      (\<lambda>_ :: u32. True) = (\<lambda>_. True)" for x
    using mb_store_ok[OF i, of x] by (auto simp: mb_put1_def)
  show "mb_mails mb = x # xs \<Longrightarrow> \<exists>mb'. mb_get1 mb = Some (x, mb') \<and> mb_inv mb' \<and> mb_mails mb' = xs \<and>
      unat (mb_size mb') = unat (mb_size mb)" for x xs
    using mb_fetch_ok[OF i] by (cases "mb_entry mb = 0") (auto simp: mb_get1_def mb_mails_def)
qed

subsection \<open>Operations\<close>

definition rt_mb_init :: "nat \<Rightarrow> u8 list \<Rightarrow> u32 list \<Rightarrow> u32 \<Rightarrow> u8 \<Rightarrow> kernel \<Rightarrow> (rt_err_t \<times> kernel) option" where
  "rt_mb_init n name msgpool sz flag k =
     do { k \<leftarrow> rt_object_init (OMb n) RT_Object_Class_MailBox name k;
          let k = upd_obj (OMb n) (\<lambda>ob. ob\<lparr>ob_flag := flag\<rparr>) k;
          k \<leftarrow> rt_ipc_object_init (MbQ n) k;
          let k = upd_mb n (\<lambda>_. \<lparr>mb_msg_pool = msgpool, mb_size = ucast sz, mb_entry = 0,
            mb_in_offset = 0, mb_out_offset = 0\<rparr>) k;
          k \<leftarrow> rt_ipc_object_init (MbSendQ n) k;
          Some (RT_EOK, k) }"

definition rt_mb_detach :: "nat \<Rightarrow> kernel \<Rightarrow> (rt_err_t \<times> kernel) option" where
  "rt_mb_detach n k =
     do { RT_ASSERT (rt_object_get_type (OMb n) k = of_nat RT_Object_Class_MailBox);
          RT_ASSERT (rt_object_is_systemobject (OMb n) k);
          k \<leftarrow> rt_ipc_list_resume_all (MbQ n) k;
          k \<leftarrow> rt_ipc_list_resume_all (MbSendQ n) k;
          Some (RT_EOK, rt_object_detach (OMb n) k) }"

text \<open>The block \<open>rt_malloc\<close> returns for the pool is the argument \<open>pool\<close>.\<close>

definition rt_mb_create ::
  "nat option \<Rightarrow> u32 list option \<Rightarrow> u8 list \<Rightarrow> u32 \<Rightarrow> u8 \<Rightarrow> kernel \<Rightarrow> (nat option \<times> kernel) option" where
  "rt_mb_create mem pool name sz flag k =
     do { RT_DEBUG_NOT_IN_INTERRUPT k;
          (x, k) \<leftarrow> rt_object_allocate (map_option OMb mem) RT_Object_Class_MailBox name k;
          case x of
            Some (OMb n) \<Rightarrow>
              do { let k = upd_obj (OMb n) (\<lambda>ob. ob\<lparr>ob_flag := flag\<rparr>) k;
                   k \<leftarrow> rt_ipc_object_init (MbQ n) k;
                   let k = upd_mb n (\<lambda>mb. mb\<lparr>mb_size := ucast sz\<rparr>) k;
                   case pool of
                     None \<Rightarrow> do { k \<leftarrow> rt_object_delete (OMb n) k; Some (None, k) }
                   | Some p \<Rightarrow>
                       do { let k = upd_mb n (\<lambda>mb. mb\<lparr>mb_msg_pool := p, mb_entry := 0, mb_in_offset := 0,
                              mb_out_offset := 0\<rparr>) k;
                            k \<leftarrow> rt_ipc_object_init (MbSendQ n) k;
                            Some (Some n, k) } }
          | _ \<Rightarrow> Some (None, k) }"

definition rt_mb_delete :: "nat \<Rightarrow> kernel \<Rightarrow> (rt_err_t \<times> kernel) option" where
  "rt_mb_delete n k =
     do { RT_DEBUG_NOT_IN_INTERRUPT k;
          RT_ASSERT (rt_object_get_type (OMb n) k = of_nat RT_Object_Class_MailBox);
          RT_ASSERT (\<not> rt_object_is_systemobject (OMb n) k);
          k \<leftarrow> rt_ipc_list_resume_all (MbQ n) k;
          k \<leftarrow> rt_ipc_list_resume_all (MbSendQ n) k;
          k \<leftarrow> rt_object_delete (OMb n) k;
          Some (RT_EOK, k) }"

text \<open>
  The \<open>while\<close> loop of \<open>rt_mb_send_wait\<close> and what follows it, up to the next wait. The running thread is
  only dereferenced when the mailbox is full.
\<close>

definition mb_send_loop :: "nat \<Rightarrow> nat option \<Rightarrow> u32 \<Rightarrow> int \<Rightarrow> kernel \<Rightarrow> (rt_err_t call \<times> kernel) option" where
  "mb_send_loop n self value timeout k =
     (if mb_entry (mbs k n) = mb_size (mbs k n)
      then do { thread \<leftarrow> self;
                let k = upd_thr thread (\<lambda>th. th\<lparr>th_error := RT_EOK\<rparr>) k;
                if timeout = 0 then Some (Return (- RT_EFULL), k)
                else do { RT_DEBUG_IN_THREAD_CONTEXT k;
                          k \<leftarrow> wait_on (MbSendQ n) (ob_flag (objs k (OMb n))) thread timeout k;
                          k \<leftarrow> rt_schedule k;
                          Some (Blocked, k) } }
      else do { mb \<leftarrow> mb_store value (mbs k n);
                let k = upd_mb n (\<lambda>_. mb) k;
                k \<leftarrow> ipc_wake (MbQ n) k;
                Some (Return RT_EOK, k) })"

definition rt_mb_send_wait :: "nat \<Rightarrow> u32 \<Rightarrow> int \<Rightarrow> kernel \<Rightarrow> (rt_err_t call \<times> kernel) option" where
  "rt_mb_send_wait n value timeout k =
     do { RT_ASSERT (rt_object_get_type (OMb n) k = of_nat RT_Object_Class_MailBox);
          if mb_entry (mbs k n) = mb_size (mbs k n) \<and> timeout = 0 then Some (Return (- RT_EFULL), k)
          else mb_send_loop n (rt_thread_self k) value timeout k }"

definition rt_mb_send_wait_end ::
  "nat \<Rightarrow> nat \<Rightarrow> u32 \<Rightarrow> int \<Rightarrow> u32 \<Rightarrow> kernel \<Rightarrow> (rt_err_t call \<times> kernel) option" where
  "rt_mb_send_wait_end n thread value timeout start k =
     (if th_error (thr k thread) \<noteq> RT_EOK then Some (Return (th_error (thr k thread)), k)
      else mb_send_loop n (Some thread) value (time_left timeout start (rt_tick_get k)) k)"

definition rt_mb_send :: "nat \<Rightarrow> u32 \<Rightarrow> kernel \<Rightarrow> (rt_err_t call \<times> kernel) option" where
  "rt_mb_send n value k = rt_mb_send_wait n value 0 k"

definition mb_recv_loop ::
  "nat \<Rightarrow> nat option \<Rightarrow> int \<Rightarrow> kernel \<Rightarrow> ((rt_err_t \<times> u32 option) call \<times> kernel) option" where
  "mb_recv_loop n self timeout k =
     (if mb_entry (mbs k n) = 0
      then do { thread \<leftarrow> self;
                let k = upd_thr thread (\<lambda>th. th\<lparr>th_error := RT_EOK\<rparr>) k;
                if timeout = 0
                then Some (Return (- RT_ETIMEOUT, None), upd_thr thread (\<lambda>th. th\<lparr>th_error := - RT_ETIMEOUT\<rparr>) k)
                else do { RT_DEBUG_IN_THREAD_CONTEXT k;
                          k \<leftarrow> wait_on (MbQ n) (ob_flag (objs k (OMb n))) thread timeout k;
                          k \<leftarrow> rt_schedule k;
                          Some (Blocked, k) } }
      else do { (value, mb) \<leftarrow> mb_fetch (mbs k n);
                let k = upd_mb n (\<lambda>_. mb) k;
                k \<leftarrow> ipc_wake (MbSendQ n) k;
                Some (Return (RT_EOK, Some value), k) })"

definition rt_mb_recv :: "nat \<Rightarrow> int \<Rightarrow> kernel \<Rightarrow> ((rt_err_t \<times> u32 option) call \<times> kernel) option" where
  "rt_mb_recv n timeout k =
     do { RT_ASSERT (rt_object_get_type (OMb n) k = of_nat RT_Object_Class_MailBox);
          if mb_entry (mbs k n) = 0 \<and> timeout = 0 then Some (Return (- RT_ETIMEOUT, None), k)
          else mb_recv_loop n (rt_thread_self k) timeout k }"

definition rt_mb_recv_end ::
  "nat \<Rightarrow> nat \<Rightarrow> int \<Rightarrow> u32 \<Rightarrow> kernel \<Rightarrow> ((rt_err_t \<times> u32 option) call \<times> kernel) option" where
  "rt_mb_recv_end n thread timeout start k =
     (if th_error (thr k thread) \<noteq> RT_EOK then Some (Return (th_error (thr k thread), None), k)
      else mb_recv_loop n (Some thread) (time_left timeout start (rt_tick_get k)) k)"

definition rt_mb_control :: "nat \<Rightarrow> int \<Rightarrow> kernel \<Rightarrow> (rt_err_t \<times> kernel) option" where
  "rt_mb_control n cmd k =
     do { RT_ASSERT (rt_object_get_type (OMb n) k = of_nat RT_Object_Class_MailBox);
          if cmd = 1
          then do { k \<leftarrow> rt_ipc_list_resume_all (MbQ n) k;
                    k \<leftarrow> rt_ipc_list_resume_all (MbSendQ n) k;
                    let k = upd_mb n (\<lambda>mb. mb\<lparr>mb_entry := 0, mb_in_offset := 0, mb_out_offset := 0\<rparr>) k;
                    k \<leftarrow> rt_schedule k;
                    Some (RT_EOK, k) }
          else Some (- RT_ERROR, k) }"

subsection \<open>What sending and receiving do to the kernel\<close>

definition mb_ok :: "nat \<Rightarrow> kernel \<Rightarrow> bool" where
  "mb_ok n k \<longleftrightarrow> rt_object_get_type (OMb n) k = 5 \<and>
     (ob_flag (objs k (OMb n)) = 0 \<or> ob_flag (objs k (OMb n)) = 1) \<and> mb_inv (mbs k n)"

lemma kinv_mb [simp]: "kinv (upd_mb n f k) = kinv k"
  by simp

lemma mb_ok_frame: "ipc_frame k k' \<Longrightarrow> mb_ok n k' = mb_ok n k"
  by (simp add: mb_ok_def rt_object_get_type_def ipc_frame_objs ipc_frameD)

lemma mb_send_room:
  assumes k: "kinv k" "rt_current_thread k = Some c" "mb_ok n k" and e: "mb_entry (mbs k n) \<noteq> mb_size (mbs k n)"
  shows "\<exists>k'. mb_send_loop n self v timeout k = Some (Return 0, k') \<and> kinv k' \<and> mb_ok n k' \<and>
    mb_mails (mbs k' n) = mb_mails (mbs k n) @ [v] \<and>
    ls_q (tlist k') (MbQ n) = tl (ls_q (tlist k) (MbQ n)) \<and>
    ls_q (tlist k') (MbSendQ n) = ls_q (tlist k) (MbSendQ n) \<and>
    (\<forall>t ts. ls_q (tlist k) (MbQ n) = t # ts \<longrightarrow> ready_thread k' t) \<and>
    (\<forall>t. th_error (thr k' t) = th_error (thr k t))"
proof -
  have i: "mb_inv (mbs k n)" using k(3) by (simp add: mb_ok_def)
  then have "unat (mb_entry (mbs k n)) \<le> unat (mb_size (mbs k n))" by (simp add: mb_inv_def)
  then have "unat (mb_entry (mbs k n)) < unat (mb_size (mbs k n))"
    using e by (simp add: order_less_le word_unat_eq_iff)
  then obtain mb where mb: "mb_store v (mbs k n) = Some mb" "mb_inv mb" "mb_mails mb = mb_mails (mbs k n) @ [v]"
    using mb_store_ok[OF i] by blast
  let ?k = "upd_mb n (\<lambda>_. mb) k"
  have kk: "kinv ?k" "rt_current_thread ?k = Some c" using k by simp_all
  obtain k' where k': "ipc_wake (MbQ n) ?k = Some k'" "kinv k'" "ipc_frame ?k k'"
    "ls_q (tlist k') (MbQ n) = tl (ls_q (tlist ?k) (MbQ n))"
    "\<forall>r. wait_link (Some r) \<and> r \<noteq> MbQ n \<longrightarrow> ls_q (tlist k') r = ls_q (tlist ?k) r"
    "\<forall>t ts. ls_q (tlist ?k) (MbQ n) = t # ts \<longrightarrow> ready_thread k' t"
    "\<forall>t. th_error (thr k' t) = th_error (thr ?k t)"
    using ipc_wake_ok[OF kk, of "MbQ n"] by auto
  have "mb_ok n k'" using mb_ok_frame[OF k'(3), of n] k(3) mb(2) by (simp add: mb_ok_def rt_object_get_type_def)
  then show ?thesis
    using e mb(1,3) k' ipc_frameD(4)[OF k'(3)] by (intro exI[of _ k']) (simp add: mb_send_loop_def)
qed

lemma mb_recv_mail:
  assumes k: "kinv k" "rt_current_thread k = Some c" "mb_ok n k" and e: "mb_entry (mbs k n) \<noteq> 0"
  shows "\<exists>v k'. mb_recv_loop n self timeout k = Some (Return (0, Some v), k') \<and> kinv k' \<and> mb_ok n k' \<and>
    mb_mails (mbs k n) = v # mb_mails (mbs k' n) \<and>
    ls_q (tlist k') (MbSendQ n) = tl (ls_q (tlist k) (MbSendQ n)) \<and>
    ls_q (tlist k') (MbQ n) = ls_q (tlist k) (MbQ n) \<and>
    (\<forall>t ts. ls_q (tlist k) (MbSendQ n) = t # ts \<longrightarrow> ready_thread k' t) \<and>
    (\<forall>t. th_error (thr k' t) = th_error (thr k t))"
proof -
  have i: "mb_inv (mbs k n)" using k(3) by (simp add: mb_ok_def)
  obtain v mb where mb: "mb_fetch (mbs k n) = Some (v, mb)" "mb_inv mb" "mb_mails (mbs k n) = v # mb_mails mb"
    using mb_fetch_ok[OF i e] by auto
  let ?k = "upd_mb n (\<lambda>_. mb) k"
  have kk: "kinv ?k" "rt_current_thread ?k = Some c" using k by simp_all
  obtain k' where k': "ipc_wake (MbSendQ n) ?k = Some k'" "kinv k'" "ipc_frame ?k k'"
    "ls_q (tlist k') (MbSendQ n) = tl (ls_q (tlist ?k) (MbSendQ n))"
    "\<forall>r. wait_link (Some r) \<and> r \<noteq> MbSendQ n \<longrightarrow> ls_q (tlist k') r = ls_q (tlist ?k) r"
    "\<forall>t ts. ls_q (tlist ?k) (MbSendQ n) = t # ts \<longrightarrow> ready_thread k' t"
    "\<forall>t. th_error (thr k' t) = th_error (thr ?k t)"
    using ipc_wake_ok[OF kk, of "MbSendQ n"] by auto
  have "mb_ok n k'" using mb_ok_frame[OF k'(3), of n] k(3) mb(2) by (simp add: mb_ok_def rt_object_get_type_def)
  then show ?thesis
    using e mb(1,3) k' ipc_frameD(4)[OF k'(3)]
    by (intro exI[of _ v] exI[of _ k']) (simp add: mb_recv_loop_def)
qed

text \<open>Waiting on one of the two queues.\<close>

lemma mb_block_ok:
  assumes k: "kinv k" "caller c k" "mb_ok n k" and q: "wait_link (Some q)" and t: "timeout < 0x7fffffff"
  shows "\<exists>k0 k'. wait_on q (ob_flag (objs k (OMb n))) c timeout (upd_thr c (\<lambda>th. th\<lparr>th_error := 0\<rparr>) k) = Some k0 \<and>
    rt_schedule k0 = Some k' \<and> kinv k' \<and> mb_ok n k' \<and> mbs k' = mbs k \<and>
    stat_of (thr k' c) = 2 \<and> th_error (thr k' c) = 0 \<and>
    set (ls_q (tlist k') q) = insert c (set (ls_q (tlist k) q)) \<and>
    (ls_in (tmlist k') (ThreadTimer c) \<noteq> None \<longleftrightarrow> timeout > 0)"
proof -
  have f: "ob_flag (objs k (OMb n)) = 0 \<or> ob_flag (objs k (OMb n)) = 1" using k(3) by (simp add: mb_ok_def)
  from ipc_block_ok[OF k(1,2) q f t] show ?thesis
    using k(3) mb_ok_frame ipc_frameD(4) by (elim exE conjE) (intro exI conjI, assumption+, simp_all)
qed

lemma mb_send_full:
  assumes "caller c k" "mb_ok n k" "mb_entry (mbs k n) = mb_size (mbs k n)"
  shows "rt_mb_send_wait n v timeout k =
    (if timeout = 0 then Some (Return (- 3), k)
     else do { let k = upd_thr c (\<lambda>th. th\<lparr>th_error := 0\<rparr>) k;
               k \<leftarrow> wait_on (MbSendQ n) (ob_flag (objs k (OMb n))) c timeout k;
               k \<leftarrow> rt_schedule k;
               Some (Blocked, k) })"
  using assms by (simp add: rt_mb_send_wait_def mb_send_loop_def mb_ok_def caller_def rt_thread_self_def
      RT_DEBUG_IN_THREAD_CONTEXT_def RT_DEBUG_NOT_IN_INTERRUPT_def rt_interrupt_get_nest_def)

lemma mb_recv_empty:
  assumes "caller c k" "mb_ok n k" "mb_entry (mbs k n) = 0"
  shows "rt_mb_recv n timeout k =
    (if timeout = 0 then Some (Return (- 2, None), k)
     else do { let k = upd_thr c (\<lambda>th. th\<lparr>th_error := 0\<rparr>) k;
               k \<leftarrow> wait_on (MbQ n) (ob_flag (objs k (OMb n))) c timeout k;
               k \<leftarrow> rt_schedule k;
               Some (Blocked, k) })"
  using assms by (simp add: rt_mb_recv_def mb_recv_loop_def mb_ok_def caller_def rt_thread_self_def
      RT_DEBUG_IN_THREAD_CONTEXT_def RT_DEBUG_NOT_IN_INTERRUPT_def rt_interrupt_get_nest_def)

subsection \<open>Properties\<close>

definition ex_box :: rt_mailbox where
  "ex_box = \<lparr>mb_msg_pool = [8, 0, 7], mb_size = 3, mb_entry = 2, mb_in_offset = 1, mb_out_offset = 2\<rparr>"

lemma ex_box_facts: "mb_inv ex_box" "mb_mails ex_box = [7, 8]" "mb_size ex_box = 3" "mb_entry ex_box = 2"
  by (simp_all add: ex_box_def mb_inv_def mb_mails_def upt_conv_Cons)

text \<open>Mailbox 0 with two mails, thread 1 waiting on the queue \<open>q\<close>.\<close>

definition ex_mb :: "qid \<Rightarrow> rt_mailbox \<Rightarrow> kernel" where
  "ex_mb q mb = upd_mb 0 (\<lambda>_. mb) (ex_ipc (OMb 0) 5 0 (ex_wait q))"

lemma ex_mb_facts:
  assumes "wait_link (Some q)"
  shows "kinv (ex_mb q mb)" "caller 0 (ex_mb q mb)" "mb_inv mb \<Longrightarrow> mb_ok 0 (ex_mb q mb)"
    "mbs (ex_mb q mb) 0 = mb" "ls_q (tlist (ex_mb q mb)) q = [1]" "rt_tick (ex_mb q mb) = 0"
    "th_error (thr (ex_mb q mb) 0) = 0" "r \<noteq> q \<Longrightarrow> ls_q (tlist (ex_mb q mb)) r = []"
proof -
  let ?k = "ex_ipc (OMb 0) 5 0 (ex_wait q)"
  have "kinv ?k"
    by (rule ex_ipc_inv[OF ex_wait_inv[OF assms]]) (simp_all add: ex_wait_def ex_kernel_def ex_olist_def)
  then show "kinv (ex_mb q mb)" by (simp add: ex_mb_def)
  show "mb_inv mb \<Longrightarrow> mb_ok 0 (ex_mb q mb)"
    by (simp add: mb_ok_def ex_mb_def ex_ipc_def rt_object_get_type_def)
  show "caller 0 (ex_mb q mb)" "mbs (ex_mb q mb) 0 = mb" "ls_q (tlist (ex_mb q mb)) q = [1]"
    "rt_tick (ex_mb q mb) = 0" "th_error (thr (ex_mb q mb) 0) = 0"
    "r \<noteq> q \<Longrightarrow> ls_q (tlist (ex_mb q mb)) r = []"
    by (simp_all add: ex_mb_def ex_ipc_def caller_def ex_wait_facts)
      (simp_all add: ex_wait_def ex_kernel_def ex_thread_def)
qed

text \<open>A mailbox is a bounded first-in first-out buffer: any mails that fit can be sent, and the mails
  are received oldest first, those that were in the box before the new ones, until it is empty.\<close>

theorem mailbox_fifo_order:
  assumes "mb_inv mb" "length (mb_mails mb) + length vs \<le> unat (mb_size mb)"
  shows "\<exists>mb1 mb2. put_all mb_put1 vs mb = Some mb1 \<and>
    get_many mb_get1 (length (mb_mails mb) + length vs) mb1 = Some (mb_mails mb @ vs, mb2) \<and>
    mb_inv mb2 \<and> mb_mails mb2 = []"
  using mbf.put_get_order[OF assms(1) _ assms(2)] by simp

theorem mailbox_fifo_order_witness:
  "\<exists>mb1 mb2. put_all mb_put1 [9] ex_box = Some mb1 \<and> get_many mb_get1 3 mb1 = Some ([7, 8, 9], mb2)"
proof -
  have l: "length (mb_mails ex_box) + length [9 :: u32] \<le> unat (mb_size ex_box)"
    by (simp add: ex_box_facts(3,4))
  have e: "length (mb_mails ex_box) + length [9 :: u32] = 3" by (simp add: ex_box_facts(4))
  show ?thesis
    using mailbox_fifo_order[OF ex_box_facts(1) l] unfolding e by (auto simp: ex_box_facts(2))
qed

text \<open>The outcomes of \<open>rt_mb_send_wait\<close>: with room the mail goes behind the others and the first waiting
  receiver becomes ready; on a full mailbox the call returns \<open>-RT_EFULL\<close> when it may not wait and
  otherwise suspends the caller in the queue of senders, with its timer started for a positive time.\<close>

theorem mb_send_outcomes:
  assumes "kinv k" "caller c k" "mb_ok n k" "timeout < 0x7fffffff"
  shows "\<exists>a k'. rt_mb_send_wait n v timeout k = Some (a, k') \<and> kinv k' \<and> mb_ok n k' \<and>
    (if mb_entry (mbs k n) \<noteq> mb_size (mbs k n)
     then a = Return RT_EOK \<and> mb_mails (mbs k' n) = mb_mails (mbs k n) @ [v] \<and>
       ls_q (tlist k') (MbQ n) = tl (ls_q (tlist k) (MbQ n)) \<and>
       (\<forall>t ts. ls_q (tlist k) (MbQ n) = t # ts \<longrightarrow> ready_thread k' t)
     else mbs k' = mbs k \<and>
       (if timeout = 0 then a = Return (- RT_EFULL) \<and> k' = k
        else a = Blocked \<and> stat_of (thr k' c) = RT_THREAD_SUSPEND \<and>
          set (ls_q (tlist k') (MbSendQ n)) = insert c (set (ls_q (tlist k) (MbSendQ n))) \<and>
          (ls_in (tmlist k') (ThreadTimer c) \<noteq> None \<longleftrightarrow> timeout > 0)))"
proof (cases "mb_entry (mbs k n) = mb_size (mbs k n)")
  case False
  have c: "rt_current_thread k = Some c" using assms(2) by (simp add: caller_def)
  have "rt_mb_send_wait n v timeout k = mb_send_loop n (rt_thread_self k) v timeout k"
    using False assms(3) by (simp add: rt_mb_send_wait_def mb_ok_def)
  then show ?thesis
    using mb_send_room[OF assms(1) c assms(3) False, of "rt_thread_self k" v timeout] False by auto
next
  case True
  show ?thesis
  proof (cases "timeout = 0")
    case t: True
    then show ?thesis using mb_send_full[OF assms(2,3) True, of v timeout] True assms(1,3)
      by (intro exI[of _ "Return (- 3)"] exI[of _ k]) simp
  next
    case False
    have w: "wait_link (Some (MbSendQ n))" by simp
    show ?thesis
      using mb_block_ok[OF assms(1-3) w assms(4)] mb_send_full[OF assms(2,3) True, of v timeout] True False
      by (auto simp: Let_def)
  qed
qed

theorem mb_send_outcomes_witness:
  "\<exists>k'. rt_mb_send_wait 0 9 0 (ex_mb (MbQ 0) ex_box) = Some (Return 0, k') \<and>
    mb_mails (mbs k' 0) = [7, 8, 9] \<and> ready_thread k' 1"
proof -
  have w: "wait_link (Some (MbQ 0))" by simp
  show ?thesis
    using mb_send_outcomes[OF ex_mb_facts(1,2)[OF w] ex_mb_facts(3)[OF w ex_box_facts(1)], of 0 9]
    by (auto simp: ex_box_facts ex_mb_facts(4,5)[OF w] simp del: One_nat_def)
qed

text \<open>The outcomes of \<open>rt_mb_recv\<close>: a mailbox with mail gives the oldest one and the first waiting sender
  becomes ready; on an empty mailbox the call returns \<open>-RT_ETIMEOUT\<close> when it may not wait and
  otherwise suspends the caller in the queue of receivers.\<close>

theorem mb_recv_outcomes:
  assumes "kinv k" "caller c k" "mb_ok n k" "timeout < 0x7fffffff"
  shows "\<exists>a k'. rt_mb_recv n timeout k = Some (a, k') \<and> kinv k' \<and> mb_ok n k' \<and>
    (if mb_entry (mbs k n) \<noteq> 0
     then (\<exists>v. a = Return (RT_EOK, Some v) \<and> mb_mails (mbs k n) = v # mb_mails (mbs k' n)) \<and>
       ls_q (tlist k') (MbSendQ n) = tl (ls_q (tlist k) (MbSendQ n)) \<and>
       (\<forall>t ts. ls_q (tlist k) (MbSendQ n) = t # ts \<longrightarrow> ready_thread k' t)
     else mbs k' = mbs k \<and>
       (if timeout = 0 then a = Return (- RT_ETIMEOUT, None) \<and> k' = k
        else a = Blocked \<and> stat_of (thr k' c) = RT_THREAD_SUSPEND \<and>
          set (ls_q (tlist k') (MbQ n)) = insert c (set (ls_q (tlist k) (MbQ n))) \<and>
          (ls_in (tmlist k') (ThreadTimer c) \<noteq> None \<longleftrightarrow> timeout > 0)))"
proof (cases "mb_entry (mbs k n) = 0")
  case False
  have c: "rt_current_thread k = Some c" using assms(2) by (simp add: caller_def)
  have "rt_mb_recv n timeout k = mb_recv_loop n (rt_thread_self k) timeout k"
    using False assms(3) by (simp add: rt_mb_recv_def mb_ok_def)
  then show ?thesis
    using mb_recv_mail[OF assms(1) c assms(3) False, of "rt_thread_self k" timeout] False by auto
next
  case True
  show ?thesis
  proof (cases "timeout = 0")
    case t: True
    then show ?thesis using mb_recv_empty[OF assms(2,3) True, of timeout] True assms(1,3)
      by (intro exI[of _ "Return (- 2, None)"] exI[of _ k]) simp
  next
    case False
    have w: "wait_link (Some (MbQ n))" by simp
    show ?thesis
      using mb_block_ok[OF assms(1-3) w assms(4)] mb_recv_empty[OF assms(2,3) True, of timeout] True False
      by (auto simp: Let_def)
  qed
qed

theorem mb_recv_outcomes_witness:
  "\<exists>k'. rt_mb_recv 0 0 (ex_mb (MbSendQ 0) ex_box) = Some (Return (0, Some 7), k') \<and>
    mb_mails (mbs k' 0) = [8] \<and> ready_thread k' 1"
proof -
  have w: "wait_link (Some (MbSendQ 0))" by simp
  show ?thesis
    using mb_recv_outcomes[OF ex_mb_facts(1,2)[OF w] ex_mb_facts(3)[OF w ex_box_facts(1)], of 0]
    by (auto simp: ex_box_facts ex_mb_facts(4,5)[OF w] simp del: One_nat_def)
qed

text \<open>C40. A receiver that is woken, finds the mailbox empty again and has used up its time does not wait
  once more: it returns \<open>-RT_ETIMEOUT\<close>.\<close>

theorem mb_recv_time_is_bounded:
  assumes "mbs k n = mb" "mb_entry mb = 0" "th_error (thr k c) = RT_EOK" "0 < timeout" "timeout < 2 ^ 31"
    "unat (rt_tick k - start) \<le> 2 ^ 31" "timeout \<le> int (unat (rt_tick k - start))"
  shows "\<exists>k'. rt_mb_recv_end n c timeout start k = Some (Return (- RT_ETIMEOUT, None), k') \<and>
    mbs k' = mbs k \<and> tlist k' = tlist k"
proof -
  have "time_left timeout start (rt_tick k) = 0"
    using time_left_exact[OF assms(4,5), of "rt_tick k" start] assms(6,7) by simp
  then show ?thesis using assms(1-3) by (simp add: rt_mb_recv_end_def mb_recv_loop_def rt_tick_get_def)
qed

theorem mb_recv_time_is_bounded_witness:
  "\<exists>k'. rt_mb_recv_end 0 0 5 (-7) (ex_mb (MqQ 0) (ex_box\<lparr>mb_entry := 0\<rparr>)) = Some (Return (- 2, None), k')"
  using mb_recv_time_is_bounded[OF ex_mb_facts(4), of "MqQ 0" "ex_box\<lparr>mb_entry := 0\<rparr>" 0 5 "-7"]
    ex_mb_facts(6,7)[of "MqQ 0" "ex_box\<lparr>mb_entry := 0\<rparr>"] by auto

text \<open>Waiting for mail with the scheduler locked goes wrong: the first part suspends the caller, which
  goes on running; its loop then puts the same list node into the queue a second time, which the list
  code does not allow.\<close>

theorem mb_recv_locked_relinks:
  assumes "kinv k" "caller c k" "mb_ok n k" "mb_entry (mbs k n) = 0" "rt_scheduler_lock_nest k \<noteq> 0"
  shows "\<exists>k'. rt_mb_recv n RT_WAITING_FOREVER k = Some (Blocked, k') \<and> rt_current_thread k' = Some c \<and>
    stat_of (thr k' c) = RT_THREAD_SUSPEND \<and>
    rt_mb_recv_end n c RT_WAITING_FOREVER (rt_tick k) k' = None"
proof -
  let ?k = "upd_thr c (\<lambda>th. th\<lparr>th_error := 0\<rparr>) k"
  have k0: "kinv ?k" using kinv_thr_same[OF assms(1)] by simp
  have c: "rt_current_thread ?k = Some c" "stat_of (thr ?k c) = 1" using assms(2) by (auto simp: caller_def)
  have f: "ob_flag (objs k (OMb n)) = 0 \<or> ob_flag (objs k (OMb n)) = 1" using assms(3) by (simp add: mb_ok_def)
  have w: "wait_link (Some (MbQ n))" "(-1 :: int) < 0x7fffffff" by simp_all
  obtain k1 where k1: "wait_on (MbQ n) (ob_flag (objs k (OMb n))) c (-1) ?k = Some k1" "kinv k1" "ipc_frame ?k k1"
    "thr k1 = (thr ?k)(c := set_stat 2 (thr ?k c))" "rt_current_thread k1 = Some c"
    "ls_q (tlist k1) = (ls_q (tlist ?k))(MbQ n := enqueued (ob_flag (objs k (OMb n)))
      (\<lambda>t. th_current_priority (thr ?k t)) c (ls_q (tlist ?k) (MbQ n)))"
    using wait_on_ok[OF k0 c w(1) f w(2)] by blast
  have sch: "rt_schedule k1 = Some k1"
    by (rule schedule_locked) (use assms(5) ipc_frameD(9)[OF k1(3)] in simp)
  have run: "rt_mb_recv n (-1) k = Some (Blocked, k1)"
    using mb_recv_empty[OF assms(2-4), of "-1"] k1(1) sch by (simp add: Let_def)
  have "c \<in> set (ls_q (tlist k1) (MbQ n))" using k1(6) by simp
  then have lin: "ls_in (tlist k1) c = Some (MbQ n)" using ls_in_iff[OF kinvD(2)[OF k1(2)]] by simp
  have s: "stat_of (thr k1 c) = 2" "th_error (thr k1 c) = 0" using k1(4) by simp_all
  have ob: "objs k1 (OMb n) = objs k (OMb n)" "mbs k1 = mbs k"
    using ipc_frame_objs[OF k1(3), of "OMb n"] ipc_frameD(4)[OF k1(3)] by simp_all
  have al: "alive k1 c" using ipc_frame_alive[OF k1(3)] current_unlinked(2)[OF k0 c] by simp
  let ?k1 = "upd_thr c (\<lambda>th. th\<lparr>th_error := 0\<rparr>) k1"
  have "wait_on (MbQ n) (ob_flag (objs k (OMb n))) c (-1) ?k1 = None"
    using lin s al f
    by (auto simp: wait_on_def rt_ipc_list_suspend_def rt_thread_suspend_def alive_def rt_object_get_type_def
        ls_push_back_def ls_insert_at_def)
  then have "rt_mb_recv_end n c (-1) (rt_tick k) k1 = None"
    using s assms(4) ob by (simp add: rt_mb_recv_end_def mb_recv_loop_def time_left_def bind_eq_None_conv)
  then show ?thesis using run s k1(5) by (intro exI[of _ k1]) simp
qed

theorem mb_recv_locked_relinks_witness:
  "\<exists>k k'. rt_scheduler_lock_nest k = 1 \<and> rt_mb_recv 0 (-1) k = Some (Blocked, k') \<and>
    rt_mb_recv_end 0 0 (-1) (rt_tick k) k' = None"
proof -
  let ?m = "ex_box\<lparr>mb_entry := 0, mb_in_offset := 2\<rparr>"
  let ?k = "(ex_mb (MqQ 0) ?m)\<lparr>rt_scheduler_lock_nest := 1\<rparr>"
  have m: "mb_inv ?m" by (simp add: mb_inv_def ex_box_def)
  have w: "wait_link (Some (MqQ 0))" by simp
  have k: "kinv ?k" "caller 0 ?k" "mb_ok 0 ?k" "mb_entry (mbs ?k 0) = 0" "rt_scheduler_lock_nest ?k \<noteq> 0"
    using ex_mb_facts(1-4)[OF w, of ?m] m
    by (simp_all add: caller_def mb_ok_def rt_object_get_type_def)
  obtain k' where "rt_mb_recv 0 (-1) ?k = Some (Blocked, k')" "rt_mb_recv_end 0 0 (-1) (rt_tick ?k) k' = None"
    using mb_recv_locked_relinks[OF k] by blast
  then show ?thesis by (intro exI[of _ ?k] exI[of _ k']) simp
qed

end
