(* ===== verification/Messagequeue.thy ===== *)
theory Messagequeue
  imports Ipc_Base Fifo
begin

text \<open>
  Message queues (\<open>rt_mq_*\<close> of \<open>src/ipc.c\<close>): a pool of messages, each with a link word in front, on two
  singly linked lists: the messages that were sent, oldest first, and the free ones.

  A message is named by its index in the pool. The two short sections of a send or receive that run
  with interrupts disabled are one step of the model, with the copy of the bytes in between.
\<close>

subsection \<open>The lists of messages\<close>

definition upd_mq :: "nat \<Rightarrow> (rt_messagequeue \<Rightarrow> rt_messagequeue) \<Rightarrow> kernel \<Rightarrow> kernel" where
  [simp]: "upd_mq n f k = k\<lparr>mqs := (mqs k)(n := f (mqs k n))\<rparr>"

definition set_msg :: "nat \<Rightarrow> (mq_message \<Rightarrow> mq_message) \<Rightarrow> rt_messagequeue \<Rightarrow> rt_messagequeue" where
  [simp]: "set_msg i f mq = mq\<lparr>mq_msgs := (mq_msgs mq)(i := f (mq_msgs mq i))\<rparr>"

text \<open>\<open>rt_memcpy(msg + 1, buffer, size)\<close>: the bytes behind those copied keep their old values.\<close>

definition msg_write :: "u8 list \<Rightarrow> mq_message \<Rightarrow> mq_message" where
  "msg_write buf m = m\<lparr>msg_bytes := buf @ drop (length buf) (msg_bytes m)\<rparr>"

text \<open>Taking a message from the free list, and putting one back.\<close>

definition mq_alloc :: "rt_messagequeue \<Rightarrow> (nat \<times> rt_messagequeue) option" where
  "mq_alloc mq =
     (case mq_free mq of None \<Rightarrow> None
      | Some i \<Rightarrow> Some (i, mq\<lparr>mq_free := msg_next (mq_msgs mq i)\<rparr>))"

definition mq_release :: "nat \<Rightarrow> rt_messagequeue \<Rightarrow> rt_messagequeue" where
  "mq_release i mq = (set_msg i (\<lambda>m. m\<lparr>msg_next := mq_free mq\<rparr>) mq)\<lparr>mq_free := Some i\<rparr>"

text \<open>Linking message \<open>i\<close> behind the tail (\<open>rt_mq_send\<close>) or in front of the head (\<open>rt_mq_urgent\<close>).\<close>

definition mq_link_tail :: "nat \<Rightarrow> rt_messagequeue \<Rightarrow> rt_messagequeue" where
  "mq_link_tail i mq =
     (let mq = (case mq_tail mq of Some t \<Rightarrow> set_msg t (\<lambda>m. m\<lparr>msg_next := Some i\<rparr>) mq | None \<Rightarrow> mq);
          mq = mq\<lparr>mq_tail := Some i\<rparr>;
          mq = (if mq_head mq = None then mq\<lparr>mq_head := Some i\<rparr> else mq)
      in mq\<lparr>mq_entry := mq_entry mq + 1\<rparr>)"

definition mq_link_head :: "nat \<Rightarrow> rt_messagequeue \<Rightarrow> rt_messagequeue" where
  "mq_link_head i mq =
     (let mq = set_msg i (\<lambda>m. m\<lparr>msg_next := mq_head mq\<rparr>) mq;
          mq = mq\<lparr>mq_head := Some i\<rparr>;
          mq = (if mq_tail mq = None then mq\<lparr>mq_tail := Some i\<rparr> else mq)
      in mq\<lparr>mq_entry := mq_entry mq + 1\<rparr>)"

text \<open>Taking the first message off: the head of an empty list is not dereferenced by a valid queue.\<close>

definition mq_unlink_head :: "rt_messagequeue \<Rightarrow> (nat \<times> rt_messagequeue) option" where
  "mq_unlink_head mq =
     (case mq_head mq of
        None \<Rightarrow> None
      | Some i \<Rightarrow>
          let mq = mq\<lparr>mq_head := msg_next (mq_msgs mq i)\<rparr>;
              mq = (if mq_tail mq = Some i then mq\<lparr>mq_tail := None\<rparr> else mq)
          in Some (i, mq))"

text \<open>What \<open>rt_mq_send\<close>, \<open>rt_mq_urgent\<close> and \<open>rt_mq_recv\<close> do to the queue.\<close>

definition mq_store :: "u8 list \<Rightarrow> rt_messagequeue \<Rightarrow> rt_messagequeue option" where
  "mq_store buf mq =
     do { (i, mq) \<leftarrow> mq_alloc mq;
          let mq = set_msg i (\<lambda>m. m\<lparr>msg_next := None\<rparr>) mq;
          let mq = set_msg i (msg_write buf) mq;
          Some (mq_link_tail i mq) }"

definition mq_store_urgent :: "u8 list \<Rightarrow> rt_messagequeue \<Rightarrow> rt_messagequeue option" where
  "mq_store_urgent buf mq =
     do { (i, mq) \<leftarrow> mq_alloc mq;
          let mq = set_msg i (msg_write buf) mq;
          Some (mq_link_head i mq) }"

definition mq_fetch :: "nat \<Rightarrow> rt_messagequeue \<Rightarrow> (u8 list \<times> rt_messagequeue) option" where
  "mq_fetch sz mq =
     do { (i, mq) \<leftarrow> mq_unlink_head mq;
          let mq = mq\<lparr>mq_entry := mq_entry mq - 1\<rparr>;
          let bytes = take (if sz > unat (mq_msg_size mq) then unat (mq_msg_size mq) else sz)
                        (msg_bytes (mq_msgs mq i));
          Some (bytes, mq_release i mq) }"

text \<open>The loop of \<open>rt_mq_control\<close> that empties a queue, and the one of \<open>rt_mq_init\<close> that fills the free list.\<close>

partial_function (option) mq_drain :: "rt_messagequeue \<Rightarrow> rt_messagequeue option" where
  "mq_drain mq =
     (if mq_head mq = None then Some mq
      else do { (i, mq) \<leftarrow> mq_unlink_head mq; mq_drain (mq_release i mq) })"

definition mq_init_list :: "rt_messagequeue \<Rightarrow> rt_messagequeue" where
  "mq_init_list mq =
     fold mq_release [0..<unat (mq_max_msgs mq)]
       (mq\<lparr>mq_head := None, mq_tail := None, mq_free := None\<rparr>)"

subsection \<open>The invariant\<close>

fun chain :: "(nat \<Rightarrow> mq_message) \<Rightarrow> nat option \<Rightarrow> nat list \<Rightarrow> bool" where
  "chain m p [] \<longleftrightarrow> p = None"
| "chain m p (x # xs) \<longleftrightarrow> p = Some x \<and> chain m (msg_next (m x)) xs"

text \<open>The first \<open>n\<close> messages reached from a pointer.\<close>

fun walk :: "(nat \<Rightarrow> mq_message) \<Rightarrow> nat option \<Rightarrow> nat \<Rightarrow> nat list" where
  "walk m p 0 = []"
| "walk m None (Suc n) = []"
| "walk m (Some x) (Suc n) = x # walk m (msg_next (m x)) n"

lemma chain_walk: "chain m p xs \<Longrightarrow> length xs \<le> n \<Longrightarrow> walk m p n = xs"
proof (induction xs arbitrary: p n)
  case Nil
  then show ?case by (cases n) auto
next
  case (Cons x xs)
  then show ?case by (cases n) auto
qed

lemma chain_upd [simp]: "i \<notin> set xs \<Longrightarrow> chain (m(i := y)) p xs = chain m p xs"
  by (induction xs arbitrary: p) auto

lemma chain_same_next: "msg_next y = msg_next (m i) \<Longrightarrow> chain (m(i := y)) p xs = chain m p xs"
  by (induction xs arbitrary: p) auto

text \<open>Linking a message behind the last one of a chain.\<close>

lemma chain_append:
  "chain m p xs \<Longrightarrow> xs \<noteq> [] \<Longrightarrow> distinct xs \<Longrightarrow> i \<notin> set xs \<Longrightarrow> msg_next (m i) = None \<Longrightarrow>
    chain (m(last xs := (m (last xs))\<lparr>msg_next := Some i\<rparr>)) p (xs @ [i])"
proof (induction xs arbitrary: p)
  case (Cons x xs)
  show ?case
  proof (cases "xs = []")
    case True
    then show ?thesis using Cons.prems by auto
  next
    case False
    then have "last xs \<noteq> x" using Cons.prems(3) by (metis distinct.simps(2) last_in_set)
    then show ?thesis using Cons False by simp
  qed
qed simp

text \<open>
  The lists of a queue: \<open>ms\<close> the messages sent, oldest first, \<open>fs\<close> the free ones, and \<open>H\<close> those held by a
  call that took them from one list and has not put them into the other yet.
\<close>

definition mq_part :: "rt_messagequeue \<Rightarrow> nat list \<Rightarrow> nat list \<Rightarrow> nat set \<Rightarrow> bool" where
  "mq_part mq ms fs H \<longleftrightarrow>
     chain (mq_msgs mq) (mq_head mq) ms \<and> chain (mq_msgs mq) (mq_free mq) fs \<and>
     distinct (ms @ fs) \<and> H \<inter> set (ms @ fs) = {} \<and> H \<union> set (ms @ fs) = {..<unat (mq_max_msgs mq)} \<and>
     mq_tail mq = (if ms = [] then None else Some (last ms)) \<and>
     (\<forall>i < unat (mq_max_msgs mq). length (msg_bytes (mq_msgs mq i)) = unat (mq_msg_size mq))"

definition mq_rep :: "rt_messagequeue \<Rightarrow> nat list \<Rightarrow> nat list \<Rightarrow> bool" where
  "mq_rep mq ms fs \<longleftrightarrow> mq_part mq ms fs {} \<and> unat (mq_entry mq) = length ms"

definition mq_nodes :: "rt_messagequeue \<Rightarrow> nat list" where
  "mq_nodes mq = walk (mq_msgs mq) (mq_head mq) (unat (mq_max_msgs mq))"

definition mq_frees :: "rt_messagequeue \<Rightarrow> nat list" where
  "mq_frees mq = walk (mq_msgs mq) (mq_free mq) (unat (mq_max_msgs mq))"

definition mq_inv :: "rt_messagequeue \<Rightarrow> bool" where
  "mq_inv mq \<longleftrightarrow> mq_rep mq (mq_nodes mq) (mq_frees mq)"

text \<open>The messages in the queue, oldest first.\<close>

definition mq_messages :: "rt_messagequeue \<Rightarrow> u8 list list" where
  "mq_messages mq = map (\<lambda>i. msg_bytes (mq_msgs mq i)) (mq_nodes mq)"

lemma mq_part_length: "mq_part mq ms fs H \<Longrightarrow> length ms + length fs + card H = unat (mq_max_msgs mq)"
proof -
  assume p: "mq_part mq ms fs H"
  then have "H \<subseteq> {..<unat (mq_max_msgs mq)}" by (auto simp: mq_part_def)
  then have "finite H" using finite_lessThan finite_subset by metis
  moreover have "H \<inter> set (ms @ fs) = {}" "H \<union> set (ms @ fs) = {..<unat (mq_max_msgs mq)}" "distinct (ms @ fs)"
    using p by (simp_all only: mq_part_def)
  ultimately show ?thesis
    using card_Un_disjoint[of H "set (ms @ fs)"] distinct_card[of "ms @ fs"] by simp
qed

lemma mq_part_held:
  "mq_part mq ms fs H \<Longrightarrow> i \<in> H \<Longrightarrow> i < unat (mq_max_msgs mq) \<and> i \<notin> set ms \<and> i \<notin> set fs \<and>
    length (msg_bytes (mq_msgs mq i)) = unat (mq_msg_size mq)"
  by (auto simp: mq_part_def)

lemma mq_part_nodes:
  assumes "mq_part mq ms fs H"
  shows "mq_nodes mq = ms" "mq_frees mq = fs"
proof -
  have "length ms \<le> unat (mq_max_msgs mq)" "length fs \<le> unat (mq_max_msgs mq)"
    using mq_part_length[OF assms] by simp_all
  then show "mq_nodes mq = ms" "mq_frees mq = fs"
    using assms unfolding mq_part_def mq_nodes_def mq_frees_def by (auto intro: chain_walk)
qed

lemma mq_rep_unique:
  assumes "mq_rep mq ms fs"
  shows "mq_nodes mq = ms" "mq_frees mq = fs" "mq_inv mq"
    "mq_messages mq = map (\<lambda>i. msg_bytes (mq_msgs mq i)) ms"
proof -
  have p: "mq_part mq ms fs {}" using assms by (simp add: mq_rep_def)
  show n: "mq_nodes mq = ms" "mq_frees mq = fs"
    using mq_part_nodes[OF p] by simp_all
  show "mq_inv mq" using assms by (simp add: mq_inv_def n)
  show "mq_messages mq = map (\<lambda>i. msg_bytes (mq_msgs mq i)) ms" by (simp add: mq_messages_def n)
qed

subsection \<open>What the steps do to the lists\<close>

text \<open>A step that keeps the sizes and the bytes of the messages.\<close>

definition mq_same :: "rt_messagequeue \<Rightarrow> rt_messagequeue \<Rightarrow> bool" where
  "mq_same mq mq' \<longleftrightarrow> mq_max_msgs mq' = mq_max_msgs mq \<and> mq_msg_size mq' = mq_msg_size mq \<and>
     (\<forall>j. msg_bytes (mq_msgs mq' j) = msg_bytes (mq_msgs mq j))"

lemma mq_alloc_part:
  assumes p: "mq_part mq ms (f # fs) H"
  shows "\<exists>mq'. mq_alloc mq = Some (f, mq') \<and> mq_part mq' ms fs (insert f H) \<and> mq_same mq mq' \<and>
    mq_entry mq' = mq_entry mq \<and> mq_msgs mq' = mq_msgs mq"
proof -
  let ?mq = "mq\<lparr>mq_free := msg_next (mq_msgs mq f)\<rparr>"
  have "mq_alloc mq = Some (f, ?mq)" using p by (simp add: mq_alloc_def mq_part_def)
  moreover have "mq_part ?mq ms fs (insert f H)" using p by (auto simp: mq_part_def)
  ultimately show ?thesis by (intro exI[of _ ?mq]) (simp add: mq_same_def)
qed

text \<open>A held message may be changed in any way that keeps the length of its buffer.\<close>

lemma set_msg_part:
  assumes p: "mq_part mq ms fs H" and i: "i \<in> H"
    and l: "length (msg_bytes (f (mq_msgs mq i))) = length (msg_bytes (mq_msgs mq i))"
  shows "mq_part (set_msg i f mq) ms fs H"
  using p l mq_part_held[OF p i] by (auto simp: mq_part_def)

lemma mq_link_tail_part:
  assumes p: "mq_part mq ms fs (insert i H)" "i \<notin> H" and n: "msg_next (mq_msgs mq i) = None"
  shows "mq_part (mq_link_tail i mq) (ms @ [i]) fs H \<and> mq_same mq (mq_link_tail i mq) \<and>
    mq_entry (mq_link_tail i mq) = mq_entry mq + 1 \<and>
    (\<forall>j. j \<notin> set ms \<longrightarrow> mq_msgs (mq_link_tail i mq) j = mq_msgs mq j)"
proof -
  have h: "chain (mq_msgs mq) (mq_head mq) ms" and f: "chain (mq_msgs mq) (mq_free mq) fs"
    and d: "distinct ms" "distinct fs" "set ms \<inter> set fs = {}" "i \<notin> set ms" "i \<notin> set fs"
    and t: "mq_tail mq = (if ms = [] then None else Some (last ms))"
    and ln: "\<forall>i < unat (mq_max_msgs mq). length (msg_bytes (mq_msgs mq i)) = unat (mq_msg_size mq)"
    and s: "set ms \<union> insert i (H \<union> set fs) = {..<unat (mq_max_msgs mq)}" "H \<inter> (set ms \<union> set fs) = {}"
    using p(1) by (auto simp: mq_part_def)
  show ?thesis
  proof (cases "ms = []")
    case True
    then have e: "mq_link_tail i mq = mq\<lparr>mq_tail := Some i, mq_head := Some i, mq_entry := mq_entry mq + 1\<rparr>"
      using t h by (simp add: mq_link_tail_def Let_def)
    show ?thesis using True f d ln s p(2) n unfolding e by (auto simp: mq_part_def mq_same_def)
  next
    case False
    then have hn: "mq_head mq \<noteq> None" using h by (cases ms) auto
    let ?m = "(mq_msgs mq)(last ms := (mq_msgs mq (last ms))\<lparr>msg_next := Some i\<rparr>)"
    have e: "mq_link_tail i mq = mq\<lparr>mq_msgs := ?m, mq_tail := Some i, mq_entry := mq_entry mq + 1\<rparr>"
      using False t hn by (simp add: mq_link_tail_def Let_def)
    have la: "last ms \<in> set ms" "last ms \<notin> set fs" using False d(3) last_in_set[of ms] by blast+
    have "chain ?m (mq_head mq) (ms @ [i])" by (rule chain_append[OF h False d(1,4) n])
    moreover have "chain ?m (mq_free mq) fs" using f la(2) by simp
    ultimately show ?thesis using d ln s p(2) la(1) unfolding e by (auto simp: mq_part_def mq_same_def)
  qed
qed

lemma mq_link_head_part:
  assumes p: "mq_part mq ms fs (insert i H)" "i \<notin> H"
  shows "mq_part (mq_link_head i mq) (i # ms) fs H \<and> mq_same mq (mq_link_head i mq) \<and>
    mq_entry (mq_link_head i mq) = mq_entry mq + 1 \<and>
    (\<forall>j. j \<noteq> i \<longrightarrow> mq_msgs (mq_link_head i mq) j = mq_msgs mq j)"
proof -
  have i: "i \<notin> set ms" "i \<notin> set fs" using p(1) by (auto simp: mq_part_def)
  let ?m = "(mq_msgs mq)(i := (mq_msgs mq i)\<lparr>msg_next := mq_head mq\<rparr>)"
  have e: "mq_link_head i mq = mq\<lparr>mq_msgs := ?m, mq_head := Some i,
      mq_tail := if ms = [] then Some i else mq_tail mq, mq_entry := mq_entry mq + 1\<rparr>"
    using p(1) by (cases "ms = []") (simp_all add: mq_link_head_def Let_def mq_part_def)
  show ?thesis using p i unfolding e by (auto simp: mq_part_def mq_same_def)
qed

lemma mq_unlink_head_part:
  assumes p: "mq_part mq (i # ms) fs H"
  shows "\<exists>mq'. mq_unlink_head mq = Some (i, mq') \<and> mq_part mq' ms fs (insert i H) \<and> mq_same mq mq' \<and>
    mq_entry mq' = mq_entry mq \<and> mq_msgs mq' = mq_msgs mq"
proof -
  have h: "mq_head mq = Some i" and t: "mq_tail mq = Some (last (i # ms))" and d: "i \<notin> set ms"
    using p by (auto simp: mq_part_def)
  have ti: "mq_tail mq = Some i \<longleftrightarrow> ms = []" using t d last_in_set[of ms] by (cases "ms = []") auto
  let ?mq = "mq\<lparr>mq_head := msg_next (mq_msgs mq i), mq_tail := if ms = [] then None else mq_tail mq\<rparr>"
  have "mq_unlink_head mq = Some (i, ?mq)"
    using h ti by (cases "ms = []") (simp_all add: mq_unlink_head_def Let_def)
  moreover have "mq_part ?mq ms fs (insert i H)" using p by (auto simp: mq_part_def)
  ultimately show ?thesis by (intro exI[of _ ?mq]) (simp add: mq_same_def)
qed

lemma mq_release_part:
  assumes p: "mq_part mq ms fs (insert i H)" "i \<notin> H"
  shows "mq_part (mq_release i mq) ms (i # fs) H \<and> mq_same mq (mq_release i mq) \<and>
    mq_entry (mq_release i mq) = mq_entry mq \<and> (\<forall>j. j \<noteq> i \<longrightarrow> mq_msgs (mq_release i mq) j = mq_msgs mq j)"
proof -
  have i: "i \<notin> set ms" "i \<notin> set fs" using p(1) by (auto simp: mq_part_def)
  show ?thesis using p i by (auto simp: mq_part_def mq_same_def mq_release_def)
qed

subsection \<open>Sending and receiving\<close>

text \<open>The counter of entries does not wrap: it is at most the size of the pool.\<close>

lemma mq_entry_less:
  assumes "mq_part mq ms' fs H" "length ms' = Suc (unat e)"
  shows "unat (e + 1 :: u16) = length ms'"
proof -
  have "length ms' \<le> unat (mq_max_msgs mq)" using mq_part_length[OF assms(1)] by simp
  moreover have "unat (mq_max_msgs mq) < 2 ^ 16" using unsigned_less[of "mq_max_msgs mq", where 'a = nat] by simp
  ultimately have "Suc (unat e) < 2 ^ 16" using assms(2) by simp
  then show ?thesis using assms(2) by (simp add: unat_word_ariths)
qed

text \<open>The bytes of a message after a buffer has been written over it.\<close>

definition written :: "rt_messagequeue \<Rightarrow> u8 list \<Rightarrow> nat \<Rightarrow> u8 list" where
  "written mq buf i = buf @ drop (length buf) (msg_bytes (mq_msgs mq i))"

lemma mq_store_rep:
  assumes r: "mq_rep mq ms (f # fs)" and b: "length buf \<le> unat (mq_msg_size mq)"
  shows "\<exists>mq'. mq_store buf mq = Some mq' \<and> mq_rep mq' (ms @ [f]) fs \<and>
    (\<forall>i. msg_bytes (mq_msgs mq' i) = (if i = f then written mq buf f else msg_bytes (mq_msgs mq i))) \<and>
    mq_max_msgs mq' = mq_max_msgs mq \<and> mq_msg_size mq' = mq_msg_size mq"
proof -
  obtain mq1 where a: "mq_alloc mq = Some (f, mq1)" "mq_part mq1 ms fs {f}" "mq_same mq mq1"
    "mq_entry mq1 = mq_entry mq" "mq_msgs mq1 = mq_msgs mq"
    using mq_alloc_part[of mq ms f fs "{}"] r by (auto simp: mq_rep_def)
  have l: "length (msg_bytes (mq_msgs mq1 f)) = unat (mq_msg_size mq)"
    using mq_part_held[OF a(2), of f] a(3) by (simp add: mq_same_def)
  let ?mq2 = "set_msg f (msg_write buf) (set_msg f (\<lambda>m. m\<lparr>msg_next := None\<rparr>) mq1)"
  have w: "mq_part (set_msg f (\<lambda>m. m\<lparr>msg_next := None\<rparr>) mq1) ms fs {f}"
    by (rule set_msg_part[OF a(2)]) simp_all
  have p2: "mq_part ?mq2 ms fs {f}"
    by (rule set_msg_part[OF w]) (use l b in \<open>simp_all add: msg_write_def\<close>)
  then have l: "mq_part (mq_link_tail f ?mq2) (ms @ [f]) fs {} \<and> mq_same ?mq2 (mq_link_tail f ?mq2) \<and>
      mq_entry (mq_link_tail f ?mq2) = mq_entry ?mq2 + 1"
    using mq_link_tail_part[of ?mq2 ms fs f "{}"] by (simp add: msg_write_def)
  have "unat (mq_entry mq + 1) = length ms + 1"
    using mq_entry_less[OF conjunct1[OF l], of "mq_entry mq"] r by (simp add: mq_rep_def)
  moreover have "mq_store buf mq = Some (mq_link_tail f ?mq2)" using a(1) by (simp add: mq_store_def)
  ultimately show ?thesis
    using l a(3,4,5)
    by (intro exI[of _ "mq_link_tail f ?mq2"]) (simp add: mq_rep_def mq_same_def written_def msg_write_def)
qed

lemma mq_store_urgent_rep:
  assumes r: "mq_rep mq ms (f # fs)" and b: "length buf \<le> unat (mq_msg_size mq)"
  shows "\<exists>mq'. mq_store_urgent buf mq = Some mq' \<and> mq_rep mq' (f # ms) fs \<and>
    (\<forall>i. msg_bytes (mq_msgs mq' i) = (if i = f then written mq buf f else msg_bytes (mq_msgs mq i))) \<and>
    mq_max_msgs mq' = mq_max_msgs mq \<and> mq_msg_size mq' = mq_msg_size mq"
proof -
  obtain mq1 where a: "mq_alloc mq = Some (f, mq1)" "mq_part mq1 ms fs {f}" "mq_same mq mq1"
    "mq_entry mq1 = mq_entry mq" "mq_msgs mq1 = mq_msgs mq"
    using mq_alloc_part[of mq ms f fs "{}"] r by (auto simp: mq_rep_def)
  have l: "length (msg_bytes (mq_msgs mq1 f)) = unat (mq_msg_size mq)"
    using mq_part_held[OF a(2), of f] a(3) by (simp add: mq_same_def)
  let ?mq2 = "set_msg f (msg_write buf) mq1"
  have p2: "mq_part ?mq2 ms fs {f}"
    by (rule set_msg_part[OF a(2)]) (use l b in \<open>simp_all add: msg_write_def\<close>)
  then have l: "mq_part (mq_link_head f ?mq2) (f # ms) fs {} \<and> mq_same ?mq2 (mq_link_head f ?mq2) \<and>
      mq_entry (mq_link_head f ?mq2) = mq_entry ?mq2 + 1"
    using mq_link_head_part[of ?mq2 ms fs f "{}"] by simp
  have "unat (mq_entry mq + 1) = length ms + 1"
    using mq_entry_less[OF conjunct1[OF l], of "mq_entry mq"] r by (simp add: mq_rep_def)
  moreover have "mq_store_urgent buf mq = Some (mq_link_head f ?mq2)" using a(1) by (simp add: mq_store_urgent_def)
  ultimately show ?thesis
    using l a(3,4,5)
    by (intro exI[of _ "mq_link_head f ?mq2"]) (simp add: mq_rep_def mq_same_def written_def msg_write_def)
qed

lemma mq_fetch_rep:
  assumes r: "mq_rep mq (i # ms) fs"
  shows "\<exists>mq'. mq_fetch sz mq = Some (take (min sz (unat (mq_msg_size mq))) (msg_bytes (mq_msgs mq i)), mq') \<and>
    mq_rep mq' ms (i # fs) \<and> mq_same mq mq'"
proof -
  obtain mq1 where a: "mq_unlink_head mq = Some (i, mq1)" "mq_part mq1 ms fs {i}" "mq_same mq mq1"
    "mq_entry mq1 = mq_entry mq" "mq_msgs mq1 = mq_msgs mq"
    using mq_unlink_head_part[of mq i ms fs "{}"] r by (auto simp: mq_rep_def)
  let ?mq2 = "mq1\<lparr>mq_entry := mq_entry mq1 - 1\<rparr>"
  have "mq_entry mq \<noteq> 0" using r by (auto simp: mq_rep_def)
  then have e: "unat (mq_entry mq - 1) = length ms" using r by (simp add: unat_minus_one mq_rep_def)
  have "mq_part ?mq2 ms fs {i}" using a(2) by (simp add: mq_part_def)
  then have "mq_part (mq_release i ?mq2) ms (i # fs) {} \<and> mq_same ?mq2 (mq_release i ?mq2) \<and>
      mq_entry (mq_release i ?mq2) = mq_entry ?mq2"
    using mq_release_part[of ?mq2 ms fs i "{}"] by simp
  moreover have "mq_fetch sz mq =
      Some (take (min sz (unat (mq_msg_size mq))) (msg_bytes (mq_msgs mq i)), mq_release i ?mq2)"
    using a(1,3,5) by (simp add: mq_fetch_def min_def not_le mq_same_def)
  ultimately show ?thesis
    using a(3,4) e by (intro exI[of _ "mq_release i ?mq2"]) (simp add: mq_rep_def mq_same_def)
qed

lemma mq_drain_part:
  "mq_part mq ms fs H \<Longrightarrow> \<exists>mq'. mq_drain mq = Some mq' \<and> mq_part mq' [] (rev ms @ fs) H \<and> mq_same mq mq' \<and>
    (\<forall>j \<in> H. mq_msgs mq' j = mq_msgs mq j)"
proof (induction ms arbitrary: mq fs)
  case Nil
  then have "mq_head mq = None" by (simp add: mq_part_def)
  then show ?case using Nil by (simp add: mq_drain.simps mq_same_def)
next
  case (Cons i ms)
  obtain mq1 where a: "mq_unlink_head mq = Some (i, mq1)" "mq_part mq1 ms fs (insert i H)" "mq_same mq mq1"
    "mq_msgs mq1 = mq_msgs mq"
    using mq_unlink_head_part[OF Cons.prems] by blast
  have h: "mq_head mq = Some i" "i \<notin> H" using Cons.prems by (auto simp: mq_part_def)
  have r: "mq_part (mq_release i mq1) ms (i # fs) H" "mq_same mq1 (mq_release i mq1)"
    "\<forall>j \<in> H. mq_msgs (mq_release i mq1) j = mq_msgs mq j"
    using mq_release_part[OF a(2) h(2)] a(4) h(2) by auto
  obtain mq' where "mq_drain (mq_release i mq1) = Some mq'" "mq_part mq' [] (rev ms @ i # fs) H"
    "mq_same (mq_release i mq1) mq'" "\<forall>j \<in> H. mq_msgs mq' j = mq_msgs (mq_release i mq1) j"
    using Cons.IH[OF r(1)] by blast
  then show ?case using a(1,3) h r(2,3) by (subst mq_drain.simps) (simp add: mq_same_def)
qed

text \<open>The pool in memory that \<open>rt_mq_init\<close> is given: a buffer of the right length behind every link word.\<close>

lemma mq_init_list_rep:
  assumes l: "\<forall>i < unat (mq_max_msgs mq). length (msg_bytes (mq_msgs mq i)) = unat (mq_msg_size mq)"
  shows "mq_rep ((mq_init_list mq)\<lparr>mq_entry := 0\<rparr>) [] (rev [0..<unat (mq_max_msgs mq)]) \<and>
    mq_same mq (mq_init_list mq)"
proof -
  let ?N = "unat (mq_max_msgs mq)" and ?mq = "mq\<lparr>mq_head := None, mq_tail := None, mq_free := None\<rparr>"
  have "mq_part (fold mq_release [0..<n] ?mq) [] (rev [0..<n]) {n..<?N} \<and>
      mq_same mq (fold mq_release [0..<n] ?mq)" if "n \<le> ?N" for n
    using that
  proof (induction n)
    case 0
    then show ?case using l by (auto simp: mq_part_def mq_same_def)
  next
    case (Suc n)
    let ?f = "fold mq_release [0..<n] ?mq"
    have "{n..<?N} = insert n {Suc n..<?N}" "n \<notin> {Suc n..<?N}" using Suc.prems by auto
    moreover have ih: "mq_part ?f [] (rev [0..<n]) {n..<?N}" "mq_same mq ?f"
      using Suc by simp_all
    ultimately have "mq_part (mq_release n ?f) [] (n # rev [0..<n]) {Suc n..<?N}" "mq_same ?f (mq_release n ?f)"
      using mq_release_part[of ?f "[]" "rev [0..<n]" n "{Suc n..<?N}"] by simp_all
    then show ?case using ih(2) by (simp add: mq_same_def)
  qed
  from this[of ?N] show ?thesis by (simp add: mq_rep_def mq_init_list_def mq_part_def)
qed

subsection \<open>Interleaved calls\<close>

text \<open>
  The critical sections of the calls, one step each, with the messages that a call holds between them.
\<close>

datatype mq_stage = Taken | Filled | Copied | Unlinked

inductive mq_step ::
  "rt_messagequeue \<times> (nat \<Rightarrow> mq_stage option) \<Rightarrow> rt_messagequeue \<times> (nat \<Rightarrow> mq_stage option) \<Rightarrow> bool" where
  take: "mq_alloc mq = Some (i, mq') \<Longrightarrow> mq_step (mq, fl) (mq', fl(i \<mapsto> Taken))"
| fill: "fl i = Some Taken \<Longrightarrow> length buf \<le> unat (mq_msg_size mq) \<Longrightarrow>
    mq_step (mq, fl) (set_msg i (msg_write buf) (set_msg i (\<lambda>m. m\<lparr>msg_next := None\<rparr>) mq), fl(i \<mapsto> Filled))"
| copy: "fl i = Some Taken \<Longrightarrow> length buf \<le> unat (mq_msg_size mq) \<Longrightarrow>
    mq_step (mq, fl) (set_msg i (msg_write buf) mq, fl(i \<mapsto> Copied))"
| tail: "fl i = Some Filled \<Longrightarrow> mq_step (mq, fl) (mq_link_tail i mq, fl(i := None))"
| head: "fl i = Some Copied \<Longrightarrow> mq_step (mq, fl) (mq_link_head i mq, fl(i := None))"
| unlink: "mq_entry mq \<noteq> 0 \<Longrightarrow> mq_unlink_head mq = Some (i, mq') \<Longrightarrow>
    mq_step (mq, fl) (mq'\<lparr>mq_entry := mq_entry mq' - 1\<rparr>, fl(i \<mapsto> Unlinked))"
| release: "fl i = Some Unlinked \<Longrightarrow> mq_step (mq, fl) (mq_release i mq, fl(i := None))"
| reset: "mq_drain mq = Some mq' \<Longrightarrow> mq_step (mq, fl) (mq'\<lparr>mq_entry := 0\<rparr>, fl)"

definition mq_flight_ok :: "rt_messagequeue \<times> (nat \<Rightarrow> mq_stage option) \<Rightarrow> bool" where
  "mq_flight_ok s \<longleftrightarrow>
     (case s of (mq, fl) \<Rightarrow>
        (\<exists>ms fs. mq_part mq ms fs (dom fl) \<and> unat (mq_entry mq) = length ms) \<and>
        (\<forall>i. fl i = Some Filled \<longrightarrow> msg_next (mq_msgs mq i) = None))"

lemma mq_flight_okI:
  "mq_part mq ms fs (dom fl) \<Longrightarrow> unat (mq_entry mq) = length ms \<Longrightarrow>
    (\<And>j. fl j = Some Filled \<Longrightarrow> msg_next (mq_msgs mq j) = None) \<Longrightarrow> mq_flight_ok (mq, fl)"
  by (auto simp: mq_flight_ok_def)

lemma mq_flight_okE:
  assumes "mq_flight_ok (mq, fl)"
  obtains ms fs where "mq_part mq ms fs (dom fl)" "unat (mq_entry mq) = length ms"
    "\<And>j. fl j = Some Filled \<Longrightarrow> msg_next (mq_msgs mq j) = None"
  using assms by (auto simp: mq_flight_ok_def)

lemma dom_without: "fl i = Some x \<Longrightarrow> dom fl = insert i (dom (fl(i := None)))"
  by auto

lemma mq_fill_part:
  assumes "mq_part mq ms fs H" "i \<in> H" "length buf \<le> unat (mq_msg_size mq)"
  shows "mq_part (set_msg i (msg_write buf) mq) ms fs H"
    "mq_part (set_msg i (msg_write buf) (set_msg i (\<lambda>m. m\<lparr>msg_next := None\<rparr>) mq)) ms fs H"
proof -
  have l: "length (msg_bytes (mq_msgs mq i)) = unat (mq_msg_size mq)" using mq_part_held[OF assms(1,2)] by simp
  show "mq_part (set_msg i (msg_write buf) mq) ms fs H"
    by (rule set_msg_part[OF assms(1,2)]) (use l assms(3) in \<open>simp add: msg_write_def\<close>)
  have p: "mq_part (set_msg i (\<lambda>m. m\<lparr>msg_next := None\<rparr>) mq) ms fs H"
    by (rule set_msg_part[OF assms(1,2)]) simp
  show "mq_part (set_msg i (msg_write buf) (set_msg i (\<lambda>m. m\<lparr>msg_next := None\<rparr>) mq)) ms fs H"
    by (rule set_msg_part[OF p assms(2)]) (use l assms(3) in \<open>simp add: msg_write_def\<close>)
qed

lemma mq_step_keeps:
  assumes "mq_step s s'" "mq_flight_ok s"
  shows "mq_flight_ok s'"
  using assms
proof (induction rule: mq_step.induct)
  case (take mq i mq' fl)
  from take(2) obtain ms fs where p: "mq_part mq ms fs (dom fl)" "unat (mq_entry mq) = length ms"
    "\<And>j. fl j = Some Filled \<Longrightarrow> msg_next (mq_msgs mq j) = None" by (rule mq_flight_okE) blast
  from take obtain fs' where "fs = i # fs'"
    using p(1) by (cases fs) (auto simp: mq_alloc_def mq_part_def split: option.splits)
  then have q: "mq_part mq' ms fs' (insert i (dom fl))" "mq_entry mq' = mq_entry mq" "mq_msgs mq' = mq_msgs mq"
    using mq_alloc_part[of mq ms i fs' "dom fl"] p(1) take(1) by auto
  show ?case by (rule mq_flight_okI[of _ ms fs']) (use p q in \<open>auto split: if_splits\<close>)
next
  case (fill fl i buf mq)
  from fill(3) obtain ms fs where p: "mq_part mq ms fs (dom fl)" "unat (mq_entry mq) = length ms"
    "\<And>j. fl j = Some Filled \<Longrightarrow> msg_next (mq_msgs mq j) = None" by (rule mq_flight_okE) blast
  have d: "dom (fl(i \<mapsto> Filled)) = dom fl" "i \<in> dom fl" using fill(1) by auto
  show ?case
    by (rule mq_flight_okI[of _ ms fs])
      (use mq_fill_part(2)[OF p(1) d(2) fill(2)] d p in \<open>simp_all add: msg_write_def split: if_splits\<close>)
next
  case (copy fl i buf mq)
  from copy(3) obtain ms fs where p: "mq_part mq ms fs (dom fl)" "unat (mq_entry mq) = length ms"
    "\<And>j. fl j = Some Filled \<Longrightarrow> msg_next (mq_msgs mq j) = None" by (rule mq_flight_okE) blast
  have d: "dom (fl(i \<mapsto> Copied)) = dom fl" "i \<in> dom fl" using copy(1) by auto
  show ?case
    by (rule mq_flight_okI[of _ ms fs])
      (use mq_fill_part(1)[OF p(1) d(2) copy(2)] d p in \<open>simp_all split: if_splits\<close>)
next
  case (tail fl i mq)
  from tail(2) obtain ms fs where p: "mq_part mq ms fs (dom fl)" "unat (mq_entry mq) = length ms"
    "\<And>j. fl j = Some Filled \<Longrightarrow> msg_next (mq_msgs mq j) = None" by (rule mq_flight_okE) blast
  have i: "i \<notin> dom (fl(i := None))" by simp
  note q = mq_link_tail_part[OF p(1)[unfolded dom_without[of fl i, OF tail(1)]] i p(3)[OF tail(1)]]
  have "unat (mq_entry mq + 1) = length (ms @ [i])" using mq_entry_less[OF conjunct1[OF q], of "mq_entry mq"] p(2) by simp
  then show ?case
    by (intro mq_flight_okI[of _ "ms @ [i]" fs]) (use q p(3) mq_part_held[OF p(1) domI] in \<open>auto split: if_splits\<close>)
next
  case (head fl i mq)
  from head(2) obtain ms fs where p: "mq_part mq ms fs (dom fl)" "unat (mq_entry mq) = length ms"
    "\<And>j. fl j = Some Filled \<Longrightarrow> msg_next (mq_msgs mq j) = None" by (rule mq_flight_okE) blast
  have i: "i \<notin> dom (fl(i := None))" by simp
  note q = mq_link_head_part[OF p(1)[unfolded dom_without[of fl i, OF head(1)]] i]
  have "unat (mq_entry mq + 1) = length (i # ms)" using mq_entry_less[OF conjunct1[OF q], of "mq_entry mq"] p(2) by simp
  then show ?case
    by (intro mq_flight_okI[of _ "i # ms" fs]) (use q p(3) in \<open>auto split: if_splits\<close>)
next
  case (unlink mq i mq' fl)
  from unlink(3) obtain ms fs where p: "mq_part mq ms fs (dom fl)" "unat (mq_entry mq) = length ms"
    "\<And>j. fl j = Some Filled \<Longrightarrow> msg_next (mq_msgs mq j) = None" by (rule mq_flight_okE) blast
  from unlink obtain ms' where m: "ms = i # ms'"
    using p(1) by (cases ms) (auto simp: mq_unlink_head_def mq_part_def Let_def split: option.splits)
  then have q: "mq_part mq' ms' fs (insert i (dom fl))" "mq_entry mq' = mq_entry mq" "mq_msgs mq' = mq_msgs mq"
    using mq_unlink_head_part[of mq i ms' fs "dom fl"] p(1) unlink(2) by auto
  have "unat (mq_entry mq - 1) = length ms'" using unlink(1) p(2) m by (simp add: unat_minus_one)
  then show ?case
    by (intro mq_flight_okI[of _ ms' fs]) (use p(3) q in \<open>auto simp: mq_part_def split: if_splits\<close>)
next
  case (release fl i mq)
  from release(2) obtain ms fs where p: "mq_part mq ms fs (dom fl)" "unat (mq_entry mq) = length ms"
    "\<And>j. fl j = Some Filled \<Longrightarrow> msg_next (mq_msgs mq j) = None" by (rule mq_flight_okE) blast
  have i: "i \<notin> dom (fl(i := None))" by simp
  note q = mq_release_part[OF p(1)[unfolded dom_without[of fl i, OF release(1)]] i]
  show ?case
    by (intro mq_flight_okI[of _ ms "i # fs"]) (use q p(2,3) in \<open>auto split: if_splits\<close>)
next
  case (reset mq mq' fl)
  from reset(2) obtain ms fs where p: "mq_part mq ms fs (dom fl)" "unat (mq_entry mq) = length ms"
    "\<And>j. fl j = Some Filled \<Longrightarrow> msg_next (mq_msgs mq j) = None" by (rule mq_flight_okE) blast
  have q: "mq_part mq' [] (rev ms @ fs) (dom fl)" "\<forall>j \<in> dom fl. mq_msgs mq' j = mq_msgs mq j"
    using mq_drain_part[OF p(1)] reset(1) by auto
  show ?case
    by (rule mq_flight_okI[of _ "[]" "rev ms @ fs"]) (use q p(3) in \<open>auto simp: mq_part_def domI\<close>)
qed

subsection \<open>Operations\<close>

text \<open>\<open>RT_ALIGN(msg_size, RT_ALIGN_SIZE)\<close> kept in 16 bits, and the number of messages that fit the pool.\<close>

definition mq_aligned_size :: "u32 \<Rightarrow> u16" where
  "mq_aligned_size msg_size = ucast (RT_ALIGN msg_size RT_ALIGN_SIZE)"

definition mq_capacity :: "u16 \<Rightarrow> u32 \<Rightarrow> u16" where
  "mq_capacity sz pool_size = ucast (pool_size div (ucast sz + 4))"

text \<open>The pool in memory is the argument \<open>pool\<close>: the message at each index.\<close>

definition rt_mq_init ::
  "nat \<Rightarrow> u8 list \<Rightarrow> (nat \<Rightarrow> mq_message) \<Rightarrow> u32 \<Rightarrow> u32 \<Rightarrow> u8 \<Rightarrow> kernel \<Rightarrow> (rt_err_t \<times> kernel) option" where
  "rt_mq_init n name pool msg_size pool_size flag k =
     do { k \<leftarrow> rt_object_init (OMq n) RT_Object_Class_MessageQueue name k;
          let k = upd_obj (OMq n) (\<lambda>ob. ob\<lparr>ob_flag := flag\<rparr>) k;
          k \<leftarrow> rt_ipc_object_init (MqQ n) k;
          let sz = mq_aligned_size msg_size;
          let k = upd_mq n (\<lambda>mq. mq\<lparr>mq_msgs := pool, mq_msg_size := sz, mq_max_msgs := mq_capacity sz pool_size\<rparr>) k;
          let k = upd_mq n mq_init_list k;
          let k = upd_mq n (\<lambda>mq. mq\<lparr>mq_entry := 0\<rparr>) k;
          Some (RT_EOK, k) }"

definition rt_mq_detach :: "nat \<Rightarrow> kernel \<Rightarrow> (rt_err_t \<times> kernel) option" where
  "rt_mq_detach n k =
     do { RT_ASSERT (rt_object_get_type (OMq n) k = of_nat RT_Object_Class_MessageQueue);
          RT_ASSERT (rt_object_is_systemobject (OMq n) k);
          k \<leftarrow> rt_ipc_list_resume_all (MqQ n) k;
          Some (RT_EOK, rt_object_detach (OMq n) k) }"

definition rt_mq_delete :: "nat \<Rightarrow> kernel \<Rightarrow> (rt_err_t \<times> kernel) option" where
  "rt_mq_delete n k =
     do { RT_DEBUG_NOT_IN_INTERRUPT k;
          RT_ASSERT (rt_object_get_type (OMq n) k = of_nat RT_Object_Class_MessageQueue);
          RT_ASSERT (\<not> rt_object_is_systemobject (OMq n) k);
          k \<leftarrow> rt_ipc_list_resume_all (MqQ n) k;
          k \<leftarrow> rt_object_delete (OMq n) k;
          Some (RT_EOK, k) }"

interpretation mqo: ipc_object MqQ OMq 6 rt_mq_detach rt_mq_delete
  by unfold_locales (simp_all add: rt_mq_detach_def rt_mq_delete_def RT_DEBUG_NOT_IN_INTERRUPT_def
      rt_interrupt_get_nest_def ipc_oid_def)

text \<open>The block \<open>RT_KERNEL_MALLOC\<close> returns for the messages is the argument \<open>pool\<close>.\<close>

definition rt_mq_create ::
  "nat option \<Rightarrow> (nat \<Rightarrow> mq_message) option \<Rightarrow> u8 list \<Rightarrow> u32 \<Rightarrow> u32 \<Rightarrow> u8 \<Rightarrow> kernel \<Rightarrow> (nat option \<times> kernel) option"
  where
  "rt_mq_create mem pool name msg_size max_msgs flag k =
     do { RT_DEBUG_NOT_IN_INTERRUPT k;
          (x, k) \<leftarrow> rt_object_allocate (map_option OMq mem) RT_Object_Class_MessageQueue name k;
          case x of
            Some (OMq n) \<Rightarrow>
              do { let k = upd_obj (OMq n) (\<lambda>ob. ob\<lparr>ob_flag := flag\<rparr>) k;
                   k \<leftarrow> rt_ipc_object_init (MqQ n) k;
                   let k = upd_mq n (\<lambda>mq. mq\<lparr>mq_msg_size := mq_aligned_size msg_size,
                     mq_max_msgs := ucast max_msgs\<rparr>) k;
                   case pool of
                     None \<Rightarrow> do { (_, k) \<leftarrow> rt_mq_delete n k; Some (None, k) }
                   | Some p \<Rightarrow>
                       do { let k = upd_mq n (\<lambda>mq. mq\<lparr>mq_msgs := p\<rparr>) k;
                            let k = upd_mq n mq_init_list k;
                            let k = upd_mq n (\<lambda>mq. mq\<lparr>mq_entry := 0\<rparr>) k;
                            Some (Some n, k) } }
          | _ \<Rightarrow> Some (None, k) }"

definition rt_mq_send :: "nat \<Rightarrow> u8 list \<Rightarrow> kernel \<Rightarrow> (rt_err_t \<times> kernel) option" where
  "rt_mq_send n buffer k =
     do { RT_ASSERT (rt_object_get_type (OMq n) k = of_nat RT_Object_Class_MessageQueue);
          RT_ASSERT (length buffer \<noteq> 0);
          if length buffer > unat (mq_msg_size (mqs k n)) then Some (- RT_ERROR, k)
          else case mq_store buffer (mqs k n) of
            None \<Rightarrow> Some (- RT_EFULL, k)
          | Some mq \<Rightarrow> do { k \<leftarrow> ipc_wake (MqQ n) (upd_mq n (\<lambda>_. mq) k); Some (RT_EOK, k) } }"

definition rt_mq_urgent :: "nat \<Rightarrow> u8 list \<Rightarrow> kernel \<Rightarrow> (rt_err_t \<times> kernel) option" where
  "rt_mq_urgent n buffer k =
     do { RT_ASSERT (rt_object_get_type (OMq n) k = of_nat RT_Object_Class_MessageQueue);
          RT_ASSERT (length buffer \<noteq> 0);
          if length buffer > unat (mq_msg_size (mqs k n)) then Some (- RT_ERROR, k)
          else case mq_store_urgent buffer (mqs k n) of
            None \<Rightarrow> Some (- RT_EFULL, k)
          | Some mq \<Rightarrow> do { k \<leftarrow> ipc_wake (MqQ n) (upd_mq n (\<lambda>_. mq) k); Some (RT_EOK, k) } }"

text \<open>The \<open>while\<close> loop of \<open>rt_mq_recv\<close> and what follows it, up to the next wait.\<close>

definition mq_recv_loop ::
  "nat \<Rightarrow> nat option \<Rightarrow> nat \<Rightarrow> int \<Rightarrow> kernel \<Rightarrow> ((rt_err_t \<times> u8 list) call \<times> kernel) option" where
  "mq_recv_loop n self sz timeout k =
     (if mq_entry (mqs k n) = 0
      then do { RT_DEBUG_IN_THREAD_CONTEXT k;
                thread \<leftarrow> self;
                let k = upd_thr thread (\<lambda>th. th\<lparr>th_error := RT_EOK\<rparr>) k;
                if timeout = 0
                then Some (Return (- RT_ETIMEOUT, []), upd_thr thread (\<lambda>th. th\<lparr>th_error := - RT_ETIMEOUT\<rparr>) k)
                else do { k \<leftarrow> wait_on (MqQ n) (ob_flag (objs k (OMq n))) thread timeout k;
                          k \<leftarrow> rt_schedule k;
                          Some (Blocked, k) } }
      else do { (bytes, mq) \<leftarrow> mq_fetch sz (mqs k n);
                Some (Return (RT_EOK, bytes), upd_mq n (\<lambda>_. mq) k) })"

definition rt_mq_recv :: "nat \<Rightarrow> nat \<Rightarrow> int \<Rightarrow> kernel \<Rightarrow> ((rt_err_t \<times> u8 list) call \<times> kernel) option" where
  "rt_mq_recv n sz timeout k =
     do { RT_ASSERT (rt_object_get_type (OMq n) k = of_nat RT_Object_Class_MessageQueue);
          RT_ASSERT (sz \<noteq> 0);
          if mq_entry (mqs k n) = 0 \<and> timeout = 0 then Some (Return (- RT_ETIMEOUT, []), k)
          else mq_recv_loop n (rt_thread_self k) sz timeout k }"

definition rt_mq_recv_end ::
  "nat \<Rightarrow> nat \<Rightarrow> nat \<Rightarrow> int \<Rightarrow> u32 \<Rightarrow> kernel \<Rightarrow> ((rt_err_t \<times> u8 list) call \<times> kernel) option" where
  "rt_mq_recv_end n thread sz timeout start k =
     (if th_error (thr k thread) \<noteq> RT_EOK then Some (Return (th_error (thr k thread), []), k)
      else mq_recv_loop n (Some thread) sz (time_left timeout start (rt_tick_get k)) k)"

definition rt_mq_control :: "nat \<Rightarrow> int \<Rightarrow> kernel \<Rightarrow> (rt_err_t \<times> kernel) option" where
  "rt_mq_control n cmd k =
     do { RT_ASSERT (rt_object_get_type (OMq n) k = of_nat RT_Object_Class_MessageQueue);
          if cmd = 1
          then do { k \<leftarrow> rt_ipc_list_resume_all (MqQ n) k;
                    mq \<leftarrow> mq_drain (mqs k n);
                    let k = upd_mq n (\<lambda>_. mq\<lparr>mq_entry := 0\<rparr>) k;
                    k \<leftarrow> rt_schedule k;
                    Some (RT_EOK, k) }
          else Some (- RT_ERROR, k) }"

subsection \<open>The queue as a bounded buffer\<close>

lemma mq_rep_inv: "mq_inv mq \<longleftrightarrow> (\<exists>ms fs. mq_rep mq ms fs)"
  using mq_rep_unique(3) by (auto simp: mq_inv_def)

lemma mq_messages_length: "mq_inv mq \<Longrightarrow> length (mq_messages mq) = unat (mq_entry mq)"
  by (simp add: mq_inv_def mq_rep_def mq_messages_def)

text \<open>A queue has a free message exactly when it holds fewer than its capacity.\<close>

lemma mq_room_iff:
  assumes "mq_inv mq"
  shows "mq_frees mq \<noteq> [] \<longleftrightarrow> unat (mq_entry mq) < unat (mq_max_msgs mq)"
    and "unat (mq_entry mq) \<le> unat (mq_max_msgs mq)"
  using mq_part_length[of mq "mq_nodes mq" "mq_frees mq" "{}"] assms
  by (cases "mq_frees mq"; simp add: mq_inv_def mq_rep_def)+

lemma mq_full: "mq_inv mq \<Longrightarrow> mq_entry mq = mq_max_msgs mq \<Longrightarrow> mq_store buf mq = None \<and> mq_store_urgent buf mq = None"
  using mq_room_iff(1)[of mq] by (auto simp: mq_inv_def mq_rep_def mq_part_def mq_store_def mq_store_urgent_def mq_alloc_def)

text \<open>The bytes of the sent message, padded by what the buffer held before.\<close>

definition padded :: "u8 list \<Rightarrow> rt_messagequeue \<Rightarrow> u8 list \<Rightarrow> bool" where
  "padded w mq buf \<longleftrightarrow> length w = unat (mq_msg_size mq) \<and> take (length buf) w = buf"

lemma mq_store_ok:
  assumes i: "mq_inv mq" and e: "mq_entry mq \<noteq> mq_max_msgs mq" and b: "length buf \<le> unat (mq_msg_size mq)"
  shows "\<exists>mq' w. mq_store buf mq = Some mq' \<and> mq_inv mq' \<and> padded w mq buf \<and>
      mq_messages mq' = mq_messages mq @ [w] \<and> mq_max_msgs mq' = mq_max_msgs mq \<and> mq_msg_size mq' = mq_msg_size mq"
    and "\<exists>mq' w. mq_store_urgent buf mq = Some mq' \<and> mq_inv mq' \<and> padded w mq buf \<and>
      mq_messages mq' = w # mq_messages mq \<and> mq_max_msgs mq' = mq_max_msgs mq \<and> mq_msg_size mq' = mq_msg_size mq"
proof -
  have "unat (mq_entry mq) < unat (mq_max_msgs mq)"
    using mq_room_iff(2)[OF i] e by (simp add: order_less_le word_unat_eq_iff)
  then obtain f fs where f: "mq_frees mq = f # fs" using mq_room_iff(1)[OF i] by (cases "mq_frees mq") auto
  let ?ms = "mq_nodes mq"
  have r: "mq_rep mq ?ms (f # fs)" using i f by (simp add: mq_inv_def)
  then have p: "mq_part mq ?ms (f # fs) {}" by (simp add: mq_rep_def)
  then have fm: "f \<notin> set ?ms" "length (msg_bytes (mq_msgs mq f)) = unat (mq_msg_size mq)" by (auto simp: mq_part_def)
  have w: "padded (written mq buf f) mq buf" using fm(2) b by (simp add: padded_def written_def)
  have same: "map (\<lambda>i. if i = f then written mq buf f else msg_bytes (mq_msgs mq i)) ?ms = mq_messages mq"
    using fm(1) by (auto simp: mq_messages_def)
  from mq_store_rep[OF r b]
  obtain mq' where m: "mq_store buf mq = Some mq'" "mq_rep mq' (?ms @ [f]) fs"
    "\<forall>i. msg_bytes (mq_msgs mq' i) = (if i = f then written mq buf f else msg_bytes (mq_msgs mq i))"
    "mq_max_msgs mq' = mq_max_msgs mq" "mq_msg_size mq' = mq_msg_size mq" by blast
  show "\<exists>mq' w. mq_store buf mq = Some mq' \<and> mq_inv mq' \<and> padded w mq buf \<and>
      mq_messages mq' = mq_messages mq @ [w] \<and> mq_max_msgs mq' = mq_max_msgs mq \<and> mq_msg_size mq' = mq_msg_size mq"
    using m w same mq_rep_unique(3,4)[OF m(2)] by (intro exI[of _ mq'] exI[of _ "written mq buf f"]) simp
  from mq_store_urgent_rep[OF r b]
  obtain mq' where m: "mq_store_urgent buf mq = Some mq'" "mq_rep mq' (f # ?ms) fs"
    "\<forall>i. msg_bytes (mq_msgs mq' i) = (if i = f then written mq buf f else msg_bytes (mq_msgs mq i))"
    "mq_max_msgs mq' = mq_max_msgs mq" "mq_msg_size mq' = mq_msg_size mq" by blast
  show "\<exists>mq' w. mq_store_urgent buf mq = Some mq' \<and> mq_inv mq' \<and> padded w mq buf \<and>
      mq_messages mq' = w # mq_messages mq \<and> mq_max_msgs mq' = mq_max_msgs mq \<and> mq_msg_size mq' = mq_msg_size mq"
    using m w same mq_rep_unique(3,4)[OF m(2)] by (intro exI[of _ mq'] exI[of _ "written mq buf f"]) simp
qed

lemma mq_fetch_ok:
  assumes i: "mq_inv mq" and e: "mq_entry mq \<noteq> 0"
  shows "\<exists>w ws mq'. mq_messages mq = w # ws \<and> mq_fetch sz mq = Some (take sz w, mq') \<and> mq_inv mq' \<and>
    mq_messages mq' = ws \<and> mq_max_msgs mq' = mq_max_msgs mq \<and> mq_msg_size mq' = mq_msg_size mq"
proof -
  have "unat (mq_entry mq) \<noteq> 0" using e by (simp add: unat_eq_0)
  moreover have "unat (mq_entry mq) = length (mq_nodes mq)" using i by (simp add: mq_inv_def mq_rep_def)
  ultimately have "length (mq_nodes mq) \<noteq> 0" by simp
  then obtain x ms where n: "mq_nodes mq = x # ms" by (cases "mq_nodes mq") auto
  then have r: "mq_rep mq (x # ms) (mq_frees mq)" using i by (simp add: mq_inv_def)
  obtain mq' where m: "mq_fetch sz mq = Some (take (min sz (unat (mq_msg_size mq))) (msg_bytes (mq_msgs mq x)), mq')"
    "mq_rep mq' ms (x # mq_frees mq)" "mq_same mq mq'"
    using mq_fetch_rep[OF r] by blast
  have "length (msg_bytes (mq_msgs mq x)) = unat (mq_msg_size mq)" using r by (auto simp: mq_rep_def mq_part_def)
  then have "take (min sz (unat (mq_msg_size mq))) (msg_bytes (mq_msgs mq x)) = take sz (msg_bytes (mq_msgs mq x))"
    by (simp add: min_def)
  then show ?thesis
    using m mq_rep_unique(3,4)[OF m(2)] n by (intro exI) (auto simp: mq_messages_def mq_same_def)
qed

text \<open>One receive of a whole message, and one send of a buffer of that size.\<close>

definition mq_get1 :: "rt_messagequeue \<Rightarrow> (u8 list \<times> rt_messagequeue) option" where
  "mq_get1 mq = (if mq_entry mq = 0 then None else mq_fetch (unat (mq_msg_size mq)) mq)"

definition mq_fits :: "rt_messagequeue \<Rightarrow> u8 list \<Rightarrow> bool" where
  "mq_fits mq buf \<longleftrightarrow> length buf = unat (mq_msg_size mq)"

interpretation mqf: bounded_fifo mq_inv mq_messages "\<lambda>mq. unat (mq_max_msgs mq)" mq_fits mq_store mq_get1
proof unfold_locales
  fix mq assume i: "mq_inv mq"
  note l = mq_messages_length[OF i]
  show "length (mq_messages mq) \<le> unat (mq_max_msgs mq)" using mq_room_iff(2)[OF i] l by simp
  show "length (mq_messages mq) = unat (mq_max_msgs mq) \<Longrightarrow> mq_store x mq = None" for x
    using mq_full[OF i] l by (simp add: word_unat_eq_iff)
  show "mq_messages mq = [] \<Longrightarrow> mq_get1 mq = None" using l by (simp add: mq_get1_def unat_eq_0)
  show "mq_fits mq x \<Longrightarrow> length (mq_messages mq) < unat (mq_max_msgs mq) \<Longrightarrow> \<exists>mq'. mq_store x mq = Some mq' \<and>
      mq_inv mq' \<and> mq_messages mq' = mq_messages mq @ [x] \<and> unat (mq_max_msgs mq') = unat (mq_max_msgs mq) \<and>
      mq_fits mq' = mq_fits mq" for x
    using mq_store_ok(1)[OF i, of x] l by (fastforce simp: mq_fits_def padded_def fun_eq_iff)
  show "mq_messages mq = x # xs \<Longrightarrow> \<exists>mq'. mq_get1 mq = Some (x, mq') \<and> mq_inv mq' \<and> mq_messages mq' = xs \<and>
      unat (mq_max_msgs mq') = unat (mq_max_msgs mq)" for x xs
  proof -
    assume x: "mq_messages mq = x # xs"
    then have "mq_entry mq \<noteq> 0" using l by auto
    moreover have "length x = unat (mq_msg_size mq)"
      using i x by (auto simp: mq_inv_def mq_rep_def mq_part_def mq_messages_def)
    ultimately show ?thesis using mq_fetch_ok[OF i, of "unat (mq_msg_size mq)"] x by (auto simp: mq_get1_def)
  qed
qed

subsection \<open>What sending and receiving do to the kernel\<close>

definition mq_ok :: "nat \<Rightarrow> kernel \<Rightarrow> bool" where
  "mq_ok n k \<longleftrightarrow> rt_object_get_type (OMq n) k = 6 \<and>
     (ob_flag (objs k (OMq n)) = 0 \<or> ob_flag (objs k (OMq n)) = 1) \<and> mq_inv (mqs k n)"

lemma mq_ok_frame: "ipc_frame k k' \<Longrightarrow> mq_ok n k' = mq_ok n k"
  by (simp add: mq_ok_def rt_object_get_type_def ipc_frame_objs ipc_frameD)

text \<open>Putting a changed queue back and waking the first receiver.\<close>

lemma mq_wake_ok:
  assumes k: "kinv k" "rt_current_thread k = Some c" "mq_ok n k" and i: "mq_inv mq"
  shows "\<exists>k'. ipc_wake (MqQ n) (upd_mq n (\<lambda>_. mq) k) = Some k' \<and> kinv k' \<and> mq_ok n k' \<and> mqs k' n = mq \<and>
    ls_q (tlist k') (MqQ n) = tl (ls_q (tlist k) (MqQ n)) \<and>
    (\<forall>t ts. ls_q (tlist k) (MqQ n) = t # ts \<longrightarrow> ready_thread k' t)"
proof -
  let ?k = "upd_mq n (\<lambda>_. mq) k"
  have kk: "kinv ?k" "rt_current_thread ?k = Some c" "mq_ok n ?k"
    using k i by (simp_all add: mq_ok_def rt_object_get_type_def)
  obtain k' where k': "ipc_wake (MqQ n) ?k = Some k'" "kinv k'" "ipc_frame ?k k'"
    "ls_q (tlist k') (MqQ n) = tl (ls_q (tlist ?k) (MqQ n))"
    "\<forall>t ts. ls_q (tlist ?k) (MqQ n) = t # ts \<longrightarrow> ready_thread k' t"
    using ipc_wake_ok[OF kk(1,2), of "MqQ n"] by auto
  have "mqs k' = mqs ?k" using ipc_frameD[OF k'(3)] by simp
  then show ?thesis using k' mq_ok_frame[OF k'(3), of n] kk(3) by (intro exI[of _ k']) simp
qed

lemma mq_recv_empty:
  assumes "caller c k" "mq_ok n k" "mq_entry (mqs k n) = 0" "sz \<noteq> 0"
  shows "rt_mq_recv n sz timeout k =
    (if timeout = 0 then Some (Return (- 2, []), k)
     else do { let k = upd_thr c (\<lambda>th. th\<lparr>th_error := 0\<rparr>) k;
               k \<leftarrow> wait_on (MqQ n) (ob_flag (objs k (OMq n))) c timeout k;
               k \<leftarrow> rt_schedule k;
               Some (Blocked, k) })"
  using assms by (simp add: rt_mq_recv_def mq_recv_loop_def mq_ok_def caller_def rt_thread_self_def
      RT_DEBUG_IN_THREAD_CONTEXT_def RT_DEBUG_NOT_IN_INTERRUPT_def rt_interrupt_get_nest_def)

subsection \<open>Properties\<close>

text \<open>A queue of two messages of four bytes: the first is sent, the second is free.\<close>

definition ex_mq :: rt_messagequeue where
  "ex_mq = \<lparr>mq_msgs = (\<lambda>i. \<lparr>msg_next = None, msg_bytes = [1, 2, 3, 4]\<rparr>), mq_msg_size = 4, mq_max_msgs = 2,
     mq_entry = 1, mq_head = Some 0, mq_tail = Some 0, mq_free = Some 1\<rparr>"

lemma ex_mq_rep: "mq_rep ex_mq [0] [1]"
  by (auto simp: mq_rep_def mq_part_def ex_mq_def)

lemma ex_mq_facts: "mq_inv ex_mq" "mq_messages ex_mq = [[1, 2, 3, 4]]" "mq_entry ex_mq = 1" "mq_max_msgs ex_mq = 2"
    "mq_msg_size ex_mq = 4"
  using mq_rep_unique[OF ex_mq_rep] by (simp_all add: ex_mq_def)

text \<open>Message queue 0 with that contents, thread 1 waiting to receive.\<close>

definition ex_mqk :: "rt_messagequeue \<Rightarrow> kernel" where
  "ex_mqk mq = upd_mq 0 (\<lambda>_. mq) (ex_ipc (OMq 0) 6 0 (ex_wait (MqQ 0)))"

lemma ex_mqk_facts:
  "kinv (ex_mqk mq)" "caller 0 (ex_mqk mq)" "mq_inv mq \<Longrightarrow> mq_ok 0 (ex_mqk mq)" "mqs (ex_mqk mq) 0 = mq"
  "ls_q (tlist (ex_mqk mq)) (MqQ 0) = [1]"
proof -
  have w: "wait_link (Some (MqQ 0))" by simp
  have "kinv (ex_ipc (OMq 0) 6 0 (ex_wait (MqQ 0)))"
    by (rule ex_ipc_inv[OF ex_wait_inv[OF w]]) (simp_all add: ex_wait_def ex_kernel_def ex_olist_def)
  then show "kinv (ex_mqk mq)" by (simp add: ex_mqk_def)
  show "mq_inv mq \<Longrightarrow> mq_ok 0 (ex_mqk mq)"
    by (simp add: mq_ok_def ex_mqk_def ex_ipc_def rt_object_get_type_def)
  show "caller 0 (ex_mqk mq)" "mqs (ex_mqk mq) 0 = mq" "ls_q (tlist (ex_mqk mq)) (MqQ 0) = [1]"
    by (simp_all add: ex_mqk_def ex_ipc_def caller_def ex_wait_facts)
qed

text \<open>C6. However the critical sections of sends, urgent sends, receives and resets interleave, no message of
  the pool is lost or used twice: those sent, those free and those held by a call that is in progress
  are disjoint and together the whole pool, and the entry counter is the number of those sent.\<close>

theorem mq_interleaving:
  assumes "mq_inv mq" "mq_step\<^sup>*\<^sup>* (mq, \<lambda>_. None) (mq', fl)"
  shows "\<exists>ms fs. chain (mq_msgs mq') (mq_head mq') ms \<and> chain (mq_msgs mq') (mq_free mq') fs \<and>
    distinct (ms @ fs) \<and> dom fl \<inter> set (ms @ fs) = {} \<and> dom fl \<union> set (ms @ fs) = {..<unat (mq_max_msgs mq')} \<and>
    unat (mq_entry mq') = length ms"
proof -
  have "mq_flight_ok (mq, \<lambda>_. None)" using assms(1) by (auto simp: mq_flight_ok_def mq_inv_def mq_rep_def)
  with assms(2) have "mq_flight_ok (mq', fl)"
    by (induction rule: rtranclp_induct) (blast intro: mq_step_keeps)+
  then show ?thesis unfolding mq_flight_ok_def mq_part_def by blast
qed

theorem mq_interleaving_witness:
  "\<exists>mq' fl ms fs. mq_step\<^sup>*\<^sup>* (ex_mq, \<lambda>_. None) (mq', fl) \<and> fl 1 = Some Taken \<and> 1 \<notin> set (ms @ fs) \<and>
    dom fl \<union> set (ms @ fs) = {..<unat (mq_max_msgs mq')}"
proof -
  let ?fl = "(\<lambda>_. None)(1 \<mapsto> Taken)"
  have "mq_step (ex_mq, \<lambda>_. None) (ex_mq\<lparr>mq_free := None\<rparr>, ?fl)"
    by (rule mq_step.take) (simp add: mq_alloc_def ex_mq_def)
  then have s: "mq_step\<^sup>*\<^sup>* (ex_mq, \<lambda>_. None) (ex_mq\<lparr>mq_free := None\<rparr>, ?fl)" by blast
  show ?thesis
    using mq_interleaving[OF ex_mq_facts(1) s] s by (intro exI[of _ "ex_mq\<lparr>mq_free := None\<rparr>"] exI[of _ ?fl]) auto
qed

text \<open>Messages come out as they went in: buffers of the message size sent to a queue with room for them
  are received unchanged, in the order they were sent, behind the messages that were there.\<close>

theorem mq_fifo_roundtrip:
  assumes "mq_inv mq" "\<forall>buf \<in> set bufs. length buf = unat (mq_msg_size mq)"
    "length (mq_messages mq) + length bufs \<le> unat (mq_max_msgs mq)"
  shows "\<exists>mq1 mq2. put_all mq_store bufs mq = Some mq1 \<and>
    get_many mq_get1 (length (mq_messages mq) + length bufs) mq1 = Some (mq_messages mq @ bufs, mq2) \<and>
    mq_inv mq2 \<and> mq_messages mq2 = []"
  using mqf.put_get_order[OF assms(1) _ assms(3)] assms(2) by (simp add: mq_fits_def)

theorem mq_fifo_roundtrip_witness:
  "\<exists>mq1 mq2. put_all mq_store [[5, 6, 7, 8]] ex_mq = Some mq1 \<and>
    get_many mq_get1 2 mq1 = Some ([[1, 2, 3, 4], [5, 6, 7, 8]], mq2)"
proof -
  have e: "length (mq_messages ex_mq) + length [[5, 6, 7, 8 :: u8]] = 2" by (simp add: ex_mq_facts(2))
  have "\<forall>buf \<in> set [[5, 6, 7, 8]]. length buf = unat (mq_msg_size ex_mq)" "2 \<le> unat (mq_max_msgs ex_mq)"
    by (simp_all add: ex_mq_facts)
  then show ?thesis
    using mq_fifo_roundtrip[OF ex_mq_facts(1), of "[[5, 6, 7, 8]]"] unfolding e by (auto simp: ex_mq_facts(2))
qed

text \<open>Sending to a message queue: a buffer longer than a message is refused with \<open>-RT_ERROR\<close> and a full
  queue answers \<open>-RT_EFULL\<close>, without any effect; otherwise \<open>rt_mq_send\<close> puts the message behind and
  \<open>rt_mq_urgent\<close> in front of the others, and the first waiting receiver becomes ready.\<close>

theorem mq_send_outcomes:
  assumes "kinv k" "rt_current_thread k = Some c" "mq_ok n k" "buf \<noteq> []"
  shows "\<exists>e k' e2 k2. rt_mq_send n buf k = Some (e, k') \<and> rt_mq_urgent n buf k = Some (e2, k2) \<and>
    (if length buf > unat (mq_msg_size (mqs k n)) then e = - RT_ERROR \<and> e2 = - RT_ERROR \<and> k' = k \<and> k2 = k
     else if mq_entry (mqs k n) = mq_max_msgs (mqs k n) then e = - RT_EFULL \<and> e2 = - RT_EFULL \<and> k' = k \<and> k2 = k
     else e = RT_EOK \<and> e2 = RT_EOK \<and> kinv k' \<and> mq_ok n k' \<and> kinv k2 \<and> mq_ok n k2 \<and>
       (\<exists>w. padded w (mqs k n) buf \<and> mq_messages (mqs k' n) = mq_messages (mqs k n) @ [w]) \<and>
       (\<exists>w. padded w (mqs k n) buf \<and> mq_messages (mqs k2 n) = w # mq_messages (mqs k n)) \<and>
       (\<forall>t ts. ls_q (tlist k) (MqQ n) = t # ts \<longrightarrow> ready_thread k' t \<and> ready_thread k2 t \<and>
          ls_q (tlist k') (MqQ n) = ts \<and> ls_q (tlist k2) (MqQ n) = ts))"
proof -
  have i: "mq_inv (mqs k n)" and ty: "rt_object_get_type (OMq n) k = 6" using assms(3) by (auto simp: mq_ok_def)
  consider "length buf > unat (mq_msg_size (mqs k n))"
    | "length buf \<le> unat (mq_msg_size (mqs k n))" "mq_entry (mqs k n) = mq_max_msgs (mqs k n)"
    | "length buf \<le> unat (mq_msg_size (mqs k n))" "mq_entry (mqs k n) \<noteq> mq_max_msgs (mqs k n)"
    by fastforce
  then show ?thesis
  proof cases
    case 1
    then show ?thesis using ty assms(4) by (simp add: rt_mq_send_def rt_mq_urgent_def)
  next
    case 2
    then show ?thesis using ty assms(4) mq_full[OF i] by (simp add: rt_mq_send_def rt_mq_urgent_def not_less)
  next
    case 3
    obtain mq w where s: "mq_store buf (mqs k n) = Some mq" "mq_inv mq" "padded w (mqs k n) buf"
      "mq_messages mq = mq_messages (mqs k n) @ [w]" using mq_store_ok(1)[OF i 3(2,1)] by blast
    obtain mq2 w2 where u: "mq_store_urgent buf (mqs k n) = Some mq2" "mq_inv mq2" "padded w2 (mqs k n) buf"
      "mq_messages mq2 = w2 # mq_messages (mqs k n)" using mq_store_ok(2)[OF i 3(2,1)] by blast
    obtain k' where k': "ipc_wake (MqQ n) (upd_mq n (\<lambda>_. mq) k) = Some k'" "kinv k'" "mq_ok n k'" "mqs k' n = mq"
      "ls_q (tlist k') (MqQ n) = tl (ls_q (tlist k) (MqQ n))"
      "\<forall>t ts. ls_q (tlist k) (MqQ n) = t # ts \<longrightarrow> ready_thread k' t"
      using mq_wake_ok[OF assms(1-3) s(2)] by blast
    obtain k2 where k2: "ipc_wake (MqQ n) (upd_mq n (\<lambda>_. mq2) k) = Some k2" "kinv k2" "mq_ok n k2" "mqs k2 n = mq2"
      "ls_q (tlist k2) (MqQ n) = tl (ls_q (tlist k) (MqQ n))"
      "\<forall>t ts. ls_q (tlist k) (MqQ n) = t # ts \<longrightarrow> ready_thread k2 t"
      using mq_wake_ok[OF assms(1-3) u(2)] by blast
    have "rt_mq_send n buf k = Some (0, k')" "rt_mq_urgent n buf k = Some (0, k2)"
      using 3(1) ty assms(4) s(1) u(1) k'(1) k2(1) by (simp_all add: rt_mq_send_def rt_mq_urgent_def)
    then show ?thesis using 3 s(3,4) u(3,4) k'(2-6) k2(2-6) by auto
  qed
qed

theorem mq_send_outcomes_witness:
  "\<exists>k' k2 w. rt_mq_send 0 [9] (ex_mqk ex_mq) = Some (0, k') \<and> rt_mq_urgent 0 [9] (ex_mqk ex_mq) = Some (0, k2) \<and>
    mq_messages (mqs k2 0) = [w, [1, 2, 3, 4]] \<and> length w = 4 \<and> ready_thread k' 1"
proof -
  have c: "rt_current_thread (ex_mqk ex_mq) = Some 0" using ex_mqk_facts(2) by (simp add: caller_def)
  show ?thesis
    using mq_send_outcomes[OF ex_mqk_facts(1) c ex_mqk_facts(3)[OF ex_mq_facts(1)], of "[9]"]
    by (auto simp: ex_mq_facts ex_mqk_facts(4,5) padded_def simp del: One_nat_def)
qed

text \<open>The outcomes of \<open>rt_mq_recv\<close>: a queue with messages gives the front of the oldest one, as many bytes as
  asked for; on an empty queue the call returns \<open>-RT_ETIMEOUT\<close> when it may not wait and otherwise
  suspends the caller in the wait queue, with its timer started for a positive time.\<close>

theorem mq_recv_outcomes:
  assumes "kinv k" "caller c k" "mq_ok n k" "sz \<noteq> 0" "timeout < 0x7fffffff"
  shows "\<exists>a k'. rt_mq_recv n sz timeout k = Some (a, k') \<and> kinv k' \<and> mq_ok n k' \<and>
    (if mq_entry (mqs k n) \<noteq> 0
     then \<exists>w. a = Return (RT_EOK, take sz w) \<and> mq_messages (mqs k n) = w # mq_messages (mqs k' n)
     else mqs k' = mqs k \<and>
       (if timeout = 0 then a = Return (- RT_ETIMEOUT, []) \<and> k' = k
        else a = Blocked \<and> stat_of (thr k' c) = RT_THREAD_SUSPEND \<and>
          set (ls_q (tlist k') (MqQ n)) = insert c (set (ls_q (tlist k) (MqQ n))) \<and>
          (ls_in (tmlist k') (ThreadTimer c) \<noteq> None \<longleftrightarrow> timeout > 0)))"
proof (cases "mq_entry (mqs k n) = 0")
  case False
  have i: "mq_inv (mqs k n)" using assms(3) by (simp add: mq_ok_def)
  obtain w ws mq where m: "mq_messages (mqs k n) = w # ws" "mq_fetch sz (mqs k n) = Some (take sz w, mq)"
    "mq_inv mq" "mq_messages mq = ws"
    using mq_fetch_ok[OF i False, of sz] by blast
  have "rt_mq_recv n sz timeout k = Some (Return (0, take sz w), upd_mq n (\<lambda>_. mq) k)"
    using False assms(3,4) m(2) by (simp add: rt_mq_recv_def mq_recv_loop_def mq_ok_def)
  then show ?thesis
    using False m assms(1,3) by (simp add: mq_ok_def rt_object_get_type_def)
next
  case True
  show ?thesis
  proof (cases "timeout = 0")
    case t: True
    then show ?thesis using mq_recv_empty[OF assms(2,3) True assms(4)] True assms(1,3) by simp
  next
    case False
    have f: "ob_flag (objs k (OMq n)) = 0 \<or> ob_flag (objs k (OMq n)) = 1" using assms(3) by (simp add: mq_ok_def)
    obtain k0 k' where k': "wait_on (MqQ n) (ob_flag (objs k (OMq n))) c timeout (upd_thr c (\<lambda>th. th\<lparr>th_error := 0\<rparr>) k) = Some k0"
      "rt_schedule k0 = Some k'" "kinv k'" "ipc_frame k k'" "stat_of (thr k' c) = 2"
      "set (ls_q (tlist k') (MqQ n)) = insert c (set (ls_q (tlist k) (MqQ n)))"
      "ls_in (tmlist k') (ThreadTimer c) \<noteq> None \<longleftrightarrow> timeout > 0"
      using ipc_block_ok[OF assms(1,2) _ f assms(5), of "MqQ n"] by auto
    then show ?thesis
      using mq_recv_empty[OF assms(2,3) True assms(4), of timeout] True False mq_ok_frame[OF k'(4), of n] assms(3)
        ipc_frameD[OF k'(4)] by (intro exI[of _ Blocked] exI[of _ k']) (simp add: Let_def)
  qed
qed

theorem mq_recv_outcomes_witness:
  "\<exists>k'. rt_mq_recv 0 2 0 (ex_mqk ex_mq) = Some (Return (0, [1, 2]), k') \<and> mq_messages (mqs k' 0) = []"
  using mq_recv_outcomes[OF ex_mqk_facts(1,2) ex_mqk_facts(3)[OF ex_mq_facts(1)], of 2 0]
  by (auto simp: ex_mq_facts ex_mqk_facts(4))

text \<open>A message queue that \<open>rt_mq_init\<close> sets up on its own memory is empty and well formed, and has
  room for as many messages as fit the pool with their link words.\<close>

theorem mq_init_ready:
  assumes "kinv k" "rt_mq_init n name pool msg_size pool_size flag k = Some (e, k')" "flag = 0 \<or> flag = 1"
    "\<forall>i. length (msg_bytes (pool i)) = unat (mq_aligned_size msg_size)"
  shows "e = RT_EOK \<and> kinv k' \<and> mq_ok n k' \<and> mq_messages (mqs k' n) = [] \<and>
    ls_q (tlist k') (MqQ n) = [] \<and> mq_msg_size (mqs k' n) = mq_aligned_size msg_size \<and>
    mq_max_msgs (mqs k' n) = ucast (pool_size div (ucast (mq_aligned_size msg_size) + 4))"
proof -
  let ?sz = "mq_aligned_size msg_size" and ?cap = "mq_capacity (mq_aligned_size msg_size) pool_size"
  obtain k1 where k1: "rt_object_init (OMq n) 6 name k = Some k1" "ls_q (tlist k1) (MqQ n) = []" "e = 0"
    and k': "k' = (let k = upd_obj (OMq n) (\<lambda>ob. ob\<lparr>ob_flag := flag\<rparr>) k1;
      k = upd_mq n (\<lambda>mq. mq\<lparr>mq_msgs := pool, mq_msg_size := ?sz, mq_max_msgs := ?cap\<rparr>) k
      in upd_mq n (\<lambda>mq. mq\<lparr>mq_entry := 0\<rparr>) (upd_mq n mq_init_list k))"
    using assms(2) by (auto simp: rt_mq_init_def rt_ipc_object_init_def Let_def bind_eq_Some_conv)
  have o: "ipc_oid (OMq n)" by (simp add: ipc_oid_def)
  let ?mq = "(mqs k1 n)\<lparr>mq_msgs := pool, mq_msg_size := ?sz, mq_max_msgs := ?cap\<rparr>"
  have m: "mqs k' n = (mq_init_list ?mq)\<lparr>mq_entry := 0\<rparr>" using k' by (simp add: Let_def)
  have r: "mq_rep (mqs k' n) [] (rev [0..<unat ?cap])" "mq_same ?mq (mqs k' n)"
    using mq_init_list_rep[of ?mq] assms(4) unfolding m by (simp_all add: mq_same_def)
  have "kinv k1" by (rule kinv_object_init(1)[OF assms(1) o k1(1)])
  then have "kinv k'" using kinv_object_flag[OF _ o] k' by (simp add: Let_def)
  moreover have "mq_ok n k'"
    using kinv_object_init(5)[OF assms(1) o k1(1)] k' assms(3) mq_rep_unique(3)[OF r(1)]
    by (simp add: mq_ok_def rt_object_get_type_def Let_def)
  ultimately show ?thesis
    using k1 k' r mq_rep_unique(4)[OF r(1)] by (simp add: Let_def mq_same_def mq_capacity_def)
qed

theorem mq_init_ready_witness:
  "\<exists>k'. rt_mq_init 0 [0] (\<lambda>_. \<lparr>msg_next = None, msg_bytes = replicate 8 0\<rparr>) 5 40 0 ex_kernel = Some (0, k') \<and>
    mq_ok 0 k' \<and> mq_messages (mqs k' 0) = [] \<and> mq_max_msgs (mqs k' 0) = 3"
proof -
  let ?p = "\<lambda>_ :: nat. \<lparr>msg_next = None, msg_bytes = replicate 8 0\<rparr>"
  have s: "mq_aligned_size 5 = 8" by (simp add: mq_aligned_size_def RT_ALIGN_def)
  have nm: "rt_strncpy [0] 16 = Some (replicate 16 0)" by (simp add: numeral_eq_Suc)
  obtain e k' where r: "rt_mq_init 0 [0] ?p 5 40 0 ex_kernel = Some (e, k')"
    using nm by (simp add: rt_mq_init_def rt_ipc_object_init_def bind_eq_Some_conv object_init_Some Let_def
        ex_kernel_def ex_olist_def)
  have k: "kinv ex_kernel" by (rule ex_kernel_inv)
  show ?thesis using mq_init_ready[OF k r] r s by simp
qed

end
