(* ===== verification/Clock.thy ===== *)
theory Clock
  imports Thread
begin

text \<open>
  The clock interrupt: \<open>rt_tick_increase\<close> of \<open>src/clock.c\<close> and \<open>rt_timer_check\<close> of \<open>src/timer.c\<close>.

  The timeout functions of user timers are code outside the kernel: the parameter \<open>user\<close>. What the
  kernel relies on is \<open>callback_ok\<close>. The loop of \<open>rt_timer_check\<close> is a \<open>partial_function\<close>, so a result
  \<open>Some k\<close> says that it ends; it does, because every round takes a due timer off the list and a
  periodic timer that is started again is not due.
\<close>

subsection \<open>Operations\<close>

definition timer_call :: "(nat \<Rightarrow> kernel \<Rightarrow> kernel option) \<Rightarrow> tm_fn \<Rightarrow> kernel \<Rightarrow> kernel option" where
  "timer_call user fn k = (case fn of Fn_thread_timeout t \<Rightarrow> rt_thread_timeout t k | Fn_user u \<Rightarrow> user u k)"

text \<open>What follows the call of the timeout function: a periodic timer that is still active starts again.\<close>

definition timer_again :: "tmid \<Rightarrow> kernel \<Rightarrow> kernel option" where
  "timer_again t k =
     (let flag = ob_flag (objs k (OTimer t));
          k1 = upd_obj (OTimer t) (\<lambda>ob. ob\<lparr>ob_flag := ob_flag ob AND NOT RT_TIMER_FLAG_ACTIVATED\<rparr>) k
      in if flag AND RT_TIMER_FLAG_PERIODIC \<noteq> 0 \<and> flag AND RT_TIMER_FLAG_ACTIVATED \<noteq> 0
         then do { (_, k) \<leftarrow> rt_timer_start t k1; Some k }
         else Some k1)"

partial_function (option) timer_check_loop ::
  "(nat \<Rightarrow> kernel \<Rightarrow> kernel option) \<Rightarrow> u32 \<Rightarrow> kernel \<Rightarrow> kernel option" where
  "timer_check_loop user current_tick k =
     (case tm_list k of
        [] \<Rightarrow> Some k
      | t # _ \<Rightarrow>
          if current_tick - tm_timeout_tick (tmr k t) < RT_TICK_MAX_2
          then do { k \<leftarrow> timer_call user (tm_timeout_func (tmr k t)) (rt_timer_remove t k);
                    k' \<leftarrow> timer_again t k;
                    timer_check_loop user (rt_tick_get k) k' }
          else Some k)"

definition rt_timer_check :: "(nat \<Rightarrow> kernel \<Rightarrow> kernel option) \<Rightarrow> kernel \<Rightarrow> kernel option" where
  "rt_timer_check user k = timer_check_loop user (rt_tick_get k) k"

text \<open>The time slice of the running thread.\<close>

definition tick_slice :: "nat \<Rightarrow> kernel \<Rightarrow> kernel option" where
  "tick_slice thread k =
     do { let k = upd_thr thread (\<lambda>th. th\<lparr>th_remaining_tick := th_remaining_tick th - 1\<rparr>) k;
          if th_remaining_tick (thr k thread) = 0
          then do { let k = upd_thr thread (\<lambda>th. th\<lparr>th_remaining_tick := th_init_tick th\<rparr>) k;
                    (_, k) \<leftarrow> rt_thread_yield k;
                    Some k }
          else Some k }"

definition rt_tick_increase :: "(nat \<Rightarrow> kernel \<Rightarrow> kernel option) \<Rightarrow> kernel \<Rightarrow> kernel option" where
  "rt_tick_increase user k =
     do { let k = k\<lparr>rt_tick := rt_tick k + 1\<rparr>;
          thread \<leftarrow> rt_thread_self k;
          k \<leftarrow> tick_slice thread k;
          rt_timer_check user k }"

subsection \<open>Changes of timers under the invariant\<close>

text \<open>A change of flags, ticks and of the timer list that links no new thread timer.\<close>

lemma kinv_timers:
  assumes k: "kinv k" and M: "ls_inv M"
    and ob: "\<And>x. obs x = (objs k x)\<lparr>ob_flag := ob_flag (obs x)\<rparr>"
    and fl: "\<And>t. ob_flag (obs (OTimer (ThreadTimer t))) AND 2 = ob_flag (objs k (OTimer (ThreadTimer t))) AND 2"
    and lk: "\<And>t. ls_in M (ThreadTimer t) \<noteq> None \<Longrightarrow> ls_in (tmlist k) (ThreadTimer t) \<noteq> None \<and>
      ob_flag (obs (OTimer (ThreadTimer t))) AND 1 \<noteq> 0"
    and fn: "\<And>x. tm_timeout_func (tm x) = tm_timeout_func (tmr k x)"
  shows "kinv (k\<lparr>objs := obs, tmr := tm, tmlist := M\<rparr>)"
proof -
  let ?k = "k\<lparr>objs := obs, tmr := tm, tmlist := M\<rparr>"
  have ty: "ob_type (obs x) = ob_type (objs k x)" for x by (subst ob) simp
  have "obj_ok c (obs x) = obj_ok c (objs k x)" for c x by (subst ob) simp
  then have "obj_inv ?k" using kinvD(1)[OF k] by (simp add: obj_inv_def)
  moreover have "thread_inv ?k t" for t
    using kinvD(5)[OF k, of t] lk[of t] fl[of t] fn ty
    by (simp add: thread_inv_def th_inv_def alive_def rt_object_get_type_def)
  ultimately show ?thesis using kinvD[OF k] M by (simp add: kinv_def)
qed

lemma kinv_timer_remove: "kinv k \<Longrightarrow> kinv (rt_timer_remove t k)"
proof -
  assume k: "kinv k"
  have "kinv (k\<lparr>objs := objs k, tmr := tmr k, tmlist := ls_remove t (tmlist k)\<rparr>)"
    by (rule kinv_timers[OF k]) (use kinvD(3)[OF k] kinv_timer_linked(3)[OF k] in \<open>auto split: if_splits\<close>)
  then show ?thesis by (simp add: rt_timer_remove_def)
qed

text \<open>Changing the flags of a timer that is not linked, or is no thread timer, but not \<open>RT_TIMER_FLAG_PERIODIC\<close>.\<close>

lemma kinv_timer_flag:
  assumes k: "kinv k" and f: "f AND 2 = ob_flag (objs k (OTimer t)) AND 2"
    and u: "ls_in (tmlist k) t = None \<or> (\<exists>i. t = UserTimer i)"
  shows "kinv (upd_obj (OTimer t) (\<lambda>ob. ob\<lparr>ob_flag := f\<rparr>) k)"
proof -
  have "kinv (k\<lparr>objs := (objs k)(OTimer t := (objs k (OTimer t))\<lparr>ob_flag := f\<rparr>), tmr := tmr k, tmlist := tmlist k\<rparr>)"
    by (rule kinv_timers[OF k]) (use kinvD(3)[OF k] f u kinv_timer_linked(3)[OF k] in auto)
  then show ?thesis by simp
qed

lemma user_timer_start_ok:
  assumes k: "kinv k" and ty: "timer_obj (UserTimer i) k" and it: "tm_init_tick (tmr k (UserTimer i)) < 0x7fffffff"
  shows "\<exists>k'. rt_timer_start (UserTimer i) k = Some (0, k') \<and> kinv k' \<and>
    (\<forall>x. x \<noteq> OTimer (UserTimer i) \<longrightarrow> objs k' x = objs k x) \<and>
    ob_type (objs k' (OTimer (UserTimer i))) = ob_type (objs k (OTimer (UserTimer i))) \<and>
    ob_flag (objs k' (OTimer (UserTimer i))) = ob_flag (objs k (OTimer (UserTimer i))) AND NOT 1 OR 1 \<and>
    tmr k' = (tmr k)(UserTimer i := (tmr k (UserTimer i))
      \<lparr>tm_timeout_tick := rt_tick k + tm_init_tick (tmr k (UserTimer i))\<rparr>) \<and>
    thr k' = thr k \<and> rt_tick k' = rt_tick k \<and> rt_current_thread k' = rt_current_thread k"
proof -
  let ?tm = "UserTimer i"
  let ?obs = "(objs k)(OTimer ?tm := (objs k (OTimer ?tm))\<lparr>ob_flag := ob_flag (objs k (OTimer ?tm)) AND NOT 1 OR 1\<rparr>)"
  let ?tmr = "(tmr k)(?tm := (tmr k ?tm)\<lparr>tm_timeout_tick := rt_tick k + tm_init_tick (tmr k ?tm)\<rparr>)"
  obtain k' where s: "rt_timer_start ?tm k = Some (0, k')" "k' = k\<lparr>objs := ?obs, tmr := ?tmr, tmlist := tmlist k'\<rparr>"
    "ls_inv (tmlist k')" "ls_in (tmlist k') = (ls_in (tmlist k))(?tm := Some ())"
    using timer_start_Some[OF kinvD(3)[OF k] ty it] by auto
  have "kinv (k\<lparr>objs := ?obs, tmr := ?tmr, tmlist := tmlist k'\<rparr>)"
    by (rule kinv_timers[OF k s(3)]) (use s(4) kinv_timer_linked(3)[OF k] in auto)
  then have "kinv k'" using s(2) by simp
  moreover have "objs k' = ?obs" "tmr k' = ?tmr" "thr k' = thr k" "rt_tick k' = rt_tick k"
    "rt_current_thread k' = rt_current_thread k" by (subst s(2), simp)+
  ultimately show ?thesis using s(1) by simp
qed

subsection \<open>What a round of the loop keeps\<close>

definition tm_linked :: "tmid \<Rightarrow> kernel \<Rightarrow> bool" where
  "tm_linked t k \<longleftrightarrow> ls_in (tmlist k) t \<noteq> None"

text \<open>
  What happens to threads while timers fire: ready threads stay ready, and a thread whose timer is
  linked is made ready or still has its timer.
\<close>

definition timer_frame :: "kernel \<Rightarrow> kernel \<Rightarrow> bool" where
  "timer_frame k k' \<longleftrightarrow> rt_tick k' = rt_tick k \<and> rt_current_thread k' \<noteq> None \<and>
     (\<forall>x. ready_thread k x \<longrightarrow> ready_thread k' x) \<and>
     (\<forall>x. tm_linked (ThreadTimer x) k \<longrightarrow> ready_thread k' x \<or>
        tm_linked (ThreadTimer x) k' \<and> tm_timeout_tick (tmr k' (ThreadTimer x)) = tm_timeout_tick (tmr k (ThreadTimer x)))"

lemma timer_frame_refl: "rt_current_thread k \<noteq> None \<Longrightarrow> timer_frame k k"
  by (simp add: timer_frame_def)

lemma timer_frame_trans: "timer_frame a b \<Longrightarrow> timer_frame b c \<Longrightarrow> timer_frame a c"
  by (simp add: timer_frame_def) metis

text \<open>
  The contract of the user's timeout functions: they return, keep the kernel well formed, may wake
  threads and take timers off the list, and leave the blocks of timers alone.
\<close>

definition callback_ok :: "(nat \<Rightarrow> kernel \<Rightarrow> kernel option) \<Rightarrow> bool" where
  "callback_ok user \<longleftrightarrow> (\<forall>u k. kinv k \<and> rt_current_thread k \<noteq> None \<longrightarrow>
     (\<exists>k'. user u k = Some k' \<and> kinv k' \<and> timer_frame k k' \<and> tmr k' = tmr k \<and>
        (\<exists>P. tm_list k' = filter P (tm_list k)) \<and>
        (\<forall>i. objs k' (OTimer (UserTimer i)) = objs k (OTimer (UserTimer i)))))"

text \<open>
  The user timers on the list call the user's functions, and a periodic one has a time that is not 0
  and so short that, from \<open>D\<close> ticks before now, it lies within half the tick range.
\<close>

definition user_timers_ok :: "nat \<Rightarrow> kernel \<Rightarrow> bool" where
  "user_timers_ok D k \<longleftrightarrow> (\<forall>i. UserTimer i \<in> set (tm_list k) \<longrightarrow>
     timer_obj (UserTimer i) k \<and> (\<exists>u. tm_timeout_func (tmr k (UserTimer i)) = Fn_user u) \<and>
     (ob_flag (objs k (OTimer (UserTimer i))) AND 2 \<noteq> 0 \<longrightarrow>
        0 < unat (tm_init_tick (tmr k (UserTimer i))) \<and>
        D + unat (tm_init_tick (tmr k (UserTimer i))) < 0x7fffffff))"

definition check_inv :: "u32 \<Rightarrow> nat \<Rightarrow> kernel \<Rightarrow> bool" where
  "check_inv b D k \<longleftrightarrow> kinv k \<and> rt_current_thread k \<noteq> None \<and> timers_sorted b k \<and>
     unat (rt_tick k - b) = D \<and> D < 0x7fffffff \<and> user_timers_ok D k"

definition due :: "u32 \<Rightarrow> nat \<Rightarrow> kernel \<Rightarrow> nat" where
  "due b D k = length (filter (\<lambda>t. tm_left k b t \<le> D) (tm_list k))"

lemma tm_linked_iff: "kinv k \<Longrightarrow> tm_linked t k \<longleftrightarrow> t \<in> set (tm_list k)"
  using ls_in_iff[OF kinvD(3), of k t "()"] by (auto simp: tm_linked_def tm_list_def)

text \<open>The test of the loop: a timer is due when its timeout is at most now, wrapped.\<close>

lemma due_iff:
  assumes "check_inv b D k" "t \<in> set (tm_list k)"
  shows "rt_tick k - tm_timeout_tick (tmr k t) < 0x7fffffff \<longleftrightarrow> tm_left k b t \<le> D"
proof -
  define d e where "d = rt_tick k - b" and "e = tm_timeout_tick (tmr k t) - b"
  have xy: "rt_tick k - tm_timeout_tick (tmr k t) = d - e" by (simp add: d_def e_def)
  have d: "unat d = D" "D < 0x7fffffff" and e: "tm_left k b t = unat e" "unat e < 0x7fffffff"
    using assms by (auto simp: check_inv_def timers_sorted_def d_def e_def tm_left_def)
  show ?thesis
  proof (cases "e \<le> d")
    case True
    then show ?thesis using d e unfolding xy word_less_nat_alt by (simp add: unat_sub word_le_nat_alt)
  next
    case False
    then have "unat (d - e) = 2 ^ 32 + unat d - unat e" "unat d < unat e"
      by (simp_all add: unat_sub_if_size word_size word_le_nat_alt)
    then show ?thesis using d e unfolding xy word_less_nat_alt by simp
  qed
qed

lemma sorted_head_due:
  assumes "sorted (map f (x # xs))" "\<not> f x \<le> (n :: nat)" "y \<in> set (x # xs)"
  shows "\<not> f y \<le> n"
  using assms by auto

lemma filter_around:
  "ys @ zs = xs \<Longrightarrow> \<forall>y \<in> set xs. Q y = R y \<Longrightarrow> \<not> Q x \<Longrightarrow> filter Q (ys @ x # zs) = filter R xs"
  by (auto intro!: filter_cong arg_cong2[of _ _ _ _ append])

lemma timer_start_due:
  assumes c: "check_inv b D k" and ty: "timer_obj (UserTimer i) k"
    and it: "0 < unat (tm_init_tick (tmr k (UserTimer i)))"
      "D + unat (tm_init_tick (tmr k (UserTimer i))) < 0x7fffffff"
    and u: "UserTimer i \<notin> set (tm_list k)" and fn: "tm_timeout_func (tmr k (UserTimer i)) = Fn_user v"
  shows "\<exists>k'. rt_timer_start (UserTimer i) k = Some (0, k') \<and> check_inv b D k' \<and> timer_frame k k' \<and>
    due b D k' = due b D k"
proof -
  let ?tm = "UserTimer i"
  have k: "kinv k" "timers_sorted b k" "unat (rt_tick k - b) = D" using c by (auto simp: check_inv_def)
  have i: "tm_init_tick (tmr k ?tm) < 0x7fffffff" using it by (simp add: word_less_nat_alt)
  have e: "rt_tick k + tm_init_tick (tmr k ?tm) - b = (rt_tick k - b) + tm_init_tick (tmr k ?tm)" by simp
  have l: "unat (rt_tick k + tm_init_tick (tmr k ?tm) - b) = D + unat (tm_init_tick (tmr k ?tm))"
    unfolding e using it(2) k(3) by (subst unat_add_lem[THEN iffD1]) simp_all
  obtain k' where s: "rt_timer_start ?tm k = Some (0, k')" "timers_sorted b k'"
    "tm_left k' b ?tm = D + unat (tm_init_tick (tmr k ?tm))"
    "tm_list k' = takeWhile (\<lambda>t. tm_left k b t \<le> D + unat (tm_init_tick (tmr k ?tm))) (remove1 ?tm (tm_list k)) @ ?tm #
      dropWhile (\<lambda>t. tm_left k b t \<le> D + unat (tm_init_tick (tmr k ?tm))) (remove1 ?tm (tm_list k))"
    using timer_start_sorted[OF kinvD(3)[OF k(1)] ty i k(2), unfolded l, OF it(2)] by blast
  obtain k2 where f: "rt_timer_start ?tm k = Some (0, k2)" "kinv k2"
    "\<forall>x. x \<noteq> OTimer ?tm \<longrightarrow> objs k2 x = objs k x"
    "ob_type (objs k2 (OTimer ?tm)) = ob_type (objs k (OTimer ?tm))"
    "ob_flag (objs k2 (OTimer ?tm)) = ob_flag (objs k (OTimer ?tm)) AND NOT 1 OR 1"
    "tmr k2 = (tmr k)(?tm := (tmr k ?tm)\<lparr>tm_timeout_tick := rt_tick k + tm_init_tick (tmr k ?tm)\<rparr>)"
    "thr k2 = thr k" "rt_tick k2 = rt_tick k" "rt_current_thread k2 = rt_current_thread k"
    using user_timer_start_ok[OF k(1) ty i] by blast
  have kk: "k2 = k'" using s(1) f(1) by simp
  note f = f[unfolded kk]
  have tl: "tm_list k' = takeWhile (\<lambda>t. tm_left k b t \<le> D + unat (tm_init_tick (tmr k ?tm))) (tm_list k) @ ?tm #
      dropWhile (\<lambda>t. tm_left k b t \<le> D + unat (tm_init_tick (tmr k ?tm))) (tm_list k)"
    using s(4) u by (simp add: remove1_idem)
  then have st: "set (tm_list k') = insert ?tm (set (tm_list k))"
    by (simp only: set_append list.set Un_insert_right set_append[symmetric] takeWhile_dropWhile_id)
  have left: "tm_left k' b t = tm_left k b t" if "t \<in> set (tm_list k)" for t
    using that f(6) u by (auto simp: tm_left_def)
  have "filter (\<lambda>t. tm_left k' b t \<le> D) (tm_list k') = filter (\<lambda>t. tm_left k b t \<le> D) (tm_list k)"
    unfolding tl by (rule filter_around) (use s(3) it(1) left in simp_all)
  then have d: "due b D k' = due b D k" by (simp add: due_def)
  have "user_timers_ok D k'"
    using c it ty fn st f(3-6) by (auto simp: user_timers_ok_def check_inv_def timer_obj_def rt_object_get_type_def flag_bits)
  then have "check_inv b D k'" using c f(2,8,9) s(2) by (simp add: check_inv_def)
  moreover have "timer_frame k k'"
    using c f st tm_linked_iff[OF k(1)] tm_linked_iff[OF f(2)]
    by (auto simp: timer_frame_def check_inv_def ready_thread_def alive_def rt_object_get_type_def)
  ultimately show ?thesis using s(1) d by blast
qed

text \<open>What the loop does after the timeout function, for a timer that is off the list.\<close>

lemma timer_again_ok:
  assumes c: "check_inv b D k" and u: "\<not> tm_linked t k"
    and p: "\<And>x. t = ThreadTimer x \<Longrightarrow> ob_flag (objs k (OTimer t)) AND 2 = 0"
    and ut: "\<And>i. t = UserTimer i \<Longrightarrow> timer_obj t k \<and> (\<exists>v. tm_timeout_func (tmr k t) = Fn_user v) \<and>
      (ob_flag (objs k (OTimer t)) AND 2 \<noteq> 0 \<longrightarrow>
        0 < unat (tm_init_tick (tmr k t)) \<and> D + unat (tm_init_tick (tmr k t)) < 0x7fffffff)"
  shows "\<exists>k'. timer_again t k = Some k' \<and> check_inv b D k' \<and> timer_frame k k' \<and> due b D k' = due b D k"
proof -
  let ?f = "ob_flag (objs k (OTimer t)) AND NOT 1"
  let ?k = "upd_obj (OTimer t) (\<lambda>ob. ob\<lparr>ob_flag := ?f\<rparr>) k"
  have k: "kinv k" using c by (simp add: check_inv_def)
  have "?f AND 2 = ob_flag (objs k (OTimer t)) AND 2" by (simp add: flag_bits)
  then have k1: "kinv ?k" using kinv_timer_flag[OF k, of ?f t] u unfolding tm_linked_def by blast
  have nl: "t \<notin> set (tm_list k)" using u tm_linked_iff[OF k] by simp
  have "tm_left ?k = tm_left k" by (simp add: tm_left_def fun_eq_iff)
  then have c1: "check_inv b D ?k" "due b D ?k = due b D k"
    using c k1 nl by (auto simp: check_inv_def timers_sorted_def tm_list_def due_def
        user_timers_ok_def timer_obj_def rt_object_get_type_def)
  have f1: "timer_frame k ?k"
    using c by (auto simp: timer_frame_def check_inv_def ready_thread_def alive_def rt_object_get_type_def tm_linked_def)
  show ?thesis
  proof (cases "ob_flag (objs k (OTimer t)) AND 2 \<noteq> 0 \<and> ob_flag (objs k (OTimer t)) AND 1 \<noteq> 0")
    case True
    then obtain i where t: "t = UserTimer i" using p by (cases t) auto
    have ty: "timer_obj (UserTimer i) ?k" using ut[OF t] t by (simp add: timer_obj_def rt_object_get_type_def)
    obtain v where v: "tm_timeout_func (tmr ?k (UserTimer i)) = Fn_user v" using ut[OF t] t by auto
    have it: "0 < unat (tm_init_tick (tmr ?k (UserTimer i)))" "D + unat (tm_init_tick (tmr ?k (UserTimer i))) < 0x7fffffff"
      using ut[OF t] True t by simp_all
    have n1: "UserTimer i \<notin> set (tm_list ?k)" using nl t by (simp add: tm_list_def)
    obtain k' where k': "rt_timer_start (UserTimer i) ?k = Some (0, k')" "check_inv b D k'" "timer_frame ?k k'"
      "due b D k' = due b D ?k"
      using timer_start_due[OF c1(1) ty it n1 v] by blast
    have "timer_again t k = Some k'"
      using True k'(1) unfolding timer_again_def t by (simp add: Let_def)
    then show ?thesis using k' c1(2) timer_frame_trans[OF f1 k'(3)] by auto
  next
    case False
    have "timer_again t k = Some ?k" using False by (auto simp: timer_again_def Let_def)
    then show ?thesis using c1 f1 by blast
  qed
qed

text \<open>One round of the loop takes a due timer off the list.\<close>

lemma timer_round:
  assumes c: "check_inv b D k" and cb: "callback_ok user" and h: "tm_list k = t # ts" and d: "tm_left k b t \<le> D"
  shows "\<exists>k2 k'. timer_call user (tm_timeout_func (tmr k t)) (rt_timer_remove t k) = Some k2 \<and>
    timer_again t k2 = Some k' \<and> rt_tick k2 = rt_tick k \<and> check_inv b D k' \<and> timer_frame k k' \<and>
    due b D k' < due b D k"
proof -
  let ?k1 = "rt_timer_remove t k"
  have k: "kinv k" "timers_sorted b k" "unat (rt_tick k - b) = D" "user_timers_ok D k" "rt_current_thread k \<noteq> None"
    using c by (auto simp: check_inv_def)
  have k1: "kinv ?k1" by (rule kinv_timer_remove[OF k(1)])
  have l1: "tm_list ?k1 = ts" using h by (simp add: rt_timer_remove_def tm_list_def ls_q_remove[OF kinvD(3)[OF k(1)]])
  have f1: "tmr ?k1 = tmr k" "objs ?k1 = objs k" "rt_tick ?k1 = rt_tick k" "rt_current_thread ?k1 = rt_current_thread k"
    "thr ?k1 = thr k" "tlist ?k1 = tlist k" by (simp_all add: rt_timer_remove_def)
  have dist: "t \<notin> set ts" using ls_inv_distinct[OF kinvD(3)[OF k(1)], of "()"] h by (simp add: tm_list_def)
  have fin: "\<exists>k'. timer_again t k2 = Some k' \<and> check_inv b D k' \<and> timer_frame k2 k' \<and> due b D k' < due b D k"
    if k2: "kinv k2" "rt_current_thread k2 \<noteq> None" "rt_tick k2 = rt_tick k" "tmr k2 = tmr k"
      "tm_list k2 = filter P ts" "\<And>i. objs k2 (OTimer (UserTimer i)) = objs k (OTimer (UserTimer i))"
      "\<And>x. t = ThreadTimer x \<Longrightarrow> ob_flag (objs k2 (OTimer t)) AND 2 = 0" for k2 P
  proof -
    have lf: "tm_left k2 = tm_left k" using k2(4) by (simp add: tm_left_def fun_eq_iff)
    have c2: "check_inv b D k2"
      using c k2 h lf by (auto simp: check_inv_def timers_sorted_def sorted_filter user_timers_ok_def
          timer_obj_def rt_object_get_type_def)
    have nl: "\<not> tm_linked t k2" using tm_linked_iff[OF k2(1)] k2(5) dist by simp
    have "length (filter (\<lambda>t. tm_left k b t \<le> D) (filter P ts)) \<le> length (filter (\<lambda>t. tm_left k b t \<le> D) ts)"
      by (induction ts) auto
    then have "due b D k2 < due b D k" using k2(5) h d by (simp add: due_def lf)
    moreover have "timer_obj t k2 \<and> (\<exists>v. tm_timeout_func (tmr k2 t) = Fn_user v) \<and>
        (ob_flag (objs k2 (OTimer t)) AND 2 \<noteq> 0 \<longrightarrow>
          0 < unat (tm_init_tick (tmr k2 t)) \<and> D + unat (tm_init_tick (tmr k2 t)) < 0x7fffffff)" if "t = UserTimer i" for i
      using k(4) h k2(4,6) that by (auto simp: user_timers_ok_def timer_obj_def rt_object_get_type_def)
    ultimately show ?thesis using timer_again_ok[OF c2 nl k2(7)] by fastforce
  qed
  have r1: "timer_frame k k2" if "timer_frame ?k1 k2" "\<And>x. t = ThreadTimer x \<Longrightarrow> ready_thread k2 x" for k2
  proof -
    have "tm_linked x ?k1 = (x \<noteq> t \<and> tm_linked x k)" for x
      using tm_linked_iff[OF k(1)] tm_linked_iff[OF k1] l1 h dist by auto
    then show ?thesis using that f1 unfolding timer_frame_def
      by (simp add: ready_thread_def alive_def rt_object_get_type_def) metis
  qed
  show ?thesis
  proof (cases t)
    case (UserTimer i)
    then obtain v where v: "tm_timeout_func (tmr k t) = Fn_user v"
      using k(4) h by (auto simp: user_timers_ok_def)
    obtain k2 P where k2: "user v ?k1 = Some k2" "kinv k2" "timer_frame ?k1 k2" "tmr k2 = tmr k"
      "tm_list k2 = filter P ts" "\<forall>i. objs k2 (OTimer (UserTimer i)) = objs k (OTimer (UserTimer i))"
      using cb k1 k(5) f1 l1 unfolding callback_ok_def by metis
    have "rt_current_thread k2 \<noteq> None" "rt_tick k2 = rt_tick k" using k2(3) f1 by (auto simp: timer_frame_def)
    then obtain k' where "timer_again t k2 = Some k'" "check_inv b D k'" "timer_frame k2 k'" "due b D k' < due b D k"
      using fin[OF k2(2) _ _ k2(4,5)] k2(6) UserTimer by auto
    then show ?thesis
      using k2(1) v timer_frame_trans[OF r1[OF k2(3)]] UserTimer \<open>rt_tick k2 = rt_tick k\<close>
      by (auto simp: timer_call_def)
  next
    case (ThreadTimer x)
    then have "ls_in (tmlist k) (ThreadTimer x) \<noteq> None" using tm_linked_iff[OF k(1), of t] h by (simp add: tm_linked_def)
    then have a: "alive k x" "stat_of (thr k x) = 2" using kinv_timer_linked[OF k(1)] by blast+
    then have fn: "tm_timeout_func (tmr k t) = Fn_thread_timeout x" and fl: "ob_flag (objs k (OTimer t)) AND 2 = 0"
      using kinvD(5)[OF k(1), of x] ThreadTimer by (auto simp: thread_inv_def th_inv_def)
    obtain c where cu: "rt_current_thread ?k1 = Some c" using k(5) f1(4) by auto
    have a1: "alive ?k1 x" "stat_of (thr ?k1 x) = 2" using a f1 by (simp_all add: alive_def rt_object_get_type_def)
    have "ls_in (tmlist ?k1) (ThreadTimer x) = None" using ThreadTimer by (simp add: rt_timer_remove_def)
    then obtain k0 k2 where s: "rt_thread_timeout x ?k1 = Some k2" "kinv k2" "ipc_frame ?k1 k0" "sched_frame k0 k2"
      "rt_current_thread k0 = Some c" "thr k0 = (thr ?k1)(x := set_stat 1 ((thr ?k1 x)\<lparr>th_error := - 2\<rparr>))"
      "tmr k0 = tmr ?k1" "tmlist k0 = tmlist ?k1" "objs k0 = objs ?k1"
      using timeout_ok[OF k1 cu a1] by auto
    note sf = sched_frameD[OF s(4)]
    have e: "tmr k2 = tmr k" "objs k2 = objs k" "tmlist k2 = tmlist ?k1" "rt_tick k2 = rt_tick k"
      "rt_current_thread k2 \<noteq> None" "thr k2 = thr k0"
      using sf(1,3,4,5,6,17) s(5,7-9) f1 ipc_frameD(7)[OF s(3)] by simp_all
    have l2: "tm_list k2 = filter (\<lambda>_. True) ts" using l1 e(3) by (simp add: tm_list_def)
    have fr: "timer_frame ?k1 k2"
      using e s(6) f1 by (simp add: timer_frame_def tm_linked_def ready_thread_def alive_def rt_object_get_type_def)
    have rx: "ready_thread k2 y" if "t = ThreadTimer y" for y
      using that ThreadTimer e s(6) a f1 by (simp add: ready_thread_def alive_def rt_object_get_type_def)
    obtain k' where "timer_again t k2 = Some k'" "check_inv b D k'" "timer_frame k2 k'" "due b D k' < due b D k"
      using fin[OF s(2) e(5,4,1) l2] e(2) fl by auto
    then show ?thesis
      using s(1) fn e(4) timer_frame_trans[OF r1[OF fr rx]] by (auto simp: timer_call_def)
  qed
qed

text \<open>The loop ends, and then no timer on the list is due.\<close>

lemma timer_check_loop_ok:
  assumes "check_inv b D k" "callback_ok user"
  shows "\<exists>k'. timer_check_loop user (rt_tick k) k = Some k' \<and> check_inv b D k' \<and> timer_frame k k' \<and>
    (\<forall>t \<in> set (tm_list k'). D < tm_left k' b t)"
  using assms(1)
proof (induction "due b D k" arbitrary: k rule: less_induct)
  case less
  have cur: "rt_current_thread k \<noteq> None" using less.prems by (simp add: check_inv_def)
  show ?case
  proof (cases "tm_list k")
    case Nil
    then show ?thesis using less.prems timer_frame_refl[OF cur]
      by (intro exI[of _ k]) (simp add: timer_check_loop.simps)
  next
    case (Cons t ts)
    note di = due_iff[OF less.prems, of t]
    show ?thesis
    proof (cases "tm_left k b t \<le> D")
      case True
      obtain k2 k' where s: "timer_call user (tm_timeout_func (tmr k t)) (rt_timer_remove t k) = Some k2"
        "timer_again t k2 = Some k'" "rt_tick k2 = rt_tick k" "check_inv b D k'" "timer_frame k k'" "due b D k' < due b D k"
        using timer_round[OF less.prems assms(2) Cons True] by blast
      have "rt_tick k' = rt_tick k" using s(5) by (simp add: timer_frame_def)
      moreover have "timer_check_loop user (rt_tick k) k = timer_check_loop user (rt_tick k2) k'"
        using Cons True di s(1,2) by (subst timer_check_loop.simps) (simp add: rt_tick_get_def)
      ultimately show ?thesis using less.hyps[OF s(6,4)] s(3) timer_frame_trans[OF s(5)] by auto
    next
      case False
      have "timer_check_loop user (rt_tick k) k = Some k"
        using Cons False di by (subst timer_check_loop.simps) simp
      moreover have "D < tm_left k b x" if "x \<in> set (tm_list k)" for x
        using sorted_head_due[of "tm_left k b" t ts D x] False less.prems Cons that
        by (auto simp: check_inv_def timers_sorted_def not_le)
      ultimately show ?thesis using less.prems timer_frame_refl[OF cur] by blast
    qed
  qed
qed

subsection \<open>The clock tick\<close>

lemma tick_slice_ok:
  assumes k: "kinv k" and c: "rt_current_thread k = Some c"
  shows "\<exists>k'. tick_slice c k = Some k' \<and> kinv k' \<and> rt_current_thread k' \<noteq> None \<and> rt_tick k' = rt_tick k \<and>
    tmr k' = tmr k \<and> tmlist k' = tmlist k \<and> objs k' = objs k \<and> (\<forall>x. ready_thread k' x = ready_thread k x)"
proof -
  let ?k1 = "upd_thr c (\<lambda>th. th\<lparr>th_remaining_tick := th_remaining_tick th - 1\<rparr>) k"
  let ?k2 = "upd_thr c (\<lambda>th. th\<lparr>th_remaining_tick := th_init_tick th\<rparr>) ?k1"
  have k1: "kinv ?k1" using kinv_thr_same[OF k] by simp
  have k2: "kinv ?k2" using kinv_thr_same[OF k1, of "(thr ?k1 c)\<lparr>th_remaining_tick := th_init_tick (thr ?k1 c)\<rparr>" c]
    by (simp add: same_sched_def stat_of_def)
  show ?thesis
  proof (cases "th_remaining_tick (thr k c) - 1 = 0")
    case True
    obtain k' where s: "rt_schedule ?k2 = Some k'" "kinv k'" "sched_frame ?k2 k'"
      using schedule_ok[OF k2, of c] c by auto
    have "tick_slice c k = Some k'"
      using True s(1) by (simp add: tick_slice_def rt_thread_yield_def Let_def)
    then show ?thesis using s(2) sched_frameD[OF s(3)] c
      by (intro exI[of _ k']) (simp add: ready_thread_def alive_def rt_object_get_type_def)
  next
    case False
    then have "tick_slice c k = Some ?k1" by (simp add: tick_slice_def Let_def)
    then show ?thesis using k1 c
      by (intro exI[of _ ?k1]) (simp add: ready_thread_def alive_def rt_object_get_type_def)
  qed
qed

text \<open>The state between two ticks.\<close>

definition tick_ok :: "kernel \<Rightarrow> bool" where
  "tick_ok k \<longleftrightarrow> kinv k \<and> rt_current_thread k \<noteq> None \<and> timers_sorted (rt_tick k) k \<and> user_timers_ok 1 k"

lemma shift_base:
  assumes "timers_sorted b k" "\<forall>t \<in> set (tm_list k). 1 \<le> tm_left k b t"
  shows "timers_sorted (b + 1) k" and "t \<in> set (tm_list k) \<Longrightarrow> tm_left k (b + 1) t = tm_left k b t - 1"
proof -
  have l: "tm_left k (b + 1) t = tm_left k b t - 1" if "t \<in> set (tm_list k)" for t
  proof -
    have "tm_timeout_tick (tmr k t) - b \<noteq> 0" using assms(2) that by (auto simp: tm_left_def)
    then have "unat (tm_timeout_tick (tmr k t) - b - 1) = unat (tm_timeout_tick (tmr k t) - b) - 1"
      by (rule unat_minus_one)
    then show ?thesis by (simp add: tm_left_def diff_diff_eq)
  qed
  then show "t \<in> set (tm_list k) \<Longrightarrow> tm_left k (b + 1) t = tm_left k b t - 1" .
  have e: "map (tm_left k (b + 1)) (tm_list k) = map (\<lambda>n. n - 1) (map (tm_left k b) (tm_list k))"
    using l by simp
  have "sorted (map (\<lambda>n. n - 1) ns)" if "sorted ns" for ns :: "nat list"
    using that by (induction ns) (auto intro: diff_le_mono)
  then have "sorted (map (\<lambda>n. n - 1) (map (tm_left k b) (tm_list k)))" using assms(1) by (simp only: timers_sorted_def)
  moreover have "\<forall>t \<in> set (tm_list k). tm_left k (b + 1) t < 0x7fffffff"
    using assms(1) l by (auto simp: timers_sorted_def)
  ultimately show "timers_sorted (b + 1) k" unfolding timers_sorted_def e ..
qed

lemma tick_increase_ok:
  assumes t: "tick_ok k" and cb: "callback_ok user"
  shows "\<exists>k'. rt_tick_increase user k = Some k' \<and> tick_ok k' \<and> rt_tick k' = rt_tick k + 1 \<and>
    (\<forall>x. ready_thread k x \<longrightarrow> ready_thread k' x) \<and>
    (\<forall>t \<in> set (tm_list k'). 1 \<le> tm_left k' (rt_tick k') t) \<and>
    (\<forall>x. tm_linked (ThreadTimer x) k \<longrightarrow> ready_thread k' x \<or>
       tm_linked (ThreadTimer x) k' \<and> tm_timeout_tick (tmr k' (ThreadTimer x)) = tm_timeout_tick (tmr k (ThreadTimer x)))"
proof -
  let ?k0 = "k\<lparr>rt_tick := rt_tick k + 1\<rparr>" and ?b = "rt_tick k"
  obtain c where c: "rt_current_thread k = Some c" using t by (auto simp: tick_ok_def)
  have k0: "kinv ?k0" "rt_current_thread ?k0 = Some c" using t c by (simp_all add: tick_ok_def)
  obtain k1 where s: "tick_slice c ?k0 = Some k1" "kinv k1" "rt_current_thread k1 \<noteq> None" "rt_tick k1 = rt_tick k + 1"
    "tmr k1 = tmr k" "tmlist k1 = tmlist k" "objs k1 = objs k" "\<And>x. ready_thread k1 x = ready_thread ?k0 x"
    using tick_slice_ok[OF k0] by auto
  have l1: "tm_list k1 = tm_list k" "tm_left k1 = tm_left k"
    using s(5,6) by (simp_all add: tm_list_def tm_left_def fun_eq_iff)
  have "check_inv ?b 1 k1"
    using t s l1 by (simp add: check_inv_def tick_ok_def timers_sorted_def user_timers_ok_def timer_obj_def
        rt_object_get_type_def)
  then obtain k' where k': "timer_check_loop user (rt_tick k1) k1 = Some k'" "check_inv ?b 1 k'" "timer_frame k1 k'"
    "\<forall>t \<in> set (tm_list k'). 1 < tm_left k' ?b t"
    using timer_check_loop_ok[OF _ cb] by blast
  have tick: "rt_tick k' = ?b + 1" using k'(3) s(4) by (simp add: timer_frame_def)
  have le: "timers_sorted ?b k'" "\<forall>t \<in> set (tm_list k'). 1 \<le> tm_left k' ?b t" using k'(2,4) by (auto simp: check_inv_def)
  note sb = shift_base[OF le]
  have "rt_tick_increase user k = Some k'"
    using c s(1) k'(1) by (simp add: rt_tick_increase_def rt_thread_self_def rt_timer_check_def rt_tick_get_def)
  moreover have "tick_ok k'" using k'(2) sb(1) by (simp add: tick_ok_def check_inv_def tick)
  moreover have "1 \<le> tm_left k' (rt_tick k') t" if "t \<in> set (tm_list k')" for t
    using k'(4) sb(2)[OF that] that by (fastforce simp: tick)
  moreover have "ready_thread ?k0 x = ready_thread k x" "tm_linked y k1 = tm_linked y k" for x y
    using s(6) by (simp_all add: ready_thread_def alive_def rt_object_get_type_def tm_linked_def)
  ultimately show ?thesis using k'(3) s(5,8) tick unfolding timer_frame_def by simp
qed

text \<open>A number of ticks.\<close>

fun ticks :: "(nat \<Rightarrow> kernel \<Rightarrow> kernel option) \<Rightarrow> nat \<Rightarrow> kernel \<Rightarrow> kernel option" where
  "ticks user 0 k = Some k"
| "ticks user (Suc n) k = do { k \<leftarrow> rt_tick_increase user k; ticks user n k }"

lemma ticks_ok:
  "tick_ok k \<Longrightarrow> callback_ok user \<Longrightarrow> \<exists>k'. ticks user n k = Some k' \<and> tick_ok k' \<and>
    (\<forall>x. ready_thread k x \<longrightarrow> ready_thread k' x)"
proof (induction n arbitrary: k)
  case (Suc n)
  then obtain k1 where "rt_tick_increase user k = Some k1" "tick_ok k1" "\<forall>x. ready_thread k x \<longrightarrow> ready_thread k1 x"
    using tick_increase_ok by blast
  then show ?case using Suc.IH[of k1] Suc.prems(2) by auto
qed simp

lemma ticks_wake:
  assumes "tick_ok k" "callback_ok user" "tm_linked (ThreadTimer x) k" "tm_left k (rt_tick k) (ThreadTimer x) \<le> n" "0 < n"
  shows "\<exists>k'. ticks user n k = Some k' \<and> tick_ok k' \<and> ready_thread k' x"
  using assms(1,3,4,5)
proof (induction n arbitrary: k)
  case (Suc n)
  obtain k1 where k1: "rt_tick_increase user k = Some k1" "tick_ok k1" "rt_tick k1 = rt_tick k + 1"
    "\<forall>t \<in> set (tm_list k1). 1 \<le> tm_left k1 (rt_tick k1) t"
    "ready_thread k1 x \<or>
      tm_linked (ThreadTimer x) k1 \<and> tm_timeout_tick (tmr k1 (ThreadTimer x)) = tm_timeout_tick (tmr k (ThreadTimer x))"
    using tick_increase_ok[OF Suc.prems(1) assms(2)] Suc.prems(2) by blast
  show ?case
  proof (cases "ready_thread k1 x")
    case True
    then show ?thesis using ticks_ok[OF k1(2) assms(2), of n] k1(1) by auto
  next
    case False
    then have l: "tm_linked (ThreadTimer x) k1"
      "tm_timeout_tick (tmr k1 (ThreadTimer x)) = tm_timeout_tick (tmr k (ThreadTimer x))" using k1(5) by auto
    have "ThreadTimer x \<in> set (tm_list k1)" using tm_linked_iff l(1) k1(2) by (auto simp: tick_ok_def)
    then have p: "1 \<le> tm_left k1 (rt_tick k1) (ThreadTimer x)" using k1(4) by blast
    let ?a = "tm_timeout_tick (tmr k (ThreadTimer x)) - rt_tick k"
    have e: "tm_left k1 (rt_tick k1) (ThreadTimer x) = unat (?a - 1)"
      using l(2) k1(3) by (simp add: tm_left_def diff_diff_eq)
    have "tm_left k1 (rt_tick k1) (ThreadTimer x) < 0x7fffffff"
      using k1(2) \<open>ThreadTimer x \<in> _\<close> by (simp add: tick_ok_def timers_sorted_def)
    moreover have "unat (- 1 :: u32) = 0xffffffff" by (simp add: unsigned_minus_1_eq_mask mask_eq_exp_minus_1)
    ultimately have "?a \<noteq> 0" unfolding e by auto
    then have "unat (?a - 1) = unat ?a - 1" by (rule unat_minus_one)
    then have "tm_left k1 (rt_tick k1) (ThreadTimer x) \<le> n" "0 < n"
      using e p Suc.prems(3) by (simp_all add: tm_left_def)
    then show ?thesis using Suc.IH[OF k1(2) l(1)] k1(1) by simp
  qed
qed simp

subsection \<open>Properties\<close>

text \<open>Thread 1 sleeps, and its timer ends at tick \<open>n\<close>; the tick is 0.\<close>

definition ex_sleep :: "u32 \<Rightarrow> kernel" where
  "ex_sleep n = (ex_wait (MqQ 0))
     \<lparr>objs := (objs (ex_wait (MqQ 0)))(OTimer (ThreadTimer 1) :=
        (objs (ex_wait (MqQ 0)) (OTimer (ThreadTimer 1)))\<lparr>ob_flag := 1\<rparr>),
      tmr := (tmr (ex_wait (MqQ 0)))(ThreadTimer 1 := (tmr (ex_wait (MqQ 0)) (ThreadTimer 1))\<lparr>tm_timeout_tick := n\<rparr>),
      tmlist := \<lparr>ls_q = (\<lambda>_. [ThreadTimer 1]), ls_in = (\<lambda>_. None)(ThreadTimer 1 := Some ())\<rparr>\<rparr>"

lemma ex_sleep_facts:
  "kinv (ex_sleep n)" "rt_current_thread (ex_sleep n) = Some 0" "tm_list (ex_sleep n) = [ThreadTimer 1]"
  "rt_tick (ex_sleep n) = 0" "tm_left (ex_sleep n) b (ThreadTimer 1) = unat (n - b)"
  "tm_timeout_tick (tmr (ex_sleep n) (ThreadTimer 1)) = n"
proof -
  let ?w = "ex_wait (MqQ 0)" and ?t = "ThreadTimer 1"
  let ?M = "\<lparr>ls_q = (\<lambda>_. [?t]), ls_in = (\<lambda>_. None)(?t := Some ())\<rparr>"
  let ?o = "(objs ?w)(OTimer ?t := (objs ?w (OTimer ?t))\<lparr>ob_flag := 1\<rparr>)"
  let ?tm = "(tmr ?w)(?t := (tmr ?w ?t)\<lparr>tm_timeout_tick := n\<rparr>)"
  have w: "kinv ?w" by (rule ex_wait_inv) simp
  note One_nat_def [simp del]
  have "kinv (?w\<lparr>objs := ?o, olist := olist ?w, thr := (thr ?w)(1 := thr ?w 1), tlist := tlist ?w, tmr := ?tm,
      tmlist := ?M, rt_ready_group := rt_ready_group ?w\<rparr>)"
    using kinvD(5)[OF w, of 1] ex_wait_facts(4,6)[of "MqQ 0"]
    by (intro kinv_one_thread[OF w kinvD(2)[OF w] _ kinvD(4)[OF w]])
      (auto simp: thread_inv_def th_inv_def alive_def rt_object_get_type_def ex_wait_facts ls_inv_def
        kinvD(1)[OF w] intro: timer_obj_inv)
  then show "kinv (ex_sleep n)" by (simp add: ex_sleep_def)
qed (simp_all add: ex_sleep_def ex_wait_facts tm_list_def tm_left_def del: One_nat_def)

text \<open>A timeout function that sets a bit of an event.\<close>

definition ex_user :: "nat \<Rightarrow> kernel \<Rightarrow> kernel option" where
  "ex_user u k = Some (k\<lparr>events := (events k)(u := \<lparr>ev_set = ev_set (events k u) OR 1\<rparr>)\<rparr>)"

lemma ex_user_ok: "callback_ok ex_user"
  unfolding callback_ok_def
proof (intro allI impI)
  fix u k assume k: "kinv k \<and> rt_current_thread k \<noteq> None"
  show "\<exists>k'. ex_user u k = Some k' \<and> kinv k' \<and> timer_frame k k' \<and> tmr k' = tmr k \<and>
        (\<exists>P. tm_list k' = filter P (tm_list k)) \<and> (\<forall>i. objs k' (OTimer (UserTimer i)) = objs k (OTimer (UserTimer i)))"
    using k by (auto simp: ex_user_def timer_frame_def ready_thread_def alive_def rt_object_get_type_def
        tm_linked_def tm_list_def intro: exI[of _ "\<lambda>_. True"])
qed






text \<open>The search loop of \<open>rt_timer_start\<close>, which compares 32-bit ticks that wrap around, is insertion into
  the list ordered by remaining time: the timer goes behind all timers that end before it or at the same
  tick, and the list stays ordered, as long as all timeouts lie within half the tick range of a base
  tick.\<close>

theorem timer_start_order:
  assumes "ls_inv (tmlist k)" "timer_obj tm k" "tm_init_tick (tmr k tm) < RT_TICK_MAX_2" "timers_sorted b k"
    "unat (rt_tick k + tm_init_tick (tmr k tm) - b) < 0x7fffffff"
  shows "\<exists>k'. rt_timer_start tm k = Some (RT_EOK, k') \<and> timers_sorted b k' \<and>
    tm_left k' b tm = unat (rt_tick k + tm_init_tick (tmr k tm) - b) \<and>
    tm_list k' = takeWhile (\<lambda>t. tm_left k b t \<le> tm_left k' b tm) (remove1 tm (tm_list k)) @ tm #
      dropWhile (\<lambda>t. tm_left k b t \<le> tm_left k' b tm) (remove1 tm (tm_list k))"
  using timer_start_sorted[OF assms] by fastforce

theorem timer_start_order_witness:
  "\<exists>k'. rt_timer_start (ThreadTimer 0) (ex_sleep 3) = Some (0, k') \<and> tm_list k' = [ThreadTimer 0, ThreadTimer 1]"
proof -
  have "alive (ex_sleep 3) 0" "stat_of (thr (ex_sleep 3) 0) = 1"
    by (simp_all add: ex_sleep_def ex_wait_def ex_kernel_def alive_def rt_object_get_type_def ex_objs_def
        ex_obj_def ex_thread_def stat_of_def)
  then have o: "timer_obj (ThreadTimer 0) (ex_sleep 3)" using kinv_timer(1)[OF ex_sleep_facts(1)] by simp
  have i: "tm_init_tick (tmr (ex_sleep 3) (ThreadTimer 0)) = 0"
    by (simp add: ex_sleep_def ex_wait_def ex_kernel_def)
  have s: "timers_sorted 0 (ex_sleep 3)" by (simp add: timers_sorted_def ex_sleep_facts del: One_nat_def)
  show ?thesis
    using timer_start_order[OF kinvD(3)[OF ex_sleep_facts(1)] o _ s] i
    by (auto simp: ex_sleep_facts simp del: One_nat_def)
qed

text \<open>\<open>rt_tick_from_millisecond\<close> is exact (one tick is a millisecond) up to 2147482 milliseconds; from there
  to the maximum of \<open>0x7fffffff\<close> its comment promises, the product overflows \<open>int\<close>.\<close>

theorem tick_from_millisecond_range:
  "rt_tick_from_millisecond ms =
    (if ms < 0 then Some RT_WAITING_FOREVER else if ms \<le> 2147482 then Some ms else None)"
proof -
  have "(1000 * ms + 999) div 1000 = ms" by simp
  then show ?thesis by (auto simp: rt_tick_from_millisecond_def)
qed

end
