(* ===== verification/Mempool.thy ===== *)
theory Mempool
  imports Ipc_Base
begin

text \<open>
  Memory pools (\<open>src/mempool.c\<close>): blocks of one size, each with a pointer in front that links the free
  blocks and, in a block that was handed out, points back to the pool.

  A block is named by its index in the pool. A thread that has waited starts the \<open>while\<close> loop of
  \<open>rt_mp_alloc\<close> again with the time that is left.
\<close>

subsection \<open>Operations\<close>

definition upd_mp :: "nat \<Rightarrow> (rt_mempool \<Rightarrow> rt_mempool) \<Rightarrow> kernel \<Rightarrow> kernel" where
  [simp]: "upd_mp n f k = k\<lparr>mps := (mps k)(n := f (mps k n))\<rparr>"

text \<open>
  The loop that links the blocks. Without a block, the assignment behind the loop writes in front of the
  pool.
\<close>

definition mp_init_list :: "rt_mempool \<Rightarrow> rt_mempool option" where
  "mp_init_list mp =
     do { let total = unat (mp_total_count mp);
          let blocks = fold (\<lambda>offset b. b(offset := NextFree (Some (offset + 1)))) [0..<total] (mp_blocks mp);
          RT_ASSERT (total \<noteq> 0);
          Some (mp\<lparr>mp_blocks := blocks(total - 1 := NextFree None), mp_block_list := Some 0\<rparr>) }"

definition rt_mp_init ::
  "nat \<Rightarrow> u8 list \<Rightarrow> (nat \<Rightarrow> mp_header) \<Rightarrow> u32 \<Rightarrow> u32 \<Rightarrow> kernel \<Rightarrow> (rt_err_t \<times> kernel) option" where
  "rt_mp_init n name start sz block_size k =
     do { k \<leftarrow> rt_object_init (OMp n) RT_Object_Class_MemPool name k;
          let mpsize = RT_ALIGN_DOWN sz RT_ALIGN_SIZE;
          let block_size = RT_ALIGN block_size RT_ALIGN_SIZE;
          RT_ASSERT (block_size + 4 \<noteq> 0);
          let total = mpsize div (block_size + 4);
          tq \<leftarrow> ls_init_head (MpQ n) (tlist k);
          let k = k\<lparr>tlist := tq\<rparr>;
          mp \<leftarrow> mp_init_list ((mps k n)\<lparr>mp_blocks := start, mp_block_size := block_size,
            mp_total_count := total, mp_free_count := total, mp_suspend_count := 0\<rparr>);
          Some (RT_EOK, upd_mp n (\<lambda>_. mp) k) }"

text \<open>The loop of \<open>rt_mp_detach\<close> and \<open>rt_mp_delete\<close> that wakes the waiting threads.\<close>

partial_function (option) mp_resume_all :: "nat \<Rightarrow> kernel \<Rightarrow> kernel option" where
  "mp_resume_all n k =
     (case ls_q (tlist k) (MpQ n) of
        [] \<Rightarrow> Some k
      | thread # _ \<Rightarrow>
          do { let k = upd_thr thread (\<lambda>th. th\<lparr>th_error := - RT_ERROR\<rparr>) k;
               (_, k) \<leftarrow> rt_thread_resume thread k;
               let k = upd_mp n (\<lambda>mp. mp\<lparr>mp_suspend_count := mp_suspend_count mp - 1\<rparr>) k;
               mp_resume_all n k })"

definition rt_mp_detach :: "nat \<Rightarrow> kernel \<Rightarrow> (rt_err_t \<times> kernel) option" where
  "rt_mp_detach n k =
     do { RT_ASSERT (rt_object_get_type (OMp n) k = of_nat RT_Object_Class_MemPool);
          RT_ASSERT (rt_object_is_systemobject (OMp n) k);
          k \<leftarrow> mp_resume_all n k;
          Some (RT_EOK, rt_object_detach (OMp n) k) }"

text \<open>The block \<open>rt_malloc\<close> returns is the argument \<open>pool\<close>.\<close>

definition rt_mp_create ::
  "nat option \<Rightarrow> (nat \<Rightarrow> mp_header) option \<Rightarrow> u8 list \<Rightarrow> u32 \<Rightarrow> u32 \<Rightarrow> kernel \<Rightarrow> (nat option \<times> kernel) option" where
  "rt_mp_create mem pool name block_count block_size k =
     do { RT_DEBUG_NOT_IN_INTERRUPT k;
          (x, k) \<leftarrow> rt_object_allocate (map_option OMp mem) RT_Object_Class_MemPool name k;
          case x of
            Some (OMp n) \<Rightarrow>
              do { let block_size = RT_ALIGN block_size RT_ALIGN_SIZE;
                   let k = upd_mp n (\<lambda>mp. mp\<lparr>mp_block_size := block_size\<rparr>) k;
                   case pool of
                     None \<Rightarrow> do { k \<leftarrow> rt_object_delete (OMp n) k; Some (None, k) }
                   | Some start \<Rightarrow>
                       do { tq \<leftarrow> ls_init_head (MpQ n) (tlist k);
                            let k = k\<lparr>tlist := tq\<rparr>;
                            mp \<leftarrow> mp_init_list ((mps k n)\<lparr>mp_blocks := start, mp_total_count := block_count,
                              mp_free_count := block_count, mp_suspend_count := 0\<rparr>);
                            Some (Some n, upd_mp n (\<lambda>_. mp) k) } }
          | _ \<Rightarrow> Some (None, k) }"

definition rt_mp_delete :: "nat \<Rightarrow> kernel \<Rightarrow> (rt_err_t \<times> kernel) option" where
  "rt_mp_delete n k =
     do { RT_DEBUG_NOT_IN_INTERRUPT k;
          RT_ASSERT (rt_object_get_type (OMp n) k = of_nat RT_Object_Class_MemPool);
          RT_ASSERT (\<not> rt_object_is_systemobject (OMp n) k);
          k \<leftarrow> mp_resume_all n k;
          k \<leftarrow> rt_object_delete (OMp n) k;
          Some (RT_EOK, k) }"

text \<open>Taking the first free block: following a pointer that is no free-list link is undefined.\<close>

definition mp_take :: "nat \<Rightarrow> rt_mempool \<Rightarrow> (nat \<times> rt_mempool) option" where
  "mp_take n mp =
     do { let mp = mp\<lparr>mp_free_count := mp_free_count mp - 1\<rparr>;
          block_ptr \<leftarrow> mp_block_list mp;
          case mp_blocks mp block_ptr of
            NextFree next \<Rightarrow>
              Some (block_ptr, mp\<lparr>mp_block_list := next, mp_blocks := (mp_blocks mp)(block_ptr := OwnedBy n)\<rparr>)
          | OwnedBy _ \<Rightarrow> None }"

definition mp_put :: "nat \<Rightarrow> rt_mempool \<Rightarrow> rt_mempool" where
  "mp_put i mp =
     (let mp = mp\<lparr>mp_free_count := mp_free_count mp + 1\<rparr>;
          mp = mp\<lparr>mp_blocks := (mp_blocks mp)(i := NextFree (mp_block_list mp))\<rparr>
      in mp\<lparr>mp_block_list := Some i\<rparr>)"

text \<open>Suspending the caller at the front of the wait list.\<close>

definition mp_wait :: "nat \<Rightarrow> nat \<Rightarrow> int \<Rightarrow> kernel \<Rightarrow> kernel option" where
  "mp_wait n thread time k =
     do { let k = upd_thr thread (\<lambda>th. th\<lparr>th_error := RT_EOK\<rparr>) k;
          (_, k) \<leftarrow> rt_thread_suspend thread k;
          tq \<leftarrow> ls_push_front (MpQ n) thread (tlist k);
          let k = upd_mp n (\<lambda>mp. mp\<lparr>mp_suspend_count := mp_suspend_count mp + 1\<rparr>) (k\<lparr>tlist := tq\<rparr>);
          if time > 0 then arm_timer thread (word_of_int time) k else Some k }"

text \<open>The \<open>while\<close> loop of \<open>rt_mp_alloc\<close> and what follows it, up to the next wait.\<close>

definition mp_alloc_loop :: "nat \<Rightarrow> nat option \<Rightarrow> int \<Rightarrow> kernel \<Rightarrow> (nat option call \<times> kernel) option" where
  "mp_alloc_loop n self time k =
     (if mp_free_count (mps k n) = 0
      then if time = 0 then Some (Return None, rt_set_errno (- RT_ETIMEOUT) k)
           else do { RT_DEBUG_NOT_IN_INTERRUPT k;
                     thread \<leftarrow> self;
                     k \<leftarrow> mp_wait n thread time k;
                     k \<leftarrow> rt_schedule k;
                     Some (Blocked, k) }
      else do { (block, mp) \<leftarrow> mp_take n (mps k n);
                Some (Return (Some block), upd_mp n (\<lambda>_. mp) k) })"

definition rt_mp_alloc :: "nat \<Rightarrow> int \<Rightarrow> kernel \<Rightarrow> (nat option call \<times> kernel) option" where
  "rt_mp_alloc n time k = mp_alloc_loop n (rt_thread_self k) time k"

definition rt_mp_alloc_end :: "nat \<Rightarrow> nat \<Rightarrow> int \<Rightarrow> u32 \<Rightarrow> kernel \<Rightarrow> (nat option call \<times> kernel) option" where
  "rt_mp_alloc_end n thread time before_sleep k =
     (if th_error (thr k thread) \<noteq> RT_EOK then Some (Return None, k)
      else mp_alloc_loop n (Some thread) (time_left time before_sleep (rt_tick_get k)) k)"

text \<open>
  Freeing block \<open>i\<close> of pool \<open>n\<close>. The pool is read from the word in front of the block: a block that was not
  handed out by this pool has no pool there. The head of an empty wait list is no thread.
\<close>

definition rt_mp_free :: "nat \<Rightarrow> nat \<Rightarrow> kernel \<Rightarrow> kernel option" where
  "rt_mp_free n i k =
     do { RT_ASSERT (mp_blocks (mps k n) i = OwnedBy n);
          let k = upd_mp n (mp_put i) k;
          if mp_suspend_count (mps k n) > 0
          then case ls_q (tlist k) (MpQ n) of
                 [] \<Rightarrow> None
               | thread # _ \<Rightarrow>
                   do { let k = upd_thr thread (\<lambda>th. th\<lparr>th_error := RT_EOK\<rparr>) k;
                        (_, k) \<leftarrow> rt_thread_resume thread k;
                        let k = upd_mp n (\<lambda>mp. mp\<lparr>mp_suspend_count := mp_suspend_count mp - 1\<rparr>) k;
                        rt_schedule k }
          else Some k }"

subsection \<open>The free list\<close>

fun mp_chain :: "(nat \<Rightarrow> mp_header) \<Rightarrow> nat option \<Rightarrow> nat list \<Rightarrow> bool" where
  "mp_chain b p [] \<longleftrightarrow> p = None"
| "mp_chain b p (x # xs) \<longleftrightarrow> p = Some x \<and> (\<exists>q. b x = NextFree q \<and> mp_chain b q xs)"

lemma mp_chain_upd [simp]: "i \<notin> set xs \<Longrightarrow> mp_chain (b(i := h)) p xs = mp_chain b p xs"
  by (induction xs arbitrary: p) auto

definition mp_rep :: "nat \<Rightarrow> rt_mempool \<Rightarrow> nat list \<Rightarrow> bool" where
  "mp_rep n mp fs \<longleftrightarrow> mp_chain (mp_blocks mp) (mp_block_list mp) fs \<and> distinct fs \<and>
     set fs \<subseteq> {..<unat (mp_total_count mp)} \<and> length fs = unat (mp_free_count mp) \<and>
     (\<forall>i < unat (mp_total_count mp). i \<notin> set fs \<longrightarrow> mp_blocks mp i = OwnedBy n)"

text \<open>The blocks that are handed out.\<close>

definition mp_used :: "nat \<Rightarrow> rt_mempool \<Rightarrow> nat set" where
  "mp_used n mp = {i. i < unat (mp_total_count mp) \<and> mp_blocks mp i = OwnedBy n}"

lemma mp_chain_free: "mp_chain b p xs \<Longrightarrow> x \<in> set xs \<Longrightarrow> \<exists>q. b x = NextFree q"
  by (induction xs arbitrary: p) auto

lemma mp_rep_used: "mp_rep n mp fs \<Longrightarrow> mp_used n mp = {..<unat (mp_total_count mp)} - set fs"
  unfolding mp_rep_def mp_used_def using mp_chain_free by fastforce

lemma mp_rep_count: "mp_rep n mp fs \<Longrightarrow> unat (mp_free_count mp) + card (mp_used n mp) = unat (mp_total_count mp)"
proof -
  assume r: "mp_rep n mp fs"
  then have s: "set fs \<subseteq> {..<unat (mp_total_count mp)}" "card (set fs) = unat (mp_free_count mp)"
    using distinct_card[of fs] by (auto simp: mp_rep_def)
  then have "card (mp_used n mp) = unat (mp_total_count mp) - unat (mp_free_count mp)"
    unfolding mp_rep_used[OF r] by (simp add: card_Diff_subset)
  moreover have "unat (mp_free_count mp) \<le> unat (mp_total_count mp)"
    using card_mono[OF _ s(1)] s(2) by simp
  ultimately show ?thesis by simp
qed

lemma mp_take_ok:
  assumes r: "mp_rep n mp fs" and f: "mp_free_count mp \<noteq> 0"
  shows "\<exists>i mp'. mp_take n mp = Some (i, mp') \<and> fs = i # tl fs \<and> mp_rep n mp' (tl fs) \<and> i \<notin> mp_used n mp \<and>
    mp_used n mp' = insert i (mp_used n mp) \<and> mp_total_count mp' = mp_total_count mp \<and>
    mp_suspend_count mp' = mp_suspend_count mp \<and> mp_free_count mp' = mp_free_count mp - 1"
proof -
  have "unat (mp_free_count mp) \<noteq> 0" using f by (simp add: unat_eq_0)
  then obtain i gs where fs: "fs = i # gs" using r by (cases fs) (auto simp: mp_rep_def)
  then obtain q where b: "mp_block_list mp = Some i" "mp_blocks mp i = NextFree q" "mp_chain (mp_blocks mp) q gs"
    and d: "i \<notin> set gs" "distinct gs" and i: "i < unat (mp_total_count mp)"
    using r by (auto simp: mp_rep_def)
  let ?mp = "mp\<lparr>mp_free_count := mp_free_count mp - 1, mp_block_list := q,
    mp_blocks := (mp_blocks mp)(i := OwnedBy n)\<rparr>"
  have t: "mp_take n mp = Some (i, ?mp)" using b by (simp add: mp_take_def)
  have r': "mp_rep n ?mp gs"
    using r fs b d unat_minus_one[OF f] by (auto simp: mp_rep_def)
  have u: "mp_used n ?mp = insert i (mp_used n mp)" "i \<notin> mp_used n mp"
    using b i by (auto simp: mp_used_def)
  show ?thesis using t fs r' u by (intro exI[of _ i] exI[of _ ?mp]) simp
qed

lemma mp_put_ok:
  assumes r: "mp_rep n mp fs" and i: "i \<in> mp_used n mp"
  shows "mp_rep n (mp_put i mp) (i # fs)" "mp_used n (mp_put i mp) = mp_used n mp - {i}"
    "mp_total_count (mp_put i mp) = mp_total_count mp" "mp_suspend_count (mp_put i mp) = mp_suspend_count mp"
    "mp_free_count (mp_put i mp) = mp_free_count mp + 1"
proof -
  have nf: "i \<notin> set fs" "i < unat (mp_total_count mp)" using i mp_rep_used[OF r] by auto
  have "card (mp_used n mp) \<noteq> 0"
    using i finite_subset[of "mp_used n mp" "{..<unat (mp_total_count mp)}"] by (auto simp: mp_used_def)
  then have "unat (mp_free_count mp) < unat (mp_total_count mp)" using mp_rep_count[OF r] by simp
  moreover have "unat (mp_total_count mp) < 2 ^ 32" using unsigned_less[of "mp_total_count mp", where 'a = nat] by simp
  ultimately have "unat (mp_free_count mp + 1) = Suc (unat (mp_free_count mp))" by (simp add: unat_word_ariths)
  then show "mp_rep n (mp_put i mp) (i # fs)"
    using r nf by (auto simp: mp_rep_def mp_put_def Let_def)
  show "mp_used n (mp_put i mp) = mp_used n mp - {i}" by (auto simp: mp_used_def mp_put_def Let_def)
qed (simp_all add: mp_put_def Let_def)

text \<open>The list \<open>mp_init_list\<close> builds is all blocks in order.\<close>

lemma mp_init_chain:
  "m \<le> n \<Longrightarrow> (\<And>j. m \<le> j \<Longrightarrow> Suc j < n \<Longrightarrow> b j = NextFree (Some (Suc j))) \<Longrightarrow> b (n - 1) = NextFree None \<Longrightarrow>
    mp_chain b (if m = n then None else Some m) [m..<n]"
proof (induction "n - m" arbitrary: m)
  case (Suc d)
  then have l: "m < n" by simp
  have "mp_chain b (if Suc m = n then None else Some (Suc m)) [Suc m..<n]" by (rule Suc.hyps(1)) (use Suc in auto)
  moreover have "b m = NextFree (if Suc m = n then None else Some (Suc m))"
    using Suc.prems(2)[of m] Suc.prems(3) l by (cases "Suc m = n") auto
  ultimately show ?case using l by (simp add: upt_conv_Cons)
qed simp

lemma mp_init_list_ok:
  assumes "mp_init_list mp = Some mp'" "mp_free_count mp = mp_total_count mp"
  shows "mp_rep n mp' [0..<unat (mp_total_count mp)]" "mp_total_count mp \<noteq> 0"
    "mp_total_count mp' = mp_total_count mp" "mp_suspend_count mp' = mp_suspend_count mp"
proof -
  let ?t = "unat (mp_total_count mp)"
  let ?b = "fold (\<lambda>offset b. b(offset := NextFree (Some (offset + 1)))) [0..<?t] (mp_blocks mp)"
  have e: "mp' = mp\<lparr>mp_blocks := ?b(?t - 1 := NextFree None), mp_block_list := Some 0\<rparr>" "?t \<noteq> 0"
    using assms(1) by (auto simp: mp_init_list_def Let_def RT_ASSERT_def split: if_splits)
  have f: "fold (\<lambda>offset b. b(offset := NextFree (Some (offset + 1)))) [0..<m] b j =
      (if j < m then NextFree (Some (Suc j)) else b j)" for m j b
    by (induction m) auto
  have "mp_chain (?b(?t - 1 := NextFree None)) (if 0 = ?t then None else Some 0) [0..<?t]"
    by (rule mp_init_chain) (use e(2) in \<open>auto simp: f[simplified]\<close>)
  then have "mp_chain (mp_blocks mp') (Some 0) [0..<?t]" using e(2) by (subst e(1)) simp
  then show "mp_rep n mp' [0..<?t]" using e assms(2) by (auto simp: mp_rep_def)
  show "mp_total_count mp \<noteq> 0" using e(2) by auto
  show "mp_total_count mp' = mp_total_count mp" "mp_suspend_count mp' = mp_suspend_count mp"
    by (subst e(1), simp)+
qed

subsection \<open>What the operations do to the kernel\<close>

text \<open>A pool whose wait list has the length of its counter.\<close>

definition mp_ok :: "nat \<Rightarrow> kernel \<Rightarrow> bool" where
  "mp_ok n k \<longleftrightarrow> rt_object_get_type (OMp n) k = 8 \<and> (\<exists>fs. mp_rep n (mps k n) fs) \<and>
     unat (mp_suspend_count (mps k n)) = length (ls_q (tlist k) (MpQ n))"

lemma mp_rep_suspend [simp]: "mp_rep n (mp\<lparr>mp_suspend_count := c\<rparr>) fs = mp_rep n mp fs"
  "mp_used n (mp\<lparr>mp_suspend_count := c\<rparr>) = mp_used n mp"
  by (simp_all add: mp_rep_def mp_used_def)

lemma mp_wait_ok:
  assumes k: "kinv k" "caller c k" and t: "time < 0x7fffffff"
  shows "\<exists>k'. mp_wait n c time k = Some k' \<and> kinv k' \<and>
    ipc_frame (upd_mp n (\<lambda>mp. mp\<lparr>mp_suspend_count := mp_suspend_count mp + 1\<rparr>) k) k' \<and>
    stat_of (thr k' c) = 2 \<and> th_error (thr k' c) = 0 \<and> rt_current_thread k' = Some c \<and>
    ls_q (tlist k') (MpQ n) = c # ls_q (tlist k) (MpQ n) \<and>
    ls_in (tmlist k') (ThreadTimer c) = (if time > 0 then Some () else None)"
proof -
  let ?k = "upd_thr c (\<lambda>th. th\<lparr>th_error := 0\<rparr>) k"
  have k0: "kinv ?k" using kinv_thr_same[OF k(1)] by simp
  have c: "rt_current_thread ?k = Some c" "stat_of (thr ?k c) = 1" using k(2) by (auto simp: caller_def)
  obtain k1 where k1: "rt_thread_suspend c ?k = Some (0, k1)" "kinv k1" "ipc_frame ?k k1"
    "thr k1 = (thr ?k)(c := set_stat 2 (thr ?k c))" "tlist k1 = tlist ?k" "rt_current_thread k1 = Some c"
    "alive k1 c" "stat_of (thr k1 c) = 2" "ls_in (tlist k1) c = None" "ls_in (tmlist k1) (ThreadTimer c) = None"
    using suspend_ok[OF k0 c] by blast
  obtain L where L: "ls_insert_at (MpQ n) 0 c (tlist k1) = Some L" using k1(9) by (auto simp: ls_insert_at_def)
  then have pf: "ls_push_front (MpQ n) c (tlist k1) = Some L"
    by (simp add: ls_push_front_insert_at)
  have q: "ls_q L (MpQ n) = c # ls_q (tlist k) (MpQ n)"
    using L k1(5) by (auto simp: ls_insert_at_Some insert_upto_def)
  let ?k2 = "upd_mp n (\<lambda>mp. mp\<lparr>mp_suspend_count := mp_suspend_count mp + 1\<rparr>) (k1\<lparr>tlist := L\<rparr>)"
  have "kinv (k1\<lparr>tlist := L\<rparr>)" by (rule kinv_wait[OF k1(2,7,8) L]) simp
  then have k2: "kinv ?k2" by simp
  have a2: "alive ?k2 c" "stat_of (thr ?k2 c) = 2" using k1(7,8) by (simp_all add: alive_def rt_object_get_type_def)
  have f: "ipc_frame (upd_mp n (\<lambda>mp. mp\<lparr>mp_suspend_count := mp_suspend_count mp + 1\<rparr>) k) ?k2"
    using k1(3) by (simp add: ipc_frame_def)
  show ?thesis
  proof (cases "time > 0")
    case False
    have "mp_wait n c time k = Some ?k2" using False k1(1) pf by (simp add: mp_wait_def)
    then show ?thesis using False k2 f q k1 by (intro exI[of _ ?k2]) simp
  next
    case True
    have "uint (word_of_int time :: u32) = time" using True t by (simp add: uint_word_of_int_eq take_bit_int_eq_self)
    then have n: "word_of_int time < (0x7fffffff :: u32)" using t by (simp add: word_less_def)
    obtain k' where k': "arm_timer c (word_of_int time) ?k2 = Some k'" "kinv k'" "ipc_frame ?k2 k'"
      "thr k' = thr ?k2" "tlist k' = tlist ?k2" "rt_current_thread k' = rt_current_thread ?k2"
      "ls_in (tmlist k') (ThreadTimer c) = Some ()"
      using arm_timer_ok[OF k2 a2 n] by blast
    have "mp_wait n c time k = Some k'" using True k1(1) pf k'(1) by (simp add: mp_wait_def)
    then show ?thesis using True k' ipc_frame_trans[OF f k'(3)] q k1(4,6,8)
      by (intro exI[of _ k']) simp
  qed
qed

lemma mp_ok_frame:
  "ipc_frame k k' \<Longrightarrow> ls_q (tlist k') (MpQ n) = ls_q (tlist k) (MpQ n) \<Longrightarrow> mp_ok n k' = mp_ok n k"
  by (simp add: mp_ok_def rt_object_get_type_def ipc_frameD)

subsection \<open>Properties\<close>

text \<open>Takes and puts of a pool, with the set of blocks that are in use.\<close>

inductive mp_step :: "nat \<Rightarrow> rt_mempool \<times> nat set \<Rightarrow> rt_mempool \<times> nat set \<Rightarrow> bool" for n where
  take: "mp_free_count mp \<noteq> 0 \<Longrightarrow> mp_take n mp = Some (i, mp') \<Longrightarrow> mp_step n (mp, U) (mp', insert i U)"
| put: "i \<in> U \<Longrightarrow> mp_step n (mp, U) (mp_put i mp, U - {i})"

definition mp_use_ok :: "nat \<Rightarrow> rt_mempool \<times> nat set \<Rightarrow> bool" where
  [simp]: "mp_use_ok n s \<longleftrightarrow> (\<exists>fs. mp_rep n (fst s) fs) \<and> mp_used n (fst s) = snd s"

lemma mp_step_keeps:
  assumes "mp_step n s s'" "mp_use_ok n s"
  shows "mp_use_ok n s'"
  using assms
proof (induction rule: mp_step.induct)
  case (take mp i mp' U)
  then obtain fs where fs: "mp_rep n mp fs" "mp_used n mp = U" by auto
  obtain j m where "mp_take n mp = Some (j, m)" "mp_rep n m (tl fs)" "mp_used n m = insert j (mp_used n mp)"
    using mp_take_ok[OF fs(1) take(1)] by blast
  then show ?case using take(2) fs(2) by auto
next
  case (put i U mp)
  then show ?case using mp_put_ok(1,2)[of n mp _ i] by fastforce
qed

text \<open>C9. No block is handed out twice: starting from a pool as \<open>rt_mp_init\<close> sets it up, after any takes and
  frees of taken blocks, the free count is the number of blocks not in use, and as long as it is not 0
  another block inside the pool that is not in use can be taken.\<close>

theorem mp_blocks_exclusive:
  assumes "mp_init_list mp0 = Some mp1" "mp_free_count mp0 = mp_total_count mp0"
    "(mp_step n)\<^sup>*\<^sup>* (mp1, {}) (mp, U)"
  shows "unat (mp_free_count mp) + card U = unat (mp_total_count mp) \<and>
    (mp_free_count mp \<noteq> 0 \<longrightarrow> (\<exists>i mp'. mp_take n mp = Some (i, mp') \<and> i \<notin> U \<and> i < unat (mp_total_count mp)))"
proof -
  have r: "mp_rep n mp1 [0..<unat (mp_total_count mp0)]" "mp_total_count mp1 = mp_total_count mp0"
    using mp_init_list_ok(1,3)[OF assms(1,2)] by simp_all
  have "mp_used n mp1 = {}" by (simp add: mp_rep_used[OF r(1)] r(2) lessThan_atLeast0)
  then have "mp_use_ok n (mp1, {})" using r(1) by auto
  with assms(3) have "mp_use_ok n (mp, U)"
    by (induction rule: rtranclp_induct) (blast intro: mp_step_keeps)+
  then obtain fs where i: "mp_rep n mp fs" "mp_used n mp = U" by auto
  have "\<exists>i mp'. mp_take n mp = Some (i, mp') \<and> i \<notin> U \<and> i < unat (mp_total_count mp)" if f: "mp_free_count mp \<noteq> 0"
  proof -
    obtain j m where j: "mp_take n mp = Some (j, m)" "fs = j # tl fs" "j \<notin> mp_used n mp"
      using mp_take_ok[OF i(1) f] by blast
    have "j \<in> set fs" by (subst j(2)) simp
    then have "j < unat (mp_total_count mp)" using i(1) by (auto simp: mp_rep_def)
    then show ?thesis using j i(2) by blast
  qed
  then show ?thesis using mp_rep_count[OF i(1)] i(2) by simp
qed

definition ex_pool :: rt_mempool where
  "ex_pool = \<lparr>mp_blocks = (\<lambda>_. NextFree None), mp_block_list = None, mp_block_size = 8, mp_total_count = 2,
     mp_free_count = 2, mp_suspend_count = 0\<rparr>"

theorem mp_blocks_exclusive_witness:
  "\<exists>mp1 mp i mp'. mp_init_list ex_pool = Some mp1 \<and> (mp_step 0)\<^sup>*\<^sup>* (mp1, {}) (mp, {0}) \<and>
    mp_take 0 mp = Some (i, mp') \<and> i \<notin> {0} \<and> i < 2"
proof -
  let ?mp1 = "ex_pool\<lparr>mp_blocks := ((\<lambda>_. NextFree None)(0 := NextFree (Some 1), 1 := NextFree (Some 2)))
    (1 := NextFree None), mp_block_list := Some 0\<rparr>"
  have i: "mp_init_list ex_pool = Some ?mp1" by (simp add: mp_init_list_def ex_pool_def upt_conv_Cons)
  have f: "mp_free_count ex_pool = mp_total_count ex_pool" by (simp add: ex_pool_def)
  let ?mp = "?mp1\<lparr>mp_free_count := 1, mp_block_list := Some 1, mp_blocks := (mp_blocks ?mp1)(0 := OwnedBy 0)\<rparr>"
  have "mp_take 0 ?mp1 = Some (0, ?mp)" by (simp add: mp_take_def ex_pool_def)
  moreover have "mp_free_count ?mp1 \<noteq> 0" by (simp add: ex_pool_def)
  ultimately have "mp_step 0 (?mp1, {}) (?mp, {0})" using mp_step.take[of ?mp1 0 0 ?mp "{}"] by simp
  then have s: "(mp_step 0)\<^sup>*\<^sup>* (?mp1, {}) (?mp, {0})" by blast
  have "mp_free_count ?mp \<noteq> 0" "unat (mp_total_count ?mp) = 2" by (simp_all add: ex_pool_def)
  then obtain j mp' where "mp_take 0 ?mp = Some (j, mp')" "j \<notin> {0}" "j < 2"
    using mp_blocks_exclusive[OF i f s] by auto
  then show ?thesis using i s by blast
qed

text \<open>A pool of two blocks, the first in use and the second free, or both in use with a waiting thread.\<close>

definition ex_pool1 :: rt_mempool where
  "ex_pool1 = \<lparr>mp_blocks = (\<lambda>_. NextFree None)(0 := OwnedBy 0), mp_block_list = Some 1, mp_block_size = 8,
     mp_total_count = 2, mp_free_count = 1, mp_suspend_count = 0\<rparr>"

definition ex_pool2 :: rt_mempool where
  "ex_pool2 = \<lparr>mp_blocks = (\<lambda>_. OwnedBy 0), mp_block_list = None, mp_block_size = 8,
     mp_total_count = 2, mp_free_count = 0, mp_suspend_count = 1\<rparr>"

definition ex_mpk :: "qid \<Rightarrow> rt_mempool \<Rightarrow> kernel" where
  "ex_mpk q mp = upd_mp 0 (\<lambda>_. mp) (ex_ipc (OMp 0) 8 0 (ex_wait q))"

lemma ex_pool_facts:
  "mp_rep 0 ex_pool1 [1]" "mp_rep 0 ex_pool2 []" "mp_used 0 ex_pool1 = {0}" "mp_used 0 ex_pool2 = {0, 1}"
  "mp_free_count ex_pool1 = 1" "mp_total_count ex_pool1 = 2" "mp_suspend_count ex_pool1 = 0" "mp_suspend_count ex_pool2 = 1"
  by (auto simp: mp_rep_def mp_used_def ex_pool1_def ex_pool2_def less_2_cases_iff)

lemma ex_mpk_facts:
  assumes "wait_link (Some q)"
  shows "kinv (ex_mpk q mp)" "caller 0 (ex_mpk q mp)" "rt_current_thread (ex_mpk q mp) = Some 0" "mps (ex_mpk q mp) 0 = mp"
    "ls_q (tlist (ex_mpk q mp)) q = [1]" "r \<noteq> q \<Longrightarrow> ls_q (tlist (ex_mpk q mp)) r = []"
    "rt_object_get_type (OMp 0) (ex_mpk q mp) = 8" "tmlist (ex_mpk q mp) = ls_empty"
proof -
  have "kinv (ex_ipc (OMp 0) 8 0 (ex_wait q))"
    by (rule ex_ipc_inv[OF ex_wait_inv[OF assms]]) (simp_all add: ex_wait_def ex_kernel_def ex_olist_def ipc_oid_def)
  then show "kinv (ex_mpk q mp)" by (simp add: ex_mpk_def)
qed (simp_all add: ex_mpk_def ex_ipc_def caller_def ex_wait_facts rt_object_get_type_def)

lemma ex_mpk_ok:
  "mp_ok 0 (ex_mpk (MqQ 0) ex_pool1)" "mp_ok 0 (ex_mpk (MpQ 0) ex_pool2)"
proof -
  have "Ex (mp_rep 0 ex_pool1)" "Ex (mp_rep 0 ex_pool2)" using ex_pool_facts(1,2) by blast+
  then show "mp_ok 0 (ex_mpk (MqQ 0) ex_pool1)" "mp_ok 0 (ex_mpk (MpQ 0) ex_pool2)"
    using ex_mpk_facts(4,7)[of "MqQ 0" ex_pool1] ex_mpk_facts(6)[where q = "MqQ 0" and r = "MpQ 0" and mp = ex_pool1]
      ex_mpk_facts(4,5,7)[of "MpQ 0" ex_pool2]
    by (simp_all add: mp_ok_def ex_pool_facts(7,8))
qed

text \<open>The outcomes of \<open>rt_mp_alloc\<close>: with a free block it takes one that is not in use; without one it
  returns \<open>RT_NULL\<close> with the error \<open>-RT_ETIMEOUT\<close> when it may not wait, and otherwise suspends the caller
  at the front of the wait list.\<close>

theorem mp_alloc_outcomes:
  assumes "kinv k" "caller c k" "mp_ok n k" "time < 0x7fffffff" "length (ls_q (tlist k) (MpQ n)) < 2 ^ 32 - 1"
  shows "\<exists>a k'. rt_mp_alloc n time k = Some (a, k') \<and> kinv k' \<and> mp_ok n k' \<and>
    (if mp_free_count (mps k n) \<noteq> 0
     then \<exists>i. a = Return (Some i) \<and> i \<notin> mp_used n (mps k n) \<and> i < unat (mp_total_count (mps k n)) \<and>
       mp_used n (mps k' n) = insert i (mp_used n (mps k n))
     else mp_used n (mps k' n) = mp_used n (mps k n) \<and>
       (if time = 0 then a = Return None \<and> th_error (thr k' c) = - RT_ETIMEOUT
        else a = Blocked \<and> stat_of (thr k' c) = RT_THREAD_SUSPEND \<and>
          ls_q (tlist k') (MpQ n) = c # ls_q (tlist k) (MpQ n) \<and>
          (ls_in (tmlist k') (ThreadTimer c) \<noteq> None \<longleftrightarrow> time > 0)))"
proof (cases "mp_free_count (mps k n) = 0")
  case False
  obtain fs where r: "mp_rep n (mps k n) fs" using assms(3) by (auto simp: mp_ok_def)
  obtain i mp where t: "mp_take n (mps k n) = Some (i, mp)" "fs = i # tl fs" "mp_rep n mp (tl fs)"
    "i \<notin> mp_used n (mps k n)" "mp_used n mp = insert i (mp_used n (mps k n))"
    "mp_suspend_count mp = mp_suspend_count (mps k n)"
    using mp_take_ok[OF r False] by blast
  have "i \<in> set fs" by (subst t(2)) simp
  then have "i < unat (mp_total_count (mps k n))" using r by (auto simp: mp_rep_def)
  moreover have "rt_mp_alloc n time k = Some (Return (Some i), upd_mp n (\<lambda>_. mp) k)"
    using False t(1) by (simp add: rt_mp_alloc_def mp_alloc_loop_def)
  ultimately show ?thesis using False t assms(1,3) by (auto simp: mp_ok_def rt_object_get_type_def)
next
  case True
  have c: "rt_current_thread k = Some c" "rt_interrupt_nest k = 0" using assms(2) by (simp_all add: caller_def)
  show ?thesis
  proof (cases "time = 0")
    case t: True
    let ?k = "upd_thr c (\<lambda>th. th\<lparr>th_error := - 2\<rparr>) k"
    have "rt_mp_alloc n time k = Some (Return None, ?k)"
      using True t c by (simp add: rt_mp_alloc_def mp_alloc_loop_def rt_set_errno_def rt_interrupt_get_nest_def
          rt_thread_self_def)
    moreover have "kinv ?k" using kinv_thr_same[OF assms(1)] by simp
    ultimately show ?thesis using True t assms(3) by (simp add: mp_ok_def rt_object_get_type_def)
  next
    case False
    let ?k0 = "upd_mp n (\<lambda>mp. mp\<lparr>mp_suspend_count := mp_suspend_count mp + 1\<rparr>) k"
    obtain k1 where k1: "mp_wait n c time k = Some k1" "kinv k1" "ipc_frame ?k0 k1" "stat_of (thr k1 c) = 2"
      "rt_current_thread k1 = Some c" "ls_q (tlist k1) (MpQ n) = c # ls_q (tlist k) (MpQ n)"
      "ls_in (tmlist k1) (ThreadTimer c) = (if time > 0 then Some () else None)"
      using mp_wait_ok[OF assms(1,2,4)] by blast
    obtain k' where k': "rt_schedule k1 = Some k'" "kinv k'" "sched_frame k1 k'" using schedule_ok[OF k1(2,5)] by blast
    have q: "ls_q (tlist k') (MpQ n) = c # ls_q (tlist k) (MpQ n)" using sched_frameD(16)[OF k'(3)] k1(6) by simp
    have m: "mps k' n = (mps k n)\<lparr>mp_suspend_count := mp_suspend_count (mps k n) + 1\<rparr>"
      using sched_frameD(15)[OF k'(3)] ipc_frameD(6)[OF k1(3)] by simp
    have "unat (mp_suspend_count (mps k n) + 1) = Suc (length (ls_q (tlist k) (MpQ n)))"
      using assms(3,5) by (simp add: mp_ok_def unat_word_ariths)
    moreover have "rt_object_get_type (OMp n) k' = 8"
      using assms(3) ipc_frameD(11)[OF ipc_frame_trans[OF k1(3) sched_ipc_frame[OF k'(3)]], of "OMp n"]
      by (simp add: mp_ok_def rt_object_get_type_def)
    ultimately have "mp_ok n k'" using assms(3) q m by (simp add: mp_ok_def)
    moreover have "rt_mp_alloc n time k = Some (Blocked, k')"
      using True False c k1(1) k'(1) by (simp add: rt_mp_alloc_def mp_alloc_loop_def rt_thread_self_def
          RT_DEBUG_NOT_IN_INTERRUPT_def rt_interrupt_get_nest_def)
    ultimately show ?thesis
      using True False k' k1 q m sched_frameD(3,5)[OF k'(3)] by (intro exI[of _ Blocked] exI[of _ k']) simp
  qed
qed

theorem mp_alloc_outcomes_witness:
  "\<exists>k'. rt_mp_alloc 0 5 (ex_mpk (MqQ 0) ex_pool1) = Some (Return (Some 1), k') \<and> mp_used 0 (mps k' 0) = {0, 1}"
proof -
  have w: "wait_link (Some (MqQ 0))" by simp
  note f = ex_mpk_facts[OF w, where mp = ex_pool1]
  have "length (ls_q (tlist (ex_mpk (MqQ 0) ex_pool1)) (MpQ 0)) < 2 ^ 32 - 1" by (simp add: f(6))
  then obtain i k' where "rt_mp_alloc 0 5 (ex_mpk (MqQ 0) ex_pool1) = Some (Return (Some i), k')" "i \<noteq> 0" "i < 2"
    "mp_used 0 (mps k' 0) = insert i {0}"
    using mp_alloc_outcomes[OF f(1,2) ex_mpk_ok(1), of 5] by (auto simp: f(4) ex_pool_facts)
  moreover have "i = 1" using calculation(2,3) by simp
  ultimately show ?thesis by auto
qed

text \<open>Freeing a block puts it back, and the thread that started to wait last becomes ready; with no waiting
  thread nothing else changes.\<close>

theorem mp_free_outcomes:
  assumes "kinv k" "rt_current_thread k = Some c" "mp_ok n k" "i \<in> mp_used n (mps k n)"
  shows "\<exists>k'. rt_mp_free n i k = Some k' \<and> kinv k' \<and> mp_ok n k' \<and>
    mp_used n (mps k' n) = mp_used n (mps k n) - {i} \<and>
    mp_free_count (mps k' n) = mp_free_count (mps k n) + 1 \<and>
    (case ls_q (tlist k) (MpQ n) of [] \<Rightarrow> thr k' = thr k
     | t # ts \<Rightarrow> ready_thread k' t \<and> th_error (thr k' t) = RT_EOK \<and> ls_q (tlist k') (MpQ n) = ts)"
proof -
  obtain fs where r: "mp_rep n (mps k n) fs" using assms(3) by (auto simp: mp_ok_def)
  note p = mp_put_ok[OF r assms(4)]
  have o: "mp_blocks (mps k n) i = OwnedBy n" using assms(4) by (simp add: mp_used_def)
  let ?k1 = "upd_mp n (mp_put i) k"
  show ?thesis
  proof (cases "ls_q (tlist k) (MpQ n)")
    case Nil
    then have "mp_suspend_count (mps k n) = 0" using assms(3) by (simp add: mp_ok_def unat_eq_0)
    then have "rt_mp_free n i k = Some ?k1" using o p(4) by (simp add: rt_mp_free_def)
    then show ?thesis using Nil p assms(1,3) by (auto simp: mp_ok_def rt_object_get_type_def)
  next
    case (Cons t ts)
    let ?k2 = "upd_thr t (\<lambda>th. th\<lparr>th_error := 0\<rparr>) ?k1"
    have k1: "kinv ?k1" using assms(1) by simp
    have k2: "kinv ?k2" using kinv_thr_same[OF k1] by simp
    have q2: "ls_q (tlist ?k2) (MpQ n) = t # ts" using Cons by simp
    obtain k3 where k3: "rt_ipc_list_resume (MpQ n) ?k2 = Some k3" "kinv k3" "ipc_frame ?k2 k3"
      "thr k3 = (thr ?k2)(t := set_stat 1 (thr ?k2 t))" "rt_current_thread k3 = rt_current_thread ?k2"
      "ready_thread k3 t" "ls_q (tlist k3) (MpQ n) = ts"
      using list_resume_ok[OF k2 q2] by auto
    then obtain e where e: "rt_thread_resume t ?k2 = Some (e, k3)"
      using Cons by (auto simp: rt_ipc_list_resume_def bind_eq_Some_conv)
    let ?k4 = "upd_mp n (\<lambda>mp. mp\<lparr>mp_suspend_count := mp_suspend_count mp - 1\<rparr>) k3"
    have k4: "kinv ?k4" "rt_current_thread ?k4 = Some c" using k3(2,5) assms(2) by simp_all
    obtain k' where k': "rt_schedule ?k4 = Some k'" "kinv k'" "sched_frame ?k4 k'" using schedule_ok[OF k4] by blast
    have s0: "mp_suspend_count (mps k n) \<noteq> 0" using assms(3) Cons by (auto simp: mp_ok_def)
    have q: "ls_q (tlist k') (MpQ n) = ts" using sched_frameD(16)[OF k'(3)] k3(7) by simp
    have m: "mps k' n = (mp_put i (mps k n))\<lparr>mp_suspend_count := mp_suspend_count (mps k n) - 1\<rparr>"
      using sched_frameD(15)[OF k'(3)] ipc_frameD(6)[OF k3(3)] p(4) by simp
    have "rt_object_get_type (OMp n) k' = 8"
      using assms(3) ipc_frameD(11)[OF k3(3), of "OMp n"] sched_frameD(1)[OF k'(3)]
      by (simp add: mp_ok_def rt_object_get_type_def)
    then have "mp_ok n k'"
      using assms(3) Cons q m p(1) unat_minus_one[OF s0] by (auto simp: mp_ok_def)
    moreover have "rt_mp_free n i k = Some k'"
      using o p(4) s0 Cons e k'(1) by (simp add: rt_mp_free_def word_gt_0)
    moreover have "ready_thread k' t" "th_error (thr k' t) = 0"
      using k3(4,6) sched_frameD(1,3)[OF k'(3)] by (simp_all add: ready_thread_def alive_def rt_object_get_type_def)
    ultimately show ?thesis using k'(2) Cons q m p(2,5) by (intro exI[of _ k']) simp
  qed
qed

theorem mp_free_outcomes_witness:
  "\<exists>k'. rt_mp_free 0 0 (ex_mpk (MpQ 0) ex_pool2) = Some k' \<and> mp_used 0 (mps k' 0) = {1} \<and> ready_thread k' 1"
proof -
  have w: "wait_link (Some (MpQ 0))" by simp
  note f = ex_mpk_facts[OF w, where mp = ex_pool2]
  have "0 \<in> mp_used 0 (mps (ex_mpk (MpQ 0) ex_pool2) 0)" by (simp add: f(4) ex_pool_facts(4))
  from mp_free_outcomes[OF f(1,3) ex_mpk_ok(2) this] show ?thesis
    by (auto simp: f(4,5) ex_pool_facts(4) simp del: One_nat_def)
qed

text \<open>A wait that times out leaves the counter of waiting threads at 1 although no thread waits any more:
  the next \<open>rt_mp_free\<close> takes the head of the empty wait list for a thread.\<close>

theorem mp_timeout_then_free_faults:
  assumes "kinv k" "rt_current_thread k = Some c" "mp_ok n k" "ls_q (tlist k) (MpQ n) = [t]"
    "ls_in (tmlist k) (ThreadTimer t) = None" "i \<in> mp_used n (mps k n)"
  shows "\<exists>k'. rt_thread_timeout t k = Some k' \<and> rt_mp_alloc_end n t time start k' = Some (Return None, k') \<and>
    ls_q (tlist k') (MpQ n) = [] \<and> mp_suspend_count (mps k' n) = 1 \<and> rt_mp_free n i k' = None"
proof -
  have t: "t \<in> set (ls_q (tlist k) (MpQ n))" using assms(4) by simp
  have w: "alive k t" "stat_of (thr k t) = 2" using kinv_waiter[OF assms(1) t] by simp_all
  obtain k1 k' where s: "rt_thread_timeout t k = Some k'" "ipc_frame k k1" "sched_frame k1 k'"
    "thr k1 = (thr k)(t := set_stat 1 ((thr k t)\<lparr>th_error := - 2\<rparr>))"
    "\<forall>q. ls_q (tlist k1) q = remove1 t (ls_q (tlist k) q) @
       (if c \<noteq> t \<and> q = Ready (prio_of k t) then [t] else [])"
    using timeout_ok[OF assms(1,2) w assms(5)] by blast
  have q: "ls_q (tlist k') (MpQ n) = []" using s(5) sched_frameD(16)[OF s(3)] assms(4) by simp
  have m: "mps k' n = mps k n" using ipc_frameD(6)[OF s(2)] sched_frameD(15)[OF s(3)] by simp
  have u: "unat (mp_suspend_count (mps k n)) = 1" using assms(3,4) by (simp add: mp_ok_def)
  then have c1: "mp_suspend_count (mps k n) = 1" by (metis unat_1 word_unat_eq_iff)
  have "th_error (thr k' t) = - 2" using s(4) sched_frameD(3)[OF s(3)] by simp
  moreover have "rt_mp_free n i k' = None"
    using assms(6) q m c1 by (simp add: rt_mp_free_def mp_used_def mp_put_def Let_def)
  ultimately show ?thesis using s(1) q m c1 by (intro exI[of _ k']) (simp add: rt_mp_alloc_end_def)
qed

theorem mp_timeout_then_free_faults_witness:
  "\<exists>k'. rt_thread_timeout 1 (ex_mpk (MpQ 0) ex_pool2) = Some k' \<and> rt_mp_free 0 0 k' = None"
proof -
  have w: "wait_link (Some (MpQ 0))" by simp
  note f = ex_mpk_facts[OF w, where mp = ex_pool2]
  have "0 \<in> mp_used 0 (mps (ex_mpk (MpQ 0) ex_pool2) 0)" by (simp add: f(4) ex_pool_facts(4))
  from mp_timeout_then_free_faults[OF f(1,3) ex_mpk_ok(2) f(5) _ this] show ?thesis
    by (auto simp: f(8))
qed

end
