(* ===== verification/Links.thy ===== *)
theory Links
  imports Prelude
begin

text \<open>
  Doubly linked lists as paths through two maps: consecutive elements of a list point to each other. A
  circular list with the nodes \<open>x # xs\<close> is the path \<open>x # xs @ [x]\<close>. Used for the block list and the free
  list of the memory heap, whose headers lie in one memory.
\<close>

fun links :: "('a \<Rightarrow> 'a) \<Rightarrow> ('a \<Rightarrow> 'a) \<Rightarrow> 'a list \<Rightarrow> bool" where
  "links nx pv (x # y # xs) \<longleftrightarrow> nx x = y \<and> pv y = x \<and> links nx pv (y # xs)"
| "links nx pv _ = True"

lemma links_append: "links nx pv (xs @ y # zs) \<longleftrightarrow> links nx pv (xs @ [y]) \<and> links nx pv (y # zs)"
proof (induction xs)
  case (Cons x xs)
  then show ?case by (cases xs) auto
qed simp

lemma links_frame:
  "\<forall>x \<in> set (butlast xs). nx' x = nx x \<Longrightarrow> \<forall>x \<in> set (tl xs). pv' x = pv x \<Longrightarrow> links nx' pv' xs = links nx pv xs"
  by (induction nx pv xs rule: links.induct) auto

text \<open>Every node of a path, its ends perhaps apart, occurs once.\<close>

definition once :: "'a list \<Rightarrow> bool" where
  "once xs \<longleftrightarrow> distinct (butlast xs) \<and> distinct (tl xs)"

lemma once_circle: "distinct (x # xs) \<Longrightarrow> once (x # xs @ [x])"
  by (simp add: once_def butlast_append)

lemma set_tl_subset: "set (tl xs) \<subseteq> set xs"
  by (cases xs) auto

lemma set_butlast_subset: "set (butlast xs) \<subseteq> set xs"
  by (auto dest: in_set_butlastD)

text \<open>
  A path cut into two non-empty parts: the parts share neither a node with a successor nor a node with a
  predecessor.
\<close>

lemma once_parts:
  assumes "once (as @ cs)" "as \<noteq> []" "cs \<noteq> []"
  shows "last as \<notin> set (butlast as)" "last as \<notin> set (butlast cs)"
    "hd cs \<notin> set (tl as)" "hd cs \<notin> set (tl cs)"
proof -
  obtain as' x where a: "as = as' @ [x]" using assms(2) by (cases as rule: rev_cases) auto
  obtain y cs' where c: "cs = y # cs'" using assms(3) by (cases cs) auto
  have d: "distinct (as' @ x # butlast (y # cs'))"
    using assms(1) by (simp add: once_def a c butlast_append)
  show "last as \<notin> set (butlast as)" "last as \<notin> set (butlast cs)" using d by (auto simp: a c)
  have e: "distinct (tl as @ y # cs')"
    using assms(1,2) c by (cases as) (simp_all add: once_def)
  show "hd cs \<notin> set (tl as)" "hd cs \<notin> set (tl cs)" using e by (auto simp: c)
qed

lemma links_parts:
  assumes "as \<noteq> []" "cs \<noteq> []"
  shows "links nx pv (as @ cs) \<longleftrightarrow>
    links nx pv as \<and> links nx pv cs \<and> nx (last as) = hd cs \<and> pv (hd cs) = last as"
proof -
  obtain as' x where a: "as = as' @ [x]" using assms(1) by (cases as rule: rev_cases) auto
  obtain y cs' where c: "cs = y # cs'" using assms(2) by (cases cs) auto
  show ?thesis by (auto simp: a c links_append[of nx pv as' x "y # cs'"])
qed

text \<open>Joining two parts, and what a node between them has as its neighbours.\<close>

lemma links_join:
  assumes "links nx pv as" "links nx pv cs" "once (as @ cs)" "as \<noteq> []" "cs \<noteq> []"
  shows "links (nx(last as := hd cs)) (pv(hd cs := last as)) (as @ cs)"
proof -
  note o = once_parts[OF assms(3-5)]
  have "links (nx(last as := hd cs)) (pv(hd cs := last as)) as = links nx pv as"
    by (rule links_frame) (use o in auto)
  moreover have "links (nx(last as := hd cs)) (pv(hd cs := last as)) cs = links nx pv cs"
    by (rule links_frame) (use o in auto)
  ultimately show ?thesis using assms by (simp add: links_parts)
qed

lemma links_node:
  assumes "links nx pv (as @ z # cs)"
  shows "as \<noteq> [] \<Longrightarrow> pv z = last as" "cs \<noteq> [] \<Longrightarrow> nx z = hd cs"
    "links nx pv as" "links nx pv (as @ [z])" "links nx pv cs" "links nx pv (z # cs)"
proof -
  show a: "links nx pv (as @ [z])" and c: "links nx pv (z # cs)"
    using assms links_append[of nx pv as z cs] by auto
  show "as \<noteq> [] \<Longrightarrow> pv z = last as" "links nx pv as" using a links_parts[of as "[z]" nx pv]
    by (cases "as = []"; simp)+
  show "cs \<noteq> [] \<Longrightarrow> nx z = hd cs" "links nx pv cs" using c links_parts[of "[z]" cs nx pv]
    by (cases "cs = []"; simp)+
qed

lemma once_drop: "once (as @ z # cs) \<Longrightarrow> as \<noteq> [] \<Longrightarrow> cs \<noteq> [] \<Longrightarrow> once (as @ cs)"
  by (cases as) (auto simp: once_def butlast_append)

text \<open>Taking a node out, and putting one in.\<close>

lemma links_remove:
  assumes "links nx pv (as @ z # cs)" "once (as @ z # cs)" "as \<noteq> []" "cs \<noteq> []"
  shows "links (nx(pv z := nx z)) (pv(nx z := pv z)) (as @ cs)"
  using links_join[of nx pv as cs] links_node[OF assms(1)] once_drop[OF assms(2)] assms(3,4) by simp

lemma links_insert:
  assumes l: "links nx pv (as @ cs)" and o: "once (as @ cs)" and z: "z \<notin> set (as @ cs)"
    and ne: "as \<noteq> []" "cs \<noteq> []"
  shows "links (nx(last as := z, z := hd cs)) (pv(hd cs := z, z := last as)) (as @ z # cs)"
proof -
  let ?n = "nx(last as := z, z := hd cs)" and ?p = "pv(hd cs := z, z := last as)"
  note s = once_parts[OF o ne] and t = set_tl_subset[of as] set_tl_subset[of cs]
    set_butlast_subset[of as] set_butlast_subset[of cs]
  have m: "last as \<noteq> z" "hd cs \<noteq> z" using z ne by auto
  have "links ?n ?p as = links nx pv as" by (rule links_frame) (use s t z in auto)
  moreover have "links ?n ?p cs = links nx pv cs" by (rule links_frame) (use s t z in auto)
  ultimately have "links ?n ?p as" "links ?n ?p cs" using l ne by (simp_all add: links_parts)
  then have "links ?n ?p (z # cs)" using ne m links_parts[of "[z]" cs ?n ?p] by simp
  then show ?thesis using \<open>links ?n ?p as\<close> ne m links_parts[of as "z # cs" ?n ?p] by simp
qed

end
