(* ===== verification/Memheap.thy ===== *)
theory Memheap
  imports Links Kservice
begin

text \<open>
  Memory heaps (\<open>src/memheap.c\<close>): a heap is a pool of memory cut into blocks. Every block starts with a
  24-byte header, a \<open>struct rt_memheap_item\<close>, that links it to its neighbours (in the order of their
  addresses, in a circle) and, while it is free, into the heap's list of free blocks.

  Addresses are 32-bit words and the fields of the headers are maps over addresses: writing one header
  leaves the others alone. The invariant below shows that the blocks of a heap are far enough apart for
  that. The bytes of the blocks themselves, which only \<open>rt_memheap_realloc\<close>, \<open>rt_realloc\<close> and \<open>rt_calloc\<close>
  touch, are the map \<open>hdata\<close>. What \<open>rt_sem_take\<close> on the lock of a heap answers is the argument \<open>lk\<close>;
  \<open>rt_sem_release\<close> on it changes nothing of the heap.
\<close>

subsection \<open>State\<close>

record rt_memheap =
  mh_type :: u8
  mh_start :: u32
  mh_pool_size :: u32
  mh_available :: u32
  mh_max_used :: u32
  mh_block_list :: u32
  mh_free_list :: u32

record heapmem =
  it_magic :: "u32 \<Rightarrow> u32"
  it_pool :: "u32 \<Rightarrow> u32"
  it_next :: "u32 \<Rightarrow> u32"
  it_prev :: "u32 \<Rightarrow> u32"
  it_next_free :: "u32 \<Rightarrow> u32"
  it_prev_free :: "u32 \<Rightarrow> u32"
  hctl :: "u32 \<Rightarrow> rt_memheap"
  hlist :: "u32 list"
  hdata :: mem
  herrno :: rt_err_t
  h_heap :: u32

text \<open>
  \<open>hctl\<close> is the control block at an address, \<open>hlist\<close> the object list of the class, \<open>h_heap\<close> the address of
  the variable \<open>_heap\<close>. The header of the free list is a member of the control block, 52 bytes from its start.
\<close>

abbreviation (input) RT_NULL :: u32 where "RT_NULL \<equiv> 0"
abbreviation (input) RT_MEMHEAP_MAGIC :: u32 where "RT_MEMHEAP_MAGIC \<equiv> 0x1ea01ea0"
abbreviation (input) RT_MEMHEAP_MASK :: u32 where "RT_MEMHEAP_MASK \<equiv> 0xfffffffe"
abbreviation (input) RT_MEMHEAP_USED :: u32 where "RT_MEMHEAP_USED \<equiv> 1"
abbreviation (input) RT_MEMHEAP_MINIALLOC :: u32 where "RT_MEMHEAP_MINIALLOC \<equiv> 12"
abbreviation (input) RT_MEMHEAP_SIZE :: u32 where "RT_MEMHEAP_SIZE \<equiv> 24"
abbreviation (input) RT_Object_Class_MemHeap :: u8 where "RT_Object_Class_MemHeap \<equiv> 7"
abbreviation (input) RT_Object_Class_Static :: u8 where "RT_Object_Class_Static \<equiv> 0x80"

definition mh_free_header :: "u32 \<Rightarrow> u32" where
  "mh_free_header heap = heap + 52"

definition RT_MEMHEAP_IS_USED :: "u32 \<Rightarrow> heapmem \<Rightarrow> bool" where
  "RT_MEMHEAP_IS_USED i m \<longleftrightarrow> it_magic m i AND RT_MEMHEAP_USED \<noteq> 0"

definition MEMITEM_SIZE :: "u32 \<Rightarrow> heapmem \<Rightarrow> u32" where
  "MEMITEM_SIZE i m = it_next m i - i - RT_MEMHEAP_SIZE"

text \<open>Assignments to the fields of a header and of a control block.\<close>

definition set_magic :: "u32 \<Rightarrow> u32 \<Rightarrow> heapmem \<Rightarrow> heapmem" where
  [simp]: "set_magic i v m = m\<lparr>it_magic := (it_magic m)(i := v)\<rparr>"

definition set_pool :: "u32 \<Rightarrow> u32 \<Rightarrow> heapmem \<Rightarrow> heapmem" where
  [simp]: "set_pool i v m = m\<lparr>it_pool := (it_pool m)(i := v)\<rparr>"

definition set_next :: "u32 \<Rightarrow> u32 \<Rightarrow> heapmem \<Rightarrow> heapmem" where
  [simp]: "set_next i v m = m\<lparr>it_next := (it_next m)(i := v)\<rparr>"

definition set_prev :: "u32 \<Rightarrow> u32 \<Rightarrow> heapmem \<Rightarrow> heapmem" where
  [simp]: "set_prev i v m = m\<lparr>it_prev := (it_prev m)(i := v)\<rparr>"

definition set_next_free :: "u32 \<Rightarrow> u32 \<Rightarrow> heapmem \<Rightarrow> heapmem" where
  [simp]: "set_next_free i v m = m\<lparr>it_next_free := (it_next_free m)(i := v)\<rparr>"

definition set_prev_free :: "u32 \<Rightarrow> u32 \<Rightarrow> heapmem \<Rightarrow> heapmem" where
  [simp]: "set_prev_free i v m = m\<lparr>it_prev_free := (it_prev_free m)(i := v)\<rparr>"

definition upd_heap :: "u32 \<Rightarrow> (rt_memheap \<Rightarrow> rt_memheap) \<Rightarrow> heapmem \<Rightarrow> heapmem" where
  [simp]: "upd_heap heap f m = m\<lparr>hctl := (hctl m)(heap := f (hctl m heap))\<rparr>"

definition mh_get_type :: "u32 \<Rightarrow> heapmem \<Rightarrow> u8" where
  "mh_get_type heap m = mh_type (hctl m heap) AND NOT RT_Object_Class_Static"

subsection \<open>Linking and unlinking\<close>

text \<open>A header without neighbours, as \<open>rt_memheap_init\<close> writes it.\<close>

definition mh_header :: "u32 \<Rightarrow> u32 \<Rightarrow> heapmem \<Rightarrow> heapmem" where
  "mh_header heap item m =
     (let m = set_magic item RT_MEMHEAP_MAGIC m;
          m = set_pool item heap m;
          m = set_next item RT_NULL m;
          m = set_prev item RT_NULL m;
          m = set_next_free item item m
      in set_prev_free item item m)"

text \<open>Into the list of free blocks, behind its header, and out of it.\<close>

definition mh_link_free :: "u32 \<Rightarrow> u32 \<Rightarrow> heapmem \<Rightarrow> heapmem" where
  "mh_link_free heap item m =
     (let m = set_next_free item (it_next_free m (mh_free_list (hctl m heap))) m;
          m = set_prev_free item (mh_free_list (hctl m heap)) m;
          m = set_prev_free (it_next_free m (mh_free_list (hctl m heap))) item m
      in set_next_free (mh_free_list (hctl m heap)) item m)"

definition mh_unlink_free :: "u32 \<Rightarrow> heapmem \<Rightarrow> heapmem" where
  "mh_unlink_free item m =
     (let m = set_prev_free (it_next_free m item) (it_prev_free m item) m
      in set_next_free (it_prev_free m item) (it_next_free m item) m)"

text \<open>A new free block \<open>new\<close> behind the block \<open>header\<close>, not yet in the list of free blocks.\<close>

definition mh_new_block :: "u32 \<Rightarrow> u32 \<Rightarrow> u32 \<Rightarrow> heapmem \<Rightarrow> heapmem" where
  "mh_new_block heap header new m =
     (let m = set_magic new RT_MEMHEAP_MAGIC m;
          m = set_pool new heap m;
          m = set_prev new header m;
          m = set_next new (it_next m header) m;
          m = set_prev (it_next m header) new m
      in set_next header new m)"

text \<open>The high-water mark, after \<open>available_size\<close> has shrunk.\<close>

definition mh_account :: "u32 \<Rightarrow> heapmem \<Rightarrow> heapmem" where
  "mh_account heap m =
     (let hp = hctl m heap; used = mh_pool_size hp - mh_available hp
      in if used > mh_max_used hp then upd_heap heap (\<lambda>hp. hp\<lparr>mh_max_used := used\<rparr>) m else m)"

definition mh_available_sub :: "u32 \<Rightarrow> u32 \<Rightarrow> heapmem \<Rightarrow> heapmem" where
  [simp]: "mh_available_sub heap d m = upd_heap heap (\<lambda>hp. hp\<lparr>mh_available := mh_available hp - d\<rparr>) m"

definition mh_available_add :: "u32 \<Rightarrow> u32 \<Rightarrow> heapmem \<Rightarrow> heapmem" where
  [simp]: "mh_available_add heap d m = upd_heap heap (\<lambda>hp. hp\<lparr>mh_available := mh_available hp + d\<rparr>) m"

subsection \<open>Making and removing a heap\<close>

text \<open>
  Of \<open>rt_object_init\<close> the type byte and the place in the list of the class are modelled; entering an object
  twice breaks the list.
\<close>

definition rt_memheap_init :: "u32 \<Rightarrow> u32 \<Rightarrow> u32 \<Rightarrow> heapmem \<Rightarrow> (rt_err_t \<times> heapmem) option" where
  "rt_memheap_init heap start_addr sz m =
     do { RT_ASSERT (heap \<noteq> RT_NULL);
          RT_ASSERT (heap \<notin> set (hlist m));
          let m = upd_heap heap (\<lambda>hp. hp\<lparr>mh_type := RT_Object_Class_MemHeap OR RT_Object_Class_Static\<rparr>)
                    (m\<lparr>hlist := heap # hlist m\<rparr>);
          let pool_size = RT_ALIGN_DOWN sz RT_ALIGN_SIZE;
          let available = pool_size - 2 * RT_MEMHEAP_SIZE;
          let m = upd_heap heap (\<lambda>hp. hp\<lparr>mh_start := start_addr, mh_pool_size := pool_size,
                    mh_available := available, mh_max_used := pool_size - available\<rparr>) m;
          let item = mh_free_header heap;
          let m = mh_header heap item m;
          let m = upd_heap heap (\<lambda>hp. hp\<lparr>mh_free_list := item\<rparr>) m;
          let item = start_addr;
          let m = mh_header heap item m;
          let m = set_next item (item + available + RT_MEMHEAP_SIZE) m;
          let m = set_prev item (it_next m item) m;
          let m = upd_heap heap (\<lambda>hp. hp\<lparr>mh_block_list := item\<rparr>) m;
          let m = mh_link_free heap item m;
          let item = it_next m item;
          let m = set_magic item (RT_MEMHEAP_MAGIC OR RT_MEMHEAP_USED) m;
          let m = set_pool item heap m;
          let m = set_next item start_addr m;
          let m = set_prev item start_addr m;
          let m = set_prev_free item RT_NULL m;
          let m = set_next_free item RT_NULL m;
          Some (RT_EOK, m) }"

definition rt_memheap_detach :: "u32 \<Rightarrow> heapmem \<Rightarrow> (rt_err_t \<times> heapmem) option" where
  "rt_memheap_detach heap m =
     do { RT_ASSERT (heap \<noteq> RT_NULL);
          RT_ASSERT (mh_get_type heap m = RT_Object_Class_MemHeap);
          RT_ASSERT (mh_type (hctl m heap) AND RT_Object_Class_Static \<noteq> 0);
          let m = upd_heap heap (\<lambda>hp. hp\<lparr>mh_type := 0\<rparr>) m;
          Some (RT_EOK, m\<lparr>hlist := removeAll heap (hlist m)\<rparr>) }"

subsection \<open>Allocating\<close>

text \<open>The request, rounded up.\<close>

definition mh_request :: "u32 \<Rightarrow> u32" where
  "mh_request sz =
     (let sz = RT_ALIGN sz RT_ALIGN_SIZE in if sz < RT_MEMHEAP_MINIALLOC then RT_MEMHEAP_MINIALLOC else sz)"

text \<open>The search through the list of free blocks; on a broken list it may not end.\<close>

partial_function (option) mh_search ::
  "heapmem \<Rightarrow> u32 \<Rightarrow> u32 \<Rightarrow> u32 \<Rightarrow> u32 \<Rightarrow> (u32 \<times> u32) option" where
  "mh_search m free_list sz header_ptr free_size =
     (if header_ptr \<noteq> free_list \<and> free_size < sz
      then let free_size = MEMITEM_SIZE header_ptr m;
               header_ptr = (if free_size < sz then it_next_free m header_ptr else header_ptr)
           in mh_search m free_list sz header_ptr free_size
      else Some (header_ptr, free_size))"

text \<open>The two ways of taking the block found: cutting it, or all of it.\<close>

definition mh_take_split :: "u32 \<Rightarrow> u32 \<Rightarrow> u32 \<Rightarrow> heapmem \<Rightarrow> heapmem" where
  "mh_take_split heap header_ptr sz m =
     (let new_ptr = header_ptr + sz + RT_MEMHEAP_SIZE;
          m = mh_new_block heap header_ptr new_ptr m;
          m = mh_unlink_free header_ptr m;
          m = set_next_free header_ptr RT_NULL m;
          m = set_prev_free header_ptr RT_NULL m;
          m = mh_link_free heap new_ptr m
      in mh_account heap (mh_available_sub heap RT_MEMHEAP_SIZE (mh_available_sub heap sz m)))"

definition mh_take_whole :: "u32 \<Rightarrow> u32 \<Rightarrow> u32 \<Rightarrow> heapmem \<Rightarrow> heapmem" where
  "mh_take_whole heap header_ptr free_size m =
     (let m = mh_account heap (mh_available_sub heap free_size m);
          m = mh_unlink_free header_ptr m;
          m = set_next_free header_ptr RT_NULL m
      in set_prev_free header_ptr RT_NULL m)"

definition rt_memheap_alloc :: "(u32 \<Rightarrow> rt_err_t) \<Rightarrow> u32 \<Rightarrow> u32 \<Rightarrow> heapmem \<Rightarrow> (u32 \<times> heapmem) option" where
  "rt_memheap_alloc lk heap sz m =
     do { RT_ASSERT (heap \<noteq> RT_NULL);
          RT_ASSERT (mh_get_type heap m = RT_Object_Class_MemHeap);
          let sz = mh_request sz;
          if \<not> sz < mh_available (hctl m heap) then Some (RT_NULL, m)
          else if lk heap \<noteq> RT_EOK then Some (RT_NULL, m\<lparr>herrno := lk heap\<rparr>)
          else do { let free_list = mh_free_list (hctl m heap);
                    (header_ptr, free_size) \<leftarrow> mh_search m free_list sz (it_next_free m free_list) 0;
                    if free_size \<ge> sz
                    then do { let m = (if free_size \<ge> sz + RT_MEMHEAP_SIZE + RT_MEMHEAP_MINIALLOC
                                       then mh_take_split heap header_ptr sz m
                                       else mh_take_whole heap header_ptr free_size m);
                              let m = set_magic header_ptr (it_magic m header_ptr OR RT_MEMHEAP_USED) m;
                              Some (header_ptr + RT_MEMHEAP_SIZE, m) }
                    else Some (RT_NULL, m) } }"

subsection \<open>Freeing\<close>

text \<open>Joining a block with a free block before it and with one behind it.\<close>

definition mh_merge_left :: "u32 \<Rightarrow> u32 \<Rightarrow> heapmem \<Rightarrow> u32 \<times> bool \<times> heapmem" where
  "mh_merge_left heap header_ptr m =
     (if \<not> RT_MEMHEAP_IS_USED (it_prev m header_ptr) m
      then let m = mh_available_add heap RT_MEMHEAP_SIZE m;
               m = set_next (it_prev m header_ptr) (it_next m header_ptr) m;
               m = set_prev (it_next m header_ptr) (it_prev m header_ptr) m
           in (it_prev m header_ptr, False, m)
      else (header_ptr, True, m))"

definition mh_merge_right :: "u32 \<Rightarrow> u32 \<Rightarrow> heapmem \<Rightarrow> heapmem" where
  "mh_merge_right heap header_ptr m =
     (if \<not> RT_MEMHEAP_IS_USED (it_next m header_ptr) m
      then let m = mh_available_add heap RT_MEMHEAP_SIZE m;
               new_ptr = it_next m header_ptr;
               m = set_prev (it_next m new_ptr) header_ptr m;
               m = set_next header_ptr (it_next m new_ptr) m
           in mh_unlink_free new_ptr m
      else m)"

definition rt_memheap_free :: "(u32 \<Rightarrow> rt_err_t) \<Rightarrow> u32 \<Rightarrow> heapmem \<Rightarrow> heapmem option" where
  "rt_memheap_free lk ptr m =
     (if ptr = RT_NULL then Some m
      else do { let header_ptr = ptr - RT_MEMHEAP_SIZE;
                RT_ASSERT (it_magic m header_ptr AND RT_MEMHEAP_MASK = RT_MEMHEAP_MAGIC);
                RT_ASSERT (it_magic m header_ptr AND RT_MEMHEAP_USED \<noteq> 0);
                RT_ASSERT (it_magic m (it_next m header_ptr) AND RT_MEMHEAP_MASK = RT_MEMHEAP_MAGIC);
                let heap = it_pool m header_ptr;
                RT_ASSERT (heap \<noteq> RT_NULL);
                RT_ASSERT (mh_get_type heap m = RT_Object_Class_MemHeap);
                if lk heap \<noteq> RT_EOK then Some (m\<lparr>herrno := lk heap\<rparr>)
                else do { let m = set_magic header_ptr (it_magic m header_ptr AND NOT RT_MEMHEAP_USED) m;
                          let m = mh_available_add heap (MEMITEM_SIZE header_ptr m) m;
                          let (header_ptr, insert_header, m) = mh_merge_left heap header_ptr m;
                          let m = mh_merge_right heap header_ptr m;
                          Some (if insert_header then mh_link_free heap header_ptr m else m) } })"

subsection \<open>Changing the size of a block\<close>

text \<open>Growing a block into the free block behind it.\<close>

definition mh_grow :: "u32 \<Rightarrow> u32 \<Rightarrow> u32 \<Rightarrow> u32 \<Rightarrow> heapmem \<Rightarrow> heapmem" where
  "mh_grow heap ptr newsize oldsize m =
     (let header_ptr = ptr - RT_MEMHEAP_SIZE;
          next_ptr = it_next m header_ptr;
          m = mh_account heap (mh_available_sub heap (newsize - oldsize) m);
          m = mh_unlink_free next_ptr m;
          m = set_prev (it_next m next_ptr) (it_prev m next_ptr) m;
          m = set_next (it_prev m next_ptr) (it_next m next_ptr) m;
          next_ptr = ptr + newsize;
          m = mh_new_block heap header_ptr next_ptr m
      in mh_link_free heap next_ptr m)"

text \<open>Cutting the end of a block off, and joining it with a free block behind it.\<close>

definition mh_shrink :: "u32 \<Rightarrow> u32 \<Rightarrow> u32 \<Rightarrow> heapmem \<Rightarrow> heapmem" where
  "mh_shrink heap ptr newsize m =
     (let header_ptr = ptr - RT_MEMHEAP_SIZE;
          new_ptr = header_ptr + newsize + RT_MEMHEAP_SIZE;
          m = mh_new_block heap header_ptr new_ptr m;
          m = (if \<not> RT_MEMHEAP_IS_USED (it_next m new_ptr) m
               then let free_ptr = it_next m new_ptr;
                        m = mh_available_sub heap (MEMITEM_SIZE free_ptr m) m;
                        m = set_prev (it_next m free_ptr) new_ptr m;
                        m = set_next new_ptr (it_next m free_ptr) m
                    in mh_unlink_free free_ptr m
               else m);
          m = mh_link_free heap new_ptr m
      in mh_available_add heap (MEMITEM_SIZE new_ptr m) m)"

text \<open>
  \<open>nextsize\<close> is a signed copy of the size, but the comparison is made on unsigned numbers. The lock is
  given back before a new block is allocated; no other thread uses the heap in between here.
\<close>

definition rt_memheap_realloc ::
  "(u32 \<Rightarrow> rt_err_t) \<Rightarrow> u32 \<Rightarrow> u32 \<Rightarrow> u32 \<Rightarrow> heapmem \<Rightarrow> (u32 \<times> heapmem) option" where
  "rt_memheap_realloc lk heap ptr newsize m =
     do { RT_ASSERT (heap \<noteq> RT_NULL);
          RT_ASSERT (mh_get_type heap m = RT_Object_Class_MemHeap);
          if newsize = 0 then do { m \<leftarrow> rt_memheap_free lk ptr m; Some (RT_NULL, m) }
          else do {
            let newsize = mh_request newsize;
            if ptr = RT_NULL then rt_memheap_alloc lk heap newsize m
            else do {
              let header_ptr = ptr - RT_MEMHEAP_SIZE;
              let oldsize = MEMITEM_SIZE header_ptr m;
              if newsize > oldsize
              then if lk heap \<noteq> RT_EOK then Some (RT_NULL, m\<lparr>herrno := lk heap\<rparr>)
                   else do {
                     let next_ptr = it_next m header_ptr;
                     RT_ASSERT (next_ptr > header_ptr);
                     if \<not> RT_MEMHEAP_IS_USED next_ptr m \<and>
                        MEMITEM_SIZE next_ptr m + oldsize > newsize + RT_MEMHEAP_MINIALLOC
                     then Some (ptr, mh_grow heap ptr newsize oldsize m)
                     else do {
                       (new_ptr, m) \<leftarrow> rt_memheap_alloc lk heap newsize m;
                       if new_ptr = RT_NULL then Some (new_ptr, m)
                       else do {
                         let n = (if oldsize < newsize then oldsize else newsize);
                         let m = m\<lparr>hdata := rt_memcpy (unat new_ptr) (unat ptr) (unat n) (hdata m)\<rparr>;
                         m \<leftarrow> rt_memheap_free lk ptr m;
                         Some (new_ptr, m) } } }
              else if newsize + RT_MEMHEAP_SIZE + RT_MEMHEAP_MINIALLOC \<ge> oldsize then Some (ptr, m)
              else if lk heap \<noteq> RT_EOK then Some (RT_NULL, m\<lparr>herrno := lk heap\<rparr>)
              else Some (ptr, mh_shrink heap ptr newsize m) } } }"

subsection \<open>The system heap\<close>

definition rt_system_heap_init :: "u32 \<Rightarrow> u32 \<Rightarrow> heapmem \<Rightarrow> heapmem option" where
  "rt_system_heap_init begin_addr end_addr m =
     do { (_, m) \<leftarrow> rt_memheap_init (h_heap m) begin_addr (end_addr - begin_addr) m; Some m }"

text \<open>The walk over the other heaps.\<close>

fun malloc_others :: "(u32 \<Rightarrow> rt_err_t) \<Rightarrow> u32 \<Rightarrow> u32 list \<Rightarrow> heapmem \<Rightarrow> (u32 \<times> heapmem) option" where
  "malloc_others lk sz [] m = Some (RT_NULL, m)"
| "malloc_others lk sz (heap # heaps) m =
     do { RT_ASSERT (heap \<noteq> RT_NULL);
          RT_ASSERT (mh_get_type heap m = RT_Object_Class_MemHeap);
          if heap = h_heap m then malloc_others lk sz heaps m
          else do { (ptr, m) \<leftarrow> rt_memheap_alloc lk heap sz m;
                    if ptr \<noteq> RT_NULL then Some (ptr, m) else malloc_others lk sz heaps m } }"

definition rt_malloc :: "(u32 \<Rightarrow> rt_err_t) \<Rightarrow> u32 \<Rightarrow> heapmem \<Rightarrow> (u32 \<times> heapmem) option" where
  "rt_malloc lk sz m =
     do { (ptr, m) \<leftarrow> rt_memheap_alloc lk (h_heap m) sz m;
          if ptr = RT_NULL then malloc_others lk sz (hlist m) m else Some (ptr, m) }"

definition rt_free :: "(u32 \<Rightarrow> rt_err_t) \<Rightarrow> u32 \<Rightarrow> heapmem \<Rightarrow> heapmem option" where
  "rt_free lk rmem m = rt_memheap_free lk rmem m"

definition rt_realloc :: "(u32 \<Rightarrow> rt_err_t) \<Rightarrow> u32 \<Rightarrow> u32 \<Rightarrow> heapmem \<Rightarrow> (u32 \<times> heapmem) option" where
  "rt_realloc lk rmem newsize m =
     (if rmem = RT_NULL then rt_malloc lk newsize m
      else if newsize = 0 then do { m \<leftarrow> rt_free lk rmem m; Some (RT_NULL, m) }
      else do { let header_ptr = rmem - RT_MEMHEAP_SIZE;
                (new_ptr, m) \<leftarrow> rt_memheap_realloc lk (it_pool m header_ptr) rmem newsize m;
                if new_ptr = RT_NULL \<and> newsize \<noteq> 0
                then do { (new_ptr, m) \<leftarrow> rt_malloc lk newsize m;
                          if new_ptr \<noteq> RT_NULL \<and> rmem \<noteq> RT_NULL
                          then do { let oldsize = MEMITEM_SIZE header_ptr m;
                                    let n = (if newsize > oldsize then oldsize else newsize);
                                    let m = m\<lparr>hdata := rt_memcpy (unat new_ptr) (unat rmem) (unat n) (hdata m)\<rparr>;
                                    m \<leftarrow> rt_free lk rmem m;
                                    Some (new_ptr, m) }
                          else Some (new_ptr, m) }
                else Some (new_ptr, m) })"

definition rt_calloc :: "(u32 \<Rightarrow> rt_err_t) \<Rightarrow> u32 \<Rightarrow> u32 \<Rightarrow> heapmem \<Rightarrow> (u32 \<times> heapmem) option" where
  "rt_calloc lk count sz m =
     do { let total_size = count * sz;
          (ptr, m) \<leftarrow> rt_malloc lk total_size m;
          Some (ptr, if ptr \<noteq> RT_NULL then m\<lparr>hdata := rt_memset (unat ptr) 0 (unat total_size) (hdata m)\<rparr> else m) }"

end
