(* ===== verification/Heap_Inv.thy ===== *)
theory Heap_Inv
  imports Memheap
begin

text \<open>
  The invariant of a memory heap: its blocks \<open>bs\<close>, the last of them the tailer of length 0, and its free
  blocks \<open>fs\<close> in the order of the list. Two neighbouring blocks are never both free.

  While an operation runs, some blocks are marked free but are not in the list: they are pending. The
  primitive steps of the operations are proved to keep the shape of the heap with its pending blocks; what
  they do to the number of free bytes and to neighbouring free blocks is a matter of the lists of addresses.
\<close>

subsection \<open>Rings of blocks\<close>

abbreviation ring :: "'a list \<Rightarrow> 'a list" where
  "ring xs \<equiv> xs @ [hd xs]"

lemma ring_once: "distinct xs \<Longrightarrow> xs \<noteq> [] \<Longrightarrow> once (ring xs)"
  by (cases xs) (simp_all add: once_circle)

lemma ring_pair: "links nx pv (ring (as @ h # c # cs)) \<Longrightarrow> nx h = c \<and> pv c = h"
  using links_parts[of "as @ [h]" "c # cs @ [hd (as @ h # c # cs)]" nx pv] by simp

lemma hd_prefix: "hd (as @ h # xs) = hd (as @ [h])"
  by (cases as) simp_all

lemma hd_prefix_in: "hd (as @ [h]) \<in> set (as @ [h])"
  by (cases as) simp_all

lemma ring_insert:
  assumes l: "links nx pv (ring (as @ h # c # cs))" and d: "distinct (as @ h # c # cs)"
    and z: "z \<notin> set (as @ h # c # cs)"
  shows "links (nx(z := c, h := z)) (pv(z := h, c := z)) (ring (as @ h # z # c # cs))"
proof -
  have p: "ring (as @ h # c # cs) = (as @ [h]) @ (c # cs @ [hd (as @ [h])])"
    by (simp add: hd_prefix[of as h "c # cs"])
  have z': "z \<notin> set ((as @ [h]) @ (c # cs @ [hd (as @ [h])]))" using z hd_prefix_in[of as h] by auto
  have o: "once ((as @ [h]) @ (c # cs @ [hd (as @ [h])]))" using ring_once[OF d] p by simp
  have "links (nx(h := z, z := c)) (pv(c := z, z := h)) ((as @ [h]) @ z # (c # cs @ [hd (as @ [h])]))"
    using links_insert[OF l[unfolded p] o z'] by simp
  moreover have "nx(h := z, z := c) = nx(z := c, h := z)" "pv(c := z, z := h) = pv(z := h, c := z)"
    using z by (auto intro: fun_upd_twist)
  ultimately show ?thesis by (simp add: hd_prefix[of as h "z # c # cs"])
qed

lemma ring_remove:
  assumes l: "links nx pv (ring (as @ h # z # c # cs))" and d: "distinct (as @ h # z # c # cs)"
  shows "links (nx(h := c)) (pv(c := h)) (ring (as @ h # c # cs))"
proof -
  have p: "ring (as @ h # z # c # cs) = (as @ [h]) @ z # (c # cs @ [hd (as @ [h])])"
    by (simp add: hd_prefix[of as h "z # c # cs"])
  have n: "nx z = c" "pv z = h"
    using links_node(1,2)[OF l[unfolded p]] by simp_all
  have o: "once ((as @ [h]) @ z # (c # cs @ [hd (as @ [h])]))" using ring_once[OF d] p by simp
  show ?thesis
    using links_remove[OF l[unfolded p] o] by (simp add: n hd_prefix[of as h "c # cs"])
qed

subsection \<open>The list of free blocks\<close>

lemma mh_unlink_free_simps [simp]:
  "it_magic (mh_unlink_free i m) = it_magic m" "it_pool (mh_unlink_free i m) = it_pool m"
  "it_next (mh_unlink_free i m) = it_next m" "it_prev (mh_unlink_free i m) = it_prev m"
  "hctl (mh_unlink_free i m) = hctl m" "hlist (mh_unlink_free i m) = hlist m"
  "hdata (mh_unlink_free i m) = hdata m" "herrno (mh_unlink_free i m) = herrno m"
  "h_heap (mh_unlink_free i m) = h_heap m"
  by (simp_all add: mh_unlink_free_def)

lemma mh_link_free_simps [simp]:
  "it_magic (mh_link_free hp i m) = it_magic m" "it_pool (mh_link_free hp i m) = it_pool m"
  "it_next (mh_link_free hp i m) = it_next m" "it_prev (mh_link_free hp i m) = it_prev m"
  "hctl (mh_link_free hp i m) = hctl m" "hlist (mh_link_free hp i m) = hlist m"
  "hdata (mh_link_free hp i m) = hdata m" "herrno (mh_link_free hp i m) = herrno m"
  "h_heap (mh_link_free hp i m) = h_heap m"
  by (simp_all add: mh_link_free_def)

definition free_ring :: "heapmem \<Rightarrow> u32 \<Rightarrow> u32 list \<Rightarrow> bool" where
  "free_ring m fl fs \<longleftrightarrow> links (it_next_free m) (it_prev_free m) (ring (fl # fs)) \<and> distinct (fl # fs)"

lemma free_ring_cong:
  "it_next_free m' = it_next_free m \<Longrightarrow> it_prev_free m' = it_prev_free m \<Longrightarrow>
   free_ring m' fl fs = free_ring m fl fs"
  by (simp add: free_ring_def)

lemma free_ring_frame:
  assumes "free_ring m fl fs" "i \<notin> set (fl # fs)"
  shows "free_ring (set_next_free i v m) fl fs" "free_ring (set_prev_free i v m) fl fs"
proof -
  have "set (butlast (ring (fl # fs))) \<subseteq> set (fl # fs)" "set (tl (ring (fl # fs))) \<subseteq> set (fl # fs)" by auto
  then show "free_ring (set_next_free i v m) fl fs" "free_ring (set_prev_free i v m) fl fs"
    using assms links_frame[of "ring (fl # fs)" "it_next_free (set_next_free i v m)" "it_next_free m"
        "it_prev_free (set_next_free i v m)" "it_prev_free m"]
      links_frame[of "ring (fl # fs)" "it_next_free (set_prev_free i v m)" "it_next_free m"
        "it_prev_free (set_prev_free i v m)" "it_prev_free m"]
    by (auto simp: free_ring_def)
qed

lemma free_ring_unlink:
  assumes "free_ring m fl (xs @ i # ys)"
  shows "free_ring (mh_unlink_free i m) fl (xs @ ys)"
proof -
  have l: "links (it_next_free m) (it_prev_free m) ((fl # xs) @ i # (ys @ [fl]))"
    and d: "distinct (fl # xs @ i # ys)" using assms by (simp_all add: free_ring_def)
  have o: "once ((fl # xs) @ i # (ys @ [fl]))" using ring_once[OF d] by simp
  have "it_next_free m i = hd (ys @ [fl])" using links_node(2)[OF l] by simp
  then have "it_next_free m i \<noteq> i" using d by (cases ys) auto
  then show ?thesis using links_remove[OF l o] d by (simp add: free_ring_def mh_unlink_free_def)
qed

lemma free_ring_link:
  assumes "free_ring m fl fs" "i \<notin> set (fl # fs)" "mh_free_list (hctl m hp) = fl"
  shows "free_ring (mh_link_free hp i m) fl (i # fs)"
proof -
  have l: "links (it_next_free m) (it_prev_free m) ([fl] @ (fs @ [fl]))"
    and d: "distinct (fl # fs)" using assms(1) by (simp_all add: free_ring_def)
  have "once ([fl] @ (fs @ [fl]))" using ring_once[OF d] by simp
  then have "links ((it_next_free m)(fl := i, i := hd (fs @ [fl])))
      ((it_prev_free m)(hd (fs @ [fl]) := i, i := fl)) ([fl] @ i # (fs @ [fl]))"
    using links_insert[OF l] assms(2) by simp
  moreover have "it_next_free m fl = hd (fs @ [fl])" using links_parts[of "[fl]" "fs @ [fl]"] l by simp
  moreover have "hd (fs @ [fl]) \<noteq> i" "fl \<noteq> i" using assms(2) by (cases fs; auto)+
  ultimately show ?thesis using d assms(2,3)
    by (simp add: free_ring_def mh_link_free_def fun_upd_twist)
qed

text \<open>First fit: the search stops at the first free block that is large enough.\<close>

lemma mh_search_first:
  assumes "links (it_next_free m) pv (x # gs @ [fl])" "fl \<notin> set gs" "f < sz"
  shows "\<exists>h f'. mh_search m fl sz (it_next_free m x) f = Some (h, f') \<and>
    (case find (\<lambda>i. sz \<le> MEMITEM_SIZE i m) gs of Some i \<Rightarrow> h = i \<and> f' = MEMITEM_SIZE i m | None \<Rightarrow> f' < sz)"
  using assms
proof (induction gs arbitrary: x f)
  case Nil
  then show ?case by (subst mh_search.simps) simp
next
  case (Cons g gs)
  then have g: "it_next_free m x = g" "g \<noteq> fl" "links (it_next_free m) pv (g # gs @ [fl])" by auto
  show ?case
  proof (cases "sz \<le> MEMITEM_SIZE g m")
    case True
    then have n: "\<not> MEMITEM_SIZE g m < sz" by (simp add: not_less)
    then have "mh_search m fl sz g (MEMITEM_SIZE g m) = Some (g, MEMITEM_SIZE g m)"
      by (subst mh_search.simps) simp
    then show ?thesis using g True n Cons.prems(3) by (subst mh_search.simps) (simp add: Let_def)
  next
    case False
    then have "MEMITEM_SIZE g m < sz" by (simp add: not_le)
    then show ?thesis using g False Cons.prems Cons.IH[OF g(3), of "MEMITEM_SIZE g m"]
      by (subst mh_search.simps) (simp add: Let_def)
  qed
qed

subsection \<open>Lists of addresses\<close>

text \<open>Addresses ascend, and between two headers there is room for a header and the least payload.\<close>

definition layout_ok :: "u32 \<Rightarrow> u32 \<Rightarrow> u32 list \<Rightarrow> bool" where
  "layout_ok st sz bs \<longleftrightarrow>
     sorted_wrt (\<lambda>a b. unat a + 36 \<le> unat b) bs \<and> (\<forall>b \<in> set bs. 4 dvd unat b) \<and> 2 \<le> length bs \<and>
     hd bs = st \<and> unat (last bs) + 24 = unat st + unat sz \<and> unat st + unat sz < 2 ^ 32"

text \<open>No two neighbours are both free, and the bytes in the free blocks.\<close>

fun coalesced :: "u32 set \<Rightarrow> u32 list \<Rightarrow> bool" where
  "coalesced F (a # b # bs) \<longleftrightarrow> \<not> (a \<in> F \<and> b \<in> F) \<and> coalesced F (b # bs)"
| "coalesced F _ = True"

fun free_bytes :: "u32 set \<Rightarrow> u32 list \<Rightarrow> nat" where
  "free_bytes F (a # b # bs) = (if a \<in> F then unat b - unat a - 24 else 0) + free_bytes F (b # bs)"
| "free_bytes F _ = 0"

lemma layout_distinct:
  assumes "layout_ok st sz bs"
  shows "distinct bs"
proof -
  have "sorted_wrt (\<lambda>a b. unat a + 36 \<le> unat b) bs" using assms by (simp add: layout_ok_def)
  then show ?thesis by (induction bs) auto
qed

lemma layout_pair:
  assumes "layout_ok st sz (as @ b # c # cs)"
  shows "unat b + 36 \<le> unat c" "4 dvd unat b" "4 dvd unat c"
    "\<And>a. a \<in> set as \<Longrightarrow> unat a + 36 \<le> unat b" "\<And>d. d \<in> set cs \<Longrightarrow> unat c + 36 \<le> unat d"
  using assms by (auto simp: layout_ok_def sorted_wrt_append)

lemma layout_bounds:
  assumes "layout_ok st sz bs" "b \<in> set bs"
  shows "unat st \<le> unat b" "unat b + 24 \<le> unat st + unat sz"
proof -
  obtain as cs where b: "bs = as @ b # cs" using assms(2) by (meson split_list)
  show "unat st \<le> unat b" using assms(1) by (cases as) (auto simp: b layout_ok_def)
  show "unat b + 24 \<le> unat st + unat sz"
  proof (cases cs rule: rev_cases)
    case (snoc ds d)
    then show ?thesis using assms(1) by (auto simp: b layout_ok_def sorted_wrt_append)
  qed (use assms(1) in \<open>auto simp: b layout_ok_def\<close>)
qed

lemma layout_insert:
  assumes "layout_ok st sz (as @ h # c # cs)" "unat h + 36 \<le> unat z" "unat z + 36 \<le> unat c" "4 dvd unat z"
  shows "layout_ok st sz (as @ h # z # c # cs)"
proof -
  have "unat a + 36 \<le> unat z" if "a \<in> set as" for a using layout_pair(4)[OF assms(1) that] assms(2) by simp
  moreover have "unat z + 36 \<le> unat d" if "d \<in> set cs" for d
    using layout_pair(5)[OF assms(1) that] assms(3) by simp
  moreover have "hd (as @ h # z # c # cs) = hd (as @ h # c # cs)" by (cases as) simp_all
  ultimately show ?thesis using assms by (auto simp: layout_ok_def sorted_wrt_append)
qed

lemma layout_remove:
  assumes "layout_ok st sz (as @ h # z # c # cs)"
  shows "layout_ok st sz (as @ h # c # cs)"
proof -
  have "hd (as @ h # z # c # cs) = hd (as @ h # c # cs)" by (cases as) simp_all
  then show ?thesis using assms by (auto simp: layout_ok_def sorted_wrt_append)
qed

text \<open>An address between two neighbouring headers is the address of no header.\<close>

lemma between_fresh:
  assumes "layout_ok st sz (as @ h # c # cs)" "unat h < unat z" "unat z < unat c"
  shows "z \<notin> set (as @ h # c # cs)" "z \<noteq> h" "z \<noteq> c" "z \<notin> set as" "z \<notin> set cs"
    "unat st \<le> unat z" "unat z < unat st + unat sz"
proof -
  show "z \<notin> set (as @ h # c # cs)"
    using assms(2,3) layout_pair(4)[OF assms(1), of z] layout_pair(5)[OF assms(1), of z] by auto
  then show "z \<noteq> h" "z \<noteq> c" "z \<notin> set as" "z \<notin> set cs" by auto
  show "unat st \<le> unat z" using layout_bounds(1)[OF assms(1), of h] assms(2) by simp
  show "unat z < unat st + unat sz" using layout_bounds(2)[OF assms(1), of c] assms(3) by simp
qed

lemma coalesced_append: "coalesced F (as @ h # cs) \<longleftrightarrow> coalesced F (as @ [h]) \<and> coalesced F (h # cs)"
proof (induction as)
  case (Cons a as)
  then show ?case by (cases as) auto
qed simp

lemma coalesced_cong: "F \<inter> set bs = G \<inter> set bs \<Longrightarrow> coalesced F bs = coalesced G bs"
  by (induction F bs rule: coalesced.induct) auto

lemma coalesced_mono: "coalesced F bs \<Longrightarrow> G \<inter> set bs \<subseteq> F \<Longrightarrow> coalesced G bs"
  by (induction F bs rule: coalesced.induct) auto

lemma free_bytes_append: "free_bytes F (as @ h # cs) = free_bytes F (as @ [h]) + free_bytes F (h # cs)"
proof (induction as)
  case (Cons a as)
  then show ?case by (cases as) auto
qed simp

lemma free_bytes_cong: "F \<inter> set bs = G \<inter> set bs \<Longrightarrow> free_bytes F bs = free_bytes G bs"
  by (induction F bs rule: free_bytes.induct) auto

text \<open>The last block of a part counts nothing.\<close>

lemma free_bytes_last: "free_bytes F (as @ [h]) = free_bytes G (as @ [h])" if "F \<inter> set as = G \<inter> set as"
  using that
proof (induction as)
  case (Cons a as)
  then show ?case by (cases as) auto
qed simp

text \<open>The used bit.\<close>

lemma magic_used: "(x OR 1) AND 0xfffffffe = x AND 0xfffffffe" "(x OR 1) AND 1 \<noteq> 0" for x :: u32
  by (simp_all add: bit.conj_disj_distrib2)

lemma magic_freed: "(x AND NOT 1) AND 0xfffffffe = x AND 0xfffffffe" "(x AND NOT 1) AND 1 = 0" for x :: u32
proof -
  have "NOT 1 AND 0xfffffffe = (0xfffffffe :: u32)" by simp
  then show "(x AND NOT 1) AND 0xfffffffe = x AND 0xfffffffe" by (simp add: and.assoc)
  show "(x AND NOT 1) AND 1 = 0" by (simp add: and.assoc)
qed

text \<open>What the primitive operations leave alone.\<close>

lemma mh_new_block_simps [simp]:
  "it_magic (mh_new_block hp h z m) = (it_magic m)(z := RT_MEMHEAP_MAGIC)"
  "it_pool (mh_new_block hp h z m) = (it_pool m)(z := hp)"
  "it_next_free (mh_new_block hp h z m) = it_next_free m"
  "it_prev_free (mh_new_block hp h z m) = it_prev_free m"
  "hctl (mh_new_block hp h z m) = hctl m" "hlist (mh_new_block hp h z m) = hlist m"
  "hdata (mh_new_block hp h z m) = hdata m" "herrno (mh_new_block hp h z m) = herrno m"
  "h_heap (mh_new_block hp h z m) = h_heap m"
  by (simp_all add: mh_new_block_def)

lemma mh_new_block_links:
  "h \<noteq> z \<Longrightarrow> it_next (mh_new_block hp h z m) = (it_next m)(z := it_next m h, h := z)"
  "h \<noteq> z \<Longrightarrow> it_prev (mh_new_block hp h z m) = (it_prev m)(z := h, it_next m h := z)"
  by (simp_all add: mh_new_block_def)

lemma mh_account_simps [simp]:
  "it_magic (mh_account hp m) = it_magic m" "it_pool (mh_account hp m) = it_pool m"
  "it_next (mh_account hp m) = it_next m" "it_prev (mh_account hp m) = it_prev m"
  "it_next_free (mh_account hp m) = it_next_free m" "it_prev_free (mh_account hp m) = it_prev_free m"
  "mh_type (hctl (mh_account hp m) x) = mh_type (hctl m x)"
  "mh_start (hctl (mh_account hp m) x) = mh_start (hctl m x)"
  "mh_pool_size (hctl (mh_account hp m) x) = mh_pool_size (hctl m x)"
  "mh_available (hctl (mh_account hp m) x) = mh_available (hctl m x)"
  "mh_free_list (hctl (mh_account hp m) x) = mh_free_list (hctl m x)"
  "hlist (mh_account hp m) = hlist m" "hdata (mh_account hp m) = hdata m"
  "herrno (mh_account hp m) = herrno m" "h_heap (mh_account hp m) = h_heap m"
  by (simp_all add: mh_account_def Let_def)

subsection \<open>The shape of a heap\<close>

definition outside_pool :: "rt_memheap \<Rightarrow> u32 \<Rightarrow> bool" where
  "outside_pool hp a \<longleftrightarrow> unat a < unat (mh_start hp) \<or> unat (mh_start hp) + unat (mh_pool_size hp) \<le> unat a"

definition block_ok :: "u32 \<Rightarrow> heapmem \<Rightarrow> u32 \<Rightarrow> bool" where
  "block_ok heap m b \<longleftrightarrow> it_pool m b = heap \<and> it_magic m b AND RT_MEMHEAP_MASK = RT_MEMHEAP_MAGIC"

definition heap_core :: "u32 \<Rightarrow> heapmem \<Rightarrow> u32 list \<Rightarrow> bool" where
  "heap_core heap m bs \<longleftrightarrow>
     heap \<noteq> RT_NULL \<and> mh_get_type heap m = RT_Object_Class_MemHeap \<and>
     mh_free_list (hctl m heap) = mh_free_header heap \<and> outside_pool (hctl m heap) (mh_free_header heap) \<and>
     layout_ok (mh_start (hctl m heap)) (mh_pool_size (hctl m heap)) bs \<and>
     links (it_next m) (it_prev m) (ring bs) \<and> (\<forall>b \<in> set bs. block_ok heap m b)"

definition mh_shape :: "u32 \<Rightarrow> heapmem \<Rightarrow> u32 list \<Rightarrow> u32 list \<Rightarrow> u32 set \<Rightarrow> bool" where
  "mh_shape heap m bs fs P \<longleftrightarrow>
     heap_core heap m bs \<and> RT_MEMHEAP_IS_USED (last bs) m \<and> free_ring m (mh_free_header heap) fs \<and>
     set fs \<union> P = {b \<in> set bs. \<not> RT_MEMHEAP_IS_USED b m} \<and> set fs \<inter> P = {}"

definition mh_rep :: "u32 \<Rightarrow> heapmem \<Rightarrow> u32 list \<Rightarrow> u32 list \<Rightarrow> bool" where
  "mh_rep heap m bs fs \<longleftrightarrow>
     mh_shape heap m bs fs {} \<and> coalesced (set fs) bs \<and>
     unat (mh_available (hctl m heap)) = free_bytes (set fs) bs"

text \<open>The fields the shape depends on.\<close>

definition same_shape :: "u32 \<Rightarrow> heapmem \<Rightarrow> heapmem \<Rightarrow> bool" where
  "same_shape heap m m' \<longleftrightarrow>
     it_magic m' = it_magic m \<and> it_pool m' = it_pool m \<and> it_next m' = it_next m \<and> it_prev m' = it_prev m \<and>
     it_next_free m' = it_next_free m \<and> it_prev_free m' = it_prev_free m \<and>
     mh_type (hctl m' heap) = mh_type (hctl m heap) \<and> mh_start (hctl m' heap) = mh_start (hctl m heap) \<and>
     mh_pool_size (hctl m' heap) = mh_pool_size (hctl m heap) \<and>
     mh_free_list (hctl m' heap) = mh_free_list (hctl m heap)"

lemma shape_same: "same_shape heap m m' \<Longrightarrow> mh_shape heap m' bs fs P = mh_shape heap m bs fs P"
  by (simp add: same_shape_def mh_shape_def heap_core_def mh_get_type_def outside_pool_def block_ok_def
      free_ring_def RT_MEMHEAP_IS_USED_def)

lemma core_free_fields:
  "heap_core heap (set_next_free i v m) bs = heap_core heap m bs"
  "heap_core heap (set_prev_free i v m) bs = heap_core heap m bs"
  "heap_core heap (mh_unlink_free i m) bs = heap_core heap m bs"
  "heap_core heap (mh_link_free heap i m) bs = heap_core heap m bs"
  by (simp_all add: heap_core_def mh_get_type_def block_ok_def)

lemma used_free_fields [simp]:
  "RT_MEMHEAP_IS_USED b (set_next_free i v m) = RT_MEMHEAP_IS_USED b m"
  "RT_MEMHEAP_IS_USED b (set_prev_free i v m) = RT_MEMHEAP_IS_USED b m"
  "RT_MEMHEAP_IS_USED b (mh_unlink_free i m) = RT_MEMHEAP_IS_USED b m"
  "RT_MEMHEAP_IS_USED b (mh_link_free heap i m) = RT_MEMHEAP_IS_USED b m"
  "RT_MEMHEAP_IS_USED b (set_next i v m) = RT_MEMHEAP_IS_USED b m"
  "RT_MEMHEAP_IS_USED b (set_prev i v m) = RT_MEMHEAP_IS_USED b m"
  "RT_MEMHEAP_IS_USED b (set_magic i v m) \<longleftrightarrow> (if b = i then v AND 1 \<noteq> 0 else RT_MEMHEAP_IS_USED b m)"
  by (simp_all add: RT_MEMHEAP_IS_USED_def del: set_magic_def) (simp add: RT_MEMHEAP_IS_USED_def)

lemma core_facts:
  assumes "heap_core heap m bs"
  shows "heap \<noteq> 0" "mh_get_type heap m = 7" "mh_free_list (hctl m heap) = mh_free_header heap"
    "layout_ok (mh_start (hctl m heap)) (mh_pool_size (hctl m heap)) bs" "distinct bs" "bs \<noteq> []"
    "links (it_next m) (it_prev m) (ring bs)" "\<And>b. b \<in> set bs \<Longrightarrow> block_ok heap m b"
    "mh_free_header heap \<notin> set bs"
proof -
  show l: "layout_ok (mh_start (hctl m heap)) (mh_pool_size (hctl m heap)) bs"
    using assms by (simp add: heap_core_def)
  then show "distinct bs" "bs \<noteq> []" using layout_distinct by (auto simp: layout_ok_def)
  show "mh_free_header heap \<notin> set bs"
    using assms layout_bounds[OF l, of "mh_free_header heap"] by (auto simp: heap_core_def outside_pool_def)
qed (use assms in \<open>auto simp: heap_core_def\<close>)

lemma shape_facts:
  assumes "mh_shape heap m bs fs P"
  shows "heap_core heap m bs" "RT_MEMHEAP_IS_USED (last bs) m" "free_ring m (mh_free_header heap) fs"
    "\<And>b. b \<in> set fs \<or> b \<in> P \<longleftrightarrow> b \<in> set bs \<and> \<not> RT_MEMHEAP_IS_USED b m" "set fs \<inter> P = {}"
    "set fs \<subseteq> set bs" "P \<subseteq> set bs" "last bs \<notin> set fs" "last bs \<notin> P" "distinct fs"
  using assms by (auto simp: mh_shape_def free_ring_def)

text \<open>Two neighbouring blocks: the size of the first, and where the header of the second is.\<close>

lemma size_pair:
  assumes "unat b + 24 \<le> unat c" "it_next m b = c"
  shows "unat b + 24 + unat (MEMITEM_SIZE b m) = unat c"
proof -
  have "b + 24 \<le> c" "unat (b + 24) = unat b + 24"
    using assms(1) unsigned_less[of c, where 'a = nat]
    by (simp_all add: word_le_nat_alt unat_word_ariths)
  then show ?thesis using assms unat_sub[of "b + 24" c]
    by (simp add: MEMITEM_SIZE_def word_le_nat_alt algebra_simps)
qed

lemma core_pair:
  assumes "heap_core heap m (as @ b # c # cs)"
  shows "it_next m b = c" "it_prev m c = b" "unat b + 24 + unat (MEMITEM_SIZE b m) = unat c"
    "12 \<le> unat (MEMITEM_SIZE b m)" "unat b + 36 \<le> unat c"
proof -
  show "it_next m b = c" "it_prev m c = b"
    using core_facts(7)[OF assms] ring_pair[of "it_next m" "it_prev m" as b c cs] by auto
  show "unat b + 36 \<le> unat c" using layout_pair(1)[OF core_facts(4)[OF assms]] .
  then show "unat b + 24 + unat (MEMITEM_SIZE b m) = unat c" using size_pair \<open>it_next m b = c\<close> by simp
  then show "12 \<le> unat (MEMITEM_SIZE b m)" using \<open>unat b + 36 \<le> unat c\<close> by simp
qed

text \<open>A block that is not the tailer has a block behind it.\<close>

lemma block_split:
  assumes "b \<in> set bs" "b \<noteq> last bs"
  obtains as c cs where "bs = as @ b # c # cs"
proof -
  obtain as ds where d: "bs = as @ b # ds" using assms(1) by (meson split_list)
  then show ?thesis using that assms(2) by (cases ds) auto
qed

subsection \<open>The primitive steps\<close>

text \<open>A header is cut off a block: it is pending.\<close>

lemma shape_new:
  assumes "mh_shape heap m (as @ h # c # cs) fs P" "unat h + 36 \<le> unat z" "unat z + 36 \<le> unat c" "4 dvd unat z"
  shows "mh_shape heap (mh_new_block heap h z m) (as @ h # z # c # cs) fs (insert z P)"
proof -
  note s = shape_facts[OF assms(1)] note f = core_facts[OF s(1)]
  have z: "z \<notin> set (as @ h # c # cs)" "z \<noteq> h" using between_fresh[OF f(4), of z] assms(2,3) by auto
  have n: "it_next m h = c" by (rule core_pair(1)[OF s(1)])
  have "links (it_next (mh_new_block heap h z m)) (it_prev (mh_new_block heap h z m)) (ring (as @ h # z # c # cs))"
    using ring_insert[OF f(7,5) z(1)] z(2) n by (simp add: mh_new_block_links)
  moreover have "block_ok heap (mh_new_block heap h z m) b" if "b \<in> set (as @ h # z # c # cs)" for b
    using f(8)[of b] that by (auto simp: block_ok_def)
  ultimately have core: "heap_core heap (mh_new_block heap h z m) (as @ h # z # c # cs)"
    using s(1) layout_insert[OF f(4) assms(2-4)] by (simp add: heap_core_def mh_get_type_def)
  have u: "RT_MEMHEAP_IS_USED b (mh_new_block heap h z m) \<longleftrightarrow> b \<noteq> z \<and> RT_MEMHEAP_IS_USED b m" for b
    by (simp add: RT_MEMHEAP_IS_USED_def)
  have l: "last (as @ h # z # c # cs) = last (as @ h # c # cs)" "last (as @ h # c # cs) \<in> set (as @ h # c # cs)"
    by (simp, rule last_in_set, simp)
  have "free_ring (mh_new_block heap h z m) (mh_free_header heap) fs"
    using s(3) by (subst free_ring_cong[of _ m]) simp_all
  moreover have "set fs \<union> insert z P = {b \<in> set (as @ h # z # c # cs). \<not> RT_MEMHEAP_IS_USED b (mh_new_block heap h z m)}"
    using s(4) z(1) by (auto simp: u)
  moreover have "RT_MEMHEAP_IS_USED (last (as @ h # z # c # cs)) (mh_new_block heap h z m)"
    using s(2) l z(1) by (metis u)
  ultimately show ?thesis using core s(5,6) z(1) by (auto simp: mh_shape_def)
qed

text \<open>A free block leaves the list, or a pending one enters it.\<close>

lemma shape_unlink:
  assumes "mh_shape heap m bs (xs @ i # ys) P"
  shows "mh_shape heap (mh_unlink_free i m) bs (xs @ ys) (insert i P)"
proof -
  note s = shape_facts[OF assms]
  have "set (xs @ ys) \<union> insert i P = set (xs @ i # ys) \<union> P" by auto
  moreover have "set (xs @ ys) \<inter> insert i P = {}" using s(5,10) by auto
  ultimately show ?thesis using assms free_ring_unlink[OF s(3)]
    by (simp add: mh_shape_def core_free_fields del: set_append)
qed

lemma shape_link:
  assumes "mh_shape heap m bs fs (insert i P)" "i \<notin> P"
  shows "mh_shape heap (mh_link_free heap i m) bs (i # fs) P"
proof -
  note s = shape_facts[OF assms(1)] note f = core_facts[OF s(1)]
  have "i \<notin> set (mh_free_header heap # fs)" using s(5,7) f(9) by auto
  then have "free_ring (mh_link_free heap i m) (mh_free_header heap) (i # fs)"
    by (rule free_ring_link[OF s(3) _ f(3)])
  moreover have "set (i # fs) \<union> P = set fs \<union> insert i P" by auto
  moreover have "set (i # fs) \<inter> P = {}" using s(5) assms(2) by auto
  ultimately show ?thesis using assms by (simp add: mh_shape_def core_free_fields del: list.set)
qed

lemma shape_clear_free:
  assumes "mh_shape heap m bs fs P" "i \<in> P"
  shows "mh_shape heap (set_next_free i v m) bs fs P" "mh_shape heap (set_prev_free i v m) bs fs P"
proof -
  note s = shape_facts[OF assms(1)] note f = core_facts[OF s(1)]
  have "i \<notin> set (mh_free_header heap # fs)" using s(5,7) f(9) assms(2) by auto
  then show "mh_shape heap (set_next_free i v m) bs fs P" "mh_shape heap (set_prev_free i v m) bs fs P"
    using assms free_ring_frame[OF s(3)]
    by (simp_all add: mh_shape_def core_free_fields del: set_next_free_def set_prev_free_def)
qed

text \<open>The used bit of a header is set or cleared.\<close>

lemma core_magic:
  assumes "heap_core heap m bs" "v AND 0xfffffffe = it_magic m i AND 0xfffffffe"
  shows "heap_core heap (set_magic i v m) bs"
  using assms by (simp add: heap_core_def mh_get_type_def block_ok_def)

lemma shape_mark_used:
  assumes "mh_shape heap m bs fs (insert i P)" "i \<notin> P"
  shows "mh_shape heap (set_magic i (it_magic m i OR 1) m) bs fs P"
proof -
  note s = shape_facts[OF assms(1)]
  have "heap_core heap (set_magic i (it_magic m i OR 1) m) bs" by (rule core_magic[OF s(1) magic_used(1)])
  moreover have "set fs \<union> P = {b \<in> set bs. \<not> RT_MEMHEAP_IS_USED b (set_magic i (it_magic m i OR 1) m)}"
    using s(4,5) assms(2) magic_used(2) by (auto simp del: set_magic_def)
  moreover have "free_ring (set_magic i (it_magic m i OR 1) m) (mh_free_header heap) fs"
    using s(3) by (subst free_ring_cong[of _ m]) simp_all
  ultimately show ?thesis using s(2,5) magic_used(2) by (auto simp: mh_shape_def simp del: set_magic_def)
qed

lemma shape_mark_free:
  assumes "mh_shape heap m bs fs P" "i \<in> set bs" "RT_MEMHEAP_IS_USED i m" "i \<noteq> last bs"
  shows "mh_shape heap (set_magic i (it_magic m i AND NOT 1) m) bs fs (insert i P)"
proof -
  note s = shape_facts[OF assms(1)]
  have "heap_core heap (set_magic i (it_magic m i AND NOT 1) m) bs" by (rule core_magic[OF s(1) magic_freed(1)])
  moreover have "set fs \<union> insert i P = {b \<in> set bs. \<not> RT_MEMHEAP_IS_USED b (set_magic i (it_magic m i AND NOT 1) m)}"
    using s(4) assms(2,3) magic_freed(2) by (auto simp del: set_magic_def)
  moreover have "free_ring (set_magic i (it_magic m i AND NOT 1) m) (mh_free_header heap) fs"
    using s(3) by (subst free_ring_cong[of _ m]) simp_all
  moreover have "set fs \<inter> insert i P = {}" using s(4)[of i] s(5) assms(3) by auto
  ultimately show ?thesis using s(2) assms(4) by (auto simp: mh_shape_def simp del: set_magic_def)
qed

text \<open>A pending block joins the block before it.\<close>

lemma shape_join:
  assumes "mh_shape heap m (as @ h # z # c # cs) fs (insert z P)" "z \<notin> P"
  shows "mh_shape heap (set_next h c (set_prev c h m)) (as @ h # c # cs) fs P"
proof -
  note s = shape_facts[OF assms(1)] note f = core_facts[OF s(1)]
  have z: "z \<notin> set fs" "z \<notin> set (as @ h # c # cs)" using s(5) f(5) by auto
  have "heap_core heap (set_next h c (set_prev c h m)) (as @ h # c # cs)"
    using s(1) ring_remove[OF f(7,5)] layout_remove[OF f(4)]
    by (simp add: heap_core_def mh_get_type_def block_ok_def)
  moreover have "set fs \<union> P = {b \<in> set (as @ h # c # cs). \<not> RT_MEMHEAP_IS_USED b m}"
  proof (rule set_eqI)
    show "b \<in> set fs \<union> P \<longleftrightarrow> b \<in> {b \<in> set (as @ h # c # cs). \<not> RT_MEMHEAP_IS_USED b m}" for b
      using s(4)[of b] z assms(2) by auto
  qed
  moreover have "free_ring (set_next h c (set_prev c h m)) (mh_free_header heap) fs"
    using s(3) by (subst free_ring_cong[of _ m]) simp_all
  ultimately show ?thesis using s(2,5)
    by (auto simp: mh_shape_def simp del: set_next_def set_prev_def)
qed

subsection \<open>Free bytes and neighbours\<close>

lemma free_bytes_insert:
  assumes "z \<notin> set (as @ h # c # cs)" "distinct (as @ h # c # cs)"
  shows "free_bytes (insert z F) (as @ h # z # c # cs) + (if h \<in> F then unat c - unat h - 24 else 0) =
    free_bytes F (as @ h # c # cs) + (if h \<in> F then unat z - unat h - 24 else 0) + (unat c - unat z - 24)"
proof -
  have "free_bytes (insert z F) (as @ [h]) = free_bytes F (as @ [h])"
    "free_bytes (insert z F) (c # cs) = free_bytes F (c # cs)"
    using assms by (auto intro: free_bytes_cong)
  then show ?thesis using assms(1) by (auto simp: free_bytes_append[of _ as h "z # c # cs"] free_bytes_append[of _ as h "c # cs"])
qed

lemma free_bytes_flip:
  assumes "h \<notin> F" "distinct (as @ h # c # cs)"
  shows "free_bytes (insert h F) (as @ h # c # cs) = free_bytes F (as @ h # c # cs) + (unat c - unat h - 24)"
proof -
  have "free_bytes (insert h F) (as @ [h]) = free_bytes F (as @ [h])"
    using assms by (intro free_bytes_last) auto
  moreover have "free_bytes (insert h F) (c # cs) = free_bytes F (c # cs)"
    using assms by (intro free_bytes_cong) auto
  ultimately show ?thesis using assms(1) by (simp add: free_bytes_append[of _ as h "c # cs"])
qed

lemma coalesced_insert:
  assumes "coalesced F (as @ h # c # cs)" "h \<notin> F" "c \<notin> F" "z \<notin> set (as @ h # c # cs)"
  shows "coalesced (insert z F) (as @ h # z # c # cs)"
proof -
  have "coalesced (insert z F) (as @ [h])" "coalesced (insert z F) (c # cs)"
    using assms(1) coalesced_append[of F as h "c # cs"] assms(4)
    by (auto intro: coalesced_mono[of F])
  then show ?thesis using assms by (auto simp: coalesced_append[of _ as h "z # c # cs"])
qed

lemma coalesced_behind:
  assumes "coalesced F (as @ h # c # cs)" "h \<in> F"
  shows "c \<notin> F" "as \<noteq> [] \<Longrightarrow> last as \<notin> F"
  using assms coalesced_append[of F as h "c # cs"]
  by (simp_all) (cases as rule: rev_cases; simp add: coalesced_append[of F _ _ "[h]"])

text \<open>The payloads in use, from the first byte to the byte behind the last.\<close>

fun extents :: "u32 set \<Rightarrow> u32 list \<Rightarrow> (nat \<times> nat) set" where
  "extents F (a # b # bs) = (if a \<in> F then {} else {(unat a + 24, unat b)}) \<union> extents F (b # bs)"
| "extents F _ = {}"

lemma extents_append: "extents F (as @ h # cs) = extents F (as @ [h]) \<union> extents F (h # cs)"
proof (induction as)
  case (Cons a as)
  then show ?case by (cases as) auto
qed simp

lemma extents_cong: "F \<inter> set bs = G \<inter> set bs \<Longrightarrow> extents F bs = extents G bs"
  by (induction F bs rule: extents.induct) auto

lemma extents_last: "extents F (as @ [h]) = extents G (as @ [h])" if "F \<inter> set as = G \<inter> set as"
  using that
proof (induction as)
  case (Cons a as)
  then show ?case by (cases as) auto
qed simp

lemma extents_iff: "(s, e) \<in> extents F bs \<longleftrightarrow>
    (\<exists>as a b cs. bs = as @ a # b # cs \<and> a \<notin> F \<and> s = unat a + 24 \<and> e = unat b)"
proof (induction F bs rule: extents.induct)
  case (1 F x y bs)
  have "(\<exists>as a b cs. x # y # bs = as @ a # b # cs \<and> a \<notin> F \<and> s = unat a + 24 \<and> e = unat b) \<longleftrightarrow>
      x \<notin> F \<and> s = unat x + 24 \<and> e = unat y \<or>
      (\<exists>as a b cs. y # bs = as @ a # b # cs \<and> a \<notin> F \<and> s = unat a + 24 \<and> e = unat b)" (is "?l \<longleftrightarrow> ?x \<or> ?r")
  proof
    assume ?l
    then obtain as a b cs where e: "x # y # bs = as @ a # b # cs" "a \<notin> F" "s = unat a + 24" "e = unat b" by blast
    then show "?x \<or> ?r" by (cases as) auto
  next
    assume "?x \<or> ?r"
    then show ?l by (metis append_Cons append_Nil)
  qed
  then show ?case using 1 by auto
qed auto

text \<open>Cutting and taking blocks.\<close>

lemma extents_cut:
  assumes "z \<notin> set (as @ h # c # cs)" "distinct (as @ h # c # cs)" "h \<notin> F"
  shows "extents (insert z F) (as @ h # z # c # cs) =
    insert (unat h + 24, unat z) (extents (insert h F) (as @ h # c # cs))"
proof -
  have "extents (insert z F) (as @ [h]) = extents (insert h F) (as @ [h])"
    using assms by (intro extents_last) auto
  moreover have "extents (insert z F) (c # cs) = extents (insert h F) (c # cs)"
    using assms by (intro extents_cong) auto
  moreover have "h \<notin> insert z F" using assms by auto
  ultimately show ?thesis
    by (simp add: extents_append[of _ as h "z # c # cs"] extents_append[of _ as h "c # cs"])
qed

lemma extents_take:
  assumes "distinct (as @ h # c # cs)" "h \<notin> F"
  shows "extents F (as @ h # c # cs) = insert (unat h + 24, unat c) (extents (insert h F) (as @ h # c # cs))"
proof -
  have "extents F (as @ [h]) = extents (insert h F) (as @ [h])"
    using assms by (intro extents_last) auto
  moreover have "extents F (c # cs) = extents (insert h F) (c # cs)"
    using assms by (intro extents_cong) auto
  ultimately show ?thesis using assms by (simp add: extents_append[of _ as h "c # cs"])
qed

end
