(* ===== verification/Heap_Ops.thy ===== *)
theory Heap_Ops
  imports Heap_Inv
begin

text \<open>
  What \<open>rt_memheap_init\<close>, \<open>rt_memheap_alloc\<close>, \<open>rt_memheap_free\<close> and \<open>rt_memheap_realloc\<close> do to a heap that
  satisfies the invariant, and the properties of the heap: payloads that are in use never overlap, and what
  is given back is joined with what is free around it.
\<close>

subsection \<open>Taking the block that was found\<close>

text \<open>The header that a request of \<open>sz\<close> bytes cuts off, inside the payload of the block.\<close>

lemma cut_address:
  assumes "heap_core heap m (as @ h # c # cs)" "unat sz + 36 \<le> unat (MEMITEM_SIZE h m)"
    "12 \<le> unat sz" "4 dvd unat sz"
  shows "unat (h + sz + 24) = unat h + unat sz + 24" "unat h + 36 \<le> unat (h + sz + 24)"
    "unat (h + sz + 24) + 36 \<le> unat c" "4 dvd unat (h + sz + 24)"
proof -
  note p = core_pair[OF assms(1)]
  have c: "unat h + unat sz + 60 \<le> unat c" using p(3) assms(2) by simp
  then show e: "unat (h + sz + 24) = unat h + unat sz + 24"
    using unsigned_less[of c, where 'a = nat] by (simp add: unat_word_ariths)
  show "unat h + 36 \<le> unat (h + sz + 24)" "unat (h + sz + 24) + 36 \<le> unat c" using e c assms(3) by simp_all
  show "4 dvd unat (h + sz + 24)" using e assms(4) layout_pair(2)[OF core_facts(4)[OF assms(1)]] by simp
qed

lemma rep_facts:
  assumes "mh_rep heap m bs fs"
  shows "mh_shape heap m bs fs {}" "heap_core heap m bs" "distinct bs" "coalesced (set fs) bs"
    "unat (mh_available (hctl m heap)) = free_bytes (set fs) bs"
proof -
  show "mh_shape heap m bs fs {}" "coalesced (set fs) bs"
    "unat (mh_available (hctl m heap)) = free_bytes (set fs) bs" using assms by (simp_all add: mh_rep_def)
  then show "heap_core heap m bs" "distinct bs" using shape_facts(1) core_facts(5) by blast+
qed

lemma take_split_ok:
  assumes r: "mh_rep heap m (as @ h # c # cs) (xs @ h # ys)"
    and s: "unat sz + 36 \<le> unat (MEMITEM_SIZE h m)" "12 \<le> unat sz" "4 dvd unat sz"
  defines "m' \<equiv> mh_take_split heap h sz m" and "z \<equiv> h + sz + 24"
  shows "mh_rep heap (set_magic h (it_magic m' h OR 1) m') (as @ h # z # c # cs) (z # xs @ ys)"
    "extents (set (z # xs @ ys)) (as @ h # z # c # cs) =
     insert (unat h + 24, unat h + 24 + unat sz) (extents (set (xs @ h # ys)) (as @ h # c # cs))"
proof -
  note f = rep_facts[OF r] note a = cut_address[OF f(2) s, folded z_def] and p = core_pair[OF f(2)]
  have z: "z \<notin> set (as @ h # c # cs)" "z \<noteq> h"
    using between_fresh[OF core_facts(4)[OF f(2)], of z] a by auto
  have d: "h \<notin> set (xs @ ys)" using shape_facts(10)[OF f(1)] by simp
  have F: "set (xs @ h # ys) = insert h (set (xs @ ys))" by auto
  define m2 where "m2 = mh_unlink_free h (mh_new_block heap h z m)"
  define m4 where "m4 = mh_link_free heap z (set_prev_free h 0 (set_next_free h 0 m2))"
  have "mh_shape heap (mh_new_block heap h z m) (as @ h # z # c # cs) (xs @ h # ys) (insert z {})"
    by (rule shape_new[OF f(1) a(2-4)])
  then have "mh_shape heap m2 (as @ h # z # c # cs) (xs @ ys) {h, z}"
    unfolding m2_def by (rule shape_unlink)
  then have "mh_shape heap (set_prev_free h 0 (set_next_free h 0 m2)) (as @ h # z # c # cs) (xs @ ys) (insert z {h})"
    by (intro shape_clear_free) (simp_all add: insert_commute)
  then have "mh_shape heap m4 (as @ h # z # c # cs) (z # xs @ ys) (insert h {})"
    unfolding m4_def by (rule shape_link) (use z in simp)
  then have "mh_shape heap (set_magic h (it_magic m4 h OR 1) m4) (as @ h # z # c # cs) (z # xs @ ys) {}"
    by (rule shape_mark_used) simp
  then have "mh_shape heap (set_magic h (it_magic m' h OR 1) m') (as @ h # z # c # cs) (z # xs @ ys) {}"
    by (subst shape_same) (simp_all add: same_shape_def m'_def mh_take_split_def m4_def m2_def Let_def z_def)
  moreover have "coalesced (insert z (set (xs @ ys))) (as @ h # z # c # cs)"
    using coalesced_behind(1)[OF f(4)] f(4) d z by (intro coalesced_insert) (auto intro: coalesced_mono)
  moreover have "unat (mh_available (hctl m heap) - sz - 24) = free_bytes (set (z # xs @ ys)) (as @ h # z # c # cs)"
    using free_bytes_insert[OF z(1) f(3), of "set (xs @ ys)"] free_bytes_flip[OF d f(3)] f(5) F a p(3) s(1) d
    by (simp add: unat_sub word_le_nat_alt)
  ultimately show "mh_rep heap (set_magic h (it_magic m' h OR 1) m') (as @ h # z # c # cs) (z # xs @ ys)"
    by (simp add: mh_rep_def m'_def mh_take_split_def Let_def)
  show "extents (set (z # xs @ ys)) (as @ h # z # c # cs) =
     insert (unat h + 24, unat h + 24 + unat sz) (extents (set (xs @ h # ys)) (as @ h # c # cs))"
    unfolding F extents_cut[OF z(1) f(3) d, unfolded a(1)] list.set by (simp add: ac_simps)
qed

lemma take_whole_ok:
  assumes r: "mh_rep heap m (as @ h # c # cs) (xs @ h # ys)"
  defines "m' \<equiv> mh_take_whole heap h (MEMITEM_SIZE h m) m"
  shows "mh_rep heap (set_magic h (it_magic m' h OR 1) m') (as @ h # c # cs) (xs @ ys)"
    "extents (set (xs @ ys)) (as @ h # c # cs) =
     insert (unat h + 24, unat c) (extents (set (xs @ h # ys)) (as @ h # c # cs))"
proof -
  note f = rep_facts[OF r] and p = core_pair[OF rep_facts(2)[OF r]]
  have d: "h \<notin> set (xs @ ys)" using shape_facts(10)[OF f(1)] by simp
  have F: "set (xs @ h # ys) = insert h (set (xs @ ys))" by auto
  define m3 where "m3 = set_prev_free h 0 (set_next_free h 0 (mh_unlink_free h m))"
  have "mh_shape heap m3 (as @ h # c # cs) (xs @ ys) (insert h {})"
    unfolding m3_def by (intro shape_clear_free shape_unlink f(1)) simp_all
  then have "mh_shape heap (set_magic h (it_magic m3 h OR 1) m3) (as @ h # c # cs) (xs @ ys) {}"
    by (rule shape_mark_used) simp
  then have "mh_shape heap (set_magic h (it_magic m' h OR 1) m') (as @ h # c # cs) (xs @ ys) {}"
    by (subst shape_same) (simp_all add: same_shape_def m'_def mh_take_whole_def m3_def mh_unlink_free_def Let_def)
  moreover have "coalesced (set (xs @ ys)) (as @ h # c # cs)"
    by (rule coalesced_mono[OF f(4)]) auto
  moreover have "unat (mh_available (hctl m heap) - MEMITEM_SIZE h m) = free_bytes (set (xs @ ys)) (as @ h # c # cs)"
    using free_bytes_flip[OF d f(3)] f(5) F p(3) by (simp add: unat_sub word_le_nat_alt)
  ultimately show "mh_rep heap (set_magic h (it_magic m' h OR 1) m') (as @ h # c # cs) (xs @ ys)"
    by (simp add: mh_rep_def m'_def mh_take_whole_def Let_def)
  show "extents (set (xs @ ys)) (as @ h # c # cs) =
     insert (unat h + 24, unat c) (extents (set (xs @ h # ys)) (as @ h # c # cs))"
    using extents_take[OF f(3) d] by (simp add: F)
qed

subsection \<open>Allocating\<close>

text \<open>Rounding the request up keeps it above what was asked, unless the sum wraps.\<close>

lemma mh_request_bounds:
  "12 \<le> unat (mh_request sz)" "unat sz \<le> 2 ^ 32 - 4 \<Longrightarrow> unat sz \<le> unat (mh_request sz)"
  "4 dvd unat (mh_request sz)"
proof -
  show "12 \<le> unat (mh_request sz)"
    by (auto simp: mh_request_def Let_def word_less_nat_alt)
  show "unat sz \<le> 2 ^ 32 - 4 \<Longrightarrow> unat sz \<le> unat (mh_request sz)"
    using align_up_4(3)[of sz] by (auto simp: mh_request_def Let_def word_less_nat_alt)
  show "4 dvd unat (mh_request sz)"
  proof (cases "RT_ALIGN sz 4 < 12")
    case False
    have "unat (RT_ALIGN sz 4) = unat (sz + 3) div 4 * 4"
      using align_down_4[of "sz + 3"] minus_mod_eq_div_mult[of "unat (sz + 3)" 4]
      by (simp add: RT_ALIGN_def RT_ALIGN_DOWN_def add.commute)
    then show ?thesis using False by (simp add: mh_request_def Let_def)
  qed (simp add: mh_request_def)
qed

text \<open>What an allocation may return: the start of a new payload that is large enough.\<close>

definition alloc_ok :: "u32 \<Rightarrow> heapmem \<Rightarrow> u32 list \<Rightarrow> u32 list \<Rightarrow> u32 \<Rightarrow> u32 \<Rightarrow> heapmem \<Rightarrow> bool" where
  "alloc_ok heap m bs fs sz p m' \<longleftrightarrow>
     (\<forall>e. (unat p, e) \<notin> extents (set fs) bs) \<and> hdata m' = hdata m \<and>
     (\<exists>bs' fs' e. mh_rep heap m' bs' fs' \<and> 4 dvd unat p \<and> unat p + unat sz \<le> e \<and>
        extents (set fs') bs' = insert (unat p, e) (extents (set fs) bs))"

lemma extents_not_free: "h \<in> F \<Longrightarrow> (unat h + 24, e) \<notin> extents F bs"
  by (auto simp: extents_iff simp flip: word_unat_eq_iff)

lemma take_hdata [simp]:
  "hdata (mh_take_split heap h sz m) = hdata m" "hdata (mh_take_whole heap h sz m) = hdata m"
  by (simp_all add: mh_take_split_def mh_take_whole_def Let_def)

lemma alloc_okI:
  "mh_rep heap m' bs' fs' \<Longrightarrow> extents (set fs') bs' = insert (s, e) (extents (set fs) bs) \<Longrightarrow>
   unat p = s \<Longrightarrow> \<forall>e. (s, e) \<notin> extents (set fs) bs \<Longrightarrow> hdata m' = hdata m \<Longrightarrow>
   4 dvd s \<Longrightarrow> s + unat sz \<le> e \<Longrightarrow> alloc_ok heap m bs fs sz p m'"
  by (auto simp: alloc_ok_def)

lemma found_ok:
  assumes r: "mh_rep heap m bs fs" and h: "h \<in> set fs" "sz \<le> MEMITEM_SIZE h m"
    and s: "12 \<le> unat sz" "4 dvd unat sz"
  defines "m' \<equiv> (if sz + 24 + 12 \<le> MEMITEM_SIZE h m then mh_take_split heap h sz m
      else mh_take_whole heap h (MEMITEM_SIZE h m) m)"
  shows "h + 24 \<noteq> 0" "alloc_ok heap m bs fs sz (h + 24) (set_magic h (it_magic m' h OR 1) m')"
proof -
  note f = rep_facts[OF r]
  have "h \<in> set bs" "h \<noteq> last bs" using h(1) shape_facts(8)[OF f(1)] subsetD[OF shape_facts(6)[OF f(1)] h(1)] by metis+
  then obtain as c cs where b: "bs = as @ h # c # cs" by (rule block_split)
  obtain xs ys where x: "fs = xs @ h # ys" using h(1) by (meson split_list)
  note p = core_pair[OF f(2)[unfolded b]]
  have c: "unat c < 2 ^ 32" using unsigned_less[of c, where 'a = nat] by simp
  then have a: "unat (h + 24) = unat h + 24" using p(3) by (simp add: unat_word_ariths)
  then show "h + 24 \<noteq> 0" by (metis add_is_0 unat_0 zero_neq_numeral)
  have nf: "\<forall>e. (unat h + 24, e) \<notin> extents (set fs) bs" using extents_not_free[OF h(1)] by simp
  have al: "4 dvd unat (h + 24)" using layout_pair(2)[OF core_facts(4)[OF f(2)[unfolded b]]] a by simp
  have w: "unat (sz + 24 + 12) = unat sz + 36" "unat sz \<le> unat (MEMITEM_SIZE h m)"
    using h(2) c p(3) layout_bounds(2)[OF core_facts(4)[OF f(2)[unfolded b]], of c]
      core_facts(4)[OF f(2)[unfolded b]] by (simp_all add: word_le_nat_alt unat_word_ariths layout_ok_def)
  show "alloc_ok heap m bs fs sz (h + 24) (set_magic h (it_magic m' h OR 1) m')"
  proof (cases "sz + 24 + 12 \<le> MEMITEM_SIZE h m")
    case True
    then have "unat sz + 36 \<le> unat (MEMITEM_SIZE h m)" using w by (simp add: word_le_nat_alt)
    note t = take_split_ok[OF r[unfolded b x] this s]
    show ?thesis unfolding b x m'_def if_P[OF True] by (rule alloc_okI[OF t a]) (use al a nf[unfolded x b] in simp_all)
  next
    case False
    note t = take_whole_ok[OF r[unfolded b x]]
    show ?thesis unfolding b x m'_def if_not_P[OF False] by (rule alloc_okI[OF t a]) (use al a w(2) p(3) nf[unfolded x b] in simp_all)
  qed
qed

lemma search_ok:
  assumes r: "mh_rep heap m bs fs" and z: "sz \<noteq> 0"
  shows "\<exists>h f. mh_search m (mh_free_header heap) sz (it_next_free m (mh_free_header heap)) 0 = Some (h, f) \<and>
    (case find (\<lambda>i. sz \<le> MEMITEM_SIZE i m) fs of
       Some i \<Rightarrow> h = i \<and> f = MEMITEM_SIZE i m | None \<Rightarrow> f < sz)"
proof (rule mh_search_first)
  show "links (it_next_free m) (it_prev_free m) (mh_free_header heap # fs @ [mh_free_header heap])"
    "mh_free_header heap \<notin> set fs"
    using shape_facts(3)[OF rep_facts(1)[OF r]] by (simp_all add: free_ring_def)
  show "0 < sz" using z by (simp add: word_neq_0_conv)
qed

text \<open>Every outcome of an allocation.\<close>

lemma alloc_cases:
  assumes r: "mh_rep heap m bs fs"
  shows "\<exists>p m'. rt_memheap_alloc lk heap sz m = Some (p, m') \<and>
    (if mh_request sz < mh_available (hctl m heap) \<and> lk heap = RT_EOK \<and> (\<exists>i \<in> set fs. mh_request sz \<le> MEMITEM_SIZE i m)
     then p \<noteq> RT_NULL \<and> alloc_ok heap m bs fs (mh_request sz) p m'
     else p = RT_NULL \<and> (m' = m \<or> lk heap \<noteq> RT_EOK \<and> m' = m\<lparr>herrno := lk heap\<rparr>))"
proof (cases "mh_request sz < mh_available (hctl m heap) \<and> lk heap = RT_EOK")
  case True
  note c = core_facts[OF rep_facts(2)[OF r]]
  have "mh_request sz \<noteq> 0" using mh_request_bounds(1)[of sz] by auto
  then obtain h f where s: "mh_search m (mh_free_header heap) (mh_request sz) (it_next_free m (mh_free_header heap)) 0 = Some (h, f)"
    "case find (\<lambda>i. mh_request sz \<le> MEMITEM_SIZE i m) fs of Some i \<Rightarrow> h = i \<and> f = MEMITEM_SIZE i m | None \<Rightarrow> f < mh_request sz"
    using search_ok[OF r] by blast
  show ?thesis
  proof (cases "find (\<lambda>i. mh_request sz \<le> MEMITEM_SIZE i m) fs")
    case None
    then have n: "\<not> (\<exists>i \<in> set fs. mh_request sz \<le> MEMITEM_SIZE i m)" by (auto simp: find_None_iff)
    have "\<not> mh_request sz \<le> f" using s(2) None by (simp add: not_le)
    then show ?thesis using True n s(1) c(1-3) by (simp add: rt_memheap_alloc_def Let_def)
  next
    case (Some i)
    then have i: "i \<in> set fs" "mh_request sz \<le> MEMITEM_SIZE i m" by (auto simp: find_Some_iff in_set_conv_nth)
    have h: "h = i" "f = MEMITEM_SIZE i m" using s(2) Some by simp_all
    show ?thesis using True i s(1) c(1-3) found_ok[OF r i mh_request_bounds(1,3)]
      by (auto simp: rt_memheap_alloc_def Let_def h)
  qed
qed (use core_facts[OF rep_facts(2)[OF r]] in \<open>auto simp: rt_memheap_alloc_def Let_def\<close>)

text \<open>Two payloads in use do not overlap: between them lies at least a header.\<close>

lemma extents_apart:
  assumes "layout_ok st ps bs" "(s, e) \<in> extents F bs" "(s', e') \<in> extents F bs" "s < s'"
  shows "e + 24 \<le> s'"
proof -
  obtain as a b cs where a: "bs = as @ a # b # cs" "s = unat a + 24" "e = unat b"
    using assms(2) by (auto simp: extents_iff)
  obtain ds d g gs where d: "bs = ds @ d # g # gs" "s' = unat d + 24" using assms(3) by (auto simp: extents_iff)
  have l: "layout_ok st ps (as @ a # b # cs)" using assms(1) a(1) by simp
  have "d \<in> set (as @ a # b # cs)" using a(1) d(1) by (metis in_set_conv_decomp)
  then show ?thesis using layout_pair(4)[OF l, of d] layout_pair(5)[OF l, of d] layout_pair(1)[OF l] a d assms(4) by auto
qed

lemma extents_bounds:
  assumes "layout_ok st ps bs" "(s, e) \<in> extents F bs"
  shows "4 dvd s" "unat st + 24 \<le> s" "s + 12 \<le> e" "e + 24 \<le> unat st + unat ps"
proof -
  obtain as a b cs where a: "bs = as @ a # b # cs" "s = unat a + 24" "e = unat b"
    using assms(2) by (auto simp: extents_iff)
  note l = assms(1)[unfolded a(1)]
  show "4 dvd s" "s + 12 \<le> e" using layout_pair(1,2)[OF l] a(2,3) by simp_all
  show "unat st + 24 \<le> s" "e + 24 \<le> unat st + unat ps"
    using layout_bounds(1)[OF l, of a] layout_bounds(2)[OF l, of b] a(2,3) by simp_all
qed

lemma extents_unique: "layout_ok st ps bs \<Longrightarrow> (s, e) \<in> extents F bs \<Longrightarrow> (s, e') \<in> extents F bs \<Longrightarrow> e = e'"
proof -
  assume l: "layout_ok st ps bs" and e: "(s, e) \<in> extents F bs" "(s, e') \<in> extents F bs"
  obtain as a b cs where a: "bs = as @ a # b # cs" "s = unat a + 24" "e = unat b"
    using e(1) by (auto simp: extents_iff)
  obtain ds g cs' where d: "bs = ds @ a # g # cs'" "e' = unat g"
    using e(2) a(2) by (auto simp: extents_iff simp flip: word_unat_eq_iff)
  note l1 = l[unfolded a(1)] and l2 = l[unfolded d(1)]
  have "b \<in> set (ds @ a # g # cs')" "g \<in> set (as @ a # b # cs)" using a(1) d(1) by (metis in_set_conv_decomp append_Cons append_assoc append_Nil)+
  then have "unat g \<le> unat b" "unat b \<le> unat g"
    using layout_pair(1)[OF l1] layout_pair(4)[OF l2, of b] layout_pair(5)[OF l2, of b]
      layout_pair(1)[OF l2] layout_pair(4)[OF l1, of g] layout_pair(5)[OF l1, of g] by auto
  then show "e = e'" using a(3) d(2) by simp
qed

subsection \<open>Freeing\<close>

text \<open>Joining two free blocks: a header more of free bytes, and the same payloads in use.\<close>

lemma free_bytes_join:
  assumes "h \<in> F" "z \<in> F" "unat h + 24 \<le> unat z" "unat z + 24 \<le> unat c"
  shows "free_bytes F (as @ h # c # cs) = free_bytes F (as @ h # z # c # cs) + 24"
  using assms by (simp add: free_bytes_append[of F as h "c # cs"] free_bytes_append[of F as h "z # c # cs"])

lemma extents_join:
  assumes "h \<in> F" "z \<in> F"
  shows "extents F (as @ h # z # c # cs) = extents F (as @ h # c # cs)"
  using assms by (simp add: extents_append[of F as h "c # cs"] extents_append[of F as h "z # c # cs"])

lemma without_other:
  assumes "z \<notin> set bs"
  shows "free_bytes (insert z F) bs = free_bytes F bs" "extents (insert z F) bs = extents F bs"
    "coalesced (insert z F) bs = coalesced F bs"
proof -
  have e: "insert z F \<inter> set bs = F \<inter> set bs" using assms by auto
  show "free_bytes (insert z F) bs = free_bytes F bs" by (rule free_bytes_cong[OF e])
  show "extents (insert z F) bs = extents F bs" by (rule extents_cong[OF e])
  show "coalesced (insert z F) bs = coalesced F bs" by (rule coalesced_cong[OF e])
qed

text \<open>
  A heap in the middle of freeing the block \<open>h\<close>: the number of free bytes counts the pending blocks, and
  only \<open>h\<close> and the block \<open>c\<close> behind it may both be free. \<open>E\<close> are the payloads still in use.
\<close>

definition freeing :: "u32 \<Rightarrow> heapmem \<Rightarrow> u32 list \<Rightarrow> u32 list \<Rightarrow> u32 set \<Rightarrow> (nat \<times> nat) set \<Rightarrow> bool" where
  "freeing heap m bs fs P E \<longleftrightarrow>
     mh_shape heap m bs fs P \<and> unat (mh_available (hctl m heap)) = free_bytes (set fs \<union> P) bs \<and>
     E = extents (set fs \<union> P) bs"

text \<open>The counter cannot wrap: the free bytes lie in the pool.\<close>

lemma free_bytes_bound: "sorted_wrt (\<lambda>a b. unat a + 36 \<le> unat b) bs \<Longrightarrow> bs \<noteq> [] \<Longrightarrow>
    free_bytes F bs + unat (hd bs) \<le> unat (last bs)"
proof (induction F bs rule: free_bytes.induct)
  case (1 F a b bs)
  then have "free_bytes F (b # bs) + unat b \<le> unat (last (b # bs))" "unat a + 36 \<le> unat b" by simp_all
  moreover have "free_bytes F (a # b # bs) \<le> unat b - unat a - 24 + free_bytes F (b # bs)"
    "last (a # b # bs) = last (b # bs)" by simp_all
  ultimately show ?case unfolding list.sel by arith
qed auto

lemma available_add:
  assumes "mh_shape heap m' bs fs P" "free_bytes F bs = unat (mh_available (hctl m heap)) + unat d"
  shows "unat (mh_available (hctl m heap) + d) = free_bytes F bs"
proof -
  have l: "layout_ok (mh_start (hctl m' heap)) (mh_pool_size (hctl m' heap)) bs" "bs \<noteq> []"
    using core_facts(4,6)[OF shape_facts(1)[OF assms(1)]] .
  then have "free_bytes F bs < 2 ^ 32"
    using free_bytes_bound[of bs F] unsigned_less[of "last bs", where 'a = nat] by (simp add: layout_ok_def)
  then show ?thesis using assms(2) by (simp add: unat_word_ariths)
qed

lemma shape_available: "mh_shape heap (mh_available_add heap d m) bs fs P = mh_shape heap m bs fs P"
  by (rule shape_same) (simp add: same_shape_def)

lemma freeing_join:
  assumes "freeing heap m (as @ h # z # c # cs) fs (insert z P) E" "z \<notin> P" "h \<in> set fs \<union> P"
  shows "freeing heap (set_next h c (set_prev c h (mh_available_add heap 24 m))) (as @ h # c # cs) fs P E"
proof -
  have s: "mh_shape heap m (as @ h # z # c # cs) fs (insert z P)" using assms(1) by (simp add: freeing_def)
  note f = core_facts[OF shape_facts(1)[OF s]]
  have z: "z \<notin> set (as @ h # c # cs)" using f(5) by auto
  have "mh_shape heap (mh_available_add heap 24 m) (as @ h # z # c # cs) fs (insert z P)"
    using s by (simp only: shape_available)
  then have sh: "mh_shape heap (set_next h c (set_prev c h (mh_available_add heap 24 m))) (as @ h # c # cs) fs P"
    by (rule shape_join) (rule assms(2))
  have o: "unat h + 36 \<le> unat z" "unat z + 36 \<le> unat c"
    using layout_pair(1)[OF f(4)] layout_pair(1)[of _ _ "as @ [h]" z c cs] f(4) by simp_all
  have F: "set fs \<union> insert z P = insert z (set fs \<union> P)" by auto
  have "free_bytes (set fs \<union> P) (as @ h # c # cs) = unat (mh_available (hctl m heap)) + 24"
    using assms(1,3) free_bytes_join[of h "insert z (set fs \<union> P)" z c as cs] o without_other(1)[OF z]
    by (simp add: freeing_def F)
  then have "unat (mh_available (hctl m heap) + 24) = free_bytes (set fs \<union> P) (as @ h # c # cs)"
    by (intro available_add[OF sh]) simp
  moreover have "E = extents (set fs \<union> P) (as @ h # c # cs)"
    using assms(1,3) extents_join[of h "insert z (set fs \<union> P)" z as c cs] without_other(2)[OF z]
    by (simp add: freeing_def F)
  ultimately show ?thesis using sh by (simp add: freeing_def)
qed

lemma freeing_unlink:
  assumes "freeing heap m bs (xs @ i # ys) P E"
  shows "freeing heap (mh_unlink_free i m) bs (xs @ ys) (insert i P) E"
proof -
  have "set (xs @ i # ys) \<union> P = set (xs @ ys) \<union> insert i P" by auto
  then show ?thesis using assms shape_unlink[of heap m bs xs i ys P] by (simp add: freeing_def del: set_append)
qed

lemma freeing_link:
  assumes "freeing heap m bs fs (insert i P) E" "i \<notin> P"
  shows "freeing heap (mh_link_free heap i m) bs (i # fs) P E"
proof -
  have "set fs \<union> insert i P = set (i # fs) \<union> P" by auto
  then show ?thesis using assms shape_link[of heap m bs fs i P] by (simp add: freeing_def del: list.set)
qed

text \<open>The block is marked free.\<close>

lemma freeing_mark:
  assumes r: "mh_rep heap m (as @ h # c # cs) fs" and h: "h \<notin> set fs"
  shows "freeing heap (mh_available_add heap (MEMITEM_SIZE h m) (set_magic h (it_magic m h AND NOT 1) m))
    (as @ h # c # cs) fs {h} (extents (set fs) (as @ h # c # cs) - {(unat h + 24, unat c)})"
proof -
  note f = rep_facts[OF r]
  have u: "RT_MEMHEAP_IS_USED h m" using shape_facts(4)[OF f(1), of h] h by auto
  have "mh_shape heap (set_magic h (it_magic m h AND NOT 1) m) (as @ h # c # cs) fs {h}"
    by (rule shape_mark_free[OF f(1) _ u]) (use f(3) in auto)
  then have sh: "mh_shape heap (mh_available_add heap (MEMITEM_SIZE h m) (set_magic h (it_magic m h AND NOT 1) m))
      (as @ h # c # cs) fs {h}" by (simp only: shape_available)
  have "unat (mh_available (hctl m heap) + MEMITEM_SIZE h m) = free_bytes (insert h (set fs)) (as @ h # c # cs)"
    by (rule available_add[OF sh]) (use free_bytes_flip[OF h f(3)] core_pair(3)[OF f(2)] f(5) in simp)
  moreover have "(unat h + 24, unat c) \<notin> extents (insert h (set fs)) (as @ h # c # cs)"
    by (rule extents_not_free) simp
  ultimately show ?thesis using sh extents_take[OF f(3) h] by (auto simp: freeing_def)
qed

text \<open>Only \<open>h\<close> and the block behind it may be two free neighbours.\<close>

definition parted :: "u32 set \<Rightarrow> u32 list \<Rightarrow> u32 \<Rightarrow> u32 \<Rightarrow> u32 list \<Rightarrow> bool" where
  "parted F as h c cs \<longleftrightarrow> h \<in> F \<and> coalesced F (as @ [h]) \<and> coalesced F (c # cs)"

lemma core_first:
  assumes "heap_core heap m bs"
  shows "it_prev m (hd bs) = last bs"
  using core_facts(6,7)[OF assms] links_parts[of bs "[hd bs]" "it_next m" "it_prev m"] by simp

lemma merge_left_ok:
  assumes fr: "freeing heap m (as @ h # c # cs) fs {h} E" and co: "coalesced (set fs) (as @ h # c # cs)"
    and h: "h \<notin> set fs"
  shows "\<exists>as' h' ins m'. mh_merge_left heap h m = (h', ins, m') \<and> (ins \<longrightarrow> h' = h) \<and>
    freeing heap m' (as' @ h' # c # cs) fs (if ins then {h'} else {}) E \<and>
    parted (set fs \<union> (if ins then {h'} else {})) as' h' c cs"
proof -
  have s: "mh_shape heap m (as @ h # c # cs) fs {h}" using fr by (simp add: freeing_def)
  note f = core_facts[OF shape_facts(1)[OF s]]
  have cc: "coalesced (insert h (set fs)) (c # cs)"
    using co f(5) coalesced_append[of "set fs" as h "c # cs"] without_other(3)[of h "c # cs" "set fs"]
    by (cases cs) auto
  show ?thesis
  proof (cases "as \<noteq> [] \<and> last as \<in> set fs")
    case False
    have p: "RT_MEMHEAP_IS_USED (it_prev m h) m"
    proof (cases as rule: rev_cases)
      case Nil
      then show ?thesis using core_first[OF shape_facts(1)[OF s]] shape_facts(2)[OF s] by simp
    next
      case (snoc ps p)
      then have "it_prev m h = p" "p \<noteq> h" using core_pair(2)[of heap m ps p h "c # cs"] shape_facts(1)[OF s] f(5) by auto
      then show ?thesis using snoc False shape_facts(4)[OF s, of p] by auto
    qed
    have "coalesced (insert h (set fs)) (as @ [h])"
      using co False coalesced_append[of "set fs" as h "c # cs"] f(5) without_other(3)[of h as "set fs"]
      by (cases as rule: rev_cases) (auto simp: coalesced_append[of _ _ _ "[h]"] without_other(3))
    then have "parted (insert h (set fs)) as h c cs" using cc by (simp add: parted_def)
    then show ?thesis using p fr by (intro exI[of _ as] exI[of _ h] exI[of _ True]) (simp add: mh_merge_left_def)
  next
    case True
    then obtain ps p where p: "as = ps @ [p]" "p \<in> set fs" by (cases as rule: rev_cases) auto
    have k: "heap_core heap m (ps @ p # h # c # cs)" using shape_facts(1)[OF s] p(1) by simp
    have n: "it_prev m h = p" "it_next m h = c" using core_pair(2)[OF k] core_pair(1)[of heap m "ps @ [p]" h c cs] k by simp_all
    have u: "\<not> RT_MEMHEAP_IS_USED p m" using shape_facts(4)[OF s, of p] p(2) by auto
    have "freeing heap (set_next p c (set_prev c p (mh_available_add heap 24 m))) (ps @ p # c # cs) fs {} E"
      by (rule freeing_join[where z = h]) (use fr p in simp_all)
    moreover have "coalesced (set fs) (ps @ [p])" "coalesced (set fs) (c # cs)"
      using co coalesced_append[of "set fs" ps p "h # c # cs"] without_other(3)[of h "c # cs" "set fs"] p(1) cc f(5)
      by auto
    moreover have "mh_merge_left heap h m = (p, False, set_next p c (set_prev c p (mh_available_add heap 24 m)))"
      using u n by (simp add: mh_merge_left_def Let_def)
    ultimately show ?thesis using p(2)
      by (intro exI[of _ ps] exI[of _ p] exI[of _ False]) (simp add: parted_def)
  qed
qed

lemma merge_right_ok:
  assumes fr: "freeing heap m (as @ h # c # cs) fs P E" and pt: "parted (set fs \<union> P) as h c cs" and P: "P \<subseteq> {h}"
  shows "\<exists>bs' fs'. freeing heap (mh_merge_right heap h m) bs' fs' P E \<and> coalesced (set fs' \<union> P) bs' \<and> h \<in> set bs'"
proof -
  have s: "mh_shape heap m (as @ h # c # cs) fs P" using fr by (simp add: freeing_def)
  note f = core_facts[OF shape_facts(1)[OF s]] and k = shape_facts(1)[OF s]
  have n: "it_next m h = c" by (rule core_pair(1)[OF k])
  have c: "c \<notin> P" using P f(5) by auto
  show ?thesis
  proof (cases "c \<in> set fs")
    case False
    then have "RT_MEMHEAP_IS_USED c m" using shape_facts(4)[OF s, of c] c by auto
    moreover have "coalesced (set fs \<union> P) (as @ h # c # cs)"
      using pt False c by (simp add: parted_def coalesced_append[of _ as h "c # cs"])
    ultimately show ?thesis using fr n
      by (intro exI[of _ "as @ h # c # cs"] exI[of _ fs]) (simp add: mh_merge_right_def)
  next
    case True
    then obtain d ds where d: "cs = d # ds" using shape_facts(8)[OF s] by (cases cs) auto
    obtain xs ys where x: "fs = xs @ c # ys" using True by (meson split_list)
    have u: "\<not> RT_MEMHEAP_IS_USED c m" using shape_facts(4)[OF s, of c] True by auto
    have nc: "it_next m c = d" using core_pair(1)[of heap m "as @ [h]" c d ds] k by (simp add: d)
    have "freeing heap (mh_unlink_free c m) (as @ h # c # d # ds) (xs @ ys) (insert c P) E"
      using fr freeing_unlink[of heap m _ xs c ys P E] by (simp add: d x)
    then have j: "freeing heap (set_next h d (set_prev d h (mh_available_add heap 24 (mh_unlink_free c m))))
        (as @ h # d # ds) (xs @ ys) P E"
      by (rule freeing_join) (use c pt f(5) in \<open>auto simp: parted_def x\<close>)
    have e: "mh_merge_right heap h m = set_next h d (set_prev d h (mh_available_add heap 24 (mh_unlink_free c m)))"
      using u n nc f(5) by (simp add: mh_merge_right_def Let_def mh_unlink_free_def)
    have F: "insert c (set (xs @ ys) \<union> P) = set fs \<union> P" by (auto simp: x)
    have "c \<notin> set (as @ [h])" "c \<notin> set (d # ds)" "d \<notin> set fs \<union> P"
      using f(5) pt True by (auto simp: parted_def d)
    then have "coalesced (set (xs @ ys) \<union> P) (as @ h # d # ds)"
      using pt without_other(3)[of c _ "set (xs @ ys) \<union> P"]
      by (auto simp: parted_def d F x coalesced_append[of _ as h "d # ds"])
    then show ?thesis using j e by (intro exI[of _ "as @ h # d # ds"] exI[of _ "xs @ ys"]) simp
  qed
qed

text \<open>Freeing a payload in use.\<close>

lemma free_ok:
  assumes r: "mh_rep heap m bs fs" and p: "(unat p, e) \<in> extents (set fs) bs"
  shows "\<exists>m'. rt_memheap_free lk p m = Some m' \<and>
    (if lk heap \<noteq> RT_EOK then m' = m\<lparr>herrno := lk heap\<rparr>
     else \<exists>bs' fs'. mh_rep heap m' bs' fs' \<and> extents (set fs') bs' = extents (set fs) bs - {(unat p, e)})"
proof -
  note f = rep_facts[OF r] note k = core_facts[OF f(2)]
  obtain as h c cs where b: "bs = as @ h # c # cs" "h \<notin> set fs" "unat p = unat h + 24" "e = unat c"
    using p by (auto simp: extents_iff)
  have h: "p - 24 = h" "p \<noteq> 0"
    using b(3) unat_sub[of 24 p] by (auto simp: word_unat_eq_iff word_le_nat_alt)
  define m1 where "m1 = mh_available_add heap (MEMITEM_SIZE h m) (set_magic h (it_magic m h AND NOT 1) m)"
  have "freeing heap m1 bs fs {h} (extents (set fs) bs - {(unat p, e)})"
    using freeing_mark[OF r[unfolded b(1)] b(2)] by (simp add: m1_def b(1,3,4))
  from merge_left_ok[OF this[unfolded b(1)] f(4)[unfolded b(1)] b(2)]
  obtain as' h' ins m2 where l: "mh_merge_left heap h m1 = (h', ins, m2)"
    "freeing heap m2 (as' @ h' # c # cs) fs (if ins then {h'} else {}) (extents (set fs) bs - {(unat p, e)})"
    "parted (set fs \<union> (if ins then {h'} else {})) as' h' c cs" unfolding b(1) by blast
  have "(if ins then {h'} else {}) \<subseteq> {h'}" by simp
  then obtain bs' fs' where q: "freeing heap (mh_merge_right heap h' m2) bs' fs' (if ins then {h'} else {})
      (extents (set fs) bs - {(unat p, e)})" "coalesced (set fs' \<union> (if ins then {h'} else {})) bs'"
    using merge_right_ok[OF l(2,3)] by blast
  define m3 where "m3 = (if ins then mh_link_free heap h' (mh_merge_right heap h' m2) else mh_merge_right heap h' m2)"
  have "freeing heap m3 bs' (if ins then h' # fs' else fs') {} (extents (set fs) bs - {(unat p, e)})"
    using q(1) freeing_link[of heap "mh_merge_right heap h' m2" bs' fs' h' "{}"]
    by (cases ins) (simp_all add: m3_def)
  then have g: "\<exists>bs' fs'. mh_rep heap m3 bs' fs' \<and> extents (set fs') bs' = extents (set fs) bs - {(unat p, e)}"
    using q(2) by (intro exI[of _ bs'] exI[of _ "if ins then h' # fs' else fs'"])
      (cases ins; simp add: mh_rep_def freeing_def)
  have u: "RT_MEMHEAP_IS_USED h m" using shape_facts(4)[OF f(1), of h] b(1,2) by auto
  have n: "it_next m h = c" using core_pair(1)[of heap m as h c cs] f(2) b(1) by simp
  have "block_ok heap m h" "block_ok heap m c" using k(8) b(1) by auto
  then have "rt_memheap_free lk p m = Some (if lk heap \<noteq> RT_EOK then m\<lparr>herrno := lk heap\<rparr> else m3)"
    using u n k(1,2) h l(1) by (simp add: rt_memheap_free_def Let_def block_ok_def RT_MEMHEAP_IS_USED_def
        m3_def m1_def MEMITEM_SIZE_def)
  then show ?thesis using g by simp
qed

subsection \<open>A new heap\<close>

text \<open>A pool that the API of the heap expects: aligned, with room for a block, and away from the control block.\<close>

definition pool_ok :: "u32 \<Rightarrow> u32 \<Rightarrow> u32 \<Rightarrow> bool" where
  "pool_ok heap st sz \<longleftrightarrow> heap \<noteq> RT_NULL \<and> 4 dvd unat st \<and> 60 \<le> unat sz \<and> unat st + unat sz < 2 ^ 32 \<and>
     (unat (mh_free_header heap) < unat st \<or> unat st + unat sz \<le> unat (mh_free_header heap))"

lemma tail_address:
  assumes "pool_ok heap st sz"
  defines "ps \<equiv> RT_ALIGN_DOWN sz 4"
  defines "t \<equiv> st + (ps - 2 * 24) + 24"
  shows "60 \<le> unat ps" "unat ps \<le> unat sz" "unat (ps - 2 * 24) = unat ps - 48" "unat t + 24 = unat st + unat ps"
    "4 dvd unat t" "unat st + 36 \<le> unat t" "st \<noteq> t" "st \<noteq> mh_free_header heap" "t \<noteq> mh_free_header heap"
proof -
  have d: "unat ps = unat sz - unat sz mod 4" unfolding ps_def by (rule align_down_4)
  then have d4: "4 dvd unat ps" by simp
  have "60 \<le> unat sz" using assms(1) by (simp add: pool_ok_def)
  then show b: "60 \<le> unat ps" "unat ps \<le> unat sz" unfolding d by (presburger, simp)
  then show a: "unat (ps - 2 * 24) = unat ps - 48" by (subst unat_sub) (simp_all add: word_le_nat_alt)
  then show t: "unat t + 24 = unat st + unat ps"
  proof -
    have "unat (st + x + 24) = unat st + unat x + 24" if "unat st + unat x + 24 < 2 ^ 32" for x
      using that by (simp add: unat_word_ariths)
    moreover have "unat st + unat (ps - 2 * 24) + 24 < 2 ^ 32"
      using assms(1) b unfolding a pool_ok_def by linarith
    ultimately have "unat t = unat st + unat (ps - 2 * 24) + 24" unfolding t_def by blast
    then show ?thesis using b unfolding a by linarith
  qed
  moreover have "4 dvd unat st" using assms(1) by (simp add: pool_ok_def)
  ultimately have "4 dvd unat t + 24" using d4 by simp
  then show "4 dvd unat t" by presburger
  show "unat st + 36 \<le> unat t" using t b by simp
  then show "st \<noteq> t" "st \<noteq> mh_free_header heap" "t \<noteq> mh_free_header heap"
    using assms(1) t b unfolding pool_ok_def by auto
qed

lemma init_ok:
  assumes pk: "pool_ok heap st sz" and new: "heap \<notin> set (hlist m)"
  defines "ps \<equiv> RT_ALIGN_DOWN sz 4"
  shows "\<exists>m'. rt_memheap_init heap st sz m = Some (RT_EOK, m') \<and> mh_rep heap m' [st, st + (ps - 2 * 24) + 24] [st] \<and>
    mh_available (hctl m' heap) = ps - 48 \<and> mh_start (hctl m' heap) = st \<and> mh_pool_size (hctl m' heap) = ps \<and>
    hlist m' = heap # hlist m"
proof -
  define t where "t = st + (ps - 2 * 24) + 24"
  note a = tail_address[OF pk, folded ps_def, folded t_def]
  define m' where "m' = snd (the (rt_memheap_init heap st sz m))"
  have e: "rt_memheap_init heap st sz m = Some (RT_EOK, m')"
    using pk new by (simp add: m'_def rt_memheap_init_def pool_ok_def Let_def)
  note d = m'_def rt_memheap_init_def mh_header_def mh_link_free_def Let_def ps_def[symmetric]
  have h0: "heap \<noteq> 0" using pk by (simp add: pool_ok_def)
  have tn: "st + ps - 24 = t" "ps \<noteq> 24" using a(1) by (auto simp: t_def)
  have mg: "it_magic m' st = 0x1ea01ea0" "it_magic m' t = 0x1ea01ea1" "it_pool m' st = heap" "it_pool m' t = heap"
    using new h0 a(7-9) tn(2) by (simp_all add: d tn(1))
  have lk: "it_next m' st = t" "it_next m' t = st" "it_prev m' st = t" "it_prev m' t = st"
    "it_next_free m' (mh_free_header heap) = st" "it_next_free m' st = mh_free_header heap"
    "it_prev_free m' (mh_free_header heap) = st" "it_prev_free m' st = mh_free_header heap"
    using new h0 a(7-9) tn(2) by (simp_all add: d tn(1))
  have ct: "mh_type (hctl m' heap) = 0x87" "mh_start (hctl m' heap) = st" "mh_pool_size (hctl m' heap) = ps"
    "mh_available (hctl m' heap) = ps - 2 * 24" "mh_free_list (hctl m' heap) = mh_free_header heap"
    "hlist m' = heap # hlist m"
    using new h0 by (simp_all add: d)
  have "layout_ok st ps [st, t]" using a pk by (simp add: layout_ok_def pool_ok_def)
  then have "heap_core heap m' [st, t]"
    using pk h0 a(2) by (auto simp: heap_core_def mh_get_type_def ct outside_pool_def pool_ok_def lk block_ok_def mg)
  then have "mh_shape heap m' [st, t] [st] {}"
    using a(7,8) by (auto simp: mh_shape_def RT_MEMHEAP_IS_USED_def mg free_ring_def lk)
  then have "mh_rep heap m' [st, t] [st]"
    using a(3,4,7) by (simp add: mh_rep_def ct)
  then show ?thesis using e ct by (simp add: t_def)
qed

end
