(* ===== verification/Heap_Realloc.thy ===== *)
theory Heap_Realloc
  imports Heap_Ops
begin

text \<open>
  Changing the size of a block in place (\<open>mh_grow\<close> and \<open>mh_shrink\<close>) and by moving it, as
  \<open>rt_memheap_realloc\<close> does.
\<close>

subsection \<open>Growing into the block behind\<close>

lemma coalesced_drop:
  assumes "coalesced F (as @ h # x # c # cs)" "h \<notin> F"
  shows "coalesced F (as @ h # c # cs)"
  using assms by (simp add: coalesced_append[of F as h "x # c # cs"] coalesced_append[of F as h "c # cs"])

text \<open>Moving the header behind \<open>h\<close> from \<open>x\<close> to \<open>z\<close>.\<close>

lemma moved_header:
  assumes d: "distinct (as @ h # x # c # cs)" "z \<notin> set (as @ h # c # cs)" and F: "h \<notin> F" "x \<notin> F"
    and co: "coalesced (insert x F) (as @ h # x # c # cs)"
  shows "coalesced (insert z F) (as @ h # z # c # cs)"
    "free_bytes (insert z F) (as @ h # z # c # cs) + (unat c - unat x - 24) =
     free_bytes (insert x F) (as @ h # x # c # cs) + (unat c - unat z - 24)"
    "extents (insert z F) (as @ h # z # c # cs) = insert (unat h + 24, unat z) (extents (insert h F) (as @ h # c # cs))"
    "extents (insert x F) (as @ h # x # c # cs) = insert (unat h + 24, unat x) (extents (insert h F) (as @ h # c # cs))"
proof -
  have x: "x \<notin> set (as @ h # c # cs)" "distinct (as @ h # c # cs)" using d(1) by auto
  have hx: "h \<notin> insert x F" using F x by auto
  have "coalesced (insert x F) (as @ h # c # cs)" by (rule coalesced_drop[OF co hx])
  then have "coalesced F (as @ h # c # cs)" using without_other(3)[OF x(1)] by blast
  moreover have "c \<notin> insert x F" using coalesced_behind(1)[of "insert x F" "as @ [h]" x c cs] co by simp
  ultimately show "coalesced (insert z F) (as @ h # z # c # cs)"
    using coalesced_insert[of F as h c cs z] d(2) F(1) by blast
  show "free_bytes (insert z F) (as @ h # z # c # cs) + (unat c - unat x - 24) =
     free_bytes (insert x F) (as @ h # x # c # cs) + (unat c - unat z - 24)"
    using free_bytes_insert[OF d(2) x(2), of F] free_bytes_insert[OF x, of F] F(1) by simp
  show "extents (insert z F) (as @ h # z # c # cs) = insert (unat h + 24, unat z) (extents (insert h F) (as @ h # c # cs))"
    "extents (insert x F) (as @ h # x # c # cs) = insert (unat h + 24, unat x) (extents (insert h F) (as @ h # c # cs))"
    using extents_cut[OF d(2) x(2) F(1)] extents_cut[OF x F(1)] by simp_all
qed

text \<open>The new header lies in the two blocks together.\<close>

lemma grow_address:
  assumes k: "heap_core heap m (as @ h # x # c # cs)" and n: "4 dvd unat n" "unat (MEMITEM_SIZE h m) < unat n"
    and room: "unat n + 12 < unat (MEMITEM_SIZE h m) + unat (MEMITEM_SIZE x m)"
  shows "unat (h + 24 + n) = unat h + 24 + unat n" "unat h + 36 \<le> unat (h + 24 + n)"
    "unat (h + 24 + n) + 36 \<le> unat c" "4 dvd unat (h + 24 + n)"
proof -
  note p = core_pair[OF k] and q = core_pair[of heap m "as @ [h]" x c cs]
  have c: "unat h + 24 + unat n + 36 < unat c" using p(3) q(3) k room by simp
  then show e: "unat (h + 24 + n) = unat h + 24 + unat n"
    using unsigned_less[of c, where 'a = nat] by (simp add: unat_word_ariths)
  show "unat h + 36 \<le> unat (h + 24 + n)" "unat (h + 24 + n) + 36 \<le> unat c" using e c p(4) n(2) by simp_all
  show "4 dvd unat (h + 24 + n)" using e n(1) layout_pair(2)[OF core_facts(4)[OF k]] by simp
qed

lemma grow_ok:
  assumes r: "mh_rep heap m (as @ h # x # c # cs) (xs @ x # ys)" and h: "h \<notin> set (xs @ x # ys)"
    and n: "4 dvd unat n" "unat (MEMITEM_SIZE h m) < unat n"
    and room: "unat n + 12 < unat (MEMITEM_SIZE h m) + unat (MEMITEM_SIZE x m)"
  defines "z \<equiv> h + 24 + n" and "m' \<equiv> mh_grow heap (h + 24) n (MEMITEM_SIZE h m) m"
  shows "mh_rep heap m' (as @ h # z # c # cs) (z # xs @ ys)" "hdata m' = hdata m"
    "extents (set (z # xs @ ys)) (as @ h # z # c # cs) =
     insert (unat h + 24, unat h + 24 + unat n)
       (extents (set (xs @ x # ys)) (as @ h # x # c # cs) - {(unat h + 24, unat x)})"
proof -
  note f = rep_facts[OF r] note a = grow_address[OF f(2) n room, folded z_def]
  let ?G = "set (xs @ ys)" and ?bs = "as @ h # z # c # cs"
  have k: "heap_core heap m ((as @ [h]) @ x # c # cs)" using f(2) by simp
  have lk: "it_next m h = x" "it_prev m x = h" "it_next m x = c" and d: "x \<noteq> h" "x \<noteq> c" "h \<noteq> c"
    and x: "x \<notin> ?G" and F: "set (xs @ x # ys) = insert x ?G"
    using core_pair(1,2)[OF f(2)] core_pair(1)[OF k] f(3) shape_facts(10)[OF f(1)] by auto
  have w: "x \<notin> set (as @ h # c # cs)" "distinct (as @ h # c # cs)" using f(3) by auto
  define m1 where "m1 = mh_account heap (mh_available_sub heap (n - MEMITEM_SIZE h m) m)"
  define m3 where "m3 = set_next h c (set_prev c h (mh_unlink_free x m1))"
  have "mh_shape heap m1 (as @ h # x # c # cs) (xs @ x # ys) {}"
    using f(1) by (subst shape_same[of _ m]) (simp_all add: same_shape_def m1_def)
  then have "mh_shape heap (mh_unlink_free x m1) (as @ h # x # c # cs) (xs @ ys) (insert x {})"
    by (rule shape_unlink)
  then have s3: "mh_shape heap m3 (as @ h # c # cs) (xs @ ys) {}" unfolding m3_def by (rule shape_join) simp
  note z = between_fresh[OF core_facts(4)[OF shape_facts(1)[OF s3]], of z]
  have "mh_shape heap (mh_new_block heap h z m3) ?bs (xs @ ys) (insert z {})"
    by (rule shape_new[OF s3 a(2-4)])
  then have "mh_shape heap (mh_link_free heap z (mh_new_block heap h z m3)) ?bs (z # xs @ ys) {}"
    by (rule shape_link) simp
  moreover have e: "m' = mh_link_free heap z (mh_new_block heap h z m3)"
    using lk d by (simp add: m'_def mh_grow_def Let_def m3_def m1_def z_def add.commute add.left_commute)
  ultimately have sh: "mh_shape heap m' ?bs (z # xs @ ys) {}" by simp
  have hG: "h \<notin> ?G" "z \<notin> set (as @ h # c # cs)" using h z(1) a by auto
  note v = moved_header[OF f(3) hG(2,1) x f(4)[unfolded F]]
  have "unat (n - MEMITEM_SIZE h m) = unat n - unat (MEMITEM_SIZE h m)"
    using n(2) by (simp add: unat_sub word_le_nat_alt)
  then have "unat (mh_available (hctl m heap) - (n - MEMITEM_SIZE h m)) = free_bytes (insert z ?G) ?bs"
    using v(2) f(5) F free_bytes_insert[OF w, of ?G] core_pair(3)[OF f(2)] core_pair(3)[OF k] a n(2) room hG
    by (simp add: unat_sub word_le_nat_alt)
  moreover have "mh_available (hctl m' heap) = mh_available (hctl m heap) - (n - MEMITEM_SIZE h m)"
    by (simp add: e m3_def m1_def)
  ultimately show "mh_rep heap m' ?bs (z # xs @ ys)" using sh v(1) by (simp add: mh_rep_def)
  show "hdata m' = hdata m" by (simp add: e m3_def m1_def)
  show "extents (set (z # xs @ ys)) ?bs = insert (unat h + 24, unat h + 24 + unat n)
       (extents (set (xs @ x # ys)) (as @ h # x # c # cs) - {(unat h + 24, unat x)})"
    using v(3,4) extents_not_free[of h "insert h ?G"] a(1) unfolding F by simp
qed

subsection \<open>Cutting the end of a block off\<close>

text \<open>The new block joins a free block behind it.\<close>

lemma shrink_join_ok:
  assumes r: "mh_rep heap m (as @ h # c # d # cs) (xs @ c # ys)" and h: "h \<notin> set (xs @ c # ys)"
    and n: "12 \<le> unat n" "4 dvd unat n" "unat n + 36 \<le> unat (MEMITEM_SIZE h m)"
  defines "z \<equiv> h + n + 24" and "m' \<equiv> mh_shrink heap (h + 24) n m"
  shows "mh_rep heap m' (as @ h # z # d # cs) (z # xs @ ys)" "hdata m' = hdata m"
    "extents (set (z # xs @ ys)) (as @ h # z # d # cs) =
     insert (unat h + 24, unat h + 24 + unat n)
       (extents (set (xs @ c # ys)) (as @ h # c # d # cs) - {(unat h + 24, unat c)})"
proof -
  note f = rep_facts[OF r] note a = cut_address[OF f(2) n(3,1,2), folded z_def]
  let ?G = "set (xs @ ys)" and ?bs = "as @ h # z # d # cs"
  have k: "heap_core heap m ((as @ [h]) @ c # d # cs)" using f(2) by simp
  have lk: "it_next m h = c" "it_next m c = d" and c: "c \<notin> ?G" and F: "set (xs @ c # ys) = insert c ?G"
    using core_pair(1,2)[OF f(2)] core_pair(1)[OF k] f(3) shape_facts(10)[OF f(1)] by auto
  note z = between_fresh[OF core_facts(4)[OF f(2)], of z]
  have zz: "z \<notin> set (as @ h # c # d # cs)" "z \<noteq> h" "z \<noteq> c" "z \<noteq> d" using z a by auto
  have ch: "c \<noteq> h" "d \<noteq> c" using f(3) by auto
  have w: "c \<notin> set (as @ h # d # cs)" "z \<notin> set (as @ h # d # cs)" using f(3) zz by auto
  have hG: "h \<notin> ?G" using h by auto
  have u: "\<not> RT_MEMHEAP_IS_USED c m" using shape_facts(4)[OF f(1), of c] by auto
  define m1 where "m1 = mh_available_sub heap (MEMITEM_SIZE c m) (mh_new_block heap h z m)"
  define m3 where "m3 = set_next z d (set_prev d z (mh_unlink_free c m1))"
  have "mh_shape heap m1 (as @ h # z # c # d # cs) (xs @ c # ys) (insert z {})"
    using shape_new[OF f(1) a(2-4)] by (subst shape_same[of _ "mh_new_block heap h z m"]) (simp_all add: same_shape_def m1_def)
  then have "mh_shape heap (mh_unlink_free c m1) ((as @ [h]) @ z # c # d # cs) (xs @ ys) (insert c {z})"
    using shape_unlink[of heap m1 _ xs c ys "{z}"] by simp
  then have "mh_shape heap m3 ((as @ [h]) @ z # d # cs) (xs @ ys) {z}"
    unfolding m3_def by (rule shape_join) (use zz in simp)
  then have "mh_shape heap m3 ?bs (xs @ ys) (insert z {})" by simp
  then have "mh_shape heap (mh_link_free heap z m3) ?bs (z # xs @ ys) {}" by (rule shape_link) simp
  then have sh: "mh_shape heap (mh_available_add heap (MEMITEM_SIZE z m3) (mh_link_free heap z m3)) ?bs (z # xs @ ys) {}"
    by (simp only: shape_available)
  have m4: "m3 = mh_unlink_free c (set_next z d (set_prev d z m1))" by (simp add: m3_def mh_unlink_free_def)
  have e: "m' = mh_available_add heap (MEMITEM_SIZE z m3) (mh_link_free heap z m3)"
    unfolding m'_def mh_shrink_def Let_def add_diff_cancel_right' z_def[symmetric]
    using lk zz u ch by (simp add: m4 m1_def mh_new_block_links RT_MEMHEAP_IS_USED_def MEMITEM_SIZE_def)
  note v = moved_header[OF f(3) w(2) hG c f(4)[unfolded F]]
  have "unat z + 24 + unat (MEMITEM_SIZE z m3) = unat d"
    by (rule size_pair) (use a(3) core_pair(3)[OF k] in \<open>simp_all add: m3_def\<close>)
  moreover have "distinct (as @ h # d # cs)" using f(3) by auto
  ultimately have "free_bytes (set (z # xs @ ys)) ?bs = unat (mh_available (hctl m1 heap)) + unat (MEMITEM_SIZE z m3)"
    using v(2) free_bytes_insert[OF w(1), of ?G] hG core_pair(3)[OF k] f(5)
    by (simp add: F m1_def unat_sub word_le_nat_alt)
  then have "unat (mh_available (hctl m1 heap) + MEMITEM_SIZE z m3) = free_bytes (set (z # xs @ ys)) ?bs"
    by (rule available_add[OF sh])
  moreover have "mh_available (hctl m' heap) = mh_available (hctl m1 heap) + MEMITEM_SIZE z m3"
    by (simp add: e m3_def)
  ultimately show "mh_rep heap m' ?bs (z # xs @ ys)" using sh v(1) by (simp add: mh_rep_def e)
  show "hdata m' = hdata m" by (simp add: e m3_def m1_def)
  show "extents (set (z # xs @ ys)) ?bs = insert (unat h + 24, unat h + 24 + unat n)
       (extents (set (xs @ c # ys)) (as @ h # c # d # cs) - {(unat h + 24, unat c)})"
    using v(3,4) extents_not_free[of h "insert h ?G"] a(1) unfolding F by (simp add: ac_simps)
qed

lemma shrink_alone_ok:
  assumes r: "mh_rep heap m (as @ h # c # cs) fs" and h: "h \<notin> set fs" "c \<notin> set fs"
    and n: "12 \<le> unat n" "4 dvd unat n" "unat n + 36 \<le> unat (MEMITEM_SIZE h m)"
  defines "z \<equiv> h + n + 24" and "m' \<equiv> mh_shrink heap (h + 24) n m"
  shows "mh_rep heap m' (as @ h # z # c # cs) (z # fs)" "hdata m' = hdata m"
    "extents (set (z # fs)) (as @ h # z # c # cs) =
     insert (unat h + 24, unat h + 24 + unat n)
       (extents (set fs) (as @ h # c # cs) - {(unat h + 24, unat c)})"
proof -
  note f = rep_facts[OF r] note a = cut_address[OF f(2) n(3,1,2), folded z_def]
  let ?bs = "as @ h # z # c # cs"
  have lk: "it_next m h = c" by (rule core_pair(1)[OF f(2)])
  note z = between_fresh[OF core_facts(4)[OF f(2)], of z]
  have zz: "z \<notin> set (as @ h # c # cs)" "z \<noteq> h" "z \<noteq> c" using z a by auto
  have u: "RT_MEMHEAP_IS_USED c m" using shape_facts(4)[OF f(1), of c] h(2) by auto
  define m1 where "m1 = mh_new_block heap h z m"
  have "mh_shape heap m1 ?bs fs (insert z {})" unfolding m1_def by (rule shape_new[OF f(1) a(2-4)])
  then have "mh_shape heap (mh_link_free heap z m1) ?bs (z # fs) {}" by (rule shape_link) simp
  then have sh: "mh_shape heap (mh_available_add heap (MEMITEM_SIZE z m1) (mh_link_free heap z m1)) ?bs (z # fs) {}"
    by (simp only: shape_available)
  have e: "m' = mh_available_add heap (MEMITEM_SIZE z m1) (mh_link_free heap z m1)"
    unfolding m'_def mh_shrink_def Let_def add_diff_cancel_right' z_def[symmetric]
    using lk zz u by (simp add: m1_def mh_new_block_links RT_MEMHEAP_IS_USED_def MEMITEM_SIZE_def)
  have "unat z + 24 + unat (MEMITEM_SIZE z m1) = unat c"
    by (rule size_pair) (use a(3) zz(2) lk in \<open>simp_all add: m1_def mh_new_block_links\<close>)
  then have "free_bytes (set (z # fs)) ?bs = unat (mh_available (hctl m heap)) + unat (MEMITEM_SIZE z m1)"
    using free_bytes_insert[OF zz(1) f(3), of "set fs"] f(5) h(1) by simp
  then have "unat (mh_available (hctl m heap) + MEMITEM_SIZE z m1) = free_bytes (set (z # fs)) ?bs"
    by (rule available_add[OF sh])
  moreover have "mh_available (hctl m' heap) = mh_available (hctl m heap) + MEMITEM_SIZE z m1"
    by (simp add: e m1_def)
  ultimately show "mh_rep heap m' ?bs (z # fs)"
    using sh coalesced_insert[OF f(4) h zz(1)] by (simp add: mh_rep_def e)
  show "hdata m' = hdata m" by (simp add: e m1_def)
  show "extents (set (z # fs)) ?bs = insert (unat h + 24, unat h + 24 + unat n)
       (extents (set fs) (as @ h # c # cs) - {(unat h + 24, unat c)})"
    using extents_cut[OF zz(1) f(3) h(1)] extents_take[OF f(3) h(1)] extents_not_free[of h "insert h (set fs)"] a(1)
    by (simp add: ac_simps)
qed

lemma shrink_ok:
  assumes r: "mh_rep heap m (as @ h # c # cs) fs" and h: "h \<notin> set fs"
    and n: "12 \<le> unat n" "4 dvd unat n" "unat n + 36 \<le> unat (MEMITEM_SIZE h m)"
  defines "m' \<equiv> mh_shrink heap (h + 24) n m"
  shows "\<exists>bs' fs'. mh_rep heap m' bs' fs' \<and> hdata m' = hdata m \<and>
    extents (set fs') bs' = insert (unat h + 24, unat h + 24 + unat n)
      (extents (set fs) (as @ h # c # cs) - {(unat h + 24, unat c)})"
proof (cases "c \<in> set fs")
  case True
  then obtain d ds where d: "cs = d # ds" using shape_facts(8)[OF rep_facts(1)[OF r]] by (cases cs) auto
  obtain xs ys where x: "fs = xs @ c # ys" using True by (meson split_list)
  show ?thesis using shrink_join_ok[OF r[unfolded d x] h[unfolded x] n] unfolding m'_def d x by blast
next
  case False
  show ?thesis using shrink_alone_ok[OF r h False n] unfolding m'_def by blast
qed

subsection \<open>Changing the size of a block\<close>

text \<open>The block \<open>p\<close> has become the block \<open>q\<close>, of at least \<open>n\<close> bytes; the other payloads are the same.\<close>

definition resized :: "u32 \<Rightarrow> heapmem \<Rightarrow> (nat \<times> nat) set \<Rightarrow> u32 \<Rightarrow> nat \<Rightarrow> u32 \<Rightarrow> u32 \<Rightarrow> heapmem \<Rightarrow> bool" where
  "resized heap m E p e n q m' \<longleftrightarrow>
     (\<forall>e'. q \<noteq> p \<longrightarrow> (unat q, e') \<notin> E) \<and>
     (let l = min (unat n) (e - unat p) in region (hdata m') (unat q) l = region (hdata m) (unat p) l) \<and>
     (\<exists>bs' fs' e'. mh_rep heap m' bs' fs' \<and> 4 dvd unat q \<and> unat q + unat n \<le> e' \<and>
        extents (set fs') bs' = insert (unat q, e') (E - {(unat p, e)}))"

lemma merge_hdata:
  "mh_merge_left hp h m = (h', i, m') \<Longrightarrow> hdata m' = hdata m" "hdata (mh_merge_right hp h m) = hdata m"
  by (auto simp: mh_merge_left_def mh_merge_right_def Let_def split: if_splits)

lemma free_hdata: "rt_memheap_free lk p m = Some m' \<Longrightarrow> hdata m' = hdata m"
  by (auto simp: rt_memheap_free_def Let_def bind_eq_Some_conv merge_hdata(2) dest!: merge_hdata(1)
      split: if_splits prod.splits)

lemma resizedI:
  "mh_rep heap m' bs' fs' \<Longrightarrow> hdata m' = hdata m \<Longrightarrow> extents (set fs') bs' = insert (unat p, e') (E - {(unat p, e)}) \<Longrightarrow>
   4 dvd unat p \<Longrightarrow> unat p + unat n \<le> e' \<Longrightarrow> resized heap m E p e n p m'"
  by (auto simp: resized_def)

text \<open>The bytes that \<open>rt_memcpy\<close> moves to a new block.\<close>

lemma region_copy:
  assumes "s + n \<le> d \<or> d + n \<le> s"
  shows "region (rt_memcpy d s n m) d n = region m s n"
proof -
  have "forward_ok d s n" using assms by (auto simp: forward_ok_def)
  then show ?thesis by (simp add: rt_memcpy_move) (auto simp: region_def fill_def)
qed

lemma move_ok:
  assumes r: "mh_rep heap m bs fs" and p: "(unat p, e) \<in> extents (set fs) bs"
    and a: "alloc_ok heap m bs fs n q m1" and lt: "e - unat p < unat n" and lk: "lk heap = RT_EOK"
  shows "\<exists>m'. rt_memheap_free lk p (m1\<lparr>hdata := rt_memcpy (unat q) (unat p) (e - unat p) (hdata m1)\<rparr>) = Some m' \<and>
    resized heap m (extents (set fs) bs) p e n q m'"
proof -
  let ?E = "extents (set fs) bs" and ?m = "m1\<lparr>hdata := rt_memcpy (unat q) (unat p) (e - unat p) (hdata m1)\<rparr>"
  obtain bs1 fs1 e1 where b: "mh_rep heap m1 bs1 fs1" "4 dvd unat q" "unat q + unat n \<le> e1"
    "extents (set fs1) bs1 = insert (unat q, e1) ?E" "\<forall>e. (unat q, e) \<notin> ?E" "hdata m1 = hdata m"
    using a by (auto simp: alloc_ok_def)
  note l = core_facts(4)[OF rep_facts(2)[OF b(1)]]
  have pq: "unat p \<noteq> unat q" using b(5) p by auto
  have "mh_shape heap ?m bs1 fs1 {} = mh_shape heap m1 bs1 fs1 {}" by (rule shape_same) (simp add: same_shape_def)
  then have "mh_rep heap ?m bs1 fs1" using b(1) by (simp add: mh_rep_def)
  from free_ok[OF this, of p e lk] b(4) p lk obtain m' bs' fs' where f: "rt_memheap_free lk p ?m = Some m'"
    "mh_rep heap m' bs' fs'" "extents (set fs') bs' = insert (unat q, e1) ?E - {(unat p, e)}" by auto
  have "e + 24 \<le> unat q \<or> e1 + 24 \<le> unat p"
    using extents_apart[OF l, of "unat p" e "set fs1" "unat q" e1] extents_apart[OF l, of "unat q" e1 "set fs1" "unat p" e]
      b(4) p pq by (auto simp: nat_neq_iff)
  moreover have "unat p + 12 \<le> e" using extents_bounds(3)[OF l, of "unat p" e "set fs1"] b(4) p by simp
  ultimately have "unat p + (e - unat p) \<le> unat q \<or> unat q + (e - unat p) \<le> unat p" using b(3) lt by arith
  from region_copy[OF this] have "region (hdata m') (unat q) (e - unat p) = region (hdata m) (unat p) (e - unat p)"
    using free_hdata[OF f(1)] b(6) by simp
  moreover have "insert (unat q, e1) ?E - {(unat p, e)} = insert (unat q, e1) (?E - {(unat p, e)})" using pq by auto
  ultimately have "resized heap m ?E p e n q m'"
    unfolding resized_def using f(2,3) b(2,3,5) lt by (auto simp: Let_def min_def)
  then show ?thesis using f(1) by blast
qed

lemma region_prefix: "l \<le> k \<Longrightarrow> region m a k = region m' a' k \<Longrightarrow> region m a l = region m' a' l"
  by (auto simp: region_def list_eq_iff_nth_eq)

lemma resized_mono:
  assumes "resized heap m E p e n q m'" "unat n' \<le> unat n"
  shows "resized heap m E p e n' q m'"
proof -
  have "min (unat n') (e - unat p) \<le> min (unat n) (e - unat p)" using assms(2) by simp
  moreover have "region (hdata m') (unat q) (min (unat n) (e - unat p)) = region (hdata m) (unat p) (min (unat n) (e - unat p))"
    using assms(1) by (simp add: resized_def Let_def)
  ultimately have "region (hdata m') (unat q) (min (unat n') (e - unat p)) = region (hdata m) (unat p) (min (unat n') (e - unat p))"
    by (rule region_prefix)
  moreover obtain bs' fs' e' where b: "mh_rep heap m' bs' fs'" "4 dvd unat q" "unat q + unat n \<le> e'"
    "extents (set fs') bs' = insert (unat q, e') (E - {(unat p, e)})" using assms(1) by (auto simp: resized_def)
  moreover have "unat q + unat n' \<le> e'" using b(3) assms(2) by simp
  moreover have "\<forall>e'. q \<noteq> p \<longrightarrow> (unat q, e') \<notin> E" using assms(1) by (simp add: resized_def)
  ultimately show ?thesis unfolding resized_def Let_def by blast
qed

text \<open>A free block behind \<open>h\<close> that is large enough is taken over.\<close>

lemma grow_found:
  assumes r: "mh_rep heap m (as @ h # c # cs) fs" and h: "h \<notin> set fs" and u: "\<not> RT_MEMHEAP_IS_USED c m"
    and n: "4 dvd unat n" "MEMITEM_SIZE h m < n" "unat n \<le> 2 ^ 32 - 16"
    and room: "n + 12 < MEMITEM_SIZE c m + MEMITEM_SIZE h m"
  shows "\<exists>bs' fs'. mh_rep heap (mh_grow heap (h + 24) n (MEMITEM_SIZE h m) m) bs' fs' \<and>
    hdata (mh_grow heap (h + 24) n (MEMITEM_SIZE h m) m) = hdata m \<and>
    extents (set fs') bs' = insert (unat h + 24, unat h + 24 + unat n)
      (extents (set fs) (as @ h # c # cs) - {(unat h + 24, unat c)})"
proof -
  note f = rep_facts[OF r]
  have c: "c \<in> set fs" using shape_facts(4)[OF f(1), of c] u by auto
  then obtain d ds where d: "cs = d # ds" using shape_facts(8)[OF f(1)] by (cases cs) auto
  obtain xs ys where x: "fs = xs @ c # ys" using c by (meson split_list)
  have k: "heap_core heap m ((as @ [h]) @ c # d # ds)" using f(2) by (simp add: d)
  have "unat (MEMITEM_SIZE c m) + unat (MEMITEM_SIZE h m) < 2 ^ 32"
    using core_pair(3)[OF k] core_pair(3)[OF f(2)] unsigned_less[of d, where 'a = nat] by simp
  then have "unat (MEMITEM_SIZE c m + MEMITEM_SIZE h m) = unat (MEMITEM_SIZE c m) + unat (MEMITEM_SIZE h m)"
    by (simp add: unat_word_ariths)
  moreover have "unat (n + 12) = unat n + 12" using n(3) by (simp add: unat_word_ariths)
  ultimately have "unat n + 12 < unat (MEMITEM_SIZE h m) + unat (MEMITEM_SIZE c m)"
    using room by (simp add: word_less_nat_alt)
  moreover have "unat (MEMITEM_SIZE h m) < unat n" using n(2) by (simp add: word_less_nat_alt)
  ultimately show ?thesis using grow_ok[OF r[unfolded d x] h[unfolded x] n(1)] unfolding d x by blast
qed

lemma realloc_ok:
  assumes r: "mh_rep heap m bs fs" and p: "(unat p, e) \<in> extents (set fs) bs"
    and n: "newsize \<noteq> 0" "unat newsize \<le> 2 ^ 32 - 16"
  shows "\<exists>q m'. rt_memheap_realloc lk heap p newsize m = Some (q, m') \<and>
    (if q = RT_NULL then m' = m \<or> lk heap \<noteq> RT_EOK \<and> m' = m\<lparr>herrno := lk heap\<rparr>
     else resized heap m (extents (set fs) bs) p e newsize q m')"
proof -
  note f = rep_facts[OF r] note k = core_facts[OF f(2)]
  obtain as h c cs where b: "bs = as @ h # c # cs" "h \<notin> set fs" "unat p = unat h + 24" "e = unat c"
    using p by (auto simp: extents_iff)
  note r' = r[unfolded b(1)] and s = core_pair[OF f(2)[unfolded b(1)]]
  have h: "p - 24 = h" "p \<noteq> 0"
    using b(3) unat_sub[of 24 p] by (auto simp: word_unat_eq_iff word_le_nat_alt)
  then have hp: "h + 24 = p" by (metis diff_add_cancel)
  define n' where "n' = mh_request newsize"
  have n': "12 \<le> unat n'" "4 dvd unat n'" "unat newsize \<le> unat n'"
    using mh_request_bounds[of newsize] n(2) by (simp_all add: n'_def)
  have n2: "unat n' \<le> 2 ^ 32 - 16" using align_up_4(1)[of newsize] n(2) by (auto simp: n'_def mh_request_def Let_def)
  have sz: "unat (MEMITEM_SIZE h m) = e - unat p" "unat p \<le> e" using s(3) b(3,4) by simp_all
  have nx: "it_next m h = c" "h < c" using s(1,5) by (simp_all add: word_less_nat_alt)
  note d = rt_memheap_realloc_def Let_def h k(1,2) n(1) n'_def[symmetric] nx
  have p4: "4 dvd unat p" using b(3) layout_pair(2)[OF core_facts(4)[OF f(2)[unfolded b(1)]]] by simp
  have inplace: "resized heap m (extents (set fs) bs) p e newsize p m'"
    if "\<exists>bs' fs'. mh_rep heap m' bs' fs' \<and> hdata m' = hdata m \<and> extents (set fs') bs' =
      insert (unat h + 24, unat h + 24 + unat n') (extents (set fs) (as @ h # c # cs) - {(unat h + 24, unat c)})" for m'
  proof -
    from that obtain bs' fs' where "mh_rep heap m' bs' fs'" "hdata m' = hdata m" "extents (set fs') bs' =
      insert (unat p, unat p + unat n') (extents (set fs) bs - {(unat p, e)})" unfolding b by blast
    then show ?thesis by (rule resizedI) (use p4 n'(3) in simp_all)
  qed
  have locked: "lk heap \<noteq> RT_EOK \<Longrightarrow> MEMITEM_SIZE h m < n' \<or> \<not> MEMITEM_SIZE h m \<le> n' + 24 + 12 \<Longrightarrow>
      rt_memheap_realloc lk heap p newsize m = Some (RT_NULL, m\<lparr>herrno := lk heap\<rparr>)"
    by (cases "MEMITEM_SIZE h m < n'") (simp_all add: d)
  consider (grow) "MEMITEM_SIZE h m < n'" "lk heap = RT_EOK" "\<not> RT_MEMHEAP_IS_USED c m"
      "n' + 12 < MEMITEM_SIZE c m + MEMITEM_SIZE h m"
    | (move) "MEMITEM_SIZE h m < n'" "lk heap = RT_EOK"
      "\<not> (\<not> RT_MEMHEAP_IS_USED c m \<and> n' + 12 < MEMITEM_SIZE c m + MEMITEM_SIZE h m)"
    | (keep) "\<not> MEMITEM_SIZE h m < n'" "MEMITEM_SIZE h m \<le> n' + 24 + 12"
    | (shrink) "\<not> MEMITEM_SIZE h m < n'" "\<not> MEMITEM_SIZE h m \<le> n' + 24 + 12" "lk heap = RT_EOK"
    | (lock) "lk heap \<noteq> RT_EOK" "rt_memheap_realloc lk heap p newsize m = Some (RT_NULL, m\<lparr>herrno := lk heap\<rparr>)"
    using locked by blast
  then show ?thesis
  proof cases
    case grow
    have "resized heap m (extents (set fs) bs) p e newsize p (mh_grow heap p n' (MEMITEM_SIZE h m) m)"
      by (rule inplace[OF grow_found[OF r' b(2) grow(3) n'(2) grow(1) n2 grow(4), unfolded hp]])
    then show ?thesis using grow h(2) by (auto simp: d)
  next
    case move
    obtain q m1 where q: "rt_memheap_alloc lk heap n' m = Some (q, m1)"
      "q = 0 \<longrightarrow> m1 = m" "q \<noteq> 0 \<longrightarrow> alloc_ok heap m bs fs (mh_request n') q m1"
      using alloc_cases[OF r, of lk n'] move(2) by (auto split: if_splits)
    show ?thesis
    proof (cases "q = 0")
      case True
      then show ?thesis using q move by (auto simp: d)
    next
      case False
      have m: "unat n' \<le> unat (mh_request n')" using mh_request_bounds(2)[of n'] n2 by simp
      then have "e - unat p < unat (mh_request n')" using move(1) sz by (simp add: word_less_nat_alt)
      with move_ok[OF r p, of "mh_request n'" q m1 lk] q(3) False move(2) obtain m' where
        "rt_memheap_free lk p (m1\<lparr>hdata := rt_memcpy (unat q) (unat p) (e - unat p) (hdata m1)\<rparr>) = Some m'"
        "resized heap m (extents (set fs) bs) p e (mh_request n') q m'" by blast
      moreover have "unat newsize \<le> unat (mh_request n')" using m n'(3) by simp
      ultimately show ?thesis using q(1) False move sz resized_mono by (auto simp: d)
    qed
  next
    case keep
    have "unat p + unat n' \<le> e" using keep(1) sz by (simp add: not_less word_le_nat_alt)
    then have "resized heap m (extents (set fs) bs) p e newsize p m"
      using p p4 n'(3) by (intro resizedI[OF r]) (auto simp: insert_absorb)
    then show ?thesis using keep h(2) by (auto simp: d)
  next
    case shrink
    have "unat c + 24 < 2 ^ 32"
      using layout_bounds(2)[OF k(4), of c] b(1) k(4) by (simp add: layout_ok_def)
    then have "unat n' + 36 < 2 ^ 32" using shrink(1) s(3) by (simp add: not_less word_le_nat_alt)
    then have "unat (n' + 24 + 12) = unat n' + 36" by (simp add: unat_word_ariths)
    then have "unat n' + 36 \<le> unat (MEMITEM_SIZE h m)" using shrink(2) by (simp add: not_le word_less_nat_alt)
    then have "resized heap m (extents (set fs) bs) p e newsize p (mh_shrink heap p n' m)"
      by (rule inplace[OF shrink_ok[OF r' b(2) n'(1,2), unfolded hp]])
    then show ?thesis using shrink h(2) by (auto simp: d)
  qed auto
qed

end
