(* ===== verification/Allocator.thy ===== *)
theory Allocator
  imports Prelude
begin

text \<open>
  The contract of a memory allocator, as the kernel relies on it. The ledger maps the address of every block
  that is in use to its size: an allocation returns no block that is in use, only blocks that are in use
  are given back, and giving one back never fails. What follows for a client
  is proved here once; the memory heap of theory \<open>Heap\<close> is an interpretation.
\<close>

locale allocator =
  fixes inv :: "'m \<Rightarrow> (u32 \<rightharpoonup> u32) \<Rightarrow> bool"
    and alloc :: "u32 \<Rightarrow> 'm \<Rightarrow> (u32 \<times> 'm) option"
    and free :: "u32 \<Rightarrow> 'm \<Rightarrow> 'm option"
  assumes alloc_fresh: "inv m L \<Longrightarrow> unat n \<le> 2 ^ 32 - 4 \<Longrightarrow>
      \<exists>p m'. alloc n m = Some (p, m') \<and> (if p = 0 then inv m' L else p \<notin> dom L \<and> inv m' (L(p \<mapsto> n)))"
    and free_held: "inv m L \<Longrightarrow> p \<in> dom L \<Longrightarrow> \<exists>m'. free p m = Some m' \<and> inv m' (L(p := None))"
begin

text \<open>Giving back a block twice is outside the contract, and a block just allocated can be given back.\<close>

lemma alloc_free:
  assumes "inv m L" "unat n \<le> 2 ^ 32 - 4" "alloc n m = Some (p, m')" "p \<noteq> 0"
  shows "\<exists>m''. free p m' = Some m'' \<and> inv m'' L"
proof -
  have a: "p \<notin> dom L" "inv m' (L(p \<mapsto> n))" using alloc_fresh[OF assms(1,2)] assms(3,4) by auto
  moreover have "L(p \<mapsto> n, p := None) = L" using a(1) by (auto simp: fun_eq_iff)
  ultimately show ?thesis using free_held[OF a(2), of p] by auto
qed

text \<open>Two blocks in use can be given back in either order.\<close>

lemma free_two:
  assumes "inv m L" "p \<in> dom L" "q \<in> dom L" "p \<noteq> q"
  shows "\<exists>m'. do { m \<leftarrow> free p m; free q m } = Some m' \<and> inv m' (L(p := None, q := None))"
proof -
  obtain m' where m: "free p m = Some m'" "inv m' (L(p := None))" using free_held[OF assms(1,2)] by blast
  have "q \<in> dom (L(p := None))" using assms(3,4) by auto
  from free_held[OF m(2) this] show ?thesis using m(1) by auto
qed

end

end
