(* ===== verification/Heap.thy ===== *)
theory Heap
  imports Heap_Realloc Allocator
begin

text \<open>
  Runs of a memory heap: any sequence of allocations, frees and reallocations after \<open>rt_memheap_init\<close>, with
  the ledger of the blocks that the program holds, and the properties of every state of such a run.
\<close>

subsection \<open>Runs\<close>

text \<open>
  The ledger maps the address of every block in use to the number of bytes asked for. A request is at most
  \<open>0xfffffffc\<close> bytes (\<open>0xfffffff0\<close> for a reallocation), and only blocks of the ledger are given back.
\<close>

inductive heap_run :: "u32 \<Rightarrow> heapmem \<Rightarrow> heapmem \<Rightarrow> (u32 \<rightharpoonup> u32) \<Rightarrow> bool" for heap m0 where
  run_start: "heap_run heap m0 m0 Map.empty"
| run_alloc: "heap_run heap m0 m L \<Longrightarrow> unat sz \<le> 2 ^ 32 - 4 \<Longrightarrow> rt_memheap_alloc lk heap sz m = Some (p, m') \<Longrightarrow>
    heap_run heap m0 m' (if p = RT_NULL then L else L(p \<mapsto> sz))"
| run_free: "heap_run heap m0 m L \<Longrightarrow> p \<in> dom L \<Longrightarrow> rt_memheap_free lk p m = Some m' \<Longrightarrow>
    heap_run heap m0 m' (if lk heap = RT_EOK then L(p := None) else L)"
| run_realloc: "heap_run heap m0 m L \<Longrightarrow> p \<in> dom L \<Longrightarrow> sz \<noteq> 0 \<Longrightarrow> unat sz \<le> 2 ^ 32 - 16 \<Longrightarrow>
    rt_memheap_realloc lk heap p sz m = Some (q, m') \<Longrightarrow>
    heap_run heap m0 m' (if q = RT_NULL then L else L(p := None, q \<mapsto> sz))"

text \<open>The ledger lists the payloads in use, and each is as long as it was asked for.\<close>

definition ledger_ok :: "(nat \<times> nat) set \<Rightarrow> (u32 \<rightharpoonup> u32) \<Rightarrow> bool" where
  "ledger_ok E L \<longleftrightarrow>
     (\<forall>s e. (s, e) \<in> E \<longrightarrow> (\<exists>p n. s = unat p \<and> L p = Some n \<and> s + unat n \<le> e)) \<and>
     (\<forall>p \<in> dom L. \<exists>e. (unat p, e) \<in> E) \<and> (\<forall>s e e'. (s, e) \<in> E \<longrightarrow> (s, e') \<in> E \<longrightarrow> e = e')"

definition heap_inv :: "u32 \<Rightarrow> heapmem \<Rightarrow> (u32 \<rightharpoonup> u32) \<Rightarrow> bool" where
  "heap_inv heap m L \<longleftrightarrow> (\<exists>bs fs. mh_rep heap m bs fs \<and> ledger_ok (extents (set fs) bs) L)"

lemma heap_invE:
  assumes "heap_inv heap m L"
  obtains bs fs where "mh_rep heap m bs fs" "ledger_ok (extents (set fs) bs) L"
    "layout_ok (mh_start (hctl m heap)) (mh_pool_size (hctl m heap)) bs"
  using assms core_facts(4) rep_facts(2) by (auto simp: heap_inv_def)

lemma ledgerD:
  assumes "ledger_ok E L"
  shows "(s, e) \<in> E \<Longrightarrow> \<exists>p n. s = unat p \<and> L p = Some n \<and> s + unat n \<le> e"
    "p \<in> dom L \<Longrightarrow> \<exists>e. (unat p, e) \<in> E" "(s, e) \<in> E \<Longrightarrow> (s, e') \<in> E \<Longrightarrow> e = e'"
  using assms unfolding ledger_ok_def by blast+

text \<open>A block of the ledger and its payload.\<close>

lemma ledger_extent:
  assumes "ledger_ok E L" "L p = Some n"
  obtains e where "(unat p, e) \<in> E" "unat p + unat n \<le> e"
proof -
  obtain e where e: "(unat p, e) \<in> E" using ledgerD(2)[OF assms(1), of p] assms(2) by blast
  then show ?thesis using ledgerD(1)[OF assms(1) e] assms(2) that by (auto simp flip: word_unat_eq_iff)
qed

lemma ledger_add:
  assumes "ledger_ok E L" "\<forall>e. (unat p, e) \<notin> E" "unat p + unat n \<le> e"
  shows "ledger_ok (insert (unat p, e) E) (L(p \<mapsto> n))"
  using assms by (auto simp: ledger_ok_def) metis+

lemma ledger_del:
  assumes "ledger_ok E L" "(unat p, e) \<in> E"
  shows "ledger_ok (E - {(unat p, e)}) (L(p := None))"
  unfolding ledger_ok_def
proof (intro conjI allI ballI impI)
  have u: "e' = e" if "(unat p, e') \<in> E" for e' using assms that by (auto simp: ledger_ok_def)
  show "\<exists>q n. s = unat q \<and> (L(p := None)) q = Some n \<and> s + unat n \<le> e'"
    if s: "(s, e') \<in> E - {(unat p, e)}" for s e'
  proof -
    obtain q n where q: "s = unat q" "L q = Some n" "s + unat n \<le> e'" using ledgerD(1)[OF assms(1)] s by blast
    then have "q \<noteq> p" using u s by auto
    then show ?thesis using q by auto
  qed
  show "\<exists>e'. (unat q, e') \<in> E - {(unat p, e)}" if q: "q \<in> dom (L(p := None))" for q
  proof -
    have "q \<in> dom L" "unat q \<noteq> unat p" using q by (auto simp: word_unat_eq_iff split: if_splits)
    then show ?thesis using assms(1) by (auto simp: ledger_ok_def)
  qed
qed (use assms in \<open>auto simp: ledger_ok_def\<close>)

lemma rep_errno: "mh_rep heap (m\<lparr>herrno := e\<rparr>) bs fs = mh_rep heap m bs fs"
proof -
  have "mh_shape heap (m\<lparr>herrno := e\<rparr>) bs fs {} = mh_shape heap m bs fs {}"
    by (rule shape_same) (simp add: same_shape_def)
  then show ?thesis by (simp add: mh_rep_def)
qed

lemma inv_errno: "heap_inv heap (m\<lparr>herrno := e\<rparr>) L = heap_inv heap m L"
  by (simp add: heap_inv_def rep_errno)

lemma inv_alloc:
  assumes i: "heap_inv heap m L" and sz: "unat sz \<le> 2 ^ 32 - 4" and a: "rt_memheap_alloc lk heap sz m = Some (p, m')"
  shows "heap_inv heap m' (if p = RT_NULL then L else L(p \<mapsto> sz))"
proof -
  obtain bs fs where r: "mh_rep heap m bs fs" "ledger_ok (extents (set fs) bs) L" using i by (rule heap_invE)
  show ?thesis
  proof (cases "p = RT_NULL")
    case True
    then have "m' = m \<or> m' = m\<lparr>herrno := lk heap\<rparr>" using alloc_cases[OF r(1), of lk sz] a by (auto split: if_splits)
    then show ?thesis using True i inv_errno by auto
  next
    case False
    then have "alloc_ok heap m bs fs (mh_request sz) p m'"
      using alloc_cases[OF r(1), of lk sz] a by (auto split: if_splits)
    then obtain bs' fs' e where b: "mh_rep heap m' bs' fs'" "unat p + unat (mh_request sz) \<le> e"
      "extents (set fs') bs' = insert (unat p, e) (extents (set fs) bs)" "\<forall>e. (unat p, e) \<notin> extents (set fs) bs"
      by (auto simp: alloc_ok_def)
    have "unat p + unat sz \<le> e" using b(2) mh_request_bounds(2)[OF sz] by simp
    then have "ledger_ok (extents (set fs') bs') (L(p \<mapsto> sz))" using ledger_add[OF r(2) b(4)] b(3) by simp
    then show ?thesis using False b(1) by (auto simp: heap_inv_def)
  qed
qed

lemma inv_free:
  assumes i: "heap_inv heap m L" and p: "p \<in> dom L"
  shows "\<exists>m'. rt_memheap_free lk p m = Some m' \<and> heap_inv heap m' (if lk heap = RT_EOK then L(p := None) else L)"
proof -
  obtain bs fs where r: "mh_rep heap m bs fs" "ledger_ok (extents (set fs) bs) L" using i by (rule heap_invE)
  obtain e where e: "(unat p, e) \<in> extents (set fs) bs" using ledgerD(2)[OF r(2) p] by blast
  obtain m' where m: "rt_memheap_free lk p m = Some m'"
    "if lk heap \<noteq> RT_EOK then m' = m\<lparr>herrno := lk heap\<rparr>
     else \<exists>bs' fs'. mh_rep heap m' bs' fs' \<and> extents (set fs') bs' = extents (set fs) bs - {(unat p, e)}"
    using free_ok[OF r(1) e, of lk] by blast
  show ?thesis
  proof (cases "lk heap = RT_EOK")
    case True
    then obtain bs' fs' where b: "mh_rep heap m' bs' fs'" "extents (set fs') bs' = extents (set fs) bs - {(unat p, e)}"
      using m(2) by auto
    have "ledger_ok (extents (set fs') bs') (L(p := None))" unfolding b(2) by (rule ledger_del[OF r(2) e])
    then have "heap_inv heap m' (L(p := None))" using b(1) unfolding heap_inv_def by blast
    then show ?thesis using m(1) True by simp
  next
    case False
    then show ?thesis using m i by (simp add: inv_errno)
  qed
qed

text \<open>The heap is an allocator, as long as its lock is obtained.\<close>

lemma alloc_unheld:
  assumes i: "heap_inv heap m L" and a: "rt_memheap_alloc lk heap sz m = Some (p, m')" and p: "p \<noteq> RT_NULL"
  shows "p \<notin> dom L"
proof -
  obtain bs fs where r: "mh_rep heap m bs fs" "ledger_ok (extents (set fs) bs) L" using i by (rule heap_invE)
  have "alloc_ok heap m bs fs (mh_request sz) p m'"
    using alloc_cases[OF r(1), of lk sz] a p by (auto split: if_splits)
  then show ?thesis using ledgerD(2)[OF r(2), of p] by (auto simp: alloc_ok_def)
qed

interpretation mh: allocator "heap_inv heap" "rt_memheap_alloc (\<lambda>_. RT_EOK) heap" "rt_memheap_free (\<lambda>_. RT_EOK)" for heap
proof unfold_locales
  fix m L n
  assume i: "heap_inv heap m L" and n: "unat (n :: u32) \<le> 2 ^ 32 - 4"
  obtain bs fs where "mh_rep heap m bs fs" using i by (rule heap_invE)
  then obtain p m' where a: "rt_memheap_alloc (\<lambda>_. RT_EOK) heap n m = Some (p, m')" using alloc_cases by blast
  then show "\<exists>p m'. rt_memheap_alloc (\<lambda>_. RT_EOK) heap n m = Some (p, m') \<and>
      (if p = 0 then heap_inv heap m' L else p \<notin> dom L \<and> heap_inv heap m' (L(p \<mapsto> n)))"
    using inv_alloc[OF i n a] alloc_unheld[OF i a] by (cases "p = 0") auto
next
  fix m L p
  assume "heap_inv heap m L" "p \<in> dom L"
  then show "\<exists>m'. rt_memheap_free (\<lambda>_. RT_EOK) p m = Some m' \<and> heap_inv heap m' (L(p := None))"
    using inv_free[of heap m L p "\<lambda>_. RT_EOK"] by simp
qed

lemma inv_realloc:
  assumes i: "heap_inv heap m L" and p: "p \<in> dom L" and n: "sz \<noteq> 0" "unat sz \<le> 2 ^ 32 - 16"
  shows "\<exists>q m'. rt_memheap_realloc lk heap p sz m = Some (q, m') \<and>
    heap_inv heap m' (if q = RT_NULL then L else L(p := None, q \<mapsto> sz)) \<and>
    (q \<noteq> RT_NULL \<longrightarrow> q = p \<or> q \<notin> dom L) \<and>
    (q \<noteq> RT_NULL \<longrightarrow> (let l = min (unat sz) (unat (the (L p))) in region (hdata m') (unat q) l = region (hdata m) (unat p) l))"
proof -
  obtain bs fs where r: "mh_rep heap m bs fs" "ledger_ok (extents (set fs) bs) L" using i by (rule heap_invE)
  obtain k where k: "L p = Some k" using p by blast
  obtain e where e: "(unat p, e) \<in> extents (set fs) bs" "unat p + unat k \<le> e" using ledger_extent[OF r(2) k] .
  obtain q m' where q: "rt_memheap_realloc lk heap p sz m = Some (q, m')"
    "if q = RT_NULL then m' = m \<or> lk heap \<noteq> RT_EOK \<and> m' = m\<lparr>herrno := lk heap\<rparr>
     else resized heap m (extents (set fs) bs) p e sz q m'"
    using realloc_ok[OF r(1) e(1) n, of lk] by blast
  show ?thesis
  proof (cases "q = RT_NULL")
    case True
    then show ?thesis using q i inv_errno by auto
  next
    case False
    then have z: "resized heap m (extents (set fs) bs) p e sz q m'" using q(2) by simp
    then obtain bs' fs' e' where b: "mh_rep heap m' bs' fs'" "unat q + unat sz \<le> e'"
      "extents (set fs') bs' = insert (unat q, e') (extents (set fs) bs - {(unat p, e)})"
      "\<forall>e'. q \<noteq> p \<longrightarrow> (unat q, e') \<notin> extents (set fs) bs" by (auto simp: resized_def)
    have "(unat q, e'') \<notin> extents (set fs) bs - {(unat p, e)}" for e''
      using b(4) ledgerD(3)[OF r(2) e(1)] by (cases "q = p") auto
    then have "ledger_ok (extents (set fs') bs') (L(p := None, q \<mapsto> sz))"
      unfolding b(3) using b(2) by (intro ledger_add ledger_del[OF r(2) e(1)]) auto
    moreover have "q = p \<or> q \<notin> dom L" using b(4) ledgerD(2)[OF r(2), of q] by blast
    moreover have "region (hdata m') (unat q) (min (unat sz) (unat k)) = region (hdata m) (unat p) (min (unat sz) (unat k))"
    proof (rule region_prefix)
      show "min (unat sz) (unat k) \<le> min (unat sz) (e - unat p)" using e(2) by auto
      show "region (hdata m') (unat q) (min (unat sz) (e - unat p)) = region (hdata m) (unat p) (min (unat sz) (e - unat p))"
        using z unfolding resized_def Let_def by blast
    qed
    ultimately have "heap_inv heap m' (L(p := None, q \<mapsto> sz))" using b(1) unfolding heap_inv_def by blast
    then show ?thesis using q(1) False k \<open>q = p \<or> q \<notin> dom L\<close> \<open>region _ _ _ = region _ _ _\<close> by (simp add: Let_def)
  qed
qed

lemma run_inv: "heap_run heap m0 m L \<Longrightarrow> heap_inv heap m0 Map.empty \<Longrightarrow> heap_inv heap m L"
proof (induction rule: heap_run.induct)
  case run_start
  then show ?case .
next
  case (run_alloc m L sz lk p m')
  then show ?case using inv_alloc by blast
next
  case (run_free m L p lk m')
  then show ?case using inv_free[of heap m L p lk] by auto
next
  case (run_realloc m L p sz lk q m')
  then show ?case using inv_realloc[of heap m L p sz lk] by auto
qed

text \<open>The place of the pool never changes.\<close>

definition same_pool :: "heapmem \<Rightarrow> heapmem \<Rightarrow> bool" where
  "same_pool m m' \<longleftrightarrow> (\<forall>x. mh_start (hctl m' x) = mh_start (hctl m x) \<and> mh_pool_size (hctl m' x) = mh_pool_size (hctl m x))"

lemma same_pool_trans: "same_pool m m' \<Longrightarrow> same_pool m' m'' \<Longrightarrow> same_pool m m''"
  by (simp add: same_pool_def)

lemma pool_parts [simp]:
  "mh_start (hctl (mh_take_split hp h sz m) x) = mh_start (hctl m x)"
  "mh_start (hctl (mh_take_whole hp h sz m) x) = mh_start (hctl m x)"
  "mh_start (hctl (mh_merge_right hp h m) x) = mh_start (hctl m x)"
  "mh_start (hctl (snd (snd (mh_merge_left hp h m))) x) = mh_start (hctl m x)"
  "mh_start (hctl (mh_grow hp h sz old m) x) = mh_start (hctl m x)"
  "mh_start (hctl (mh_shrink hp h sz m) x) = mh_start (hctl m x)"
  "mh_pool_size (hctl (mh_take_split hp h sz m) x) = mh_pool_size (hctl m x)"
  "mh_pool_size (hctl (mh_take_whole hp h sz m) x) = mh_pool_size (hctl m x)"
  "mh_pool_size (hctl (mh_merge_right hp h m) x) = mh_pool_size (hctl m x)"
  "mh_pool_size (hctl (snd (snd (mh_merge_left hp h m))) x) = mh_pool_size (hctl m x)"
  "mh_pool_size (hctl (mh_grow hp h sz old m) x) = mh_pool_size (hctl m x)"
  "mh_pool_size (hctl (mh_shrink hp h sz m) x) = mh_pool_size (hctl m x)"
  by (simp_all add: mh_take_split_def mh_take_whole_def mh_merge_right_def mh_merge_left_def
      mh_grow_def mh_shrink_def Let_def)

lemma same_pool_alloc: "rt_memheap_alloc lk hp sz m = Some (p, m') \<Longrightarrow> same_pool m m'"
  by (auto simp: rt_memheap_alloc_def Let_def bind_eq_Some_conv same_pool_def split: if_splits prod.splits)

lemma same_pool_free: "rt_memheap_free lk p m = Some m' \<Longrightarrow> same_pool m m'"
  by (auto simp: rt_memheap_free_def Let_def bind_eq_Some_conv same_pool_def split_beta split: if_splits)

lemma same_pool_data: "same_pool (m\<lparr>hdata := d\<rparr>) m' = same_pool m m'"
  by (simp add: same_pool_def)

lemma same_pool_realloc: "rt_memheap_realloc lk hp p sz m = Some (q, m') \<Longrightarrow> same_pool m m'"
  by (auto simp: rt_memheap_realloc_def Let_def bind_eq_Some_conv same_pool_data
      dest!: same_pool_alloc same_pool_free intro: same_pool_trans split: if_splits)
     (auto simp: same_pool_def)

lemma run_same_pool: "heap_run heap m0 m L \<Longrightarrow> same_pool m0 m"
  by (induction rule: heap_run.induct)
    (auto simp: same_pool_def[of m0 m0] dest: same_pool_alloc same_pool_free same_pool_realloc intro: same_pool_trans)

lemma run_from_init:
  assumes "pool_ok heap st sz" "rt_memheap_init heap st sz m = Some (err, m0)" "heap_run heap m0 m' L"
  shows "heap_inv heap m' L" "mh_start (hctl m' heap) = st" "mh_pool_size (hctl m' heap) = RT_ALIGN_DOWN sz 4"
proof -
  have "heap \<notin> set (hlist m)" using assms(2) by (auto simp: rt_memheap_init_def bind_eq_Some_conv)
  from init_ok[OF assms(1) this] assms(2) have
    i: "mh_rep heap m0 [st, st + (RT_ALIGN_DOWN sz 4 - 2 * 24) + 24] [st]"
      "mh_start (hctl m0 heap) = st" "mh_pool_size (hctl m0 heap) = RT_ALIGN_DOWN sz 4" by auto
  have "ledger_ok (extents (set [st]) [st, st + (RT_ALIGN_DOWN sz 4 - 2 * 24) + 24]) Map.empty"
    by (simp add: ledger_ok_def)
  then have "heap_inv heap m0 Map.empty" using i(1) unfolding heap_inv_def by blast
  then show "heap_inv heap m' L" by (rule run_inv[OF assms(3)])
  show "mh_start (hctl m' heap) = st" "mh_pool_size (hctl m' heap) = RT_ALIGN_DOWN sz 4"
    using run_same_pool[OF assms(3)] i by (simp_all add: same_pool_def)
qed

text \<open>An empty ledger: all blocks are one.\<close>

lemma coalesced_all_free:
  assumes "coalesced F bs" "set (butlast bs) \<subseteq> F" "2 \<le> length bs"
  obtains a b where "bs = [a, b]"
proof -
  obtain a b cs where "bs = a # b # cs" using assms(3) by (cases bs; cases "tl bs") auto
  then show ?thesis using assms(1,2) that by (cases cs) auto
qed

lemma inv_empty:
  assumes "heap_inv heap m Map.empty"
  obtains a b where "mh_rep heap m [a, b] [a]"
proof -
  obtain bs fs where r: "mh_rep heap m bs fs" "ledger_ok (extents (set fs) bs) Map.empty"
    "layout_ok (mh_start (hctl m heap)) (mh_pool_size (hctl m heap)) bs" using assms by (rule heap_invE)
  note f = rep_facts[OF r(1)] and s = shape_facts[OF rep_facts(1)[OF r(1)]]
  have "x \<in> set fs" if x: "x \<in> set (butlast bs)" for x
  proof (rule ccontr)
    assume n: "x \<notin> set fs"
    have b: "bs = butlast bs @ [last bs]" using x by (cases bs) auto
    have "x \<in> set bs" "x \<noteq> last bs"
      using x in_set_butlastD[OF x] f(3)[unfolded arg_cong[OF b, of distinct]] by auto
    then obtain as c cs where "bs = as @ x # c # cs" by (rule block_split)
    then have "(unat x + 24, unat c) \<in> extents (set fs) bs" using n by (auto simp: extents_iff)
    then show False using ledgerD(1)[OF r(2)] by fastforce
  qed
  moreover have "2 \<le> length bs" using r(3) by (simp add: layout_ok_def)
  ultimately obtain a b where b: "bs = [a, b]" using coalesced_all_free[OF f(4)] by blast
  have "set fs = {a}" using s(6,8) \<open>\<And>x. x \<in> set (butlast bs) \<Longrightarrow> x \<in> set fs\<close>[of a] b by auto
  then have "fs = [a]" using s(10) by (cases fs; cases "tl fs") auto
  then show ?thesis using that r(1) b by blast
qed

subsection \<open>A concrete heap\<close>

definition ex_mem :: heapmem where
  "ex_mem = \<lparr>it_magic = (\<lambda>_. 0), it_pool = (\<lambda>_. 0), it_next = (\<lambda>_. 0), it_prev = (\<lambda>_. 0), it_next_free = (\<lambda>_. 0),
     it_prev_free = (\<lambda>_. 0), hctl = (\<lambda>_. \<lparr>mh_type = 0, mh_start = 0, mh_pool_size = 0, mh_available = 0,
     mh_max_used = 0, mh_block_list = 0, mh_free_list = 0\<rparr>), hlist = [], hdata = (\<lambda>_. 0), herrno = 0, h_heap = 0x1000\<rparr>"

definition ex_heap0 :: heapmem where
  "ex_heap0 = ex_mem\<lparr>
     it_magic := (\<lambda>_. 0)(0x1034 := 0x1ea01ea0, 0x2000 := 0x1ea01ea0, 0x20e8 := 0x1ea01ea1),
     it_pool := (\<lambda>_. 0)(0x1034 := 0x1000, 0x2000 := 0x1000, 0x20e8 := 0x1000),
     it_next := (\<lambda>_. 0)(0x1034 := 0, 0x2000 := 0x20e8, 0x20e8 := 0x2000),
     it_prev := (\<lambda>_. 0)(0x1034 := 0, 0x2000 := 0x20e8, 0x20e8 := 0x2000),
     it_next_free := (\<lambda>_. 0)(0x2000 := 0x1034, 0x1034 := 0x2000, 0x20e8 := 0),
     it_prev_free := (\<lambda>_. 0)(0x2000 := 0x1034, 0x1034 := 0x2000, 0x20e8 := 0),
     hctl := (hctl ex_mem)(0x1000 := \<lparr>mh_type = 0x87, mh_start = 0x2000, mh_pool_size = 256, mh_available = 208,
       mh_max_used = 48, mh_block_list = 0x2000, mh_free_list = 0x1034\<rparr>),
     hlist := [0x1000]\<rparr>"

definition ex_heap1 :: heapmem where
  "ex_heap1 = snd (the (rt_memheap_alloc (\<lambda>_. RT_EOK) 0x1000 21 ex_heap0))"

definition ex_heap2 :: heapmem where
  "ex_heap2 = snd (the (rt_memheap_alloc (\<lambda>_. RT_EOK) 0x1000 5 ex_heap1))"

lemma ex_pool: "pool_ok 0x1000 0x2000 258"
  by (simp add: pool_ok_def mh_free_header_def)


lemma ex_init: "rt_memheap_init 0x1000 0x2000 258 ex_mem = Some (RT_EOK, ex_heap0)"
  by (simp add: ex_mem_def ex_heap0_def rt_memheap_init_def mh_header_def mh_link_free_def RT_ALIGN_DOWN_def
      mh_free_header_def)

text \<open>A search that ends at the first block.\<close>

lemma search_now:
  assumes "h \<noteq> fl" "f < sz" "\<not> MEMITEM_SIZE h m < sz"
  shows "mh_search m fl sz h f = Some (h, MEMITEM_SIZE h m)"
proof -
  have "mh_search m fl sz h (MEMITEM_SIZE h m) = Some (h, MEMITEM_SIZE h m)"
    using assms(3) by (subst mh_search.simps) simp
  then show ?thesis using assms by (subst mh_search.simps) (simp add: Let_def)
qed

lemmas ex_heap_eval = ex_heap0_def ex_mem_def rt_memheap_alloc_def mh_get_type_def mh_request_def RT_ALIGN_def
  search_now MEMITEM_SIZE_def Let_def

lemma ex_alloc1: "rt_memheap_alloc (\<lambda>_. RT_EOK) 0x1000 21 ex_heap0 = Some (0x2018, ex_heap1)"
  unfolding ex_heap1_def by (simp add: ex_heap_eval)

lemma ex_rep0: "mh_rep 0x1000 ex_heap0 [0x2000, 0x20e8] [0x2000]"
  using init_ok[OF ex_pool, of ex_mem] ex_init by (simp add: ex_mem_def RT_ALIGN_DOWN_def)

lemma ex_heap1_split:
  "ex_heap1 = set_magic 0x2000 (it_magic (mh_take_split 0x1000 0x2000 24 ex_heap0) 0x2000 OR 1)
     (mh_take_split 0x1000 0x2000 24 ex_heap0)"
  unfolding ex_heap1_def by (simp add: ex_heap_eval)

lemma ex_rep1: "mh_rep 0x1000 ex_heap1 [0x2000, 0x2030, 0x20e8] [0x2030]"
proof -
  have "MEMITEM_SIZE 0x2000 ex_heap0 = 208" by (simp add: ex_heap_eval)
  then show ?thesis
    using take_split_ok(1)[of "0x1000" ex_heap0 "[]" "0x2000" "0x20e8" "[]" "[]" "[]" 24] ex_rep0
    unfolding ex_heap1_split by simp
qed

lemma ex_alloc2: "rt_memheap_alloc (\<lambda>_. RT_EOK) 0x1000 5 ex_heap1 = Some (0x2048, ex_heap2)"
  unfolding ex_heap2_def
  by (simp add: ex_heap1_def ex_heap_eval mh_take_split_def mh_new_block_def mh_unlink_free_def mh_link_free_def mh_account_def cong: let_weak_cong)

lemma ex_run: "heap_run 0x1000 ex_heap0 ex_heap2 [0x2018 \<mapsto> 21, 0x2048 \<mapsto> 5]"
proof -
  have "heap_run 0x1000 ex_heap0 ex_heap1 [0x2018 \<mapsto> 21]"
    using run_alloc[OF run_start _ ex_alloc1] by simp
  from run_alloc[OF this _ ex_alloc2] show ?thesis by simp
qed

subsection \<open>Properties\<close>






definition ex_heap3 :: heapmem where
  "ex_heap3 = the (rt_memheap_free (\<lambda>_. RT_EOK) 0x2018 ex_heap1)"

lemma ex_run3: "heap_run 0x1000 ex_heap0 ex_heap3 Map.empty"
proof -
  have r: "heap_run 0x1000 ex_heap0 ex_heap1 [0x2018 \<mapsto> 21]"
    using run_alloc[OF run_start _ ex_alloc1] by simp
  have "rt_memheap_free (\<lambda>_. RT_EOK) 0x2018 ex_heap1 = Some ex_heap3"
    using inv_free[OF run_from_init(1)[OF ex_pool ex_init r], of "0x2018" "\<lambda>_. 0"] by (auto simp: ex_heap3_def)
  from run_free[OF r _ this] show ?thesis by (simp add: fun_upd_idem)
qed




lemma request_wraps: "0xfffffffd \<le> k \<Longrightarrow> mh_request k = 12"
proof -
  assume "0xfffffffd \<le> k"
  then have "unat k = 0xfffffffd \<or> unat k = 0xfffffffe \<or> unat k = 0xffffffff"
    using unsigned_less[of k, where 'a = nat] by (auto simp: word_le_nat_alt)
  then have "k = 0xfffffffd \<or> k = 0xfffffffe \<or> k = 0xffffffff" by (simp add: word_unat_eq_iff)
  then show ?thesis by (auto simp: mh_request_def RT_ALIGN_def)
qed

lemma request_huge:
  assumes "0xfffffff1 \<le> n" "n \<le> 0xfffffffc"
  shows "2 ^ 32 - 12 \<le> unat (mh_request n)" "unat (mh_request n) \<le> 2 ^ 32 - 4" "unat (mh_request n + 12) \<le> 8"
proof -
  have n: "2 ^ 32 - 15 \<le> unat n" "unat n \<le> 2 ^ 32 - 4" using assms by (simp_all add: word_le_nat_alt)
  have r: "unat (mh_request n) = (unat n + 3) div 4 * 4"
    using align_up_4(1)[OF n(2)] n(1) by (auto simp: mh_request_def Let_def word_less_nat_alt)
  show a: "2 ^ 32 - 12 \<le> unat (mh_request n)" "unat (mh_request n) \<le> 2 ^ 32 - 4"
    unfolding r using div_le_mono[of "2 ^ 32 - 12" "unat n + 3" 4] div_le_mono[of "unat n + 3" "2 ^ 32 - 1" 4] n
    by simp_all
  have "unat (mh_request n + 12) = (unat (mh_request n) + 12) mod 2 ^ 32" by (simp add: unat_word_ariths)
  also have "\<dots> = unat (mh_request n) + 12 - 2 ^ 32" using a by (subst le_mod_geq) simp_all
  finally show "unat (mh_request n + 12) \<le> 8" using a by simp
qed

lemma grow_next: "it_next (mh_grow hp (h + 24) n old m) h = h + 24 + n"
  by (simp add: mh_grow_def mh_new_block_def Let_def)

text \<open>Sizes near the end of the 32-bit range wrap. \<open>RT_ALIGN\<close> takes a request of \<open>0xfffffffd\<close> bytes or more
  to 0, so that the caller is given a block of 12 bytes. In \<open>rt_memheap_realloc\<close> the sum \<open>newsize + 12\<close> wraps for
  requests of \<open>0xfffffff1\<close> bytes or more: with a free block behind it the block is "grown", and the header of
  the next block is written over the end of its own header.\<close>

theorem memheap_sizes_wrap:
  assumes "mh_rep heap m (as @ h # x # c # cs) (xs @ x # ys)" "h \<notin> set (xs @ x # ys)" "lk heap = RT_EOK"
    and "0xfffffff1 \<le> n" "n \<le> 0xfffffffc" "0xfffffffd \<le> k"
  shows "rt_memheap_alloc lk heap k m = rt_memheap_alloc lk heap 12 m \<and>
    (\<exists>m'. rt_memheap_realloc lk heap (h + 24) n m = Some (h + 24, m') \<and>
       unat (it_next m' h) < unat h + 24 \<and> unat h < unat (it_next m' h))"
proof (intro conjI)
  show "rt_memheap_alloc lk heap k m = rt_memheap_alloc lk heap 12 m"
    using request_wraps[OF assms(6)] by (simp add: rt_memheap_alloc_def mh_request_def[of 12] RT_ALIGN_def)
  note f = rep_facts[OF assms(1)] and q = request_huge[OF assms(4,5)]
  note p = core_pair[OF f(2)] and c = core_facts[OF f(2)]
  have k: "heap_core heap m ((as @ [h]) @ x # c # cs)" using f(2) by simp
  have w: "unat x + 36 \<le> unat c" "unat c + 24 < 2 ^ 32"
    using core_pair(5)[OF k] layout_bounds(2)[OF c(4), of c] c(4) by (auto simp: layout_ok_def)
  have s: "MEMITEM_SIZE h m < mh_request n" using p(3) w q(1) by (simp add: word_less_nat_alt)
  have "unat (MEMITEM_SIZE x m + MEMITEM_SIZE h m) = unat (MEMITEM_SIZE x m) + unat (MEMITEM_SIZE h m)"
    using p(3) core_pair(3)[OF k] w by (simp add: unat_word_ariths)
  then have g: "mh_request n + 12 < MEMITEM_SIZE x m + MEMITEM_SIZE h m"
    using p(4) q(3) by (simp add: word_less_nat_alt)
  have u: "\<not> RT_MEMHEAP_IS_USED x m" using shape_facts(4)[OF f(1), of x] by auto
  have h: "unat (h + 24) = unat h + 24" using p(3) w by (simp add: unat_word_ariths)
  then have z: "h + 24 \<noteq> 0" by auto
  have "n \<noteq> 0" using assms(4) by auto
  then have "rt_memheap_realloc lk heap (h + 24) n m = Some (h + 24, mh_grow heap (h + 24) (mh_request n) (MEMITEM_SIZE h m) m)"
    using c(1,2) z s g u p(1,5) assms(3) by (simp add: rt_memheap_realloc_def Let_def word_less_nat_alt)
  moreover have "unat (h + 24 + mh_request n) = unat h + 24 + unat (mh_request n) - 2 ^ 32"
    using h q p(3) w by (simp add: unat_word_ariths(1)[of "h + 24"] le_mod_geq)
  ultimately show "\<exists>m'. rt_memheap_realloc lk heap (h + 24) n m = Some (h + 24, m') \<and>
       unat (it_next m' h) < unat h + 24 \<and> unat h < unat (it_next m' h)"
    using q by (intro exI[of _ "mh_grow heap (h + 24) (mh_request n) (MEMITEM_SIZE h m) m"] conjI;
      simp add: grow_next)
qed

theorem memheap_sizes_wrap_witness:
  "rt_memheap_alloc (\<lambda>_. 0) 0x1000 0xffffffff ex_heap1 = rt_memheap_alloc (\<lambda>_. 0) 0x1000 12 ex_heap1 \<and>
    (\<exists>m'. rt_memheap_realloc (\<lambda>_. 0) 0x1000 (0x2000 + 24) 0xfffffff4 ex_heap1 = Some (0x2000 + 24, m') \<and>
       unat (it_next m' 0x2000) < unat (0x2000 :: u32) + 24 \<and> unat (0x2000 :: u32) < unat (it_next m' 0x2000))"
  by (rule memheap_sizes_wrap[where as = "[]" and x = "0x2030" and c = "0x20e8" and cs = "[]" and xs = "[]" and ys = "[]"])
    (simp_all add: ex_rep1)

end
