(* ===== verification/Idle.thy ===== *)
theory Idle
  imports Thread Heap
begin

text \<open>
  The idle thread (\<open>src/idle.c\<close>): it runs the idle hooks and gives the stacks and control blocks of dead threads
  back to the system heap. The state is the kernel together with the memory of the heaps.
\<close>

subsection \<open>Hooks\<close>

text \<open>The loops stop at the first slot that is free, or that holds the hook.\<close>

fun hook_replace :: "nat option \<Rightarrow> nat option \<Rightarrow> nat option list \<Rightarrow> nat option list option" where
  "hook_replace old new [] = None"
| "hook_replace old new (h # hs) =
     (if h = old then Some (new # hs) else map_option ((#) h) (hook_replace old new hs))"

definition rt_thread_idle_sethook :: "nat \<Rightarrow> nat option list \<Rightarrow> rt_err_t \<times> nat option list" where
  "rt_thread_idle_sethook hook idle_hook_list =
     (case hook_replace None (Some hook) idle_hook_list of
        Some l \<Rightarrow> (RT_EOK, l) | None \<Rightarrow> (- RT_EFULL, idle_hook_list))"

definition rt_thread_idle_delhook :: "nat \<Rightarrow> nat option list \<Rightarrow> rt_err_t \<times> nat option list" where
  "rt_thread_idle_delhook hook idle_hook_list =
     (case hook_replace (Some hook) None idle_hook_list of
        Some l \<Rightarrow> (RT_EOK, l) | None \<Rightarrow> (- RT_ENOSYS, idle_hook_list))"

subsection \<open>Dead threads\<close>

text \<open>
  The cleanup function of a thread is the user's: \<open>cu f t\<close> is the function \<open>f\<close> called with thread \<open>t\<close>. The
  block that \<open>rt_object_delete\<close> gives back is the control block itself, which has no address in this model.
\<close>

type_synonym system = "kernel \<times> heapmem"

partial_function (option) rt_thread_idle_excute ::
  "(u32 \<Rightarrow> rt_err_t) \<Rightarrow> (nat \<Rightarrow> nat \<Rightarrow> kernel \<Rightarrow> kernel option) \<Rightarrow> kernel \<Rightarrow> heapmem \<Rightarrow> system option" where
  "rt_thread_idle_excute lk cu k m =
     (case ls_q (tlist k) Defunct of
        [] \<Rightarrow> Some (k, m)
      | thread # _ \<Rightarrow>
          do { RT_DEBUG_NOT_IN_INTERRUPT k;
               let k = k\<lparr>tlist := ls_remove thread (tlist k)\<rparr>;
               let k = rt_enter_critical k;
               k \<leftarrow> (case th_cleanup (thr k thread) of None \<Rightarrow> Some k | Some f \<Rightarrow> cu f thread k);
               if rt_object_is_systemobject (OThread thread) k
               then do { k \<leftarrow> rt_exit_critical k; Some (k, m) }
               else do { k \<leftarrow> rt_exit_critical k;
                         m \<leftarrow> rt_free lk (th_stack_addr (thr k thread)) m;
                         k \<leftarrow> rt_object_delete (OThread thread) k;
                         rt_thread_idle_excute lk cu k m } })"

text \<open>One round of the endless loop of the idle thread: the hooks, then the dead threads.\<close>

fun run_hooks :: "(nat \<Rightarrow> kernel \<Rightarrow> kernel option) \<Rightarrow> nat option list \<Rightarrow> kernel \<Rightarrow> kernel option" where
  "run_hooks hook_fn [] k = Some k"
| "run_hooks hook_fn (None # hs) k = run_hooks hook_fn hs k"
| "run_hooks hook_fn (Some h # hs) k = do { k \<leftarrow> hook_fn h k; run_hooks hook_fn hs k }"

definition rt_thread_idle_entry_round ::
  "(u32 \<Rightarrow> rt_err_t) \<Rightarrow> (nat \<Rightarrow> nat \<Rightarrow> kernel \<Rightarrow> kernel option) \<Rightarrow> (nat \<Rightarrow> kernel \<Rightarrow> kernel option) \<Rightarrow>
   nat option list \<Rightarrow> kernel \<Rightarrow> heapmem \<Rightarrow> system option" where
  "rt_thread_idle_entry_round lk cu hook_fn idle_hook_list k m =
     do { k \<leftarrow> run_hooks hook_fn idle_hook_list k; rt_thread_idle_excute lk cu k m }"

text \<open>The idle thread is thread \<open>idle\<close>, with a stack of 256 bytes at \<open>stack\<close> and the lowest priority.\<close>

definition rt_thread_idle_init :: "nat \<Rightarrow> u8 list \<Rightarrow> u32 \<Rightarrow> u32 \<Rightarrow> u32 \<Rightarrow> kernel \<Rightarrow> kernel option" where
  "rt_thread_idle_init idle tidle_name entry texit stack k =
     do { (_, k) \<leftarrow> rt_thread_init idle tidle_name entry texit 0 stack 256 31 32 k;
          (_, k) \<leftarrow> rt_thread_startup idle k;
          Some k }"

subsection \<open>Reclaiming one thread\<close>

text \<open>A thread leaves the defunct list.\<close>

lemma kinv_undefunct:
  assumes k: "kinv k" and t: "t \<in> set (ls_q (tlist k) Defunct)"
  shows "kinv (k\<lparr>tlist := ls_remove t (tlist k)\<rparr>)"
proof -
  have d: "ls_in (tlist k) t = Some Defunct" using t ls_in_iff[OF kinvD(2)[OF k]] by simp
  have g: "group_ok (rt_ready_group k) (ls_remove t (tlist k))"
  proof (intro group_ok_other[OF kinvD(4)[OF k]])
    show "ls_q (ls_remove t (tlist k)) (Ready p) = ls_q (tlist k) (Ready p)" for p
    proof -
      have "t \<notin> set (ls_q (tlist k) (Ready p))" using d ls_in_iff[OF kinvD(2)[OF k]] by auto
      then show ?thesis by (simp add: ls_q_remove[OF kinvD(2)[OF k]] remove1_idem)
    qed
  qed
  have "thread_inv (k\<lparr>tlist := ls_remove t (tlist k)\<rparr>) x" for x
    using kinvD(5)[OF k, of x] d
    by (auto simp: thread_inv_def th_inv_def alive_def rt_object_get_type_def)
  then show ?thesis using kinvD[OF k] g by (auto simp: kinv_def obj_inv_def)
qed

text \<open>The object of a closed thread that is in no list is deleted.\<close>

lemma kinv_delete_thread:
  assumes k: "kinv k" and t: "stat_of (thr k t) = 4" "ls_in (tlist k) t = None" "\<not> rt_object_is_systemobject (OThread t) k"
  shows "\<exists>k'. rt_object_delete (OThread t) k = Some k' \<and> kinv k' \<and>
    k' = k\<lparr>objs := (objs k)(OThread t := (objs k (OThread t))\<lparr>ob_type := 0\<rparr>), olist := ls_remove (OThread t) (olist k)\<rparr>"
proof -
  define k' where "k' = k\<lparr>objs := (objs k)(OThread t := (objs k (OThread t))\<lparr>ob_type := 0\<rparr>), olist := ls_remove (OThread t) (olist k)\<rparr>"
  have "obj_inv k'" using obj_inv_detach[OF kinvD(1)[OF k], of "OThread t"]
    by (simp add: rt_object_detach_def k'_def Let_def)
  moreover have "thread_inv k' x" for x
    using kinvD(5)[OF k, of x] t(1,2)
    by (cases "x = t") (auto simp: k'_def thread_inv_def th_inv_def alive_def rt_object_get_type_def)
  ultimately have "kinv k'" using kinvD[OF k] by (auto simp: kinv_def k'_def)
  then show ?thesis using t(3) by (auto simp: rt_object_delete_def k'_def)
qed

text \<open>What leaves the dead threads, and the counters of nested calls, as they are.\<close>

definition dead_same :: "kernel \<Rightarrow> kernel \<Rightarrow> bool" where
  "dead_same k k' \<longleftrightarrow>
     rt_interrupt_nest k' = rt_interrupt_nest k \<and> rt_scheduler_lock_nest k' = rt_scheduler_lock_nest k \<and>
     (rt_current_thread k' = None \<longleftrightarrow> rt_current_thread k = None) \<and>
     ls_q (tlist k') Defunct = ls_q (tlist k) Defunct \<and>
     (\<forall>x. stat_of (thr k x) = 4 \<longrightarrow> thr k' x = thr k x \<and> objs k' (OThread x) = objs k (OThread x) \<and>
        ls_in (tlist k') x = ls_in (tlist k) x)"

text \<open>The contract of a cleanup function: it returns and leaves the dead threads alone.\<close>

definition cleanup_ok :: "(nat \<Rightarrow> nat \<Rightarrow> kernel \<Rightarrow> kernel option) \<Rightarrow> bool" where
  "cleanup_ok cu \<longleftrightarrow> (\<forall>f t k. kinv k \<longrightarrow> (\<exists>k'. cu f t k = Some k' \<and> kinv k' \<and> dead_same k k'))"

lemma dead_sameD:
  assumes "dead_same k k'" "stat_of (thr k x) = 4"
  shows "thr k' x = thr k x" "objs k' (OThread x) = objs k (OThread x)" "ls_in (tlist k') x = ls_in (tlist k) x"
  using assms by (simp_all add: dead_same_def)

text \<open>A call of the scheduler leaves closed threads where they are.\<close>

lemma sched_dead:
  assumes k: "kinv k" "kinv k'" and s: "sched_frame k k'"
  shows "dead_same k k'"
proof -
  have "ls_in (tlist k') x = ls_in (tlist k) x" if c: "stat_of (thr k x) = 4" for x
  proof -
    have "x \<notin> set (ls_q (tlist j) (Ready p))" if "kinv j" "thr j = thr k" for j p
      using kinv_ready(2)[OF that(1), of x p] c that(2) by auto
    then have "x \<in> set (ls_q (tlist k') q) \<longleftrightarrow> x \<in> set (ls_q (tlist k) q)" for q
      using sched_frameD(16)[OF s, of q] sched_frameD(3)[OF s] k by (cases "\<exists>p. q = Ready p") auto
    then have "ls_in (tlist k') x = Some q \<longleftrightarrow> ls_in (tlist k) x = Some q" for q
      using ls_in_iff[OF kinvD(2)[OF k(1)]] ls_in_iff[OF kinvD(2)[OF k(2)]] by auto
    then show ?thesis by (metis not_None_eq)
  qed
  then show ?thesis
    using sched_frameD[OF s] sched_frameD(16)[OF s, of Defunct] by (simp add: dead_same_def)
qed

lemma unlock_dead:
  assumes k: "kinv k" "rt_current_thread k \<noteq> None" and n: "rt_scheduler_lock_nest k = 1"
  shows "\<exists>k'. rt_exit_critical k = Some k' \<and> kinv k' \<and> dead_same (k\<lparr>rt_scheduler_lock_nest := 0\<rparr>) k'"
proof -
  obtain c where c: "rt_current_thread k = Some c" using k(2) by blast
  obtain k' where k': "rt_exit_critical k = Some k'" "kinv k'" "sched_frame (k\<lparr>rt_scheduler_lock_nest := 0\<rparr>) k'"
    using exit_critical_ok[OF k(1) c] n by auto
  have "kinv (k\<lparr>rt_scheduler_lock_nest := 0\<rparr>)" using k(1) kinv_irrelevant by simp
  then show ?thesis using k' sched_dead by blast
qed

definition idle_state :: "kernel \<Rightarrow> bool" where
  "idle_state k \<longleftrightarrow> kinv k \<and> rt_current_thread k \<noteq> None \<and> rt_interrupt_nest k = 0 \<and> rt_scheduler_lock_nest k = 0"

lemma defunct_closed: "kinv k \<Longrightarrow> t \<in> set (ls_q (tlist k) Defunct) \<Longrightarrow> stat_of (thr k t) = 4"
  using kinvD(5)[of k t] ls_in_iff[OF kinvD(2), of k t] by (auto simp: thread_inv_def th_inv_def)

lemma enter_thr: "thr (rt_enter_critical k) = thr k"
  by (simp add: rt_enter_critical_def)

text \<open>The steps up to the one that tells static from dynamic threads.\<close>

lemma reclaim_front:
  assumes i: "idle_state k" and c: "cleanup_ok cu" and q: "ls_q (tlist k) Defunct = t # ts"
  shows "\<exists>k1 k2. (case th_cleanup (thr k t) of None \<Rightarrow> Some (rt_enter_critical (k\<lparr>tlist := ls_remove t (tlist k)\<rparr>))
        | Some f \<Rightarrow> cu f t (rt_enter_critical (k\<lparr>tlist := ls_remove t (tlist k)\<rparr>))) = Some k1 \<and>
      rt_exit_critical k1 = Some k2 \<and> idle_state k2 \<and> ls_q (tlist k2) Defunct = ts \<and> ls_in (tlist k2) t = None \<and>
      rt_object_is_systemobject (OThread t) k1 = rt_object_is_systemobject (OThread t) k \<and>
      (\<forall>x. stat_of (thr k x) = 4 \<longrightarrow> thr k2 x = thr k x \<and> objs k2 (OThread x) = objs k (OThread x))"
proof -
  have k: "kinv k" "rt_current_thread k \<noteq> None" "rt_interrupt_nest k = 0" "rt_scheduler_lock_nest k = 0"
    using i by (simp_all add: idle_state_def)
  have t: "t \<in> set (ls_q (tlist k) Defunct)" "stat_of (thr k t) = 4" using q defunct_closed[OF k(1)] by auto
  define k0 where "k0 = rt_enter_critical (k\<lparr>tlist := ls_remove t (tlist k)\<rparr>)"
  have e: "kinv k0" "thr k0 = thr k" "objs k0 = objs k" "rt_current_thread k0 = rt_current_thread k"
    "rt_interrupt_nest k0 = 0" "rt_scheduler_lock_nest k0 = 1" "tlist k0 = ls_remove t (tlist k)"
    using kinv_undefunct[OF k(1) t(1)] k by (simp_all add: k0_def) (simp_all add: rt_enter_critical_def k)
  have D: "ls_q (tlist k0) Defunct = ts" "ls_in (tlist k0) t = None"
    using q e(7) by (simp_all add: ls_q_remove[OF kinvD(2)[OF k(1)]])
  have "dead_same k0 k0" by (simp add: dead_same_def)
  then obtain k1 where k1: "(case th_cleanup (thr k t) of None \<Rightarrow> Some k0 | Some f \<Rightarrow> cu f t k0) = Some k1"
    "kinv k1" "dead_same k0 k1"
    using c[unfolded cleanup_ok_def, rule_format, OF e(1)] e(1) by (cases "th_cleanup (thr k t)") auto
  have n1: "rt_current_thread k1 \<noteq> None" "rt_scheduler_lock_nest k1 = 1" "rt_interrupt_nest k1 = 0"
    using k1(3) e k(2) by (simp_all add: dead_same_def)
  obtain k2 where k2: "rt_exit_critical k1 = Some k2" "kinv k2" "dead_same (k1\<lparr>rt_scheduler_lock_nest := 0\<rparr>) k2"
    using unlock_dead[OF k1(2) n1(1,2)] by blast
  have "idle_state k2" using k2 n1 by (simp add: idle_state_def dead_same_def)
  moreover have "ls_q (tlist k2) Defunct = ts" using k1(3) k2(3) D(1) by (simp add: dead_same_def)
  moreover have s: "thr k2 x = thr k x \<and> objs k2 (OThread x) = objs k (OThread x) \<and> ls_in (tlist k2) x = ls_in (tlist k0) x \<and>
      objs k1 (OThread x) = objs k (OThread x)"
    if x: "stat_of (thr k x) = 4" for x
    using dead_sameD[OF k1(3), of x] dead_sameD[OF k2(3), of x] x e by simp
  moreover have "rt_object_is_systemobject (OThread t) k1 = rt_object_is_systemobject (OThread t) k"
    using s[OF t(2)] by (simp add: rt_object_is_systemobject_def)
  ultimately show ?thesis using k1(1) k2(1) D(2) s t(2) unfolding k0_def by (intro exI[of _ k1] exI[of _ k2]) simp
qed

text \<open>One dynamic thread: its stack goes back to the heap, and its object is deleted.\<close>

lemma reclaim_one:
  assumes i: "idle_state k" and c: "cleanup_ok cu" and q: "ls_q (tlist k) Defunct = t # ts"
    and d: "\<not> rt_object_is_systemobject (OThread t) k"
    and h: "heap_run heap m0 m L" "heap_inv heap m L" "th_stack_addr (thr k t) \<in> dom L" "lk heap = RT_EOK"
  shows "\<exists>k' m'. rt_thread_idle_excute lk cu k m = rt_thread_idle_excute lk cu k' m' \<and> idle_state k' \<and>
    ls_q (tlist k') Defunct = ts \<and> heap_run heap m0 m' (L(th_stack_addr (thr k t) := None)) \<and> \<not> alive k' t \<and>
    (\<forall>x. stat_of (thr k x) = 4 \<longrightarrow> thr k' x = thr k x \<and> (x \<noteq> t \<longrightarrow> objs k' (OThread x) = objs k (OThread x)))"
proof -
  have t: "stat_of (thr k t) = 4" using i q defunct_closed[of k t] by (simp add: idle_state_def)
  obtain k1 k2 where f: "(case th_cleanup (thr k t) of None \<Rightarrow> Some (rt_enter_critical (k\<lparr>tlist := ls_remove t (tlist k)\<rparr>))
        | Some f \<Rightarrow> cu f t (rt_enter_critical (k\<lparr>tlist := ls_remove t (tlist k)\<rparr>))) = Some k1"
    "rt_exit_critical k1 = Some k2" "idle_state k2" "ls_q (tlist k2) Defunct = ts" "ls_in (tlist k2) t = None"
    "rt_object_is_systemobject (OThread t) k1 = rt_object_is_systemobject (OThread t) k"
    "\<forall>x. stat_of (thr k x) = 4 \<longrightarrow> thr k2 x = thr k x \<and> objs k2 (OThread x) = objs k (OThread x)"
    using reclaim_front[OF i c q] by blast
  obtain m' where m: "rt_free lk (th_stack_addr (thr k2 t)) m = Some m'" "heap_run heap m0 m' (L(th_stack_addr (thr k t) := None))"
    using inv_free[OF h(2,3), of lk] run_free[OF h(1,3), of lk] h(4) f(7) t by (auto simp: rt_free_def)
  obtain k' where k': "rt_object_delete (OThread t) k2 = Some k'" "kinv k'"
    "k' = k2\<lparr>objs := (objs k2)(OThread t := (objs k2 (OThread t))\<lparr>ob_type := 0\<rparr>), olist := ls_remove (OThread t) (olist k2)\<rparr>"
    using kinv_delete_thread[of k2 t] f(3,5,7) t d by (auto simp: idle_state_def rt_object_is_systemobject_def)
  have s: "idle_state k'" "\<not> alive k' t" using f(3) k' by (auto simp: idle_state_def alive_def rt_object_get_type_def)
  have "rt_thread_idle_excute lk cu k m = rt_thread_idle_excute lk cu k' m'"
    using q i f(1,2,6) d m(1) k'(1)
    by (subst rt_thread_idle_excute.simps) (simp add: idle_state_def Let_def enter_thr
        RT_DEBUG_NOT_IN_INTERRUPT_def rt_interrupt_get_nest_def)
  then show ?thesis using s m(2) f(4,7) k'(3) by (intro exI[of _ k'] exI[of _ m']) simp
qed

text \<open>All of them.\<close>

definition stack_of :: "kernel \<Rightarrow> nat \<Rightarrow> u32" where
  "stack_of k t = th_stack_addr (thr k t)"

lemma reclaim_all:
  assumes "idle_state k" "cleanup_ok cu" "ls_q (tlist k) Defunct = ts"
    and "\<forall>t \<in> set ts. \<not> rt_object_is_systemobject (OThread t) k \<and> stack_of k t \<in> dom L" "distinct (map (stack_of k) ts)"
    and "heap_run heap m0 m L" "heap_inv heap m0 Map.empty" "lk heap = RT_EOK"
  shows "\<exists>k' m'. rt_thread_idle_excute lk cu k m = Some (k', m') \<and> idle_state k' \<and> ls_q (tlist k') Defunct = [] \<and>
    heap_run heap m0 m' (L |` (- (stack_of k ` set ts))) \<and> (\<forall>t \<in> set ts. \<not> alive k' t) \<and>
    (\<forall>x. x \<notin> set ts \<longrightarrow> stat_of (thr k x) = 4 \<longrightarrow> objs k' (OThread x) = objs k (OThread x))"
  using assms
proof (induction ts arbitrary: k m L)
  case Nil
  have "rt_thread_idle_excute lk cu k m = Some (k, m)" using Nil(3) by (subst rt_thread_idle_excute.simps) simp
  then show ?case using Nil by (simp add: restrict_map_def)
next
  case (Cons t ts)
  have K: "kinv k" using Cons.prems(1) by (simp add: idle_state_def)
  have c: "stat_of (thr k x) = 4" if "x \<in> set (t # ts)" for x using defunct_closed[OF K] Cons.prems(3) that by simp
  have t: "t \<notin> set ts" using Cons.prems(5) by auto
  obtain k1 m1 where r: "rt_thread_idle_excute lk cu k m = rt_thread_idle_excute lk cu k1 m1" "idle_state k1"
    "ls_q (tlist k1) Defunct = ts" "heap_run heap m0 m1 (L(stack_of k t := None))" "\<not> alive k1 t"
    "\<forall>x. stat_of (thr k x) = 4 \<longrightarrow> thr k1 x = thr k x \<and> (x \<noteq> t \<longrightarrow> objs k1 (OThread x) = objs k (OThread x))"
    using reclaim_one[OF Cons.prems(1-3) _ Cons.prems(6) run_inv[OF Cons.prems(6,7)], of lk] Cons.prems(4,8)
    by (auto simp: stack_of_def)
  have s: "stack_of k1 x = stack_of k x" if "x \<in> set ts" for x using r(6) c[of x] that by (simp add: stack_of_def)
  have "\<forall>x \<in> set ts. \<not> rt_object_is_systemobject (OThread x) k1 \<and> stack_of k1 x \<in> dom (L(stack_of k t := None))"
  proof
    fix x assume x: "x \<in> set ts"
    then have "stack_of k x \<in> stack_of k ` set ts" "x \<noteq> t" using t by auto
    then have "stack_of k x \<noteq> stack_of k t" "x \<noteq> t" using Cons.prems(5) by auto
    then show "\<not> rt_object_is_systemobject (OThread x) k1 \<and> stack_of k1 x \<in> dom (L(stack_of k t := None))"
      using Cons.prems(4) r(6) c[of x] s[OF x] x by (simp add: rt_object_is_systemobject_def domIff)
  qed
  moreover have "distinct (map (stack_of k1) ts)" using Cons.prems(5) s by (simp cong: map_cong)
  ultimately obtain k' m' where i: "rt_thread_idle_excute lk cu k1 m1 = Some (k', m')" "idle_state k'"
    "ls_q (tlist k') Defunct = []" "heap_run heap m0 m' (L(stack_of k t := None) |` (- (stack_of k1 ` set ts)))"
    "\<forall>x \<in> set ts. \<not> alive k' x"
    "\<forall>x. x \<notin> set ts \<longrightarrow> stat_of (thr k1 x) = 4 \<longrightarrow> objs k' (OThread x) = objs k1 (OThread x)"
    using Cons.IH[OF r(2) Cons.prems(2) r(3) _ _ r(4) Cons.prems(7,8)] by blast
  have "L(stack_of k t := None) |` (- (stack_of k1 ` set ts)) = L |` (- (stack_of k ` set (t # ts)))"
    using s by (auto simp: restrict_map_def fun_eq_iff image_iff)
  moreover have "\<not> alive k' t" using i(6) t r(5,6) c[of t] by (simp add: alive_def rt_object_get_type_def)
  moreover have "objs k' (OThread x) = objs k (OThread x)" if "x \<notin> set (t # ts)" "stat_of (thr k x) = 4" for x
    using i(6) r(6) that by simp
  ultimately show ?case using r(1) i by auto
qed

subsection \<open>Properties\<close>

text \<open>A kernel whose thread 1 is dynamic and has been deleted; its stack is the block at 0x2018.\<close>

definition ex_dead :: kernel where
  "ex_dead = ex_kernel\<lparr>objs := ex_objs(OThread 1 := ex_obj 1, OTimer (ThreadTimer 1) := ex_obj 0),
     olist := \<lparr>ls_q = (\<lambda>_. [])(1 := [OThread 1, OThread 0], 10 := [OTimer (ThreadTimer 0)]),
       ls_in = (\<lambda>_. None)(OThread 0 := Some 1, OThread 1 := Some 1, OTimer (ThreadTimer 0) := Some 10)\<rparr>,
     thr := (thr ex_kernel)(1 := (ex_thread 4 10)\<lparr>th_stack_addr := 0x2018, th_stack_size := 21, th_sp := 0x2020\<rparr>),
     tlist := \<lparr>ls_q = (\<lambda>_. [])(Defunct := [1]), ls_in = (\<lambda>_. None)(1 := Some Defunct)\<rparr>,
     rt_ready_group := 0\<rparr>"

lemma ex_dead_idle: "idle_state ex_dead"
proof -
  have "obj_inv ex_dead"
    by (auto simp: obj_inv_def ex_dead_def ex_kernel_def ls_inv_def obj_ok_def ex_objs_def ex_obj_def
        split: oid.splits tmid.splits)
  moreover have "ls_inv (tlist ex_dead)" "ls_inv (tmlist ex_dead)"
    by (auto simp: ex_dead_def ex_kernel_def ls_inv_def)
  moreover have "group_ok (rt_ready_group ex_dead) (tlist ex_dead)"
    by (auto simp: group_ok_def ex_dead_def)
  moreover have "thread_inv ex_dead t" for t
    by (cases "t = 0"; cases "t = 1")
      (auto simp: thread_inv_def th_inv_def alive_def rt_object_get_type_def ex_dead_def ex_kernel_def
        ex_objs_def ex_obj_def ex_thread_def stat_of_def stack_ok_def simp del: One_nat_def)
  ultimately show ?thesis by (simp add: idle_state_def kinv_def) (simp add: ex_dead_def ex_kernel_def)
qed



text \<open>A static thread with a cleanup function that is detached has lost its object type when the idle thread
  looks at it, so that it is taken for a dynamic one: its stack, which is no block of a heap, is passed to
  \<open>rt_free\<close>, and the assertion there fails. Without assertions the stack would be linked into a heap.\<close>

theorem idle_detached_static:
  assumes "idle_state k" "cleanup_ok cu" "alive k t" "stat_of (thr k t) \<noteq> RT_THREAD_CLOSE"
    and "rt_object_is_systemobject (OThread t) k" "th_cleanup (thr k t) = Some f"
    and "stack_of k t \<noteq> RT_NULL" "it_magic m (stack_of k t - RT_MEMHEAP_SIZE) AND RT_MEMHEAP_MASK \<noteq> RT_MEMHEAP_MAGIC"
  shows "\<exists>k'. rt_thread_detach t k = Some (RT_EOK, k') \<and> rt_thread_idle_excute lk cu k' m = None"
proof -
  obtain L g where c: "rt_thread_detach t k = Some (0, closed_state t True L g k)" "kinv (closed_state t True L g k)"
    "ls_q L Defunct = t # remove1 t (ls_q (tlist k) Defunct)"
    using thread_detach_ok[of k t] assms(1,3,4,5,6) by (auto simp: idle_state_def)
  let ?k = "closed_state t True L g k"
  have i: "idle_state ?k" using assms(1) c(2) by (simp add: idle_state_def closed_state_def)
  have q: "ls_q (tlist ?k) Defunct = t # remove1 t (ls_q (tlist k) Defunct)" using c(3) by (simp add: closed_state_def)
  have s: "stat_of (thr ?k t) = 4" "th_cleanup (thr ?k t) = Some f" "stack_of ?k t = stack_of k t"
    "\<not> rt_object_is_systemobject (OThread t) ?k"
    using assms(6) by (simp_all add: closed_state_def stat_of_def stack_of_def rt_object_is_systemobject_def objs_closed_simps)
  have "rt_free lk (stack_of k t) m = None" using assms(7,8) by (simp add: rt_free_def rt_memheap_free_def Let_def)
  moreover obtain k1 k2 where f: "cu f t (rt_enter_critical (?k\<lparr>tlist := ls_remove t (tlist ?k)\<rparr>)) = Some k1"
    "rt_exit_critical k1 = Some k2" "thr k2 t = thr ?k t" "\<not> rt_object_is_systemobject (OThread t) k1"
    using reclaim_front[OF i assms(2) q] s by auto
  ultimately have "rt_thread_idle_excute lk cu ?k m = None"
    using q i s(2,3) by (subst rt_thread_idle_excute.simps) (simp add: idle_state_def Let_def enter_thr stack_of_def
        RT_DEBUG_NOT_IN_INTERRUPT_def rt_interrupt_get_nest_def)
  then show ?thesis using c(1) by simp
qed

definition ex_static :: kernel where
  "ex_static = ex_kernel\<lparr>thr := (\<lambda>t. (thr ex_kernel t)\<lparr>th_cleanup := Some 7\<rparr>)\<rparr>"

theorem idle_detached_static_witness:
  "\<exists>k'. rt_thread_detach 1 ex_static = Some (RT_EOK, k') \<and>
     rt_thread_idle_excute (\<lambda>_. RT_EOK) (\<lambda>f t k. Some k) k' ex_mem = None"
proof (rule idle_detached_static[where f = 7])
  have "thread_inv ex_static t" for t
    using kinvD(5)[OF ex_kernel_inv, of t]
    by (simp add: ex_static_def thread_inv_def th_inv_def alive_def rt_object_get_type_def stat_of_def stack_ok_def)
  then show "idle_state ex_static"
    using kinvD[OF ex_kernel_inv] ex_kernel_facts by (simp add: idle_state_def kinv_def obj_inv_def ex_static_def)
qed (simp_all add: cleanup_ok_def dead_same_def ex_static_def ex_kernel_def ex_thread_def ex_objs_def ex_obj_def
    ex_mem_def alive_def rt_object_get_type_def rt_object_is_systemobject_def stat_of_def stack_of_def)

end
