(* ===== verification/Completion.thy ===== *)
theory Completion
  imports Ipc_Base
begin

text \<open>
  Completions (\<open>components/drivers/src/completion.c\<close>): one thread waits until another thread, or an interrupt,
  says that something is done. A completion is no kernel object; its control block, apart from the queue of the
  waiting thread, is passed beside the kernel.
\<close>

subsection \<open>Operations\<close>

record rt_completion =
  co_flag :: u32

abbreviation (input) RT_COMPLETED :: u32 where "RT_COMPLETED \<equiv> 1"
abbreviation (input) RT_UNCOMPLETED :: u32 where "RT_UNCOMPLETED \<equiv> 0"

definition rt_completion_init :: "nat \<Rightarrow> kernel \<Rightarrow> (rt_completion \<times> kernel) option" where
  "rt_completion_init n k =
     do { tq \<leftarrow> ls_init_head (CompQ n) (tlist k); Some (\<lparr>co_flag = RT_UNCOMPLETED\<rparr>, k\<lparr>tlist := tq\<rparr>) }"

definition rt_completion_wait ::
  "nat \<Rightarrow> int \<Rightarrow> rt_completion \<Rightarrow> kernel \<Rightarrow> (rt_err_t call \<times> rt_completion \<times> kernel) option" where
  "rt_completion_wait n timeout co k =
     (if co_flag co \<noteq> RT_COMPLETED
      then do { RT_ASSERT (ls_q (tlist k) (CompQ n) = []);
                if timeout = 0 then Some (Return (- RT_ETIMEOUT), co, k)
                else do { thread \<leftarrow> rt_thread_self k;
                          let k = upd_thr thread (\<lambda>th. th\<lparr>th_error := RT_EOK\<rparr>) k;
                          RT_DEBUG_NOT_IN_INTERRUPT k;
                          k \<leftarrow> suspend_on (CompQ n) thread timeout k;
                          k \<leftarrow> rt_schedule k;
                          Some (Blocked, co, k) } }
      else Some (Return RT_EOK, co\<lparr>co_flag := RT_UNCOMPLETED\<rparr>, k))"

definition rt_completion_wait_end :: "nat \<Rightarrow> rt_completion \<Rightarrow> kernel \<Rightarrow> rt_err_t \<times> rt_completion" where
  "rt_completion_wait_end thread co k = (th_error (thr k thread), co\<lparr>co_flag := RT_UNCOMPLETED\<rparr>)"

definition rt_completion_done :: "nat \<Rightarrow> rt_completion \<Rightarrow> kernel \<Rightarrow> (rt_completion \<times> kernel) option" where
  "rt_completion_done n co k =
     (if co_flag co = RT_COMPLETED then Some (co, k)
      else do { let co = co\<lparr>co_flag := RT_COMPLETED\<rparr>;
                case ls_q (tlist k) (CompQ n) of
                  [] \<Rightarrow> Some (co, k)
                | thread # _ \<Rightarrow> do { (_, k) \<leftarrow> rt_thread_resume thread k; k \<leftarrow> rt_schedule k; Some (co, k) } })"

lemma completion_done_wake:
  "rt_completion_done n co k =
     (if co_flag co = 1 then Some (co, k)
      else do { k \<leftarrow> ipc_wake (CompQ n) k; Some (co\<lparr>co_flag := 1\<rparr>, k) })"
  by (auto simp: rt_completion_done_def ipc_wake_def rt_ipc_list_resume_def split: list.splits Option.bind_splits)

subsection \<open>What the operations do\<close>

lemma completion_block_ok:
  assumes k: "kinv k" "caller c k" and f: "co_flag co \<noteq> 1" "ls_q (tlist k) (CompQ n) = []"
    and t: "timeout \<noteq> 0" "timeout < 0x7fffffff"
  shows "\<exists>k'. rt_completion_wait n timeout co k = Some (Blocked, co, k') \<and> kinv k' \<and> ipc_frame k k' \<and>
    rt_current_thread k' \<noteq> None \<and> stat_of (thr k' c) = 2 \<and> th_error (thr k' c) = 0 \<and>
    ls_q (tlist k') (CompQ n) = [c] \<and> (ls_in (tmlist k') (ThreadTimer c) \<noteq> None \<longleftrightarrow> timeout > 0)"
proof -
  have w: "wait_link (Some (CompQ n))" by simp
  obtain k0 k' where b: "wait_on (CompQ n) 0 c timeout (upd_thr c (\<lambda>th. th\<lparr>th_error := 0\<rparr>) k) = Some k0"
    "rt_schedule k0 = Some k'" "kinv k'" "ipc_frame k k'" "rt_current_thread k' \<noteq> None"
    "stat_of (thr k' c) = 2" "th_error (thr k' c) = 0" "set (ls_q (tlist k') (CompQ n)) = {c}"
    "ls_in (tmlist k') (ThreadTimer c) \<noteq> None \<longleftrightarrow> timeout > 0"
    using ipc_block_ok[OF k w _ t(2), of 0] f(2) by auto
  have "ls_q (tlist k') (CompQ n) = [c]"
    using b(8) ls_inv_distinct[OF kinvD(2)[OF b(3)], of "CompQ n"]
    by (cases "ls_q (tlist k') (CompQ n)"; cases "tl (ls_q (tlist k') (CompQ n))") auto
  moreover have "rt_completion_wait n timeout co k = Some (Blocked, co, k')"
    using k(2) f t(1) b(1,2)
    by (simp add: rt_completion_wait_def suspend_on_fifo caller_def rt_thread_self_def Let_def
        RT_DEBUG_NOT_IN_INTERRUPT_def rt_interrupt_get_nest_def)
  ultimately show ?thesis using b by (intro exI[of _ k']) simp
qed

text \<open>A thread that is woken by \<open>rt_completion_done\<close> is ready and keeps its error number.\<close>

lemma completion_done_ok:
  assumes k: "kinv k" "rt_current_thread k \<noteq> None" and f: "co_flag co \<noteq> 1"
  shows "\<exists>k'. rt_completion_done n co k = Some (co\<lparr>co_flag := 1\<rparr>, k') \<and> kinv k' \<and> ipc_frame k k' \<and>
    rt_current_thread k' \<noteq> None \<and> ls_q (tlist k') (CompQ n) = tl (ls_q (tlist k) (CompQ n)) \<and>
    (\<forall>t ts. ls_q (tlist k) (CompQ n) = t # ts \<longrightarrow> ready_thread k' t) \<and>
    (\<forall>t. th_error (thr k' t) = th_error (thr k t))"
proof -
  obtain c where c: "rt_current_thread k = Some c" using k(2) by blast
  obtain k' where w: "ipc_wake (CompQ n) k = Some k'" "kinv k'" "ipc_frame k k'"
    "ls_q (tlist k') (CompQ n) = tl (ls_q (tlist k) (CompQ n))"
    "\<forall>t ts. ls_q (tlist k) (CompQ n) = t # ts \<longrightarrow> ready_thread k' t"
    "\<forall>t. th_error (thr k' t) = th_error (thr k t)"
    using ipc_wake_ok[OF k(1) c, of "CompQ n"] by auto
  moreover have "rt_current_thread k' \<noteq> None" using ipc_wake_current[OF k(1) c w(1)] by simp
  ultimately show ?thesis using f by (intro exI[of _ k']) (simp add: completion_done_wake)
qed

subsection \<open>Runs\<close>

text \<open>
  Any sequence of calls on a completion, of timeouts of its waiting thread, and of other steps of the kernel
  that keep its invariant and leave the queue alone.
\<close>

inductive completion_run :: "nat \<Rightarrow> rt_completion \<Rightarrow> kernel \<Rightarrow> bool" for n where
  start: "kinv k \<Longrightarrow> rt_current_thread k \<noteq> None \<Longrightarrow> rt_completion_init n k = Some (co, k') \<Longrightarrow> completion_run n co k'"
| wait: "completion_run n co k \<Longrightarrow> caller c k \<Longrightarrow> timeout < 0x7fffffff \<Longrightarrow>
    rt_completion_wait n timeout co k = Some (a, co', k') \<Longrightarrow> completion_run n co' k'"
| wait_end: "completion_run n co k \<Longrightarrow> rt_completion_wait_end t co k = (r, co') \<Longrightarrow> completion_run n co' k"
| finished: "completion_run n co k \<Longrightarrow> rt_completion_done n co k = Some (co', k') \<Longrightarrow> completion_run n co' k'"
| timeout: "completion_run n co k \<Longrightarrow> t \<in> set (ls_q (tlist k) (CompQ n)) \<Longrightarrow> ls_in (tmlist k) (ThreadTimer t) = None \<Longrightarrow>
    rt_thread_timeout t k = Some k' \<Longrightarrow> completion_run n co k'"
| other: "completion_run n co k \<Longrightarrow> kinv k' \<Longrightarrow> rt_current_thread k' \<noteq> None \<Longrightarrow>
    ls_q (tlist k') (CompQ n) = ls_q (tlist k) (CompQ n) \<Longrightarrow> completion_run n co k'"

definition completion_inv :: "nat \<Rightarrow> rt_completion \<Rightarrow> kernel \<Rightarrow> bool" where
  "completion_inv n co k \<longleftrightarrow> kinv k \<and> rt_current_thread k \<noteq> None \<and> length (ls_q (tlist k) (CompQ n)) \<le> 1 \<and>
     (co_flag co = RT_COMPLETED \<longrightarrow> ls_q (tlist k) (CompQ n) = [])"

lemma wait_outcomes:
  assumes i: "completion_inv n co k" and c: "caller c k" and t: "timeout < 0x7fffffff"
    and w: "rt_completion_wait n timeout co k = Some (a, co', k')"
  shows "completion_inv n co' k'"
proof (cases "co_flag co = 1 \<or> timeout = 0")
  case True
  then show ?thesis
    using i w by (cases "co_flag co = 1") (auto simp: rt_completion_wait_def completion_inv_def bind_eq_Some_conv)
next
  case False
  have q: "ls_q (tlist k) (CompQ n) = []" using w False by (auto simp: rt_completion_wait_def bind_eq_Some_conv)
  have "kinv k" using i by (simp add: completion_inv_def)
  from completion_block_ok[OF this c _ q _ t, of co] False w i show ?thesis
    by (auto simp: completion_inv_def)
qed

lemma completion_timeout_ok:
  assumes k: "kinv k" "rt_current_thread k \<noteq> None" and t: "t \<in> set (ls_q (tlist k) (CompQ n))"
    "ls_in (tmlist k) (ThreadTimer t) = None"
  shows "\<exists>k'. rt_thread_timeout t k = Some k' \<and> kinv k' \<and> rt_current_thread k' \<noteq> None \<and> th_error (thr k' t) = - 2 \<and>
    ready_thread k' t \<and> ls_q (tlist k') (CompQ n) = remove1 t (ls_q (tlist k) (CompQ n))"
proof -
  obtain c where c: "rt_current_thread k = Some c" using k(2) by blast
  note w = kinv_waiter[OF k(1) t(1), simplified]
  obtain k1 k' where s: "rt_thread_timeout t k = Some k'" "kinv k'" "ipc_frame k k1" "sched_frame k1 k'"
    "rt_current_thread k1 = Some c" "thr k1 = (thr k)(t := set_stat 1 ((thr k t)\<lparr>th_error := - 2\<rparr>))"
    "\<forall>q. ls_q (tlist k1) q = remove1 t (ls_q (tlist k) q) @
       (if c \<noteq> t \<and> q = Ready (prio_of k t) then [t] else [])"
    using timeout_ok[OF k(1) c w(1,2) t(2)] by blast
  have "ready_thread k' t"
    using s(6) w(1) sched_frameD(3)[OF s(4)] ipc_frame_alive[OF s(3)] ipc_frame_alive[OF sched_ipc_frame[OF s(4)]]
    by (simp add: ready_thread_def)
  then show ?thesis using s sched_frameD(3,17)[OF s(4)] sched_frameD(16)[OF s(4), of "CompQ n"]
    by (intro exI[of _ k']) simp
qed

lemma completion_run_inv: "completion_run n co k \<Longrightarrow> completion_inv n co k"
proof (induction rule: completion_run.induct)
  case (start k co k')
  then show ?case by (auto simp: rt_completion_init_def completion_inv_def bind_eq_Some_conv)
next
  case (wait co k c timeout a co' k')
  then show ?case using wait_outcomes by blast
next
  case (wait_end co k t r co')
  then show ?case by (auto simp: rt_completion_wait_end_def completion_inv_def)
next
  case (finished co k co' k')
  show ?case
  proof (cases "co_flag co = 1")
    case True
    then show ?thesis using finished by (simp add: rt_completion_done_def)
  next
    case False
    have "kinv k" "rt_current_thread k \<noteq> None" "length (ls_q (tlist k) (CompQ n)) \<le> 1"
      using finished.IH by (simp_all add: completion_inv_def)
    moreover have "tl (ls_q (tlist k) (CompQ n)) = []" using calculation(3) by (cases "ls_q (tlist k) (CompQ n)") auto
    ultimately show ?thesis using completion_done_ok[of k co n] False finished.hyps(2) by (auto simp: completion_inv_def)
  qed
next
  case (timeout co k t k')
  then obtain "kinv k" "rt_current_thread k \<noteq> None" by (simp add: completion_inv_def)
  from completion_timeout_ok[OF this timeout.hyps(2,3)] timeout.IH timeout.hyps(4) show ?case
    by (auto simp: completion_inv_def length_remove1 split: if_splits)
next
  case (other co k k')
  then show ?case by (simp add: completion_inv_def)
qed

subsection \<open>Properties\<close>

text \<open>C34. In every state of a run at most one thread waits, and nobody waits for a completion that has been
  signalled: \<open>rt_completion_done\<close> always succeeds, sets the flag and makes the waiting thread ready.\<close>

theorem completion_no_missed_wakeup:
  assumes "completion_run n co k"
  shows "length (ls_q (tlist k) (CompQ n)) \<le> 1 \<and> (co_flag co = RT_COMPLETED \<longrightarrow> ls_q (tlist k) (CompQ n) = []) \<and>
    (\<exists>co' k'. rt_completion_done n co k = Some (co', k') \<and> co_flag co' = RT_COMPLETED \<and>
      ls_q (tlist k') (CompQ n) = [] \<and> (\<forall>t \<in> set (ls_q (tlist k) (CompQ n)). ready_thread k' t))"
proof -
  have i: "completion_inv n co k" by (rule completion_run_inv[OF assms])
  have "\<exists>co' k'. rt_completion_done n co k = Some (co', k') \<and> co_flag co' = 1 \<and>
      ls_q (tlist k') (CompQ n) = [] \<and> (\<forall>t \<in> set (ls_q (tlist k) (CompQ n)). ready_thread k' t)"
  proof (cases "co_flag co = 1")
    case True
    then show ?thesis using i by (simp add: rt_completion_done_def completion_inv_def)
  next
    case False
    then show ?thesis using i completion_done_ok[of k co n]
      by (cases "ls_q (tlist k) (CompQ n)") (auto simp: completion_inv_def)
  qed
  then show ?thesis using i by (simp add: completion_inv_def)
qed

lemma ex_completion_run:
  "completion_run 0 \<lparr>co_flag = 0\<rparr> ex_kernel"
  "\<exists>k. rt_completion_wait 0 (- 1) \<lparr>co_flag = 0\<rparr> ex_kernel = Some (Blocked, \<lparr>co_flag = 0\<rparr>, k) \<and>
     completion_run 0 \<lparr>co_flag = 0\<rparr> k \<and> ls_q (tlist k) (CompQ 0) = [0] \<and> ls_in (tmlist k) (ThreadTimer 0) = None"
proof -
  have q: "ls_q (tlist ex_kernel) (CompQ 0) = []" by (simp add: ex_kernel_facts)
  then have "rt_completion_init 0 ex_kernel = Some (\<lparr>co_flag = 0\<rparr>, ex_kernel)"
    by (simp add: rt_completion_init_def ls_init_head_def)
  then show r: "completion_run 0 \<lparr>co_flag = 0\<rparr> ex_kernel"
    using completion_run.start[OF ex_kernel_inv] ex_kernel_facts(1) by simp
  have c: "caller 0 ex_kernel" by (simp add: caller_def ex_kernel_facts)
  show "\<exists>k. rt_completion_wait 0 (- 1) \<lparr>co_flag = 0\<rparr> ex_kernel = Some (Blocked, \<lparr>co_flag = 0\<rparr>, k) \<and>
     completion_run 0 \<lparr>co_flag = 0\<rparr> k \<and> ls_q (tlist k) (CompQ 0) = [0] \<and> ls_in (tmlist k) (ThreadTimer 0) = None"
    using completion_block_ok[OF ex_kernel_inv c _ q, of "\<lparr>co_flag = 0\<rparr>" "- 1"] completion_run.wait[OF r c, of "- 1"]
    by (auto simp del: not_None_eq)
qed

theorem completion_no_missed_wakeup_witness:
  "\<exists>k k'. ls_q (tlist k) (CompQ 0) = [0] \<and> rt_completion_done 0 \<lparr>co_flag = 0\<rparr> k = Some (\<lparr>co_flag = 1\<rparr>, k') \<and>
    ready_thread k' 0"
proof -
  obtain k where k: "completion_run 0 \<lparr>co_flag = 0\<rparr> k" "ls_q (tlist k) (CompQ 0) = [0]" using ex_completion_run(2) by blast
  obtain co' k' where "rt_completion_done 0 \<lparr>co_flag = 0\<rparr> k = Some (co', k')" "co_flag co' = 1" "ready_thread k' 0"
    using completion_no_missed_wakeup[OF k(1)] k(2) by auto
  then show ?thesis using k(2) by (intro exI[of _ k] exI[of _ k']) simp
qed

text \<open>The handshake: a call that has to wait leaves its thread on the queue; whenever it is still there without an
  error when \<open>rt_completion_done\<close> is called, it becomes ready, and its call returns \<open>RT_EOK\<close> and takes the
  completion back.\<close>

theorem completion_handshake:
  assumes "completion_run n co k" "caller c k" "co_flag co \<noteq> RT_COMPLETED" "ls_q (tlist k) (CompQ n) = []"
    and "timeout \<noteq> 0" "timeout < 0x7fffffff"
  shows "\<exists>k1. rt_completion_wait n timeout co k = Some (Blocked, co, k1) \<and> completion_run n co k1 \<and>
    ls_q (tlist k1) (CompQ n) = [c] \<and> stat_of (thr k1 c) = RT_THREAD_SUSPEND \<and>
    (\<forall>k2. completion_run n co k2 \<and> ls_q (tlist k2) (CompQ n) = [c] \<and> th_error (thr k2 c) = RT_EOK \<longrightarrow>
      (\<exists>co' k3. rt_completion_done n co k2 = Some (co', k3) \<and> ready_thread k3 c \<and> ls_q (tlist k3) (CompQ n) = [] \<and>
        rt_completion_wait_end c co' k3 = (RT_EOK, co'\<lparr>co_flag := RT_UNCOMPLETED\<rparr>)))"
proof -
  have "kinv k" using completion_run_inv[OF assms(1)] by (simp add: completion_inv_def)
  from completion_block_ok[OF this assms(2-6)] obtain k1 where
    b: "rt_completion_wait n timeout co k = Some (Blocked, co, k1)" "ls_q (tlist k1) (CompQ n) = [c]"
    "stat_of (thr k1 c) = 2" by blast
  moreover have "completion_run n co k1" by (rule completion_run.wait[OF assms(1,2,6) b(1)])
  moreover have "\<exists>co' k3. rt_completion_done n co k2 = Some (co', k3) \<and> ready_thread k3 c \<and>
      ls_q (tlist k3) (CompQ n) = [] \<and> rt_completion_wait_end c co' k3 = (0, co'\<lparr>co_flag := 0\<rparr>)"
    if k2: "completion_run n co k2" "ls_q (tlist k2) (CompQ n) = [c]" "th_error (thr k2 c) = 0" for k2
    using completion_done_ok[of k2 co n] completion_run_inv[OF k2(1)] k2(2,3) assms(3)
    by (auto simp: completion_inv_def rt_completion_wait_end_def)
  ultimately show ?thesis by blast
qed

theorem completion_handshake_witness:
  "\<exists>k1. rt_completion_wait 0 5 \<lparr>co_flag = 0\<rparr> ex_kernel = Some (Blocked, \<lparr>co_flag = 0\<rparr>, k1) \<and>
    ls_q (tlist k1) (CompQ 0) = [0]"
  using completion_handshake[OF ex_completion_run(1), of 0 5] by (auto simp: caller_def ex_kernel_facts)

text \<open>A completion that is signalled after the time of the waiting thread has run out, but before that thread
  runs again, is lost: the call returns \<open>-RT_ETIMEOUT\<close> and clears the flag, so that the next call waits.\<close>

theorem completion_timeout_loses:
  assumes "completion_run n co k" "co_flag co \<noteq> RT_COMPLETED" "ls_q (tlist k) (CompQ n) = [t]"
    and "ls_in (tmlist k) (ThreadTimer t) = None"
  shows "\<exists>k1 co'. rt_thread_timeout t k = Some k1 \<and> rt_completion_done n co k1 = Some (co', k1) \<and>
    co_flag co' = RT_COMPLETED \<and> rt_completion_wait_end t co' k1 = (- RT_ETIMEOUT, co\<lparr>co_flag := RT_UNCOMPLETED\<rparr>) \<and>
    rt_completion_wait n 0 (co\<lparr>co_flag := RT_UNCOMPLETED\<rparr>) k1 = Some (Return (- RT_ETIMEOUT), co\<lparr>co_flag := RT_UNCOMPLETED\<rparr>, k1)"
proof -
  have i: "kinv k" "rt_current_thread k \<noteq> None" using completion_run_inv[OF assms(1)] by (simp_all add: completion_inv_def)
  obtain k1 where "rt_thread_timeout t k = Some k1" "th_error (thr k1 t) = - 2" "ls_q (tlist k1) (CompQ n) = []"
    using completion_timeout_ok[OF i _ assms(4), of n] assms(3) by auto
  then show ?thesis using assms(2)
    by (intro exI[of _ k1] exI[of _ "co\<lparr>co_flag := 1\<rparr>"])
      (simp add: rt_completion_done_def rt_completion_wait_end_def rt_completion_wait_def)
qed

theorem completion_timeout_loses_witness:
  "\<exists>k k1. rt_thread_timeout 0 k = Some k1 \<and> rt_completion_done 0 \<lparr>co_flag = 0\<rparr> k1 = Some (\<lparr>co_flag = 1\<rparr>, k1) \<and>
    rt_completion_wait_end 0 \<lparr>co_flag = 1\<rparr> k1 = (- 2, \<lparr>co_flag = 0\<rparr>)"
proof -
  obtain k where k: "completion_run 0 \<lparr>co_flag = 0\<rparr> k" "ls_q (tlist k) (CompQ 0) = [0]"
    "ls_in (tmlist k) (ThreadTimer 0) = None" using ex_completion_run(2) by blast
  have "co_flag \<lparr>co_flag = 0\<rparr> \<noteq> 1" by simp
  from completion_timeout_loses[OF k(1) this k(2,3)] obtain k1 where
    "rt_thread_timeout 0 k = Some k1" "rt_completion_done 0 \<lparr>co_flag = 0\<rparr> k1 = Some (\<lparr>co_flag = 1\<rparr>, k1)"
    "rt_completion_wait_end 0 \<lparr>co_flag = 1\<rparr> k1 = (- 2, \<lparr>co_flag = 0\<rparr>)"
    by (auto simp: rt_completion_wait_end_def rt_completion_done_def)
  then show ?thesis by blast
qed

end
