(* ===== verification/Workqueue.thy ===== *)
theory Workqueue
  imports Semaphore
begin

text \<open>
  Work queues (\<open>components/drivers/src/workqueue.c\<close>): a thread takes work items off a list and runs their
  functions. The list node of a work item is in the list of at most one queue; the lists of all queues are one
  list store, with a queue and a work item named by a number each.

  The functions of the work items are code of the program. The loop of the work thread is cut where that thread may
  lose the processor: where it waits for work, and before and after a work function.
\<close>

subsection \<open>Operations\<close>

record rt_workqueue =
  wq_work_current :: "nat option"
  wq_sem :: nat
  wq_work_thread :: nat

record wq_state =
  work_list :: "(nat, nat) lstore"
  wqs :: "nat \<Rightarrow> rt_workqueue"

definition rt_work_init :: "nat \<Rightarrow> wq_state \<Rightarrow> wq_state option" where
  "rt_work_init w s = do { l \<leftarrow> ls_init_node w (work_list s); Some (s\<lparr>work_list := l\<rparr>) }"

text \<open>Acknowledging the end of a work item to all threads that wait for it in \<open>rt_workqueue_cancel_work_sync\<close>.\<close>

partial_function (option) work_completion_loop :: "nat \<Rightarrow> kernel \<Rightarrow> (rt_err_t \<times> kernel) option" where
  "work_completion_loop sem k =
     do { (result, k) \<leftarrow> rt_sem_trytake sem k;
          if result = Return (- RT_ETIMEOUT)
          then do { (_, k) \<leftarrow> rt_sem_release sem k; work_completion_loop sem k }
          else if result = Return RT_EOK then Some (RT_EOK, k)
          else Some (- RT_ERROR, k) }"

definition workqueue_work_completion :: "rt_workqueue \<Rightarrow> kernel \<Rightarrow> (rt_err_t \<times> kernel) option" where
  "workqueue_work_completion queue k =
     do { let k = rt_enter_critical k;
          (result, k) \<leftarrow> work_completion_loop (wq_sem queue) k;
          k \<leftarrow> rt_exit_critical k;
          Some (result, k) }"

text \<open>
  One turn of the loop of the work thread. It tests the list, and suspends itself if that is empty; the test and
  the call of \<open>rt_thread_suspend\<close> are two steps, because interrupts are enabled between them. \<open>work_next\<close> is what
  it does when it runs again, or at once, and gives the work item whose function it calls; \<open>work_finish\<close> follows that
  call. The entry of an empty list is no work item.
\<close>

definition work_idle :: "nat \<Rightarrow> wq_state \<Rightarrow> bool" where
  "work_idle q s \<longleftrightarrow> ls_q (work_list s) q = []"

definition work_suspend :: "kernel \<Rightarrow> kernel option" where
  "work_suspend k =
     do { thread \<leftarrow> rt_thread_self k;
          (_, k) \<leftarrow> rt_thread_suspend thread k;
          rt_schedule k }"

definition work_next :: "nat \<Rightarrow> wq_state \<Rightarrow> (nat \<times> wq_state) option" where
  "work_next q s =
     (case ls_q (work_list s) q of
        [] \<Rightarrow> None
      | work # _ \<Rightarrow> Some (work, s\<lparr>work_list := ls_remove work (work_list s),
                                   wqs := (wqs s)(q := (wqs s q)\<lparr>wq_work_current := Some work\<rparr>)\<rparr>))"

definition work_finish :: "nat \<Rightarrow> wq_state \<Rightarrow> kernel \<Rightarrow> (wq_state \<times> kernel) option" where
  "work_finish q s k =
     do { let s = s\<lparr>wqs := (wqs s)(q := (wqs s q)\<lparr>wq_work_current := None\<rparr>)\<rparr>;
          (_, k) \<leftarrow> workqueue_work_completion (wqs s q) k;
          Some (s, k) }"

text \<open>The blocks that \<open>rt_malloc\<close> returns are the arguments \<open>mem\<close> (the queue, its semaphore and the
  address), \<open>th\<close> and \<open>stk\<close>. A queue that has no thread is freed again; its semaphore stays in the list of objects.\<close>

definition rt_workqueue_create ::
  "(nat \<times> nat \<times> u32) option \<Rightarrow> nat option \<Rightarrow> u32 option \<Rightarrow> u8 list \<Rightarrow> u8 list \<Rightarrow> u32 \<Rightarrow> u32 \<Rightarrow> u16 \<Rightarrow> u8 \<Rightarrow>
   wq_state \<Rightarrow> kernel \<Rightarrow> (nat option \<times> wq_state \<times> kernel) option" where
  "rt_workqueue_create mem th stk name wqueue_name entry texit stack_size priority s k =
     (case mem of
        None \<Rightarrow> Some (None, s, k)
      | Some (q, sem, addr) \<Rightarrow>
          do { l \<leftarrow> ls_init_head q (work_list s);
               (_, k) \<leftarrow> rt_sem_init sem wqueue_name 0 RT_IPC_FLAG_FIFO k;
               (thread, k) \<leftarrow> rt_thread_create th stk name entry texit addr (ucast stack_size) priority 10 k;
               case thread of
                 None \<Rightarrow> Some (None, s, k)
               | Some t \<Rightarrow>
                   do { (_, k) \<leftarrow> rt_thread_startup t k;
                        Some (Some q, s\<lparr>work_list := l, wqs := (wqs s)(q := \<lparr>wq_work_current = None, wq_sem = sem,
                          wq_work_thread = t\<rparr>)\<rparr>, k) } })"

definition rt_workqueue_destroy :: "nat \<Rightarrow> wq_state \<Rightarrow> kernel \<Rightarrow> (rt_err_t \<times> kernel) option" where
  "rt_workqueue_destroy q s k = do { (_, k) \<leftarrow> rt_thread_delete (wq_work_thread (wqs s q)) k; Some (RT_EOK, k) }"

text \<open>Removing the node first allows a work item to be queued twice. The result of \<open>rt_thread_resume\<close> is ignored.\<close>

definition rt_workqueue_dowork :: "nat \<Rightarrow> nat \<Rightarrow> wq_state \<Rightarrow> kernel \<Rightarrow> (rt_err_t \<times> wq_state \<times> kernel) option" where
  "rt_workqueue_dowork q work s k =
     (if wq_work_current (wqs s q) = Some work then Some (- RT_EBUSY, s, k)
      else do { let l = ls_remove work (work_list s);
                l \<leftarrow> ls_push_back q work l;
                let s = s\<lparr>work_list := l\<rparr>;
                if wq_work_current (wqs s q) = None
                then do { (_, k) \<leftarrow> rt_thread_resume (wq_work_thread (wqs s q)) k;
                          k \<leftarrow> rt_schedule k;
                          Some (RT_EOK, s, k) }
                else Some (RT_EOK, s, k) })"

definition rt_workqueue_critical_work :: "nat \<Rightarrow> nat \<Rightarrow> wq_state \<Rightarrow> kernel \<Rightarrow> (rt_err_t \<times> wq_state \<times> kernel) option" where
  "rt_workqueue_critical_work q work s k =
     (if wq_work_current (wqs s q) = Some work then Some (- RT_EBUSY, s, k)
      else do { let l = ls_remove work (work_list s);
                l \<leftarrow> ls_push_back q work l;
                let s = s\<lparr>work_list := l\<rparr>;
                if wq_work_current (wqs s q) = None
                then do { (_, k) \<leftarrow> rt_thread_resume (wq_work_thread (wqs s q)) k;
                          k \<leftarrow> rt_schedule k;
                          Some (RT_EOK, s, k) }
                else Some (RT_EOK, s, k) })"

definition rt_workqueue_cancel_work :: "nat \<Rightarrow> nat \<Rightarrow> wq_state \<Rightarrow> rt_err_t \<times> wq_state" where
  "rt_workqueue_cancel_work q work s =
     (if wq_work_current (wqs s q) = Some work then (- RT_EBUSY, s)
      else (RT_EOK, s\<lparr>work_list := ls_remove work (work_list s)\<rparr>))"

definition rt_workqueue_cancel_work_sync ::
  "nat \<Rightarrow> nat \<Rightarrow> wq_state \<Rightarrow> kernel \<Rightarrow> (rt_err_t call \<times> wq_state \<times> kernel) option" where
  "rt_workqueue_cancel_work_sync q work s k =
     (if wq_work_current (wqs s q) = Some work
      then do { (a, k) \<leftarrow> rt_sem_take (wq_sem (wqs s q)) (- 1) k;
                Some (case a of Blocked \<Rightarrow> Blocked | Return _ \<Rightarrow> Return RT_EOK, s, k) }
      else Some (Return RT_EOK, s\<lparr>work_list := ls_remove work (work_list s)\<rparr>, k))"

fun cancel_all :: "nat list \<Rightarrow> (nat, nat) lstore \<Rightarrow> (nat, nat) lstore" where
  "cancel_all [] l = l"
| "cancel_all (work # ws) l = cancel_all ws (ls_remove work l)"

definition rt_workqueue_cancel_all_work :: "nat \<Rightarrow> wq_state \<Rightarrow> kernel \<Rightarrow> (rt_err_t \<times> wq_state \<times> kernel) option" where
  "rt_workqueue_cancel_all_work q s k =
     do { let k = rt_enter_critical k;
          let s = s\<lparr>work_list := cancel_all (ls_q (work_list s) q) (work_list s)\<rparr>;
          k \<leftarrow> rt_exit_critical k;
          Some (RT_EOK, s, k) }"

subsection \<open>What the operations do\<close>

lemma trytake_empty:
  assumes "sem_ok n k" "sem_value (sems k n) = 0"
  shows "rt_sem_trytake n k = Some (Return (- 2), k)"
  using assms by (simp add: rt_sem_trytake_def rt_sem_take_def sem_ok_def)

text \<open>The loop ends: it wakes the waiting threads one by one, then takes the token that nobody wanted.\<close>

lemma work_completion_ok:
  assumes "kinv k" "rt_current_thread k \<noteq> None" "sem_ok n k" "sem_abs n k = (0, ts)"
  shows "\<exists>k'. work_completion_loop n k = Some (0, k') \<and> kinv k' \<and> rt_current_thread k' \<noteq> None \<and>
    sem_abs n k' = (0, []) \<and> (\<forall>x. alive k' x = alive k x) \<and>
    thr k' = (\<lambda>x. if x \<in> set ts then set_stat 1 (thr k x) else thr k x) \<and>
    rt_scheduler_lock_nest k' = rt_scheduler_lock_nest k"
  using assms
proof (induction ts arbitrary: k)
  case Nil
  note e = trytake_empty[OF Nil(3)]
  obtain k1 where k1: "rt_sem_release n k = Some (0, k1)" "k1 = k\<lparr>sems := (sems k)(n := \<lparr>sem_value = 1\<rparr>)\<rparr>"
    using Nil(3,4) by (simp add: rt_sem_release_def sem_ok_def sem_abs_def)
  have "sem_value (sems k n) = 0" using Nil(4) by (simp add: sem_abs_def)
  then have "work_completion_loop n k = work_completion_loop n k1"
    using e k1(1) by (subst work_completion_loop.simps) simp
  also have "\<dots> = Some (0, k1\<lparr>sems := (sems k1)(n := \<lparr>sem_value = 0\<rparr>)\<rparr>)"
    using Nil(3) k1(2) by (subst work_completion_loop.simps)
      (simp add: rt_sem_trytake_def rt_sem_take_def sem_ok_def rt_object_get_type_def)
  finally show ?case using Nil k1(2)
    by (simp add: sem_abs_def alive_def rt_object_get_type_def)
next
  case (Cons t ts)
  obtain c where c: "rt_current_thread k = Some c" using Cons.prems(2) by blast
  have v: "sem_value (sems k n) = 0" "ls_q (tlist k) (SemQ n) = t # ts" using Cons.prems(4) by (simp_all add: sem_abs_def)
  obtain k1 where k1: "rt_sem_release n k = Some (0, k1)" "kinv k1" "sem_ok n k1" "sem_abs n k1 = (0, ts)"
    "rt_current_thread k1 \<noteq> None" "\<forall>x. alive k1 x = alive k x" "thr k1 = (thr k)(t := set_stat 1 (thr k t))"
    using sem_release_ok[OF Cons.prems(1) c Cons.prems(3)] v by (auto simp: sem_abs_def csem_release_def)
  have n: "rt_scheduler_lock_nest k1 = rt_scheduler_lock_nest k" using sem_release_lock[OF Cons.prems(1) c] k1(1) v by blast
  have d: "t \<notin> set ts" using ls_inv_distinct[OF kinvD(2)[OF Cons.prems(1)], of "SemQ n"] v(2) by simp
  obtain k' where k': "work_completion_loop n k1 = Some (0, k')" "kinv k'" "rt_current_thread k' \<noteq> None"
    "sem_abs n k' = (0, [])" "\<forall>x. alive k' x = alive k1 x"
    "thr k' = (\<lambda>x. if x \<in> set ts then set_stat 1 (thr k1 x) else thr k1 x)"
    "rt_scheduler_lock_nest k' = rt_scheduler_lock_nest k1"
    using Cons.IH[OF k1(2,5,3,4)] by blast
  have "work_completion_loop n k = work_completion_loop n k1"
    using trytake_empty[OF Cons.prems(3) v(1)] k1(1) by (subst work_completion_loop.simps) simp
  moreover have "thr k' = (\<lambda>x. if x \<in> set (t # ts) then set_stat 1 (thr k x) else thr k x)"
    using k'(6) k1(7) d by auto
  ultimately show ?case using k' k1(6) n by (intro exI[of _ k']) simp
qed

lemma queued_ok:
  assumes "ls_inv l"
  obtains l' where "ls_push_back q w (ls_remove w l) = Some l'" "ls_inv l'"
    "\<And>p. ls_q l' p = remove1 w (ls_q l p) @ (if p = q then [w] else [])"
proof -
  obtain l' where l: "ls_push_back q w (ls_remove w l) = Some l'" by (simp add: ls_push_back_def)
  moreover have "ls_inv l'" using l ls_inv_push_back[of "ls_remove w l"] assms by auto
  moreover have "ls_q l' p = remove1 w (ls_q l p) @ (if p = q then [w] else [])" for p
    using l by (auto simp: ls_push_back_Some ls_q_remove[OF assms])
  ultimately show ?thesis using that by blast
qed

lemma dowork_ok:
  assumes k: "kinv k" "rt_current_thread k \<noteq> None" "alive k (wq_work_thread (wqs s q))" and l: "ls_inv (work_list s)"
    and c: "wq_work_current (wqs s q) \<noteq> Some w"
  shows "\<exists>s' k'. rt_workqueue_dowork q w s k = Some (0, s', k') \<and> kinv k' \<and> ls_inv (work_list s') \<and> wqs s' = wqs s \<and>
    (\<forall>p. ls_q (work_list s') p = remove1 w (ls_q (work_list s) p) @ (if p = q then [w] else [])) \<and>
    (wq_work_current (wqs s q) = None \<and> stat_of (thr k (wq_work_thread (wqs s q))) = 2 \<longrightarrow>
      ready_thread k' (wq_work_thread (wqs s q))) \<and>
    (wq_work_current (wqs s q) \<noteq> None \<longrightarrow> k' = k)"
proof -
  obtain l' where l': "ls_push_back q w (ls_remove w (work_list s)) = Some l'" "ls_inv l'"
    "\<And>p. ls_q l' p = remove1 w (ls_q (work_list s) p) @ (if p = q then [w] else [])" using queued_ok[OF l, of q w] by blast
  show ?thesis
  proof (cases "wq_work_current (wqs s q)")
    case None
    then show ?thesis using resume_any_ok[OF k] l' by (auto simp: rt_workqueue_dowork_def)
  next
    case (Some x)
    then show ?thesis using k(1) l' c by (auto simp: rt_workqueue_dowork_def)
  qed
qed

lemma work_finish_ok:
  assumes k: "kinv k" "rt_current_thread k \<noteq> None" "sem_ok n k" "sem_value (sems k n) = 0"
    and s: "wq_sem (wqs s q) = n" "rt_scheduler_lock_nest k = 0"
  shows "\<exists>s' k'. work_finish q s k = Some (s', k') \<and> kinv k' \<and> wq_work_current (wqs s' q) = None \<and>
      work_list s' = work_list s \<and> sem_abs n k' = (0, []) \<and> (\<forall>t \<in> set (ls_q (tlist k) (SemQ n)). ready_thread k' t)"
proof -
  let ?k = "rt_enter_critical k" and ?ts = "ls_q (tlist k) (SemQ n)"
  have e: "kinv ?k" "rt_current_thread ?k \<noteq> None" "sem_ok n ?k" "sem_abs n ?k = (0, ?ts)"
    using k by (simp_all add: rt_enter_critical_def sem_ok_def sem_abs_def rt_object_get_type_def)
  obtain k2 where k2: "work_completion_loop n ?k = Some (0, k2)" "kinv k2" "rt_current_thread k2 \<noteq> None"
    "sem_abs n k2 = (0, [])" "\<forall>x. alive k2 x = alive ?k x"
    "thr k2 = (\<lambda>x. if x \<in> set ?ts then set_stat 1 (thr ?k x) else thr ?k x)"
    "rt_scheduler_lock_nest k2 = rt_scheduler_lock_nest ?k"
    using work_completion_ok[OF e] by blast
  obtain c2 where c2: "rt_current_thread k2 = Some c2" using k2(3) by blast
  have "rt_scheduler_lock_nest k2 = 1" using k2(7) s(2) by (simp add: rt_enter_critical_def)
  then obtain k' where k': "rt_exit_critical k2 = Some k'" "kinv k'" "sched_frame (k2\<lparr>rt_scheduler_lock_nest := 0\<rparr>) k'"
    using exit_critical_ok[OF k2(2) c2] by auto
  have a: "sem_abs n k' = (0, [])" using sem_abs_sched[OF k'(3), of n] k2(4) by (simp add: sem_abs_def)
  have "ready_thread k' t" if t: "t \<in> set ?ts" for t
  proof -
    have "alive k t" using kinv_waiter(1)[OF k(1), of t "SemQ n"] t by simp
    then have "alive k2 t" "stat_of (thr k2 t) = 1"
      using k2(5,6) t by (auto simp: rt_enter_critical_def alive_def rt_object_get_type_def)
    then show ?thesis using sched_frameD(3)[OF k'(3)] ipc_frame_alive[OF sched_ipc_frame[OF k'(3)], of t]
      by (simp add: ready_thread_def alive_def rt_object_get_type_def)
  qed
  then show ?thesis using k2(1) k'(1,2) a s(1) by (simp add: work_finish_def workqueue_work_completion_def)
qed

subsection \<open>Properties\<close>

text \<open>Queue 0 with semaphore 0, whose thread 1 waits for work or does the work \<open>cur\<close>, and thread 0 running.\<close>

definition ex_wq :: "nat option \<Rightarrow> wq_state" where
  "ex_wq cur = \<lparr>work_list = ls_empty, wqs = (\<lambda>_. \<lparr>wq_work_current = cur, wq_sem = 0, wq_work_thread = 1\<rparr>)\<rparr>"

definition ex_worker :: kernel where
  "ex_worker = (ex_wait (SemQ 0))\<lparr>tlist := ls_remove 1 (tlist (ex_wait (SemQ 0)))\<rparr>"

lemma ex_worker_facts:
  "kinv ex_worker" "rt_current_thread ex_worker = Some 0" "alive ex_worker 1" "alive ex_worker 0"
  "stat_of (thr ex_worker 1) = 2" "stat_of (thr ex_worker 0) = 1"
proof -
  have w: "kinv (ex_wait (SemQ 0))" by (rule ex_wait_inv) simp
  show "kinv ex_worker" unfolding ex_worker_def by (rule kinv_unlink[OF w]) (simp add: ex_wait_facts del: One_nat_def)
  show "rt_current_thread ex_worker = Some 0" "alive ex_worker 1" "alive ex_worker 0"
    "stat_of (thr ex_worker 1) = 2" "stat_of (thr ex_worker 0) = 1"
    using ex_wait_facts[of "SemQ 0"] by (simp_all add: ex_worker_def alive_def rt_object_get_type_def del: One_nat_def)
qed

text \<open>\<open>rt_workqueue_dowork\<close> refuses the work item that is being done, and then changes nothing. Any other item is
  behind all others of the queue afterwards, exactly once, also when it was in this or another queue before; if no
  work is being done, and the work thread waits, it becomes ready.\<close>

theorem workqueue_dowork_outcomes:
  assumes "kinv k" "rt_current_thread k \<noteq> None" "alive k (wq_work_thread (wqs s q))" "ls_inv (work_list s)"
  shows "\<exists>e s' k'. rt_workqueue_dowork q w s k = Some (e, s', k') \<and> kinv k' \<and> ls_inv (work_list s') \<and> wqs s' = wqs s \<and>
    (if wq_work_current (wqs s q) = Some w then e = - RT_EBUSY \<and> s' = s \<and> k' = k
     else e = RT_EOK \<and> ls_q (work_list s') q = remove1 w (ls_q (work_list s) q) @ [w] \<and>
       distinct (ls_q (work_list s') q) \<and>
       (\<forall>p. p \<noteq> q \<longrightarrow> w \<notin> set (ls_q (work_list s') p)) \<and>
       (wq_work_current (wqs s q) = None \<and> stat_of (thr k (wq_work_thread (wqs s q))) = RT_THREAD_SUSPEND \<longrightarrow>
         ready_thread k' (wq_work_thread (wqs s q))))"
proof (cases "wq_work_current (wqs s q) = Some w")
  case True
  then show ?thesis using assms by (auto simp: rt_workqueue_dowork_def)
next
  case False
  have d: "w \<notin> set (remove1 w (ls_q (work_list s) p))" for p
    using ls_inv_distinct[OF assms(4), of p] by simp
  show ?thesis using dowork_ok[OF assms False] d False by (fastforce dest: ls_inv_distinct)
qed

theorem workqueue_dowork_outcomes_witness:
  "\<exists>s' k'. rt_workqueue_dowork 0 7 (ex_wq None) ex_worker = Some (0, s', k') \<and> ls_q (work_list s') 0 = [7] \<and>
    ready_thread k' 1"
  using workqueue_dowork_outcomes[OF ex_worker_facts(1), of "ex_wq None" 0 7] ex_worker_facts(2,3,5)
  by (auto simp: ex_wq_def simp del: One_nat_def)

text \<open>C33. \<open>rt_workqueue_cancel_work_sync\<close> on the item that is being done suspends its caller on the semaphore of the
  queue. When the function of the item has returned, in whatever state of the kernel, the work thread acknowledges
  it: the loop over the semaphore ends, all threads that wait there are ready, and the semaphore has no token.\<close>

theorem workqueue_cancel_sync_ends:
  assumes "kinv k" "caller c k" "sem_ok n k" "sem_value (sems k n) = 0"
    and "wq_sem (wqs s q) = n" "wq_work_current (wqs s q) = Some w"
  shows "(\<exists>k1. rt_workqueue_cancel_work_sync q w s k = Some (Blocked, s, k1) \<and> kinv k1 \<and> sem_ok n k1 \<and>
      c \<in> set (ls_q (tlist k1) (SemQ n)) \<and> stat_of (thr k1 c) = RT_THREAD_SUSPEND \<and> sem_value (sems k1 n) = 0) \<and>
    (\<forall>k2. kinv k2 \<and> rt_current_thread k2 \<noteq> None \<and> sem_ok n k2 \<and> sem_value (sems k2 n) = 0 \<and>
       rt_scheduler_lock_nest k2 = 0 \<longrightarrow>
      (\<exists>s' k3. work_finish q s k2 = Some (s', k3) \<and> kinv k3 \<and> wq_work_current (wqs s' q) = None \<and>
        work_list s' = work_list s \<and> sem_abs n k3 = (0, []) \<and>
        (\<forall>t \<in> set (ls_q (tlist k2) (SemQ n)). ready_thread k3 t)))"
proof (intro conjI allI impI)
  obtain k1 where "rt_sem_take n (- 1) k = Some (Blocked, k1)" "kinv k1" "sem_ok n k1" "stat_of (thr k1 c) = 2"
    "sem_abs n k1 = (0, enqueued (ob_flag (objs k (OSem n))) (\<lambda>t. th_current_priority (thr k t)) c (ls_q (tlist k) (SemQ n)))"
    using sem_block_ok[OF assms(1-4), of "- 1"] by auto
  then show "\<exists>k1. rt_workqueue_cancel_work_sync q w s k = Some (Blocked, s, k1) \<and> kinv k1 \<and> sem_ok n k1 \<and>
      c \<in> set (ls_q (tlist k1) (SemQ n)) \<and> stat_of (thr k1 c) = 2 \<and> sem_value (sems k1 n) = 0"
    using assms(5,6) by (auto simp: rt_workqueue_cancel_work_sync_def sem_abs_def)
qed (use work_finish_ok assms(5) in blast)

theorem workqueue_cancel_sync_ends_witness:
  "(\<exists>k1. rt_workqueue_cancel_work_sync 0 7 (ex_wq (Some 7)) ex_sem_wait = Some (Blocked, ex_wq (Some 7), k1)) \<and>
    (\<exists>s' k'. work_finish 0 (ex_wq (Some 7)) ex_sem_wait = Some (s', k') \<and> sem_abs 0 k' = (0, []) \<and> ready_thread k' 1)"
proof -
  note f = ex_sem_wait_facts
  have "caller 0 ex_sem_wait" "rt_scheduler_lock_nest ex_sem_wait = 0"
    by (simp_all add: caller_def ex_sem_wait_def ex_ipc_def ex_wait_def ex_kernel_def ex_thread_def stat_of_def)
  then show ?thesis
    using workqueue_cancel_sync_ends[OF f(1) _ f(2,5), of 0 "ex_wq (Some 7)" 0 7] f
    by (auto simp: ex_wq_def simp del: One_nat_def)
qed

text \<open>A work item that is queued and cancelled before the work thread has run leaves that thread ready with an
  empty list: the thread does not test the list again, and takes the head of the list for a work item.\<close>

theorem workqueue_cancel_faults:
  assumes "kinv k" "rt_current_thread k \<noteq> None" "alive k (wq_work_thread (wqs s q))" "ls_inv (work_list s)"
    and "work_idle q s" "wq_work_current (wqs s q) = None" "stat_of (thr k (wq_work_thread (wqs s q))) = RT_THREAD_SUSPEND"
  shows "\<exists>s1 k1 s2. rt_workqueue_dowork q w s k = Some (RT_EOK, s1, k1) \<and> ready_thread k1 (wq_work_thread (wqs s q)) \<and>
    rt_workqueue_cancel_work q w s1 = (RT_EOK, s2) \<and> work_next q s2 = None"
proof -
  have "wq_work_current (wqs s q) \<noteq> Some w" using assms(6) by simp
  from dowork_ok[OF assms(1-4) this] obtain s1 k1 where d: "rt_workqueue_dowork q w s k = Some (0, s1, k1)"
    "ls_inv (work_list s1)" "wqs s1 = wqs s" "ready_thread k1 (wq_work_thread (wqs s q))"
    "ls_q (work_list s1) q = remove1 w (ls_q (work_list s) q) @ [w]"
    using assms(6,7) by auto
  let ?s = "s1\<lparr>work_list := ls_remove w (work_list s1)\<rparr>"
  have "ls_q (work_list ?s) q = []" using d(5) assms(5) by (simp add: ls_q_remove[OF d(2)] work_idle_def)
  then have "work_next q ?s = None" by (simp add: work_next_def)
  moreover have "rt_workqueue_cancel_work q w s1 = (0, ?s)"
    using d(3) assms(6) by (simp add: rt_workqueue_cancel_work_def)
  ultimately show ?thesis using d(1,4) by blast
qed

theorem workqueue_cancel_faults_witness:
  "\<exists>s1 k1 s2. rt_workqueue_dowork 0 7 (ex_wq None) ex_worker = Some (0, s1, k1) \<and> ready_thread k1 1 \<and>
    rt_workqueue_cancel_work 0 7 s1 = (0, s2) \<and> work_next 0 s2 = None"
  using workqueue_cancel_faults[OF ex_worker_facts(1), of "ex_wq None" 0 7] ex_worker_facts(2,3,5)
  by (auto simp: ex_wq_def work_idle_def simp del: One_nat_def)

text \<open>The test of the list and the suspension of the work thread are not one step. Work that arrives between them is
  put on the list, but finds the thread ready; the thread then suspends itself with work in its queue, and
  whenever that happens nobody wakes it for this item.\<close>

theorem workqueue_lost_wakeup:
  assumes "kinv k" "rt_current_thread k \<noteq> None" "alive k t" "wq_work_thread (wqs s q) = t" "ls_inv (work_list s)"
    and "work_idle q s" "wq_work_current (wqs s q) = None" "stat_of (thr k t) = RT_THREAD_READY"
  shows "\<exists>s1 k1. rt_workqueue_dowork q w s k = Some (RT_EOK, s1, k1) \<and> kinv k1 \<and> ls_q (work_list s1) q = [w] \<and>
    thr k1 = thr k \<and>
    (\<forall>k2. kinv k2 \<and> rt_current_thread k2 = Some t \<and> stat_of (thr k2 t) = RT_THREAD_READY \<longrightarrow>
      (\<exists>k3. work_suspend k2 = Some k3 \<and> kinv k3 \<and> stat_of (thr k3 t) = RT_THREAD_SUSPEND \<and> ls_in (tlist k3) t = None))"
proof -
  have a: "alive k (wq_work_thread (wqs s q))" using assms(3,4) by simp
  obtain l' where l': "ls_push_back q w (ls_remove w (work_list s)) = Some l'"
    "\<And>p. ls_q l' p = remove1 w (ls_q (work_list s) p) @ (if p = q then [w] else [])"
    using queued_ok[OF assms(5), of q w] by blast
  obtain e k1 k' where k': "rt_thread_resume t k = Some (e, k1)" "rt_schedule k1 = Some k'" "kinv k'" "thr k' = thr k"
    using resume_any_ok[OF assms(1-3)] assms(8) by auto
  have d: "rt_workqueue_dowork q w s k = Some (0, s\<lparr>work_list := l'\<rparr>, k')"
    using l'(1) k' assms(4,7) by (simp add: rt_workqueue_dowork_def)
  have "\<exists>k3. work_suspend k2 = Some k3 \<and> kinv k3 \<and> stat_of (thr k3 t) = 2 \<and> ls_in (tlist k3) t = None"
    if k2: "kinv k2" "rt_current_thread k2 = Some t" "stat_of (thr k2 t) = 1" for k2
  proof -
    obtain k3 where k3: "rt_thread_suspend t k2 = Some (0, k3)" "kinv k3" "rt_current_thread k3 = Some t"
      "alive k3 t" "stat_of (thr k3 t) = 2" "ls_in (tlist k3) t = None" using suspend_ok[OF k2] by blast
    obtain k4 where k4: "rt_schedule k3 = Some k4" "kinv k4" "sched_frame k3 k4" using schedule_ok[OF k3(2,3)] by blast
    have "t \<notin> set (ls_q (tlist k4) r)" for r
    proof (cases "\<exists>p. r = Ready p")
      case True
      then show ?thesis using kinv_ready(2)[OF k4(2)] k3(5) sched_frameD(3)[OF k4(3)] by fastforce
    next
      case False
      then show ?thesis using sched_frameD(16)[OF k4(3), of r] k3(6) ls_in_iff[OF kinvD(2)[OF k3(2)]] by auto
    qed
    then have "ls_in (tlist k4) t = None" using ls_in_iff[OF kinvD(2)[OF k4(2)], of t] by (cases "ls_in (tlist k4) t") auto
    then show ?thesis using k2(2) k3 k4 sched_frameD(3)[OF k4(3)] by (simp add: work_suspend_def rt_thread_self_def)
  qed
  then show ?thesis using d k'(3,4) l'(2)[of q] assms(6)
    by (intro exI[of _ "s\<lparr>work_list := l'\<rparr>"] exI[of _ k']) (simp add: work_idle_def)
qed

theorem workqueue_lost_wakeup_witness:
  "\<exists>s1 k1 k3. rt_workqueue_dowork 0 7 ((ex_wq None)\<lparr>wqs := (\<lambda>_. \<lparr>wq_work_current = None, wq_sem = 0, wq_work_thread = 0\<rparr>)\<rparr>)
      ex_worker = Some (0, s1, k1) \<and> ls_q (work_list s1) 0 = [7] \<and>
    work_suspend ex_worker = Some k3 \<and> stat_of (thr k3 0) = 2"
  using workqueue_lost_wakeup[OF ex_worker_facts(1) _ ex_worker_facts(4), of
      "(ex_wq None)\<lparr>wqs := (\<lambda>_. \<lparr>wq_work_current = None, wq_sem = 0, wq_work_thread = 0\<rparr>)\<rparr>" 0 7] ex_worker_facts
  by (auto simp: ex_wq_def work_idle_def)

end
