(* ===== verification/Dataqueue.thy ===== *)
theory Dataqueue
  imports Ipc_Base
begin

text \<open>
  Data queues (\<open>components/drivers/src/dataqueue.c\<close>): a ring of data items, each a pointer with a size, with a queue of
  threads that wait for room and one of threads that wait for data. The control block is passed beside the kernel,
  which has the queues of threads.

  The notification function of a queue is code of the program. A call of it is the last thing an operation does; it is
  the event in the result.
\<close>

subsection \<open>The ring\<close>

type_synonym data_item = "u32 \<times> u32" \<comment> \<open>\<open>data_ptr\<close> and \<open>data_size\<close>\<close>

record rt_data_queue =
  dq_size :: u16
  dq_lwm :: u16
  dq_get_index :: u16
  dq_put_index :: u16
  dq_queue :: "data_item list"
  dq_evt_notify :: "nat option"

abbreviation (input) RT_DATAQUEUE_EVENT_POP :: u32 where "RT_DATAQUEUE_EVENT_POP \<equiv> 1"
abbreviation (input) RT_DATAQUEUE_EVENT_PUSH :: u32 where "RT_DATAQUEUE_EVENT_PUSH \<equiv> 2"
abbreviation (input) RT_DATAQUEUE_EVENT_LWM :: u32 where "RT_DATAQUEUE_EVENT_LWM \<equiv> 3"

text \<open>
  The indices are 16 bits wide and run on; their difference is computed in \<open>int\<close>. The remainder by a size of 0 and an
  access outside the ring are undefined.
\<close>

definition dq_level :: "rt_data_queue \<Rightarrow> int" where
  "dq_level dq = uint (dq_put_index dq) - uint (dq_get_index dq)"

definition dq_slot :: "u16 \<Rightarrow> rt_data_queue \<Rightarrow> nat option" where
  "dq_slot i dq =
     (if dq_size dq \<noteq> 0 \<and> unat (i mod dq_size dq) < length (dq_queue dq) then Some (unat (i mod dq_size dq)) else None)"

definition dq_store :: "data_item \<Rightarrow> rt_data_queue \<Rightarrow> rt_data_queue option" where
  "dq_store d dq =
     do { i \<leftarrow> dq_slot (dq_put_index dq) dq;
          Some (dq\<lparr>dq_queue := (dq_queue dq)[i := d], dq_put_index := dq_put_index dq + 1\<rparr>) }"

definition dq_fetch :: "rt_data_queue \<Rightarrow> (data_item \<times> rt_data_queue) option" where
  "dq_fetch dq =
     do { i \<leftarrow> dq_slot (dq_get_index dq) dq;
          Some (dq_queue dq ! i, dq\<lparr>dq_get_index := dq_get_index dq + 1\<rparr>) }"

definition dq_event :: "u32 \<Rightarrow> rt_data_queue \<Rightarrow> u32 option" where
  "dq_event e dq = (if dq_evt_notify dq \<noteq> None then Some e else None)"

subsection \<open>Operations\<close>

text \<open>The block that \<open>rt_malloc\<close> returns for the ring is the argument \<open>mem\<close>; \<open>RT_NULL\<close> is a ring without slots.\<close>

definition rt_data_queue_init ::
  "nat \<Rightarrow> data_item list option \<Rightarrow> u16 \<Rightarrow> u16 \<Rightarrow> nat option \<Rightarrow> kernel \<Rightarrow> (rt_err_t \<times> rt_data_queue \<times> kernel) option" where
  "rt_data_queue_init n mem sz lwm evt_notify k =
     do { let dq = \<lparr>dq_size = sz, dq_lwm = lwm, dq_get_index = 0, dq_put_index = 0, dq_queue = [],
            dq_evt_notify = evt_notify\<rparr>;
          tq \<leftarrow> ls_init_head (DqPushQ n) (tlist k);
          tq \<leftarrow> ls_init_head (DqPopQ n) tq;
          case mem of
            None \<Rightarrow> Some (- RT_ENOMEM, dq, k\<lparr>tlist := tq\<rparr>)
          | Some items \<Rightarrow> Some (RT_EOK, dq\<lparr>dq_queue := items\<rparr>, k\<lparr>tlist := tq\<rparr>) }"

text \<open>The \<open>while\<close> loop and what follows it, up to the next wait. The time is not shortened when it waits again.\<close>

definition dq_push_loop ::
  "nat \<Rightarrow> nat option \<Rightarrow> data_item \<Rightarrow> int \<Rightarrow> rt_data_queue \<Rightarrow> kernel \<Rightarrow>
   ((rt_err_t \<times> u32 option) call \<times> rt_data_queue \<times> kernel) option" where
  "dq_push_loop n self d timeout dq k =
     (if dq_level dq = uint (dq_size dq)
      then if timeout = 0 then Some (Return (- RT_ETIMEOUT, None), dq, k)
           else do { RT_DEBUG_NOT_IN_INTERRUPT k;
                     thread \<leftarrow> self;
                     let k = upd_thr thread (\<lambda>th. th\<lparr>th_error := RT_EOK\<rparr>) k;
                     k \<leftarrow> suspend_on (DqPushQ n) thread timeout k;
                     k \<leftarrow> rt_schedule k;
                     Some (Blocked, dq, k) }
      else do { dq \<leftarrow> dq_store d dq;
                case ls_q (tlist k) (DqPopQ n) of
                  [] \<Rightarrow> Some (Return (RT_EOK, dq_event RT_DATAQUEUE_EVENT_PUSH dq), dq, k)
                | thread # _ \<Rightarrow>
                    do { (_, k) \<leftarrow> rt_thread_resume thread k;
                         k \<leftarrow> rt_schedule k;
                         Some (Return (RT_EOK, None), dq, k) } })"

definition rt_data_queue_push ::
  "nat \<Rightarrow> data_item \<Rightarrow> int \<Rightarrow> rt_data_queue \<Rightarrow> kernel \<Rightarrow>
   ((rt_err_t \<times> u32 option) call \<times> rt_data_queue \<times> kernel) option" where
  "rt_data_queue_push n d timeout dq k = dq_push_loop n (rt_thread_self k) d timeout dq k"

definition rt_data_queue_push_end ::
  "nat \<Rightarrow> nat \<Rightarrow> data_item \<Rightarrow> int \<Rightarrow> rt_data_queue \<Rightarrow> kernel \<Rightarrow>
   ((rt_err_t \<times> u32 option) call \<times> rt_data_queue \<times> kernel) option" where
  "rt_data_queue_push_end n thread d timeout dq k =
     (if th_error (thr k thread) \<noteq> RT_EOK then Some (Return (th_error (thr k thread), None), dq, k)
      else dq_push_loop n (Some thread) d timeout dq k)"

text \<open>A thread that waits for room is woken only when the level is down to the low-water mark.\<close>

definition dq_pop_loop ::
  "nat \<Rightarrow> nat option \<Rightarrow> int \<Rightarrow> rt_data_queue \<Rightarrow> kernel \<Rightarrow>
   ((rt_err_t \<times> data_item option \<times> u32 option) call \<times> rt_data_queue \<times> kernel) option" where
  "dq_pop_loop n self timeout dq k =
     (if dq_get_index dq = dq_put_index dq
      then if timeout = 0 then Some (Return (- RT_ETIMEOUT, None, None), dq, k)
           else do { RT_DEBUG_NOT_IN_INTERRUPT k;
                     thread \<leftarrow> self;
                     let k = upd_thr thread (\<lambda>th. th\<lparr>th_error := RT_EOK\<rparr>) k;
                     k \<leftarrow> suspend_on (DqPopQ n) thread timeout k;
                     k \<leftarrow> rt_schedule k;
                     Some (Blocked, dq, k) }
      else do { (d, dq) \<leftarrow> dq_fetch dq;
                if dq_level dq \<le> uint (dq_lwm dq)
                then case ls_q (tlist k) (DqPushQ n) of
                       [] \<Rightarrow> Some (Return (RT_EOK, Some d, dq_event RT_DATAQUEUE_EVENT_LWM dq), dq, k)
                     | thread # _ \<Rightarrow>
                         do { (_, k) \<leftarrow> rt_thread_resume thread k;
                              k \<leftarrow> rt_schedule k;
                              Some (Return (RT_EOK, Some d, dq_event RT_DATAQUEUE_EVENT_LWM dq), dq, k) }
                else Some (Return (RT_EOK, Some d, dq_event RT_DATAQUEUE_EVENT_POP dq), dq, k) })"

definition rt_data_queue_pop ::
  "nat \<Rightarrow> int \<Rightarrow> rt_data_queue \<Rightarrow> kernel \<Rightarrow>
   ((rt_err_t \<times> data_item option \<times> u32 option) call \<times> rt_data_queue \<times> kernel) option" where
  "rt_data_queue_pop n timeout dq k = dq_pop_loop n (rt_thread_self k) timeout dq k"

definition rt_data_queue_pop_end ::
  "nat \<Rightarrow> nat \<Rightarrow> int \<Rightarrow> rt_data_queue \<Rightarrow> kernel \<Rightarrow>
   ((rt_err_t \<times> data_item option \<times> u32 option) call \<times> rt_data_queue \<times> kernel) option" where
  "rt_data_queue_pop_end n thread timeout dq k =
     (if th_error (thr k thread) \<noteq> RT_EOK then Some (Return (th_error (thr k thread), None, None), dq, k)
      else dq_pop_loop n (Some thread) timeout dq k)"

definition rt_data_queue_peak :: "rt_data_queue \<Rightarrow> (rt_err_t \<times> data_item option) option" where
  "rt_data_queue_peak dq =
     (if dq_get_index dq = dq_put_index dq then Some (- RT_EEMPTY, None)
      else do { i \<leftarrow> dq_slot (dq_get_index dq) dq; Some (RT_EOK, Some (dq_queue dq ! i)) })"

text \<open>
  The two loops over the waiting threads are those of \<open>rt_ipc_list_resume_all\<close>. The items and the indices stay.
\<close>

definition rt_data_queue_reset :: "nat \<Rightarrow> kernel \<Rightarrow> kernel option" where
  "rt_data_queue_reset n k =
     do { let k = rt_enter_critical k;
          k \<leftarrow> rt_ipc_list_resume_all (DqPopQ n) k;
          k \<leftarrow> rt_ipc_list_resume_all (DqPushQ n) k;
          k \<leftarrow> rt_exit_critical k;
          rt_schedule k }"

subsection \<open>The ring before its indices wrap\<close>

definition dq_inv :: "rt_data_queue \<Rightarrow> bool" where
  "dq_inv dq \<longleftrightarrow> length (dq_queue dq) = unat (dq_size dq) \<and> unat (dq_get_index dq) \<le> unat (dq_put_index dq) \<and>
     unat (dq_put_index dq) - unat (dq_get_index dq) \<le> unat (dq_size dq)"

text \<open>The items in the queue, oldest first.\<close>

definition dq_items :: "rt_data_queue \<Rightarrow> data_item list" where
  "dq_items dq = map (\<lambda>i. dq_queue dq ! (i mod unat (dq_size dq))) [unat (dq_get_index dq)..<unat (dq_put_index dq)]"

lemma dq_level_length: "dq_inv dq \<Longrightarrow> dq_level dq = int (length (dq_items dq))"
  by (simp add: dq_level_def dq_inv_def dq_items_def)

lemma dq_full_iff: "dq_inv dq \<Longrightarrow> dq_level dq = uint (dq_size dq) \<longleftrightarrow> length (dq_items dq) = unat (dq_size dq)"
  using dq_level_length[of dq] by (metis of_nat_eq_iff uint_nat)

lemma dq_empty_iff: "dq_inv dq \<Longrightarrow> dq_get_index dq = dq_put_index dq \<longleftrightarrow> dq_items dq = []"
  by (auto simp: dq_inv_def dq_items_def word_unat_eq_iff)

lemma dq_slot_Some:
  assumes "dq_inv dq" "dq_size dq \<noteq> 0"
  shows "dq_slot i dq = Some (unat i mod unat (dq_size dq))"
  using assms by (simp add: dq_slot_def dq_inv_def unat_mod unat_gt_0)

text \<open>Two indices less than a size apart have different slots.\<close>

lemma slots_differ:
  fixes i j s :: nat
  assumes "i < j" "j - i < s"
  shows "i mod s \<noteq> j mod s"
proof
  assume "i mod s = j mod s"
  then have "s dvd j - i" using assms(1) mod_eq_dvd_iff_nat[of i j s] by simp
  then show False using assms by (auto dest: dvd_imp_le)
qed

lemma dq_store_ok:
  assumes i: "dq_inv dq" and l: "length (dq_items dq) \<noteq> unat (dq_size dq)"
  shows "\<exists>dq'. dq_store d dq = Some dq' \<and> dq_size dq' = dq_size dq \<and> dq_get_index dq' = dq_get_index dq \<and>
    dq_lwm dq' = dq_lwm dq \<and> dq_evt_notify dq' = dq_evt_notify dq \<and> dq_put_index dq' = dq_put_index dq + 1 \<and>
    (unat (dq_put_index dq) < 65535 \<longrightarrow> dq_inv dq' \<and> dq_items dq' = dq_items dq @ [d])"
proof -
  let ?s = "unat (dq_size dq)" and ?g = "unat (dq_get_index dq)" and ?p = "unat (dq_put_index dq)"
  have v: "length (dq_queue dq) = ?s" "?g \<le> ?p" "?p - ?g < ?s"
    using i l by (auto simp: dq_inv_def dq_items_def)
  then have z: "dq_size dq \<noteq> 0" by auto
  let ?dq = "dq\<lparr>dq_queue := (dq_queue dq)[?p mod ?s := d], dq_put_index := dq_put_index dq + 1\<rparr>"
  have "dq_store d dq = Some ?dq" using dq_slot_Some[OF i z] by (simp add: dq_store_def)
  moreover have "dq_inv ?dq \<and> dq_items ?dq = dq_items dq @ [d]" if "?p < 65535"
  proof -
    have u: "unat (dq_put_index dq + 1) = ?p + 1" using that by (simp add: unat_word_ariths)
    have "(dq_queue dq)[?p mod ?s := d] ! (j mod ?s) = dq_queue dq ! (j mod ?s)" if "?g \<le> j" "j < ?p" for j
    proof -
      have "?p - j < ?s" using that v by linarith
      then show ?thesis using slots_differ[OF that(2), of ?s] by simp
    qed
    moreover have "(dq_queue dq)[?p mod ?s := d] ! (?p mod ?s) = d" using v by simp
    ultimately have "dq_items ?dq = dq_items dq @ [d]" using v(2) by (simp add: dq_items_def u)
    moreover have "dq_inv ?dq" using v by (simp add: dq_inv_def u)
    ultimately show ?thesis by simp
  qed
  ultimately show ?thesis by (intro exI[of _ ?dq]) simp
qed

lemma dq_fetch_ok:
  assumes i: "dq_inv dq" and e: "dq_items dq \<noteq> []"
  shows "\<exists>d dq'. dq_fetch dq = Some (d, dq') \<and> dq_items dq = d # dq_items dq' \<and> dq_inv dq' \<and> dq_size dq' = dq_size dq \<and>
    dq_get_index dq' = dq_get_index dq + 1 \<and> dq_put_index dq' = dq_put_index dq \<and> dq_lwm dq' = dq_lwm dq"
proof -
  let ?s = "unat (dq_size dq)" and ?g = "unat (dq_get_index dq)" and ?p = "unat (dq_put_index dq)"
  have v: "length (dq_queue dq) = ?s" "?g < ?p" "?p - ?g \<le> ?s" using i e by (auto simp: dq_inv_def dq_items_def)
  then have z: "dq_size dq \<noteq> 0" by auto
  have u: "unat (dq_get_index dq + 1) = ?g + 1"
    using v(2) unsigned_less[of "dq_put_index dq", where 'a = nat] by (simp add: unat_word_ariths)
  let ?dq = "dq\<lparr>dq_get_index := dq_get_index dq + 1\<rparr>"
  have "dq_fetch dq = Some (dq_queue dq ! (?g mod ?s), ?dq)" using dq_slot_Some[OF i z] by (simp add: dq_fetch_def)
  moreover have "dq_items dq = dq_queue dq ! (?g mod ?s) # dq_items ?dq"
    using v(2) by (simp add: dq_items_def u upt_conv_Cons)
  moreover have "dq_inv ?dq" using v by (simp add: dq_inv_def u)
  ultimately show ?thesis by (intro exI[of _ "dq_queue dq ! (?g mod ?s)"] exI[of _ ?dq]) simp
qed

text \<open>A peak shows what the next pop gives.\<close>

lemma dq_peak_ok:
  assumes "dq_inv dq"
  shows "rt_data_queue_peak dq = Some (case dq_items dq of [] \<Rightarrow> (- 4, None) | d # _ \<Rightarrow> (0, Some d))"
proof (cases "dq_items dq")
  case Nil
  then show ?thesis using dq_empty_iff[OF assms] by (simp add: rt_data_queue_peak_def)
next
  case (Cons d ds)
  then show ?thesis using dq_empty_iff[OF assms] dq_fetch_ok[OF assms]
    by (auto simp: rt_data_queue_peak_def dq_fetch_def bind_eq_Some_conv)
qed

subsection \<open>What pushing and popping do to the kernel\<close>

lemma dq_push_wake:
  "dq_push_loop n self d timeout dq k =
     (if dq_level dq = uint (dq_size dq) then dq_push_loop n self d timeout dq k
      else do { dq \<leftarrow> dq_store d dq; k' \<leftarrow> ipc_wake (DqPopQ n) k;
        Some (Return (0, if ls_q (tlist k) (DqPopQ n) = [] then dq_event 2 dq else None), dq, k') })"
  by (auto simp: dq_push_loop_def ipc_wake_def rt_ipc_list_resume_def split: list.splits Option.bind_splits)

lemma dq_pop_wake:
  "dq_pop_loop n self timeout dq k =
     (if dq_get_index dq = dq_put_index dq then dq_pop_loop n self timeout dq k
      else do { (d, dq) \<leftarrow> dq_fetch dq;
        k \<leftarrow> (if dq_level dq \<le> uint (dq_lwm dq) then ipc_wake (DqPushQ n) k else Some k);
        Some (Return (0, Some d, dq_event (if dq_level dq \<le> uint (dq_lwm dq) then 3 else 1) dq), dq, k) })"
  by (auto simp: dq_pop_loop_def ipc_wake_def rt_ipc_list_resume_def split: list.splits Option.bind_splits)

text \<open>With room, or with data, the call returns at once.\<close>

lemma dq_push_room:
  assumes k: "kinv k" "rt_current_thread k = Some c" and i: "dq_inv dq" and l: "length (dq_items dq) \<noteq> unat (dq_size dq)"
  shows "\<exists>ev dq' k'. dq_push_loop n self d timeout dq k = Some (Return (0, ev), dq', k') \<and> kinv k' \<and>
    rt_current_thread k' \<noteq> None \<and> dq_store d dq = Some dq' \<and>
    ev = (if ls_q (tlist k) (DqPopQ n) = [] then dq_event 2 dq else None) \<and>
    ls_q (tlist k') (DqPopQ n) = tl (ls_q (tlist k) (DqPopQ n)) \<and>
    ls_q (tlist k') (DqPushQ n) = ls_q (tlist k) (DqPushQ n) \<and>
    (\<forall>t ts. ls_q (tlist k) (DqPopQ n) = t # ts \<longrightarrow> ready_thread k' t)"
proof -
  have w: "wait_link (Some (DqPopQ n))" by simp
  obtain dq' where dq': "dq_store d dq = Some dq'" "dq_evt_notify dq' = dq_evt_notify dq" using dq_store_ok[OF i l] by blast
  obtain k' where k': "ipc_wake (DqPopQ n) k = Some k'" "kinv k'"
    "ls_q (tlist k') (DqPopQ n) = tl (ls_q (tlist k) (DqPopQ n))"
    "\<forall>r. wait_link (Some r) \<and> r \<noteq> DqPopQ n \<longrightarrow> ls_q (tlist k') r = ls_q (tlist k) r"
    "\<forall>t ts. ls_q (tlist k) (DqPopQ n) = t # ts \<longrightarrow> ready_thread k' t"
    using ipc_wake_ok[OF k w] by blast
  have "dq_event 2 dq' = dq_event 2 dq" by (simp add: dq_event_def dq'(2))
  then show ?thesis
    using dq' k' ipc_wake_current[OF k k'(1) w] l dq_full_iff[OF i]
    by (subst dq_push_wake) simp
qed

lemma dq_pop_data:
  assumes k: "kinv k" "rt_current_thread k = Some c" and i: "dq_inv dq" and l: "dq_items dq \<noteq> []"
  shows "\<exists>d ev dq' k'. dq_pop_loop n self timeout dq k = Some (Return (0, Some d, ev), dq', k') \<and> kinv k' \<and>
    rt_current_thread k' \<noteq> None \<and> dq_fetch dq = Some (d, dq') \<and>
    ls_q (tlist k') (DqPopQ n) = ls_q (tlist k) (DqPopQ n) \<and>
    (if length (dq_items dq') \<le> unat (dq_lwm dq)
     then ls_q (tlist k') (DqPushQ n) = tl (ls_q (tlist k) (DqPushQ n)) \<and> ev = dq_event 3 dq' \<and>
       (\<forall>t ts. ls_q (tlist k) (DqPushQ n) = t # ts \<longrightarrow> ready_thread k' t)
     else k' = k \<and> ev = dq_event 1 dq')"
proof -
  have w: "wait_link (Some (DqPushQ n))" by simp
  obtain d dq' where dq': "dq_fetch dq = Some (d, dq')" "dq_inv dq'" "dq_lwm dq' = dq_lwm dq" using dq_fetch_ok[OF i l] by blast
  have v: "dq_level dq' \<le> uint (dq_lwm dq') \<longleftrightarrow> length (dq_items dq') \<le> unat (dq_lwm dq)"
    using dq_level_length[OF dq'(2)] dq'(3) by (metis of_nat_le_iff uint_nat)
  obtain k' where k': "ipc_wake (DqPushQ n) k = Some k'" "kinv k'"
    "ls_q (tlist k') (DqPushQ n) = tl (ls_q (tlist k) (DqPushQ n))"
    "\<forall>r. wait_link (Some r) \<and> r \<noteq> DqPushQ n \<longrightarrow> ls_q (tlist k') r = ls_q (tlist k) r"
    "\<forall>t ts. ls_q (tlist k) (DqPushQ n) = t # ts \<longrightarrow> ready_thread k' t"
    using ipc_wake_ok[OF k w] by blast
  note c = ipc_wake_current[OF k k'(1) w]
  have e: "dq_get_index dq \<noteq> dq_put_index dq" using dq_empty_iff[OF i] l by simp
  show ?thesis
  proof (cases "length (dq_items dq') \<le> unat (dq_lwm dq)")
    case True
    then show ?thesis using dq'(1) k' c e v by (subst dq_pop_wake) simp
  next
    case False
    then show ?thesis using dq'(1) k e v by (subst dq_pop_wake) simp
  qed
qed

text \<open>With a full or an empty queue the call returns at once or suspends its caller.\<close>

lemma dq_push_full:
  assumes k: "kinv k" "caller c k" and i: "dq_inv dq" and l: "length (dq_items dq) = unat (dq_size dq)"
    and t: "timeout < 0x7fffffff"
  shows "\<exists>a k'. dq_push_loop n (Some c) d timeout dq k = Some (a, dq, k') \<and> kinv k' \<and> rt_current_thread k' \<noteq> None \<and>
    (if timeout = 0 then a = Return (- 2, None) \<and> k' = k
     else a = Blocked \<and> stat_of (thr k' c) = 2 \<and>
       set (ls_q (tlist k') (DqPushQ n)) = insert c (set (ls_q (tlist k) (DqPushQ n))) \<and>
       (ls_in (tmlist k') (ThreadTimer c) \<noteq> None \<longleftrightarrow> timeout > 0))"
proof (cases "timeout = 0")
  case True
  then show ?thesis using k l dq_full_iff[OF i] by (simp add: dq_push_loop_def caller_def)
next
  case False
  have w: "wait_link (Some (DqPushQ n))" by simp
  show ?thesis
    using driver_block_ok[OF k w t] False k(2) l dq_full_iff[OF i]
    by (auto simp: dq_push_loop_def caller_def Let_def RT_DEBUG_NOT_IN_INTERRUPT_def rt_interrupt_get_nest_def)
qed

lemma dq_pop_empty:
  assumes k: "kinv k" "caller c k" and i: "dq_inv dq" and l: "dq_items dq = []" and t: "timeout < 0x7fffffff"
  shows "\<exists>a k'. dq_pop_loop n (Some c) timeout dq k = Some (a, dq, k') \<and> kinv k' \<and> rt_current_thread k' \<noteq> None \<and>
    (if timeout = 0 then a = Return (- 2, None, None) \<and> k' = k
     else a = Blocked \<and> stat_of (thr k' c) = 2 \<and>
       set (ls_q (tlist k') (DqPopQ n)) = insert c (set (ls_q (tlist k) (DqPopQ n))) \<and>
       (ls_in (tmlist k') (ThreadTimer c) \<noteq> None \<longleftrightarrow> timeout > 0))"
proof (cases "timeout = 0")
  case True
  then show ?thesis using k l dq_empty_iff[OF i] by (simp add: dq_pop_loop_def caller_def)
next
  case False
  have w: "wait_link (Some (DqPopQ n))" by simp
  show ?thesis
    using driver_block_ok[OF k w t] False k(2) l dq_empty_iff[OF i]
    by (auto simp: dq_pop_loop_def caller_def Let_def RT_DEBUG_NOT_IN_INTERRUPT_def rt_interrupt_get_nest_def)
qed

text \<open>The reset wakes all threads with an error.\<close>

lemma dq_reset_ok:
  assumes k: "kinv k" "rt_current_thread k \<noteq> None" "rt_scheduler_lock_nest k = 0"
  shows "\<exists>k'. rt_data_queue_reset n k = Some k' \<and> kinv k' \<and> rt_current_thread k' \<noteq> None \<and>
    ls_q (tlist k') (DqPopQ n) = [] \<and> ls_q (tlist k') (DqPushQ n) = [] \<and>
    (\<forall>t \<in> set (ls_q (tlist k) (DqPopQ n)) \<union> set (ls_q (tlist k) (DqPushQ n)).
       ready_thread k' t \<and> th_error (thr k' t) = - 1)"
proof -
  let ?k = "rt_enter_critical k"
  have e: "kinv ?k" "rt_current_thread ?k = rt_current_thread k" "tlist ?k = tlist k" "rt_scheduler_lock_nest ?k = 1"
    using k by (simp_all add: rt_enter_critical_def)
  have w: "wait_link (Some (DqPopQ n))" "wait_link (Some (DqPushQ n))" by simp_all
  obtain k1 where k1: "rt_ipc_list_resume_all (DqPopQ n) ?k = Some k1" "kinv k1" "ipc_frame ?k k1"
    "rt_current_thread k1 = rt_current_thread ?k" "ls_q (tlist k1) (DqPopQ n) = []"
    "\<forall>t \<in> set (ls_q (tlist ?k) (DqPopQ n)). ready_thread k1 t \<and> th_error (thr k1 t) = - 1"
    "\<forall>r. r \<noteq> DqPopQ n \<and> wait_link (Some r) \<longrightarrow> ls_q (tlist k1) r = ls_q (tlist ?k) r"
    using resume_all_ok[OF e(1) w(1)] by blast
  obtain k2 where k2: "rt_ipc_list_resume_all (DqPushQ n) k1 = Some k2" "kinv k2" "ipc_frame k1 k2"
    "rt_current_thread k2 = rt_current_thread k1" "ls_q (tlist k2) (DqPushQ n) = []"
    "\<forall>t \<in> set (ls_q (tlist k1) (DqPushQ n)). ready_thread k2 t \<and> th_error (thr k2 t) = - 1"
    "\<forall>t. t \<notin> set (ls_q (tlist k1) (DqPushQ n)) \<longrightarrow> thr k2 t = thr k1 t"
    "\<forall>r. r \<noteq> DqPushQ n \<and> wait_link (Some r) \<longrightarrow> ls_q (tlist k2) r = ls_q (tlist k1) r"
    using resume_all_ok[OF k1(2) w(2)] by blast
  obtain c where c: "rt_current_thread k2 = Some c" using k1(4) k2(4) e(2) k(2) by auto
  have "rt_scheduler_lock_nest k2 = 1" using ipc_frameD(9)[OF k1(3)] ipc_frameD(9)[OF k2(3)] e(4) by simp
  then obtain k3 where k3: "rt_exit_critical k2 = Some k3" "kinv k3" "sched_frame (k2\<lparr>rt_scheduler_lock_nest := 0\<rparr>) k3"
    using exit_critical_ok[OF k2(2) c] by auto
  have "rt_current_thread k3 \<noteq> None" using sched_frameD(17)[OF k3(3)] c by simp
  then obtain c3 where c3: "rt_current_thread k3 = Some c3" by blast
  obtain k4 where k4: "rt_schedule k3 = Some k4" "kinv k4" "sched_frame k3 k4" using schedule_ok[OF k3(2) c3] by blast
  have q: "ls_q (tlist k4) r = ls_q (tlist k2) r" if "wait_link (Some r)" for r
    using sched_frameD(16)[OF k3(3), of r] sched_frameD(16)[OF k4(3), of r] wait_link_not_ready(1)[OF that] by simp
  have th: "thr k4 = thr k2" using sched_frameD(3)[OF k3(3)] sched_frameD(3)[OF k4(3)] by simp
  have al: "alive k4 t = alive k1 t" for t
    using ipc_frame_alive[OF k2(3), of t] ipc_frame_alive[OF sched_ipc_frame[OF k3(3)], of t]
      ipc_frame_alive[OF sched_ipc_frame[OF k4(3)], of t] by (simp add: alive_def rt_object_get_type_def)
  have "ready_thread k4 t \<and> th_error (thr k4 t) = - 1"
    if t: "t \<in> set (ls_q (tlist k) (DqPopQ n)) \<union> set (ls_q (tlist k) (DqPushQ n))" for t
  proof (cases "t \<in> set (ls_q (tlist k1) (DqPushQ n))")
    case True
    then show ?thesis using k2(6) th al ipc_frame_alive[OF k2(3), of t] by (simp add: ready_thread_def)
  next
    case False
    then have "t \<in> set (ls_q (tlist ?k) (DqPopQ n))" using t k1(7) e(3) by simp
    then show ?thesis using k1(6) k2(7) False th al by (simp add: ready_thread_def)
  qed
  moreover have "rt_data_queue_reset n k = Some k4" using k1(1) k2(1) k3(1) k4(1) by (simp add: rt_data_queue_reset_def)
  moreover have "ls_q (tlist k4) (DqPopQ n) = []" using q[OF w(1)] k2(8) k1(5) by simp
  moreover have "ls_q (tlist k4) (DqPushQ n) = []" using q[OF w(2)] k2(5) by simp
  moreover have "rt_current_thread k4 \<noteq> None" using sched_frameD(17)[OF k4(3)] c3 by simp
  ultimately show ?thesis using k4(2) by blast
qed

subsection \<open>Runs\<close>

text \<open>
  Any sequence of calls on a queue, with the items \<open>xs\<close> that were pushed and the items \<open>ys\<close> that were popped so far,
  interleaved with any other steps of the kernel that keep its invariant. A thread that has waited goes on whenever it
  runs again.
\<close>

fun pushed :: "data_item \<Rightarrow> (rt_err_t \<times> u32 option) call \<Rightarrow> data_item list" where
  "pushed d (Return (e, ev)) = (if e = RT_EOK then [d] else [])"
| "pushed d Blocked = []"

fun popped :: "(rt_err_t \<times> data_item option \<times> u32 option) call \<Rightarrow> data_item list" where
  "popped (Return (e, Some d, ev)) = [d]"
| "popped (Return (e, None, ev)) = []"
| "popped Blocked = []"

inductive dq_run :: "nat \<Rightarrow> data_item list \<Rightarrow> data_item list \<Rightarrow> rt_data_queue \<Rightarrow> kernel \<Rightarrow> bool" for n where
  start: "kinv k \<Longrightarrow> rt_current_thread k \<noteq> None \<Longrightarrow> length items = unat sz \<Longrightarrow>
    rt_data_queue_init n (Some items) sz lwm f k = Some (e, dq, k') \<Longrightarrow> dq_run n [] [] dq k'"
| push: "dq_run n xs ys dq k \<Longrightarrow> caller c k \<Longrightarrow> timeout < 0x7fffffff \<Longrightarrow>
    rt_data_queue_push n d timeout dq k = Some (a, dq', k') \<Longrightarrow> dq_run n (xs @ pushed d a) ys dq' k'"
| push_end: "dq_run n xs ys dq k \<Longrightarrow> caller c k \<Longrightarrow> timeout < 0x7fffffff \<Longrightarrow>
    rt_data_queue_push_end n c d timeout dq k = Some (a, dq', k') \<Longrightarrow> dq_run n (xs @ pushed d a) ys dq' k'"
| pop: "dq_run n xs ys dq k \<Longrightarrow> caller c k \<Longrightarrow> timeout < 0x7fffffff \<Longrightarrow>
    rt_data_queue_pop n timeout dq k = Some (b, dq', k') \<Longrightarrow> dq_run n xs (ys @ popped b) dq' k'"
| pop_end: "dq_run n xs ys dq k \<Longrightarrow> caller c k \<Longrightarrow> timeout < 0x7fffffff \<Longrightarrow>
    rt_data_queue_pop_end n c timeout dq k = Some (b, dq', k') \<Longrightarrow> dq_run n xs (ys @ popped b) dq' k'"
| other: "dq_run n xs ys dq k \<Longrightarrow> kinv k' \<Longrightarrow> rt_current_thread k' \<noteq> None \<Longrightarrow> dq_run n xs ys dq k'"

definition dq_history :: "data_item list \<Rightarrow> data_item list \<Rightarrow> rt_data_queue \<Rightarrow> kernel \<Rightarrow> bool" where
  "dq_history xs ys dq k \<longleftrightarrow> kinv k \<and> rt_current_thread k \<noteq> None \<and> dq_inv dq \<and>
     unat (dq_put_index dq) = length xs \<and> xs = ys @ dq_items dq"

lemma dq_push_history:
  assumes h: "dq_history xs ys dq k" and c: "caller c k" "timeout < 0x7fffffff"
    and p: "dq_push_loop n (Some c) d timeout dq k = Some (a, dq', k')" and l: "length (xs @ pushed d a) < 65536"
  shows "dq_history (xs @ pushed d a) ys dq' k'"
proof -
  have k: "kinv k" "rt_current_thread k = Some c" "dq_inv dq" using h c(1) by (simp_all add: dq_history_def caller_def)
  show ?thesis
  proof (cases "length (dq_items dq) = unat (dq_size dq)")
    case True
    then show ?thesis using dq_push_full[OF k(1) c(1) k(3) True c(2), of n d] p h
      by (auto simp: dq_history_def split: if_splits)
  next
    case False
    obtain ev where a: "a = Return (0, ev)" "kinv k'" "rt_current_thread k' \<noteq> None" "dq_store d dq = Some dq'"
      using dq_push_room[OF k False, of n "Some c" d timeout] p by auto
    have "unat (dq_put_index dq) < 65535" using l a(1) h by (simp add: dq_history_def)
    moreover from this have "unat (dq_put_index dq + 1) = unat (dq_put_index dq) + 1" by (simp add: unat_word_ariths)
    ultimately show ?thesis using dq_store_ok[OF k(3) False, of d] a h by (auto simp: dq_history_def)
  qed
qed

lemma dq_pop_history:
  assumes h: "dq_history xs ys dq k" and c: "caller c k" "timeout < 0x7fffffff"
    and p: "dq_pop_loop n (Some c) timeout dq k = Some (b, dq', k')"
  shows "dq_history xs (ys @ popped b) dq' k'"
proof -
  have k: "kinv k" "rt_current_thread k = Some c" "dq_inv dq" using h c(1) by (simp_all add: dq_history_def caller_def)
  show ?thesis
  proof (cases "dq_items dq = []")
    case True
    then show ?thesis using dq_pop_empty[OF k(1) c(1) k(3) True c(2), of n] p h
      by (auto simp: dq_history_def split: if_splits)
  next
    case False
    obtain e ev where b: "b = Return (0, Some e, ev)" "kinv k'" "rt_current_thread k' \<noteq> None" "dq_fetch dq = Some (e, dq')"
      using dq_pop_data[OF k False, of n "Some c" timeout] p by auto
    then show ?thesis using dq_fetch_ok[OF k(3) False] h by (auto simp: dq_history_def)
  qed
qed

lemma dq_run_history: "dq_run n xs ys dq k \<Longrightarrow> length xs < 65536 \<Longrightarrow> dq_history xs ys dq k"
proof (induction rule: dq_run.induct)
  case (start k items sz lwm f e dq k')
  then show ?case by (auto simp: rt_data_queue_init_def dq_history_def dq_inv_def dq_items_def bind_eq_Some_conv)
next
  case (push xs ys dq k c timeout d a dq' k')
  then have "dq_history xs ys dq k" "rt_thread_self k = Some c" by (simp_all add: caller_def rt_thread_self_def)
  then show ?case using dq_push_history push.hyps(2-4) push.prems by (simp add: rt_data_queue_push_def)
next
  case (push_end xs ys dq k c timeout d a dq' k')
  have h: "dq_history xs ys dq k" using push_end by simp
  show ?case
  proof (cases "th_error (thr k c) = 0")
    case True
    then show ?thesis using dq_push_history[OF h push_end.hyps(2,3)] push_end.hyps(4) push_end.prems
      by (simp add: rt_data_queue_push_end_def)
  next
    case False
    then show ?thesis using h push_end.hyps(4) by (auto simp: rt_data_queue_push_end_def)
  qed
next
  case (pop xs ys dq k c timeout b dq' k')
  then have "dq_history xs ys dq k" "rt_thread_self k = Some c" by (simp_all add: caller_def rt_thread_self_def)
  then show ?case using dq_pop_history pop.hyps(2-4) by (simp add: rt_data_queue_pop_def)
next
  case (pop_end xs ys dq k c timeout b dq' k')
  then have h: "dq_history xs ys dq k" by simp
  show ?case
  proof (cases "th_error (thr k c) = 0")
    case True
    then show ?thesis using dq_pop_history[OF h pop_end.hyps(2,3)] pop_end.hyps(4) by (simp add: rt_data_queue_pop_end_def)
  next
    case False
    then show ?thesis using h pop_end.hyps(4) by (auto simp: rt_data_queue_pop_end_def)
  qed
next
  case (other xs ys dq k k')
  then show ?case by (simp add: dq_history_def)
qed

subsection \<open>Properties\<close>

text \<open>Queue 0 of two slots; thread 1 waits in the queue \<open>q\<close>, thread 0 runs.\<close>

definition ex_dq :: "u16 \<Rightarrow> u16 \<Rightarrow> rt_data_queue" where
  "ex_dq g p = \<lparr>dq_size = 2, dq_lwm = 1, dq_get_index = g, dq_put_index = p, dq_queue = [(10, 1), (20, 2)],
     dq_evt_notify = Some 5\<rparr>"

lemma ex_dq_facts: "dq_inv (ex_dq 3 5)" "dq_items (ex_dq 3 5) = [(20, 2), (10, 1)]" "dq_inv (ex_dq 3 4)"
  "dq_items (ex_dq 3 4) = [(20, 2)]"
  by (simp_all add: ex_dq_def dq_inv_def dq_items_def upt_conv_Cons)

text \<open>C37. For the first 65535 items a data queue is a bounded first-in first-out queue: after any calls, with any
  waiting, timeouts and other steps of the kernel between them, the items that were pushed are those that were
  popped followed by those in the queue, in the same order; there are never more than \<open>size\<close> of them in the queue,
  and a peak shows the one that is popped next.\<close>

theorem dataqueue_fifo:
  assumes "dq_run n xs ys dq k" "length xs < 65536"
  shows "xs = ys @ dq_items dq \<and> length (dq_items dq) \<le> unat (dq_size dq) \<and> kinv k \<and>
    rt_data_queue_peak dq = Some (case drop (length ys) xs of [] \<Rightarrow> (- RT_EEMPTY, None) | d # _ \<Rightarrow> (RT_EOK, Some d))"
proof -
  have h: "dq_history xs ys dq k" by (rule dq_run_history[OF assms])
  then have "dq_inv dq" by (simp add: dq_history_def)
  then have "length (dq_items dq) \<le> unat (dq_size dq)" by (simp add: dq_inv_def dq_items_def)
  then show ?thesis using h dq_peak_ok[of dq] by (simp add: dq_history_def)
qed

theorem dataqueue_fifo_witness:
  "\<exists>xs dq k. dq_run 0 xs [(7, 4)] dq k \<and> xs = [(7, 4)] @ dq_items dq \<and> length xs = 2"
proof -
  let ?dq = "\<lparr>dq_size = 2, dq_lwm = 0, dq_get_index = 0, dq_put_index = 0, dq_queue = [(0, 0), (0, 0)], dq_evt_notify = None\<rparr>"
  have q: "ls_q (tlist ex_kernel) (DqPushQ 0) = []" "ls_q (tlist ex_kernel) (DqPopQ 0) = []" by (simp_all add: ex_kernel_facts)
  then have "rt_data_queue_init 0 (Some [(0, 0), (0, 0)]) 2 0 None ex_kernel = Some (0, ?dq, ex_kernel)"
    by (simp add: rt_data_queue_init_def ls_init_head_def)
  then have r0: "dq_run 0 [] [] ?dq ex_kernel"
    using dq_run.start[OF ex_kernel_inv, of "[(0, 0), (0, 0)]" 2] ex_kernel_facts(1) by simp
  have c: "caller 0 ex_kernel" by (simp add: caller_def ex_kernel_facts)
  note e = dq_push_loop_def dq_pop_loop_def dq_level_def dq_store_def dq_fetch_def dq_slot_def dq_event_def
  let ?dq1 = "?dq\<lparr>dq_queue := [(7, 4), (0, 0)], dq_put_index := 1\<rparr>"
  have "rt_data_queue_push 0 (7, 4) 0 ?dq ex_kernel = Some (Return (0, None), ?dq1, ex_kernel)"
    using q by (simp add: rt_data_queue_push_def e)
  from dq_run.push[OF r0 c _ this] have r1: "dq_run 0 [(7, 4)] [] ?dq1 ex_kernel" by simp
  let ?dq2 = "?dq1\<lparr>dq_queue := [(7, 4), (8, 4)], dq_put_index := 2\<rparr>"
  have "rt_data_queue_push 0 (8, 4) 0 ?dq1 ex_kernel = Some (Return (0, None), ?dq2, ex_kernel)"
    using q by (simp add: rt_data_queue_push_def e)
  from dq_run.push[OF r1 c _ this] have r2: "dq_run 0 [(7, 4), (8, 4)] [] ?dq2 ex_kernel" by simp
  have "rt_data_queue_pop 0 0 ?dq2 ex_kernel = Some (Return (0, Some (7, 4), None), ?dq2\<lparr>dq_get_index := 1\<rparr>, ex_kernel)"
    using q by (simp add: rt_data_queue_pop_def e)
  from dq_run.pop[OF r2 c _ this] have "dq_run 0 [(7, 4), (8, 4)] [(7, 4)] (?dq2\<lparr>dq_get_index := 1\<rparr>) ex_kernel" by simp
  with dataqueue_fifo[OF this] show ?thesis by (intro exI[of _ "[(7, 4), (8, 4)]"]) auto
qed

text \<open>Who is woken. A push into a queue with room makes the first thread that waits for data ready, and calls the
  notification function only if there is none. A pop makes the first thread that waits for room ready when the level is
  down to the low-water mark; above it, that thread goes on waiting although there is room.\<close>

theorem dataqueue_wakes:
  assumes "kinv k" "caller c k" "dq_inv dq"
  shows "(length (dq_items dq) \<noteq> unat (dq_size dq) \<longrightarrow>
      (\<exists>ev dq' k'. rt_data_queue_push n d timeout dq k = Some (Return (RT_EOK, ev), dq', k') \<and> kinv k' \<and>
        ls_q (tlist k') (DqPopQ n) = tl (ls_q (tlist k) (DqPopQ n)) \<and>
        (case ls_q (tlist k) (DqPopQ n) of [] \<Rightarrow> ev = dq_event RT_DATAQUEUE_EVENT_PUSH dq
         | t # _ \<Rightarrow> ready_thread k' t \<and> ev = None))) \<and>
    (dq_items dq \<noteq> [] \<longrightarrow>
      (\<exists>ev dq' k'. rt_data_queue_pop n timeout dq k = Some (Return (RT_EOK, Some (hd (dq_items dq)), ev), dq', k') \<and>
        kinv k' \<and> dq_items dq' = tl (dq_items dq) \<and>
        (if length (dq_items dq) \<le> Suc (unat (dq_lwm dq))
         then ls_q (tlist k') (DqPushQ n) = tl (ls_q (tlist k) (DqPushQ n)) \<and> ev = dq_event RT_DATAQUEUE_EVENT_LWM dq' \<and>
           (\<forall>t ts. ls_q (tlist k) (DqPushQ n) = t # ts \<longrightarrow> ready_thread k' t)
         else k' = k \<and> ev = dq_event RT_DATAQUEUE_EVENT_POP dq')))"
proof (intro conjI impI)
  have c: "rt_current_thread k = Some c" using assms(2) by (simp add: caller_def)
  show "\<exists>ev dq' k'. rt_data_queue_push n d timeout dq k = Some (Return (0, ev), dq', k') \<and> kinv k' \<and>
        ls_q (tlist k') (DqPopQ n) = tl (ls_q (tlist k) (DqPopQ n)) \<and>
        (case ls_q (tlist k) (DqPopQ n) of [] \<Rightarrow> ev = dq_event 2 dq | t # _ \<Rightarrow> ready_thread k' t \<and> ev = None)"
    if "length (dq_items dq) \<noteq> unat (dq_size dq)"
    using dq_push_room[OF assms(1) c assms(3) that, of n "rt_thread_self k" d timeout]
    by (cases "ls_q (tlist k) (DqPopQ n)") (auto simp: rt_data_queue_push_def)
  assume l: "dq_items dq \<noteq> []"
  obtain d' ev dq' k' where p: "dq_pop_loop n (rt_thread_self k) timeout dq k = Some (Return (0, Some d', ev), dq', k')"
    "kinv k'" "dq_fetch dq = Some (d', dq')"
    "if length (dq_items dq') \<le> unat (dq_lwm dq)
     then ls_q (tlist k') (DqPushQ n) = tl (ls_q (tlist k) (DqPushQ n)) \<and> ev = dq_event 3 dq' \<and>
       (\<forall>t ts. ls_q (tlist k) (DqPushQ n) = t # ts \<longrightarrow> ready_thread k' t)
     else k' = k \<and> ev = dq_event 1 dq'"
    using dq_pop_data[OF assms(1) c assms(3) l, of n "rt_thread_self k" timeout] by blast
  have "dq_items dq = d' # dq_items dq'" using dq_fetch_ok[OF assms(3) l] p(3) by auto
  then show "\<exists>ev dq' k'. rt_data_queue_pop n timeout dq k = Some (Return (0, Some (hd (dq_items dq)), ev), dq', k') \<and>
        kinv k' \<and> dq_items dq' = tl (dq_items dq) \<and>
        (if length (dq_items dq) \<le> Suc (unat (dq_lwm dq))
         then ls_q (tlist k') (DqPushQ n) = tl (ls_q (tlist k) (DqPushQ n)) \<and> ev = dq_event 3 dq' \<and>
           (\<forall>t ts. ls_q (tlist k) (DqPushQ n) = t # ts \<longrightarrow> ready_thread k' t)
         else k' = k \<and> ev = dq_event 1 dq')"
    using p by (intro exI[of _ ev] exI[of _ dq'] exI[of _ k']) (simp add: rt_data_queue_pop_def)
qed

lemma ex_dq_wait: "kinv (ex_wait q)" "caller 0 (ex_wait q)" "ls_q (tlist (ex_wait q)) q = [1]" if "wait_link (Some q)" for q
  using ex_wait_inv[OF that] ex_wait_facts[of q] by (simp_all add: caller_def ex_wait_def ex_kernel_def)

theorem dataqueue_wakes_witness:
  "(\<exists>ev dq' k'. rt_data_queue_push 0 (7, 4) 0 (ex_dq 3 4) (ex_wait (DqPopQ 0)) = Some (Return (0, ev), dq', k') \<and>
      ready_thread k' 1 \<and> ev = None) \<and>
   (\<exists>dq' k'. rt_data_queue_pop 0 0 (ex_dq 3 5) (ex_wait (DqPushQ 0)) = Some (Return (0, Some (20, 2), Some 3), dq', k') \<and>
      ready_thread k' 1)"
proof
  have w: "wait_link (Some (DqPopQ 0))" "wait_link (Some (DqPushQ 0))" by simp_all
  show "\<exists>ev dq' k'. rt_data_queue_push 0 (7, 4) 0 (ex_dq 3 4) (ex_wait (DqPopQ 0)) = Some (Return (0, ev), dq', k') \<and>
      ready_thread k' 1 \<and> ev = None"
    using dataqueue_wakes[OF ex_dq_wait(1,2)[OF w(1)] ex_dq_facts(3), of 0 "(7, 4)" 0] ex_dq_wait(3)[OF w(1)] ex_dq_facts(4)
    by (simp add: ex_dq_def) blast
  obtain ev dq' k' where "rt_data_queue_pop 0 0 (ex_dq 3 5) (ex_wait (DqPushQ 0)) = Some (Return (0, Some (20, 2), ev), dq', k')"
    "ready_thread k' 1" "ev = dq_event 3 dq'"
    using dataqueue_wakes[OF ex_dq_wait(1,2)[OF w(2)] ex_dq_facts(1), of 0 "(7, 4)" 0] ex_dq_wait(3)[OF w(2)] ex_dq_facts(2)
    by (simp add: ex_dq_def) blast
  then show "\<exists>dq' k'. rt_data_queue_pop 0 0 (ex_dq 3 5) (ex_wait (DqPushQ 0)) = Some (Return (0, Some (20, 2), Some 3), dq', k') \<and>
      ready_thread k' 1"
    by (auto simp: rt_data_queue_pop_def dq_pop_loop_def dq_fetch_def dq_slot_def dq_event_def ex_dq_def bind_eq_Some_conv
        split: if_splits list.splits)
qed

text \<open>After \<open>put_index\<close> has wrapped and while \<open>get_index\<close> has not, a full queue is not seen to be full: the
  difference of the indices is negative. The next push does not wait but overwrites the oldest item, and the next
  pop gives the newest item instead.\<close>

theorem dataqueue_wrap_overruns:
  assumes "kinv k" "caller c k" "length (dq_queue dq) = unat (dq_size dq)" "dq_size dq \<noteq> 0" "unat (dq_size dq) dvd 2 ^ 16"
    and "dq_put_index dq = dq_get_index dq + dq_size dq" "dq_put_index dq < dq_get_index dq"
  shows "\<exists>ev dq' k'. rt_data_queue_push n d timeout dq k = Some (Return (RT_EOK, ev), dq', k') \<and>
    (\<exists>dq''. dq_fetch dq' = Some (d, dq''))"
proof -
  let ?s = "unat (dq_size dq)"
  have c: "rt_current_thread k = Some c" using assms(2) by (simp add: caller_def)
  have "unat (dq_put_index dq) mod ?s = (unat (dq_get_index dq) + ?s) mod 2 ^ 16 mod ?s"
    using assms(6) by (simp add: unat_word_ariths)
  also have "\<dots> = (unat (dq_get_index dq) + ?s) mod ?s" by (rule mod_mod_cancel[OF assms(5)])
  finally have m: "unat (dq_put_index dq) mod ?s = unat (dq_get_index dq) mod ?s" by simp
  have s: "0 < ?s" using assms(4) by (simp add: unat_gt_0)
  let ?dq = "dq\<lparr>dq_queue := (dq_queue dq)[unat (dq_get_index dq) mod ?s := d], dq_put_index := dq_put_index dq + 1\<rparr>"
  have st: "dq_store d dq = Some ?dq" using m s assms(3,4) by (simp add: dq_store_def dq_slot_def unat_mod)
  have "uint (dq_put_index dq) < uint (dq_get_index dq)" using assms(7) by (simp add: word_less_def)
  then have "dq_level dq < 0" by (simp add: dq_level_def)
  then have l: "dq_level dq \<noteq> uint (dq_size dq)" using uint_ge_0[of "dq_size dq"] by linarith
  have w: "wait_link (Some (DqPopQ n))" by simp
  obtain k' where "ipc_wake (DqPopQ n) k = Some k'" using ipc_wake_ok[OF assms(1) c w] by blast
  then have "\<exists>ev. rt_data_queue_push n d timeout dq k = Some (Return (0, ev), ?dq, k')"
    unfolding rt_data_queue_push_def using l st by (subst dq_push_wake) simp
  moreover have "dq_fetch ?dq = Some (d, ?dq\<lparr>dq_get_index := dq_get_index dq + 1\<rparr>)"
    using s assms(3,4) by (simp add: dq_fetch_def dq_slot_def unat_mod)
  ultimately show ?thesis by blast
qed

theorem dataqueue_wrap_overruns_witness:
  "dq_fetch (ex_dq 65535 1) = Some ((20, 2), ex_dq 0 1) \<and>
   (\<exists>ev dq' k' dq''. rt_data_queue_push 0 (7, 4) (- 1) (ex_dq 65535 1) ex_kernel = Some (Return (0, ev), dq', k') \<and>
      dq_fetch dq' = Some ((7, 4), dq''))"
proof
  show "dq_fetch (ex_dq 65535 1) = Some ((20, 2), ex_dq 0 1)" by (simp add: dq_fetch_def dq_slot_def ex_dq_def)
  have "caller 0 ex_kernel" by (simp add: caller_def ex_kernel_facts)
  from dataqueue_wrap_overruns[OF ex_kernel_inv this, of "ex_dq 65535 1" 0 "(7, 4)" "- 1"]
  show "\<exists>ev dq' k' dq''. rt_data_queue_push 0 (7, 4) (- 1) (ex_dq 65535 1) ex_kernel = Some (Return (0, ev), dq', k') \<and>
      dq_fetch dq' = Some ((7, 4), dq'')" by (auto simp: ex_dq_def)
qed

end
