(* ===== verification/Waitqueue.thy ===== *)
theory Waitqueue
  imports Ipc_Base
begin

text \<open>
  Wait queues (\<open>components/drivers/src/waitqueue.c\<close>): threads wait for a condition that they test themselves. The
  queue holds nodes, each with the thread that waits and a function that decides whether a wake-up is meant for it.
  The nodes are in no list of the kernel: the list store of the queues is beside it, with a queue and a node named by
  a number each.

  The functions of nodes other than those of \<open>rt_wqueue_wait\<close> are code of other components: the parameter \<open>fn\<close>, which
  may change the kernel, and says what the function \<open>f\<close> answers for a node and a key.
\<close>

subsection \<open>Operations\<close>

record rt_wqueue_node =
  wn_polling_thread :: nat
  wn_wakeup :: "nat option" \<comment> \<open>\<open>None\<close> is \<open>__wqueue_default_wake\<close>\<close>
  wn_key :: u32

record wqueues =
  waiting_list :: "(nat, nat) lstore"
  wq_flag :: "nat \<Rightarrow> u32"
  wq_node :: "nat \<Rightarrow> rt_wqueue_node"

abbreviation (input) RT_WQ_FLAG_CLEAN :: u32 where "RT_WQ_FLAG_CLEAN \<equiv> 0"
abbreviation (input) RT_WQ_FLAG_WAKEUP :: u32 where "RT_WQ_FLAG_WAKEUP \<equiv> 1"

type_synonym wake_fn = "nat \<Rightarrow> nat \<Rightarrow> u32 \<Rightarrow> kernel \<Rightarrow> (int \<times> kernel) option"

definition rt_wqueue_init :: "nat \<Rightarrow> wqueues \<Rightarrow> wqueues option" where
  "rt_wqueue_init q s =
     do { l \<leftarrow> ls_init_head q (waiting_list s);
          Some (s\<lparr>waiting_list := l, wq_flag := (wq_flag s)(q := RT_WQ_FLAG_CLEAN)\<rparr>) }"

definition rt_wqueue_add :: "nat \<Rightarrow> nat \<Rightarrow> wqueues \<Rightarrow> wqueues option" where
  "rt_wqueue_add q w s = do { l \<leftarrow> ls_push_back q w (waiting_list s); Some (s\<lparr>waiting_list := l\<rparr>) }"

definition rt_wqueue_remove :: "nat \<Rightarrow> wqueues \<Rightarrow> wqueues" where
  "rt_wqueue_remove w s = s\<lparr>waiting_list := ls_remove w (waiting_list s)\<rparr>"

definition wqueue_default_wake :: "nat \<Rightarrow> u32 \<Rightarrow> int" where
  "wqueue_default_wake w key = 0"

definition wake_answer :: "wake_fn \<Rightarrow> nat \<Rightarrow> u32 \<Rightarrow> wqueues \<Rightarrow> kernel \<Rightarrow> (int \<times> kernel) option" where
  "wake_answer fn w key s k =
     (case wn_wakeup (wq_node s w) of None \<Rightarrow> Some (wqueue_default_wake w key, k) | Some f \<Rightarrow> fn f w key k)"

text \<open>The loop over the nodes: it stops at the first one whose function answers 0.\<close>

fun wakeup_loop :: "wake_fn \<Rightarrow> u32 \<Rightarrow> nat list \<Rightarrow> wqueues \<Rightarrow> kernel \<Rightarrow> (bool \<times> wqueues \<times> kernel) option" where
  "wakeup_loop fn key [] s k = Some (False, s, k)"
| "wakeup_loop fn key (entry # ws) s k =
     do { (r, k) \<leftarrow> wake_answer fn entry key s k;
          if r = 0
          then do { (_, k) \<leftarrow> rt_thread_resume (wn_polling_thread (wq_node s entry)) k;
                    Some (True, rt_wqueue_remove entry s, k) }
          else wakeup_loop fn key ws s k }"

definition rt_wqueue_wakeup :: "wake_fn \<Rightarrow> nat \<Rightarrow> u32 \<Rightarrow> wqueues \<Rightarrow> kernel \<Rightarrow> (wqueues \<times> kernel) option" where
  "rt_wqueue_wakeup fn q key s k =
     do { let s = s\<lparr>wq_flag := (wq_flag s)(q := RT_WQ_FLAG_WAKEUP)\<rparr>;
          (need_schedule, s, k) \<leftarrow> wakeup_loop fn key (ls_q (waiting_list s) q) s k;
          k \<leftarrow> (if need_schedule then rt_schedule k else Some k);
          Some (s, k) }"

text \<open>
  The node \<open>w\<close> is the local variable \<open>__wait\<close> of the caller. A call returns 0 in any case; \<open>rt_wqueue_wait_end\<close> is what
  it does when its thread runs again.
\<close>

definition rt_wqueue_wait_end :: "nat \<Rightarrow> nat \<Rightarrow> wqueues \<Rightarrow> wqueues" where
  "rt_wqueue_wait_end q w s = rt_wqueue_remove w (s\<lparr>wq_flag := (wq_flag s)(q := 0)\<rparr>)"

definition rt_wqueue_wait :: "nat \<Rightarrow> nat \<Rightarrow> bool \<Rightarrow> int \<Rightarrow> wqueues \<Rightarrow> kernel \<Rightarrow> (int call \<times> wqueues \<times> kernel) option" where
  "rt_wqueue_wait q w condition msec s k =
     do { RT_DEBUG_NOT_IN_INTERRUPT k;
          tick \<leftarrow> rt_tick_from_millisecond msec;
          if condition \<or> tick = 0 then Some (Return 0, s, k)
          else do { tid \<leftarrow> rt_thread_self k;
                    l \<leftarrow> ls_init_node w (waiting_list s);
                    let s = s\<lparr>waiting_list := l,
                      wq_node := (wq_node s)(w := \<lparr>wn_polling_thread = tid, wn_wakeup = None, wn_key = 0\<rparr>)\<rparr>;
                    if wq_flag s q = RT_WQ_FLAG_WAKEUP then Some (Return 0, rt_wqueue_wait_end q w s, k)
                    else do { s \<leftarrow> rt_wqueue_add q w s;
                              (_, k) \<leftarrow> rt_thread_suspend tid k;
                              k \<leftarrow> (if tick \<noteq> RT_WAITING_FOREVER then arm_timer tid (word_of_int tick) k else Some k);
                              k \<leftarrow> rt_schedule k;
                              Some (Blocked, s, k) } } }"

subsection \<open>What the operations do\<close>

text \<open>The node that a wake-up is for: the first whose function answers 0, with no change to the kernel before.\<close>

definition refuses :: "wake_fn \<Rightarrow> u32 \<Rightarrow> wqueues \<Rightarrow> kernel \<Rightarrow> nat \<Rightarrow> bool" where
  "refuses fn key s k w \<longleftrightarrow> (\<exists>r. wake_answer fn w key s k = Some (r, k) \<and> r \<noteq> 0)"

lemma wakeup_loop_skip:
  "\<forall>x \<in> set us. refuses fn key s k x \<Longrightarrow> wakeup_loop fn key (us @ ws) s k = wakeup_loop fn key ws s k"
  by (induction us) (auto simp: refuses_def)

lemma wakeup_found:
  assumes k: "kinv k" "rt_current_thread k \<noteq> None" and l: "ls_q (waiting_list s) q = us @ w # vs"
    and r: "\<forall>x \<in> set us. refuses fn key s k x" "wake_answer fn w key s k = Some (0, k)"
    and t: "alive k (wn_polling_thread (wq_node s w))"
  shows "\<exists>k'. rt_wqueue_wakeup fn q key s k = Some (rt_wqueue_remove w (s\<lparr>wq_flag := (wq_flag s)(q := 1)\<rparr>), k') \<and>
    kinv k' \<and> rt_current_thread k' \<noteq> None \<and>
    (stat_of (thr k (wn_polling_thread (wq_node s w))) = 2 \<longrightarrow> ready_thread k' (wn_polling_thread (wq_node s w))) \<and>
    (stat_of (thr k (wn_polling_thread (wq_node s w))) \<noteq> 2 \<longrightarrow> thr k' = thr k)"
proof -
  let ?s = "s\<lparr>wq_flag := (wq_flag s)(q := 1)\<rparr>"
  have a: "wake_answer fn x key ?s k = wake_answer fn x key s k" for x by (simp add: wake_answer_def)
  then have "wakeup_loop fn key (us @ w # vs) ?s k = wakeup_loop fn key (w # vs) ?s k"
    using wakeup_loop_skip[of us fn key ?s k "w # vs"] r(1) by (simp add: refuses_def)
  then show ?thesis using resume_any_ok[OF k t] r(2) a l by (auto simp: rt_wqueue_wakeup_def)
qed

lemma wakeup_not_found:
  assumes "\<forall>x \<in> set (ls_q (waiting_list s) q). refuses fn key s k x"
  shows "rt_wqueue_wakeup fn q key s k = Some (s\<lparr>wq_flag := (wq_flag s)(q := 1)\<rparr>, k)"
proof -
  let ?s = "s\<lparr>wq_flag := (wq_flag s)(q := 1)\<rparr>"
  have "\<forall>x \<in> set (ls_q (waiting_list s) q). refuses fn key ?s k x" using assms by (simp add: refuses_def wake_answer_def)
  then have "wakeup_loop fn key (ls_q (waiting_list s) q) ?s k = Some (False, ?s, k)"
    using wakeup_loop_skip[of "ls_q (waiting_list s) q" fn key ?s k "[]"] by simp
  then show ?thesis by (simp add: rt_wqueue_wakeup_def)
qed

text \<open>Waiting: the node goes behind the others, and the thread is suspended in no list of the kernel.\<close>

lemma wqueue_block_ok:
  assumes k: "kinv k" "caller c k" and s: "ls_in (waiting_list s) w = None" "wq_flag s q \<noteq> 1"
    and m: "msec \<noteq> 0" "msec \<le> 2147482"
  shows "\<exists>s' k'. rt_wqueue_wait q w False msec s k = Some (Blocked, s', k') \<and> kinv k' \<and> rt_current_thread k' \<noteq> None \<and>
    ipc_frame k k' \<and> thr k' = (thr k)(c := set_stat 2 (thr k c)) \<and>
    (ls_in (tmlist k') (ThreadTimer c) \<noteq> None \<longleftrightarrow> msec > 0) \<and>
    wq_flag s' = wq_flag s \<and> wq_node s' = (wq_node s)(w := \<lparr>wn_polling_thread = c, wn_wakeup = None, wn_key = 0\<rparr>) \<and>
    waiting_list s' = (waiting_list s)\<lparr>ls_q := (ls_q (waiting_list s))(q := ls_q (waiting_list s) q @ [w]),
      ls_in := (ls_in (waiting_list s))(w := Some q)\<rparr>"
proof -
  define tick where "tick = (if msec < 0 then - 1 else msec)"
  have "(1000 * msec + 999) div 1000 = msec" by simp
  then have tk: "rt_tick_from_millisecond msec = Some tick" "tick \<noteq> 0" "tick \<noteq> - 1 \<longleftrightarrow> msec > 0" "tick \<le> 2147482"
    using m by (auto simp: rt_tick_from_millisecond_def tick_def)
  have c: "rt_current_thread k = Some c" "stat_of (thr k c) = 1" "rt_interrupt_nest k = 0" using k(2) by (simp_all add: caller_def)
  obtain k1 where k1: "rt_thread_suspend c k = Some (0, k1)" "kinv k1" "ipc_frame k k1"
    "thr k1 = (thr k)(c := set_stat 2 (thr k c))" "rt_current_thread k1 = Some c" "alive k1 c" "stat_of (thr k1 c) = 2"
    "ls_in (tmlist k1) (ThreadTimer c) = None" using suspend_ok[OF k(1) c(1,2)] by blast
  obtain k2 where k2: "(if tick \<noteq> - 1 then arm_timer c (word_of_int tick) k1 else Some k1) = Some k2" "kinv k2"
    "ipc_frame k1 k2" "thr k2 = thr k1" "rt_current_thread k2 = Some c"
    "ls_in (tmlist k2) (ThreadTimer c) \<noteq> None \<longleftrightarrow> msec > 0"
  proof (cases "tick = - 1")
    case True
    then show ?thesis using that[of k1] k1 tk(3) by simp
  next
    case False
    then have "0 < tick" using tk(3) by (auto simp: tick_def)
    then have "uint (word_of_int tick :: u32) = tick" using tk(4) by (simp add: uint_word_of_int_eq take_bit_int_eq_self)
    then have "word_of_int tick < (0x7fffffff :: u32)" using tk(4) by (simp add: word_less_def)
    from arm_timer_ok[OF k1(2,6,7) this] show ?thesis using that False k1(5) tk(3) by auto
  qed
  obtain k3 where k3: "rt_schedule k2 = Some k3" "kinv k3" "sched_frame k2 k3" using schedule_ok[OF k2(2,5)] by blast
  have f: "ipc_frame k k3" using ipc_frame_trans[OF k1(3) ipc_frame_trans[OF k2(3) sched_ipc_frame[OF k3(3)]]] .
  have "ls_push_back q w (waiting_list s) = Some ((waiting_list s)\<lparr>ls_q := (ls_q (waiting_list s))(q := ls_q (waiting_list s) q @ [w]),
      ls_in := (ls_in (waiting_list s))(w := Some q)\<rparr>)" using s(1) by (simp add: ls_push_back_def)
  then show ?thesis
    using tk(1,2) c s k1(1) k2(1) k3 k2(4,6) k1(4) f sched_frameD(3,5,17)[OF k3(3)] k2(5)
    by (simp add: rt_wqueue_wait_def rt_wqueue_add_def rt_thread_self_def ls_init_node_def
        RT_DEBUG_NOT_IN_INTERRUPT_def rt_interrupt_get_nest_def Let_def)
qed

subsection \<open>Properties\<close>


text \<open>Queue 0 with the node 1 of thread 1 and the node 2 of thread 2, or empty.\<close>

definition ex_wqs :: "nat list \<Rightarrow> wqueues" where
  "ex_wqs ws = \<lparr>waiting_list = \<lparr>ls_q = (\<lambda>_. [])(0 := ws), ls_in = (\<lambda>w. if w \<in> set ws then Some 0 else None)\<rparr>,
     wq_flag = (\<lambda>_. 0), wq_node = (\<lambda>w. \<lparr>wn_polling_thread = w, wn_wakeup = None, wn_key = 0\<rparr>)\<rparr>"


text \<open>A wake-up can be spent on a thread whose time has run out but which has not run since: its node is still the
  first one. The wake-up removes that node, the second thread goes on waiting, and the first one clears the flag, so
  that nothing is left of the wake-up.\<close>

theorem wqueue_timeout_steals:
  assumes "kinv k" "rt_current_thread k \<noteq> None" "ls_inv (waiting_list s)" "ls_q (waiting_list s) q = w1 # w2 # ws"
    and "wn_polling_thread (wq_node s w1) = t1" "wn_wakeup (wq_node s w1) = None" "alive k t1"
    and "stat_of (thr k t1) = RT_THREAD_READY" "stat_of (thr k t2) = RT_THREAD_SUSPEND"
  shows "\<exists>s1 k1. rt_wqueue_wakeup fn q key s k = Some (s1, k1) \<and> stat_of (thr k1 t2) = RT_THREAD_SUSPEND \<and>
    ls_q (waiting_list (rt_wqueue_wait_end q w1 s1)) q = w2 # ws \<and> wq_flag (rt_wqueue_wait_end q w1 s1) q = RT_WQ_FLAG_CLEAN"
proof -
  have a: "wake_answer fn w1 key s k = Some (0, k)" using assms(6) by (simp add: wake_answer_def wqueue_default_wake_def)
  let ?s = "rt_wqueue_remove w1 (s\<lparr>wq_flag := (wq_flag s)(q := 1)\<rparr>)"
  obtain k1 where k1: "rt_wqueue_wakeup fn q key s k = Some (?s, k1)" "thr k1 = thr k"
    using wakeup_found[OF assms(1,2), of s q "[]" w1 "w2 # ws" fn key] assms(4,5,7,8) a by auto
  have "ls_q (ls_remove w1 (ls_remove w1 (waiting_list s))) q = w2 # ws"
    using assms(4) ls_inv_distinct[OF assms(3), of q] by (simp add: ls_q_remove assms(3) remove1_idem)
  then show ?thesis using k1 assms(9) by (intro exI[of _ ?s] exI[of _ k1]) (simp add: rt_wqueue_wait_end_def rt_wqueue_remove_def)
qed

theorem wqueue_timeout_steals_witness:
  "\<exists>s1 k1. rt_wqueue_wakeup (\<lambda>f w key k. None) 0 0 (ex_wqs [0, 1]) (ex_wait (SemQ 0)) = Some (s1, k1) \<and>
    stat_of (thr k1 1) = 2 \<and> ls_q (waiting_list (rt_wqueue_wait_end 0 0 s1)) 0 = [1]"
proof -
  have k: "kinv (ex_wait (SemQ 0))" "rt_current_thread (ex_wait (SemQ 0)) \<noteq> None"
    using ex_wait_inv[of "SemQ 0"] ex_wait_facts(1)[of "SemQ 0"] by simp_all
  have "ls_inv (waiting_list (ex_wqs [0, 1]))" by (auto simp: ex_wqs_def ls_inv_def)
  from wqueue_timeout_steals[OF k this, of 0 0 1 "[]" 0 1 "\<lambda>f w key k. None" 0] ex_wait_facts[of "SemQ 0"]
  show ?thesis by (auto simp: ex_wqs_def simp del: One_nat_def)
qed

end
