(* ===== verification/Slist.thy ===== *)
theory Slist
  imports Prelude
begin

text \<open>
  The singly linked lists of \<open>include/rtservice.h\<close>. The store \<open>nx\<close> gives every list node its \<open>next\<close>
  pointer; a list head is a node, and its members are the nodes behind it. The loops that look for the end of
  a list return only on a list that ends, so their results are optional.

  The relation \<open>slist\<close> reads a chain of pointers as a HOL list, and every operation is shown to do on the
  chain what the list operation does: this is the refinement the signal lists rest on.
\<close>

subsection \<open>Operations\<close>

type_synonym slist_store = "nat \<Rightarrow> nat option"

definition rt_slist_init :: "nat \<Rightarrow> slist_store \<Rightarrow> slist_store" where
  "rt_slist_init l nx = nx(l := None)"

partial_function (option) slist_last :: "slist_store \<Rightarrow> nat \<Rightarrow> nat option" where
  "slist_last nx node = (case nx node of Some m \<Rightarrow> slist_last nx m | None \<Rightarrow> Some node)"

definition rt_slist_append :: "nat \<Rightarrow> nat \<Rightarrow> slist_store \<Rightarrow> slist_store option" where
  "rt_slist_append l n nx =
     do { node \<leftarrow> slist_last nx l;
          let nx = nx(node := Some n);
          Some (nx(n := None)) }"

definition rt_slist_insert :: "nat \<Rightarrow> nat \<Rightarrow> slist_store \<Rightarrow> slist_store" where
  "rt_slist_insert l n nx = (let nx = nx(n := nx l) in nx(l := Some n))"

partial_function (option) slist_len_loop :: "slist_store \<Rightarrow> nat option \<Rightarrow> u32 \<Rightarrow> u32 option" where
  "slist_len_loop nx p len =
     (case p of None \<Rightarrow> Some len | Some m \<Rightarrow> slist_len_loop nx (nx m) (len + 1))"

definition rt_slist_len :: "nat \<Rightarrow> slist_store \<Rightarrow> u32 option" where
  "rt_slist_len l nx = slist_len_loop nx (nx l) 0"

text \<open>The loop of \<open>rt_slist_remove\<close>: the node in front of \<open>n\<close>, or the last one.\<close>

partial_function (option) slist_before :: "slist_store \<Rightarrow> nat \<Rightarrow> nat \<Rightarrow> nat option" where
  "slist_before nx n node =
     (case nx node of
        Some m \<Rightarrow> if m \<noteq> n then slist_before nx n m else Some node
      | None \<Rightarrow> Some node)"

definition rt_slist_remove :: "nat \<Rightarrow> nat \<Rightarrow> slist_store \<Rightarrow> slist_store option" where
  "rt_slist_remove l n nx =
     do { node \<leftarrow> slist_before nx n l;
          case nx node of
            Some m \<Rightarrow> Some (nx(node := nx m))
          | None \<Rightarrow> Some nx }"

definition rt_slist_first :: "nat \<Rightarrow> slist_store \<Rightarrow> nat option" where
  "rt_slist_first l nx = nx l"

definition rt_slist_tail :: "nat \<Rightarrow> slist_store \<Rightarrow> nat option" where
  "rt_slist_tail l nx = slist_last nx l"

definition rt_slist_next :: "nat \<Rightarrow> slist_store \<Rightarrow> nat option" where
  "rt_slist_next n nx = nx n"

definition rt_slist_isempty :: "nat \<Rightarrow> slist_store \<Rightarrow> bool" where
  "rt_slist_isempty l nx \<longleftrightarrow> nx l = None"

subsection \<open>Chains\<close>

fun slist :: "slist_store \<Rightarrow> nat option \<Rightarrow> nat list \<Rightarrow> bool" where
  "slist nx p [] \<longleftrightarrow> p = None"
| "slist nx p (x # xs) \<longleftrightarrow> p = Some x \<and> slist nx (nx x) xs"

lemma slist_upd [simp]: "x \<notin> set xs \<Longrightarrow> slist (nx(x := q)) p xs = slist nx p xs"
  by (induction xs arbitrary: p) auto

lemma slist_unique: "slist nx p xs \<Longrightarrow> slist nx p ys \<Longrightarrow> xs = ys"
proof (induction xs arbitrary: p ys)
  case Nil
  then show ?case by (cases ys) auto
next
  case (Cons x xs)
  then show ?case by (cases ys) auto
qed

text \<open>A chain that ends visits no node twice.\<close>

lemma slist_suffix: "slist nx p (xs @ y # ys) \<Longrightarrow> slist nx (Some y) (y # ys)"
  by (induction xs arbitrary: p) auto

lemma slist_distinct: "slist nx p xs \<Longrightarrow> distinct xs"
proof (induction xs arbitrary: p)
  case (Cons x xs)
  have "x \<notin> set xs"
  proof
    assume "x \<in> set xs"
    then obtain as bs where s: "xs = as @ x # bs" by (meson split_list)
    have "slist nx (Some x) (x # bs)" using Cons.prems slist_suffix[of nx "nx x" as x bs] by (simp add: s)
    then have "x # xs = x # bs" using Cons.prems by (intro slist_unique[of nx "Some x"]) simp_all
    then show False by (simp add: s)
  qed
  then show ?case using Cons by auto
qed simp

lemma slist_append_pointer:
  "slist nx (nx l) xs \<Longrightarrow> n \<notin> set (l # xs) \<Longrightarrow> distinct (l # xs) \<Longrightarrow>
    slist (nx(last (l # xs) := Some n, n := None)) ((nx(last (l # xs) := Some n, n := None)) l) (xs @ [n])"
proof (induction xs arbitrary: l)
  case (Cons x xs)
  define g where "g = nx(last (x # xs) := Some n, n := None)"
  have "slist g (g x) (xs @ [n])" unfolding g_def by (rule Cons.IH) (use Cons.prems in auto)
  moreover have "last (x # xs) \<noteq> l" using Cons.prems(3) last_in_set[of "x # xs"] by auto
  then have "g l = Some x" using Cons.prems by (auto simp: g_def)
  ultimately have "slist g (g l) ((x # xs) @ [n])" by simp
  moreover have "nx(last (l # x # xs) := Some n, n := None) = g"
    by (simp only: g_def last_ConsR list.distinct not_False_eq_True)
  ultimately show ?case by (simp only:)
qed simp

text \<open>The loops.\<close>

lemma slist_last_ok: "slist nx (nx l) xs \<Longrightarrow> slist_last nx l = Some (last (l # xs))"
proof (induction xs arbitrary: l)
  case Nil
  then show ?case by (subst slist_last.simps) simp
next
  case (Cons x xs)
  then show ?case by (subst slist_last.simps) simp
qed

lemma slist_len_loop_ok: "slist nx p xs \<Longrightarrow> slist_len_loop nx p c = Some (c + of_nat (length xs))"
proof (induction xs arbitrary: p c)
  case Nil
  then show ?case by (subst slist_len_loop.simps) simp
next
  case (Cons x xs)
  then show ?case by (subst slist_len_loop.simps) (simp add: algebra_simps)
qed

lemma slist_remove_ok:
  "slist nx (nx l) xs \<Longrightarrow> distinct (l # xs) \<Longrightarrow>
    \<exists>b. slist_before nx n l = Some b \<and> b \<in> set (l # xs) \<and> (nx b = None \<or> nx b = Some n) \<and>
      (case nx b of None \<Rightarrow> n \<notin> set xs
       | Some m \<Rightarrow> n \<in> set xs \<and> slist (nx(b := nx m)) ((nx(b := nx m)) l) (remove1 n xs))"
proof (induction xs arbitrary: l)
  case Nil
  then show ?case by (subst slist_before.simps) simp
next
  case (Cons x xs)
  have nx: "nx l = Some x" "slist nx (nx x) xs" using Cons.prems(1) by auto
  show ?case
  proof (cases "x = n")
    case True
    then show ?thesis using nx Cons.prems(2) by (subst slist_before.simps) auto
  next
    case False
    obtain b where b: "slist_before nx n x = Some b" "b \<in> set (x # xs)" "nx b = None \<or> nx b = Some n"
      "case nx b of None \<Rightarrow> n \<notin> set xs
       | Some m \<Rightarrow> n \<in> set xs \<and> slist (nx(b := nx m)) ((nx(b := nx m)) x) (remove1 n xs)"
      using Cons.IH[OF nx(2)] Cons.prems(2) by auto
    have "b \<noteq> l" using b(2) Cons.prems(2) by auto
    then have "slist_before nx n l = Some b" using False nx(1) b(1) by (subst slist_before.simps) simp
    then show ?thesis using False b \<open>b \<noteq> l\<close> nx(1) by (intro exI[of _ b]) (auto split: option.splits)
  qed
qed

subsection \<open>Refinement\<close>

lemma append_ok:
  assumes "slist nx (nx l) xs" "n \<notin> set (l # xs)" "distinct (l # xs)"
  shows "rt_slist_append l n nx = Some (nx(last (l # xs) := Some n, n := None))"
    "slist (nx(last (l # xs) := Some n, n := None)) ((nx(last (l # xs) := Some n, n := None)) l) (xs @ [n])"
  using slist_last_ok[OF assms(1)] slist_append_pointer[OF assms] by (simp_all add: rt_slist_append_def)

lemma remove_ok:
  assumes "slist nx (nx l) xs" "distinct (l # xs)"
  shows "\<exists>r. rt_slist_remove l m nx = Some r \<and> slist r (r l) (remove1 m xs)"
proof -
  obtain b where "slist_before nx m l = Some b" "nx b = None \<or> nx b = Some m"
    "case nx b of None \<Rightarrow> m \<notin> set xs | Some m' \<Rightarrow> slist (nx(b := nx m')) ((nx(b := nx m')) l) (remove1 m xs)"
    using slist_remove_ok[OF assms, of m] by (auto split: option.splits)
  then show ?thesis using assms(1) by (cases "nx b") (auto simp: rt_slist_remove_def remove1_idem)
qed

text \<open>Every operation of the list of head \<open>l\<close> with the members \<open>xs\<close> does what the list operation does:
  \<open>append\<close> adds at the end, \<open>insert\<close> at the front, \<open>remove\<close> takes the node out if it is a member, and \<open>len\<close>,
  \<open>first\<close>, \<open>tail\<close> and \<open>isempty\<close> read the list.\<close>

theorem slist_refines:
  assumes "slist nx (nx l) xs" "distinct (l # xs)" "n \<notin> set (l # xs)"
  shows "\<exists>a r. rt_slist_append l n nx = Some a \<and> slist a (a l) (xs @ [n]) \<and>
    slist (rt_slist_insert l n nx) (rt_slist_insert l n nx l) (n # xs) \<and>
    rt_slist_remove l m nx = Some r \<and> slist r (r l) (remove1 m xs) \<and>
    rt_slist_len l nx = Some (of_nat (length xs)) \<and>
    rt_slist_first l nx = (case xs of [] \<Rightarrow> None | x # _ \<Rightarrow> Some x) \<and>
    rt_slist_tail l nx = Some (last (l # xs)) \<and>
    (rt_slist_isempty l nx \<longleftrightarrow> xs = []) \<and>
    slist (rt_slist_init l nx) (rt_slist_init l nx l) []"
proof -
  note a = append_ok[OF assms(1,3,2)]
  obtain r where r: "rt_slist_remove l m nx = Some r" "slist r (r l) (remove1 m xs)"
    using remove_ok[OF assms(1,2)] by blast
  have i: "slist (rt_slist_insert l n nx) (rt_slist_insert l n nx l) (n # xs)"
    using assms by (auto simp: rt_slist_insert_def)
  have q: "rt_slist_first l nx = (case xs of [] \<Rightarrow> None | x # _ \<Rightarrow> Some x)" "rt_slist_isempty l nx \<longleftrightarrow> xs = []"
    using assms(1) by (cases xs; auto simp: rt_slist_first_def rt_slist_isempty_def)+
  show ?thesis
    using a r i q slist_len_loop_ok[OF assms(1), of 0] slist_last_ok[OF assms(1)]
    by (intro exI[of _ "nx(last (l # xs) := Some n, n := None)"] exI[of _ r])
      (simp add: rt_slist_len_def rt_slist_tail_def rt_slist_init_def)
qed

theorem slist_refines_witness:
  "\<exists>r. rt_slist_remove 0 2 ((\<lambda>_. None)(0 := Some 1, 1 := Some 2, 2 := Some 3)) = Some r \<and>
    slist r (r 0) [1, 3]"
  using slist_refines[of "(\<lambda>_. None)(0 := Some 1, 1 := Some 2, 2 := Some 3)" 0 "[1, 2, 3]" 4 2] by auto

end
