(* ===== verification/Signals.thy ===== *)
theory Signals
  imports Mempool Slist
begin

text \<open>
  Signals (\<open>src/signal.c\<close>): every thread has a set of pending signals, a mask of the signals it wants, a vector of
  handlers and a list of the signals that were sent, in nodes of the memory pool \<open>_rt_siginfo_pool\<close>.

  A node is named by its block in the pool. The code keeps the list in a \<open>void *\<close>, which most functions take for a
  pointer to a node and some for a pointer to the \<open>list\<close> field of a node: the two are told apart here, and using one
  for the other is a fault. A handler of the user is code that is not here: the parameter \<open>hf\<close> gives the effect of
  handler \<open>f\<close> called with a signal number, on the kernel, the signals and the data \<open>sg_user\<close> of the program. The
  default handler prints.
\<close>

subsection \<open>State\<close>

datatype sighandler = SIG_ERR | SIG_IGN | SIG_DFL | Default_handler | User_handler nat

text \<open>\<open>si_list\<close>: \<open>RT_NULL\<close>, a pointer to a node or a pointer to the \<open>list\<close> field of a node.\<close>

datatype si_ptr = SiNull | SiNode nat | SiLink nat

record siginfo =
  si_signo :: int
  si_code :: int
  si_value :: u32

record thread_sig =
  sig_pending :: u32
  sig_mask :: u32
  sig_ret :: u32
  sig_vectors :: "(u32 \<times> sighandler option list) option" \<comment> \<open>the block and what it holds\<close>
  si_list :: si_ptr

record 'u signals =
  sg_kernel :: kernel
  sg_thr :: "nat \<Rightarrow> thread_sig"
  sg_info :: "nat \<Rightarrow> siginfo"  \<comment> \<open>\<open>si\<close> of the nodes\<close>
  sg_next :: slist_store            \<comment> \<open>\<open>list\<close> of the nodes\<close>
  sg_pool :: nat                    \<comment> \<open>\<open>_rt_siginfo_pool\<close>\<close>
  sg_entry :: u32                   \<comment> \<open>the address of \<open>_signal_entry\<close>\<close>
  sg_user :: 'u

type_synonym 'u handlers = "nat \<Rightarrow> int \<Rightarrow> 'u signals \<Rightarrow> 'u signals option"

abbreviation (input) RT_SIG_MAX :: nat where "RT_SIG_MAX \<equiv> 32"
abbreviation (input) SI_USER :: int where "SI_USER \<equiv> 1"
abbreviation (input) RT_THREAD_STAT_SIGNAL :: u8 where "RT_THREAD_STAT_SIGNAL \<equiv> 0x10"
abbreviation (input) RT_THREAD_STAT_SIGNAL_WAIT :: u8 where "RT_THREAD_STAT_SIGNAL_WAIT \<equiv> 0x20"

definition sig_valid :: "int \<Rightarrow> bool" where
  "sig_valid n \<longleftrightarrow> 0 \<le> n \<and> n < int RT_SIG_MAX"

text \<open>\<open>sig_mask(sig_no)\<close>, for a valid number.\<close>

definition sig_bit :: "int \<Rightarrow> u32" where
  "sig_bit n = push_bit (nat n) 1"

definition upd_sig :: "nat \<Rightarrow> (thread_sig \<Rightarrow> thread_sig) \<Rightarrow> 'u signals \<Rightarrow> 'u signals" where
  [simp]: "upd_sig t f st = st\<lparr>sg_thr := (sg_thr st)(t := f (sg_thr st t))\<rparr>"

definition upd_kernel :: "(kernel \<Rightarrow> kernel) \<Rightarrow> 'u signals \<Rightarrow> 'u signals" where
  [simp]: "upd_kernel f st = st\<lparr>sg_kernel := f (sg_kernel st)\<rparr>"

definition stat_or :: "u8 \<Rightarrow> nat \<Rightarrow> kernel \<Rightarrow> kernel" where
  [simp]: "stat_or b t k = upd_thr t (\<lambda>th. th\<lparr>th_stat := th_stat th OR b\<rparr>) k"

definition stat_clear :: "u8 \<Rightarrow> nat \<Rightarrow> kernel \<Rightarrow> kernel" where
  [simp]: "stat_clear b t k = upd_thr t (\<lambda>th. th\<lparr>th_stat := th_stat th AND NOT b\<rparr>) k"

subsection \<open>Handling the signals of the running thread\<close>

definition call_handler :: "'u handlers \<Rightarrow> sighandler option \<Rightarrow> int \<Rightarrow> 'u signals \<Rightarrow> 'u signals option" where
  "call_handler hf handler signo st =
     (case handler of
        None \<Rightarrow> Some st
      | Some Default_handler \<Rightarrow> Some st
      | Some (User_handler f) \<Rightarrow> hf f signo st
      | _ \<Rightarrow> None)"

text \<open>\<open>tid->sig_vectors[signo]\<close>.\<close>

definition sig_vector :: "nat \<Rightarrow> int \<Rightarrow> 'u signals \<Rightarrow> sighandler option option" where
  "sig_vector t signo st =
     do { (_, vectors) \<leftarrow> sig_vectors (sg_thr st t);
          RT_ASSERT (0 \<le> signo \<and> nat signo < length vectors);
          Some (vectors ! nat signo) }"

text \<open>\<open>rt_slist_entry\<close> of a \<open>next\<close> pointer that is not \<open>RT_NULL\<close>.\<close>

definition si_entry :: "nat option \<Rightarrow> si_ptr" where
  "si_entry p = (case p of None \<Rightarrow> SiNull | Some n \<Rightarrow> SiNode n)"

definition sig_free_node :: "nat \<Rightarrow> 'u signals \<Rightarrow> 'u signals option" where
  "sig_free_node n st =
     do { k \<leftarrow> rt_mp_free (sg_pool st) n (sg_kernel st);
          Some (st\<lparr>sg_kernel := k\<rparr>) }"

text \<open>One round of the loop of \<open>rt_thread_handle_sig\<close>.\<close>

definition handle_node :: "'u handlers \<Rightarrow> nat \<Rightarrow> nat \<Rightarrow> 'u signals \<Rightarrow> 'u signals option" where
  "handle_node hf tid si_node st =
     do { let st = upd_sig tid (\<lambda>ts. ts\<lparr>si_list := si_entry (sg_next st si_node)\<rparr>) st;
          let signo = si_signo (sg_info st si_node);
          handler \<leftarrow> sig_vector tid signo st;
          st \<leftarrow> call_handler hf handler signo st;
          let st = upd_sig tid (\<lambda>ts. ts\<lparr>sig_pending := sig_pending ts AND NOT (sig_bit signo)\<rparr>) st;
          st \<leftarrow> sig_free_node si_node st;
          Some (upd_kernel (upd_thr tid (\<lambda>th. th\<lparr>th_error := - RT_EINTR\<rparr>)) st) }"

partial_function (option) handle_sig_loop :: "'u handlers \<Rightarrow> nat \<Rightarrow> 'u signals \<Rightarrow> 'u signals option" where
  "handle_sig_loop hf tid st =
     (if sig_pending (sg_thr st tid) AND sig_mask (sg_thr st tid) = 0 then Some st
      else case si_list (sg_thr st tid) of
             SiNull \<Rightarrow> Some st
           | SiLink _ \<Rightarrow> None
           | SiNode si_node \<Rightarrow>
               do { st \<leftarrow> handle_node hf tid si_node st;
                    handle_sig_loop hf tid st })"

definition rt_thread_handle_sig :: "'u handlers \<Rightarrow> bool \<Rightarrow> 'u signals \<Rightarrow> 'u signals option" where
  "rt_thread_handle_sig hf clean_state st =
     do { tid \<leftarrow> rt_thread_self (sg_kernel st);
          if sig_pending (sg_thr st tid) AND sig_mask (sg_thr st tid) = 0 then Some st
          else if th_stat (thr (sg_kernel st) tid) AND RT_THREAD_STAT_SIGNAL_WAIT \<noteq> 0 then Some st
          else do { st \<leftarrow> handle_sig_loop hf tid st;
                    Some (if clean_state then upd_kernel (stat_clear RT_THREAD_STAT_SIGNAL tid) st else st) } }"

text \<open>\<open>_signal_entry\<close>, up to the switch back to the interrupted thread.\<close>

definition signal_entry :: "'u handlers \<Rightarrow> 'u signals \<Rightarrow> 'u signals option" where
  "signal_entry hf st =
     do { tid \<leftarrow> rt_thread_self (sg_kernel st);
          st \<leftarrow> rt_thread_handle_sig hf False st;
          let st = upd_kernel (upd_thr tid (\<lambda>th. th\<lparr>th_sp := sig_ret (sg_thr st tid)\<rparr>)) st;
          let st = upd_sig tid (\<lambda>ts. ts\<lparr>sig_ret := 0\<rparr>) st;
          Some (upd_kernel (stat_clear RT_THREAD_STAT_SIGNAL tid) st) }"

subsection \<open>Delivering a signal\<close>

text \<open>
  \<open>_signal_deliver\<close>. The frame of \<open>rt_hw_stack_init\<close> is written below \<open>sig_ret - 32\<close> without a look at the room
  that is left on the stack.
\<close>

definition signal_deliver :: "'u handlers \<Rightarrow> nat \<Rightarrow> 'u signals \<Rightarrow> 'u signals option" where
  "signal_deliver hf tid st =
     (if sig_pending (sg_thr st tid) AND sig_mask (sg_thr st tid) = 0 then Some st
      else if stat_of (thr (sg_kernel st) tid) = RT_THREAD_SUSPEND
      then do { (_, k) \<leftarrow> rt_thread_resume tid (sg_kernel st);
                let k = stat_or RT_THREAD_STAT_SIGNAL tid k;
                k \<leftarrow> rt_schedule k;
                Some (st\<lparr>sg_kernel := k\<rparr>) }
      else if rt_thread_self (sg_kernel st) = Some tid
      then rt_thread_handle_sig hf True (upd_kernel (stat_or RT_THREAD_STAT_SIGNAL tid) st)
      else if th_stat (thr (sg_kernel st) tid) AND RT_THREAD_STAT_SIGNAL = 0
      then do { let st = upd_kernel (stat_or RT_THREAD_STAT_SIGNAL tid) st;
                let st = upd_sig tid (\<lambda>ts. ts\<lparr>sig_ret := th_sp (thr (sg_kernel st) tid)\<rparr>) st;
                let sp = fst (rt_hw_stack_init (sg_entry st) 0 (sig_ret (sg_thr st tid) - 32) 0);
                k \<leftarrow> rt_schedule (upd_thr tid (\<lambda>th. th\<lparr>th_sp := sp\<rparr>) (sg_kernel st));
                Some (st\<lparr>sg_kernel := k\<rparr>) }
      else Some st)"

subsection \<open>Handlers and masks\<close>

text \<open>\<open>mem\<close> is the block that \<open>rt_malloc\<close> returns, 0 when there is none.\<close>

definition rt_thread_alloc_sig :: "u32 \<Rightarrow> nat \<Rightarrow> 'u signals \<Rightarrow> 'u signals option" where
  "rt_thread_alloc_sig mem tid st =
     do { RT_ASSERT (mem \<noteq> 0);
          let vectors = replicate RT_SIG_MAX (Some Default_handler);
          Some (upd_sig tid (\<lambda>ts. ts\<lparr>sig_vectors := Some (mem, vectors)\<rparr>) st) }"

definition installed :: "sighandler \<Rightarrow> sighandler option" where
  "installed handler =
     (if handler = SIG_IGN then None else if handler = SIG_DFL then Some Default_handler else Some handler)"

definition rt_signal_install ::
  "u32 \<Rightarrow> int \<Rightarrow> sighandler \<Rightarrow> 'u signals \<Rightarrow> (sighandler option \<times> 'u signals) option" where
  "rt_signal_install mem signo handler st =
     (if \<not> sig_valid signo then Some (Some SIG_ERR, st)
      else do { tid \<leftarrow> rt_thread_self (sg_kernel st);
                let st = upd_kernel rt_enter_critical st;
                st \<leftarrow> (if sig_vectors (sg_thr st tid) = None then rt_thread_alloc_sig mem tid st else Some st);
                let (old, st) =
                  (case sig_vectors (sg_thr st tid) of
                     None \<Rightarrow> (None, st)
                   | Some (m, vectors) \<Rightarrow>
                       (vectors ! nat signo,
                        upd_sig tid (\<lambda>ts. ts\<lparr>sig_vectors := Some (m, vectors[nat signo := installed handler])\<rparr>) st));
                k \<leftarrow> rt_exit_critical (sg_kernel st);
                Some (old, st\<lparr>sg_kernel := k\<rparr>) })"

text \<open>A shift by a number that is no signal is undefined.\<close>

definition rt_signal_mask :: "int \<Rightarrow> 'u signals \<Rightarrow> 'u signals option" where
  "rt_signal_mask signo st =
     do { tid \<leftarrow> rt_thread_self (sg_kernel st);
          RT_ASSERT (sig_valid signo);
          Some (upd_sig tid (\<lambda>ts. ts\<lparr>sig_mask := sig_mask ts AND NOT (sig_bit signo)\<rparr>) st) }"

definition rt_signal_unmask :: "'u handlers \<Rightarrow> int \<Rightarrow> 'u signals \<Rightarrow> 'u signals option" where
  "rt_signal_unmask hf signo st =
     do { tid \<leftarrow> rt_thread_self (sg_kernel st);
          RT_ASSERT (sig_valid signo);
          let st = upd_sig tid (\<lambda>ts. ts\<lparr>sig_mask := sig_mask ts OR sig_bit signo\<rparr>) st;
          if sig_mask (sg_thr st tid) AND sig_pending (sg_thr st tid) \<noteq> 0 then signal_deliver hf tid st
          else Some st }"

subsection \<open>Waiting for a signal\<close>

text \<open>
  The search of \<open>rt_signal_wait\<close> behind the label \<open>__done\<close>. The list is left with a pointer to a \<open>list\<close> field when
  its first node is taken, and at the end of the list \<open>rt_slist_entry(RT_NULL, ..)\<close> is taken for a node.
\<close>

definition sig_unlink :: "nat \<Rightarrow> nat option \<Rightarrow> nat \<Rightarrow> 'u signals \<Rightarrow> 'u signals" where
  "sig_unlink tid si_prev si_node st =
     (case si_prev of
        Some p \<Rightarrow> st\<lparr>sg_next := (sg_next st)(p := sg_next st si_node)\<rparr>
      | None \<Rightarrow> upd_sig tid (\<lambda>ts. ts\<lparr>si_list :=
                  (case sg_next st si_node of None \<Rightarrow> SiNull | Some n \<Rightarrow> SiLink n)\<rparr>) st)"

partial_function (option) signal_search ::
  "nat \<Rightarrow> u32 \<Rightarrow> nat option \<Rightarrow> nat \<Rightarrow> 'u signals \<Rightarrow> (siginfo \<times> 'u signals) option" where
  "signal_search tid sset si_prev si_node st =
     (if sig_bit (si_signo (sg_info st si_node)) AND sset \<noteq> 0
      then do { let si = sg_info st si_node;
                let st = sig_unlink tid si_prev si_node st;
                let st = upd_sig tid (\<lambda>ts. ts\<lparr>sig_pending := sig_pending ts AND NOT (sig_bit (si_signo si))\<rparr>) st;
                st \<leftarrow> sig_free_node si_node st;
                Some (si, st) }
      else case sg_next st si_node of
             None \<Rightarrow> None
           | Some n \<Rightarrow> signal_search tid sset (Some si_node) n st)"

definition siginfo_zero :: siginfo where
  "siginfo_zero = \<lparr>si_signo = 0, si_code = 0, si_value = 0\<rparr>"

definition signal_wait_done :: "nat \<Rightarrow> u32 \<Rightarrow> 'u signals \<Rightarrow> ((int \<times> siginfo option) call \<times> 'u signals) option" where
  "signal_wait_done tid sset st =
     (case si_list (sg_thr st tid) of
        SiNull \<Rightarrow> Some (Return (RT_EOK, Some siginfo_zero), st)
      | SiLink _ \<Rightarrow> None
      | SiNode n \<Rightarrow> do { (si, st) \<leftarrow> signal_search tid sset None n st;
                            Some (Return (RT_EOK, Some si), st) })"

text \<open>\<open>rt_signal_wait\<close> up to the point where it blocks; \<open>si\<close> tells whether the pointer \<open>si\<close> is not \<open>NULL\<close>.\<close>

definition rt_signal_wait ::
  "u32 option \<Rightarrow> bool \<Rightarrow> int \<Rightarrow> 'u signals \<Rightarrow> ((int \<times> siginfo option) call \<times> 'u signals) option" where
  "rt_signal_wait sset si timeout st =
     do { RT_DEBUG_IN_THREAD_CONTEXT (sg_kernel st);
          tid \<leftarrow> rt_thread_self (sg_kernel st);
          if sset = None \<or> sset = Some 0 \<or> \<not> si then Some (Return (- RT_EINVAL, None), st)
          else if sig_pending (sg_thr st tid) AND the sset \<noteq> 0 then signal_wait_done tid (the sset) st
          else if timeout = 0 then Some (Return (- RT_ETIMEOUT, Some siginfo_zero), st)
          else do { (_, k) \<leftarrow> rt_thread_suspend tid (sg_kernel st);
                    let k = stat_or RT_THREAD_STAT_SIGNAL_WAIT tid k;
                    k \<leftarrow> (if timeout \<noteq> RT_WAITING_FOREVER then arm_timer tid (word_of_int timeout) k else Some k);
                    k \<leftarrow> rt_schedule k;
                    Some (Blocked, st\<lparr>sg_kernel := k\<rparr>) } }"

text \<open>When the thread runs again, \<open>rt_schedule\<close> ends with \<open>rt_thread_handle_sig(RT_TRUE)\<close>.\<close>

definition rt_signal_wait_end ::
  "'u handlers \<Rightarrow> nat \<Rightarrow> u32 \<Rightarrow> 'u signals \<Rightarrow> ((int \<times> siginfo option) call \<times> 'u signals) option" where
  "rt_signal_wait_end hf tid sset st =
     do { st \<leftarrow> rt_thread_handle_sig hf True st;
          let st = upd_kernel (stat_clear RT_THREAD_STAT_SIGNAL_WAIT tid) st;
          if th_error (thr (sg_kernel st) tid) = - RT_ETIMEOUT
          then Some (Return (- RT_ETIMEOUT, Some siginfo_zero),
                     upd_kernel (upd_thr tid (\<lambda>th. th\<lparr>th_error := RT_EOK\<rparr>)) st)
          else signal_wait_done tid sset st }"

subsection \<open>Sending a signal\<close>

text \<open>
  The loop that updates a signal that is pending already. It takes \<open>si_list\<close> for a pointer to a \<open>list\<close> field; with
  a pointer to a node it reads the signal number for a pointer.
\<close>

partial_function (option) update_loop :: "int \<Rightarrow> siginfo \<Rightarrow> nat option \<Rightarrow> 'u signals \<Rightarrow> (bool \<times> 'u signals) option" where
  "update_loop sig si node st =
     (case node of
        None \<Rightarrow> Some (False, st)
      | Some n \<Rightarrow>
          if si_signo (sg_info st n) = sig then Some (True, st\<lparr>sg_info := (sg_info st)(n := si)\<rparr>)
          else update_loop sig si (sg_next st n) st)"

definition update_pending :: "nat \<Rightarrow> int \<Rightarrow> siginfo \<Rightarrow> 'u signals \<Rightarrow> (bool \<times> 'u signals) option" where
  "update_pending tid sig si st =
     do { let st = upd_kernel rt_enter_critical st;
          (found, st) \<leftarrow> (case si_list (sg_thr st tid) of
                            SiNull \<Rightarrow> Some (False, st)
                          | SiNode _ \<Rightarrow> None
                          | SiLink n \<Rightarrow> update_loop sig si (Some n) st);
          k \<leftarrow> rt_exit_critical (sg_kernel st);
          Some (found, st\<lparr>sg_kernel := k\<rparr>) }"

definition sig_append :: "nat \<Rightarrow> nat \<Rightarrow> siginfo \<Rightarrow> 'u signals \<Rightarrow> 'u signals option" where
  "sig_append tid si_node si st =
     do { let st = st\<lparr>sg_next := rt_slist_init si_node (sg_next st), sg_info := (sg_info st)(si_node := si)\<rparr>;
          case si_list (sg_thr st tid) of
            SiNull \<Rightarrow> Some (upd_sig tid (\<lambda>ts. ts\<lparr>si_list := SiNode si_node\<rparr>) st)
          | SiLink _ \<Rightarrow> None
          | SiNode n \<Rightarrow> do { nx \<leftarrow> rt_slist_append n si_node (sg_next st); Some (st\<lparr>sg_next := nx\<rparr>) } }"

definition rt_thread_kill :: "'u handlers \<Rightarrow> nat \<Rightarrow> int \<Rightarrow> 'u signals \<Rightarrow> (int \<times> 'u signals) option" where
  "rt_thread_kill hf tid sig st =
     (if \<not> sig_valid sig then Some (- RT_EINVAL, st)
      else do { let si = \<lparr>si_signo = sig, si_code = SI_USER, si_value = 0\<rparr>;
                (found, st) \<leftarrow>
                  (if sig_pending (sg_thr st tid) AND sig_bit sig \<noteq> 0 then update_pending tid sig si st
                   else Some (False, upd_sig tid (\<lambda>ts. ts\<lparr>sig_pending := sig_pending ts OR sig_bit sig\<rparr>) st));
                if found then Some (0, st)
                else do { (a, k) \<leftarrow> rt_mp_alloc (sg_pool st) 0 (sg_kernel st);
                          let st = st\<lparr>sg_kernel := k\<rparr>;
                          st \<leftarrow> (case a of Return (Some si_node) \<Rightarrow> sig_append tid si_node si st | _ \<Rightarrow> Some st);
                          st \<leftarrow> signal_deliver hf tid st;
                          Some (RT_EOK, st) } })"

subsection \<open>The end of a thread, and initialisation\<close>

text \<open>The \<open>do\<close> loop of \<open>rt_thread_free_sig\<close>; a freed node keeps its \<open>next\<close> pointer.\<close>

partial_function (option) free_sig_loop :: "nat \<Rightarrow> 'u signals \<Rightarrow> 'u signals option" where
  "free_sig_loop node st =
     do { st \<leftarrow> sig_free_node node st;
          case sg_next st node of None \<Rightarrow> Some st | Some n \<Rightarrow> free_sig_loop n st }"

text \<open>The first result is the block that goes to \<open>rt_free\<close>.\<close>

definition rt_thread_free_sig :: "nat \<Rightarrow> 'u signals \<Rightarrow> (u32 option \<times> 'u signals) option" where
  "rt_thread_free_sig tid st =
     do { let lst = si_list (sg_thr st tid);
          let vectors = sig_vectors (sg_thr st tid);
          let st = upd_sig tid (\<lambda>ts. ts\<lparr>si_list := SiNull, sig_vectors := None\<rparr>) st;
          st \<leftarrow> (case lst of SiNull \<Rightarrow> Some st | SiLink _ \<Rightarrow> None | SiNode n \<Rightarrow> free_sig_loop n st);
          Some (map_option fst vectors, st) }"

text \<open>A pool of 32 nodes of 12 bytes; \<open>mem\<close> and \<open>blocks\<close> are what the heap returns.\<close>

definition rt_system_signal_init ::
  "nat option \<Rightarrow> (nat \<Rightarrow> mp_header) option \<Rightarrow> 'u signals \<Rightarrow> (int \<times> 'u signals) option" where
  "rt_system_signal_init mem blocks st =
     do { (p, k) \<leftarrow> rt_mp_create mem blocks [115, 105, 103, 110, 97, 108, 0] 32 12 (sg_kernel st);
          n \<leftarrow> p;
          Some (0, st\<lparr>sg_kernel := k, sg_pool := n\<rparr>) }"

subsection \<open>The invariant of a thread's signals\<close>

text \<open>The list of thread \<open>t\<close> has the nodes \<open>xs\<close>, all of them handed out by the pool, for which no thread waits.\<close>

definition sig_ok :: "'u signals \<Rightarrow> nat \<Rightarrow> nat list \<Rightarrow> bool" where
  "sig_ok st t xs \<longleftrightarrow> kinv (sg_kernel st) \<and> mp_ok (sg_pool st) (sg_kernel st) \<and>
     ls_q (tlist (sg_kernel st)) (MpQ (sg_pool st)) = [] \<and>
     (\<exists>p. si_list (sg_thr st t) = si_entry p \<and> slist (sg_next st) p xs) \<and>
     set xs \<subseteq> mp_used (sg_pool st) (mps (sg_kernel st) (sg_pool st)) \<and>
     (\<forall>x \<in> set xs. sig_valid (si_signo (sg_info st x)))"

text \<open>Handlers that only work on the data of the program, and a vector whose entries may be called.\<close>

definition pure_handlers :: "'u handlers \<Rightarrow> (nat \<Rightarrow> int \<Rightarrow> 'u \<Rightarrow> 'u) \<Rightarrow> bool" where
  "pure_handlers hf act \<longleftrightarrow> (\<forall>f s st. hf f s st = Some (st\<lparr>sg_user := act f s (sg_user st)\<rparr>))"

fun callable :: "sighandler option \<Rightarrow> bool" where
  "callable None = True"
| "callable (Some Default_handler) = True"
| "callable (Some (User_handler f)) = True"
| "callable _ = False"

definition vector_ok :: "nat \<Rightarrow> 'u signals \<Rightarrow> bool" where
  "vector_ok t st \<longleftrightarrow> (\<exists>m vs. sig_vectors (sg_thr st t) = Some (m, vs) \<and> length vs = RT_SIG_MAX \<and> list_all callable vs)"

text \<open>What a call of the handler for \<open>s\<close> does to the data.\<close>

definition run_handler :: "(nat \<Rightarrow> int \<Rightarrow> 'u \<Rightarrow> 'u) \<Rightarrow> thread_sig \<Rightarrow> int \<Rightarrow> 'u \<Rightarrow> 'u" where
  "run_handler act ts s u =
     (case snd (the (sig_vectors ts)) ! nat s of Some (User_handler f) \<Rightarrow> act f s u | _ \<Rightarrow> u)"

text \<open>The signals of the list that are handled when \<open>p\<close> is pending and \<open>m\<close> is wanted.\<close>

fun handled :: "u32 \<Rightarrow> u32 \<Rightarrow> int list \<Rightarrow> int list" where
  "handled p m [] = []"
| "handled p m (s # ss) = (if p AND m = 0 then [] else s # handled (p AND NOT (sig_bit s)) m ss)"

definition cleared :: "int list \<Rightarrow> u32 \<Rightarrow> u32" where
  "cleared ss p = fold (\<lambda>s p. p AND NOT (sig_bit s)) ss p"

lemma cleared_simps [simp]: "cleared [] p = p" "cleared (s # ss) p = cleared ss (p AND NOT (sig_bit s))"
  by (simp_all add: cleared_def)

lemma si_entry_simps [simp]: "si_entry None = SiNull" "si_entry (Some n) = SiNode n"
  by (simp_all add: si_entry_def)

lemma same_sched_stat [simp]:
  "b AND 0x0f = 0 \<Longrightarrow> same_sched (th\<lparr>th_stat := th_stat th OR b\<rparr>) th"
  "b AND 0x0f = 0 \<Longrightarrow> same_sched (th\<lparr>th_stat := th_stat th AND NOT b\<rparr>) th"
proof -
  assume b: "b AND 0x0f = 0"
  have "bit b n \<Longrightarrow> \<not> n < 4" for n
    using arg_cong[OF b, of "\<lambda>x. bit x n"] by (auto simp: mask_0f bit_simps)
  then have "(th_stat th OR b) AND 0x0f = th_stat th AND 0x0f" "(th_stat th AND NOT b) AND 0x0f = th_stat th AND 0x0f"
    unfolding mask_0f by (auto intro!: bit_word_eqI simp: bit_simps)
  then show "same_sched (th\<lparr>th_stat := th_stat th OR b\<rparr>) th"
    "same_sched (th\<lparr>th_stat := th_stat th AND NOT b\<rparr>) th"
    by (simp_all add: same_sched_def stat_of_def)
qed

text \<open>The pool, when no thread waits for it.\<close>

lemma mp_free_unwaited:
  assumes "mp_ok n k" "ls_q (tlist k) (MpQ n) = []" "i \<in> mp_used n (mps k n)"
  shows "rt_mp_free n i k = Some (upd_mp n (mp_put i) k)" "mp_ok n (upd_mp n (mp_put i) k)"
    "mp_used n (mp_put i (mps k n)) = mp_used n (mps k n) - {i}"
proof -
  obtain fs where r: "mp_rep n (mps k n) fs" using assms(1) by (auto simp: mp_ok_def)
  note p = mp_put_ok[OF r assms(3)]
  have s: "mp_suspend_count (mps k n) = 0" using assms(1,2) by (simp add: mp_ok_def unat_eq_0)
  show "rt_mp_free n i k = Some (upd_mp n (mp_put i) k)"
    using assms(3) p(4) s by (simp add: rt_mp_free_def mp_used_def)
  show "mp_ok n (upd_mp n (mp_put i) k)" using p(1,4) assms(1) by (auto simp: mp_ok_def rt_object_get_type_def)
  show "mp_used n (mp_put i (mps k n)) = mp_used n (mps k n) - {i}" by (rule p(2))
qed

lemma mp_alloc_now:
  assumes "mp_ok n k" "mp_free_count (mps k n) \<noteq> 0"
  shows "\<exists>i mp. rt_mp_alloc n time k = Some (Return (Some i), upd_mp n (\<lambda>_. mp) k) \<and>
    mp_ok n (upd_mp n (\<lambda>_. mp) k) \<and> i \<notin> mp_used n (mps k n) \<and> mp_used n mp = insert i (mp_used n (mps k n))"
proof -
  obtain fs where r: "mp_rep n (mps k n) fs" using assms(1) by (auto simp: mp_ok_def)
  obtain i mp where t: "mp_take n (mps k n) = Some (i, mp)" "mp_rep n mp (tl fs)" "i \<notin> mp_used n (mps k n)"
    "mp_used n mp = insert i (mp_used n (mps k n))" "mp_suspend_count mp = mp_suspend_count (mps k n)"
    using mp_take_ok[OF r assms(2)] by blast
  have "mp_ok n (upd_mp n (\<lambda>_. mp) k)" using t(2,5) assms(1) by (auto simp: mp_ok_def rt_object_get_type_def)
  then show ?thesis using t assms(2)
    by (intro exI[of _ i] exI[of _ mp]) (simp add: rt_mp_alloc_def mp_alloc_loop_def)
qed

subsection \<open>Handling\<close>

text \<open>What handling may not change.\<close>

definition handle_frame :: "nat \<Rightarrow> 'u signals \<Rightarrow> 'u signals \<Rightarrow> bool" where
  "handle_frame t st st' \<longleftrightarrow> sg_info st' = sg_info st \<and> sg_next st' = sg_next st \<and> sg_pool st' = sg_pool st \<and>
     sig_mask (sg_thr st' t) = sig_mask (sg_thr st t) \<and> sig_vectors (sg_thr st' t) = sig_vectors (sg_thr st t) \<and>
     rt_current_thread (sg_kernel st') = rt_current_thread (sg_kernel st) \<and>
     tlist (sg_kernel st') = tlist (sg_kernel st) \<and>
     th_stat (thr (sg_kernel st') t) = th_stat (thr (sg_kernel st) t)"

lemma handle_node_ok:
  assumes ok: "sig_ok st t (x # xs)" and v: "vector_ok t st" and p: "pure_handlers hf act"
  defines "s \<equiv> si_signo (sg_info st x)"
  shows "\<exists>st'. handle_node hf t x st = Some st' \<and> sig_ok st' t xs \<and> handle_frame t st st' \<and>
    sg_user st' = run_handler act (sg_thr st t) s (sg_user st) \<and>
    sig_pending (sg_thr st' t) = sig_pending (sg_thr st t) AND NOT (sig_bit s) \<and>
    mp_used (sg_pool st) (mps (sg_kernel st') (sg_pool st)) =
      mp_used (sg_pool st) (mps (sg_kernel st) (sg_pool st)) - {x} \<and>
    th_error (thr (sg_kernel st') t) = - RT_EINTR"
proof -
  let ?n = "sg_pool st" and ?k = "sg_kernel st"
  obtain m vs where vs: "sig_vectors (sg_thr st t) = Some (m, vs)" "length vs = 32" "list_all callable vs"
    using v by (auto simp: vector_ok_def)
  have o: "kinv ?k" "mp_ok ?n ?k" "ls_q (tlist ?k) (MpQ ?n) = []" "slist (sg_next st) (sg_next st x) xs"
    "x \<in> mp_used ?n (mps ?k ?n)" "set xs \<subseteq> mp_used ?n (mps ?k ?n)" "sig_valid s" "x \<notin> set xs"
    "\<forall>x \<in> set xs. sig_valid (si_signo (sg_info st x))"
    using ok slist_distinct[of "sg_next st" _ "x # xs"] by (auto simp: sig_ok_def s_def)
  have l: "nat s < length vs" "0 \<le> s" using o(7) vs(2) by (auto simp: sig_valid_def)
  have c: "callable (vs ! nat s)" using vs(3) l(1) by (simp add: list_all_length)
  define r where "r = run_handler act (sg_thr st t) s"
  have call: "call_handler hf (vs ! nat s) s st1 = Some (st1\<lparr>sg_user := r (sg_user st1)\<rparr>)" for st1
    using c p vs(1)
    by (auto simp: call_handler_def pure_handlers_def r_def run_handler_def split: option.splits sighandler.splits)
  note f = mp_free_unwaited[OF o(2,3,5)]
  let ?k' = "upd_thr t (\<lambda>th. th\<lparr>th_error := - 9\<rparr>) (upd_mp ?n (mp_put x) ?k)"
  let ?st = "st\<lparr>sg_kernel := ?k', sg_thr := (sg_thr st)(t := (sg_thr st t)\<lparr>si_list := si_entry (sg_next st x),
      sig_pending := sig_pending (sg_thr st t) AND NOT (sig_bit s)\<rparr>),
    sg_user := r (sg_user st)\<rparr>"
  have "handle_node hf t x st = Some ?st"
    using vs(1) l call f(1)
    by (simp add: handle_node_def s_def[symmetric] sig_vector_def sig_free_node_def Let_def)
  moreover have "kinv (upd_mp ?n (mp_put x) ?k)" using o(1) by simp
  then have "kinv ?k'" using kinv_thr_same[of "upd_mp ?n (mp_put x) ?k" "(thr ?k t)\<lparr>th_error := - 9\<rparr>" t] by simp
  moreover have "mp_ok ?n ?k'" using f(2) by (simp add: mp_ok_def rt_object_get_type_def)
  ultimately show ?thesis
    using o f(3) by (intro exI[of _ ?st]) (auto simp: sig_ok_def handle_frame_def r_def)
qed

lemma run_handler_cong: "sig_vectors a = sig_vectors b \<Longrightarrow> run_handler act a = run_handler act b"
  by (simp add: run_handler_def fun_eq_iff)

lemma handle_frame_trans: "handle_frame t a b \<Longrightarrow> handle_frame t b c \<Longrightarrow> handle_frame t a c"
  by (simp add: handle_frame_def)

lemma vector_ok_frame: "handle_frame t st st' \<Longrightarrow> vector_ok t st' = vector_ok t st"
  by (simp add: handle_frame_def vector_ok_def)

text \<open>The result of handling: the signals \<open>hs\<close> were handled and the nodes \<open>ys\<close> are left.\<close>

definition handles ::
  "(nat \<Rightarrow> int \<Rightarrow> 'u \<Rightarrow> 'u) \<Rightarrow> nat \<Rightarrow> int list \<Rightarrow> nat list \<Rightarrow> nat list \<Rightarrow> 'u signals \<Rightarrow> 'u signals \<Rightarrow> bool" where
  "handles act t hs xs ys st st' \<longleftrightarrow> sig_ok st' t ys \<and> handle_frame t st st' \<and>
     sg_user st' = fold (run_handler act (sg_thr st t)) hs (sg_user st) \<and>
     sig_pending (sg_thr st' t) = cleared hs (sig_pending (sg_thr st t)) \<and>
     mp_used (sg_pool st) (mps (sg_kernel st') (sg_pool st)) =
       mp_used (sg_pool st) (mps (sg_kernel st) (sg_pool st)) - set xs \<and>
     th_error (thr (sg_kernel st') t) = (if hs = [] then th_error (thr (sg_kernel st) t) else - RT_EINTR)"

definition signos :: "'u signals \<Rightarrow> nat list \<Rightarrow> int list" where
  "signos st xs = map (\<lambda>x. si_signo (sg_info st x)) xs"

lemma handle_sig_loop_ok:
  assumes "sig_ok st t xs" "vector_ok t st" "pure_handlers hf act"
  defines "hs \<equiv> handled (sig_pending (sg_thr st t)) (sig_mask (sg_thr st t)) (signos st xs)"
  shows "\<exists>st'. handle_sig_loop hf t st = Some st' \<and>
    handles act t hs (take (length hs) xs) (drop (length hs) xs) st st'"
  using assms(1,2) unfolding hs_def
proof (induction xs arbitrary: st)
  case Nil
  then have "si_list (sg_thr st t) = SiNull" by (auto simp: sig_ok_def)
  then show ?case using Nil
    by (subst handle_sig_loop.simps) (auto simp: handles_def handle_frame_def signos_def)
next
  case (Cons x xs)
  let ?p = "sig_pending (sg_thr st t)" and ?m = "sig_mask (sg_thr st t)" and ?s = "si_signo (sg_info st x)"
  show ?case
  proof (cases "?p AND ?m = 0")
    case True
    then show ?thesis using Cons.prems
      by (subst handle_sig_loop.simps) (auto simp: handles_def handle_frame_def signos_def)
  next
    case False
    have l: "si_list (sg_thr st t) = SiNode x" using Cons.prems(1) by (auto simp: sig_ok_def)
    obtain st1 where s1: "handle_node hf t x st = Some st1" "sig_ok st1 t xs" "handle_frame t st st1"
      "sg_user st1 = run_handler act (sg_thr st t) ?s (sg_user st)"
      "sig_pending (sg_thr st1 t) = ?p AND NOT (sig_bit ?s)"
      "mp_used (sg_pool st) (mps (sg_kernel st1) (sg_pool st)) =
        mp_used (sg_pool st) (mps (sg_kernel st) (sg_pool st)) - {x}"
      "th_error (thr (sg_kernel st1) t) = - 9"
      using handle_node_ok[OF Cons.prems assms(3)] by blast
    let ?h = "handled (?p AND NOT (sig_bit ?s)) ?m (signos st xs)"
    have e: "sig_mask (sg_thr st1 t) = ?m" "signos st1 xs = signos st xs"
      using s1(3) by (simp_all add: handle_frame_def signos_def)
    obtain st' where s': "handle_sig_loop hf t st1 = Some st'"
      "handles act t ?h (take (length ?h) xs) (drop (length ?h) xs) st1 st'"
      using Cons.IH[OF s1(2)] vector_ok_frame[OF s1(3)] Cons.prems(2) e s1(5) by auto
    have h: "handled ?p ?m (signos st (x # xs)) = ?s # ?h" using False by (simp add: signos_def)
    have "handle_sig_loop hf t st = Some st'"
      using False l s1(1) s'(1) by (subst handle_sig_loop.simps) simp
    moreover have "handles act t (?s # ?h) (x # take (length ?h) xs) (drop (length ?h) xs) st st'"
    proof -
      have f: "handle_frame t st st'" using handle_frame_trans[OF s1(3)] s'(2) by (simp add: handles_def)
      have "run_handler act (sg_thr st1 t) = run_handler act (sg_thr st t)" "sg_pool st1 = sg_pool st"
        using s1(3) run_handler_cong[of "sg_thr st1 t" "sg_thr st t" act] by (simp_all add: handle_frame_def)
      then show ?thesis using s'(2) s1(4-7) f unfolding handles_def by auto
    qed
    ultimately show ?thesis by (simp add: h)
  qed
qed

text \<open>The kernel with other bits in the state of a thread.\<close>

lemma sig_ok_thr:
  assumes "sig_ok st t xs" "same_sched (f (thr (sg_kernel st) u)) (thr (sg_kernel st) u)"
  shows "sig_ok (upd_kernel (upd_thr u f) st) t xs"
  using assms kinv_thr_same[of "sg_kernel st" "f (thr (sg_kernel st) u)" u]
  by (simp add: sig_ok_def mp_ok_def rt_object_get_type_def)

lemma stat_clear_ok:
  assumes "sig_ok st t xs" "b AND 0x0f = 0"
  shows "sig_ok (upd_kernel (stat_clear b u) st) t xs"
  using sig_ok_thr[OF assms(1), of "\<lambda>th. th\<lparr>th_stat := th_stat th AND NOT b\<rparr>" u] assms(2) by simp

lemma stat_or_ok:
  assumes "sig_ok st t xs" "b AND 0x0f = 0"
  shows "sig_ok (upd_kernel (stat_or b u) st) t xs"
  using sig_ok_thr[OF assms(1), of "\<lambda>th. th\<lparr>th_stat := th_stat th OR b\<rparr>" u] assms(2) by simp

lemma handle_sig_ok:
  assumes "sig_ok st t xs" "vector_ok t st" "pure_handlers hf act" "rt_current_thread (sg_kernel st) = Some t"
    "th_stat (thr (sg_kernel st) t) AND RT_THREAD_STAT_SIGNAL_WAIT = 0"
  defines "hs \<equiv> handled (sig_pending (sg_thr st t)) (sig_mask (sg_thr st t)) (signos st xs)"
  shows "\<exists>st1. handles act t hs (take (length hs) xs) (drop (length hs) xs) st st1 \<and>
    rt_thread_handle_sig hf True st =
      Some (if sig_pending (sg_thr st t) AND sig_mask (sg_thr st t) = 0 then st1
            else upd_kernel (stat_clear RT_THREAD_STAT_SIGNAL t) st1)"
proof -
  obtain st1 where s: "handle_sig_loop hf t st = Some st1"
    "handles act t hs (take (length hs) xs) (drop (length hs) xs) st st1"
    using handle_sig_loop_ok[OF assms(1-3)] unfolding hs_def by blast
  then show ?thesis using assms(4,5)
    by (intro exI[of _ st1]) (auto simp: rt_thread_handle_sig_def rt_thread_self_def handle_sig_loop.simps[of hf t st])
qed

subsection \<open>Sending\<close>

lemma bit_sig_bit: "sig_valid n \<Longrightarrow> bit (sig_bit n) i \<longleftrightarrow> i = nat n"
  by (auto simp: sig_bit_def sig_valid_def bit_simps)

lemma and_sig_bit: "sig_valid n \<Longrightarrow> p AND sig_bit n = 0 \<longleftrightarrow> \<not> bit p (nat n)"
proof -
  assume v: "sig_valid n"
  have "bit (p AND sig_bit n) i \<longleftrightarrow> bit p (nat n) \<and> i = nat n" for i
    by (auto simp: bit_and_iff bit_sig_bit[OF v])
  then show ?thesis by (metis bit_0_eq bit_eqI bot_apply bot_bool_def)
qed

lemma sig_append_ok:
  assumes ok: "sig_ok st t xs" and n: "n \<in> mp_used (sg_pool st) (mps (sg_kernel st) (sg_pool st))" "n \<notin> set xs"
    and v: "sig_valid (si_signo si)"
  shows "\<exists>nx l. sig_append t n si st = Some (upd_sig t (\<lambda>ts. ts\<lparr>si_list := l\<rparr>)
      (st\<lparr>sg_next := nx, sg_info := (sg_info st)(n := si)\<rparr>)) \<and>
    sig_ok (upd_sig t (\<lambda>ts. ts\<lparr>si_list := l\<rparr>) (st\<lparr>sg_next := nx, sg_info := (sg_info st)(n := si)\<rparr>)) t (xs @ [n])"
proof (cases xs)
  case Nil
  then have "si_list (sg_thr st t) = SiNull" using ok by (auto simp: sig_ok_def)
  then show ?thesis using ok Nil n v
    by (intro exI[of _ "(sg_next st)(n := None)"] exI[of _ "SiNode n"])
      (auto simp: sig_append_def sig_ok_def mp_ok_def rt_object_get_type_def rt_slist_init_def
        intro!: exI[of _ "Some n"])
next
  case (Cons x ys)
  have l: "si_list (sg_thr st t) = SiNode x" and s: "slist (sg_next st) (sg_next st x) ys" "distinct (x # ys)"
    using ok Cons slist_distinct[of "sg_next st" _ xs] by (auto simp: sig_ok_def)
  let ?nx0 = "rt_slist_init n (sg_next st)"
  have s0: "slist ?nx0 (?nx0 x) ys" using s(1) n(2) Cons by (auto simp: rt_slist_init_def)
  have nin: "n \<notin> set (x # ys)" using n(2) Cons by simp
  obtain nx where a: "rt_slist_append x n ?nx0 = Some nx" "slist nx (nx x) (ys @ [n])"
    using append_ok[OF s0 nin s(2)] by blast
  have "sg_thr st = (sg_thr st)(t := (sg_thr st t)\<lparr>si_list := SiNode x\<rparr>)" using l by (simp add: fun_eq_iff)
  then show ?thesis using ok Cons n v a l
    by (intro exI[of _ nx] exI[of _ "SiNode x"])
      (auto simp: sig_append_def sig_ok_def mp_ok_def rt_object_get_type_def Let_def intro!: exI[of _ "Some x"])
qed

text \<open>A new signal is queued behind the others before it is delivered.\<close>

lemma kill_queues:
  assumes ok: "sig_ok st t xs" and v: "sig_valid sig" and p: "sig_pending (sg_thr st t) AND sig_bit sig = 0"
    and f: "mp_free_count (mps (sg_kernel st) (sg_pool st)) \<noteq> 0"
  shows "\<exists>st1 n mp. sig_ok st1 t (xs @ [n]) \<and>
    rt_thread_kill hf t sig st = map_option (Pair 0) (signal_deliver hf t st1) \<and>
    n \<notin> mp_used (sg_pool st) (mps (sg_kernel st) (sg_pool st)) \<and>
    mp_used (sg_pool st) mp = insert n (mp_used (sg_pool st) (mps (sg_kernel st) (sg_pool st))) \<and>
    sg_kernel st1 = upd_mp (sg_pool st) (\<lambda>_. mp) (sg_kernel st) \<and>
    sg_pool st1 = sg_pool st \<and> sg_user st1 = sg_user st \<and> sg_entry st1 = sg_entry st \<and>
    sig_pending (sg_thr st1 t) = sig_pending (sg_thr st t) OR sig_bit sig \<and>
    sig_mask (sg_thr st1 t) = sig_mask (sg_thr st t) \<and> sig_vectors (sg_thr st1 t) = sig_vectors (sg_thr st t) \<and>
    signos st1 (xs @ [n]) = signos st xs @ [sig]"
proof -
  let ?k = "sg_kernel st" and ?n = "sg_pool st"
  have m: "mp_ok ?n ?k" using ok by (simp add: sig_ok_def)
  obtain i mp where a: "rt_mp_alloc ?n 0 ?k = Some (Return (Some i), upd_mp ?n (\<lambda>_. mp) ?k)"
    "mp_ok ?n (upd_mp ?n (\<lambda>_. mp) ?k)" "i \<notin> mp_used ?n (mps ?k ?n)"
    "mp_used ?n mp = insert i (mp_used ?n (mps ?k ?n))"
    using mp_alloc_now[OF m f, of 0] by blast
  let ?si = "\<lparr>si_signo = sig, si_code = 1, si_value = 0\<rparr>"
  let ?st0 = "upd_sig t (\<lambda>ts. ts\<lparr>sig_pending := sig_pending ts OR sig_bit sig\<rparr>) st"
  let ?st1 = "?st0\<lparr>sg_kernel := upd_mp ?n (\<lambda>_. mp) ?k\<rparr>"
  have nin: "i \<notin> set xs" using ok a(3) by (auto simp: sig_ok_def)
  have ok1: "sig_ok ?st1 t xs" using ok a(2,4) by (auto simp: sig_ok_def)
  have "i \<in> mp_used (sg_pool ?st1) (mps (sg_kernel ?st1) (sg_pool ?st1))" using a(4) by simp
  then obtain nx l where s: "sig_append t i ?si ?st1 = Some (upd_sig t (\<lambda>ts. ts\<lparr>si_list := l\<rparr>)
      (?st1\<lparr>sg_next := nx, sg_info := (sg_info st)(i := ?si)\<rparr>))"
    "sig_ok (upd_sig t (\<lambda>ts. ts\<lparr>si_list := l\<rparr>) (?st1\<lparr>sg_next := nx, sg_info := (sg_info st)(i := ?si)\<rparr>)) t (xs @ [i])"
    using sig_append_ok[OF ok1 _ nin, of ?si] v by auto
  let ?st2 = "upd_sig t (\<lambda>ts. ts\<lparr>si_list := l\<rparr>) (?st1\<lparr>sg_next := nx, sg_info := (sg_info st)(i := ?si)\<rparr>)"
  have "rt_thread_kill hf t sig st = map_option (Pair 0) (signal_deliver hf t ?st2)"
    using v p a(1) s(1) by (simp add: rt_thread_kill_def Let_def map_option_bind map_conv_bind_option comp_def)
  moreover have "signos ?st2 (xs @ [i]) = signos st xs @ [sig]" using nin by (auto simp: signos_def)
  ultimately show ?thesis using s(2) a(3,4) by (intro exI[of _ ?st2] exI[of _ i] exI[of _ mp]) simp
qed

text \<open>Delivery to a thread that is suspended.\<close>

lemma deliver_suspended:
  assumes ok: "sig_ok st t xs" and c: "rt_current_thread (sg_kernel st) = Some c"
    and t: "alive (sg_kernel st) t" "stat_of (thr (sg_kernel st) t) = RT_THREAD_SUSPEND"
    and w: "sig_pending (sg_thr st t) AND sig_mask (sg_thr st t) \<noteq> 0"
  shows "\<exists>k'. signal_deliver hf t st = Some (st\<lparr>sg_kernel := k'\<rparr>) \<and> kinv k' \<and> ready_thread k' t \<and>
    th_stat (thr k' t) = 1 OR (th_stat (thr (sg_kernel st) t) AND NOT 0x0f) OR RT_THREAD_STAT_SIGNAL \<and>
    th_error (thr k' t) = th_error (thr (sg_kernel st) t) \<and> mps k' = mps (sg_kernel st)"
proof -
  let ?k = "sg_kernel st"
  have k: "kinv ?k" using ok by (simp add: sig_ok_def)
  obtain k1 where k1: "rt_thread_resume t ?k = Some (0, k1)" "kinv k1" "ipc_frame ?k k1"
    "thr k1 = (thr ?k)(t := set_stat 1 (thr ?k t))" "rt_current_thread k1 = rt_current_thread ?k"
    using resume_ok[OF k t] by blast
  let ?k2 = "stat_or 0x10 t k1"
  have k2: "kinv ?k2" "rt_current_thread ?k2 = Some c"
    using kinv_thr_same[OF k1(2), of "(thr k1 t)\<lparr>th_stat := th_stat (thr k1 t) OR 0x10\<rparr>" t] k1(5) c by simp_all
  obtain k' where k': "rt_schedule ?k2 = Some k'" "kinv k'" "sched_frame ?k2 k'" using schedule_ok[OF k2] by blast
  note fr = sched_frameD[OF k'(3)]
  have "alive k' t"
    using t(1) fr(1) ipc_frameD(11)[OF k1(3), of "OThread t"] by (simp add: alive_def rt_object_get_type_def)
  moreover have "stat_of (thr k' t) = 1"
    using same_sched_stat(1)[of "0x10" "set_stat 1 (thr ?k t)"] fr(3) k1(4) by (simp add: same_sched_def)
  ultimately show ?thesis
    using t(2) w k1(1,4) k'(1,2) fr(3,15) ipc_frameD(6)[OF k1(3)]
    by (intro exI[of _ k']) (simp add: signal_deliver_def ready_thread_def set_stat_def or.assoc)
qed

subsection \<open>Freeing\<close>

text \<open>\<open>rt_thread_free_sig\<close> gives every node of the list back to the pool.\<close>

lemma free_sig_loop_ok:
  assumes "kinv (sg_kernel st)" "mp_ok (sg_pool st) (sg_kernel st)"
    "ls_q (tlist (sg_kernel st)) (MpQ (sg_pool st)) = []" "slist (sg_next st) (Some x) (x # xs)"
    "set (x # xs) \<subseteq> mp_used (sg_pool st) (mps (sg_kernel st) (sg_pool st))"
  shows "\<exists>k'. free_sig_loop x st = Some (st\<lparr>sg_kernel := k'\<rparr>) \<and> kinv k' \<and> mp_ok (sg_pool st) k' \<and>
    tlist k' = tlist (sg_kernel st) \<and>
    mp_used (sg_pool st) (mps k' (sg_pool st)) = mp_used (sg_pool st) (mps (sg_kernel st) (sg_pool st)) - set (x # xs)"
  using assms
proof (induction xs arbitrary: x st)
  case Nil
  have f: "x \<in> mp_used (sg_pool st) (mps (sg_kernel st) (sg_pool st))" "sg_next st x = None" using Nil by auto
  show ?case using Nil mp_free_unwaited[OF Nil(2,3) f(1)] f(2)
    by (subst free_sig_loop.simps) (auto simp: sig_free_node_def)
next
  case (Cons y ys)
  let ?n = "sg_pool st" and ?k = "sg_kernel st"
  have x: "x \<in> mp_used ?n (mps ?k ?n)" "sg_next st x = Some y" "x \<notin> set (y # ys)"
    using Cons.prems(4,5) slist_distinct[OF Cons.prems(4)] by auto
  note f = mp_free_unwaited[OF Cons.prems(2,3) x(1)]
  let ?st1 = "st\<lparr>sg_kernel := upd_mp ?n (mp_put x) ?k\<rparr>"
  obtain k' where k': "free_sig_loop y ?st1 = Some (?st1\<lparr>sg_kernel := k'\<rparr>)" "kinv k'" "mp_ok ?n k'"
    "tlist k' = tlist ?k" "mp_used ?n (mps k' ?n) = mp_used ?n (mp_put x (mps ?k ?n)) - set (y # ys)"
    using Cons.IH[of ?st1 y] Cons.prems f x by auto
  have "free_sig_loop x st = Some (st\<lparr>sg_kernel := k'\<rparr>)"
    using f(1) x(2) k'(1) by (subst free_sig_loop.simps) (simp add: sig_free_node_def)
  then show ?case using k'(2-5) f(3) by auto
qed

lemma free_sig_ok:
  assumes "sig_ok st t xs"
  shows "\<exists>b st'. rt_thread_free_sig t st = Some (b, st') \<and> sig_ok st' t [] \<and> sig_vectors (sg_thr st' t) = None \<and>
    mp_used (sg_pool st) (mps (sg_kernel st') (sg_pool st)) =
      mp_used (sg_pool st) (mps (sg_kernel st) (sg_pool st)) - set xs"
proof (cases xs)
  case Nil
  then have "si_list (sg_thr st t) = SiNull" using assms by (auto simp: sig_ok_def)
  then show ?thesis using assms Nil by (auto simp: rt_thread_free_sig_def sig_ok_def intro!: exI[of _ None])
next
  case (Cons x ys)
  let ?st1 = "upd_sig t (\<lambda>ts. ts\<lparr>si_list := SiNull, sig_vectors := None\<rparr>) st"
  have s: "si_list (sg_thr st t) = SiNode x" "slist (sg_next ?st1) (Some x) (x # ys)"
    "kinv (sg_kernel ?st1)" "mp_ok (sg_pool ?st1) (sg_kernel ?st1)"
    "ls_q (tlist (sg_kernel ?st1)) (MpQ (sg_pool ?st1)) = []"
    "set (x # ys) \<subseteq> mp_used (sg_pool ?st1) (mps (sg_kernel ?st1) (sg_pool ?st1))"
    using assms Cons by (auto simp: sig_ok_def)
  obtain k' where k': "free_sig_loop x ?st1 = Some (?st1\<lparr>sg_kernel := k'\<rparr>)" "kinv k'" "mp_ok (sg_pool ?st1) k'"
    "tlist k' = tlist (sg_kernel ?st1)"
    "mp_used (sg_pool ?st1) (mps k' (sg_pool ?st1)) =
      mp_used (sg_pool ?st1) (mps (sg_kernel ?st1) (sg_pool ?st1)) - set (x # ys)"
    using free_sig_loop_ok[OF s(3-5,2,6)] by blast
  show ?thesis using s(1,5) k' Cons
    by (intro exI[of _ "map_option fst (sig_vectors (sg_thr st t))"] exI[of _ "?st1\<lparr>sg_kernel := k'\<rparr>"])
      (auto simp: rt_thread_free_sig_def sig_ok_def intro!: exI[of _ None])
qed

subsection \<open>Properties\<close>

text \<open>
  An example: thread 0 runs and thread 1 is suspended; the pool has two nodes for the signals 1 and 2, whose handlers
  write the number down.
\<close>

definition ex_write :: "int list handlers" where
  "ex_write f s st = Some (st\<lparr>sg_user := sg_user st @ [s]\<rparr>)"

definition ex_node_pool :: "nat list \<Rightarrow> rt_mempool" where
  "ex_node_pool fs = \<lparr>mp_blocks = (\<lambda>i. if i \<in> set fs then NextFree None else OwnedBy 0),
     mp_block_list = (case fs of [] \<Rightarrow> None | x # _ \<Rightarrow> Some x), mp_block_size = 12, mp_total_count = 2,
     mp_free_count = of_nat (length fs), mp_suspend_count = 0\<rparr>"

definition ex_signals :: "nat list \<Rightarrow> si_ptr \<Rightarrow> u32 \<Rightarrow> u32 \<Rightarrow> int list signals" where
  "ex_signals fs l p m = \<lparr>sg_kernel = ex_mpk (SemQ 0) (ex_node_pool fs),
     sg_thr = (\<lambda>_. \<lparr>sig_pending = p, sig_mask = m, sig_ret = 0,
       sig_vectors = Some (0x100, replicate 32 (Some (User_handler 0))), si_list = l\<rparr>),
     sg_info = (\<lambda>i. \<lparr>si_signo = int i + 1, si_code = 1, si_value = 0\<rparr>),
     sg_next = (\<lambda>_. None)(0 := Some 1), sg_pool = 0, sg_entry = 0x8000, sg_user = []\<rparr>"

lemma ex_write_pure: "pure_handlers ex_write (\<lambda>f s u. u @ [s])"
  by (simp add: pure_handlers_def ex_write_def)

lemma ex_vector: "vector_ok t (ex_signals fs l p m)"
  by (auto simp: vector_ok_def ex_signals_def list_all_length simp del: replicate.simps)

lemma ex_signals_kernel:
  "kinv (sg_kernel (ex_signals fs l p m))" "rt_current_thread (sg_kernel (ex_signals fs l p m)) = Some 0"
  "ls_q (tlist (sg_kernel (ex_signals fs l p m))) (MpQ 0) = []"
  "length fs \<le> 1 \<Longrightarrow> set fs \<subseteq> {1} \<Longrightarrow> mp_ok 0 (sg_kernel (ex_signals fs l p m))"
proof -
  have w: "wait_link (Some (SemQ 0))" by simp
  note f = ex_mpk_facts[OF w, where mp = "ex_node_pool fs"]
  show "kinv (sg_kernel (ex_signals fs l p m))" "rt_current_thread (sg_kernel (ex_signals fs l p m)) = Some 0"
    "ls_q (tlist (sg_kernel (ex_signals fs l p m))) (MpQ 0) = []"
    by (simp_all add: ex_signals_def f)
  assume "length fs \<le> 1" "set fs \<subseteq> {1}"
  then have "mp_rep 0 (ex_node_pool fs) fs"
    by (cases fs) (auto simp: mp_rep_def ex_node_pool_def)
  moreover have "mp_suspend_count (ex_node_pool fs) = 0" by (simp add: ex_node_pool_def)
  ultimately show "mp_ok 0 (sg_kernel (ex_signals fs l p m))"
    by (auto simp: mp_ok_def ex_signals_def f)
qed

lemma ex_signals_ok:
  "sig_ok (ex_signals [] (SiNode 0) p m) t [0, 1]" "sig_ok (ex_signals [1] SiNull p m) t []"
proof -
  have w: "wait_link (Some (SemQ 0))" by simp
  have u: "mp_used 0 (ex_node_pool []) = {0, 1}" by (auto simp: mp_used_def ex_node_pool_def less_2_cases_iff)
  show "sig_ok (ex_signals [] (SiNode 0) p m) t [0, 1]"
    using ex_signals_kernel[of "[]" "SiNode 0" p m]
    by (auto simp: sig_ok_def ex_signals_def sig_valid_def ex_mpk_facts(4)[OF w] u intro!: exI[of _ "Some 0"])
  show "sig_ok (ex_signals [1] SiNull p m) t []"
    using ex_signals_kernel[of "[1]" SiNull p m] by (auto simp: sig_ok_def ex_signals_def intro!: exI[of _ None])
qed

lemma ex_signals_threads:
  "th_stat (thr (sg_kernel (ex_signals fs l p m)) 0) = 1" "stat_of (thr (sg_kernel (ex_signals fs l p m)) 1) = 2"
  "alive (sg_kernel (ex_signals fs l p m)) 1" "stat_of (thr (sg_kernel (ex_signals fs l p m)) 0) = 1"
  by (simp_all add: ex_signals_def ex_mpk_def ex_ipc_def ex_wait_def ex_kernel_def ex_thread_def stat_of_def alive_def
      rt_object_get_type_def ex_objs_def ex_obj_def)



text \<open>A signal that is blocked is handled all the same when it stands in front of one that is not: its handler is
  called first.\<close>

theorem signal_blocked_is_handled:
  assumes "sig_ok st t [x, y]" "vector_ok t st" "pure_handlers hf act" "rt_current_thread (sg_kernel st) = Some t"
    "th_stat (thr (sg_kernel st) t) AND RT_THREAD_STAT_SIGNAL_WAIT = 0"
    "a = si_signo (sg_info st x)" "b = si_signo (sg_info st y)"
    "sig_mask (sg_thr st t) AND sig_bit a = 0" "sig_mask (sg_thr st t) AND sig_bit b \<noteq> 0"
    "sig_pending (sg_thr st t) AND sig_bit b \<noteq> 0"
  shows "\<exists>st'. rt_thread_handle_sig hf True st = Some st' \<and> si_list (sg_thr st' t) = SiNull \<and>
    sg_user st' = run_handler act (sg_thr st t) b (run_handler act (sg_thr st t) a (sg_user st))"
proof -
  let ?p = "sig_pending (sg_thr st t)" and ?m = "sig_mask (sg_thr st t)"
  have v: "sig_valid a" "sig_valid b" using assms(1,6,7) by (auto simp: sig_ok_def)
  have bits: "\<not> bit ?m (nat a)" "bit ?m (nat b)" "bit ?p (nat b)"
    using assms(8-10) by (simp_all add: and_sig_bit v)
  then have "bit (?p AND ?m) (nat b)" "bit ((?p AND NOT (sig_bit a)) AND ?m) (nat b)"
    by (auto simp: bit_and_iff bit_not_iff bit_sig_bit[OF v(1)] dest: bit_imp_le_length)
  then have "?p AND ?m \<noteq> 0" "(?p AND NOT (sig_bit a)) AND ?m \<noteq> 0" by auto
  then have h: "handled ?p ?m (signos st [x, y]) = [a, b]" by (simp add: signos_def assms(6,7))
  obtain st1 where s: "handles act t [a, b] [x, y] [] st st1"
    "rt_thread_handle_sig hf True st = Some (upd_kernel (stat_clear 0x10 t) st1)"
    using handle_sig_ok[OF assms(1-5)] \<open>?p AND ?m \<noteq> 0\<close> unfolding h by auto
  then have "si_list (sg_thr st1 t) = SiNull" by (auto simp: handles_def sig_ok_def)
  then show ?thesis using s by (auto simp: handles_def)
qed

theorem signal_blocked_is_handled_witness:
  "\<exists>st'. rt_thread_handle_sig ex_write True (ex_signals [] (SiNode 0) 6 4) = Some st' \<and> sg_user st' = [1, 2]"
  using signal_blocked_is_handled[OF ex_signals_ok(1) ex_vector ex_write_pure ex_signals_kernel(2), of 6 4 1 2]
  by (auto simp: ex_signals_threads(1)) (auto simp: ex_signals_def run_handler_def sig_bit_def)

text \<open>A thread that sends itself a signal it wants has the handler run before \<open>rt_thread_kill\<close> returns; the node
  is back in the pool, the signal is no longer pending and the bit \<open>RT_THREAD_STAT_SIGNAL\<close> is clear.\<close>

theorem signal_kill_self:
  assumes "sig_ok st t []" "vector_ok t st" "pure_handlers hf act" "rt_current_thread (sg_kernel st) = Some t"
    "stat_of (thr (sg_kernel st) t) = RT_THREAD_READY"
    "th_stat (thr (sg_kernel st) t) AND RT_THREAD_STAT_SIGNAL_WAIT = 0" "sig_valid s"
    "sig_pending (sg_thr st t) AND sig_bit s = 0" "sig_mask (sg_thr st t) AND sig_bit s \<noteq> 0"
    "mp_free_count (mps (sg_kernel st) (sg_pool st)) \<noteq> 0"
  shows "\<exists>st'. rt_thread_kill hf t s st = Some (RT_EOK, st') \<and> sig_ok st' t [] \<and>
    sg_user st' = run_handler act (sg_thr st t) s (sg_user st) \<and>
    sig_pending (sg_thr st' t) = sig_pending (sg_thr st t) \<and>
    mp_used (sg_pool st) (mps (sg_kernel st') (sg_pool st)) = mp_used (sg_pool st) (mps (sg_kernel st) (sg_pool st)) \<and>
    th_error (thr (sg_kernel st') t) = - RT_EINTR \<and>
    th_stat (thr (sg_kernel st') t) AND RT_THREAD_STAT_SIGNAL = 0"
proof -
  let ?p = "sig_pending (sg_thr st t)" and ?m = "sig_mask (sg_thr st t)" and ?n = "sg_pool st"
  obtain st1 n mp where q: "sig_ok st1 t [n]"
    "rt_thread_kill hf t s st = map_option (Pair 0) (signal_deliver hf t st1)"
    "n \<notin> mp_used ?n (mps (sg_kernel st) ?n)" "mp_used ?n mp = insert n (mp_used ?n (mps (sg_kernel st) ?n))"
    "sg_kernel st1 = upd_mp ?n (\<lambda>_. mp) (sg_kernel st)" "sg_pool st1 = ?n" "sg_user st1 = sg_user st"
    "sig_pending (sg_thr st1 t) = ?p OR sig_bit s" "sig_mask (sg_thr st1 t) = ?m"
    "sig_vectors (sg_thr st1 t) = sig_vectors (sg_thr st t)" "signos st1 [n] = [s]"
    using kill_queues[OF assms(1,7,8,10)] by (force simp: signos_def)
  have "bit ((?p OR sig_bit s) AND ?m) (nat s)"
    using assms(9) by (auto simp: and_sig_bit[OF assms(7)] bit_simps bit_sig_bit[OF assms(7)])
  then have w: "(?p OR sig_bit s) AND ?m \<noteq> 0" by auto
  have c: "(?p OR sig_bit s) AND NOT (sig_bit s) = ?p"
    using assms(8) by (auto intro!: bit_word_eqI simp: and_sig_bit[OF assms(7)] bit_simps bit_sig_bit[OF assms(7)])
  let ?st2 = "upd_kernel (stat_or 0x10 t) st1"
  have st2: "sig_ok ?st2 t [n]" "vector_ok t ?st2" "rt_current_thread (sg_kernel ?st2) = Some t"
    using stat_or_ok[OF q(1)] assms(2,4) q(5,10) by (simp_all add: vector_ok_def)
  have nw: "th_stat (thr (sg_kernel ?st2) t) AND 0x20 = 0"
    using assms(6) q(5) by (simp add: bit.conj_disj_distrib2)
  have h: "handled (sig_pending (sg_thr ?st2 t)) (sig_mask (sg_thr ?st2 t)) (signos ?st2 [n]) = [s]"
    using w q(8,9,11) by (simp add: signos_def)
  obtain st3 where s3: "handles act t [s] [n] [] ?st2 st3"
    "rt_thread_handle_sig hf True ?st2 = Some (upd_kernel (stat_clear 0x10 t) st3)"
    using handle_sig_ok[OF st2(1,2) assms(3) st2(3) nw] w q(8,9) unfolding h by auto
  have "signal_deliver hf t st1 = Some (upd_kernel (stat_clear 0x10 t) st3)"
    using s3(2) w q(5,8,9) assms(4,5) by (simp add: signal_deliver_def rt_thread_self_def)
  moreover have "sig_ok (upd_kernel (stat_clear 0x10 t) st3) t []"
    by (rule stat_clear_ok) (use s3(1) in \<open>auto simp: handles_def\<close>)
  moreover have "run_handler act (sg_thr st1 t) = run_handler act (sg_thr st t)" by (rule run_handler_cong[OF q(10)])
  moreover have "(x AND - 17) AND 0x10 = (0 :: u8)" for x by (simp add: and.assoc)
  ultimately show ?thesis
    using q s3(1) c by (intro exI[of _ "upd_kernel (stat_clear 0x10 t) st3"]) (auto simp: handles_def)
qed

theorem signal_kill_self_witness:
  "\<exists>st'. rt_thread_kill ex_write 0 3 (ex_signals [1] SiNull 0 8) = Some (0, st') \<and> sg_user st' = [3]"
  using signal_kill_self[OF ex_signals_ok(2) ex_vector ex_write_pure ex_signals_kernel(2), of 0 8 3]
  by (auto simp: ex_signals_threads)
    (auto simp: ex_signals_def run_handler_def sig_bit_def sig_valid_def ex_mpk_facts(4) ex_node_pool_def)

text \<open>A signal that is sent again while it is still pending: the loop that looks for its node takes the pointer to
  the first node for a pointer to a list field.\<close>

theorem signal_kill_twice_faults:
  assumes "sig_ok st t (x # xs)" "sig_valid s" "sig_pending (sg_thr st t) AND sig_bit s \<noteq> 0"
  shows "rt_thread_kill hf t s st = None"
proof -
  have "si_list (sg_thr st t) = SiNode x" using assms(1) by (auto simp: sig_ok_def)
  then show ?thesis using assms(2,3) by (simp add: rt_thread_kill_def update_pending_def)
qed

theorem signal_kill_twice_faults_witness:
  "rt_thread_kill ex_write 1 2 (ex_signals [] (SiNode 0) 6 0) = None"
  using signal_kill_twice_faults[OF ex_signals_ok(1), of 2 6 0 1 ex_write]
  by (simp add: ex_signals_def sig_bit_def sig_valid_def)

text \<open>Taking the first of several signals with \<open>rt_signal_wait\<close> leaves \<open>si_list\<close> with a pointer to the list field
  of the next node: the next signal sent to the thread is appended to a list that is not there.\<close>

theorem signal_wait_breaks_list:
  assumes "sig_ok st t (x # y # xs)" "caller t (sg_kernel st)" "sset \<noteq> 0"
    "sig_pending (sg_thr st t) AND sset \<noteq> 0" "sig_bit (si_signo (sg_info st x)) AND sset \<noteq> 0"
  shows "\<exists>st'. rt_signal_wait (Some sset) True timeout st = Some (Return (RT_EOK, Some (sg_info st x)), st') \<and>
    si_list (sg_thr st' t) = SiLink y \<and>
    sig_pending (sg_thr st' t) = sig_pending (sg_thr st t) AND NOT (sig_bit (si_signo (sg_info st x))) \<and>
    (\<forall>s. sig_valid s \<and> sig_pending (sg_thr st' t) AND sig_bit s = 0 \<longrightarrow> rt_thread_kill hf t s st' = None)"
proof -
  let ?n = "sg_pool st" and ?k = "sg_kernel st"
  have o: "mp_ok ?n ?k" "ls_q (tlist ?k) (MpQ ?n) = []" "si_list (sg_thr st t) = SiNode x" "sg_next st x = Some y"
    "x \<in> mp_used ?n (mps ?k ?n)"
    using assms(1) by (auto simp: sig_ok_def)
  have c: "rt_current_thread ?k = Some t" "rt_interrupt_nest ?k = 0" using assms(2) by (simp_all add: caller_def)
  note f = mp_free_unwaited[OF o(1,2,5)]
  let ?ts = "(sg_thr st t)\<lparr>si_list := SiLink y,
    sig_pending := sig_pending (sg_thr st t) AND NOT (sig_bit (si_signo (sg_info st x)))\<rparr>"
  let ?st = "st\<lparr>sg_thr := (sg_thr st)(t := ?ts), sg_kernel := upd_mp ?n (mp_put x) ?k\<rparr>"
  have w: "rt_signal_wait (Some sset) True timeout st = Some (Return (0, Some (sg_info st x)), ?st)"
    using assms(3-5) o(3,4) c f(1)
    by (simp add: rt_signal_wait_def signal_wait_done_def signal_search.simps[of t sset None x] sig_unlink_def
        sig_free_node_def RT_DEBUG_IN_THREAD_CONTEXT_def RT_DEBUG_NOT_IN_INTERRUPT_def rt_interrupt_get_nest_def
        rt_thread_self_def Let_def)
  have "mp_free_count (mps (upd_mp ?n (mp_put x) ?k) ?n) \<noteq> 0"
  proof -
    obtain fs where r: "mp_rep ?n (mps ?k ?n) fs" using o(1) by (auto simp: mp_ok_def)
    show ?thesis using mp_put_ok(1)[OF r o(5)] by (auto simp: mp_rep_def)
  qed
  then obtain i mp where a: "rt_mp_alloc ?n 0 (upd_mp ?n (mp_put x) ?k) =
      Some (Return (Some i), upd_mp ?n (\<lambda>_. mp) (upd_mp ?n (mp_put x) ?k))"
    using mp_alloc_now[OF f(2), of 0] by blast
  have "rt_thread_kill hf t s ?st = None" if "sig_valid s" "sig_pending ?ts AND sig_bit s = 0" for s
    using that a by (simp add: rt_thread_kill_def sig_append_def Let_def)
  then show ?thesis using w by (intro exI[of _ ?st]) simp
qed

theorem signal_wait_breaks_list_witness:
  "\<exists>st'. rt_signal_wait (Some 6) True 0 (ex_signals [] (SiNode 0) 6 0) =
      Some (Return (0, Some \<lparr>si_signo = 1, si_code = 1, si_value = 0\<rparr>), st') \<and>
    rt_thread_kill ex_write 0 5 st' = None"
proof -
  let ?st = "ex_signals [] (SiNode 0) 6 0"
  have "caller 0 (sg_kernel ?st)" by (simp add: ex_signals_def ex_mpk_facts(2))
  then obtain st' where s: "rt_signal_wait (Some 6) True 0 ?st = Some (Return (0, Some (sg_info ?st 0)), st')"
    "sig_pending (sg_thr st' 0) = 4"
    "\<forall>s. sig_valid s \<and> sig_pending (sg_thr st' 0) AND sig_bit s = 0 \<longrightarrow> rt_thread_kill ex_write 0 s st' = None"
    using signal_wait_breaks_list[OF ex_signals_ok(1)[of 6 0 0], of 6 0 ex_write]
    by (auto simp: ex_signals_def sig_bit_def simp del: One_nat_def)
  then have "rt_thread_kill ex_write 0 5 st' = None" by (simp add: sig_valid_def sig_bit_def)
  moreover have "sg_info ?st 0 = \<lparr>si_signo = 1, si_code = 1, si_value = 0\<rparr>" by (simp add: ex_signals_def)
  ultimately show ?thesis using s(1) by auto
qed

text \<open>A thread whose error is still \<open>-RT_ETIMEOUT\<close> from an earlier call waits for a signal. The signal arrives and
  makes it ready, but \<open>rt_signal_wait\<close> returns \<open>-RT_ETIMEOUT\<close> and leaves the signal pending.\<close>

theorem signal_wait_stale_timeout:
  assumes "sig_ok st t xs" "rt_current_thread (sg_kernel st) = Some c" "c \<noteq> t" "alive (sg_kernel st) t"
    "stat_of (thr (sg_kernel st) t) = RT_THREAD_SUSPEND"
    "th_stat (thr (sg_kernel st) t) AND RT_THREAD_STAT_SIGNAL_WAIT \<noteq> 0"
    "th_error (thr (sg_kernel st) t) = - RT_ETIMEOUT" "sig_valid s"
    "sig_pending (sg_thr st t) AND sig_bit s = 0" "sig_mask (sg_thr st t) AND sig_bit s \<noteq> 0"
    "mp_free_count (mps (sg_kernel st) (sg_pool st)) \<noteq> 0"
  shows "\<exists>st1. rt_thread_kill hf t s st = Some (RT_EOK, st1) \<and> ready_thread (sg_kernel st1) t \<and>
    (\<forall>k. rt_current_thread k = Some t \<and> thr k t = thr (sg_kernel st1) t \<longrightarrow>
      (\<exists>st2. rt_signal_wait_end hf t (sig_bit s) (st1\<lparr>sg_kernel := k\<rparr>) =
          Some (Return (- RT_ETIMEOUT, Some siginfo_zero), st2) \<and>
        sig_pending (sg_thr st2 t) AND sig_bit s \<noteq> 0 \<and> si_list (sg_thr st2 t) = si_list (sg_thr st1 t)))"
proof -
  let ?p = "sig_pending (sg_thr st t)" and ?m = "sig_mask (sg_thr st t)" and ?n = "sg_pool st"
  obtain st1 n mp where q: "sig_ok st1 t (xs @ [n])"
    "rt_thread_kill hf t s st = map_option (Pair 0) (signal_deliver hf t st1)"
    "sg_kernel st1 = upd_mp ?n (\<lambda>_. mp) (sg_kernel st)"
    "sig_pending (sg_thr st1 t) = ?p OR sig_bit s" "sig_mask (sg_thr st1 t) = ?m"
    using kill_queues[OF assms(1,8,9,11)] by blast
  have b: "bit (?p OR sig_bit s) (nat s)" by (simp add: bit_or_iff bit_sig_bit[OF assms(8)])
  then have "bit ((?p OR sig_bit s) AND ?m) (nat s)" "(?p OR sig_bit s) AND sig_bit s \<noteq> 0"
    using assms(10) by (simp_all only: and_sig_bit[OF assms(8)] bit_and_iff simp_thms)
  then have w: "(?p OR sig_bit s) AND ?m \<noteq> 0" "(?p OR sig_bit s) AND sig_bit s \<noteq> 0" by auto
  obtain k' where k': "signal_deliver hf t st1 = Some (st1\<lparr>sg_kernel := k'\<rparr>)" "ready_thread k' t"
    "th_stat (thr k' t) = 1 OR (th_stat (thr (sg_kernel st) t) AND NOT 0x0f) OR 0x10"
    "th_error (thr k' t) = - 2"
    using deliver_suspended[OF q(1), of c hf] assms(2,4,5,7) q(3-5) w(1)
    by (auto simp: alive_def rt_object_get_type_def)
  have "th_stat (thr k' t) AND 0x20 = th_stat (thr (sg_kernel st) t) AND 0x20"
    unfolding k'(3) by (simp add: bit.conj_disj_distrib2 and.assoc)
  then have nz: "th_stat (thr k' t) AND 0x20 \<noteq> 0" using assms(6) by simp
  have "\<exists>st2. rt_signal_wait_end hf t (sig_bit s) (st1\<lparr>sg_kernel := k\<rparr>) =
      Some (Return (- 2, Some siginfo_zero), st2) \<and> sg_thr st2 = sg_thr st1"
    if "rt_current_thread k = Some t" "thr k t = thr k' t" for k
    using that nz k'(4) w(1) q(4,5)
    by (simp add: rt_signal_wait_end_def rt_thread_handle_sig_def rt_thread_self_def)
  then show ?thesis using q(2,4) k'(1,2) w(2) by (intro exI[of _ "st1\<lparr>sg_kernel := k'\<rparr>"]) fastforce
qed

theorem signal_wait_stale_timeout_witness:
  "\<exists>st st1 st2. th_error (thr (sg_kernel st) 1) = - 2 \<and> rt_thread_kill ex_write 1 3 st = Some (0, st1) \<and>
    rt_signal_wait_end ex_write 1 8 (st1\<lparr>sg_kernel := (sg_kernel st1)\<lparr>rt_current_thread := Some 1\<rparr>\<rparr>) =
      Some (Return (- 2, Some siginfo_zero), st2)"
proof -
  let ?base = "ex_signals [1] SiNull 0 8"
  let ?st = "upd_kernel (upd_thr 1 (\<lambda>th. th\<lparr>th_stat := 0x22, th_error := - 2\<rparr>)) ?base"
  have "same_sched ((thr (sg_kernel ?base) 1)\<lparr>th_stat := 0x22, th_error := - 2\<rparr>) (thr (sg_kernel ?base) 1)"
    using ex_signals_threads(2)[of "[1]" SiNull 0 8] by (simp add: same_sched_def stat_of_def)
  then have ok: "sig_ok ?st 1 []" by (intro sig_ok_thr[OF ex_signals_ok(2)])
  have al: "alive (sg_kernel ?st) 1"
    using ex_signals_threads(3)[of "[1]" SiNull 0 8] by (simp add: alive_def rt_object_get_type_def)
  have f: "mp_free_count (mps (sg_kernel ?st) (sg_pool ?st)) \<noteq> 0"
    by (simp add: ex_signals_def ex_mpk_facts(4) ex_node_pool_def)
  obtain st1 where s: "rt_thread_kill ex_write 1 3 ?st = Some (0, st1)"
    "\<forall>k. rt_current_thread k = Some 1 \<and> thr k 1 = thr (sg_kernel st1) 1 \<longrightarrow>
      (\<exists>st2. rt_signal_wait_end ex_write 1 (sig_bit 3) (st1\<lparr>sg_kernel := k\<rparr>) =
          Some (Return (- 2, Some siginfo_zero), st2) \<and>
        sig_pending (sg_thr st2 1) AND sig_bit 3 \<noteq> 0 \<and> si_list (sg_thr st2 1) = si_list (sg_thr st1 1))"
    using signal_wait_stale_timeout[OF ok _ _ al _ _ _ _ _ _ f, of 0 3 ex_write] ex_signals_kernel(2)[of "[1]" SiNull 0 8]
    by (auto simp: stat_of_def sig_valid_def sig_bit_def ex_signals_def[of "[1]"] simp del: One_nat_def)
  let ?k = "(sg_kernel st1)\<lparr>rt_current_thread := Some 1\<rparr>"
  obtain st2 where "rt_signal_wait_end ex_write 1 (sig_bit 3) (st1\<lparr>sg_kernel := ?k\<rparr>) =
      Some (Return (- 2, Some siginfo_zero), st2)"
    using s(2)[rule_format, of ?k] by auto
  moreover have "sig_bit 3 = 8" by (simp add: sig_bit_def)
  moreover have "th_error (thr (sg_kernel ?st) 1) = - 2" by simp
  ultimately show ?thesis using s(1) by metis
qed

end
