(* ===== verification/Ringblk.thy ===== *)
theory Ringblk
  imports Slist
begin

text \<open>
  The ring of blocks (\<open>components/drivers/src/ringblk_buf.c\<close>): blocks of various sizes are allocated one after the other
  in a buffer, filled (\<open>put\<close>), read (\<open>get\<close>) and freed. The descriptors of the blocks are an array, and those that are
  allocated form a singly linked list in the order of their allocation.

  Node 0 of the list store is the head \<open>blk_list\<close>, node \<open>i + 1\<close> the \<open>list\<close> field of descriptor \<open>i\<close>. Addresses are words.
\<close>

subsection \<open>Operations\<close>

datatype rt_rbb_status = RT_RBB_BLK_UNUSED | RT_RBB_BLK_INITED | RT_RBB_BLK_PUT | RT_RBB_BLK_GET

record rt_rbb_blk =
  blk_status :: rt_rbb_status
  blk_size :: u32
  blk_buf :: u32

record rt_rbb =
  rbb_buf :: u32
  rbb_buf_size :: u32
  rbb_blk_set :: u32              \<comment> \<open>the address of the array\<close>
  rbb_blks :: "rt_rbb_blk list"   \<comment> \<open>the array\<close>
  rbb_blk_max_num :: u32
  rbb_blk_list :: slist_store

record rt_rbb_blk_queue =
  bq_blocks :: nat                \<comment> \<open>the descriptor \<open>blocks\<close> points to\<close>
  bq_blk_num :: u32

definition rt_rbb_init :: "u32 \<Rightarrow> u32 \<Rightarrow> u32 \<Rightarrow> rt_rbb_blk list \<Rightarrow> u32 \<Rightarrow> slist_store \<Rightarrow> rt_rbb option" where
  "rt_rbb_init buf buf_size block_set blks blk_max_num nx =
     do { RT_ASSERT (buf \<noteq> 0);
          RT_ASSERT (block_set \<noteq> 0);
          RT_ASSERT (unat blk_max_num \<le> length blks);
          let blks = fold (\<lambda>i bs. bs[i := (bs ! i)\<lparr>blk_status := RT_RBB_BLK_UNUSED\<rparr>]) [0..<unat blk_max_num] blks;
          Some \<lparr>rbb_buf = buf, rbb_buf_size = buf_size, rbb_blk_set = block_set, rbb_blks = blks,
            rbb_blk_max_num = blk_max_num, rbb_blk_list = rt_slist_init 0 nx\<rparr> }"

text \<open>The addresses are those \<open>rt_malloc\<close> returns, 0 when it fails; the second result is what goes to \<open>rt_free\<close>.\<close>

definition rt_rbb_create ::
  "u32 \<Rightarrow> u32 \<Rightarrow> u32 \<Rightarrow> rt_rbb_blk list \<Rightarrow> slist_store \<Rightarrow> u32 \<Rightarrow> u32 \<Rightarrow> (rt_rbb option \<times> u32 list) option" where
  "rt_rbb_create rbb buf blk_set blks nx buf_size blk_max_num =
     (if rbb = 0 then Some (None, [])
      else if buf = 0 then Some (None, [rbb])
      else if blk_set = 0 then Some (None, [buf, rbb])
      else do { r \<leftarrow> rt_rbb_init buf buf_size blk_set blks blk_max_num nx;
                Some (Some r, []) })"

text \<open>The fields are read after the control block was freed: \<open>freed\<close> is what the memory holds then.\<close>

definition rt_rbb_destroy :: "u32 \<Rightarrow> rt_rbb \<Rightarrow> u32 list" where
  "rt_rbb_destroy rbb freed = [rbb, rbb_buf freed, rbb_blk_set freed]"

definition find_empty_blk_in_set :: "rt_rbb \<Rightarrow> nat option" where
  "find_empty_blk_in_set rbb =
     find (\<lambda>i. blk_status (rbb_blks rbb ! i) = RT_RBB_BLK_UNUSED) [0..<unat (rbb_blk_max_num rbb)]"

definition upd_blk :: "nat \<Rightarrow> (rt_rbb_blk \<Rightarrow> rt_rbb_blk) \<Rightarrow> rt_rbb \<Rightarrow> rt_rbb" where
  [simp]: "upd_blk i f rbb = rbb\<lparr>rbb_blks := (rbb_blks rbb)[i := f (rbb_blks rbb ! i)]\<rparr>"

definition rbb_append :: "nat \<Rightarrow> u32 \<Rightarrow> u32 \<Rightarrow> rt_rbb \<Rightarrow> (nat option \<times> rt_rbb) option" where
  "rbb_append new buf sz rbb =
     do { nx \<leftarrow> rt_slist_append 0 (new + 1) (rbb_blk_list rbb);
          let rbb = upd_blk new (\<lambda>b. b\<lparr>blk_status := RT_RBB_BLK_INITED, blk_buf := buf, blk_size := sz\<rparr>)
            (rbb\<lparr>rbb_blk_list := nx\<rparr>);
          Some (Some new, rbb) }"

definition rt_rbb_blk_alloc :: "u32 \<Rightarrow> rt_rbb \<Rightarrow> (nat option \<times> rt_rbb) option" where
  "rt_rbb_blk_alloc sz rbb =
     do { RT_ASSERT (sz < 0x1000000);
          len \<leftarrow> rt_slist_len 0 (rbb_blk_list rbb);
          case find_empty_blk_in_set rbb of
            None \<Rightarrow> Some (None, rbb)
          | Some new \<Rightarrow>
              if \<not> len < rbb_blk_max_num rbb then Some (None, rbb)
              else if len > 0
              then do { h \<leftarrow> rt_slist_first 0 (rbb_blk_list rbb);
                        t \<leftarrow> rt_slist_tail 0 (rbb_blk_list rbb);
                        let head = rbb_blks rbb ! (h - 1);
                        let tail = rbb_blks rbb ! (t - 1);
                        if blk_buf head \<le> blk_buf tail
                        then let empty1 = (rbb_buf rbb + rbb_buf_size rbb) - (blk_buf tail + blk_size tail);
                                 empty2 = blk_buf head - rbb_buf rbb
                             in if empty1 \<ge> sz then rbb_append new (blk_buf tail + blk_size tail) sz rbb
                                else if empty2 \<ge> sz then rbb_append new (rbb_buf rbb) sz rbb
                                else Some (None, rbb)
                        else let empty1 = blk_buf head - (blk_buf tail + blk_size tail)
                             in if empty1 \<ge> sz then rbb_append new (blk_buf tail + blk_size tail) sz rbb
                                else Some (None, rbb) }
              else rbb_append new (rbb_buf rbb) sz rbb }"

text \<open>A pointer to a descriptor is an index of the array.\<close>

definition rt_rbb_blk_put :: "nat \<Rightarrow> rt_rbb \<Rightarrow> rt_rbb option" where
  "rt_rbb_blk_put i rbb =
     do { RT_ASSERT (i < length (rbb_blks rbb));
          RT_ASSERT (blk_status (rbb_blks rbb ! i) = RT_RBB_BLK_INITED);
          Some (upd_blk i (\<lambda>b. b\<lparr>blk_status := RT_RBB_BLK_PUT\<rparr>) rbb) }"

partial_function (option) rbb_find_put :: "rt_rbb \<Rightarrow> nat option \<Rightarrow> nat option option" where
  "rbb_find_put rbb node =
     (case node of
        None \<Rightarrow> Some None
      | Some n \<Rightarrow> if blk_status (rbb_blks rbb ! (n - 1)) = RT_RBB_BLK_PUT then Some (Some (n - 1))
                  else rbb_find_put rbb (rt_slist_next n (rbb_blk_list rbb)))"

definition rt_rbb_blk_get :: "rt_rbb \<Rightarrow> (nat option \<times> rt_rbb) option" where
  "rt_rbb_blk_get rbb =
     (if rt_slist_isempty 0 (rbb_blk_list rbb) then Some (None, rbb)
      else do { block \<leftarrow> rbb_find_put rbb (rt_slist_first 0 (rbb_blk_list rbb));
                case block of
                  None \<Rightarrow> Some (None, rbb)
                | Some i \<Rightarrow> Some (Some i, upd_blk i (\<lambda>b. b\<lparr>blk_status := RT_RBB_BLK_GET\<rparr>) rbb) })"

definition rt_rbb_blk_size :: "nat \<Rightarrow> rt_rbb \<Rightarrow> u32" where
  "rt_rbb_blk_size i rbb = blk_size (rbb_blks rbb ! i)"

definition rt_rbb_blk_buf :: "nat \<Rightarrow> rt_rbb \<Rightarrow> u32" where
  "rt_rbb_blk_buf i rbb = blk_buf (rbb_blks rbb ! i)"

definition rt_rbb_blk_free :: "nat \<Rightarrow> rt_rbb \<Rightarrow> rt_rbb option" where
  "rt_rbb_blk_free i rbb =
     do { RT_ASSERT (i < length (rbb_blks rbb));
          RT_ASSERT (blk_status (rbb_blks rbb ! i) \<noteq> RT_RBB_BLK_UNUSED);
          nx \<leftarrow> rt_slist_remove 0 (i + 1) (rbb_blk_list rbb);
          Some (upd_blk i (\<lambda>b. b\<lparr>blk_status := RT_RBB_BLK_UNUSED\<rparr>) (rbb\<lparr>rbb_blk_list := nx\<rparr>)) }"

text \<open>Taking the block \<open>i\<close> into the queue: the end of the loop body of \<open>rt_rbb_blk_queue_get\<close>.\<close>

definition queue_take :: "nat \<Rightarrow> rt_rbb_blk_queue \<Rightarrow> rt_rbb \<Rightarrow> (rt_rbb_blk_queue \<times> rt_rbb) option" where
  "queue_take i q rbb =
     do { nx \<leftarrow> rt_slist_remove 0 (i + 1) (rbb_blk_list rbb);
          Some (q\<lparr>bq_blk_num := bq_blk_num q + 1\<rparr>,
                upd_blk i (\<lambda>b. b\<lparr>blk_status := RT_RBB_BLK_GET\<rparr>) (rbb\<lparr>rbb_blk_list := nx\<rparr>)) }"

partial_function (option) queue_get_loop ::
  "u32 \<Rightarrow> nat option \<Rightarrow> nat option \<Rightarrow> u32 \<Rightarrow> rt_rbb_blk_queue \<Rightarrow> rt_rbb \<Rightarrow> (u32 \<times> rt_rbb_blk_queue \<times> rt_rbb) option" where
  "queue_get_loop queue_data_len node last_block data_total q rbb =
     (case node of
        None \<Rightarrow> Some (data_total, q, rbb)
      | Some n \<Rightarrow>
          (let i = n - 1; block = rbb_blks rbb ! i
           in case last_block of
                None \<Rightarrow>
                  if blk_status block = RT_RBB_BLK_PUT
                  then do { (q, rbb) \<leftarrow> queue_take i (q\<lparr>bq_blocks := i, bq_blk_num := 0\<rparr>) rbb;
                            queue_get_loop queue_data_len (rt_slist_next n (rbb_blk_list rbb)) (Some i)
                              (data_total + blk_size block) q rbb }
                  else queue_get_loop queue_data_len (rt_slist_next n (rbb_blk_list rbb)) None data_total q rbb
              | Some lb \<Rightarrow>
                  if blk_status block \<noteq> RT_RBB_BLK_PUT \<or> blk_buf (rbb_blks rbb ! lb) > blk_buf block \<or>
                     data_total + blk_size block > queue_data_len
                  then Some (data_total, q, rbb)
                  else do { (q, rbb) \<leftarrow> queue_take i q rbb;
                            queue_get_loop queue_data_len (rt_slist_next n (rbb_blk_list rbb)) (Some i)
                              (data_total + blk_size block) q rbb }))"

definition rt_rbb_blk_queue_get ::
  "u32 \<Rightarrow> rt_rbb_blk_queue \<Rightarrow> rt_rbb \<Rightarrow> (u32 \<times> rt_rbb_blk_queue \<times> rt_rbb) option" where
  "rt_rbb_blk_queue_get queue_data_len q rbb =
     (if rt_slist_isempty 0 (rbb_blk_list rbb) then Some (0, q, rbb)
      else queue_get_loop queue_data_len (rt_slist_first 0 (rbb_blk_list rbb)) None 0 q rbb)"

text \<open>\<open>blk_queue->blocks[i]\<close> counts on in the array of descriptors.\<close>

definition bq_block :: "rt_rbb_blk_queue \<Rightarrow> nat \<Rightarrow> rt_rbb \<Rightarrow> nat option" where
  "bq_block q i rbb = (if bq_blocks q + i < length (rbb_blks rbb) then Some (bq_blocks q + i) else None)"

fun queue_len_loop :: "rt_rbb_blk_queue \<Rightarrow> nat list \<Rightarrow> u32 \<Rightarrow> rt_rbb \<Rightarrow> u32 option" where
  "queue_len_loop q [] data_total rbb = Some data_total"
| "queue_len_loop q (i # is) data_total rbb =
     do { b \<leftarrow> bq_block q i rbb; queue_len_loop q is (data_total + blk_size (rbb_blks rbb ! b)) rbb }"

definition rt_rbb_blk_queue_len :: "rt_rbb_blk_queue \<Rightarrow> rt_rbb \<Rightarrow> u32 option" where
  "rt_rbb_blk_queue_len q rbb = queue_len_loop q [0..<unat (bq_blk_num q)] 0 rbb"

definition rt_rbb_blk_queue_buf :: "rt_rbb_blk_queue \<Rightarrow> rt_rbb \<Rightarrow> u32 option" where
  "rt_rbb_blk_queue_buf q rbb = do { b \<leftarrow> bq_block q 0 rbb; Some (blk_buf (rbb_blks rbb ! b)) }"

fun queue_free_loop :: "rt_rbb_blk_queue \<Rightarrow> nat list \<Rightarrow> rt_rbb \<Rightarrow> rt_rbb option" where
  "queue_free_loop q [] rbb = Some rbb"
| "queue_free_loop q (i # is) rbb =
     do { b \<leftarrow> bq_block q i rbb; rbb \<leftarrow> rt_rbb_blk_free b rbb; queue_free_loop q is rbb }"

definition rt_rbb_blk_queue_free :: "rt_rbb_blk_queue \<Rightarrow> rt_rbb \<Rightarrow> rt_rbb option" where
  "rt_rbb_blk_queue_free q rbb = queue_free_loop q [0..<unat (bq_blk_num q)] rbb"

partial_function (option) next_len_loop :: "rt_rbb \<Rightarrow> nat option \<Rightarrow> nat option \<Rightarrow> u32 \<Rightarrow> u32 option" where
  "next_len_loop rbb node last_block data_len =
     (case node of
        None \<Rightarrow> Some data_len
      | Some n \<Rightarrow>
          (let block = rbb_blks rbb ! (n - 1); next = rt_slist_next n (rbb_blk_list rbb)
           in case last_block of
                None \<Rightarrow>
                  if blk_status block \<noteq> RT_RBB_BLK_PUT then next_len_loop rbb next None data_len
                  else next_len_loop rbb next (Some (n - 1)) (data_len + blk_size block)
              | Some lb \<Rightarrow>
                  if blk_status block \<noteq> RT_RBB_BLK_PUT \<or> blk_buf (rbb_blks rbb ! lb) > blk_buf block
                  then Some data_len
                  else next_len_loop rbb next (Some (n - 1)) (data_len + blk_size block)))"

definition rt_rbb_next_blk_queue_len :: "rt_rbb \<Rightarrow> u32 option" where
  "rt_rbb_next_blk_queue_len rbb =
     (if rt_slist_isempty 0 (rbb_blk_list rbb) then Some 0
      else next_len_loop rbb (rt_slist_first 0 (rbb_blk_list rbb)) None 0)"

definition rt_rbb_get_buf_size :: "rt_rbb \<Rightarrow> u32" where
  "rt_rbb_get_buf_size rbb = rbb_buf_size rbb"

subsection \<open>The blocks in the buffer\<close>

definition b_start :: "rt_rbb_blk list \<Rightarrow> nat \<Rightarrow> nat" where
  "b_start bl i = unat (blk_buf (bl ! i))"

definition b_end :: "rt_rbb_blk list \<Rightarrow> nat \<Rightarrow> nat" where
  "b_end bl i = b_start bl i + unat (blk_size (bl ! i))"

text \<open>Blocks that lie one behind the other.\<close>

definition ascending :: "rt_rbb_blk list \<Rightarrow> nat list \<Rightarrow> bool" where
  "ascending bl is \<longleftrightarrow> sorted_wrt (\<lambda>i j. b_end bl i \<le> b_start bl j) is"

text \<open>The list is one ascending run, or two of which the second lies in front of the first.\<close>

definition arranged :: "rt_rbb_blk list \<Rightarrow> nat list \<Rightarrow> nat list \<Rightarrow> bool" where
  "arranged bl us vs \<longleftrightarrow> ascending bl us \<and> ascending bl vs \<and>
     (\<forall>a \<in> set us. \<forall>b \<in> set vs. b_end bl b \<le> b_start bl a) \<and> (vs \<noteq> [] \<longrightarrow> us \<noteq> [])"

definition in_buffer :: "rt_rbb \<Rightarrow> nat \<Rightarrow> bool" where
  "in_buffer r i \<longleftrightarrow> unat (rbb_buf r) \<le> b_start (rbb_blks r) i \<and>
     b_end (rbb_blks r) i \<le> unat (rbb_buf r) + unat (rbb_buf_size r) \<and> 0 < blk_size (rbb_blks r ! i)"

definition rbb_inv :: "rt_rbb \<Rightarrow> nat list \<Rightarrow> bool" where
  "rbb_inv r is \<longleftrightarrow> slist (rbb_blk_list r) (rbb_blk_list r 0) (map Suc is) \<and>
     length (rbb_blks r) = unat (rbb_blk_max_num r) \<and> set is \<subseteq> {..<unat (rbb_blk_max_num r)} \<and>
     (\<forall>i < length (rbb_blks r). i \<in> set is \<longleftrightarrow> blk_status (rbb_blks r ! i) \<noteq> RT_RBB_BLK_UNUSED) \<and>
     unat (rbb_buf r) + unat (rbb_buf_size r) < 2 ^ 32 \<and> list_all (in_buffer r) is \<and>
     (\<exists>us vs. is = us @ vs \<and> arranged (rbb_blks r) us vs)"

lemma rbb_inv_distinct: "rbb_inv r is \<Longrightarrow> distinct is"
  using slist_distinct[of "rbb_blk_list r" _ "map Suc is"] by (auto simp: rbb_inv_def distinct_map)

lemma b_other [simp]: "i \<noteq> j \<Longrightarrow> b_start (bl[j := x]) i = b_start bl i" "i \<noteq> j \<Longrightarrow> b_end (bl[j := x]) i = b_end bl i"
  by (simp_all add: b_start_def b_end_def)

lemma b_status [simp]:
  "b_start (bl[j := (bl ! j)\<lparr>blk_status := s\<rparr>]) i = b_start bl i"
  "b_end (bl[j := (bl ! j)\<lparr>blk_status := s\<rparr>]) i = b_end bl i"
proof -
  have "blk_buf (bl[j := (bl ! j)\<lparr>blk_status := s\<rparr>] ! i) = blk_buf (bl ! i)"
    "blk_size (bl[j := (bl ! j)\<lparr>blk_status := s\<rparr>] ! i) = blk_size (bl ! i)"
    by (cases "i = j"; cases "j < length bl"; force simp: nth_list_update list_update_beyond)+
  then show "b_start (bl[j := (bl ! j)\<lparr>blk_status := s\<rparr>]) i = b_start bl i"
    "b_end (bl[j := (bl ! j)\<lparr>blk_status := s\<rparr>]) i = b_end bl i"
    by (simp_all add: b_start_def b_end_def)
qed

lemma ascending_cong:
  "(\<And>i. i \<in> set is \<Longrightarrow> b_start bl i = b_start bl' i \<and> b_end bl i = b_end bl' i) \<Longrightarrow> ascending bl is = ascending bl' is"
  unfolding ascending_def by (induction "is") auto

lemma arranged_cong:
  assumes "\<And>i. i \<in> set (us @ vs) \<Longrightarrow> b_start bl i = b_start bl' i \<and> b_end bl i = b_end bl' i"
  shows "arranged bl us vs = arranged bl' us vs"
  using assms ascending_cong[of us bl bl'] ascending_cong[of vs bl bl'] by (auto simp: arranged_def)

lemma ascending_remove: "ascending bl is \<Longrightarrow> ascending bl (remove1 i is)"
  unfolding ascending_def by (induction "is") (auto simp: notin_set_remove1)

text \<open>Freeing a block, from either run.\<close>

lemma arranged_remove:
  assumes "arranged bl us vs" "distinct (us @ vs)"
  shows "\<exists>us' vs'. remove1 i (us @ vs) = us' @ vs' \<and> arranged bl us' vs'"
proof (cases "remove1 i us = [] \<and> vs \<noteq> []")
  case True
  then have "us \<noteq> []" using assms(1) by (auto simp: arranged_def)
  then have "i \<in> set us" using True remove1_idem[of i us] by auto
  then have "remove1 i (us @ vs) = vs @ []" using True by (simp add: remove1_append)
  moreover have "arranged bl vs []" using assms(1) by (simp add: arranged_def ascending_def)
  ultimately show ?thesis by blast
next
  case False
  have "remove1 i (us @ vs) = (if i \<in> set us then remove1 i us @ vs else us @ remove1 i vs)"
    by (simp add: remove1_append)
  moreover have "arranged bl (remove1 i us) vs" "arranged bl us (remove1 i vs)"
    using assms(1) False ascending_remove[of bl us i] ascending_remove[of bl vs i]
      subsetD[OF set_remove1_subset[of i us]] subsetD[OF set_remove1_subset[of i vs]]
    by (auto simp: arranged_def simp del: set_remove1_eq)
  ultimately show ?thesis by (metis (full_types))
qed

text \<open>The test of the allocation: the list has one run just when its head does not lie behind its tail.\<close>

lemma arranged_head:
  assumes "arranged bl us vs" "us @ vs = h # rest" "0 < blk_size (bl ! last (h # rest))"
  shows "blk_buf (bl ! h) \<le> blk_buf (bl ! last (h # rest)) \<longleftrightarrow> vs = []"
proof (cases "vs = []")
  case True
  then have "ascending bl (h # rest)" using assms(1,2) by (simp add: arranged_def)
  then have "rest \<noteq> [] \<Longrightarrow> b_end bl h \<le> b_start bl (last rest)" by (auto simp: ascending_def)
  then have "unat (blk_buf (bl ! h)) \<le> unat (blk_buf (bl ! last (h # rest)))" by (auto simp: b_end_def b_start_def)
  then show ?thesis using True by (simp add: word_le_nat_alt)
next
  case False
  then have "us \<noteq> []" using assms(1) by (simp add: arranged_def)
  then obtain us' where us: "us = h # us'" using assms(2) by (cases us) auto
  have "last (h # rest) = last vs" using assms(2)[symmetric] False by simp
  moreover have "b_end bl (last vs) \<le> b_start bl h" using assms(1) False us by (auto simp: arranged_def)
  ultimately have "unat (blk_buf (bl ! last (h # rest))) < unat (blk_buf (bl ! h))"
    using assms(3) by (simp add: b_end_def b_start_def word_less_nat_alt)
  then show ?thesis using False by (simp add: word_le_nat_alt)
qed

text \<open>Any two allocated blocks are apart.\<close>

lemma arranged_apart:
  assumes "arranged bl us vs" "i \<in> set (us @ vs)" "j \<in> set (us @ vs)" "i \<noteq> j"
  shows "b_end bl i \<le> b_start bl j \<or> b_end bl j \<le> b_start bl i"
proof -
  have run: "b_end bl x \<le> b_start bl y \<or> b_end bl y \<le> b_start bl x"
    if "ascending bl xs" "x \<in> set xs" "y \<in> set xs" "x \<noteq> y" for xs x y
    using that unfolding ascending_def by (induction xs) auto
  show ?thesis using assms run[of us i j] run[of vs i j] by (auto simp: arranged_def)
qed

text \<open>Appending a block that was not allocated.\<close>

lemma rbb_append_ok:
  assumes inv: "rbb_inv r is" and new: "new < length (rbb_blks r)" "new \<notin> set is"
    and us: "is = us @ vs"
    and pos: "arranged ((rbb_blks r)[new := (rbb_blks r ! new)\<lparr>blk_status := RT_RBB_BLK_INITED, blk_buf := buf, blk_size := sz\<rparr>])
        us' vs'" "us' @ vs' = is @ [new]"
    and buf: "unat (rbb_buf r) \<le> unat buf" "unat buf + unat sz \<le> unat (rbb_buf r) + unat (rbb_buf_size r)" "0 < sz"
  shows "\<exists>r'. rbb_append new buf sz r = Some (Some new, r') \<and> rbb_inv r' (is @ [new])"
proof -
  let ?bl = "(rbb_blks r)[new := (rbb_blks r ! new)\<lparr>blk_status := RT_RBB_BLK_INITED, blk_buf := buf, blk_size := sz\<rparr>]"
  have s: "slist (rbb_blk_list r) (rbb_blk_list r 0) (map Suc is)" "distinct (0 # map Suc is)"
    "Suc new \<notin> set (0 # map Suc is)"
    using inv rbb_inv_distinct[OF inv] new(2) by (auto simp: rbb_inv_def distinct_map)
  obtain nx where nx: "rt_slist_append 0 (Suc new) (rbb_blk_list r) = Some nx" "slist nx (nx 0) (map Suc is @ [Suc new])"
    using append_ok[OF s(1,3,2)] by blast
  let ?r = "r\<lparr>rbb_blks := ?bl, rbb_blk_list := nx\<rparr>"
  have "in_buffer ?r i" if "i \<in> set is" for i
    using that inv new(2) by (cases "i = new") (auto simp: rbb_inv_def in_buffer_def list_all_iff)
  moreover have "in_buffer ?r new" using buf new(1) by (simp add: in_buffer_def b_start_def b_end_def)
  ultimately have "list_all (in_buffer ?r) (is @ [new])" by (simp add: list_all_iff)
  moreover have "rbb_append new buf sz r = Some (Some new, ?r)" using nx(1) by (simp add: rbb_append_def)
  moreover have "\<exists>us vs. is @ [new] = us @ vs \<and> arranged ?bl us vs" using pos by metis
  ultimately show ?thesis using inv new nx(2)
    by (intro exI[of _ ?r]) (auto simp: rbb_inv_def nth_list_update)
qed

lemma ascending_append:
  assumes "ascending bl us" "us = [] \<or> b_end bl (last us) \<le> b_start bl n"
  shows "ascending bl (us @ [n])"
proof -
  have "b_end bl x \<le> b_end bl (last us)" if "x \<in> set us" for x
    using assms(1) that unfolding ascending_def
    by (induction us) (auto simp: b_end_def intro: order_trans le_add1 split: if_splits dest: last_in_set)
  then have "b_end bl x \<le> b_start bl n" if "x \<in> set us" for x
    using assms(2) that by force
  then show ?thesis using assms(1) by (auto simp: ascending_def sorted_wrt_append)
qed

lemma ascending_start: "ascending bl (h # us) \<Longrightarrow> x \<in> set (h # us) \<Longrightarrow> b_start bl h \<le> b_start bl x"
  by (auto simp: ascending_def b_end_def)

text \<open>The three places a block may get: behind the last one, at the front of the buffer, or in front of the head.\<close>

lemma arranged_new:
  assumes a: "arranged bl us vs" and n: "n \<notin> set (us @ vs)" and h: "us = h # us0"
    and bl': "bl' = bl[n := x]"
  shows "vs = [] \<Longrightarrow> b_end bl (last us) \<le> b_start bl' n \<Longrightarrow> arranged bl' (us @ [n]) []"
    "vs = [] \<Longrightarrow> b_end bl' n \<le> b_start bl h \<Longrightarrow> arranged bl' us [n]"
    "vs \<noteq> [] \<Longrightarrow> b_end bl (last vs) \<le> b_start bl' n \<Longrightarrow> b_end bl' n \<le> b_start bl h \<Longrightarrow> arranged bl' us (vs @ [n])"
proof -
  have o: "b_start bl' i = b_start bl i \<and> b_end bl' i = b_end bl i" if "i \<in> set us \<union> set vs" for i
    using that n by (cases "i = n") (auto simp: bl')
  have asc: "ascending bl' us" "ascending bl' vs"
    using a o ascending_cong[of us bl' bl] ascending_cong[of vs bl' bl] by (auto simp: arranged_def)
  have st: "b_start bl' h \<le> b_start bl' x" if "x \<in> set us" for x using ascending_start[of bl' h us0] asc(1) h that by auto
  have l: "last us \<in> set us" using h by simp
  show "arranged bl' (us @ [n]) []" if "vs = []" "b_end bl (last us) \<le> b_start bl' n"
    using that asc(1) ascending_append[of bl' us n] o l by (simp add: arranged_def ascending_def)
  show "arranged bl' us [n]" if "vs = []" "b_end bl' n \<le> b_start bl h"
    using that asc(1) o[of h] st h by (force simp: arranged_def ascending_def)
  show "arranged bl' us (vs @ [n])"
    if v: "vs \<noteq> []" "b_end bl (last vs) \<le> b_start bl' n" "b_end bl' n \<le> b_start bl h"
  proof -
    have "ascending bl' (vs @ [n])" using ascending_append[of bl' vs n] asc(2) v o by simp
    moreover have "b_end bl' b \<le> b_start bl' c" if "c \<in> set us" "b \<in> set (vs @ [n])" for b c
      using that a o v(3) st[OF that(1)] h by (cases "b = n") (force simp: arranged_def)+
    ultimately show ?thesis using asc(1) h by (simp add: arranged_def)
  qed
qed

text \<open>What the allocation reads.\<close>

lemma rbb_list_facts:
  assumes "rbb_inv r is"
  shows "rt_slist_len 0 (rbb_blk_list r) = Some (of_nat (length is))" "unat (of_nat (length is) :: u32) = length is"
    "is = h # rest \<Longrightarrow> rt_slist_first 0 (rbb_blk_list r) = Some (Suc h)"
    "is = h # rest \<Longrightarrow> rt_slist_tail 0 (rbb_blk_list r) = Some (Suc (last is))"
    "find_empty_blk_in_set r = Some n \<Longrightarrow> n < length (rbb_blks r) \<and> n \<notin> set is"
proof -
  have s: "slist (rbb_blk_list r) (rbb_blk_list r 0) (map Suc is)" using assms by (simp add: rbb_inv_def)
  show "rt_slist_len 0 (rbb_blk_list r) = Some (of_nat (length is))"
    using slist_len_loop_ok[OF s, of 0] by (simp add: rt_slist_len_def)
  have "set is \<subseteq> {..<length (rbb_blks r)}" using assms by (auto simp: rbb_inv_def)
  from card_mono[OF _ this] have "length is \<le> length (rbb_blks r)"
    using distinct_card[OF rbb_inv_distinct[OF assms]] by simp
  also have "\<dots> < 2 ^ 32" using assms unsigned_less[of "rbb_blk_max_num r", where 'a = nat] by (simp add: rbb_inv_def)
  finally show "unat (of_nat (length is) :: u32) = length is" by (simp add: unat_of_nat)
  show "rt_slist_first 0 (rbb_blk_list r) = Some (Suc h)" if "is = h # rest"
    using s that by (simp add: rt_slist_first_def)
  show "rt_slist_tail 0 (rbb_blk_list r) = Some (Suc (last is))" if "is = h # rest"
    using slist_last_ok[OF s] that by (simp add: rt_slist_tail_def last_map)
  show "n < length (rbb_blks r) \<and> n \<notin> set is" if "find_empty_blk_in_set r = Some n"
    using that assms by (auto simp: find_empty_blk_in_set_def find_Some_iff rbb_inv_def)
qed

lemma rbb_append_at:
  assumes inv: "rbb_inv r (us @ vs)" and a: "arranged (rbb_blks r) us vs" and us: "us = h # us0"
    and n: "n < length (rbb_blks r)" "n \<notin> set (us @ vs)" and sz: "0 < sz"
    and place: "vs = [] \<and> b_end (rbb_blks r) (last us) \<le> unat buf \<and>
        unat buf + unat sz \<le> unat (rbb_buf r) + unat (rbb_buf_size r) \<or>
      vs = [] \<and> buf = rbb_buf r \<and> unat buf + unat sz \<le> b_start (rbb_blks r) h \<or>
      vs \<noteq> [] \<and> b_end (rbb_blks r) (last vs) \<le> unat buf \<and> unat buf + unat sz \<le> b_start (rbb_blks r) h"
  shows "\<exists>r'. rbb_append n buf sz r = Some (Some n, r') \<and> rbb_inv r' (us @ vs @ [n])"
proof -
  let ?b = "(rbb_blks r ! n)\<lparr>blk_status := RT_RBB_BLK_INITED, blk_buf := buf, blk_size := sz\<rparr>"
  let ?bl = "(rbb_blks r)[n := ?b]"
  have nb: "b_start ?bl n = unat buf" "b_end ?bl n = unat buf + unat sz"
    using n(1) by (simp_all add: b_start_def b_end_def)
  note arr = arranged_new[OF a n(2) us refl, of ?b, unfolded nb]
  have i: "in_buffer r x" if "x \<in> set (us @ vs)" for x using inv that by (auto simp: rbb_inv_def list_all_iff)
  have hb: "b_start (rbb_blks r) h \<le> unat (rbb_buf r) + unat (rbb_buf_size r)"
    using i[of h] us by (auto simp: in_buffer_def b_end_def)
  have lo: "unat (rbb_buf r) \<le> b_end (rbb_blks r) (last us)" "vs \<noteq> [] \<Longrightarrow> unat (rbb_buf r) \<le> b_end (rbb_blks r) (last vs)"
    using i[of "last us"] i[of "last vs"] us by (auto simp: in_buffer_def b_end_def intro: order_trans)
  obtain us' vs' where p: "arranged ?bl us' vs'" "us' @ vs' = (us @ vs) @ [n]"
    using place arr by (metis append.assoc append_Nil2)
  have "unat (rbb_buf r) \<le> unat buf" "unat buf + unat sz \<le> unat (rbb_buf r) + unat (rbb_buf_size r)"
    using place lo hb by auto
  then show ?thesis using rbb_append_ok[OF inv n refl p _ _ sz] by simp
qed

text \<open>The space that is free behind the last block, in front of the first one, and between the two.\<close>

lemma rbb_measures:
  assumes inv: "rbb_inv r (us @ vs)" and a: "arranged (rbb_blks r) us vs" and us: "us = h # us0"
  defines "hb \<equiv> rbb_blks r ! h" and "tb \<equiv> rbb_blks r ! last (us @ vs)"
  shows "blk_buf hb \<le> blk_buf tb \<longleftrightarrow> vs = []"
    "unat (blk_buf tb + blk_size tb) = b_end (rbb_blks r) (last (us @ vs))"
    "unat ((rbb_buf r + rbb_buf_size r) - (blk_buf tb + blk_size tb)) =
      unat (rbb_buf r) + unat (rbb_buf_size r) - b_end (rbb_blks r) (last (us @ vs))"
    "unat (blk_buf hb - rbb_buf r) = b_start (rbb_blks r) h - unat (rbb_buf r)"
    "vs \<noteq> [] \<Longrightarrow> unat (blk_buf hb - (blk_buf tb + blk_size tb)) =
      b_start (rbb_blks r) h - b_end (rbb_blks r) (last (us @ vs))"
    "b_end (rbb_blks r) (last (us @ vs)) \<le> unat (rbb_buf r) + unat (rbb_buf_size r)"
    "unat (rbb_buf r) \<le> b_start (rbb_blks r) h"
    "vs \<noteq> [] \<Longrightarrow> b_end (rbb_blks r) (last vs) \<le> b_start (rbb_blks r) h"
proof -
  have c: "us @ vs = h # us0 @ vs" using us by simp
  have i: "in_buffer r x" if "x \<in> set (us @ vs)" for x using inv that by (auto simp: rbb_inv_def list_all_iff)
  have it: "in_buffer r (last (us @ vs))" "in_buffer r h" using i[OF last_in_set] i[of h] us by simp_all
  have bnd: "unat (rbb_buf r) + unat (rbb_buf_size r) < 2 ^ 32" using inv by (simp add: rbb_inv_def)
  show "blk_buf hb \<le> blk_buf tb \<longleftrightarrow> vs = []"
    using arranged_head[OF a c, folded c] it(1) by (simp add: in_buffer_def hb_def tb_def)
  show te: "unat (blk_buf tb + blk_size tb) = b_end (rbb_blks r) (last (us @ vs))"
    using it(1) bnd by (simp add: in_buffer_def b_end_def b_start_def unat_word_ariths tb_def)
  show "unat ((rbb_buf r + rbb_buf_size r) - (blk_buf tb + blk_size tb)) =
      unat (rbb_buf r) + unat (rbb_buf_size r) - b_end (rbb_blks r) (last (us @ vs))"
    using it(1) bnd te by (subst unat_sub) (simp_all add: in_buffer_def word_le_nat_alt unat_word_ariths)
  show "unat (blk_buf hb - rbb_buf r) = b_start (rbb_blks r) h - unat (rbb_buf r)"
    using it(2) by (subst unat_sub) (simp_all add: in_buffer_def word_le_nat_alt b_start_def hb_def)
  show le: "b_end (rbb_blks r) (last vs) \<le> b_start (rbb_blks r) h" if "vs \<noteq> []"
    using a that us by (auto simp: arranged_def)
  show "unat (blk_buf hb - (blk_buf tb + blk_size tb)) = b_start (rbb_blks r) h - b_end (rbb_blks r) (last (us @ vs))"
    if "vs \<noteq> []"
    using le[OF that] that te by (subst unat_sub) (simp_all add: word_le_nat_alt b_start_def hb_def)
  show "b_end (rbb_blks r) (last (us @ vs)) \<le> unat (rbb_buf r) + unat (rbb_buf_size r)"
    "unat (rbb_buf r) \<le> b_start (rbb_blks r) h"
    using it by (simp_all add: in_buffer_def)
qed

lemma rbb_alloc_behind:
  assumes inv: "rbb_inv r is" and a: "arranged (rbb_blks r) us vs" and uv: "is = us @ vs" and us: "us = h # us0"
    and n: "find_empty_blk_in_set r = Some n" and len: "of_nat (length is) < rbb_blk_max_num r"
    and sz: "0 < sz" "sz < 0x1000000"
  shows "\<exists>b r'. rt_rbb_blk_alloc sz r = Some (b, r') \<and>
    (case b of None \<Rightarrow> r' = r | Some n \<Rightarrow> n \<notin> set is \<and> rbb_inv r' (is @ [n]))"
proof -
  have c: "is = h # us0 @ vs" using uv us by simp
  note f = rbb_list_facts(1,2)[OF inv] rbb_list_facts(3,4)[OF inv c] rbb_list_facts(5)[OF inv n]
  note m = rbb_measures[OF inv[unfolded uv] a us, folded uv]
  have l0: "(of_nat (length is) :: u32) \<noteq> 0" using f(2) c by (metis list.size(3) unat_0 length_0_conv list.distinct(1))
  let ?t = "rbb_blks r ! last is" and ?te = "b_end (rbb_blks r) (last is)"
  let ?at = "\<lambda>buf. \<exists>r'. rbb_append n buf sz r = Some (Some n, r') \<and> rbb_inv r' (is @ [n])"
  have ap: "?at buf" if "vs = [] \<and> b_end (rbb_blks r) (last us) \<le> unat buf \<and>
        unat buf + unat sz \<le> unat (rbb_buf r) + unat (rbb_buf_size r) \<or>
      vs = [] \<and> buf = rbb_buf r \<and> unat buf + unat sz \<le> b_start (rbb_blks r) h \<or>
      vs \<noteq> [] \<and> b_end (rbb_blks r) (last vs) \<le> unat buf \<and> unat buf + unat sz \<le> b_start (rbb_blks r) h" for buf
    using rbb_append_at[OF inv[unfolded uv] a us conjunct1[OF f(5)] _ sz(1) that] f(5) unfolding uv by simp
  have e: "rt_rbb_blk_alloc sz r = (if vs = []
      then if unat sz \<le> unat (rbb_buf r) + unat (rbb_buf_size r) - ?te
           then rbb_append n (blk_buf ?t + blk_size ?t) sz r
           else if unat sz \<le> b_start (rbb_blks r) h - unat (rbb_buf r) then rbb_append n (rbb_buf r) sz r
           else Some (None, r)
      else if unat sz \<le> b_start (rbb_blks r) h - ?te
           then rbb_append n (blk_buf ?t + blk_size ?t) sz r else Some (None, r))"
    using n f(1,3,4) sz(2) len l0 m(1) m(3,4,5)[unfolded atomize_eq]
    by (simp add: rt_rbb_blk_alloc_def Let_def word_le_nat_alt word_gt_0 del: of_nat_eq_0_iff)
  have 1: "?at (blk_buf ?t + blk_size ?t)" if "vs = []" "unat sz \<le> unat (rbb_buf r) + unat (rbb_buf_size r) - ?te"
    by (rule ap, rule disjI1) (use that m(2,6) uv in simp)
  have 2: "?at (rbb_buf r)" if "vs = []" "unat sz \<le> b_start (rbb_blks r) h - unat (rbb_buf r)"
    by (rule ap, rule disjI2, rule disjI1) (use that m(7) in simp)
  have 3: "?at (blk_buf ?t + blk_size ?t)" if "vs \<noteq> []" "unat sz \<le> b_start (rbb_blks r) h - ?te"
    by (rule ap, rule disjI2, rule disjI2) (use that m(2,8) uv in simp)
  define Q where "Q X \<longleftrightarrow> X = Some (None, r) \<or> (\<exists>r'. X = Some (Some n, r') \<and> rbb_inv r' (is @ [n]))" for X
  have q: "Q (Some (None, r))" "?at buf \<Longrightarrow> Q (rbb_append n buf sz r)" for buf unfolding Q_def by blast+
  have "Q (rt_rbb_blk_alloc sz r)" unfolding e if_split[of Q] using q(2)[OF 1] q(2)[OF 2] q(2)[OF 3] q(1) by blast
  then show ?thesis using f(5) by (auto simp: Q_def)
qed

text \<open>An allocation returns, with a new block at the end of the list or with nothing changed.\<close>

lemma rbb_alloc_ok:
  assumes inv: "rbb_inv r is" and sz: "0 < sz" "sz < 0x1000000" "sz \<le> rbb_buf_size r"
  shows "\<exists>b r'. rt_rbb_blk_alloc sz r = Some (b, r') \<and>
    (case b of None \<Rightarrow> r' = r | Some n \<Rightarrow> n \<notin> set is \<and> rbb_inv r' (is @ [n]))"
proof (cases "\<exists>n. find_empty_blk_in_set r = Some n \<and> of_nat (length is) < rbb_blk_max_num r")
  case False
  then show ?thesis using rbb_list_facts(1)[OF inv] sz(2)
    by (cases "find_empty_blk_in_set r") (simp_all add: rt_rbb_blk_alloc_def)
next
  case True
  then obtain n where n: "find_empty_blk_in_set r = Some n" "of_nat (length is) < rbb_blk_max_num r" by blast
  note f = rbb_list_facts(1,5)[OF inv]
  obtain us vs where uv: "is = us @ vs" "arranged (rbb_blks r) us vs" using inv by (auto simp: rbb_inv_def)
  show ?thesis
  proof (cases us)
    case Nil
    then have e: "is = []" using uv by (auto simp: arranged_def)
    have "\<exists>r'. rbb_append n (rbb_buf r) sz r = Some (Some n, r') \<and> rbb_inv r' (is @ [n])"
      by (rule rbb_append_ok[OF inv, where us = "[]" and vs = "[]" and us' = "[n]" and vs' = "[]"])
        (use f(2)[OF n(1)] sz e in \<open>simp_all add: arranged_def ascending_def word_le_nat_alt\<close>)
    then show ?thesis using n f(1) f(2)[OF n(1)] sz(2) e by (auto simp: rt_rbb_blk_alloc_def)
  next
    case (Cons h us0)
    show ?thesis by (rule rbb_alloc_behind[OF inv uv(2,1) Cons n sz(1,2)])
  qed
qed

text \<open>The other operations.\<close>

lemma rbb_status_ok:
  assumes inv: "rbb_inv r is" and s: "s \<noteq> RT_RBB_BLK_UNUSED" "i \<in> set is"
  shows "rbb_inv (upd_blk i (\<lambda>b. b\<lparr>blk_status := s\<rparr>) r) is"
proof -
  let ?bl = "(rbb_blks r)[i := (rbb_blks r ! i)\<lparr>blk_status := s\<rparr>]"
  have "blk_size (?bl ! x) = blk_size (rbb_blks r ! x)" for x
    by (cases "i = x"; cases "i < length (rbb_blks r)"; force simp: nth_list_update list_update_beyond)
  then have "in_buffer (upd_blk i (\<lambda>b. b\<lparr>blk_status := s\<rparr>) r) = in_buffer r"
    by (simp add: fun_eq_iff in_buffer_def)
  moreover have "arranged ?bl us vs = arranged (rbb_blks r) us vs" for us vs by (rule arranged_cong) simp
  moreover have "blk_status (?bl ! x) \<noteq> RT_RBB_BLK_UNUSED \<longleftrightarrow> blk_status (rbb_blks r ! x) \<noteq> RT_RBB_BLK_UNUSED"
    if "x < length (rbb_blks r)" for x
    using that s inv by (cases "i = x") (auto simp: rbb_inv_def)
  ultimately show ?thesis using inv by (simp add: rbb_inv_def)
qed

lemma rbb_free_ok:
  assumes inv: "rbb_inv r is" and i: "i \<in> set is"
  shows "\<exists>r'. rt_rbb_blk_free i r = Some r' \<and> rbb_inv r' (remove1 i is)"
proof -
  let ?bl = "(rbb_blks r)[i := (rbb_blks r ! i)\<lparr>blk_status := RT_RBB_BLK_UNUSED\<rparr>]"
  have s: "slist (rbb_blk_list r) (rbb_blk_list r 0) (map Suc is)" "distinct (0 # map Suc is)" "distinct is"
    using inv rbb_inv_distinct[OF inv] by (auto simp: rbb_inv_def distinct_map)
  have il: "i < length (rbb_blks r)" "blk_status (rbb_blks r ! i) \<noteq> RT_RBB_BLK_UNUSED"
    using inv i by (auto simp: rbb_inv_def)
  obtain nx where nx: "rt_slist_remove 0 (Suc i) (rbb_blk_list r) = Some nx" "slist nx (nx 0) (remove1 (Suc i) (map Suc is))"
    using remove_ok[OF s(1,2)] by blast
  have m: "remove1 (Suc i) (map Suc is) = map Suc (remove1 i is)" by (induction "is") auto
  let ?r = "r\<lparr>rbb_blks := ?bl, rbb_blk_list := nx\<rparr>"
  obtain us vs where uv: "is = us @ vs" "arranged (rbb_blks r) us vs" using inv by (auto simp: rbb_inv_def)
  have "\<exists>us' vs'. remove1 i is = us' @ vs' \<and> arranged ?bl us' vs'"
    using arranged_remove[OF uv(2)] s(3) uv(1) arranged_cong[where bl = ?bl and bl' = "rbb_blks r"] by auto
  moreover have "in_buffer ?r x" if "x \<in> set (remove1 i is)" for x
    using that inv s(3) by (auto simp: rbb_inv_def list_all_iff in_buffer_def)
  then have "list_all (in_buffer ?r) (remove1 i is)" by (simp add: list_all_iff)
  moreover have "x \<in> set (remove1 i is) \<longleftrightarrow> blk_status (?bl ! x) \<noteq> RT_RBB_BLK_UNUSED" if "x < length (rbb_blks r)" for x
    using that inv s(3) by (cases "i = x") (auto simp: rbb_inv_def)
  moreover have "set (remove1 i is) \<subseteq> {..<unat (rbb_blk_max_num r)}"
    using inv set_remove1_subset[of i "is"] unfolding rbb_inv_def by blast
  ultimately have "rbb_inv ?r (remove1 i is)" using inv nx(2) m by (simp add: rbb_inv_def)
  moreover have "rt_rbb_blk_free i r = Some ?r" using il nx(1) by (simp add: rt_rbb_blk_free_def)
  ultimately show ?thesis by blast
qed

text \<open>The search of \<open>rt_rbb_blk_get\<close> finds the first block of the list that was put.\<close>

lemma rbb_find_put_ok:
  "slist (rbb_blk_list r) p (map Suc is) \<Longrightarrow>
    rbb_find_put r p = Some (find (\<lambda>i. blk_status (rbb_blks r ! i) = RT_RBB_BLK_PUT) is)"
proof (induction "is" arbitrary: p)
  case Nil
  then show ?case by (subst rbb_find_put.simps) simp
next
  case (Cons i "is")
  then show ?case by (subst rbb_find_put.simps) (simp add: rt_slist_next_def)
qed

lemma rbb_get_ok:
  assumes "rbb_inv r is"
  shows "rt_rbb_blk_get r = Some (case find (\<lambda>i. blk_status (rbb_blks r ! i) = RT_RBB_BLK_PUT) is of
      None \<Rightarrow> (None, r) | Some i \<Rightarrow> (Some i, upd_blk i (\<lambda>b. b\<lparr>blk_status := RT_RBB_BLK_GET\<rparr>) r))"
proof -
  have s: "slist (rbb_blk_list r) (rbb_blk_list r 0) (map Suc is)" using assms by (simp add: rbb_inv_def)
  have "rt_slist_isempty 0 (rbb_blk_list r) \<longleftrightarrow> is = []" using s by (cases "is") (auto simp: rt_slist_isempty_def)
  then show ?thesis using rbb_find_put_ok[OF s]
    by (auto simp: rt_rbb_blk_get_def rt_slist_first_def split: option.splits)
qed

subsection \<open>Properties\<close>

text \<open>What the users of a ring of blocks do; an empty block or one larger than the buffer is not asked for.\<close>

inductive rbb_step :: "rt_rbb \<Rightarrow> rt_rbb \<Rightarrow> bool" where
  alloc: "0 < sz \<Longrightarrow> sz \<le> rbb_buf_size r \<Longrightarrow> rt_rbb_blk_alloc sz r = Some (b, r') \<Longrightarrow> rbb_step r r'"
| put: "rt_rbb_blk_put i r = Some r' \<Longrightarrow> rbb_step r r'"
| get: "rt_rbb_blk_get r = Some (b, r') \<Longrightarrow> rbb_step r r'"
| free: "rt_rbb_blk_free i r = Some r' \<Longrightarrow> rbb_step r r'"

text \<open>What no operation changes.\<close>

definition rbb_frame :: "rt_rbb \<Rightarrow> rt_rbb \<Rightarrow> bool" where
  "rbb_frame r r' \<longleftrightarrow> rbb_buf r' = rbb_buf r \<and> rbb_buf_size r' = rbb_buf_size r \<and> length (rbb_blks r') = length (rbb_blks r)"

lemma append_frame: "rbb_append n buf sz r = Some (b, r') \<Longrightarrow> rbb_frame r r'"
  by (auto simp: rbb_append_def rbb_frame_def bind_eq_Some_conv)

lemma alloc_frame:
  assumes "rt_rbb_blk_alloc sz r = Some (b, r')"
  shows "rbb_frame r r'"
proof -
  have "r' = r \<or> (\<exists>n buf b. rbb_append n buf sz r = Some (b, r'))"
    using assms unfolding rt_rbb_blk_alloc_def Let_def bind_eq_Some_conv
    by (elim exE conjE) (simp split: option.splits if_splits add: bind_eq_Some_conv; blast)
  then show ?thesis by (auto simp: rbb_frame_def dest: append_frame)
qed

lemma init_status:
  defines "G \<equiv> \<lambda>i bs. bs[i := (bs ! i)\<lparr>blk_status := RT_RBB_BLK_UNUSED\<rparr>]"
  shows "length (fold G is b) = length b"
    "x < length b \<Longrightarrow> x \<in> set is \<or> blk_status (b ! x) = RT_RBB_BLK_UNUSED \<Longrightarrow>
      blk_status (fold G is b ! x) = RT_RBB_BLK_UNUSED"
proof -
  show "length (fold G is b) = length b" by (induction "is" arbitrary: b) (simp_all add: G_def)
  show "x < length b \<Longrightarrow> x \<in> set is \<or> blk_status (b ! x) = RT_RBB_BLK_UNUSED \<Longrightarrow>
      blk_status (fold G is b ! x) = RT_RBB_BLK_UNUSED"
  proof (induction "is" arbitrary: b)
    case (Cons a "is")
    show ?case using Cons.IH[of "G a b"] Cons.prems by (cases "x = a") (auto simp: G_def)
  qed simp
qed

lemma rbb_init_ok:
  assumes "rt_rbb_init buf buf_size block_set blks n nx = Some r" "length blks = unat n"
    "unat buf + unat buf_size < 2 ^ 32"
  shows "rbb_inv r []" "rbb_buf r = buf" "rbb_buf_size r = buf_size" "length (rbb_blks r) = length blks"
  using assms
  by (auto simp: rt_rbb_init_def Let_def bind_eq_Some_conv rbb_inv_def rt_slist_init_def arranged_def ascending_def
      init_status)

lemma rbb_step_inv:
  assumes "rbb_step r r'" "\<exists>is. rbb_inv r is"
  shows "(\<exists>is. rbb_inv r' is) \<and> rbb_frame r r'"
  using assms
proof cases
  case (alloc sz b)
  obtain "is" where inv: "rbb_inv r is" using assms(2) by blast
  have "sz < 0x1000000" using alloc(3) by (auto simp: rt_rbb_blk_alloc_def bind_eq_Some_conv)
  from rbb_alloc_ok[OF inv alloc(1) this alloc(2)] have "\<exists>is. rbb_inv r' is"
    using alloc(3) inv by (auto split: option.splits)
  then show ?thesis using alloc_frame[OF alloc(3)] by blast
next
  case (put i)
  obtain "is" where inv: "rbb_inv r is" using assms(2) by blast
  have e: "r' = upd_blk i (\<lambda>b. b\<lparr>blk_status := RT_RBB_BLK_PUT\<rparr>) r" "i < length (rbb_blks r)"
    "blk_status (rbb_blks r ! i) = RT_RBB_BLK_INITED"
    using put by (auto simp: rt_rbb_blk_put_def bind_eq_Some_conv)
  then have "i \<in> set is" using inv by (auto simp: rbb_inv_def)
  then show ?thesis using rbb_status_ok[OF inv, of RT_RBB_BLK_PUT i] e(1) by (auto simp: rbb_frame_def)
next
  case (get b)
  obtain "is" where inv: "rbb_inv r is" using assms(2) by blast
  have "r' = r \<or> (\<exists>i \<in> set is. r' = upd_blk i (\<lambda>b. b\<lparr>blk_status := RT_RBB_BLK_GET\<rparr>) r)"
    using get unfolding rbb_get_ok[OF inv] by (auto split: option.splits simp: find_Some_iff)
  then show ?thesis using rbb_status_ok[OF inv, of RT_RBB_BLK_GET] inv by (auto simp: rbb_frame_def)
next
  case (free i)
  obtain "is" where inv: "rbb_inv r is" using assms(2) by blast
  have "i < length (rbb_blks r)" "blk_status (rbb_blks r ! i) \<noteq> RT_RBB_BLK_UNUSED"
    using free by (auto simp: rt_rbb_blk_free_def bind_eq_Some_conv)
  then have "i \<in> set is" using inv by (auto simp: rbb_inv_def)
  moreover have "rbb_frame r r'" using free by (auto simp: rt_rbb_blk_free_def bind_eq_Some_conv rbb_frame_def)
  ultimately show ?thesis using rbb_free_ok[OF inv] free by fastforce
qed

lemma rbb_run_inv:
  assumes "rbb_step\<^sup>*\<^sup>* r r'" "\<exists>is. rbb_inv r is"
  shows "(\<exists>is. rbb_inv r' is) \<and> rbb_frame r r'"
  using assms
proof (induction rule: rtranclp_induct)
  case base
  then show ?case by (simp add: rbb_frame_def)
next
  case (step y z)
  then show ?case using rbb_step_inv[OF step(2)] by (auto simp: rbb_frame_def)
qed


text \<open>An example: a buffer of 100 bytes with three descriptors, and two blocks in it.\<close>

definition ex_rbb0 :: rt_rbb where
  "ex_rbb0 = \<lparr>rbb_buf = 0x1000, rbb_buf_size = 100, rbb_blk_set = 0x2000,
     rbb_blks = [\<lparr>blk_status = RT_RBB_BLK_UNUSED, blk_size = 0, blk_buf = 0\<rparr>, \<lparr>blk_status = RT_RBB_BLK_UNUSED, blk_size = 0, blk_buf = 0\<rparr>, \<lparr>blk_status = RT_RBB_BLK_UNUSED, blk_size = 0, blk_buf = 0\<rparr>],
     rbb_blk_max_num = 3, rbb_blk_list = (\<lambda>_. None)\<rparr>"

definition ex_rbb1 :: "rt_rbb_status \<Rightarrow> rt_rbb" where
  "ex_rbb1 s = ex_rbb0\<lparr>rbb_blks := (rbb_blks ex_rbb0)[0 := \<lparr>blk_status = s, blk_size = 10, blk_buf = 0x1000\<rparr>],
     rbb_blk_list := (\<lambda>_. None)(0 := Some 1)\<rparr>"

lemma ex_rbb_init:
  "rt_rbb_init 0x1000 100 0x2000 ([\<lparr>blk_status = RT_RBB_BLK_UNUSED, blk_size = 0, blk_buf = 0\<rparr>, \<lparr>blk_status = RT_RBB_BLK_UNUSED, blk_size = 0, blk_buf = 0\<rparr>, \<lparr>blk_status = RT_RBB_BLK_UNUSED, blk_size = 0, blk_buf = 0\<rparr>]) 3 (\<lambda>_. None)
     = Some ex_rbb0"
  by (simp add: rt_rbb_init_def ex_rbb0_def Let_def upt_rec rt_slist_init_def fun_eq_iff)

lemma ex_rbb_alloc: "rt_rbb_blk_alloc 10 ex_rbb0 = Some (Some 0, ex_rbb1 RT_RBB_BLK_INITED)"
  by (simp add: rt_rbb_blk_alloc_def ex_rbb0_def ex_rbb1_def rt_slist_len_def slist_len_loop.simps find_empty_blk_in_set_def
      rbb_append_def rt_slist_append_def slist_last.simps upt_rec fun_eq_iff)

definition ex_rbb2 :: "nat \<Rightarrow> nat \<Rightarrow> rt_rbb_status \<Rightarrow> rt_rbb" where
  "ex_rbb2 i j s = ex_rbb0\<lparr>rbb_blks := (rbb_blks ex_rbb0)
       [i := \<lparr>blk_status = s, blk_size = 10, blk_buf = 0x1000\<rparr>, j := \<lparr>blk_status = s, blk_size = 20, blk_buf = 0x100a\<rparr>],
     rbb_blk_list := (\<lambda>_. None)(0 := Some (Suc i), Suc i := Some (Suc j))\<rparr>"

lemma ex_rbb_alloc2: "rt_rbb_blk_alloc 20 (ex_rbb1 RT_RBB_BLK_INITED) = Some (Some 1, ex_rbb2 0 1 RT_RBB_BLK_INITED)"
  by (simp add: rt_rbb_blk_alloc_def ex_rbb0_def ex_rbb1_def ex_rbb2_def rt_slist_len_def slist_len_loop.simps
      find_empty_blk_in_set_def rbb_append_def rt_slist_append_def slist_last.simps upt_rec rt_slist_first_def
      rt_slist_tail_def fun_eq_iff)


lemma rbb_one_run:
  assumes "slist (rbb_blk_list r) (rbb_blk_list r 0) (map Suc is)" "length (rbb_blks r) = unat (rbb_blk_max_num r)"
    "\<forall>i \<in> set is. i < length (rbb_blks r)" "\<forall>i < length (rbb_blks r). i \<in> set is \<longleftrightarrow> blk_status (rbb_blks r ! i) \<noteq> RT_RBB_BLK_UNUSED"
    "unat (rbb_buf r) + unat (rbb_buf_size r) < 2 ^ 32" "\<forall>i \<in> set is. in_buffer r i" "ascending (rbb_blks r) is"
  shows "rbb_inv r is"
proof -
  have "arranged (rbb_blks r) is []" using assms(7) by (simp add: arranged_def ascending_def)
  then have "\<exists>us vs. is = us @ vs \<and> arranged (rbb_blks r) us vs" by (metis append_Nil2)
  then show ?thesis using assms(1-6) unfolding rbb_inv_def list_all_iff by (metis lessThan_iff subsetI)
qed

lemma ex_rbb_inv:
  assumes "s \<noteq> RT_RBB_BLK_UNUSED"
  shows "rbb_inv (ex_rbb1 s) [0]" "rbb_inv (ex_rbb2 0 1 s) [0, 1]" "rbb_inv (ex_rbb2 1 0 s) [1, 0]"
proof -
  note d = ex_rbb1_def ex_rbb2_def ex_rbb0_def in_buffer_def b_start_def b_end_def less_Suc_eq ascending_def
  show "rbb_inv (ex_rbb1 s) [0]" "rbb_inv (ex_rbb2 0 1 s) [0, 1]" "rbb_inv (ex_rbb2 1 0 s) [1, 0]"
    by (rule rbb_one_run; use assms in \<open>auto simp: d\<close>)+
qed

text \<open>The ring is a queue of blocks in the order of their allocation: a new block is the last one, a get takes the
  first block that was put, a free takes its block out from anywhere, and an allocation that fails changes nothing.\<close>

theorem rbb_order:
  assumes "rbb_inv r is" "0 < sz" "sz < 0x1000000" "sz \<le> rbb_buf_size r" "i \<in> set is"
  shows "(\<exists>b r'. rt_rbb_blk_alloc sz r = Some (b, r') \<and>
      (case b of None \<Rightarrow> r' = r | Some n \<Rightarrow> n \<notin> set is \<and> rbb_inv r' (is @ [n]))) \<and>
    rt_rbb_blk_get r = Some (case find (\<lambda>i. blk_status (rbb_blks r ! i) = RT_RBB_BLK_PUT) is of
      None \<Rightarrow> (None, r) | Some i \<Rightarrow> (Some i, upd_blk i (\<lambda>b. b\<lparr>blk_status := RT_RBB_BLK_GET\<rparr>) r)) \<and>
    (\<exists>r'. rt_rbb_blk_free i r = Some r' \<and> rbb_inv r' (remove1 i is))"
  using rbb_alloc_ok[OF assms(1-4)] rbb_get_ok[OF assms(1)] rbb_free_ok[OF assms(1,5)] by (intro conjI)

theorem rbb_order_witness:
  "\<exists>b r'. rt_rbb_blk_get (ex_rbb2 1 0 RT_RBB_BLK_PUT) = Some (Some 1, r') \<and>
    rt_rbb_blk_alloc 20 (ex_rbb2 1 0 RT_RBB_BLK_PUT) = Some b"
proof -
  have i: "rbb_inv (ex_rbb2 1 0 RT_RBB_BLK_PUT) [1, 0]" by (rule ex_rbb_inv) simp
  have "(20 :: u32) \<le> rbb_buf_size (ex_rbb2 1 0 RT_RBB_BLK_PUT)" by (simp add: ex_rbb2_def ex_rbb0_def)
  from rbb_order[OF i _ _ this, of 1] show ?thesis by (auto simp: ex_rbb2_def ex_rbb0_def)
qed

text \<open>Taking the first block of the list into a queue.\<close>

lemma remove_first: "nx l = Some m \<Longrightarrow> rt_slist_remove l m nx = Some (nx(l := nx m))"
  by (simp add: rt_slist_remove_def slist_before.simps[of nx m l])

text \<open>The blocks that \<open>rt_rbb_blk_queue_get\<close> hands out are taken off the list although they are still being read: the
  next allocation starts at the front of the buffer again and gives the memory of such a block away.\<close>

theorem rbb_queue_get_reuses:
  assumes "rbb_inv r [i]" "blk_status (rbb_blks r ! i) = RT_RBB_BLK_PUT" "find_empty_blk_in_set r = Some n"
    "0 < sz" "sz < 0x1000000" "b_start (rbb_blks r) i < unat (rbb_buf r) + unat sz"
  shows "\<exists>q r1 r2. rt_rbb_blk_queue_get len q0 r = Some (blk_size (rbb_blks r ! i), q, r1) \<and>
    rt_rbb_blk_alloc sz r1 = Some (Some n, r2) \<and> n \<noteq> i \<and> blk_status (rbb_blks r2 ! i) = RT_RBB_BLK_GET \<and>
    b_start (rbb_blks r2) n < b_end (rbb_blks r2) i \<and> b_start (rbb_blks r2) i < b_end (rbb_blks r2) n"
proof -
  let ?nx = "rbb_blk_list r"
  have l: "?nx 0 = Some (Suc i)" "?nx (Suc i) = None" "i < length (rbb_blks r)" "in_buffer r i"
    "length (rbb_blks r) = unat (rbb_blk_max_num r)"
    using assms(1) by (auto simp: rbb_inv_def)
  have n: "n < length (rbb_blks r)" "n \<noteq> i" using rbb_list_facts(5)[OF assms(1,3)] by auto
  let ?q = "q0\<lparr>bq_blocks := i, bq_blk_num := 1\<rparr>"
  let ?r1 = "upd_blk i (\<lambda>b. b\<lparr>blk_status := RT_RBB_BLK_GET\<rparr>) (r\<lparr>rbb_blk_list := ?nx(0 := None)\<rparr>)"
  have g: "rt_rbb_blk_queue_get len q0 r = Some (blk_size (rbb_blks r ! i), ?q, ?r1)"
    using l(1,2) assms(2) remove_first[of ?nx 0, OF l(1)]
    by (simp add: rt_rbb_blk_queue_get_def rt_slist_isempty_def rt_slist_first_def queue_get_loop.simps[of len "Some m" for m]
        queue_get_loop.simps[of len None] queue_take_def rt_slist_next_def Let_def)
  have fe: "find_empty_blk_in_set ?r1 = Some n"
    using assms(3) l(3) n assms(2)
    by (auto simp: find_empty_blk_in_set_def find_Some_iff nth_list_update l(5)[symmetric] split: if_splits)
  have mx: "(0 :: u32) < rbb_blk_max_num r" using l(3,5) by (auto simp: word_gt_0)
  have "\<exists>r2. rt_rbb_blk_alloc sz ?r1 = Some (Some n, r2) \<and> rbb_blks r2 = (rbb_blks ?r1)[n := (rbb_blks ?r1 ! n)
      \<lparr>blk_status := RT_RBB_BLK_INITED, blk_buf := rbb_buf r, blk_size := sz\<rparr>]"
    using fe mx assms(5)
    by (simp add: rt_rbb_blk_alloc_def rt_slist_len_def slist_len_loop.simps[of _ None] rbb_append_def rt_slist_append_def
        slist_last.simps[of _ 0])
  then obtain r2 where r2: "rt_rbb_blk_alloc sz ?r1 = Some (Some n, r2)" "rbb_blks r2 = (rbb_blks ?r1)[n := (rbb_blks ?r1 ! n)
      \<lparr>blk_status := RT_RBB_BLK_INITED, blk_buf := rbb_buf r, blk_size := sz\<rparr>]" by blast
  have "b_start (rbb_blks r2) n = unat (rbb_buf r)" "b_end (rbb_blks r2) n = unat (rbb_buf r) + unat sz"
    "b_start (rbb_blks r2) i = b_start (rbb_blks r) i" "b_end (rbb_blks r2) i = b_end (rbb_blks r) i"
    using r2(2) n by (simp_all add: b_start_def b_end_def) (use l(3) in \<open>simp_all add: nth_list_update\<close>)
  then show ?thesis using g r2 n l(3,4) assms(6)
    by (intro exI[of _ ?q] exI[of _ ?r1] exI[of _ r2]) (simp add: in_buffer_def b_end_def word_less_nat_alt nth_list_update)
qed

theorem rbb_queue_get_reuses_witness:
  "\<exists>q r1 r2. rt_rbb_blk_queue_get 64 \<lparr>bq_blocks = 0, bq_blk_num = 0\<rparr> (ex_rbb1 RT_RBB_BLK_PUT) = Some (10, q, r1) \<and>
    rt_rbb_blk_alloc 5 r1 = Some (Some 1, r2) \<and> blk_status (rbb_blks r2 ! 0) = RT_RBB_BLK_GET \<and>
    b_start (rbb_blks r2) 1 < b_end (rbb_blks r2) 0"
proof -
  have i: "rbb_inv (ex_rbb1 RT_RBB_BLK_PUT) [0]" by (rule ex_rbb_inv) simp
  have f: "find_empty_blk_in_set (ex_rbb1 RT_RBB_BLK_PUT) = Some 1"
    by (simp add: find_empty_blk_in_set_def ex_rbb1_def ex_rbb0_def upt_rec)
  have s: "blk_status (rbb_blks (ex_rbb1 RT_RBB_BLK_PUT) ! 0) = RT_RBB_BLK_PUT"
    "b_start (rbb_blks (ex_rbb1 RT_RBB_BLK_PUT)) 0 < unat (rbb_buf (ex_rbb1 RT_RBB_BLK_PUT)) + unat (5 :: u32)"
    "blk_size (rbb_blks (ex_rbb1 RT_RBB_BLK_PUT) ! 0) = 10"
    by (simp_all add: ex_rbb1_def ex_rbb0_def b_start_def)
  obtain q r1 r2 where "rt_rbb_blk_queue_get 64 \<lparr>bq_blocks = 0, bq_blk_num = 0\<rparr> (ex_rbb1 RT_RBB_BLK_PUT) = Some (10, q, r1)"
    "rt_rbb_blk_alloc 5 r1 = Some (Some 1, r2)" "blk_status (rbb_blks r2 ! 0) = RT_RBB_BLK_GET"
    "b_start (rbb_blks r2) 1 < b_end (rbb_blks r2) 0"
    using rbb_queue_get_reuses[OF i s(1) f _ _ s(2), of 64 "\<lparr>bq_blocks = 0, bq_blk_num = 0\<rparr>"] s(3) by auto
  then show ?thesis by blast
qed

text \<open>When no block is in the list the size is not compared with the size of the buffer: the block that is handed out
  reaches behind the end of the buffer.\<close>

theorem rbb_first_alloc_overruns:
  assumes "rbb_inv r []" "find_empty_blk_in_set r = Some n" "rbb_buf_size r < sz" "sz < 0x1000000"
  shows "\<exists>r'. rt_rbb_blk_alloc sz r = Some (Some n, r') \<and>
    unat (rbb_buf r) + unat (rbb_buf_size r) < b_end (rbb_blks r') n"
proof -
  have n: "n < length (rbb_blks r)" "length (rbb_blks r) = unat (rbb_blk_max_num r)" "rbb_blk_list r 0 = None"
    using rbb_list_facts(5)[OF assms(1,2)] assms(1) by (auto simp: rbb_inv_def)
  then have mx: "(0 :: u32) < rbb_blk_max_num r" by (auto simp: word_gt_0)
  have "\<exists>r'. rt_rbb_blk_alloc sz r = Some (Some n, r') \<and> rbb_blks r' = (rbb_blks r)[n := (rbb_blks r ! n)
      \<lparr>blk_status := RT_RBB_BLK_INITED, blk_buf := rbb_buf r, blk_size := sz\<rparr>]"
    using assms(2,4) mx n(3)
    by (simp add: rt_rbb_blk_alloc_def rt_slist_len_def slist_len_loop.simps[of _ None] rbb_append_def rt_slist_append_def
        slist_last.simps[of _ 0])
  then show ?thesis using n(1) assms(3) by (auto simp: b_end_def b_start_def word_less_nat_alt)
qed

theorem rbb_first_alloc_overruns_witness:
  "\<exists>r'. rt_rbb_blk_alloc 200 ex_rbb0 = Some (Some 0, r') \<and> 0x1000 + 100 < b_end (rbb_blks r') 0"
proof -
  have i: "rbb_inv ex_rbb0 []"
    by (rule rbb_init_ok[OF ex_rbb_init]) simp_all
  have "find_empty_blk_in_set ex_rbb0 = Some 0" "rbb_buf_size ex_rbb0 < 200" "unat (rbb_buf ex_rbb0) = 0x1000"
    "unat (rbb_buf_size ex_rbb0) = 100"
    by (simp_all add: find_empty_blk_in_set_def ex_rbb0_def upt_rec)
  then show ?thesis using rbb_first_alloc_overruns[OF i, of 0 200] by auto
qed

text \<open>A queue of two blocks that are not neighbours in the array of descriptors: \<open>rt_rbb_blk_queue_len\<close> counts on in
  the array and adds the size of another descriptor.\<close>

theorem rbb_queue_len_misreads:
  assumes "rbb_inv r [i, j]" "blk_status (rbb_blks r ! i) = RT_RBB_BLK_PUT" "blk_status (rbb_blks r ! j) = RT_RBB_BLK_PUT"
    "blk_buf (rbb_blks r ! i) \<le> blk_buf (rbb_blks r ! j)" "blk_size (rbb_blks r ! i) + blk_size (rbb_blks r ! j) \<le> len"
  shows "\<exists>q r1. rt_rbb_blk_queue_get len q0 r = Some (blk_size (rbb_blks r ! i) + blk_size (rbb_blks r ! j), q, r1) \<and>
    rt_rbb_blk_queue_len q r1 =
      (if i + 1 < length (rbb_blks r) then Some (blk_size (rbb_blks r ! i) + blk_size (rbb_blks r ! (i + 1))) else None)"
proof -
  let ?nx = "rbb_blk_list r" and ?bl = "rbb_blks r"
  have l: "?nx 0 = Some (Suc i)" "?nx (Suc i) = Some (Suc j)" "?nx (Suc j) = None" "i < length ?bl" "i \<noteq> j"
    using assms(1) rbb_inv_distinct[OF assms(1)] by (auto simp: rbb_inv_def)
  let ?q = "q0\<lparr>bq_blocks := i, bq_blk_num := 2\<rparr>"
  let ?b1 = "?bl[i := (?bl ! i)\<lparr>blk_status := RT_RBB_BLK_GET\<rparr>]"
  let ?b2 = "?b1[j := (?bl ! j)\<lparr>blk_status := RT_RBB_BLK_GET\<rparr>]"
  let ?r1 = "r\<lparr>rbb_blk_list := ?nx(0 := None), rbb_blks := ?b2\<rparr>"
  have g: "rt_rbb_blk_queue_get len q0 r = Some (blk_size (?bl ! i) + blk_size (?bl ! j), ?q, ?r1)"
    using l assms(2-5) remove_first[of ?nx 0, OF l(1)] remove_first[of "?nx(0 := Some (Suc j))" 0 "Suc j"]
    by (simp add: rt_rbb_blk_queue_get_def rt_slist_isempty_def rt_slist_first_def queue_get_loop.simps[of len "Some m" for m]
        queue_get_loop.simps[of len None] queue_take_def rt_slist_next_def Let_def) (auto dest: leD)
  have sz: "blk_size (?b2 ! x) = blk_size (?bl ! x)" for x
    using l(5) by (cases "x = i"; cases "x = j"; cases "x < length ?bl"; force simp: nth_list_update list_update_beyond)
  have "rt_rbb_blk_queue_len ?q ?r1 =
      (if i + 1 < length ?bl then Some (blk_size (?bl ! i) + blk_size (?bl ! (i + 1))) else None)"
    using l(4) by (simp add: rt_rbb_blk_queue_len_def bq_block_def upt_rec sz)
  then show ?thesis using g by blast
qed

theorem rbb_queue_len_misreads_witness:
  "\<exists>q r1. rt_rbb_blk_queue_get 64 \<lparr>bq_blocks = 0, bq_blk_num = 0\<rparr> (ex_rbb2 1 0 RT_RBB_BLK_PUT) = Some (30, q, r1) \<and>
    rt_rbb_blk_queue_len q r1 = Some 10"
proof -
  have i: "rbb_inv (ex_rbb2 1 0 RT_RBB_BLK_PUT) [1, 0]" by (rule ex_rbb_inv) simp
  show ?thesis using rbb_queue_len_misreads[OF i, of 64 "\<lparr>bq_blocks = 0, bq_blk_num = 0\<rparr>"]
    by (auto simp: ex_rbb2_def ex_rbb0_def)
qed

end
