(* ===== verification/Device.thy ===== *)
theory Device
  imports Thread Waitqueue
begin

text \<open>
  Devices (\<open>src/device.c\<close>): named objects with the functions of a driver. The framework keeps the flags of a device, opens
  it for the first and closes it for the last of its users, and passes reads, writes and control commands on.

  The drivers are code of other components: a driver function is named by a number, and the parameter \<open>drv\<close> gives the
  effect of each of them on the kernel, the devices and the data \<open>dv_user\<close> of the drivers. The object of device \<open>n\<close> is
  \<open>ODev n\<close>, its wait queue the queue \<open>dev_queue n\<close>, and its \<open>user_data\<close> is in \<open>dv_user\<close>.
\<close>

subsection \<open>State\<close>

record rt_device =
  dev_type :: int
  dev_flag :: u16
  dev_open_flag :: u16
  dev_ref_count :: u8
  dev_device_id :: u8
  dev_rx_indicate :: "nat option"
  dev_tx_complete :: "nat option"
  dev_init :: "nat option"
  dev_open :: "nat option"
  dev_close :: "nat option"
  dev_read :: "nat option"
  dev_write :: "nat option"
  dev_control :: "nat option"
  dev_fops :: "nat option"

record 'u devices =
  dv_kernel :: kernel
  dv_dev :: "nat \<Rightarrow> rt_device"
  dv_queues :: wqueues
  dv_user :: 'u

record 'u driver =
  drv_init :: "nat \<Rightarrow> nat \<Rightarrow> 'u devices \<Rightarrow> (rt_err_t \<times> 'u devices) option"
  drv_open :: "nat \<Rightarrow> nat \<Rightarrow> u16 \<Rightarrow> 'u devices \<Rightarrow> (rt_err_t \<times> 'u devices) option"
  drv_close :: "nat \<Rightarrow> nat \<Rightarrow> 'u devices \<Rightarrow> (rt_err_t \<times> 'u devices) option"
  drv_read :: "nat \<Rightarrow> nat \<Rightarrow> int \<Rightarrow> u32 \<Rightarrow> 'u devices \<Rightarrow> ((u32 \<times> u8 list) \<times> 'u devices) option"
  drv_write :: "nat \<Rightarrow> nat \<Rightarrow> int \<Rightarrow> u8 list \<Rightarrow> u32 \<Rightarrow> 'u devices \<Rightarrow> (u32 \<times> 'u devices) option"
  drv_control :: "nat \<Rightarrow> nat \<Rightarrow> int \<Rightarrow> u32 \<Rightarrow> 'u devices \<Rightarrow> (rt_err_t \<times> 'u devices) option"

abbreviation (input) RT_Object_Class_Device :: nat where "RT_Object_Class_Device \<equiv> 9"
abbreviation (input) RT_DEVICE_FLAG_STANDALONE :: u16 where "RT_DEVICE_FLAG_STANDALONE \<equiv> 8"
abbreviation (input) RT_DEVICE_FLAG_ACTIVATED :: u16 where "RT_DEVICE_FLAG_ACTIVATED \<equiv> 0x10"
abbreviation (input) RT_DEVICE_OFLAG_CLOSE :: u16 where "RT_DEVICE_OFLAG_CLOSE \<equiv> 0"
abbreviation (input) RT_DEVICE_OFLAG_OPEN :: u16 where "RT_DEVICE_OFLAG_OPEN \<equiv> 8"
abbreviation (input) RT_DEVICE_OFLAG_MASK :: u16 where "RT_DEVICE_OFLAG_MASK \<equiv> 0xf0f"

definition dev_queue :: "nat \<Rightarrow> nat" where
  "dev_queue n = 3 * n"

definition upd_dev :: "nat \<Rightarrow> (rt_device \<Rightarrow> rt_device) \<Rightarrow> 'u devices \<Rightarrow> 'u devices" where
  [simp]: "upd_dev n f st = st\<lparr>dv_dev := (dv_dev st)(n := f (dv_dev st n))\<rparr>"

definition dev_errno :: "rt_err_t \<Rightarrow> 'u devices \<Rightarrow> 'u devices" where
  [simp]: "dev_errno e st = st\<lparr>dv_kernel := rt_set_errno e (dv_kernel st)\<rparr>"

definition is_device :: "nat \<Rightarrow> 'u devices \<Rightarrow> bool" where
  "is_device n st \<longleftrightarrow> rt_object_get_type (ODev n) (dv_kernel st) = of_nat RT_Object_Class_Device"

subsection \<open>Registering and finding\<close>

definition rt_device_find :: "u8 list \<Rightarrow> 'u devices \<Rightarrow> (oid option \<times> 'u devices) option" where
  "rt_device_find name st =
     do { let k = dv_kernel st;
          let k = (if rt_thread_self k \<noteq> None then rt_enter_critical k else k);
          information \<leftarrow> rt_object_get_information RT_Object_Class_Device;
          r \<leftarrow> find_by_name (\<lambda>x. ob_name (objs k x)) name (ls_q (olist k) information);
          k \<leftarrow> (if rt_thread_self k \<noteq> None then rt_exit_critical k else Some k);
          Some (r, st\<lparr>dv_kernel := k\<rparr>) }"

definition rt_device_register :: "nat option \<Rightarrow> u8 list \<Rightarrow> u16 \<Rightarrow> 'u devices \<Rightarrow> (rt_err_t \<times> 'u devices) option" where
  "rt_device_register dev name flags st =
     (case dev of
        None \<Rightarrow> Some (- RT_ERROR, st)
      | Some n \<Rightarrow>
          do { (r, st) \<leftarrow> rt_device_find name st;
               if r \<noteq> None then Some (- RT_ERROR, st)
               else do { k \<leftarrow> rt_object_init (ODev n) RT_Object_Class_Device name (dv_kernel st);
                         let st = upd_dev n (\<lambda>d. d\<lparr>dev_flag := flags, dev_ref_count := 0, dev_open_flag := 0,
                           dev_fops := None\<rparr>) (st\<lparr>dv_kernel := k\<rparr>);
                         s \<leftarrow> rt_wqueue_init (dev_queue n) (dv_queues st);
                         Some (RT_EOK, st\<lparr>dv_queues := s\<rparr>) } })"

definition rt_device_unregister :: "nat \<Rightarrow> 'u devices \<Rightarrow> (rt_err_t \<times> 'u devices) option" where
  "rt_device_unregister n st =
     do { RT_ASSERT (is_device n st);
          RT_ASSERT (rt_object_is_systemobject (ODev n) (dv_kernel st));
          Some (RT_EOK, st\<lparr>dv_kernel := rt_object_detach (ODev n) (dv_kernel st)\<rparr>) }"

definition rt_device_init_all :: "'u devices \<Rightarrow> rt_err_t" where
  "rt_device_init_all st = RT_EOK"

definition zero_device :: rt_device where
  "zero_device = \<lparr>dev_type = 0, dev_flag = 0, dev_open_flag = 0, dev_ref_count = 0, dev_device_id = 0, dev_rx_indicate = None,
     dev_tx_complete = None, dev_init = None, dev_open = None, dev_close = None, dev_read = None, dev_write = None,
     dev_control = None, dev_fops = None\<rparr>"

text \<open>\<open>malloc\<close> says which device the block of that size is, if there is one.\<close>

definition rt_device_create ::
  "(u32 \<Rightarrow> nat option) \<Rightarrow> u32 \<Rightarrow> int \<Rightarrow> u32 \<Rightarrow> 'u devices \<Rightarrow> nat option \<times> 'u devices" where
  "rt_device_create malloc sizeof_device typ attach_size st =
     (let sz = RT_ALIGN sizeof_device RT_ALIGN_SIZE;
          attach_size = RT_ALIGN attach_size RT_ALIGN_SIZE
      in case malloc (sz + attach_size) of
           None \<Rightarrow> (None, st)
         | Some n \<Rightarrow>
             (Some n, upd_dev n (\<lambda>_. zero_device\<lparr>dev_type := typ\<rparr>)
               (st\<lparr>dv_kernel := clear_block (ODev n) (dv_kernel st)\<rparr>)))"

text \<open>The block is given back with \<open>rt_free\<close> then, which has no effect on this state.\<close>

definition rt_device_destroy :: "nat \<Rightarrow> 'u devices \<Rightarrow> 'u devices option" where
  "rt_device_destroy n st =
     do { RT_ASSERT (is_device n st);
          RT_ASSERT (\<not> rt_object_is_systemobject (ODev n) (dv_kernel st));
          Some (st\<lparr>dv_kernel := rt_object_detach (ODev n) (dv_kernel st)\<rparr>) }"

subsection \<open>Using a device\<close>

definition rt_device_init :: "'u driver \<Rightarrow> nat \<Rightarrow> 'u devices \<Rightarrow> (rt_err_t \<times> 'u devices) option" where
  "rt_device_init drv n st =
     (case dev_init (dv_dev st n) of
        None \<Rightarrow> Some (RT_EOK, st)
      | Some f \<Rightarrow>
          if dev_flag (dv_dev st n) AND RT_DEVICE_FLAG_ACTIVATED = 0
          then do { (result, st) \<leftarrow> drv_init drv f n st;
                    Some (result, if result \<noteq> RT_EOK then st
                      else upd_dev n (\<lambda>d. d\<lparr>dev_flag := dev_flag d OR RT_DEVICE_FLAG_ACTIVATED\<rparr>) st) }
          else Some (RT_EOK, st))"

text \<open>The first part of \<open>rt_device_open\<close>: the initialisation of a device that is not active.\<close>

definition dev_activate :: "'u driver \<Rightarrow> nat \<Rightarrow> 'u devices \<Rightarrow> (rt_err_t \<times> 'u devices) option" where
  "dev_activate drv n st =
     (if dev_flag (dv_dev st n) AND RT_DEVICE_FLAG_ACTIVATED = 0
      then do { (result, st) \<leftarrow> (case dev_init (dv_dev st n) of None \<Rightarrow> Some (RT_EOK, st) | Some f \<Rightarrow> drv_init drv f n st);
                Some (result, if result \<noteq> RT_EOK then st
                  else upd_dev n (\<lambda>d. d\<lparr>dev_flag := dev_flag d OR RT_DEVICE_FLAG_ACTIVATED\<rparr>) st) }
      else Some (RT_EOK, st))"

definition rt_device_open :: "'u driver \<Rightarrow> nat \<Rightarrow> u16 \<Rightarrow> 'u devices \<Rightarrow> (rt_err_t \<times> 'u devices) option" where
  "rt_device_open drv n oflag st =
     do { RT_ASSERT (is_device n st);
          (result, st) \<leftarrow> dev_activate drv n st;
          if result \<noteq> RT_EOK then Some (result, st)
          else if dev_flag (dv_dev st n) AND RT_DEVICE_FLAG_STANDALONE \<noteq> 0 \<and>
                  dev_open_flag (dv_dev st n) AND RT_DEVICE_OFLAG_OPEN \<noteq> 0
          then Some (- RT_EBUSY, st)
          else do { (result, st) \<leftarrow>
                      (case dev_open (dv_dev st n) of
                         Some f \<Rightarrow> drv_open drv f n oflag st
                       | None \<Rightarrow> Some (RT_EOK, upd_dev n (\<lambda>d. d\<lparr>dev_open_flag := oflag AND RT_DEVICE_OFLAG_MASK\<rparr>) st));
                    if result = RT_EOK \<or> result = - RT_ENOSYS
                    then do { let st = upd_dev n (\<lambda>d. d\<lparr>dev_open_flag := dev_open_flag d OR RT_DEVICE_OFLAG_OPEN,
                                dev_ref_count := dev_ref_count d + 1\<rparr>) st;
                              RT_ASSERT (dev_ref_count (dv_dev st n) \<noteq> 0);
                              Some (result, st) }
                    else Some (result, st) } }"

definition rt_device_close :: "'u driver \<Rightarrow> nat \<Rightarrow> 'u devices \<Rightarrow> (rt_err_t \<times> 'u devices) option" where
  "rt_device_close drv n st =
     do { RT_ASSERT (is_device n st);
          if dev_ref_count (dv_dev st n) = 0 then Some (- RT_ERROR, st)
          else do { let st = upd_dev n (\<lambda>d. d\<lparr>dev_ref_count := dev_ref_count d - 1\<rparr>) st;
                    if dev_ref_count (dv_dev st n) \<noteq> 0 then Some (RT_EOK, st)
                    else do { (result, st) \<leftarrow> (case dev_close (dv_dev st n) of
                                 Some f \<Rightarrow> drv_close drv f n st | None \<Rightarrow> Some (RT_EOK, st));
                              Some (result, if result = RT_EOK \<or> result = - RT_ENOSYS
                                then upd_dev n (\<lambda>d. d\<lparr>dev_open_flag := RT_DEVICE_OFLAG_CLOSE\<rparr>) st else st) } } }"

text \<open>A read gives the number it returns and the bytes that are in the buffer then.\<close>

definition rt_device_read ::
  "'u driver \<Rightarrow> nat \<Rightarrow> int \<Rightarrow> u32 \<Rightarrow> 'u devices \<Rightarrow> ((u32 \<times> u8 list) \<times> 'u devices) option" where
  "rt_device_read drv n pos sz st =
     do { RT_ASSERT (is_device n st);
          if dev_ref_count (dv_dev st n) = 0 then Some ((0, []), dev_errno (- RT_ERROR) st)
          else case dev_read (dv_dev st n) of
                 Some f \<Rightarrow> drv_read drv f n pos sz st
               | None \<Rightarrow> Some ((0, []), dev_errno (- RT_ENOSYS) st) }"

definition rt_device_write ::
  "'u driver \<Rightarrow> nat \<Rightarrow> int \<Rightarrow> u8 list \<Rightarrow> u32 \<Rightarrow> 'u devices \<Rightarrow> (u32 \<times> 'u devices) option" where
  "rt_device_write drv n pos buffer sz st =
     do { RT_ASSERT (is_device n st);
          if dev_ref_count (dv_dev st n) = 0 then Some (0, dev_errno (- RT_ERROR) st)
          else case dev_write (dv_dev st n) of
                 Some f \<Rightarrow> drv_write drv f n pos buffer sz st
               | None \<Rightarrow> Some (0, dev_errno (- RT_ENOSYS) st) }"

definition rt_device_control :: "'u driver \<Rightarrow> nat \<Rightarrow> int \<Rightarrow> u32 \<Rightarrow> 'u devices \<Rightarrow> (rt_err_t \<times> 'u devices) option" where
  "rt_device_control drv n cmd arg st =
     do { RT_ASSERT (is_device n st);
          case dev_control (dv_dev st n) of
            Some f \<Rightarrow> drv_control drv f n cmd arg st
          | None \<Rightarrow> Some (- RT_ENOSYS, st) }"

definition rt_device_set_rx_indicate :: "nat \<Rightarrow> nat option \<Rightarrow> 'u devices \<Rightarrow> (rt_err_t \<times> 'u devices) option" where
  "rt_device_set_rx_indicate n rx_ind st =
     do { RT_ASSERT (is_device n st); Some (RT_EOK, upd_dev n (\<lambda>d. d\<lparr>dev_rx_indicate := rx_ind\<rparr>) st) }"

definition rt_device_set_tx_complete :: "nat \<Rightarrow> nat option \<Rightarrow> 'u devices \<Rightarrow> (rt_err_t \<times> 'u devices) option" where
  "rt_device_set_tx_complete n tx_done st =
     do { RT_ASSERT (is_device n st); Some (RT_EOK, upd_dev n (\<lambda>d. d\<lparr>dev_tx_complete := tx_done\<rparr>) st) }"

subsection \<open>Drivers that leave the framework alone\<close>

definition dev_keeps :: "nat \<Rightarrow> 'u devices \<Rightarrow> 'u devices \<Rightarrow> bool" where
  "dev_keeps n st st' \<longleftrightarrow> is_device n st' = is_device n st \<and> dev_flag (dv_dev st' n) = dev_flag (dv_dev st n) \<and>
     dev_ref_count (dv_dev st' n) = dev_ref_count (dv_dev st n) \<and>
     dev_open_flag (dv_dev st' n) AND RT_DEVICE_OFLAG_OPEN = dev_open_flag (dv_dev st n) AND RT_DEVICE_OFLAG_OPEN"

text \<open>The same but for the flags of an open device, which an open that succeeds may set.\<close>

definition dev_same :: "nat \<Rightarrow> 'u devices \<Rightarrow> 'u devices \<Rightarrow> bool" where
  "dev_same n st st' \<longleftrightarrow> is_device n st' = is_device n st \<and> dev_flag (dv_dev st' n) = dev_flag (dv_dev st n) \<and>
     dev_ref_count (dv_dev st' n) = dev_ref_count (dv_dev st n)"

definition done_ok :: "rt_err_t \<Rightarrow> bool" where
  "done_ok e \<longleftrightarrow> e = RT_EOK \<or> e = - RT_ENOSYS"

text \<open>
  What the framework needs of the driver of device \<open>n\<close>: its functions leave the fields of the framework alone (an open
  that succeeds may set the flags of the open device, the framework adds its own afterwards), its
  initialisation does not answer \<open>-RT_ENOSYS\<close> (the caller of \<open>rt_device_open\<close> takes that for success), and its close does
  not fail.
\<close>

definition driver_ok :: "nat \<Rightarrow> 'u driver \<Rightarrow> bool" where
  "driver_ok n drv \<longleftrightarrow>
     (\<forall>f st e st'. drv_init drv f n st = Some (e, st') \<longrightarrow> dev_keeps n st st' \<and> e \<noteq> - RT_ENOSYS) \<and>
     (\<forall>f fl st e st'. drv_open drv f n fl st = Some (e, st') \<longrightarrow> (if done_ok e then dev_same n st st' else dev_keeps n st st')) \<and>
     (\<forall>f st e st'. drv_close drv f n st = Some (e, st') \<longrightarrow> dev_keeps n st st' \<and> done_ok e)"

lemma dev_keeps_refl [simp]: "dev_keeps n st st" "dev_same n st st"
  by (simp_all add: dev_keeps_def dev_same_def)

lemma is_device_upd [simp]: "is_device m (st\<lparr>dv_dev := d\<rparr>) = is_device m st" "is_device m (st\<lparr>dv_queues := q\<rparr>) = is_device m st"
  by (simp_all add: is_device_def)

lemma upd_at: "dv_dev (upd_dev n f st) n = f (dv_dev st n)"
  by simp

text \<open>The condition on a device that has \<open>u\<close> users.\<close>

definition dev_users :: "nat \<Rightarrow> nat \<Rightarrow> 'u devices \<Rightarrow> bool" where
  "dev_users n u st \<longleftrightarrow> is_device n st \<and> unat (dev_ref_count (dv_dev st n)) = u \<and>
     (dev_open_flag (dv_dev st n) AND RT_DEVICE_OFLAG_OPEN \<noteq> 0 \<longleftrightarrow> 0 < u) \<and>
     (dev_flag (dv_dev st n) AND RT_DEVICE_FLAG_STANDALONE \<noteq> 0 \<longrightarrow> u \<le> 1)"

lemma users_keeps: "dev_keeps n st st' \<Longrightarrow> dev_users n u st' = dev_users n u st"
  by (simp add: dev_keeps_def dev_users_def)

lemma unat_Suc_u8: "x + 1 \<noteq> 0 \<Longrightarrow> unat (x + 1) = Suc (unat x)" for x :: u8
  by (metis unatSuc add.commute)

text \<open>The three calls of a driver, or what the framework does where there is no driver function.\<close>

lemma init_call:
  assumes "driver_ok n drv"
    "(case dev_init (dv_dev st n) of None \<Rightarrow> Some (0, st) | Some f \<Rightarrow> drv_init drv f n st) = Some (e, st')"
  shows "dev_keeps n st st' \<and> e \<noteq> - RT_ENOSYS"
  using assms by (auto simp: driver_ok_def split: option.splits)

lemma close_call:
  assumes "driver_ok n drv"
    "(case dev_close (dv_dev st n) of Some f \<Rightarrow> drv_close drv f n st | None \<Rightarrow> Some (0, st)) = Some (e, st')"
  shows "dev_keeps n st st' \<and> done_ok e"
  using assms by (auto simp: driver_ok_def done_ok_def split: option.splits)

lemma open_call:
  assumes "driver_ok n drv"
    "(case dev_open (dv_dev st n) of Some f \<Rightarrow> drv_open drv f n oflag st
      | None \<Rightarrow> Some (0, upd_dev n (\<lambda>d. d\<lparr>dev_open_flag := oflag AND RT_DEVICE_OFLAG_MASK\<rparr>) st)) = Some (e, st')"
  shows "if done_ok e then dev_same n st st' else dev_keeps n st st'"
proof (cases "dev_open (dv_dev st n)")
  case None
  then show ?thesis using assms(2) by (auto simp: done_ok_def dev_same_def)
next
  case (Some f)
  then have "drv_open drv f n oflag st = Some (e, st')" using assms(2) by simp
  then show ?thesis using assms(1) unfolding driver_ok_def by blast
qed

lemma activate_ok:
  assumes "driver_ok n drv" "dev_activate drv n st = Some (e, st')"
  shows "dev_users n u st' = dev_users n u st" "e \<noteq> - RT_ENOSYS"
proof -
  have a: "(x OR 0x10) AND 8 = x AND (8 :: u16)" for x by (simp add: bit.conj_disj_distrib2)
  have "\<exists>st1. dev_keeps n st st1 \<and> e \<noteq> - 6 \<and> (st' = st1 \<or> st' = upd_dev n (\<lambda>d. d\<lparr>dev_flag := dev_flag d OR 0x10\<rparr>) st1)"
  proof (cases "dev_flag (dv_dev st n) AND 0x10 = 0")
    case True
    then obtain st1 where "(case dev_init (dv_dev st n) of None \<Rightarrow> Some (0, st) | Some f \<Rightarrow> drv_init drv f n st) = Some (e, st1)"
      "st' = (if e \<noteq> 0 then st1 else upd_dev n (\<lambda>d. d\<lparr>dev_flag := dev_flag d OR 0x10\<rparr>) st1)"
      using assms(2) by (auto simp: dev_activate_def bind_eq_Some_conv)
    with init_call[OF assms(1) this(1)] show ?thesis by (cases "e = 0") (intro exI[of _ st1], simp del: upd_dev_def)+
  next
    case False
    then show ?thesis using assms(2) by (auto simp: dev_activate_def intro!: exI[of _ st])
  qed
  then obtain st1 where s: "dev_keeps n st st1" "e \<noteq> - 6"
    "st' = st1 \<or> st' = upd_dev n (\<lambda>d. d\<lparr>dev_flag := dev_flag d OR 0x10\<rparr>) st1" by blast
  have "dev_users n u (upd_dev n (\<lambda>d. d\<lparr>dev_flag := dev_flag d OR 0x10\<rparr>) st1) = dev_users n u st1"
    by (simp add: dev_users_def a)
  then have "dev_users n u st' = dev_users n u st1" using s(3) by (elim disjE) (simp_all only:)
  then show "dev_users n u st' = dev_users n u st" by (simp only: users_keeps[OF s(1)])
  show "e \<noteq> - RT_ENOSYS" by (rule s(2))
qed

lemma users_opened:
  assumes "dev_users n u st1" "dev_same n st1 st2"
    "dev_flag (dv_dev st1 n) AND 8 = 0 \<or> dev_open_flag (dv_dev st1 n) AND 8 = 0" "dev_ref_count (dv_dev st2 n) + 1 \<noteq> 0"
  shows "dev_users n (Suc u) (upd_dev n (\<lambda>d. d\<lparr>dev_open_flag := dev_open_flag d OR 8, dev_ref_count := dev_ref_count d + 1\<rparr>) st2)"
proof -
  have o: "(x OR 8) AND 8 = (8 :: u16)" for x by (simp add: bit.conj_disj_distrib2)
  have r: "dev_ref_count (dv_dev st2 n) = dev_ref_count (dv_dev st1 n)" "dev_flag (dv_dev st2 n) = dev_flag (dv_dev st1 n)"
    "is_device n st2 = is_device n st1"
    using assms(2) by (auto simp: dev_same_def)
  have "unat (dev_ref_count (dv_dev st1 n) + 1) = Suc u"
    using assms(1,4) r(1) by (simp add: dev_users_def unat_Suc_u8)
  then show ?thesis using assms(1,3) r by (auto simp: dev_users_def o)
qed

lemma open_ok:
  assumes d: "driver_ok n drv" and u: "dev_users n u st" and o: "rt_device_open drv n oflag st = Some (e, st')"
  shows "dev_users n (if done_ok e then Suc u else u) st'"
proof -
  obtain e1 st1 where a: "dev_activate drv n st = Some (e1, st1)" using o by (auto simp: rt_device_open_def bind_eq_Some_conv)
  note u1 = activate_ok[OF d a]
  have du: "dev_users n u st1" using u1(1) u by simp
  let ?busy = "dev_flag (dv_dev st1 n) AND 8 \<noteq> 0 \<and> dev_open_flag (dv_dev st1 n) AND 8 \<noteq> 0"
  show ?thesis
  proof (cases "e1 = 0 \<and> \<not> ?busy")
    case False
    then have "st' = st1 \<and> \<not> done_ok e"
      using o a u1(2) by (auto simp: rt_device_open_def bind_eq_Some_conv done_ok_def split: if_splits)
    then show ?thesis using du by simp
  next
    case True
    then obtain st2 where s2: "(case dev_open (dv_dev st1 n) of Some f \<Rightarrow> drv_open drv f n oflag st1
        | None \<Rightarrow> Some (0, upd_dev n (\<lambda>d. d\<lparr>dev_open_flag := oflag AND 0xf0f\<rparr>) st1)) = Some (e, st2)"
      "if done_ok e then st' = upd_dev n (\<lambda>d. d\<lparr>dev_open_flag := dev_open_flag d OR 8, dev_ref_count := dev_ref_count d + 1\<rparr>) st2 \<and>
         dev_ref_count (dv_dev st2 n) + 1 \<noteq> 0
       else st' = st2"
      using o a by (auto simp: rt_device_open_def bind_eq_Some_conv done_ok_def Let_def split: if_splits)
    note c = open_call[OF d s2(1)]
    show ?thesis
    proof (cases "done_ok e")
      case ok: True
      then show ?thesis using users_opened[OF du, of st2] c s2(2) True by auto
    next
      case False
      then have "dev_keeps n st1 st2" using c by simp
      then show ?thesis using users_keeps[of n st1 st2 u] du s2(2) False by simp
    qed
  qed
qed

lemma close_ok:
  assumes d: "driver_ok n drv" and u: "dev_users n u st" and c: "rt_device_close drv n st = Some (e, st')"
  shows "dev_users n (u - 1) st' \<and> (e = - RT_ERROR \<longleftrightarrow> u = 0) \<and> (done_ok e \<longleftrightarrow> 0 < u)"
proof (cases "dev_ref_count (dv_dev st n) = 0")
  case True
  then show ?thesis using u c by (auto simp: rt_device_close_def bind_eq_Some_conv dev_users_def done_ok_def)
next
  case False
  let ?st1 = "upd_dev n (\<lambda>d. d\<lparr>dev_ref_count := dev_ref_count d - 1\<rparr>) st"
  have r: "unat (dev_ref_count (dv_dev st n) - 1) = u - 1" "0 < u"
    using u False by (auto simp: dev_users_def unat_minus_one unat_eq_zero)
  show ?thesis
  proof (cases "dev_ref_count (dv_dev st n) - 1 = 0")
    case True
    then obtain st2 where s2: "(case dev_close (dv_dev ?st1 n) of Some f \<Rightarrow> drv_close drv f n ?st1 | None \<Rightarrow> Some (0, ?st1)) =
        Some (e, st2)" "st' = (if done_ok e then upd_dev n (\<lambda>d. d\<lparr>dev_open_flag := 0\<rparr>) st2 else st2)"
      using c False by (auto simp: rt_device_close_def bind_eq_Some_conv done_ok_def Let_def upd_at simp del: upd_dev_def)
    have "dev_keeps n ?st1 st2" "done_ok e" using close_call[OF d s2(1)] by auto
    moreover have "u = 1" using r True by (metis unat_0 diff_is_0_eq le_antisym One_nat_def Suc_leI)
    ultimately show ?thesis using u s2(2) r True by (auto simp: dev_users_def dev_keeps_def done_ok_def)
  next
    case f: False
    then have "e = 0" "st' = ?st1" using c False by (auto simp: rt_device_close_def bind_eq_Some_conv)
    moreover have "0 < u - 1" using r(1) f by (metis unat_gt_0)
    ultimately show ?thesis using u r by (auto simp: dev_users_def done_ok_def)
  qed
qed


text \<open>The steps of the users of device \<open>n\<close>, and of everything else that keeps its fields; the number counts the users.\<close>

inductive dev_step :: "'u driver \<Rightarrow> nat \<Rightarrow> nat \<times> 'u devices \<Rightarrow> nat \<times> 'u devices \<Rightarrow> bool" for drv n where
  step_init: "rt_device_init drv n st = Some (e, st') \<Longrightarrow> dev_step drv n (u, st) (u, st')"
| step_open: "rt_device_open drv n oflag st = Some (e, st') \<Longrightarrow>
    dev_step drv n (u, st) (if done_ok e then Suc u else u, st')"
| step_close: "rt_device_close drv n st = Some (e, st') \<Longrightarrow>
    dev_step drv n (u, st) (if done_ok e then u - 1 else u, st')"
| step_other: "dev_keeps n st st' \<Longrightarrow> dev_step drv n (u, st) (u, st')"

inductive dev_steps :: "'u driver \<Rightarrow> nat \<Rightarrow> nat \<times> 'u devices \<Rightarrow> nat \<times> 'u devices \<Rightarrow> bool" for drv n where
  steps_refl: "dev_steps drv n s s"
| steps_step: "dev_steps drv n s s' \<Longrightarrow> dev_step drv n s' s'' \<Longrightarrow> dev_steps drv n s s''"

lemma device_init_ok:
  assumes "driver_ok n drv" "rt_device_init drv n st = Some (e, st')"
  shows "dev_users n u st' = dev_users n u st"
proof -
  have a: "(x OR 0x10) AND 8 = x AND (8 :: u16)" for x by (simp add: bit.conj_disj_distrib2)
  show ?thesis
  proof (cases "dev_init (dv_dev st n)")
    case None
    then show ?thesis using assms(2) by (simp add: rt_device_init_def)
  next
    case (Some f)
    show ?thesis
    proof (cases "dev_flag (dv_dev st n) AND 0x10 = 0")
      case True
      then obtain st1 where s: "drv_init drv f n st = Some (e, st1)"
        "st' = (if e \<noteq> 0 then st1 else upd_dev n (\<lambda>d. d\<lparr>dev_flag := dev_flag d OR 0x10\<rparr>) st1)"
        using assms(2) Some by (auto simp: rt_device_init_def bind_eq_Some_conv)
      have "dev_keeps n st st1" using assms(1) s(1) by (auto simp: driver_ok_def)
      moreover have "dev_users n u st' = dev_users n u st1" using s(2) by (simp add: dev_users_def a)
      ultimately show ?thesis by (simp add: users_keeps)
    qed (use Some assms(2) in \<open>simp add: rt_device_init_def\<close>)
  qed
qed

lemma step_users:
  assumes "driver_ok n drv" "dev_step drv n s s'" "dev_users n (fst s) (snd s)"
  shows "dev_users n (fst s') (snd s')"
  using assms(2)
proof cases
  case (step_init st e st' u)
  then show ?thesis using device_init_ok[OF assms(1)] assms(3) by auto
next
  case (step_open oflag st e st' u)
  then show ?thesis using open_ok[OF assms(1)] assms(3) by auto
next
  case (step_close st e st' u)
  then have "dev_users n (u - 1) st'" "e = - 1 \<longleftrightarrow> u = 0" "e \<noteq> - 1 \<longrightarrow> done_ok e"
    using close_ok[OF assms(1)] assms(3) by auto
  then show ?thesis using step_close(1,2) by (auto simp: done_ok_def)
next
  case (step_other st st' u)
  then show ?thesis using users_keeps assms(3) by auto
qed

lemma steps_users:
  assumes "driver_ok n drv" "dev_steps drv n s s'" "dev_users n (fst s) (snd s)"
  shows "dev_users n (fst s') (snd s')"
  using assms(2,3) by induction (auto intro: step_users[OF assms(1)])

lemma register_users:
  assumes "rt_device_register (Some n) name flags st = Some (0, st')"
  shows "dev_users n 0 st'"
proof -
  have "dev_ref_count (dv_dev st' n) = 0" "dev_open_flag (dv_dev st' n) = 0" "is_device n st'"
    using assms object_init_type(1)[of "ODev n" 9 name]
    by (auto simp: rt_device_register_def bind_eq_Some_conv is_device_def split: if_splits)
  then show ?thesis by (simp add: dev_users_def)
qed


subsection \<open>Names\<close>

text \<open>The name in a buffer, and the name of a device.\<close>

definition cname :: "u8 list \<Rightarrow> u8 list" where
  "cname b = takeWhile (\<lambda>c. c \<noteq> 0) b"

definition dev_named :: "u8 list \<Rightarrow> kernel \<Rightarrow> oid \<Rightarrow> bool" where
  "dev_named a k x \<longleftrightarrow> cname (ob_name (objs k x)) = take 16 a"

lemma strncmp_name:
  "cstr t a \<Longrightarrow> n \<le> length b \<Longrightarrow> \<exists>r. rt_strncmp b t n = Some r \<and> (r = 0 \<longleftrightarrow> cname (take n b) = take n a)"
proof (induction b t n arbitrary: a rule: rt_strncmp.induct)
  case (2 c s d t n)
  have z: "sint (c - d) = 0 \<longleftrightarrow> c = d" by (simp only: signed_eq_0_iff right_minus_eq)
  show ?case
  proof (cases "c = d \<and> c \<noteq> 0")
    case True
    obtain a' where "a = c # a'" "cstr t a'" using 2(2) True by (cases rule: cstr_cases) auto
    then show ?thesis using 2(1)[of "sint (c - d)" a'] 2(3) True z by (auto simp: cname_def)
  next
    case False
    from 2(2) show ?thesis using z False by (cases rule: cstr_cases) (auto simp: cname_def Let_def)
  qed
qed (auto simp: cname_def cstr_def)

lemma find_by_name_eq:
  "cstr name a \<Longrightarrow> \<forall>x \<in> set xs. length (nm x) = 16 \<Longrightarrow>
    find_by_name nm name xs = Some (List.find (\<lambda>x. cname (nm x) = take 16 a) xs)"
proof (induction xs)
  case (Cons x xs)
  then show ?case using strncmp_name[of name a 16 "nm x"] by auto
qed simp

lemma cname_strncpy: "cstr s a \<Longrightarrow> rt_strncpy s n = Some r \<Longrightarrow> cname r = take n a"
  using in_set_takeD[of _ n a]
  by (auto simp: cname_def rt_strncpy_cstr cstr_def takeWhile_append takeWhile_replicate)

lemma exit_keeps:
  assumes "kinv k" "rt_current_thread k = Some c"
  shows "\<exists>k'. rt_exit_critical k = Some k' \<and> kinv k' \<and> objs k' = objs k \<and> olist k' = olist k"
proof -
  obtain k' where k': "rt_exit_critical k = Some k'" "kinv k'"
    "sched_frame (k\<lparr>rt_scheduler_lock_nest := 0\<rparr>) k' \<or> k' = k\<lparr>rt_scheduler_lock_nest := rt_scheduler_lock_nest k - 1\<rparr>"
    using exit_critical_ok[OF assms] by (auto split: if_splits)
  then have "objs k' = objs k" "olist k' = olist k" by (auto simp: sched_frameD(1,2))
  then show ?thesis using k' by blast
qed

lemma device_find_ok:
  assumes "kinv (dv_kernel st)" "cstr name a"
  shows "\<exists>k'. rt_device_find name st = Some (List.find (dev_named a (dv_kernel st)) (ls_q (olist (dv_kernel st)) 9),
      st\<lparr>dv_kernel := k'\<rparr>) \<and> kinv k' \<and> objs k' = objs (dv_kernel st) \<and> olist k' = olist (dv_kernel st)"
proof -
  let ?k = "dv_kernel st"
  have len: "\<forall>x \<in> set (ls_q (olist ?k) 9). length (ob_name (objs ?k x)) = 16"
    using kinvD(1)[OF assms(1)] by (fastforce simp: obj_inv_def ls_inv_def obj_ok_def split: option.splits)
  note find_by_name_eq[OF assms(2) len]
  then have f: "find_by_name (\<lambda>x. ob_name (objs ?k x)) name (ls_q (olist ?k) 9) =
      Some (List.find (dev_named a ?k) (ls_q (olist ?k) 9))" by (simp add: dev_named_def[abs_def])
  show ?thesis
  proof (cases "rt_current_thread ?k")
    case None
    then show ?thesis using assms(1) f
      by (intro exI[of _ ?k]) (simp add: rt_device_find_def class_range[THEN iffD2] rt_thread_self_def Let_def)
  next
    case (Some c)
    obtain k' where k': "rt_exit_critical (rt_enter_critical ?k) = Some k'" "kinv k'"
      "objs k' = objs ?k" "olist k' = olist ?k"
      using exit_keeps[of "rt_enter_critical ?k" c] assms(1) Some by (auto simp: rt_enter_critical_def)
    then show ?thesis using f Some
      by (intro exI[of _ k']) (simp add: rt_device_find_def class_range[THEN iffD2] rt_thread_self_def rt_enter_critical_def Let_def)
  qed
qed


text \<open>What registering a device does, on both of its branches.\<close>

definition dev_list :: "'u devices \<Rightarrow> oid list" where
  "dev_list st = ls_q (olist (dv_kernel st)) RT_Object_Class_Device"

lemma register_ok:
  assumes k: "kinv (dv_kernel st)" and s: "cstr name a"
    and n: "ls_in (olist (dv_kernel st)) (ODev n) = None" "ls_q (waiting_list (dv_queues st)) (dev_queue n) = []"
  shows "\<exists>e st'. rt_device_register (Some n) name flags st = Some (e, st') \<and> kinv (dv_kernel st') \<and>
    (if \<exists>x \<in> set (dev_list st). dev_named a (dv_kernel st) x
     then e = - RT_ERROR \<and> dev_list st' = dev_list st \<and> objs (dv_kernel st') = objs (dv_kernel st) \<and> dv_dev st' = dv_dev st
     else e = RT_EOK \<and> dev_list st' = ODev n # dev_list st \<and> dev_named a (dv_kernel st') (ODev n) \<and> dev_users n 0 st' \<and>
       (\<forall>x. x \<noteq> ODev n \<longrightarrow> objs (dv_kernel st') x = objs (dv_kernel st) x) \<and> dev_flag (dv_dev st' n) = flags)"
proof -
  obtain k1 where f: "rt_device_find name st = Some (List.find (dev_named a (dv_kernel st)) (dev_list st), st\<lparr>dv_kernel := k1\<rparr>)"
    and k1: "kinv k1" "objs k1 = objs (dv_kernel st)" "olist k1 = olist (dv_kernel st)"
    using device_find_ok[OF k s] by (auto simp: dev_list_def)
  show ?thesis
  proof (cases "\<exists>x \<in> set (dev_list st). dev_named a (dv_kernel st) x")
    case True
    then have "List.find (dev_named a (dv_kernel st)) (dev_list st) \<noteq> None" by (auto simp: find_None_iff simp del: not_None_eq)
    then have "rt_device_register (Some n) name flags st = Some (- 1, st\<lparr>dv_kernel := k1\<rparr>)"
      using f by (simp add: rt_device_register_def)
    then show ?thesis using True k1 by (simp add: dev_list_def)
  next
    case False
    then have none: "List.find (dev_named a (dv_kernel st)) (dev_list st) = None" by (simp add: find_None_iff)
    obtain nm where nm: "rt_strncpy name 16 = Some nm" using rt_strncpy_cstr[OF s] by blast
    define k2 where "k2 = k1\<lparr>objs := (objs k1)(ODev n := (objs k1 (ODev n))\<lparr>ob_type := of_nat 9 OR 0x80, ob_name := nm\<rparr>),
      olist := (olist k1)\<lparr>ls_q := (ls_q (olist k1))(9 := ODev n # ls_q (olist k1) 9),
        ls_in := (ls_in (olist k1))(ODev n := Some 9)\<rparr>\<rparr>"
    have k2: "rt_object_init (ODev n) 9 name k1 = Some k2" using nm n(1) k1(3) by (simp add: object_init_Some k2_def)
    let ?st = "(upd_dev n (\<lambda>d. d\<lparr>dev_flag := flags, dev_ref_count := 0, dev_open_flag := 0, dev_fops := None\<rparr>)
      (st\<lparr>dv_kernel := k2\<rparr>))\<lparr>dv_queues := (dv_queues st)\<lparr>wq_flag := (wq_flag (dv_queues st))(dev_queue n := 0)\<rparr>\<rparr>"
    have r: "rt_device_register (Some n) name flags st = Some (0, ?st)"
      using f none k2 n(2) by (simp add: rt_device_register_def rt_wqueue_init_def ls_init_head_def)
    have "kinv k2" by (rule kinv_object_init(1)[OF k1(1) _ k2]) simp
    moreover have "dev_named a k2 (ODev n)" using cname_strncpy[OF s nm] by (simp add: dev_named_def k2_def)
    ultimately show ?thesis using False r register_users[OF r] k1
      by (intro exI[of _ 0] exI[of _ ?st]) (simp add: dev_list_def k2_def)
  qed
qed

subsection \<open>An example\<close>

definition ex_devs :: "unit devices" where
  "ex_devs = \<lparr>dv_kernel = ex_kernel, dv_dev = (\<lambda>_. zero_device), dv_queues = ex_wqs [], dv_user = ()\<rparr>"

text \<open>A driver whose close fails with \<open>e\<close>.\<close>

definition ex_driver :: "rt_err_t \<Rightarrow> unit driver" where
  "ex_driver e = \<lparr>drv_init = (\<lambda>f n st. Some (0, st)), drv_open = (\<lambda>f n fl st. Some (0, st)), drv_close = (\<lambda>f n st. Some (e, st)),
     drv_read = (\<lambda>f n pos sz st. Some ((0, []), st)), drv_write = (\<lambda>f n pos b sz st. Some (sz, st)),
     drv_control = (\<lambda>f n cmd arg st. Some (0, st))\<rparr>"

lemma ex_devs_facts:
  "kinv (dv_kernel ex_devs)" "ls_in (olist (dv_kernel ex_devs)) (ODev n) = None"
  "ls_q (waiting_list (dv_queues ex_devs)) (dev_queue n) = []" "dev_list ex_devs = []" "cstr [112, 0] [112]"
  by (simp_all add: ex_devs_def ex_wqs_def dev_list_def ex_kernel_inv cstr_def)
    (simp_all add: ex_kernel_def ex_olist_def)

lemma ex_driver_ok: "driver_ok n (ex_driver 0)"
  by (simp add: driver_ok_def ex_driver_def done_ok_def)

lemma ex_opens:
  assumes "dev_users n 0 st" "dev_close (dv_dev st n) = c"
  shows "\<exists>st'. rt_device_open (ex_driver e) n 0 st = Some (0, st') \<and> dev_close (dv_dev st' n) = c"
  using assms
  by (cases "dev_init (dv_dev st n)"; cases "dev_open (dv_dev st n)"; cases "dev_flag (dv_dev st n) AND 0x10 = 0")
    (auto simp: rt_device_open_def dev_activate_def dev_users_def ex_driver_def unat_eq_0)

subsection \<open>The users of a device\<close>



subsection \<open>Registration\<close>

text \<open>Registering a device ends on every branch. A device whose name (its first 16 bytes) is in use is refused, with the
  error for that and nothing changed; any other becomes the first of its list, has its name, flags and no user, and is what
  \<open>rt_device_find\<close> then gives for the name; no other object changes. Registered a second time, the name is refused.\<close>

theorem device_register_outcomes:
  assumes "kinv (dv_kernel st)" "cstr name a"
    "ls_in (olist (dv_kernel st)) (ODev n) = None" "ls_q (waiting_list (dv_queues st)) (dev_queue n) = []"
  shows "\<exists>e st'. rt_device_register (Some n) name flags st = Some (e, st') \<and>
    (if \<exists>x \<in> set (dev_list st). dev_named a (dv_kernel st) x
     then e = - RT_ERROR \<and> dev_list st' = dev_list st \<and> objs (dv_kernel st') = objs (dv_kernel st) \<and> dv_dev st' = dv_dev st
     else e = RT_EOK \<and> dev_list st' = ODev n # dev_list st \<and> is_device n st' \<and>
       dev_flag (dv_dev st' n) = flags \<and> dev_ref_count (dv_dev st' n) = 0 \<and>
       (\<forall>x. x = ODev n \<or> objs (dv_kernel st') x = objs (dv_kernel st) x) \<and>
       (\<exists>k'. rt_device_find name st' = Some (Some (ODev n), st'\<lparr>dv_kernel := k'\<rparr>)) \<and>
       (\<forall>m. \<exists>st''. rt_device_register (Some m) name flags st' = Some (- RT_ERROR, st'')))"
proof -
  obtain e st' where r: "rt_device_register (Some n) name flags st = Some (e, st')" "kinv (dv_kernel st')"
    and c: "if \<exists>x \<in> set (dev_list st). dev_named a (dv_kernel st) x
     then e = - 1 \<and> dev_list st' = dev_list st \<and> objs (dv_kernel st') = objs (dv_kernel st) \<and> dv_dev st' = dv_dev st
     else e = 0 \<and> dev_list st' = ODev n # dev_list st \<and> dev_named a (dv_kernel st') (ODev n) \<and> dev_users n 0 st' \<and>
       (\<forall>x. x \<noteq> ODev n \<longrightarrow> objs (dv_kernel st') x = objs (dv_kernel st) x) \<and> dev_flag (dv_dev st' n) = flags"
    using register_ok[OF assms, of flags] by blast
  obtain k' where f: "rt_device_find name st' = Some (List.find (dev_named a (dv_kernel st')) (dev_list st'), st'\<lparr>dv_kernel := k'\<rparr>)"
    using device_find_ok[OF r(2) assms(2)] by (auto simp: dev_list_def)
  show ?thesis
  proof (cases "\<exists>x \<in> set (dev_list st). dev_named a (dv_kernel st) x")
    case True
    then show ?thesis using r(1) c by auto
  next
    case False
    then have d: "rt_device_find name st' = Some (Some (ODev n), st'\<lparr>dv_kernel := k'\<rparr>)" using c f by simp
    then have "rt_device_register (Some m) name flags st' = Some (- 1, st'\<lparr>dv_kernel := k'\<rparr>)" for m
      by (simp add: rt_device_register_def)
    then show ?thesis using False r(1) c d by (auto simp: dev_users_def unat_eq_0)
  qed
qed

theorem device_register_outcomes_witness:
  "\<exists>st. rt_device_register (Some 0) [112, 0] 8 ex_devs = Some (0, st) \<and> dev_list st = [ODev 0] \<and> is_device 0 st \<and>
     (\<exists>k. rt_device_find [112, 0] st = Some (Some (ODev 0), st\<lparr>dv_kernel := k\<rparr>)) \<and>
     (\<exists>st2. rt_device_register (Some 1) [112, 0] 8 st = Some (- 1, st2))"
proof -
  obtain e st where "rt_device_register (Some 0) [112, 0] 8 ex_devs = Some (e, st)" "e = 0" "dev_list st = [ODev 0]"
    "is_device 0 st" "\<exists>k. rt_device_find [112, 0] st = Some (Some (ODev 0), st\<lparr>dv_kernel := k\<rparr>)"
    "\<forall>m. \<exists>st2. rt_device_register (Some m) [112, 0] 8 st = Some (- 1, st2)"
    using device_register_outcomes[OF ex_devs_facts(1,5,2,3), of 0 8] ex_devs_facts(4) by auto
  then show ?thesis by blast
qed

subsection \<open>Errors\<close>

text \<open>The life of a device that comes from \<open>rt_device_create\<close>.\<close>

inductive dev_life :: "nat \<Rightarrow> 'u devices \<Rightarrow> bool" for n where
  life_create: "rt_device_create malloc sizeof_device typ attach_size st = (Some n, st') \<Longrightarrow> dev_life n st'"
| life_register: "dev_life n st \<Longrightarrow> rt_device_register (Some n) name flags st = Some (e, st') \<Longrightarrow> dev_life n st'"
| life_unregister: "dev_life n st \<Longrightarrow> rt_device_unregister n st = Some (e, st') \<Longrightarrow> dev_life n st'"
| life_other: "dev_life n st \<Longrightarrow> objs (dv_kernel st') (ODev n) = objs (dv_kernel st) (ODev n) \<Longrightarrow> dev_life n st'"

lemma remove_objs: "rt_schedule_remove_thread x k = Some k' \<Longrightarrow> objs k' = objs k"
  by (auto simp: rt_schedule_remove_thread_def bind_eq_Some_conv Let_def split: if_splits)

lemma insert_objs: "rt_schedule_insert_thread x k = Some k' \<Longrightarrow> objs k' = objs k"
  by (auto simp: rt_schedule_insert_thread_def bind_eq_Some_conv Let_def split: if_splits)

lemma schedule_objs: "rt_schedule k = Some k' \<Longrightarrow> objs k' = objs k"
  by (auto simp: rt_schedule_def bind_eq_Some_conv Let_def dest!: remove_objs insert_objs split: if_splits)

lemma device_find_objs:
  assumes "rt_device_find name st = Some (r, st')"
  shows "objs (dv_kernel st') = objs (dv_kernel st)"
proof -
  obtain k where "rt_exit_critical (rt_enter_critical (dv_kernel st)) = Some k \<or> k = dv_kernel st" "dv_kernel st' = k"
    using assms by (auto simp: rt_device_find_def rt_thread_self_def rt_enter_critical_def bind_eq_Some_conv Let_def split: if_splits)
  then show ?thesis
    by (auto simp: rt_exit_critical_def rt_enter_critical_def Let_def dest!: schedule_objs split: if_splits)
qed

lemma life_static:
  assumes "dev_life n st"
  shows "is_device n st \<Longrightarrow> rt_object_is_systemobject (ODev n) (dv_kernel st)"
  using assms
proof (induction rule: dev_life.induct)
  case (life_create malloc sizeof_device ty attach_size st st')
  then show ?case
    by (auto simp: rt_device_create_def Let_def is_device_def rt_object_get_type_def clear_block_def zero_object_def
        split: option.splits)
next
  case (life_register st name flags e st')
  obtain r st1 where f: "rt_device_find name st = Some (r, st1)" using life_register.hyps(2)
    by (auto simp: rt_device_register_def bind_eq_Some_conv)
  consider "st' = st1" | k where "rt_object_init (ODev n) 9 name (dv_kernel st1) = Some k" "dv_kernel st' = k"
    using life_register.hyps(2) f by (auto simp: rt_device_register_def bind_eq_Some_conv split: if_splits)
  then show ?case
  proof cases
    case 1
    then show ?thesis using life_register.IH life_register.prems device_find_objs[OF f]
      by (simp add: is_device_def rt_object_get_type_def rt_object_is_systemobject_def)
  next
    case 2
    then show ?thesis using object_init_type(2) by blast
  qed
next
  case (life_unregister st e st')
  then show ?case
    by (auto simp: rt_device_unregister_def bind_eq_Some_conv is_device_def rt_object_get_type_def rt_object_detach_def)
next
  case (life_other st st')
  then show ?case by (simp add: is_device_def rt_object_get_type_def rt_object_is_systemobject_def)
qed

lemma kinv_clear_device:
  assumes "kinv k" "ls_in (olist k) (ODev n) = None"
  shows "kinv (k\<lparr>objs := (objs k)(ODev n := zero_object)\<rparr>)"
proof -
  have "obj_inv (k\<lparr>objs := (objs k)(ODev n := zero_object)\<rparr>)"
    using kinvD(1)[OF assms(1)] assms(2) by (auto simp: obj_inv_def obj_ok_def zero_object_def)
  then show ?thesis using kinv_objs[OF assms(1), of "ODev n" "(objs k)(ODev n := zero_object)" "olist k"] by simp
qed

text \<open>\<open>rt_device_destroy\<close> can never succeed. A device that comes from \<open>rt_device_create\<close> has no class until it is
  registered, is a system object from then on, and has no class again when it is unregistered: one of the two assertions
  fails in every state, so that the memory of a created device is never freed.\<close>

theorem device_destroy_never:
  assumes "dev_life n st"
  shows "rt_device_destroy n st = None"
  using life_static[OF assms] by (simp add: rt_device_destroy_def RT_ASSERT_def)

theorem device_destroy_never_witness:
  "\<exists>st e st'. rt_device_create (\<lambda>_. Some 3) 100 2 0 ex_devs = (Some 3, st) \<and>
     rt_device_register (Some 3) [112, 0] 0 st = Some (e, st') \<and> rt_device_destroy 3 st = None \<and> rt_device_destroy 3 st' = None"
proof -
  obtain st where st: "rt_device_create (\<lambda>_. Some 3) 100 2 0 ex_devs = (Some 3, st)"
    by (simp add: rt_device_create_def Let_def)
  have k: "dv_kernel st = (dv_kernel ex_devs)\<lparr>objs := (objs (dv_kernel ex_devs))(ODev 3 := zero_object)\<rparr>"
    "dv_queues st = dv_queues ex_devs"
    using st by (auto simp: rt_device_create_def Let_def clear_block_def)
  have kd: "kinv (dv_kernel st)" using kinv_clear_device[OF ex_devs_facts(1,2)] k(1) by simp
  obtain e st' where r: "rt_device_register (Some 3) [112, 0] 0 st = Some (e, st')"
    using register_ok[OF kd ex_devs_facts(5), of 3 0] k ex_devs_facts(2,3) by auto
  note l = life_create[OF st]
  show ?thesis using st r device_destroy_never[OF l] device_destroy_never[OF life_register[OF l r]] by blast
qed

text \<open>When the close function of the driver of a stand-alone device fails on the last close, the device is out of order:
  it has no user, but keeps its open flag, so that every later open is refused as busy and every later close as not open.\<close>

theorem device_close_failure_wedges:
  assumes "is_device n st" "dev_ref_count (dv_dev st n) = 1" "dev_close (dv_dev st n) = Some f"
    "dev_flag (dv_dev st n) AND RT_DEVICE_FLAG_STANDALONE \<noteq> 0" "dev_flag (dv_dev st n) AND RT_DEVICE_FLAG_ACTIVATED \<noteq> 0"
    "dev_open_flag (dv_dev st n) AND RT_DEVICE_OFLAG_OPEN \<noteq> 0"
    "drv_close drv f n (upd_dev n (\<lambda>d. d\<lparr>dev_ref_count := 0\<rparr>) st) = Some (e, st')"
    "dev_keeps n (upd_dev n (\<lambda>d. d\<lparr>dev_ref_count := 0\<rparr>) st) st'" "\<not> done_ok e"
  shows "rt_device_close drv n st = Some (e, st') \<and> rt_device_close drv n st' = Some (- RT_ERROR, st') \<and>
    rt_device_open drv n oflag st' = Some (- RT_EBUSY, st')"
proof -
  have "is_device n st'" "dev_ref_count (dv_dev st' n) = 0" "dev_flag (dv_dev st' n) = dev_flag (dv_dev st n)"
    "dev_open_flag (dv_dev st' n) AND 8 \<noteq> 0"
    using assms(1,6,8) by (auto simp: dev_keeps_def)
  then show ?thesis using assms(1-5,7,9)
    by (simp add: rt_device_close_def rt_device_open_def dev_activate_def done_ok_def)
qed

definition ex_wedge :: "unit devices" where
  "ex_wedge = ex_devs\<lparr>dv_kernel := ex_ipc (ODev 0) 9 0 ex_kernel,
     dv_dev := (\<lambda>_. zero_device\<lparr>dev_flag := 0x18, dev_open_flag := 8, dev_ref_count := 1, dev_close := Some 0\<rparr>)\<rparr>"

theorem device_close_failure_wedges_witness:
  "\<exists>st. rt_device_close (ex_driver (- 8)) 0 ex_wedge = Some (- 8, st) \<and>
     rt_device_close (ex_driver (- 8)) 0 st = Some (- 1, st) \<and> rt_device_open (ex_driver (- 8)) 0 0 st = Some (- 7, st)"
proof -
  let ?st = "upd_dev 0 (\<lambda>d. d\<lparr>dev_ref_count := 0\<rparr>) ex_wedge"
  have d: "is_device 0 ex_wedge"
    by (simp add: ex_wedge_def is_device_def ex_ipc_def rt_object_get_type_def)
  have f: "dev_ref_count (dv_dev ex_wedge 0) = 1" "dev_close (dv_dev ex_wedge 0) = Some 0"
    "dev_flag (dv_dev ex_wedge 0) AND 8 \<noteq> 0" "dev_flag (dv_dev ex_wedge 0) AND 0x10 \<noteq> 0"
    "dev_open_flag (dv_dev ex_wedge 0) AND 8 \<noteq> 0" "drv_close (ex_driver (- 8)) 0 0 ?st = Some (- 8, ?st)" "\<not> done_ok (- 8)"
    by (simp_all add: ex_wedge_def ex_driver_def done_ok_def)
  show ?thesis using device_close_failure_wedges[OF d f(1-6) dev_keeps_refl(1) f(7)] by blast
qed

end
