(* ===== verification/Dfs_Path.thy ===== *)
theory Dfs_Path
  imports Kservice
begin

text \<open>
  Paths of the virtual file system (\<open>dfs_normalize_path\<close> and \<open>dfs_subdir\<close> of \<open>components/dfs/src/dfs.c\<close>).

  \<open>dfs_normalize_path\<close> works in place in one buffer: \<open>src\<close> and \<open>dst\<close> are indices into it, and an access outside the
  buffer is \<open>None\<close>. The lemmas show that the loop computes the walk over the components of the path that \<open>path_walk\<close>
  is, that \<open>src\<close> is never behind \<open>dst\<close>, and what happens when \<open>..\<close> is met in the root.
\<close>

subsection \<open>The code\<close>

abbreviation (input) SLASH :: u8 where "SLASH \<equiv> 47"
abbreviation (input) DOT :: u8 where "DOT \<equiv> 46"

definition buf_get :: "u8 list \<Rightarrow> nat \<Rightarrow> u8 option" where
  "buf_get b i = (if i < length b then Some (b ! i) else None)"

definition buf_set :: "u8 list \<Rightarrow> nat \<Rightarrow> u8 \<Rightarrow> u8 list option" where
  "buf_set b i c = (if i < length b then Some (b[i := c]) else None)"

partial_function (option) skip_slashes :: "u8 list \<Rightarrow> nat \<Rightarrow> nat option" where
  "skip_slashes b src = do { c \<leftarrow> buf_get b src; if c = SLASH then skip_slashes b (src + 1) else Some src }"

text \<open>The tests at the head of the loop: copy on from \<open>src\<close>, start again at \<open>src\<close>, or go up and on at \<open>src\<close>.\<close>

datatype path_move = Path_copy nat | Path_again nat | Path_up nat

definition path_head :: "u8 list \<Rightarrow> nat \<Rightarrow> path_move option" where
  "path_head b src =
     do { c \<leftarrow> buf_get b src;
          if c = DOT
          then do { c1 \<leftarrow> buf_get b (src + 1);
                    if c1 = 0 then Some (Path_copy (src + 1))
                    else if c1 = SLASH then do { s \<leftarrow> skip_slashes b (src + 2); Some (Path_again s) }
                    else if c1 = DOT
                    then do { c2 \<leftarrow> buf_get b (src + 2);
                              if c2 = 0 then Some (Path_up (src + 2))
                              else if c2 = SLASH then do { s \<leftarrow> skip_slashes b (src + 3); Some (Path_up s) }
                              else Some (Path_copy src) }
                    else Some (Path_copy src) }
          else Some (Path_copy src) }"

text \<open>The copy of one component: the character that ends it, the buffer, and the two indices.\<close>

partial_function (option) path_copy :: "u8 list \<Rightarrow> nat \<Rightarrow> nat \<Rightarrow> (u8 \<times> u8 list \<times> nat \<times> nat) option" where
  "path_copy b src dst =
     do { c \<leftarrow> buf_get b src;
          if c \<noteq> 0 \<and> c \<noteq> SLASH
          then do { b \<leftarrow> buf_set b dst c; path_copy b (src + 1) (dst + 1) }
          else Some (c, b, src + 1, dst) }"

text \<open>\<open>up_one\<close>: \<open>None\<close> in the result is the return of \<open>NULL\<close>.\<close>

primrec path_back :: "u8 list \<Rightarrow> nat \<Rightarrow> nat option" where
  "path_back b 0 = Some 0"
| "path_back b (Suc n) = do { c \<leftarrow> buf_get b n; if c \<noteq> SLASH then path_back b n else Some (Suc n) }"

definition path_up :: "u8 list \<Rightarrow> nat \<Rightarrow> nat option option" where
  "path_up b dst = (case dst of 0 \<Rightarrow> Some None | Suc n \<Rightarrow> do { d \<leftarrow> path_back b n; Some (Some d) })"

partial_function (option) path_loop :: "u8 list \<Rightarrow> nat \<Rightarrow> nat \<Rightarrow> (u8 list \<times> nat) option option" where
  "path_loop b src dst =
     do { h \<leftarrow> path_head b src;
          case h of
            Path_again s \<Rightarrow> path_loop b s dst
          | Path_up s \<Rightarrow>
              do { d \<leftarrow> path_up b dst;
                   case d of None \<Rightarrow> Some None | Some dst \<Rightarrow> path_loop b s dst }
          | Path_copy s \<Rightarrow>
              do { (c, b, src, dst) \<leftarrow> path_copy b s dst;
                   if c = SLASH
                   then do { b \<leftarrow> buf_set b dst SLASH;
                             src \<leftarrow> skip_slashes b src;
                             path_loop b src (dst + 1) }
                   else Some (Some (b, dst)) } }"

text \<open>The end of the function. With \<open>dst\<close> at the start, \<open>*--dst\<close> is the byte in front of the buffer.\<close>

definition path_end :: "u8 list \<Rightarrow> nat \<Rightarrow> u8 list option" where
  "path_end b dst =
     do { b \<leftarrow> buf_set b dst 0;
          if dst = 0 then None
          else do { c \<leftarrow> buf_get b (dst - 1);
                    b \<leftarrow> (if dst - 1 \<noteq> 0 \<and> c = SLASH then buf_set b (dst - 1) 0 else Some b);
                    c \<leftarrow> buf_get b 0;
                    if c = 0 then do { b \<leftarrow> buf_set b 0 SLASH; buf_set b 1 0 } else Some b } }"

text \<open>
  The arguments are the memory from the pointer on, \<open>mem\<close> says whether there is memory for the path, and
  \<open>rt_snprintf\<close> with the format \<open>%s/%s\<close> joins two strings.
\<close>

definition dfs_normalize_path :: "bool \<Rightarrow> u8 list \<Rightarrow> u8 list option \<Rightarrow> u8 list \<Rightarrow> u8 list option option" where
  "dfs_normalize_path mem working_directory directory filename =
     do { let directory = (case directory of None \<Rightarrow> working_directory | Some d \<Rightarrow> d);
          c \<leftarrow> buf_get filename 0;
          fullpath \<leftarrow> (if c \<noteq> SLASH
            then do { n \<leftarrow> rt_strlen directory; m \<leftarrow> rt_strlen filename;
                      Some (take n directory @ [SLASH] @ take m filename @ [0]) }
            else do { m \<leftarrow> rt_strlen filename; Some (take (m + 1) filename) });
          if \<not> mem then Some None
          else do { r \<leftarrow> path_loop fullpath 0 0;
                    case r of None \<Rightarrow> Some None
                    | Some (b, dst) \<Rightarrow> do { b \<leftarrow> path_end b dst; Some (Some b) } } }"

text \<open>The result is an index into \<open>filename\<close>.\<close>

definition dfs_subdir :: "u8 list \<Rightarrow> u8 list \<Rightarrow> nat option option" where
  "dfs_subdir directory filename =
     do { n \<leftarrow> rt_strlen directory;
          m \<leftarrow> rt_strlen filename;
          if n = m then Some None
          else do { c \<leftarrow> buf_get filename n;
                    Some (Some (if c \<noteq> SLASH \<and> n \<noteq> 0 then n - 1 else n)) } }"

subsection \<open>Components of a path\<close>

fun path_split :: "u8 list \<Rightarrow> u8 list list" where
  "path_split [] = [[]]"
| "path_split (c # s) =
     (if c = SLASH then [] # path_split s
      else case path_split s of [] \<Rightarrow> [[c]] | x # xs \<Rightarrow> (c # x) # xs)"

fun path_join :: "u8 list list \<Rightarrow> u8 list" where
  "path_join [] = []"
| "path_join [c] = c"
| "path_join (c # d # cs) = c @ SLASH # path_join (d # cs)"

text \<open>
  The walk over the components from a directory, given by whether it is below the root and by its components. In the
  root, \<open>..\<close> gives up the root; without it, \<open>..\<close> fails.
\<close>

fun path_walk :: "bool \<Rightarrow> u8 list list \<Rightarrow> u8 list list \<Rightarrow> (bool \<times> u8 list list) option" where
  "path_walk r cs [] = Some (r, cs)"
| "path_walk r cs (d # ds) =
     (if d = [] \<or> d = [DOT] then path_walk r cs ds
      else if d = [DOT, DOT]
      then if cs \<noteq> [] then path_walk r (butlast cs) ds else if r then path_walk False [] ds else None
      else path_walk r (cs @ [d]) ds)"

definition path_text :: "bool \<Rightarrow> u8 list list \<Rightarrow> u8 list" where
  "path_text r cs = (if r then [SLASH] else []) @ path_join cs"

text \<open>What the buffer has in front of \<open>dst\<close>: every component ends with a slash.\<close>

definition path_done :: "bool \<Rightarrow> u8 list list \<Rightarrow> u8 list" where
  "path_done r cs = (if r then [SLASH] else []) @ concat (map (\<lambda>c. c @ [SLASH]) cs)"

subsection \<open>The loop\<close>

lemma buf_get_append [simp]: "buf_get (xs @ c # ys) (length xs) = Some c"
  by (simp add: buf_get_def)

lemma buf_get_at: "i = length xs \<Longrightarrow> buf_get (xs @ c # ys) i = Some c"
  by simp

lemma buf_set_at: "i = length xs \<Longrightarrow> buf_set (xs @ d # ys) i c = Some (xs @ c # ys)"
  by (simp add: buf_set_def)

lemma skip_slashes_ok:
  "hd (s @ [0]) \<noteq> SLASH \<Longrightarrow>
    skip_slashes (xs @ replicate k SLASH @ s @ 0 # ys) (length xs) = Some (length xs + k)"
proof (induction k arbitrary: xs)
  case 0
  then show ?case by (cases s) (auto simp: skip_slashes.simps[of "xs @ _"])
next
  case (Suc k)
  show ?case using Suc.IH[of "xs @ [SLASH]"] Suc.prems by (simp add: skip_slashes.simps[of "xs @ _"])
qed

lemma slashes_split: "\<exists>k t. s = replicate k SLASH @ t \<and> hd (t @ [0]) \<noteq> SLASH"
proof (induction s)
  case Nil
  show ?case by (intro exI[of _ 0] exI[of _ "[]"]) simp
next
  case (Cons c s)
  show ?case
  proof (cases "c = SLASH")
    case True
    then show ?thesis using Cons by (metis append_Cons replicate_Suc)
  next
    case False
    then show ?thesis by (intro exI[of _ 0] exI[of _ "c # s"]) simp
  qed
qed

text \<open>The copy of a component: what is between \<open>dst\<close> and \<open>src\<close> keeps its length.\<close>

lemma path_copy_ok:
  assumes "SLASH \<notin> set d" "0 \<notin> set d" "t = 0 \<or> t = SLASH"
  shows "\<exists>gap'. length gap' = length gap \<and>
    path_copy (os @ gap @ d @ t # ys) (length os + length gap) (length os) =
      Some (t, os @ d @ gap' @ t # ys, length os + length gap + length d + 1, length os + length d)"
  using assms
proof (induction d arbitrary: os gap)
  case Nil
  have "buf_get (os @ gap @ t # ys) (length os + length gap) = Some t" using buf_get_append[of "os @ gap" t ys] by simp
  then show ?case using Nil by (intro exI[of _ gap]) (auto simp: path_copy.simps[of "os @ _"])
next
  case (Cons c d)
  have g: "buf_get (os @ gap @ c # d @ t # ys) (length os + length gap) = Some c"
    using buf_get_append[of "os @ gap" c "d @ t # ys"] by simp
  obtain x gap1 where x: "gap @ [c] = x # gap1" by (cases gap) auto
  then have e: "os @ gap @ c # d @ t # ys = os @ x # gap1 @ d @ t # ys" by (metis append_Cons append_assoc append_Nil)
  have s: "buf_set (os @ gap @ c # d @ t # ys) (length os) c = Some ((os @ [c]) @ gap1 @ d @ t # ys)"
    unfolding e by (simp add: buf_set_at)
  have l: "length gap1 = length gap" using arg_cong[OF x, of length] by simp
  obtain gap' where "length gap' = length gap1"
    "path_copy ((os @ [c]) @ gap1 @ d @ t # ys) (length (os @ [c]) + length gap1) (length (os @ [c])) =
      Some (t, (os @ [c]) @ d @ gap' @ t # ys, length (os @ [c]) + length gap1 + length d + 1, length (os @ [c]) + length d)"
    using Cons.IH[of gap1 "os @ [c]"] Cons.prems by auto
  then show ?case using Cons.prems g s l
    by (intro exI[of _ gap']) (simp add: path_copy.simps[of "os @ _"])
qed

lemma path_back_ok:
  assumes "SLASH \<notin> set d" "os = [] \<or> last os = SLASH"
  shows "path_back (os @ d @ ys) (length os + length d) = Some (length os)"
  using assms(1)
proof (induction d arbitrary: ys rule: rev_induct)
  case Nil
  show ?case
  proof (cases os rule: rev_cases)
    case (snoc zs z)
    then show ?thesis using assms(2) by simp
  qed simp
next
  case (snoc c d)
  have "buf_get (os @ (d @ [c]) @ ys) (length os + length d) = Some c" using buf_get_append[of "os @ d" c ys] by simp
  then show ?case using snoc.IH[of "c # ys"] snoc.prems by simp
qed


text \<open>The head of the loop, for the component \<open>d\<close> that \<open>t\<close> ends.\<close>

lemma buf_get_shift:
  "buf_get (xs @ zs) (length xs + i) = buf_get zs i" "buf_get (xs @ zs) (length xs) = buf_get zs 0"
  "buf_get (xs @ zs) (Suc (length xs)) = buf_get zs 1" "buf_get (xs @ zs) (Suc (Suc (length xs))) = buf_get zs 2"
  "buf_get (c # zs) 0 = Some c" "buf_get (c # zs) 1 = buf_get zs 0" "buf_get (c # zs) (Suc 0) = buf_get zs 0"
  "buf_get (c # zs) 2 = buf_get zs 1"
  by (auto simp: buf_get_def nth_append numeral_2_eq_2)

lemma path_head_ok:
  assumes "SLASH \<notin> set d" "0 \<notin> set d" "t = 0 \<or> t = SLASH"
  shows "path_head (xs @ d @ t # ys) (length xs) =
    (if d = [DOT]
     then if t = 0 then Some (Path_copy (length xs + 1))
          else do { s \<leftarrow> skip_slashes (xs @ d @ t # ys) (length xs + 2); Some (Path_again s) }
     else if d = [DOT, DOT]
     then if t = 0 then Some (Path_up (length xs + 2))
          else do { s \<leftarrow> skip_slashes (xs @ d @ t # ys) (length xs + 3); Some (Path_up s) }
     else Some (Path_copy (length xs)))"
proof -
  show ?thesis
  proof (cases d)
    case Nil
    then show ?thesis using assms by (auto simp: path_head_def buf_get_shift)
  next
    case a: (Cons a d1)
    show ?thesis
    proof (cases d1)
      case Nil
      then show ?thesis using assms a by (auto simp: path_head_def buf_get_shift)
    next
      case (Cons b d2)
      then show ?thesis using assms a by (cases d2) (auto simp: path_head_def buf_get_shift)
    qed
  qed
qed

lemma path_head_slash:
  assumes "SLASH \<notin> set d" "0 \<notin> set d" "skip_slashes (xs @ d @ SLASH # ys) (length xs + length d + 1) = Some n"
  shows "path_head (xs @ d @ SLASH # ys) (length xs) =
    Some (if d = [DOT] then Path_again n else if d = [DOT, DOT] then Path_up n else Path_copy (length xs))"
  using path_head_ok[OF assms(1,2), of SLASH xs ys] assms(3) by (auto simp: numeral_3_eq_3)

definition comps_ok :: "u8 list list \<Rightarrow> bool" where
  "comps_ok cs \<longleftrightarrow> (\<forall>c \<in> set cs. c \<noteq> [] \<and> SLASH \<notin> set c \<and> 0 \<notin> set c)"

lemma path_done_snoc: "path_done r (cs @ [d]) = path_done r cs @ d @ [SLASH]"
  by (simp add: path_done_def)

lemma path_done_last: "path_done r cs = [] \<or> last (path_done r cs) = SLASH"
  by (cases cs rule: rev_cases) (auto simp: path_done_def)

lemma path_up_ok:
  assumes "comps_ok cs"
  shows "path_up (path_done r cs @ ys) (length (path_done r cs)) =
    Some (if cs \<noteq> [] then Some (length (path_done r (butlast cs))) else if r then Some 0 else None)"
proof (cases cs rule: rev_cases)
  case (snoc as d)
  have "SLASH \<notin> set d" using assms snoc by (simp add: comps_ok_def)
  then have "path_back (path_done r as @ d @ SLASH # ys) (length (path_done r as) + length d) = Some (length (path_done r as))"
    by (rule path_back_ok) (rule path_done_last)
  then show ?thesis using snoc by (simp add: path_up_def path_done_snoc)
qed (simp add: path_up_def path_done_def)

text \<open>The result of the loop for the rest \<open>s\<close> of the path: the buffer holds what the walk gives, with or without a last slash.\<close>

definition path_gives :: "bool \<Rightarrow> u8 list list \<Rightarrow> u8 list \<Rightarrow> (u8 list \<times> nat) option option \<Rightarrow> bool" where
  "path_gives r cs s res \<longleftrightarrow>
     (case path_walk r cs (path_split s) of
        None \<Rightarrow> res = Some None
      | Some (r', cs') \<Rightarrow> \<exists>os gap. res = Some (Some (os @ gap, length os)) \<and> gap \<noteq> [] \<and>
          (os = path_done r' cs' \<or> cs' \<noteq> [] \<and> os @ [SLASH] = path_done r' cs'))"

lemma path_split_append: "SLASH \<notin> set d \<Longrightarrow> path_split (d @ SLASH # s) = d # path_split s"
  by (induction d) auto

lemma path_split_single: "SLASH \<notin> set d \<Longrightarrow> path_split d = [d]"
  by (induction d) auto

lemma path_walk_slashes: "path_walk r cs (path_split (replicate k SLASH @ s)) = path_walk r cs (path_split s)"
  by (induction k) auto

lemma path_gives_cong:
  "path_walk r cs (path_split s) = path_walk r' cs' (path_split s') \<Longrightarrow> path_gives r cs s res = path_gives r' cs' s' res"
  by (simp add: path_gives_def)

definition path_loop_ok :: "bool \<Rightarrow> u8 list list \<Rightarrow> u8 list \<Rightarrow> bool" where
  "path_loop_ok r cs s \<longleftrightarrow> (\<forall>gap ys. path_gives r cs s
     (path_loop (path_done r cs @ gap @ s @ 0 # ys) (length (path_done r cs) + length gap) (length (path_done r cs))))"

lemma loop_at:
  "path_loop_ok r cs s \<Longrightarrow> path_gives r cs s
     (path_loop (path_done r cs @ gap @ s @ 0 # ys) (length (path_done r cs) + length gap) (length (path_done r cs)))"
  by (simp add: path_loop_ok_def)

text \<open>Going up, whatever ended the component.\<close>

lemma loop_up:
  assumes h: "path_head (path_done r cs @ gap @ w @ s @ 0 # ys) (length (path_done r cs) + length gap) =
      Some (Path_up (length (path_done r cs) + length gap + length w))"
    and c: "comps_ok cs" and s: "\<And>r' cs'. comps_ok cs' \<Longrightarrow> path_loop_ok r' cs' s"
    and e: "path_walk r cs (path_split t) =
      (if cs \<noteq> [] then path_walk r (butlast cs) (path_split s) else if r then path_walk False [] (path_split s) else None)"
  shows "path_gives r cs t (path_loop (path_done r cs @ gap @ w @ s @ 0 # ys)
    (length (path_done r cs) + length gap) (length (path_done r cs)))"
proof -
  let ?b = "path_done r cs @ gap @ w @ s @ 0 # ys"
  note u = path_up_ok[OF c, of r "gap @ w @ s @ 0 # ys"]
  have l: "path_loop ?b (length (path_done r cs) + length gap) (length (path_done r cs)) =
      (if cs \<noteq> [] then path_loop ?b (length (path_done r cs) + length gap + length w) (length (path_done r (butlast cs)))
       else if r then path_loop ?b (length (path_done r cs) + length gap + length w) 0 else Some None)"
    using h u by (subst path_loop.simps) auto
  consider as d where "cs = as @ [d]" | "cs = []" "r" | "cs = []" "\<not> r" by (cases cs rule: rev_cases) auto
  then show ?thesis
  proof cases
    case 1
    then have "comps_ok as" using c by (simp add: comps_ok_def)
    note loop_at[OF s[OF this], of r "d @ SLASH # gap @ w" ys]
    then show ?thesis using l e 1 path_gives_cong[of r cs t r as s] by (simp add: path_done_snoc add.assoc)
  next
    case 2
    have "path_loop_ok False [] s" by (rule s) (simp add: comps_ok_def)
    note loop_at[OF this, of "SLASH # gap @ w" ys]
    then show ?thesis using l e 2 path_gives_cong[of r cs t False "[]" s] by (simp add: path_done_def add.assoc)
  next
    case 3
    then show ?thesis using l e by (simp add: path_gives_def)
  qed
qed


text \<open>One component that is copied, together with the slash that ends it and the slashes behind it.\<close>

lemma loop_copy:
  assumes h: "path_head (path_done r cs @ gap @ d @ SLASH # s @ 0 # ys) (length (path_done r cs) + length gap) =
      Some (Path_copy (length (path_done r cs) + length gap))"
    and d: "SLASH \<notin> set d" "0 \<notin> set d" and s: "s = replicate k SLASH @ s'" "hd (s' @ [0]) \<noteq> SLASH"
    and ok: "path_loop_ok r (cs @ [d]) s'"
    and e: "path_walk r cs (path_split t) = path_walk r (cs @ [d]) (path_split s')"
  shows "path_gives r cs t (path_loop (path_done r cs @ gap @ d @ SLASH # s @ 0 # ys)
    (length (path_done r cs) + length gap) (length (path_done r cs)))"
proof -
  let ?os = "path_done r cs"
  obtain gap1 where c: "length gap1 = length gap"
    "path_copy (?os @ gap @ d @ SLASH # s @ 0 # ys) (length ?os + length gap) (length ?os) =
      Some (SLASH, ?os @ d @ gap1 @ SLASH # s @ 0 # ys, length ?os + length gap + length d + 1, length ?os + length d)"
    using path_copy_ok[OF d, of SLASH gap ?os "s @ 0 # ys"] by auto
  obtain x gap2 where x: "gap1 @ [SLASH] = x # gap2" by (cases gap1) auto
  then have g: "?os @ d @ gap1 @ SLASH # s @ 0 # ys = (?os @ d) @ x # gap2 @ s @ 0 # ys"
    by (metis append_Cons append_assoc append_Nil)
  have l: "length gap2 = length gap" using arg_cong[OF x, of length] c(1) by simp
  have w: "buf_set (?os @ d @ gap1 @ SLASH # s @ 0 # ys) (length ?os + length d) SLASH =
      Some (path_done r (cs @ [d]) @ gap2 @ s @ 0 # ys)"
    unfolding g using buf_set_at[of "length ?os + length d" "?os @ d"] by (simp add: path_done_snoc)
  have k: "skip_slashes (path_done r (cs @ [d]) @ gap2 @ s @ 0 # ys) (length ?os + length gap + length d + 1) =
      Some (length ?os + length gap + length d + 1 + k)"
    using skip_slashes_ok[OF s(2), of "path_done r (cs @ [d]) @ gap2" k ys] l by (simp add: s(1) path_done_snoc ac_simps)
  have "path_loop (?os @ gap @ d @ SLASH # s @ 0 # ys) (length ?os + length gap) (length ?os) =
      path_loop (path_done r (cs @ [d]) @ gap2 @ s @ 0 # ys) (length ?os + length gap + length d + 1 + k) (length ?os + length d + 1)"
    using h c(2) w k by (subst path_loop.simps) simp
  then show ?thesis
    using loop_at[OF ok, of "gap2 @ replicate k SLASH" ys] l path_gives_cong[OF e] by (simp add: s(1) path_done_snoc ac_simps)
qed

text \<open>The last component.\<close>

lemma loop_last:
  assumes h: "path_head (path_done r cs @ gap @ w @ d @ 0 # ys) (length (path_done r cs) + length gap) =
      Some (Path_copy (length (path_done r cs) + length gap + length w))"
    and d: "SLASH \<notin> set d" "0 \<notin> set d"
    and e: "path_walk r cs (path_split t) = Some (r, if d = [] then cs else cs @ [d])"
  shows "path_gives r cs t (path_loop (path_done r cs @ gap @ w @ d @ 0 # ys)
    (length (path_done r cs) + length gap) (length (path_done r cs)))"
proof -
  let ?os = "path_done r cs"
  obtain gap1 where c: "path_copy (?os @ (gap @ w) @ d @ 0 # ys) (length ?os + length (gap @ w)) (length ?os) =
      Some (0, ?os @ d @ gap1 @ 0 # ys, length ?os + length (gap @ w) + length d + 1, length ?os + length d)"
    using path_copy_ok[OF d, of 0 "gap @ w" ?os ys] by auto
  have "path_loop (?os @ gap @ w @ d @ 0 # ys) (length ?os + length gap) (length ?os) =
      Some (Some (?os @ d @ gap1 @ 0 # ys, length ?os + length d))"
    using h c by (subst path_loop.simps) (simp add: add.assoc)
  then show ?thesis
    unfolding path_gives_def e
    by (cases "d = []") (simp_all, (rule exI[of _ "?os @ d"], rule exI[of _ "gap1 @ 0 # ys"], simp add: path_done_snoc)+)
qed

lemma component_split: "\<exists>d. SLASH \<notin> set d \<and> (s = d \<or> (\<exists>s'. s = d @ SLASH # s'))"
proof (cases "SLASH \<in> set s")
  case True
  then show ?thesis by (metis split_list_first)
qed blast

text \<open>The whole of one round, for a component that ends the path and for one with a slash behind it.\<close>

lemma loop_final:
  assumes d: "SLASH \<notin> set d" "0 \<notin> set d" and c: "comps_ok cs"
    and ih: "\<And>r' cs'. comps_ok cs' \<Longrightarrow> d = [DOT, DOT] \<Longrightarrow> path_loop_ok r' cs' []"
  shows "path_loop_ok r cs d"
  unfolding path_loop_ok_def
proof (intro allI)
  fix gap ys
  note h = path_head_ok[OF d, of 0 "path_done r cs @ gap" ys, simplified]
  note p = path_split_single[OF d(1)]
  consider "d = [DOT]" | "d = [DOT, DOT]" | "d \<noteq> [DOT]" "d \<noteq> [DOT, DOT]" by blast
  then show "path_gives r cs d (path_loop (path_done r cs @ gap @ d @ 0 # ys)
      (length (path_done r cs) + length gap) (length (path_done r cs)))"
  proof cases
    case 1
    then show ?thesis using loop_last[of r cs gap "[DOT]" "[]" ys d] h p by simp
  next
    case 2
    then show ?thesis using loop_up[of r cs gap "[DOT, DOT]" "[]" ys d] h p c ih by simp
  next
    case 3
    then show ?thesis using loop_last[of r cs gap "[]" d ys d] h p d by simp
  qed
qed

lemma loop_slash:
  assumes d: "SLASH \<notin> set d" "0 \<notin> set d" "d \<noteq> []" and c: "comps_ok cs"
    and s: "s1 = replicate k SLASH @ s'" "hd (s' @ [0]) \<noteq> SLASH"
    and ih: "\<And>r' cs'. comps_ok cs' \<Longrightarrow> path_loop_ok r' cs' s'"
  shows "path_loop_ok r cs (d @ SLASH # s1)"
  unfolding path_loop_ok_def
proof (intro allI)
  fix gap ys
  let ?s = "d @ SLASH # s1"
  let ?b = "path_done r cs @ gap @ ?s @ 0 # ys" and ?n = "length (path_done r cs) + length gap"
  have p: "path_walk r' cs' (path_split ?s) = path_walk r' cs' (d # path_split s')" for r' cs'
    using path_split_append[OF d(1), of s1] path_walk_slashes by (simp add: s(1))
  have sk: "skip_slashes ?b (?n + length d + 1) = Some (?n + length d + 1 + k)"
    using skip_slashes_ok[OF s(2), of "path_done r cs @ gap @ d @ [SLASH]" k ys] by (simp add: s(1) ac_simps)
  note h = path_head_slash[OF d(1,2), of "path_done r cs @ gap" "s1 @ 0 # ys" "?n + length d + 1 + k"]
  consider "d = [DOT]" | "d = [DOT, DOT]" | "d \<noteq> [DOT]" "d \<noteq> [DOT, DOT]" by blast
  then show "path_gives r cs ?s (path_loop ?b ?n (length (path_done r cs)))"
  proof cases
    case 1
    have "path_loop ?b ?n (length (path_done r cs)) = path_loop ?b (?n + 2 + k) (length (path_done r cs))"
      using h sk 1 by (subst path_loop.simps) simp
    then show ?thesis
      using loop_at[OF ih[OF c], of r "gap @ [DOT, SLASH] @ replicate k SLASH" ys]
        path_gives_cong[of r cs ?s r cs s'] p[of r cs] 1 by (simp add: s(1) ac_simps)
  next
    case 2
    then show ?thesis
      using loop_up[of r cs gap "[DOT, DOT, SLASH] @ replicate k SLASH" s' ys ?s, OF _ c ih] h sk p
      by (simp add: s(1) ac_simps)
  next
    case 3
    have "comps_ok (cs @ [d])" using c d by (auto simp: comps_ok_def)
    then show ?thesis using loop_copy[OF _ d(1,2) s ih, of r cs gap ys ?s] h sk p[of r cs] 3 d(3) by simp
  qed
qed

lemma path_loop_correct:
  assumes "comps_ok cs" "0 \<notin> set s" "hd (s @ [0]) \<noteq> SLASH"
  shows "path_loop_ok r cs s"
  using assms
proof (induction "length s" arbitrary: s r cs rule: less_induct)
  case less
  obtain d where d: "SLASH \<notin> set d" "s = d \<or> (\<exists>s'. s = d @ SLASH # s')" using component_split by blast
  have d0: "0 \<notin> set d" using d(2) less.prems(2) by auto
  show ?case
  proof (cases "s = d")
    case True
    show ?thesis unfolding True
      by (rule loop_final[OF d(1) d0 less.prems(1)]) (use less.hyps[of "[]"] True in simp)
  next
    case False
    then obtain s1 where s1: "s = d @ SLASH # s1" using d(2) by blast
    obtain k s' where s': "s1 = replicate k SLASH @ s'" "hd (s' @ [0]) \<noteq> SLASH" using slashes_split by blast
    have ne: "d \<noteq> []" using less.prems(3) s1 by auto
    show ?thesis unfolding s1
      by (rule loop_slash[OF d(1) d0 ne less.prems(1) s'])
        (use less.hyps[of s'] less.prems(2) s'(2) in \<open>simp add: s1 s'(1)\<close>)
  qed
qed

subsection \<open>The function\<close>

lemma path_done_text: "cs \<noteq> [] \<Longrightarrow> path_done r cs = path_text r cs @ [SLASH]"
proof -
  have "cs \<noteq> [] \<Longrightarrow> concat (map (\<lambda>c. c @ [SLASH]) cs) = path_join cs @ [SLASH]"
    by (induction cs rule: path_join.induct) auto
  then show "cs \<noteq> [] \<Longrightarrow> path_done r cs = path_text r cs @ [SLASH]" by (simp add: path_done_def path_text_def)
qed

lemma path_walk_ok:
  "comps_ok cs \<Longrightarrow> \<forall>d \<in> set ds. SLASH \<notin> set d \<and> 0 \<notin> set d \<Longrightarrow> path_walk r cs ds = Some (r', cs') \<Longrightarrow> comps_ok cs'"
proof (induction r cs ds rule: path_walk.induct)
  case (2 r cs d ds)
  have c: "comps_ok (butlast cs)" "comps_ok []" using 2(5) by (auto simp: comps_ok_def dest: in_set_butlastD)
  have d: "d \<noteq> [] \<Longrightarrow> comps_ok (cs @ [d])" using 2(5,6) by (auto simp: comps_ok_def)
  have s: "\<forall>d \<in> set ds. SLASH \<notin> set d \<and> 0 \<notin> set d" using 2(6) by simp
  consider "d = [] \<or> d = [DOT]" | "d = [DOT, DOT]" "cs \<noteq> []" | "d = [DOT, DOT]" "cs = []" "r"
    | "d = [DOT, DOT]" "cs = []" "\<not> r" | "\<not> (d = [] \<or> d = [DOT])" "d \<noteq> [DOT, DOT]" by blast
  then show ?case
  proof cases
    case 1
    then show ?thesis using 2(1)[OF _ 2(5) s] 2(7) by simp
  next
    case d2: 2
    then show ?thesis using 2(2)[OF _ _ _ c(1) s] 2(7) by simp
  next
    case d3: 3
    then show ?thesis using 2(3)[OF _ _ _ _ c(2) s] 2(7) by simp
  next
    case d4: 4
    then show ?thesis using 2(7) by simp
  next
    case d5: 5
    then show ?thesis using 2(4)[OF _ _ d s] 2(7) by simp
  qed
qed simp

lemma path_split_chars: "\<forall>d \<in> set (path_split s). SLASH \<notin> set d \<and> set d \<subseteq> set s"
  by (induction s) (auto split: list.splits)

lemma path_text_last: "comps_ok cs \<Longrightarrow> cs \<noteq> [] \<Longrightarrow> path_text r cs \<noteq> [] \<and> last (path_text r cs) \<noteq> SLASH \<and> hd (path_text r cs) \<noteq> 0 \<and> 0 \<notin> set (path_text r cs)"
proof -
  have "comps_ok cs \<Longrightarrow> cs \<noteq> [] \<Longrightarrow> path_join cs \<noteq> [] \<and> last (path_join cs) \<noteq> SLASH \<and> 0 \<notin> set (path_join cs)"
    by (induction cs rule: path_join.induct) (auto simp: comps_ok_def, metis last_in_set)
  then show "comps_ok cs \<Longrightarrow> cs \<noteq> [] \<Longrightarrow> path_text r cs \<noteq> [] \<and> last (path_text r cs) \<noteq> SLASH \<and> hd (path_text r cs) \<noteq> 0 \<and> 0 \<notin> set (path_text r cs)"
    by (auto simp: path_text_def) (metis hd_in_set)
qed

lemma path_end_at:
  assumes "0 \<notin> set os" "os \<noteq> []"
  shows "path_end (os @ c # ys) (length os) =
    Some (if length os \<noteq> 1 \<and> last os = SLASH then butlast os @ 0 # 0 # ys else os @ 0 # ys)"
proof -
  obtain zs z where o: "os = zs @ [z]" using assms(2) by (cases os rule: rev_cases) auto
  have h: "buf_get (os @ 0 # ys) 0 = Some (hd os)" "hd os \<noteq> 0" using assms by (cases os; auto simp: buf_get_def)+
  have h2: "buf_get (zs @ 0 # 0 # ys) 0 = Some (hd os) \<or> zs = []" by (cases zs) (auto simp: o buf_get_def)
  show ?thesis
    using h h2 buf_set_at[of "length os" os c ys 0] buf_get_append[of zs z "0 # ys"] buf_set_at[of "length zs" zs z "0 # ys" 0]
    by (auto simp: path_end_def o)
qed

lemma path_finish:
  assumes "comps_ok cs" "os = path_done r cs \<or> cs \<noteq> [] \<and> os @ [SLASH] = path_done r cs" "gap \<noteq> []"
  shows "if \<not> r \<and> cs = [] then path_end (os @ gap) (length os) = None
    else \<exists>b. path_end (os @ gap) (length os) = Some b \<and> cstr b (path_text r cs)"
proof (cases "cs = []")
  case True
  then show ?thesis using assms(2,3) by (cases gap) (auto simp: path_done_def path_text_def path_end_def cstr_def buf_set_def buf_get_def)
next
  case False
  note t = path_text_last[OF assms(1) False, of r]
  obtain c ys where g: "gap = c # ys" using assms(3) by (cases gap) auto
  have "os = path_text r cs @ [SLASH] \<or> os = path_text r cs" using assms(2) False by (auto simp: path_done_text)
  then have "\<exists>ys'. path_end (os @ gap) (length os) = Some (path_text r cs @ 0 # ys')"
    using t path_end_at[of os c ys] by (auto simp: g)
  then show ?thesis using False t by (auto simp: cstr_def)
qed

definition path_full :: "u8 list \<Rightarrow> u8 list \<Rightarrow> u8 list" where
  "path_full d f = (if hd (f @ [0]) = SLASH then f else d @ SLASH # f)"

lemma path_loop_start:
  assumes "0 \<notin> set s" "s \<noteq> []"
  shows "path_gives (hd s = SLASH) [] s (path_loop (s @ [0]) 0 0)"
proof (cases "hd s = SLASH")
  case False
  then have "path_loop_ok False [] s" using path_loop_correct[of "[]" s False] assms by (simp add: comps_ok_def)
  then show ?thesis using loop_at[of False "[]" s "[]" "[]"] False by (simp add: path_done_def)
next
  case True
  then obtain s1 where s1: "s = SLASH # s1" using assms(2) by (cases s) auto
  obtain k s' where s': "s1 = replicate k SLASH @ s'" "hd (s' @ [0]) \<noteq> SLASH" using slashes_split by blast
  have ok: "path_loop_ok True [] s'" using path_loop_correct[of "[]" s' True] assms(1) s'(2) by (simp add: comps_ok_def s1 s'(1))
  have h: "path_head (s @ [0]) 0 = Some (Path_copy 0)" by (simp add: s1 path_head_def buf_get_def)
  have c: "path_copy (s @ [0]) 0 0 = Some (SLASH, s @ [0], 1, 0)" by (subst path_copy.simps) (simp add: s1 buf_get_def)
  have w: "buf_set (s @ [0]) 0 SLASH = Some (s @ [0])" by (simp add: s1 buf_set_def)
  have "skip_slashes (s @ [0]) 1 = Some (1 + k)" using skip_slashes_ok[OF s'(2), of "[SLASH]" k "[]"] by (simp add: s1 s'(1))
  then have "path_loop (s @ [0]) 0 0 = path_loop (s @ [0]) (1 + k) 1" using h c w by (subst path_loop.simps) simp
  then show ?thesis
    using loop_at[OF ok, of "replicate k SLASH" "[]"] path_gives_cong[of True "[]" s True "[]" s'] path_walk_slashes[of True "[]" "Suc k" s']
    by (simp add: s1 s'(1) path_done_def)
qed

lemma normalize_walk:
  assumes "cstr wd w" "cstr filename f" "case directory of None \<Rightarrow> d = w | Some x \<Rightarrow> cstr x d"
  shows "case path_walk (hd (path_full d f) = SLASH) [] (path_split (path_full d f)) of
      None \<Rightarrow> dfs_normalize_path True wd directory filename = Some None
    | Some (r, cs) \<Rightarrow>
        if \<not> r \<and> cs = [] then dfs_normalize_path True wd directory filename = None
        else \<exists>b. dfs_normalize_path True wd directory filename = Some (Some b) \<and> cstr b (path_text r cs)"
proof -
  let ?s = "path_full d f"
  obtain wr fr where s: "filename = f @ 0 # fr" "0 \<notin> set f" using assms(2) by (auto simp: cstr_def)
  have f: "rt_strlen filename = Some (length f)" "buf_get filename 0 = Some (hd (f @ [0]))"
    using rt_strlen_cstr[OF assms(2)] by (cases f; simp add: s(1) buf_get_def)+
  have d: "cstr (case directory of None \<Rightarrow> wd | Some x \<Rightarrow> x) d" using assms(1,3) by (cases directory) auto
  then have l: "rt_strlen (case directory of None \<Rightarrow> wd | Some x \<Rightarrow> x) = Some (length d)"
    "take (length d) (case directory of None \<Rightarrow> wd | Some x \<Rightarrow> x) = d" "0 \<notin> set d"
    using rt_strlen_cstr[OF d] by (auto simp: cstr_def)
  have n: "dfs_normalize_path True wd directory filename =
      do { r \<leftarrow> path_loop (?s @ [0]) 0 0;
           case r of None \<Rightarrow> Some None | Some (b, dst) \<Rightarrow> do { b \<leftarrow> path_end b dst; Some (Some b) } }"
    using f l by (auto simp: dfs_normalize_path_def Let_def path_full_def s(1))
  have s0: "0 \<notin> set ?s" "?s \<noteq> []" using s(2) l(3) by (cases f; auto simp: path_full_def)+
  have g: "path_gives (hd ?s = SLASH) [] ?s (path_loop (?s @ [0]) 0 0)" by (rule path_loop_start[OF s0])
  show ?thesis
  proof (cases "path_walk (hd ?s = SLASH) [] (path_split ?s)")
    case None
    then show ?thesis using g n by (simp add: path_gives_def)
  next
    case (Some a)
    obtain r cs where a: "a = (r, cs)" by (cases a)
    have c: "comps_ok cs" using path_walk_ok[OF _ _ Some[unfolded a]] path_split_chars[of ?s] s0(1) by (auto simp: comps_ok_def)
    obtain os gap where o: "path_loop (?s @ [0]) 0 0 = Some (Some (os @ gap, length os))" "gap \<noteq> []"
      "os = path_done r cs \<or> cs \<noteq> [] \<and> os @ [SLASH] = path_done r cs"
      using g Some a by (auto simp: path_gives_def)
    show ?thesis using path_finish[OF c o(3,2)] n o(1) Some a by auto
  qed
qed


text \<open>C14. \<open>dfs_normalize_path\<close>, which rewrites the path in its buffer, computes the walk over its components: empty
  components and \<open>.\<close> are dropped and \<open>..\<close> removes the component before it. It always ends; it returns \<open>NULL\<close> exactly when
  \<open>..\<close> is met twice in the root, and reads in front of its buffer exactly when the path ends above the root.\<close>

theorem normalize_path_walk:
  assumes "cstr wd w" "cstr filename f" "case directory of None \<Rightarrow> d = w | Some x \<Rightarrow> cstr x d"
  shows "case path_walk (hd (path_full d f) = SLASH) [] (path_split (path_full d f)) of
      None \<Rightarrow> dfs_normalize_path True wd directory filename = Some None
    | Some (r, cs) \<Rightarrow>
        if \<not> r \<and> cs = [] then dfs_normalize_path True wd directory filename = None
        else \<exists>b. dfs_normalize_path True wd directory filename = Some (Some b) \<and> cstr b (path_text r cs)"
  by (rule normalize_walk[OF assms])

theorem normalize_path_walk_witness:
  "(\<exists>b. dfs_normalize_path True [47, 0] None [47, 97, 47, 46, 47, 98, 47, 47, 46, 46, 47, 99, 0] = Some (Some b) \<and>
     cstr b [47, 97, 47, 99]) \<and>
   (\<exists>b. dfs_normalize_path True [47, 100, 0] None [46, 46, 47, 97, 0] = Some (Some b) \<and> cstr b [47, 97])"
proof -
  have c: "cstr [47, 0] [47]" "cstr [47, 97, 47, 46, 47, 98, 47, 47, 46, 46, 47, 99, 0] [47, 97, 47, 46, 47, 98, 47, 47, 46, 46, 47, 99]"
    "cstr [47, 100, 0] [47, 100]" "cstr [46, 46, 47, 97, 0] [46, 46, 47, 97]" by (simp_all add: cstr_def)
  from normalize_path_walk[OF c(1,2), where directory = None and d = "[47]"]
    normalize_path_walk[OF c(3,4), where directory = None and d = "[47, 100]"]
  show ?thesis by (simp add: path_full_def path_text_def)
qed

text \<open>Normal paths: the components are names.\<close>

definition names_ok :: "u8 list list \<Rightarrow> bool" where
  "names_ok cs \<longleftrightarrow> comps_ok cs \<and> [DOT] \<notin> set cs \<and> [DOT, DOT] \<notin> set cs"

lemma names_ok_append [simp]: "names_ok (cs @ ds) \<longleftrightarrow> names_ok cs \<and> names_ok ds"
  by (auto simp: names_ok_def comps_ok_def)

lemma names_ok_simps [simp]:
  "names_ok []" "names_ok (c # cs) \<longleftrightarrow> c \<noteq> [] \<and> SLASH \<notin> set c \<and> 0 \<notin> set c \<and> c \<noteq> [DOT] \<and> c \<noteq> [DOT, DOT] \<and> names_ok cs"
  by (auto simp: names_ok_def comps_ok_def)

lemma path_split_join: "names_ok cs \<Longrightarrow> cs \<noteq> [] \<Longrightarrow> path_split (path_join cs) = cs"
  by (induction cs rule: path_join.induct) (auto simp: path_split_append path_split_single)

lemma path_join_hd: "names_ok cs \<Longrightarrow> cs \<noteq> [] \<Longrightarrow> hd (path_join cs) \<noteq> SLASH"
  by (cases cs rule: path_join.cases) (auto simp: hd_append, (metis hd_in_set)+)

lemma path_walk_names: "names_ok ds \<Longrightarrow> path_walk r cs ds = Some (r, cs @ ds)"
  by (induction ds arbitrary: cs) auto

lemma path_walk_normal:
  "names_ok cs \<Longrightarrow> \<forall>d \<in> set ds. SLASH \<notin> set d \<and> 0 \<notin> set d \<Longrightarrow> path_walk r cs ds = Some (r', cs') \<Longrightarrow> names_ok cs'"
proof (induction ds arbitrary: r cs)
  case (Cons d ds)
  have b: "names_ok (butlast cs)" using Cons.prems(1) by (cases cs rule: rev_cases) simp_all
  show ?case
    using Cons.IH[OF Cons.prems(1)] Cons.IH[OF b] Cons.IH[of "[]"] Cons.IH[of "cs @ [d]"] Cons.prems
    by (auto split: if_splits)
qed simp

lemma path_text_split:
  assumes "names_ok cs"
  shows "path_walk True [] (path_split (path_text True cs)) = Some (True, cs)" "hd (path_text True cs) = SLASH"
    "0 \<notin> set (path_text True cs)"
proof -
  show "path_walk True [] (path_split (path_text True cs)) = Some (True, cs)"
    using path_split_join[OF assms] path_walk_names[OF assms, of True "[]"] by (cases "cs = []") (simp_all add: path_text_def)
  show "hd (path_text True cs) = SLASH" by (simp add: path_text_def)
  show "0 \<notin> set (path_text True cs)"
    using assms path_text_last[of cs True] by (cases "cs = []") (auto simp: names_ok_def path_text_def)
qed

text \<open>The walk of an absolute path.\<close>

lemma normalize_absolute:
  assumes "cstr wd w" "cstr filename f" "hd (f @ [0]) = SLASH" "path_walk True [] (path_split f) = Some (r, cs)" "r \<or> cs \<noteq> []"
  shows "\<exists>b. dfs_normalize_path True wd None filename = Some (Some b) \<and> cstr b (path_text r cs) \<and> names_ok cs"
proof -
  have f: "path_full w f = f" "hd f = SLASH" "0 \<notin> set f" using assms(2,3) by (cases f; auto simp: path_full_def cstr_def)+
  have "names_ok cs" by (rule path_walk_normal[OF _ _ assms(4)]) (use path_split_chars[of f] f(3) in auto)
  then show ?thesis using normalize_walk[OF assms(1,2), where directory = None and d = w] f assms(4,5) by auto
qed

text \<open>An absolute path that does not go above the root is normalised: the result is absolute, its components are names
  (none is empty, \<open>.\<close> or \<open>..\<close>), and to normalise it again does not change it, whatever the working directory.\<close>

theorem normalize_path_normal:
  assumes "cstr wd w" "cstr filename f" "hd (f @ [0]) = SLASH" "path_walk True [] (path_split f) = Some (True, cs)"
    "cstr wd' w'"
  shows "\<exists>b b'. dfs_normalize_path True wd None filename = Some (Some b) \<and> cstr b (path_text True cs) \<and> names_ok cs \<and>
    dfs_normalize_path True wd' None b = Some (Some b') \<and> cstr b' (path_text True cs)"
proof -
  obtain b where b: "dfs_normalize_path True wd None filename = Some (Some b)" "cstr b (path_text True cs)" "names_ok cs"
    using normalize_absolute[OF assms(1-4)] by auto
  have "hd (path_text True cs @ [0]) = SLASH" by (simp add: path_text_def)
  then obtain b' where "dfs_normalize_path True wd' None b = Some (Some b')" "cstr b' (path_text True cs)"
    using normalize_absolute[OF assms(5) b(2) _ path_text_split(1)[OF b(3)]] by auto
  then show ?thesis using b by blast
qed

theorem normalize_path_normal_witness:
  "\<exists>b b'. dfs_normalize_path True [47, 0] None [47, 97, 47, 46, 46, 47, 98, 47, 0] = Some (Some b) \<and> cstr b [47, 98] \<and>
     dfs_normalize_path True [47, 100, 0] None b = Some (Some b') \<and> cstr b' [47, 98]"
proof -
  have c: "cstr [47, 0] [47]" "cstr [47, 97, 47, 46, 46, 47, 98, 47, 0] [47, 97, 47, 46, 46, 47, 98, 47]" "cstr [47, 100, 0] [47, 100]"
    by (simp_all add: cstr_def)
  from normalize_path_normal[OF c(1,2) _ _ c(3), of "[[98]]"] show ?thesis by (auto simp: path_text_def)
qed

text \<open>\<open>..\<close> in the root is not dropped: \<open>/../a/b\<close> becomes the relative path \<open>a/b\<close>, for \<open>/..\<close> the function reads the
  byte in front of its buffer, and for \<open>/../..\<close> it returns \<open>NULL\<close>.\<close>

theorem normalize_path_escapes:
  assumes "cstr wd w" "names_ok cs" "cs \<noteq> []"
  shows "(\<exists>b. dfs_normalize_path True wd None (SLASH # DOT # DOT # SLASH # path_join cs @ [0]) = Some (Some b) \<and>
      cstr b (path_join cs) \<and> hd b \<noteq> SLASH) \<and>
    dfs_normalize_path True wd None [SLASH, DOT, DOT, 0] = None \<and>
    dfs_normalize_path True wd None [SLASH, DOT, DOT, SLASH, DOT, DOT, 0] = Some None"
proof -
  have c: "0 \<notin> set (path_join cs)" "path_join cs \<noteq> []"
    using assms(2,3) path_text_last[of cs False] by (simp_all add: names_ok_def path_text_def)
  have h: "hd (path_join cs) \<noteq> SLASH" by (rule path_join_hd[OF assms(2,3)])
  let ?f = "SLASH # DOT # DOT # SLASH # path_join cs"
  have f: "cstr (?f @ [0]) ?f" using c(1) by (simp add: cstr_def)
  have "path_walk True [] (path_split ?f) = Some (False, cs)"
    using path_split_join[OF assms(2,3)] path_walk_names[OF assms(2), of False "[]"] by simp
  then obtain b where b: "dfs_normalize_path True wd None (?f @ [0]) = Some (Some b)" "cstr b (path_text False cs)"
    using normalize_absolute[OF assms(1) f] assms(3) by auto
  moreover have "hd b \<noteq> SLASH" using b(2) c(2) h by (auto simp: cstr_def path_text_def)
  moreover have "cstr [SLASH, DOT, DOT, 0] [SLASH, DOT, DOT]" "cstr [SLASH, DOT, DOT, SLASH, DOT, DOT, 0] [SLASH, DOT, DOT, SLASH, DOT, DOT]"
    by (simp_all add: cstr_def)
  note normalize_walk[OF assms(1) this(1), where directory = None and d = w] normalize_walk[OF assms(1) this(2), where directory = None and d = w]
  ultimately show ?thesis by (simp add: path_full_def path_text_def)
qed

theorem normalize_path_escapes_witness:
  "(\<exists>b. dfs_normalize_path True [47, 0] None [47, 46, 46, 47, 97, 47, 98, 0] = Some (Some b) \<and> cstr b [97, 47, 98]) \<and>
   dfs_normalize_path True [47, 0] None [47, 46, 46, 0] = None"
proof -
  have c: "cstr [47, 0] [47]" by (simp add: cstr_def)
  from normalize_path_escapes[OF c, of "[[97], [98]]"] show ?thesis by auto
qed

lemma path_text_append: "cs \<noteq> [] \<Longrightarrow> ds \<noteq> [] \<Longrightarrow> path_text r (cs @ ds) = path_text r cs @ path_text True ds"
proof -
  have "cs \<noteq> [] \<Longrightarrow> ds \<noteq> [] \<Longrightarrow> path_join (cs @ ds) = path_join cs @ SLASH # path_join ds"
    by (induction cs rule: path_join.induct) (auto simp: neq_Nil_conv)
  then show "cs \<noteq> [] \<Longrightarrow> ds \<noteq> [] \<Longrightarrow> path_text r (cs @ ds) = path_text r cs @ path_text True ds" by (simp add: path_text_def)
qed

lemma subdir_ok:
  assumes "names_ok cs" "names_ok ds" "cstr directory (path_text True cs)" "cstr filename (path_text True (cs @ ds))"
  shows "if ds = [] then dfs_subdir directory filename = Some None
    else \<exists>i. dfs_subdir directory filename = Some (Some i) \<and> cstr (drop i filename) (path_text True ds)"
proof -
  have l: "rt_strlen directory = Some (length (path_text True cs))" "rt_strlen filename = Some (length (path_text True (cs @ ds)))"
    by (rule rt_strlen_cstr[OF assms(3)], rule rt_strlen_cstr[OF assms(4)])
  show ?thesis
  proof (cases "ds = []")
    case True
    then show ?thesis using l by (simp add: dfs_subdir_def)
  next
    case False
    obtain r where r: "filename = path_text True (cs @ ds) @ 0 # r" using assms(4) by (auto simp: cstr_def)
    have j: "0 \<notin> set (path_text True ds)" "path_join ds \<noteq> []" "hd (path_join ds) \<noteq> SLASH"
      using path_text_split(3)[OF assms(2)] path_text_last[of ds False] path_join_hd[OF assms(2) False] assms(2) False
      by (auto simp: names_ok_def path_text_def)
    show ?thesis
    proof (cases "cs = []")
      case True
      obtain c u where "path_join ds = c # u" "c \<noteq> SLASH" using j(2,3) by (cases "path_join ds") auto
      then show ?thesis
        using l r j(1) False True by (auto simp: dfs_subdir_def path_text_def buf_get_def cstr_def intro!: exI[of _ 0])
    next
      case cs: False
      have "path_text True (cs @ ds) = path_text True cs @ path_text True ds" using path_text_append[OF cs False] by simp
      then show ?thesis
        using l r j(1) False by (auto simp: dfs_subdir_def path_text_def buf_get_def cstr_def nth_append)
    qed
  qed
qed

text \<open>\<open>dfs_subdir\<close> gives the path below a directory: for a normal directory and a normal path below it, the index it
  returns is where the absolute path of the remaining components begins; for the directory itself it returns \<open>NULL\<close>.\<close>

theorem subdir_below:
  assumes "names_ok cs" "names_ok ds" "cstr directory (path_text True cs)" "cstr filename (path_text True (cs @ ds))"
  shows "if ds = [] then dfs_subdir directory filename = Some None
    else \<exists>i. dfs_subdir directory filename = Some (Some i) \<and> cstr (drop i filename) (path_text True ds)"
  by (rule subdir_ok[OF assms])

theorem subdir_below_witness:
  "\<exists>i. dfs_subdir [47, 97, 0] [47, 97, 47, 98, 0] = Some (Some i) \<and> cstr (drop i [47, 97, 47, 98, 0]) [47, 98]"
proof -
  have c: "cstr [47, 97, 0] (path_text True [[97]])" "cstr [47, 97, 47, 98, 0] (path_text True ([[97]] @ [[98]]))"
    by (simp_all add: cstr_def path_text_def)
  from subdir_below[OF _ _ c] show ?thesis by (simp add: path_text_def)
qed

end
