(* ===== verification/Dfs.thy ===== *)
theory Dfs
  imports Dfs_Path
begin

text \<open>
  The tables of the virtual file system: file descriptors (\<open>components/dfs/src/dfs.c\<close>) and file systems
  (\<open>components/dfs/src/dfs_fs.c\<close>), for the configuration with a working directory and device files. The sections between
  \<open>dfs_lock\<close> and \<open>dfs_unlock\<close> are steps.

  The file systems and devices are code of other components: their functions are named by numbers, and the parameter
  \<open>call\<close> gives the result and the effect of a call. What a call stores through its pointers is in \<open>dfs_user\<close>.
  A file descriptor structure is named by a number (its address), a mounted file system by its index in the table.
\<close>

subsection \<open>State\<close>

record dfs_filesystem_ops =
  ops_name :: "u8 list"
  ops_flags :: u32
  ops_fops :: nat
  ops_mount :: "nat option"
  ops_unmount :: "nat option"
  ops_mkfs :: "nat option"
  ops_statfs :: "nat option"
  ops_unlink :: "nat option"
  ops_stat :: "nat option"
  ops_rename :: "nat option"

record dfs_file_ops =
  fop_open :: "nat option"
  fop_close :: "nat option"
  fop_ioctl :: "nat option"
  fop_read :: "nat option"
  fop_write :: "nat option"
  fop_flush :: "nat option"
  fop_lseek :: "nat option"
  fop_getdents :: "nat option"
  fop_poll :: "nat option"

record dfs_filesystem =
  fs_dev_id :: "nat option"
  fs_path :: "u8 list option"
  fs_ops :: "nat option"
  fs_data :: nat

record dfs_fd =
  fd_magic :: u16
  fd_type :: u16
  fd_path :: "u8 list option"
  fd_ref_count :: int
  fd_fops :: "nat option"
  fd_flags :: u32
  fd_size :: u32
  fd_pos :: int
  fd_data :: "nat option"

record 'u dfs =
  fdt_fds :: "nat option list" \<comment> \<open>\<open>maxfd\<close> is its length\<close>
  fd_of :: "nat \<Rightarrow> dfs_fd"
  filesystem_operation_table :: "nat option list"
  ops_of :: "nat \<Rightarrow> dfs_filesystem_ops"
  fops_of :: "nat \<Rightarrow> dfs_file_ops"
  filesystem_table :: "dfs_filesystem list"
  working_directory :: "u8 list"
  dfs_errno :: int
  dfs_user :: 'u

text \<open>
  A call of the function \<open>f\<close> of a file system on entry \<open>i\<close> with its path arguments, of the function \<open>f\<close> that makes a file
  system on a device, of the function \<open>f\<close> of a file with its other arguments, and of the device functions.
\<close>

datatype fs_call =
    Call_fs nat nat "u8 list option list"
  | Call_mkfs nat nat
  | Call_file nat nat "int list"
  | Call_device_open nat
  | Call_device_close nat

type_synonym 'u fs_calls = "fs_call \<Rightarrow> 'u dfs \<Rightarrow> (int \<times> 'u dfs) option"

abbreviation (input) DFS_FILESYSTEMS_MAX :: nat where "DFS_FILESYSTEMS_MAX \<equiv> 2"
abbreviation (input) DFS_FILESYSTEM_TYPES_MAX :: nat where "DFS_FILESYSTEM_TYPES_MAX \<equiv> 2"
abbreviation (input) DFS_FD_MAX :: nat where "DFS_FD_MAX \<equiv> 16"
abbreviation (input) DFS_FD_OFFSET :: int where "DFS_FD_OFFSET \<equiv> 3"
abbreviation (input) DFS_FD_MAGIC :: u16 where "DFS_FD_MAGIC \<equiv> 0xfdfd"
text \<open>The error numbers of \<open>include/libc/libc_errno.h\<close> with the compiler of the project (\<open>__CC_ARM\<close>).\<close>

abbreviation (input) EEXIST :: int where "EEXIST \<equiv> 24"
abbreviation (input) ENODEV :: int where "ENODEV \<equiv> 26"
abbreviation (input) ENOTDIR :: int where "ENOTDIR \<equiv> 27"
abbreviation (input) EINVAL :: int where "EINVAL \<equiv> 5"
abbreviation (input) ENOSPC :: int where "ENOSPC \<equiv> 35"
abbreviation (input) ENOENT :: int where "ENOENT \<equiv> 9"
abbreviation (input) EIO :: int where "EIO \<equiv> 12"
abbreviation (input) ENXIO :: int where "ENXIO \<equiv> 13"
abbreviation (input) ENOMEM :: int where "ENOMEM \<equiv> 6"
abbreviation (input) EBUSY :: int where "EBUSY \<equiv> 23"
abbreviation (input) EXDEV :: int where "EXDEV \<equiv> 25"
abbreviation (input) ENOSYS :: int where "ENOSYS \<equiv> 45"

abbreviation (input) FT_REGULAR :: u16 where "FT_REGULAR \<equiv> 0"
abbreviation (input) FT_DIRECTORY :: u16 where "FT_DIRECTORY \<equiv> 2"
abbreviation (input) DFS_FS_FLAG_FULLPATH :: u32 where "DFS_FS_FLAG_FULLPATH \<equiv> 1"
abbreviation (input) DFS_F_OPEN :: u32 where "DFS_F_OPEN \<equiv> 0x01000000"
abbreviation (input) DFS_F_DIRECTORY :: u32 where "DFS_F_DIRECTORY \<equiv> 0x02000000"
abbreviation (input) DFS_F_EOF :: u32 where "DFS_F_EOF \<equiv> 0x04000000"
abbreviation (input) O_DIRECTORY :: u32 where "O_DIRECTORY \<equiv> 0x10000"
abbreviation (input) O_NONBLOCK :: u32 where "O_NONBLOCK \<equiv> 0x800"
abbreviation (input) O_APPEND :: u32 where "O_APPEND \<equiv> 0x400"

definition zero_fd :: dfs_fd where
  "zero_fd = \<lparr>fd_magic = 0, fd_type = 0, fd_path = None, fd_ref_count = 0, fd_fops = None, fd_flags = 0, fd_size = 0,
     fd_pos = 0, fd_data = None\<rparr>"

definition zero_fs :: dfs_filesystem where
  "zero_fs = \<lparr>fs_dev_id = None, fs_path = None, fs_ops = None, fs_data = 0\<rparr>"

definition upd_fd :: "nat \<Rightarrow> (dfs_fd \<Rightarrow> dfs_fd) \<Rightarrow> 'u dfs \<Rightarrow> 'u dfs" where
  [simp]: "upd_fd p f s = s\<lparr>fd_of := (fd_of s)(p := f (fd_of s p))\<rparr>"

definition set_fs :: "nat \<Rightarrow> dfs_filesystem \<Rightarrow> 'u dfs \<Rightarrow> 'u dfs" where
  [simp]: "set_fs i fs s = s\<lparr>filesystem_table := (filesystem_table s)[i := fs]\<rparr>"

definition set_errno :: "int \<Rightarrow> 'u dfs \<Rightarrow> 'u dfs" where
  [simp]: "set_errno e s = s\<lparr>dfs_errno := e\<rparr>"

subsection \<open>File descriptors\<close>

definition fd_empty :: "'u dfs \<Rightarrow> nat option \<Rightarrow> bool" where
  "fd_empty s e \<longleftrightarrow> (case e of None \<Rightarrow> True | Some p \<Rightarrow> fd_ref_count (fd_of s p) = 0)"

text \<open>The search for an empty entry: the first one from \<open>idx\<close> on, or \<open>maxfd\<close>.\<close>

fun fd_search :: "'u dfs \<Rightarrow> nat option list \<Rightarrow> nat \<Rightarrow> nat" where
  "fd_search s [] idx = idx"
| "fd_search s (e # es) idx = (if fd_empty s e then idx else fd_search s es (idx + 1))"

text \<open>\<open>grow\<close> says whether \<open>rt_realloc\<close> has memory, \<open>calloc\<close> is what \<open>rt_calloc\<close> returns.\<close>

definition fd_alloc :: "bool \<Rightarrow> nat option \<Rightarrow> nat \<Rightarrow> 'u dfs \<Rightarrow> nat \<times> 'u dfs" where
  "fd_alloc grow calloc startfd s =
     (let idx = fd_search s (drop startfd (fdt_fds s)) startfd;
          maxfd = length (fdt_fds s)
      in if idx = maxfd \<and> maxfd < DFS_FD_MAX \<and> \<not> grow then (idx, s)
         else let s = (if idx = maxfd \<and> maxfd < DFS_FD_MAX
                       then s\<lparr>fdt_fds := fdt_fds s @ replicate (min (maxfd + 4) DFS_FD_MAX - maxfd) None\<rparr> else s)
           in if idx < length (fdt_fds s) \<and> fdt_fds s ! idx = None
              then case calloc of
                     None \<Rightarrow> (length (fdt_fds s), s)
                   | Some p \<Rightarrow> (idx, upd_fd p (\<lambda>_. zero_fd) (s\<lparr>fdt_fds := (fdt_fds s)[idx := Some p]\<rparr>))
              else (idx, s))"

definition fd_new :: "bool \<Rightarrow> nat option \<Rightarrow> 'u dfs \<Rightarrow> (int \<times> 'u dfs) option" where
  "fd_new grow calloc s =
     do { let (idx, s) = fd_alloc grow calloc 0 s;
          if idx = length (fdt_fds s) then Some (- (1 + DFS_FD_OFFSET) + DFS_FD_OFFSET, s)
          else if idx < length (fdt_fds s)
          then do { p \<leftarrow> fdt_fds s ! idx;
                    Some (int idx + DFS_FD_OFFSET,
                      upd_fd p (\<lambda>d. d\<lparr>fd_ref_count := 1, fd_magic := DFS_FD_MAGIC\<rparr>) s) }
          else None }"

text \<open>\<open>console\<close> is the result of \<open>libc_stdio_get_console\<close>.\<close>

definition fd_get :: "int \<Rightarrow> int \<Rightarrow> 'u dfs \<Rightarrow> nat option \<times> 'u dfs" where
  "fd_get console fd s =
     (let fd = (if 0 \<le> fd \<and> fd \<le> 2 then console else fd);
          fd = fd - DFS_FD_OFFSET
      in if fd < 0 \<or> fd \<ge> int (length (fdt_fds s)) then (None, s)
         else case fdt_fds s ! nat fd of
                None \<Rightarrow> (None, s)
              | Some p \<Rightarrow>
                  if fd_magic (fd_of s p) \<noteq> DFS_FD_MAGIC then (None, s)
                  else (Some p, upd_fd p (\<lambda>d. d\<lparr>fd_ref_count := fd_ref_count d + 1\<rparr>) s))"

text \<open>The first entry with the structure is cleared; the structure itself goes back to the heap.\<close>

fun fd_clear :: "nat \<Rightarrow> nat option list \<Rightarrow> nat option list" where
  "fd_clear p [] = []"
| "fd_clear p (e # es) = (if e = Some p then None # es else e # fd_clear p es)"

definition fd_put :: "nat \<Rightarrow> 'u dfs \<Rightarrow> 'u dfs" where
  "fd_put p s =
     (let s = upd_fd p (\<lambda>d. d\<lparr>fd_ref_count := fd_ref_count d - 1\<rparr>) s
      in if fd_ref_count (fd_of s p) = 0 then s\<lparr>fdt_fds := fd_clear p (fdt_fds s)\<rparr> else s)"

subsection \<open>File systems\<close>

definition str_eq :: "u8 list \<Rightarrow> u8 list \<Rightarrow> bool option" where
  "str_eq s t = do { r \<leftarrow> rt_strcmp s t; Some (r = 0) }"

text \<open>The loop of \<open>dfs_register\<close>: the first empty entry, and whether the name is in use.\<close>

fun register_loop :: "'u dfs \<Rightarrow> u8 list \<Rightarrow> nat option list \<Rightarrow> nat \<Rightarrow> nat option \<Rightarrow> (nat option \<times> bool) option" where
  "register_loop s name [] i hole = Some (hole, False)"
| "register_loop s name (e # es) i hole =
     (case e of
        None \<Rightarrow> register_loop s name es (i + 1) (if hole = None then Some i else hole)
      | Some o1 \<Rightarrow> do { b \<leftarrow> str_eq (ops_name (ops_of s o1)) name;
                       if b then Some (hole, True) else register_loop s name es (i + 1) hole })"

definition dfs_register :: "nat \<Rightarrow> 'u dfs \<Rightarrow> (int \<times> 'u dfs) option" where
  "dfs_register op s =
     do { (hole, found) \<leftarrow> register_loop s (ops_name (ops_of s op)) (filesystem_operation_table s) 0 None;
          let s = (if found then set_errno (- EEXIST) s else s);
          case hole of
            None \<Rightarrow> Some (- 1, set_errno (- ENOSPC) s)
          | Some i \<Rightarrow>
              if found then Some (- 1, s)
              else Some (0, s\<lparr>filesystem_operation_table := (filesystem_operation_table s)[i := Some op]\<rparr>) }"

text \<open>The loop of \<open>dfs_filesystem_lookup\<close> over the entries from \<open>i\<close> on.\<close>

fun lookup_loop :: "u8 list \<Rightarrow> dfs_filesystem list \<Rightarrow> nat \<Rightarrow> nat option \<Rightarrow> nat \<Rightarrow> nat option option" where
  "lookup_loop path [] i fs prefixlen = Some fs"
| "lookup_loop path (e # es) i fs prefixlen =
     (if fs_path e = None \<or> fs_ops e = None then lookup_loop path es (i + 1) fs prefixlen
      else do { let p = the (fs_path e);
                fspath \<leftarrow> rt_strlen p;
                c \<leftarrow> (if fspath < prefixlen then Some 1 else rt_strncmp p path fspath);
                if c \<noteq> 0 then lookup_loop path es (i + 1) fs prefixlen
                else do { n \<leftarrow> rt_strlen path;
                          if fspath > 1 \<and> n > fspath \<and> path ! fspath \<noteq> SLASH then lookup_loop path es (i + 1) fs prefixlen
                          else lookup_loop path es (i + 1) (Some i) fspath } })"

definition dfs_filesystem_lookup :: "u8 list \<Rightarrow> 'u dfs \<Rightarrow> nat option option" where
  "dfs_filesystem_lookup path s = lookup_loop path (filesystem_table s) 0 None 0"

definition dfs_filesystem_get_mounted_path :: "nat option \<Rightarrow> 'u dfs \<Rightarrow> u8 list option" where
  "dfs_filesystem_get_mounted_path device s =
     (case List.find (\<lambda>e. fs_ops e \<noteq> None \<and> fs_dev_id e = device) (filesystem_table s) of
        None \<Rightarrow> None | Some e \<Rightarrow> fs_path e)"


subsection \<open>Files\<close>

text \<open>The loop of \<open>fd_is_open\<close>: an open descriptor with these functions and this path.\<close>

fun open_loop :: "'u dfs \<Rightarrow> nat \<Rightarrow> u8 list \<Rightarrow> nat option list \<Rightarrow> bool option" where
  "open_loop s fops mountpath [] = Some False"
| "open_loop s fops mountpath (e # es) =
     (case e of
        None \<Rightarrow> open_loop s fops mountpath es
      | Some p \<Rightarrow>
          if fd_fops (fd_of s p) = None then open_loop s fops mountpath es
          else case fd_path (fd_of s p) of
                 None \<Rightarrow> open_loop s fops mountpath es
               | Some path \<Rightarrow>
                   do { b \<leftarrow> (if fd_fops (fd_of s p) = Some fops then str_eq path mountpath else Some False);
                        if b then Some True else open_loop s fops mountpath es })"

text \<open>\<open>mem\<close> says whether there is memory for the full path.\<close>

definition fd_is_open :: "bool \<Rightarrow> u8 list \<Rightarrow> 'u dfs \<Rightarrow> int option" where
  "fd_is_open mem pathname s =
     do { full \<leftarrow> dfs_normalize_path mem (working_directory s) None pathname;
          case full of
            None \<Rightarrow> Some (- 1)
          | Some fullpath \<Rightarrow>
              do { fs \<leftarrow> dfs_filesystem_lookup fullpath s;
                   case fs of
                     None \<Rightarrow> Some (- 1)
                   | Some i \<Rightarrow>
                       do { path \<leftarrow> fs_path (filesystem_table s ! i);
                            op \<leftarrow> fs_ops (filesystem_table s ! i);
                            c0 \<leftarrow> buf_get path 0;
                            c1 \<leftarrow> (if c0 = SLASH then buf_get path 1 else Some c0);
                            n \<leftarrow> rt_strlen path;
                            let mountpath = (if c0 = SLASH \<and> c1 = 0 then fullpath else drop n fullpath);
                            b \<leftarrow> open_loop s (ops_fops (ops_of s op)) mountpath (fdt_fds s);
                            Some (if b then 0 else - 1) } } }"

text \<open>The path below the mount point, as \<open>dfs_file_open\<close> and \<open>dfs_file_unlink\<close> pass it on.\<close>

definition sub_path :: "dfs_filesystem_ops \<Rightarrow> u8 list \<Rightarrow> u8 list \<Rightarrow> u8 list option" where
  "sub_path ops fspath fullpath =
     (if ops_flags ops AND DFS_FS_FLAG_FULLPATH = 0
      then do { d \<leftarrow> dfs_subdir fspath fullpath;
                Some (case d of None \<Rightarrow> [SLASH, 0] | Some k \<Rightarrow> drop k fullpath) }
      else Some fullpath)"

text \<open>
  The part of \<open>dfs_file_open\<close> from the file system on: the descriptor is filled and the file system opens the file. \<open>dup\<close>
  says whether there is memory for the copy of the path.
\<close>

definition file_open_in ::
  "'u fs_calls \<Rightarrow> bool \<Rightarrow> nat \<Rightarrow> nat \<Rightarrow> u8 list \<Rightarrow> u32 \<Rightarrow> 'u dfs \<Rightarrow> (int \<times> 'u dfs) option" where
  "file_open_in call dup fd i fullpath flags s =
     do { op \<leftarrow> fs_ops (filesystem_table s ! i);
          fspath \<leftarrow> fs_path (filesystem_table s ! i);
          let ops = ops_of s op;
          sub \<leftarrow> sub_path ops fspath fullpath;
          let s = upd_fd fd (\<lambda>d. d\<lparr>fd_fops := Some (ops_fops ops), fd_type := FT_REGULAR, fd_flags := flags,
            fd_size := 0, fd_pos := 0, fd_data := Some i,
            fd_path := (if dup \<or> ops_flags ops AND DFS_FS_FLAG_FULLPATH \<noteq> 0 then Some sub else None)\<rparr>) s;
          case fop_open (fops_of s (ops_fops ops)) of
            None \<Rightarrow> Some (- ENOSYS, upd_fd fd (\<lambda>d. d\<lparr>fd_path := None\<rparr>) s)
          | Some f \<Rightarrow>
              do { (result, s) \<leftarrow> call (Call_file f fd []) s;
                   if result < 0 then Some (result, upd_fd fd (\<lambda>d. d\<lparr>fd_path := None\<rparr>) s)
                   else Some (0, upd_fd fd (\<lambda>d.
                     if flags AND O_DIRECTORY \<noteq> 0
                     then d\<lparr>fd_type := FT_DIRECTORY, fd_flags := fd_flags d OR DFS_F_OPEN OR DFS_F_DIRECTORY\<rparr>
                     else d\<lparr>fd_flags := fd_flags d OR DFS_F_OPEN\<rparr>) s) } }"

definition dfs_file_open ::
  "'u fs_calls \<Rightarrow> bool \<Rightarrow> bool \<Rightarrow> nat option \<Rightarrow> u8 list \<Rightarrow> u32 \<Rightarrow> 'u dfs \<Rightarrow> (int \<times> 'u dfs) option" where
  "dfs_file_open call mem dup fd path flags s =
     (case fd of
        None \<Rightarrow> Some (- EINVAL, s)
      | Some fd \<Rightarrow>
          do { full \<leftarrow> dfs_normalize_path mem (working_directory s) None path;
               case full of
                 None \<Rightarrow> Some (- ENOMEM, s)
               | Some fullpath \<Rightarrow>
                   do { b \<leftarrow> fd_is_open mem fullpath s;
                        if b = 0 then Some (- EBUSY, s)
                        else do { fs \<leftarrow> dfs_filesystem_lookup fullpath s;
                                  case fs of
                                    None \<Rightarrow> Some (- ENOENT, s)
                                  | Some i \<Rightarrow> file_open_in call dup fd i fullpath flags s } } })"

text \<open>The functions of an open file; \<open>fops\<close> is dereferenced, and must not be \<open>NULL\<close>.\<close>

definition file_ops :: "nat \<Rightarrow> 'u dfs \<Rightarrow> dfs_file_ops option" where
  "file_ops fd s = do { f \<leftarrow> fd_fops (fd_of s fd); Some (fops_of s f) }"

definition dfs_file_close :: "'u fs_calls \<Rightarrow> nat option \<Rightarrow> 'u dfs \<Rightarrow> (int \<times> 'u dfs) option" where
  "dfs_file_close call fd s =
     (case fd of
        None \<Rightarrow> Some (- ENXIO, s)
      | Some fd \<Rightarrow>
          do { ops \<leftarrow> file_ops fd s;
               (result, s) \<leftarrow> (case fop_close ops of Some f \<Rightarrow> call (Call_file f fd []) s | None \<Rightarrow> Some (0, s));
               Some (result, if result < 0 then s else upd_fd fd (\<lambda>d. d\<lparr>fd_path := None\<rparr>) s) })"

definition dfs_file_ioctl :: "'u fs_calls \<Rightarrow> nat option \<Rightarrow> int \<Rightarrow> u32 \<Rightarrow> 'u dfs \<Rightarrow> (int \<times> 'u dfs) option" where
  "dfs_file_ioctl call fd cmd args s =
     (case fd of
        None \<Rightarrow> Some (- EINVAL, s)
      | Some fd \<Rightarrow>
          if fd_type (fd_of s fd) = FT_REGULAR \<and> cmd = 3 then Some (sint (fd_flags (fd_of s fd)), s)
          else if fd_type (fd_of s fd) = FT_REGULAR \<and> cmd = 4
          then let mask = O_NONBLOCK OR O_APPEND
               in Some (0, upd_fd fd (\<lambda>d. d\<lparr>fd_flags := (fd_flags d AND NOT mask) OR (args AND mask)\<rparr>) s)
          else do { ops \<leftarrow> file_ops fd s;
                    case fop_ioctl ops of Some f \<Rightarrow> call (Call_file f fd [cmd, uint args]) s | None \<Rightarrow> Some (- ENOSYS, s) })"

definition dfs_file_read :: "'u fs_calls \<Rightarrow> nat option \<Rightarrow> u32 \<Rightarrow> 'u dfs \<Rightarrow> (int \<times> 'u dfs) option" where
  "dfs_file_read call fd len s =
     (case fd of
        None \<Rightarrow> Some (- EINVAL, s)
      | Some fd \<Rightarrow>
          do { ops \<leftarrow> file_ops fd s;
               case fop_read ops of
                 None \<Rightarrow> Some (- ENOSYS, s)
               | Some f \<Rightarrow>
                   do { (result, s) \<leftarrow> call (Call_file f fd [uint len]) s;
                        Some (result, if result < 0 then upd_fd fd (\<lambda>d. d\<lparr>fd_flags := fd_flags d OR DFS_F_EOF\<rparr>) s else s) } })"

definition dfs_file_getdents :: "'u fs_calls \<Rightarrow> nat option \<Rightarrow> u32 \<Rightarrow> 'u dfs \<Rightarrow> (int \<times> 'u dfs) option" where
  "dfs_file_getdents call fd nbytes s =
     (case fd of
        None \<Rightarrow> Some (- EINVAL, s)
      | Some fd \<Rightarrow>
          if fd_type (fd_of s fd) \<noteq> FT_DIRECTORY then Some (- EINVAL, s)
          else do { ops \<leftarrow> file_ops fd s;
                    case fop_getdents ops of Some f \<Rightarrow> call (Call_file f fd [uint nbytes]) s | None \<Rightarrow> Some (- ENOSYS, s) })"

definition dfs_file_write :: "'u fs_calls \<Rightarrow> nat option \<Rightarrow> u32 \<Rightarrow> 'u dfs \<Rightarrow> (int \<times> 'u dfs) option" where
  "dfs_file_write call fd len s =
     (case fd of
        None \<Rightarrow> Some (- EINVAL, s)
      | Some fd \<Rightarrow>
          do { ops \<leftarrow> file_ops fd s;
               case fop_write ops of Some f \<Rightarrow> call (Call_file f fd [uint len]) s | None \<Rightarrow> Some (- ENOSYS, s) })"

definition dfs_file_flush :: "'u fs_calls \<Rightarrow> nat option \<Rightarrow> 'u dfs \<Rightarrow> (int \<times> 'u dfs) option" where
  "dfs_file_flush call fd s =
     (case fd of
        None \<Rightarrow> Some (- EINVAL, s)
      | Some fd \<Rightarrow>
          do { ops \<leftarrow> file_ops fd s;
               case fop_flush ops of Some f \<Rightarrow> call (Call_file f fd []) s | None \<Rightarrow> Some (- ENOSYS, s) })"

definition dfs_file_lseek :: "'u fs_calls \<Rightarrow> nat option \<Rightarrow> int \<Rightarrow> 'u dfs \<Rightarrow> (int \<times> 'u dfs) option" where
  "dfs_file_lseek call fd offset s =
     (case fd of
        None \<Rightarrow> Some (- EINVAL, s)
      | Some fd \<Rightarrow>
          do { ops \<leftarrow> file_ops fd s;
               case fop_lseek ops of
                 None \<Rightarrow> Some (- ENOSYS, s)
               | Some f \<Rightarrow>
                   do { (result, s) \<leftarrow> call (Call_file f fd [offset]) s;
                        Some (result, if result \<ge> 0 then upd_fd fd (\<lambda>d. d\<lparr>fd_pos := result\<rparr>) s else s) } })"

definition dfs_file_unlink :: "'u fs_calls \<Rightarrow> bool \<Rightarrow> u8 list \<Rightarrow> 'u dfs \<Rightarrow> (int \<times> 'u dfs) option" where
  "dfs_file_unlink call mem path s =
     do { full \<leftarrow> dfs_normalize_path mem (working_directory s) None path;
          case full of
            None \<Rightarrow> Some (- EINVAL, s)
          | Some fullpath \<Rightarrow>
              do { fs \<leftarrow> dfs_filesystem_lookup fullpath s;
                   case fs of
                     None \<Rightarrow> Some (- ENOENT, s)
                   | Some i \<Rightarrow>
                       do { b \<leftarrow> fd_is_open mem fullpath s;
                            if b = 0 then Some (- EBUSY, s)
                            else do { op \<leftarrow> fs_ops (filesystem_table s ! i);
                                      fspath \<leftarrow> fs_path (filesystem_table s ! i);
                                      case ops_unlink (ops_of s op) of
                                        None \<Rightarrow> Some (- ENOSYS, s)
                                      | Some f \<Rightarrow>
                                          do { sub \<leftarrow> sub_path (ops_of s op) fspath fullpath;
                                               call (Call_fs f i [Some sub]) s } } } } }"

text \<open>The flag in the result says that the buffer holds the answer for a root directory.\<close>

definition dfs_file_stat :: "'u fs_calls \<Rightarrow> bool \<Rightarrow> u8 list \<Rightarrow> 'u dfs \<Rightarrow> (int \<times> bool \<times> 'u dfs) option" where
  "dfs_file_stat call mem path s =
     do { full \<leftarrow> dfs_normalize_path mem (working_directory s) None path;
          case full of
            None \<Rightarrow> Some (- 1, False, s)
          | Some fullpath \<Rightarrow>
              do { fs \<leftarrow> dfs_filesystem_lookup fullpath s;
                   case fs of
                     None \<Rightarrow> Some (- ENOENT, False, s)
                   | Some i \<Rightarrow>
                       do { op \<leftarrow> fs_ops (filesystem_table s ! i);
                            fspath \<leftarrow> fs_path (filesystem_table s ! i);
                            d \<leftarrow> dfs_subdir fspath fullpath;
                            if take 2 fullpath = [SLASH, 0] \<or> d = None then Some (0, True, s)
                            else case ops_stat (ops_of s op) of
                                   None \<Rightarrow> Some (- ENOSYS, False, s)
                                 | Some f \<Rightarrow>
                                     do { (result, s) \<leftarrow> call (Call_fs f i
                                            [Some (if ops_flags (ops_of s op) AND DFS_FS_FLAG_FULLPATH \<noteq> 0
                                                   then fullpath else drop (the d) fullpath)]) s;
                                          Some (result, False, s) } } } }"

text \<open>Without a mounted file system both lookups give \<open>NULL\<close>, which is dereferenced.\<close>

definition dfs_file_rename :: "'u fs_calls \<Rightarrow> bool \<Rightarrow> u8 list \<Rightarrow> u8 list \<Rightarrow> 'u dfs \<Rightarrow> (int \<times> 'u dfs) option" where
  "dfs_file_rename call mem oldpath newpath s =
     do { oldfull \<leftarrow> dfs_normalize_path mem (working_directory s) None oldpath;
          newfull \<leftarrow> (if oldfull = None then Some None else dfs_normalize_path mem (working_directory s) None newpath);
          case (oldfull, newfull) of
            (Some oldfullpath, Some newfullpath) \<Rightarrow>
              do { oldfs \<leftarrow> dfs_filesystem_lookup oldfullpath s;
                   newfs \<leftarrow> dfs_filesystem_lookup newfullpath s;
                   if oldfs = newfs
                   then do { i \<leftarrow> oldfs;
                             op \<leftarrow> fs_ops (filesystem_table s ! i);
                             fspath \<leftarrow> fs_path (filesystem_table s ! i);
                             case ops_rename (ops_of s op) of
                               None \<Rightarrow> Some (- ENOSYS, s)
                             | Some f \<Rightarrow>
                                 if ops_flags (ops_of s op) AND DFS_FS_FLAG_FULLPATH \<noteq> 0
                                 then call (Call_fs f i [Some oldfullpath, Some newfullpath]) s
                                 else do { d \<leftarrow> dfs_subdir fspath oldfullpath;
                                           e \<leftarrow> dfs_subdir fspath newfullpath;
                                           call (Call_fs f i [map_option (\<lambda>k. drop k oldfullpath) d,
                                             map_option (\<lambda>k. drop k newfullpath) e]) s } }
                   else Some (- EXDEV, s) }
          | _ \<Rightarrow> Some (- ENOENT, s) }"

end
