(* ===== verification/Dfs_Mount.thy ===== *)
theory Dfs_Mount
  imports Dfs
begin

text \<open>
  Mounting (\<open>dfs_mount\<close>, \<open>dfs_unmount\<close> and the rest of \<open>components/dfs/src/dfs_fs.c\<close>), and what the lookup of a path
  finds: the file system that is mounted nearest above it.
\<close>

subsection \<open>Operations\<close>

fun find_ops :: "'u dfs \<Rightarrow> u8 list \<Rightarrow> nat option list \<Rightarrow> nat option option" where
  "find_ops s name [] = Some None"
| "find_ops s name (e # es) =
     (case e of
        None \<Rightarrow> find_ops s name es
      | Some op \<Rightarrow> do { b \<leftarrow> str_eq (ops_name (ops_of s op)) name; if b then Some (Some op) else find_ops s name es })"

text \<open>The loop of \<open>dfs_mount\<close>: the first empty entry, and whether the path that the caller gave is mounted.\<close>

fun mount_loop :: "u8 list \<Rightarrow> dfs_filesystem list \<Rightarrow> nat \<Rightarrow> nat option \<Rightarrow> (nat option \<times> bool) option" where
  "mount_loop path [] i fs = Some (fs, False)"
| "mount_loop path (e # es) i fs =
     (if fs_ops e = None then mount_loop path es (i + 1) (if fs = None then Some i else fs)
      else do { p \<leftarrow> fs_path e; b \<leftarrow> str_eq p path; if b then Some (fs, True) else mount_loop path es (i + 1) fs })"

definition mount_root :: "u8 list" where
  "mount_root = [SLASH, 0]"

definition mount_dev :: "u8 list" where
  "mount_dev = [SLASH, 100, 101, 118, 0]"

text \<open>
  The check that the directory exists, with the structure \<open>fd\<close> on the stack. \<open>mem\<close> and \<open>dup\<close> say whether there is memory.
\<close>

definition mount_dir :: "'u fs_calls \<Rightarrow> bool \<Rightarrow> bool \<Rightarrow> nat \<Rightarrow> u8 list \<Rightarrow> 'u dfs \<Rightarrow> (bool \<times> 'u dfs) option" where
  "mount_dir call mem dup fd fullpath s =
     do { root \<leftarrow> str_eq fullpath mount_root;
          dev \<leftarrow> (if root then Some True else str_eq fullpath mount_dev);
          if dev then Some (True, s)
          else do { (r, s) \<leftarrow> dfs_file_open call mem dup (Some fd) fullpath O_DIRECTORY s;
                    if r < 0 then Some (False, s)
                    else do { (_, s) \<leftarrow> dfs_file_close call (Some fd) s; Some (True, s) } } }"

text \<open>From the entry of the table on: the device is opened and the file system mounted.\<close>

definition mount_entry :: "'u fs_calls \<Rightarrow> nat option \<Rightarrow> nat \<Rightarrow> nat \<Rightarrow> u8 list \<Rightarrow> nat \<Rightarrow> 'u dfs \<Rightarrow> (int \<times> 'u dfs) option" where
  "mount_entry call dev_id op f fullpath i s =
     do { let s = set_fs i ((filesystem_table s ! i)\<lparr>fs_path := Some fullpath, fs_ops := Some op, fs_dev_id := dev_id\<rparr>) s;
          (r, s) \<leftarrow> (case dev_id of None \<Rightarrow> Some (0, s) | Some d \<Rightarrow> call (Call_device_open d) s);
          if r \<noteq> 0 then Some (- 1, set_fs i zero_fs s)
          else do { (r, s) \<leftarrow> call (Call_fs f i []) s;
                    if r < 0
                    then do { s \<leftarrow> (case dev_id of None \<Rightarrow> Some s
                                | Some _ \<Rightarrow> do { d \<leftarrow> fs_dev_id (filesystem_table s ! i);
                                              (_, s) \<leftarrow> call (Call_device_close d) s; Some s });
                              Some (- 1, set_fs i zero_fs s) }
                    else Some (0, s) } }"

text \<open>\<open>devs\<close> is what \<open>rt_device_find\<close> answers.\<close>

definition dfs_mount ::
  "'u fs_calls \<Rightarrow> (u8 list \<Rightarrow> nat option) \<Rightarrow> bool \<Rightarrow> bool \<Rightarrow> nat \<Rightarrow> u8 list option \<Rightarrow> u8 list \<Rightarrow> u8 list \<Rightarrow> 'u dfs \<Rightarrow> (int \<times> 'u dfs) option" where
  "dfs_mount call devs mem dup fd device_name path filesystemtype s =
     (case (case device_name of None \<Rightarrow> Some None | Some n \<Rightarrow> map_option Some (devs n)) of
        None \<Rightarrow> Some (- 1, set_errno (- ENODEV) s)
      | Some dev_id \<Rightarrow>
          do { op \<leftarrow> find_ops s filesystemtype (filesystem_operation_table s);
               case op of
                 None \<Rightarrow> Some (- 1, set_errno (- ENODEV) s)
               | Some op \<Rightarrow>
                   (case ops_mount (ops_of s op) of
                      None \<Rightarrow> Some (- 1, set_errno (- ENOSYS) s)
                    | Some f \<Rightarrow>
                        do { full \<leftarrow> dfs_normalize_path mem (working_directory s) None path;
                             case full of
                               None \<Rightarrow> Some (- 1, set_errno (- ENOTDIR) s)
                             | Some fullpath \<Rightarrow>
                                 do { (ok, s) \<leftarrow> mount_dir call mem dup fd fullpath s;
                                      if \<not> ok then Some (- 1, set_errno (- ENOTDIR) s)
                                      else do { (fs, mounted) \<leftarrow> mount_loop path (filesystem_table s) 0 None;
                                                if mounted then Some (- 1, set_errno (- EINVAL) s)
                                                else case fs of
                                                       None \<Rightarrow> Some (- 1, set_errno (- ENOSPC) s)
                                                     | Some i \<Rightarrow> mount_entry call dev_id op f fullpath i s } } }) })"

text \<open>
  \<open>init_ok\<close> is the static flag of \<open>dfs_init\<close>, \<open>devfs\<close> the operations of the device file system, which \<open>devfs_init\<close>
  registers; the lock of the tables is not part of the state.
\<close>

definition devfs_name :: "u8 list" where
  "devfs_name = [100, 101, 118, 102, 115, 0]"

definition dfs_init :: "'u fs_calls \<Rightarrow> bool \<Rightarrow> nat \<Rightarrow> bool \<Rightarrow> nat \<Rightarrow> 'u dfs \<Rightarrow> (int \<times> 'u dfs) option" where
  "dfs_init call init_ok devfs mem fd s =
     (if init_ok then Some (0, s)
      else do { let s = s\<lparr>filesystem_operation_table := replicate DFS_FILESYSTEM_TYPES_MAX None,
                  filesystem_table := replicate DFS_FILESYSTEMS_MAX zero_fs, fdt_fds := [],
                  working_directory := SLASH # replicate 255 0\<rparr>;
                (_, s) \<leftarrow> dfs_register devfs s;
                (_, s) \<leftarrow> dfs_mount call (\<lambda>_. None) mem True fd None mount_dev devfs_name s;
                Some (0, s) })"

fun unmount_loop :: "u8 list \<Rightarrow> dfs_filesystem list \<Rightarrow> nat \<Rightarrow> nat option option" where
  "unmount_loop fullpath [] i = Some None"
| "unmount_loop fullpath (e # es) i =
     (case fs_path e of
        None \<Rightarrow> unmount_loop fullpath es (i + 1)
      | Some p \<Rightarrow> do { b \<leftarrow> str_eq p fullpath; if b then Some (Some i) else unmount_loop fullpath es (i + 1) })"

definition dfs_unmount :: "'u fs_calls \<Rightarrow> bool \<Rightarrow> u8 list \<Rightarrow> 'u dfs \<Rightarrow> (int \<times> 'u dfs) option" where
  "dfs_unmount call mem specialfile s =
     do { full \<leftarrow> dfs_normalize_path mem (working_directory s) None specialfile;
          case full of
            None \<Rightarrow> Some (- 1, set_errno (- ENOTDIR) s)
          | Some fullpath \<Rightarrow>
              do { fs \<leftarrow> unmount_loop fullpath (filesystem_table s) 0;
                   case fs of
                     None \<Rightarrow> Some (- 1, s)
                   | Some i \<Rightarrow>
                       do { op \<leftarrow> fs_ops (filesystem_table s ! i);
                            case ops_unmount (ops_of s op) of
                              None \<Rightarrow> Some (- 1, s)
                            | Some f \<Rightarrow>
                                do { (r, s) \<leftarrow> call (Call_fs f i []) s;
                                     if r < 0 then Some (- 1, s)
                                     else do { s \<leftarrow> (case fs_dev_id (filesystem_table s ! i) of None \<Rightarrow> Some s
                                                 | Some d \<Rightarrow> do { (_, s) \<leftarrow> call (Call_device_close d) s; Some s });
                                               Some (0, set_fs i zero_fs s) } } } } }"

text \<open>The search of \<open>dfs_mkfs\<close> over the \<open>n\<close> indices from \<open>i\<close> on; an index outside the table is undefined.\<close>

fun mkfs_search :: "'u dfs \<Rightarrow> u8 list \<Rightarrow> nat \<Rightarrow> nat \<Rightarrow> nat option" where
  "mkfs_search s name 0 i = Some i"
| "mkfs_search s name (Suc n) i =
     (if i < length (filesystem_operation_table s)
      then case filesystem_operation_table s ! i of
             None \<Rightarrow> mkfs_search s name n (i + 1)
           | Some op \<Rightarrow> do { b \<leftarrow> str_eq (ops_name (ops_of s op)) name; if b then Some i else mkfs_search s name n (i + 1) }
      else None)"

definition dfs_mkfs ::
  "'u fs_calls \<Rightarrow> (u8 list \<Rightarrow> nat option) \<Rightarrow> u8 list \<Rightarrow> u8 list option \<Rightarrow> 'u dfs \<Rightarrow> (int \<times> 'u dfs) option" where
  "dfs_mkfs call devs fs_name device_name s =
     (case (case device_name of None \<Rightarrow> None | Some n \<Rightarrow> devs n) of
        None \<Rightarrow> Some (- 1, set_errno (- ENODEV) s)
      | Some dev_id \<Rightarrow>
          do { index \<leftarrow> mkfs_search s fs_name (DFS_FILESYSTEM_TYPES_MAX + 1) 0;
               if index \<le> DFS_FILESYSTEM_TYPES_MAX
               then do { op \<leftarrow> filesystem_operation_table s ! index;
                         case ops_mkfs (ops_of s op) of
                           None \<Rightarrow> Some (- 1, set_errno (- ENOSYS) s)
                         | Some f \<Rightarrow> call (Call_mkfs f dev_id) s }
               else Some (- 1, s) })"

definition dfs_statfs :: "'u fs_calls \<Rightarrow> u8 list option \<Rightarrow> 'u dfs \<Rightarrow> (int \<times> 'u dfs) option" where
  "dfs_statfs call path s =
     do { path \<leftarrow> path;
          fs \<leftarrow> dfs_filesystem_lookup path s;
          case fs of
            None \<Rightarrow> Some (- 1, s)
          | Some i \<Rightarrow> do { op \<leftarrow> fs_ops (filesystem_table s ! i);
                           case ops_statfs (ops_of s op) of
                             None \<Rightarrow> Some (- 1, s) | Some f \<Rightarrow> call (Call_fs f i []) s } }"

text \<open>The result of the partition table: type, offset and size.\<close>

definition buf_le32 :: "u8 list \<Rightarrow> nat \<Rightarrow> u32 option" where
  "buf_le32 b i =
     do { c0 \<leftarrow> buf_get b i; c1 \<leftarrow> buf_get b (i + 1); c2 \<leftarrow> buf_get b (i + 2); c3 \<leftarrow> buf_get b (i + 3);
          Some (ucast c0 OR push_bit 8 (ucast c1) OR push_bit 16 (ucast c2) OR push_bit 24 (ucast c3)) }"

definition dfs_filesystem_get_partition :: "u8 list \<Rightarrow> nat \<Rightarrow> (int \<times> (u8 \<times> u32 \<times> u32) option) option" where
  "dfs_filesystem_get_partition buf pindex =
     do { let dpt = 0x1be + pindex * 16;
          b \<leftarrow> buf_get buf dpt;
          if b \<noteq> 0x80 \<and> b \<noteq> 0 then Some (- EIO, None)
          else do { typ \<leftarrow> buf_get buf (dpt + 4);
                    if typ = 0 then Some (- EIO, None)
                    else do { offset \<leftarrow> buf_le32 buf (dpt + 8);
                              sz \<leftarrow> buf_le32 buf (dpt + 12);
                              Some (0, Some (typ, offset, sz)) } } }"

subsection \<open>The nearest mounted file system\<close>

text \<open>What the table holds: in every entry that is in use the normal path of a directory.\<close>

definition entry_ok :: "dfs_filesystem \<Rightarrow> bool" where
  "entry_ok e \<longleftrightarrow> (fs_ops e = None \<longleftrightarrow> fs_path e = None) \<and>
     (\<forall>p. fs_path e = Some p \<longrightarrow> (\<exists>m. names_ok m \<and> cstr p (path_text True m)))"

definition mounts_ok :: "'u dfs \<Rightarrow> bool" where
  "mounts_ok s \<longleftrightarrow> (\<forall>e \<in> set (filesystem_table s). entry_ok e)"

definition below :: "u8 list list \<Rightarrow> u8 list list \<Rightarrow> bool" where
  "below m cs \<longleftrightarrow> take (length m) cs = m"

lemma cstr_take: "cstr p a \<Longrightarrow> takeWhile (\<lambda>c. c \<noteq> 0) p = a"
proof -
  assume "cstr p a"
  then obtain r where "p = a @ 0 # r" "\<forall>c \<in> set a. c \<noteq> 0" by (auto simp: cstr_def)
  then show ?thesis by (simp add: takeWhile_append2)
qed

lemma cstr_unique: "cstr p a \<Longrightarrow> cstr p b \<Longrightarrow> a = b"
  using cstr_take[of p a] cstr_take[of p b] by simp

lemma path_split_text: "names_ok m \<Longrightarrow> path_split (path_text True m) = (if m = [] then [[], []] else [] # m)"
  using path_split_join[of m] by (auto simp: path_text_def)

lemma path_split_end: "path_split (s @ SLASH # t) = path_split s @ path_split t"
proof (induction s)
  case (Cons c s)
  have "path_split u \<noteq> []" for u by (cases u) (auto split: list.splits)
  then show ?case using Cons by (auto split: list.splits simp: append_eq_Cons_conv)
qed simp

text \<open>The test of the lookup, for normal paths: the directory is the path or above it.\<close>

lemma prefix_below:
  assumes "names_ok m" "names_ok cs"
  shows "take (length (path_text True m)) (path_text True cs) = path_text True m \<and>
      (m = [] \<or> length (path_text True cs) = length (path_text True m) \<or> path_text True cs ! length (path_text True m) = SLASH)
    \<longleftrightarrow> below m cs"
proof (cases "m = []")
  case True
  then show ?thesis by (simp add: below_def path_text_def)
next
  case False
  let ?m = "path_text True m" and ?c = "path_text True cs"
  show ?thesis
  proof
    assume l: "take (length ?m) ?c = ?m \<and> (m = [] \<or> length ?c = length ?m \<or> ?c ! length ?m = SLASH)"
    have "?c = ?m \<or> (\<exists>t. ?c = ?m @ SLASH # t)"
    proof (cases "length ?c \<le> length ?m")
      case True
      then show ?thesis using l by auto
    next
      case f: False
      then have "?c = take (length ?m) ?c @ ?c ! length ?m # drop (Suc (length ?m)) ?c" by (simp add: id_take_nth_drop)
      then show ?thesis using l f False by auto
    qed
    then have "\<exists>t. path_split ?c = path_split ?m @ t" using path_split_end by (metis append_Nil2)
    then obtain t where "(if cs = [] then [[], []] else [] # cs) = ([] # m) @ t"
      using path_split_text[OF assms(1)] path_split_text[OF assms(2)] False by auto
    then show "below m cs" using assms(1) False by (cases m) (auto simp: below_def split: if_splits)
  next
    assume "below m cs"
    then obtain ds where d: "cs = m @ ds" by (metis below_def append_take_drop_id)
    then show "take (length ?m) ?c = ?m \<and> (m = [] \<or> length ?c = length ?m \<or> ?c ! length ?m = SLASH)"
      using path_text_append[OF False, of ds True] by (cases "ds = []") (auto simp: path_text_def nth_append)
  qed
qed


lemma join_nonempty: "names_ok ds \<Longrightarrow> ds \<noteq> [] \<Longrightarrow> path_join ds \<noteq> []"
  using path_text_last[of ds False] by (simp add: names_ok_def path_text_def)

text \<open>Of two directories above the same path, the deeper one has the longer path.\<close>

lemma below_length:
  assumes "names_ok m" "names_ok m'" "below m cs" "below m' cs"
  shows "length (path_text True m) < length (path_text True m') \<longleftrightarrow> length m < length m'"
    "length m = length m' \<Longrightarrow> m = m'"
proof -
  have less: "length (path_text True a) < length (path_text True b)"
    if ab: "names_ok a" "names_ok b" "below a cs" "below b cs" "length a < length b" for a b
  proof -
    have "a = take (length a) b" using ab(3-5) by (metis below_def min.strict_order_iff take_take)
    then obtain ds where d: "b = a @ ds" "ds \<noteq> []" using ab(5) by (metis append_Nil2 append_take_drop_id less_irrefl)
    have "path_join ds \<noteq> []" using join_nonempty[of ds] ab(2) d by simp
    then show ?thesis using path_text_append[of a ds True] d by (cases "a = []") (simp_all add: path_text_def)
  qed
  show e: "m = m'" if "length m = length m'" using that assms(3,4) by (simp add: below_def)
  show "length (path_text True m) < length (path_text True m') \<longleftrightarrow> length m < length m'"
    using less[OF assms(1,2,3,4)] less[OF assms(2,1,4,3)] e by (metis less_asym less_irrefl nat_neq_iff)
qed

definition entry_at :: "dfs_filesystem \<Rightarrow> u8 list list \<Rightarrow> bool" where
  "entry_at e m \<longleftrightarrow> names_ok m \<and> fs_ops e \<noteq> None \<and> (\<exists>p. fs_path e = Some p \<and> cstr p (path_text True m))"

lemma text_inj:
  assumes "names_ok m" "names_ok m'" "path_text True m = path_text True m'"
  shows "m = m'"
proof -
  have "(if m = [] then [[], []] else [] # m) = (if m' = [] then [[], []] else [] # m')"
    using path_split_text[OF assms(1)] path_split_text[OF assms(2)] assms(3) by simp
  then show ?thesis using assms(1,2) by (auto split: if_splits)
qed

lemma entry_unique: "entry_at e m \<Longrightarrow> entry_at e m' \<Longrightarrow> m = m'"
  unfolding entry_at_def using text_inj cstr_unique by (metis option.inject)

lemma text_length: "names_ok m \<Longrightarrow> 1 < length (path_text True m) \<longleftrightarrow> m \<noteq> []"
  using path_text_last[of m False] by (cases "m = []") (auto simp: names_ok_def path_text_def)

lemma separator_test:
  fixes m c :: nat
  assumes "t \<and> (e \<or> c = m \<or> x = y) \<longleftrightarrow> b" "1 < m \<longleftrightarrow> \<not> e" "m < c \<Longrightarrow> z = x" "m \<le> c" t
  shows "1 < m \<and> m < c \<and> z \<noteq> y \<longleftrightarrow> \<not> b"
  using assms by (cases "m < c") auto

lemma lookup_used:
  assumes e: "fs_ops e \<noteq> None" "fs_path e = Some p" "cstr p (path_text True m)" "names_ok m"
    and c: "names_ok cs" "cstr path (path_text True cs)"
  shows "lookup_loop path (e # es) i fs n =
    (if below m cs \<and> n \<le> length (path_text True m)
     then lookup_loop path es (i + 1) (Some i) (length (path_text True m)) else lookup_loop path es (i + 1) fs n)"
proof -
  let ?m = "path_text True m" and ?c = "path_text True cs"
  obtain r where r: "path = ?c @ 0 # r" using c(2) by (auto simp: cstr_def)
  obtain d where d: "rt_strncmp p path (length ?m) = Some d" "d = 0 \<longleftrightarrow> take (length ?m) ?c = ?m"
    using rt_strncmp_eq_0[OF e(3) c(2), of "length ?m"] by auto
  have at: "length ?m < length ?c \<Longrightarrow> path ! length ?m = ?c ! length ?m" by (simp add: r nth_append)
  have le: "length ?m \<le> length ?c" if "take (length ?m) ?c = ?m" using arg_cong[OF that, of length] by simp
  obtain op where op: "fs_ops e = Some op" using e(1) by blast
  note b = prefix_below[OF e(4) c(1)] and l = text_length[OF e(4)]
  note s = rt_strlen_cstr[OF e(3)] rt_strlen_cstr[OF c(2)]
  show ?thesis
  proof (cases "n \<le> length ?m \<and> take (length ?m) ?c = ?m")
    case True
    have "1 < length ?m \<and> length ?m < length ?c \<and> path ! length ?m \<noteq> SLASH \<longleftrightarrow> \<not> below m cs"
      by (rule separator_test[OF b l at le[OF conjunct2[OF True]] conjunct2[OF True]])
    then show ?thesis using op e(2) s d True by (simp add: not_less)
  next
    case False
    then have "n \<le> length ?m \<Longrightarrow> \<not> below m cs" "n \<le> length ?m \<Longrightarrow> d \<noteq> 0" using b d(2) by simp_all
    then show ?thesis using op e(2) s d(1) by (cases "n \<le> length ?m") (simp_all add: not_le)
  qed
qed

text \<open>The entry the loop holds after the first \<open>k\<close>: the last of the deepest ones above the path.\<close>

definition above :: "dfs_filesystem list \<Rightarrow> u8 list list \<Rightarrow> nat \<Rightarrow> u8 list list \<Rightarrow> bool" where
  "above T cs j m \<longleftrightarrow> j < length T \<and> entry_at (T ! j) m \<and> below m cs"

definition nearest :: "dfs_filesystem list \<Rightarrow> u8 list list \<Rightarrow> nat \<Rightarrow> nat option \<Rightarrow> nat \<Rightarrow> bool" where
  "nearest T cs k fs n \<longleftrightarrow>
     (case fs of
        None \<Rightarrow> n = 0 \<and> (\<forall>j m. j < k \<longrightarrow> \<not> above T cs j m)
      | Some i \<Rightarrow> \<exists>m. above T cs i m \<and> n = length (path_text True m) \<and>
          (\<forall>j m'. j < k \<and> above T cs j m' \<longrightarrow>
             length (path_text True m') < n \<or> length (path_text True m') = n \<and> j \<le> i))"

lemma nearest_skip:
  assumes "nearest T cs k fs n" "\<And>m. above T cs k m \<Longrightarrow> length (path_text True m) < n"
  shows "nearest T cs (Suc k) fs n"
  using assms by (auto simp: nearest_def less_Suc_eq split: option.splits) 

lemma nearest_take:
  assumes "nearest T cs k fs n" "above T cs k m" "n \<le> length (path_text True m)"
  shows "nearest T cs (Suc k) (Some k) (length (path_text True m))"
proof -
  have "length (path_text True m') < length (path_text True m) \<or> length (path_text True m') = length (path_text True m) \<and> j \<le> k"
    if j: "j < Suc k" "above T cs j m'" for j m'
  proof (cases "j = k")
    case True
    then show ?thesis using assms(2) j(2) entry_unique[of "T ! k" m m'] by (auto simp: above_def)
  next
    case False
    then have "length (path_text True m') \<le> n" using assms(1) j by (force simp: nearest_def split: option.splits)
    then show ?thesis using assms(3) j(1) by auto
  qed
  then show ?thesis using assms(2) by (auto simp: nearest_def)
qed

lemma lookup_loop_ok:
  assumes "\<forall>e \<in> set T. entry_ok e" "names_ok cs" "cstr path (path_text True cs)" "nearest T cs k fs n" "k \<le> length T"
  shows "\<exists>r n'. lookup_loop path (drop k T) k fs n = Some r \<and> nearest T cs (length T) r n'"
  using assms(4,5)
proof (induction "length T - k" arbitrary: k fs n)
  case 0
  then show ?case by auto
next
  case (Suc d)
  then have k: "k < length T" by simp
  then have dr: "drop k T = T ! k # drop (Suc k) T" by (simp add: Cons_nth_drop_Suc)
  have d: "d = length T - Suc k" "Suc k \<le> length T" using Suc.hyps(2) k by simp_all
  show ?case
  proof (cases "fs_ops (T ! k) = None")
    case True
    then have "nearest T cs (Suc k) fs n" using Suc.prems(1) by (intro nearest_skip) (auto simp: above_def entry_at_def)
    then show ?thesis using Suc.hyps(1)[OF d(1) _ d(2)] dr True by simp
  next
    case False
    obtain p m where e: "fs_path (T ! k) = Some p" "names_ok m" "cstr p (path_text True m)"
      using bspec[OF assms(1) nth_mem[OF k]] False unfolding entry_ok_def by blast
    have at: "above T cs k m \<longleftrightarrow> below m cs" using e False k by (simp add: above_def entry_at_def)
    note l = lookup_used[OF False e(1,3,2) assms(2,3), of "drop (Suc k) T" k fs n]
    show ?thesis
    proof (cases "below m cs \<and> n \<le> length (path_text True m)")
      case True
      then have "nearest T cs (Suc k) (Some k) (length (path_text True m))" using nearest_take[OF Suc.prems(1)] at by blast
      then show ?thesis using Suc.hyps(1)[OF d(1) _ d(2)] dr l True by simp
    next
      case f: False
      have "length (path_text True m') < n" if "above T cs k m'" for m'
        using that f at entry_unique[of "T ! k" m m'] e False by (auto simp: above_def entry_at_def)
      then have "nearest T cs (Suc k) fs n" using Suc.prems(1) by (rule nearest_skip[rotated])
      then show ?thesis using Suc.hyps(1)[OF d(1) _ d(2)] dr l f by simp
    qed
  qed
qed

definition fs_above :: "'u dfs \<Rightarrow> u8 list list \<Rightarrow> nat \<Rightarrow> u8 list list \<Rightarrow> bool" where
  "fs_above s cs i m \<longleftrightarrow> above (filesystem_table s) cs i m"

lemma lookup_ok:
  assumes "mounts_ok s" "names_ok cs" "cstr path (path_text True cs)"
  shows "\<exists>r. dfs_filesystem_lookup path s = Some r \<and>
    (case r of
       None \<Rightarrow> \<forall>j m. \<not> fs_above s cs j m
     | Some i \<Rightarrow> \<exists>m. fs_above s cs i m \<and>
         (\<forall>j m'. fs_above s cs j m' \<longrightarrow> length m' < length m \<or> m' = m \<and> j \<le> i))"
proof -
  let ?T = "filesystem_table s"
  have "nearest ?T cs 0 None 0" by (simp add: nearest_def)
  then obtain r n where r: "dfs_filesystem_lookup path s = Some r" "nearest ?T cs (length ?T) r n"
    using lookup_loop_ok[OF _ assms(2,3), of ?T 0 None 0] assms(1) by (auto simp: mounts_ok_def dfs_filesystem_lookup_def)
  have lt: "j < length ?T" if "above ?T cs j m" for j m using that by (simp add: above_def)
  show ?thesis
  proof (cases r)
    case None
    then show ?thesis using r lt by (auto simp: nearest_def fs_above_def)
  next
    case (Some i)
    then obtain m where m: "above ?T cs i m"
      "\<And>j m'. above ?T cs j m' \<Longrightarrow> length (path_text True m') < length (path_text True m) \<or>
        length (path_text True m') = length (path_text True m) \<and> j \<le> i"
      using r(2) lt by (auto simp: nearest_def)
    have nm: "names_ok a \<and> below a cs" if "above ?T cs j a" for j a using that by (simp add: above_def entry_at_def)
    have "length m' < length m \<or> m' = m \<and> j \<le> i" if a: "above ?T cs j m'" for j m'
      using m(2)[OF a] below_length[of m' m cs] below_length[of m m' cs] nm[OF a] nm[OF m(1)]
      by (metis less_irrefl nat_neq_iff)
    then show ?thesis using r(1) Some m(1) by (auto simp: fs_above_def)
  qed
qed


text \<open>C16. The lookup of a normal path finds the nearest mounted file system: its directory is the path or above it, no
  directory nearer to the path is mounted, and of two file systems on the same directory it is the later one in the
  table; when there is none above the path, the lookup returns \<open>NULL\<close>.\<close>

theorem lookup_nearest:
  assumes "mounts_ok s" "names_ok cs" "cstr path (path_text True cs)"
  shows "\<exists>r. dfs_filesystem_lookup path s = Some r \<and>
    (case r of
       None \<Rightarrow> \<forall>j m. \<not> fs_above s cs j m
     | Some i \<Rightarrow> \<exists>m. fs_above s cs i m \<and>
         (\<forall>j m'. fs_above s cs j m' \<longrightarrow> length m' < length m \<or> m' = m \<and> j \<le> i))"
  by (rule lookup_ok[OF assms])

definition ex_ops :: dfs_filesystem_ops where
  "ex_ops = \<lparr>ops_name = [102, 0], ops_flags = 0, ops_fops = 0, ops_mount = Some 1, ops_unmount = Some 2, ops_mkfs = None,
     ops_statfs = None, ops_unlink = None, ops_stat = None, ops_rename = None\<rparr>"

definition ex_fs :: "u8 list \<Rightarrow> dfs_filesystem" where
  "ex_fs p = \<lparr>fs_dev_id = None, fs_path = Some p, fs_ops = Some 0, fs_data = 0\<rparr>"

definition ex_dfs :: "dfs_filesystem list \<Rightarrow> unit dfs" where
  "ex_dfs T = \<lparr>fdt_fds = [], fd_of = (\<lambda>_. zero_fd), filesystem_operation_table = [Some 0, None], ops_of = (\<lambda>_. ex_ops),
     fops_of = (\<lambda>_. \<lparr>fop_open = Some 3, fop_close = None, fop_ioctl = None, fop_read = None, fop_write = None, fop_flush = None,
       fop_lseek = None, fop_getdents = None, fop_poll = None\<rparr>), filesystem_table = T, working_directory = [47, 0],
     dfs_errno = 0, dfs_user = ()\<rparr>"

lemma ex_fs_ok: "names_ok m \<Longrightarrow> cstr p (path_text True m) \<Longrightarrow> entry_ok (ex_fs p)"
  "names_ok m \<Longrightarrow> entry_at (ex_fs p) m \<longleftrightarrow> cstr p (path_text True m)" "entry_ok zero_fs"
  by (auto simp: entry_ok_def entry_at_def ex_fs_def zero_fs_def)

theorem lookup_nearest_witness:
  "dfs_filesystem_lookup [47, 97, 47, 98, 0] (ex_dfs [ex_fs [47, 0], ex_fs [47, 97, 0]]) = Some (Some 1)"
proof -
  let ?s = "ex_dfs [ex_fs [47, 0], ex_fs [47, 97, 0]]"
  have t: "cstr [47, 0] (path_text True [])" "cstr [47, 97, 0] (path_text True [[97]])"
    "cstr [47, 97, 47, 98, 0] (path_text True [[97], [98]])" by (simp_all add: cstr_def path_text_def)
  have "mounts_ok ?s" using ex_fs_ok(1)[OF _ t(1)] ex_fs_ok(1)[OF _ t(2)] by (simp add: mounts_ok_def ex_dfs_def)
  then obtain r where r: "dfs_filesystem_lookup [47, 97, 47, 98, 0] ?s = Some r"
    "case r of None \<Rightarrow> \<forall>j m. \<not> fs_above ?s [[97], [98]] j m
     | Some i \<Rightarrow> \<exists>m. fs_above ?s [[97], [98]] i m \<and>
         (\<forall>j m'. fs_above ?s [[97], [98]] j m' \<longrightarrow> length m' < length m \<or> m' = m \<and> j \<le> i)"
    using lookup_nearest[OF _ _ t(3), of ?s] by auto
  have "fs_above ?s [[97], [98]] 1 [[97]]"
    using t(2) by (simp add: fs_above_def above_def below_def ex_fs_ok(2) ex_dfs_def)
  then obtain i m where i: "r = Some i" "fs_above ?s [[97], [98]] i m" "0 < length m"
    using r(2) by (cases r) (fastforce)+
  have "i \<noteq> 0"
  proof
    assume "i = 0"
    then have "entry_at (ex_fs [47, 0]) m" using i(2) by (simp add: fs_above_def above_def ex_dfs_def)
    then have "m = []" using entry_unique[of _ m "[]"] t(1) by (simp add: ex_fs_ok(2))
    then show False using i(3) by simp
  qed
  then have "i = 1" using i(2) by (simp add: fs_above_def above_def ex_dfs_def)
  then show ?thesis using r(1) i(1) by simp
qed

subsection \<open>Two ways to write a directory\<close>

lemma str_eq_ok: "cstr s a \<Longrightarrow> cstr t b \<Longrightarrow> str_eq s t = Some (a = b)"
  using rt_strcmp_eq_0[of s a t b] by (auto simp: str_eq_def)

lemma path_walk_append: "names_ok ds \<Longrightarrow> path_walk r cs (ds @ es) = path_walk r (cs @ ds) es"
  by (induction ds arbitrary: cs) auto

lemma normalize_slash:
  assumes "cstr wd w" "names_ok m" "m \<noteq> []" "cstr path (path_text True m @ [SLASH]) \<or> cstr path (path_text True m)"
  shows "\<exists>b. dfs_normalize_path True wd None path = Some (Some b) \<and> cstr b (path_text True m)"
proof -
  have h: "hd (path_text True m @ x) = SLASH" for x by (simp add: path_text_def)
  have w: "path_walk True [] (path_split (path_text True m @ [SLASH])) = Some (True, m)"
    using path_split_end[of "path_text True m" "[]"] path_split_text[OF assms(2)] assms(3)
      path_walk_append[OF assms(2), of True "[]" "[[]]"] by simp
  from assms(4) show ?thesis
  proof
    assume "cstr path (path_text True m @ [SLASH])"
    then show ?thesis using normalize_absolute[OF assms(1) _ _ w] h by auto
  next
    assume "cstr path (path_text True m)"
    then show ?thesis using normalize_absolute[OF assms(1) _ _ path_text_split(1)[OF assms(2)]] h by auto
  qed
qed

text \<open>\<open>dfs_mount\<close> compares the path as the caller wrote it with the normal paths of the table. On a directory that is
  mounted, the normal path is refused, but with a slash at its end it is accepted: two file systems are then on the
  directory, the second one hides the first, and \<open>dfs_unmount\<close> of the directory takes away the first one, not the one in use.\<close>

theorem mount_twice:
  assumes m: "names_ok m" "m \<noteq> []" "cstr (working_directory s) w" "filesystem_table s = [e0, e1]"
      "entry_ok e0" "entry_at e0 m" "e1 = zero_fs"
    and p: "cstr path (path_text True m)" "cstr slashed (path_text True m @ [SLASH])"
    and op: "find_ops s name (filesystem_operation_table s) = Some (Some op)" "ops_mount (ops_of s op) = Some f"
    and dir: "\<And>b. cstr b (path_text True m) \<Longrightarrow> mount_dir call True dup fd b s = Some (True, s)"
    and call: "\<And>s. call (Call_fs f 1 []) s = Some (0, s)"
    and un: "fs_ops e0 = Some op0" "ops_unmount (ops_of s op0) = Some g" "fs_dev_id e0 = None" "\<And>s. call (Call_fs g 0 []) s = Some (0, s)"
  shows "dfs_mount call devs True dup fd None path name s = Some (- 1, set_errno (- EINVAL) s) \<and>
    (\<exists>b s'. dfs_mount call devs True dup fd None slashed name s = Some (0, s') \<and>
      filesystem_table s' = [e0, zero_fs\<lparr>fs_path := Some b, fs_ops := Some op\<rparr>] \<and>
      dfs_filesystem_lookup path s' = Some (Some 1) \<and>
      (\<exists>s''. dfs_unmount call True path s' = Some (0, s'') \<and>
        filesystem_table s'' = [zero_fs, zero_fs\<lparr>fs_path := Some b, fs_ops := Some op\<rparr>]))"
proof -
  obtain b1 where b1: "dfs_normalize_path True (working_directory s) None path = Some (Some b1)" "cstr b1 (path_text True m)"
    using normalize_slash[OF m(3,1,2)] p(1) by blast
  obtain b where b: "dfs_normalize_path True (working_directory s) None slashed = Some (Some b)" "cstr b (path_text True m)"
    using normalize_slash[OF m(3,1,2)] p(2) by blast
  obtain q where q: "fs_path e0 = Some q" "cstr q (path_text True m)" using m(6) by (auto simp: entry_at_def)
  note loops = str_eq_ok[OF q(2) p(1)] str_eq_ok[OF q(2) p(2)] str_eq_ok[OF q(2) b1(2)]
  have l: "mount_loop path (filesystem_table s) 0 None = Some (None, True)"
    "mount_loop slashed (filesystem_table s) 0 None = Some (Some 1, False)"
    using un(1) q(1) loops m(4,7) by (simp_all add: zero_fs_def)
  let ?e = "zero_fs\<lparr>fs_path := Some b, fs_ops := Some op\<rparr>"
  let ?s = "set_fs 1 ?e s"
  have e: "fs_dev_id zero_fs = None" "zero_fs\<lparr>fs_path := Some b, fs_ops := Some op, fs_dev_id := None\<rparr> = ?e"
    by (simp_all add: zero_fs_def)
  have m1: "dfs_mount call devs True dup fd None path name s = Some (- 1, set_errno (- EINVAL) s)"
    using op b1(1) dir[OF b1(2)] l(1) by (simp add: dfs_mount_def del: set_errno_def)
  have m2: "dfs_mount call devs True dup fd None slashed name s = Some (0, ?s)"
    using op b(1) dir[OF b(2)] l(2) call m(4,7) e by (simp add: dfs_mount_def mount_entry_def)
  have t: "filesystem_table ?s = [e0, ?e]" using m(4) by simp
  have at: "entry_at ?e m" "entry_ok ?e" using b(2) m(1) by (auto simp: entry_at_def entry_ok_def)
  have "mounts_ok ?s" using t m(5) at(2) by (simp add: mounts_ok_def)
  then obtain r where r: "dfs_filesystem_lookup path ?s = Some r" "case r of None \<Rightarrow> \<forall>j m'. \<not> fs_above ?s m j m'
     | Some i \<Rightarrow> \<exists>m'. fs_above ?s m i m' \<and> (\<forall>j n. fs_above ?s m j n \<longrightarrow> length n < length m' \<or> n = m' \<and> j \<le> i)"
    using lookup_ok[OF _ m(1) p(1)] by blast
  have a: "fs_above ?s m 1 m" using at(1) t by (simp add: fs_above_def above_def below_def)
  have "r = Some 1"
  proof (cases r)
    case None
    then show ?thesis using r(2) a by simp
  next
    case (Some i)
    then obtain m' where m': "fs_above ?s m i m'" "length m < length m' \<or> m = m' \<and> 1 \<le> i" using r(2) a by fastforce
    have "take (length m') m = m'" using m'(1) by (simp add: fs_above_def above_def below_def)
    then have "length m' \<le> length m" by (metis length_take min.cobounded1)
    then have "1 \<le> i" "i < 2" using m' t m(4) by (auto simp: fs_above_def above_def)
    then show ?thesis using Some by simp
  qed
  moreover have "dfs_unmount call True path ?s = Some (0, set_fs 0 zero_fs ?s)"
    using b1(1) m(4) q(1) loops(3) un by (simp add: dfs_unmount_def)
  ultimately show ?thesis using m1 m2 t r(1) m(4) by auto
qed


theorem mount_twice_witness:
  "\<exists>b s' s''. dfs_mount (\<lambda>c s. Some (0, s)) (\<lambda>_. None) True True 0 None [47, 100, 101, 118, 47, 0] [102, 0]
       (ex_dfs [ex_fs mount_dev, zero_fs]) = Some (0, s') \<and>
     dfs_filesystem_lookup mount_dev s' = Some (Some 1) \<and>
     dfs_unmount (\<lambda>c s. Some (0, s)) True mount_dev s' = Some (0, s'') \<and>
     filesystem_table s'' = [zero_fs, zero_fs\<lparr>fs_path := Some b, fs_ops := Some 0\<rparr>]"
proof -
  let ?s = "ex_dfs [ex_fs mount_dev, zero_fs]" and ?m = "[[100, 101, 118]] :: u8 list list"
  have c: "cstr mount_dev (path_text True ?m)" "cstr [47, 100, 101, 118, 47, 0] (path_text True ?m @ [SLASH])" "cstr mount_root [47]"
    "cstr (working_directory ?s) [47]"
    by (simp_all add: cstr_def path_text_def mount_dev_def mount_root_def ex_dfs_def)
  have op: "find_ops ?s [102, 0] (filesystem_operation_table ?s) = Some (Some 0)"
    by (simp add: ex_dfs_def ex_ops_def str_eq_def)
  have d: "mount_dir (\<lambda>c s. Some (0, s)) True True 0 b ?s = Some (True, ?s)" if "cstr b (path_text True ?m)" for b
    using str_eq_ok[OF that c(3)] str_eq_ok[OF that c(1)] by (simp add: mount_dir_def path_text_def)
  have e: "filesystem_table ?s = [ex_fs mount_dev, zero_fs]" "entry_ok (ex_fs mount_dev)" "entry_at (ex_fs mount_dev) ?m"
    "ops_mount (ops_of ?s 0) = Some 1" "fs_ops (ex_fs mount_dev) = Some 0" "ops_unmount (ops_of ?s 0) = Some 2" "fs_dev_id (ex_fs mount_dev) = None"
    using ex_fs_ok(1,2)[OF _ ] c(1) by (auto simp: ex_dfs_def ex_fs_def ex_ops_def entry_ok_def entry_at_def intro!: exI[of _ ?m])
  from mount_twice[OF _ _ c(4) e(1-3) refl c(1,2) op e(4) d _ e(5-7), of "\<lambda>_. None"] show ?thesis by auto
qed

subsection \<open>The table of file systems\<close>

text \<open>The functions of file systems, files and devices do not change the table or the working directory.\<close>

definition same_mounts :: "'u dfs \<Rightarrow> 'u dfs \<Rightarrow> bool" where
  "same_mounts s s' \<longleftrightarrow> filesystem_table s' = filesystem_table s \<and> working_directory s' = working_directory s"

definition calls_ok :: "'u fs_calls \<Rightarrow> bool" where
  "calls_ok call \<longleftrightarrow> (\<forall>c s r s'. call c s = Some (r, s') \<longrightarrow> same_mounts s s')"

definition table_ok :: "'u dfs \<Rightarrow> bool" where
  "table_ok s \<longleftrightarrow> mounts_ok s \<and> (\<exists>w. cstr (working_directory s) w)"

lemma same_mounts_refl [simp]: "same_mounts s s"
  by (simp add: same_mounts_def)

lemma same_mounts_fields [simp]:
  "same_mounts s (s'\<lparr>dfs_errno := e\<rparr>) = same_mounts s s'" "same_mounts s (s'\<lparr>fd_of := f\<rparr>) = same_mounts s s'"
  "same_mounts (s\<lparr>fd_of := f\<rparr>) s' = same_mounts s s'" "table_ok (s\<lparr>dfs_errno := e\<rparr>) = table_ok s"
  by (simp_all add: same_mounts_def table_ok_def mounts_ok_def)

lemma same_mounts_trans: "same_mounts s s' \<Longrightarrow> same_mounts s' s'' \<Longrightarrow> same_mounts s s''"
  by (simp add: same_mounts_def)

lemma table_same: "same_mounts s s' \<Longrightarrow> table_ok s' = table_ok s"
  by (simp add: same_mounts_def table_ok_def mounts_ok_def)

lemma call_table: "calls_ok call \<Longrightarrow> call c s = Some (r, s') \<Longrightarrow> table_ok s \<Longrightarrow> table_ok s'"
  using table_same[of s s'] by (auto simp: calls_ok_def)

lemma call_same: "calls_ok call \<Longrightarrow> call c s = Some (r, s') \<Longrightarrow> same_mounts s s'"
  by (auto simp: calls_ok_def)

lemma open_in_same:
  assumes "calls_ok call" "file_open_in call dup fd i b flags s = Some (r, s')"
  shows "same_mounts s s'"
proof -
  note c = call_same[OF assms(1)]
  show ?thesis using assms(2)
    by (auto simp: file_open_in_def bind_eq_Some_conv Let_def dest!: c split: option.splits if_splits)
qed

lemma file_open_same:
  assumes "calls_ok call" "dfs_file_open call mem dup fd path flags s = Some (r, s')"
  shows "same_mounts s s'"
proof -
  note c = open_in_same[OF assms(1)]
  show ?thesis using assms(2)
    by (auto simp: dfs_file_open_def bind_eq_Some_conv dest!: c split: option.splits if_splits)
qed

lemma file_close_same:
  assumes "calls_ok call" "dfs_file_close call fd s = Some (r, s')"
  shows "same_mounts s s'"
proof -
  note c = call_same[OF assms(1)]
  show ?thesis using assms(2) by (auto simp: dfs_file_close_def bind_eq_Some_conv dest!: c split: option.splits if_splits)
qed

lemma mount_dir_same:
  assumes "calls_ok call" "mount_dir call mem dup fd b s = Some (r, s')"
  shows "same_mounts s s'"
proof -
  note o = file_open_same[OF assms(1)] and c = file_close_same[OF assms(1)]
  show ?thesis using assms(2)
    by (auto simp: mount_dir_def bind_eq_Some_conv dest!: o c intro: same_mounts_trans split: if_splits)
qed

lemma table_set: "table_ok s \<Longrightarrow> entry_ok e \<Longrightarrow> table_ok (set_fs i e s)"
  by (auto simp: table_ok_def mounts_ok_def dest!: set_update_subset_insert[THEN subsetD])

lemma entry_ok_zero: "entry_ok zero_fs"
  by (simp add: entry_ok_def zero_fs_def)

lemma mount_entry_table:
  assumes c: "calls_ok call" and t: "table_ok s" and p: "names_ok cs" "cstr b (path_text True cs)"
    and e: "mount_entry call dev op f b i s = Some (r, s')"
  shows "table_ok s'"
proof -
  let ?s = "set_fs i ((filesystem_table s ! i)\<lparr>fs_path := Some b, fs_ops := Some op, fs_dev_id := dev\<rparr>) s"
  have t1: "table_ok ?s" by (rule table_set[OF t]) (use p in \<open>auto simp: entry_ok_def\<close>)
  obtain r1 s1 where o: "(case dev of None \<Rightarrow> Some (0, ?s) | Some d \<Rightarrow> call (Call_device_open d) ?s) = Some (r1, s1)"
    using e by (auto simp: mount_entry_def Let_def bind_eq_Some_conv simp del: set_fs_def)
  then have t2: "table_ok s1" using t1 call_table[OF c] by (cases dev) (auto simp del: set_fs_def)
  show ?thesis
  proof (cases "r1 = 0")
    case False
    then have "s' = set_fs i zero_fs s1" using e o by (simp add: mount_entry_def Let_def del: set_fs_def)
    then show ?thesis using table_set[OF t2 entry_ok_zero] by simp
  next
    case True
    then obtain r2 s2 where m: "call (Call_fs f i []) s1 = Some (r2, s2)"
      using e o by (auto simp: mount_entry_def Let_def bind_eq_Some_conv simp del: set_fs_def)
    then have t3: "table_ok s2" using t2 call_table[OF c] by blast
    show ?thesis
    proof (cases "r2 < 0")
      case False
      then show ?thesis using e o m True t3 by (simp add: mount_entry_def Let_def del: set_fs_def)
    next
      case neg: True
      then obtain s3 where "(case dev of None \<Rightarrow> Some s2 | Some _ \<Rightarrow> fs_dev_id (filesystem_table s2 ! i) \<bind>
          (\<lambda>d. call (Call_device_close d) s2 \<bind> (\<lambda>(_, s). Some s))) = Some s3"
        "s' = set_fs i zero_fs s3"
        using e o m True by (auto simp: mount_entry_def Let_def bind_eq_Some_conv simp del: set_fs_def)
      moreover from this(1) have "table_ok s3" using t3 call_table[OF c] by (cases dev) (auto simp: bind_eq_Some_conv)
      ultimately show ?thesis using table_set[OF _ entry_ok_zero] by simp
    qed
  qed
qed

lemma normalize_memory: "dfs_normalize_path mem wd d p = Some (Some b) \<Longrightarrow> dfs_normalize_path True wd d p = Some (Some b)"
  by (cases mem) (auto simp: dfs_normalize_path_def Let_def bind_eq_Some_conv simp del: One_nat_def)

text \<open>What holds of the state in which a call returns, when it does.\<close>

definition returns :: "('s \<Rightarrow> bool) \<Rightarrow> ('r \<times> 's) option \<Rightarrow> bool" where
  "returns P x \<longleftrightarrow> (\<forall>r s. x = Some (r, s) \<longrightarrow> P s)"

lemma returns_simps [simp]: "returns P None" "returns P (Some (r, s)) = P s"
  by (simp_all add: returns_def)

lemma returns_bind: "(\<And>a. x = Some a \<Longrightarrow> returns P (f a)) \<Longrightarrow> returns P (x \<bind> f)"
  by (cases x) simp_all

lemma returns_case: "(x = None \<Longrightarrow> returns P y) \<Longrightarrow> (\<And>a. x = Some a \<Longrightarrow> returns P (f a)) \<Longrightarrow>
  returns P (case x of None \<Rightarrow> y | Some a \<Rightarrow> f a)"
  by (cases x) simp_all

lemma returns_pair: "(\<And>a b. x = (a, b) \<Longrightarrow> returns P (f a b)) \<Longrightarrow> returns P (case x of (a, b) \<Rightarrow> f a b)"
  by (cases x) simp

lemma returns_if: "(c \<Longrightarrow> returns P x) \<Longrightarrow> (\<not> c \<Longrightarrow> returns P y) \<Longrightarrow> returns P (if c then x else y)"
  by simp

lemmas returns_intros = returns_bind returns_case returns_pair returns_if

lemma mount_table:
  assumes c: "calls_ok call" and t: "table_ok s"
    and p: "cstr path f" "hd (f @ [0]) = SLASH" "path_walk True [] (path_split f) = Some (True, cs)"
    and m: "dfs_mount call devs mem dup fd name path fstype s = Some (r, s')"
  shows "table_ok s'"
proof -
  obtain w where w: "cstr (working_directory s) w" using t by (auto simp: table_ok_def)
  have n: "\<exists>cs. names_ok cs \<and> cstr b (path_text True cs)" if "dfs_normalize_path mem (working_directory s) None path = Some (Some b)" for b
    using normalize_absolute[OF w p] normalize_memory[OF that] by auto
  have d: "table_ok s1" if "mount_dir call mem dup fd b s = Some (x, s1)" for b x s1
    using table_same[OF mount_dir_same[OF c that]] t by simp
  have e: "returns table_ok (mount_entry call dev op g b i s1)" if "dfs_normalize_path mem (working_directory s) None path = Some (Some b)"
      "mount_dir call mem dup fd b s = Some (x, s1)" for dev op g b i x s1
    using n[OF that(1)] mount_entry_table[OF c d[OF that(2)]] by (fastforce simp: returns_def)
  have "returns table_ok (dfs_mount call devs mem dup fd name path fstype s)"
    unfolding dfs_mount_def by (intro returns_intros) (simp_all add: t d e)
  then show ?thesis using m by (simp add: returns_def)
qed

lemma unmount_table:
  assumes c: "calls_ok call" and t: "table_ok s" and m: "dfs_unmount call mem path s = Some (r, s')"
  shows "table_ok s'"
proof -
  have k: "table_ok s2" if "call x s1 = Some (y, s2)" "table_ok s1" for x y s1 s2 by (rule call_table[OF c that])
  have z: "table_ok (set_fs i zero_fs s2)" if "(case d of None \<Rightarrow> Some s1 | Some d \<Rightarrow> call (Call_device_close d) s1 \<bind> (\<lambda>(_, s). Some s)) = Some s2"
    "table_ok s1" for d i s1 s2
    using that by (cases d) (auto simp: bind_eq_Some_conv simp del: set_fs_def intro!: table_set[OF _ entry_ok_zero] intro: k)
  have "returns table_ok (dfs_unmount call mem path s)"
    unfolding dfs_unmount_def
    by (intro returns_intros) (use k t z in \<open>simp_all del: set_fs_def\<close>)
  then show ?thesis using m by (simp add: returns_def)
qed

lemma register_table: "dfs_register op s = Some (r, s') \<Longrightarrow> same_mounts s s'"
  by (auto simp: dfs_register_def bind_eq_Some_conv Let_def same_mounts_def split: option.splits if_splits)

lemma cstr_root: "cstr (SLASH # replicate 255 0) [SLASH]"
  by (auto simp: cstr_def intro: exI[of _ "replicate 254 0"] simp flip: replicate_Suc)

lemma init_table:
  assumes c: "calls_ok call" and i: "dfs_init call False devfs mem fd s = Some (r, s')"
  shows "table_ok s'"
proof -
  let ?s = "s\<lparr>filesystem_operation_table := replicate DFS_FILESYSTEM_TYPES_MAX None,
      filesystem_table := replicate DFS_FILESYSTEMS_MAX zero_fs, fdt_fds := [], working_directory := SLASH # replicate 255 0\<rparr>"
  obtain r1 s1 r2 where s1: "dfs_register devfs ?s = Some (r1, s1)"
    "dfs_mount call (\<lambda>_. None) mem True fd None mount_dev devfs_name s1 = Some (r2, s')"
    using i by (auto simp: dfs_init_def Let_def bind_eq_Some_conv)
  have "table_ok ?s" using cstr_root by (auto simp: table_ok_def mounts_ok_def entry_ok_zero)
  then have t: "table_ok s1" using table_same[OF register_table[OF s1(1)]] by simp
  have d: "cstr mount_dev (path_text True [[100, 101, 118]])" "names_ok [[100, 101, 118 :: u8]]"
    by (simp_all add: cstr_def mount_dev_def path_text_def names_ok_def comps_ok_def)
  show ?thesis by (rule mount_table[OF c t d(1) _ path_text_split(1)[OF d(2)] s1(2)]) (simp add: path_text_def)
qed

text \<open>
  The states that are reached from \<open>dfs_init\<close>: file systems are mounted with absolute paths that do not go above the root;
  any path is unmounted; and in between files are opened and closed and file systems registered.
\<close>

inductive dfs_reach :: "'u fs_calls \<Rightarrow> 'u dfs \<Rightarrow> bool" for call where
  reach_init: "dfs_init call False devfs mem fd s = Some (r, s') \<Longrightarrow> dfs_reach call s'"
| reach_mount: "dfs_reach call s \<Longrightarrow> cstr path f \<Longrightarrow> hd (f @ [0]) = SLASH \<Longrightarrow>
    path_walk True [] (path_split f) = Some (True, cs) \<Longrightarrow>
    dfs_mount call devs mem dup fd name path fstype s = Some (r, s') \<Longrightarrow> dfs_reach call s'"
| reach_unmount: "dfs_reach call s \<Longrightarrow> dfs_unmount call mem path s = Some (r, s') \<Longrightarrow> dfs_reach call s'"
| reach_open: "dfs_reach call s \<Longrightarrow> dfs_file_open call mem dup fdo path flags s = Some (r, s') \<Longrightarrow> dfs_reach call s'"
| reach_close: "dfs_reach call s \<Longrightarrow> dfs_file_close call fdo s = Some (r, s') \<Longrightarrow> dfs_reach call s'"
| reach_register: "dfs_reach call s \<Longrightarrow> dfs_register op s = Some (r, s') \<Longrightarrow> dfs_reach call s'"

lemma reach_table:
  assumes "calls_ok call" "dfs_reach call s"
  shows "table_ok s"
  using assms(2)
proof induction
  case (reach_init devfs mem fd s r s')
  then show ?case by (rule init_table[OF assms(1)])
next
  case (reach_mount s path f cs devs mem dup fd name fstype r s')
  then show ?case by (blast intro: mount_table[OF assms(1)])
next
  case (reach_unmount s mem path r s')
  then show ?case by (blast intro: unmount_table[OF assms(1)])
next
  case (reach_open s mem dup fdo path flags r s')
  then show ?case using table_same[OF file_open_same[OF assms(1)]] by blast
next
  case (reach_close s fdo r s')
  then show ?case using table_same[OF file_close_same[OF assms(1)]] by blast
next
  case (reach_register s op r s')
  then show ?case using table_same[OF register_table] by blast
qed


definition ex_calls :: "unit fs_calls" where
  "ex_calls c s = Some (0, s)"

definition ex_booted :: "unit dfs" where
  "ex_booted = (ex_dfs [])\<lparr>ops_of := (\<lambda>_. ex_ops\<lparr>ops_name := devfs_name\<rparr>)\<rparr>"

lemma ex_strings:
  "cstr mount_dev (path_text True [[100, 101, 118]])" "cstr mount_root [SLASH]" "cstr devfs_name [100, 101, 118, 102, 115]"
  "names_ok [[100, 101, 118 :: u8]]"
  by (simp_all add: cstr_def mount_dev_def mount_root_def devfs_name_def path_text_def names_ok_def comps_ok_def)

lemma ex_booted_init:
  "\<exists>s. dfs_init ex_calls False 0 True 5 ex_booted = Some (0, s) \<and> fs_ops (filesystem_table s ! 0) = Some 0"
proof -
  let ?s = "ex_booted\<lparr>filesystem_operation_table := [Some 0, None], filesystem_table := [zero_fs, zero_fs],
    fdt_fds := [], working_directory := SLASH # replicate 255 0\<rparr>"
  have t: "hd (path_text True [[100, 101, 118]] @ [0]) = SLASH" by (simp add: path_text_def)
  obtain b where b: "dfs_normalize_path True (SLASH # replicate 255 0) None mount_dev = Some (Some b)"
    "cstr b (path_text True [[100, 101, 118]])"
    using normalize_absolute[OF cstr_root ex_strings(1) t path_text_split(1)[OF ex_strings(4)]] by auto
  have e: "str_eq b mount_root = Some False" "str_eq b mount_dev = Some True" "str_eq devfs_name devfs_name = Some True"
    using str_eq_ok[OF b(2) ex_strings(2)] str_eq_ok[OF b(2) ex_strings(1)] str_eq_ok[OF ex_strings(3,3)]
    by (simp_all add: path_text_def)
  have o: "ops_of ex_booted = (\<lambda>_. ex_ops\<lparr>ops_name := devfs_name\<rparr>)" by (simp add: ex_booted_def)
  have m: "dfs_mount ex_calls (\<lambda>_. None) True True 5 None mount_dev devfs_name ?s =
      Some (0, set_fs 0 (zero_fs\<lparr>fs_path := Some b, fs_ops := Some 0, fs_dev_id := None\<rparr>) ?s)"
    using e b(1) by (simp add: dfs_mount_def mount_dir_def mount_entry_def ex_calls_def o ex_ops_def zero_fs_def)
  have r: "dfs_register 0 (?s\<lparr>filesystem_operation_table := [None, None]\<rparr>) = Some (0, ?s)"
    by (simp add: dfs_register_def)
  show ?thesis using m r by (simp add: dfs_init_def numeral_2_eq_2 ex_booted_def ex_dfs_def zero_fs_def)
qed


subsection \<open>Making a file system\<close>

text \<open>The search of \<open>dfs_mkfs\<close> goes one entry too far: for the name of a file system that is not registered it reads
  behind the end of the table of operations, whatever the table holds.\<close>

theorem mkfs_reads_past:
  assumes "length (filesystem_operation_table s) = DFS_FILESYSTEM_TYPES_MAX" "cstr name n"
    "\<forall>op. Some op \<in> set (filesystem_operation_table s) \<longrightarrow> (\<exists>a. cstr (ops_name (ops_of s op)) a \<and> a \<noteq> n)" "devs dn = Some d"
  shows "dfs_mkfs call devs name (Some dn) s = None"
proof -
  obtain a b where t: "filesystem_operation_table s = [a, b]"
    using assms(1) by (auto simp: length_Suc_conv numeral_2_eq_2)
  have "str_eq (ops_name (ops_of s op)) name = Some False" if "Some op \<in> {a, b}" for op
    using assms(3) that str_eq_ok[OF _ assms(2)] by (auto simp: t)
  then have "mkfs_search s name 3 0 = None" by (cases a; cases b) (simp_all add: t numeral_3_eq_3)
  then show ?thesis using assms(4) by (simp add: dfs_mkfs_def)
qed

theorem mkfs_reads_past_witness:
  "dfs_mkfs (\<lambda>c s. Some (0, s)) (\<lambda>_. Some 7) [101, 0] (Some [115, 0]) (ex_dfs []) = None"
proof (rule mkfs_reads_past[where n = "[101]" and d = 7])
  have c: "cstr [102, 0] [102]" by (simp add: cstr_def)
  show "\<forall>op. Some op \<in> set (filesystem_operation_table (ex_dfs [])) \<longrightarrow>
      (\<exists>a. cstr (ops_name (ops_of (ex_dfs []) op)) a \<and> a \<noteq> [101])"
    using c by (auto simp: ex_dfs_def ex_ops_def intro: exI[of _ "[102]"])
qed (simp_all add: ex_dfs_def cstr_def)

end
