(* ===== verification/Dfs_Files.thy ===== *)
theory Dfs_Files
  imports Dfs_Mount
begin

text \<open>
  The descriptors and the files of the virtual file system: the references to a descriptor are counted, a file is opened
  by the file system that is mounted nearest to it and with the path below the mount point, and where the check for an
  open file, the renaming and the search go wrong.
\<close>

subsection \<open>References\<close>

text \<open>
  The references that are in use: those of \<open>fd_new\<close> and of \<open>fd_get\<close>, until \<open>fd_put\<close>. What \<open>rt_calloc\<close> returns is not in
  use (the theorems of \<open>Heap\<close>), and other code may change what is in a descriptor apart from its magic number and count.
\<close>

definition fd_ledger :: "nat list \<Rightarrow> 'u dfs \<Rightarrow> bool" where
  "fd_ledger refs s \<longleftrightarrow>
     (\<forall>p. Some p \<in> set (fdt_fds s) \<longleftrightarrow> p \<in> set refs) \<and>
     (\<forall>i j p. i < length (fdt_fds s) \<and> j < length (fdt_fds s) \<and> fdt_fds s ! i = Some p \<and> fdt_fds s ! j = Some p \<longrightarrow> i = j) \<and>
     (\<forall>p \<in> set refs. fd_magic (fd_of s p) = DFS_FD_MAGIC \<and> fd_ref_count (fd_of s p) = int (count_list refs p)) \<and>
     length (fdt_fds s) \<le> DFS_FD_MAX"

inductive fd_step :: "nat list \<times> 'u dfs \<Rightarrow> nat list \<times> 'u dfs \<Rightarrow> bool" where
  fd_step_new: "fd_new grow calloc s = Some (r, s') \<Longrightarrow> \<forall>p. calloc = Some p \<longrightarrow> p \<notin> set refs \<Longrightarrow>
    fd_step (refs, s) (if r = - 1 then refs else the (fdt_fds s' ! nat (r - DFS_FD_OFFSET)) # refs, s')"
| fd_step_get: "fd_get console fd s = (r, s') \<Longrightarrow>
    fd_step (refs, s) ((case r of None \<Rightarrow> [] | Some p \<Rightarrow> [p]) @ refs, s')"
| fd_step_put: "p \<in> set refs \<Longrightarrow> fd_put p s = s' \<Longrightarrow> fd_step (refs, s) (remove1 p refs, s')"
| fd_step_other: "fdt_fds s' = fdt_fds s \<Longrightarrow> \<forall>p. fd_magic (fd_of s' p) = fd_magic (fd_of s p) \<and>
    fd_ref_count (fd_of s' p) = fd_ref_count (fd_of s p) \<Longrightarrow> fd_step (refs, s) (refs, s')"

inductive fd_run :: "nat list \<times> 'u dfs \<Rightarrow> nat list \<times> 'u dfs \<Rightarrow> bool" where
  fd_run_refl: "fd_run x x"
| fd_run_step: "fd_run x y \<Longrightarrow> fd_step y z \<Longrightarrow> fd_run x z"

lemma fd_search_ok:
  "fd_search s es i \<ge> i \<and> fd_search s es i \<le> i + length es \<and>
   (fd_search s es i < i + length es \<longrightarrow> fd_empty s (es ! (fd_search s es i - i)))"
proof (induction es arbitrary: i)
  case (Cons e es)
  show ?case
  proof (cases "fd_empty s e")
    case False
    have "fd_search s (e # es) i - i = Suc (fd_search s es (i + 1) - (i + 1))"
      using conjunct1[OF Cons.IH[of "i + 1"]] False by (simp add: Suc_diff_Suc)
    then show ?thesis using Cons.IH[of "i + 1"] False by auto
  qed simp
qed simp

lemma ledger_empty:
  assumes "fd_ledger refs s" "e \<in> set (fdt_fds s)" "fd_empty s e"
  shows "e = None"
proof (rule ccontr)
  assume "e \<noteq> None"
  then obtain p where p: "e = Some p" by blast
  then have "p \<in> set refs" using assms(1,2) by (auto simp: fd_ledger_def)
  then have "fd_ref_count (fd_of s p) = int (count_list refs p)" "count_list refs p \<noteq> 0"
    using assms(1) by (auto simp: fd_ledger_def count_list_0_iff)
  then show False using assms(3) p by (simp add: fd_empty_def)
qed

text \<open>\<open>fd_alloc\<close> gives an entry that was empty, in the table or in the entries it appends, or the length of the table.\<close>

lemma fd_alloc_cases:
  assumes l: "fd_ledger refs s" and a: "fd_alloc grow calloc 0 s = (idx, s')"
  shows "\<exists>k. length (fdt_fds s) + k \<le> 16 \<and>
    (idx = length (fdt_fds s) + k \<and> s' = s\<lparr>fdt_fds := fdt_fds s @ replicate k None\<rparr> \<or>
     (\<exists>p. calloc = Some p \<and> idx < length (fdt_fds s) + k \<and> (fdt_fds s @ replicate k None) ! idx = None \<and>
        s' = upd_fd p (\<lambda>_. zero_fd) (s\<lparr>fdt_fds := (fdt_fds s @ replicate k None)[idx := Some p]\<rparr>)))"
proof -
  let ?F = "fdt_fds s" and ?i = "fd_search s (fdt_fds s) 0"
  have len: "length ?F \<le> 16" using l by (simp add: fd_ledger_def)
  have i: "?i \<le> length ?F" "?i < length ?F \<Longrightarrow> fd_empty s (?F ! ?i)" using fd_search_ok[of 0 s ?F] by auto
  then have none: "?i < length ?F \<Longrightarrow> ?F ! ?i = None" using ledger_empty[OF l] by auto
  consider "?i < length ?F" | "?i = length ?F" "length ?F < 16" "grow" | "?i = length ?F" "\<not> (length ?F < 16 \<and> grow)"
    using i(1) by linarith
  then show ?thesis
  proof cases
    case 1
    then show ?thesis using a none len
      by (intro exI[of _ 0]) (auto simp: fd_alloc_def Let_def simp del: upd_fd_def split: option.splits)
  next
    case 2
    then show ?thesis using a
      by (intro exI[of _ "min (length ?F + 4) 16 - length ?F"])
        (auto simp: fd_alloc_def Let_def nth_append simp del: upd_fd_def split: option.splits)
  next
    case 3
    then show ?thesis using a len
      by (intro exI[of _ 0]) (auto simp: fd_alloc_def Let_def simp del: upd_fd_def split: option.splits if_splits)
  qed
qed

lemma ledger_grow: "fd_ledger refs s \<Longrightarrow> length (fdt_fds s) + k \<le> 16 \<Longrightarrow> fd_ledger refs (s\<lparr>fdt_fds := fdt_fds s @ replicate k None\<rparr>)"
  by (auto simp: fd_ledger_def nth_append split: if_splits)

lemma ledger_new:
  assumes "fd_ledger refs s" "i < length (fdt_fds s)" "fdt_fds s ! i = None" "p \<notin> set refs"
  shows "fd_ledger (p # refs) (upd_fd p (\<lambda>_. zero_fd\<lparr>fd_ref_count := 1, fd_magic := 0xfdfd\<rparr>) (s\<lparr>fdt_fds := (fdt_fds s)[i := Some p]\<rparr>))"
proof -
  let ?F = "(fdt_fds s)[i := Some p]"
  have "fdt_fds s = take i (fdt_fds s) @ None # drop (Suc i) (fdt_fds s)" using id_take_nth_drop[OF assms(2)] assms(3) by simp
  then obtain xs ys where xs: "fdt_fds s = xs @ None # ys" "length xs = i"
    by (metis assms(2) length_take min.absorb2 less_imp_le)
  have "Some q \<in> set ?F \<longleftrightarrow> q = p \<or> Some q \<in> set (fdt_fds s)" for q using xs by auto
  moreover have "Some p \<notin> set (fdt_fds s)" using assms(1,4) by (simp add: fd_ledger_def)
  then have "j = k" if "j < length ?F" "k < length ?F" "?F ! j = Some q" "?F ! k = Some q" for j k q
    using that assms(1,2) nth_mem[of k "fdt_fds s"] nth_mem[of j "fdt_fds s"]
    by (cases "j = i"; cases "k = i") (auto simp: fd_ledger_def)
  moreover have "count_list refs p = 0" using assms(4) by (simp add: count_list_0_iff)
  ultimately show ?thesis using assms(1) by (auto simp: fd_ledger_def)
qed

lemma step_new:
  assumes l: "fd_ledger refs s" and n: "fd_new grow calloc s = Some (r, s')" and c: "\<forall>p. calloc = Some p \<longrightarrow> p \<notin> set refs"
  shows "fd_ledger (if r = - 1 then refs else the (fdt_fds s' ! nat (r - 3)) # refs) s'"
proof -
  obtain idx s1 where a: "fd_alloc grow calloc 0 s = (idx, s1)" by (cases "fd_alloc grow calloc 0 s")
  obtain k where k: "length (fdt_fds s) + k \<le> 16"
    "idx = length (fdt_fds s) + k \<and> s1 = s\<lparr>fdt_fds := fdt_fds s @ replicate k None\<rparr> \<or>
     (\<exists>p. calloc = Some p \<and> idx < length (fdt_fds s) + k \<and> (fdt_fds s @ replicate k None) ! idx = None \<and>
        s1 = upd_fd p (\<lambda>_. zero_fd) (s\<lparr>fdt_fds := (fdt_fds s @ replicate k None)[idx := Some p]\<rparr>))"
    using fd_alloc_cases[OF l a] by blast
  note g = ledger_grow[OF l k(1)]
  from k(2) show ?thesis
  proof (elim disjE exE conjE)
    assume "idx = length (fdt_fds s) + k" "s1 = s\<lparr>fdt_fds := fdt_fds s @ replicate k None\<rparr>"
    then show ?thesis using n a g by (auto simp: fd_new_def)
  next
    fix p assume p: "calloc = Some p" "idx < length (fdt_fds s) + k" "(fdt_fds s @ replicate k None) ! idx = None"
      "s1 = upd_fd p (\<lambda>_. zero_fd) (s\<lparr>fdt_fds := (fdt_fds s @ replicate k None)[idx := Some p]\<rparr>)"
    then show ?thesis using n a c ledger_new[OF g, of idx p] by (auto simp: fd_new_def)
  qed
qed

lemma step_get:
  assumes l: "fd_ledger refs s" and g: "fd_get console fd s = (r, s')"
  shows "fd_ledger ((case r of None \<Rightarrow> [] | Some p \<Rightarrow> [p]) @ refs) s'"
proof (cases r)
  case None
  then show ?thesis using l g by (auto simp: fd_get_def Let_def split: if_splits option.splits)
next
  case (Some p)
  then have "Some p \<in> set (fdt_fds s)" "s' = upd_fd p (\<lambda>d. d\<lparr>fd_ref_count := fd_ref_count d + 1\<rparr>) s"
    using g by (auto simp: fd_get_def Let_def in_set_conv_nth simp del: upd_fd_def split: if_splits option.splits)
      (rule exI[of _ "nat (console - 3)"], simp, rule exI[of _ "nat (fd - 3)"], simp)
  then show ?thesis using l Some by (auto simp: fd_ledger_def)
qed

lemma fd_clear_ok:
  assumes "\<And>i j. i < length F \<Longrightarrow> j < length F \<Longrightarrow> F ! i = Some p \<Longrightarrow> F ! j = Some p \<Longrightarrow> i = j"
  shows "fd_clear p F = map (\<lambda>e. if e = Some p then None else e) F"
  using assms
proof (induction F)
  case (Cons e F)
  have F: "i = j" if "i < length F" "j < length F" "F ! i = Some p" "F ! j = Some p" for i j
    using Cons.prems[of "Suc i" "Suc j"] that by simp
  show ?case
  proof (cases "e = Some p")
    case True
    have "F ! j \<noteq> Some p" if "j < length F" for j using Cons.prems[of 0 "Suc j"] True that by auto
    then have "Some p \<notin> set F" by (metis in_set_conv_nth)
    then have e: "map (\<lambda>e. if e = Some p then None else e) F = F" by (intro map_idI) auto
    show ?thesis by (simp only: True fd_clear.simps list.map e if_True refl simp_thms)
  next
    case False
    have e: "fd_clear p F = map (\<lambda>e. if e = Some p then None else e) F" by (rule Cons.IH) (rule F)
    show ?thesis by (simp only: fd_clear.simps list.map e False if_False simp_thms)
  qed
qed simp

lemma count_remove1: "count_list (remove1 p refs) q = (if q = p then count_list refs q - 1 else count_list refs q)"
  by (induction refs) auto

lemma step_put:
  assumes l: "fd_ledger refs s" and p: "p \<in> set refs"
  shows "fd_ledger (remove1 p refs) (fd_put p s)"
proof -
  have c: "fd_ref_count (fd_of s p) = int (count_list refs p)" "count_list refs p \<noteq> 0"
    using l p by (auto simp: fd_ledger_def count_list_0_iff)
  have mem: "q \<in> set (remove1 p refs) \<longleftrightarrow> (if q = p then count_list refs p \<noteq> 1 else q \<in> set refs)" for q
    using c(2) count_list_0_iff[of "remove1 p refs" q] count_list_0_iff[of refs q] by (auto simp: count_remove1)
  let ?s = "upd_fd p (\<lambda>d. d\<lparr>fd_ref_count := fd_ref_count d - 1\<rparr>) s"
  show ?thesis
  proof (cases "count_list refs p = 1")
    case True
    have F: "fd_clear p (fdt_fds s) = map (\<lambda>e. if e = Some p then None else e) (fdt_fds s)"
      by (rule fd_clear_ok) (use l in \<open>auto simp: fd_ledger_def\<close>)
    have "fd_put p s = ?s\<lparr>fdt_fds := map (\<lambda>e. if e = Some p then None else e) (fdt_fds s)\<rparr>"
      using c(1) True F by (simp add: fd_put_def Let_def)
    moreover have "Some q \<in> (\<lambda>e. if e = Some p then None else e) ` set (fdt_fds s) \<longleftrightarrow> Some q \<in> set (fdt_fds s) \<and> q \<noteq> p" for q
      by (auto simp: image_iff)
    ultimately show ?thesis using l True by (auto simp: fd_ledger_def mem count_remove1 split: if_splits)
  next
    case False
    then have "fd_put p s = ?s" using c by (simp add: fd_put_def Let_def)
    then show ?thesis using l False c by (auto simp: fd_ledger_def mem count_remove1 split: if_splits)
  qed
qed

lemma run_ledger: "fd_run x y \<Longrightarrow> fd_ledger (fst x) (snd x) \<Longrightarrow> fd_ledger (fst y) (snd y)"
proof (induction rule: fd_run.induct)
  case (fd_run_step x y z)
  then have l: "fd_ledger (fst y) (snd y)" by simp
  from fd_run_step.hyps(2) show ?case
  proof cases
    case (fd_step_new grow calloc s r s' refs)
    then show ?thesis using step_new l by fastforce
  next
    case (fd_step_get console fd s r s' refs)
    then show ?thesis using step_get l by fastforce
  next
    case (fd_step_put p refs s s')
    then show ?thesis using step_put l by fastforce
  next
    case (fd_step_other s' s refs)
    then show ?thesis using l by (simp add: fd_ledger_def)
  qed
qed simp

text \<open>References to descriptors are counted. From the empty table on, and over every sequence of \<open>fd_new\<close>, \<open>fd_get\<close>,
  \<open>fd_put\<close> and other steps, a descriptor is in the table as long as there is a reference to it, in one entry only, with as
  many references as its count says; \<open>fd_get\<close> gives the descriptor of an entry that is in use, and \<open>fd_put\<close> of the last
  reference empties the entry. The table never has more than \<open>DFS_FD_MAX\<close> entries.\<close>

theorem descriptors_counted:
  assumes "fdt_fds s0 = []" "fd_run ([], s0) (refs, s)"
  shows "length (fdt_fds s) \<le> DFS_FD_MAX \<and>
    (\<forall>p. Some p \<in> set (fdt_fds s) \<longleftrightarrow> p \<in> set refs) \<and>
    (\<forall>i j p. i < length (fdt_fds s) \<and> j < length (fdt_fds s) \<and> fdt_fds s ! i = Some p \<and> fdt_fds s ! j = Some p \<longrightarrow> i = j) \<and>
    (\<forall>p \<in> set refs. fd_ref_count (fd_of s p) = int (count_list refs p)) \<and>
    (\<forall>i console. i < length (fdt_fds s) \<longrightarrow> fst (fd_get console (int i + DFS_FD_OFFSET) s) = fdt_fds s ! i) \<and>
    (\<forall>p \<in> set refs. count_list refs p = 1 \<longrightarrow> Some p \<notin> set (fdt_fds (fd_put p s)))"
proof -
  have l: "fd_ledger refs s" using run_ledger[OF assms(2)] assms(1) by (simp add: fd_ledger_def)
  have "fst (fd_get console (int i + 3) s) = fdt_fds s ! i" if "i < length (fdt_fds s)" for i console
  proof (cases "fdt_fds s ! i")
    case (Some p)
    then have "fd_magic (fd_of s p) = 0xfdfd" using l that nth_mem[OF that] by (auto simp: fd_ledger_def)
    then show ?thesis using that Some by (simp add: fd_get_def)
  qed (use that in \<open>simp add: fd_get_def\<close>)
  moreover have "Some p \<notin> set (fdt_fds (fd_put p s))" if "p \<in> set refs" "count_list refs p = 1" for p
  proof -
    have "p \<notin> set (remove1 p refs)" using that count_list_0_iff[of "remove1 p refs" p] by (simp add: count_remove1)
    then show ?thesis using step_put[OF l that(1)] by (simp add: fd_ledger_def)
  qed
  ultimately show ?thesis using l by (auto simp: fd_ledger_def)
qed

theorem descriptors_counted_witness:
  "\<exists>s1 s2. fd_new True (Some 5) (ex_dfs []) = Some (3, s1) \<and> fd_get 0 3 s1 = (Some 5, s2) \<and>
     fd_ref_count (fd_of s2 5) = 2 \<and> fd_get 0 4 s2 = (None, s2)"
proof -
  let ?s0 = "ex_dfs []"
  obtain s1 where s1: "fd_new True (Some 5) ?s0 = Some (3, s1)" "fdt_fds s1 = [Some 5, None, None, None]"
    by (auto simp: fd_new_def fd_alloc_def ex_dfs_def numeral_eq_Suc)
  have "fd_run ([], ?s0) ([5], s1)" using fd_run_step[OF fd_run_refl fd_step_new[OF s1(1), of "[]"]] s1(2) by simp
  obtain r s2 where s2: "fd_get 0 3 s1 = (r, s2)" by (cases "fd_get 0 3 s1")
  from descriptors_counted[OF _ \<open>fd_run ([], ?s0) ([5], s1)\<close>] have "fst (fd_get 0 (int 0 + 3) s1) = fdt_fds s1 ! 0"
    using s1(2) by (auto simp: ex_dfs_def)
  then have r: "r = Some 5" using s2 s1(2) by simp
  have "fd_run ([], ?s0) ([5, 5], s2)" using fd_run_step[OF \<open>fd_run ([], ?s0) ([5], s1)\<close> fd_step_get[OF s2]] r by simp
  from descriptors_counted[OF _ this] have "fd_ref_count (fd_of s2 5) = 2" by (simp add: ex_dfs_def)
  moreover have "fd_get 0 4 s2 = (None, s2)" using s2 s1(2) r by (auto simp: fd_get_def Let_def split: if_splits)
  ultimately show ?thesis using s1(1) s2 r by blast
qed


subsection \<open>Opening a file\<close>

text \<open>File system \<open>i\<close>, mounted on \<open>m\<close>, is the one of the path \<open>cs\<close>.\<close>

definition fs_nearest :: "'u dfs \<Rightarrow> u8 list list \<Rightarrow> nat \<Rightarrow> u8 list list \<Rightarrow> bool" where
  "fs_nearest s cs i m \<longleftrightarrow> fs_above s cs i m \<and> (\<forall>j m'. fs_above s cs j m' \<longrightarrow> length m' < length m \<or> m' = m \<and> j \<le> i)"

lemma lookup_nearest_is:
  assumes "mounts_ok s" "names_ok cs" "cstr path (path_text True cs)" "fs_nearest s cs i m"
  shows "dfs_filesystem_lookup path s = Some (Some i)"
proof -
  obtain r where r: "dfs_filesystem_lookup path s = Some r" "case r of None \<Rightarrow> \<forall>j m. \<not> fs_above s cs j m
     | Some i \<Rightarrow> \<exists>m. fs_above s cs i m \<and> (\<forall>j m'. fs_above s cs j m' \<longrightarrow> length m' < length m \<or> m' = m \<and> j \<le> i)"
    using lookup_ok[OF assms(1-3)] by blast
  have a: "fs_above s cs i m" "\<And>j m'. fs_above s cs j m' \<Longrightarrow> length m' < length m \<or> m' = m \<and> j \<le> i"
    using assms(4) by (auto simp: fs_nearest_def)
  show ?thesis
  proof (cases r)
    case None
    then show ?thesis using r(2) a(1) by simp
  next
    case (Some k)
    then obtain m' where m': "fs_above s cs k m'" "length m < length m' \<or> m = m' \<and> i \<le> k" using r(2) a(1) by auto
    then have "k = i" using a(2)[OF m'(1)] by auto
    then show ?thesis using r(1) Some by simp
  qed
qed

lemma normalized_again:
  assumes "cstr wd w" "names_ok cs" "cstr b (path_text True cs)"
  shows "\<exists>b'. dfs_normalize_path True wd None b = Some (Some b') \<and> cstr b' (path_text True cs)"
proof -
  have "hd (path_text True cs @ [0]) = SLASH" by (simp add: path_text_def)
  then show ?thesis using normalize_absolute[OF assms(1,3) _ path_text_split(1)[OF assms(2)]] by auto
qed

text \<open>The path that \<open>fd_is_open\<close> looks for, below the mount point, and the one that the descriptor of an open file has.\<close>

definition check_text :: "u8 list list \<Rightarrow> u8 list list \<Rightarrow> u8 list" where
  "check_text m cs = (if m = [] then path_text True cs else if cs = m then [] else path_text True (drop (length m) cs))"

definition sub_text :: "u8 list list \<Rightarrow> u8 list list \<Rightarrow> u8 list" where
  "sub_text m cs = path_text True (drop (length m) cs)"

definition is_open :: "'u dfs \<Rightarrow> nat \<Rightarrow> u8 list \<Rightarrow> bool" where
  "is_open s fops a \<longleftrightarrow> (\<exists>p q. Some p \<in> set (fdt_fds s) \<and> fd_fops (fd_of s p) = Some fops \<and> fd_path (fd_of s p) = Some q \<and> cstr q a)"

definition paths_ok :: "'u dfs \<Rightarrow> bool" where
  "paths_ok s \<longleftrightarrow> (\<forall>p q. Some p \<in> set (fdt_fds s) \<and> fd_path (fd_of s p) = Some q \<longrightarrow> (\<exists>a. cstr q a))"

lemma open_loop_ok:
  assumes "cstr mp a" "\<forall>p q. Some p \<in> set es \<and> fd_path (fd_of s p) = Some q \<longrightarrow> (\<exists>a. cstr q a)"
  shows "open_loop s fops mp es =
    Some (\<exists>p q. Some p \<in> set es \<and> fd_fops (fd_of s p) = Some fops \<and> fd_path (fd_of s p) = Some q \<and> cstr q a)"
  using assms(2)
proof (induction es)
  case (Cons e es)
  have ih: "open_loop s fops mp es =
      Some (\<exists>p q. Some p \<in> set es \<and> fd_fops (fd_of s p) = Some fops \<and> fd_path (fd_of s p) = Some q \<and> cstr q a)"
    by (rule Cons.IH) (use Cons.prems in auto)
  show ?case
  proof (cases "\<exists>p q. e = Some p \<and> fd_fops (fd_of s p) = Some fops \<and> fd_path (fd_of s p) = Some q")
    case True
    then obtain p q where e: "e = Some p" "fd_fops (fd_of s p) = Some fops" "fd_path (fd_of s p) = Some q" by blast
    then obtain b where b: "cstr q b" using Cons.prems by auto
    have "b = a \<longleftrightarrow> cstr q a" using b cstr_unique by blast
    then show ?thesis using str_eq_ok[OF b assms(1)] e ih by (cases "cstr q a") auto
  next
    case False
    have "open_loop s fops mp (e # es) = open_loop s fops mp es" using False by (auto split: option.splits)
    then show ?thesis using ih False by auto
  qed
qed simp

lemma above_drop:
  assumes "below m cs" "names_ok cs"
  shows "cs = m @ drop (length m) cs" "names_ok m" "names_ok (drop (length m) cs)"
proof -
  show c: "cs = m @ drop (length m) cs" using assms(1) by (metis below_def append_take_drop_id)
  show "names_ok m" "names_ok (drop (length m) cs)" using assms(2) names_ok_append by (metis c)+
qed

lemma check_path:
  assumes "names_ok cs" "below m cs" "cstr p (path_text True m)" "cstr b (path_text True cs)"
  shows "\<exists>c0 c1 n. buf_get p 0 = Some c0 \<and> (if c0 = SLASH then buf_get p 1 else Some c0) = Some c1 \<and> rt_strlen p = Some n \<and>
    cstr (if c0 = SLASH \<and> c1 = 0 then b else drop n b) (check_text m cs)"
proof -
  let ?ds = "drop (length m) cs"
  note a = above_drop[OF assms(2,1)]
  obtain r where r: "p = path_text True m @ 0 # r" using assms(3) by (auto simp: cstr_def)
  obtain rb where rb: "b = path_text True cs @ 0 # rb" using assms(4) by (auto simp: cstr_def)
  show ?thesis
  proof (cases "m = []")
    case True
    then have "buf_get p 0 = Some SLASH" "buf_get p 1 = Some 0" by (simp_all add: r path_text_def buf_get_def)
    then show ?thesis using True assms(4) rt_strlen_cstr[OF assms(3)] by (simp add: check_text_def)
  next
    case False
    then obtain x u where x: "path_join m = x # u" "x \<noteq> 0"
      using join_nonempty[OF a(2) False] path_text_split(3)[OF a(2)] by (cases "path_join m") (auto simp: path_text_def)
    have g: "buf_get p 0 = Some SLASH" "buf_get p 1 = Some x" using x by (simp_all add: r path_text_def buf_get_def)
    have "cstr (drop (length (path_text True m)) b) (check_text m cs)"
    proof (cases "?ds = []")
      case True
      then have "cs = m" using a(1) by simp
      then show ?thesis using False by (simp add: rb check_text_def cstr_def)
    next
      case d: False
      have "path_text True cs = path_text True m @ path_text True ?ds" using path_text_append[OF False d] a(1) by simp
      moreover have "cs \<noteq> m" using d by auto
      ultimately show ?thesis using False path_text_split(3)[OF a(3)] by (simp add: rb check_text_def cstr_def)
    qed
    then show ?thesis using g x(2) rt_strlen_cstr[OF assms(3)] by simp
  qed
qed

lemma fd_is_open_ok:
  assumes s: "mounts_ok s" "paths_ok s" "cstr (working_directory s) w" and c: "names_ok cs" "cstr b (path_text True cs)"
    and n: "fs_nearest s cs i m" and op: "fs_ops (filesystem_table s ! i) = Some op"
  shows "fd_is_open True b s = Some (if is_open s (ops_fops (ops_of s op)) (check_text m cs) then 0 else - 1)"
proof -
  obtain b' where b': "dfs_normalize_path True (working_directory s) None b = Some (Some b')" "cstr b' (path_text True cs)"
    using normalized_again[OF s(3) c] by blast
  note l = lookup_nearest_is[OF s(1) c(1) b'(2) n]
  obtain p where p: "fs_path (filesystem_table s ! i) = Some p" "cstr p (path_text True m)" "below m cs"
    using n by (auto simp: fs_nearest_def fs_above_def above_def entry_at_def)
  obtain c0 c1 k where k: "buf_get p 0 = Some c0" "(if c0 = SLASH then buf_get p 1 else Some c0) = Some c1" "rt_strlen p = Some k"
    "cstr (if c0 = SLASH \<and> c1 = 0 then b' else drop k b') (check_text m cs)"
    using check_path[OF c(1) p(3,2) b'(2)] by blast
  note o = open_loop_ok[OF k(4), of "fdt_fds s" s "ops_fops (ops_of s op)"]
  show ?thesis
    using b'(1) l p(1) op k(1-3) o s(2) by (simp add: fd_is_open_def is_open_def paths_ok_def Let_def split del: if_split)
qed


lemma sub_path_ok:
  assumes "names_ok cs" "below m cs" "cstr p (path_text True m)" "cstr b (path_text True cs)" "ops_flags ops AND 1 = 0"
  shows "\<exists>sub. sub_path ops p b = Some sub \<and> cstr sub (sub_text m cs)"
proof -
  let ?ds = "drop (length m) cs"
  note a = above_drop[OF assms(2,1)]
  have b: "cstr b (path_text True (m @ ?ds))" using assms(4) a(1) by simp
  show ?thesis
  proof (cases "?ds = []")
    case True
    then have "dfs_subdir p b = Some None" using subdir_ok[OF a(2,3) assms(3) b] by simp
    then show ?thesis using True assms(5) by (simp add: sub_path_def sub_text_def path_text_def cstr_def)
  next
    case False
    then show ?thesis using subdir_ok[OF a(2,3) assms(3) b] assms(5) by (auto simp: sub_path_def sub_text_def)
  qed
qed

text \<open>The descriptor that \<open>dfs_file_open\<close> has filled when it calls the file system.\<close>

definition fill_fd :: "nat \<Rightarrow> nat \<Rightarrow> u32 \<Rightarrow> nat \<Rightarrow> u8 list \<Rightarrow> 'u dfs \<Rightarrow> 'u dfs" where
  "fill_fd fd fops flags i sub s = upd_fd fd (\<lambda>d. d\<lparr>fd_fops := Some fops, fd_type := FT_REGULAR, fd_flags := flags,
     fd_size := 0, fd_pos := 0, fd_data := Some i, fd_path := Some sub\<rparr>) s"

lemma file_open_ok:
  assumes s: "mounts_ok s" "paths_ok s" "cstr (working_directory s) w"
    and p: "cstr path f" "hd (f @ [0]) = SLASH" "path_walk True [] (path_split f) = Some (True, cs)"
    and n: "fs_nearest s cs i m" and op: "fs_ops (filesystem_table s ! i) = Some op" "ops_flags (ops_of s op) AND DFS_FS_FLAG_FULLPATH = 0"
      "fop_open (fops_of s (ops_fops (ops_of s op))) = Some g"
  shows "if is_open s (ops_fops (ops_of s op)) (check_text m cs)
    then dfs_file_open call True True (Some fd) path flags s = Some (- EBUSY, s)
    else \<exists>sub. cstr sub (sub_text m cs) \<and> dfs_file_open call True True (Some fd) path flags s =
      (case call (Call_file g fd []) (fill_fd fd (ops_fops (ops_of s op)) flags i sub s) of
         None \<Rightarrow> None
       | Some (r, s') \<Rightarrow>
           if r < 0 then Some (r, upd_fd fd (\<lambda>d. d\<lparr>fd_path := None\<rparr>) s')
           else Some (0, upd_fd fd (\<lambda>d. if flags AND O_DIRECTORY \<noteq> 0
             then d\<lparr>fd_type := FT_DIRECTORY, fd_flags := fd_flags d OR DFS_F_OPEN OR DFS_F_DIRECTORY\<rparr>
             else d\<lparr>fd_flags := fd_flags d OR DFS_F_OPEN\<rparr>) s'))"
proof -
  obtain b where b: "dfs_normalize_path True (working_directory s) None path = Some (Some b)" "cstr b (path_text True cs)" "names_ok cs"
    using normalize_absolute[OF s(3) p] by auto
  note l = lookup_nearest_is[OF s(1) b(3,2) n] and io = fd_is_open_ok[OF s b(3,2) n op(1)]
  obtain q where q: "fs_path (filesystem_table s ! i) = Some q" "cstr q (path_text True m)" "below m cs"
    using n by (auto simp: fs_nearest_def fs_above_def above_def entry_at_def)
  obtain sub where sub: "sub_path (ops_of s op) q b = Some sub" "cstr sub (sub_text m cs)"
    using sub_path_ok[OF b(3) q(3,2) b(2) op(2)] by blast
  show ?thesis
  proof (cases "is_open s (ops_fops (ops_of s op)) (check_text m cs)")
    case True
    then show ?thesis using b(1) io by (simp add: dfs_file_open_def)
  next
    case False
    have e: "fops_of (upd_fd fd h s) = fops_of s" for h by simp
    show ?thesis
      using b(1) io l op q(1) sub False
      by (cases "call (Call_file g fd []) (fill_fd fd (ops_fops (ops_of s op)) flags i sub s)")
        (auto simp: dfs_file_open_def file_open_in_def fill_fd_def Let_def e simp del: upd_fd_def intro!: exI[of _ sub])
  qed
qed


definition ex_open :: "dfs_filesystem list \<Rightarrow> unit dfs" where
  "ex_open T = (ex_dfs T)\<lparr>fdt_fds := [Some 9], fd_of := (\<lambda>_. zero_fd\<lparr>fd_ref_count := 1, fd_magic := 0xfdfd,
     fd_fops := Some 0, fd_path := Some [47, 120, 0], fd_data := Some 0\<rparr>)\<rparr>"

lemma ex_open_facts:
  assumes "T = [ex_fs [47, 97, 0], ex_fs [47, 98, 0]]"
  shows "mounts_ok (ex_open T)" "paths_ok (ex_open T)" "cstr (working_directory (ex_open T)) [47]"
    "fs_nearest (ex_open T) [[98], d] 1 [[98]]" "fs_ops (filesystem_table (ex_open T) ! 1) = Some 0"
    "ops_flags (ops_of (ex_open T) 0) AND 1 = 0" "ops_fops (ops_of (ex_open T) 0) = 0"
    "fop_open (fops_of (ex_open T) (ops_fops (ops_of (ex_open T) 0))) = Some 3"
proof -
  have t: "cstr [47, 97, 0] (path_text True [[97]])" "cstr [47, 98, 0] (path_text True [[98]])" "cstr [47, 120, 0] [47, 120]"
    by (simp_all add: cstr_def path_text_def)
  have e: "entry_ok (ex_fs [47, 97, 0])" "entry_ok (ex_fs [47, 98, 0])" using ex_fs_ok(1)[OF _ t(1)] ex_fs_ok(1)[OF _ t(2)] by simp_all
  have T: "filesystem_table (ex_open T) = T" by (simp add: ex_open_def ex_dfs_def)
  show "mounts_ok (ex_open T)" using e by (simp add: mounts_ok_def T) (simp add: assms)
  show "paths_ok (ex_open T)" using t(3) by (auto simp: paths_ok_def ex_open_def)
  show "cstr (working_directory (ex_open T)) [47]" by (simp add: ex_open_def ex_dfs_def cstr_def)
  have at: "entry_at (ex_fs [47, 97, 0]) m \<longleftrightarrow> m = [[97]]" "entry_at (ex_fs [47, 98, 0]) m \<longleftrightarrow> m = [[98]]" for m
    using entry_unique[of "ex_fs [47, 97, 0]" m "[[97]]"] entry_unique[of "ex_fs [47, 98, 0]" m "[[98]]"]
      ex_fs_ok(2)[of "[[97]]"] ex_fs_ok(2)[of "[[98]]"] t(1,2) by auto
  have a: "fs_above (ex_open T) [[98], d] j m \<longleftrightarrow> j = 1 \<and> m = [[98]]" for j m
    unfolding fs_above_def above_def assms T[unfolded assms] by (cases j) (auto simp: below_def less_Suc_eq nth_Cons' at)
  then show "fs_nearest (ex_open T) [[98], d] 1 [[98]]" by (simp add: fs_nearest_def)
qed (simp_all add: ex_open_def ex_dfs_def ex_fs_def ex_ops_def assms)


text \<open>The check for an open file compares the functions of the file system and the path below the mount point, but not
  the file system: with two file systems of one type, a file that is open in one of them makes the file with the same path
  in the other one busy, whatever file system the descriptor belongs to.\<close>

theorem file_busy_elsewhere:
  assumes s: "mounts_ok s" "paths_ok s" "cstr (working_directory s) w"
    and p: "names_ok (m @ ds)" "ds \<noteq> []" "cstr path (path_text True (m @ ds))"
    and n: "fs_nearest s (m @ ds) i m" and op: "fs_ops (filesystem_table s ! i) = Some op"
    and fd: "Some p \<in> set (fdt_fds s)" "fd_fops (fd_of s p) = Some (ops_fops (ops_of s op))" "fd_path (fd_of s p) = Some q"
      "cstr q (path_text True ds)"
  shows "dfs_file_open call True True (Some fd) path flags s = Some (- EBUSY, s)"
proof -
  obtain b where b: "dfs_normalize_path True (working_directory s) None path = Some (Some b)" "cstr b (path_text True (m @ ds))"
    using normalized_again[OF s(3) p(1,3)] by blast
  have "check_text m (m @ ds) = path_text True ds" using p(2) by (simp add: check_text_def)
  then have "is_open s (ops_fops (ops_of s op)) (check_text m (m @ ds))" using fd by (auto simp: is_open_def)
  then show ?thesis using b(1) fd_is_open_ok[OF s p(1) b(2) n op] by (simp add: dfs_file_open_def)
qed

theorem file_busy_elsewhere_witness:
  "fd_data (fd_of (ex_open [ex_fs [47, 97, 0], ex_fs [47, 98, 0]]) 9) = Some 0 \<and>
   dfs_file_open (\<lambda>c s. Some (0, s)) True True (Some 4) [47, 98, 47, 120, 0] 0 (ex_open [ex_fs [47, 97, 0], ex_fs [47, 98, 0]]) =
     Some (- EBUSY, ex_open [ex_fs [47, 97, 0], ex_fs [47, 98, 0]])"
proof -
  let ?s = "ex_open [ex_fs [47, 97, 0], ex_fs [47, 98, 0]]"
  note f = ex_open_facts[OF refl]
  have p: "cstr [47, 98, 47, 120, 0] (path_text True ([[98]] @ [[120]]))" "cstr [47, 120, 0] (path_text True [[120]])"
    by (simp_all add: cstr_def path_text_def)
  have n: "fs_nearest ?s ([[98]] @ [[120]]) 1 [[98]]" using f(4) by simp
  have d: "Some 9 \<in> set (fdt_fds ?s)" "fd_fops (fd_of ?s 9) = Some (ops_fops (ops_of ?s 0))" "fd_path (fd_of ?s 9) = Some [47, 120, 0]"
    "fd_data (fd_of ?s 9) = Some 0"
    by (simp_all add: ex_open_def ex_dfs_def ex_ops_def)
  show ?thesis using file_busy_elsewhere[OF f(1-3) _ _ p(1) n f(5) d(1-3) p(2)] d(4) by simp
qed

text \<open>\<open>dfs_file_rename\<close> of a path that no mounted file system is above, to another such path, dereferences \<open>NULL\<close>: the two
  lookups agree, and their result is used without a test.\<close>

theorem rename_unmounted_faults:
  assumes s: "mounts_ok s" "cstr (working_directory s) w"
    and p: "cstr old f" "hd (f @ [0]) = SLASH" "path_walk True [] (path_split f) = Some (True, cs)" "\<forall>i m. \<not> fs_above s cs i m"
    and q: "cstr new g" "hd (g @ [0]) = SLASH" "path_walk True [] (path_split g) = Some (True, ds)" "\<forall>i m. \<not> fs_above s ds i m"
  shows "dfs_file_rename call True old new s = None"
proof -
  obtain b where b: "dfs_normalize_path True (working_directory s) None old = Some (Some b)" "cstr b (path_text True cs)" "names_ok cs"
    using normalize_absolute[OF s(2) p(1-3)] by auto
  obtain c where c: "dfs_normalize_path True (working_directory s) None new = Some (Some c)" "cstr c (path_text True ds)" "names_ok ds"
    using normalize_absolute[OF s(2) q(1-3)] by auto
  have "dfs_filesystem_lookup b s = Some None" using lookup_ok[OF s(1) b(3,2)] p(4) by (auto split: option.splits)
  moreover have "dfs_filesystem_lookup c s = Some None" using lookup_ok[OF s(1) c(3,2)] q(4) by (auto split: option.splits)
  ultimately show ?thesis using b(1) c(1) by (simp add: dfs_file_rename_def)
qed

theorem rename_unmounted_faults_witness:
  "dfs_file_rename (\<lambda>c s. Some (0, s)) True [47, 97, 0] [47, 98, 0] (ex_dfs [zero_fs, zero_fs]) = None"
proof -
  let ?s = "ex_dfs [zero_fs, zero_fs]"
  have t: "filesystem_table ?s = [zero_fs, zero_fs]" by (simp add: ex_dfs_def)
  have a: "mounts_ok ?s" "cstr (working_directory ?s) [47]" "cstr [47, 97, 0] [47, 97]" "cstr [47, 98, 0] [47, 98]"
    using ex_fs_ok(3) by (simp_all add: mounts_ok_def t) (simp_all add: ex_dfs_def cstr_def)
  have n: "\<forall>i m. \<not> fs_above ?s cs i m" for cs
    unfolding fs_above_def above_def t by (auto simp: less_Suc_eq nth_Cons' entry_at_def) (simp_all add: zero_fs_def)
  show ?thesis by (rule rename_unmounted_faults[OF a(1,2,3) _ _ n a(4) _ _ n]) simp_all
qed

end
