(* ===== verification/Dfs_Posix.thy ===== *)
theory Dfs_Posix
  imports Dfs_Files
begin

text \<open>
  The functions of POSIX on top of the virtual file system (\<open>components/dfs/src/dfs_posix.c\<close>), and what they do to the table
  of descriptors: a call takes a reference to its descriptor and gives it back on every way out.

  What the program passes to all of them is in one record: the functions of the file systems, whether there is memory for
  paths, for a larger table and for a directory stream, what \<open>rt_calloc\<close> returns for a descriptor, and the descriptor of
  the console.
\<close>

subsection \<open>Operations\<close>

record 'u posix_env =
  env_call :: "'u fs_calls"
  env_mem :: bool
  env_dup :: bool
  env_grow :: bool
  env_calloc :: "nat option"
  env_dir :: bool
  env_console :: int

abbreviation (input) EBADF :: int where "EBADF \<equiv> 16"
abbreviation (input) O_CREAT :: u32 where "O_CREAT \<equiv> 0x40"
abbreviation (input) DFS_PATH_MAX :: nat where "DFS_PATH_MAX \<equiv> 256"

text \<open>\<open>fd_put\<close> has an assertion against \<open>NULL\<close>.\<close>

definition fd_drop :: "nat option \<Rightarrow> 'u dfs \<Rightarrow> 'u dfs option" where
  "fd_drop d s = do { p \<leftarrow> d; Some (fd_put p s) }"

definition posix_open :: "'u posix_env \<Rightarrow> u8 list \<Rightarrow> u32 \<Rightarrow> 'u dfs \<Rightarrow> (int \<times> 'u dfs) option" where
  "posix_open env path flags s =
     do { (fd, s) \<leftarrow> fd_new (env_grow env) (env_calloc env) s;
          if fd < 0 then Some (- 1, set_errno (- ENOMEM) s)
          else do { let (d, s) = fd_get (env_console env) fd s;
                    (result, s) \<leftarrow> dfs_file_open (env_call env) (env_mem env) (env_dup env) d path flags s;
                    if result < 0
                    then do { s \<leftarrow> fd_drop d s; s \<leftarrow> fd_drop d s; Some (- 1, set_errno result s) }
                    else do { s \<leftarrow> fd_drop d s; Some (fd, s) } } }"

definition posix_close :: "'u posix_env \<Rightarrow> int \<Rightarrow> 'u dfs \<Rightarrow> (int \<times> 'u dfs) option" where
  "posix_close env fd s =
     (let (d, s) = fd_get (env_console env) fd s
      in case d of
           None \<Rightarrow> Some (- 1, set_errno (- EBADF) s)
         | Some p \<Rightarrow>
             do { (result, s) \<leftarrow> dfs_file_close (env_call env) (Some p) s;
                  let s = fd_put p s;
                  if result < 0 then Some (- 1, set_errno result s) else Some (0, fd_put p s) })"

text \<open>
  The functions that get the descriptor, call an operation \<open>f\<close> of the virtual file system and put the descriptor back.
\<close>

definition with_fd :: "'u posix_env \<Rightarrow> int \<Rightarrow> (nat \<Rightarrow> 'u dfs \<Rightarrow> (int \<times> 'u dfs) option) \<Rightarrow> 'u dfs \<Rightarrow> (int \<times> 'u dfs) option" where
  "with_fd env fd f s =
     (let (d, s) = fd_get (env_console env) fd s
      in case d of
           None \<Rightarrow> Some (- 1, set_errno (- EBADF) s)
         | Some p \<Rightarrow>
             do { (result, s) \<leftarrow> f p s;
                  let s = fd_put p s;
                  if result < 0 then Some (- 1, set_errno result s) else Some (result, s) })"

definition posix_read :: "'u posix_env \<Rightarrow> int \<Rightarrow> u32 \<Rightarrow> 'u dfs \<Rightarrow> (int \<times> 'u dfs) option" where
  "posix_read env fd len = with_fd env fd (\<lambda>p. dfs_file_read (env_call env) (Some p) len)"

definition posix_write :: "'u posix_env \<Rightarrow> int \<Rightarrow> u32 \<Rightarrow> 'u dfs \<Rightarrow> (int \<times> 'u dfs) option" where
  "posix_write env fd len = with_fd env fd (\<lambda>p. dfs_file_write (env_call env) (Some p) len)"

text \<open>
  The offset is a signed 32-bit number: an overflow of the addition of \<open>pos\<close> is undefined, and the addition of \<open>size\<close>,
  which is unsigned, wraps.
\<close>

definition seek_from :: "int \<Rightarrow> int \<Rightarrow> dfs_fd \<Rightarrow> int option option" where
  "seek_from offset whence d =
     (if whence = 0 then Some (Some offset)
      else if whence = 1
      then if - (2 ^ 31) \<le> offset + fd_pos d \<and> offset + fd_pos d < 2 ^ 31 then Some (Some (offset + fd_pos d)) else None
      else if whence = 2 then Some (Some (sint (word_of_int offset + fd_size d :: u32)))
      else Some None)"

definition posix_lseek :: "'u posix_env \<Rightarrow> int \<Rightarrow> int \<Rightarrow> int \<Rightarrow> 'u dfs \<Rightarrow> (int \<times> 'u dfs) option" where
  "posix_lseek env fd offset whence s =
     (let (d, s) = fd_get (env_console env) fd s
      in case d of
           None \<Rightarrow> Some (- 1, set_errno (- EBADF) s)
         | Some p \<Rightarrow>
             do { to \<leftarrow> seek_from offset whence (fd_of s p);
                  case to of
                    None \<Rightarrow> Some (- 1, set_errno (- EINVAL) (fd_put p s))
                  | Some offset \<Rightarrow>
                      if offset < 0 then Some (- 1, set_errno (- EINVAL) (fd_put p s))
                      else do { (result, s) \<leftarrow> dfs_file_lseek (env_call env) (Some p) offset s;
                                let s = fd_put p s;
                                if result < 0 then Some (- 1, set_errno result s) else Some (offset, s) } })"

text \<open>The functions with path names: a negative result becomes the error number.\<close>

definition posix_result :: "int \<Rightarrow> 'u dfs \<Rightarrow> (int \<times> 'u dfs) option" where
  "posix_result result s = (if result < 0 then Some (- 1, set_errno result s) else Some (result, s))"

definition posix_rename :: "'u posix_env \<Rightarrow> u8 list \<Rightarrow> u8 list \<Rightarrow> 'u dfs \<Rightarrow> (int \<times> 'u dfs) option" where
  "posix_rename env old new s =
     do { (result, s) \<leftarrow> dfs_file_rename (env_call env) (env_mem env) old new s;
          (r, s) \<leftarrow> posix_result result s;
          Some (if r < 0 then r else 0, s) }"

definition posix_unlink :: "'u posix_env \<Rightarrow> u8 list \<Rightarrow> 'u dfs \<Rightarrow> (int \<times> 'u dfs) option" where
  "posix_unlink env path s =
     do { (result, s) \<leftarrow> dfs_file_unlink (env_call env) (env_mem env) path s;
          (r, s) \<leftarrow> posix_result result s;
          Some (if r < 0 then r else 0, s) }"

definition posix_rmdir :: "'u posix_env \<Rightarrow> u8 list \<Rightarrow> 'u dfs \<Rightarrow> (int \<times> 'u dfs) option" where
  "posix_rmdir env path s =
     do { (result, s) \<leftarrow> dfs_file_unlink (env_call env) (env_mem env) path s;
          (r, s) \<leftarrow> posix_result result s;
          Some (if r < 0 then r else 0, s) }"

definition posix_stat :: "'u posix_env \<Rightarrow> u8 list \<Rightarrow> 'u dfs \<Rightarrow> (int \<times> 'u dfs) option" where
  "posix_stat env path s =
     do { (result, _, s) \<leftarrow> dfs_file_stat (env_call env) (env_mem env) path s; posix_result result s }"

definition posix_access :: "'u posix_env \<Rightarrow> u8 list \<Rightarrow> 'u dfs \<Rightarrow> (int \<times> 'u dfs) option" where
  "posix_access env path s =
     do { (result, s) \<leftarrow> posix_stat env path s; Some (if result < 0 then - 1 else 0, s) }"

definition posix_statfs :: "'u posix_env \<Rightarrow> u8 list option \<Rightarrow> 'u dfs \<Rightarrow> (int \<times> 'u dfs) option" where
  "posix_statfs env path s =
     do { (result, s) \<leftarrow> dfs_statfs (env_call env) path s; posix_result result s }"

text \<open>The buffer of \<open>fstat\<close> in the result: \<open>st_mode\<close> and \<open>st_size\<close>.\<close>

definition posix_fstat :: "'u posix_env \<Rightarrow> int \<Rightarrow> 'u dfs \<Rightarrow> int \<times> (u32 \<times> u32) option \<times> 'u dfs" where
  "posix_fstat env fd s =
     (let (d, s) = fd_get (env_console env) fd s
      in case d of
           None \<Rightarrow> (- 1, None, set_errno (- EBADF) s)
         | Some p \<Rightarrow>
             let rw = 0x100 OR 0x20 OR 4 OR 0x80 OR 0x10 OR 2;
                 mode = 0x8000 OR rw;
                 mode = (if fd_type (fd_of s p) = FT_DIRECTORY
                         then (mode AND NOT 0x8000) OR 0x4000 OR 0x40 OR 8 OR 1 else mode)
             in (0, Some (mode, fd_size (fd_of s p)), fd_put p s))"

definition posix_fsync :: "'u posix_env \<Rightarrow> int \<Rightarrow> 'u dfs \<Rightarrow> (int \<times> 'u dfs) option" where
  "posix_fsync env fd s =
     (let (d, s) = fd_get (env_console env) fd s
      in case d of
           None \<Rightarrow> Some (- 1, set_errno (- EBADF) s)
         | Some p \<Rightarrow> do { (result, s) \<leftarrow> dfs_file_flush (env_call env) (Some p) s; Some (result, fd_put p s) })"

definition posix_fcntl :: "'u posix_env \<Rightarrow> int \<Rightarrow> int \<Rightarrow> u32 \<Rightarrow> 'u dfs \<Rightarrow> (int \<times> 'u dfs) option" where
  "posix_fcntl env fd cmd arg s =
     (let (d, s) = fd_get (env_console env) fd s
      in do { (ret, s) \<leftarrow> (case d of
                 None \<Rightarrow> Some (- EBADF, s)
               | Some p \<Rightarrow> do { (ret, s) \<leftarrow> dfs_file_ioctl (env_call env) (Some p) cmd arg s; Some (ret, fd_put p s) });
              if ret < 0 then Some (- 1, set_errno ret s) else Some (ret, s) })"

definition posix_ioctl :: "'u posix_env \<Rightarrow> int \<Rightarrow> int \<Rightarrow> u32 \<Rightarrow> 'u dfs \<Rightarrow> (int \<times> 'u dfs) option" where
  "posix_ioctl = posix_fcntl"

definition posix_mkdir :: "'u posix_env \<Rightarrow> u8 list \<Rightarrow> 'u dfs \<Rightarrow> (int \<times> 'u dfs) option" where
  "posix_mkdir env path s =
     do { (fd, s) \<leftarrow> fd_new (env_grow env) (env_calloc env) s;
          if fd = - 1 then Some (- 1, set_errno (- ENOMEM) s)
          else do { let (d, s) = fd_get (env_console env) fd s;
                    (result, s) \<leftarrow> dfs_file_open (env_call env) (env_mem env) (env_dup env) d path (O_DIRECTORY OR O_CREAT) s;
                    if result < 0
                    then do { s \<leftarrow> fd_drop d s; s \<leftarrow> fd_drop d s; Some (- 1, set_errno result s) }
                    else do { (_, s) \<leftarrow> dfs_file_close (env_call env) d s;
                              s \<leftarrow> fd_drop d s; s \<leftarrow> fd_drop d s; Some (0, s) } } }"

subsection \<open>Directory streams\<close>

text \<open>
  The buffer of a stream is written by the file system through its pointer: \<open>dents s\<close> is what it holds in state \<open>s\<close>.
\<close>

record dir_stream =
  dir_fd :: int
  dir_num :: int
  dir_cur :: int

definition posix_opendir :: "'u posix_env \<Rightarrow> u8 list \<Rightarrow> 'u dfs \<Rightarrow> (dir_stream option \<times> 'u dfs) option" where
  "posix_opendir env name s =
     do { (fd, s) \<leftarrow> fd_new (env_grow env) (env_calloc env) s;
          if fd = - 1 then Some (None, set_errno (- ENOMEM) s)
          else do { let (d, s) = fd_get (env_console env) fd s;
                    (result, s) \<leftarrow> dfs_file_open (env_call env) (env_mem env) (env_dup env) d name O_DIRECTORY s;
                    if result \<ge> 0
                    then if \<not> env_dir env
                         then do { (_, s) \<leftarrow> dfs_file_close (env_call env) d s;
                                   s \<leftarrow> fd_drop d s; s \<leftarrow> fd_drop d s; Some (None, s) }
                         else do { s \<leftarrow> fd_drop d s; Some (Some \<lparr>dir_fd = fd, dir_num = 0, dir_cur = 0\<rparr>, s) }
                    else do { s \<leftarrow> fd_drop d s; s \<leftarrow> fd_drop d s; Some (None, set_errno result s) } } }"

text \<open>\<open>d_reclen\<close>, the 16 bits at offset 2 of the entry at \<open>cur\<close>; the buffer has 512 bytes.\<close>

definition dirent_reclen :: "u8 list \<Rightarrow> int \<Rightarrow> int option" where
  "dirent_reclen buf cur =
     (if 0 \<le> cur then do { lo \<leftarrow> buf_get buf (nat cur + 2); hi \<leftarrow> buf_get buf (nat cur + 3); Some (uint lo + 256 * uint hi) }
      else None)"

text \<open>The result is the index of the entry in the buffer.\<close>

definition posix_readdir ::
  "'u posix_env \<Rightarrow> ('u dfs \<Rightarrow> u8 list) \<Rightarrow> dir_stream \<Rightarrow> 'u dfs \<Rightarrow> (int option \<times> dir_stream \<times> 'u dfs) option" where
  "posix_readdir env dents d s =
     (let (fd, s) = fd_get (env_console env) (dir_fd d) s
      in case fd of
           None \<Rightarrow> Some (None, d, set_errno (- EBADF) s)
         | Some p \<Rightarrow>
             do { cur \<leftarrow> (if dir_num d \<noteq> 0
                          then do { n \<leftarrow> dirent_reclen (dents s) (dir_cur d); Some (dir_cur d + n) }
                          else Some (dir_cur d));
                  let d = d\<lparr>dir_cur := cur\<rparr>;
                  if dir_num d = 0 \<or> cur \<ge> dir_num d
                  then do { (result, s) \<leftarrow> dfs_file_getdents (env_call env) (Some p) 511 s;
                            let s = fd_put p s;
                            if result \<le> 0 then Some (None, d, set_errno result s)
                            else Some (Some 0, d\<lparr>dir_num := result, dir_cur := 0\<rparr>, s) }
                  else Some (Some cur, d, fd_put p s) })"

definition posix_telldir :: "'u posix_env \<Rightarrow> dir_stream \<Rightarrow> 'u dfs \<Rightarrow> int \<times> 'u dfs" where
  "posix_telldir env d s =
     (let (fd, s) = fd_get (env_console env) (dir_fd d) s
      in case fd of
           None \<Rightarrow> (0, set_errno (- EBADF) s)
         | Some p \<Rightarrow> (fd_pos (fd_of s p) - dir_num d + dir_cur d, fd_put p s))"

definition posix_seekdir :: "'u posix_env \<Rightarrow> dir_stream \<Rightarrow> int \<Rightarrow> 'u dfs \<Rightarrow> (dir_stream \<times> 'u dfs) option" where
  "posix_seekdir env d offset s =
     (let (fd, s) = fd_get (env_console env) (dir_fd d) s
      in case fd of
           None \<Rightarrow> Some (d, set_errno (- EBADF) s)
         | Some p \<Rightarrow>
             do { (result, s) \<leftarrow> dfs_file_lseek (env_call env) (Some p) offset s;
                  Some (if result \<ge> 0 then d\<lparr>dir_num := 0, dir_cur := 0\<rparr> else d, fd_put p s) })"

definition posix_rewinddir :: "'u posix_env \<Rightarrow> dir_stream \<Rightarrow> 'u dfs \<Rightarrow> (dir_stream \<times> 'u dfs) option" where
  "posix_rewinddir env d s =
     (let (fd, s) = fd_get (env_console env) (dir_fd d) s
      in case fd of
           None \<Rightarrow> Some (d, set_errno (- EBADF) s)
         | Some p \<Rightarrow>
             do { (result, s) \<leftarrow> dfs_file_lseek (env_call env) (Some p) 0 s;
                  Some (if result \<ge> 0 then d\<lparr>dir_num := 0, dir_cur := 0\<rparr> else d, fd_put p s) })"

definition posix_closedir :: "'u posix_env \<Rightarrow> dir_stream \<Rightarrow> 'u dfs \<Rightarrow> (int \<times> 'u dfs) option" where
  "posix_closedir env d s =
     (let (fd, s) = fd_get (env_console env) (dir_fd d) s
      in case fd of
           None \<Rightarrow> Some (- 1, set_errno (- EBADF) s)
         | Some p \<Rightarrow>
             do { (result, s) \<leftarrow> dfs_file_close (env_call env) (Some p) s;
                  let s = fd_put p (fd_put p s);
                  if result < 0 then Some (- 1, set_errno result s) else Some (0, s) })"

subsection \<open>The working directory\<close>

text \<open>Without an argument \<open>chdir\<close> only prints. \<open>strncpy\<close> of the C library does what \<open>rt_strncpy\<close> does.\<close>

definition posix_chdir :: "'u posix_env \<Rightarrow> u8 list option \<Rightarrow> 'u dfs \<Rightarrow> (int \<times> 'u dfs) option" where
  "posix_chdir env path s =
     (case path of
        None \<Rightarrow> Some (0, s)
      | Some path \<Rightarrow>
          do { n \<leftarrow> rt_strlen path;
               if n > DFS_PATH_MAX then Some (- 1, set_errno (- ENOTDIR) s)
               else do { full \<leftarrow> dfs_normalize_path (env_mem env) (working_directory s) None path;
                         case full of
                           None \<Rightarrow> Some (- 1, set_errno (- ENOTDIR) s)
                         | Some fullpath \<Rightarrow>
                             do { (d, s) \<leftarrow> posix_opendir env fullpath s;
                                  case d of
                                    None \<Rightarrow> Some (- 1, s)
                                  | Some d \<Rightarrow>
                                      do { (_, s) \<leftarrow> posix_closedir env d s;
                                           w \<leftarrow> rt_strncpy fullpath DFS_PATH_MAX;
                                           Some (0, s\<lparr>working_directory := w\<rparr>) } } } })"

definition posix_getcwd :: "nat \<Rightarrow> 'u dfs \<Rightarrow> u8 list option" where
  "posix_getcwd n s = rt_strncpy (working_directory s) n"

end
