(* ===== verification/Dfs_Refs.thy ===== *)
theory Dfs_Refs
  imports Dfs_Posix
begin

text \<open>
  The functions of POSIX keep the table of descriptors: \<open>open\<close> and \<open>opendir\<close> take one entry, \<open>close\<close> and \<open>closedir\<close> give
  it back, and no other function takes or loses a reference, on any way out.
\<close>

subsection \<open>The functions of files keep the table\<close>

definition same_fds :: "'u dfs \<Rightarrow> 'u dfs \<Rightarrow> bool" where
  "same_fds s s' \<longleftrightarrow> fdt_fds s' = fdt_fds s \<and>
     (\<forall>p. fd_magic (fd_of s' p) = fd_magic (fd_of s p) \<and> fd_ref_count (fd_of s' p) = fd_ref_count (fd_of s p))"

text \<open>The contract of the functions of the file systems.\<close>

definition keeps_fds :: "'u fs_calls \<Rightarrow> bool" where
  "keeps_fds call \<longleftrightarrow> (\<forall>c s r s'. call c s = Some (r, s') \<longrightarrow> same_fds s s')"

lemma same_fds_refl [simp]: "same_fds s s"
  by (simp add: same_fds_def)

lemma same_fds_trans: "same_fds s s' \<Longrightarrow> same_fds s' s'' \<Longrightarrow> same_fds s s''"
  by (simp add: same_fds_def)

lemma same_fds_sym: "same_fds s s' \<Longrightarrow> same_fds s' s"
  by (simp add: same_fds_def)

lemma same_fds_errno [simp]: "same_fds s (set_errno e s') = same_fds s s'" "same_fds (set_errno e s) s' = same_fds s s'"
  "same_fds s (s'\<lparr>working_directory := w\<rparr>) = same_fds s s'"
  by (simp_all add: same_fds_def)

lemma same_fds_call: "keeps_fds call \<Longrightarrow> call c s1 = Some (r, s2) \<Longrightarrow> same_fds s s2 = same_fds s s1"
  unfolding keeps_fds_def using same_fds_trans same_fds_sym by blast

lemma same_fds_upd:
  "(\<And>d. fd_magic (f d) = fd_magic d \<and> fd_ref_count (f d) = fd_ref_count d) \<Longrightarrow> same_fds s (upd_fd p f s1) = same_fds s s1"
  by (auto simp: same_fds_def)

lemmas keep_simps = same_fds_call same_fds_upd Let_def

lemma open_in_keeps:
  "keeps_fds call \<Longrightarrow> returns (same_fds s) (file_open_in call dup fd i fullpath flags s)"
  unfolding file_open_in_def
  by (intro returns_intros | simp add: keep_simps del: upd_fd_def)+

lemma open_keeps: "keeps_fds call \<Longrightarrow> returns (same_fds s) (dfs_file_open call mem dup fd path flags s)"
  unfolding dfs_file_open_def
  by (intro returns_intros open_in_keeps | simp)+

lemma close_keeps: "keeps_fds call \<Longrightarrow> returns (same_fds s) (dfs_file_close call fd s)"
  unfolding dfs_file_close_def
  by (intro returns_intros | (auto simp add: keep_simps simp del: upd_fd_def split: option.splits)[1])+

lemma read_keeps: "keeps_fds call \<Longrightarrow> returns (same_fds s) (dfs_file_read call fd len s)"
  unfolding dfs_file_read_def by (intro returns_intros | (simp add: keep_simps del: upd_fd_def)[1])+

lemma write_keeps: "keeps_fds call \<Longrightarrow> returns (same_fds s) (dfs_file_write call fd len s)"
  unfolding dfs_file_write_def by (intro returns_intros | (simp add: returns_def keep_simps del: upd_fd_def)[1])+

lemma getdents_keeps: "keeps_fds call \<Longrightarrow> returns (same_fds s) (dfs_file_getdents call fd n s)"
  unfolding dfs_file_getdents_def by (intro returns_intros | (simp add: returns_def keep_simps del: upd_fd_def)[1])+

lemma flush_keeps: "keeps_fds call \<Longrightarrow> returns (same_fds s) (dfs_file_flush call fd s)"
  unfolding dfs_file_flush_def by (intro returns_intros | (simp add: returns_def keep_simps del: upd_fd_def)[1])+

lemma lseek_keeps: "keeps_fds call \<Longrightarrow> returns (same_fds s) (dfs_file_lseek call fd offset s)"
  unfolding dfs_file_lseek_def by (intro returns_intros | (simp add: keep_simps del: upd_fd_def)[1])+

lemma ioctl_keeps: "keeps_fds call \<Longrightarrow> returns (same_fds s) (dfs_file_ioctl call fd cmd args s)"
  unfolding dfs_file_ioctl_def by (intro returns_intros | (simp add: returns_def keep_simps del: upd_fd_def)[1])+

lemma unlink_keeps: "keeps_fds call \<Longrightarrow> returns (same_fds s) (dfs_file_unlink call mem path s)"
  unfolding dfs_file_unlink_def by (intro returns_intros | (simp add: returns_def keep_simps del: upd_fd_def)[1])+

lemma rename_keeps: "keeps_fds call \<Longrightarrow> returns (same_fds s) (dfs_file_rename call mem old new s)"
  unfolding dfs_file_rename_def by (intro returns_intros | (simp add: returns_def keep_simps del: upd_fd_def)[1])+

lemma statfs_keeps: "keeps_fds call \<Longrightarrow> returns (same_fds s) (dfs_statfs call path s)"
  unfolding dfs_statfs_def by (intro returns_intros | (simp add: returns_def keep_simps del: upd_fd_def)[1])+

lemma stat_keeps: "keeps_fds call \<Longrightarrow> returns (\<lambda>(_, s'). same_fds s s') (dfs_file_stat call mem path s)"
  unfolding dfs_file_stat_def by (intro returns_intros | (simp add: returns_def keep_simps del: upd_fd_def)[1])+

subsection \<open>References between the calls\<close>

text \<open>Between the calls of one thread every descriptor in the table has one reference, that of \<open>open\<close>.\<close>

definition quiet :: "'u dfs \<Rightarrow> bool" where
  "quiet s \<longleftrightarrow> (\<exists>refs. distinct refs \<and> fd_ledger refs s)"

definition fd_used :: "'u dfs \<Rightarrow> int set" where
  "fd_used s = {int i + DFS_FD_OFFSET | i. i < length (fdt_fds s) \<and> fdt_fds s ! i \<noteq> None}"

definition fd_name :: "int \<Rightarrow> int \<Rightarrow> int" where
  "fd_name console fd = (if 0 \<le> fd \<and> fd \<le> 2 then console else fd)"

lemma ledger_same: "same_fds s s' \<Longrightarrow> fd_ledger refs s' = fd_ledger refs s"
  by (simp add: same_fds_def fd_ledger_def)

lemma quiet_same: "same_fds s s' \<Longrightarrow> quiet s' = quiet s"
  by (simp add: quiet_def ledger_same)

lemma used_same: "same_fds s s' \<Longrightarrow> fd_used s' = fd_used s"
  by (simp add: fd_used_def same_fds_def)

text \<open>What \<open>fd_get\<close> finds.\<close>

definition fd_at :: "'u dfs \<Rightarrow> int \<Rightarrow> nat \<Rightarrow> nat \<Rightarrow> bool" where
  "fd_at s fd i p \<longleftrightarrow> fd = int i + DFS_FD_OFFSET \<and> i < length (fdt_fds s) \<and> fdt_fds s ! i = Some p"

lemma get_cases:
  assumes "quiet s" "fd_get console fd s = (r, s')"
  shows "case r of
      None \<Rightarrow> s' = s \<and> fd_name console fd \<notin> fd_used s
    | Some p \<Rightarrow> s' = upd_fd p (\<lambda>d. d\<lparr>fd_ref_count := fd_ref_count d + 1\<rparr>) s \<and> (\<exists>i. fd_at s (fd_name console fd) i p)"
proof -
  let ?n = "fd_name console fd - 3"
  have g: "(r, s') = (if ?n < 0 \<or> ?n \<ge> int (length (fdt_fds s)) then (None, s)
      else case fdt_fds s ! nat ?n of None \<Rightarrow> (None, s)
        | Some p \<Rightarrow> if fd_magic (fd_of s p) \<noteq> 0xfdfd then (None, s)
            else (Some p, upd_fd p (\<lambda>d. d\<lparr>fd_ref_count := fd_ref_count d + 1\<rparr>) s))"
    using assms(2) by (simp only: fd_get_def fd_name_def Let_def)
  have m: "fd_magic (fd_of s p) = 0xfdfd" if "i < length (fdt_fds s)" "fdt_fds s ! i = Some p" for i p
    using assms(1) that nth_mem[OF that(1)] by (auto simp: quiet_def fd_ledger_def)
  show ?thesis
  proof (cases r)
    case None
    then show ?thesis using g m by (auto simp: fd_used_def simp del: upd_fd_def split: if_splits option.splits)
  next
    case (Some p)
    then have "?n \<ge> 0" "nat ?n < length (fdt_fds s)" "fdt_fds s ! nat ?n = Some p"
      "s' = upd_fd p (\<lambda>d. d\<lparr>fd_ref_count := fd_ref_count d + 1\<rparr>) s"
      using g by (auto simp del: upd_fd_def split: if_splits option.splits)
    then show ?thesis using Some by (auto simp: fd_at_def simp del: upd_fd_def intro!: exI[of _ "nat ?n"])
  qed
qed

lemma used_at: "fd_at s fd i p \<Longrightarrow> fd \<in> fd_used s"
  by (auto simp: fd_at_def fd_used_def)

lemma count_distinct: "distinct xs \<Longrightarrow> x \<in> set xs \<Longrightarrow> count_list xs x = 1"
  by (induction xs) auto

lemma quiet_one: "quiet s \<Longrightarrow> fd_at s fd i p \<Longrightarrow> fd_ref_count (fd_of s p) = 1"
  using nth_mem[of i "fdt_fds s"] by (auto simp: quiet_def fd_ledger_def fd_at_def count_distinct)

text \<open>The descriptor is put back: the state is the one before \<open>fd_get\<close>, apart from what was done to the file.\<close>

lemma put_back:
  assumes "quiet s" "fd_at s fd i p" "same_fds (upd_fd p (\<lambda>d. d\<lparr>fd_ref_count := fd_ref_count d + 1\<rparr>) s) s2"
  shows "same_fds s (fd_put p s2)"
proof -
  have "fd_ref_count (fd_of s2 p) = 2" using quiet_one[OF assms(1,2)] assms(3) by (simp add: same_fds_def)
  then show ?thesis using assms(3) quiet_one[OF assms(1,2)] by (auto simp: same_fds_def fd_put_def Let_def)
qed

text \<open>The reference of \<open>open\<close> is put back as well: the entry is empty again.\<close>

lemma put_last:
  assumes q: "quiet s" and a: "fd_at s fd i p" and s: "same_fds s s2"
  shows "quiet (fd_put p s2) \<and> fd_used (fd_put p s2) = fd_used s - {fd}"
proof -
  obtain refs where r: "distinct refs" "fd_ledger refs s2" using q ledger_same[OF s] by (auto simp: quiet_def)
  have a2: "fd_at s2 fd i p" using a s by (simp add: fd_at_def same_fds_def)
  then have p: "p \<in> set refs" using r(2) nth_mem[of i "fdt_fds s2"] by (auto simp: fd_ledger_def fd_at_def)
  have u: "j = i" if "j < length (fdt_fds s2)" "fdt_fds s2 ! j = Some p" for j
    using r(2) a2 that by (auto simp: fd_ledger_def fd_at_def)
  have "fd_clear p (fdt_fds s2) = map (\<lambda>e. if e = Some p then None else e) (fdt_fds s2)"
    by (rule fd_clear_ok) (use r(2) in \<open>auto simp: fd_ledger_def\<close>)
  moreover have "fd_ref_count (fd_of s2 p) = 1"
    using quiet_one[OF q a] s by (simp add: same_fds_def)
  ultimately have F: "fdt_fds (fd_put p s2) = map (\<lambda>e. if e = Some p then None else e) (fdt_fds s2)"
    by (simp add: fd_put_def Let_def)
  have k: "j < length (fdt_fds s2) \<Longrightarrow> fdt_fds (fd_put p s2) ! j \<noteq> None \<longleftrightarrow> fdt_fds s2 ! j \<noteq> None \<and> j \<noteq> i" for j
    using u[of j] a2 by (auto simp: F fd_at_def)
  have "fdt_fds (fd_put p s2) ! i = None" "length (fdt_fds (fd_put p s2)) = length (fdt_fds s2)"
    using k[of i] a2 by (simp_all add: F fd_at_def)
  then have "fd_used (fd_put p s2) = fd_used s2 - {fd}"
    using a2 k unfolding fd_used_def fd_at_def by auto
  moreover have "quiet (fd_put p s2)"
    using step_put[OF r(2) p] distinct_remove1[OF r(1)] unfolding quiet_def by blast
  ultimately show ?thesis using used_same[OF s] by simp
qed

text \<open>A new descriptor, with the reference that \<open>open\<close> takes to it at once.\<close>

lemma used_grow: "fd_used (s\<lparr>fdt_fds := fdt_fds s @ replicate k None\<rparr>) = fd_used s"
proof -
  have "i < length F + k \<and> (F @ replicate k None) ! i \<noteq> None \<longleftrightarrow> i < length F \<and> F ! i \<noteq> None" for i and F :: "nat option list"
    by (auto simp: nth_append)
  then show ?thesis by (simp add: fd_used_def)
qed

lemma used_new:
  assumes "i < length (fdt_fds s)" "fdt_fds s ! i = None"
  shows "int i + 3 \<notin> fd_used s \<and> fd_used (upd_fd p f (s\<lparr>fdt_fds := (fdt_fds s)[i := Some q]\<rparr>)) = insert (int i + 3) (fd_used s)"
proof -
  have "j < length (fdt_fds s) \<Longrightarrow> (fdt_fds s)[i := Some q] ! j \<noteq> None \<longleftrightarrow> fdt_fds s ! j \<noteq> None \<or> j = i" for j
    by (cases "j = i") simp_all
  then show ?thesis using assms by (auto simp: fd_used_def)
qed

lemma new_cases:
  assumes q: "quiet s" and n: "fd_new grow calloc s = Some (r, s')" and c: "\<forall>p. calloc = Some p \<longrightarrow> Some p \<notin> set (fdt_fds s)"
  shows "quiet s' \<and> (if r < 0 then r = - 1 \<and> fd_used s' = fd_used s
    else r \<ge> 3 \<and> r \<notin> fd_used s \<and> fd_used s' = insert r (fd_used s) \<and> (\<exists>i p. fd_at s' r i p))"
proof -
  obtain refs where l: "distinct refs" "fd_ledger refs s" using q by (auto simp: quiet_def)
  obtain idx s1 where a: "fd_alloc grow calloc 0 s = (idx, s1)" by (cases "fd_alloc grow calloc 0 s")
  obtain k where k: "length (fdt_fds s) + k \<le> 16"
    "idx = length (fdt_fds s) + k \<and> s1 = s\<lparr>fdt_fds := fdt_fds s @ replicate k None\<rparr> \<or>
     (\<exists>p. calloc = Some p \<and> idx < length (fdt_fds s) + k \<and> (fdt_fds s @ replicate k None) ! idx = None \<and>
        s1 = upd_fd p (\<lambda>_. zero_fd) (s\<lparr>fdt_fds := (fdt_fds s @ replicate k None)[idx := Some p]\<rparr>))"
    using fd_alloc_cases[OF l(2) a] by blast
  let ?g = "s\<lparr>fdt_fds := fdt_fds s @ replicate k None\<rparr>"
  note g = ledger_grow[OF l(2) k(1)]
  from k(2) show ?thesis
  proof (elim disjE exE conjE)
    assume "idx = length (fdt_fds s) + k" "s1 = ?g"
    then have "r = - 1" "s' = ?g" using n a by (auto simp: fd_new_def)
    then show ?thesis using g l(1) used_grow by (auto simp: quiet_def)
  next
    fix p assume p: "calloc = Some p" "idx < length (fdt_fds s) + k" "(fdt_fds s @ replicate k None) ! idx = None"
      "s1 = upd_fd p (\<lambda>_. zero_fd) (s\<lparr>fdt_fds := (fdt_fds s @ replicate k None)[idx := Some p]\<rparr>)"
    let ?n = "upd_fd p (\<lambda>_. zero_fd\<lparr>fd_ref_count := 1, fd_magic := 0xfdfd\<rparr>) (?g\<lparr>fdt_fds := (fdt_fds ?g)[idx := Some p]\<rparr>)"
    have s: "r = int idx + 3" "s' = ?n" using p n a by (auto simp: fd_new_def)
    have "p \<notin> set refs" using c p(1) l(2) by (simp add: fd_ledger_def)
    then have "fd_ledger (p # refs) s'" "distinct (p # refs)" using ledger_new[OF g, of idx p] p l(1) s(2) by auto
    then have "quiet s'" unfolding quiet_def by blast
    moreover have "fd_at s' r idx p" using s p(2) by (simp add: fd_at_def)
    ultimately show ?thesis using used_new[of idx ?g] p(2,3) s used_grow[of s k] by (auto simp del: upd_fd_def)
  qed
qed

subsection \<open>The functions of POSIX\<close>

lemma get_put:
  assumes "quiet s" "fd_get console fd s = (Some p, s1)" "same_fds s1 s2"
  shows "same_fds s (fd_put p s2)"
proof -
  obtain i where "fd_at s (fd_name console fd) i p" "s1 = upd_fd p (\<lambda>d. d\<lparr>fd_ref_count := fd_ref_count d + 1\<rparr>) s"
    using get_cases[OF assms(1,2)] by auto
  then show ?thesis using put_back[OF assms(1)] assms(3) by blast
qed

lemma get_put_put:
  assumes "quiet s" "fd_get console fd s = (Some p, s1)" "same_fds s1 s2"
  shows "quiet (fd_put p (fd_put p s2)) \<and> fd_used (fd_put p (fd_put p s2)) = fd_used s - {fd_name console fd}"
proof -
  obtain i where "fd_at s (fd_name console fd) i p" using get_cases[OF assms(1,2)] by auto
  then show ?thesis using put_last[OF assms(1) _ get_put[OF assms]] by blast
qed

lemma get_none: "quiet s \<Longrightarrow> fd_get console fd s = (None, s1) \<Longrightarrow> s1 = s \<and> fd_name console fd \<notin> fd_used s"
  using get_cases[of s console fd None s1] by simp

lemma get_none_same: "quiet s \<Longrightarrow> fd_get console fd s = (None, s1) \<Longrightarrow> same_fds s s1"
  using get_none by fastforce

lemma new_get:
  assumes q: "quiet s" and n: "fd_new grow calloc s = Some (fd, s1)" "\<forall>p. calloc = Some p \<longrightarrow> Some p \<notin> set (fdt_fds s)" "0 \<le> fd"
    and g: "fd_get console fd s1 = (d, s2)"
  shows "\<exists>p. d = Some p \<and> 3 \<le> fd \<and> fd \<notin> fd_used s \<and> (\<forall>s3. same_fds s2 s3 \<longrightarrow>
    quiet (fd_put p s3) \<and> fd_used (fd_put p s3) = insert fd (fd_used s) \<and>
    quiet (fd_put p (fd_put p s3)) \<and> fd_used (fd_put p (fd_put p s3)) = fd_used s)"
proof -
  have c: "quiet s1" "fd \<ge> 3" "fd \<notin> fd_used s" "fd_used s1 = insert fd (fd_used s)"
    using new_cases[OF q n(1,2)] n(3) by auto
  have name: "fd_name console fd = fd" using c(2) by (simp add: fd_name_def)
  obtain p where p: "d = Some p" using get_none[OF c(1)] g c(4) name by (cases d) auto
  show ?thesis
  proof (intro exI[of _ p] conjI allI impI)
    fix s3 assume s3: "same_fds s2 s3"
    have b: "same_fds s1 (fd_put p s3)" by (rule get_put[OF c(1) g[unfolded p] s3])
    show "quiet (fd_put p s3)" "fd_used (fd_put p s3) = insert fd (fd_used s)"
      using quiet_same[OF b] used_same[OF b] c by simp_all
    show "quiet (fd_put p (fd_put p s3))" "fd_used (fd_put p (fd_put p s3)) = fd_used s"
      using get_put_put[OF c(1) g[unfolded p] s3] c name by auto
  qed (use p c in simp_all)
qed

text \<open>A result of \<open>-1\<close> leaves the used descriptors, any other is the new one.\<close>

definition takes_fd :: "'u dfs \<Rightarrow> int \<times> 'u dfs \<Rightarrow> bool" where
  "takes_fd s = (\<lambda>(r, s'). quiet s' \<and>
     (if r < 0 then fd_used s' = fd_used s
      else DFS_FD_OFFSET \<le> r \<and> r \<notin> fd_used s \<and> fd_used s' = insert r (fd_used s)))"

lemma quiet_errno [simp]: "quiet (set_errno e s) = quiet s" "fd_used (set_errno e s) = fd_used s"
  by (simp_all add: quiet_def fd_used_def fd_ledger_def)

text \<open>The common part of \<open>open\<close>, \<open>opendir\<close> and \<open>mkdir\<close>.\<close>

lemma new_failed:
  assumes "quiet s" "fd_new (env_grow env) (env_calloc env) s = Some (fd, s1)"
    "\<forall>p. env_calloc env = Some p \<longrightarrow> Some p \<notin> set (fdt_fds s)" "fd < 0"
  shows "fd = - 1" "quiet s1" "fd_used s1 = fd_used s"
  using new_cases[OF assms(1-3)] assms(4) by simp_all

lemma new_open:
  assumes q: "quiet s" and k: "keeps_fds (env_call env)" and c: "\<forall>p. env_calloc env = Some p \<longrightarrow> Some p \<notin> set (fdt_fds s)"
    and n: "fd_new (env_grow env) (env_calloc env) s = Some (fd, s1)" "\<not> fd < 0" and g: "fd_get (env_console env) fd s1 = (d, s2)"
    and f: "dfs_file_open (env_call env) (env_mem env) (env_dup env) d path flags s2 = Some (r, s3)"
  obtains p where "d = Some p" "3 \<le> fd" "fd \<notin> fd_used s"
    "\<And>s4. same_fds s3 s4 \<Longrightarrow> quiet (fd_put p s4) \<and> fd_used (fd_put p s4) = insert fd (fd_used s)"
    "\<And>s4. same_fds s3 s4 \<Longrightarrow> quiet (fd_put p (fd_put p s4)) \<and> fd_used (fd_put p (fd_put p s4)) = fd_used s"
proof -
  have "same_fds s2 s3" using f open_keeps[OF k] by (auto simp: returns_def)
  then show ?thesis using new_get[OF q n(1) c _ g] n(2) that same_fds_trans[of s2 s3] by fastforce
qed

lemma open_takes:
  assumes q: "quiet s" and k: "keeps_fds (env_call env)" and c: "\<forall>p. env_calloc env = Some p \<longrightarrow> Some p \<notin> set (fdt_fds s)"
    and o: "posix_open env path flags s = Some x"
  shows "takes_fd s x"
proof -
  obtain fd s1 where n: "fd_new (env_grow env) (env_calloc env) s = Some (fd, s1)"
    using o by (auto simp: posix_open_def bind_eq_Some_conv)
  obtain d s2 where g: "fd_get (env_console env) fd s1 = (d, s2)" by (cases "fd_get (env_console env) fd s1")
  show ?thesis
  proof (cases "fd < 0")
    case True
    then have "x = (- 1, set_errno (- 6) s1)" using o n by (simp add: posix_open_def del: set_errno_def)
    then show ?thesis using new_failed[OF q n c True] by (simp add: takes_fd_def del: set_errno_def)
  next
    case False
    then obtain r s3 where f: "dfs_file_open (env_call env) (env_mem env) (env_dup env) d path flags s2 = Some (r, s3)"
      using o n g by (cases "dfs_file_open (env_call env) (env_mem env) (env_dup env) d path flags s2") (auto simp: posix_open_def)
    obtain p where p: "d = Some p" "3 \<le> fd" "fd \<notin> fd_used s" "quiet (fd_put p s3) \<and> fd_used (fd_put p s3) = insert fd (fd_used s)"
      "quiet (fd_put p (fd_put p s3)) \<and> fd_used (fd_put p (fd_put p s3)) = fd_used s"
      using new_open[OF q k c n False g f] same_fds_refl by metis
    then show ?thesis using o n g False f
      by (cases "r < 0") (auto simp: posix_open_def takes_fd_def fd_drop_def simp del: set_errno_def)
  qed
qed

lemma opendir_takes:
  assumes q: "quiet s" and k: "keeps_fds (env_call env)" and c: "\<forall>p. env_calloc env = Some p \<longrightarrow> Some p \<notin> set (fdt_fds s)"
    and o: "posix_opendir env path s = Some (r, s')"
  shows "takes_fd s (case r of None \<Rightarrow> - 1 | Some d \<Rightarrow> dir_fd d, s') \<and> (\<forall>d. r = Some d \<longrightarrow> 0 \<le> dir_fd d)"
proof -
  obtain fd s1 where n: "fd_new (env_grow env) (env_calloc env) s = Some (fd, s1)"
    using o by (auto simp: posix_opendir_def bind_eq_Some_conv)
  obtain d s2 where g: "fd_get (env_console env) fd s1 = (d, s2)" by (cases "fd_get (env_console env) fd s1")
  show ?thesis
  proof (cases "fd < 0")
    case True
    then have "r = None" "s' = set_errno (- 6) s1"
      using o n new_failed(1)[OF q n c True] by (simp_all add: posix_opendir_def del: set_errno_def)
    then show ?thesis using new_failed[OF q n c True] by (simp add: takes_fd_def del: set_errno_def)
  next
    case False
    then obtain x s3 where f: "dfs_file_open (env_call env) (env_mem env) (env_dup env) d path O_DIRECTORY s2 = Some (x, s3)"
      using o n g by (cases "dfs_file_open (env_call env) (env_mem env) (env_dup env) d path O_DIRECTORY s2") (auto simp: posix_opendir_def)
    obtain p where p: "d = Some p" "3 \<le> fd" "fd \<notin> fd_used s"
      "\<And>s4. same_fds s3 s4 \<Longrightarrow> quiet (fd_put p s4) \<and> fd_used (fd_put p s4) = insert fd (fd_used s)"
      "\<And>s4. same_fds s3 s4 \<Longrightarrow> quiet (fd_put p (fd_put p s4)) \<and> fd_used (fd_put p (fd_put p s4)) = fd_used s"
      using new_open[OF q k c n False g f] by metis
    show ?thesis
    proof (cases "x \<ge> 0 \<and> \<not> env_dir env")
      case True
      then obtain y s4 where l: "dfs_file_close (env_call env) (Some p) s3 = Some (y, s4)"
        using o n g False f p(1) by (cases "dfs_file_close (env_call env) (Some p) s3") (auto simp: posix_opendir_def)
      then have "same_fds s3 s4" using close_keeps[OF k] by (auto simp: returns_def)
      then show ?thesis using p(5)[of s4] o n g False f p(1) True l
        by (auto simp: posix_opendir_def takes_fd_def fd_drop_def)
    next
      case other: False
      then show ?thesis using p(4,5)[OF same_fds_refl] p(2,3) o n g False f p(1)
        by (cases "x < 0") (auto simp: posix_opendir_def takes_fd_def fd_drop_def simp del: set_errno_def)
    qed
  qed
qed

text \<open>A call that takes no descriptor.\<close>

definition keeps_fd :: "'u dfs \<Rightarrow> 'u dfs \<Rightarrow> bool" where
  "keeps_fd s s' \<longleftrightarrow> quiet s' \<and> fd_used s' = fd_used s"

lemma same_keeps: "quiet s \<Longrightarrow> same_fds s s' \<Longrightarrow> keeps_fd s s'"
  by (simp add: keeps_fd_def quiet_same used_same)

lemma mkdir_keeps:
  assumes q: "quiet s" and k: "keeps_fds (env_call env)" and c: "\<forall>p. env_calloc env = Some p \<longrightarrow> Some p \<notin> set (fdt_fds s)"
    and o: "posix_mkdir env path s = Some (r, s')"
  shows "keeps_fd s s'"
proof -
  obtain fd s1 where n: "fd_new (env_grow env) (env_calloc env) s = Some (fd, s1)"
    using o by (auto simp: posix_mkdir_def bind_eq_Some_conv)
  obtain d s2 where g: "fd_get (env_console env) fd s1 = (d, s2)" by (cases "fd_get (env_console env) fd s1")
  show ?thesis
  proof (cases "fd < 0")
    case True
    then have "s' = set_errno (- 6) s1"
      using o n new_failed(1)[OF q n c True] by (simp add: posix_mkdir_def del: set_errno_def)
    then show ?thesis using new_failed[OF q n c True] by (simp add: keeps_fd_def del: set_errno_def)
  next
    case False
    let ?open = "dfs_file_open (env_call env) (env_mem env) (env_dup env) d path (O_DIRECTORY OR O_CREAT) s2"
    obtain x s3 where f: "?open = Some (x, s3)"
      using o n g False by (cases ?open) (auto simp: posix_mkdir_def)
    obtain p where p: "d = Some p"
      "\<And>s4. same_fds s3 s4 \<Longrightarrow> quiet (fd_put p (fd_put p s4)) \<and> fd_used (fd_put p (fd_put p s4)) = fd_used s"
      using new_open[OF q k c n False g f] by metis
    show ?thesis
    proof (cases "x < 0")
      case True
      then have "s' = set_errno x (fd_put p (fd_put p s3))"
        using o n g False f p(1) by (simp add: posix_mkdir_def fd_drop_def del: set_errno_def)
      then show ?thesis using p(2)[OF same_fds_refl] by (simp add: keeps_fd_def del: set_errno_def)
    next
      case pos: False
      then obtain y s4 where l: "dfs_file_close (env_call env) (Some p) s3 = Some (y, s4)"
        using o n g False f p(1) by (cases "dfs_file_close (env_call env) (Some p) s3") (auto simp: posix_mkdir_def)
      then have "same_fds s3 s4" using close_keeps[OF k] by (auto simp: returns_def)
      moreover have "s' = fd_put p (fd_put p s4)"
        using o n g False f p(1) pos l by (simp add: posix_mkdir_def fd_drop_def)
      ultimately show ?thesis using p(2)[of s4] by (simp add: keeps_fd_def)
    qed
  qed
qed

text \<open>
  The other calls put the descriptor back on every way out: the state they leave has the same descriptors, with the same
  counts.
\<close>

lemma bracket_keeps:
  assumes "quiet s" "\<And>p s1. fd_get console fd s = (Some p, s1) \<Longrightarrow> returns (same_fds s) (f p s1)"
    "\<And>s1. same_fds s s1 \<Longrightarrow> returns (same_fds s) (g s1)"
  shows "returns (same_fds s) (let (d, s1) = fd_get console fd s in case d of None \<Rightarrow> g s1 | Some p \<Rightarrow> f p s1)"
proof -
  obtain d s1 where g: "fd_get console fd s = (d, s1)" by (cases "fd_get console fd s")
  then show ?thesis using get_none[OF assms(1), of console fd s1] assms(2,3) by (cases d) simp_all
qed

text \<open>The descriptor is put back after a call that keeps the table.\<close>

lemma put_call:
  assumes "quiet s" "fd_get console fd s = (Some p, s1)" "returns (same_fds s1) x" "x = Some (r, s2)"
  shows "same_fds s (fd_put p s2)"
  using get_put[OF assms(1,2)] assms(3,4) by (simp add: returns_def)

lemma with_fd_keeps:
  assumes "quiet s" "\<And>p s1. returns (same_fds s1) (f p s1)"
  shows "returns (same_fds s) (with_fd env fd f s)"
  unfolding with_fd_def
proof (rule bracket_keeps[OF assms(1)])
  fix p s1 assume g: "fd_get (env_console env) fd s = (Some p, s1)"
  note l = put_call[OF assms(1) g assms(2)]
  show "returns (same_fds s) (do { (result, s) \<leftarrow> f p s1; let s = fd_put p s;
      if result < 0 then Some (- 1, set_errno result s) else Some (result, s) })"
    by (intro returns_intros) (simp_all add: l Let_def del: set_errno_def)
qed (simp del: set_errno_def)

lemma read_call_keeps: "quiet s \<Longrightarrow> keeps_fds (env_call env) \<Longrightarrow> returns (same_fds s) (posix_read env fd len s)"
  unfolding posix_read_def by (rule with_fd_keeps[OF _ read_keeps])

lemma write_call_keeps: "quiet s \<Longrightarrow> keeps_fds (env_call env) \<Longrightarrow> returns (same_fds s) (posix_write env fd len s)"
  unfolding posix_write_def by (rule with_fd_keeps[OF _ write_keeps])

lemma lseek_call_keeps:
  assumes "quiet s" "keeps_fds (env_call env)"
  shows "returns (same_fds s) (posix_lseek env fd offset whence s)"
  unfolding posix_lseek_def
proof (rule bracket_keeps[OF assms(1)])
  fix p s1 assume g: "fd_get (env_console env) fd s = (Some p, s1)"
  note l = put_call[OF assms(1) g lseek_keeps[OF assms(2)]] get_put[OF assms(1) g same_fds_refl]
  show "returns (same_fds s) (do { to \<leftarrow> seek_from offset whence (fd_of s1 p);
      case to of None \<Rightarrow> Some (- 1, set_errno (- EINVAL) (fd_put p s1))
      | Some offset \<Rightarrow> if offset < 0 then Some (- 1, set_errno (- EINVAL) (fd_put p s1))
          else do { (result, s) \<leftarrow> dfs_file_lseek (env_call env) (Some p) offset s1; let s = fd_put p s;
                    if result < 0 then Some (- 1, set_errno result s) else Some (offset, s) } })"
    by (intro returns_intros) (simp_all add: l Let_def del: set_errno_def)
qed (simp del: set_errno_def)

lemma fsync_call_keeps:
  assumes "quiet s" "keeps_fds (env_call env)"
  shows "returns (same_fds s) (posix_fsync env fd s)"
  unfolding posix_fsync_def
proof (rule bracket_keeps[OF assms(1)])
  fix p s1 assume g: "fd_get (env_console env) fd s = (Some p, s1)"
  note l = put_call[OF assms(1) g flush_keeps[OF assms(2)]]
  show "returns (same_fds s) (do { (result, s) \<leftarrow> dfs_file_flush (env_call env) (Some p) s1; Some (result, fd_put p s) })"
    by (intro returns_intros) (simp_all add: l)
qed (simp del: set_errno_def)

lemma fcntl_call_keeps:
  assumes "quiet s" "keeps_fds (env_call env)"
  shows "returns (same_fds s) (posix_fcntl env fd cmd arg s)"
proof -
  obtain d s1 where g: "fd_get (env_console env) fd s = (d, s1)" by (cases "fd_get (env_console env) fd s")
  show ?thesis
  proof (cases d)
    case None
    then show ?thesis using get_none_same[OF assms(1) g[unfolded None]] g by (simp add: posix_fcntl_def del: set_errno_def)
  next
    case (Some p)
    note l = put_call[OF assms(1) g[unfolded Some] ioctl_keeps[OF assms(2)]]
    show ?thesis unfolding posix_fcntl_def g Some Let_def prod.case option.case
      by (intro returns_intros) (auto simp: l bind_eq_Some_conv simp del: set_errno_def)
  qed
qed

lemma getdents_call_keeps:
  assumes "quiet s" "keeps_fds (env_call env)" "posix_readdir env dents d s = Some (r, d', s')"
  shows "same_fds s s'"
proof -
  obtain f s1 where g: "fd_get (env_console env) (dir_fd d) s = (f, s1)" by (cases "fd_get (env_console env) (dir_fd d) s")
  show ?thesis
  proof (cases f)
    case None
    then show ?thesis using get_none_same[OF assms(1) g[unfolded None]] g assms(3)
      by (auto simp: posix_readdir_def simp del: set_errno_def)
  next
    case (Some p)
    note l = put_call[OF assms(1) g[unfolded Some] getdents_keeps[OF assms(2)]] get_put[OF assms(1) g[unfolded Some] same_fds_refl]
    have "returns (\<lambda>(_, s'). same_fds s s') (posix_readdir env dents d s)"
      unfolding posix_readdir_def g Some Let_def prod.case option.case
      by (intro returns_intros) (auto simp: l simp del: set_errno_def)
    then show ?thesis using assms(3) by (simp add: returns_def)
  qed
qed

lemma seekdir_call_keeps:
  assumes "quiet s" "keeps_fds (env_call env)"
  shows "returns (same_fds s) (posix_seekdir env d offset s)" "returns (same_fds s) (posix_rewinddir env d s)"
proof -
  note l = put_call[OF assms(1) _ lseek_keeps[OF assms(2)]]
  show "returns (same_fds s) (posix_seekdir env d offset s)" unfolding posix_seekdir_def
    by (rule bracket_keeps[OF assms(1)], (intro returns_intros, simp add: l)+) (simp del: set_errno_def)
  show "returns (same_fds s) (posix_rewinddir env d s)" unfolding posix_rewinddir_def
    by (rule bracket_keeps[OF assms(1)], (intro returns_intros, simp add: l)+) (simp del: set_errno_def)
qed

lemma telldir_keeps: "quiet s \<Longrightarrow> same_fds s (snd (posix_telldir env d s))"
  using get_put[of s "env_console env" "dir_fd d" _ _ _, OF _ _ same_fds_refl] get_none[of s "env_console env" "dir_fd d"]
  by (auto simp: posix_telldir_def Let_def simp del: set_errno_def split: prod.splits option.splits)

lemma fstat_keeps: "quiet s \<Longrightarrow> same_fds s (snd (snd (posix_fstat env fd s)))"
  using get_put[of s "env_console env" fd _ _ _, OF _ _ same_fds_refl] get_none[of s "env_console env" fd]
  by (auto simp: posix_fstat_def Let_def simp del: set_errno_def split: prod.splits option.splits)

text \<open>\<open>close\<close> gives the entry back when the file system agrees, \<open>closedir\<close> in any case.\<close>

lemma close_gives:
  assumes q: "quiet s" and k: "keeps_fds (env_call env)" and o: "posix_close env fd s = Some (r, s')"
  shows "quiet s' \<and> fd_used s' = (if r < 0 then fd_used s else fd_used s - {fd_name (env_console env) fd})"
proof -
  obtain d s1 where g: "fd_get (env_console env) fd s = (d, s1)" by (cases "fd_get (env_console env) fd s")
  show ?thesis
  proof (cases d)
    case None
    then have "r = - 1" "s' = set_errno (- 16) s1" using g o by (simp_all add: posix_close_def del: set_errno_def)
    then show ?thesis using same_keeps[OF q get_none_same[OF q g[unfolded None]]] by (simp add: keeps_fd_def del: set_errno_def)
  next
    case (Some p)
    then obtain x s2 where x: "dfs_file_close (env_call env) (Some p) s1 = Some (x, s2)"
      using o g by (cases "dfs_file_close (env_call env) (Some p) s1") (auto simp: posix_close_def)
    then have l: "same_fds s1 s2" using close_keeps[OF k] by (simp add: returns_def)
    show ?thesis
    proof (cases "x < 0")
      case True
      then have "r = - 1" "s' = set_errno x (fd_put p s2)" using o g Some x by (simp_all add: posix_close_def del: set_errno_def)
      then show ?thesis using same_keeps[OF q get_put[OF q g[unfolded Some] l]] by (simp add: keeps_fd_def del: set_errno_def)
    next
      case False
      then have "r = 0" "s' = fd_put p (fd_put p s2)" using o g Some x by (simp_all add: posix_close_def)
      then show ?thesis using get_put_put[OF q g[unfolded Some] l] by simp
    qed
  qed
qed

lemma closedir_gives:
  assumes q: "quiet s" and k: "keeps_fds (env_call env)" and o: "posix_closedir env d s = Some (r, s')"
  shows "quiet s' \<and> fd_used s' = fd_used s - {fd_name (env_console env) (dir_fd d)}"
proof -
  obtain f s1 where g: "fd_get (env_console env) (dir_fd d) s = (f, s1)" by (cases "fd_get (env_console env) (dir_fd d) s")
  show ?thesis
  proof (cases f)
    case None
    have s: "s' = set_errno (- 16) s1" using None g o by (simp add: posix_closedir_def del: set_errno_def)
    have n: "s1 = s" "fd_name (env_console env) (dir_fd d) \<notin> fd_used s" using get_none[OF q g[unfolded None]] by blast+
    show ?thesis unfolding s n(1) quiet_errno Diff_insert0[OF n(2)] Diff_empty using q by blast
  next
    case (Some p)
    then obtain x s2 where x: "dfs_file_close (env_call env) (Some p) s1 = Some (x, s2)"
      using o g by (cases "dfs_file_close (env_call env) (Some p) s1") (auto simp: posix_closedir_def)
    then have l: "same_fds s1 s2" using close_keeps[OF k] by (simp add: returns_def)
    have "s' = fd_put p (fd_put p s2) \<or> s' = set_errno x (fd_put p (fd_put p s2))"
      using o g Some x by (cases "x < 0") (simp_all add: posix_closedir_def del: set_errno_def)
    then show ?thesis
      by (elim disjE; use get_put_put[OF q g[unfolded Some] l] in \<open>simp only: quiet_errno simp_thms\<close>)
  qed
qed

lemma chdir_call_keeps:
  assumes q: "quiet s" and k: "keeps_fds (env_call env)" and c: "\<forall>p. env_calloc env = Some p \<longrightarrow> Some p \<notin> set (fdt_fds s)"
  shows "returns (keeps_fd s) (posix_chdir env path s)"
proof -
  have e: "keeps_fd s (set_errno e s)" "keeps_fd s s" for e using q by (simp_all add: keeps_fd_def del: set_errno_def)
  have o: "keeps_fd s s1" if "posix_opendir env b s = Some (None, s1)" for b s1
    using opendir_takes[OF q k c that] by (simp add: takes_fd_def keeps_fd_def)
  have w: "keeps_fd s (s2\<lparr>working_directory := x\<rparr>)"
    if a: "posix_opendir env b s = Some (Some d, s1)" "posix_closedir env d s1 = Some (y, s2)" for b d s1 y s2 x
  proof -
    have "dir_fd d \<ge> 3" "dir_fd d \<notin> fd_used s" "fd_used s1 = insert (dir_fd d) (fd_used s)" "quiet s1"
      using opendir_takes[OF q k c a(1)] by (simp_all add: takes_fd_def)
    then have "quiet s2" "fd_used s2 = fd_used s" using closedir_gives[OF _ k a(2)] by (auto simp: fd_name_def)
    then show ?thesis by (simp add: keeps_fd_def quiet_def fd_used_def fd_ledger_def)
  qed
  show ?thesis unfolding posix_chdir_def
    by (intro returns_intros) (auto simp: e o w simp del: set_errno_def)
qed

subsection \<open>Sequences of calls\<close>

datatype posix_op =
    Op_open "u8 list" u32
  | Op_close int
  | Op_read int u32
  | Op_write int u32
  | Op_lseek int int int
  | Op_rename "u8 list" "u8 list"
  | Op_unlink "u8 list"
  | Op_rmdir "u8 list"
  | Op_stat "u8 list"
  | Op_access "u8 list"
  | Op_statfs "u8 list option"
  | Op_fstat int
  | Op_fsync int
  | Op_fcntl int int u32
  | Op_mkdir "u8 list"
  | Op_opendir "u8 list"
  | Op_readdir dir_stream
  | Op_telldir dir_stream
  | Op_seekdir dir_stream int
  | Op_rewinddir dir_stream
  | Op_closedir dir_stream
  | Op_chdir "u8 list option"

text \<open>The result of \<open>opendir\<close> is the descriptor of the stream.\<close>

fun posix_do :: "'u posix_env \<Rightarrow> ('u dfs \<Rightarrow> u8 list) \<Rightarrow> posix_op \<Rightarrow> 'u dfs \<Rightarrow> (int \<times> 'u dfs) option" where
  "posix_do env dents (Op_open path flags) s = posix_open env path flags s"
| "posix_do env dents (Op_close fd) s = posix_close env fd s"
| "posix_do env dents (Op_read fd n) s = posix_read env fd n s"
| "posix_do env dents (Op_write fd n) s = posix_write env fd n s"
| "posix_do env dents (Op_lseek fd offset whence) s = posix_lseek env fd offset whence s"
| "posix_do env dents (Op_rename old new) s = posix_rename env old new s"
| "posix_do env dents (Op_unlink path) s = posix_unlink env path s"
| "posix_do env dents (Op_rmdir path) s = posix_rmdir env path s"
| "posix_do env dents (Op_stat path) s = posix_stat env path s"
| "posix_do env dents (Op_access path) s = posix_access env path s"
| "posix_do env dents (Op_statfs path) s = posix_statfs env path s"
| "posix_do env dents (Op_fstat fd) s = (let (r, _, s) = posix_fstat env fd s in Some (r, s))"
| "posix_do env dents (Op_fsync fd) s = posix_fsync env fd s"
| "posix_do env dents (Op_fcntl fd cmd arg) s = posix_fcntl env fd cmd arg s"
| "posix_do env dents (Op_mkdir path) s = posix_mkdir env path s"
| "posix_do env dents (Op_opendir path) s =
     do { (d, s) \<leftarrow> posix_opendir env path s; Some (case d of None \<Rightarrow> - 1 | Some d \<Rightarrow> dir_fd d, s) }"
| "posix_do env dents (Op_readdir d) s = do { (_, _, s) \<leftarrow> posix_readdir env dents d s; Some (0, s) }"
| "posix_do env dents (Op_telldir d) s = Some (posix_telldir env d s)"
| "posix_do env dents (Op_seekdir d offset) s = do { (_, s) \<leftarrow> posix_seekdir env d offset s; Some (0, s) }"
| "posix_do env dents (Op_rewinddir d) s = do { (_, s) \<leftarrow> posix_rewinddir env d s; Some (0, s) }"
| "posix_do env dents (Op_closedir d) s = posix_closedir env d s"
| "posix_do env dents (Op_chdir path) s = posix_chdir env path s"

text \<open>The descriptors that are open, from the calls and their results alone.\<close>

fun posix_track :: "int \<Rightarrow> posix_op \<Rightarrow> int \<Rightarrow> int set \<Rightarrow> int set" where
  "posix_track console (Op_open path flags) r U = (if r < 0 then U else insert r U)"
| "posix_track console (Op_opendir path) r U = (if r < 0 then U else insert r U)"
| "posix_track console (Op_close fd) r U = (if r < 0 then U else U - {fd_name console fd})"
| "posix_track console (Op_closedir d) r U = U - {fd_name console (dir_fd d)}"
| "posix_track console op r U = U"

definition fresh_calloc :: "'u posix_env \<Rightarrow> 'u dfs \<Rightarrow> bool" where
  "fresh_calloc env s \<longleftrightarrow> (\<forall>p. env_calloc env = Some p \<longrightarrow> Some p \<notin> set (fdt_fds s))"

inductive posix_run :: "int set \<times> 'u dfs \<Rightarrow> int set \<times> 'u dfs \<Rightarrow> bool" where
  run_refl: "posix_run x x"
| run_step: "posix_run x (U, s) \<Longrightarrow> keeps_fds (env_call env) \<Longrightarrow> fresh_calloc env s \<Longrightarrow>
    posix_do env dents op s = Some (r, s') \<Longrightarrow> posix_run x (posix_track (env_console env) op r U, s')"

lemma path_calls_keep:
  assumes "keeps_fds (env_call env)"
  shows "returns (same_fds s) (posix_rename env old new s)" "returns (same_fds s) (posix_unlink env path s)"
    "returns (same_fds s) (posix_rmdir env path s)" "returns (same_fds s) (posix_stat env path s)"
    "returns (same_fds s) (posix_access env path s)" "returns (same_fds s) (posix_statfs env p s)"
  using rename_keeps[OF assms] unlink_keeps[OF assms] stat_keeps[OF assms] statfs_keeps[OF assms]
  by (fastforce simp: posix_rename_def posix_unlink_def posix_rmdir_def posix_stat_def posix_access_def posix_statfs_def
    posix_result_def returns_def bind_eq_Some_conv simp del: set_errno_def split: if_splits)+

lemma dir_calls_keep:
  assumes "quiet s" "keeps_fds (env_call env)"
  shows "returns (same_fds s) (posix_do env dents (Op_fstat fd) s)" "returns (same_fds s) (posix_do env dents (Op_telldir d) s)"
    "returns (same_fds s) (posix_do env dents (Op_readdir d) s)" "returns (same_fds s) (posix_do env dents (Op_seekdir d n) s)"
    "returns (same_fds s) (posix_do env dents (Op_rewinddir d) s)"
proof -
  show "returns (same_fds s) (posix_do env dents (Op_fstat fd) s)"
    using fstat_keeps[OF assms(1), of env fd] by (cases "posix_fstat env fd s") simp
  show "returns (same_fds s) (posix_do env dents (Op_telldir d) s)"
    using telldir_keeps[OF assms(1), of env d] by (cases "posix_telldir env d s") simp
  show "returns (same_fds s) (posix_do env dents (Op_readdir d) s)"
    using getdents_call_keeps[OF assms] by (auto simp: returns_def bind_eq_Some_conv)
  show "returns (same_fds s) (posix_do env dents (Op_seekdir d n) s)" "returns (same_fds s) (posix_do env dents (Op_rewinddir d) s)"
    using seekdir_call_keeps[OF assms] by (auto simp: returns_def bind_eq_Some_conv)
qed

lemma do_keeps:
  assumes q: "quiet s" and k: "keeps_fds (env_call env)" and c: "fresh_calloc env s"
    and o: "posix_do env dents op s = Some (r, s')"
  shows "quiet s' \<and> fd_used s' = posix_track (env_console env) op r (fd_used s)"
proof -
  note f = c[unfolded fresh_calloc_def]
  consider (taken) path flags where "op = Op_open path flags" | (dir) path where "op = Op_opendir path"
    | (closed) fd where "op = Op_close fd" | (dir_closed) d where "op = Op_closedir d"
    | (made) path where "op = Op_mkdir path" | (changed) path where "op = Op_chdir path"
    | (other) "returns (same_fds s) (posix_do env dents op s)" "\<And>r U. posix_track (env_console env) op r U = U"
    by (cases op) (simp_all add: read_call_keeps[OF q k] write_call_keeps[OF q k] lseek_call_keeps[OF q k] fsync_call_keeps[OF q k]
      fcntl_call_keeps[OF q k] path_calls_keep[OF k] dir_calls_keep[OF q k] del: posix_do.simps(12,17-20))
  then show ?thesis
  proof cases
    case taken
    then show ?thesis using open_takes[OF q k f] o by (auto simp: takes_fd_def)
  next
    case dir
    then obtain d where "posix_opendir env path s = Some (d, s')" "r = (case d of None \<Rightarrow> - 1 | Some d \<Rightarrow> dir_fd d)"
      using o by (auto simp: bind_eq_Some_conv)
    then show ?thesis using opendir_takes[OF q k f] dir by (auto simp: takes_fd_def)
  next
    case closed
    then show ?thesis using close_gives[OF q k, of fd r s'] o by simp
  next
    case dir_closed
    then show ?thesis using closedir_gives[OF q k, of d r s'] o by simp
  next
    case made
    then show ?thesis using mkdir_keeps[OF q k f] o by (simp add: keeps_fd_def)
  next
    case changed
    then show ?thesis using chdir_call_keeps[OF q k f, of path] o by (simp add: keeps_fd_def returns_def)
  next
    case other
    then have "same_fds s s'" using o by (simp add: returns_def)
    from same_keeps[OF q this] show ?thesis by (simp only: keeps_fd_def other(2))
  qed
qed

lemma run_keeps: "posix_run x y \<Longrightarrow> quiet (snd x) \<Longrightarrow> fst x = fd_used (snd x) \<Longrightarrow> quiet (snd y) \<and> fst y = fd_used (snd y)"
proof (induction rule: posix_run.induct)
  case (run_step x U s env dents op r s')
  then show ?case using do_keeps[of s env dents op r s'] by simp
qed simp

text \<open>C19. No function of POSIX loses or keeps a reference to a descriptor, on any way out. After any sequence of calls from an
  empty table the entries in use are those of the descriptors that \<open>open\<close> and \<open>opendir\<close> returned and that were not
  closed (by \<open>close\<close> with success, or by \<open>closedir\<close>), each has one reference, and a descriptor that \<open>open\<close> returns was
  not in use.\<close>

theorem posix_descriptors:
  assumes "posix_run ({}, s0) (U, s)" "fdt_fds s0 = []"
  shows "fd_used s = U \<and> length (fdt_fds s) \<le> DFS_FD_MAX \<and>
    (\<forall>p. Some p \<in> set (fdt_fds s) \<longrightarrow> fd_ref_count (fd_of s p) = 1) \<and>
    (\<forall>env path flags r s'. keeps_fds (env_call env) \<and> fresh_calloc env s \<and>
       posix_open env path flags s = Some (r, s') \<and> 0 \<le> r \<longrightarrow> r \<notin> U)"
proof -
  have z: "quiet s0" "fd_used s0 = {}" using assms(2) by (auto simp: quiet_def fd_ledger_def fd_used_def intro: exI[of _ "[]"])
  then have s: "quiet s" "fd_used s = U" using run_keeps[OF assms(1)] by simp_all
  have "fd_ref_count (fd_of s p) = 1" if p: "Some p \<in> set (fdt_fds s)" for p
  proof -
    obtain i where "i < length (fdt_fds s)" "fdt_fds s ! i = Some p" using p by (metis in_set_conv_nth)
    then show ?thesis using quiet_one[OF s(1), of "int i + 3" i p] by (simp add: fd_at_def)
  qed
  moreover have "r \<notin> U" if "keeps_fds (env_call env)" "fresh_calloc env s" "posix_open env path flags s = Some (r, s')" "0 \<le> r"
    for env :: "'a posix_env" and path flags r s'
    using open_takes[OF s(1) that(1) that(2)[unfolded fresh_calloc_def] that(3)] that(4) s(2) by (simp add: takes_fd_def)
  ultimately show ?thesis using s by (auto simp: quiet_def fd_ledger_def)
qed

definition ex_env :: "unit posix_env" where
  "ex_env = \<lparr>env_call = (\<lambda>c s. Some (0, s)), env_mem = True, env_dup = True, env_grow = True, env_calloc = Some 5, env_dir = True,
     env_console = - 1\<rparr>"

definition ex_opening :: "unit dfs" where
  "ex_opening = (ex_dfs [ex_fs [47, 98, 0]])\<lparr>fdt_fds := [Some 5, None, None, None],
     fd_of := (\<lambda>_. zero_fd)(5 := zero_fd\<lparr>fd_ref_count := 2, fd_magic := 0xfdfd\<rparr>)\<rparr>"

lemma ex_opening_facts:
  "mounts_ok ex_opening" "paths_ok ex_opening" "cstr (working_directory ex_opening) [47]"
  "fs_nearest ex_opening [[98], [121]] 0 [[98]]" "fs_ops (filesystem_table ex_opening ! 0) = Some 0"
  "ops_flags (ops_of ex_opening 0) AND 1 = 0" "ops_fops (ops_of ex_opening 0) = 0"
  "fop_open (fops_of ex_opening (ops_fops (ops_of ex_opening 0))) = Some 3"
proof -
  have t: "cstr [47, 98, 0] (path_text True [[98]])" by (simp add: cstr_def path_text_def)
  have e: "entry_ok (ex_fs [47, 98, 0])" using ex_fs_ok(1)[OF _ t] by simp
  have T: "filesystem_table ex_opening = [ex_fs [47, 98, 0]]" by (simp add: ex_opening_def ex_dfs_def)
  show "mounts_ok ex_opening" using e by (simp add: mounts_ok_def T)
  show "paths_ok ex_opening" by (auto simp: paths_ok_def ex_opening_def zero_fd_def)
  show "cstr (working_directory ex_opening) [47]" by (simp add: ex_opening_def ex_dfs_def cstr_def)
  have at: "entry_at (ex_fs [47, 98, 0]) m \<longleftrightarrow> m = [[98]]" for m
    using entry_unique[of "ex_fs [47, 98, 0]" m "[[98]]"] ex_fs_ok(2)[of "[[98]]"] t by auto
  have "fs_above ex_opening [[98], [121]] j m \<longleftrightarrow> j = 0 \<and> m = [[98]]" for j m
    unfolding fs_above_def above_def T by (auto simp: below_def at)
  then show "fs_nearest ex_opening [[98], [121]] 0 [[98]]" by (simp add: fs_nearest_def)
qed (simp_all add: ex_opening_def ex_dfs_def ex_fs_def ex_ops_def)

lemma ex_new:
  "fd_new True (Some 5) (ex_dfs [ex_fs [47, 98, 0]]) = Some (3, (ex_dfs [ex_fs [47, 98, 0]])\<lparr>fdt_fds := [Some 5, None, None, None],
      fd_of := (\<lambda>_. zero_fd)(5 := zero_fd\<lparr>fd_ref_count := 1, fd_magic := 0xfdfd\<rparr>)\<rparr>)"
  "fd_get (- 1) 3 ((ex_dfs [ex_fs [47, 98, 0]])\<lparr>fdt_fds := [Some 5, None, None, None],
      fd_of := (\<lambda>_. zero_fd)(5 := zero_fd\<lparr>fd_ref_count := 1, fd_magic := 0xfdfd\<rparr>)\<rparr>) = (Some 5, ex_opening)"
  by (simp add: fd_new_def fd_alloc_def ex_dfs_def numeral_eq_Suc)
    (simp add: fd_get_def ex_opening_def zero_fd_def)

lemma ex_open_run:
  "\<exists>s s'. posix_open ex_env [47, 98, 47, 121, 0] 0 (ex_dfs [ex_fs [47, 98, 0]]) = Some (3, s) \<and> posix_close ex_env 3 s = Some (0, s')"
proof -
  note f = ex_opening_facts
  have p: "cstr [47, 98, 47, 121, 0] [47, 98, 47, 121]" by (simp add: cstr_def)
  have o: "\<not> is_open ex_opening (ops_fops (ops_of ex_opening 0)) (check_text [[98]] [[98], [121]])"
    by (simp add: is_open_def ex_opening_def zero_fd_def)
  obtain sub where d: "dfs_file_open (\<lambda>c s. Some (0, s)) True True (Some 5) [47, 98, 47, 121, 0] 0 ex_opening =
      Some (0, upd_fd 5 (\<lambda>d. d\<lparr>fd_flags := fd_flags d OR DFS_F_OPEN\<rparr>) (fill_fd 5 0 0 0 sub ex_opening))"
    using file_open_ok[OF f(1-3) p _ _ f(4-6,8), of "\<lambda>c s. Some (0, s)" 5 0] o f(7) by (auto simp del: upd_fd_def)
  let ?s = "fd_put 5 (upd_fd 5 (\<lambda>d. d\<lparr>fd_flags := fd_flags d OR DFS_F_OPEN\<rparr>) (fill_fd 5 0 0 0 sub ex_opening))"
  have "posix_open ex_env [47, 98, 47, 121, 0] 0 (ex_dfs [ex_fs [47, 98, 0]]) = Some (3, ?s)"
    using ex_new d by (simp add: posix_open_def ex_env_def fd_drop_def del: upd_fd_def)
  moreover have "\<exists>s'. posix_close ex_env 3 ?s = Some (0, s')"
    by (simp add: posix_close_def ex_env_def fd_get_def fd_put_def fill_fd_def ex_opening_def dfs_file_close_def file_ops_def ex_dfs_def)
  ultimately show ?thesis by blast
qed

theorem posix_descriptors_witness:
  "\<exists>s s'. posix_open ex_env [47, 98, 47, 121, 0] 0 (ex_dfs [ex_fs [47, 98, 0]]) = Some (3, s) \<and> fd_used s = {3} \<and>
     posix_close ex_env 3 s = Some (0, s') \<and> fd_used s' = {}"
proof -
  let ?s0 = "ex_dfs [ex_fs [47, 98, 0]]"
  obtain s s' where o: "posix_open ex_env [47, 98, 47, 121, 0] 0 ?s0 = Some (3, s)" "posix_close ex_env 3 s = Some (0, s')"
    using ex_open_run by blast
  have k: "keeps_fds (env_call ex_env)" by (simp add: keeps_fds_def ex_env_def)
  have e: "fdt_fds ?s0 = []" "fresh_calloc ex_env ?s0" by (simp_all add: ex_dfs_def fresh_calloc_def)
  have r1: "posix_run ({}, ?s0) ({3}, s)"
    using run_step[OF run_refl k e(2), of undefined "Op_open [47, 98, 47, 121, 0] 0"] o(1) by simp
  have e2: "env_call (ex_env\<lparr>env_calloc := None\<rparr>) = env_call ex_env" "env_console (ex_env\<lparr>env_calloc := None\<rparr>) = env_console ex_env"
    by simp_all
  have c: "posix_do (ex_env\<lparr>env_calloc := None\<rparr>) undefined (Op_close 3) s = Some (0, s')"
    using o(2) unfolding posix_do.simps posix_close_def e2 .
  have r2: "posix_run ({}, ?s0) ({}, s')"
    using run_step[OF r1 _ _ c] k by (simp add: fresh_calloc_def ex_env_def fd_name_def)
  show ?thesis using posix_descriptors[OF r1 e(1)] posix_descriptors[OF r2 e(1)] o by blast
qed

end
