(* ===== verification/Dfs_Dir.thy ===== *)
theory Dfs_Dir
  imports Dfs_Refs
begin

text \<open>
  Directories: \<open>readdir\<close> gives the entries of the buffer one after the other and asks the file system again at the end of
  them, and \<open>chdir\<close> sets the directory that relative paths start from.
\<close>

subsection \<open>The entries of a directory\<close>

text \<open>A buffer with entries of the lengths \<open>ls\<close>.\<close>

definition dents_ok :: "u8 list \<Rightarrow> int list \<Rightarrow> bool" where
  "dents_ok buf ls \<longleftrightarrow> (\<forall>k < length ls. 0 < ls ! k \<and> dirent_reclen buf (sum_list (take k ls)) = Some (ls ! k))"

fun readdir_times ::
  "nat \<Rightarrow> 'u posix_env \<Rightarrow> ('u dfs \<Rightarrow> u8 list) \<Rightarrow> dir_stream \<Rightarrow> 'u dfs \<Rightarrow> (int option list \<times> dir_stream \<times> 'u dfs) option" where
  "readdir_times 0 env dents d s = Some ([], d, s)"
| "readdir_times (Suc n) env dents d s =
     do { (r, d, s) \<leftarrow> posix_readdir env dents d s;
          (rs, d, s) \<leftarrow> readdir_times n env dents d s;
          Some (r # rs, d, s) }"

lemma get_put_id:
  assumes "fd_at s (fd_name console fd) i p" "fd_magic (fd_of s p) = DFS_FD_MAGIC" "0 < fd_ref_count (fd_of s p)"
  shows "\<exists>s1. fd_get console fd s = (Some p, s1) \<and> fd_put p s1 = s \<and> dfs_user s1 = dfs_user s"
proof -
  let ?s = "upd_fd p (\<lambda>d. d\<lparr>fd_ref_count := fd_ref_count d + 1\<rparr>) s"
  have "fd_get console fd s = (Some p, ?s)"
    using assms(1,2) unfolding fd_get_def fd_at_def fd_name_def Let_def by (auto simp del: upd_fd_def)
  moreover have "fd_put p ?s = s" using assms(3) by (simp add: fd_put_def)
  ultimately show ?thesis by auto
qed

lemma sum_take_less: "\<forall>x \<in> set ls. 0 < x \<Longrightarrow> k < length ls \<Longrightarrow> sum_list (take k ls) < sum_list (ls :: int list)"
proof (induction ls arbitrary: k)
  case (Cons x ls)
  have "0 \<le> sum_list ls" using Cons.prems(1) by (intro sum_list_nonneg) auto
  then show ?case using Cons by (cases k) (auto simp: add_strict_increasing)
qed simp

text \<open>The calls after the first one, at entry \<open>k\<close>: the state does not change.\<close>

lemma readdir_next:
  assumes b: "dents_ok (b (dfs_user s)) ls" and k: "Suc k < length ls"
    and at: "fd_at s (fd_name (env_console env) fd) i p" "fd_magic (fd_of s p) = DFS_FD_MAGIC" "0 < fd_ref_count (fd_of s p)"
  shows "posix_readdir env (\<lambda>s. b (dfs_user s)) \<lparr>dir_fd = fd, dir_num = sum_list ls, dir_cur = sum_list (take k ls)\<rparr> s =
    Some (Some (sum_list (take (Suc k) ls)), \<lparr>dir_fd = fd, dir_num = sum_list ls, dir_cur = sum_list (take (Suc k) ls)\<rparr>, s)"
proof -
  obtain s1 where s1: "fd_get (env_console env) fd s = (Some p, s1)" "fd_put p s1 = s" "dfs_user s1 = dfs_user s"
    using get_put_id[OF at] by blast
  have pos: "\<forall>x \<in> set ls. 0 < x" using b by (auto simp: dents_ok_def in_set_conv_nth)
  have r: "dirent_reclen (b (dfs_user s)) (sum_list (take k ls)) = Some (ls ! k)" using b k by (simp add: dents_ok_def)
  have n: "sum_list (take k ls) + ls ! k = sum_list (take (Suc k) ls)" using k by (simp add: take_Suc_conv_app_nth)
  have "0 < length ls" using k by linarith
  then have "sum_list ls \<noteq> 0" "sum_list (take (Suc k) ls) < sum_list ls"
    using sum_take_less[OF pos k] sum_take_less[OF pos, of 0] by simp_all
  then show ?thesis using s1 r n by (simp add: posix_readdir_def Let_def del: take_Suc_conv_app_nth)
qed

lemma readdir_rest:
  assumes b: "dents_ok (b (dfs_user s)) ls"
    and at: "fd_at s (fd_name (env_console env) fd) i p" "fd_magic (fd_of s p) = DFS_FD_MAGIC" "0 < fd_ref_count (fd_of s p)"
  shows "k + n < length ls \<Longrightarrow>
    readdir_times n env (\<lambda>s. b (dfs_user s)) \<lparr>dir_fd = fd, dir_num = sum_list ls, dir_cur = sum_list (take k ls)\<rparr> s =
      Some (map (\<lambda>j. Some (sum_list (take j ls))) [Suc k..<Suc k + n],
        \<lparr>dir_fd = fd, dir_num = sum_list ls, dir_cur = sum_list (take (k + n) ls)\<rparr>, s)"
proof (induction n arbitrary: k)
  case (Suc n)
  then have k: "Suc k < length ls" by simp
  show ?case using Suc.IH[of "Suc k"] Suc.prems readdir_next[where b = b, OF b k at] by (simp add: upt_conv_Cons del: upt_Suc)
qed simp

lemma readdir_end:
  assumes n: "fd_get (env_console env) fd s = (Some p, s3)" "dfs_file_getdents (env_call env) (Some p) 511 s3 = Some (m, s4)"
    and b: "dents_ok (b (dfs_user s3)) ls" "ls \<noteq> []"
  shows "\<exists>d' s''. posix_readdir env (\<lambda>s. b (dfs_user s))
    \<lparr>dir_fd = fd, dir_num = sum_list ls, dir_cur = sum_list (take (length ls - 1) ls)\<rparr> s = Some (if 0 < m then Some 0 else None, d', s'')"
proof -
  let ?n = "length ls - 1"
  have pos: "\<forall>x \<in> set ls. 0 < x" using b(1) by (auto simp: dents_ok_def in_set_conv_nth)
  have len: "length ls = Suc ?n" "?n < length ls" using b(2) by simp_all
  have "sum_list (butlast ls @ [last ls]) = sum_list ls" using append_butlast_last_id[OF b(2)] by simp
  then have l: "dirent_reclen (b (dfs_user s3)) (sum_list (take ?n ls)) = Some (ls ! ?n)" "sum_list (take ?n ls) + ls ! ?n = sum_list ls"
    using b len by (auto simp: dents_ok_def butlast_conv_take last_conv_nth)
  have "0 < length ls" using b(2) by simp
  then have "0 < sum_list ls" using sum_take_less[OF pos, of 0] by simp
  then show ?thesis using n l by (simp add: posix_readdir_def Let_def del: set_errno_def)
qed

text \<open>C20. \<open>readdir\<close> lists the entries that the file system puts into the buffer: on a stream that is empty, with as many calls
  as there are entries, it returns each of them, in the order of the buffer, and asks the file system once. The
  descriptors are unchanged. The call after the last entry asks the file system again and returns \<open>NULL\<close> when there is no
  more.\<close>

theorem readdir_entries:
  assumes q: "quiet s" and k: "keeps_fds (env_call env)" and g: "fd_get (env_console env) fd s = (Some p, s1)"
    and c: "dfs_file_getdents (env_call env) (Some p) 511 s1 = Some (sum_list ls, s2)" "ls \<noteq> []" "dents_ok (b (dfs_user s2)) ls"
  shows "\<exists>d s'. readdir_times (length ls) env (\<lambda>s. b (dfs_user s)) \<lparr>dir_fd = fd, dir_num = 0, dir_cur = 0\<rparr> s =
      Some (map (\<lambda>j. Some (sum_list (take j ls))) [0..<length ls], d, s') \<and> same_fds s s' \<and> dfs_user s' = dfs_user s2 \<and>
    (\<forall>m s3 s4. fd_get (env_console env) fd s' = (Some p, s3) \<and> dfs_file_getdents (env_call env) (Some p) 511 s3 = Some (m, s4) \<longrightarrow>
      (\<exists>d' s''. posix_readdir env (\<lambda>s. b (dfs_user s)) d s' = Some (if 0 < m then Some 0 else None, d', s'')))"
proof -
  let ?s = "fd_put p s2" and ?n = "length ls - 1"
  have pos: "\<forall>x \<in> set ls. 0 < x" using c(3) by (auto simp: dents_ok_def in_set_conv_nth)
  have "0 < length ls" using c(2) by simp
  then have sum: "0 < sum_list ls" using sum_take_less[OF pos, of 0] by simp
  have len: "length ls = Suc ?n" "?n < length ls" using c(2) by simp_all
  have same: "same_fds s ?s" by (rule put_call[OF q g getdents_keeps[OF k] c(1)])
  obtain i where "fd_at s (fd_name (env_console env) fd) i p" using get_cases[OF q g] by auto
  then have at: "fd_at ?s (fd_name (env_console env) fd) i p" using same by (simp add: fd_at_def same_fds_def)
  have qs: "quiet ?s" using quiet_same[OF same] q by simp
  then have m: "fd_magic (fd_of ?s p) = 0xfdfd" "0 < fd_ref_count (fd_of ?s p)"
    using at nth_mem[of i "fdt_fds ?s"] quiet_one[OF qs at] by (auto simp: quiet_def fd_ledger_def fd_at_def)
  have u: "dfs_user ?s = dfs_user s2" by (simp add: fd_put_def Let_def)
  have first: "posix_readdir env (\<lambda>s. b (dfs_user s)) \<lparr>dir_fd = fd, dir_num = 0, dir_cur = 0\<rparr> s =
      Some (Some 0, \<lparr>dir_fd = fd, dir_num = sum_list ls, dir_cur = sum_list (take 0 ls)\<rparr>, ?s)"
    using g c(1) sum by (simp add: posix_readdir_def Let_def)
  have rest: "readdir_times ?n env (\<lambda>s. b (dfs_user s)) \<lparr>dir_fd = fd, dir_num = sum_list ls, dir_cur = sum_list (take 0 ls)\<rparr> ?s =
      Some (map (\<lambda>j. Some (sum_list (take j ls))) [Suc 0..<Suc 0 + ?n], \<lparr>dir_fd = fd, dir_num = sum_list ls, dir_cur = sum_list (take (0 + ?n) ls)\<rparr>, ?s)"
    by (rule readdir_rest[where b = b, OF _ at m]) (use c(3) u len in simp_all)
  let ?d = "\<lparr>dir_fd = fd, dir_num = sum_list ls, dir_cur = sum_list (take ?n ls)\<rparr>"
  have "[0..<length ls] = 0 # [Suc 0..<Suc 0 + ?n]"
    using upt_conv_Cons[OF \<open>0 < length ls\<close>] len by simp
  then have times: "readdir_times (length ls) env (\<lambda>s. b (dfs_user s)) \<lparr>dir_fd = fd, dir_num = 0, dir_cur = 0\<rparr> s =
      Some (map (\<lambda>j. Some (sum_list (take j ls))) [0..<length ls], ?d, ?s)"
    using first rest by (subst len(1)) simp
  have "\<exists>d' s''. posix_readdir env (\<lambda>s. b (dfs_user s)) ?d ?s = Some (if 0 < m then Some 0 else None, d', s'')"
    if n: "fd_get (env_console env) fd ?s = (Some p, s3)" "dfs_file_getdents (env_call env) (Some p) 511 s3 = Some (m, s4)" for m s3 s4
  proof -
    have "dfs_user s3 = dfs_user s2" using get_cases[OF qs n(1)] u by auto
    then show ?thesis using readdir_end[where b = b, OF n] c(2,3) by simp
  qed
  then show ?thesis using times same u by blast
qed

definition ex_dirs :: "u8 list dfs" where
  "ex_dirs = \<lparr>fdt_fds = [Some 5], fd_of = (\<lambda>_. zero_fd\<lparr>fd_ref_count := 1, fd_magic := 0xfdfd, fd_type := FT_DIRECTORY, fd_fops := Some 0\<rparr>),
     filesystem_operation_table = [], ops_of = (\<lambda>_. ex_ops),
     fops_of = (\<lambda>_. \<lparr>fop_open = None, fop_close = None, fop_ioctl = None, fop_read = None, fop_write = None, fop_flush = None,
       fop_lseek = None, fop_getdents = Some 1, fop_poll = None\<rparr>), filesystem_table = [], working_directory = [47, 0],
     dfs_errno = 0, dfs_user = []\<rparr>"

definition ex_dir_env :: "u8 list posix_env" where
  "ex_dir_env = \<lparr>env_call = (\<lambda>c s. Some (10, s\<lparr>dfs_user := [0, 0, 4, 0, 0, 0, 6, 0, 0, 0]\<rparr>)), env_mem = True, env_dup = True,
     env_grow = True, env_calloc = None, env_dir = True, env_console = - 1\<rparr>"

theorem readdir_entries_witness:
  "\<exists>d s'. readdir_times 2 ex_dir_env dfs_user \<lparr>dir_fd = 3, dir_num = 0, dir_cur = 0\<rparr> ex_dirs = Some ([Some 0, Some 4], d, s')"
proof -
  let ?s1 = "upd_fd 5 (\<lambda>d. d\<lparr>fd_ref_count := fd_ref_count d + 1\<rparr>) ex_dirs"
  have q: "quiet ex_dirs" by (auto simp: quiet_def fd_ledger_def ex_dirs_def intro: exI[of _ "[5]"])
  have k: "keeps_fds (env_call ex_dir_env)" by (auto simp: keeps_fds_def ex_dir_env_def same_fds_def)
  have g: "fd_get (env_console ex_dir_env) 3 ex_dirs = (Some 5, ?s1)" by (simp add: fd_get_def ex_dir_env_def ex_dirs_def)
  have c: "dfs_file_getdents (env_call ex_dir_env) (Some 5) 511 ?s1 =
      Some (sum_list [4, 6], ?s1\<lparr>dfs_user := [0, 0, 4, 0, 0, 0, 6, 0, 0, 0]\<rparr>)"
    by (simp add: dfs_file_getdents_def file_ops_def ex_dir_env_def ex_dirs_def)
  have b: "dents_ok (dfs_user (?s1\<lparr>dfs_user := [0, 0, 4, 0, 0, 0, 6, 0, 0, 0]\<rparr>)) [4, 6]"
    by (auto simp: dents_ok_def dirent_reclen_def buf_get_def less_Suc_eq)
  from readdir_entries[where b = "\<lambda>x. x", OF q k g c _ b] show ?thesis by (auto simp: numeral_2_eq_2)
qed

subsection \<open>The working directory\<close>

lemma chdir_path:
  assumes w: "cstr (working_directory s) w" and p: "cstr path f"
    and walk: "path_walk (hd (path_full w f) = SLASH) [] (path_split (path_full w f)) = Some (r, cs)"
    and c: "posix_chdir env (Some path) s = Some (0, s')"
  shows "\<exists>b. cstr b (path_text r cs) \<and> names_ok cs \<and>
    working_directory s' = take 256 (path_text r cs) @ replicate (256 - length (path_text r cs)) 0"
proof -
  have m: "env_mem env"
  proof (rule ccontr)
    assume "\<not> env_mem env"
    then show False using c by (auto simp: posix_chdir_def dfs_normalize_path_def Let_def bind_eq_Some_conv split: if_splits)
  qed
  obtain fullpath where full: "dfs_normalize_path True (working_directory s) None path = Some (Some fullpath)"
    and w': "\<exists>w. rt_strncpy fullpath 256 = Some w \<and> working_directory s' = w"
    using c m by (auto simp: posix_chdir_def bind_eq_Some_conv split: if_splits option.splits)
  have b: "cstr fullpath (path_text r cs)"
    using normalize_walk[OF w p, where directory = None and d = w] walk full by (auto split: if_splits)
  have "0 \<notin> set (path_full w f)" using w p by (auto simp: path_full_def cstr_def)
  then have "names_ok cs" using path_walk_normal[OF _ _ walk] path_split_chars[of "path_full w f"] by auto
  then show ?thesis using b w' rt_strncpy_cstr[OF b, of 256] by auto
qed

lemma strlen_unterminated: "0 \<notin> set s \<Longrightarrow> rt_strlen s = None"
  by (induction s) auto

lemma walk_below:
  assumes "names_ok cs"
  shows "path_walk True [] (path_split (path_text True cs @ SLASH # q)) = path_walk True cs (path_split q)"
  using path_split_end[of "path_text True cs" q] path_split_text[OF assms] path_walk_append[OF assms, of True "[]"]
  by (cases "cs = []") simp_all

text \<open>\<open>chdir\<close> to a directory that does not lie above the root sets the working directory to its normal path, and relative
  paths are then resolved from there, when that path has fewer than \<open>DFS_PATH_MAX\<close> characters. A longer path is accepted
  as well: the first 256 of its characters fill the array without the final zero, and every relative path that is used
  afterwards is read past its end.\<close>

theorem chdir_outcomes:
  assumes w: "cstr (working_directory s) w" and p: "cstr path f"
    and walk: "path_walk (hd (path_full w f) = SLASH) [] (path_split (path_full w f)) = Some (True, cs)"
    and c: "posix_chdir env (Some path) s = Some (0, s')"
  shows "if length (path_text True cs) < DFS_PATH_MAX
    then cstr (working_directory s') (path_text True cs) \<and>
      (\<forall>file q ds. cstr file q \<and> hd (q @ [0]) \<noteq> SLASH \<and> path_walk True cs (path_split q) = Some (True, ds) \<longrightarrow>
         (\<exists>b. dfs_normalize_path True (working_directory s') None file = Some (Some b) \<and> cstr b (path_text True ds)))
    else 0 \<notin> set (working_directory s') \<and> length (working_directory s') = DFS_PATH_MAX \<and>
      (\<forall>mem file q. cstr file q \<and> hd (q @ [0]) \<noteq> SLASH \<longrightarrow> dfs_normalize_path mem (working_directory s') None file = None)"
proof -
  let ?t = "path_text True cs"
  obtain b where n: "cstr b ?t" "names_ok cs" "working_directory s' = take 256 ?t @ replicate (256 - length ?t) 0"
    using chdir_path[OF w p walk c] by blast
  have z: "0 \<notin> set ?t" using n(1) by (simp add: cstr_def)
  show ?thesis
  proof (cases "length ?t < 256")
    case True
    then obtain k where "256 - length ?t = Suc k" by (cases "256 - length ?t") simp_all
    then have wd: "cstr (working_directory s') ?t" using n(3) True z by (simp add: cstr_def)
    have "\<exists>b. dfs_normalize_path True (working_directory s') None x = Some (Some b) \<and> cstr b (path_text True ds)"
      if q: "cstr x q" "hd (q @ [0]) \<noteq> SLASH" "path_walk True cs (path_split q) = Some (True, ds)" for x q ds
    proof -
      have "path_full ?t q = ?t @ SLASH # q" "hd (?t @ SLASH # q) = SLASH"
        using q(2) by (auto simp: path_full_def path_text_def split: list.splits)
      then show ?thesis using normalize_walk[OF wd q(1), where directory = None and d = ?t] walk_below[OF n(2), of q] q(3) by simp
    qed
    then show ?thesis using True wd by auto
  next
    case False
    then have wd: "0 \<notin> set (working_directory s')" "length (working_directory s') = 256" using n(3) z by (auto dest: in_set_takeD)
    have "dfs_normalize_path mem (working_directory s') None x = None" if "cstr x q" "hd (q @ [0]) \<noteq> SLASH" for mem x q
    proof -
      have "buf_get x 0 = Some (hd (q @ [0]))" using that(1) by (cases q) (auto simp: cstr_def buf_get_def)
      then show ?thesis using that(2) strlen_unterminated[OF wd(1)] by (simp add: dfs_normalize_path_def)
    qed
    then show ?thesis using False wd by auto
  qed
qed

lemma ex_chdir: "\<exists>s'. posix_chdir ex_env (Some [47, 98, 47, 121, 0]) (ex_dfs [ex_fs [47, 98, 0]]) = Some (0, s')"
proof -
  let ?s0 = "ex_dfs [ex_fs [47, 98, 0]]"
  note f = ex_opening_facts
  have p: "cstr [47, 98, 47, 121, 0] [47, 98, 47, 121]" "cstr (working_directory ?s0) [47]" by (simp_all add: cstr_def ex_dfs_def)
  obtain b where b: "dfs_normalize_path True (working_directory ?s0) None [47, 98, 47, 121, 0] = Some (Some b)" "cstr b [47, 98, 47, 121]"
    using normalize_absolute[OF p(2,1), of True "[[98], [121]]"] by (auto simp: path_text_def)
  have o: "\<not> is_open ex_opening (ops_fops (ops_of ex_opening 0)) (check_text [[98]] [[98], [121]])"
    by (simp add: is_open_def ex_opening_def zero_fd_def)
  let ?open = "\<lambda>sub. upd_fd 5 (\<lambda>d. d\<lparr>fd_type := FT_DIRECTORY, fd_flags := fd_flags d OR DFS_F_OPEN OR DFS_F_DIRECTORY\<rparr>)
    (fill_fd 5 0 0x10000 0 sub ex_opening)"
  obtain sub where d: "dfs_file_open (\<lambda>c s. Some (0, s)) True True (Some 5) b 0x10000 ex_opening = Some (0, ?open sub)"
    using file_open_ok[OF f(1-3) b(2) _ _ f(4-6,8), of "\<lambda>c s. Some (0, s)" 5 "0x10000"] o f(7) by (auto simp del: upd_fd_def)
  have n: "posix_opendir ex_env b ?s0 = Some (Some \<lparr>dir_fd = 3, dir_num = 0, dir_cur = 0\<rparr>, fd_put 5 (?open sub))"
    using ex_new d by (simp add: posix_opendir_def ex_env_def fd_drop_def del: upd_fd_def)
  have "\<exists>s'. posix_closedir ex_env \<lparr>dir_fd = 3, dir_num = 0, dir_cur = 0\<rparr> (fd_put 5 (?open sub)) = Some (0, s')"
    by (simp add: posix_closedir_def ex_env_def fd_get_def fd_put_def fill_fd_def ex_opening_def dfs_file_close_def file_ops_def ex_dfs_def)
  moreover have "env_mem ex_env" "rt_strlen [47, 98, 47, 121, 0] = Some 4" by (simp_all add: ex_env_def)
  ultimately show ?thesis using b(1) n rt_strncpy_cstr[OF b(2), of 256] by (auto simp: posix_chdir_def)
qed

theorem chdir_outcomes_witness:
  "\<exists>s' b. posix_chdir ex_env (Some [47, 98, 47, 121, 0]) (ex_dfs [ex_fs [47, 98, 0]]) = Some (0, s') \<and>
     dfs_normalize_path True (working_directory s') None [46, 46, 47, 122, 0] = Some (Some b) \<and> cstr b [47, 98, 47, 122]"
proof -
  obtain s' where c: "posix_chdir ex_env (Some [47, 98, 47, 121, 0]) (ex_dfs [ex_fs [47, 98, 0]]) = Some (0, s')" using ex_chdir by blast
  have p: "cstr [47, 98, 47, 121, 0] [47, 98, 47, 121]" "cstr (working_directory (ex_dfs [ex_fs [47, 98, 0]])) [47]"
    "cstr [46, 46, 47, 122, 0] [46, 46, 47, 122]" by (simp_all add: cstr_def ex_dfs_def)
  from chdir_outcomes[OF p(2,1) _ c, of "[[98], [121]]"] p(3) c show ?thesis
    by (fastforce simp: path_full_def path_text_def)
qed

end
