(* ===== verification/I2c.thy ===== *)
theory I2c
  imports Prelude
begin

text \<open>
  The I2C bus in software: \<open>components/drivers/i2c/i2c-bit-ops.c\<close>, and the transfers of \<open>i2c_core.c\<close>.

  The pins are driven through functions of the board. The state is the history of what was done on them, the newest first;
  what the board reads from the pins and the tick are functions of the history, and are parameters in the record of the bus.
  A function that waits for a slave that holds the clock may not return: \<open>None\<close>.
\<close>

subsection \<open>The operations\<close>

datatype i2c_ev = Sda bool | Scl bool | Udelay u32 | Delay u32 | See_sda | See_scl

type_synonym i2c_hist = "i2c_ev list"

record rt_i2c_bit_ops =
  get_sda :: "i2c_hist \<Rightarrow> bool"
  get_scl :: "(i2c_hist \<Rightarrow> bool) option"
  delay_us :: u32
  timeout :: u32
  tick_get :: "i2c_hist \<Rightarrow> u32"

record rt_i2c_msg =
  msg_addr :: u16
  msg_flags :: u16
  msg_len :: u16
  msg_buf :: "u8 list"

abbreviation (input) RT_I2C_RD :: u16 where "RT_I2C_RD \<equiv> 1"
abbreviation (input) RT_I2C_ADDR_10BIT :: u16 where "RT_I2C_ADDR_10BIT \<equiv> 4"
abbreviation (input) RT_I2C_NO_START :: u16 where "RT_I2C_NO_START \<equiv> 0x10"
abbreviation (input) RT_I2C_IGNORE_NACK :: u16 where "RT_I2C_IGNORE_NACK \<equiv> 0x20"
abbreviation (input) RT_I2C_NO_READ_ACK :: u16 where "RT_I2C_NO_READ_ACK \<equiv> 0x40"

definition i2c_delay :: "rt_i2c_bit_ops \<Rightarrow> i2c_hist \<Rightarrow> i2c_hist" where
  "i2c_delay ops h = Udelay (drop_bit 1 (delay_us ops + 1)) # h"

definition i2c_delay2 :: "rt_i2c_bit_ops \<Rightarrow> i2c_hist \<Rightarrow> i2c_hist" where
  "i2c_delay2 ops h = Udelay (delay_us ops) # h"

text \<open>The loop of \<open>SCL_H\<close>: the result says whether the line went high in time.\<close>

partial_function (option) scl_wait :: "rt_i2c_bit_ops \<Rightarrow> (i2c_hist \<Rightarrow> bool) \<Rightarrow> u32 \<Rightarrow> i2c_hist \<Rightarrow> (bool \<times> i2c_hist) option" where
  "scl_wait ops scl start h =
     (if scl h then Some (True, See_scl # h)
      else if tick_get ops (See_scl # h) - start > timeout ops then Some (False, See_scl # h)
      else scl_wait ops scl start (Delay (drop_bit 1 (timeout ops + 1)) # See_scl # h))"

definition SCL_H :: "rt_i2c_bit_ops \<Rightarrow> i2c_hist \<Rightarrow> (bool \<times> i2c_hist) option" where
  "SCL_H ops h =
     (let h = Scl True # h
      in case get_scl ops of
           None \<Rightarrow> Some (True, i2c_delay ops h)
         | Some scl \<Rightarrow> do { (ok, h) \<leftarrow> scl_wait ops scl (tick_get ops h) h; Some (ok, if ok then i2c_delay ops h else h) })"

definition i2c_start :: "rt_i2c_bit_ops \<Rightarrow> i2c_hist \<Rightarrow> i2c_hist" where
  "i2c_start ops h = Scl False # i2c_delay ops (Sda False # h)"

definition i2c_restart :: "rt_i2c_bit_ops \<Rightarrow> i2c_hist \<Rightarrow> i2c_hist option" where
  "i2c_restart ops h =
     do { (_, h) \<leftarrow> SCL_H ops (Sda True # h);
          Some (Scl False # i2c_delay ops (Sda False # i2c_delay ops h)) }"

definition i2c_stop :: "rt_i2c_bit_ops \<Rightarrow> i2c_hist \<Rightarrow> i2c_hist option" where
  "i2c_stop ops h =
     do { (_, h) \<leftarrow> SCL_H ops (i2c_delay ops (Sda False # h));
          Some (i2c_delay2 ops (Sda True # i2c_delay ops h)) }"

text \<open>\<open>1\<close> for an acknowledgement, \<open>0\<close> for none.\<close>

definition i2c_waitack :: "rt_i2c_bit_ops \<Rightarrow> i2c_hist \<Rightarrow> (int \<times> i2c_hist) option" where
  "i2c_waitack ops h =
     do { (ok, h) \<leftarrow> SCL_H ops (i2c_delay ops (Sda True # h));
          if \<not> ok then Some (- RT_ETIMEOUT, h)
          else Some (if get_sda ops h then 0 else 1, Scl False # See_sda # h) }"

text \<open>The bits from \<open>i - 1\<close> down.\<close>

fun writeb_loop :: "rt_i2c_bit_ops \<Rightarrow> nat \<Rightarrow> u8 \<Rightarrow> i2c_hist \<Rightarrow> (bool \<times> i2c_hist) option" where
  "writeb_loop ops 0 data h = Some (True, h)"
| "writeb_loop ops (Suc i) data h =
     do { (ok, h) \<leftarrow> SCL_H ops (i2c_delay ops (Sda (drop_bit i data AND 1 = 1) # Scl False # h));
          if \<not> ok then Some (False, h) else writeb_loop ops i data h }"

definition i2c_writeb :: "rt_i2c_bit_ops \<Rightarrow> u8 \<Rightarrow> i2c_hist \<Rightarrow> (int \<times> i2c_hist) option" where
  "i2c_writeb ops data h =
     do { (ok, h) \<leftarrow> writeb_loop ops 8 data h;
          if \<not> ok then Some (- RT_ETIMEOUT, h) else i2c_waitack ops (i2c_delay ops (Scl False # h)) }"

fun readb_loop :: "rt_i2c_bit_ops \<Rightarrow> nat \<Rightarrow> u8 \<Rightarrow> i2c_hist \<Rightarrow> (int \<times> i2c_hist) option" where
  "readb_loop ops 0 data h = Some (uint data, h)"
| "readb_loop ops (Suc i) data h =
     do { (ok, h) \<leftarrow> SCL_H ops h;
          if \<not> ok then Some (- RT_ETIMEOUT, h)
          else readb_loop ops i (if get_sda ops h then push_bit 1 data OR 1 else push_bit 1 data)
                 (i2c_delay2 ops (Scl False # See_sda # h)) }"

definition i2c_readb :: "rt_i2c_bit_ops \<Rightarrow> i2c_hist \<Rightarrow> (int \<times> i2c_hist) option" where
  "i2c_readb ops h = readb_loop ops 8 0 (i2c_delay ops (Sda True # h))"

text \<open>Byte \<open>i\<close> of the message, with \<open>count\<close> bytes to go. The result is a \<open>rt_size_t\<close>, also for an error.\<close>

fun send_bytes_loop :: "rt_i2c_bit_ops \<Rightarrow> bool \<Rightarrow> u8 list \<Rightarrow> nat \<Rightarrow> nat \<Rightarrow> i2c_hist \<Rightarrow> (u32 \<times> i2c_hist) option" where
  "send_bytes_loop ops ignore_nack buf i 0 h = Some (word_of_nat i, h)"
| "send_bytes_loop ops ignore_nack buf i (Suc count) h =
     (if i < length buf
      then do { (ret, h) \<leftarrow> i2c_writeb ops (buf ! i) h;
                if ret > 0 \<or> (ignore_nack \<and> ret = 0) then send_bytes_loop ops ignore_nack buf (i + 1) count h
                else if ret = 0 then Some (0, h)
                else Some (word_of_int ret, h) }
      else None)"

definition i2c_send_bytes :: "rt_i2c_bit_ops \<Rightarrow> rt_i2c_msg \<Rightarrow> i2c_hist \<Rightarrow> (u32 \<times> i2c_hist) option" where
  "i2c_send_bytes ops msg h =
     send_bytes_loop ops (msg_flags msg AND RT_I2C_IGNORE_NACK \<noteq> 0) (msg_buf msg) 0 (unat (msg_len msg)) h"

definition i2c_send_ack_or_nack :: "rt_i2c_bit_ops \<Rightarrow> bool \<Rightarrow> i2c_hist \<Rightarrow> (int \<times> i2c_hist) option" where
  "i2c_send_ack_or_nack ops ack h =
     do { (ok, h) \<leftarrow> SCL_H ops (i2c_delay ops (if ack then Sda False # h else h));
          if \<not> ok then Some (- RT_ETIMEOUT, h) else Some (RT_EOK, Scl False # h) }"

fun recv_bytes_loop ::
  "rt_i2c_bit_ops \<Rightarrow> bool \<Rightarrow> u8 list \<Rightarrow> nat \<Rightarrow> nat \<Rightarrow> i2c_hist \<Rightarrow> (u32 \<times> u8 list \<times> i2c_hist) option" where
  "recv_bytes_loop ops no_ack buf i 0 h = Some (word_of_nat i, buf, h)"
| "recv_bytes_loop ops no_ack buf i (Suc count) h =
     do { (val, h) \<leftarrow> i2c_readb ops h;
          if val < 0 then Some (word_of_nat i, buf, h)
          else if i < length buf
          then do { let buf = buf[i := word_of_int val];
                    if no_ack then recv_bytes_loop ops no_ack buf (i + 1) count h
                    else do { (val, h) \<leftarrow> i2c_send_ack_or_nack ops (count \<noteq> 0) h;
                              if val < 0 then Some (word_of_int val, buf, h)
                              else recv_bytes_loop ops no_ack buf (i + 1) count h } }
          else None }"

definition i2c_recv_bytes :: "rt_i2c_bit_ops \<Rightarrow> rt_i2c_msg \<Rightarrow> i2c_hist \<Rightarrow> (u32 \<times> u8 list \<times> i2c_hist) option" where
  "i2c_recv_bytes ops msg h =
     recv_bytes_loop ops (msg_flags msg AND RT_I2C_NO_READ_ACK \<noteq> 0) (msg_buf msg) 0 (unat (msg_len msg)) h"

text \<open>With \<open>k\<close> retries to go.\<close>

fun send_address_loop :: "rt_i2c_bit_ops \<Rightarrow> u8 \<Rightarrow> nat \<Rightarrow> i2c_hist \<Rightarrow> (int \<times> i2c_hist) option" where
  "send_address_loop ops addr k h =
     do { (ret, h) \<leftarrow> i2c_writeb ops addr h;
          if ret = 1 then Some (ret, h)
          else case k of
                 0 \<Rightarrow> Some (ret, h)
               | Suc k \<Rightarrow> do { h \<leftarrow> i2c_stop ops h; send_address_loop ops addr k (i2c_start ops (i2c_delay2 ops h)) } }"

definition i2c_send_address :: "rt_i2c_bit_ops \<Rightarrow> u8 \<Rightarrow> int \<Rightarrow> i2c_hist \<Rightarrow> (int \<times> i2c_hist) option" where
  "i2c_send_address ops addr retries h =
     (if retries < 0 then Some (0, h) else send_address_loop ops addr (nat retries) h)"

definition i2c_bit_send_address :: "rt_i2c_bit_ops \<Rightarrow> u32 \<Rightarrow> rt_i2c_msg \<Rightarrow> i2c_hist \<Rightarrow> (int \<times> i2c_hist) option" where
  "i2c_bit_send_address ops bus_retries msg h =
     (let flags = msg_flags msg;
          ignore_nack = (flags AND RT_I2C_IGNORE_NACK \<noteq> 0);
          retries = (if ignore_nack then 0 else sint bus_retries)
      in if flags AND RT_I2C_ADDR_10BIT \<noteq> 0
         then do { let addr1 = 0xf0 OR (ucast (drop_bit 7 (msg_addr msg)) AND 6);
                   let addr2 = ucast (msg_addr msg AND 0xff);
                   (ret, h) \<leftarrow> i2c_send_address ops addr1 retries h;
                   if ret \<noteq> 1 \<and> \<not> ignore_nack then Some (- RT_EIO, h)
                   else do { (ret, h) \<leftarrow> i2c_writeb ops addr2 h;
                             if ret \<noteq> 1 \<and> \<not> ignore_nack then Some (- RT_EIO, h)
                             else if flags AND RT_I2C_RD \<noteq> 0
                             then do { h \<leftarrow> i2c_restart ops h;
                                       (ret, h) \<leftarrow> i2c_send_address ops (addr1 OR 1) retries h;
                                       if ret \<noteq> 1 \<and> \<not> ignore_nack then Some (- RT_EIO, h) else Some (RT_EOK, h) }
                             else Some (RT_EOK, h) } }
         else do { let addr1 = ucast (push_bit 1 (msg_addr msg));
                   let addr1 = (if flags AND RT_I2C_RD \<noteq> 0 then addr1 OR 1 else addr1);
                   (ret, h) \<leftarrow> i2c_send_address ops addr1 retries h;
                   if ret \<noteq> 1 \<and> \<not> ignore_nack then Some (- RT_EIO, h) else Some (RT_EOK, h) })"

text \<open>
  The loop over the messages: the result, the messages with what was received, and the history. \<open>Inl\<close> is the jump to the
  end of the function.
\<close>

definition xfer_msg ::
  "rt_i2c_bit_ops \<Rightarrow> u32 \<Rightarrow> nat \<Rightarrow> rt_i2c_msg \<Rightarrow> i2c_hist \<Rightarrow> ((int + unit) \<times> rt_i2c_msg \<times> i2c_hist) option" where
  "xfer_msg ops bus_retries i msg h =
     do { let flags = msg_flags msg;
          (ret, h) \<leftarrow> (if flags AND RT_I2C_NO_START = 0
             then do { h \<leftarrow> (if i \<noteq> 0 then i2c_restart ops h else Some h); i2c_bit_send_address ops bus_retries msg h }
             else Some (RT_EOK, h));
          if ret \<noteq> RT_EOK \<and> flags AND RT_I2C_IGNORE_NACK = 0 then Some (Inl ret, msg, h)
          else if flags AND RT_I2C_RD \<noteq> 0
          then do { (r, buf, h) \<leftarrow> i2c_recv_bytes ops msg h;
                    let ret = sint r;
                    Some (if ret < uint (msg_len msg) then Inl (if ret \<ge> 0 then - RT_EIO else ret) else Inr (),
                      msg\<lparr>msg_buf := buf\<rparr>, h) }
          else do { (r, h) \<leftarrow> i2c_send_bytes ops msg h;
                    let ret = sint r;
                    Some (if ret < uint (msg_len msg) then Inl (if ret \<ge> 0 then - RT_ERROR else ret) else Inr (), msg, h) } }"

fun xfer_loop ::
  "rt_i2c_bit_ops \<Rightarrow> u32 \<Rightarrow> nat \<Rightarrow> rt_i2c_msg list \<Rightarrow> i2c_hist \<Rightarrow> (int \<times> rt_i2c_msg list \<times> i2c_hist) option" where
  "xfer_loop ops bus_retries i [] h = Some (int i, [], h)"
| "xfer_loop ops bus_retries i (msg # msgs) h =
     do { (r, msg, h) \<leftarrow> xfer_msg ops bus_retries i msg h;
          case r of
            Inl ret \<Rightarrow> Some (ret, msg # msgs, h)
          | Inr _ \<Rightarrow> do { (ret, msgs, h) \<leftarrow> xfer_loop ops bus_retries (i + 1) msgs h; Some (ret, msg # msgs, h) } }"

definition i2c_bit_xfer ::
  "rt_i2c_bit_ops \<Rightarrow> u32 \<Rightarrow> rt_i2c_msg list \<Rightarrow> i2c_hist \<Rightarrow> (u32 \<times> rt_i2c_msg list \<times> i2c_hist) option" where
  "i2c_bit_xfer ops bus_retries msgs h =
     do { (ret, msgs, h) \<leftarrow> xfer_loop ops bus_retries 0 msgs (i2c_start ops h);
          h \<leftarrow> i2c_stop ops h;
          Some (word_of_int ret, msgs, h) }"

text \<open>The transfers: \<open>xfer\<close> is the function \<open>master_xfer\<close> of the bus, called with the lock of the bus.\<close>

type_synonym i2c_xfer = "rt_i2c_msg list \<Rightarrow> i2c_hist \<Rightarrow> (u32 \<times> rt_i2c_msg list \<times> i2c_hist) option"

definition rt_i2c_transfer :: "i2c_xfer option \<Rightarrow> i2c_xfer" where
  "rt_i2c_transfer xfer msgs h = (case xfer of None \<Rightarrow> Some (0, msgs, h) | Some f \<Rightarrow> f msgs h)"

definition rt_i2c_master_send ::
  "i2c_xfer option \<Rightarrow> u16 \<Rightarrow> u16 \<Rightarrow> u8 list \<Rightarrow> u32 \<Rightarrow> i2c_hist \<Rightarrow> (u32 \<times> i2c_hist) option" where
  "rt_i2c_master_send xfer addr flags buf count h =
     do { let msg = \<lparr>msg_addr = addr, msg_flags = flags AND RT_I2C_ADDR_10BIT, msg_len = ucast count, msg_buf = buf\<rparr>;
          (ret, _, h) \<leftarrow> rt_i2c_transfer xfer [msg] h;
          Some (if sint ret > 0 then count else ret, h) }"

definition rt_i2c_master_recv ::
  "i2c_xfer option \<Rightarrow> u16 \<Rightarrow> u16 \<Rightarrow> u8 list \<Rightarrow> u32 \<Rightarrow> i2c_hist \<Rightarrow> (u32 \<times> u8 list \<times> i2c_hist) option" where
  "rt_i2c_master_recv xfer addr flags buf count h =
     do { let msg = \<lparr>msg_addr = addr, msg_flags = (flags AND RT_I2C_ADDR_10BIT) OR RT_I2C_RD, msg_len = ucast count, msg_buf = buf\<rparr>;
          (ret, msgs, h) \<leftarrow> rt_i2c_transfer xfer [msg] h;
          Some (if sint ret > 0 then count else ret, msg_buf (hd msgs), h) }"

end
