(* ===== verification/I2c_Wire.thy ===== *)
theory I2c_Wire
  imports I2c
begin

text \<open>
  What is seen on the two lines of the bus, and what the transfers put there: start and stop conditions and frames of nine
  bits, the last of which is the acknowledgement.
\<close>

subsection \<open>The lines\<close>

datatype wire_sym = W_start | W_stop | W_bit bool

text \<open>
  The levels that the master drives, whether the data line has changed since the clock went high, and the symbols so far. A
  bit counts when the clock falls after a phase in which the data line was stable.
\<close>

record wires =
  w_scl :: bool
  w_sda :: bool
  w_mark :: bool
  w_syms :: "wire_sym list"

definition W :: "bool \<Rightarrow> bool \<Rightarrow> bool \<Rightarrow> wire_sym list \<Rightarrow> wires" where
  "W c d m xs = \<lparr>w_scl = c, w_sda = d, w_mark = m, w_syms = xs\<rparr>"

fun wire_step :: "i2c_ev \<Rightarrow> wires \<Rightarrow> wires" where
  "wire_step (Scl b) w =
     (if b = w_scl w then w
      else if b then W True (w_sda w) False (w_syms w)
      else W False (w_sda w) (w_mark w) (if w_mark w then w_syms w else w_syms w @ [W_bit (w_sda w)]))"
| "wire_step (Sda b) w =
     (if b = w_sda w then w
      else if w_scl w then W True b True (w_syms w @ [if b then W_stop else W_start])
      else W False b (w_mark w) (w_syms w))"
| "wire_step e w = w"

primrec wire :: "i2c_hist \<Rightarrow> wires" where
  "wire [] = W True True True []"
| "wire (e # h) = wire_step e (wire h)"

lemma W_fields [simp]: "w_scl (W c d m xs) = c" "w_sda (W c d m xs) = d" "w_mark (W c d m xs) = m" "w_syms (W c d m xs) = xs"
  by (simp_all add: W_def)

lemma W_eq: "wire h = W (w_scl (wire h)) (w_sda (wire h)) (w_mark (wire h)) (w_syms (wire h))"
  by (simp add: W_def)

lemma W_inject [simp]: "W c d m xs = W c' d' m' xs' \<longleftrightarrow> c = c' \<and> d = d' \<and> m = m' \<and> xs = xs'"
  by (auto simp: W_def)

text \<open>How often the master has read the data line: what a slave that sends one bit after the other goes by.\<close>

definition sees :: "i2c_hist \<Rightarrow> nat" where
  "sees h = length (filter (\<lambda>e. e = See_sda) h)"

lemma sees_simps [simp]:
  "sees [] = 0" "sees (See_sda # h) = Suc (sees h)" "sees (Scl b # h) = sees h" "sees (Sda b # h) = sees h"
  "sees (See_scl # h) = sees h" "sees (Udelay n # h) = sees h" "sees (Delay n # h) = sees h"
  by (simp_all add: sees_def)

lemma delay_simps [simp]:
  "wire (i2c_delay ops h) = wire h" "wire (i2c_delay2 ops h) = wire h" "sees (i2c_delay ops h) = sees h" "sees (i2c_delay2 ops h) = sees h"
  by (simp_all add: i2c_delay_def i2c_delay2_def)

lemma scl_wait_wire:
  assumes "scl_wait ops scl start h = Some r"
  shows "wire (snd r) = wire h \<and> sees (snd r) = sees h"
proof (rule scl_wait.raw_induct[OF _ assms, where P = "\<lambda>ops scl start h r. wire (snd r) = wire h \<and> sees (snd r) = sees h"])
  fix f ops scl start h y
  assume ih: "\<And>ops scl start h r. f ops scl start h = Some r \<Longrightarrow> wire (snd r) = wire h \<and> sees (snd r) = sees h"
    and r: "(if scl h then Some (True, See_scl # h)
      else if timeout ops < tick_get ops (See_scl # h) - start then Some (False, See_scl # h)
      else f ops scl start (Delay (drop_bit 1 (timeout ops + 1)) # See_scl # h)) = Some y"
  show "wire (snd y) = wire h \<and> sees (snd y) = sees h"
    using r ih[of ops scl start "Delay (drop_bit 1 (timeout ops + 1)) # See_scl # h" y] by (auto split: if_splits)
qed

lemma SCL_H_wire:
  assumes "SCL_H ops h = Some (ok, h')"
  shows "wire h' = wire (Scl True # h) \<and> sees h' = sees h"
  using assms
  by (auto simp: SCL_H_def Let_def bind_eq_Some_conv simp del: wire.simps split: option.splits if_splits
    dest!: scl_wait_wire)

text \<open>A bus on which the clock line goes high in time whenever the master releases it.\<close>

definition responds :: "rt_i2c_bit_ops \<Rightarrow> bool" where
  "responds ops \<longleftrightarrow> (\<forall>h. \<exists>h'. SCL_H ops h = Some (True, h'))"

lemma responds_H:
  assumes "responds ops" "wire h = W False d m xs"
  obtains h' where "SCL_H ops h = Some (True, h')" "wire h' = W True d False xs" "sees h' = sees h"
proof -
  obtain h' where h: "SCL_H ops h = Some (True, h')" using assms(1) by (auto simp: responds_def)
  from SCL_H_wire[OF h] show ?thesis using that[OF h] assms(2) by simp
qed

lemma start_wire: "wire h = W True True m xs \<Longrightarrow> wire (i2c_start ops h) = W False False True (xs @ [W_start]) \<and> sees (i2c_start ops h) = sees h"
  by (simp add: i2c_start_def)

lemma stop_wire:
  assumes "responds ops" "wire h = W False d m xs"
  obtains h' where "i2c_stop ops h = Some h'" "wire h' = W True True True (xs @ [W_stop])" "sees h' = sees h"
proof -
  have "wire (i2c_delay ops (Sda False # h)) = W False False m xs" using assms(2) by simp
  then obtain h1 where h1: "SCL_H ops (i2c_delay ops (Sda False # h)) = Some (True, h1)" "wire h1 = W True False False xs"
    "sees h1 = sees h" using responds_H[OF assms(1)] by (metis delay_simps(3) sees_simps(4))
  then show ?thesis using that[of "i2c_delay2 ops (Sda True # i2c_delay ops h1)"] by (simp add: i2c_stop_def)
qed

lemma restart_wire:
  assumes "responds ops" "wire h = W False d m xs"
  obtains h' where "i2c_restart ops h = Some h'" "wire h' = W False False True (xs @ [W_start])" "sees h' = sees h"
proof -
  have "wire (Sda True # h) = W False True m xs" using assms(2) by simp
  then obtain h1 where h1: "SCL_H ops (Sda True # h) = Some (True, h1)" "wire h1 = W True True False xs"
    "sees h1 = sees h" using responds_H[OF assms(1)] by (metis sees_simps(4))
  then show ?thesis using that[of "Scl False # i2c_delay ops (Sda False # i2c_delay ops h1)"] by (simp add: i2c_restart_def)
qed

subsection \<open>Bytes\<close>

definition byte_bits :: "u8 \<Rightarrow> bool list" where
  "byte_bits d = map (bit d) (rev [0..<8])"

text \<open>A byte that the master sends: eight bits, and the data line released for the acknowledgement.\<close>

definition frame :: "u8 \<Rightarrow> wire_sym list" where
  "frame d = map W_bit (byte_bits d) @ [W_bit True]"

lemma waitack_wire:
  assumes "responds ops" "wire h = W False d m xs"
  obtains hx h' where "i2c_waitack ops h = Some (if get_sda ops hx then 0 else 1, h')" "sees hx = sees h" "sees h' = Suc (sees h)"
    "wire h' = W False True False (xs @ [W_bit True])"
proof -
  have "wire (i2c_delay ops (Sda True # h)) = W False True m xs" using assms(2) by simp
  then obtain h1 where h1: "SCL_H ops (i2c_delay ops (Sda True # h)) = Some (True, h1)" "wire h1 = W True True False xs"
    "sees h1 = sees h" using responds_H[OF assms(1)] by (metis delay_simps(3) sees_simps(4))
  then show ?thesis using that[of h1 "Scl False # See_sda # h1"] by (simp add: i2c_waitack_def)
qed

lemma bit_test: "(drop_bit i (data :: u8) AND 1 = 1) = bit data i"
  by (simp add: bit_iff_odd_drop_bit and_one_eq odd_iff_mod_2_eq_one)

text \<open>The bits that are on the lines when the clock falls again.\<close>

lemma writeb_loop_wire:
  assumes "responds ops"
  shows "wire (Scl False # h) = W False d m xs \<Longrightarrow>
    \<exists>h' d' m'. writeb_loop ops n data h = Some (True, h') \<and> sees h' = sees h \<and>
      wire (Scl False # h') = W False d' m' (xs @ map (\<lambda>i. W_bit (bit data i)) (rev [0..<n]))"
proof (induction n arbitrary: h d m xs)
  case (Suc i)
  have "wire (i2c_delay ops (Sda (bit data i) # Scl False # h)) = W False (bit data i) m xs" using Suc.prems by simp
  then obtain h1 where h1: "SCL_H ops (i2c_delay ops (Sda (bit data i) # Scl False # h)) = Some (True, h1)"
    "wire h1 = W True (bit data i) False xs" "sees h1 = sees h"
    using responds_H[OF assms] by (metis delay_simps(3) sees_simps(3,4))
  then have "wire (Scl False # h1) = W False (bit data i) False (xs @ [W_bit (bit data i)])" by simp
  from Suc.IH[OF this] show ?case using h1 by (auto simp: bit_test)
qed auto

lemma writeb_wire:
  assumes "responds ops" "wire h = W False d m xs"
  obtains hx h' where "i2c_writeb ops data h = Some (if get_sda ops hx then 0 else 1, h')" "sees hx = sees h" "sees h' = Suc (sees h)"
    "wire h' = W False True False (xs @ frame data)"
proof -
  have "wire (Scl False # h) = W False d m xs" using assms(2) by simp
  from writeb_loop_wire[OF assms(1) this, of 8 data] obtain h1 d' m' where h1: "writeb_loop ops 8 data h = Some (True, h1)"
    "sees h1 = sees h" "wire (i2c_delay ops (Scl False # h1)) = W False d' m' (xs @ map (\<lambda>i. W_bit (bit data i)) (rev [0..<8]))"
    by auto
  from waitack_wire[OF assms(1) h1(3)] obtain hx h' where
    "i2c_waitack ops (i2c_delay ops (Scl False # h1)) = Some (if get_sda ops hx then 0 else 1, h')" "sees hx = sees h" "sees h' = Suc (sees h)"
    "wire h' = W False True False (xs @ frame data)"
    using h1(2) by (auto simp: frame_def byte_bits_def comp_def)
  then show ?thesis using that h1(1) by (simp add: i2c_writeb_def)
qed

definition byte_of :: "bool list \<Rightarrow> u8" where
  "byte_of bs = foldl (\<lambda>d b. if b then push_bit 1 d OR 1 else push_bit 1 d) 0 bs"

lemma readb_loop_wire:
  assumes "responds ops"
  shows "wire h = W False True m xs \<Longrightarrow>
    \<exists>hs h' m'. readb_loop ops n data h =
        Some (uint (foldl (\<lambda>d b. if b then push_bit 1 d OR 1 else push_bit 1 d) data (map (get_sda ops) hs)), h') \<and>
      map sees hs = [sees h..<sees h + n] \<and> sees h' = sees h + n \<and> wire h' = W False True m' (xs @ replicate n (W_bit True))"
proof (induction n arbitrary: h m xs data)
  case (Suc n)
  obtain h1 where h1: "SCL_H ops h = Some (True, h1)" "wire h1 = W True True False xs" "sees h1 = sees h"
    using responds_H[OF assms Suc.prems] by blast
  let ?h = "i2c_delay2 ops (Scl False # See_sda # h1)"
  have "wire ?h = W False True False (xs @ [W_bit True])" using h1(2) by simp
  from Suc.IH[OF this, of "if get_sda ops h1 then push_bit 1 data OR 1 else push_bit 1 data"] obtain hs h' m' where
    l: "readb_loop ops n (if get_sda ops h1 then push_bit 1 data OR 1 else push_bit 1 data) ?h =
      Some (uint (foldl (\<lambda>d b. if b then push_bit 1 d OR 1 else push_bit 1 d)
        (if get_sda ops h1 then push_bit 1 data OR 1 else push_bit 1 data) (map (get_sda ops) hs)), h')" and
    r: "map sees hs = [sees ?h..<sees ?h + n]" "sees h' = sees ?h + n"
    "wire h' = W False True m' ((xs @ [W_bit True]) @ replicate n (W_bit True))" by blast
  show ?case
  proof (intro exI conjI)
    show "readb_loop ops (Suc n) data h =
        Some (uint (foldl (\<lambda>d b. if b then push_bit 1 d OR 1 else push_bit 1 d) data (map (get_sda ops) (h1 # hs))), h')"
      unfolding readb_loop.simps h1(1) by (simp only: Option.bind.bind_lunit prod.case not_True_eq_False if_False l foldl_Cons list.map)
    show "map sees (h1 # hs) = [sees h..<sees h + Suc n]" "sees h' = sees h + Suc n" using r(1,2) h1(3) by (simp_all add: upt_conv_Cons)
    show "wire h' = W False True m' (xs @ replicate (Suc n) (W_bit True))" using r(3) by simp
  qed
qed auto

lemma readb_wire:
  assumes "responds ops" "wire h = W False d m xs"
  obtains hs h' m' where "i2c_readb ops h = Some (uint (byte_of (map (get_sda ops) hs)), h')" "map sees hs = [sees h..<sees h + 8]"
    "sees h' = sees h + 8" "wire h' = W False True m' (xs @ replicate 8 (W_bit True))"
proof -
  have "wire (i2c_delay ops (Sda True # h)) = W False True m xs" using assms(2) by simp
  from readb_loop_wire[OF assms(1) this, of 8 0] show ?thesis using that by (auto simp: i2c_readb_def byte_of_def)
qed

lemma send_ack_wire:
  assumes "responds ops" "wire h = W False True m xs"
  obtains h' m' where "i2c_send_ack_or_nack ops ack h = Some (0, h')" "sees h' = sees h"
    "wire h' = W False (\<not> ack) m' (xs @ [W_bit (\<not> ack)])"
proof -
  have "wire (i2c_delay ops (if ack then Sda False # h else h)) = W False (\<not> ack) m xs" using assms(2) by simp
  moreover have "sees (i2c_delay ops (if ack then Sda False # h else h)) = sees h" by simp
  ultimately obtain h1 where h1: "SCL_H ops (i2c_delay ops (if ack then Sda False # h else h)) = Some (True, h1)"
    "wire h1 = W True (\<not> ack) False xs" "sees h1 = sees h"
    using responds_H[OF assms(1)] by metis
  then show ?thesis using that[of "Scl False # h1" False] by (simp add: i2c_send_ack_or_nack_def)
qed

subsection \<open>Whole transfers\<close>

text \<open>Symbols in conditions and frames of nine bits.\<close>

definition bytewise :: "wire_sym list \<Rightarrow> bool" where
  "bytewise xs \<longleftrightarrow> (\<exists>ps. xs = concat ps \<and>
     (\<forall>p \<in> set ps. p = [W_start] \<or> p = [W_stop] \<or> (\<exists>bs. p = map W_bit bs \<and> length bs = 9)))"

lemma bytewise_append: "bytewise xs \<Longrightarrow> bytewise ys \<Longrightarrow> bytewise (xs @ ys)"
  unfolding bytewise_def by (metis Un_iff concat_append set_append)

lemma bytewise_simps: "bytewise []" "bytewise [W_start]" "bytewise [W_stop]"
  unfolding bytewise_def by (rule exI[of _ "[]"], simp) (rule exI[of _ "[[W_start]]"], simp, rule exI[of _ "[[W_stop]]"], simp)

lemma bytewise_nine: "length bs = 9 \<Longrightarrow> bytewise (map W_bit bs)"
  unfolding bytewise_def by (rule exI[of _ "[map W_bit bs]"]) auto

lemma bytewise_frame: "bytewise (frame d)"
  using bytewise_nine[of "byte_bits d @ [True]"] by (simp add: frame_def byte_bits_def)

definition drives :: "i2c_hist \<Rightarrow> i2c_hist \<Rightarrow> bool" where
  "drives h h' \<longleftrightarrow> \<not> w_scl (wire h') \<and> (\<exists>xs. w_syms (wire h') = w_syms (wire h) @ xs \<and> bytewise xs)"

lemma drives_trans: "drives h h1 \<Longrightarrow> drives h1 h2 \<Longrightarrow> drives h h2"
  unfolding drives_def using bytewise_append by (metis append.assoc)

lemma drivesI: "wire h = W c d m xs \<Longrightarrow> wire h' = W False d' m' (xs @ ys) \<Longrightarrow> bytewise ys \<Longrightarrow> drives h h'"
  by (auto simp: drives_def)

lemma low_wire: "\<not> w_scl (wire h) \<Longrightarrow> wire h = W False (w_sda (wire h)) (w_mark (wire h)) (w_syms (wire h))"
  using W_eq[of h] by simp

lemma writeb_drives:
  assumes "responds ops" "\<not> w_scl (wire h)"
  obtains r h' where "i2c_writeb ops data h = Some (r, h')" "r = 0 \<or> r = 1" "drives h h'"
proof -
  from writeb_wire[OF assms(1) low_wire[OF assms(2)], of data] obtain hx h' where
    w: "i2c_writeb ops data h = Some (if get_sda ops hx then 0 else 1, h')" "wire h' = W False True False (w_syms (wire h) @ frame data)" by metis
  show ?thesis by (rule that[OF w(1) _ drivesI[OF low_wire[OF assms(2)] w(2) bytewise_frame]]) simp
qed

lemma restart_drives:
  assumes "responds ops" "\<not> w_scl (wire h)"
  obtains h' where "i2c_restart ops h = Some h'" "drives h h'"
  using restart_wire[OF assms(1) low_wire[OF assms(2)]] drivesI[OF low_wire[OF assms(2)]] bytewise_simps(2) by metis

lemma drives_low: "drives h h' \<Longrightarrow> \<not> w_scl (wire h')"
  by (simp add: drives_def)

lemma send_bytes_drives:
  assumes "responds ops"
  shows "\<not> w_scl (wire h) \<Longrightarrow> i + count \<le> length buf \<Longrightarrow>
    \<exists>r h'. send_bytes_loop ops ign buf i count h = Some (r, h') \<and> drives h h'"
proof (induction count arbitrary: i h)
  case 0
  then show ?case using bytewise_simps(1) by (auto simp: drives_def)
next
  case (Suc count)
  obtain r h1 where w: "i2c_writeb ops (buf ! i) h = Some (r, h1)" "drives h h1"
    using writeb_drives[OF assms Suc.prems(1)] by metis
  from Suc.IH[OF drives_low[OF w(2)], of "i + 1"] Suc.prems(2) obtain r2 h2 where
    "send_bytes_loop ops ign buf (i + 1) count h1 = Some (r2, h2)" "drives h1 h2" by auto
  moreover have "drives h h2" by (rule drives_trans[OF w(2) calculation(2)])
  moreover have "drives h h1" "i < length buf" using w(2) Suc.prems(2) by simp_all
  ultimately show ?case using w(1) by simp
qed

lemma readb_frame:
  assumes "responds ops" "\<not> w_scl (wire h)"
  obtains v h1 h2 where "i2c_readb ops h = Some (v, h1)" "0 \<le> v" "i2c_send_ack_or_nack ops ack h1 = Some (0, h2)" "drives h h2"
proof -
  obtain hs h1 m where r: "i2c_readb ops h = Some (uint (byte_of (map (get_sda ops) hs)), h1)"
    "wire h1 = W False True m (w_syms (wire h) @ replicate 8 (W_bit True))"
    using readb_wire[OF assms(1) low_wire[OF assms(2)]] by metis
  obtain h2 m' where a: "i2c_send_ack_or_nack ops ack h1 = Some (0, h2)"
    "wire h2 = W False (\<not> ack) m' ((w_syms (wire h) @ replicate 8 (W_bit True)) @ [W_bit (\<not> ack)])"
    using send_ack_wire[OF assms(1) r(2)] by metis
  have "bytewise (map W_bit (replicate 8 True @ [\<not> ack]))" by (rule bytewise_nine) simp
  then have "drives h h2" using drivesI[OF low_wire[OF assms(2)], of h2] a(2) by simp
  then show ?thesis using that r(1) a(1) by simp
qed

lemma recv_bytes_drives:
  assumes "responds ops"
  shows "\<not> w_scl (wire h) \<Longrightarrow> i + count \<le> length buf \<Longrightarrow>
    \<exists>r buf' h'. recv_bytes_loop ops False buf i count h = Some (r, buf', h') \<and> drives h h'"
proof (induction count arbitrary: i h buf)
  case 0
  then show ?case using bytewise_simps(1) by (auto simp: drives_def)
next
  case (Suc count)
  obtain v h1 h2 where r: "i2c_readb ops h = Some (v, h1)" "0 \<le> v" "i2c_send_ack_or_nack ops (count \<noteq> 0) h1 = Some (0, h2)" "drives h h2"
    using readb_frame[OF assms Suc.prems(1)] by metis
  from Suc.IH[OF drives_low[OF r(4)], of "i + 1" "buf[i := word_of_int v]"] Suc.prems(2) obtain r2 b h3 where
    "recv_bytes_loop ops False (buf[i := word_of_int v]) (i + 1) count h2 = Some (r2, b, h3)" "drives h2 h3" by auto
  moreover have "drives h h3" by (rule drives_trans[OF r(4) calculation(2)])
  moreover have "i < length buf" using Suc.prems(2) by simp
  ultimately show ?case using r(1-3) by simp
qed

text \<open>A new attempt after an address that nobody has acknowledged.\<close>

lemma again_wire:
  assumes "responds ops" "\<not> w_scl (wire h)"
  obtains h1 where "i2c_stop ops h = Some h1" "drives h (i2c_start ops (i2c_delay2 ops h1))"
    "w_syms (wire (i2c_start ops (i2c_delay2 ops h1))) = w_syms (wire h) @ [W_stop, W_start]"
proof -
  obtain h1 where h1: "i2c_stop ops h = Some h1" "wire h1 = W True True True (w_syms (wire h) @ [W_stop])"
    using stop_wire[OF assms(1) low_wire[OF assms(2)]] by metis
  have "wire (i2c_start ops (i2c_delay2 ops h1)) = W False False True (w_syms (wire h) @ [W_stop, W_start])"
    using start_wire[of "i2c_delay2 ops h1"] h1(2) by simp
  moreover have "bytewise [W_stop, W_start]" using bytewise_append[OF bytewise_simps(3,2)] by simp
  ultimately show ?thesis using that[OF h1(1) drivesI[OF low_wire[OF assms(2)], of _ False True "[W_stop, W_start]"]] by simp
qed

lemma send_address_loop_drives:
  assumes "responds ops"
  shows "\<not> w_scl (wire h) \<Longrightarrow> \<exists>r h'. send_address_loop ops addr k h = Some (r, h') \<and> drives h h'"
proof (induction k arbitrary: h)
  case 0
  from writeb_drives[OF assms 0] obtain r h1 where "i2c_writeb ops addr h = Some (r, h1)" "drives h h1" by metis
  then show ?case by (cases "r = 1") simp_all
next
  case (Suc k)
  obtain r h1 where w: "i2c_writeb ops addr h = Some (r, h1)" "drives h h1" using writeb_drives[OF assms Suc.prems] by metis
  obtain h2 where s: "i2c_stop ops h1 = Some h2" "drives h1 (i2c_start ops (i2c_delay2 ops h2))"
    using again_wire[OF assms drives_low[OF w(2)]] by metis
  obtain r3 h3 where l: "send_address_loop ops addr k (i2c_start ops (i2c_delay2 ops h2)) = Some (r3, h3)"
    "drives (i2c_start ops (i2c_delay2 ops h2)) h3" using Suc.IH[OF drives_low[OF s(2)]] by blast
  have "drives h h3" by (rule drives_trans[OF w(2) drives_trans[OF s(2) l(2)]])
  then show ?case using w s(1) l(1) by (cases "r = 1") simp_all
qed

lemma drives_refl: "\<not> w_scl (wire h) \<Longrightarrow> drives h h"
  using bytewise_simps(1) by (auto simp: drives_def)

lemma send_address_drives:
  assumes "responds ops" "\<not> w_scl (wire h)"
  obtains r h' where "i2c_send_address ops addr retries h = Some (r, h')" "drives h h'"
proof (cases "retries < 0")
  case True
  then show ?thesis using that[of 0 h] drives_refl[OF assms(2)] by (simp add: i2c_send_address_def)
next
  case False
  then show ?thesis using that send_address_loop_drives[OF assms, of addr "nat retries"] by (auto simp: i2c_send_address_def)
qed

lemma bit_send_address_drives:
  assumes "responds ops" "\<not> w_scl (wire h)"
  obtains r h' where "i2c_bit_send_address ops retries msg h = Some (r, h')" "drives h h'"
proof -
  define ign where "ign = (msg_flags msg AND RT_I2C_IGNORE_NACK \<noteq> 0)"
  define k where "k = (if ign then 0 else sint retries)"
  define a1 where "a1 = (0xf0 OR (ucast (drop_bit 7 (msg_addr msg)) AND 6) :: u8)"
  define a where "a = (if msg_flags msg AND RT_I2C_RD \<noteq> 0 then ucast (push_bit 1 (msg_addr msg)) OR 1 else ucast (push_bit 1 (msg_addr msg)) :: u8)"
  show ?thesis
  proof (cases "msg_flags msg AND RT_I2C_ADDR_10BIT \<noteq> 0")
    case True
    obtain r1 h1 where s1: "i2c_send_address ops a1 k h = Some (r1, h1)" "drives h h1" using send_address_drives[OF assms] by metis
    obtain r2 h2 where s2: "i2c_writeb ops (ucast (msg_addr msg AND 0xff)) h1 = Some (r2, h2)" "drives h1 h2"
      using writeb_drives[OF assms(1) drives_low[OF s1(2)]] by metis
    obtain h3 where s3: "i2c_restart ops h2 = Some h3" "drives h2 h3" using restart_drives[OF assms(1) drives_low[OF s2(2)]] by metis
    obtain r4 h4 where s4: "i2c_send_address ops (a1 OR 1) k h3 = Some (r4, h4)" "drives h3 h4"
      using send_address_drives[OF assms(1) drives_low[OF s3(2)]] by metis
    note d = s1(2) drives_trans[OF s1(2) s2(2)] drives_trans[OF drives_trans[OF s1(2) s2(2)] drives_trans[OF s3(2) s4(2)]]
    have "i2c_bit_send_address ops retries msg h \<in>
        {Some (- RT_EIO, h1), Some (- RT_EIO, h2), Some (RT_EOK, h2), Some (- RT_EIO, h4), Some (RT_EOK, h4)}"
      unfolding i2c_bit_send_address_def Let_def ign_def[symmetric] k_def[symmetric] a1_def[symmetric] by (simp add: True s1(1) s2(1) s3(1) s4(1))
    then show ?thesis using that d by blast
  next
    case False
    obtain r1 h1 where s1: "i2c_send_address ops a k h = Some (r1, h1)" "drives h h1" using send_address_drives[OF assms] by metis
    have "i2c_bit_send_address ops retries msg h \<in> {Some (- RT_EIO, h1), Some (RT_EOK, h1)}"
      unfolding i2c_bit_send_address_def Let_def ign_def[symmetric] k_def[symmetric] a_def[symmetric] by (simp add: False s1(1))
    then show ?thesis using that s1(2) by blast
  qed
qed

text \<open>A message whose buffer holds its length, and for which the master acknowledges what it reads.\<close>

definition msg_fits :: "rt_i2c_msg \<Rightarrow> bool" where
  "msg_fits msg \<longleftrightarrow> unat (msg_len msg) \<le> length (msg_buf msg) \<and> msg_flags msg AND RT_I2C_NO_READ_ACK = 0"

lemma msg_begin_drives:
  assumes "responds ops" "\<not> w_scl (wire h)"
  obtains r h' where "(if msg_flags msg AND RT_I2C_NO_START = 0
      then do { h \<leftarrow> (if i \<noteq> (0 :: nat) then i2c_restart ops h else Some h); i2c_bit_send_address ops retries msg h }
      else Some (RT_EOK, h)) = Some (r, h')" "drives h h'"
proof -
  consider "msg_flags msg AND RT_I2C_NO_START \<noteq> 0" | "msg_flags msg AND RT_I2C_NO_START = 0" "i = (0 :: nat)"
    | "msg_flags msg AND RT_I2C_NO_START = 0" "i \<noteq> 0" by blast
  then show ?thesis
  proof cases
    case 1
    then show ?thesis using that[of RT_EOK h] drives_refl[OF assms(2)] by simp
  next
    case 2
    obtain r h' where "i2c_bit_send_address ops retries msg h = Some (r, h')" "drives h h'" using bit_send_address_drives[OF assms] by metis
    then show ?thesis using 2 that by simp
  next
    case 3
    obtain h1 where h1: "i2c_restart ops h = Some h1" "drives h h1" using restart_drives[OF assms] by metis
    obtain r h' where "i2c_bit_send_address ops retries msg h1 = Some (r, h')" "drives h1 h'"
      using bit_send_address_drives[OF assms(1) drives_low[OF h1(2)]] by metis
    then show ?thesis using 3 that h1(1) drives_trans[OF h1(2)] by simp
  qed
qed

lemma msg_data_drives:
  assumes "responds ops" "\<not> w_scl (wire h)" "msg_fits msg"
  shows "\<exists>r h'. i2c_send_bytes ops msg h = Some (r, h') \<and> drives h h'"
    and "\<exists>r buf h'. i2c_recv_bytes ops msg h = Some (r, buf, h') \<and> drives h h'"
  using send_bytes_drives[OF assms(1,2), of 0 "unat (msg_len msg)" "msg_buf msg"]
    recv_bytes_drives[OF assms(1,2), of 0 "unat (msg_len msg)" "msg_buf msg"] assms(3)
  by (simp_all add: i2c_send_bytes_def i2c_recv_bytes_def msg_fits_def)

lemma xfer_msg_drives:
  assumes "responds ops" "\<not> w_scl (wire h)" "msg_fits msg"
  obtains r msg' h' where "xfer_msg ops retries i msg h = Some (r, msg', h')" "drives h h'"
proof -
  obtain r1 h1 where b: "(if msg_flags msg AND RT_I2C_NO_START = 0
      then do { h \<leftarrow> (if i \<noteq> 0 then i2c_restart ops h else Some h); i2c_bit_send_address ops retries msg h }
      else Some (RT_EOK, h)) = Some (r1, h1)" "drives h h1" using msg_begin_drives[OF assms(1,2)] by metis
  obtain r2 h2 where s: "i2c_send_bytes ops msg h1 = Some (r2, h2)" "drives h1 h2"
    using msg_data_drives(1)[OF assms(1) drives_low[OF b(2)] assms(3)] by blast
  obtain r3 buf h3 where r: "i2c_recv_bytes ops msg h1 = Some (r3, buf, h3)" "drives h1 h3"
    using msg_data_drives(2)[OF assms(1) drives_low[OF b(2)] assms(3)] by blast
  define stop where "stop = (r1 \<noteq> RT_EOK \<and> msg_flags msg AND RT_I2C_IGNORE_NACK = 0)"
  define f where "f = (\<lambda>(r :: u32) e. if sint r < uint (msg_len msg) then Inl (if sint r \<ge> 0 then - e else sint r) else Inr () :: int + unit)"
  have "xfer_msg ops retries i msg h \<in>
      {Some (Inl r1, msg, h1), Some (f r2 RT_ERROR, msg, h2), Some (f r3 RT_EIO, msg\<lparr>msg_buf := buf\<rparr>, h3)}"
    unfolding xfer_msg_def Let_def b(1) f_def Option.bind.bind_lunit prod.case stop_def[symmetric]
    by (cases stop; cases "msg_flags msg AND RT_I2C_RD \<noteq> 0") (simp_all add: s(1) r(1))
  then show ?thesis using that b(2) drives_trans[OF b(2) s(2)] drives_trans[OF b(2) r(2)] by blast
qed

lemma xfer_loop_drives:
  assumes "responds ops"
  shows "\<not> w_scl (wire h) \<Longrightarrow> \<forall>msg \<in> set msgs. msg_fits msg \<Longrightarrow>
    \<exists>r msgs' h'. xfer_loop ops retries i msgs h = Some (r, msgs', h') \<and> drives h h'"
proof (induction msgs arbitrary: i h)
  case Nil
  then show ?case by (simp add: drives_refl)
next
  case (Cons msg msgs)
  obtain r m h1 where x: "xfer_msg ops retries i msg h = Some (r, m, h1)" "drives h h1"
    using xfer_msg_drives[OF assms Cons.prems(1)] Cons.prems(2) by (metis list.set_intros(1))
  obtain r2 ms h2 where l: "xfer_loop ops retries (i + 1) msgs h1 = Some (r2, ms, h2)" "drives h1 h2"
    using Cons.IH[OF drives_low[OF x(2)]] Cons.prems(2) by (metis list.set_intros(2))
  show ?case using x l(1) drives_trans[OF x(2) l(2)] by (cases r) simp_all
qed


text \<open>A bus without a way to read the clock line, and a slave that acknowledges everything.\<close>

definition ex_bus :: rt_i2c_bit_ops where
  "ex_bus = \<lparr>get_sda = (\<lambda>_. False), get_scl = None, delay_us = 10, timeout = 100, tick_get = (\<lambda>h. word_of_nat (length h))\<rparr>"

lemma no_get_scl_responds: "get_scl ops = None \<Longrightarrow> responds ops"
  by (simp add: responds_def SCL_H_def)

lemma ex_bus_responds: "responds ex_bus"
  by (rule no_get_scl_responds) (simp add: ex_bus_def)


end
