(* ===== verification/I2c_Data.thy ===== *)
theory I2c_Data
  imports I2c_Wire
begin

text \<open>
  What \<open>rt_i2c_master_send\<close> and \<open>rt_i2c_master_recv\<close> carry over the bus: the bytes on the lines, the bytes in the buffer, and
  the result.
\<close>

subsection \<open>Sending\<close>

lemma send_bytes_wire:
  assumes "responds ops" "\<forall>h. \<not> get_sda ops h"
  shows "wire h = W False d m xs \<Longrightarrow> i + count \<le> length buf \<Longrightarrow>
    \<exists>d' m' h'. send_bytes_loop ops ign buf i count h = Some (word_of_nat (i + count), h') \<and> sees h' = sees h + count \<and>
      wire h' = W False d' m' (xs @ concat (map frame (take count (drop i buf))))"
proof (induction count arbitrary: i h d m xs)
  case (Suc count)
  obtain h1 where w: "i2c_writeb ops (buf ! i) h = Some (1, h1)" "sees h1 = Suc (sees h)" "wire h1 = W False True False (xs @ frame (buf ! i))"
    using writeb_wire[OF assms(1) Suc.prems(1)] assms(2) by metis
  have i: "i < length buf" "take (Suc count) (drop i buf) = buf ! i # take count (drop (i + 1) buf)"
    using Suc.prems(2) by (simp_all add: take_Suc_conv_app_nth Cons_nth_drop_Suc[symmetric])
  from Suc.IH[OF w(3), of "i + 1"] Suc.prems(2) show ?case using w(1,2) i by auto
qed auto

text \<open>The first address byte of a seven bit address, acknowledged at the first attempt.\<close>

definition addr_byte :: "rt_i2c_msg \<Rightarrow> u8" where
  "addr_byte msg = (if msg_flags msg AND RT_I2C_RD \<noteq> 0 then ucast (push_bit 1 (msg_addr msg)) OR 1 else ucast (push_bit 1 (msg_addr msg)))"

lemma send_address_ack:
  assumes "responds ops" "\<And>hx. sees hx = sees h \<Longrightarrow> \<not> get_sda ops hx" "wire h = W False d m xs" "0 \<le> retries"
  obtains h' where "i2c_send_address ops addr retries h = Some (1, h')" "sees h' = Suc (sees h)" "wire h' = W False True False (xs @ frame addr)"
proof -
  obtain hx h' where "i2c_writeb ops addr h = Some (if get_sda ops hx then 0 else 1, h')" "sees hx = sees h" "sees h' = Suc (sees h)"
    "wire h' = W False True False (xs @ frame addr)" by (rule writeb_wire[OF assms(1,3)])
  moreover from this(2) have "\<not> get_sda ops hx" by (rule assms(2))
  ultimately have "i2c_writeb ops addr h = Some (1, h')" by simp
  then have "i2c_send_address ops addr retries h = Some (1, h')" using assms(4)
    by (subst i2c_send_address_def, subst send_address_loop.simps) simp
  then show ?thesis using that \<open>sees h' = Suc (sees h)\<close> \<open>wire h' = W False True False (xs @ frame addr)\<close> by blast
qed

lemma bit_send_address_ack:
  assumes "responds ops" "\<And>hx. sees hx = sees h \<Longrightarrow> \<not> get_sda ops hx" "wire h = W False d m xs" "0 \<le> sint retries"
    "msg_flags msg AND RT_I2C_ADDR_10BIT = 0" "msg_flags msg AND RT_I2C_IGNORE_NACK = 0"
  obtains h' where "i2c_bit_send_address ops retries msg h = Some (RT_EOK, h')" "sees h' = Suc (sees h)"
    "wire h' = W False True False (xs @ frame (addr_byte msg))"
proof -
  obtain h' where "i2c_send_address ops (addr_byte msg) (sint retries) h = Some (1, h')" "sees h' = Suc (sees h)"
    "wire h' = W False True False (xs @ frame (addr_byte msg))" by (rule send_address_ack[OF assms(1-4)])
  moreover from this(1) have "i2c_bit_send_address ops retries msg h = Some (RT_EOK, h')"
    unfolding i2c_bit_send_address_def Let_def addr_byte_def[symmetric] using assms(5,6) by simp
  ultimately show ?thesis using that by blast
qed

lemma sint_of_nat16: "n \<le> 0xffff \<Longrightarrow> sint (word_of_nat n :: u32) = int n"
  by (simp add: signed_of_nat signed_take_bit_int_eq_self)

text \<open>One message, and what the loop over the messages returns for it.\<close>

lemma xfer_single:
  assumes "msg_flags msg AND (RT_I2C_NO_START OR RT_I2C_IGNORE_NACK) = 0"
    "i2c_bit_send_address ops retries msg (i2c_start ops h) = Some (RT_EOK, h1)"
    "if msg_flags msg AND RT_I2C_RD \<noteq> 0
     then i2c_recv_bytes ops msg h1 = Some (word_of_nat (unat (msg_len msg)), buf, h2)
     else i2c_send_bytes ops msg h1 = Some (word_of_nat (unat (msg_len msg)), h2) \<and> buf = msg_buf msg"
    "i2c_stop ops h2 = Some h3"
  shows "i2c_bit_xfer ops retries [msg] h = Some (1, [msg\<lparr>msg_buf := buf\<rparr>], h3)"
proof -
  have "msg_flags msg AND RT_I2C_NO_START = 0" "msg_flags msg AND RT_I2C_IGNORE_NACK = 0"
    using assms(1) by (simp_all only: bit.conj_disj_distrib or_eq_0_iff)
  moreover have "sint (word_of_nat (unat (msg_len msg)) :: u32) = uint (msg_len msg)"
    using sint_of_nat16[of "unat (msg_len msg)"] unsigned_less[of "msg_len msg", where ?'a = nat] by (simp only: of_nat_unat) simp
  moreover have "msg = msg\<lparr>msg_buf := msg_buf msg\<rparr>" by simp
  ultimately have "xfer_msg ops retries 0 msg (i2c_start ops h) = Some (Inr (), msg\<lparr>msg_buf := buf\<rparr>, h2)"
    using assms(2,3) unfolding xfer_msg_def Let_def
    by (cases "msg_flags msg AND RT_I2C_RD \<noteq> 0") simp_all
  then show ?thesis using assms(4) by (simp add: i2c_bit_xfer_def)
qed

lemma send_flags: "(flags AND RT_I2C_ADDR_10BIT = 0) \<Longrightarrow> (flags AND RT_I2C_ADDR_10BIT) AND m = (0 :: u16)"
  by simp

text \<open>C22. A write to a slave that acknowledges every byte, at an address of seven bits: the lines carry a start condition, the address
  with the read bit clear, the bytes of the buffer in order, each with its most significant bit first, and a stop condition. The
  length of the message has sixteen bits: only \<open>count mod 65536\<close> bytes are sent, but the result is \<open>count\<close>.\<close>

theorem i2c_write_wire:
  assumes "responds ops" "\<forall>h. \<not> get_sda ops h" "wire h = W True True m xs" "0 \<le> sint retries"
    "flags AND RT_I2C_ADDR_10BIT = 0" "unat count mod 65536 \<le> length buf"
  shows "\<exists>h'. rt_i2c_master_send (Some (i2c_bit_xfer ops retries)) addr flags buf count h = Some (count, h') \<and>
    wire h' = W True True True
      (xs @ [W_start] @ frame (ucast (push_bit 1 addr)) @ concat (map frame (take (unat count mod 65536) buf)) @ [W_stop])"
proof -
  define msg where "msg = \<lparr>msg_addr = addr, msg_flags = 0, msg_len = ucast count, msg_buf = buf\<rparr>"
  have n: "unat (msg_len msg) = unat count mod 65536" by (simp add: msg_def unsigned_ucast_eq take_bit_eq_mod)
  have s: "wire (i2c_start ops h) = W False False True (xs @ [W_start])" using start_wire[OF assms(3)] by simp
  obtain h1 where a: "i2c_bit_send_address ops retries msg (i2c_start ops h) = Some (RT_EOK, h1)"
    "wire h1 = W False True False ((xs @ [W_start]) @ frame (addr_byte msg))"
    by (rule bit_send_address_ack[OF assms(1) _ s assms(4), of msg]) (use assms(2) in \<open>auto simp: msg_def\<close>)
  obtain d' m' h2 where b: "i2c_send_bytes ops msg h1 = Some (word_of_nat (unat (msg_len msg)), h2)"
    "wire h2 = W False d' m' (((xs @ [W_start]) @ frame (addr_byte msg)) @ concat (map frame (take (unat (msg_len msg)) buf)))"
    using send_bytes_wire[OF assms(1,2) a(2), where i = 0 and count = "unat (msg_len msg)" and buf = buf and ign = False] assms(6) n
    by (auto simp: i2c_send_bytes_def msg_def)
  obtain h3 where c: "i2c_stop ops h2 = Some h3" "wire h3 = W True True True (w_syms (wire h2) @ [W_stop])"
    using stop_wire[OF assms(1) b(2)] b(2) by auto
  have "i2c_bit_xfer ops retries [msg] h = Some (1, [msg\<lparr>msg_buf := buf\<rparr>], h3)"
    by (rule xfer_single[OF _ a(1) _ c(1)]) (use b(1) in \<open>simp_all add: msg_def\<close>)
  then show ?thesis using c(2) b(2) n assms(5)
    by (simp add: rt_i2c_master_send_def rt_i2c_transfer_def msg_def addr_byte_def)
qed

lemma i2c_write_wire_witness:
  "\<exists>h'. rt_i2c_master_send (Some (i2c_bit_xfer ex_bus 1)) 0x50 0 [0x12, 0x34] 0x10001 [] = Some (0x10001, h') \<and>
    wire h' = W True True True
      ([] @ [W_start] @ frame (ucast (push_bit 1 (0x50 :: u16))) @ concat (map frame (take (unat (0x10001 :: u32) mod 65536) [0x12, 0x34])) @ [W_stop])"
  by (rule i2c_write_wire[OF ex_bus_responds]) (simp_all add: ex_bus_def)


subsection \<open>Receiving\<close>

text \<open>
  A slave that puts bit \<open>B k\<close> on the data line for the read number \<open>k\<close> of the master. Byte \<open>k\<close> of the bits from \<open>s\<close> on, and
  what the master puts on the lines for it: the data line released for eight bits, and its acknowledgement for all but the
  last byte.
\<close>

definition slave_byte :: "(nat \<Rightarrow> bool) \<Rightarrow> nat \<Rightarrow> nat \<Rightarrow> u8" where
  "slave_byte B s k = byte_of (map B [s + 8 * k..<s + 8 * k + 8])"

definition read_frame :: "nat \<Rightarrow> nat \<Rightarrow> wire_sym list" where
  "read_frame n k = replicate 8 (W_bit True) @ [W_bit (k + 1 = n)]"

lemma recv_byte_wire:
  assumes "responds ops" "get_sda ops = (\<lambda>h. B (sees h))" "wire h = W False d m xs" "i < length buf"
  obtains h' d' m' where "recv_bytes_loop ops False buf i (Suc count) h =
      recv_bytes_loop ops False (buf[i := slave_byte B (sees h) 0]) (i + 1) count h'" "sees h' = sees h + 8"
    "wire h' = W False d' m' (xs @ read_frame (Suc count) 0)"
proof -
  obtain hs h1 m1 where r: "i2c_readb ops h = Some (uint (byte_of (map (get_sda ops) hs)), h1)" "map sees hs = [sees h..<sees h + 8]"
    "sees h1 = sees h + 8" "wire h1 = W False True m1 (xs @ replicate 8 (W_bit True))" by (rule readb_wire[OF assms(1,3)])
  obtain h2 m2 where a: "i2c_send_ack_or_nack ops (count \<noteq> 0) h1 = Some (0, h2)" "sees h2 = sees h1"
    "wire h2 = W False (\<not> count \<noteq> 0) m2 ((xs @ replicate 8 (W_bit True)) @ [W_bit (\<not> count \<noteq> 0)])"
    by (rule send_ack_wire[OF assms(1) r(4)])
  have "map (get_sda ops) hs = map B (map sees hs)" using assms(2) by simp
  then have "byte_of (map (get_sda ops) hs) = slave_byte B (sees h) 0" using r(2) by (simp add: slave_byte_def)
  then show ?thesis using that[of h2] r(1,3) a assms(4) by (simp add: read_frame_def)
qed

lemma recv_bytes_wire:
  assumes "responds ops" "get_sda ops = (\<lambda>h. B (sees h))"
  shows "wire h = W False d m xs \<Longrightarrow> i + count \<le> length buf \<Longrightarrow>
    \<exists>d' m' h'. recv_bytes_loop ops False buf i count h =
        Some (word_of_nat (i + count), take i buf @ map (slave_byte B (sees h)) [0..<count] @ drop (i + count) buf, h') \<and>
      wire h' = W False d' m' (xs @ concat (map (read_frame count) [0..<count]))"
proof (induction count arbitrary: i h d m xs buf)
  case (Suc count)
  from Suc.prems(2) have i: "i < length buf" by simp
  obtain h1 d1 m1 where r: "recv_bytes_loop ops False buf i (Suc count) h =
      recv_bytes_loop ops False (buf[i := slave_byte B (sees h) 0]) (i + 1) count h1" "sees h1 = sees h + 8"
    "wire h1 = W False d1 m1 (xs @ read_frame (Suc count) 0)" by (rule recv_byte_wire[OF assms Suc.prems(1) i])
  let ?b = "buf[i := slave_byte B (sees h) 0]"
  obtain d' m' h' where l: "recv_bytes_loop ops False ?b (i + 1) count h1 =
      Some (word_of_nat (i + 1 + count), take (i + 1) ?b @ map (slave_byte B (sees h1)) [0..<count] @ drop (i + 1 + count) ?b, h')"
    "wire h' = W False d' m' ((xs @ read_frame (Suc count) 0) @ concat (map (read_frame count) [0..<count]))"
    using Suc.IH[OF r(3), of "i + 1" ?b] Suc.prems(2) by auto
  have "map (slave_byte B (sees h)) [0..<Suc count] = slave_byte B (sees h) 0 # map (slave_byte B (sees h1)) [0..<count]"
    using r(2) by (simp add: map_upt_Suc slave_byte_def algebra_simps del: upt_Suc)
  moreover have "take (i + 1) ?b = take i buf @ [slave_byte B (sees h) 0]" using i by (simp add: take_Suc_conv_app_nth)
  moreover have "map (read_frame (Suc count)) [0..<Suc count] = read_frame (Suc count) 0 # map (read_frame count) [0..<count]"
    by (simp add: map_upt_Suc read_frame_def del: upt_Suc)
  ultimately show ?case using r(1) l by (simp del: recv_bytes_loop.simps upt_Suc)
qed auto

text \<open>C23. A read from a slave that acknowledges its address of seven bits and then sends the bits \<open>B\<close> in order, one for each read of the
  data line. The buffer gets the bytes of the slave, each from its most significant bit on, and the rest of it is as it was. The lines carry the
  address with the read bit set; the master acknowledges every byte but the last. The length of the message has sixteen bits,
  as for a write.\<close>

theorem i2c_read_stream:
  assumes "responds ops" "get_sda ops = (\<lambda>h. B (sees h))" "\<not> B (sees h)" "wire h = W True True m xs" "0 \<le> sint retries"
    "flags AND RT_I2C_ADDR_10BIT = 0" "n = unat count mod 65536" "n \<le> length buf"
  shows "\<exists>h'. rt_i2c_master_recv (Some (i2c_bit_xfer ops retries)) addr flags buf count h =
      Some (count, map (slave_byte B (Suc (sees h))) [0..<n] @ drop n buf, h') \<and>
    wire h' = W True True True
      (xs @ [W_start] @ frame (ucast (push_bit 1 addr) OR 1) @ concat (map (read_frame n) [0..<n]) @ [W_stop])"
proof -
  define msg where "msg = \<lparr>msg_addr = addr, msg_flags = RT_I2C_RD, msg_len = ucast count, msg_buf = buf\<rparr>"
  have n: "unat (msg_len msg) = n" using assms(7) by (simp add: msg_def unsigned_ucast_eq take_bit_eq_mod)
  have s: "wire (i2c_start ops h) = W False False True (xs @ [W_start])" "sees (i2c_start ops h) = sees h"
    using start_wire[OF assms(4)] by simp_all
  obtain h1 where a: "i2c_bit_send_address ops retries msg (i2c_start ops h) = Some (RT_EOK, h1)" "sees h1 = Suc (sees h)"
    "wire h1 = W False True False ((xs @ [W_start]) @ frame (addr_byte msg))"
    by (rule bit_send_address_ack[OF assms(1) _ s(1) assms(5), of msg]) (use assms(2,3) s(2) in \<open>auto simp: msg_def\<close>)
  obtain d' m' h2 where b: "i2c_recv_bytes ops msg h1 =
      Some (word_of_nat (unat (msg_len msg)), map (slave_byte B (Suc (sees h))) [0..<n] @ drop n buf, h2)"
    "wire h2 = W False d' m' (((xs @ [W_start]) @ frame (addr_byte msg)) @ concat (map (read_frame n) [0..<n]))"
    using recv_bytes_wire[OF assms(1,2) a(3), of 0 n buf] assms(8) n a(2)
    by (auto simp: i2c_recv_bytes_def msg_def)
  obtain h3 where c: "i2c_stop ops h2 = Some h3" "wire h3 = W True True True (w_syms (wire h2) @ [W_stop])"
    using stop_wire[OF assms(1) b(2)] b(2) by auto
  have "i2c_bit_xfer ops retries [msg] h = Some (1, [msg\<lparr>msg_buf := map (slave_byte B (Suc (sees h))) [0..<n] @ drop n buf\<rparr>], h3)"
    by (rule xfer_single[OF _ a(1) _ c(1)]) (use b(1) in \<open>simp_all add: msg_def\<close>)
  then show ?thesis using c(2) b(2) assms(6)
    by (simp add: rt_i2c_master_recv_def rt_i2c_transfer_def msg_def addr_byte_def)
qed

text \<open>Two bytes: the slave acknowledges with its first bit, and sends \<open>0xff\<close> and \<open>0\<close>.\<close>

definition ex_slave :: rt_i2c_bit_ops where
  "ex_slave = ex_bus\<lparr>get_sda := (\<lambda>h. 0 < sees h \<and> sees h < 9)\<rparr>"

lemma ex_slave_responds: "responds ex_slave"
  by (rule no_get_scl_responds) (simp add: ex_slave_def ex_bus_def)

lemma i2c_read_stream_witness:
  "\<exists>h'. rt_i2c_master_recv (Some (i2c_bit_xfer ex_slave 1)) 0x50 0 [7, 7, 7] 2 [] =
      Some (2, map (slave_byte (\<lambda>k. 0 < k \<and> k < 9) (Suc (sees []))) [0..<2] @ drop 2 [7, 7, 7], h') \<and>
    wire h' = W True True True
      ([] @ [W_start] @ frame (ucast (push_bit 1 (0x50 :: u16)) OR 1) @ concat (map (read_frame 2) [0..<2]) @ [W_stop])"
  by (rule i2c_read_stream[OF ex_slave_responds]) (simp_all add: ex_slave_def)


text \<open>A byte that is sent bit by bit in the order of \<open>byte_bits\<close> is read as it was.\<close>

lemma shift_in_bit: "n < 8 \<Longrightarrow> bit (if b then push_bit 1 d OR 1 else push_bit 1 (d :: u8)) n = (if n = 0 then b else bit d (n - 1))"
  by (cases b) (simp_all only: if_True if_False bit_or_iff bit_push_bit_iff, auto simp: bit_1_iff)

lemma bit_byte_of: "n < 8 \<Longrightarrow> bit (byte_of bs) n = (n < length bs \<and> rev bs ! n)"
proof (induction bs arbitrary: n rule: rev_induct)
  case (snoc b bs)
  have "byte_of (bs @ [b]) = (if b then push_bit 1 (byte_of bs) OR 1 else push_bit 1 (byte_of bs))" by (simp add: byte_of_def)
  then show ?case using snoc shift_in_bit[OF snoc.prems, of b "byte_of bs"] by (cases n) auto
qed (simp add: byte_of_def)

lemma byte_of_bits: "byte_of (byte_bits d) = d"
proof (rule bit_word_eqI)
  fix n
  assume "n < LENGTH(8)"
  then show "bit (byte_of (byte_bits d)) n = bit d n" using bit_byte_of[of n "byte_bits d"]
    by (simp add: byte_bits_def rev_map)
qed

subsection \<open>No acknowledgement\<close>

lemma send_address_nack:
  assumes "responds ops" "\<forall>h. get_sda ops h"
  shows "wire h = W False d m xs \<Longrightarrow>
    \<exists>d' m' h'. send_address_loop ops addr k h = Some (0, h') \<and>
      wire h' = W False d' m' (xs @ frame addr @ concat (replicate k ([W_stop, W_start] @ frame addr)))"
proof (induction k arbitrary: h d m xs)
  case 0
  obtain h1 where w: "i2c_writeb ops addr h = Some (0, h1)" "wire h1 = W False True False (xs @ frame addr)"
    using writeb_wire[OF assms(1) 0] assms(2) by metis
  then show ?case by auto
next
  case (Suc k)
  obtain h1 where w: "i2c_writeb ops addr h = Some (0, h1)" "wire h1 = W False True False (xs @ frame addr)"
    using writeb_wire[OF assms(1) Suc.prems] assms(2) by metis
  obtain h2 where s: "i2c_stop ops h1 = Some h2" "wire (i2c_delay2 ops h2) = W True True True ((xs @ frame addr) @ [W_stop])"
    using stop_wire[OF assms(1) w(2)] by (metis delay_simps(2))
  obtain d' m' h' where l: "send_address_loop ops addr k (i2c_start ops (i2c_delay2 ops h2)) = Some (0, h')"
    "wire h' = W False d' m' ((((xs @ frame addr) @ [W_stop]) @ [W_start]) @ frame addr @ concat (replicate k ([W_stop, W_start] @ frame addr)))"
    using Suc.IH[OF conjunct1[OF start_wire[OF s(2)]]] by blast
  show ?case using w(1) s(1) l by simp
qed

text \<open>Nobody acknowledges the address: it is sent once and then as many times as the bus has retries, each time after a stop
  and a start condition. The transfer ends with \<open>RT_EIO\<close> and a stop condition, none of the messages is carried, and the
  buffers are as they were.\<close>

theorem i2c_address_nack:
  assumes "responds ops" "\<forall>h. get_sda ops h" "wire h = W True True m xs" "0 \<le> sint retries"
    "msg_flags msg AND (RT_I2C_ADDR_10BIT OR RT_I2C_NO_START OR RT_I2C_IGNORE_NACK) = 0"
  shows "\<exists>h'. i2c_bit_xfer ops retries (msg # msgs) h = Some (word_of_int (- RT_EIO), msg # msgs, h') \<and>
    wire h' = W True True True (xs @ [W_start] @ frame (addr_byte msg) @
      concat (replicate (nat (sint retries)) ([W_stop, W_start] @ frame (addr_byte msg))) @ [W_stop])"
proof -
  have f: "msg_flags msg AND RT_I2C_ADDR_10BIT = 0" "msg_flags msg AND RT_I2C_NO_START = 0" "msg_flags msg AND RT_I2C_IGNORE_NACK = 0"
    using assms(5) by (simp_all only: bit.conj_disj_distrib or_eq_0_iff)
  have s: "wire (i2c_start ops h) = W False False True (xs @ [W_start])" using start_wire[OF assms(3)] by simp
  obtain d' m' h1 where a: "send_address_loop ops (addr_byte msg) (nat (sint retries)) (i2c_start ops h) = Some (0, h1)"
    "wire h1 = W False d' m' ((xs @ [W_start]) @ frame (addr_byte msg) @
      concat (replicate (nat (sint retries)) ([W_stop, W_start] @ frame (addr_byte msg))))"
    using send_address_nack[OF assms(1,2) s] by blast
  then have "i2c_bit_send_address ops retries msg (i2c_start ops h) = Some (- RT_EIO, h1)"
    unfolding i2c_bit_send_address_def Let_def addr_byte_def[symmetric] i2c_send_address_def using f(1,3) assms(4) by simp
  then have "xfer_msg ops retries 0 msg (i2c_start ops h) = Some (Inl (- RT_EIO), msg, h1)"
    unfolding xfer_msg_def Let_def using f by simp
  moreover obtain h' where "i2c_stop ops h1 = Some h'" "wire h' = W True True True (w_syms (wire h1) @ [W_stop])"
    using stop_wire[OF assms(1) a(2)] a(2) by auto
  ultimately show ?thesis using a(2) by (simp add: i2c_bit_xfer_def)
qed

definition ex_absent :: rt_i2c_bit_ops where
  "ex_absent = ex_bus\<lparr>get_sda := (\<lambda>h. True)\<rparr>"

lemma ex_absent_responds: "responds ex_absent"
  by (rule no_get_scl_responds) (simp add: ex_absent_def ex_bus_def)

lemma i2c_address_nack_witness:
  "\<exists>h'. i2c_bit_xfer ex_absent 2 [\<lparr>msg_addr = 0x50, msg_flags = 1, msg_len = 1, msg_buf = [7]\<rparr>] [] =
      Some (word_of_int (- RT_EIO), [\<lparr>msg_addr = 0x50, msg_flags = 1, msg_len = 1, msg_buf = [7]\<rparr>], h') \<and>
    wire h' = W True True True ([] @ [W_start] @ frame (addr_byte \<lparr>msg_addr = 0x50, msg_flags = 1, msg_len = 1, msg_buf = [7]\<rparr>) @
      concat (replicate (nat (sint (2 :: u32))) ([W_stop, W_start] @ frame (addr_byte \<lparr>msg_addr = 0x50, msg_flags = 1, msg_len = 1, msg_buf = [7]\<rparr>))) @ [W_stop])"
  by (rule i2c_address_nack[OF ex_absent_responds]) (simp_all add: ex_absent_def)

end
