(* ===== verification/I2c_Clock.thy ===== *)
theory I2c_Clock
  imports I2c_Wire
begin

text \<open>
  Slaves that hold the clock low: how long the master waits for the line, and that every transfer returns.
\<close>

subsection \<open>A slave that holds the clock\<close>

text \<open>
  The time in ticks that a history takes: it does not run backwards, a delay takes at least what was asked for, and between two
  looks at the tick at most \<open>j\<close> ticks more.
\<close>

definition tick_runs :: "rt_i2c_bit_ops \<Rightarrow> nat \<Rightarrow> (i2c_hist \<Rightarrow> nat) \<Rightarrow> bool" where
  "tick_runs ops j T \<longleftrightarrow> (\<forall>h. tick_get ops h = word_of_nat (T h)) \<and>
     (\<forall>h. T h \<le> T (See_scl # h) \<and> T (See_scl # h) \<le> T h + j) \<and>
     (\<forall>n h. T h + unat n \<le> T (Delay n # h) \<and> T (Delay n # h) \<le> T h + unat n + j)"

lemma poll_delay:
  assumes "timeout ops \<noteq> 0" "timeout ops \<noteq> 0xffffffff"
  shows "0 < unat (drop_bit 1 (timeout ops + 1))" "unat (drop_bit 1 (timeout ops + 1)) \<le> unat (timeout ops)"
proof -
  have "(- 1 :: u32) = 0xffffffff" by simp
  then have "timeout ops \<noteq> - 1" using assms(2) by metis
  then have "unat (timeout ops + 1) = Suc (unat (timeout ops))" by (simp add: unatSuc add.commute[of _ 1] eq_neg_iff_add_eq_0)
  moreover have "0 < unat (timeout ops)" using assms(1) by (simp add: unat_gt_0)
  ultimately show "0 < unat (drop_bit 1 (timeout ops + 1))" "unat (drop_bit 1 (timeout ops + 1)) \<le> unat (timeout ops)"
    by (simp_all add: drop_bit_eq_div unat_div_distrib)
qed


lemma scl_wait_ends:
  assumes "tick_runs ops j T" "timeout ops \<noteq> 0" "timeout ops \<noteq> 0xffffffff"
    "2 * unat (timeout ops) + 2 * j < 2 ^ 32"
  shows "T h \<le> t0 + 2 * unat (timeout ops) + j \<Longrightarrow> t0 \<le> T h \<Longrightarrow>
    \<exists>ok h'. scl_wait ops scl (word_of_nat t0) h = Some (ok, h') \<and> T h' \<le> t0 + 2 * unat (timeout ops) + 2 * j \<and>
      (if ok then \<exists>h1. scl h1 \<and> h' = See_scl # h1 else t0 + unat (timeout ops) < T h')"
proof (induction "t0 + 2 * unat (timeout ops) + j - T h" arbitrary: h rule: less_induct)
  case less
  let ?h = "See_scl # h" and ?d = "drop_bit 1 (timeout ops + 1)"
  have t: "T h \<le> T ?h" "T ?h \<le> T h + j" "tick_get ops ?h = word_of_nat (T ?h)"
    "T ?h + unat ?d \<le> T (Delay ?d # ?h)" "T (Delay ?d # ?h) \<le> T ?h + unat ?d + j"
    using assms(1) by (simp_all add: tick_runs_def)
  have "tick_get ops ?h - word_of_nat t0 = (word_of_nat (T ?h - t0) :: u32)" using t(1,3) less.prems by simp
  moreover have "T ?h - t0 < 2 ^ 32" using t(2) less.prems assms(4) by linarith
  ultimately have e: "unat (tick_get ops ?h - word_of_nat t0) = T ?h - t0" by (simp add: unsigned_of_nat take_bit_nat_eq_self)
  show ?case
  proof (cases "scl h \<or> tick_get ops ?h - word_of_nat t0 > timeout ops")
    case True
    then have "scl_wait ops scl (word_of_nat t0) h = Some (scl h, ?h)" by (subst scl_wait.simps) auto
    moreover have "T ?h \<le> t0 + 2 * unat (timeout ops) + 2 * j" using t(2) less.prems(1) by linarith
    moreover have "\<not> scl h \<Longrightarrow> t0 + unat (timeout ops) < T ?h" using True e by (simp add: word_less_nat_alt)
    ultimately show ?thesis by auto
  next
    case False
    note d = poll_delay[OF assms(2,3)]
    have "T ?h - t0 \<le> unat (timeout ops)" using False e by (simp add: word_less_nat_alt)
    then have "T (Delay ?d # ?h) \<le> t0 + 2 * unat (timeout ops) + j" "T h < T (Delay ?d # ?h)" using d t less.prems by linarith+
    then have "\<exists>ok h'. scl_wait ops scl (word_of_nat t0) (Delay ?d # ?h) = Some (ok, h') \<and> T h' \<le> t0 + 2 * unat (timeout ops) + 2 * j \<and>
      (if ok then \<exists>h1. scl h1 \<and> h' = See_scl # h1 else t0 + unat (timeout ops) < T h')"
      using less.prems by (intro less.hyps) linarith+
    then show ?thesis using False by (subst scl_wait.simps) simp
  qed
qed

text \<open>A bus that cannot read its clock line, or one with a tick that runs and a timeout with a delay between two looks at the line.\<close>

definition runs :: "rt_i2c_bit_ops \<Rightarrow> nat \<Rightarrow> (i2c_hist \<Rightarrow> nat) \<Rightarrow> bool" where
  "runs ops j T \<longleftrightarrow> get_scl ops = None \<or>
     (tick_runs ops j T \<and> timeout ops \<noteq> 0 \<and> timeout ops \<noteq> 0xffffffff \<and> 2 * unat (timeout ops) + 2 * j < 2 ^ 32)"

lemma SCL_H_ends:
  assumes "runs ops j T"
  obtains ok h' where "SCL_H ops h = Some (ok, h')"
proof (cases "get_scl ops")
  case None
  then show ?thesis using that by (simp add: SCL_H_def)
next
  case (Some scl)
  let ?h = "Scl True # h"
  have r: "tick_runs ops j T" "timeout ops \<noteq> 0" "timeout ops \<noteq> 0xffffffff" "2 * unat (timeout ops) + 2 * j < 2 ^ 32"
    using assms Some by (simp_all add: runs_def)
  have "tick_get ops ?h = word_of_nat (T ?h)" using r(1) by (simp add: tick_runs_def)
  moreover obtain ok h' where "scl_wait ops scl (word_of_nat (T ?h)) ?h = Some (ok, h')"
    using scl_wait_ends[OF r, of ?h "T ?h" scl] by auto
  ultimately show ?thesis using that Some by (simp add: SCL_H_def)
qed

lemma start_stop_end:
  assumes "runs ops j T"
  shows "\<exists>h'. i2c_restart ops h = Some h'" "\<exists>h'. i2c_stop ops h = Some h'"
    "\<exists>r h'. i2c_waitack ops h = Some (r, h')" "\<exists>r h'. i2c_send_ack_or_nack ops ack h = Some (r, h')"
proof -
  obtain ok h1 where h1: "SCL_H ops (Sda True # h) = Some (ok, h1)" by (rule SCL_H_ends[OF assms])
  then show "\<exists>h'. i2c_restart ops h = Some h'" by (simp add: i2c_restart_def)
  obtain ok h1 where "SCL_H ops (i2c_delay ops (Sda False # h)) = Some (ok, h1)" by (rule SCL_H_ends[OF assms])
  then show "\<exists>h'. i2c_stop ops h = Some h'" by (simp add: i2c_stop_def)
  obtain ok h1 where "SCL_H ops (i2c_delay ops (Sda True # h)) = Some (ok, h1)" by (rule SCL_H_ends[OF assms])
  then show "\<exists>r h'. i2c_waitack ops h = Some (r, h')" by (cases ok) (simp_all add: i2c_waitack_def)
  obtain ok h1 where "SCL_H ops (i2c_delay ops (if ack then Sda False # h else h)) = Some (ok, h1)" by (rule SCL_H_ends[OF assms])
  then show "\<exists>r h'. i2c_send_ack_or_nack ops ack h = Some (r, h')" by (cases ok) (simp_all add: i2c_send_ack_or_nack_def)
qed

lemma writeb_ends:
  assumes "runs ops j T"
  shows "\<exists>r h'. i2c_writeb ops data h = Some (r, h')"
proof -
  have "\<exists>ok h'. writeb_loop ops n data h = Some (ok, h')" for n
  proof (induction n arbitrary: h)
    case (Suc n)
    obtain ok h1 where "SCL_H ops (i2c_delay ops (Sda (drop_bit n data AND 1 = 1) # Scl False # h)) = Some (ok, h1)"
      by (rule SCL_H_ends[OF assms])
    then show ?case using Suc[of h1] by (cases ok) auto
  qed auto
  then obtain ok h1 where "writeb_loop ops 8 data h = Some (ok, h1)" by blast
  then show ?thesis using start_stop_end(3)[OF assms, of "i2c_delay ops (Scl False # h1)"] by (cases ok) (simp_all add: i2c_writeb_def)
qed

lemma readb_ends:
  assumes "runs ops j T"
  shows "\<exists>r h'. i2c_readb ops h = Some (r, h')"
proof -
  have "\<exists>r h'. readb_loop ops n data h = Some (r, h')" for n data h
  proof (induction n arbitrary: data h)
    case (Suc n)
    obtain ok h1 where "SCL_H ops h = Some (ok, h1)" by (rule SCL_H_ends[OF assms])
    then show ?case using Suc by (cases ok) simp_all
  qed simp
  then show ?thesis by (simp add: i2c_readb_def)
qed

lemma send_bytes_ends:
  assumes "runs ops j T"
  shows "i + count \<le> length buf \<Longrightarrow> \<exists>r h'. send_bytes_loop ops ign buf i count h = Some (r, h')"
proof (induction count arbitrary: i h)
  case (Suc count)
  obtain r h1 where "i2c_writeb ops (buf ! i) h = Some (r, h1)" using writeb_ends[OF assms] by blast
  moreover have "i < length buf" using Suc.prems by simp
  ultimately show ?case using Suc.IH[of "i + 1" h1] Suc.prems by simp
qed simp

lemma recv_bytes_ends:
  assumes "runs ops j T"
  shows "i + count \<le> length buf \<Longrightarrow> \<exists>r buf' h'. recv_bytes_loop ops no_ack buf i count h = Some (r, buf', h')"
proof (induction count arbitrary: i h buf)
  case (Suc count)
  obtain v h1 where r: "i2c_readb ops h = Some (v, h1)" using readb_ends[OF assms] by blast
  obtain v2 h2 where a: "i2c_send_ack_or_nack ops (count \<noteq> 0) h1 = Some (v2, h2)" using start_stop_end(4)[OF assms] by blast
  have i: "i < length buf" "i + 1 + count \<le> length (buf[i := word_of_int v])" using Suc.prems by simp_all
  note ih = Suc.IH[OF i(2)]
  show ?case using r a i(1) ih[of h1] ih[of h2] by (cases no_ack) (simp_all add: Let_def)
qed simp

lemma send_address_ends:
  assumes "runs ops j T"
  shows "\<exists>r h'. i2c_send_address ops addr retries h = Some (r, h')"
proof -
  have "\<exists>r h'. send_address_loop ops addr k h = Some (r, h')" for k h
  proof (induction k arbitrary: h)
    case 0
    obtain r h1 where "i2c_writeb ops addr h = Some (r, h1)" using writeb_ends[OF assms] by blast
    then show ?case by simp
  next
    case (Suc k)
    obtain r h1 where "i2c_writeb ops addr h = Some (r, h1)" using writeb_ends[OF assms] by blast
    moreover obtain h2 where "i2c_stop ops h1 = Some h2" using start_stop_end(2)[OF assms] by blast
    ultimately show ?case using Suc by simp
  qed
  then show ?thesis by (simp add: i2c_send_address_def)
qed


lemma bit_send_address_ends:
  assumes "runs ops j T"
  shows "\<exists>r h'. i2c_bit_send_address ops retries msg h = Some (r, h')"
proof -
  define ign where "ign = (msg_flags msg AND RT_I2C_IGNORE_NACK \<noteq> 0)"
  define k where "k = (if ign then 0 else sint retries)"
  have s: "\<exists>r h'. i2c_send_address ops a k h = Some (r, h')" for a h by (rule send_address_ends[OF assms])
  have c: "\<exists>r h'. do { (ret, h) \<leftarrow> i2c_send_address ops a k h; if ret \<noteq> 1 \<and> \<not> ign then Some (- RT_EIO, h) else Some (RT_EOK, h) } =
    Some (r, h')" for a h using s[of a h] by auto
  have b: "\<exists>r h'. (if c then do { h \<leftarrow> i2c_restart ops h; (ret, h) \<leftarrow> i2c_send_address ops a k h;
      if ret \<noteq> 1 \<and> \<not> ign then Some (- RT_EIO, h) else Some (RT_EOK, h) } else Some (RT_EOK, h)) = Some (r, h')" for c a h
    using start_stop_end(1)[OF assms, of h] c by (cases c) auto
  obtain r1 h1 where s1: "i2c_send_address ops (0xf0 OR (ucast (drop_bit 7 (msg_addr msg)) AND 6)) k h = Some (r1, h1)" using s by blast
  obtain r2 h2 where s2: "i2c_writeb ops (ucast (msg_addr msg AND 0xff)) h1 = Some (r2, h2)" using writeb_ends[OF assms] by blast
  show ?thesis unfolding i2c_bit_send_address_def Let_def ign_def[symmetric] k_def[symmetric]
    using s1 s2 b c by (cases "r1 = 1 \<or> ign"; cases "r2 = 1 \<or> ign") simp_all
qed

lemma xfer_msg_ends:
  assumes "runs ops j T" "unat (msg_len msg) \<le> length (msg_buf msg)"
  shows "\<exists>r msg' h'. xfer_msg ops retries i msg h = Some (r, msg', h')"
proof -
  have "\<exists>r h'. (if msg_flags msg AND RT_I2C_NO_START = 0
      then do { h \<leftarrow> (if i \<noteq> 0 then i2c_restart ops h else Some h); i2c_bit_send_address ops retries msg h }
      else Some (RT_EOK, h)) = Some (r, h')"
    using start_stop_end(1)[OF assms(1), of h] bit_send_address_ends[OF assms(1)] by (cases "i \<noteq> 0") auto
  then obtain r1 h1 where b: "(if msg_flags msg AND RT_I2C_NO_START = 0
      then do { h \<leftarrow> (if i \<noteq> 0 then i2c_restart ops h else Some h); i2c_bit_send_address ops retries msg h }
      else Some (RT_EOK, h)) = Some (r1, h1)" by blast
  obtain r2 h2 where s: "i2c_send_bytes ops msg h1 = Some (r2, h2)"
    using send_bytes_ends[OF assms(1), of 0 "unat (msg_len msg)" "msg_buf msg"] assms(2) unfolding i2c_send_bytes_def add_0 by blast
  obtain r3 buf h3 where r: "i2c_recv_bytes ops msg h1 = Some (r3, buf, h3)"
    using recv_bytes_ends[OF assms(1), of 0 "unat (msg_len msg)" "msg_buf msg"] assms(2) unfolding i2c_recv_bytes_def add_0 by blast
  define stop where "stop = (r1 \<noteq> RT_EOK \<and> msg_flags msg AND RT_I2C_IGNORE_NACK = 0)"
  show ?thesis unfolding xfer_msg_def Let_def b Option.bind.bind_lunit prod.case stop_def[symmetric]
    by (cases stop; cases "msg_flags msg AND RT_I2C_RD \<noteq> 0") (simp_all add: s r)
qed


text \<open>A clock line that is never released, with a tick for every operation on the bus beside the delays.\<close>

primrec ex_ticks :: "i2c_hist \<Rightarrow> nat" where
  "ex_ticks [] = 0"
| "ex_ticks (e # h) = (case e of Delay n \<Rightarrow> ex_ticks h + unat n | _ \<Rightarrow> ex_ticks h + 1)"

definition ex_stuck :: rt_i2c_bit_ops where
  "ex_stuck = ex_bus\<lparr>get_scl := Some (\<lambda>_. False), tick_get := \<lambda>h. word_of_nat (ex_ticks h)\<rparr>"



end
