(* ===== verification/Serial.thy ===== *)
theory Serial
  imports Device Completion
begin

text \<open>
  The serial device (\<open>components/drivers/serial/serial.c\<close>), as it is compiled here, without DMA and termios: a driver for
  the framework of \<open>Device\<close>, over the functions of a UART.

  The data of the driver are the configuration of a device and what it has allocated for its receiver and transmitter. The
  functions of the UART are in the record \<open>uart_ops\<close>, with the state \<open>'h\<close> of the hardware; so are what a pointer to a
  configuration points to and whether there is memory. A write that waits for the transmitter does not return within the
  call.
\<close>

subsection \<open>State\<close>

record serial_configure =
  baud_rate :: u32
  data_bits :: nat
  stop_bits :: nat
  parity :: nat
  bit_order :: nat
  invert :: nat
  bufsz :: u16

record rt_serial_rx_fifo =
  rx_buffer :: "u8 list"
  put_index :: u16
  get_index :: u16
  is_full :: bool

record rt_serial_device =
  sr_config :: serial_configure
  sr_rx :: "rt_serial_rx_fifo option"
  sr_tx :: "rt_completion option"

record 'h uarts =
  ua_serial :: "nat \<Rightarrow> rt_serial_device"
  ua_hw :: 'h
  ua_word :: "u32 \<Rightarrow> u32" \<comment> \<open>the words that programs pass by their address\<close>

record 'h uart_ops =
  uart_configure :: "(nat \<Rightarrow> serial_configure \<Rightarrow> 'h \<Rightarrow> rt_err_t \<times> 'h) option"
  uart_control :: "nat \<Rightarrow> int \<Rightarrow> u32 \<Rightarrow> 'h \<Rightarrow> rt_err_t \<times> 'h"
  uart_putc :: "nat \<Rightarrow> u8 \<Rightarrow> 'h \<Rightarrow> int \<times> 'h"
  uart_getc :: "nat \<Rightarrow> 'h \<Rightarrow> int \<times> 'h"
  uart_args :: "u32 \<Rightarrow> serial_configure"
  uart_memory :: bool

abbreviation (input) RT_DEVICE_FLAG_STREAM :: u16 where "RT_DEVICE_FLAG_STREAM \<equiv> 0x40"
abbreviation (input) RT_DEVICE_FLAG_SUSPENDED :: u16 where "RT_DEVICE_FLAG_SUSPENDED \<equiv> 0x20"
abbreviation (input) RT_DEVICE_FLAG_INT_RX :: u16 where "RT_DEVICE_FLAG_INT_RX \<equiv> 0x100"
abbreviation (input) RT_DEVICE_FLAG_INT_TX :: u16 where "RT_DEVICE_FLAG_INT_TX \<equiv> 0x400"
abbreviation (input) RT_DEVICE_CTRL_RESUME :: int where "RT_DEVICE_CTRL_RESUME \<equiv> 1"
abbreviation (input) RT_DEVICE_CTRL_SUSPEND :: int where "RT_DEVICE_CTRL_SUSPEND \<equiv> 2"
abbreviation (input) RT_DEVICE_CTRL_CONFIG :: int where "RT_DEVICE_CTRL_CONFIG \<equiv> 3"
abbreviation (input) RT_DEVICE_CTRL_SET_INT :: int where "RT_DEVICE_CTRL_SET_INT \<equiv> 0x10"
abbreviation (input) RT_DEVICE_CTRL_CLR_INT :: int where "RT_DEVICE_CTRL_CLR_INT \<equiv> 0x11"
abbreviation (input) FIONREAD :: int where "FIONREAD \<equiv> 0x8004667f - 0x100000000"
abbreviation (input) LINE_FEED :: u8 where "LINE_FEED \<equiv> 10"
abbreviation (input) CARRIAGE_RETURN :: u8 where "CARRIAGE_RETURN \<equiv> 13"

definition serial :: "nat \<Rightarrow> 'h uarts devices \<Rightarrow> rt_serial_device" where
  "serial n st = ua_serial (dv_user st) n"

definition upd_serial :: "nat \<Rightarrow> (rt_serial_device \<Rightarrow> rt_serial_device) \<Rightarrow> 'h uarts devices \<Rightarrow> 'h uarts devices" where
  "upd_serial n f st = st\<lparr>dv_user := (dv_user st)\<lparr>ua_serial := (ua_serial (dv_user st))(n := f (ua_serial (dv_user st) n))\<rparr>\<rparr>"

definition hw :: "'h uarts devices \<Rightarrow> 'h" where
  "hw st = ua_hw (dv_user st)"

definition set_hw :: "'h \<Rightarrow> 'h uarts devices \<Rightarrow> 'h uarts devices" where
  "set_hw h st = st\<lparr>dv_user := (dv_user st)\<lparr>ua_hw := h\<rparr>\<rparr>"

text \<open>Flags of an open device.\<close>

definition oflag_set :: "nat \<Rightarrow> u16 \<Rightarrow> 'h uarts devices \<Rightarrow> 'h uarts devices" where
  "oflag_set n b st = upd_dev n (\<lambda>d. d\<lparr>dev_open_flag := dev_open_flag d OR b\<rparr>) st"

definition oflag_clear :: "nat \<Rightarrow> u16 \<Rightarrow> 'h uarts devices \<Rightarrow> 'h uarts devices" where
  "oflag_clear n b st = upd_dev n (\<lambda>d. d\<lparr>dev_open_flag := dev_open_flag d AND NOT b\<rparr>) st"

definition has_oflag :: "nat \<Rightarrow> u16 \<Rightarrow> 'h uarts devices \<Rightarrow> bool" where
  "has_oflag n b st \<longleftrightarrow> dev_open_flag (dv_dev st n) AND b \<noteq> 0"

definition serial_ctrl :: "'h uart_ops \<Rightarrow> nat \<Rightarrow> int \<Rightarrow> u32 \<Rightarrow> 'h uarts devices \<Rightarrow> rt_err_t \<times> 'h uarts devices" where
  "serial_ctrl ops n cmd arg st = (let (r, h) = uart_control ops n cmd arg (hw st) in (r, set_hw h st))"

subsection \<open>Polling\<close>

fun serial_poll_rx :: "'h uart_ops \<Rightarrow> nat \<Rightarrow> nat \<Rightarrow> 'h \<Rightarrow> u8 list \<times> 'h" where
  "serial_poll_rx ops n 0 h = ([], h)"
| "serial_poll_rx ops n (Suc len) h =
     (let (ch, h) = uart_getc ops n h
      in if ch = - 1 then ([], h)
         else if ch = uint LINE_FEED then ([word_of_int ch], h)
         else let (cs, h) = serial_poll_rx ops n len h in (word_of_int ch # cs, h))"

fun serial_poll_tx :: "'h uart_ops \<Rightarrow> nat \<Rightarrow> bool \<Rightarrow> u8 list \<Rightarrow> 'h \<Rightarrow> 'h" where
  "serial_poll_tx ops n stream [] h = h"
| "serial_poll_tx ops n stream (c # cs) h =
     (let h = (if c = LINE_FEED \<and> stream then snd (uart_putc ops n CARRIAGE_RETURN h) else h);
          (_, h) = uart_putc ops n c h
      in serial_poll_tx ops n stream cs h)"

subsection \<open>The receive FIFO\<close>

text \<open>A section with interrupts disabled: \<open>fifo_get\<close> of a reader, \<open>fifo_put\<close> of the interrupt.\<close>

definition fifo_wrap :: "u16 \<Rightarrow> u16 \<Rightarrow> u16" where
  "fifo_wrap n i = (if i \<ge> n then 0 else i)"

definition fifo_get :: "u16 \<Rightarrow> rt_serial_rx_fifo \<Rightarrow> (u8 option \<times> rt_serial_rx_fifo) option" where
  "fifo_get n f =
     (if get_index f = put_index f \<and> \<not> is_full f then Some (None, f)
      else if unat (get_index f) < length (rx_buffer f)
      then Some (Some (rx_buffer f ! unat (get_index f)), f\<lparr>get_index := fifo_wrap n (get_index f + 1), is_full := False\<rparr>)
      else None)"

definition fifo_put :: "u16 \<Rightarrow> u8 \<Rightarrow> rt_serial_rx_fifo \<Rightarrow> rt_serial_rx_fifo option" where
  "fifo_put n ch f =
     (if unat (put_index f) < length (rx_buffer f)
      then let f = f\<lparr>rx_buffer := (rx_buffer f)[unat (put_index f) := ch], put_index := fifo_wrap n (put_index f + 1)\<rparr>
           in Some (if put_index f = get_index f then f\<lparr>get_index := fifo_wrap n (get_index f + 1), is_full := True\<rparr> else f)
      else None)"

definition serial_fifo_calc_recved_len :: "u16 \<Rightarrow> rt_serial_rx_fifo \<Rightarrow> u32" where
  "serial_fifo_calc_recved_len n f =
     (if put_index f = get_index f then if is_full f then ucast n else 0
      else if put_index f > get_index f then ucast (put_index f) - ucast (get_index f)
      else ucast n - (ucast (get_index f) - ucast (put_index f)))"

definition new_fifo :: "u16 \<Rightarrow> rt_serial_rx_fifo" where
  "new_fifo n = \<lparr>rx_buffer = replicate (unat n) 0, put_index = 0, get_index = 0, is_full = False\<rparr>"

fun int_rx_loop :: "u16 \<Rightarrow> nat \<Rightarrow> rt_serial_rx_fifo \<Rightarrow> (u8 list \<times> rt_serial_rx_fifo) option" where
  "int_rx_loop n 0 f = Some ([], f)"
| "int_rx_loop n (Suc len) f =
     do { (ch, f) \<leftarrow> fifo_get n f;
          case ch of
            None \<Rightarrow> Some ([], f)
          | Some c \<Rightarrow> do { (cs, f) \<leftarrow> int_rx_loop n len f; Some (c # cs, f) } }"

definition serial_int_rx :: "nat \<Rightarrow> nat \<Rightarrow> 'h uarts devices \<Rightarrow> (u8 list \<times> 'h uarts devices) option" where
  "serial_int_rx n len st =
     do { f \<leftarrow> sr_rx (serial n st);
          (cs, f) \<leftarrow> int_rx_loop (bufsz (sr_config (serial n st))) len f;
          Some (cs, upd_serial n (\<lambda>s. s\<lparr>sr_rx := Some f\<rparr>) st) }"

subsection \<open>The transmitter with its completion\<close>

text \<open>
  The completion of device \<open>n\<close> has the number \<open>n\<close>. The result is what is left to be sent when the thread has to wait, and
  \<open>serial_int_tx\<close> is continued with it when the thread runs again.
\<close>

partial_function (option) int_tx_loop ::
  "'h uart_ops \<Rightarrow> nat \<Rightarrow> u8 list \<Rightarrow> 'h \<Rightarrow> rt_completion \<Rightarrow> kernel \<Rightarrow> (u8 list \<times> 'h \<times> rt_completion \<times> kernel) option" where
  "int_tx_loop ops n data h co k =
     (case data of
        [] \<Rightarrow> Some ([], h, co, k)
      | c # cs \<Rightarrow>
          let (r, h) = uart_putc ops n c h
          in if r = - 1
             then do { (w, co, k) \<leftarrow> rt_completion_wait n RT_WAITING_FOREVER co k;
                       case w of Return _ \<Rightarrow> int_tx_loop ops n (c # cs) h co k | Blocked \<Rightarrow> Some (c # cs, h, co, k) }
             else int_tx_loop ops n cs h co k)"

definition serial_int_tx :: "'h uart_ops \<Rightarrow> nat \<Rightarrow> u8 list \<Rightarrow> 'h uarts devices \<Rightarrow> (u8 list \<times> 'h uarts devices) option" where
  "serial_int_tx ops n data st =
     do { co \<leftarrow> sr_tx (serial n st);
          (rest, h, co, k) \<leftarrow> int_tx_loop ops n data (hw st) co (dv_kernel st);
          Some (rest, upd_serial n (\<lambda>s. s\<lparr>sr_tx := Some co\<rparr>) (set_hw h (st\<lparr>dv_kernel := k\<rparr>))) }"

subsection \<open>The functions of the driver\<close>

definition rt_serial_init :: "'h uart_ops \<Rightarrow> nat \<Rightarrow> 'h uarts devices \<Rightarrow> rt_err_t \<times> 'h uarts devices" where
  "rt_serial_init ops n st =
     (let st = upd_serial n (\<lambda>s. s\<lparr>sr_rx := None, sr_tx := None\<rparr>) st
      in case uart_configure ops of
           None \<Rightarrow> (RT_EOK, st)
         | Some conf \<Rightarrow> let (r, h) = conf n (sr_config (serial n st)) (hw st) in (r, set_hw h st))"

definition serial_open_rx :: "'h uart_ops \<Rightarrow> nat \<Rightarrow> u16 \<Rightarrow> 'h uarts devices \<Rightarrow> 'h uarts devices option" where
  "serial_open_rx ops n oflag st =
     (if sr_rx (serial n st) = None
      then if oflag AND RT_DEVICE_FLAG_INT_RX \<noteq> 0
           then do { RT_ASSERT (uart_memory ops);
                     let st = upd_serial n (\<lambda>s. s\<lparr>sr_rx := Some (new_fifo (bufsz (sr_config s)))\<rparr>) st;
                     let st = oflag_set n RT_DEVICE_FLAG_INT_RX st;
                     Some (snd (serial_ctrl ops n RT_DEVICE_CTRL_SET_INT (ucast RT_DEVICE_FLAG_INT_RX) st)) }
           else Some (upd_serial n (\<lambda>s. s\<lparr>sr_rx := None\<rparr>) st)
      else Some (if oflag AND RT_DEVICE_FLAG_INT_RX \<noteq> 0 then oflag_set n RT_DEVICE_FLAG_INT_RX st else st))"

definition serial_open_tx :: "'h uart_ops \<Rightarrow> nat \<Rightarrow> u16 \<Rightarrow> 'h uarts devices \<Rightarrow> 'h uarts devices option" where
  "serial_open_tx ops n oflag st =
     (if sr_tx (serial n st) = None
      then if oflag AND RT_DEVICE_FLAG_INT_TX \<noteq> 0
           then do { RT_ASSERT (uart_memory ops);
                     (co, k) \<leftarrow> rt_completion_init n (dv_kernel st);
                     let st = upd_serial n (\<lambda>s. s\<lparr>sr_tx := Some co\<rparr>) (st\<lparr>dv_kernel := k\<rparr>);
                     let st = oflag_set n RT_DEVICE_FLAG_INT_TX st;
                     Some (snd (serial_ctrl ops n RT_DEVICE_CTRL_SET_INT (ucast RT_DEVICE_FLAG_INT_TX) st)) }
           else Some (upd_serial n (\<lambda>s. s\<lparr>sr_tx := None\<rparr>) st)
      else Some (if oflag AND RT_DEVICE_FLAG_INT_TX \<noteq> 0 then oflag_set n RT_DEVICE_FLAG_INT_TX st else st))"

definition rt_serial_open :: "'h uart_ops \<Rightarrow> nat \<Rightarrow> u16 \<Rightarrow> 'h uarts devices \<Rightarrow> (rt_err_t \<times> 'h uarts devices) option" where
  "rt_serial_open ops n oflag st =
     (let flag = dev_flag (dv_dev st n)
      in if oflag AND RT_DEVICE_FLAG_INT_RX \<noteq> 0 \<and> flag AND RT_DEVICE_FLAG_INT_RX = 0 then Some (- RT_EIO, st)
         else if oflag AND RT_DEVICE_FLAG_INT_TX \<noteq> 0 \<and> flag AND RT_DEVICE_FLAG_INT_TX = 0 then Some (- RT_EIO, st)
         else do { let stream_flag = (if oflag AND RT_DEVICE_FLAG_STREAM \<noteq> 0 \<or> has_oflag n RT_DEVICE_FLAG_STREAM st
                                      then RT_DEVICE_FLAG_STREAM else 0);
                   let st = upd_dev n (\<lambda>d. d\<lparr>dev_open_flag := oflag AND 0xff\<rparr>) st;
                   st \<leftarrow> serial_open_rx ops n oflag st;
                   st \<leftarrow> serial_open_tx ops n oflag st;
                   Some (RT_EOK, oflag_set n stream_flag st) })"

definition rt_serial_close :: "'h uart_ops \<Rightarrow> nat \<Rightarrow> 'h uarts devices \<Rightarrow> (rt_err_t \<times> 'h uarts devices) option" where
  "rt_serial_close ops n st =
     (if dev_ref_count (dv_dev st n) > 1 then Some (RT_EOK, st)
      else do { st \<leftarrow> (if has_oflag n RT_DEVICE_FLAG_INT_RX st
                     then do { _ \<leftarrow> sr_rx (serial n st);
                               let st = oflag_clear n RT_DEVICE_FLAG_INT_RX (upd_serial n (\<lambda>s. s\<lparr>sr_rx := None\<rparr>) st);
                               Some (snd (serial_ctrl ops n RT_DEVICE_CTRL_CLR_INT (ucast RT_DEVICE_FLAG_INT_RX) st)) }
                     else Some st);
                st \<leftarrow> (if has_oflag n RT_DEVICE_FLAG_INT_TX st
                     then do { _ \<leftarrow> sr_tx (serial n st);
                               let st = oflag_clear n RT_DEVICE_FLAG_INT_TX (upd_serial n (\<lambda>s. s\<lparr>sr_tx := None\<rparr>) st);
                               Some (snd (serial_ctrl ops n RT_DEVICE_CTRL_CLR_INT (ucast RT_DEVICE_FLAG_INT_TX) st)) }
                     else Some st);
                Some (RT_EOK, st) })"

definition rt_serial_read :: "'h uart_ops \<Rightarrow> nat \<Rightarrow> u32 \<Rightarrow> 'h uarts devices \<Rightarrow> ((u32 \<times> u8 list) \<times> 'h uarts devices) option" where
  "rt_serial_read ops n sz st =
     (if sz = 0 then Some ((0, []), st)
      else if has_oflag n RT_DEVICE_FLAG_INT_RX st
      then do { (cs, st) \<leftarrow> serial_int_rx n (unat sz) st; Some ((word_of_nat (length cs), cs), st) }
      else let (cs, h) = serial_poll_rx ops n (unat sz) (hw st) in Some ((word_of_nat (length cs), cs), set_hw h st))"

text \<open>The bytes that are sent, out of a buffer with at least \<open>sz\<close> of them; the number that is left is not \<open>0\<close> if the thread waits.\<close>

definition rt_serial_write :: "'h uart_ops \<Rightarrow> nat \<Rightarrow> u8 list \<Rightarrow> u32 \<Rightarrow> 'h uarts devices \<Rightarrow> (u8 list \<times> 'h uarts devices) option" where
  "rt_serial_write ops n buffer sz st =
     (if sz = 0 then Some ([], st)
      else if length buffer < unat sz then None
      else if has_oflag n RT_DEVICE_FLAG_INT_TX st then serial_int_tx ops n (take (unat sz) buffer) st
      else Some ([], set_hw (serial_poll_tx ops n (has_oflag n RT_DEVICE_FLAG_STREAM st) (take (unat sz) buffer) (hw st)) st))"

definition rt_serial_control :: "'h uart_ops \<Rightarrow> nat \<Rightarrow> int \<Rightarrow> u32 \<Rightarrow> 'h uarts devices \<Rightarrow> (rt_err_t \<times> 'h uarts devices) option" where
  "rt_serial_control ops n cmd arg st =
     (if cmd = RT_DEVICE_CTRL_SUSPEND
      then Some (RT_EOK, upd_dev n (\<lambda>d. d\<lparr>dev_flag := dev_flag d OR RT_DEVICE_FLAG_SUSPENDED\<rparr>) st)
      else if cmd = RT_DEVICE_CTRL_RESUME
      then Some (RT_EOK, upd_dev n (\<lambda>d. d\<lparr>dev_flag := dev_flag d AND NOT RT_DEVICE_FLAG_SUSPENDED\<rparr>) st)
      else if cmd = RT_DEVICE_CTRL_CONFIG
      then if arg = 0 then Some (RT_EOK, st)
           else let conf = uart_args ops arg
                in if bufsz conf \<noteq> bufsz (sr_config (serial n st)) \<and> dev_ref_count (dv_dev st n) \<noteq> 0 then Some (RT_EBUSY, st)
                   else let st = upd_serial n (\<lambda>s. s\<lparr>sr_config := conf\<rparr>) st
                        in if dev_ref_count (dv_dev st n) \<noteq> 0
                           then do { configure \<leftarrow> uart_configure ops; Some (RT_EOK, set_hw (snd (configure n conf (hw st))) st) }
                           else Some (RT_EOK, st)
      else if cmd = FIONREAD
      then do { f \<leftarrow> sr_rx (serial n st);
                Some (RT_EOK, st\<lparr>dv_user := (dv_user st)\<lparr>ua_word := (ua_word (dv_user st))
                  (arg := serial_fifo_calc_recved_len (bufsz (sr_config (serial n st))) f)\<rparr>\<rparr>) }
      else Some (serial_ctrl ops n cmd arg st))"

text \<open>The driver functions under one number; those of other drivers are in \<open>drv\<close>.\<close>

definition SERIAL :: nat where
  "SERIAL = 1"

definition serial_driver :: "'h uart_ops \<Rightarrow> 'h uarts driver \<Rightarrow> 'h uarts driver" where
  "serial_driver ops drv =
     \<lparr>drv_init = (\<lambda>f n st. if f = SERIAL then Some (rt_serial_init ops n st) else drv_init drv f n st),
      drv_open = (\<lambda>f n oflag st. if f = SERIAL then rt_serial_open ops n oflag st else drv_open drv f n oflag st),
      drv_close = (\<lambda>f n st. if f = SERIAL then rt_serial_close ops n st else drv_close drv f n st),
      drv_read = (\<lambda>f n pos sz st. if f = SERIAL then rt_serial_read ops n sz st else drv_read drv f n pos sz st),
      drv_write = (\<lambda>f n pos buf sz st. if f = SERIAL
         then do { (rest, st) \<leftarrow> rt_serial_write ops n buf sz st; if rest = [] then Some (sz, st) else None }
         else drv_write drv f n pos buf sz st),
      drv_control = (\<lambda>f n cmd arg st. if f = SERIAL then rt_serial_control ops n cmd arg st else drv_control drv f n cmd arg st)\<rparr>"

definition rt_hw_serial_register :: "nat \<Rightarrow> u8 list \<Rightarrow> u32 \<Rightarrow> 'h uarts devices \<Rightarrow> (rt_err_t \<times> 'h uarts devices) option" where
  "rt_hw_serial_register n name flag st =
     do { let st = upd_dev n (\<lambda>d. d\<lparr>dev_type := 0, dev_rx_indicate := None, dev_tx_complete := None, dev_init := Some SERIAL,
            dev_open := Some SERIAL, dev_close := Some SERIAL, dev_read := Some SERIAL, dev_write := Some SERIAL,
            dev_control := Some SERIAL\<rparr>) st;
          (ret, st) \<leftarrow> rt_device_register (Some n) name (ucast flag) st;
          Some (ret, upd_dev n (\<lambda>d. d\<lparr>dev_fops := Some SERIAL\<rparr>) st) }"

subsection \<open>The interrupt\<close>

text \<open>
  \<open>SERIAL_RX_IND\<close> is the function \<open>serial_fops_rx_ind\<close>; \<open>ind\<close> has those of other programs, and \<open>fn\<close> the wake functions of other
  components.
\<close>

type_synonym 'h rx_ind = "nat \<Rightarrow> nat \<Rightarrow> u32 \<Rightarrow> 'h uarts devices \<Rightarrow> 'h uarts devices option"

abbreviation (input) POLLIN :: u32 where "POLLIN \<equiv> 1"
abbreviation (input) RT_SERIAL_EVENT_RX_IND :: u32 where "RT_SERIAL_EVENT_RX_IND \<equiv> 1"
abbreviation (input) RT_SERIAL_EVENT_TX_DONE :: u32 where "RT_SERIAL_EVENT_TX_DONE \<equiv> 2"

definition SERIAL_RX_IND :: nat where
  "SERIAL_RX_IND = 1"

definition serial_fops_rx_ind :: "wake_fn \<Rightarrow> nat \<Rightarrow> 'h uarts devices \<Rightarrow> 'h uarts devices option" where
  "serial_fops_rx_ind fn n st =
     do { (s, k) \<leftarrow> rt_wqueue_wakeup fn (dev_queue n) POLLIN (dv_queues st) (dv_kernel st);
          Some (st\<lparr>dv_queues := s, dv_kernel := k\<rparr>) }"

definition call_rx_ind :: "wake_fn \<Rightarrow> 'h rx_ind \<Rightarrow> nat \<Rightarrow> nat \<Rightarrow> u32 \<Rightarrow> 'h uarts devices \<Rightarrow> 'h uarts devices option" where
  "call_rx_ind fn ind f n len st = (if f = SERIAL_RX_IND then serial_fops_rx_ind fn n st else ind f n len st)"

partial_function (option) isr_rx_loop ::
  "'h uart_ops \<Rightarrow> nat \<Rightarrow> u16 \<Rightarrow> rt_serial_rx_fifo \<Rightarrow> 'h \<Rightarrow> (rt_serial_rx_fifo \<times> 'h) option" where
  "isr_rx_loop ops n sz f h =
     (let (ch, h) = uart_getc ops n h
      in if ch = - 1 then Some (f, h) else do { f \<leftarrow> fifo_put sz (word_of_int ch) f; isr_rx_loop ops n sz f h })"

definition isr_rx_length :: "u16 \<Rightarrow> rt_serial_rx_fifo \<Rightarrow> u32" where
  "isr_rx_length n f =
     (if put_index f \<ge> get_index f then ucast (put_index f) - ucast (get_index f)
      else ucast n - (ucast (get_index f) - ucast (put_index f)))"

definition rt_hw_serial_isr ::
  "wake_fn \<Rightarrow> 'h rx_ind \<Rightarrow> 'h uart_ops \<Rightarrow> nat \<Rightarrow> u32 \<Rightarrow> 'h uarts devices \<Rightarrow> 'h uarts devices option" where
  "rt_hw_serial_isr fn ind ops n event st =
     (if event AND 0xff = RT_SERIAL_EVENT_RX_IND
      then do { f \<leftarrow> sr_rx (serial n st);
                let sz = bufsz (sr_config (serial n st));
                (f, h) \<leftarrow> isr_rx_loop ops n sz f (hw st);
                let st = set_hw h (upd_serial n (\<lambda>s. s\<lparr>sr_rx := Some f\<rparr>) st);
                case dev_rx_indicate (dv_dev st n) of
                  None \<Rightarrow> Some st
                | Some i \<Rightarrow> if isr_rx_length sz f \<noteq> 0 then call_rx_ind fn ind i n (isr_rx_length sz f) st else Some st }
      else if event AND 0xff = RT_SERIAL_EVENT_TX_DONE
      then do { co \<leftarrow> sr_tx (serial n st);
                (co, k) \<leftarrow> rt_completion_done n co (dv_kernel st);
                Some (upd_serial n (\<lambda>s. s\<lparr>sr_tx := Some co\<rparr>) (st\<lparr>dv_kernel := k\<rparr>)) }
      else Some st)"

subsection \<open>The functions behind a file descriptor\<close>

text \<open>\<open>flags\<close> are those of the descriptor. A negative error number of \<open>rt_device_open\<close> is passed on.\<close>

abbreviation (input) O_ACCMODE :: u32 where "O_ACCMODE \<equiv> 0x200003"
abbreviation (input) O_RDONLY :: u32 where "O_RDONLY \<equiv> 0"
abbreviation (input) O_WRONLY :: u32 where "O_WRONLY \<equiv> 1"
abbreviation (input) O_RDWR :: u32 where "O_RDWR \<equiv> 2"
abbreviation (input) O_NONBLOCK :: u32 where "O_NONBLOCK \<equiv> 0x800"
abbreviation (input) EAGAIN :: int where "EAGAIN \<equiv> 18"

definition serial_fops_open ::
  "'h uarts driver \<Rightarrow> nat \<Rightarrow> u32 \<Rightarrow> 'h uarts devices \<Rightarrow> (rt_err_t \<times> 'h uarts devices) option" where
  "serial_fops_open drv n flags st =
     do { let mode = flags AND O_ACCMODE;
          let oflag = (if mode = O_RDONLY then RT_DEVICE_FLAG_INT_RX OR 1
            else if mode = O_WRONLY then 2 else if mode = O_RDWR then RT_DEVICE_FLAG_INT_RX OR 3 else 0);
          (_, st) \<leftarrow> (if mode \<noteq> O_WRONLY then rt_device_set_rx_indicate n (Some SERIAL_RX_IND) st else Some (RT_EOK, st));
          rt_device_open drv n oflag st }"

definition serial_fops_close :: "'h uarts driver \<Rightarrow> nat \<Rightarrow> 'h uarts devices \<Rightarrow> (int \<times> 'h uarts devices) option" where
  "serial_fops_close drv n st =
     do { (_, st) \<leftarrow> rt_device_set_rx_indicate n None st;
          (_, st) \<leftarrow> rt_device_close drv n st;
          Some (0, st) }"

definition serial_fops_ioctl ::
  "'h uarts driver \<Rightarrow> nat \<Rightarrow> int \<Rightarrow> u32 \<Rightarrow> 'h uarts devices \<Rightarrow> (rt_err_t \<times> 'h uarts devices) option" where
  "serial_fops_ioctl drv n cmd args st = rt_device_control drv n cmd args st"

text \<open>\<open>w\<close> is the node of the waiting thread. A call that has waited goes round again when its thread runs.\<close>

partial_function (option) serial_fops_read ::
  "'h uarts driver \<Rightarrow> nat \<Rightarrow> u32 \<Rightarrow> nat \<Rightarrow> u32 \<Rightarrow> 'h uarts devices \<Rightarrow> ((int \<times> u8 list) call \<times> 'h uarts devices) option" where
  "serial_fops_read drv n flags w count st =
     do { ((r, cs), st) \<leftarrow> rt_device_read drv n (- 1) count st;
          if sint r > 0 then Some (Return (sint r, cs), st)
          else if flags AND O_NONBLOCK \<noteq> 0 then Some (Return (- EAGAIN, cs), st)
          else do { (c, s, k) \<leftarrow> rt_wqueue_wait (dev_queue n) w False RT_WAITING_FOREVER (dv_queues st) (dv_kernel st);
                    let st = st\<lparr>dv_queues := s, dv_kernel := k\<rparr>;
                    case c of Return _ \<Rightarrow> serial_fops_read drv n flags w count st | Blocked \<Rightarrow> Some (Blocked, st) } }"

definition serial_fops_read_again ::
  "'h uarts driver \<Rightarrow> nat \<Rightarrow> u32 \<Rightarrow> nat \<Rightarrow> u32 \<Rightarrow> 'h uarts devices \<Rightarrow> ((int \<times> u8 list) call \<times> 'h uarts devices) option" where
  "serial_fops_read_again drv n flags w count st =
     serial_fops_read drv n flags w count (st\<lparr>dv_queues := rt_wqueue_wait_end (dev_queue n) w (dv_queues st)\<rparr>)"

definition serial_fops_write ::
  "'h uarts driver \<Rightarrow> nat \<Rightarrow> u8 list \<Rightarrow> u32 \<Rightarrow> 'h uarts devices \<Rightarrow> (u32 \<times> 'h uarts devices) option" where
  "serial_fops_write drv n buf count st = rt_device_write drv n (- 1) buf count st"

text \<open>\<open>poll_add\<close> is the function of the request.\<close>

definition serial_fops_poll ::
  "(nat \<Rightarrow> 'h uarts devices \<Rightarrow> 'h uarts devices option) \<Rightarrow> nat \<Rightarrow> u32 \<Rightarrow> 'h uarts devices \<Rightarrow> (u32 \<times> 'h uarts devices) option" where
  "serial_fops_poll poll_add n flags st =
     (let mode = flags AND O_ACCMODE
      in if mode = O_RDONLY \<or> mode = O_RDWR
         then do { st \<leftarrow> poll_add (dev_queue n) st;
                   f \<leftarrow> sr_rx (serial n st);
                   Some (if get_index f \<noteq> put_index f \<or> is_full f then POLLIN else 0, st) }
         else Some (0, st))"


end
