(* ===== verification/Serial_Rx.thy ===== *)
theory Serial_Rx
  imports Serial
begin

text \<open>
  The receive FIFO of a serial device as a window on what was received: of the bytes that nobody has read the last
  \<open>bufsz - 1\<close>. The sections of the interrupt and of readers may come in any order.
\<close>

subsection \<open>Contents\<close>

definition fifo_ok :: "u16 \<Rightarrow> rt_serial_rx_fifo \<Rightarrow> bool" where
  "fifo_ok n f \<longleftrightarrow> 1 < n \<and> length (rx_buffer f) = unat n \<and> put_index f < n \<and> get_index f < n \<and>
     (is_full f \<longrightarrow> unat (get_index f) = (unat (put_index f) + 1) mod unat n)"

definition fifo_count :: "u16 \<Rightarrow> rt_serial_rx_fifo \<Rightarrow> nat" where
  "fifo_count n f = (unat (put_index f) + unat n - unat (get_index f)) mod unat n"

definition fifo_bytes :: "u16 \<Rightarrow> rt_serial_rx_fifo \<Rightarrow> u8 list" where
  "fifo_bytes n f = map (\<lambda>i. rx_buffer f ! ((unat (get_index f) + i) mod unat n)) [0..<fifo_count n f]"

lemma length_fifo_bytes [simp]: "length (fifo_bytes n f) = fifo_count n f"
  by (simp add: fifo_bytes_def)

lemma fifo_wrap_next:
  assumes "i < n"
  shows "unat (fifo_wrap n (i + 1)) = (unat i + 1) mod unat n" "fifo_wrap n (i + 1) < n"
proof -
  have l: "unat i < unat n" using assms by (simp add: word_less_nat_alt)
  moreover have "unat n < 2 ^ 16" using unsigned_less[of n, where ?'a = nat] by simp
  ultimately have "unat i + 1 < 2 ^ 16" by linarith
  then have s: "unat (i + 1) = Suc (unat i)" by (simp add: unat_word_ariths)
  show "unat (fifo_wrap n (i + 1)) = (unat i + 1) mod unat n" "fifo_wrap n (i + 1) < n"
    using s l by (auto simp: fifo_wrap_def word_le_nat_alt word_less_nat_alt mod_Suc)
qed

lemma fifo_okD:
  assumes "fifo_ok n f"
  shows "1 < unat n" "unat (put_index f) < unat n" "unat (get_index f) < unat n" "length (rx_buffer f) = unat n"
    "is_full f \<Longrightarrow> unat (get_index f) = (unat (put_index f) + 1) mod unat n"
  using assms by (simp_all add: fifo_ok_def word_less_nat_alt)

lemma fifo_count_less: "fifo_ok n f \<Longrightarrow> fifo_count n f < unat n"
  using fifo_okD(1)[of n f] by (simp add: fifo_count_def)

lemma fifo_empty_iff:
  assumes "fifo_ok n f"
  shows "get_index f = put_index f \<and> \<not> is_full f \<longleftrightarrow> fifo_bytes n f = []"
proof -
  note d = fifo_okD[OF assms]
  have "get_index f = put_index f \<longleftrightarrow> fifo_count n f = 0"
    using d(2,3) by (auto simp: fifo_count_def word_unat_eq_iff mod_if)
  moreover have "get_index f = put_index f \<Longrightarrow> \<not> is_full f" using d(1,2,5) by (cases "Suc (unat (put_index f)) < unat n") (auto simp: le_less_Suc_eq not_less mod_if)
  ultimately show ?thesis by (auto simp: fifo_bytes_def)
qed

lemma fifo_get_ok:
  assumes "fifo_ok n f"
  shows "fifo_get n f = Some (case fifo_bytes n f of [] \<Rightarrow> (None, f) | c # _ \<Rightarrow> (Some c, snd (the (fifo_get n f))))"
    and "fifo_ok n (snd (the (fifo_get n f)))"
    and "fifo_bytes n (snd (the (fifo_get n f))) = tl (fifo_bytes n f)"
proof -
  note d = fifo_okD[OF assms]
  have "fifo_get n f = Some (case fifo_bytes n f of [] \<Rightarrow> (None, f) | c # _ \<Rightarrow> (Some c, snd (the (fifo_get n f)))) \<and>
    fifo_ok n (snd (the (fifo_get n f))) \<and> fifo_bytes n (snd (the (fifo_get n f))) = tl (fifo_bytes n f)"
  proof (cases "fifo_bytes n f = []")
    case True
    then show ?thesis using fifo_empty_iff[OF assms] assms by (simp add: fifo_get_def)
  next
    case False
    let ?f = "f\<lparr>get_index := fifo_wrap n (get_index f + 1), is_full := False\<rparr>"
    have g: "fifo_get n f = Some (Some (rx_buffer f ! unat (get_index f)), ?f)"
      using False fifo_empty_iff[OF assms] d by (auto simp: fifo_get_def)
    have w: "unat (get_index ?f) = (unat (get_index f) + 1) mod unat n" "get_index ?f < n"
      using fifo_wrap_next[of "get_index f" n] assms by (simp_all add: fifo_ok_def)
    obtain m where m: "fifo_count n f = Suc m" using False by (cases "fifo_count n f") (auto simp: fifo_bytes_def)
    then have c: "fifo_count n ?f = m" using w(1) d(1-3) by (auto simp: fifo_count_def mod_if split: if_splits)
    have "(unat (get_index ?f) + i) mod unat n = (unat (get_index f) + Suc i) mod unat n" for i
      using w(1) by (simp add: mod_add_left_eq)
    then have "fifo_bytes n f = rx_buffer f ! unat (get_index f) # fifo_bytes n ?f"
      using d(3) by (simp add: fifo_bytes_def m c map_upt_Suc del: upt_Suc)
    moreover have "fifo_ok n ?f" using assms w(2) by (simp add: fifo_ok_def)
    ultimately show ?thesis using g by simp
  qed
  then show "fifo_get n f = Some (case fifo_bytes n f of [] \<Rightarrow> (None, f) | c # _ \<Rightarrow> (Some c, snd (the (fifo_get n f))))"
    "fifo_ok n (snd (the (fifo_get n f)))" "fifo_bytes n (snd (the (fifo_get n f))) = tl (fifo_bytes n f)" by blast+
qed

lemma fifo_get_sec:
  assumes "fifo_ok n f"
  obtains f1 where "fifo_get n f = Some (case fifo_bytes n f of [] \<Rightarrow> None | c # _ \<Rightarrow> Some c, f1)" "fifo_ok n f1"
    "fifo_bytes n f1 = tl (fifo_bytes n f)"
proof -
  have "fifo_get n f = Some (case fifo_bytes n f of [] \<Rightarrow> None | c # _ \<Rightarrow> Some c, snd (the (fifo_get n f)))"
    using fifo_get_ok(1)[OF assms] by (cases "fifo_bytes n f") auto
  then show ?thesis using that fifo_get_ok(2,3)[OF assms] by blast
qed

text \<open>A byte more in a window of \<open>m\<close> bytes.\<close>

definition window_add :: "nat \<Rightarrow> u8 \<Rightarrow> u8 list \<Rightarrow> u8 list" where
  "window_add m c cs = drop (Suc (length cs) - m) (cs @ [c])"

lemma ring_index_inj: "g < n \<Longrightarrow> i < n \<Longrightarrow> j < n \<Longrightarrow> (g + i) mod n = (g + j) mod n \<longleftrightarrow> i = (j :: nat)"
  by (auto simp: mod_if split: if_splits)

text \<open>The bytes together with the new one, before the oldest is dropped.\<close>

lemma fifo_written:
  assumes "fifo_ok n f"
  shows "map (\<lambda>i. (rx_buffer f)[unat (put_index f) := c] ! ((unat (get_index f) + i) mod unat n)) [0..<Suc (fifo_count n f)] =
    fifo_bytes n f @ [c]"
proof -
  note d = fifo_okD[OF assms]
  let ?k = "fifo_count n f" and ?b = "(rx_buffer f)[unat (put_index f) := c]"
  have k: "?k < unat n" by (rule fifo_count_less[OF assms])
  have p: "(unat (get_index f) + ?k) mod unat n = unat (put_index f)"
    using d(2,3) by (simp add: fifo_count_def mod_add_right_eq)
  have "?b ! ((unat (get_index f) + i) mod unat n) = rx_buffer f ! ((unat (get_index f) + i) mod unat n)" if "i < ?k" for i
    using ring_index_inj[OF d(3), of i ?k] p k that by simp
  then show ?thesis using p d(2,4) by (simp add: fifo_bytes_def)
qed

lemma fifo_put_ok:
  assumes "fifo_ok n f"
  shows "\<exists>f'. fifo_put n c f = Some f' \<and> fifo_ok n f' \<and> fifo_bytes n f' = window_add (unat n - 1) c (fifo_bytes n f)"
proof -
  note d = fifo_okD[OF assms] and w = fifo_written[OF assms, of c]
  let ?k = "fifo_count n f" and ?b = "(rx_buffer f)[unat (put_index f) := c]"
  define p where "p = fifo_wrap n (put_index f + 1)"
  define f1 where "f1 = f\<lparr>rx_buffer := ?b, put_index := p\<rparr>"
  have p: "unat p = (unat (put_index f) + 1) mod unat n" "p < n"
    using fifo_wrap_next[of "put_index f" n] assms by (simp_all add: p_def fifo_ok_def)
  have f: "fifo_put n c f = Some (if p = get_index f then f1\<lparr>get_index := fifo_wrap n (get_index f + 1), is_full := True\<rparr> else f1)"
    using d(2,4) by (simp add: fifo_put_def Let_def p_def f1_def)
  show ?thesis
  proof (cases "p = get_index f")
    case True
    let ?f = "f1\<lparr>get_index := fifo_wrap n (get_index f + 1), is_full := True\<rparr>"
    have g: "unat (get_index ?f) = (unat (get_index f) + 1) mod unat n" "get_index ?f < n"
      using fifo_wrap_next[of "get_index f" n] assms by (simp_all add: fifo_ok_def)
    have k: "Suc ?k = unat n" using True p(1) d(1-3) by (auto simp: fifo_count_def mod_if split: if_splits)
    have c: "fifo_count n ?f = ?k" using True g(1) p(1) d(1-3) k by (auto simp: fifo_count_def f1_def mod_if split: if_splits)
    have "fifo_ok n ?f" using assms p(2) g True by (simp add: fifo_ok_def f1_def)
    moreover have "(unat (get_index ?f) + i) mod unat n = (unat (get_index f) + Suc i) mod unat n" for i
      using g(1) by (simp add: mod_add_left_eq)
    then have "fifo_bytes n ?f = tl (fifo_bytes n f @ [c])"
      using c unfolding w[symmetric] by (simp add: fifo_bytes_def f1_def map_upt_Suc del: upt_Suc)
    moreover have "window_add (unat n - 1) c (fifo_bytes n f) = tl (fifo_bytes n f @ [c])"
      using k d(1) length_fifo_bytes[of n f] by (cases "fifo_bytes n f") (simp_all add: window_add_def)
    ultimately show ?thesis using f True by simp
  next
    case False
    have k: "Suc ?k < unat n" using False p(1) d(1-3) by (auto simp: fifo_count_def word_unat_eq_iff mod_if split: if_splits)
    have c: "fifo_count n f1 = Suc ?k" using p(1) d(1-3) k by (auto simp: fifo_count_def f1_def mod_if split: if_splits)
    have nf: "\<not> is_full f" using False p(1) d(5) by (auto simp: word_unat_eq_iff)
    have "fifo_ok n f1" using assms p(2) nf by (simp add: fifo_ok_def f1_def)
    moreover have "fifo_bytes n f1 = fifo_bytes n f @ [c]"
      using c unfolding w[symmetric] by (simp add: fifo_bytes_def f1_def del: upt_Suc)
    ultimately show ?thesis using f False k by (simp add: window_add_def)
  qed
qed

subsection \<open>Runs of sections\<close>

text \<open>A byte that comes in, or a look at the FIFO by a reader, in any order; and the same on a window.\<close>

datatype rx_event = Received u8 | Read_one

fun rx_run :: "u16 \<Rightarrow> rx_event list \<Rightarrow> rt_serial_rx_fifo \<Rightarrow> (u8 option list \<times> rt_serial_rx_fifo) option" where
  "rx_run n [] f = Some ([], f)"
| "rx_run n (Received c # es) f = do { f \<leftarrow> fifo_put n c f; rx_run n es f }"
| "rx_run n (Read_one # es) f = do { (c, f) \<leftarrow> fifo_get n f; (cs, f) \<leftarrow> rx_run n es f; Some (c # cs, f) }"

fun window_run :: "nat \<Rightarrow> rx_event list \<Rightarrow> u8 list \<Rightarrow> u8 option list \<times> u8 list" where
  "window_run m [] xs = ([], xs)"
| "window_run m (Received c # es) xs = window_run m es (window_add m c xs)"
| "window_run m (Read_one # es) xs =
     (let (cs, ys) = window_run m es (tl xs) in ((case xs of [] \<Rightarrow> None | x # _ \<Rightarrow> Some x) # cs, ys))"

lemma rx_run_ok:
  "fifo_ok n f \<Longrightarrow> \<exists>f'. rx_run n es f = Some (fst (window_run (unat n - 1) es (fifo_bytes n f)), f') \<and> fifo_ok n f' \<and>
    fifo_bytes n f' = snd (window_run (unat n - 1) es (fifo_bytes n f))"
proof (induction n es f rule: rx_run.induct)
  case (2 n c es f)
  obtain f1 where f1: "fifo_put n c f = Some f1" "fifo_ok n f1" "fifo_bytes n f1 = window_add (unat n - 1) c (fifo_bytes n f)"
    using fifo_put_ok[OF "2.prems"] by blast
  then show ?case using "2.IH"[OF f1(1,2)] by simp
next
  case (3 n es f)
  obtain f1 where g: "fifo_get n f = Some (case fifo_bytes n f of [] \<Rightarrow> None | c # _ \<Rightarrow> Some c, f1)" "fifo_ok n f1"
    "fifo_bytes n f1 = tl (fifo_bytes n f)" using fifo_get_sec[OF "3.prems"] by blast
  from "3.IH"[OF g(1) refl g(2)] g(1,3) show ?case by (auto simp: Let_def split: prod.split)
qed auto

lemma new_fifo_ok: "1 < n \<Longrightarrow> fifo_ok n (new_fifo n) \<and> fifo_bytes n (new_fifo n) = []"
  by (simp add: fifo_ok_def new_fifo_def fifo_bytes_def fifo_count_def word_less_nat_alt)

lemma index_diff: "j \<le> i \<Longrightarrow> ucast i - ucast j = (word_of_nat (unat i - unat j) :: u32)" for i j :: u16
  by (simp add: of_nat_diff word_le_nat_alt)

lemma recved_len_ok:
  assumes "fifo_ok n f"
  shows "serial_fifo_calc_recved_len n f = word_of_nat (fifo_count n f)" "isr_rx_length n f = word_of_nat (fifo_count n f)"
proof -
  note d = fifo_okD[OF assms]
  have e: "get_index f = put_index f \<Longrightarrow> \<not> is_full f"
    using fifo_empty_iff[OF assms] fifo_count_less[OF assms] d(2,3) by (simp add: fifo_bytes_def fifo_count_def)
  have lo: "put_index f > get_index f \<Longrightarrow> ucast (put_index f) - ucast (get_index f) = (word_of_nat (fifo_count n f) :: u32)"
    using d(1-3) by (subst index_diff) (auto simp: fifo_count_def word_le_nat_alt word_less_nat_alt mod_if)
  have hi: "ucast n - (ucast (get_index f) - ucast (put_index f)) = (word_of_nat (fifo_count n f) :: u32)"
    if "put_index f < get_index f"
  proof -
    have "fifo_count n f = unat n - (unat (get_index f) - unat (put_index f))" "unat (get_index f) - unat (put_index f) \<le> unat n"
      using that d(1-3) by (auto simp: fifo_count_def word_less_nat_alt mod_if)
    moreover have "ucast (get_index f) - ucast (put_index f) = (word_of_nat (unat (get_index f) - unat (put_index f)) :: u32)"
      using that by (intro index_diff) simp
    ultimately show ?thesis by (simp add: of_nat_diff)
  qed
  have z: "put_index f = get_index f \<Longrightarrow> fifo_count n f = 0" using d(1-3) by (simp add: fifo_count_def)
  show "serial_fifo_calc_recved_len n f = word_of_nat (fifo_count n f)"
    using lo hi e z by (cases "put_index f" "get_index f" rule: linorder_cases) (auto simp: serial_fifo_calc_recved_len_def)
  show "isr_rx_length n f = word_of_nat (fifo_count n f)"
    using lo hi z by (cases "put_index f" "get_index f" rule: linorder_cases) (auto simp: isr_rx_length_def)
qed

lemma int_rx_loop_ok:
  "fifo_ok n f \<Longrightarrow> \<exists>f'. int_rx_loop n k f = Some (take k (fifo_bytes n f), f') \<and> fifo_ok n f' \<and> fifo_bytes n f' = drop k (fifo_bytes n f)"
proof (induction k arbitrary: f)
  case (Suc k)
  obtain f1 where f1: "fifo_get n f = Some (case fifo_bytes n f of [] \<Rightarrow> None | c # _ \<Rightarrow> Some c, f1)" "fifo_ok n f1"
    "fifo_bytes n f1 = tl (fifo_bytes n f)" by (rule fifo_get_sec[OF Suc.prems])
  from Suc.IH[OF f1(2)] f1 show ?case by (cases "fifo_bytes n f") auto
qed simp

text \<open>C25. Whatever the order in which bytes come in and readers look at the FIFO, the readers see the bytes in the order in which they came,
  each at most once. Of the bytes that are not read the FIFO keeps the last \<open>bufsz - 1\<close>: when it is full the oldest is
  dropped, not the new one. A read of \<open>k\<close> bytes then gets the first \<open>k\<close> of them, and the length that \<open>FIONREAD\<close> and the
  notification of the interrupt give is their number.\<close>

theorem serial_rx_window:
  assumes "1 < n" "window_run (unat n - 1) es [] = (cs, xs)"
  shows "\<exists>f f'. rx_run n es (new_fifo n) = Some (cs, f) \<and> int_rx_loop n k f = Some (take k xs, f') \<and> length xs \<le> unat n - 1 \<and>
    serial_fifo_calc_recved_len n f = word_of_nat (length xs) \<and> isr_rx_length n f = word_of_nat (length xs)"
proof -
  obtain f where f: "rx_run n es (new_fifo n) = Some (cs, f)" "fifo_ok n f" "fifo_bytes n f = xs"
    using rx_run_ok[of n "new_fifo n" es] new_fifo_ok[OF assms(1)] assms(2) by auto
  moreover have "length xs = fifo_count n f" using f(3) by auto
  moreover have "fifo_count n f \<le> unat n - 1" using fifo_count_less[OF f(2)] by simp
  ultimately show ?thesis using int_rx_loop_ok[OF f(2), of k] recved_len_ok[OF f(2)] by auto
qed

lemma serial_rx_window_witness:
  "\<exists>f f'. rx_run 3 [Received 1, Received 2, Received 3, Read_one, Received 4] (new_fifo 3) = Some ([Some 2], f) \<and>
    int_rx_loop 3 5 f = Some (take 5 [3, 4], f') \<and> length [3, 4 :: u8] \<le> unat (3 :: u16) - 1 \<and>
    serial_fifo_calc_recved_len 3 f = word_of_nat (length [3, 4 :: u8]) \<and> isr_rx_length 3 f = word_of_nat (length [3, 4 :: u8])"
  by (rule serial_rx_window) (simp_all add: window_add_def)

end
