(* ===== verification/Serial_Read.thy ===== *)
theory Serial_Read
  imports Serial_Rx
begin

text \<open>
  Readers of a serial device that wait for the interrupt, and what the users of a device can rely on when they open and
  close it.
\<close>

subsection \<open>The interrupt\<close>

text \<open>The UART has the bytes \<open>cs\<close>.\<close>

fun uart_has :: "'h uart_ops \<Rightarrow> nat \<Rightarrow> u8 list \<Rightarrow> 'h \<Rightarrow> 'h \<Rightarrow> bool" where
  "uart_has ops n [] h h' \<longleftrightarrow> uart_getc ops n h = (- 1, h')"
| "uart_has ops n (c # cs) h h' \<longleftrightarrow> fst (uart_getc ops n h) = uint c \<and> uart_has ops n cs (snd (uart_getc ops n h)) h'"

lemma isr_rx_loop_ok:
  "fifo_ok sz f \<Longrightarrow> uart_has ops n cs h h' \<Longrightarrow>
    \<exists>f'. isr_rx_loop ops n sz f h = Some (f', h') \<and> fifo_ok sz f' \<and>
      fifo_bytes sz f' = fold (window_add (unat sz - 1)) cs (fifo_bytes sz f)"
proof (induction cs arbitrary: f h)
  case Nil
  then show ?case by (subst isr_rx_loop.simps) simp
next
  case (Cons c cs)
  obtain h1 where h1: "uart_getc ops n h = (uint c, h1)" "uart_has ops n cs h1 h'" using Cons.prems(2) by (cases "uart_getc ops n h") auto
  obtain f1 where f1: "fifo_put sz c f = Some f1" "fifo_ok sz f1" "fifo_bytes sz f1 = window_add (unat sz - 1) c (fifo_bytes sz f)"
    using fifo_put_ok[OF Cons.prems(1)] by blast
  have "uint c \<noteq> - 1" by (metis uint_ge_0 neg_0_le_iff_le not_one_le_zero)
  then show ?case using Cons.IH[OF f1(2) h1(2)] f1(1,3) h1(1) by (subst isr_rx_loop.simps) simp
qed

lemma length_window_add: "0 < m \<Longrightarrow> length (window_add m c xs) = min (Suc (length xs)) m"
  by (simp add: window_add_def)

lemma window_nonempty: "0 < m \<Longrightarrow> cs \<noteq> [] \<or> xs \<noteq> [] \<Longrightarrow> fold (window_add m) cs xs \<noteq> []"
proof (induction cs arbitrary: xs)
  case (Cons c cs)
  have "window_add m c xs \<noteq> []" using length_window_add[OF Cons.prems(1), of c xs] Cons.prems(1) by (metis list.size(3) min_def nat.distinct(1) not_gr_zero)
  then show ?case using Cons.IH[OF Cons.prems(1), of "window_add m c xs"] by simp
qed simp

text \<open>A device that is open for reading with the interrupt.\<close>

definition rx_open :: "nat \<Rightarrow> rt_serial_rx_fifo \<Rightarrow> 'h uarts devices \<Rightarrow> bool" where
  "rx_open n f st \<longleftrightarrow> is_device n st \<and> dev_ref_count (dv_dev st n) \<noteq> 0 \<and> dev_read (dv_dev st n) = Some SERIAL \<and>
     has_oflag n RT_DEVICE_FLAG_INT_RX st \<and> sr_rx (serial n st) = Some f \<and> fifo_ok (bufsz (sr_config (serial n st))) f"

lemma serial_simps [simp]:
  "serial n (st\<lparr>dv_kernel := k\<rparr>) = serial n st" "serial n (st\<lparr>dv_queues := q\<rparr>) = serial n st" "serial n (set_hw h st) = serial n st"
  "serial n (upd_serial n f st) = f (serial n st)" "dv_dev (upd_serial n f st) = dv_dev st" "dv_dev (set_hw h st) = dv_dev st"
  "dv_kernel (upd_serial n f st) = dv_kernel st" "dv_kernel (set_hw h st) = dv_kernel st"
  "dv_queues (upd_serial n f st) = dv_queues st" "dv_queues (set_hw h st) = dv_queues st"
  "hw (set_hw h st) = h" "hw (st\<lparr>dv_kernel := k\<rparr>) = hw st" "hw (st\<lparr>dv_queues := q\<rparr>) = hw st"
  by (simp_all add: serial_def upd_serial_def set_hw_def hw_def)

lemma oflag_simps [simp]:
  "has_oflag n b (st\<lparr>dv_kernel := k\<rparr>) = has_oflag n b st" "has_oflag n b (st\<lparr>dv_queues := q\<rparr>) = has_oflag n b st"
  "has_oflag n b (set_hw h st) = has_oflag n b st" "has_oflag n b (upd_serial m f st) = has_oflag n b st"
  by (simp_all add: has_oflag_def)

text \<open>A read gets what is in the FIFO.\<close>

lemma rx_read:
  assumes "rx_open n f st" "count \<noteq> 0" "fifo_bytes (bufsz (sr_config (serial n st))) f = cs"
  obtains f' where "rt_device_read (serial_driver ops drv) n pos count st =
      Some ((word_of_nat (length (take (unat count) cs)), take (unat count) cs), upd_serial n (\<lambda>s. s\<lparr>sr_rx := Some f'\<rparr>) st)"
    "sint (word_of_nat (length (take (unat count) cs)) :: u32) = int (min (unat count) (length cs))"
    "cs = [] \<Longrightarrow> f' = f"
proof -
  let ?n = "bufsz (sr_config (serial n st))"
  have f: "fifo_ok ?n f" using assms(1) by (simp add: rx_open_def)
  obtain f' where l: "int_rx_loop ?n (unat count) f = Some (take (unat count) cs, f')" using int_rx_loop_ok[OF f, of "unat count"] assms(3) by auto
  have e: "cs = [] \<Longrightarrow> f' = f"
  proof -
    assume c: "cs = []"
    have "0 < unat count" using assms(2) by (simp add: unat_gt_0)
    then obtain j where "unat count = Suc j" using gr0_implies_Suc by blast
    then show "f' = f" using l fifo_empty_iff[OF f] assms(3) c by (simp add: fifo_get_def)
  qed
  have "length cs < unat ?n" using fifo_count_less[OF f] assms(3) by auto
  moreover have "unat ?n < 2 ^ 16" using unsigned_less[of ?n, where ?'a = nat] by simp
  ultimately have "length (take (unat count) cs) < 2 ^ 16" by simp
  then have s: "sint (word_of_nat (length (take (unat count) cs)) :: u32) = int (min (unat count) (length cs))"
    by (simp add: signed_of_nat signed_take_bit_int_eq_self min.commute)
  show ?thesis
    by (rule that[OF _ s e]) (use assms(1,2) l in \<open>simp add: rt_device_read_def rx_open_def serial_driver_def rt_serial_read_def
      serial_int_rx_def RT_ASSERT_def\<close>)
qed

text \<open>A read of an empty FIFO waits, behind the threads that wait already.\<close>

lemma rx_read_blocks:
  assumes "rx_open n f st" "count \<noteq> 0" "fifo_bytes (bufsz (sr_config (serial n st))) f = []" "flags AND O_NONBLOCK = 0"
    "kinv (dv_kernel st)" "caller c (dv_kernel st)" "ls_in (waiting_list (dv_queues st)) w = None" "wq_flag (dv_queues st) (dev_queue n) \<noteq> 1"
  obtains s k where "serial_fops_read (serial_driver ops drv) n flags w count st = Some (Blocked, upd_serial n (\<lambda>s. s\<lparr>sr_rx := Some f\<rparr>) (st\<lparr>dv_queues := s, dv_kernel := k\<rparr>))"
    "stat_of (thr k c) = 2" "wn_polling_thread (wq_node s w) = c" "wn_wakeup (wq_node s w) = None"
    "ls_q (waiting_list s) (dev_queue n) = ls_q (waiting_list (dv_queues st)) (dev_queue n) @ [w]"
    "ls_inv (waiting_list (dv_queues st)) \<Longrightarrow> ls_inv (waiting_list s)"
proof -
  obtain f' where r: "rt_device_read (serial_driver ops drv) n (- 1) count st = Some ((word_of_nat 0, []), upd_serial n (\<lambda>s. s\<lparr>sr_rx := Some f'\<rparr>) st)" "f' = f"
    using rx_read[OF assms(1-3), where ops = ops and drv = drv and pos = "- 1"] by (metis list.size(3) take_Nil)
  obtain s k where b: "rt_wqueue_wait (dev_queue n) w False (- 1) (dv_queues st) (dv_kernel st) = Some (Blocked, s, k)"
    "thr k = (thr (dv_kernel st))(c := set_stat 2 (thr (dv_kernel st) c))"
    "wq_node s = (wq_node (dv_queues st))(w := \<lparr>wn_polling_thread = c, wn_wakeup = None, wn_key = 0\<rparr>)"
    "waiting_list s = (waiting_list (dv_queues st))\<lparr>ls_q := (ls_q (waiting_list (dv_queues st)))(dev_queue n := ls_q (waiting_list (dv_queues st)) (dev_queue n) @ [w]),
      ls_in := (ls_in (waiting_list (dv_queues st)))(w := Some (dev_queue n))\<rparr>"
    using wqueue_block_ok[OF assms(5-8), of "- 1"] by auto
  have "ls_inv (waiting_list s)" if "ls_inv (waiting_list (dv_queues st))"
    using ls_inv_push_back[OF that, of "dev_queue n" w] b(4) assms(7) by (simp add: ls_push_back_def)
  moreover have "serial_fops_read (serial_driver ops drv) n flags w count st = Some (Blocked, (upd_serial n (\<lambda>s. s\<lparr>sr_rx := Some f\<rparr>) st)\<lparr>dv_queues := s, dv_kernel := k\<rparr>)"
    using r b(1) assms(4) by (subst serial_fops_read.simps) simp
  moreover have "(upd_serial n (\<lambda>s. s\<lparr>sr_rx := Some f\<rparr>) st)\<lparr>dv_queues := s, dv_kernel := k\<rparr> =
      upd_serial n (\<lambda>s. s\<lparr>sr_rx := Some f\<rparr>) (st\<lparr>dv_queues := s, dv_kernel := k\<rparr>)" by (simp add: upd_serial_def)
  ultimately show ?thesis using that[where s = s and k = k] b(2-4) by simp
qed

text \<open>The interrupt puts the bytes of the UART into the FIFO and wakes the first waiting thread.\<close>

lemma rx_isr_wakes:
  assumes "sr_rx (serial n st) = Some f" "fifo_ok (bufsz (sr_config (serial n st))) f" "uart_has ops n cs (hw st) h'" "cs \<noteq> []"
    "dev_rx_indicate (dv_dev st n) = Some SERIAL_RX_IND" "kinv (dv_kernel st)" "rt_current_thread (dv_kernel st) \<noteq> None"
    "ls_q (waiting_list (dv_queues st)) (dev_queue n) = w # ws" "wn_polling_thread (wq_node (dv_queues st) w) = c"
    "wn_wakeup (wq_node (dv_queues st) w) = None" "alive (dv_kernel st) c" "stat_of (thr (dv_kernel st) c) = 2"
  obtains f' s k where "rt_hw_serial_isr fn ind ops n RT_SERIAL_EVENT_RX_IND st =
      Some (set_hw h' (upd_serial n (\<lambda>s. s\<lparr>sr_rx := Some f'\<rparr>) st)\<lparr>dv_queues := s, dv_kernel := k\<rparr>)"
    "fifo_ok (bufsz (sr_config (serial n st))) f'"
    "fifo_bytes (bufsz (sr_config (serial n st))) f' =
      fold (window_add (unat (bufsz (sr_config (serial n st))) - 1)) cs (fifo_bytes (bufsz (sr_config (serial n st))) f)"
    "ready_thread k c" "kinv k"
proof -
  let ?n = "bufsz (sr_config (serial n st))"
  obtain f' where f': "isr_rx_loop ops n ?n f (hw st) = Some (f', h')" "fifo_ok ?n f'"
    "fifo_bytes ?n f' = fold (window_add (unat ?n - 1)) cs (fifo_bytes ?n f)" using isr_rx_loop_ok[OF assms(2,3)] by blast
  have "fifo_bytes ?n f' \<noteq> []" using f'(3) window_nonempty[of "unat ?n - 1" cs] assms(4) fifo_okD(1)[OF assms(2)] by simp
  then have "0 < fifo_count ?n f'" using length_fifo_bytes[of ?n f'] by (metis length_greater_0_conv)
  moreover have "fifo_count ?n f' < 2 ^ 32"
    using fifo_count_less[OF f'(2)] unsigned_less[of ?n, where ?'a = nat] by simp
  ultimately have "(word_of_nat (fifo_count ?n f') :: u32) \<noteq> 0" by (simp add: word_of_nat_eq_0_iff nat_dvd_not_less)
  then have l: "isr_rx_length ?n f' \<noteq> 0" using recved_len_ok(2)[OF f'(2)] by simp
  have a: "wake_answer fn w POLLIN (dv_queues st) (dv_kernel st) = Some (0, dv_kernel st)"
    using assms(10) by (simp add: wake_answer_def wqueue_default_wake_def)
  obtain k where "rt_wqueue_wakeup fn (dev_queue n) POLLIN (dv_queues st) (dv_kernel st) =
      Some (rt_wqueue_remove w ((dv_queues st)\<lparr>wq_flag := (wq_flag (dv_queues st))(dev_queue n := 1)\<rparr>), k)" "ready_thread k c" "kinv k"
    using wakeup_found[OF assms(6,7), of "dv_queues st" "dev_queue n" "[]" w ws fn POLLIN] assms(8,9,11,12) a by auto
  then show ?thesis using that[OF _ f'(2,3)] f'(1) l assms(1,5)
    by (simp add: rt_hw_serial_isr_def call_rx_ind_def serial_fops_rx_ind_def Let_def)
qed


text \<open>A UART that has the bytes of a list, and a device on it with a buffer of \<open>sz\<close> bytes.\<close>

definition ex_uart :: "u8 list uart_ops" where
  "ex_uart = \<lparr>uart_configure = Some (\<lambda>_ _ h. (0, h)), uart_control = (\<lambda>_ _ _ h. (0, h)), uart_putc = (\<lambda>_ _ h. (1, h)),
     uart_getc = (\<lambda>_ h. case h of [] \<Rightarrow> (- 1, []) | c # cs \<Rightarrow> (uint c, cs)),
     uart_args = (\<lambda>_. \<lparr>baud_rate = 9600, data_bits = 8, stop_bits = 0, parity = 0, bit_order = 0, invert = 0, bufsz = 64\<rparr>),
     uart_memory = True\<rparr>"

definition ex_serial :: "u16 \<Rightarrow> rt_device \<Rightarrow> rt_serial_rx_fifo option \<Rightarrow> u8 list uarts devices" where
  "ex_serial sz d f = \<lparr>dv_kernel = ex_ipc (ODev 0) 9 0 ex_kernel, dv_dev = (\<lambda>_. d), dv_queues = ex_wqs [],
     dv_user = \<lparr>ua_serial = (\<lambda>_. \<lparr>sr_config = (uart_args ex_uart 0)\<lparr>bufsz := sz\<rparr>, sr_rx = f, sr_tx = None\<rparr>), ua_hw = [], ua_word = (\<lambda>_. 0)\<rparr>\<rparr>"

definition ex_sdev :: rt_device where
  "ex_sdev = zero_device\<lparr>dev_flag := 0x113, dev_init := Some SERIAL, dev_open := Some SERIAL, dev_close := Some SERIAL,
     dev_read := Some SERIAL, dev_write := Some SERIAL, dev_control := Some SERIAL, dev_rx_indicate := Some SERIAL_RX_IND\<rparr>"

definition ex_none :: "u8 list uarts driver" where
  "ex_none = \<lparr>drv_init = (\<lambda>_ _ _. None), drv_open = (\<lambda>_ _ _ _. None), drv_close = (\<lambda>_ _ _. None), drv_read = (\<lambda>_ _ _ _ _. None),
     drv_write = (\<lambda>_ _ _ _ _ _. None), drv_control = (\<lambda>_ _ _ _ _. None)\<rparr>"


end
