(* ===== verification/Serial_Open.thy ===== *)
theory Serial_Open
  imports Serial_Read
begin

text \<open>
  Opening and closing a serial device through the framework: the driver keeps to the contract of \<open>Device\<close>, but the flags of
  the last open replace those of the users before.
\<close>

subsection \<open>The contract of the framework\<close>

lemma dev_same_simps [simp]:
  "dev_same n st0 (set_hw h st) = dev_same n st0 st" "dev_same n st0 (upd_serial m f st) = dev_same n st0 st"
  "dev_same n st0 (oflag_set m b st) = dev_same n st0 st" "dev_same n st0 (oflag_clear m b st) = dev_same n st0 st"
  by (simp_all add: dev_same_def is_device_def oflag_set_def oflag_clear_def)

lemma serial_ctrl_same [simp]: "dev_same n st0 (snd (serial_ctrl ops m cmd arg st)) = dev_same n st0 st"
  by (simp add: serial_ctrl_def split: prod.split)

lemma completion_init_same:
  "rt_completion_init m (dv_kernel st) = Some (co, k) \<Longrightarrow> dev_same n st0 (st\<lparr>dv_kernel := k\<rparr>) = dev_same n st0 st"
  by (auto simp: rt_completion_init_def bind_eq_Some_conv dev_same_def is_device_def rt_object_get_type_def)

lemma serial_open_parts:
  "serial_open_rx ops n oflag st = Some st' \<Longrightarrow> dev_same n st st'" "serial_open_tx ops n oflag st = Some st' \<Longrightarrow> dev_same n st st'"
  by (auto simp: serial_open_rx_def serial_open_tx_def bind_eq_Some_conv Let_def completion_init_same split: if_splits)

lemma dev_same_trans: "dev_same n st st1 \<Longrightarrow> dev_same n st1 st2 \<Longrightarrow> dev_same n st st2"
  by (simp add: dev_same_def)

lemma serial_open_same:
  assumes "rt_serial_open ops n oflag st = Some (e, st')"
  shows "if done_ok e then dev_same n st st' else dev_keeps n st st'"
proof -
  let ?st = "upd_dev n (\<lambda>d. d\<lparr>dev_open_flag := oflag AND 0xff\<rparr>) st"
  consider "e = - 8" "st' = st" | st1 st2 where "e = 0" "serial_open_rx ops n oflag ?st = Some st1" "serial_open_tx ops n oflag st1 = Some st2"
    "\<exists>b. st' = oflag_set n b st2"
    using assms by (auto simp: rt_serial_open_def Let_def bind_eq_Some_conv simp del: upd_dev_def split: if_splits)
  then show ?thesis
  proof cases
    case 2
    have "dev_same n st ?st" by (simp add: dev_same_def)
    then have "dev_same n st st2" by (rule dev_same_trans[OF dev_same_trans[OF _ serial_open_parts(1)[OF 2(2)]] serial_open_parts(2)[OF 2(3)]])
    then show ?thesis using 2(1,4) by (auto simp: done_ok_def)
  qed (simp add: done_ok_def)
qed

lemma close_bits: "(x AND - 257) AND 8 = x AND (8 :: u16)" "(x AND - 1025) AND 8 = x AND (8 :: u16)"
  by (simp_all add: and.assoc)

lemma dev_keeps_simps [simp]:
  "dev_keeps n st0 (set_hw h st) = dev_keeps n st0 st" "dev_keeps n st0 (upd_serial m f st) = dev_keeps n st0 st"
  "dev_keeps n st0 (oflag_clear n 0x100 st) = dev_keeps n st0 st" "dev_keeps n st0 (oflag_clear n 0x400 st) = dev_keeps n st0 st"
  by (simp_all add: dev_keeps_def is_device_def oflag_clear_def close_bits)

lemma serial_ctrl_keeps [simp]: "dev_keeps n st0 (snd (serial_ctrl ops m cmd arg st)) = dev_keeps n st0 st"
  by (simp add: serial_ctrl_def split: prod.split)

lemma serial_close_keeps:
  assumes "rt_serial_close ops n st = Some (e, st')"
  shows "dev_keeps n st st' \<and> e = 0"
  using assms by (auto simp: rt_serial_close_def bind_eq_Some_conv Let_def split: if_splits)

text \<open>The driver keeps the contract, if the UART does not answer its configuration with \<open>-RT_ENOSYS\<close>.\<close>

lemma serial_driver_ok:
  assumes "driver_ok n drv" "\<And>conf m c h. uart_configure ops = Some conf \<Longrightarrow> fst (conf m c h) \<noteq> - RT_ENOSYS"
  shows "driver_ok n (serial_driver ops drv)"
proof -
  have i: "dev_keeps n st (snd (rt_serial_init ops n st))" "fst (rt_serial_init ops n st) \<noteq> - 6" for st
    using assms(2) by (auto simp: rt_serial_init_def Let_def split: option.splits prod.splits) (metis fst_conv)
  show ?thesis unfolding driver_ok_def
  proof (intro conjI allI impI)
    fix f st e st'
    assume "drv_init (serial_driver ops drv) f n st = Some (e, st')"
    then show "dev_keeps n st st'" "e \<noteq> - RT_ENOSYS" using i[of st] assms(1)
      by (auto simp: serial_driver_def driver_ok_def split: if_splits)
  next
    fix f oflag st e st'
    assume "drv_open (serial_driver ops drv) f n oflag st = Some (e, st')"
    then show "if done_ok e then dev_same n st st' else dev_keeps n st st'"
      using serial_open_same[of ops n oflag st e st'] assms(1) by (auto simp: serial_driver_def driver_ok_def split: if_splits)
  next
    fix f st e st'
    assume "drv_close (serial_driver ops drv) f n st = Some (e, st')"
    then show "dev_keeps n st st'" "done_ok e" using serial_close_keeps[of ops n st e st'] assms(1)
      by (auto simp: serial_driver_def driver_ok_def done_ok_def split: if_splits)
  qed
qed

subsection \<open>A second user\<close>

text \<open>A registered and activated serial device without a user, whose buffer has \<open>sz\<close> bytes.\<close>

definition serial_closed :: "nat \<Rightarrow> u16 \<Rightarrow> 'h uarts devices \<Rightarrow> bool" where
  "serial_closed n sz st \<longleftrightarrow> is_device n st \<and> dev_open (dv_dev st n) = Some SERIAL \<and> dev_close (dv_dev st n) = Some SERIAL \<and>
     dev_read (dv_dev st n) = Some SERIAL \<and> dev_control (dv_dev st n) = Some SERIAL \<and>
     dev_flag (dv_dev st n) AND RT_DEVICE_FLAG_ACTIVATED \<noteq> 0 \<and> dev_flag (dv_dev st n) AND RT_DEVICE_FLAG_STANDALONE = 0 \<and>
     dev_flag (dv_dev st n) AND RT_DEVICE_FLAG_INT_RX \<noteq> 0 \<and> dev_open_flag (dv_dev st n) = 0 \<and> dev_ref_count (dv_dev st n) = 0 \<and>
     sr_tx (serial n st) = None \<and> bufsz (sr_config (serial n st)) = sz"

text \<open>An open of such a device, with or without the interrupt, by one user or another.\<close>

definition serial_users :: "nat \<Rightarrow> 'h uarts devices \<Rightarrow> u8 \<Rightarrow> u16 \<Rightarrow> rt_serial_rx_fifo option \<Rightarrow> 'h uarts devices \<Rightarrow> bool" where
  "serial_users n st0 u fl rx st \<longleftrightarrow> is_device n st = is_device n st0 \<and> dv_kernel st = dv_kernel st0 \<and> dv_queues st = dv_queues st0 \<and>
     dv_dev st n = (dv_dev st0 n)\<lparr>dev_ref_count := u, dev_open_flag := fl\<rparr> \<and>
     sr_rx (serial n st) = rx \<and> sr_tx (serial n st) = None \<and> sr_config (serial n st) = sr_config (serial n st0)"

lemma open_with:
  assumes "serial_closed n sz st0" "serial_users n st0 u fl rx st" "u + 1 \<noteq> 0" "fl AND RT_DEVICE_FLAG_STREAM = 0"
  shows "uart_memory ops \<Longrightarrow> \<exists>st'. rt_device_open (serial_driver ops drv) n (RT_DEVICE_FLAG_INT_RX OR 3) st = Some (RT_EOK, st') \<and>
      serial_users n st0 (u + 1) 0x10b (Some (case rx of None \<Rightarrow> new_fifo sz | Some f \<Rightarrow> f)) st' \<and>
      hw st' = (if rx = None then snd (uart_control ops n RT_DEVICE_CTRL_SET_INT (ucast RT_DEVICE_FLAG_INT_RX) (hw st)) else hw st)"
    and "\<exists>st'. rt_device_open (serial_driver ops drv) n 2 st = Some (RT_EOK, st') \<and>
      serial_users n st0 (u + 1) 0xa rx st' \<and> hw st' = hw st"
  using assms
  by (cases rx; auto simp: serial_closed_def serial_users_def rt_device_open_def dev_activate_def serial_driver_def rt_serial_open_def
      serial_open_rx_def serial_open_tx_def RT_ASSERT_def has_oflag_def oflag_set_def serial_ctrl_def is_device_def serial_def upd_serial_def
      set_hw_def hw_def Let_def split: prod.split)+

lemma close_with:
  assumes "serial_closed n sz st0" "serial_users n st0 u fl rx st" "fl AND (RT_DEVICE_FLAG_INT_RX OR RT_DEVICE_FLAG_INT_TX) = 0"
  shows "1 < u \<Longrightarrow> \<exists>st'. rt_device_close (serial_driver ops drv) n st = Some (RT_EOK, st') \<and> serial_users n st0 (u - 1) fl rx st' \<and> hw st' = hw st"
    and "u = 1 \<Longrightarrow> \<exists>st'. rt_device_close (serial_driver ops drv) n st = Some (RT_EOK, st') \<and> serial_users n st0 0 0 rx st' \<and> hw st' = hw st"
proof -
  have f: "fl AND 0x100 = 0" "fl AND 0x400 = 0" using assms(3) by (simp_all only: bit.conj_disj_distrib or_eq_0_iff)
  have d: "is_device n st" "dev_close (dv_dev st n) = Some SERIAL" "dev_ref_count (dv_dev st n) = u"
    using assms(1,2) by (simp_all add: serial_closed_def serial_users_def)
  show "\<exists>st'. rt_device_close (serial_driver ops drv) n st = Some (RT_EOK, st') \<and> serial_users n st0 (u - 1) fl rx st' \<and> hw st' = hw st"
    if "1 < u"
  proof -
    have "u \<noteq> 0" "u - 1 \<noteq> 0" using that by auto
    then show ?thesis using d assms(2)
      by (simp add: rt_device_close_def RT_ASSERT_def serial_users_def serial_def hw_def is_device_def)
  qed
  show "\<exists>st'. rt_device_close (serial_driver ops drv) n st = Some (RT_EOK, st') \<and> serial_users n st0 0 0 rx st' \<and> hw st' = hw st"
    if "u = 1"
    using d assms(2) that f
    by (simp add: rt_device_close_def RT_ASSERT_def serial_users_def serial_def hw_def is_device_def serial_driver_def
        rt_serial_close_def has_oflag_def)
qed

lemma config_with:
  assumes "serial_closed n sz st0" "serial_users n st0 0 0 rx st" "arg \<noteq> 0"
  obtains st' where "rt_device_control (serial_driver ops drv) n RT_DEVICE_CTRL_CONFIG arg st = Some (RT_EOK, st')"
    "serial_closed n (bufsz (uart_args ops arg)) st'" "sr_rx (serial n st') = rx" "hw st' = hw st"
  by (rule that[of "upd_serial n (\<lambda>s. s\<lparr>sr_config := uart_args ops arg\<rparr>) st"])
    (use assms in \<open>simp_all add: rt_device_control_def RT_ASSERT_def serial_closed_def serial_users_def serial_driver_def
      rt_serial_control_def Let_def is_device_def\<close>, simp_all add: upd_serial_def serial_def hw_def)

lemma closed_users: "serial_closed n sz st \<Longrightarrow> serial_users n st 0 0 (sr_rx (serial n st)) st"
  by (simp add: serial_closed_def serial_users_def)

text \<open>A buffer that is smaller than the configuration says is written behind its end.\<close>

lemma isr_overflow:
  assumes "unat sz < unat m"
  shows "length (rx_buffer f) = unat sz \<Longrightarrow> unat (put_index f) \<le> unat sz \<Longrightarrow> get_index f = 0 \<Longrightarrow>
    uart_has ops n cs h h' \<Longrightarrow> unat sz - unat (put_index f) < length cs \<Longrightarrow> isr_rx_loop ops n m f h = None"
proof (induction cs arbitrary: f h)
  case (Cons c cs)
  obtain h1 where h1: "uart_getc ops n h = (uint c, h1)" "uart_has ops n cs h1 h'" using Cons.prems(4) by (cases "uart_getc ops n h") auto
  have c: "uint c \<noteq> - 1" by (metis uint_ge_0 neg_0_le_iff_le not_one_le_zero)
  show ?case
  proof (cases "unat (put_index f) < unat sz")
    case True
    let ?p = "fifo_wrap m (put_index f + 1)"
    have p: "unat ?p = Suc (unat (put_index f))"
      using fifo_wrap_next(1)[of "put_index f" m] True assms by (simp add: word_less_nat_alt)
    then have "?p \<noteq> 0" by auto
    then have "fifo_put m c f = Some (f\<lparr>rx_buffer := (rx_buffer f)[unat (put_index f) := c], put_index := ?p\<rparr>)"
      using True Cons.prems(1,3) by (simp add: fifo_put_def Let_def)
    moreover have "isr_rx_loop ops n m (f\<lparr>rx_buffer := (rx_buffer f)[unat (put_index f) := c], put_index := ?p\<rparr>) h1 = None"
      by (rule Cons.IH) (use Cons.prems(1,3,5) h1(2) p True in simp_all)
    ultimately show ?thesis using h1(1) c by (subst isr_rx_loop.simps) simp
  next
    case False
    then have "fifo_put m c f = None" using Cons.prems(1,2) by (simp add: fifo_put_def)
    then show ?thesis using h1(1) c by (subst isr_rx_loop.simps) simp
  qed
qed simp

text \<open>A second user who opens a serial device only for writing takes the interrupt mode away from the first one: the flags of
  the open device are replaced, and from then on reads poll the UART instead of reading the FIFO that the interrupt fills.
  When both have closed the device, the FIFO is still there and the interrupt of the receiver has not been switched off. The size of the
  buffer can then be changed, since there are no users; the next open keeps the old FIFO, and the interrupt writes behind
  its end.\<close>

theorem serial_second_open:
  assumes "serial_closed n sz st" "sr_rx (serial n st) = None" "uart_memory ops" "count \<noteq> 0" "arg \<noteq> 0" "sz < bufsz (uart_args ops arg)"
  shows "\<exists>st1 st2 st3 st4 st5 st6.
    rt_device_open (serial_driver ops drv) n (RT_DEVICE_FLAG_INT_RX OR 3) st = Some (RT_EOK, st1) \<and>
    rt_device_open (serial_driver ops drv) n 2 st1 = Some (RT_EOK, st2) \<and>
    (\<exists>cs h. serial_poll_rx ops n (unat count) (hw st2) = (cs, h) \<and>
      rt_device_read (serial_driver ops drv) n pos count st2 = Some ((word_of_nat (length cs), cs), set_hw h st2)) \<and>
    rt_device_close (serial_driver ops drv) n st2 = Some (RT_EOK, st3) \<and> rt_device_close (serial_driver ops drv) n st3 = Some (RT_EOK, st4) \<and>
    sr_rx (serial n st4) = Some (new_fifo sz) \<and> hw st4 = snd (uart_control ops n RT_DEVICE_CTRL_SET_INT 0x100 (hw st)) \<and>
    rt_device_control (serial_driver ops drv) n RT_DEVICE_CTRL_CONFIG arg st4 = Some (RT_EOK, st5) \<and>
    rt_device_open (serial_driver ops drv) n (RT_DEVICE_FLAG_INT_RX OR 3) st5 = Some (RT_EOK, st6) \<and>
    (\<forall>h cs h'. uart_has ops n cs h h' \<and> unat sz < length cs \<longrightarrow>
      rt_hw_serial_isr fn ind ops n RT_SERIAL_EVENT_RX_IND (set_hw h st6) = None)"
proof -
  let ?D = "serial_driver ops drv"
  have u0: "serial_users n st 0 0 None st" using closed_users[OF assms(1)] assms(2) by simp
  obtain st1 where s1: "rt_device_open ?D n (RT_DEVICE_FLAG_INT_RX OR 3) st = Some (0, st1)" "serial_users n st 1 0x10b (Some (new_fifo sz)) st1"
    "hw st1 = snd (uart_control ops n 0x10 0x100 (hw st))" using open_with(1)[OF assms(1) u0 _ _ assms(3), of drv] by auto
  obtain st2 where s2: "rt_device_open ?D n 2 st1 = Some (0, st2)" "serial_users n st 2 0xa (Some (new_fifo sz)) st2" "hw st2 = hw st1"
    using open_with(2)[OF assms(1) s1(2), of ops drv] by auto
  obtain st3 where s3: "rt_device_close ?D n st2 = Some (0, st3)" "serial_users n st 1 0xa (Some (new_fifo sz)) st3" "hw st3 = hw st2"
    using close_with(1)[OF assms(1) s2(2), of ops drv] by auto
  obtain st4 where s4: "rt_device_close ?D n st3 = Some (0, st4)" "serial_users n st 0 0 (Some (new_fifo sz)) st4" "hw st4 = hw st3"
    using close_with(2)[OF assms(1) s3(2), of ops drv] by auto
  obtain st5 where s5: "rt_device_control ?D n RT_DEVICE_CTRL_CONFIG arg st4 = Some (0, st5)" "serial_closed n (bufsz (uart_args ops arg)) st5"
    "sr_rx (serial n st5) = Some (new_fifo sz)" by (rule config_with[OF assms(1) s4(2) assms(5)])
  obtain st6 where s6: "rt_device_open ?D n (RT_DEVICE_FLAG_INT_RX OR 3) st5 = Some (0, st6)"
    "serial_users n st5 1 0x10b (Some (new_fifo sz)) st6"
    using open_with(1)[OF s5(2) closed_users[OF s5(2)] _ _ assms(3), of drv] s5(3) by auto
  have r: "rt_device_read ?D n pos count st2 = Some ((word_of_nat (length cs), cs), set_hw h st2)"
    if "serial_poll_rx ops n (unat count) (hw st2) = (cs, h)" for cs h
    using that assms(1,4) s2(2)
    by (simp add: rt_device_read_def RT_ASSERT_def serial_users_def serial_closed_def serial_driver_def rt_serial_read_def has_oflag_def)
  have o: "rt_hw_serial_isr fn ind ops n RT_SERIAL_EVENT_RX_IND (set_hw h st6) = None" if "uart_has ops n cs h h'" "unat sz < length cs" for h cs h'
  proof -
    have "isr_rx_loop ops n (bufsz (uart_args ops arg)) (new_fifo sz) h = None"
      by (rule isr_overflow[OF _ _ _ _ that(1)]) (use that(2) assms(6) in \<open>simp_all add: new_fifo_def word_less_nat_alt\<close>)
    then show ?thesis using s6(2) s5(2) by (simp add: rt_hw_serial_isr_def serial_users_def serial_closed_def)
  qed
  have p: "\<exists>cs h. serial_poll_rx ops n (unat count) (hw st2) = (cs, h) \<and>
      rt_device_read ?D n pos count st2 = Some ((word_of_nat (length cs), cs), set_hw h st2)"
    using r by (cases "serial_poll_rx ops n (unat count) (hw st2)") blast
  have k: "sr_rx (serial n st4) = Some (new_fifo sz)" "hw st4 = snd (uart_control ops n RT_DEVICE_CTRL_SET_INT 0x100 (hw st))"
    using s4(2,3) s3(3) s2(3) s1(3) by (simp_all add: serial_users_def)
  have o': "\<forall>h cs h'. uart_has ops n cs h h' \<and> unat sz < length cs \<longrightarrow>
      rt_hw_serial_isr fn ind ops n RT_SERIAL_EVENT_RX_IND (set_hw h st6) = None" using o by blast
  show ?thesis
    by (intro exI) (rule conjI[OF s1(1) conjI[OF s2(1) conjI[OF p conjI[OF s3(1) conjI[OF s4(1) conjI[OF k(1) conjI[OF k(2)
      conjI[OF s5(1) conjI[OF s6(1) o']]]]]]]]])
qed


lemma serial_second_open_witness:
  "\<exists>st1 st2 st3 st4 st5 st6.
    rt_device_open (serial_driver ex_uart ex_none) 0 (0x100 OR 3) (ex_serial 2 ex_sdev None) = Some (0, st1) \<and>
    rt_device_open (serial_driver ex_uart ex_none) 0 2 st1 = Some (0, st2) \<and>
    rt_device_close (serial_driver ex_uart ex_none) 0 st2 = Some (0, st3) \<and> rt_device_close (serial_driver ex_uart ex_none) 0 st3 = Some (0, st4) \<and>
    rt_device_control (serial_driver ex_uart ex_none) 0 3 1 st4 = Some (0, st5) \<and>
    rt_device_open (serial_driver ex_uart ex_none) 0 (0x100 OR 3) st5 = Some (0, st6) \<and>
    rt_hw_serial_isr (\<lambda>_ _ _ _. None) (\<lambda>_ _ _ _. None) ex_uart 0 1 (set_hw [1, 2, 3] st6) = None"
proof -
  have s: "serial_closed 0 2 (ex_serial 2 ex_sdev None)"
    by (simp add: serial_closed_def ex_serial_def ex_sdev_def zero_device_def is_device_def ex_ipc_def rt_object_get_type_def serial_def)
  have u: "uart_has ex_uart 0 [1, 2, 3] [1, 2, 3] []" by (simp add: ex_uart_def)
  have "sr_rx (serial 0 (ex_serial 2 ex_sdev None)) = None" "uart_memory ex_uart" "(1 :: u32) \<noteq> 0" "(2 :: u16) < bufsz (uart_args ex_uart 1)"
    by (simp_all add: ex_serial_def serial_def ex_uart_def)
  from serial_second_open[OF s this(1-3,3,4), where drv = ex_none and fn = "\<lambda>_ _ _ _. None" and ind = "\<lambda>_ _ _ _. None"]
  obtain st1 st2 st3 st4 st5 st6 where *: "rt_device_open (serial_driver ex_uart ex_none) 0 (0x100 OR 3) (ex_serial 2 ex_sdev None) = Some (0, st1)"
    "rt_device_open (serial_driver ex_uart ex_none) 0 2 st1 = Some (0, st2)"
    "rt_device_close (serial_driver ex_uart ex_none) 0 st2 = Some (0, st3)" "rt_device_close (serial_driver ex_uart ex_none) 0 st3 = Some (0, st4)"
    "rt_device_control (serial_driver ex_uart ex_none) 0 3 1 st4 = Some (0, st5)"
    "rt_device_open (serial_driver ex_uart ex_none) 0 (0x100 OR 3) st5 = Some (0, st6)"
    "\<And>h cs h'. uart_has ex_uart 0 cs h h' \<and> unat (2 :: u16) < length cs \<Longrightarrow>
      rt_hw_serial_isr (\<lambda>_ _ _ _. None) (\<lambda>_ _ _ _. None) ex_uart 0 1 (set_hw h st6) = None"
    by metis
  have "rt_hw_serial_isr (\<lambda>_ _ _ _. None) (\<lambda>_ _ _ _. None) ex_uart 0 1 (set_hw [1, 2, 3] st6) = None"
    by (rule *(7)[of "[1, 2, 3]" "[1, 2, 3]" "[]"]) (use u in simp)
  then show ?thesis
    by (intro exI) (rule conjI[OF *(1) conjI[OF *(2) conjI[OF *(3) conjI[OF *(4) conjI[OF *(5) conjI[OF *(6)]]]]]])
qed

end
