(* ===== verification/Msh.thy ===== *)
theory Msh
  imports Kservice
begin

text \<open>
  The command interpreter \<open>msh\<close> (\<open>components/finsh/msh.c\<close>): it splits a line into arguments in place, finds the command of
  the first word in the table of commands, and completes a line that is not finished.

  A line is the list of the bytes from its pointer to the end of its array; a pointer into it is a position. \<open>None\<close> is an access
  behind the array. The functions of commands, scripts and what directories hold are parameters.
\<close>

subsection \<open>Splitting a line\<close>

abbreviation (input) FINSH_ARG_MAX :: nat where "FINSH_ARG_MAX \<equiv> 10"
abbreviation (input) QUOTE :: u8 where "QUOTE \<equiv> 34"
abbreviation (input) BACKSLASH :: u8 where "BACKSLASH \<equiv> 92"
abbreviation (input) SPACE :: u8 where "SPACE \<equiv> 32"

definition blank :: "u8 \<Rightarrow> bool" where
  "blank c \<longleftrightarrow> c = SPACE \<or> c = 9"

definition rd :: "u8 list \<Rightarrow> nat \<Rightarrow> u8 option" where
  "rd buf p = (if p < length buf then Some (buf ! p) else None)"

partial_function (option) strip_blanks :: "nat \<Rightarrow> u8 list \<Rightarrow> nat \<Rightarrow> (u8 list \<times> nat) option" where
  "strip_blanks len buf p =
     do { c \<leftarrow> rd buf p;
          if blank c \<and> p < len then strip_blanks len (buf[p := 0]) (p + 1) else Some (buf, p) }"

partial_function (option) skip_word :: "nat \<Rightarrow> u8 list \<Rightarrow> nat \<Rightarrow> nat option" where
  "skip_word len buf p =
     do { c \<leftarrow> rd buf p;
          if \<not> blank c \<and> p < len then skip_word len buf (p + 1) else Some p }"

partial_function (option) skip_string :: "nat \<Rightarrow> u8 list \<Rightarrow> nat \<Rightarrow> nat option" where
  "skip_string len buf p =
     do { c \<leftarrow> rd buf p;
          if c \<noteq> QUOTE \<and> p < len
          then do { p \<leftarrow> (if c = BACKSLASH then do { d \<leftarrow> rd buf (p + 1); Some (if d = QUOTE then p + 1 else p) } else Some p);
                    skip_string len buf (p + 1) }
          else Some p }"

text \<open>The pointers to the arguments so far, and the line as it is then.\<close>

partial_function (option) split_loop :: "nat \<Rightarrow> u8 list \<Rightarrow> nat \<Rightarrow> nat list \<Rightarrow> (nat list \<times> u8 list) option" where
  "split_loop len buf p argv =
     (if p < len
      then do { (buf, p) \<leftarrow> strip_blanks len buf p;
                if length argv \<ge> FINSH_ARG_MAX \<or> p \<ge> len then Some (argv, buf)
                else do { c \<leftarrow> rd buf p;
                          if c = QUOTE
                          then do { q \<leftarrow> skip_string len buf (p + 1);
                                    if q \<ge> len then Some (argv @ [p + 1], buf)
                                    else split_loop len (buf[q := 0]) (q + 1) (argv @ [p + 1]) }
                          else do { q \<leftarrow> skip_word len buf p;
                                    if q \<ge> len then Some (argv @ [p], buf) else split_loop len buf q (argv @ [p]) } } }
      else Some (argv, buf))"

definition msh_split :: "u8 list \<Rightarrow> nat \<Rightarrow> (nat list \<times> u8 list) option" where
  "msh_split cmd len = split_loop len cmd 0 []"

subsection \<open>Commands\<close>

text \<open>The table: names, with the zero at their end, and functions.\<close>

type_synonym finsh_syscall = "u8 list \<times> nat"

abbreviation (input) cmd_prefix :: "u8 list" where "cmd_prefix \<equiv> [95, 95, 99, 109, 100, 95, 0]" \<comment> \<open>\<open>__cmd_\<close>\<close>

fun msh_get_cmd :: "finsh_syscall list \<Rightarrow> u8 list \<Rightarrow> nat \<Rightarrow> nat option option" where
  "msh_get_cmd [] cmd sz = Some None"
| "msh_get_cmd ((name, func) # table) cmd sz =
     do { r \<leftarrow> rt_strncmp name cmd_prefix 6;
          if r \<noteq> 0 then msh_get_cmd table cmd sz
          else do { r \<leftarrow> rt_strncmp (drop 6 name) cmd sz;
                    if r \<noteq> 0 then msh_get_cmd table cmd sz
                    else do { c \<leftarrow> rd name (6 + sz);
                              if c = 0 then Some (Some func) else msh_get_cmd table cmd sz } } }"

text \<open>
  What commands do: a command gets its arguments as pointers into the line, which it may change. A script gets the line and
  answers whether there was one.
\<close>

record 'w msh_env =
  msh_table :: "finsh_syscall list"
  msh_run :: "nat \<Rightarrow> nat list \<Rightarrow> u8 list \<Rightarrow> 'w \<Rightarrow> (int \<times> u8 list \<times> 'w) option"
  msh_script :: "u8 list \<Rightarrow> nat \<Rightarrow> 'w \<Rightarrow> (int \<times> 'w) option"
  msh_getcwd :: "'w \<Rightarrow> u8 list"
  msh_names :: "u8 list \<Rightarrow> 'w \<Rightarrow> u8 list list option" \<comment> \<open>the names in a directory, if it can be opened\<close>
  msh_memory :: bool

text \<open>The result of the command, if there is one.\<close>

definition msh_exec_cmd :: "'w msh_env \<Rightarrow> u8 list \<Rightarrow> nat \<Rightarrow> 'w \<Rightarrow> (int option \<times> u8 list \<times> 'w) option" where
  "msh_exec_cmd env cmd len w =
     do { cmd0_size \<leftarrow> skip_word len cmd 0;
          if cmd0_size = 0 then Some (None, cmd, w)
          else do { f \<leftarrow> msh_get_cmd (msh_table env) cmd cmd0_size;
                    case f of
                      None \<Rightarrow> Some (None, cmd, w)
                    | Some func \<Rightarrow>
                        do { (argv, cmd) \<leftarrow> msh_split cmd len;
                             if argv = [] then Some (None, cmd, w)
                             else do { (r, cmd, w) \<leftarrow> msh_run env func argv cmd w; Some (Some r, cmd, w) } } } }"

text \<open>The blanks at the beginning: the rest of the line, and its length.\<close>

fun strip_front :: "u8 list \<Rightarrow> u32 \<Rightarrow> (u8 list \<times> u32) option" where
  "strip_front [] len = None"
| "strip_front (c # cs) len = (if blank c then strip_front cs (len - 1) else Some (c # cs, len))"

fun cut_word :: "u8 list \<Rightarrow> u8 list option" where
  "cut_word [] = None"
| "cut_word (c # cs) = (if c = SPACE \<or> c = 0 then Some (0 # cs) else map_option ((#) c) (cut_word cs))"

definition msh_exec :: "'w msh_env \<Rightarrow> u8 list \<Rightarrow> u32 \<Rightarrow> 'w \<Rightarrow> (int \<times> u8 list \<times> 'w) option" where
  "msh_exec env line len w =
     do { (cmd, len) \<leftarrow> strip_front line len;
          let front = take (length line - length cmd) line;
          if len = 0 then Some (0, line, w)
          else do { (r, cmd, w) \<leftarrow> msh_exec_cmd env cmd (unat len) w;
                    case r of
                      Some ret \<Rightarrow> Some (ret, front @ cmd, w)
                    | None \<Rightarrow>
                        do { (s, w) \<leftarrow> msh_script env cmd (unat len) w;
                             if s = 0 then Some (0, front @ cmd, w)
                             else do { cmd \<leftarrow> cut_word cmd; Some (- 1, front @ cmd, w) } } } }"

subsection \<open>Completing a line\<close>

fun str_common :: "u8 list \<Rightarrow> u8 list \<Rightarrow> nat option" where
  "str_common (a # s) (b # t) = (if a \<noteq> 0 \<and> b \<noteq> 0 \<and> a = b then map_option Suc (str_common s t) else Some 0)"
| "str_common s t = (if s = [] \<or> hd s \<noteq> 0 then None else Some 0)"

text \<open>
  The loop over names: those that begin with \<open>prefix\<close>, \<open>best\<close> the first of them, with the length that all of them have in common.
\<close>

fun common_loop :: "u8 list \<Rightarrow> nat \<Rightarrow> u8 list list \<Rightarrow> (u8 list \<times> nat) option \<Rightarrow> (u8 list \<times> nat) option option" where
  "common_loop prefix n [] best = Some best"
| "common_loop prefix n (name # names) best =
     do { r \<leftarrow> rt_strncmp prefix name n;
          if r \<noteq> 0 then common_loop prefix n names best
          else do { (first, min_length) \<leftarrow>
                      (case best of
                         Some (first, m) \<Rightarrow> if m = 0 then do { l \<leftarrow> rt_strlen name; Some (name, l) } else Some (first, m)
                       | None \<Rightarrow> do { l \<leftarrow> rt_strlen name; Some (name, l) });
                    l \<leftarrow> str_common first name;
                    common_loop prefix n names (Some (first, if l < min_length then l else min_length)) } }"

text \<open>The position behind the last slash of a path.\<close>

fun last_part :: "u8 list \<Rightarrow> nat \<Rightarrow> nat \<Rightarrow> nat option" where
  "last_part [] i idx = None"
| "last_part (c # cs) i idx = (if c = 0 then Some idx else last_part cs (i + 1) (if c = 47 then i + 1 else idx))"

text \<open>\<open>path\<close> points into the line; \<open>full_path\<close> has 256 bytes.\<close>

definition msh_auto_complete_path :: "'w msh_env \<Rightarrow> u8 list \<Rightarrow> 'w \<Rightarrow> u8 list option" where
  "msh_auto_complete_path env path w =
     (if \<not> msh_memory env then Some path
      else do { c \<leftarrow> rd path 0;
                base \<leftarrow> (if c \<noteq> 47
                  then do { n \<leftarrow> rt_strlen (msh_getcwd env w);
                            if n = 0 then None
                            else let cwd = take n (msh_getcwd env w) in Some (if last cwd \<noteq> 47 then cwd @ [47] else cwd) }
                  else Some []);
                index \<leftarrow> last_part path 0 0;
                let parent = base @ take index path;
                if length parent \<ge> 256 then None
                else case msh_names env (parent @ [0]) w of
                  None \<Rightarrow> Some path
                | Some names \<Rightarrow>
                    do { c \<leftarrow> rd path index;
                         if c = 0 then Some path
                         else do { n \<leftarrow> rt_strlen (drop index path);
                                   best \<leftarrow> common_loop (drop index path) n names None;
                                   case best of
                                     None \<Rightarrow> Some path
                                   | Some (first, m) \<Rightarrow>
                                       if m = 0 then Some path
                                       else if index + m < length path
                                       then Some (take index path @ take m first @ 0 # drop (index + m + 1) path)
                                       else None } } })"

text \<open>The last space of the line, other than at its beginning.\<close>

fun last_space :: "u8 list \<Rightarrow> nat \<Rightarrow> nat option" where
  "last_space line 0 = None"
| "last_space line (Suc p) = (if line ! Suc p = SPACE then Some (Suc p) else last_space line p)"

definition msh_commands :: "finsh_syscall list \<Rightarrow> u8 list list option" where
  "msh_commands table =
     those (map (\<lambda>(name, func). map_option (\<lambda>r. (r, drop 6 name)) (rt_strncmp name cmd_prefix 6)) table) \<bind>
     (\<lambda>xs. Some (map snd (filter (\<lambda>x. fst x = 0) xs)))"

definition msh_auto_complete :: "'w msh_env \<Rightarrow> u8 list \<Rightarrow> 'w \<Rightarrow> u8 list option" where
  "msh_auto_complete env prefix w =
     do { c \<leftarrow> rd prefix 0;
          if c = 0 then Some prefix
          else do { n \<leftarrow> rt_strlen prefix;
                    prefix \<leftarrow> (case last_space prefix n of
                        Some p \<Rightarrow> map_option ((@) (take (p + 1) prefix)) (msh_auto_complete_path env (drop (p + 1) prefix) w)
                      | None \<Rightarrow> Some prefix);
                    names \<leftarrow> msh_commands (msh_table env);
                    n \<leftarrow> rt_strlen prefix;
                    best \<leftarrow> common_loop prefix n names None;
                    case best of
                      None \<Rightarrow> Some prefix
                    | Some (name, m) \<Rightarrow>
                        if m \<le> length prefix
                        then do { s \<leftarrow> rt_strncpy name m; Some (s @ drop m prefix) }
                        else None } }"

end
