(* ===== verification/Msh_Split.thy ===== *)
theory Msh_Split
  imports Msh
begin

text \<open>
  The arguments of a command line: the splitting in place gives pointers to the words that a function on lists gives.
\<close>

subsection \<open>The words of a line\<close>

text \<open>The text up to the next quotation mark without a backslash in front of it, and what is behind that mark.\<close>

fun quoted :: "u8 list \<Rightarrow> u8 list \<times> u8 list" where
  "quoted [] = ([], [])"
| "quoted [c] = (if c = QUOTE then ([], []) else ([c], []))"
| "quoted (c # d # cs) =
     (if c = QUOTE then ([], d # cs)
      else if c = BACKSLASH \<and> d = QUOTE then (let (t, r) = quoted cs in (c # d # t, r))
      else let (t, r) = quoted (d # cs) in (c # t, r))"

lemma quoted_cases:
  "s = fst (quoted s) \<and> snd (quoted s) = [] \<or> s = fst (quoted s) @ QUOTE # snd (quoted s)"
  by (induction s rule: quoted.induct) (auto simp: Let_def split: prod.splits)

lemma quoted_length: "length (snd (quoted s)) \<le> length s"
  by (induction s rule: quoted.induct) (auto simp: Let_def split: prod.splits)

function words :: "u8 list \<Rightarrow> u8 list list" where
  "words s =
     (case dropWhile blank s of
        [] \<Rightarrow> []
      | c # cs \<Rightarrow> if c = QUOTE then fst (quoted cs) # words (snd (quoted cs))
          else takeWhile (\<lambda>c. \<not> blank c) (c # cs) # words (dropWhile (\<lambda>c. \<not> blank c) (c # cs)))"
  by auto
termination
proof (relation "measure length")
  fix s c cs
  assume s: "dropWhile blank s = c # cs"
  have l: "length (c # cs) \<le> length s" using s by (metis length_dropWhile_le)
  show "(snd (quoted cs), s) \<in> measure length" using l quoted_length[of cs] by simp
  assume "c \<noteq> QUOTE"
  have "\<not> blank c" using s by (metis hd_dropWhile list.distinct(1) list.sel(1))
  then have "length (dropWhile (\<lambda>c. \<not> blank c) (c # cs)) \<le> length cs" by (simp add: length_dropWhile_le)
  then show "(dropWhile (\<lambda>c. \<not> blank c) (c # cs), s) \<in> measure length" using l by simp
qed simp

declare words.simps [simp del]

subsection \<open>The loops\<close>

lemma rd_at [simp]: "rd (pre @ c # cs) (length pre) = Some c" "rd (pre @ c # d # cs) (Suc (length pre)) = Some d"
  by (simp_all add: rd_def nth_append)

lemma strip_blanks_ok:
  "strip_blanks (length pre + length s) (pre @ s @ 0 # tail) (length pre) =
    Some ((pre @ replicate (length (takeWhile blank s)) 0) @ dropWhile blank s @ 0 # tail, length pre + length (takeWhile blank s))"
proof (induction s arbitrary: pre)
  case Nil
  then show ?case by (subst strip_blanks.simps) simp
next
  case (Cons c s)
  show ?case
  proof (cases "blank c")
    case True
    have "(pre @ (c # s) @ 0 # tail)[length pre := 0] = (pre @ [0]) @ s @ 0 # tail" by (simp add: list_update_append)
    then show ?thesis using True Cons[of "pre @ [0]"] by (subst strip_blanks.simps) (simp add: replicate_append_same[symmetric])
  next
    case False
    then show ?thesis by (subst strip_blanks.simps) simp
  qed
qed

lemma skip_word_ok:
  "skip_word (length pre + length s) (pre @ s @ 0 # tail) (length pre) = Some (length pre + length (takeWhile (\<lambda>c. \<not> blank c) s))"
proof (induction s arbitrary: pre)
  case Nil
  then show ?case by (subst skip_word.simps) simp
next
  case (Cons c s)
  then show ?case using Cons[of "pre @ [c]"] by (subst skip_word.simps) simp
qed

lemma skip_string_ok:
  "skip_string (length pre + length s) (pre @ s @ 0 # tail) (length pre) = Some (length pre + length (fst (quoted s)))"
proof (induction s arbitrary: pre rule: quoted.induct)
  case 1
  then show ?case by (subst skip_string.simps) simp
next
  case (2 c)
  have "skip_string (length pre + 1) (pre @ [c] @ 0 # tail) (length pre + 1) = Some (length pre + 1)"
    by (subst skip_string.simps) (simp add: rd_def nth_append)
  moreover have "(if c = BACKSLASH then do { d \<leftarrow> rd (pre @ [c] @ 0 # tail) (length pre + 1); Some (if d = QUOTE then length pre + 1 else length pre) }
      else Some (length pre)) = Some (length pre)"
    by (simp add: rd_def nth_append)
  ultimately show ?case by (subst skip_string.simps) (simp add: rd_def nth_append)
next
  case (3 c d cs)
  show ?case
  proof (cases "c = QUOTE")
    case True
    then show ?thesis by (subst skip_string.simps) simp
  next
    case c: False
    show ?thesis
    proof (cases "c = BACKSLASH \<and> d = QUOTE")
      case True
      have "skip_string (length pre + length (c # d # cs)) (pre @ (c # d # cs) @ 0 # tail) (length pre + 2) =
          Some (length pre + 2 + length (fst (quoted cs)))" using "3.IH"(1)[OF c True, of "pre @ [c, d]"] by simp
      then show ?thesis using True c by (subst skip_string.simps) (simp add: Let_def split: prod.split)
    next
      case False
      have "skip_string (length pre + length (c # d # cs)) (pre @ (c # d # cs) @ 0 # tail) (length pre + 1) =
          Some (length pre + 1 + length (fst (quoted (d # cs))))" using "3.IH"(2)[OF c False, of "pre @ [c]"] by simp
      then show ?thesis using False c by (subst skip_string.simps) (auto simp: Let_def split: prod.split)
    qed
  qed
qed

subsection \<open>The arguments\<close>

text \<open>
  The line is \<open>pre\<close>, which is done, and \<open>s\<close>, which is not. The word \<open>t\<close> is at \<open>p\<close>, and it is terminated or will be: it ends
  where \<open>pre\<close> ends, and a blank follows or nothing.
\<close>

definition held :: "u8 list \<Rightarrow> u8 list \<Rightarrow> nat \<Rightarrow> u8 list \<Rightarrow> bool" where
  "held pre s p t \<longleftrightarrow> 0 \<notin> set t \<and>
     (\<exists>a b. pre = a @ t @ b \<and> length a = p \<and> (if b = [] then s = [] \<or> blank (hd s) else hd b = 0))"

lemma held_strip:
  assumes "held pre s p t"
  shows "held (pre @ replicate (length (takeWhile blank s)) 0) (dropWhile blank s) p t"
proof -
  obtain a b where h: "0 \<notin> set t" "pre = a @ t @ b" "length a = p" "if b = [] then s = [] \<or> blank (hd s) else hd b = 0"
    using assms by (auto simp: held_def)
  let ?z = "replicate (length (takeWhile blank s)) (0 :: u8)"
  have "if b @ ?z = [] then dropWhile blank s = [] \<or> blank (hd (dropWhile blank s)) else hd (b @ ?z) = 0"
    using h(4) by (cases s) (auto split: if_splits)
  then show ?thesis using h(1-3) unfolding held_def by (intro conjI exI[of _ a] exI[of _ "b @ ?z"]) simp_all
qed

lemma held_next:
  assumes "held pre s p t" "s \<noteq> []" "\<not> blank (hd s)"
  shows "held (pre @ x) s' p t"
proof -
  obtain a b where h: "0 \<notin> set t" "pre = a @ t @ b" "length a = p" "b \<noteq> []" "hd b = 0" using assms by (auto simp: held_def split: if_splits)
  then show ?thesis unfolding held_def by (intro conjI exI[of _ a] exI[of _ "b @ x"]) simp_all
qed

lemma held_cstr:
  assumes "held pre s p t" "s = [] \<or> \<not> blank (hd s)"
  shows "cstr (drop p (pre @ s @ 0 # tail)) t"
proof -
  obtain a b where h: "0 \<notin> set t" "pre = a @ t @ b" "length a = p" "if b = [] then s = [] \<or> blank (hd s) else hd b = 0"
    using assms(1) by (auto simp: held_def)
  then show ?thesis using assms(2) by (cases b) (auto simp: cstr_def)
qed


lemma held_all_strip:
  "list_all2 (held pre s) argv ts \<Longrightarrow>
    list_all2 (held (pre @ replicate (length (takeWhile blank s)) 0) (dropWhile blank s)) argv ts"
  by (erule list_all2_mono) (rule held_strip)

lemma held_all_snoc:
  assumes "list_all2 (held pre s) argv ts" "s \<noteq> []" "\<not> blank (hd s)" "held (pre @ x) s' p t"
  shows "list_all2 (held (pre @ x) s') (argv @ [p]) (ts @ [t])"
  using assms by (auto intro!: list_all2_appendI elim!: list_all2_mono intro: held_next)

lemma held_all_cstr:
  assumes "list_all2 (held pre s) argv ts" "s = [] \<or> \<not> blank (hd s)"
  shows "list_all2 (\<lambda>p t. cstr (drop p (pre @ s @ 0 # tail)) t) argv ts"
  by (rule list_all2_mono[OF assms(1)]) (rule held_cstr[OF _ assms(2)])

lemma split_loop_strip:
  assumes "s \<noteq> []"
  shows "split_loop (length pre + length s) (pre @ s @ 0 # tail) (length pre) argv =
    (let pre = pre @ replicate (length (takeWhile blank s)) 0; s = dropWhile blank s; len = length pre + length s; p = length pre;
         buf = pre @ s @ 0 # tail in
     if length argv \<ge> 10 \<or> s = [] then Some (argv, buf)
     else if hd s = QUOTE
     then (let q = p + 1 + length (fst (quoted (tl s))) in
           if q \<ge> len then Some (argv @ [p + 1], buf) else split_loop len (buf[q := 0]) (q + 1) (argv @ [p + 1]))
     else (let q = p + length (takeWhile (\<lambda>c. \<not> blank c) s) in
           if q \<ge> len then Some (argv @ [p], buf) else split_loop len buf q (argv @ [p])))"
proof -
  define pre1 where "pre1 = pre @ replicate (length (takeWhile blank s)) (0 :: u8)"
  define s1 where "s1 = dropWhile blank s"
  define n where "n = length pre1 + length s1"
  define buf where "buf = pre1 @ s1 @ 0 # tail"
  have l: "length pre + length s = n"
    unfolding n_def pre1_def s1_def by (metis length_append length_replicate takeWhile_dropWhile_id add.assoc)
  have st: "strip_blanks n (pre @ s @ 0 # tail) (length pre) = Some (buf, length pre1)"
    unfolding l[symmetric] using strip_blanks_ok[of pre s tail] by (simp add: pre1_def s1_def buf_def)
  have lt: "length pre < n" using assms by (simp flip: l)
  show ?thesis
  proof (cases s1)
    case Nil
    have "n \<le> length pre1" using Nil by (simp add: n_def)
    then show ?thesis
      by (subst split_loop.simps)
        (simp add: l lt st Nil pre1_def[symmetric] s1_def[symmetric] buf_def[symmetric] buf_def[unfolded Nil append_Nil, symmetric])
  next
    case (Cons c cs)
    have q: "skip_string n buf (length pre1 + 1) = Some (length pre1 + 1 + length (fst (quoted cs)))"
      using skip_string_ok[of "pre1 @ [c]" cs tail] Cons by (simp add: n_def buf_def)
    have w: "skip_word n buf (length pre1) = Some (length pre1 + length (takeWhile (\<lambda>c. \<not> blank c) s1))"
      unfolding n_def buf_def by (rule skip_word_ok)
    have r: "rd buf (length pre1) = Some c" using Cons by (simp add: buf_def)
    have "\<not> n \<le> length pre1" "hd s1 = c" "tl s1 = cs" "s1 \<noteq> []" using Cons by (simp_all add: n_def)
    then show ?thesis
      by (subst split_loop.simps)
        (simp only: l lt if_True st bind.bind_lunit prod.case Let_def pre1_def[symmetric] s1_def[symmetric] n_def[symmetric]
          buf_def[symmetric] r q w if_False simp_thms)
  qed
qed


definition args_of :: "(nat list \<times> u8 list) option \<Rightarrow> u8 list list \<Rightarrow> bool" where
  "args_of r ts \<longleftrightarrow> (\<exists>argv buf. r = Some (argv, buf) \<and> list_all2 (\<lambda>p t. cstr (drop p buf) t) argv ts)"

lemma args_ofI: "list_all2 (\<lambda>p t. cstr (drop p buf) t) argv ts \<Longrightarrow> args_of (Some (argv, buf)) ts"
  by (simp add: args_of_def)

lemma take_snoc: "length ts < n \<Longrightarrow> take n (ts @ t # ws) = take n ((ts @ [t]) @ ws)"
  by simp

lemma quoted_no_zero: "0 \<notin> set s \<Longrightarrow> 0 \<notin> set (fst (quoted s)) \<and> 0 \<notin> set (snd (quoted s))"
  using quoted_cases[of s] by (metis Un_iff insert_iff list.simps(15) set_append empty_iff list.set(1))

text \<open>What is claimed of the loop for the rest \<open>s\<close> of the line.\<close>

abbreviation (input) splits :: "u8 list \<Rightarrow> u8 list \<Rightarrow> u8 list \<Rightarrow> nat list \<Rightarrow> u8 list list \<Rightarrow> bool" where
  "splits tail pre s argv ts \<equiv>
    args_of (split_loop (length pre + length s) (pre @ s @ 0 # tail) (length pre) argv) (take 10 (ts @ words s))"

lemma nonblank_rest:
  assumes "dropWhile blank s = c # cs" "0 \<notin> set s"
  shows "\<not> blank c" "0 \<notin> set (c # cs)" "length (c # cs) \<le> length s"
proof -
  show "\<not> blank c" using assms(1) by (metis hd_dropWhile list.distinct(1) list.sel(1))
  show "0 \<notin> set (c # cs)" using assms by (metis set_dropWhileD)
  show "length (c # cs) \<le> length s" using assms(1) by (metis length_dropWhile_le)
qed

lemma splits_quoted:
  assumes IH: "\<And>s' pre argv ts. \<lbrakk>length s' < length s; 0 \<notin> set s'; list_all2 (held pre s') argv ts; length argv \<le> 10\<rbrakk> \<Longrightarrow>
      splits tail pre s' argv ts"
    and s: "dropWhile blank s = QUOTE # cs" "0 \<notin> set s" and h: "list_all2 (held pre s) argv ts" "length argv < 10"
  shows "splits tail pre s argv ts"
proof -
  define pre1 where "pre1 = pre @ replicate (length (takeWhile blank s)) (0 :: u8)"
  define s1 where "s1 = QUOTE # cs"
  define t where "t = fst (quoted cs)"
  define r where "r = snd (quoted cs)"
  have ne: "s \<noteq> []" using s by auto
  have nb: "s1 \<noteq> []" "\<not> blank (hd s1)" using nonblank_rest[OF s] by (simp_all add: s1_def)
  have h1: "list_all2 (held pre1 s1) argv ts" using held_all_strip[OF h(1)] s(1) by (simp add: pre1_def s1_def)
  have step: "split_loop (length pre + length s) (pre @ s @ 0 # tail) (length pre) argv =
      (let q = length pre1 + 1 + length t; len = length pre1 + length s1; buf = pre1 @ s1 @ 0 # tail in
       if q \<ge> len then Some (argv @ [length pre1 + 1], buf) else split_loop len (buf[q := 0]) (q + 1) (argv @ [length pre1 + 1]))"
    using split_loop_strip[OF ne, of pre tail argv] h(2) by (simp add: Let_def s(1) pre1_def[symmetric] t_def[symmetric] s1_def)
  have tz: "0 \<notin> set t" "0 \<notin> set r" using nonblank_rest(2)[OF s] quoted_no_zero[of cs] by (simp_all add: t_def r_def)
  have ws: "words s = t # words r" using s(1) by (simp add: words.simps[of s] t_def r_def)
  have lt: "length ts < 10" using h by (simp add: list_all2_lengthD)
  consider (stops) "cs = t" "r = []" | (closed) "cs = t @ QUOTE # r" using quoted_cases[of cs] unfolding t_def r_def by blast
  then show ?thesis
  proof cases
    case stops
    have "cstr (drop (length pre1 + 1) (pre1 @ s1 @ 0 # tail)) t" using stops(1) tz by (simp add: cstr_def s1_def)
    then have "args_of (Some (argv @ [length pre1 + 1], pre1 @ s1 @ 0 # tail)) (ts @ [t])"
      by (intro args_ofI[OF list_all2_appendI[OF held_all_cstr[OF h1]]]) (simp_all add: nb)
    then show ?thesis using step ws stops lt by (simp add: words.simps[of "[]"] s1_def)
  next
    case closed
    define pre2 where "pre2 = pre1 @ QUOTE # t @ [0]"
    have new: "held pre2 r (length pre1 + 1) t"
      unfolding held_def pre2_def using tz by (intro conjI exI[of _ "pre1 @ [QUOTE]"] exI[of _ "[0]"]) simp_all
    have "split_loop (length pre + length s) (pre @ s @ 0 # tail) (length pre) argv =
        split_loop (length pre2 + length r) (pre2 @ r @ 0 # tail) (length pre2) (argv @ [length pre1 + 1])"
      using step closed by (simp add: pre2_def s1_def list_update_append add.assoc)
    moreover have "splits tail pre2 r (argv @ [length pre1 + 1]) (ts @ [t])"
      using closed nonblank_rest(3)[OF s] tz h(2) held_all_snoc[OF h1 nb new[unfolded pre2_def]]
      by (intro IH) (simp_all add: pre2_def)
    ultimately show ?thesis using ws take_snoc[OF lt] by simp
  qed
qed

lemma splits_plain:
  assumes IH: "\<And>s' pre argv ts. \<lbrakk>length s' < length s; 0 \<notin> set s'; list_all2 (held pre s') argv ts; length argv \<le> 10\<rbrakk> \<Longrightarrow>
      splits tail pre s' argv ts"
    and s: "dropWhile blank s = c # cs" "0 \<notin> set s" "c \<noteq> QUOTE" and h: "list_all2 (held pre s) argv ts" "length argv < 10"
  shows "splits tail pre s argv ts"
proof -
  define pre1 where "pre1 = pre @ replicate (length (takeWhile blank s)) (0 :: u8)"
  define s1 where "s1 = c # cs"
  define t where "t = takeWhile (\<lambda>c. \<not> blank c) s1"
  define r where "r = dropWhile (\<lambda>c. \<not> blank c) s1"
  have ne: "s \<noteq> []" using s by auto
  have nb: "s1 \<noteq> []" "\<not> blank (hd s1)" using nonblank_rest[OF s(1,2)] by (simp_all add: s1_def)
  have h1: "list_all2 (held pre1 s1) argv ts" using held_all_strip[OF h(1)] s(1) by (simp add: pre1_def s1_def)
  have tr: "s1 = t @ r" by (simp add: t_def r_def)
  have step: "split_loop (length pre + length s) (pre @ s @ 0 # tail) (length pre) argv =
      (let q = length pre1 + length t; len = length pre1 + length s1; buf = pre1 @ s1 @ 0 # tail in
       if q \<ge> len then Some (argv @ [length pre1], buf) else split_loop len buf q (argv @ [length pre1]))"
    using split_loop_strip[OF ne, of pre tail argv] h(2) s(3)
    by (simp add: Let_def s(1) pre1_def[symmetric] t_def[symmetric] s1_def[symmetric] nb(1)) (simp add: s1_def)
  have tz: "0 \<notin> set t" "0 \<notin> set r" using nonblank_rest(2)[OF s(1,2)] tr by (auto simp: s1_def[symmetric])
  have ws: "words s = t # words r" using s(1,3) by (simp add: words.simps[of s] t_def r_def s1_def)
  have lt: "length ts < 10" using h by (simp add: list_all2_lengthD)
  have tne: "t \<noteq> []" using nb by (cases s1) (simp_all add: t_def)
  show ?thesis
  proof (cases "r = []")
    case True
    have "cstr (drop (length pre1) (pre1 @ s1 @ 0 # tail)) t" using True tr tz by (simp add: cstr_def)
    then have "args_of (Some (argv @ [length pre1], pre1 @ s1 @ 0 # tail)) (ts @ [t])"
      by (intro args_ofI[OF list_all2_appendI[OF held_all_cstr[OF h1]]]) (simp_all add: nb)
    then show ?thesis using step ws True tr lt by (simp add: words.simps[of "[]"])
  next
    case False
    have "blank (hd r)" using False unfolding r_def by (metis hd_dropWhile)
    then have new: "held (pre1 @ t) r (length pre1) t"
      unfolding held_def using tz by (intro conjI exI[of _ pre1] exI[of _ "[]"]) simp_all
    have "split_loop (length pre + length s) (pre @ s @ 0 # tail) (length pre) argv =
        split_loop (length (pre1 @ t) + length r) ((pre1 @ t) @ r @ 0 # tail) (length (pre1 @ t)) (argv @ [length pre1])"
      using step False tr by (simp add: add.assoc)
    moreover have "splits tail (pre1 @ t) r (argv @ [length pre1]) (ts @ [t])"
    proof (rule IH)
      have "length s1 \<le> length s" using nonblank_rest(3)[OF s(1,2)] by (simp add: s1_def)
      then show "length r < length s" using tr tne by (cases t) simp_all
    qed (use tz h(2) held_all_snoc[OF h1 nb new] in simp_all)
    ultimately show ?thesis using ws take_snoc[OF lt] by simp
  qed
qed

lemma split_loop_words:
  "\<lbrakk>0 \<notin> set s; list_all2 (held pre s) argv ts; length argv \<le> 10\<rbrakk> \<Longrightarrow> splits tail pre s argv ts"
proof (induction "length s" arbitrary: s pre argv ts rule: less_induct)
  case less
  have len: "length ts = length argv" using less.prems(2) by (simp add: list_all2_lengthD)
  note held = held_all_cstr[OF held_all_strip[OF less.prems(2)]]
  consider (nil) "s = []" | (stop) "s \<noteq> []" "10 \<le> length argv \<or> dropWhile blank s = []"
    | (go) c cs where "length argv < 10" "dropWhile blank s = c # cs"
    by (metis linorder_not_le neq_Nil_conv)
  then show ?case
  proof cases
    case nil
    then have "args_of (Some (argv, pre @ s @ 0 # tail)) ts" using held[of tail] by (intro args_ofI) simp
    then show ?thesis using nil len less.prems(3) by (subst split_loop.simps) (simp add: words.simps)
  next
    case stop
    have "words s = []" if "dropWhile blank s = []" using that by (subst words.simps) (simp only: list.case)
    then have "take 10 (ts @ words s) = ts" using stop(2) len less.prems(3) by auto
    moreover have "dropWhile blank s = [] \<or> \<not> blank (hd (dropWhile blank s))" using hd_dropWhile by blast
    from args_ofI[OF held[OF this]]
    have "args_of (Some (argv, (pre @ replicate (length (takeWhile blank s)) 0) @ dropWhile blank s @ 0 # tail)) ts" .
    ultimately show ?thesis using stop by (simp add: split_loop_strip Let_def)
  next
    case go
    show ?thesis
    proof (cases "c = QUOTE")
      case True
      show ?thesis by (rule splits_quoted[where cs = cs]) (rule less.hyps; assumption | use less.prems go True in simp)+
    next
      case False
      show ?thesis
        by (rule splits_plain[where c = c and cs = cs]) (rule less.hyps; assumption | use less.prems go False in simp)+
    qed
  qed
qed

text \<open>Splitting a command line in place gives pointers to the words of the line, at most ten of them, each of them
  terminated by a zero: blanks and tabulators separate words, and what is between quotation marks is one word, in which a
  quotation mark behind a backslash does not end it. This holds for every line that has no zero before its end.\<close>

theorem msh_split_words:
  assumes "len < length cmd" "cmd ! len = 0" "0 \<notin> set (take len cmd)"
  shows "\<exists>argv cmd'. msh_split cmd len = Some (argv, cmd') \<and>
    list_all2 (\<lambda>p t. cstr (drop p cmd') t) argv (take 10 (words (take len cmd)))"
proof -
  have cmd: "[] @ take len cmd @ 0 # drop (Suc len) cmd = cmd" using id_take_nth_drop[OF assms(1)] assms(2) by simp
  have "splits (drop (Suc len) cmd) [] (take len cmd) [] []" by (rule split_loop_words[OF assms(3)]) simp_all
  then show ?thesis unfolding cmd args_of_def msh_split_def using assms(1) by simp
qed

text \<open>\<open>echo "a\"b" c\<close>.\<close>

theorem msh_split_words_witness:
  "\<exists>argv cmd'. msh_split [101, 99, 104, 111, 32, 34, 97, 92, 34, 98, 34, 32, 99, 0, 0] 13 = Some (argv, cmd') \<and>
    list_all2 (\<lambda>p t. cstr (drop p cmd') t) argv [[101, 99, 104, 111], [97, 92, 34, 98], [99]]"
proof -
  have "words [101, 99, 104, 111, 32, 34, 97, 92, 34, 98, 34, 32, 99] = [[101, 99, 104, 111], [97, 92, 34, 98], [99]]"
    by (simp add: words.simps blank_def)
  then show ?thesis using msh_split_words[of 13 "[101, 99, 104, 111, 32, 34, 97, 92, 34, 98, 34, 32, 99, 0, 0]"] by simp
qed

end
