(* ===== verification/Msh_Exec.thy ===== *)
theory Msh_Exec
  imports Msh_Split
begin

text \<open>
  Running a line: which command it is, with which arguments, or which script.
\<close>

subsection \<open>The table of commands\<close>

definition command_names :: "finsh_syscall list \<Rightarrow> (u8 list \<times> nat) list" where
  "command_names table =
     map (\<lambda>(name, func). (drop 6 (takeWhile (\<lambda>c. c \<noteq> 0) name), func))
       (filter (\<lambda>(name, func). take 6 (takeWhile (\<lambda>c. c \<noteq> 0) name) = [95, 95, 99, 109, 100, 95]) table)"

definition commands_ok :: "finsh_syscall list \<Rightarrow> bool" where
  "commands_ok table \<longleftrightarrow> list_all (\<lambda>(name, func). 0 \<in> set name) table"

lemma cstr_name: "0 \<in> set name \<Longrightarrow> cstr name (takeWhile (\<lambda>c. c \<noteq> 0) name)"
  by (induction name) (auto simp: cstr_def)

lemma cstr_drop: "cstr s a \<Longrightarrow> n \<le> length a \<Longrightarrow> cstr (drop n s) (drop n a)"
  by (auto simp: cstr_def dest: in_set_dropD)

lemma cstr_end: "cstr s a \<Longrightarrow> n \<le> length a \<Longrightarrow> rd s n = Some 0 \<longleftrightarrow> n = length a"
  by (cases "n = length a") (auto simp: cstr_def rd_def nth_append in_set_conv_nth)

lemma cstr_rd: "cstr s a \<Longrightarrow> n \<le> length a \<Longrightarrow> \<exists>c. rd s n = Some c"
  by (auto simp: cstr_def rd_def)

lemma prefix_cstr: "cstr cmd_prefix [95, 95, 99, 109, 100, 95]"
  by (simp add: cstr_def)

text \<open>The command of a line that begins with the word \<open>take sz u\<close>.\<close>

lemma msh_get_cmd_ok:
  assumes "commands_ok table" "cstr cmd u" "sz \<le> length u"
  shows "msh_get_cmd table cmd sz = Some (map_of (command_names table) (take sz u))"
  using assms(1)
proof (induction table)
  case Nil
  then show ?case by (simp add: command_names_def)
next
  case (Cons x table)
  obtain name func where x: "x = (name, func)" by (cases x)
  define n where "n = takeWhile (\<lambda>c. c \<noteq> 0) name"
  have n: "cstr name n" using Cons.prems by (simp add: commands_ok_def x n_def cstr_name)
  have IH: "msh_get_cmd table cmd sz = Some (map_of (command_names table) (take sz u))" using Cons by (simp add: commands_ok_def)
  have pre: "take 6 [95, 95, 99, 109, 100, 95 :: u8] = [95, 95, 99, 109, 100, 95]" by simp
  obtain r where r: "rt_strncmp name cmd_prefix 6 = Some r" "r = 0 \<longleftrightarrow> take 6 n = [95, 95, 99, 109, 100, 95]"
    using rt_strncmp_eq_0[OF n prefix_cstr, of 6] by (auto simp only: pre)
  show ?case
  proof (cases "r = 0")
    case False
    then show ?thesis using r IH by (simp add: x command_names_def n_def[symmetric])
  next
    case True
    have "length (take 6 n) = 6" using True r(2) by simp
    then have l: "6 \<le> length n" by simp
    obtain r2 where r2: "rt_strncmp (drop 6 name) cmd sz = Some r2" "r2 = 0 \<longleftrightarrow> take sz (drop 6 n) = take sz u"
      using rt_strncmp_eq_0[OF cstr_drop[OF n l] assms(2), of sz] by auto
    have names: "command_names ((name, func) # table) = (drop 6 n, func) # command_names table"
      using True r(2) by (simp add: command_names_def n_def[symmetric])
    show ?thesis
    proof (cases "r2 = 0")
      case False
      then have "drop 6 n \<noteq> take sz u" using r2(2) by auto
      then show ?thesis using False True r(1) r2(1) IH by (simp add: x names)
    next
      case t: True
      then have e: "take sz (drop 6 n) = take sz u" using r2(2) by simp
      then have "sz \<le> length (drop 6 n)" using assms(3) by (metis length_take min.absorb2 min.cobounded1)
      then have s: "6 + sz \<le> length n" using l by simp
      obtain c where c: "rd name (6 + sz) = Some c" using cstr_rd[OF n s] by blast
      have "c = 0 \<longleftrightarrow> 6 + sz = length n" using cstr_end[OF n s] c by simp
      also have "\<dots> \<longleftrightarrow> length (drop 6 n) = sz" using l by auto
      also have "\<dots> \<longleftrightarrow> drop 6 n = take sz u" using e assms(3) by (metis length_take min.absorb2 take_all order_refl)
      finally have "c = 0 \<longleftrightarrow> drop 6 n = take sz u" .
      then show ?thesis using t True r(1) r2(1) c IH by (simp add: x names)
    qed
  qed
qed


subsection \<open>The line\<close>

lemma strip_front_ok:
  assumes "0 \<notin> set t"
  shows "strip_front (t @ 0 # tail) len =
    Some (dropWhile blank t @ 0 # tail, len - of_nat (length (takeWhile blank t)))"
  using assms
proof (induction t arbitrary: len)
  case Nil
  then show ?case by (simp add: blank_def)
qed (simp_all add: algebra_simps)

lemma cut_word_ok: "0 \<notin> set t \<Longrightarrow> \<exists>cmd. cut_word (t @ 0 # tail) = Some cmd"
  by (induction t) auto

lemma words_front: "words (dropWhile blank t) = words t"
  by (simp add: words.simps[of "dropWhile blank t"] words.simps[of t])

lemma words_nonempty: "t \<noteq> [] \<Longrightarrow> \<not> blank (hd t) \<Longrightarrow> words t \<noteq> []"
  by (cases t) (simp, subst words.simps, simp)

text \<open>What the interpreter does with the text \<open>t\<close> of a line, when it is not blank: the position where it begins, and its first
  word.\<close>

abbreviation (input) begins :: "u8 list \<Rightarrow> nat" where "begins t \<equiv> length (takeWhile blank t)"

abbreviation (input) command_of :: "u8 list \<Rightarrow> u8 list" where "command_of t \<equiv> takeWhile (\<lambda>c. \<not> blank c) (dropWhile blank t)"

lemma exec_cmd_ok:
  assumes "u \<noteq> []" "\<not> blank (hd u)" "0 \<notin> set u" "commands_ok (msh_table env)"
  shows "case map_of (command_names (msh_table env)) (takeWhile (\<lambda>c. \<not> blank c) u) of
      None \<Rightarrow> msh_exec_cmd env (u @ 0 # tail) (length u) w = Some (None, u @ 0 # tail, w)
    | Some f \<Rightarrow> \<exists>argv buf. list_all2 (\<lambda>p t. cstr (drop p buf) t) argv (take 10 (words u)) \<and>
        msh_exec_cmd env (u @ 0 # tail) (length u) w =
          map_option (\<lambda>(r, buf, w). (Some r, buf, w)) (msh_run env f argv buf w)"
proof -
  let ?c = "takeWhile (\<lambda>c. \<not> blank c) u"
  have c: "cstr (u @ 0 # tail) u" using assms(3) by (simp add: cstr_def)
  have n: "skip_word (length u) (u @ 0 # tail) 0 = Some (length ?c)" using skip_word_ok[of "[]" u tail] by simp
  have n0: "length ?c \<noteq> 0" using assms(1,2) by (cases u) simp_all
  have tk: "take (length ?c) u = ?c" by (metis append_eq_conv_conj takeWhile_dropWhile_id)
  have g: "msh_get_cmd (msh_table env) (u @ 0 # tail) (length ?c) = Some (map_of (command_names (msh_table env)) ?c)"
    using msh_get_cmd_ok[OF assms(4) c length_takeWhile_le] by (simp only: tk)
  have "splits tail [] u [] []" by (rule split_loop_words[OF assms(3)]) simp_all
  then obtain argv buf where s: "msh_split (u @ 0 # tail) (length u) = Some (argv, buf)"
      "list_all2 (\<lambda>p t. cstr (drop p buf) t) argv (take 10 (words u))"
    by (auto simp: args_of_def msh_split_def)
  have ne: "argv \<noteq> []" using s(2) words_nonempty[OF assms(1,2)] by (cases "words u") auto
  show ?thesis
  proof (cases "map_of (command_names (msh_table env)) ?c")
    case None
    then show ?thesis using n n0 g by (simp add: msh_exec_cmd_def)
  next
    case (Some f)
    have "msh_exec_cmd env (u @ 0 # tail) (length u) w =
        map_option (\<lambda>(r, buf, w). (Some r, buf, w)) (msh_run env f argv buf w)"
      using n n0 g s(1) ne Some by (cases "msh_run env f argv buf w") (auto simp: msh_exec_cmd_def)
    then show ?thesis using Some s(2) by auto
  qed
qed

lemma msh_exec_line:
  assumes "cstr line t" "length t < 2 ^ 32" "dropWhile blank t = u"
  shows "\<exists>tail. drop (begins t) line = u @ 0 # tail \<and> 0 \<notin> set u \<and> length t = begins t + length u \<and>
    msh_exec env line (of_nat (length t)) w =
      (if u = [] then Some (0, line, w)
       else do { (r, cmd, w) \<leftarrow> msh_exec_cmd env (u @ 0 # tail) (length u) w;
                 case r of
                   Some ret \<Rightarrow> Some (ret, take (begins t) line @ cmd, w)
                 | None \<Rightarrow>
                     do { (s, w) \<leftarrow> msh_script env cmd (length u) w;
                          if s = 0 then Some (0, take (begins t) line @ cmd, w)
                          else do { cmd \<leftarrow> cut_word cmd; Some (- 1, take (begins t) line @ cmd, w) } } })"
proof -
  obtain tail where line: "line = t @ 0 # tail" and z: "0 \<notin> set t" using assms(1) by (auto simp: cstr_def)
  have tu: "t = takeWhile blank t @ u" by (simp add: assms(3)[symmetric])
  have len: "length t = begins t + length u" by (subst tu) simp
  have dr: "drop (begins t) line = u @ 0 # tail" unfolding line by (subst tu) (simp del: takeWhile_dropWhile_id)
  have fr: "take (length line - length (u @ 0 # tail)) line = take (begins t) line" using len by (simp add: line)
  have "(of_nat (length t) :: u32) - of_nat (begins t) = of_nat (length u)" by (simp add: len)
  then have st: "strip_front line (of_nat (length t)) = Some (u @ 0 # tail, of_nat (length u))"
    using strip_front_ok[OF z, of tail "of_nat (length t)"] by (simp add: line assms(3))
  have n: "unat (of_nat (length u) :: u32) = length u" by (rule of_nat_inverse[OF refl]) (use assms(2) len in simp)
  have n0: "(of_nat (length u) :: u32) = 0 \<longleftrightarrow> u = []" using n by (metis length_0_conv of_nat_0 unat_eq_zero)
  have zu: "0 \<notin> set u" using z unfolding assms(3)[symmetric] by (meson set_dropWhileD)
  show ?thesis
    by (rule exI[of _ tail], intro conjI dr zu len)
      (unfold msh_exec_def st, simp only: bind.bind_lunit prod.case Let_def n n0 fr)
qed

text \<open>C29. What a line runs. Blanks in front are skipped, and an empty line does nothing. If the first word is the name of a
  command, the first such command in the table runs, with pointers to the words of the line, at most ten of them, and its
  result is the result. Otherwise the line is given to the scripts, and the result is 0 when there was one and \<open>- 1\<close> when
  there was none. Nothing is read behind the end of the line.\<close>

theorem msh_exec_runs:
  assumes "cstr line t" "length t < 2 ^ 32" "commands_ok (msh_table env)"
  shows "if dropWhile blank t = [] then msh_exec env line (of_nat (length t)) w = Some (0, line, w)
    else case map_of (command_names (msh_table env)) (command_of t) of
        Some f \<Rightarrow> \<exists>argv buf. list_all2 (\<lambda>p t. cstr (drop p buf) t) argv (take 10 (words t)) \<and>
          msh_exec env line (of_nat (length t)) w =
            map_option (\<lambda>(r, buf, w). (r, take (begins t) line @ buf, w)) (msh_run env f argv buf w)
      | None \<Rightarrow>
          (case msh_script env (drop (begins t) line) (length t - begins t) w of
             None \<Rightarrow> msh_exec env line (of_nat (length t)) w = None
           | Some (s, w') \<Rightarrow> \<exists>buf. msh_exec env line (of_nat (length t)) w = Some (if s = 0 then 0 else - 1, buf, w'))"
proof -
  define u where "u = dropWhile blank t"
  obtain tail where dr: "drop (begins t) line = u @ 0 # tail" and z: "0 \<notin> set u" and len: "length t = begins t + length u"
    and ex: "msh_exec env line (of_nat (length t)) w =
      (if u = [] then Some (0, line, w)
       else do { (r, cmd, w) \<leftarrow> msh_exec_cmd env (u @ 0 # tail) (length u) w;
                 case r of
                   Some ret \<Rightarrow> Some (ret, take (begins t) line @ cmd, w)
                 | None \<Rightarrow>
                     do { (s, w) \<leftarrow> msh_script env cmd (length u) w;
                          if s = 0 then Some (0, take (begins t) line @ cmd, w)
                          else do { cmd \<leftarrow> cut_word cmd; Some (- 1, take (begins t) line @ cmd, w) } } })"
    using msh_exec_line[OF assms(1,2) u_def[symmetric], of env w] by blast
  show ?thesis
  proof (cases "u = []")
    case True
    then show ?thesis by (simp only: u_def[symmetric] ex if_True simp_thms)
  next
    case False
    then have "\<not> blank (hd u)" unfolding u_def by (rule hd_dropWhile)
    note cmd = exec_cmd_ok[OF False this z assms(3), of tail w]
    show ?thesis
    proof (cases "map_of (command_names (msh_table env)) (command_of t)")
      case None
      then have c: "msh_exec_cmd env (u @ 0 # tail) (length u) w = Some (None, u @ 0 # tail, w)"
        using cmd by (simp add: u_def[symmetric])
      obtain cut where "cut_word (u @ 0 # tail) = Some cut" using cut_word_ok[OF z] by blast
      then show ?thesis
        using None False len unfolding ex c u_def[symmetric] dr
        by (cases "msh_script env (u @ 0 # tail) (length u) w") (auto simp: u_def[symmetric])
    next
      case (Some f)
      then obtain argv buf where a: "list_all2 (\<lambda>p t. cstr (drop p buf) t) argv (take 10 (words t))"
          "msh_exec_cmd env (u @ 0 # tail) (length u) w = map_option (\<lambda>(r, buf, w). (Some r, buf, w)) (msh_run env f argv buf w)"
        using cmd words_front[of t] by (auto simp: u_def[symmetric])
      have "msh_exec env line (of_nat (length t)) w =
          map_option (\<lambda>(r, buf, w). (r, take (begins t) line @ buf, w)) (msh_run env f argv buf w)"
        unfolding ex a(2) using False by (cases "msh_run env f argv buf w") auto
      then show ?thesis using Some False a(1) by (auto simp: u_def[symmetric])
    qed
  qed
qed

text \<open>\<open> ab x\<close>, where \<open>ab\<close> is the command 7, which answers 5.\<close>

theorem msh_exec_runs_witness:
  "\<exists>(env :: nat msh_env) buf. msh_exec env [32, 97, 98, 32, 120, 0] 5 0 = Some (5, buf, 7)"
proof -
  define env :: "nat msh_env" where
    "env = \<lparr>msh_table = [([95, 95, 99, 109, 100, 95, 97, 98, 0], 7)], msh_run = (\<lambda>f argv buf w. Some (5, buf, f)),
            msh_script = (\<lambda>_ _ w. Some (- 1, w)), msh_getcwd = (\<lambda>_. [47, 0]), msh_names = (\<lambda>_ _. None), msh_memory = True\<rparr>"
  have "cstr [32, 97, 98, 32, 120, 0] [32, 97, 98, 32, 120]" by (simp add: cstr_def)
  moreover have "commands_ok (msh_table env)" by (simp add: commands_ok_def env_def)
  moreover have "map_of (command_names (msh_table env)) [97, 98] = Some 7" by (simp add: command_names_def env_def)
  moreover have "msh_run env f argv buf w = Some (5, buf, f)" for f argv buf w by (simp add: env_def)
  ultimately have "\<exists>buf. msh_exec env [32, 97, 98, 32, 120, 0] 5 0 = Some (5, buf, 7)"
    using msh_exec_runs[of "[32, 97, 98, 32, 120, 0]" "[32, 97, 98, 32, 120]" env 0] by (auto simp: blank_def)
  then show ?thesis by blast
qed

end
