(* ===== verification/Shell.thy ===== *)
theory Shell
  imports Msh_Split
begin

text \<open>
  The shell (\<open>components/finsh/shell.c\<close>): the line editor with its history, as the interpreter \<open>msh\<close> uses it. One step takes
  one character that was read. What is printed is not modelled, but that printing a string reads it up to its end is:
  \<open>None\<close> is a step that reads or writes behind the line.
\<close>

subsection \<open>The state\<close>

abbreviation (input) FINSH_CMD_SIZE :: nat where "FINSH_CMD_SIZE \<equiv> 80"
abbreviation (input) FINSH_HISTORY_LINES :: nat where "FINSH_HISTORY_LINES \<equiv> 10"

datatype input_stat = WAIT_NORMAL | WAIT_SPEC_KEY | WAIT_FUNC_KEY

record finsh_shell =
  stat :: input_stat
  echo_mode :: bool
  current_history :: u16
  history_count :: u16
  cmd_history :: "u8 list list"
  line :: "u8 list"
  line_position :: u8
  line_curpos :: u8

subsection \<open>The operations\<close>

text \<open>\<open>rt_kprintf\<close> of a string reads it to its end.\<close>

definition prints :: "u8 list \<Rightarrow> nat \<Rightarrow> unit option" where
  "prints buf p = map_option (\<lambda>n. ()) (rt_strlen (drop p buf))"

definition move_up :: "u8 list \<Rightarrow> nat \<Rightarrow> nat \<Rightarrow> u8 list option" where
  "move_up buf p n =
     (if p + n < length buf then Some (take (p + 1) buf @ take n (drop p buf) @ drop (p + 1 + n) buf) else None)"

definition move_down :: "u8 list \<Rightarrow> nat \<Rightarrow> nat \<Rightarrow> u8 list option" where
  "move_down buf p n =
     (if p + n < length buf then Some (take p buf @ take n (drop (p + 1) buf) @ drop (p + n) buf) else None)"

definition store :: "u8 list \<Rightarrow> nat \<Rightarrow> u8 \<Rightarrow> u8 list option" where
  "store buf p c = (if p < length buf then Some (buf[p := c]) else None)"

definition finsh_set_echo :: "u32 \<Rightarrow> finsh_shell \<Rightarrow> finsh_shell" where
  "finsh_set_echo echo sh = sh\<lparr>echo_mode := odd (unat echo)\<rparr>" \<comment> \<open>a field of one bit\<close>

definition finsh_get_echo :: "finsh_shell \<Rightarrow> u32" where
  "finsh_get_echo sh = (if echo_mode sh then 1 else 0)"

text \<open>An entry of the history: the characters of the line, and zeros behind them.\<close>

definition history_entry :: "finsh_shell \<Rightarrow> u8 list" where
  "history_entry sh = (let n = unat (line_position sh) in take n (line sh) @ replicate (FINSH_CMD_SIZE - n) 0)"

definition shell_push_history :: "finsh_shell \<Rightarrow> finsh_shell" where
  "shell_push_history sh =
     (let sh = (if line_position sh \<noteq> 0
        then if unat (history_count sh) \<ge> FINSH_HISTORY_LINES
             then if cmd_history sh ! (FINSH_HISTORY_LINES - 1) \<noteq> line sh
                  then sh\<lparr>cmd_history := tl (cmd_history sh) @ [history_entry sh], history_count := of_nat FINSH_HISTORY_LINES\<rparr>
                  else sh
             else if history_count sh = 0 \<or> cmd_history sh ! (unat (history_count sh) - 1) \<noteq> line sh
                  then sh\<lparr>current_history := history_count sh,
                          cmd_history := (cmd_history sh)[unat (history_count sh) := history_entry sh],
                          history_count := history_count sh + 1\<rparr>
                  else sh
        else sh)
      in sh\<lparr>current_history := history_count sh\<rparr>)"

text \<open>An entry of the history becomes the line.\<close>

definition recall :: "finsh_shell \<Rightarrow> finsh_shell option" where
  "recall sh =
     do { let text = cmd_history sh ! unat (current_history sh);
          n \<leftarrow> rt_strlen text;
          Some (sh\<lparr>line := text, line_curpos := of_nat n, line_position := of_nat n\<rparr>) }"

definition up_key :: "finsh_shell \<Rightarrow> finsh_shell option" where
  "up_key sh = (if current_history sh > 0 then recall (sh\<lparr>current_history := current_history sh - 1\<rparr>) else Some sh)"

definition down_key :: "finsh_shell \<Rightarrow> finsh_shell option" where
  "down_key sh =
     (if int (unat (current_history sh)) < int (unat (history_count sh)) - 1
      then recall (sh\<lparr>current_history := current_history sh + 1\<rparr>)
      else if history_count sh \<noteq> 0 then recall (sh\<lparr>current_history := history_count sh - 1\<rparr>) else Some sh)"

definition left_key :: "finsh_shell \<Rightarrow> finsh_shell" where
  "left_key sh = (if line_curpos sh \<noteq> 0 then sh\<lparr>line_curpos := line_curpos sh - 1\<rparr> else sh)"

definition right_key :: "finsh_shell \<Rightarrow> finsh_shell" where
  "right_key sh = (if line_curpos sh < line_position sh then sh\<lparr>line_curpos := line_curpos sh + 1\<rparr> else sh)"

definition tab_key :: "'w msh_env \<Rightarrow> 'w \<Rightarrow> finsh_shell \<Rightarrow> finsh_shell option" where
  "tab_key env w sh =
     do { text \<leftarrow> msh_auto_complete env (line sh) w;
          prints text 0;
          n \<leftarrow> rt_strlen text;
          Some (sh\<lparr>line := text, line_curpos := of_nat n, line_position := of_nat n\<rparr>) }"

definition backspace_key :: "finsh_shell \<Rightarrow> finsh_shell option" where
  "backspace_key sh =
     (if line_curpos sh = 0 then Some sh
      else let pos = line_position sh - 1; cur = line_curpos sh - 1 in
        do { text \<leftarrow> (if pos > cur
               then do { text \<leftarrow> move_down (line sh) (unat cur) (unat pos - unat cur);
                         text \<leftarrow> store text (unat pos) 0;
                         prints text (unat cur);
                         Some text }
               else store (line sh) (unat pos) 0);
             Some (sh\<lparr>line := text, line_position := pos, line_curpos := cur\<rparr>) })"

definition enter_key :: "'w msh_env \<Rightarrow> finsh_shell \<Rightarrow> 'w \<Rightarrow> (finsh_shell \<times> 'w) option" where
  "enter_key env sh w =
     (let sh = shell_push_history sh in
      do { (r, text, w) \<leftarrow> msh_exec env (line sh) (ucast (line_position sh)) w;
           Some (sh\<lparr>line := replicate FINSH_CMD_SIZE 0, line_curpos := 0, line_position := 0\<rparr>, w) })"

definition insert_key :: "u8 \<Rightarrow> finsh_shell \<Rightarrow> finsh_shell option" where
  "insert_key ch sh =
     (let sh = (if unat (line_position sh) \<ge> FINSH_CMD_SIZE then sh\<lparr>line_position := 0\<rparr> else sh);
          pos = line_position sh; cur = line_curpos sh in
      do { text \<leftarrow> (if cur < pos
             then do { text \<leftarrow> move_up (line sh) (unat cur) (unat pos - unat cur);
                       text \<leftarrow> store text (unat cur) ch;
                       (if echo_mode sh then prints text (unat cur) else Some ());
                       Some text }
             else store (line sh) (unat pos) ch);
           let sh = sh\<lparr>line := text, line_position := pos + 1, line_curpos := cur + 1\<rparr>;
           Some (if unat (line_position sh) \<ge> FINSH_CMD_SIZE then sh\<lparr>line_position := 0, line_curpos := 0\<rparr> else sh) })"

text \<open>One turn of the loop of the thread.\<close>

definition plain_key :: "'w msh_env \<Rightarrow> u8 \<Rightarrow> finsh_shell \<Rightarrow> 'w \<Rightarrow> (finsh_shell \<times> 'w) option" where
  "plain_key env ch sh w =
     (if ch = 0 \<or> ch = 0xFF then Some (sh, w)
      else if ch = 9 then map_option (\<lambda>sh. (sh, w)) (tab_key env w sh)
      else if ch = 0x7f \<or> ch = 8 then map_option (\<lambda>sh. (sh, w)) (backspace_key sh)
      else if ch = 13 \<or> ch = 10 then enter_key env sh w
      else map_option (\<lambda>sh. (sh, w)) (insert_key ch sh))"

definition finsh_key :: "'w msh_env \<Rightarrow> u8 \<Rightarrow> finsh_shell \<Rightarrow> 'w \<Rightarrow> (finsh_shell \<times> 'w) option" where
  "finsh_key env ch sh w =
     (if ch = 0x1b then Some (sh\<lparr>stat := WAIT_SPEC_KEY\<rparr>, w)
      else case stat sh of
        WAIT_SPEC_KEY \<Rightarrow>
          if ch = 0x5b then Some (sh\<lparr>stat := WAIT_FUNC_KEY\<rparr>, w) else plain_key env ch (sh\<lparr>stat := WAIT_NORMAL\<rparr>) w
      | WAIT_FUNC_KEY \<Rightarrow>
          let sh = sh\<lparr>stat := WAIT_NORMAL\<rparr> in
          if ch = 0x41 then map_option (\<lambda>sh. (sh, w)) (up_key sh)
          else if ch = 0x42 then map_option (\<lambda>sh. (sh, w)) (down_key sh)
          else if ch = 0x44 then Some (left_key sh, w)
          else if ch = 0x43 then Some (right_key sh, w)
          else plain_key env ch sh w
      | WAIT_NORMAL \<Rightarrow> plain_key env ch sh w)"

fun finsh_keys :: "'w msh_env \<Rightarrow> u8 list \<Rightarrow> finsh_shell \<Rightarrow> 'w \<Rightarrow> (finsh_shell \<times> 'w) option" where
  "finsh_keys env [] sh w = Some (sh, w)"
| "finsh_keys env (ch # chs) sh w = do { (sh, w) \<leftarrow> finsh_key env ch sh w; finsh_keys env chs sh w }"

end
