(* ===== verification/Shell_Edit.thy ===== *)
theory Shell_Edit
  imports Shell
begin

text \<open>
  What the shell is for who types: a text left and right of the cursor, and the texts of before. The shell implements it for
  every sequence of keys, as long as no line gets longer than 79 characters and nothing is completed.
\<close>

subsection \<open>The editor\<close>

record editor =
  ed_left :: "u8 list"
  ed_right :: "u8 list"
  ed_hist :: "u8 list list"
  ed_cur :: nat
  ed_stat :: input_stat
  ed_echo :: bool

definition ed_text :: "editor \<Rightarrow> u8 list" where
  "ed_text e = ed_left e @ ed_right e"

definition ed_recall :: "nat \<Rightarrow> editor \<Rightarrow> editor" where
  "ed_recall i e = e\<lparr>ed_cur := i, ed_left := ed_hist e ! i, ed_right := []\<rparr>"

definition ed_up :: "editor \<Rightarrow> editor" where
  "ed_up e = (if ed_cur e > 0 then ed_recall (ed_cur e - 1) e else e)"

definition ed_down :: "editor \<Rightarrow> editor" where
  "ed_down e =
     (if ed_cur e + 1 < length (ed_hist e) then ed_recall (ed_cur e + 1) e
      else if ed_hist e \<noteq> [] then ed_recall (length (ed_hist e) - 1) e else e)"

definition ed_back :: "editor \<Rightarrow> editor" where
  "ed_back e = (if ed_left e = [] then e else e\<lparr>ed_left := butlast (ed_left e), ed_right := last (ed_left e) # ed_right e\<rparr>)"

definition ed_forth :: "editor \<Rightarrow> editor" where
  "ed_forth e = (case ed_right e of [] \<Rightarrow> e | c # cs \<Rightarrow> e\<lparr>ed_left := ed_left e @ [c], ed_right := cs\<rparr>)"

definition ed_delete :: "editor \<Rightarrow> editor" where
  "ed_delete e = e\<lparr>ed_left := butlast (ed_left e)\<rparr>"

definition ed_insert :: "u8 \<Rightarrow> editor \<Rightarrow> editor" where
  "ed_insert c e = e\<lparr>ed_left := ed_left e @ [c]\<rparr>"

definition ed_push :: "editor \<Rightarrow> editor" where
  "ed_push e =
     (let t = ed_text e; h = ed_hist e;
          h = (if t = [] \<or> h \<noteq> [] \<and> last h = t then h else (if length h \<ge> 10 then tl h else h) @ [t])
      in e\<lparr>ed_hist := h, ed_cur := length h\<rparr>)"

definition line_bytes :: "u8 list \<Rightarrow> u8 list" where
  "line_bytes t = t @ replicate (80 - length t) 0"

definition ed_enter :: "'w msh_env \<Rightarrow> editor \<Rightarrow> 'w \<Rightarrow> (editor \<times> 'w) option" where
  "ed_enter env e w =
     do { (r, text, w) \<leftarrow> msh_exec env (line_bytes (ed_text e)) (of_nat (length (ed_text e))) w;
          Some ((ed_push e)\<lparr>ed_left := [], ed_right := []\<rparr>, w) }"

text \<open>\<open>None\<close> where the editor says nothing: a completion, and the character that makes a line too long.\<close>

definition ed_plain :: "'w msh_env \<Rightarrow> u8 \<Rightarrow> editor \<Rightarrow> 'w \<Rightarrow> (editor \<times> 'w) option" where
  "ed_plain env ch e w =
     (if ch = 0 \<or> ch = 0xFF then Some (e, w)
      else if ch = 9 then None
      else if ch = 0x7f \<or> ch = 8 then Some (ed_delete e, w)
      else if ch = 13 \<or> ch = 10 then ed_enter env e w
      else if length (ed_text e) < 79 then Some (ed_insert ch e, w) else None)"

definition ed_key :: "'w msh_env \<Rightarrow> u8 \<Rightarrow> editor \<Rightarrow> 'w \<Rightarrow> (editor \<times> 'w) option" where
  "ed_key env ch e w =
     (if ch = 0x1b then Some (e\<lparr>ed_stat := WAIT_SPEC_KEY\<rparr>, w)
      else let s = ed_stat e; n = e\<lparr>ed_stat := WAIT_NORMAL\<rparr> in
        if s = WAIT_SPEC_KEY \<and> ch = 0x5b then Some (e\<lparr>ed_stat := WAIT_FUNC_KEY\<rparr>, w)
        else if s = WAIT_FUNC_KEY \<and> ch = 0x41 then Some (ed_up n, w)
        else if s = WAIT_FUNC_KEY \<and> ch = 0x42 then Some (ed_down n, w)
        else if s = WAIT_FUNC_KEY \<and> ch = 0x44 then Some (ed_back n, w)
        else if s = WAIT_FUNC_KEY \<and> ch = 0x43 then Some (ed_forth n, w)
        else ed_plain env ch n w)"

fun ed_keys :: "'w msh_env \<Rightarrow> u8 list \<Rightarrow> editor \<Rightarrow> 'w \<Rightarrow> (editor \<times> 'w) option" where
  "ed_keys env [] e w = Some (e, w)"
| "ed_keys env (ch # chs) e w = do { (e, w) \<leftarrow> ed_key env ch e w; ed_keys env chs e w }"

subsection \<open>The shell that holds an editor\<close>

definition shell_of :: "editor \<Rightarrow> finsh_shell" where
  "shell_of e =
     \<lparr>stat = ed_stat e, echo_mode = ed_echo e, current_history = of_nat (ed_cur e), history_count = of_nat (length (ed_hist e)),
      cmd_history = map line_bytes (ed_hist e) @ replicate (10 - length (ed_hist e)) (line_bytes []),
      line = line_bytes (ed_text e), line_position = of_nat (length (ed_text e)), line_curpos = of_nat (length (ed_left e))\<rparr>"

definition text_ok :: "u8 list \<Rightarrow> bool" where
  "text_ok t \<longleftrightarrow> 0 \<notin> set t \<and> length t \<le> 79"

definition editor_ok :: "editor \<Rightarrow> bool" where
  "editor_ok e \<longleftrightarrow> text_ok (ed_text e) \<and> list_all text_ok (ed_hist e) \<and> length (ed_hist e) \<le> 10 \<and> ed_cur e \<le> length (ed_hist e)"

lemma line_bytes_cstr:
  assumes "text_ok t"
  shows "cstr (line_bytes t) t"
proof -
  have "80 - length t = Suc (79 - length t)" using assms unfolding text_ok_def by arith
  then show ?thesis using assms by (simp add: line_bytes_def cstr_def text_ok_def)
qed

lemma line_bytes_inject: "\<lbrakk>text_ok s; text_ok t\<rbrakk> \<Longrightarrow> line_bytes s = line_bytes t \<longleftrightarrow> s = t"
  by (metis line_bytes_cstr rt_strlen_cstr append_eq_conv_conj option.inject line_bytes_def)

lemma line_bytes_length: "text_ok t \<Longrightarrow> length (line_bytes t) = 80"
  by (simp add: line_bytes_def text_ok_def)

lemma line_bytes_strlen: "text_ok t \<Longrightarrow> rt_strlen (line_bytes t) = Some (length t)"
  by (rule rt_strlen_cstr[OF line_bytes_cstr])

lemma line_bytes_prints:
  assumes "text_ok t" "p \<le> length t"
  shows "prints (line_bytes t) p = Some ()"
proof -
  obtain r where "line_bytes t = t @ 0 # r" "0 \<notin> set t" using line_bytes_cstr[OF assms(1)] by (auto simp: cstr_def)
  then have "cstr (drop p (line_bytes t)) (drop p t)" using assms(2) by (auto simp: cstr_def dest: in_set_dropD)
  then show ?thesis by (simp add: prints_def rt_strlen_cstr)
qed

lemma small_u8: "n \<le> 80 \<Longrightarrow> unat (of_nat n :: u8) = n"
  by (rule of_nat_inverse[OF refl]) simp

lemma small_u16: "n \<le> 10 \<Longrightarrow> unat (of_nat n :: u16) = n"
  by (rule of_nat_inverse[OF refl]) simp

lemma u8_pred: "n \<noteq> 0 \<Longrightarrow> (of_nat n :: u8) - 1 = of_nat (n - 1)"
  by (cases n) simp_all

lemma u16_pred: "n \<noteq> 0 \<Longrightarrow> (of_nat n :: u16) - 1 = of_nat (n - 1)"
  by (cases n) simp_all

lemma u8_zero: "n \<le> 80 \<Longrightarrow> (of_nat n :: u8) = 0 \<longleftrightarrow> n = 0"
  using small_u8[of n] by (metis of_nat_0 unat_eq_zero)

lemma u16_zero: "n \<le> 10 \<Longrightarrow> (of_nat n :: u16) = 0 \<longleftrightarrow> n = 0"
  using small_u16[of n] by (metis of_nat_0 unat_eq_zero)

lemma u8_less: "\<lbrakk>m \<le> 80; n \<le> 80\<rbrakk> \<Longrightarrow> (of_nat m :: u8) < of_nat n \<longleftrightarrow> m < n"
  by (simp only: word_less_nat_alt small_u8)

lemma editor_ok_simps:
  "editor_ok e \<Longrightarrow> length (ed_hist e) \<le> 10"
  "editor_ok e \<Longrightarrow> text_ok (ed_text e)"
  "editor_ok e \<Longrightarrow> ed_cur e \<le> length (ed_hist e)"
  "editor_ok e \<Longrightarrow> i < length (ed_hist e) \<Longrightarrow> text_ok (ed_hist e ! i)"
  by (auto simp: editor_ok_def list_all_length)

lemma ed_sizes:
  assumes "editor_ok e"
  shows "length (ed_left e) \<le> length (ed_text e)" "length (ed_text e) \<le> 79"
  using assms by (auto simp: editor_ok_def ed_text_def text_ok_def)

lemma shell_of_simps [simp]:
  "stat (shell_of e) = ed_stat e" "echo_mode (shell_of e) = ed_echo e" "current_history (shell_of e) = of_nat (ed_cur e)"
  "history_count (shell_of e) = of_nat (length (ed_hist e))" "line (shell_of e) = line_bytes (ed_text e)"
  "line_position (shell_of e) = of_nat (length (ed_text e))" "line_curpos (shell_of e) = of_nat (length (ed_left e))"
  "cmd_history (shell_of e) = map line_bytes (ed_hist e) @ replicate (10 - length (ed_hist e)) (line_bytes [])"
  by (simp_all add: shell_of_def)

subsection \<open>Each operation\<close>

lemma recall_ok:
  assumes "editor_ok e" "i < length (ed_hist e)"
  shows "recall (shell_of e\<lparr>current_history := of_nat i\<rparr>) = Some (shell_of (ed_recall i e))" "editor_ok (ed_recall i e)"
proof -
  have i: "unat (of_nat i :: u16) = i" by (rule small_u16) (use assms(2) editor_ok_simps(1)[OF assms(1)] in simp)
  show "recall (shell_of e\<lparr>current_history := of_nat i\<rparr>) = Some (shell_of (ed_recall i e))"
    using assms i line_bytes_strlen[OF editor_ok_simps(4)[OF assms]]
    by (simp add: recall_def shell_of_def ed_recall_def ed_text_def nth_append)
  show "editor_ok (ed_recall i e)" using assms by (simp add: editor_ok_def ed_recall_def ed_text_def list_all_length)
qed

lemma up_ok:
  assumes "editor_ok e"
  shows "up_key (shell_of e) = Some (shell_of (ed_up e)) \<and> editor_ok (ed_up e)"
proof -
  note s = editor_ok_simps(1,3)[OF assms]
  have c: "0 < current_history (shell_of e) \<longleftrightarrow> 0 < ed_cur e"
    using u16_zero[OF le_trans[OF s(2,1)]] by (simp add: word_gt_0)
  show ?thesis
  proof (cases "0 < ed_cur e")
    case True
    then have "ed_cur e - 1 < length (ed_hist e)" using s(2) by simp
    moreover have "current_history (shell_of e) - 1 = of_nat (ed_cur e - 1)" using True u16_pred[of "ed_cur e"] by simp
    ultimately show ?thesis using True recall_ok[OF assms] by (simp only: up_key_def ed_up_def c if_True)
  next
    case False
    then show ?thesis using assms by (simp only: up_key_def ed_up_def c if_False)
  qed
qed

lemma down_ok:
  assumes "editor_ok e"
  shows "down_key (shell_of e) = Some (shell_of (ed_down e)) \<and> editor_ok (ed_down e)"
proof -
  note s = editor_ok_simps(1,3)[OF assms]
  have c: "int (unat (current_history (shell_of e))) < int (unat (history_count (shell_of e))) - 1 \<longleftrightarrow>
      ed_cur e + 1 < length (ed_hist e)"
    using s by (simp only: shell_of_simps small_u16 le_trans[OF s(2,1)]) arith
  have z: "history_count (shell_of e) = 0 \<longleftrightarrow> ed_hist e = []" using u16_zero[OF s(1)] by simp
  consider (more) "ed_cur e + 1 < length (ed_hist e)" | (end_of) "\<not> ed_cur e + 1 < length (ed_hist e)" "ed_hist e \<noteq> []"
    | (empty_hist) "ed_hist e = []" by auto
  then show ?thesis
  proof cases
    case more
    then show ?thesis
      using recall_ok[OF assms more] by (simp only: down_key_def ed_down_def c if_True) (simp add: add.commute)
  next
    case end_of
    then have "history_count (shell_of e) - 1 = of_nat (length (ed_hist e) - 1)" using u16_pred[of "length (ed_hist e)"] by simp
    then show ?thesis
      using end_of recall_ok[OF assms, of "length (ed_hist e) - 1"]
      by (simp only: down_key_def ed_down_def c z if_False if_True simp_thms) simp
  next
    case empty_hist
    then show ?thesis using assms by (simp only: down_key_def ed_down_def c z) simp
  qed
qed

lemma left_ok:
  assumes "editor_ok e"
  shows "left_key (shell_of e) = shell_of (ed_back e) \<and> editor_ok (ed_back e)"
proof (cases "ed_left e" rule: rev_cases)
  case Nil
  then show ?thesis using assms by (simp add: left_key_def ed_back_def)
next
  case (snoc l c)
  then have t: "ed_text (ed_back e) = ed_text e" by (simp add: ed_back_def ed_text_def)
  have "(of_nat (length (ed_left e)) :: u8) \<noteq> 0" using snoc ed_sizes[OF assms] by (subst u8_zero) simp_all
  then show ?thesis using assms t snoc by (simp add: left_key_def shell_of_def editor_ok_def) (simp add: ed_back_def)
qed

lemma right_ok:
  assumes "editor_ok e"
  shows "right_key (shell_of e) = shell_of (ed_forth e) \<and> editor_ok (ed_forth e)"
proof -
  have lt: "line_curpos (shell_of e) < line_position (shell_of e) \<longleftrightarrow> ed_right e \<noteq> []"
    using ed_sizes[OF assms] by (simp add: u8_less) (simp add: ed_text_def)
  have t: "ed_text (ed_forth e) = ed_text e" by (simp add: ed_forth_def ed_text_def split: list.split)
  show ?thesis
    using assms t lt unfolding right_key_def
    by (cases "ed_right e") (simp_all add: shell_of_def editor_ok_def, simp_all add: ed_forth_def)
qed

lemma move_down_at:
  assumes "buf = a @ x # b @ rest" "p = length a" "n = length b"
  shows "move_down buf p n = Some (a @ b @ drop (length b) (x # b) @ rest)"
proof -
  have "drop (length b) (x # b @ rest) = drop (length b) (x # b) @ rest" by (simp only: append_Cons[symmetric] drop_append) simp
  then show ?thesis using assms by (simp add: move_down_def)
qed

lemma move_up_at:
  assumes "buf = a @ b @ x # rest" "p = length a" "n = length b"
  shows "move_up buf p n = Some (a @ take 1 (b @ [x]) @ b @ rest)"
  using assms by (cases b) (simp_all add: move_up_def)

lemma line_bytes_Suc:
  assumes "length t + k = 79"
  shows "line_bytes t = t @ 0 # replicate k 0"
proof -
  have "80 - length t = Suc k" using assms by arith
  then show ?thesis by (simp add: line_bytes_def)
qed

lemma backspace_ok:
  assumes "editor_ok e"
  shows "backspace_key (shell_of e) = Some (shell_of (ed_delete e)) \<and> editor_ok (ed_delete e)"
proof (cases "ed_left e" rule: rev_cases)
  case Nil
  then have "ed_delete e = e" by (simp add: ed_delete_def)
  then show ?thesis using assms Nil by (simp add: backspace_key_def)
next
  case (snoc l c)
  define r where "r = ed_right e"
  have e: "ed_left e = l @ [c]" "ed_text e = l @ c # r" "ed_text (ed_delete e) = l @ r"
    using snoc by (simp_all add: ed_text_def ed_delete_def r_def)
  have n: "length (l @ c # r) \<le> 79" using ed_sizes(2)[OF assms] by (simp add: e)
  have ok: "editor_ok (ed_delete e)" "text_ok (l @ r)"
    using assms e by (simp_all add: editor_ok_def text_ok_def, simp_all add: ed_delete_def)
  define P C where "P = line_position (shell_of e) - 1" and "C = line_curpos (shell_of e) - 1"
  have pos: "P = of_nat (length (l @ r))" "C = of_nat (length l)" using e by (simp_all add: P_def C_def)
  have u: "unat P = length (l @ r)" "unat C = length l" unfolding pos by (rule small_u8, use n in simp)+
  have z: "line_curpos (shell_of e) \<noteq> 0" using n e by (simp add: u8_zero del: of_nat_Suc)
  have lt: "C < P \<longleftrightarrow> r \<noteq> []" using u by (simp add: word_less_nat_alt)
  obtain k where k: "length l + length r + k = 78" using n by (auto simp: le_iff_add)
  have old: "line_bytes (l @ c # r) = l @ c # r @ 0 # replicate k 0" using k by (subst line_bytes_Suc[of _ k]) simp_all
  have new: "line_bytes (l @ r) = l @ r @ 0 # 0 # replicate k 0" using k by (subst line_bytes_Suc[of _ "Suc k"]) simp_all
  have mv: "move_down (line_bytes (l @ c # r)) (length l) (length (l @ r) - length l) =
      Some (l @ r @ drop (length r) (c # r) @ 0 # replicate k 0)"
    unfolding old by (rule move_down_at[where x = c]) simp_all
  have pr: "prints (line_bytes (l @ r)) (length l) = Some ()" by (rule line_bytes_prints[OF ok(2)]) simp
  have st: "store (l @ r @ drop (length r) (c # r) @ 0 # replicate k 0) (length (l @ r)) 0 = Some (line_bytes (l @ r))"
    unfolding new by (cases r rule: rev_cases) (simp_all add: store_def list_update_append)
  have st1: "store (line_bytes (l @ c # r)) (length (l @ r)) 0 = Some (line_bytes (l @ r))" if "r = []"
    using that unfolding old new by (simp add: store_def list_update_append)
  have "backspace_key (shell_of e) =
      Some (shell_of e\<lparr>line := line_bytes (l @ r), line_position := P, line_curpos := C\<rparr>)"
  proof (cases "r = []")
    case True
    then show ?thesis
      using st1 by (simp only: backspace_key_def Let_def P_def[symmetric] C_def[symmetric] z lt) (simp add: u e(2))
  next
    case False
    then show ?thesis
      using mv st pr by (simp only: backspace_key_def Let_def P_def[symmetric] C_def[symmetric] z lt) (simp add: u e(2))
  qed
  moreover have "shell_of e\<lparr>line := line_bytes (l @ r), line_position := P, line_curpos := C\<rparr> = shell_of (ed_delete e)"
    unfolding shell_of_def e(3) pos by (simp add: ed_delete_def e(1))
  ultimately show ?thesis using ok(1) by simp
qed

lemma insert_ok:
  assumes "editor_ok e" "c \<noteq> 0" "length (ed_text e) < 79"
  shows "insert_key c (shell_of e) = Some (shell_of (ed_insert c e)) \<and> editor_ok (ed_insert c e)"
proof -
  define l r P C where "l = ed_left e" and "r = ed_right e" and "P = line_position (shell_of e)" and "C = line_curpos (shell_of e)"
  have e: "ed_text e = l @ r" "ed_text (ed_insert c e) = l @ c # r" by (simp_all add: ed_text_def ed_insert_def l_def r_def)
  have n: "length (l @ r) < 79" using assms(3) e by simp
  have ok: "editor_ok (ed_insert c e)" "text_ok (l @ c # r)"
    using assms e n by (simp_all add: editor_ok_def text_ok_def, simp_all add: ed_insert_def)
  have pos: "P = of_nat (length (l @ r))" "C = of_nat (length l)" "P + 1 = of_nat (length (l @ c # r))"
    using e(1) by (simp_all add: P_def C_def l_def)
  have u: "unat P = length (l @ r)" "unat C = length l" "unat (P + 1) = length (l @ c # r)"
    unfolding pos(3) unfolding pos(1,2) by (rule small_u8, use n in simp)+
  have lt: "C < P \<longleftrightarrow> r \<noteq> []" "\<not> 80 \<le> unat P" "\<not> 80 \<le> unat (P + 1)" using u n by (simp_all add: word_less_nat_alt)
  obtain k where k: "length l + length r + k = 78" using n by (auto simp: less_iff_Suc_add)
  have old: "line_bytes (l @ r) = l @ r @ 0 # 0 # replicate k 0" using k by (subst line_bytes_Suc[of _ "Suc k"]) simp_all
  have new: "line_bytes (l @ c # r) = l @ c # r @ 0 # replicate k 0" using k by (subst line_bytes_Suc[of _ k]) simp_all
  have mv: "move_up (line_bytes (l @ r)) (length l) (length (l @ r) - length l) = Some (l @ take 1 (r @ [0]) @ r @ 0 # replicate k 0)"
    unfolding old by (rule move_up_at) simp_all
  have st: "store (l @ take 1 (r @ [0]) @ r @ 0 # replicate k 0) (length l) c = Some (line_bytes (l @ c # r))"
    unfolding new by (cases r) (simp_all add: store_def list_update_append)
  have st1: "store (line_bytes (l @ r)) (length (l @ r)) c = Some (line_bytes (l @ c # r))" if "r = []"
    using that unfolding old new by (simp add: store_def list_update_append)
  have pr: "prints (line_bytes (l @ c # r)) (length l) = Some ()" by (rule line_bytes_prints[OF ok(2)]) simp
  have "insert_key c (shell_of e) =
      Some (shell_of e\<lparr>line := line_bytes (l @ c # r), line_position := P + 1, line_curpos := C + 1\<rparr>)"
  proof (cases "r = []")
    case True
    then show ?thesis
      using st1 n by (simp only: insert_key_def Let_def P_def[symmetric] C_def[symmetric] lt if_False) (simp add: u e(1) lt)
  next
    case False
    then show ?thesis
      using mv st pr n by (simp only: insert_key_def Let_def P_def[symmetric] C_def[symmetric] lt if_False) (simp add: u e(1) lt)
  qed
  moreover have "shell_of e\<lparr>line := line_bytes (l @ c # r), line_position := P + 1, line_curpos := C + 1\<rparr> = shell_of (ed_insert c e)"
    unfolding shell_of_def e(2) pos(3) pos(2) by (simp add: ed_insert_def l_def)
  ultimately show ?thesis using ok(1) by simp
qed

lemma history_entry_of: "editor_ok e \<Longrightarrow> history_entry (shell_of e) = line_bytes (ed_text e)"
  using small_u8[of "length (ed_text e)"] ed_sizes(2)[of e] by (simp add: history_entry_def line_bytes_def Let_def)

lemma in_set_tlD: "x \<in> set (tl xs) \<Longrightarrow> x \<in> set xs"
  by (cases xs) simp_all

lemma push_full:
  assumes "length h = 10" "list_all text_ok h" "text_ok t"
  shows "(map line_bytes h @ replicate (10 - length h) (line_bytes [])) ! 9 = line_bytes t \<longleftrightarrow> last h = t"
    "tl (map line_bytes h @ replicate (10 - length h) (line_bytes [])) @ [line_bytes t] =
      map line_bytes (tl h @ [t]) @ replicate (10 - length (tl h @ [t])) (line_bytes [])"
proof -
  have h: "h \<noteq> []" "last h = h ! 9" using assms(1) last_conv_nth[of h] by (cases "h = []"; simp)+
  then have "text_ok (last h)" using assms(2) by (metis last_in_set list_all_iff)
  then show "(map line_bytes h @ replicate (10 - length h) (line_bytes [])) ! 9 = line_bytes t \<longleftrightarrow> last h = t"
    using assms h line_bytes_inject[of "last h" t] by simp
  show "tl (map line_bytes h @ replicate (10 - length h) (line_bytes [])) @ [line_bytes t] =
      map line_bytes (tl h @ [t]) @ replicate (10 - length (tl h @ [t])) (line_bytes [])"
    using assms(1) by (simp add: map_tl)
qed

lemma push_room:
  assumes "length h < 10" "list_all text_ok h" "text_ok t"
  shows "h \<noteq> [] \<Longrightarrow> (map line_bytes h @ replicate (10 - length h) (line_bytes [])) ! (length h - 1) = line_bytes t \<longleftrightarrow> last h = t"
    "(map line_bytes h @ replicate (10 - length h) (line_bytes []))[length h := line_bytes t] =
      map line_bytes (h @ [t]) @ replicate (10 - length (h @ [t])) (line_bytes [])"
proof -
  assume h: "h \<noteq> []"
  then have "text_ok (last h)" using assms(2) by (simp add: list_all_iff)
  then show "(map line_bytes h @ replicate (10 - length h) (line_bytes [])) ! (length h - 1) = line_bytes t \<longleftrightarrow> last h = t"
    using h assms(3) line_bytes_inject[of "last h" t] by (simp add: nth_append last_conv_nth)
next
  have "10 - length h = Suc (10 - Suc (length h))" using assms(1) by arith
  then show "(map line_bytes h @ replicate (10 - length h) (line_bytes []))[length h := line_bytes t] =
      map line_bytes (h @ [t]) @ replicate (10 - length (h @ [t])) (line_bytes [])"
    by (simp add: list_update_append)
qed

lemma push_ok:
  assumes "editor_ok e"
  shows "shell_push_history (shell_of e) = shell_of (ed_push e) \<and> editor_ok (ed_push e)"
proof -
  define t h where "t = ed_text e" and "h = ed_hist e"
  have h: "length h \<le> 10" "list_all text_ok h" and t: "text_ok t" using assms by (simp_all add: editor_ok_def t_def h_def)
  have c: "line_position (shell_of e) \<noteq> 0 \<longleftrightarrow> t \<noteq> []" "unat (history_count (shell_of e)) = length h"
      "history_count (shell_of e) = 0 \<longleftrightarrow> h = []"
    using ed_sizes[OF assms] h(1) by (simp_all add: u8_zero u16_zero small_u16 t_def h_def)
  have en: "history_entry (shell_of e) = line_bytes t" using history_entry_of[OF assms] by (simp add: t_def)
  have ok: "editor_ok (ed_push e)"
    using h t assms by (auto simp: editor_ok_def ed_push_def Let_def ed_text_def t_def h_def list_all_iff dest: in_set_tlD)
  have same: "shell_of e\<lparr>current_history := history_count (shell_of e)\<rparr> = shell_of (ed_push e)" if "t = [] \<or> h \<noteq> [] \<and> last h = t"
    using that by (simp add: ed_push_def Let_def shell_of_def ed_text_def t_def h_def)
  consider (none) "t = []" | (full) "t \<noteq> []" "length h = 10" | (room) "t \<noteq> []" "length h < 10" using h(1) by linarith
  then have "shell_push_history (shell_of e) = shell_of (ed_push e)"
  proof cases
    case none
    then show ?thesis using same c(1) by (simp only: shell_push_history_def Let_def) simp
  next
    case full
    note p = push_full[OF full(2) h(2) t]
    show ?thesis
    proof (cases "last h = t")
      case True
      then show ?thesis using same p(1) full c by (simp only: shell_push_history_def Let_def) (auto simp: t_def h_def)
    next
      case False
      then show ?thesis
        using p full c en by (simp only: shell_push_history_def Let_def) (simp add: t_def[symmetric] h_def[symmetric], auto simp: ed_push_def shell_of_def Let_def ed_text_def t_def h_def)
    qed
  next
    case room
    note p = push_room[OF room(2) h(2) t]
    show ?thesis
    proof (cases "h \<noteq> [] \<and> last h = t")
      case True
      then show ?thesis using same p(1) room c by (simp only: shell_push_history_def Let_def) (auto simp: t_def h_def)
    next
      case False
      then show ?thesis
        using p room c en by (simp only: shell_push_history_def Let_def) (simp add: t_def[symmetric] h_def[symmetric], auto simp: ed_push_def shell_of_def Let_def ed_text_def t_def h_def)
    qed
  qed
  then show ?thesis using ok by simp
qed

lemma enter_ok:
  assumes "editor_ok e" "ed_enter env e w = Some (e', w')"
  shows "enter_key env (shell_of e) w = Some (shell_of e', w') \<and> editor_ok e'"
proof -
  obtain r s where m: "msh_exec env (line_bytes (ed_text e)) (of_nat (length (ed_text e))) w = Some (r, s, w')"
    and e': "e' = (ed_push e)\<lparr>ed_left := [], ed_right := []\<rparr>"
    using assms(2) by (auto simp: ed_enter_def bind_eq_Some_conv)
  have p: "shell_push_history (shell_of e) = shell_of (ed_push e)" "editor_ok (ed_push e)" using push_ok[OF assms(1)] by simp_all
  have t: "ed_text (ed_push e) = ed_text e" by (simp add: ed_push_def ed_text_def Let_def)
  have "(ucast (of_nat (length (ed_text e)) :: u8) :: u32) = of_nat (length (ed_text e))"
    by (subst of_nat_unat[symmetric], subst small_u8) (use ed_sizes(2)[OF assms(1)] in simp_all)
  then have "enter_key env (shell_of e) w =
      Some ((shell_of (ed_push e))\<lparr>line := replicate 80 0, line_curpos := 0, line_position := 0\<rparr>, w')"
    using m by (simp add: enter_key_def Let_def p(1) t)
  moreover have "(shell_of (ed_push e))\<lparr>line := replicate 80 0, line_curpos := 0, line_position := 0\<rparr> = shell_of e'"
    by (simp add: e' shell_of_def ed_text_def line_bytes_def)
  moreover have "editor_ok e'" using p(2) by (simp add: e' editor_ok_def ed_text_def text_ok_def)
  ultimately show ?thesis by simp
qed

lemma stat_ok:
  "shell_of e\<lparr>stat := s\<rparr> = shell_of (e\<lparr>ed_stat := s\<rparr>)" "editor_ok (e\<lparr>ed_stat := s\<rparr>) = editor_ok e"
  by (simp_all add: shell_of_def editor_ok_def ed_text_def)

lemma plain_ok:
  assumes "editor_ok e" "ed_plain env ch e w = Some (e', w')"
  shows "plain_key env ch (shell_of e) w = Some (shell_of e', w') \<and> editor_ok e'"
proof -
  consider (none) "ch = 0 \<or> ch = 0xFF" | (del) "ch = 0x7f \<or> ch = 8" | (enter) "ch = 13 \<or> ch = 10"
    | (ins) "\<not> (ch = 0 \<or> ch = 0xFF)" "ch \<noteq> 9" "\<not> (ch = 0x7f \<or> ch = 8)" "\<not> (ch = 13 \<or> ch = 10)"
    using assms(2) by (auto simp: ed_plain_def split: if_splits)
  then show ?thesis
  proof cases
    case none
    then show ?thesis using assms by (auto simp: ed_plain_def plain_key_def)
  next
    case del
    then show ?thesis using assms backspace_ok[OF assms(1)] by (auto simp: ed_plain_def plain_key_def)
  next
    case enter
    then have "ed_enter env e w = Some (e', w')" "plain_key env ch (shell_of e) w = enter_key env (shell_of e) w"
      using assms(2) by (auto simp: ed_plain_def plain_key_def)
    then show ?thesis using enter_ok[OF assms(1)] by simp
  next
    case ins
    then show ?thesis using assms(2) insert_ok[OF assms(1), of ch] by (auto simp: ed_plain_def plain_key_def split: if_splits)
  qed
qed

lemma key_ok:
  assumes "editor_ok e" "ed_key env ch e w = Some (e', w')"
  shows "finsh_key env ch (shell_of e) w = Some (shell_of e', w') \<and> editor_ok e'"
proof -
  define n where "n = e\<lparr>ed_stat := WAIT_NORMAL\<rparr>"
  have n: "editor_ok n" "shell_of e\<lparr>stat := WAIT_NORMAL\<rparr> = shell_of n" using assms(1) by (simp_all add: n_def stat_ok)
  have m: "shell_of e = shell_of n" if "ed_stat e = WAIT_NORMAL" using that by (cases e) (simp add: n_def)
  note ops = up_ok[OF n(1)] down_ok[OF n(1)] left_ok[OF n(1)] right_ok[OF n(1)] plain_ok[OF n(1)]
  note b = assms(2)[unfolded ed_key_def Let_def, folded n_def]
  show ?thesis
  proof (cases "ch = 0x1b")
    case True
    then show ?thesis using assms by (auto simp: ed_key_def finsh_key_def stat_ok)
  next
    case False
    show ?thesis
    proof (cases "ed_stat e")
      case WAIT_NORMAL
      then have "ed_plain env ch n w = Some (e', w')" using b False by simp
      then have "plain_key env ch (shell_of e) w = Some (shell_of e', w') \<and> editor_ok e'" using ops(5) m[OF WAIT_NORMAL] by simp
      then show ?thesis using WAIT_NORMAL False by (simp add: finsh_key_def)
    next
      case WAIT_SPEC_KEY
      then show ?thesis using b False n assms(1) by (auto simp: finsh_key_def stat_ok split: if_splits dest!: plain_ok[OF n(1)])
    next
      case WAIT_FUNC_KEY
      then show ?thesis
        using b ops(1-4) False n by (auto simp: finsh_key_def Let_def split: if_splits dest!: plain_ok[OF n(1)])
    qed
  qed
qed

lemma keys_ok:
  "\<lbrakk>editor_ok e; ed_keys env chs e w = Some (e', w')\<rbrakk> \<Longrightarrow>
    finsh_keys env chs (shell_of e) w = Some (shell_of e', w') \<and> editor_ok e'"
proof (induction chs arbitrary: e w)
  case (Cons ch chs)
  then obtain e1 w1 where k: "ed_key env ch e w = Some (e1, w1)" "ed_keys env chs e1 w1 = Some (e', w')"
    by (auto simp: bind_eq_Some_conv)
  then show ?case using key_ok[OF Cons.prems(1) k(1)] Cons.IH[OF _ k(2)] by simp
qed simp

text \<open>C28. The shell is an editor. Whatever is typed, the shell holds the text left and right of the cursor, the last ten
  different texts and the place in them that the keys up and down have reached: the characters of a line end with a zero in
  its 80 bytes, and every key does to the line, to the positions and to the history what it does to the texts; the end of a
  line runs the line and empties it. This holds for all sequences of keys for which the editor is defined: nothing is
  completed, no line gets 80 characters, and commands return.\<close>

theorem shell_edits:
  assumes "editor_ok e" "ed_keys env chs e w = Some (e', w')"
  shows "finsh_keys env chs (shell_of e) w = Some (shell_of e', w') \<and> editor_ok e'"
  using keys_ok[OF assms] .

text \<open>\<open>b\<close>, a step left, \<open>a\<close>, the end of the line, and the key up: the text \<open>ab\<close> is back.\<close>

theorem shell_edits_witness:
  "\<exists>env :: nat msh_env. finsh_keys env [98, 0x1b, 0x5b, 0x44, 97, 13, 0x1b, 0x5b, 0x41]
      (shell_of \<lparr>ed_left = [], ed_right = [], ed_hist = [], ed_cur = 0, ed_stat = WAIT_NORMAL, ed_echo = True\<rparr>) 0 =
    Some (shell_of \<lparr>ed_left = [97, 98], ed_right = [], ed_hist = [[97, 98]], ed_cur = 0, ed_stat = WAIT_NORMAL, ed_echo = True\<rparr>, 7)"
proof -
  define env :: "nat msh_env" where
    "env = \<lparr>msh_table = [([95, 95, 99, 109, 100, 95, 97, 98, 0], 7)], msh_run = (\<lambda>f argv buf w. Some (0, buf, f)),
            msh_script = (\<lambda>_ _ w. Some (- 1, w)), msh_getcwd = (\<lambda>_. [47, 0]), msh_names = (\<lambda>_ _. None), msh_memory = True\<rparr>"
  let ?e = "\<lparr>ed_left = [], ed_right = [], ed_hist = [], ed_cur = 0, ed_stat = WAIT_NORMAL, ed_echo = True\<rparr>"
  let ?e' = "\<lparr>ed_left = [97, 98], ed_right = [], ed_hist = [[97, 98]], ed_cur = 0, ed_stat = WAIT_NORMAL, ed_echo = True\<rparr>"
  have cmp: "rt_strncmp [95, 95, 99, 109, 100, 95, 97, 98, 0] [95, 95, 99, 109, 100, 95, 0] 6 = Some 0"
    by (simp add: eval_nat_numeral Let_def)
  have "rt_strncmp [97, 98, 0] (97 # 98 # zs) (Suc (Suc 0)) = Some 0" for zs by (simp add: Let_def)
  then have "msh_exec env (line_bytes [97, 98]) 2 0 = Some (0, line_bytes [97, 98], 7)"
    by (simp add: cmp msh_exec_def msh_exec_cmd_def env_def line_bytes_def blank_def rd_def skip_word.simps strip_blanks.simps split_loop.simps
        msh_split_def Let_def)
  then have "ed_keys env [98, 0x1b, 0x5b, 0x44, 97, 13, 0x1b, 0x5b, 0x41] ?e 0 = Some (?e', 7)"
    by (simp add: ed_key_def ed_plain_def ed_insert_def ed_back_def ed_enter_def ed_push_def ed_text_def ed_up_def ed_recall_def Let_def)
  then show ?thesis
    using shell_edits[of ?e env "[98, 0x1b, 0x5b, 0x44, 97, 13, 0x1b, 0x5b, 0x41]" 0 ?e' 7]
    by (auto simp: editor_ok_def text_ok_def ed_text_def)
qed

subsection \<open>A line that is too long\<close>

lemma no_zero_strlen: "0 \<notin> set s \<Longrightarrow> rt_strlen s = None"
  by (induction s) auto

lemma skip_word_unbounded:
  "\<lbrakk>length buf < len; \<forall>c\<in>set (drop p buf). \<not> blank c\<rbrakk> \<Longrightarrow> skip_word len buf p = None"
proof (induction "length buf - p" arbitrary: p)
  case 0
  then show ?case by (subst skip_word.simps) (simp add: rd_def)
next
  case (Suc n)
  then have p: "p < length buf" by simp
  then have "\<not> blank (buf ! p)" "\<forall>c\<in>set (drop (p + 1) buf). \<not> blank c" using Suc.prems(2) by (simp_all add: Cons_nth_drop_Suc[symmetric])
  then show ?case using Suc p by (subst skip_word.simps) (simp add: rd_def)
qed

definition normal_char :: "u8 \<Rightarrow> bool" where
  "normal_char ch \<longleftrightarrow> ch \<notin> {0, 0xFF, 9, 0x7f, 8, 13, 10, 0x1b}"

lemma overlong_insert:
  assumes "editor_ok e" "length (ed_text e) = 79" "ed_right e = []"
  shows "insert_key ch (shell_of e) = Some (shell_of e\<lparr>line := ed_text e @ [ch], line_position := 0, line_curpos := 0\<rparr>)"
proof -
  have l: "length (ed_left e) = 79" using assms by (simp add: ed_text_def)
  show ?thesis using assms(2) l by (simp add: insert_key_def Let_def store_def line_bytes_def list_update_append)
qed

lemma overlong_middle:
  assumes "editor_ok e" "length (ed_text e) = 79" "ed_right e \<noteq> []" "ed_echo e" "ch \<noteq> 0"
  shows "insert_key ch (shell_of e) = None"
proof -
  define l r where "l = ed_left e" and "r = ed_right e"
  have t: "ed_text e = l @ r" "line_bytes (ed_text e) = l @ r @ [0]"
    using assms(2) line_bytes_Suc[of "ed_text e" 0] by (simp_all add: ed_text_def l_def r_def)
  have n: "length l + length r = 79" "r \<noteq> []" using assms(2,3) t(1) by (simp_all add: r_def)
  have u: "unat (line_curpos (shell_of e)) = length l" "unat (line_position (shell_of e)) = 79"
    using n assms(2) by (simp_all add: small_u8 l_def)
  have lt: "line_curpos (shell_of e) < line_position (shell_of e)" using u n by (cases r) (simp_all add: word_less_nat_alt)
  have mv: "move_up (line_bytes (ed_text e)) (length l) (79 - length l) = Some (l @ take 1 (r @ [0]) @ r @ [])"
    unfolding t(2) by (rule move_up_at[where x = 0]) (use n in simp_all)
  have st: "store (l @ take 1 (r @ [0]) @ r @ []) (length l) ch = Some (l @ ch # r)"
    using n(2) by (cases r) (simp_all add: store_def list_update_append)
  have "0 \<notin> set (ch # r)" using assms(1,5) t by (simp add: editor_ok_def text_ok_def)
  then have "prints (l @ ch # r) (length l) = None" using no_zero_strlen[of "ch # r"] by (simp add: prints_def)
  then show ?thesis
    using mv st lt u assms(4) by (simp only: insert_key_def Let_def) (simp del: of_nat_numeral)
qed

lemma overlong_tab:
  assumes "text_ok t" "t \<noteq> []" "ch \<noteq> 0"
  shows "tab_key env w (sh\<lparr>line := t @ [ch]\<rparr>) = None"
proof -
  have "0 \<notin> set (t @ [ch])" "rd (t @ [ch]) 0 = Some (hd t)" "hd t \<noteq> 0"
    using assms by (cases t; simp add: text_ok_def rd_def)+
  then have "msh_auto_complete env (t @ [ch]) w = None" by (simp add: msh_auto_complete_def no_zero_strlen)
  then show ?thesis by (simp add: tab_key_def)
qed

lemma overlong_enter:
  assumes "text_ok (32 # c # cs)" "\<forall>c\<in>set (c # cs @ [ch]). \<not> blank c"
  shows "msh_exec env (32 # c # cs @ [ch]) 0 w = None"
proof -
  have "strip_front (32 # c # cs @ [ch]) 0 = Some (c # cs @ [ch], - 1)" using assms(2) by (simp add: blank_def)
  moreover have "skip_word (unat (- 1 :: u32)) (c # cs @ [ch]) 0 = None"
  proof (rule skip_word_unbounded)
    have "unat (- 1 :: u32) = 4294967295" by (simp add: unsigned_minus_1_eq_mask mask_eq_exp_minus_1)
    then show "length (c # cs @ [ch]) < unat (- 1 :: u32)" using assms(1) by (simp add: text_ok_def)
  qed (use assms(2) in simp)
  ultimately show ?thesis by (simp add: msh_exec_def msh_exec_cmd_def)
qed

text \<open>C30. A line of 80 characters breaks the shell. The character that is typed behind 79 others empties the line by its
  positions only: the array keeps the 80 characters and has no zero at its end. Then the key for completion reads behind the
  array, and so does the end of this empty line when what was discarded begins with a blank and has no other: its length
  becomes \<open>2 ^ 32 - 1\<close>.\<close>

theorem shell_overlong:
  assumes "editor_ok e" "length (ed_text e) = 79" "ed_right e = []" "ed_stat e = WAIT_NORMAL" "normal_char ch"
  shows "\<exists>sh. finsh_key env ch (shell_of e) w = Some (sh, w) \<and> line_position sh = 0 \<and> line_curpos sh = 0 \<and>
    line sh = ed_text e @ [ch] \<and> finsh_key env 9 sh w = None \<and>
    (hd (ed_text e) = 32 \<and> list_all (\<lambda>c. \<not> blank c) (tl (ed_text e) @ [ch]) \<longrightarrow> finsh_key env 13 sh w = None)"
proof -
  have ch: "ch \<noteq> 0" "finsh_key env ch (shell_of e) w = map_option (\<lambda>sh. (sh, w)) (insert_key ch (shell_of e))"
    using assms(4,5) by (simp_all add: normal_char_def finsh_key_def plain_key_def)
  have ok: "text_ok (ed_text e)" using assms(1) by (simp add: editor_ok_def)
  define sh where "sh = shell_of e\<lparr>line := ed_text e @ [ch], line_position := 0, line_curpos := 0\<rparr>"
  have ins: "finsh_key env ch (shell_of e) w = Some (sh, w)" using overlong_insert[OF assms(1,2,3)] by (simp add: ch sh_def)
  have sh: "stat sh = WAIT_NORMAL" "line_position sh = 0" "line_curpos sh = 0" "line sh = ed_text e @ [ch]"
    using assms(4) by (simp_all add: sh_def)
  have ne: "ed_text e \<noteq> []" "tl (ed_text e) \<noteq> []" using assms(2) by (cases "ed_text e"; auto)+
  have tab: "finsh_key env 9 sh w = None"
    using overlong_tab[OF ok ne(1) ch(1), of env w sh] sh by (cases sh) (simp add: finsh_key_def plain_key_def)
  have enter: "finsh_key env 13 sh w = None" if h: "hd (ed_text e) = 32" "list_all (\<lambda>c. \<not> blank c) (tl (ed_text e) @ [ch])"
  proof -
    obtain c cs where t: "ed_text e = 32 # c # cs" using ne h(1) by (metis list.exhaust_sel)
    then have "msh_exec env (ed_text e @ [ch]) 0 w = None" using overlong_enter[of c cs ch env w] ok h(2) by (simp add: list_all_iff)
    moreover have "line (shell_push_history sh) = line sh" "line_position (shell_push_history sh) = 0"
      using sh(2) by (simp_all add: shell_push_history_def Let_def)
    ultimately show ?thesis by (simp add: finsh_key_def plain_key_def enter_key_def Let_def sh)
  qed
  show ?thesis using ins sh tab enter by blast
qed

text \<open>A blank and 78 letters, and one more.\<close>

theorem shell_overlong_witness:
  "\<forall>env :: unit msh_env. \<exists>sh. finsh_key env 66
      (shell_of \<lparr>ed_left = 32 # replicate 78 65, ed_right = [], ed_hist = [], ed_cur = 0, ed_stat = WAIT_NORMAL, ed_echo = True\<rparr>) () =
      Some (sh, ()) \<and> finsh_key env 9 sh () = None \<and> finsh_key env 13 sh () = None"
proof
  fix env :: "unit msh_env"
  let ?e = "\<lparr>ed_left = 32 # replicate 78 65, ed_right = [], ed_hist = [], ed_cur = 0, ed_stat = WAIT_NORMAL, ed_echo = True\<rparr>"
  have "editor_ok ?e" by (simp add: editor_ok_def text_ok_def ed_text_def)
  moreover have "list_all (\<lambda>c. \<not> blank c) (tl (ed_text ?e) @ [66])" by (simp add: ed_text_def blank_def list_all_iff)
  ultimately show "\<exists>sh. finsh_key env 66 (shell_of ?e) () = Some (sh, ()) \<and> finsh_key env 9 sh () = None \<and> finsh_key env 13 sh () = None"
    using shell_overlong[of ?e 66 env "()"] by (auto simp: ed_text_def normal_char_def)
qed

text \<open>Where the character is inserted in the middle of such a line, printing the rest of the line already reads behind it.\<close>

lemma shell_overlong_middle:
  assumes "editor_ok e" "length (ed_text e) = 79" "ed_right e \<noteq> []" "ed_echo e" "ed_stat e = WAIT_NORMAL" "normal_char ch"
  shows "finsh_key env ch (shell_of e) w = None"
  using overlong_middle[OF assms(1-4)] assms(5,6) by (simp add: normal_char_def finsh_key_def plain_key_def)

subsection \<open>A completion that is too long\<close>

lemma strncmp_refl_prefix: "\<lbrakk>cstr s a; cstr t b; take n a = take n b\<rbrakk> \<Longrightarrow> rt_strncmp s t n = Some 0"
  using rt_strncmp_eq_0[of s a t b n] by auto

lemma str_common_self: "cstr s a \<Longrightarrow> str_common s s = Some (length a)"
proof (induction a arbitrary: s)
  case (Cons b a)
  from Cons.prems Cons.IH show ?case by (cases rule: cstr_cases) auto
qed (auto simp: cstr_def)

text \<open>
  \<open>ls a\<close> where the directory has one file, of a hundred letters \<open>a\<close>: the completion copies the name over the end of the line.
\<close>

lemma completion_overflow:
  assumes "msh_memory env" "msh_getcwd env w = [47, 0]" "msh_names env [47, 0] w = Some [replicate 100 97 @ [0]]"
  shows "tab_key env w (sh\<lparr>line := line_bytes [108, 115, 32, 97]\<rparr>) = None"
proof -
  let ?name = "replicate 100 (97 :: u8) @ [0]"
  have name: "cstr ?name (replicate 100 97)" by (simp add: cstr_def)
  have z: "replicate 76 (0 :: u8) = 0 # replicate 75 0" by (simp flip: replicate_Suc)
  then have rest: "cstr (97 # replicate 76 0) [97 :: u8]" by (simp add: cstr_def)
  have last: "last_part (replicate 76 0) (Suc 0) 0 = Some 0" unfolding z by simp
  have sl: "rt_strlen (replicate 76 0) = Some 0" unfolding z by simp
  have cmp: "rt_strncmp (97 # replicate 76 0) ?name (Suc 0) = Some 0" by (rule strncmp_refl_prefix[OF rest name]) simp
  have len: "rt_strlen ?name = Some 100" using rt_strlen_cstr[OF name] by simp
  have com: "str_common ?name ?name = Some 100" using str_common_self[OF name] by simp
  have "msh_auto_complete_path env (97 # replicate 76 0) w = None"
    using assms cmp len com last
    by (simp add: msh_auto_complete_path_def rd_def sl Let_def)
  moreover have "rt_strlen (108 # 115 # 32 # 97 # replicate 76 0) = Some (Suc (Suc (Suc (Suc 0))))" by (simp add: sl)
  moreover have "last_space (108 # 115 # 32 # 97 # replicate 76 0) (Suc (Suc (Suc (Suc 0)))) = Some (Suc (Suc 0))" by (simp add: z)
  ultimately show ?thesis by (simp add: tab_key_def msh_auto_complete_def line_bytes_def rd_def)
qed

end
