(* ===== verification/Pipe.thy ===== *)
theory Pipe
  imports Serial Ringbuffer Mutex
begin

text \<open>
  Pipes (\<open>components/drivers/src/pipe.c\<close>): a device with a ring buffer, for the framework of \<open>Device\<close> and for files.

  The mutex \<open>lock\<close> of a pipe makes the code between taking and releasing it one step. A read and a write of a file have
  several steps, between which other threads run: \<open>reader\<close> and \<open>writer\<close> say which step is next. The queues of readers and
  writers of the device \<open>n\<close> are beside its own. What \<open>rt_malloc\<close> gives for a ring buffer is an argument, as for
  \<open>rt_ringbuffer_create\<close>.
\<close>

subsection \<open>State\<close>

record rt_pipe =
  pp_fifo :: rb_result \<comment> \<open>\<open>RbFreed\<close> is a pointer to memory that was freed\<close>
  pp_bufsz :: u16
  pp_readers :: u8
  pp_writers :: u8
  pp_lock :: nat

type_synonym pipes = "(nat \<Rightarrow> rt_pipe) devices"

abbreviation (input) EINVAL :: int where "EINVAL \<equiv> 29"
abbreviation (input) EPIPE :: int where "EPIPE \<equiv> 39"
abbreviation (input) ENODEV :: int where "ENODEV \<equiv> 26"
abbreviation (input) POLLOUT :: u32 where "POLLOUT \<equiv> 2"
abbreviation (input) POLLERR :: u32 where "POLLERR \<equiv> 4"
abbreviation (input) POLLHUP :: u32 where "POLLHUP \<equiv> 8"
abbreviation (input) FIONWRITE :: int where "FIONWRITE \<equiv> 0x80046679 - 0x100000000"
abbreviation (input) RT_Device_Class_Pipe :: int where "RT_Device_Class_Pipe \<equiv> 15"

definition reader_queue :: "nat \<Rightarrow> nat" where "reader_queue n = 3 * n + 1"

definition writer_queue :: "nat \<Rightarrow> nat" where "writer_queue n = 3 * n + 2"

definition the_pipe :: "nat \<Rightarrow> pipes \<Rightarrow> rt_pipe" where
  "the_pipe n st = dv_user st n"

definition upd_pipe :: "nat \<Rightarrow> (rt_pipe \<Rightarrow> rt_pipe) \<Rightarrow> pipes \<Rightarrow> pipes" where
  "upd_pipe n f st = st\<lparr>dv_user := (dv_user st)(n := f (dv_user st n))\<rparr>"

text \<open>The ring buffer, where it exists; and a buffer size, which is an \<open>rt_uint16_t\<close>.\<close>

definition fifo_of :: "nat \<Rightarrow> pipes \<Rightarrow> rt_ringbuffer option" where
  "fifo_of n st = (case pp_fifo (the_pipe n st) of RbOk rb \<Rightarrow> Some rb | _ \<Rightarrow> None)"

abbreviation (input) len16 :: "nat \<Rightarrow> nat" where "len16 n \<equiv> n mod 2 ^ 16"

definition pipe_wake :: "wake_fn \<Rightarrow> nat \<Rightarrow> u32 \<Rightarrow> pipes \<Rightarrow> pipes option" where
  "pipe_wake fn q key st =
     do { (s, k) \<leftarrow> rt_wqueue_wakeup fn q key (dv_queues st) (dv_kernel st);
          Some (st\<lparr>dv_queues := s, dv_kernel := k\<rparr>) }"

subsection \<open>Opening and closing a file\<close>

definition reads :: "u32 \<Rightarrow> bool" where
  "reads flags \<longleftrightarrow> flags AND O_ACCMODE = O_RDONLY \<or> flags AND O_ACCMODE = O_RDWR"

definition writes :: "u32 \<Rightarrow> bool" where
  "writes flags \<longleftrightarrow> flags AND O_ACCMODE = O_WRONLY \<or> flags AND O_ACCMODE = O_RDWR"

definition pipe_fops_open :: "bool \<Rightarrow> u8 list option \<Rightarrow> u32 \<Rightarrow> nat \<Rightarrow> pipes \<Rightarrow> (int \<times> pipes) option" where
  "pipe_fops_open rb_ok pool flags n st =
     do { st \<leftarrow> (if dev_ref_count (dv_dev st n) = 0
            then do { r \<leftarrow> rt_ringbuffer_create rb_ok pool (pp_bufsz (the_pipe n st)); Some (upd_pipe n (\<lambda>p. p\<lparr>pp_fifo := r\<rparr>) st) }
            else Some st);
          let st = upd_pipe n (\<lambda>p. p\<lparr>pp_readers := (if reads flags then pp_readers p + 1 else pp_readers p),
                                      pp_writers := (if writes flags then pp_writers p + 1 else pp_writers p)\<rparr>) st;
          Some (0, upd_dev n (\<lambda>d. d\<lparr>dev_ref_count := dev_ref_count d + 1\<rparr>) st) }"

definition pipe_fops_close :: "wake_fn \<Rightarrow> u32 \<Rightarrow> nat \<Rightarrow> pipes \<Rightarrow> (int \<times> pipes) option" where
  "pipe_fops_close fn flags n st =
     do { let st = upd_pipe n (\<lambda>p. p\<lparr>pp_readers := (if reads flags then pp_readers p - 1 else pp_readers p),
                                      pp_writers := (if writes flags then pp_writers p - 1 else pp_writers p)\<rparr>) st;
          st \<leftarrow> (if pp_writers (the_pipe n st) = 0 then pipe_wake fn (reader_queue n) (POLLIN OR POLLERR OR POLLHUP) st else Some st);
          st \<leftarrow> (if pp_readers (the_pipe n st) = 0 then pipe_wake fn (writer_queue n) (POLLOUT OR POLLERR OR POLLHUP) st else Some st);
          let st = (if dev_ref_count (dv_dev st n) = 1 then upd_pipe n (\<lambda>p. p\<lparr>pp_fifo := RbNull\<rparr>) st else st);
          Some (0, upd_dev n (\<lambda>d. d\<lparr>dev_ref_count := dev_ref_count d - 1\<rparr>) st) }"

text \<open>The result, and what is stored at \<open>args\<close>.\<close>

definition pipe_fops_ioctl :: "int \<Rightarrow> nat \<Rightarrow> pipes \<Rightarrow> (int \<times> nat option) option" where
  "pipe_fops_ioctl cmd n st =
     (if cmd = FIONREAD then do { rb \<leftarrow> fifo_of n st; Some (0, Some (rt_ringbuffer_data_len rb)) }
      else if cmd = FIONWRITE then do { rb \<leftarrow> fifo_of n st; Some (0, Some (rt_ringbuffer_space_len rb)) }
      else Some (- EINVAL, None))"

subsection \<open>Reading and writing a file\<close>

datatype reader = ReadBegin | ReadSection | ReadWake | ReadWait | ReadBlocked | ReadDone int "u8 list"

text \<open>The section under the lock.\<close>

definition pipe_read_section :: "wake_fn \<Rightarrow> u32 \<Rightarrow> nat \<Rightarrow> nat \<Rightarrow> pipes \<Rightarrow> (reader \<times> pipes) option" where
  "pipe_read_section fn flags count n st =
     (if pp_writers (the_pipe n st) = 0 then Some (ReadDone 0 [], st)
      else do { rb \<leftarrow> fifo_of n st;
                (len, bs, rb) \<leftarrow> rt_ringbuffer_get rb (len16 count);
                let st = upd_pipe n (\<lambda>p. p\<lparr>pp_fifo := RbOk rb\<rparr>) st;
                if len > 0 then do { st \<leftarrow> pipe_wake fn (writer_queue n) POLLOUT st; Some (ReadDone (int len) bs, st) }
                else Some (if flags AND O_NONBLOCK \<noteq> 0 then ReadDone (- EAGAIN) [] else ReadWake, st) })"

fun pipe_fops_read :: "wake_fn \<Rightarrow> u32 \<Rightarrow> nat \<Rightarrow> nat \<Rightarrow> nat \<Rightarrow> reader \<Rightarrow> pipes \<Rightarrow> (reader \<times> pipes) option" where
  "pipe_fops_read fn flags w count n ReadBegin st =
     Some (if pp_writers (the_pipe n st) = 0 then ReadDone 0 [] else ReadSection, st)"
| "pipe_fops_read fn flags w count n ReadSection st = pipe_read_section fn flags count n st"
| "pipe_fops_read fn flags w count n ReadWake st = map_option (\<lambda>st. (ReadWait, st)) (pipe_wake fn (writer_queue n) POLLOUT st)"
| "pipe_fops_read fn flags w count n ReadWait st =
     do { (c, s, k) \<leftarrow> rt_wqueue_wait (reader_queue n) w False (- 1) (dv_queues st) (dv_kernel st);
          Some (case c of Return _ \<Rightarrow> ReadSection | Blocked \<Rightarrow> ReadBlocked, st\<lparr>dv_queues := s, dv_kernel := k\<rparr>) }"
| "pipe_fops_read fn flags w count n ReadBlocked st =
     Some (ReadSection, st\<lparr>dv_queues := rt_wqueue_wait_end (reader_queue n) w (dv_queues st)\<rparr>)"
| "pipe_fops_read fn flags w count n (ReadDone r bs) st = Some (ReadDone r bs, st)"

text \<open>
  What has been written so far goes along, and \<open>wakeup\<close>, which says that something was tried. The pointer \<open>pbuf\<close> is at the
  bytes that are not written yet.
\<close>

datatype writer = WriteBegin | WriteSection int bool | WriteWake int | WriteWait int | WriteBlocked int | WriteEnd int | WriteDone int

definition pipe_write_section ::
  "u32 \<Rightarrow> u8 list \<Rightarrow> nat \<Rightarrow> nat \<Rightarrow> int \<Rightarrow> bool \<Rightarrow> pipes \<Rightarrow> (writer \<times> pipes) option" where
  "pipe_write_section flags buf count n ret wakeup st =
     (if pp_readers (the_pipe n st) = 0
      then let ret = (if ret = 0 then - EPIPE else ret) in Some (if wakeup then WriteEnd ret else WriteDone ret, st)
      else do { rb \<leftarrow> fifo_of n st;
                (len, rb) \<leftarrow> rt_ringbuffer_put rb (drop (nat ret) buf) (len16 (count - nat ret));
                let st = upd_pipe n (\<lambda>p. p\<lparr>pp_fifo := RbOk rb\<rparr>) st;
                let ret = ret + int len;
                Some (if ret = int count then WriteEnd ret
                      else if flags AND O_NONBLOCK \<noteq> 0 then WriteEnd (if ret = 0 then - EAGAIN else ret)
                      else WriteWake ret, st) })"

fun pipe_fops_write ::
  "wake_fn \<Rightarrow> u32 \<Rightarrow> nat \<Rightarrow> u8 list \<Rightarrow> nat \<Rightarrow> nat \<Rightarrow> writer \<Rightarrow> pipes \<Rightarrow> (writer \<times> pipes) option" where
  "pipe_fops_write fn flags w buf count n WriteBegin st =
     Some (if pp_readers (the_pipe n st) = 0 then WriteDone (- EPIPE)
           else if count = 0 then WriteDone 0 else WriteSection 0 False, st)"
| "pipe_fops_write fn flags w buf count n (WriteSection ret wakeup) st = pipe_write_section flags buf count n ret wakeup st"
| "pipe_fops_write fn flags w buf count n (WriteWake ret) st =
     map_option (\<lambda>st. (WriteWait ret, st)) (pipe_wake fn (reader_queue n) POLLIN st)"
| "pipe_fops_write fn flags w buf count n (WriteWait ret) st =
     do { (c, s, k) \<leftarrow> rt_wqueue_wait (writer_queue n) w False (- 1) (dv_queues st) (dv_kernel st);
          Some (case c of Return _ \<Rightarrow> WriteSection ret True | Blocked \<Rightarrow> WriteBlocked ret, st\<lparr>dv_queues := s, dv_kernel := k\<rparr>) }"
| "pipe_fops_write fn flags w buf count n (WriteBlocked ret) st =
     Some (WriteSection ret True, st\<lparr>dv_queues := rt_wqueue_wait_end (writer_queue n) w (dv_queues st)\<rparr>)"
| "pipe_fops_write fn flags w buf count n (WriteEnd ret) st =
     map_option (\<lambda>st. (WriteDone ret, st)) (pipe_wake fn (reader_queue n) POLLIN st)"
| "pipe_fops_write fn flags w buf count n (WriteDone ret) st = Some (WriteDone ret, st)"

text \<open>\<open>poll_add\<close> is the function of the request.\<close>

definition pipe_fops_poll :: "(nat \<Rightarrow> pipes \<Rightarrow> pipes option) \<Rightarrow> u32 \<Rightarrow> nat \<Rightarrow> pipes \<Rightarrow> (u32 \<times> pipes) option" where
  "pipe_fops_poll poll_add flags n st =
     do { st \<leftarrow> poll_add (reader_queue n) st;
          st \<leftarrow> poll_add (writer_queue n) st;
          r \<leftarrow> (if reads flags
            then do { rb \<leftarrow> fifo_of n st;
                      Some ((if rt_ringbuffer_data_len rb \<noteq> 0 then POLLIN else 0) OR
                            (if pp_writers (the_pipe n st) = 0 then POLLHUP else 0)) }
            else Some 0);
          w \<leftarrow> (if writes flags
            then do { rb \<leftarrow> fifo_of n st;
                      Some ((if rt_ringbuffer_space_len rb \<noteq> 0 then POLLOUT else 0) OR
                            (if pp_readers (the_pipe n st) = 0 then POLLERR else 0)) }
            else Some 0);
          Some (r OR w, st) }"

subsection \<open>The device\<close>

definition rt_pipe_open :: "bool \<Rightarrow> u8 list option \<Rightarrow> nat \<Rightarrow> pipes \<Rightarrow> (rt_err_t \<times> pipes) option" where
  "rt_pipe_open rb_ok pool n st =
     (if pp_fifo (the_pipe n st) = RbNull
      then do { r \<leftarrow> rt_ringbuffer_create rb_ok pool (pp_bufsz (the_pipe n st));
                Some (RT_EOK, upd_pipe n (\<lambda>p. p\<lparr>pp_fifo := r\<rparr>) st) }
      else Some (RT_EOK, st))"

definition rt_pipe_close :: "nat \<Rightarrow> pipes \<Rightarrow> rt_err_t \<times> pipes" where
  "rt_pipe_close n st =
     (RT_EOK, if dev_ref_count (dv_dev st n) = 1 then upd_pipe n (\<lambda>p. p\<lparr>pp_fifo := RbNull\<rparr>) st else st)"

partial_function (option) pipe_get_loop :: "nat \<Rightarrow> rt_ringbuffer \<Rightarrow> u8 list \<Rightarrow> (u8 list \<times> rt_ringbuffer) option" where
  "pipe_get_loop count rb bs =
     (if length bs < count
      then do { (len, cs, rb) \<leftarrow> rt_ringbuffer_get rb (len16 (count - length bs));
                if len = 0 then Some (bs, rb) else pipe_get_loop count rb (bs @ cs) }
      else Some (bs, rb))"

partial_function (option) pipe_put_loop :: "u8 list \<Rightarrow> nat \<Rightarrow> rt_ringbuffer \<Rightarrow> nat \<Rightarrow> (nat \<times> rt_ringbuffer) option" where
  "pipe_put_loop buf count rb write_bytes =
     (if write_bytes < count
      then do { (len, rb) \<leftarrow> rt_ringbuffer_put rb (drop write_bytes buf) (len16 (count - write_bytes));
                if len = 0 then Some (write_bytes, rb) else pipe_put_loop buf count rb (write_bytes + len) }
      else Some (write_bytes, rb))"

definition rt_pipe_read :: "nat \<Rightarrow> u32 \<Rightarrow> pipes \<Rightarrow> ((u32 \<times> u8 list) \<times> pipes) option" where
  "rt_pipe_read n count st =
     (if count = 0 then Some ((0, []), st)
      else do { rb \<leftarrow> fifo_of n st;
                (bs, rb) \<leftarrow> pipe_get_loop (unat count) rb [];
                Some ((of_nat (length bs), bs), upd_pipe n (\<lambda>p. p\<lparr>pp_fifo := RbOk rb\<rparr>) st) })"

definition rt_pipe_write :: "nat \<Rightarrow> u8 list \<Rightarrow> u32 \<Rightarrow> pipes \<Rightarrow> (u32 \<times> pipes) option" where
  "rt_pipe_write n buf count st =
     (if count = 0 then Some (0, st)
      else do { rb \<leftarrow> fifo_of n st;
                (written, rb) \<leftarrow> pipe_put_loop buf (unat count) rb 0;
                Some (of_nat written, upd_pipe n (\<lambda>p. p\<lparr>pp_fifo := RbOk rb\<rparr>) st) })"

definition rt_pipe_control :: "nat \<Rightarrow> int \<Rightarrow> u32 \<Rightarrow> pipes \<Rightarrow> rt_err_t" where
  "rt_pipe_control n cmd args st = RT_EOK"

definition PIPE :: nat where
  "PIPE = 2"

text \<open>The functions of a pipe, with those of the other devices in \<open>drv\<close>.\<close>

definition pipe_driver :: "bool \<Rightarrow> u8 list option \<Rightarrow> (nat \<Rightarrow> rt_pipe) driver \<Rightarrow> (nat \<Rightarrow> rt_pipe) driver" where
  "pipe_driver rb_ok pool drv =
     \<lparr>drv_init = drv_init drv,
      drv_open = (\<lambda>f n oflag st. if f = PIPE then rt_pipe_open rb_ok pool n st else drv_open drv f n oflag st),
      drv_close = (\<lambda>f n st. if f = PIPE then Some (rt_pipe_close n st) else drv_close drv f n st),
      drv_read = (\<lambda>f n pos sz st. if f = PIPE then rt_pipe_read n sz st else drv_read drv f n pos sz st),
      drv_write = (\<lambda>f n pos buf sz st. if f = PIPE then rt_pipe_write n buf sz st else drv_write drv f n pos buf sz st),
      drv_control = (\<lambda>f n cmd arg st. if f = PIPE then Some (rt_pipe_control n cmd arg st, st) else drv_control drv f n cmd arg st)\<rparr>"

subsection \<open>Creating and deleting\<close>

text \<open>
  \<open>malloc\<close> says which device the block is, if there is one, and \<open>m\<close> which mutex is in it. A block that is given back keeps its
  contents in this state.
\<close>

definition rt_pipe_create :: "nat option \<Rightarrow> nat \<Rightarrow> u8 list \<Rightarrow> int \<Rightarrow> pipes \<Rightarrow> (nat option \<times> pipes) option" where
  "rt_pipe_create malloc m name sz st =
     (case malloc of
        None \<Rightarrow> Some (None, st)
      | Some n \<Rightarrow>
          do { let st = upd_dev n (\<lambda>_. zero_device) (st\<lparr>dv_kernel := clear_block (OMutex m) (clear_block (ODev n) (dv_kernel st))\<rparr>);
               (_, k) \<leftarrow> rt_mutex_init m name 0 (dv_kernel st);
               s \<leftarrow> rt_wqueue_init (reader_queue n) (dv_queues st);
               s \<leftarrow> rt_wqueue_init (writer_queue n) s;
               RT_ASSERT (sz < 0xFFFF);
               let st = upd_pipe n (\<lambda>_. \<lparr>pp_fifo = RbNull, pp_bufsz = word_of_int sz, pp_readers = 0, pp_writers = 0, pp_lock = m\<rparr>)
                 (st\<lparr>dv_kernel := k, dv_queues := s\<rparr>);
               let st = upd_dev n (\<lambda>d. d\<lparr>dev_type := RT_Device_Class_Pipe, dev_init := None, dev_open := Some PIPE,
                 dev_read := Some PIPE, dev_write := Some PIPE, dev_close := Some PIPE, dev_control := Some PIPE,
                 dev_rx_indicate := None, dev_tx_complete := None\<rparr>) st;
               (r, st) \<leftarrow> rt_device_register (Some n) name 7 st;
               if r \<noteq> 0 then Some (None, st) else Some (Some n, upd_dev n (\<lambda>d. d\<lparr>dev_fops := Some PIPE\<rparr>) st) })"

definition rt_pipe_delete :: "u8 list \<Rightarrow> pipes \<Rightarrow> (int \<times> pipes) option" where
  "rt_pipe_delete name st =
     do { (device, st) \<leftarrow> rt_device_find name st;
          case device of
            Some (ODev n) \<Rightarrow>
              if dev_type (dv_dev st n) = RT_Device_Class_Pipe
              then if dev_ref_count (dv_dev st n) \<noteq> 0 then Some (- RT_EBUSY, st)
                   else do { (_, k) \<leftarrow> rt_mutex_detach (pp_lock (the_pipe n st)) (dv_kernel st);
                             (_, st) \<leftarrow> rt_device_unregister n (st\<lparr>dv_kernel := k\<rparr>);
                             if pp_fifo (the_pipe n st) = RbFreed then None
                             else Some (0, upd_pipe n (\<lambda>p. p\<lparr>pp_fifo := RbNull\<rparr>) st) }
              else Some (- ENODEV, st)
          | _ \<Rightarrow> Some (- ENODEV, st) }"

definition mkfifo :: "nat option \<Rightarrow> nat \<Rightarrow> u8 list \<Rightarrow> pipes \<Rightarrow> (int \<times> pipes) option" where
  "mkfifo malloc m path st =
     do { (p, st) \<leftarrow> rt_pipe_create malloc m path 512 st; Some (if p = None then - 1 else 0, st) }"

end
