(* ===== verification/Pipe_Data.thy ===== *)
theory Pipe_Data
  imports Pipe
begin

text \<open>
  The bytes that go through a pipe, in any interleaving of the steps of readers and writers.
\<close>

subsection \<open>Steps on one pipe\<close>

lemma pipe_upd [simp]:
  "the_pipe n (upd_pipe m f st) = (if m = n then f (the_pipe n st) else the_pipe n st)"
  "the_pipe n (st\<lparr>dv_kernel := k\<rparr>) = the_pipe n st" "the_pipe n (st\<lparr>dv_queues := q\<rparr>) = the_pipe n st"
  "the_pipe n (st\<lparr>dv_dev := d\<rparr>) = the_pipe n st"
  by (simp_all add: the_pipe_def upd_pipe_def)

lemma pipe_wake_pipe: "pipe_wake fn q key st = Some st' \<Longrightarrow> the_pipe n st' = the_pipe n st \<and> dv_dev st' = dv_dev st"
  by (auto simp: pipe_wake_def bind_eq_Some_conv)

lemma fifo_of_iff: "fifo_of n st = Some rb \<longleftrightarrow> pp_fifo (the_pipe n st) = RbOk rb"
  by (simp add: fifo_of_def split: rb_result.split)

text \<open>The bytes that a step of a read takes out of the pipe, and that a step of a write puts into it.\<close>

fun taken :: "reader \<Rightarrow> reader \<Rightarrow> u8 list" where
  "taken ReadSection (ReadDone r bs) = bs"
| "taken pc pc' = []"

definition put_bytes :: "u8 list \<Rightarrow> int \<Rightarrow> int \<Rightarrow> u8 list" where
  "put_bytes buf ret ret' = (if ret < ret' then take (nat ret' - nat ret) (drop (nat ret) buf) else [])"

fun accepted :: "u8 list \<Rightarrow> writer \<Rightarrow> writer \<Rightarrow> u8 list" where
  "accepted buf (WriteSection ret wk) (WriteEnd ret') = put_bytes buf ret ret'"
| "accepted buf (WriteSection ret wk) (WriteWake ret') = put_bytes buf ret ret'"
| "accepted buf pc pc' = []"

definition holds :: "nat \<Rightarrow> pipes \<Rightarrow> u8 list \<Rightarrow> bool" where
  "holds n st bs \<longleftrightarrow> (\<exists>rb. pp_fifo (the_pipe n st) = RbOk rb \<and> rb_inv rb \<and> rb_data rb = bs)"

lemma read_step_data:
  assumes "pipe_fops_read fn flags w count n pc st = Some (pc', st')" "holds n st bs"
  shows "\<exists>bs'. holds n st' bs' \<and> bs = taken pc pc' @ bs'"
proof (cases pc)
  case ReadSection
  obtain rb where rb: "pp_fifo (the_pipe n st) = RbOk rb" "rb_inv rb" "rb_data rb = bs" using assms(2) by (auto simp: holds_def)
  define k where "k = min (len16 count) (rb_len rb)"
  obtain rb' where g: "rt_ringbuffer_get rb (len16 count) = Some (k, take k bs, rb')" "rb_inv rb'" "rb_data rb' = drop k bs"
    using get_exact[OF rb(2), of "len16 count"] rb(3) unfolding k_def by blast
  have s: "pipe_read_section fn flags count n st = Some (pc', st')" using assms(1) ReadSection by simp
  show ?thesis
  proof (cases "pp_writers (the_pipe n st) = 0")
    case True
    then show ?thesis using s assms(2) ReadSection by (auto simp: pipe_read_section_def)
  next
    case False
    then have "pp_fifo (the_pipe n st') = RbOk rb'" "taken pc pc' = take k bs"
      using s g(1) rb(1) ReadSection
      by (auto simp: pipe_read_section_def fifo_of_def bind_eq_Some_conv Let_def split: if_splits dest!: pipe_wake_pipe[where n = n])
    then show ?thesis using g(2,3) by (auto simp: holds_def)
  qed
qed (use assms in \<open>auto simp: holds_def bind_eq_Some_conv split: prod.splits dest!: pipe_wake_pipe[where n = n]\<close>)

lemma write_step_data:
  assumes "pipe_fops_write fn flags w buf count n pc st = Some (pc', st')" "holds n st bs" "count \<le> length buf"
    "\<And>ret wk. pc = WriteSection ret wk \<Longrightarrow> 0 \<le> ret"
  shows "holds n st' (bs @ accepted buf pc pc')"
proof (cases pc)
  case (WriteSection ret wk)
  obtain rb where rb: "pp_fifo (the_pipe n st) = RbOk rb" "rb_inv rb" "rb_data rb = bs" using assms(2) by (auto simp: holds_def)
  have "len16 (count - nat ret) \<le> count - nat ret" by simp
  then have len: "len16 (count - nat ret) \<le> length (drop (nat ret) buf)" using assms(3) by simp
  define k where "k = min (len16 (count - nat ret)) (buffer_size rb - rb_len rb)"
  obtain rb' where p: "rt_ringbuffer_put rb (drop (nat ret) buf) (len16 (count - nat ret)) = Some (k, rb')" "rb_inv rb'"
      "rb_data rb' = bs @ take k (drop (nat ret) buf)"
    using put_exact[OF rb(2) len] rb(3) unfolding k_def by blast
  have r: "0 \<le> ret" using assms(4) WriteSection by blast
  have s: "pipe_write_section flags buf count n ret wk st = Some (pc', st')" using assms(1) WriteSection by simp
  show ?thesis
  proof (cases "pp_readers (the_pipe n st) = 0")
    case True
    then have "st' = st" "accepted buf pc pc' = []"
      using s WriteSection r by (auto simp: pipe_write_section_def put_bytes_def Let_def split: if_splits)
    then show ?thesis using assms(2) by simp
  next
    case False
    define r' where "r' = ret + int k"
    have st': "pp_fifo (the_pipe n st') = RbOk rb'"
      and pc': "pc' = (if r' = int count then WriteEnd r'
        else if flags AND O_NONBLOCK \<noteq> 0 then WriteEnd (if r' = 0 then - EAGAIN else r') else WriteWake r')"
      using s p(1) rb(1) False by (auto simp: pipe_write_section_def fifo_of_def Let_def r'_def)
    have "nat r' - nat ret = k" using r by (simp add: r'_def)
    then have "put_bytes buf ret r' = take k (drop (nat ret) buf)" by (simp add: put_bytes_def r'_def)
    moreover have "put_bytes buf ret (- EAGAIN) = take k (drop (nat ret) buf)" if "r' = 0"
      using that r by (simp add: put_bytes_def r'_def)
    ultimately have "accepted buf pc pc' = take k (drop (nat ret) buf)"
      by (cases "r' = int count"; cases "r' = 0") (auto simp: WriteSection pc')
    then show ?thesis using st' p(2,3) by (auto simp: holds_def)
  qed
qed (use assms in \<open>auto simp: holds_def bind_eq_Some_conv split: prod.splits dest!: pipe_wake_pipe[where n = n]\<close>)

subsection \<open>Any interleaving\<close>

text \<open>
  What happens to the pipe of device \<open>n\<close>: steps of reads and of writes of any number of files, opening and closing of files
  while another one is open, and whatever does not touch the pipe. \<open>got\<close> and \<open>put\<close> are the bytes that have been read and
  written, in this order.
\<close>

inductive pipe_run :: "nat \<Rightarrow> pipes \<Rightarrow> u8 list \<Rightarrow> u8 list \<Rightarrow> pipes \<Rightarrow> bool" for n st0 where
  run_start: "pipe_run n st0 [] [] st0"
| run_read: "\<lbrakk>pipe_run n st0 got put st; pipe_fops_read fn flags w count n pc st = Some (pc', st')\<rbrakk> \<Longrightarrow>
    pipe_run n st0 (got @ taken pc pc') put st'"
| run_write: "\<lbrakk>pipe_run n st0 got put st; pipe_fops_write fn flags w buf count n pc st = Some (pc', st'); count \<le> length buf;
    \<And>ret wk. pc = WriteSection ret wk \<Longrightarrow> 0 \<le> ret\<rbrakk> \<Longrightarrow>
    pipe_run n st0 got (put @ accepted buf pc pc') st'"
| run_open: "\<lbrakk>pipe_run n st0 got put st; pipe_fops_open ok pool flags n st = Some (r, st'); dev_ref_count (dv_dev st n) \<noteq> 0\<rbrakk> \<Longrightarrow>
    pipe_run n st0 got put st'"
| run_close: "\<lbrakk>pipe_run n st0 got put st; pipe_fops_close fn flags n st = Some (r, st'); dev_ref_count (dv_dev st n) \<noteq> 1\<rbrakk> \<Longrightarrow>
    pipe_run n st0 got put st'"
| run_other: "\<lbrakk>pipe_run n st0 got put st; pp_fifo (the_pipe n st') = pp_fifo (the_pipe n st)\<rbrakk> \<Longrightarrow> pipe_run n st0 got put st'"

lemma open_holds:
  "\<lbrakk>pipe_fops_open ok pool flags n st = Some (r, st'); dev_ref_count (dv_dev st n) \<noteq> 0; holds n st bs\<rbrakk> \<Longrightarrow> holds n st' bs"
  by (auto simp: pipe_fops_open_def holds_def Let_def)

lemma close_holds:
  assumes "pipe_fops_close fn flags n st = Some (r, st')" "dev_ref_count (dv_dev st n) \<noteq> 1" "holds n st bs"
  shows "holds n st' bs"
proof -
  define st1 where "st1 = upd_pipe n (\<lambda>p. p\<lparr>pp_readers := (if reads flags then pp_readers p - 1 else pp_readers p),
      pp_writers := (if writes flags then pp_writers p - 1 else pp_writers p)\<rparr>) st"
  have s1: "pp_fifo (the_pipe n st1) = pp_fifo (the_pipe n st)" "dv_dev st1 = dv_dev st" by (simp_all add: st1_def) (simp add: upd_pipe_def)
  obtain st2 st3 where w: "(if pp_writers (the_pipe n st1) = 0 then pipe_wake fn (reader_queue n) (POLLIN OR POLLERR OR POLLHUP) st1
        else Some st1) = Some st2"
      "(if pp_readers (the_pipe n st2) = 0 then pipe_wake fn (writer_queue n) (POLLOUT OR POLLERR OR POLLHUP) st2
        else Some st2) = Some st3"
      "st' = upd_dev n (\<lambda>d. d\<lparr>dev_ref_count := dev_ref_count d - 1\<rparr>)
        (if dev_ref_count (dv_dev st3 n) = 1 then upd_pipe n (\<lambda>p. p\<lparr>pp_fifo := RbNull\<rparr>) st3 else st3)"
    using assms(1) unfolding pipe_fops_close_def st1_def[symmetric] Let_def
    by (simp only: bind_eq_Some_conv option.inject prod.inject) blast
  have "the_pipe n st3 = the_pipe n st1" "dv_dev st3 = dv_dev st1" using w(1,2) by (auto split: if_splits dest!: pipe_wake_pipe[where n = n])
  then show ?thesis using w(3) s1 assms(2,3) by (simp add: holds_def)
qed

lemma pipe_run_data: "pipe_run n st0 got put st \<Longrightarrow> holds n st0 bs \<Longrightarrow> \<exists>bs'. holds n st bs' \<and> bs @ put = got @ bs'"
proof (induction rule: pipe_run.induct)
  case (run_read got put st fn flags w count pc pc' st')
  then show ?case using read_step_data[OF run_read.hyps(2)] by force
next
  case (run_write got put st fn flags w buf count pc pc' st')
  then obtain bs' where "holds n st bs'" "bs @ put = got @ bs'" by blast
  then show ?case using write_step_data[OF run_write.hyps(2) _ run_write.hyps(3,4)] by (intro exI[of _ "bs' @ accepted buf pc pc'"]) auto
next
  case (run_open got put st ok pool flags r st')
  then show ?case using open_holds by blast
next
  case (run_close got put st fn flags r st')
  then show ?case using close_holds by blast
next
  case (run_other got put st st')
  then show ?case by (simp add: holds_def)
qed auto

text \<open>A pipe with two bytes in a buffer of four, one reader and one writer.\<close>

definition ex_pipe :: "nat list \<Rightarrow> rt_ringbuffer \<Rightarrow> pipes" where
  "ex_pipe ws rb = \<lparr>dv_kernel = ex_kernel, dv_dev = (\<lambda>_. zero_device\<lparr>dev_ref_count := 2\<rparr>),
     dv_queues = \<lparr>waiting_list = \<lparr>ls_q = (\<lambda>_. [])(1 := ws), ls_in = (\<lambda>w. if w \<in> set ws then Some 1 else None)\<rparr>,
       wq_flag = (\<lambda>_. 0), wq_node = (\<lambda>w. \<lparr>wn_polling_thread = w, wn_wakeup = None, wn_key = 0\<rparr>)\<rparr>,
     dv_user = (\<lambda>_. \<lparr>pp_fifo = RbOk rb, pp_bufsz = 4, pp_readers = 1, pp_writers = 1, pp_lock = 0\<rparr>)\<rparr>"

lemma ex_pipe_facts:
  "the_pipe n (ex_pipe ws rb) = \<lparr>pp_fifo = RbOk rb, pp_bufsz = 4, pp_readers = 1, pp_writers = 1, pp_lock = 0\<rparr>"
  "kinv (dv_kernel (ex_pipe ws rb))"
  by (simp_all add: the_pipe_def ex_pipe_def ex_kernel_inv)

text \<open>C17. A pipe is a queue of bytes. In every interleaving of the steps of reads and writes of any number of files, with other
  files opened and closed in between, the bytes that reads take out are the bytes that the pipe held and then those that writes
  put in, in this order: none is lost, doubled or overtaken, and what has not been read is in the ring buffer.\<close>

theorem pipe_stream:
  assumes "pipe_run n st0 got put st" "pp_fifo (the_pipe n st0) = RbOk rb" "rb_inv rb"
  shows "\<exists>rb'. pp_fifo (the_pipe n st) = RbOk rb' \<and> rb_inv rb' \<and> rb_data rb @ put = got @ rb_data rb'"
  using pipe_run_data[OF assms(1), of "rb_data rb"] assms(2,3) by (auto simp: holds_def)

text \<open>A write of three bytes finds room for two, and a read takes three.\<close>

theorem pipe_stream_witness:
  "\<exists>st1 st2. pipe_fops_write (\<lambda>f w key k. None) 1 7 [7, 8, 9] 3 0 (WriteSection 0 False) (ex_pipe [] rb_example) = Some (WriteWake 2, st1) \<and>
     pipe_fops_read (\<lambda>f w key k. None) 0 8 3 0 ReadSection st1 = Some (ReadDone 3 [2, 3, 7], st2) \<and> holds 0 st2 [8]"
proof -
  let ?fn = "\<lambda>f w key k. None" and ?st = "ex_pipe [] rb_example"
  obtain rb1 where p: "rt_ringbuffer_put rb_example [7, 8, 9] 3 = Some (2, rb1)" "rb_inv rb1" "rb_data rb1 = [2, 3, 7, 8]"
    using put_exact[OF rb_example_inv(1), of 3 "[7, 8, 9]"] by (auto simp: rb_example_inv)
  have l: "rb_len rb1 = 4" using p(3) rb_data_length[of rb1] by simp
  obtain rb2 where g: "rt_ringbuffer_get rb1 3 = Some (3, [2, 3, 7], rb2)"
    using get_exact[OF p(2), of 3] by (auto simp: p(3) l)
  define st1 where "st1 = upd_pipe 0 (\<lambda>p. p\<lparr>pp_fifo := RbOk rb1\<rparr>) ?st"
  have w: "pipe_fops_write ?fn 1 7 [7, 8, 9] 3 0 (WriteSection 0 False) ?st = Some (WriteWake 2, st1)"
    using p(1) by (simp add: pipe_write_section_def fifo_of_def ex_pipe_facts st1_def)
  have "pipe_wake ?fn (writer_queue 0) 2 (upd_pipe 0 (\<lambda>p. p\<lparr>pp_fifo := RbOk rb2\<rparr>) st1) =
      Some (upd_pipe 0 (\<lambda>p. p\<lparr>pp_fifo := RbOk rb2\<rparr>) st1\<lparr>dv_queues := (dv_queues ?st)\<lparr>wq_flag := (wq_flag (dv_queues ?st))(writer_queue 0 := 1)\<rparr>\<rparr>)"
    by (simp add: pipe_wake_def st1_def upd_pipe_def rt_wqueue_wakeup_def ex_pipe_def writer_queue_def)
  then obtain st2 where r: "pipe_fops_read ?fn 0 8 3 0 ReadSection st1 = Some (ReadDone 3 [2, 3, 7], st2)"
    using g by (auto simp: pipe_read_section_def fifo_of_def ex_pipe_facts st1_def)
  have "pipe_run 0 ?st [] ([] @ accepted [7, 8, 9] (WriteSection 0 False) (WriteWake 2)) st1"
    using run_write[OF run_start w] by simp
  from run_read[OF this r] have "pipe_run 0 ?st [2, 3, 7] [7, 8] st2" by (simp add: put_bytes_def eval_nat_numeral)
  then have "\<exists>rb'. pp_fifo (the_pipe 0 st2) = RbOk rb' \<and> rb_inv rb' \<and> rb_data rb_example @ [7, 8] = [2, 3, 7] @ rb_data rb'"
    using pipe_stream[of 0 ?st "[2, 3, 7]" "[7, 8]" st2 rb_example] rb_example_inv(1) by (simp add: ex_pipe_facts)
  then have "holds 0 st2 [8]" by (auto simp: holds_def rb_example_inv)
  then show ?thesis using w r by blast
qed

subsection \<open>Reads that never return\<close>

text \<open>The steps of a read that may return, in whatever states it runs, as long as somebody has the pipe open for writing.\<close>

inductive read_runs :: "wake_fn \<Rightarrow> u32 \<Rightarrow> nat \<Rightarrow> nat \<Rightarrow> nat \<Rightarrow> reader \<Rightarrow> bool" for fn flags w count n where
  read_start: "read_runs fn flags w count n ReadBegin"
| read_next: "\<lbrakk>read_runs fn flags w count n pc; pp_writers (the_pipe n st) \<noteq> 0; pipe_fops_read fn flags w count n pc st = Some (pc', st')\<rbrakk> \<Longrightarrow>
    read_runs fn flags w count n pc'"

lemma get_nothing: "rt_ringbuffer_get rb 0 = Some (len, bs, rb') \<Longrightarrow> len = 0"
  by (auto simp: rt_ringbuffer_get_def Let_def bind_eq_Some_conv split: if_splits)

text \<open>A read of no bytes never returns while the pipe is open for writing, and neither does one of a multiple of 65536 bytes,
  whether or not there are bytes in the pipe: the ring buffer takes the number as 16 bits, gives nothing, and the read takes
  that for an empty pipe.\<close>

theorem pipe_read_never_returns:
  assumes "read_runs fn flags w count n pc" "count mod 65536 = 0" "flags AND O_NONBLOCK = 0"
  shows "pc \<noteq> ReadDone r bs"
proof -
  have "\<forall>r bs. pc \<noteq> ReadDone r bs"
    using assms(1)
  proof (induction rule: read_runs.induct)
    case (read_next pc st pc' st')
    have len: "len16 count = 0" using assms(2) by simp
    show ?case
    proof (cases pc)
      case ReadSection
      then show ?thesis using read_next assms(3) len
        by (auto simp: pipe_read_section_def bind_eq_Some_conv Let_def split: if_splits dest!: get_nothing)
    next
      case ReadWait
      then obtain c s k where "pc' = (case c of Return (_ :: int) \<Rightarrow> ReadSection | Blocked \<Rightarrow> ReadBlocked)"
        using read_next.hyps(3) by (auto simp: bind_eq_Some_conv)
      then show ?thesis by (cases c) auto
    qed (use read_next in \<open>auto split: if_splits\<close>)
  qed simp
  then show ?thesis by blast
qed

text \<open>A read of no bytes of a pipe that holds two goes to wait.\<close>

theorem pipe_read_never_returns_witness:
  "\<exists>pc. read_runs (\<lambda>f w key k. None) 0 7 0 0 pc \<and> pc = ReadWake \<and> pc \<noteq> ReadDone 0 []"
proof -
  let ?fn = "\<lambda>f w key k. None" and ?st = "ex_pipe [] rb_example"
  obtain rb1 where g: "rt_ringbuffer_get rb_example 0 = Some (0, [], rb1)"
    using get_exact[OF rb_example_inv(1), of 0] by auto
  have "pipe_fops_read ?fn 0 7 0 0 ReadBegin ?st = Some (ReadSection, ?st)" by (simp add: ex_pipe_facts)
  from read_next[OF read_start _ this] have s: "read_runs ?fn 0 7 0 0 ReadSection" by (simp add: ex_pipe_facts)
  have "pipe_fops_read ?fn 0 7 0 0 ReadSection ?st = Some (ReadWake, upd_pipe 0 (\<lambda>p. p\<lparr>pp_fifo := RbOk rb1\<rparr>) ?st)"
    using g by (simp add: pipe_read_section_def fifo_of_def ex_pipe_facts)
  from read_next[OF s _ this] have r: "read_runs ?fn 0 7 0 0 ReadWake" by (simp add: ex_pipe_facts)
  show ?thesis using r pipe_read_never_returns[OF r, of 0 "[]"] by simp
qed

end
