(* ===== verification/Pipe_Wait.thy ===== *)
theory Pipe_Wait
  imports Pipe_Data
begin

text \<open>
  Threads that wait for a pipe: what a write and the last close do for them, and what closing the device does to the bytes.
\<close>

subsection \<open>Waking the first reader\<close>

text \<open>The thread \<open>t\<close> waits with the node \<open>w\<close> as the first of the queue \<open>q\<close>.\<close>

definition waits_first :: "nat \<Rightarrow> nat \<Rightarrow> nat \<Rightarrow> nat list \<Rightarrow> pipes \<Rightarrow> bool" where
  "waits_first q w t ws st \<longleftrightarrow> ls_q (waiting_list (dv_queues st)) q = w # ws \<and> ls_inv (waiting_list (dv_queues st)) \<and>
     wn_polling_thread (wq_node (dv_queues st) w) = t \<and> wn_wakeup (wq_node (dv_queues st) w) = None \<and>
     kinv (dv_kernel st) \<and> rt_current_thread (dv_kernel st) \<noteq> None \<and>
     alive (dv_kernel st) t \<and> stat_of (thr (dv_kernel st) t) = RT_THREAD_SUSPEND"

lemma pipe_wake_first:
  assumes "waits_first q w t ws st"
  obtains s k where "pipe_wake fn q key st = Some (st\<lparr>dv_queues := s, dv_kernel := k\<rparr>)" "ready_thread k t" "kinv k"
    "ls_in (waiting_list s) w = None" "ls_q (waiting_list s) q = ws"
    "\<And>p. p \<noteq> q \<Longrightarrow> ls_q (waiting_list s) p = ls_q (waiting_list (dv_queues st)) p"
proof -
  define s where "s = rt_wqueue_remove w ((dv_queues st)\<lparr>wq_flag := (wq_flag (dv_queues st))(q := 1)\<rparr>)"
  have f: "ls_q (waiting_list (dv_queues st)) q = w # ws" "ls_inv (waiting_list (dv_queues st))"
      "wn_polling_thread (wq_node (dv_queues st) w) = t" "wn_wakeup (wq_node (dv_queues st) w) = None"
      "kinv (dv_kernel st)" "rt_current_thread (dv_kernel st) \<noteq> None" "alive (dv_kernel st) t" "stat_of (thr (dv_kernel st) t) = 2"
    using assms by (simp_all add: waits_first_def)
  have "wake_answer fn w key (dv_queues st) (dv_kernel st) = Some (0, dv_kernel st)"
    using f(4) by (simp add: wake_answer_def wqueue_default_wake_def)
  then obtain k where "rt_wqueue_wakeup fn q key (dv_queues st) (dv_kernel st) = Some (s, k)" "ready_thread k t" "kinv k"
    using wakeup_found[OF f(5,6), where s = "dv_queues st" and q = q and us = "[]" and w = w and vs = ws and fn = fn and key = key] f
    by (auto simp: s_def)
  moreover have "ls_q (waiting_list s) p = (if p = q then ws else ls_q (waiting_list (dv_queues st)) p)" for p
  proof (cases "p = q")
    case True
    then show ?thesis using f(1) by (simp add: s_def rt_wqueue_remove_def ls_q_remove[OF f(2)])
  next
    case False
    then have "w \<notin> set (ls_q (waiting_list (dv_queues st)) p)"
      using f(1,2) unfolding ls_inv_def by (metis list.set_intros(1) option.inject)
    then show ?thesis using False by (simp add: s_def rt_wqueue_remove_def ls_q_remove[OF f(2)] remove1_idem)
  qed
  moreover have "ls_in (waiting_list s) w = None" by (simp add: s_def rt_wqueue_remove_def)
  ultimately show ?thesis using that[where s = s and k = k] by (simp add: pipe_wake_def)
qed

lemma pipe_wake_nobody:
  "ls_q (waiting_list (dv_queues st)) q = [] \<Longrightarrow>
    pipe_wake fn q key st = Some (st\<lparr>dv_queues := (dv_queues st)\<lparr>wq_flag := (wq_flag (dv_queues st))(q := 1)\<rparr>\<rparr>)"
  using wakeup_not_found[where s = "dv_queues st" and q = q and fn = fn and key = key and k = "dv_kernel st"] by (simp add: pipe_wake_def)

lemma queues_differ [simp]: "reader_queue n \<noteq> writer_queue n" "writer_queue n \<noteq> reader_queue n"
  by (simp_all add: reader_queue_def writer_queue_def)

lemma wait_end_list: "ls_in (waiting_list s) w = None \<Longrightarrow> waiting_list (rt_wqueue_wait_end q w s) = waiting_list s"
  by (simp add: rt_wqueue_wait_end_def rt_wqueue_remove_def)

lemma waits_first_upd: "waits_first q w t ws (upd_pipe n f st) = waits_first q w t ws st"
  by (simp add: waits_first_def upd_pipe_def)

text \<open>The section of a write with room for something.\<close>

lemma write_section_puts:
  assumes "pp_fifo (the_pipe n st) = RbOk rb" "rb_inv rb" "rb_len rb < buffer_size rb" "pp_readers (the_pipe n st) \<noteq> 0"
    "count mod 65536 \<noteq> 0" "count \<le> length buf"
  obtains k rb' pc where "pipe_write_section flags buf count n 0 False st = Some (pc, upd_pipe n (\<lambda>p. p\<lparr>pp_fifo := RbOk rb'\<rparr>) st)"
    "pc = WriteWake (int k) \<or> pc = WriteEnd (int k)" "0 < k" "rb_inv rb'" "rb_data rb' = rb_data rb @ take k buf"
proof -
  define k where "k = min (len16 count) (buffer_size rb - rb_len rb)"
  have "len16 count \<le> length buf" using assms(6) by (meson le_trans mod_less_eq_dividend)
  then obtain rb' where p: "rt_ringbuffer_put rb buf (len16 count) = Some (k, rb')" "rb_inv rb'" "rb_data rb' = rb_data rb @ take k buf"
    using put_exact[OF assms(2), of "len16 count" buf] unfolding k_def by blast
  have k: "0 < k" using assms(3,5) by (simp add: k_def)
  define pc where "pc = (if int k = int count then WriteEnd (int k) else if flags AND O_NONBLOCK \<noteq> 0 then WriteEnd (int k) else WriteWake (int k))"
  have "pipe_write_section flags buf count n 0 False st = Some (pc, upd_pipe n (\<lambda>p. p\<lparr>pp_fifo := RbOk rb'\<rparr>) st)"
    using p(1) assms(1,4) k by (simp add: pipe_write_section_def fifo_of_def Let_def pc_def)
  then show ?thesis using that[of pc rb' k] p(2,3) k by (simp add: pc_def split: if_splits)
qed

text \<open>The section of a read of a pipe that holds something.\<close>

lemma read_section_gets:
  assumes "pp_fifo (the_pipe n st) = RbOk rb" "rb_inv rb" "rb_data rb \<noteq> []" "pp_writers (the_pipe n st) \<noteq> 0" "count mod 65536 \<noteq> 0"
    "ls_q (waiting_list (dv_queues st)) (writer_queue n) = []"
  shows "\<exists>st'. pipe_read_section fn flags count n st =
    Some (ReadDone (int (length (take (count mod 65536) (rb_data rb)))) (take (count mod 65536) (rb_data rb)), st')"
proof -
  define k where "k = min (len16 count) (rb_len rb)"
  obtain rb' where g: "rt_ringbuffer_get rb (len16 count) = Some (k, take k (rb_data rb), rb')"
    using get_exact[OF assms(2), of "len16 count"] unfolding k_def by blast
  have "0 < k" using assms(3,5) by (simp add: k_def)
  moreover have "take k (rb_data rb) = take (count mod 65536) (rb_data rb)" "k = length (take (count mod 65536) (rb_data rb))"
    by (simp_all add: k_def min_def)
  ultimately show ?thesis
    using g assms(1,4,6) pipe_wake_nobody[of "upd_pipe n (\<lambda>p. p\<lparr>pp_fifo := RbOk rb'\<rparr>) st" "writer_queue n" fn 2]
    by (simp add: pipe_read_section_def fifo_of_def Let_def) (simp add: upd_pipe_def)
qed

subsection \<open>Properties\<close>


text \<open>The end of a pipe reaches one reader only. When several threads wait for an empty pipe and the last writer closes it, the
  first of them is made ready and reads the end of the file; it wakes nobody, no later read does, and so the second one stays in
  the queue.\<close>

theorem pipe_close_wakes_one:
  assumes "waits_first (reader_queue n) w t (w2 # ws) st" "pp_writers (the_pipe n st) = 1" "pp_readers (the_pipe n st) \<noteq> 0"
    "writes flags" "\<not> reads flags" "dev_ref_count (dv_dev st n) \<noteq> 1"
  shows "\<exists>st1 st2. pipe_fops_close fn flags n st = Some (0, st1) \<and> ready_thread (dv_kernel st1) t \<and>
    pipe_fops_read fn rflags w count n ReadBlocked st1 = Some (ReadSection, st2) \<and>
    pipe_fops_read fn rflags w count n ReadSection st2 = Some (ReadDone 0 [], st2) \<and>
    pipe_fops_read fn rflags' w' count' n ReadBegin st2 = Some (ReadDone 0 [], st2) \<and>
    dv_kernel st2 = dv_kernel st1 \<and> ls_q (waiting_list (dv_queues st2)) (reader_queue n) = w2 # ws"
proof -
  define st0 where "st0 = upd_pipe n (\<lambda>p. p\<lparr>pp_readers := pp_readers p, pp_writers := pp_writers p - 1\<rparr>) st"
  have z: "pp_writers (the_pipe n st0) = 0" "pp_readers (the_pipe n st0) \<noteq> 0" "dv_dev st0 = dv_dev st"
    using assms(2,3) by (simp_all add: st0_def) (simp add: upd_pipe_def)
  have "waits_first (reader_queue n) w t (w2 # ws) st0" using assms(1) by (simp add: st0_def waits_first_upd)
  then obtain s1 k1 where wk: "pipe_wake fn (reader_queue n) (POLLIN OR POLLERR OR POLLHUP) st0 = Some (st0\<lparr>dv_queues := s1, dv_kernel := k1\<rparr>)"
    "ready_thread k1 t" "ls_in (waiting_list s1) w = None" "ls_q (waiting_list s1) (reader_queue n) = w2 # ws"
    using pipe_wake_first by blast
  define st1 where "st1 = upd_dev n (\<lambda>d. d\<lparr>dev_ref_count := dev_ref_count d - 1\<rparr>) (st0\<lparr>dv_queues := s1, dv_kernel := k1\<rparr>)"
  have st0: "upd_pipe n (\<lambda>p. p\<lparr>pp_readers := (if reads flags then pp_readers p - 1 else pp_readers p),
      pp_writers := (if writes flags then pp_writers p - 1 else pp_writers p)\<rparr>) st = st0"
    using assms(4,5) by (simp add: st0_def)
  have close: "pipe_fops_close fn flags n st = Some (0, st1)"
    using wk(1) z assms(6) unfolding pipe_fops_close_def st0 by (simp add: st1_def)
  define st2 where "st2 = st1\<lparr>dv_queues := rt_wqueue_wait_end (reader_queue n) w (dv_queues st1)\<rparr>"
  have w0: "pp_writers (the_pipe n st2) = 0" using z(1) by (simp add: st2_def st1_def)
  have "waiting_list (dv_queues st2) = waiting_list s1" using wait_end_list[OF wk(3)] by (simp add: st2_def st1_def)
  then have q: "ls_q (waiting_list (dv_queues st2)) (reader_queue n) = w2 # ws" using wk(4) by simp
  have k: "ready_thread (dv_kernel st1) t" "dv_kernel st2 = dv_kernel st1" using wk(2) by (simp_all add: st1_def st2_def)
  have "pipe_fops_read fn rflags w count n ReadBlocked st1 = Some (ReadSection, st2)" by (simp add: st2_def)
  moreover have "pipe_fops_read fn rflags w count n ReadSection st2 = Some (ReadDone 0 [], st2)"
      "pipe_fops_read fn rflags' w' count' n ReadBegin st2 = Some (ReadDone 0 [], st2)"
    using w0 by (simp_all add: pipe_read_section_def)
  ultimately show ?thesis using close k q by blast
qed

text \<open>Thread 1 of the example kernel waits with node 1, and node 2 is behind it; the queue of readers of device 0 is queue 1.\<close>

definition ex_waiting :: pipes where
  "ex_waiting = (ex_pipe [1, 2] (rt_ringbuffer_reset rb_example))\<lparr>dv_kernel := ex_wait (SemQ 0)\<rparr>"

lemma ex_waiting_first: "waits_first (reader_queue 0) 1 1 [2] ex_waiting"
  using ex_wait_inv[of "SemQ 0"] ex_wait_facts[of "SemQ 0"]
  by (auto simp: waits_first_def ex_waiting_def ex_pipe_def reader_queue_def ls_inv_def simp del: One_nat_def)

lemma ex_waiting_pipe:
  "the_pipe 0 ex_waiting = \<lparr>pp_fifo = RbOk (rt_ringbuffer_reset rb_example), pp_bufsz = 4, pp_readers = 1, pp_writers = 1, pp_lock = 0\<rparr>"
  "ls_q (waiting_list (dv_queues ex_waiting)) (writer_queue 0) = []" "dev_ref_count (dv_dev ex_waiting 0) = 2"
  by (simp_all add: ex_waiting_def ex_pipe_facts) (simp_all add: ex_pipe_def writer_queue_def)

lemma ex_reset: "rb_inv (rt_ringbuffer_reset rb_example)" "rb_len (rt_ringbuffer_reset rb_example) = 0"
    "buffer_size (rt_ringbuffer_reset rb_example) = 4" "rb_data (rt_ringbuffer_reset rb_example) = []"
  by (simp_all add: rt_ringbuffer_reset_def rb_example_def rb_inv_def rb_len_def rb_data_def)


theorem pipe_close_wakes_one_witness:
  "\<exists>st1 st2. pipe_fops_close (\<lambda>f w key k. None) 1 0 ex_waiting = Some (0, st1) \<and> ready_thread (dv_kernel st1) 1 \<and>
    pipe_fops_read (\<lambda>f w key k. None) 0 1 4 0 ReadBlocked st1 = Some (ReadSection, st2) \<and>
    pipe_fops_read (\<lambda>f w key k. None) 0 1 4 0 ReadSection st2 = Some (ReadDone 0 [], st2) \<and>
    ls_q (waiting_list (dv_queues st2)) (reader_queue 0) = [2]"
proof -
  have "writes 1" "\<not> reads 1" by (simp_all add: writes_def reads_def)
  then show ?thesis
    using pipe_close_wakes_one[OF ex_waiting_first, of 1 "\<lambda>f w key k. None" 0 4 0 1 0] ex_waiting_pipe by auto
qed

subsection \<open>The device\<close>

text \<open>A pipe keeps the contract of the framework for its drivers.\<close>

lemma upd_pipe_keeps: "dev_keeps n st (upd_pipe m f st)" "dev_same n st (upd_pipe m f st)"
  by (simp_all add: dev_keeps_def dev_same_def upd_pipe_def is_device_def)

lemma pipe_open_same: "rt_pipe_open ok pool m st = Some (e, st') \<Longrightarrow> e = RT_EOK \<and> dev_same n st st'"
  by (auto simp: rt_pipe_open_def bind_eq_Some_conv upd_pipe_keeps split: if_splits)

lemma pipe_close_keeps: "rt_pipe_close m st = (e, st') \<Longrightarrow> done_ok e \<and> dev_keeps n st st'"
  by (auto simp: rt_pipe_close_def upd_pipe_keeps done_ok_def split: if_splits)

lemma pipe_driver_ok:
  assumes "driver_ok n drv"
  shows "driver_ok n (pipe_driver ok pool drv)"
proof -
  have "if done_ok e then dev_same n st st' else dev_keeps n st st'"
    if "drv_open (pipe_driver ok pool drv) f n fl st = Some (e, st')" for f fl st e st'
  proof (cases "f = PIPE")
    case True
    then show ?thesis using that pipe_open_same[of ok pool n st e st' n] by (simp add: pipe_driver_def done_ok_def)
  next
    case False
    then show ?thesis using that assms by (simp add: pipe_driver_def driver_ok_def)
  qed
  moreover have "dev_keeps n st st' \<and> done_ok e" if "drv_close (pipe_driver ok pool drv) f n st = Some (e, st')" for f st e st'
  proof (cases "f = PIPE")
    case True
    then show ?thesis using that pipe_close_keeps[of n st e st' n] by (simp add: pipe_driver_def)
  next
    case False
    then have "drv_close drv f n st = Some (e, st')" using that by (simp add: pipe_driver_def)
    then show ?thesis using assms by (simp add: driver_ok_def)
  qed
  moreover have "drv_init (pipe_driver ok pool drv) = drv_init drv" by (simp add: pipe_driver_def)
  ultimately show ?thesis using assms unfolding driver_ok_def by metis
qed

text \<open>Closing a pipe as a device never frees its ring buffer: the framework has counted the user down to 0 when it calls the driver,
  which waits for the count to be 1. Bytes that nobody has read are there for whoever opens the device next, which makes no new
  buffer.\<close>

theorem pipe_device_keeps_bytes:
  assumes "is_device n st" "dev_close (dv_dev st n) = Some PIPE"
  shows "\<exists>e st'. rt_device_close (pipe_driver ok pool drv) n st = Some (e, st') \<and> the_pipe n st' = the_pipe n st \<and>
    (pp_fifo (the_pipe n st) \<noteq> RbNull \<longrightarrow> rt_pipe_open ok' pool' n st' = Some (RT_EOK, st'))"
  using assms by (auto simp: rt_device_close_def pipe_driver_def rt_pipe_close_def rt_pipe_open_def Let_def)

subsection \<open>Creating\<close>

lemma remove_olist: "rt_schedule_remove_thread x k = Some k' \<Longrightarrow> olist k' = olist k"
  by (auto simp: rt_schedule_remove_thread_def bind_eq_Some_conv Let_def split: if_splits)

lemma insert_olist: "rt_schedule_insert_thread x k = Some k' \<Longrightarrow> olist k' = olist k"
  by (auto simp: rt_schedule_insert_thread_def bind_eq_Some_conv Let_def split: if_splits)

lemma schedule_olist: "rt_schedule k = Some k' \<Longrightarrow> olist k' = olist k"
  by (auto simp: rt_schedule_def bind_eq_Some_conv Let_def dest!: remove_olist insert_olist split: if_splits)

lemma device_find_olist:
  assumes "rt_device_find name st = Some (r, st')"
  shows "olist (dv_kernel st') = olist (dv_kernel st)"
proof -
  obtain k where "rt_exit_critical (rt_enter_critical (dv_kernel st)) = Some k \<or> k = dv_kernel st" "dv_kernel st' = k"
    using assms by (auto simp: rt_device_find_def rt_thread_self_def rt_enter_critical_def bind_eq_Some_conv Let_def split: if_splits)
  then show ?thesis
    by (auto simp: rt_exit_critical_def rt_enter_critical_def Let_def dest!: schedule_olist split: if_splits)
qed

lemma register_fails_olist:
  "rt_device_register (Some n) name flags st = Some (e, st') \<Longrightarrow> e \<noteq> 0 \<Longrightarrow> olist (dv_kernel st') = olist (dv_kernel st)"
  by (auto simp: rt_device_register_def bind_eq_Some_conv split: if_splits dest!: device_find_olist)

lemma mutex_init_linked: "rt_mutex_init m name flag k = Some (e, k') \<Longrightarrow> ls_in (olist k') (OMutex m) \<noteq> None"
  by (auto simp: rt_mutex_init_def rt_ipc_object_init_def bind_eq_Some_conv Let_def object_init_Some)

text \<open>
  A pipe whose name is taken is given back to the heap, but its mutex stays in the list of the objects: the list goes through
  memory that was freed.
\<close>

lemma pipe_create_leaves_mutex:
  assumes "rt_pipe_create (Some n) m name sz st = Some (None, st')"
  shows "ls_in (olist (dv_kernel st')) (OMutex m) \<noteq> None"
proof -
  obtain e k st1 r where k: "rt_mutex_init m name 0 (clear_block (OMutex m) (clear_block (ODev n) (dv_kernel st))) = Some (e, k)"
    and r: "rt_device_register (Some n) name 7 st1 = Some (r, st')" "r \<noteq> 0" "dv_kernel st1 = k"
    using assms by (auto simp: rt_pipe_create_def Let_def bind_eq_Some_conv upd_pipe_def split: if_splits)
  show ?thesis using mutex_init_linked[OF k] register_fails_olist[OF r(1,2)] r(3) by simp
qed

end
