(* ===== verification/Spec2Isabelle.thy ===== *)
theory Spec2Isabelle
  imports Rt_List Ringbuffer Thread Semaphore Mutex Event Mailbox Messagequeue Clock Mempool Heap Idle Completion Workqueue
    Dataqueue Waitqueue Signals Ringblk Device Dfs_Dir I2c_Data I2c_Clock Serial_Open Msh_Exec Shell_Edit Pipe_Wait
begin

text \<open>
  \<^bold>\<open>Verification of the RT-Thread kernel of candy-box.\<close>

  The program is the firmware of a board with a Cortex-M7: applications and drivers on top of the real-time kernel
  RT-Thread 4.0.0, whose sources are in \<open>code_project/rt-thread/\<close> (paths below are relative to it). The
  development models the kernel for the configuration of \<open>code_project/rtconfig.h\<close>: one core, 32 priorities,
  \<open>RT_ALIGN_SIZE\<close> 4, hard timers with a one-level list, all IPC objects, memory pools, and a memory heap as the system
  heap.

  \<^bold>\<open>Parts and theories.\<close>

  \<^item> \<open>Prelude\<close>: machine types of \<open>include/rtdef.h\<close>, \<open>RT_ASSERT\<close>, alignment, shared lemmas and collections.
  \<^item> \<open>List_Store\<close>, \<open>Rt_List\<close>: the intrusive lists of \<open>include/rtservice.h\<close>. \<open>Rt_List\<close> has the pointer code and
    shows that it refines the list level of \<open>List_Store\<close> (an interpretation of the locale \<open>list_store\<close>), on which the
    kernel theories work. \<open>Slist\<close>: the singly linked lists of the same file. \<open>Links\<close>: circular lists as paths in one memory, for the heap.
  \<^item> \<open>Fifo\<close>: the locale \<open>bounded_fifo\<close>, interpreted by the ring buffer, the mailbox and the message queue.
  \<^item> \<open>Kservice\<close>: \<open>src/kservice.c\<close>, \<open>__rt_ffs\<close> and the memory and string routines.
  \<^item> \<open>Kernel_State\<close>, \<open>Objects\<close>: the control blocks, static variables, and \<open>src/object.c\<close>. The record \<open>kernel\<close> is
    the state of all kernel theories; a control block is named by its class and a number.
  \<^item> \<open>Timer\<close>, \<open>Clock\<close>: \<open>src/timer.c\<close> and \<open>src/clock.c\<close>; \<open>Clock\<close> has the clock interrupt.
  \<^item> \<open>Scheduler\<close>, \<open>Kernel_Inv\<close>, \<open>Thread\<close>: \<open>src/scheduler.c\<close>, \<open>src/thread.c\<close>, the stack frame of
    \<open>libcpu/arm/cortex-m7/cpuport.c\<close>. \<open>kinv\<close> is the invariant of the kernel; \<open>Kernel_Inv\<close> says how the steps that
    the functions are made of act on it.
  \<^item> \<open>Ipc_Base\<close>, \<open>Semaphore\<close>, \<open>Mutex\<close>, \<open>Event\<close>, \<open>Mailbox\<close>, \<open>Messagequeue\<close>: \<open>src/ipc.c\<close>. The locale \<open>ipc_object\<close> of
    \<open>Ipc_Base\<close> states what an object of the kernel needs to block and wake threads; every object interprets it.
  \<^item> \<open>Mempool\<close>: \<open>src/mempool.c\<close>.
  \<^item> \<open>Memheap\<close>, \<open>Heap_Inv\<close>, \<open>Heap_Ops\<close>, \<open>Heap_Realloc\<close>, \<open>Allocator\<close>, \<open>Heap\<close>: \<open>src/memheap.c\<close>. The record
    \<open>heapmem\<close> holds the block headers by address. \<open>Heap\<close> interprets the locale \<open>allocator\<close>.
  \<^item> \<open>Idle\<close>: \<open>src/idle.c\<close>, on a kernel together with the memory of the heaps.
  \<^item> \<open>Signals\<close>: \<open>src/signal.c\<close>, on a kernel together with the signal fields of the threads and the nodes of the
    memory pool for the signals that were sent.
  \<^item> \<open>Ringbuffer\<close>, \<open>Completion\<close>, \<open>Workqueue\<close>, \<open>Dataqueue\<close>, \<open>Waitqueue\<close>, \<open>Ringblk\<close>: the helpers of the device drivers
    in \<open>components/drivers/src/\<close> (\<open>ringbuffer.c\<close>, \<open>completion.c\<close>, \<open>workqueue.c\<close>, \<open>dataqueue.c\<close>, \<open>waitqueue.c\<close>, \<open>ringblk_buf.c\<close>). Those that
    block threads use \<open>Ipc_Base\<close>; their own control blocks are beside the kernel.
  \<^item> \<open>Device\<close>: \<open>src/device.c\<close>, on a kernel together with the devices and the data of their drivers.
  \<^item> \<open>Dfs_Path\<close>, \<open>Dfs\<close>, \<open>Dfs_Mount\<close>, \<open>Dfs_Files\<close>: the virtual file system in \<open>components/dfs/src/\<close> (\<open>dfs.c\<close>, \<open>dfs_fs.c\<close>,
    \<open>dfs_file.c\<close>). \<open>Dfs_Path\<close> has the paths, as bytes in a buffer; \<open>Dfs\<close> the descriptors, the tables and the operations on
    files; \<open>Dfs_Mount\<close> mounting and the lookup of a path; \<open>Dfs_Files\<close> what is shown of descriptors and of opening a file.
  \<^item> \<open>Dfs_Posix\<close>, \<open>Dfs_Refs\<close>, \<open>Dfs_Dir\<close>: \<open>components/dfs/src/dfs_posix.c\<close>. \<open>Dfs_Posix\<close> has the functions; \<open>Dfs_Refs\<close> runs of
    calls (\<open>posix_run\<close>) and the references to descriptors; \<open>Dfs_Dir\<close> directory streams and the working directory.
  \<^item> \<open>I2c\<close>, \<open>I2c_Wire\<close>, \<open>I2c_Data\<close>, \<open>I2c_Clock\<close>: the I2C bus in software, \<open>components/drivers/i2c/i2c-bit-ops.c\<close>, and the
    transfers of \<open>i2c_core.c\<close>. The state is the history of the operations on the pins. \<open>I2c_Wire\<close> says what a history puts on the
    two lines, \<open>I2c_Data\<close> which bytes are carried, \<open>I2c_Clock\<close> that transfers return.
  \<^item> \<open>Serial\<close>, \<open>Serial_Rx\<close>, \<open>Serial_Read\<close>, \<open>Serial_Open\<close>: the serial device, \<open>components/drivers/serial/serial.c\<close>, as a driver of
    \<open>Device\<close> (\<open>serial_driver\<close>) with the data of the driver in \<open>dv_user\<close>. \<open>Serial_Rx\<close> has the receive FIFO, \<open>Serial_Read\<close> readers that wait
    for the interrupt, \<open>Serial_Open\<close> the users of a device.
  \<^item> \<open>Pipe\<close>, \<open>Pipe_Data\<close>, \<open>Pipe_Wait\<close>: pipes, \<open>components/drivers/src/pipe.c\<close>, on \<open>Device\<close>, \<open>Ringbuffer\<close> and the wait queues. A read
    and a write of a file are the steps of \<open>reader\<close> and \<open>writer\<close>. \<open>Pipe_Data\<close> has the bytes in any interleaving (\<open>pipe_run\<close>), \<open>Pipe_Wait\<close>
    threads that wait, and the device.
  \<^item> \<open>Msh\<close>, \<open>Msh_Split\<close>, \<open>Msh_Exec\<close>, \<open>Shell\<close>, \<open>Shell_Edit\<close>: the shell, \<open>components/finsh/\<close> (\<open>msh.c\<close>, \<open>shell.c\<close>). \<open>Msh\<close> has the
    interpreter of command lines, \<open>Msh_Split\<close> its arguments, \<open>Msh_Exec\<close> the choice of the command; \<open>Shell\<close> is the thread that reads keys, one
    step for each character, and \<open>Shell_Edit\<close> the editor that it implements.

  \<^bold>\<open>How the code is modelled.\<close> A C function is a function on the state with the same name (lower-case, a suffix where
  one is needed). \<open>None\<close> is a failed \<open>RT_ASSERT\<close> or undefined behaviour; error codes are values. 32-bit values are
  words, and their arithmetic wraps. Sections with interrupts disabled are atomic. A function that may block is
  split at its call of \<open>rt_schedule\<close>: the definition with the suffix \<open>_end\<close> continues when the thread runs again,
  so that a property can put any number of other steps between the two. Loops over lists are structural. Loops
  that may not end are \<open>partial_function (option)\<close> (\<open>rt_timer_check\<close>, \<open>rt_event_send\<close>, \<open>rt_mq_recv\<close>,
  the search of \<open>rt_memheap_alloc\<close>, \<open>rt_thread_idle_excute\<close>, the loops of \<open>dfs_normalize_path\<close>, the loops over waiting threads and over the lists of
  \<open>Slist\<close>, \<open>Signals\<close> and \<open>Ringblk\<close>, the end of \<open>_workqueue_work_completion\<close>, the wait for the clock line of an I2C bus, the loops of
  \<open>Serial\<close> on what the UART answers, the loops of \<open>Msh\<close> over a line and of \<open>Pipe\<close>); there is no fuel, and
  that they end is proved where a property says that they return \<open>Some\<close>.

  \<^bold>\<open>Parameters\<close>, with the contracts under which properties use them: the functions of user timers (\<open>user\<close>, \<open>callback_ok\<close>:
  they return, keep the kernel invariant and start only timers), the cleanup functions of threads (\<open>cu\<close>,
  \<open>cleanup_ok\<close>), the hooks of the idle thread, the answer of \<open>rt_sem_take\<close> on the lock of a heap (\<open>lk\<close>), the handlers of
  signals (\<open>hf\<close>, \<open>pure_handlers\<close>: they only work on the data of the program), the wake functions of wait queues (\<open>fn\<close>), the functions of the drivers (\<open>drv\<close>,
  \<open>driver_ok\<close>: they leave the fields of the framework alone and do not refuse a close), the
  notification of a data queue (an event in the results), the functions of file systems (\<open>call\<close>, \<open>calls_ok\<close>: they do not
  change the table of file systems), whether there is memory for a path (\<open>mem\<close>, \<open>dup\<close>, \<open>grow\<close>; the record \<open>posix_env\<close> has them together for the functions of
  POSIX, whose contract \<open>keeps_fds\<close> is that a file system leaves the table of descriptors alone), what is in the buffer of a directory
  stream (\<open>dents\<close>), the levels that a board reads from the pins of an I2C bus and the tick, as functions of the history (\<open>responds\<close>:
  the clock goes high in time; \<open>runs\<close>: the tick runs), the functions of a UART (\<open>uart_ops\<close>), the functions of
  commands, the scripts and the names in directories (the record \<open>msh_env\<close>), and the
  addresses that \<open>rt_malloc\<close> returns to functions that create objects.

  \<^bold>\<open>What the lemmas show.\<close>

  \<^item> Invariants: every operation of \<open>Objects\<close>, \<open>Timer\<close>, \<open>Scheduler\<close>, \<open>Thread\<close> and the IPC theories keeps \<open>kinv\<close>: the
    bitmap agrees with the ready queues, every thread is in the list its state says, timers and stacks are
    in order. On top of it: tokens of a semaphore are conserved, a mutex has at most one owner, no thread waits
    for an event that has happened, the lists of a message queue and of a pool share no block.
  \<^item> Scheduling: the thread that runs is a ready thread of the highest priority; round robin; priority inheritance.
  \<^item> Hand-over: a released token, mutex, mail or event goes to the waiting thread that the code promises it to.
  \<^item> Refinement: the ring buffer, mailbox and message queue are bounded FIFOs; \<open>rt_event_send\<close> is one pass over
    the waiting threads; list pointers are lists; the wrapped comparison of ticks is the order of the deadlines.
  \<^item> The heap: blocks in use never overlap, what is returned is joined, a reallocation keeps the data.
  \<^item> Progress: \<open>rt_timer_check\<close> ends, a thread that sleeps is woken by the tick it asked for, one round of the idle
    thread reclaims all dynamic dead threads.
  \<^item> Drivers and signals: no wake-up of a completion or a wait queue is missed, a data queue is a FIFO, cancelling
    work waits for its end, the blocks of a ring never overlap, a signal is handled once and in the order in which it was sent,
    the reference count of a device is the number of its users.
  \<^item> Files: the rewriting of a path in its buffer is the walk over its components, the lookup finds the nearest mounted file
    system, the table of file systems stays well formed, references to descriptors are counted. After any sequence of
    POSIX calls the descriptors in use are those that were opened and not closed; \<open>readdir\<close> lists what the file system gave.
  \<^item> The I2C bus: a transfer puts only whole frames between a start and a stop condition on the lines, whatever the slaves answer; the
    bytes of a write and of a read are carried in order; it returns, also when the clock is held.
  \<^item> The serial device: its FIFO is a window on the last bytes that were not read, a reader that waits is served by the interrupt, and the
    driver keeps the contract \<open>driver_ok\<close> of the framework.
  \<^item> Pipes: in every interleaving of readers and writers a pipe is a queue of bytes; a write serves a reader that waits.
  \<^item> The shell: splitting a line in place gives its words, the command of the first word runs with them, and the line with its history is
    a text with a cursor, for every sequence of keys.
  \<^item> Errors: where the code breaks its own rules (sizes and indices that wrap, the retry loops of blocking calls, dead
    static threads, wake-ups that meet a timeout, blocked signals, paths above the root), a theorem has the input and what then happens.

  \<^bold>\<open>Not modelled.\<close> The SMP halves of the scheduler and of the IPC code, software timers, modules and light-weight
  processes are not compiled with this configuration, and neither are \<open>src/mem.c\<close> and \<open>src/slab.c\<close>. Hooks are left at
  their initial \<open>RT_NULL\<close>, apart from those of the idle thread. The theories other than \<open>Signals\<close> take threads that have no
  signals: their masks and lists have the initial values of \<open>rt_thread_init\<close>, for which
  \<open>rt_thread_handle_sig\<close> and \<open>rt_thread_free_sig\<close> do nothing. The context switch itself is assembly; formatted output
  and the console are output only. The device drivers (apart from the helpers above), the file
  systems behind the virtual file system, \<open>poll.c\<close> and \<open>select.c\<close>, the function \<open>pipe\<close>, listings and the shell commands themselves, the registration of an I2C bus and
  the mutex around its transfers, the C expressions of the shell and its login, network stacks, the board support and the
  applications are vendored or glue code that keeps no kernel state.
\<close>

end
